(* ===== verification/Prelude.thy ===== *)
theory Prelude
  imports Main "HOL-Library.Word" "HOL-Library.Monad_Syntax"
begin

text \<open>
  What every component of the development shares: the names of the machine types, the
  reading of a C++ \<open>assert\<close>, \<open>abort\<close> and of a throwing \<open>vector::at\<close> as the value
  \<open>None\<close>, the \<open>for\<close> loop as a monadic fold over the list of its indices, lookup and
  update of arrays, and the lemmas and rule collections the component proofs rest on.
\<close>

unbundle bit_operations_syntax

type_synonym u8 = "8 word"
type_synonym u32 = "32 word"
type_synonym u64 = "64 word"

named_theorems run_simps \<open>equations that execute a monadic step of a model\<close>
named_theorems len_simps \<open>lengths of arrays after an operation\<close>

section \<open>Fallible code\<close>

text \<open>
  A computation that the source may end by \<open>assert\<close>, \<open>abort\<close>, \<open>exit\<close> or by an
  uncaught exception has an \<open>option\<close> result: \<open>None\<close> is the process that dies there.
\<close>

definition assert_c :: "bool \<Rightarrow> unit option" where
  "assert_c b = (if b then Some () else None)"

lemma assert_c_True [simp, run_simps]: "assert_c True = Some ()"
  by (simp add: assert_c_def)

lemma assert_c_False [simp, run_simps]: "assert_c False = None"
  by (simp add: assert_c_def)

lemma assert_c_eq_Some [simp]: "assert_c b = Some u \<longleftrightarrow> b"
  by (simp add: assert_c_def)

lemma assert_c_eq_None [simp]: "assert_c b = None \<longleftrightarrow> \<not> b"
  by (simp add: assert_c_def)

lemma assert_c_bind [simp, run_simps]: "b \<Longrightarrow> assert_c b \<bind> f = f ()"
  by (simp add: assert_c_def)

lemma assert_c_bind_eq_Some:
  "(assert_c b \<bind> f = Some x) \<longleftrightarrow> b \<and> f () = Some x"
  by (simp add: assert_c_def)

text \<open>
  \<open>ok P m\<close>: the computation \<open>m\<close> returns, and its result satisfies \<open>P\<close> (total correctness). The
  rules in \<open>ok_intros\<close> take a sequence of steps apart.
\<close>

named_theorems ok_intros \<open>rules for \<open>ok\<close>\<close>

definition ok :: "('a \<Rightarrow> bool) \<Rightarrow> 'a option \<Rightarrow> bool" where
  "ok P m \<longleftrightarrow> (\<exists>x. m = Some x \<and> P x)"

lemma ok_Some [simp]: "ok P (Some x) \<longleftrightarrow> P x"
  by (simp add: ok_def)

lemma ok_None [simp]: "\<not> ok P None"
  by (simp add: ok_def)

lemma ok_SomeI [ok_intros]: "P x \<Longrightarrow> ok P (Some x)"
  by simp

lemma ok_bind [ok_intros]: "ok Q m \<Longrightarrow> (\<And>x. Q x \<Longrightarrow> ok P (f x)) \<Longrightarrow> ok P (m \<bind> f)"
  by (auto simp: ok_def)

lemma ok_mono: "ok Q m \<Longrightarrow> (\<And>x. Q x \<Longrightarrow> P x) \<Longrightarrow> ok P m"
  by (auto simp: ok_def)

lemma ok_conj: "ok P m \<Longrightarrow> ok Q m \<Longrightarrow> ok (\<lambda>x. P x \<and> Q x) m"
  by (auto simp: ok_def)

lemma ok_eq: "ok ((=) x) m \<longleftrightarrow> m = Some x"
  by (auto simp: ok_def)

lemma ok_True: "ok (\<lambda>_. True) m \<longleftrightarrow> (\<exists>x. m = Some x)"
  by (simp add: ok_def)

lemma ok_assert [ok_intros]: "b \<Longrightarrow> ok (\<lambda>_. True) (assert_c b)"
  by (simp add: ok_def)

section \<open>Loops\<close>

text \<open>
  \<open>foldM body s is\<close> runs \<open>body\<close> for each index of \<open>is\<close> in order, threading the state, and
  stops at the first failure. A loop \<open>for (i = a; i < b; i++)\<close> is \<open>foldM body s [a..<b]\<close>.
\<close>

primrec foldM :: "('s \<Rightarrow> 'a \<Rightarrow> 's option) \<Rightarrow> 's \<Rightarrow> 'a list \<Rightarrow> 's option" where
  "foldM f s [] = Some s"
| "foldM f s (x # xs) = f s x \<bind> (\<lambda>s'. foldM f s' xs)"

declare foldM.simps [run_simps]

lemma foldM_append: "foldM f s (xs @ ys) = foldM f s xs \<bind> (\<lambda>s'. foldM f s' ys)"
  by (induction xs arbitrary: s) simp_all

text \<open>The loop rule: an invariant that each iteration keeps holds after the loop, and the
  loop does not fail if no iteration does.\<close>

lemma foldM_invariant:
  assumes "I s" and "\<And>s x. x \<in> set xs \<Longrightarrow> I s \<Longrightarrow> \<exists>s'. f s x = Some s' \<and> I s'"
  shows "\<exists>s'. foldM f s xs = Some s' \<and> I s'"
  using assms
proof (induction xs arbitrary: s)
  case Nil
  then show ?case by simp
next
  case (Cons x xs)
  from Cons.prems obtain s1 where "f s x = Some s1" "I s1" by (metis list.set_intros(1))
  with Cons show ?case by auto
qed

lemma ok_foldM:
  assumes "I s" and "\<And>s x. x \<in> set xs \<Longrightarrow> I s \<Longrightarrow> ok I (f s x)"
  shows "ok I (foldM f s xs)"
  using assms foldM_invariant [of I s xs f] by (auto simp: ok_def)

lemma foldM_invariant_Some:
  assumes "foldM f s xs = Some s'" and "I s"
    and "\<And>s x s'. x \<in> set xs \<Longrightarrow> I s \<Longrightarrow> f s x = Some s' \<Longrightarrow> I s'"
  shows "I s'"
  using assms
proof (induction xs arbitrary: s)
  case Nil
  then show ?case by simp
next
  case (Cons x xs)
  from Cons.prems(1) obtain s1 where "f s x = Some s1" "foldM f s1 xs = Some s'"
    by (auto simp: bind_eq_Some_conv)
  with Cons.prems Cons.IH [of s1] show ?case by auto
qed

text \<open>The same rule with an invariant that speaks of the iteration number.\<close>

lemma foldM_upt_invariant:
  assumes "a \<le> b" and "I a s"
    and "\<And>i s. a \<le> i \<Longrightarrow> i < b \<Longrightarrow> I i s \<Longrightarrow> \<exists>s'. f s i = Some s' \<and> I (Suc i) s'"
  shows "\<exists>s'. foldM f s [a..<b] = Some s' \<and> I b s'"
  using assms
proof (induction "b - a" arbitrary: a s)
  case 0
  then show ?case by simp
next
  case (Suc n)
  then have "a < b" by simp
  with Suc.prems obtain s1 where s1: "f s a = Some s1" "I (Suc a) s1" by blast
  from \<open>a < b\<close> have upt: "[a..<b] = a # [Suc a..<b]" by (rule upt_conv_Cons)
  have "\<exists>s'. foldM f s1 [Suc a..<b] = Some s' \<and> I b s'"
    by (rule Suc.hyps(1)) (use Suc.hyps(2) Suc.prems(3) \<open>a < b\<close> s1 in auto)
  with s1 upt show ?case by simp
qed

lemma foldM_Some_eq_foldl: "foldM (\<lambda>s x. Some (g s x)) s xs = Some (foldl g s xs)"
  by (induction xs arbitrary: s) simp_all

section \<open>Arrays and vectors\<close>

text \<open>\<open>at_get\<close> and \<open>at_put\<close> are \<open>vector::at\<close>: an index out of range throws.\<close>

definition at_get :: "'a list \<Rightarrow> nat \<Rightarrow> 'a option" where
  "at_get xs i = (if i < length xs then Some (xs ! i) else None)"

definition at_put :: "'a list \<Rightarrow> nat \<Rightarrow> 'a \<Rightarrow> 'a list option" where
  "at_put xs i v = (if i < length xs then Some (xs[i := v]) else None)"

lemma at_get_Some [simp, run_simps]: "i < length xs \<Longrightarrow> at_get xs i = Some (xs ! i)"
  by (simp add: at_get_def)

lemma at_put_Some [simp, run_simps]: "i < length xs \<Longrightarrow> at_put xs i v = Some (xs[i := v])"
  by (simp add: at_put_def)

lemma at_get_None [simp]: "at_get xs i = None \<longleftrightarrow> length xs \<le> i"
  by (auto simp: at_get_def)

lemma at_put_None [simp]: "at_put xs i v = None \<longleftrightarrow> length xs \<le> i"
  by (auto simp: at_put_def)

lemma at_get_eq_Some: "at_get xs i = Some x \<longleftrightarrow> i < length xs \<and> xs ! i = x"
  by (auto simp: at_get_def)

lemma at_put_eq_Some: "at_put xs i v = Some ys \<longleftrightarrow> i < length xs \<and> ys = xs[i := v]"
  by (auto simp: at_put_def)

lemma length_at_put [len_simps]: "at_put xs i v = Some ys \<Longrightarrow> length ys = length xs"
  by (auto simp: at_put_def split: if_splits)

text \<open>Writing every cell of a range by index is \<open>map\<close> over the indices.\<close>

lemma foldl_list_update_map:
  assumes "n \<le> length xs"
  shows "foldl (\<lambda>ys i. ys[i := g i]) xs [0..<n] = map g [0..<n] @ drop n xs"
  using assms
proof (induction n)
  case 0
  then show ?case by simp
next
  case (Suc n)
  then have "drop n xs = xs ! n # drop (Suc n) xs"
    by (simp add: Cons_nth_drop_Suc)
  with Suc show ?case
    by (simp add: list_update_append nth_append)
qed

section \<open>Words\<close>

lemma unat_8_less [simp]: "unat (x :: u8) < 256"
  using unsigned_less [of x] by simp

lemma all_u8_by_nat: "(\<And>n. n < 256 \<Longrightarrow> P (of_nat n :: u8)) \<Longrightarrow> P x"
proof -
  assume *: "\<And>n. n < 256 \<Longrightarrow> P (of_nat n :: u8)"
  have "P (of_nat (unat x) :: u8)" by (rule *) simp
  then show "P x" by simp
qed

lemma u32_of_nat_pos: "0 < m \<Longrightarrow> m < 2 ^ 32 \<Longrightarrow> (0::u32) < of_nat m"
  by (simp add: word_less_nat_alt unat_of_nat)

lemma u32_unat_of_nat [simp]: "m < 2 ^ 32 \<Longrightarrow> unat (of_nat m :: u32) = m"
  by (simp add: unat_of_nat)

lemma u32_of_nat_inject: "m < 2 ^ 32 \<Longrightarrow> n < 2 ^ 32 \<Longrightarrow> (of_nat m :: u32) = of_nat n \<longleftrightarrow> m = n"
  by (metis u32_unat_of_nat)

lemma u64_unat_of_nat [simp]: "m < 2 ^ 64 \<Longrightarrow> unat (of_nat m :: u64) = m"
  by (simp add: unat_of_nat)

lemma unat_u32_less [simp]: "unat (x :: u32) < 4294967296"
  using unsigned_less [of x] by simp

lemma unat_u32_u64 [simp]: "unat (ucast (x :: u32) :: u64) = unat x"
proof -
  have "unat x < 2 ^ 64" using unat_u32_less [of x] by (simp del: unat_u32_less)
  then show ?thesis by (simp add: unsigned_ucast_eq take_bit_nat_eq_self)
qed

end
