(* ===== verification/Hardware_Model.thy ===== *)
theory Hardware_Model
  imports Prelude
begin

text \<open>
  The vocabulary of \<open>abstract_hardware_model.h\<close> the simulator's parts share: memory spaces, kinds
  of memory access, micro operations, the configuration of a core, and a memory access of a warp.
  A \<open>std::bitset<n>\<close> is the set of its positions; \<open>set\<close> and \<open>test\<close> past \<open>n\<close> throw, which is
  \<open>None\<close>. A \<open>std::map\<close> that is iterated is a list of pairs in the order of the keys.
\<close>

datatype memory_space =
    undefined_space | reg_space | local_space | shared_space | param_space_unclassified
  | param_space_kernel | param_space_local | const_space | tex_space | surf_space | global_space
  | generic_space | instruction_space

datatype mem_access_type =
    GLOBAL_ACC_R | LOCAL_ACC_R | CONST_ACC_R | TEXTURE_ACC_R | GLOBAL_ACC_W | LOCAL_ACC_W
  | L1_WRBK_ACC | L2_WRBK_ACC | INST_ACC_R | L1_WR_ALLOC_R | L2_WR_ALLOC_R

datatype uarch_op =
    NO_OP | ALU_OP | SFU_OP | ALU_SFU_OP | LOAD_OP | STORE_OP | BRANCH_OP | BARRIER_OP | MEMORY_BARRIER_OP
  | CALL_OPS | RET_OPS

datatype memory_op = no_memory_op | memory_load | memory_store

record core_config =
  warp_size :: nat
  gpgpu_coalesce_arch :: int
  shmem_limited_broadcast :: bool
  num_shmem_bank :: u32
  mem_warp_parts :: nat
  coal_disabled :: bool
  coal_disabled_dyn :: bool
  coal_line_num :: u32
  gpgpu_cache_texl1_linesize :: u32
  gpgpu_cache_constl1_linesize :: u32

record mem_access =
  ma_type :: mem_access_type
  ma_addr :: u64
  ma_size :: u32
  ma_write :: bool
  ma_warp_mask :: "nat set"
  ma_byte_mask :: "nat set"

text \<open>An address is cut to a 32 bit \<open>address_type\<close>.\<close>

definition line_size_based_tag_func :: "u64 \<Rightarrow> u64 \<Rightarrow> u32" where
  "line_size_based_tag_func address line_size = ucast (address AND NOT (line_size - 1))"

section \<open>Bitsets\<close>

definition bs_set :: "nat \<Rightarrow> nat \<Rightarrow> nat set \<Rightarrow> nat set option" where
  "bs_set n i s = (if i < n then Some (insert i s) else None)"

definition bs_test :: "nat \<Rightarrow> nat \<Rightarrow> nat set \<Rightarrow> bool option" where
  "bs_test n i s = (if i < n then Some (i \<in> s) else None)"

lemma bs_set_eq_Some: "bs_set n i s = Some t \<longleftrightarrow> i < n \<and> t = insert i s"
  by (auto simp: bs_set_def)

lemma bs_test_eq_Some: "bs_test n i s = Some b \<longleftrightarrow> i < n \<and> b = (i \<in> s)"
  by (auto simp: bs_test_def)

lemma bs_set_range:
  "foldM (\<lambda>s i. bs_set n (k + i) s) s [0..<m] = Some t \<longleftrightarrow> (m = 0 \<or> k + m \<le> n) \<and> t = s \<union> {k ..< k + m}"
proof (induction m arbitrary: t)
  case 0
  then show ?case by auto
next
  case (Suc m)
  show ?case
    by (auto simp: foldM_append bind_eq_Some_conv Suc bs_set_eq_Some)
qed

section \<open>Ordered maps\<close>

primrec omap_get :: "'v \<Rightarrow> 'k \<Rightarrow> ('k \<times> 'v) list \<Rightarrow> 'v" where
  "omap_get d k [] = d"
| "omap_get d k (x # xs) = (if k = fst x then snd x else omap_get d k xs)"

primrec omap_put :: "'k::linorder \<Rightarrow> 'v \<Rightarrow> ('k \<times> 'v) list \<Rightarrow> ('k \<times> 'v) list" where
  "omap_put k v [] = [(k, v)]"
| "omap_put k v (x # xs) =
     (if k = fst x then (k, v) # xs else if k < fst x then (k, v) # x # xs else x # omap_put k v xs)"

lemma omap_get_map_of: "omap_get d k m = (case map_of m k of None \<Rightarrow> d | Some v \<Rightarrow> v)"
  by (induction m) auto

lemma map_of_omap_put [simp]: "map_of (omap_put k v m) = (map_of m)(k \<mapsto> v)"
  by (induction m) auto

lemma keys_omap_put [simp]: "fst ` set (omap_put k v m) = insert k (fst ` set m)"
  by (induction m) auto

lemma sorted_omap_put:
  "sorted_wrt (<) (map fst m) \<Longrightarrow> sorted_wrt (<) (map fst (omap_put k v m))"
proof (induction m)
  case Nil
  then show ?case by simp
next
  case (Cons x xs)
  have "\<forall>a \<in> fst ` set (omap_put k v xs). fst x < a" if "\<not> k < fst x" "k \<noteq> fst x"
    using Cons.prems that by (auto simp: not_less_iff_gr_or_eq)
  with Cons show ?case by (auto simp: image_iff Ball_def)
qed

lemma omap_distinct: "sorted_wrt (<) (map fst m) \<Longrightarrow> distinct (map fst (m :: ('k::linorder \<times> 'v) list))"
  by (simp add: strict_sorted_iff)

lemma length_omap: "sorted_wrt (<) (map fst m) \<Longrightarrow> length m = card (fst ` set (m :: ('k::linorder \<times> 'v) list))"
  using distinct_card [OF omap_distinct] by fastforce

end
