(* ===== verification/Aes_Field.thy ===== *)
theory Aes_Field
  imports Prelude
begin

text \<open>
  What FIPS-197 says of bytes, independently of the tables of the program: the field of 256 elements, the substitution box
  as the inverse in it and an affine map, and the round constants as powers of \<open>x\<close>. To compare the tables with it
  entry by entry, the inverse is found with the powers of \<open>x + 1\<close>.
\<close>

section \<open>The specification\<close>

text \<open>The bytes as the field of FIPS-197, section 4: addition is \<open>XOR\<close>, \<open>xtime\<close> multiplies by \<open>x\<close> modulo
  \<open>x^8 + x^4 + x^3 + x + 1\<close>, and a product is formed bit by bit. The substitution box is the inverse in this field, with
  0 for 0, and then an affine map (section 5.1.1); the round constants are the powers of \<open>x\<close> (section 5.2).\<close>

definition xtime :: "u8 \<Rightarrow> u8" where
  "xtime a = push_bit 1 a XOR (if bit a 7 then 0x1b else 0)"

definition gf_mult :: "u8 \<Rightarrow> u8 \<Rightarrow> u8" where
  "gf_mult a b = foldl (\<lambda>r j. xtime r XOR (if bit b j then a else 0)) 0 [7, 6, 5, 4, 3, 2, 1, 0]"

definition gf_inverse :: "u8 \<Rightarrow> u8" where
  "gf_inverse a = (case find (\<lambda>b. gf_mult a b = 1) (map word_of_nat [0..<256]) of Some b \<Rightarrow> b | None \<Rightarrow> 0)"

definition fips_affine :: "u8 \<Rightarrow> u8" where
  "fips_affine b = b XOR word_rotl 1 b XOR word_rotl 2 b XOR word_rotl 3 b XOR word_rotl 4 b XOR 0x63"

definition fips_sbox :: "u8 \<Rightarrow> u8" where
  "fips_sbox a = fips_affine (gf_inverse a)"

definition fips_rcon :: "nat \<Rightarrow> u8" where
  "fips_rcon i = (xtime ^^ (i - 1)) 1"

text \<open>The example of section 4.2.\<close>

lemma gf_mult_example: "gf_mult 0x57 0x83 = 0xc1"
  by code_simp

lemma xtime_xor: "xtime (a XOR b) = xtime a XOR xtime b"
  by (cases "bit a 7"; cases "bit b 7") (simp_all add: xtime_def bit_simps push_bit_xor ac_simps)

lemma xtime_0 [simp]: "xtime 0 = 0"
  by (simp add: xtime_def)

section \<open>Powers of \<open>x + 1\<close>\<close>

text \<open>Multiplication by \<open>x + 1\<close>, whose powers are all the bytes but 0.\<close>

definition times3 :: "u8 \<Rightarrow> u8" where
  "times3 a = xtime a XOR a"

lemma times3_xor: "times3 (a XOR b) = times3 a XOR times3 b"
  by (simp add: times3_def xtime_xor ac_simps)

lemma times3_xtime: "times3 (xtime a) = xtime (times3 a)"
  by (simp add: times3_def xtime_xor)

lemma times3_0 [simp]: "times3 0 = 0"
  by (simp add: times3_def)

lemma foldl_times3: "foldl (\<lambda>r j. xtime r XOR (if P j then times3 a else 0)) (times3 r) js =
    times3 (foldl (\<lambda>r j. xtime r XOR (if P j then a else 0)) r js)"
proof (induction js arbitrary: r)
  case (Cons j js)
  have "xtime (times3 r) XOR (if P j then times3 a else 0) = times3 (xtime r XOR (if P j then a else 0))"
    by (simp add: times3_xor times3_xtime)
  then show ?case by (simp only: foldl.simps Cons.IH)
qed simp

lemma gf_mult_times3: "gf_mult (times3 a) b = times3 (gf_mult a b)"
  using foldl_times3 [of "bit b" a 0] by (simp add: gf_mult_def del: foldl.simps)

lemma gf_mult_0 [simp]: "gf_mult 0 b = 0"
  by (simp add: gf_mult_def)

lemma xtime_drop: "k < 8 \<Longrightarrow> xtime (drop_bit (Suc k) b) XOR (if bit b k then 1 else 0) = drop_bit k b"
proof (rule bit_word_eqI)
  fix n assume "k < 8" and "n < LENGTH(8)"
  then show "bit (xtime (drop_bit (Suc k) b) XOR (if bit b k then 1 else 0)) n = bit (drop_bit k b) n"
    by (cases n) (auto simp: xtime_def bit_simps simp del: push_bit_Suc dest: bit_imp_le_length)
qed

lemma gf_mult_1 [simp]: "gf_mult 1 b = b"
proof -
  have "drop_bit 8 b = 0" by (rule bit_word_eqI) (auto simp: bit_simps dest: bit_imp_le_length)
  then show ?thesis using xtime_drop [of 7 b] xtime_drop [of 6 b] xtime_drop [of 5 b] xtime_drop [of 4 b] xtime_drop [of 3 b]
    xtime_drop [of 2 b] xtime_drop [of 1 b] xtime_drop [of 0 b]
    by (simp add: gf_mult_def flip: numeral_2_eq_2)
qed

definition powers3 :: "u8 list" where
  "powers3 = [
   0x01, 0x03, 0x05, 0x0f, 0x11, 0x33, 0x55, 0xff, 0x1a, 0x2e, 0x72, 0x96, 0xa1, 0xf8, 0x13, 0x35,
   0x5f, 0xe1, 0x38, 0x48, 0xd8, 0x73, 0x95, 0xa4, 0xf7, 0x02, 0x06, 0x0a, 0x1e, 0x22, 0x66, 0xaa,
   0xe5, 0x34, 0x5c, 0xe4, 0x37, 0x59, 0xeb, 0x26, 0x6a, 0xbe, 0xd9, 0x70, 0x90, 0xab, 0xe6, 0x31,
   0x53, 0xf5, 0x04, 0x0c, 0x14, 0x3c, 0x44, 0xcc, 0x4f, 0xd1, 0x68, 0xb8, 0xd3, 0x6e, 0xb2, 0xcd,
   0x4c, 0xd4, 0x67, 0xa9, 0xe0, 0x3b, 0x4d, 0xd7, 0x62, 0xa6, 0xf1, 0x08, 0x18, 0x28, 0x78, 0x88,
   0x83, 0x9e, 0xb9, 0xd0, 0x6b, 0xbd, 0xdc, 0x7f, 0x81, 0x98, 0xb3, 0xce, 0x49, 0xdb, 0x76, 0x9a,
   0xb5, 0xc4, 0x57, 0xf9, 0x10, 0x30, 0x50, 0xf0, 0x0b, 0x1d, 0x27, 0x69, 0xbb, 0xd6, 0x61, 0xa3,
   0xfe, 0x19, 0x2b, 0x7d, 0x87, 0x92, 0xad, 0xec, 0x2f, 0x71, 0x93, 0xae, 0xe9, 0x20, 0x60, 0xa0,
   0xfb, 0x16, 0x3a, 0x4e, 0xd2, 0x6d, 0xb7, 0xc2, 0x5d, 0xe7, 0x32, 0x56, 0xfa, 0x15, 0x3f, 0x41,
   0xc3, 0x5e, 0xe2, 0x3d, 0x47, 0xc9, 0x40, 0xc0, 0x5b, 0xed, 0x2c, 0x74, 0x9c, 0xbf, 0xda, 0x75,
   0x9f, 0xba, 0xd5, 0x64, 0xac, 0xef, 0x2a, 0x7e, 0x82, 0x9d, 0xbc, 0xdf, 0x7a, 0x8e, 0x89, 0x80,
   0x9b, 0xb6, 0xc1, 0x58, 0xe8, 0x23, 0x65, 0xaf, 0xea, 0x25, 0x6f, 0xb1, 0xc8, 0x43, 0xc5, 0x54,
   0xfc, 0x1f, 0x21, 0x63, 0xa5, 0xf4, 0x07, 0x09, 0x1b, 0x2d, 0x77, 0x99, 0xb0, 0xcb, 0x46, 0xca,
   0x45, 0xcf, 0x4a, 0xde, 0x79, 0x8b, 0x86, 0x91, 0xa8, 0xe3, 0x3e, 0x42, 0xc6, 0x51, 0xf3, 0x0e,
   0x12, 0x36, 0x5a, 0xee, 0x29, 0x7b, 0x8d, 0x8c, 0x8f, 0x8a, 0x85, 0x94, 0xa7, 0xf2, 0x0d, 0x17,
   0x39, 0x4b, 0xdd, 0x7c, 0x84, 0x97, 0xa2, 0xfd, 0x1c, 0x24, 0x6c, 0xb4, 0xc7, 0x52, 0xf6]"

lemma length_powers3 [simp]: "length powers3 = 255"
  by (simp add: powers3_def)

lemma powers3_step: "map times3 powers3 = rotate1 powers3"
  by code_simp

lemma powers3_nth: "i < 255 \<Longrightarrow> powers3 ! i = (times3 ^^ i) 1"
proof (induction i)
  case 0
  show ?case by (simp add: powers3_def)
next
  case (Suc i)
  have "times3 (powers3 ! i) = map times3 powers3 ! i" using Suc.prems by simp
  also have "\<dots> = powers3 ! Suc i" unfolding powers3_step using Suc.prems by (simp add: nth_rotate1)
  finally show ?case using Suc by simp
qed

lemma powers3_wrap: "(times3 ^^ 255) 1 = 1"
proof -
  have "times3 (powers3 ! 254) = map times3 powers3 ! 254" by simp
  also have "\<dots> = 1" unfolding powers3_step by (simp add: nth_rotate1 powers3_def)
  finally show ?thesis using funpow_add [of 1 254 times3] powers3_nth [of 254] by simp
qed

text \<open>The exponents of the bytes 1 to 255.\<close>

definition log3 :: "nat list" where
  "log3 = [
   0, 25, 1, 50, 2, 26, 198, 75, 199, 27, 104, 51, 238, 223, 3, 100,
   4, 224, 14, 52, 141, 129, 239, 76, 113, 8, 200, 248, 105, 28, 193, 125,
   194, 29, 181, 249, 185, 39, 106, 77, 228, 166, 114, 154, 201, 9, 120, 101,
   47, 138, 5, 33, 15, 225, 36, 18, 240, 130, 69, 53, 147, 218, 142, 150,
   143, 219, 189, 54, 208, 206, 148, 19, 92, 210, 241, 64, 70, 131, 56, 102,
   221, 253, 48, 191, 6, 139, 98, 179, 37, 226, 152, 34, 136, 145, 16, 126,
   110, 72, 195, 163, 182, 30, 66, 58, 107, 40, 84, 250, 133, 61, 186, 43,
   121, 10, 21, 155, 159, 94, 202, 78, 212, 172, 229, 243, 115, 167, 87, 175,
   88, 168, 80, 244, 234, 214, 116, 79, 174, 233, 213, 231, 230, 173, 232, 44,
   215, 117, 122, 235, 22, 11, 245, 89, 203, 95, 176, 156, 169, 81, 160, 127,
   12, 246, 111, 23, 196, 73, 236, 216, 67, 31, 45, 164, 118, 123, 183, 204,
   187, 62, 90, 251, 96, 177, 134, 59, 82, 161, 108, 170, 85, 41, 157, 151,
   178, 135, 144, 97, 190, 220, 252, 188, 149, 207, 205, 55, 63, 91, 209, 83,
   57, 132, 60, 65, 162, 109, 71, 20, 42, 158, 93, 86, 242, 211, 171, 68,
   17, 146, 217, 35, 32, 46, 137, 180, 124, 184, 38, 119, 153, 227, 165, 103,
   74, 237, 222, 197, 49, 254, 24, 13, 99, 140, 128, 192, 247, 112, 7]"

lemma length_log3 [simp]: "length log3 = 255"
  by (simp add: log3_def)

lemma log3_less: "n < 255 \<Longrightarrow> log3 ! n < 255"
proof -
  have "list_all (\<lambda>i. i < 255) log3" by (simp add: log3_def)
  then show "n < 255 \<Longrightarrow> log3 ! n < 255" by (simp add: list_all_length)
qed

lemma powers3_log: "map (\<lambda>n. powers3 ! n) log3 = map word_of_nat [1..<256]"
  by code_simp

lemma powers3_all: "x \<noteq> 0 \<Longrightarrow> \<exists>i < 255. x = (times3 ^^ i) 1"
proof -
  assume x: "x \<noteq> 0"
  have "unat x < 256" using unsigned_less [of x, where 'a = nat] by simp
  moreover have "0 < unat x" using x by (simp add: unat_gt_0)
  ultimately obtain j where j: "unat x = Suc j" "j < 255" by (cases "unat x") simp_all
  have "powers3 ! (log3 ! j) = map (\<lambda>n. powers3 ! n) log3 ! j" using j by simp
  also have "\<dots> = word_of_nat (unat x)" unfolding powers3_log using j by simp
  finally have "x = (times3 ^^ (log3 ! j)) 1" using powers3_nth [OF log3_less [OF j(2)]] by simp
  then show ?thesis using log3_less [OF j(2)] by blast
qed

lemma funpow_comp: "(f ^^ m) ((f ^^ n) x) = (f ^^ (m + n)) x"
  by (simp add: funpow_add)

lemma times3_cycle: "(times3 ^^ 255) x = x"
proof (cases "x = 0")
  case True
  have "(times3 ^^ n) 0 = 0" for n by (induction n) simp_all
  with True show ?thesis by simp
next
  case False
  then obtain i where i: "x = (times3 ^^ i) 1" using powers3_all by blast
  then have "(times3 ^^ 255) x = (times3 ^^ i) ((times3 ^^ 255) 1)" by (simp only: funpow_comp add.commute)
  then show ?thesis using powers3_wrap i by simp
qed

lemma gf_mult_power: "gf_mult ((times3 ^^ i) a) b = (times3 ^^ i) (gf_mult a b)"
  by (induction i) (simp_all add: gf_mult_times3)

lemma gf_mult_eq_1: "i < 255 \<Longrightarrow> gf_mult ((times3 ^^ i) 1) b = 1 \<longleftrightarrow> b = (times3 ^^ (255 - i)) 1"
proof
  assume i: "i < 255" and "gf_mult ((times3 ^^ i) 1) b = 1"
  then have "(times3 ^^ i) b = 1" by (simp add: gf_mult_power)
  then have "(times3 ^^ (255 - i)) ((times3 ^^ i) b) = (times3 ^^ (255 - i)) 1" by simp
  then show "b = (times3 ^^ (255 - i)) 1" using i by (simp add: funpow_comp times3_cycle)
next
  assume "i < 255" and "b = (times3 ^^ (255 - i)) 1"
  then show "gf_mult ((times3 ^^ i) 1) b = 1" by (simp add: gf_mult_power funpow_comp powers3_wrap)
qed

text \<open>The inverse is one: a byte other than 0 times its inverse is 1.\<close>

lemma gf_inverse_power: "i < 255 \<Longrightarrow> gf_inverse ((times3 ^^ i) 1) = (times3 ^^ (255 - i)) 1"
proof -
  assume i: "i < 255"
  let ?xs = "map word_of_nat [0..<256] :: u8 list"
  have "b \<in> set ?xs" for b :: u8
    using unsigned_less [of b, where 'a = nat] by (auto simp: image_iff intro!: bexI [of _ "unat b"])
  then have "find (\<lambda>b. b = (times3 ^^ (255 - i)) 1) ?xs = Some ((times3 ^^ (255 - i)) 1)"
    by (cases "find (\<lambda>b. b = (times3 ^^ (255 - i)) 1) ?xs") (auto simp: find_None_iff find_Some_iff)
  then show ?thesis unfolding gf_inverse_def gf_mult_eq_1 [OF i] by simp
qed

lemma gf_mult_inverse: "a \<noteq> 0 \<Longrightarrow> gf_mult a (gf_inverse a) = 1"
  using powers3_all [of a] by (auto simp: gf_inverse_power gf_mult_eq_1)

lemma gf_inverse_0: "gf_inverse 0 = 0"
proof -
  have "find (\<lambda>b. False) xs = None" for xs :: "u8 list" by (induction xs) simp_all
  then show ?thesis by (simp add: gf_inverse_def)
qed

end
