(* ===== verification/Aes_Op.thy ===== *)
theory Aes_Op
  imports Aes_Field
begin

text \<open>
  The AES-128 byte operations and the key schedule of \<open>AES_gpgpusim/aes-op.cpp\<close>, which the
  side channel analysis uses to walk between the cipher key and the last round key.
  A \<open>vector\<close> is a list and \<open>vector::at\<close> fails out of range, so every operation on a
  vector has an \<open>option\<close> result.
\<close>

section \<open>Lookup tables\<close>

definition sbox :: "u8 list" where
  "sbox = [
   0x63, 0x7c, 0x77, 0x7b, 0xf2, 0x6b, 0x6f, 0xc5, 0x30, 0x01, 0x67, 0x2b, 0xfe, 0xd7, 0xab, 0x76,
   0xca, 0x82, 0xc9, 0x7d, 0xfa, 0x59, 0x47, 0xf0, 0xad, 0xd4, 0xa2, 0xaf, 0x9c, 0xa4, 0x72, 0xc0,
   0xb7, 0xfd, 0x93, 0x26, 0x36, 0x3f, 0xf7, 0xcc, 0x34, 0xa5, 0xe5, 0xf1, 0x71, 0xd8, 0x31, 0x15,
   0x04, 0xc7, 0x23, 0xc3, 0x18, 0x96, 0x05, 0x9a, 0x07, 0x12, 0x80, 0xe2, 0xeb, 0x27, 0xb2, 0x75,
   0x09, 0x83, 0x2c, 0x1a, 0x1b, 0x6e, 0x5a, 0xa0, 0x52, 0x3b, 0xd6, 0xb3, 0x29, 0xe3, 0x2f, 0x84,
   0x53, 0xd1, 0x00, 0xed, 0x20, 0xfc, 0xb1, 0x5b, 0x6a, 0xcb, 0xbe, 0x39, 0x4a, 0x4c, 0x58, 0xcf,
   0xd0, 0xef, 0xaa, 0xfb, 0x43, 0x4d, 0x33, 0x85, 0x45, 0xf9, 0x02, 0x7f, 0x50, 0x3c, 0x9f, 0xa8,
   0x51, 0xa3, 0x40, 0x8f, 0x92, 0x9d, 0x38, 0xf5, 0xbc, 0xb6, 0xda, 0x21, 0x10, 0xff, 0xf3, 0xd2,
   0xcd, 0x0c, 0x13, 0xec, 0x5f, 0x97, 0x44, 0x17, 0xc4, 0xa7, 0x7e, 0x3d, 0x64, 0x5d, 0x19, 0x73,
   0x60, 0x81, 0x4f, 0xdc, 0x22, 0x2a, 0x90, 0x88, 0x46, 0xee, 0xb8, 0x14, 0xde, 0x5e, 0x0b, 0xdb,
   0xe0, 0x32, 0x3a, 0x0a, 0x49, 0x06, 0x24, 0x5c, 0xc2, 0xd3, 0xac, 0x62, 0x91, 0x95, 0xe4, 0x79,
   0xe7, 0xc8, 0x37, 0x6d, 0x8d, 0xd5, 0x4e, 0xa9, 0x6c, 0x56, 0xf4, 0xea, 0x65, 0x7a, 0xae, 0x08,
   0xba, 0x78, 0x25, 0x2e, 0x1c, 0xa6, 0xb4, 0xc6, 0xe8, 0xdd, 0x74, 0x1f, 0x4b, 0xbd, 0x8b, 0x8a,
   0x70, 0x3e, 0xb5, 0x66, 0x48, 0x03, 0xf6, 0x0e, 0x61, 0x35, 0x57, 0xb9, 0x86, 0xc1, 0x1d, 0x9e,
   0xe1, 0xf8, 0x98, 0x11, 0x69, 0xd9, 0x8e, 0x94, 0x9b, 0x1e, 0x87, 0xe9, 0xce, 0x55, 0x28, 0xdf,
   0x8c, 0xa1, 0x89, 0x0d, 0xbf, 0xe6, 0x42, 0x68, 0x41, 0x99, 0x2d, 0x0f, 0xb0, 0x54, 0xbb, 0x16]"

definition inv_sbox :: "u8 list" where
  "inv_sbox = [
   0x52, 0x09, 0x6a, 0xd5, 0x30, 0x36, 0xa5, 0x38, 0xbf, 0x40, 0xa3, 0x9e, 0x81, 0xf3, 0xd7, 0xfb,
   0x7c, 0xe3, 0x39, 0x82, 0x9b, 0x2f, 0xff, 0x87, 0x34, 0x8e, 0x43, 0x44, 0xc4, 0xde, 0xe9, 0xcb,
   0x54, 0x7b, 0x94, 0x32, 0xa6, 0xc2, 0x23, 0x3d, 0xee, 0x4c, 0x95, 0x0b, 0x42, 0xfa, 0xc3, 0x4e,
   0x08, 0x2e, 0xa1, 0x66, 0x28, 0xd9, 0x24, 0xb2, 0x76, 0x5b, 0xa2, 0x49, 0x6d, 0x8b, 0xd1, 0x25,
   0x72, 0xf8, 0xf6, 0x64, 0x86, 0x68, 0x98, 0x16, 0xd4, 0xa4, 0x5c, 0xcc, 0x5d, 0x65, 0xb6, 0x92,
   0x6c, 0x70, 0x48, 0x50, 0xfd, 0xed, 0xb9, 0xda, 0x5e, 0x15, 0x46, 0x57, 0xa7, 0x8d, 0x9d, 0x84,
   0x90, 0xd8, 0xab, 0x00, 0x8c, 0xbc, 0xd3, 0x0a, 0xf7, 0xe4, 0x58, 0x05, 0xb8, 0xb3, 0x45, 0x06,
   0xd0, 0x2c, 0x1e, 0x8f, 0xca, 0x3f, 0x0f, 0x02, 0xc1, 0xaf, 0xbd, 0x03, 0x01, 0x13, 0x8a, 0x6b,
   0x3a, 0x91, 0x11, 0x41, 0x4f, 0x67, 0xdc, 0xea, 0x97, 0xf2, 0xcf, 0xce, 0xf0, 0xb4, 0xe6, 0x73,
   0x96, 0xac, 0x74, 0x22, 0xe7, 0xad, 0x35, 0x85, 0xe2, 0xf9, 0x37, 0xe8, 0x1c, 0x75, 0xdf, 0x6e,
   0x47, 0xf1, 0x1a, 0x71, 0x1d, 0x29, 0xc5, 0x89, 0x6f, 0xb7, 0x62, 0x0e, 0xaa, 0x18, 0xbe, 0x1b,
   0xfc, 0x56, 0x3e, 0x4b, 0xc6, 0xd2, 0x79, 0x20, 0x9a, 0xdb, 0xc0, 0xfe, 0x78, 0xcd, 0x5a, 0xf4,
   0x1f, 0xdd, 0xa8, 0x33, 0x88, 0x07, 0xc7, 0x31, 0xb1, 0x12, 0x10, 0x59, 0x27, 0x80, 0xec, 0x5f,
   0x60, 0x51, 0x7f, 0xa9, 0x19, 0xb5, 0x4a, 0x0d, 0x2d, 0xe5, 0x7a, 0x9f, 0x93, 0xc9, 0x9c, 0xef,
   0xa0, 0xe0, 0x3b, 0x4d, 0xae, 0x2a, 0xf5, 0xb0, 0xc8, 0xeb, 0xbb, 0x3c, 0x83, 0x53, 0x99, 0x61,
   0x17, 0x2b, 0x04, 0x7e, 0xba, 0x77, 0xd6, 0x26, 0xe1, 0x69, 0x14, 0x63, 0x55, 0x21, 0x0c, 0x7d]"

definition rcon :: "u8 list" where
  "rcon = [
   0x8d, 0x01, 0x02, 0x04, 0x08, 0x10, 0x20, 0x40, 0x80, 0x1b, 0x36, 0x6c, 0xd8, 0xab, 0x4d, 0x9a,
   0x2f, 0x5e, 0xbc, 0x63, 0xc6, 0x97, 0x35, 0x6a, 0xd4, 0xb3, 0x7d, 0xfa, 0xef, 0xc5, 0x91, 0x39,
   0x72, 0xe4, 0xd3, 0xbd, 0x61, 0xc2, 0x9f, 0x25, 0x4a, 0x94, 0x33, 0x66, 0xcc, 0x83, 0x1d, 0x3a,
   0x74, 0xe8, 0xcb, 0x8d, 0x01, 0x02, 0x04, 0x08, 0x10, 0x20, 0x40, 0x80, 0x1b, 0x36, 0x6c, 0xd8,
   0xab, 0x4d, 0x9a, 0x2f, 0x5e, 0xbc, 0x63, 0xc6, 0x97, 0x35, 0x6a, 0xd4, 0xb3, 0x7d, 0xfa, 0xef,
   0xc5, 0x91, 0x39, 0x72, 0xe4, 0xd3, 0xbd, 0x61, 0xc2, 0x9f, 0x25, 0x4a, 0x94, 0x33, 0x66, 0xcc,
   0x83, 0x1d, 0x3a, 0x74, 0xe8, 0xcb, 0x8d, 0x01, 0x02, 0x04, 0x08, 0x10, 0x20, 0x40, 0x80, 0x1b,
   0x36, 0x6c, 0xd8, 0xab, 0x4d, 0x9a, 0x2f, 0x5e, 0xbc, 0x63, 0xc6, 0x97, 0x35, 0x6a, 0xd4, 0xb3,
   0x7d, 0xfa, 0xef, 0xc5, 0x91, 0x39, 0x72, 0xe4, 0xd3, 0xbd, 0x61, 0xc2, 0x9f, 0x25, 0x4a, 0x94,
   0x33, 0x66, 0xcc, 0x83, 0x1d, 0x3a, 0x74, 0xe8, 0xcb, 0x8d, 0x01, 0x02, 0x04, 0x08, 0x10, 0x20,
   0x40, 0x80, 0x1b, 0x36, 0x6c, 0xd8, 0xab, 0x4d, 0x9a, 0x2f, 0x5e, 0xbc, 0x63, 0xc6, 0x97, 0x35,
   0x6a, 0xd4, 0xb3, 0x7d, 0xfa, 0xef, 0xc5, 0x91, 0x39, 0x72, 0xe4, 0xd3, 0xbd, 0x61, 0xc2, 0x9f,
   0x25, 0x4a, 0x94, 0x33, 0x66, 0xcc, 0x83, 0x1d, 0x3a, 0x74, 0xe8, 0xcb, 0x8d, 0x01, 0x02, 0x04,
   0x08, 0x10, 0x20, 0x40, 0x80, 0x1b, 0x36, 0x6c, 0xd8, 0xab, 0x4d, 0x9a, 0x2f, 0x5e, 0xbc, 0x63,
   0xc6, 0x97, 0x35, 0x6a, 0xd4, 0xb3, 0x7d, 0xfa, 0xef, 0xc5, 0x91, 0x39, 0x72, 0xe4, 0xd3, 0xbd,
   0x61, 0xc2, 0x9f, 0x25, 0x4a, 0x94, 0x33, 0x66, 0xcc, 0x83, 0x1d, 0x3a, 0x74, 0xe8, 0xcb, 0x8d]"

section \<open>Byte operations\<close>

definition sub_bytes :: "u8 \<Rightarrow> u8" where
  "sub_bytes value = sbox ! unat value"

definition inv_sub_bytes :: "u8 \<Rightarrow> u8" where
  "inv_sub_bytes value = inv_sbox ! unat value"

definition add_round_key :: "u8 \<Rightarrow> u8 \<Rightarrow> u8" where
  "add_round_key key value = key XOR value"

definition sub_bytes_full :: "u8 list \<Rightarrow> u8 list option" where
  "sub_bytes_full text =
     foldM (\<lambda>text i. do { v \<leftarrow> at_get text i; at_put text i (sub_bytes v) }) text [0..<16]"

definition add_round_key_full :: "u8 list \<Rightarrow> u8 list \<Rightarrow> u8 list option" where
  "add_round_key_full text key =
     foldM (\<lambda>text i. do { k \<leftarrow> at_get key i; v \<leftarrow> at_get text i; at_put text i (add_round_key k v) })
       text [0..<16]"

text \<open>\<open>shift_rows\<close> returns the new row and column through its reference arguments.\<close>

definition shift_rows :: "int \<Rightarrow> int \<Rightarrow> int \<times> int" where
  "shift_rows old_row old_col =
     (let new_row = old_row;
          new_col = old_col - old_row;
          new_col = (if new_col < 0 then new_col + 4 else new_col)
      in (new_row, new_col))"

definition inv_shift_rows :: "int \<Rightarrow> int \<Rightarrow> int \<times> int" where
  "inv_shift_rows old_row old_col =
     (let new_row = old_row;
          new_col = old_col + old_row;
          new_col = (if new_col < 0 then new_col + 4 else new_col)
      in (new_row, new_col))"

text \<open>An index is computed as \<open>int\<close> and converted to the unsigned index of \<open>at\<close>; a
  negative index becomes a huge one, which is out of range like a too large one.\<close>

definition at_int_get :: "'a list \<Rightarrow> int \<Rightarrow> 'a option" where
  "at_int_get xs i = (if 0 \<le> i then at_get xs (nat i) else None)"

definition at_int_put :: "'a list \<Rightarrow> int \<Rightarrow> 'a \<Rightarrow> 'a list option" where
  "at_int_put xs i v = (if 0 \<le> i then at_put xs (nat i) v else None)"

definition shift_rows_full :: "u8 list \<Rightarrow> u8 list option" where
  "shift_rows_full text =
     foldM (\<lambda>text i. do {
         let (new_row, new_col) = shift_rows (int i div 4) (int i mod 4);
         let new_index = new_row * 4 + new_col;
         v \<leftarrow> at_get text i;
         at_int_put text new_index v
       }) text [0..<16]"

section \<open>Key schedule\<close>

definition at2_get :: "'a list list \<Rightarrow> nat \<Rightarrow> nat \<Rightarrow> 'a option" where
  "at2_get m i j = do { r \<leftarrow> at_get m i; at_get r j }"

definition at2_put :: "'a list list \<Rightarrow> nat \<Rightarrow> nat \<Rightarrow> 'a \<Rightarrow> 'a list list option" where
  "at2_put m i j v = do { r \<leftarrow> at_get m i; r' \<leftarrow> at_put r j v; at_put m i r' }"

text \<open>
  The rotation and substitution of the last column and the round constant: the loop that fills
  \<open>t\<close> from \<open>last\<close> and the line after it, the same in \<open>key_expand\<close> and \<open>inv_key_expand\<close>.
\<close>

definition key_core :: "u8 list \<Rightarrow> u8 \<Rightarrow> u8 list" where
  "key_core lst r =
     (let t = foldl (\<lambda>t j. if j \<noteq> 3 then t[j := sub_bytes (lst ! (j + 1))]
                           else t[3 := sub_bytes (lst ! 0)]) (replicate 4 0) [0..<4]
      in t[0 := t ! 0 XOR r])"

definition read_last :: "u8 list list \<Rightarrow> nat \<Rightarrow> u8 list option" where
  "read_last tab i =
     foldM (\<lambda>lst j. do { v \<leftarrow> at2_get tab i (j + 12); Some (lst[j := v]) })
       (replicate 4 0) [0..<4]"

text \<open>One iteration of the round loop of \<open>key_expand\<close>.\<close>

definition key_expand_round :: "u8 list list \<Rightarrow> nat \<Rightarrow> u8 list list option" where
  "key_expand_round key_out i = do {
     lst \<leftarrow> read_last key_out (i - 1);
     let t = key_core lst (rcon ! i);
     key_out \<leftarrow> foldM (\<lambda>key_out j. do {
         v \<leftarrow> at2_get key_out (i - 1) j;
         at2_put key_out i j (t ! j XOR v) }) key_out [0..<4];
     foldM (\<lambda>key_out j. foldM (\<lambda>key_out k. do {
         a \<leftarrow> at2_get key_out i (j * 4 + k - 4);
         b \<leftarrow> at2_get key_out (i - 1) (j * 4 + k);
         at2_put key_out i (j * 4 + k) (a XOR b) }) key_out [4..<8]) key_out [0..<3]
   }"

definition key_expand :: "u8 list \<Rightarrow> u8 list list \<Rightarrow> u8 list list option" where
  "key_expand key_in key_out = do {
     key_out \<leftarrow> foldM (\<lambda>key_out i. do {
         v \<leftarrow> at_get key_in i;
         at2_put key_out 0 i v }) key_out [0..<16];
     foldM key_expand_round key_out [1..<11]
   }"

text \<open>One iteration of the loop of \<open>inv_key_expand\<close>, which counts \<open>i\<close> from 9 down to 0.\<close>

definition inv_key_round :: "u8 list list \<Rightarrow> nat \<Rightarrow> u8 list list option" where
  "inv_key_round key_tab i = do {
     key_tab \<leftarrow> foldM (\<lambda>key_tab j. foldM (\<lambda>key_tab k. do {
         a \<leftarrow> at2_get key_tab (i + 1) (j * 4 + k - 4);
         b \<leftarrow> at2_get key_tab (i + 1) (j * 4 + k);
         at2_put key_tab i (j * 4 + k) (a XOR b) }) key_tab [4..<8]) key_tab [0..<3];
     lst \<leftarrow> read_last key_tab i;
     let t = key_core lst (rcon ! (i + 1));
     foldM (\<lambda>key_tab j. do {
         v \<leftarrow> at2_get key_tab (i + 1) j;
         at2_put key_tab i j (t ! j XOR v) }) key_tab [0..<4]
   }"

definition inv_key_expand :: "u8 list \<Rightarrow> u8 list \<Rightarrow> u8 list option" where
  "inv_key_expand key_out key_in = do {
     let key_tab = replicate 11 (replicate 16 0);
     key_tab \<leftarrow> foldM (\<lambda>key_tab i. do {
         v \<leftarrow> at_get key_out i;
         at2_put key_tab 10 i v }) key_tab [0..<16];
     key_tab \<leftarrow> foldM inv_key_round key_tab (rev [0..<10]);
     foldM (\<lambda>key_in i. do {
         v \<leftarrow> at2_get key_tab 0 i;
         at_put key_in i v }) key_in [0..<16]
   }"

section \<open>The substitution box and its inverse\<close>

lemma length_sbox [simp]: "length sbox = 256"
  by (simp add: sbox_def)

lemma length_inv_sbox [simp]: "length inv_sbox = 256"
  by (simp add: inv_sbox_def)

lemma length_rcon [simp]: "length rcon = 256"
  by (simp add: rcon_def)

lemma inv_sbox_table: "map (\<lambda>v. inv_sbox ! unat v) sbox = map word_of_nat [0..<256]"
  by code_simp

lemma sbox_table: "map (\<lambda>v. sbox ! unat v) inv_sbox = map word_of_nat [0..<256]"
  by code_simp

lemma inv_sub_bytes_sub_bytes [simp]: "inv_sub_bytes (sub_bytes x) = x"
proof -
  have "map (\<lambda>v. inv_sbox ! unat v) sbox ! unat x = map word_of_nat [0..<256] ! unat x"
    by (simp only: inv_sbox_table)
  then show ?thesis by (simp add: inv_sub_bytes_def sub_bytes_def)
qed

lemma sub_bytes_inv_sub_bytes [simp]: "sub_bytes (inv_sub_bytes x) = x"
proof -
  have "map (\<lambda>v. sbox ! unat v) inv_sbox ! unat x = map word_of_nat [0..<256] ! unat x"
    by (simp only: sbox_table)
  then show ?thesis by (simp add: inv_sub_bytes_def sub_bytes_def)
qed

section \<open>The tables are those of FIPS-197\<close>

lemma powers3_sbox: "map (\<lambda>v. sbox ! unat v) powers3 = map fips_affine (hd powers3 # rev (tl powers3))"
  by code_simp


lemma sub_bytes_fips: "sub_bytes x = fips_sbox x"
proof (cases "x = 0")
  case True
  then show ?thesis by (simp add: fips_sbox_def gf_inverse_0 sub_bytes_def sbox_def fips_affine_def)
next
  case False
  then obtain i where i: "i < 255" "x = (times3 ^^ i) 1" using powers3_all by blast
  have "sub_bytes x = map (\<lambda>v. sbox ! unat v) powers3 ! i" using i by (simp add: sub_bytes_def powers3_nth)
  also have "\<dots> = fips_affine ((hd powers3 # rev (tl powers3)) ! i)" unfolding powers3_sbox
    by (rule nth_map) (use i(1) in simp)
  also have "(hd powers3 # rev (tl powers3)) ! i = (times3 ^^ (255 - i)) 1"
  proof (cases i)
    case 0
    then show ?thesis by (simp add: powers3_wrap) (simp add: powers3_def)
  next
    case (Suc j)
    then have "(hd powers3 # rev (tl powers3)) ! i = powers3 ! (255 - i)"
      using i(1) by (simp add: rev_nth nth_tl flip: Suc_diff_le)
    then show ?thesis using powers3_nth [of "255 - i"] i(1) Suc by simp
  qed
  also have "fips_affine ((times3 ^^ (255 - i)) 1) = fips_sbox x" using i by (simp add: fips_sbox_def gf_inverse_power)
  finally show ?thesis .
qed

lemma rcon_step: "map xtime (butlast (tl rcon)) = tl (tl rcon)"
  by code_simp

lemma rcon_fips: "0 < i \<Longrightarrow> i < 256 \<Longrightarrow> rcon ! i = fips_rcon i"
proof (induction i)
  case (Suc i)
  show ?case
  proof (cases "i = 0")
    case True
    then show ?thesis by (simp add: fips_rcon_def rcon_def)
  next
    case False
    have "rcon ! Suc i = tl (tl rcon) ! (i - 1)" using Suc.prems False by (simp add: nth_tl)
    also have "\<dots> = xtime (rcon ! i)" unfolding rcon_step [symmetric] using Suc.prems False by (simp add: nth_butlast nth_tl)
    also have "\<dots> = fips_rcon (Suc i)" using Suc False by (cases i) (simp_all add: fips_rcon_def)
    finally show ?thesis .
  qed
qed simp

section \<open>Whole-state operations\<close>

lemma upt16: "[0..<16] = [0,1,2,3,4,5,6,7,8,9,10,11,12,13,14,15]"
  by (simp add: upt_rec)

lemma list16:
  assumes "length xs = 16"
  shows "xs = [xs!0, xs!1, xs!2, xs!3, xs!4, xs!5, xs!6, xs!7, xs!8, xs!9, xs!10, xs!11,
    xs!12, xs!13, xs!14, xs!15]"
proof -
  have "xs = map ((!) xs) [0..<16]" using assms by (metis map_nth)
  then show ?thesis by (simp add: upt16)
qed

lemma list16E:
  assumes "length xs = 16"
  obtains a b c d e f g h i j k l m n p q where "xs = [a,b,c,d,e,f,g,h,i,j,k,l,m,n,p,q]"
  using list16 [OF assms] by blast

lemma sub_bytes_full_eq: "length text = 16 \<Longrightarrow> sub_bytes_full text = Some (map sub_bytes text)"
  by (erule list16E) (simp add: sub_bytes_full_def upt16)

lemma add_round_key_full_eq:
  assumes "length text = 16" and "length key = 16"
  shows "add_round_key_full text key = Some (map2 add_round_key key text)"
  using assms by (auto elim!: list16E simp: add_round_key_full_def upt16)

lemma shift_rows_full_eq:
  "shift_rows_full [a0,a1,a2,a3, b0,b1,b2,b3, c0,c1,c2,c3, d0,d1,d2,d3] =
   Some [a0,a1,a2,a3, b1,b2,b0,b0, c0,c1,c0,c1, d0,d0,d0,d0]"
  by (simp add: shift_rows_full_def upt16 shift_rows_def at_int_put_def)

section \<open>The key schedule as FIPS-197 states it\<close>

text \<open>
  The round key of round \<open>i\<close> as a function of the one before: the first word is the old first
  word plus the transformed last word, every further word the old word plus its left neighbour. The substitution box and
  the round constants are the ones computed in the field, not the tables.
\<close>

definition xor4 :: "u8 list \<Rightarrow> u8 list \<Rightarrow> u8 list" where
  "xor4 xs ys = map2 (XOR) xs ys"

definition rot_word :: "u8 list \<Rightarrow> u8 list" where
  "rot_word xs = rotate1 xs"

definition sched_g :: "nat \<Rightarrow> u8 list \<Rightarrow> u8 list" where
  "sched_g i w = xor4 (map fips_sbox (rot_word w)) [fips_rcon i, 0, 0, 0]"

definition next_key :: "nat \<Rightarrow> u8 list \<Rightarrow> u8 list" where
  "next_key i k =
     (let w0 = xor4 (sched_g i (drop 12 k)) (take 4 k);
          w1 = xor4 w0 (take 4 (drop 4 k));
          w2 = xor4 w1 (take 4 (drop 8 k));
          w3 = xor4 w2 (drop 12 k)
      in w0 @ w1 @ w2 @ w3)"

definition prev_key :: "nat \<Rightarrow> u8 list \<Rightarrow> u8 list" where
  "prev_key i k =
     (let w1 = xor4 (take 4 k) (take 4 (drop 4 k));
          w2 = xor4 (take 4 (drop 4 k)) (take 4 (drop 8 k));
          w3 = xor4 (take 4 (drop 8 k)) (drop 12 k);
          w0 = xor4 (sched_g i w3) (take 4 k)
      in w0 @ w1 @ w2 @ w3)"

primrec round_key :: "u8 list \<Rightarrow> nat \<Rightarrow> u8 list" where
  "round_key k 0 = k"
| "round_key k (Suc i) = next_key (Suc i) (round_key k i)"

lemma length_next_key [simp, len_simps]: "length k = 16 \<Longrightarrow> length (next_key i k) = 16"
  by (erule list16E) (simp add: next_key_def xor4_def sched_g_def rot_word_def)

lemma length_prev_key [simp, len_simps]: "length k = 16 \<Longrightarrow> length (prev_key i k) = 16"
  by (erule list16E) (simp add: prev_key_def xor4_def sched_g_def rot_word_def)

lemma length_round_key [simp, len_simps]: "length k = 16 \<Longrightarrow> length (round_key k i) = 16"
  by (induction i) simp_all

lemma xor_cancel_word [simp]: "(x :: 'a::len word) XOR (x XOR y) = y"
  by (simp flip: xor.assoc)

lemma xor_cancel_word_r [simp]: "((y :: 'a::len word) XOR x) XOR x = y"
  by (simp add: xor.assoc)

lemma prev_key_next_key [simp]: "length k = 16 \<Longrightarrow> prev_key i (next_key i k) = k"
  by (erule list16E)
    (simp add: prev_key_def next_key_def xor4_def sched_g_def rot_word_def ac_simps)

lemma next_key_prev_key [simp]: "length k = 16 \<Longrightarrow> next_key i (prev_key i k) = k"
  by (erule list16E)
    (simp add: prev_key_def next_key_def xor4_def sched_g_def rot_word_def ac_simps)

section \<open>The loops compute the schedule\<close>

lemma key_core_eq: "key_core [a, b, c, d] r =
   [fips_sbox b XOR r, fips_sbox c, fips_sbox d, fips_sbox a]"
  by (simp add: key_core_def sub_bytes_fips upt_rec eval_nat_numeral)

lemma at2_get_Some [simp]:
  "i < length m \<Longrightarrow> j < length (m ! i) \<Longrightarrow> at2_get m i j = Some (m ! i ! j)"
  by (simp add: at2_get_def)

lemma at2_put_Some [simp]:
  "i < length m \<Longrightarrow> j < length (m ! i) \<Longrightarrow>
   at2_put m i j v = Some (m[i := (m ! i)[j := v]])"
  by (simp add: at2_put_def)

lemma read_last_eq:
  assumes "i < length tab" and "length (tab ! i) = 16"
  shows "read_last tab i = Some (drop 12 (tab ! i))"
proof -
  obtain a b c d e f g h x j k l m n p q where
    "tab ! i = [a,b,c,d,e,f,g,h,x,j,k,l,m,n,p,q]" using assms(2) by (rule list16E)
  with assms(1) show ?thesis by (simp add: read_last_def upt_rec eval_nat_numeral)
qed

lemma key_expand_round_eq:
  assumes "i < length tab" and "1 \<le> i" and i: "i < 256" and "length (tab ! (i - 1)) = 16" and "length (tab ! i) = 16"
  shows "key_expand_round tab i = Some (tab[i := next_key i (tab ! (i - 1))])"
proof -
  obtain a b c d e f g h x j k l m n p q where
    old: "tab ! (i - 1) = [a,b,c,d,e,f,g,h,x,j,k,l,m,n,p,q]" using assms(4) by (rule list16E)
  obtain a' b' c' d' e' f' g' h' x' j' k' l' m' n' p' q' where
    cur: "tab ! i = [a',b',c',d',e',f',g',h',x',j',k',l',m',n',p',q']" using assms(5) by (rule list16E)
  have [simp]: "i - Suc 0 \<noteq> i" "i \<noteq> i - Suc 0" "i - Suc 0 < length tab" using assms(1,2) by auto
  show ?thesis
    using assms(1) old cur rcon_fips [of i] assms(2) i
    by (simp add: key_expand_round_def read_last_eq key_core_eq upt_rec next_key_def xor4_def
        sched_g_def rot_word_def ac_simps)
qed

lemma inv_key_round_eq:
  assumes "i + 1 < length tab" and i: "i < 255" and "length (tab ! (i + 1)) = 16" and "length (tab ! i) = 16"
  shows "inv_key_round tab i = Some (tab[i := prev_key (i + 1) (tab ! (i + 1))])"
proof -
  obtain a b c d e f g h x j k l m n p q where
    nxt: "tab ! (i + 1) = [a,b,c,d,e,f,g,h,x,j,k,l,m,n,p,q]" using assms(3) by (rule list16E)
  obtain a' b' c' d' e' f' g' h' x' j' k' l' m' n' p' q' where
    cur: "tab ! i = [a',b',c',d',e',f',g',h',x',j',k',l',m',n',p',q']" using assms(4) by (rule list16E)
  show ?thesis
    using assms(1) nxt cur rcon_fips [of "i + 1"] i
    by (simp add: inv_key_round_def read_last_eq key_core_eq upt_rec prev_key_def xor4_def
        sched_g_def rot_word_def ac_simps)
qed

lemma row_copy_eq:
  assumes "length k = 16" and "r < length tab" and "length (tab ! r) = 16"
  shows "foldM (\<lambda>tab i. do { v \<leftarrow> at_get k i; at2_put tab r i v }) tab [0..<16] = Some (tab[r := k])"
proof -
  obtain a b c d e f g h x j y l m n p q where
    k: "k = [a,b,c,d,e,f,g,h,x,j,y,l,m,n,p,q]" using assms(1) by (rule list16E)
  obtain a' b' c' d' e' f' g' h' x' j' k' l' m' n' p' q' where
    "tab ! r = [a',b',c',d',e',f',g',h',x',j',k',l',m',n',p',q']" using assms(3) by (rule list16E)
  with assms(2) k show ?thesis by (simp add: upt16)
qed

definition key_table_shape :: "u8 list list \<Rightarrow> bool" where
  "key_table_shape tab \<longleftrightarrow> length tab = 11 \<and> (\<forall>i < 11. length (tab ! i) = 16)"

lemma key_expand_eq:
  assumes "length k = 16" and "key_table_shape tab"
  shows "key_expand k tab = Some (map (round_key k) [0..<11])"
proof -
  let ?I = "\<lambda>n t. key_table_shape t \<and> (\<forall>i < n. t ! i = round_key k i)"
  have start: "?I 1 (tab[0 := k])"
    using assms by (auto simp: key_table_shape_def nth_list_update)
  have "\<exists>t. foldM key_expand_round (tab[0 := k]) [1..<11] = Some t \<and> ?I 11 t"
  proof (rule foldM_upt_invariant [where I = ?I])
    fix i t assume i: "1 \<le> i" "i < 11" and inv: "?I i t"
    then have "key_expand_round t i = Some (t[i := next_key i (t ! (i - 1))])"
      using assms(1) by (intro key_expand_round_eq) (auto simp: key_table_shape_def)
    moreover have "next_key i (t ! (i - 1)) = round_key k i"
      using i inv by (cases i) auto
    ultimately show "\<exists>t'. key_expand_round t i = Some t' \<and> ?I (Suc i) t'"
      using i inv assms(1) by (auto simp: key_table_shape_def nth_list_update less_Suc_eq)
  qed (use start in auto)
  then obtain t where t: "foldM key_expand_round (tab[0 := k]) [1..<11] = Some t" "?I 11 t" by blast
  have "t = map (round_key k) [0..<11]"
    using t(2) by (intro nth_equalityI) (auto simp: key_table_shape_def)
  with t assms show ?thesis
    by (simp add: key_expand_def row_copy_eq key_table_shape_def)
qed

lemma rev_upt10: "rev [0..<10] = map (\<lambda>n. 9 - n) [0..<10]"
  by (simp add: upt_rec)

lemma foldM_map: "foldM f s (map g xs) = foldM (\<lambda>s x. f s (g x)) s xs"
  by (induction xs arbitrary: s) simp_all

lemma inv_key_expand_eq:
  assumes "length k = 16" and "length key_in = 16"
  shows "inv_key_expand (round_key k 10) key_in = Some k"
proof -
  let ?tab0 = "(replicate 11 (replicate 16 0))[10 := round_key k 10]"
  let ?I = "\<lambda>n t. key_table_shape t \<and> (\<forall>i. 10 - n \<le> i \<and> i \<le> 10 \<longrightarrow> t ! i = round_key k i)"
  have start: "?I 0 ?tab0"
    using assms by (auto simp: key_table_shape_def nth_list_update dest: le_antisym)
  have "\<exists>t. foldM (\<lambda>t n. inv_key_round t (9 - n)) ?tab0 [0..<10] = Some t \<and> ?I 10 t"
  proof (rule foldM_upt_invariant [where I = ?I])
    fix n t assume n: "0 \<le> n" "n < 10" and inv: "?I n t"
    define i where "i = 9 - n"
    have i: "i < 10" "10 - n = Suc i" using n by (auto simp: i_def)
    have "inv_key_round t i = Some (t[i := prev_key (i + 1) (t ! (i + 1))])"
      using inv i assms(1) by (intro inv_key_round_eq) (auto simp: key_table_shape_def)
    moreover have "prev_key (i + 1) (t ! (i + 1)) = round_key k i"
      using inv i assms(1) by auto
    moreover have "10 - Suc n = i" using n by (simp add: i_def)
    ultimately show "\<exists>t'. inv_key_round t (9 - n) = Some t' \<and> ?I (Suc n) t'"
      using inv i assms(1) unfolding i_def [symmetric]
      by (auto simp: key_table_shape_def nth_list_update Suc_le_eq)
  qed (use start in auto)
  then obtain t where t: "foldM (\<lambda>t n. inv_key_round t (9 - n)) ?tab0 [0..<10] = Some t"
    and inv: "?I 10 t" by blast
  have row: "t ! 0 = k" "length t = 11" using inv by (auto simp: key_table_shape_def)
  have out: "foldM (\<lambda>key_in i. do { v \<leftarrow> at2_get t 0 i; at_put key_in i v }) key_in [0..<16] = Some k"
    using assms row by (elim list16E) (simp add: upt16)
  show ?thesis
    using t out assms
    by (simp add: inv_key_expand_def row_copy_eq rev_upt10 foldM_map)
qed

section \<open>The contract of the substitution box\<close>

text \<open>
  What the attack code relies on: \<open>inv_sub_bytes\<close> undoes \<open>sub_bytes\<close> on every byte.
\<close>

locale substitution_box =
  fixes sub inv :: "u8 \<Rightarrow> u8"
  assumes inv_sub: "inv (sub x) = x"
    and sub_inv: "sub (inv x) = x"
begin

lemma bij_sub: "bij sub"
  by (rule bijI') (metis inv_sub, metis sub_inv)

lemma map_inv_sub: "map inv (map sub xs) = xs"
  by (simp add: inv_sub map_idI)

lemma map_sub_eq_iff: "map sub xs = map sub ys \<longleftrightarrow> xs = ys"
  by (metis map_inv_sub)

end

interpretation sbx: substitution_box sub_bytes inv_sub_bytes
  by unfold_locales simp_all

section \<open>Properties\<close>

text \<open>C16. On any 16 byte key and any 11 by 16 output table, \<open>key_expand\<close> does not throw and fills row \<open>i\<close> with the round
  key of round \<open>i\<close> of FIPS-197. The specification does not use the tables of the program: its substitution
  box is the inverse in the field of 256 elements and the affine map, its round constants are the powers of \<open>x\<close>.\<close>

theorem key_expand_is_fips_schedule:
  assumes "length k = 16" and "key_table_shape tab"
  shows "key_expand k tab = Some (map (round_key k) [0..<11])"
  using assms by (rule key_expand_eq)

theorem key_expand_is_fips_schedule_witness:
  "length (replicate 16 7 :: u8 list) = 16 \<and> key_table_shape (replicate 11 (replicate 16 0)) \<and>
   key_expand (replicate 16 7) (replicate 11 (replicate 16 0)) =
     Some (map (round_key (replicate 16 7)) [0..<11])"
proof -
  have "key_table_shape (replicate 11 (replicate 16 0))" by (simp add: key_table_shape_def)
  then show ?thesis using key_expand_is_fips_schedule [of "replicate 16 7"] by simp
qed

text \<open>C18. the last round key determines the cipher key: \<open>inv_key_expand\<close> applied to the row 10
  that \<open>key_expand\<close> computes returns the cipher key, whatever its output vector held before.\<close>

theorem key_schedule_roundtrip:
  assumes "length k = 16" and "key_table_shape tab" and "length key_in = 16"
  shows "do { t \<leftarrow> key_expand k tab; last_key \<leftarrow> at_get t 10; inv_key_expand last_key key_in } = Some k"
  using assms by (simp add: key_expand_eq inv_key_expand_eq del: upt_Suc)

theorem key_schedule_roundtrip_witness:
  "do { t \<leftarrow> key_expand (replicate 16 9) (replicate 11 (replicate 16 0)); last_key \<leftarrow> at_get t 10;
        inv_key_expand last_key (replicate 16 0) } = Some (replicate 16 9)"
  by (rule key_schedule_roundtrip) (simp_all add: key_table_shape_def)

text \<open>the two 256 entry tables are inverse permutations of the bytes, so substituting a whole
  state with \<open>sub_bytes_full\<close> loses nothing and is undone byte by byte by \<open>inv_sub_bytes\<close>.\<close>

theorem sub_bytes_full_invertible:
  assumes "length text = 16"
  shows "map_option (map inv_sub_bytes) (sub_bytes_full text) = Some text \<and> bij sub_bytes"
  using assms by (simp add: sub_bytes_full_eq sbx.map_inv_sub [simplified] sbx.bij_sub)

theorem sub_bytes_full_invertible_witness:
  "map_option (map inv_sub_bytes) (sub_bytes_full (replicate 16 0x53)) = Some (replicate 16 0x53)"
  using sub_bytes_full_invertible [of "replicate 16 0x53"] by simp

text \<open>\<open>shift_rows\<close> stays inside the 4 by 4 matrix, but \<open>inv_shift_rows\<close> undoes it only where
  the row does not exceed the column: elsewhere its column is 4 too large, outside the matrix.\<close>

theorem inv_shift_rows_escapes:
  assumes "0 \<le> r" "r < 4" "0 \<le> c" "c < 4"
  shows "(case shift_rows r c of (r', c') \<Rightarrow> r' = r \<and> 0 \<le> c' \<and> c' < 4 \<and>
           inv_shift_rows r' c' = (r, if r \<le> c then c else c + 4))"
  using assms by (simp add: shift_rows_def inv_shift_rows_def)

theorem inv_shift_rows_escapes_witness:
  "(case shift_rows 3 0 of (r', c') \<Rightarrow> inv_shift_rows r' c' = (3, 4))"
  using inv_shift_rows_escapes [of 3 0] by (auto simp: case_prod_beta shift_rows_def)

text \<open>\<open>shift_rows_full\<close> writes each byte into the vector it is still reading, so it computes
  this state, in which 6 of the 16 bytes are lost, and not the row rotation.\<close>

theorem shift_rows_full_overwrites:
  "shift_rows_full [a0,a1,a2,a3, b0,b1,b2,b3, c0,c1,c2,c3, d0,d1,d2,d3] =
   Some [a0,a1,a2,a3, b1,b2,b0,b0, c0,c1,c0,c1, d0,d0,d0,d0]"
  by (rule shift_rows_full_eq)

text \<open>adding the same round key twice restores the state.\<close>

theorem add_round_key_full_involutive:
  assumes "length text = 16" and "length key = 16"
  shows "do { t \<leftarrow> add_round_key_full text key; add_round_key_full t key } = Some text"
proof -
  have "map2 add_round_key key (map2 add_round_key key text) = text"
    using assms by (intro nth_equalityI) (simp_all add: add_round_key_def)
  with assms show ?thesis by (simp add: add_round_key_full_eq)
qed

theorem add_round_key_full_involutive_witness:
  "do { t \<leftarrow> add_round_key_full (replicate 16 5) (replicate 16 0xa7);
        add_round_key_full t (replicate 16 0xa7) } = Some (replicate 16 5)"
  by (rule add_round_key_full_involutive) simp_all

end
