(* ===== verification/C_Pack.thy ===== *)
theory C_Pack
  imports Prelude
begin

text \<open>
  The C-Pack dictionary compressor of \<open>gpgpu-sim/c-pack.c\<close>. The dictionary is an array of
  \<open>DirectoryEntry\<close>; the number of entries in use is the static \<open>numEntries\<close>, which is set by the
  last call of \<open>calculate_compressed_size_c_pack\<close> and read by \<open>initialize_dic\<close> before it, so it
  is threaded as state. An index past the array is \<open>None\<close>.
\<close>

record DirectoryEntry =
  m_valid :: bool
  m_entry :: u32
  m_cnt :: int

definition numEntries_init :: nat where
  "numEntries_init = 32"

section \<open>Dictionary lookups\<close>

text \<open>The three lookups are one loop over the first \<open>numEntries\<close> entries with different masks.\<close>

primrec match_loop :: "(u32 \<Rightarrow> bool) \<Rightarrow> DirectoryEntry list \<Rightarrow> nat list \<Rightarrow> bool option" where
  "match_loop p directory [] = Some False"
| "match_loop p directory (i # is) = do {
     e \<leftarrow> at_get directory i;
     if m_valid e \<and> p (m_entry e) then Some True else match_loop p directory is }"

definition match_dic_mmmm :: "nat \<Rightarrow> DirectoryEntry list \<Rightarrow> u32 \<Rightarrow> bool option" where
  "match_dic_mmmm numEntries directory w =
     match_loop (\<lambda>e. e = w) directory [0..<numEntries]"

definition match_dic_mmmx :: "nat \<Rightarrow> DirectoryEntry list \<Rightarrow> u32 \<Rightarrow> bool option" where
  "match_dic_mmmx numEntries directory w =
     match_loop (\<lambda>e. e AND 0xFFFFFF00 = w AND 0xFFFFFF00) directory [0..<numEntries]"

definition match_dic_mmxx :: "nat \<Rightarrow> DirectoryEntry list \<Rightarrow> u32 \<Rightarrow> bool option" where
  "match_dic_mmxx numEntries directory w =
     match_loop (\<lambda>e. e AND 0xFFFF0000 = w AND 0xFFFF0000) directory [0..<numEntries]"

section \<open>Insertion\<close>

definition count_valid :: "nat \<Rightarrow> DirectoryEntry list \<Rightarrow> int option" where
  "count_valid numEntries directory =
     foldM (\<lambda>count i. do {
         e \<leftarrow> at_get directory i;
         Some (if m_valid e then count + 1 else count) }) 0 [0..<numEntries]"

text \<open>The search for an invalid entry returns from the function at the first one.\<close>

primrec fill_invalid ::
  "u32 \<Rightarrow> int \<Rightarrow> DirectoryEntry list \<Rightarrow> nat list \<Rightarrow> DirectoryEntry list option option" where
  "fill_invalid w count directory [] = Some None"
| "fill_invalid w count directory (i # is) = do {
     e \<leftarrow> at_get directory i;
     if \<not> m_valid e
     then Some (Some (directory[i := \<lparr>m_valid = True, m_entry = w, m_cnt = count\<rparr>]))
     else fill_invalid w count directory is }"

definition replace_oldest ::
  "u32 \<Rightarrow> int \<Rightarrow> DirectoryEntry list \<Rightarrow> nat \<Rightarrow> DirectoryEntry list option" where
  "replace_oldest w count directory i = do {
     e \<leftarrow> at_get directory i;
     if m_cnt e = 0
     then at_put directory i \<lparr>m_valid = True, m_entry = w, m_cnt = count\<rparr>
     else Some directory }"

definition age_entry :: "DirectoryEntry list \<Rightarrow> nat \<Rightarrow> DirectoryEntry list option" where
  "age_entry directory i = do {
     e \<leftarrow> at_get directory i;
     at_put directory i (e\<lparr>m_cnt := m_cnt e - 1\<rparr>) }"

definition insert_dic ::
  "nat \<Rightarrow> DirectoryEntry list \<Rightarrow> u32 \<Rightarrow> DirectoryEntry list option" where
  "insert_dic numEntries directory w = do {
     count \<leftarrow> count_valid numEntries directory;
     found \<leftarrow> fill_invalid w count directory [0..<numEntries];
     case found of
       Some directory' \<Rightarrow> Some directory'
     | None \<Rightarrow> do {
         directory \<leftarrow> foldM (replace_oldest w count) directory [0..<numEntries];
         foldM age_entry directory [0..<numEntries] } }"

definition initialize_dic :: "nat \<Rightarrow> DirectoryEntry list \<Rightarrow> DirectoryEntry list option" where
  "initialize_dic numEntries directory =
     foldM (\<lambda>directory i. do {
         e \<leftarrow> at_get directory i;
         at_put directory i (e\<lparr>m_valid := False, m_cnt := 0\<rparr>) }) directory [0..<numEntries]"

section \<open>The compressed size\<close>

text \<open>
  One iteration of the \<open>while\<close> loop: the dictionary, the bits so far and the six counters
  of \<open>type\<close>. A word is passed to the dictionary functions as an \<open>unsigned int\<close>.
\<close>

definition bump_type :: "nat list \<Rightarrow> nat \<Rightarrow> nat list" where
  "bump_type types i = types[i := Suc (types ! i)]"

definition c_pack_word ::
  "nat \<Rightarrow> DirectoryEntry list \<times> int \<times> nat list \<Rightarrow> u64 \<Rightarrow> (DirectoryEntry list \<times> int \<times> nat list) option" where
  "c_pack_word numEntries = (\<lambda>(directory, lineBits, types) word.
     if word = 0 then Some (directory, lineBits + 2, types)
     else if word AND 0xFFFFFF00 = 0 then Some (directory, lineBits + 12, bump_type types 1)
     else do {
       mmmm \<leftarrow> match_dic_mmmm numEntries directory (ucast word);
       if mmmm then Some (directory, lineBits + 6, bump_type types 2)
       else do {
         mmmx \<leftarrow> match_dic_mmmx numEntries directory (ucast word);
         if mmmx then Some (directory, lineBits + 16, bump_type types 3)
         else do {
           mmxx \<leftarrow> match_dic_mmxx numEntries directory (ucast word);
           if mmxx then Some (directory, lineBits + 24, bump_type types 4)
           else do {
             directory \<leftarrow> insert_dic numEntries directory (ucast word);
             Some (directory, lineBits + 34, bump_type types 5) } } } })"

text \<open>
  The result is the size in bits, \<open>*zero_block\<close>, the counters and the new \<open>numEntries\<close>.
\<close>

definition calculate_compressed_size_c_pack ::
  "DirectoryEntry list \<Rightarrow> u64 list \<Rightarrow> nat list \<Rightarrow> (int \<times> bool \<times> nat list \<times> nat) option" where
  "calculate_compressed_size_c_pack directory words types =
     (let numwords = length words;
          numEntries = numwords;
          zero_block = list_all (\<lambda>w. w = 0) words;
          types = (if zero_block then types[0 := types ! 0 + numwords] else types)
      in do {
        (directory, lineBits, types) \<leftarrow>
          (if \<not> zero_block
           then foldM (c_pack_word numEntries) (directory, 0, types) words
           else Some (directory, 0, types));
        Some (if lineBits > int numwords * 4 * 8 then int numwords * 4 * 8 else lineBits,
              zero_block, types, numEntries) })"

section \<open>The dictionary as a list of words\<close>

text \<open>
  The abstract dictionary is the list of the words inserted so far. \<open>represents n directory dict\<close>:
  the first \<open>length dict\<close> slots hold its words, the rest of the first \<open>n\<close> slots are free.
\<close>

definition represents :: "nat \<Rightarrow> DirectoryEntry list \<Rightarrow> u32 list \<Rightarrow> bool" where
  "represents n directory dict \<longleftrightarrow>
     length dict \<le> n \<and> n \<le> length directory
     \<and> (\<forall>i < length dict. m_valid (directory ! i) \<and> m_entry (directory ! i) = dict ! i)
     \<and> (\<forall>i. length dict \<le> i \<and> i < n \<longrightarrow> \<not> m_valid (directory ! i))"

definition dict_step :: "u32 list \<times> int \<Rightarrow> u64 \<Rightarrow> u32 list \<times> int" where
  "dict_step = (\<lambda>(dict, bits) w.
     let v = ucast w :: u32
     in if w = 0 then (dict, bits + 2)
        else if w < 256 then (dict, bits + 12)
        else if v \<in> set dict then (dict, bits + 6)
        else if \<exists>e \<in> set dict. e AND 0xFFFFFF00 = v AND 0xFFFFFF00 then (dict, bits + 16)
        else if \<exists>e \<in> set dict. e AND 0xFFFF0000 = v AND 0xFFFF0000 then (dict, bits + 24)
        else (dict @ [v], bits + 34))"

lemma match_loop_eq:
  assumes "\<forall>i \<in> set is. i < length directory"
  shows "match_loop p directory is =
    Some (\<exists>i \<in> set is. m_valid (directory ! i) \<and> p (m_entry (directory ! i)))"
  using assms by (induction "is") auto

lemma match_represents:
  assumes "represents n directory dict"
  shows "match_loop p directory [0..<n] = Some (\<exists>e \<in> set dict. p e)"
proof -
  have "match_loop p directory [0..<n] =
      Some (\<exists>i \<in> set [0..<n]. m_valid (directory ! i) \<and> p (m_entry (directory ! i)))"
    using assms by (intro match_loop_eq) (auto simp: represents_def)
  also have "(\<exists>i \<in> set [0..<n]. m_valid (directory ! i) \<and> p (m_entry (directory ! i))) \<longleftrightarrow>
      (\<exists>i < length dict. p (dict ! i))"
  proof
    assume "\<exists>i \<in> set [0..<n]. m_valid (directory ! i) \<and> p (m_entry (directory ! i))"
    then obtain i where i: "i < n" "m_valid (directory ! i)" "p (m_entry (directory ! i))" by auto
    with assms have "i < length dict" unfolding represents_def by (meson not_le)
    with i assms show "\<exists>i < length dict. p (dict ! i)" unfolding represents_def by auto
  next
    assume "\<exists>i < length dict. p (dict ! i)"
    then obtain i where "i < length dict" "p (dict ! i)" by blast
    with assms show "\<exists>i \<in> set [0..<n]. m_valid (directory ! i) \<and> p (m_entry (directory ! i))"
      unfolding represents_def by (intro bexI [of _ i]) auto
  qed
  also have "\<dots> \<longleftrightarrow> (\<exists>e \<in> set dict. p e)" by (metis in_set_conv_nth)
  finally show ?thesis .
qed

lemma count_valid_total:
  assumes "n \<le> length directory"
  shows "\<exists>c. count_valid n directory = Some c"
proof -
  have "\<exists>c. count_valid n directory = Some c \<and> True"
    unfolding count_valid_def by (rule foldM_invariant [where I = "\<lambda>_. True"]) (use assms in auto)
  then show ?thesis by simp
qed

lemma fill_invalid_skip:
  assumes "\<forall>i \<in> set is. i < length directory \<and> m_valid (directory ! i)"
  shows "fill_invalid w c directory (is @ js) = fill_invalid w c directory js"
  using assms by (induction "is") auto

lemma insert_represents:
  assumes "represents n directory dict" and "length dict < n"
  shows "ok (\<lambda>d. represents n d (dict @ [w])) (insert_dic n directory w)"
proof -
  let ?m = "length dict"
  obtain c where c: "count_valid n directory = Some c"
    using count_valid_total assms(1) unfolding represents_def by blast
  have "[0..<n] = [0..<?m] @ ?m # [Suc ?m..<n]"
    using assms(2) upt_add_eq_append [of 0 ?m "n - ?m"] by (simp add: upt_conv_Cons)
  moreover have "fill_invalid w c directory ([0..<?m] @ ?m # [Suc ?m..<n]) =
      fill_invalid w c directory (?m # [Suc ?m..<n])"
    using assms by (intro fill_invalid_skip) (auto simp: represents_def)
  ultimately have "insert_dic n directory w =
      Some (directory[?m := \<lparr>m_valid = True, m_entry = w, m_cnt = c\<rparr>])"
    using assms c by (simp add: insert_dic_def represents_def)
  moreover have "represents n (directory[?m := \<lparr>m_valid = True, m_entry = w, m_cnt = c\<rparr>]) (dict @ [w])"
    using assms by (auto simp: represents_def nth_append nth_list_update less_Suc_eq)
  ultimately show ?thesis by simp
qed

lemma dict_step_length: "length (fst (dict_step (dict, bits) w)) \<le> Suc (length dict)"
  by (simp add: dict_step_def Let_def)

lemma dict_step_bits:
  "bits + 2 \<le> snd (dict_step (dict, bits) w) \<and> snd (dict_step (dict, bits) w) \<le> bits + 34"
  by (simp add: dict_step_def Let_def)

lemma take_bit_u64: "n < 64 \<Longrightarrow> take_bit n w = w \<longleftrightarrow> unat w < 2 ^ n" for w :: u64
  by (metis take_bit_nat_eq_self_iff unsigned_take_bit_eq word_unat_eq_iff)
lemma low_byte_word:
  fixes w :: u64
  assumes "w < 2 ^ 32"
  shows "w AND 0xFFFFFF00 = 0 \<longleftrightarrow> w < 256"
proof -
  have m: "(0xFFFFFF00 :: u64) = push_bit 8 (mask 24)"
    by (simp add: mask_eq_exp_minus_1 push_bit_eq_mult)
  have tk: "take_bit 32 w = w"
    using assms by (simp add: take_bit_u64 word_less_nat_alt)
  have "take_bit 32 w AND push_bit 8 (mask 24) = push_bit 8 (drop_bit 8 (take_bit 32 w))"
    by (rule bit_eqI) (auto simp: bit_simps)
  then have "w AND 0xFFFFFF00 = push_bit 8 (drop_bit 8 w)" by (simp only: m tk)
  moreover have "push_bit 8 (drop_bit 8 w) = 0 \<longleftrightarrow> drop_bit 8 w = 0"
  proof
    assume "push_bit 8 (drop_bit 8 w) = 0"
    moreover have "drop_bit 8 (push_bit 8 (drop_bit 8 w)) = drop_bit 8 w"
      by (rule bit_eqI) (auto simp: bit_simps dest: bit_imp_le_length)
    ultimately show "drop_bit 8 w = 0" by simp
  qed simp
  moreover have "drop_bit 8 w = 0 \<longleftrightarrow> w < 256"
    by (simp add: take_bit_u64 word_less_nat_alt flip: take_bit_eq_self_iff_drop_bit_eq_0)
  ultimately show ?thesis by simp
qed

lemma bind_option_if [simp]: "((if b then x else y) \<bind> f) = (if b then x \<bind> f else (y \<bind> f :: 'b option))"
  by simp

lemma c_pack_word_step:
  assumes rep: "represents n directory dict" and "length dict < n" and w: "w < 2 ^ 32"
  shows "ok (\<lambda>(d, b, t). represents n d (fst (dict_step (dict, bits) w)) \<and> b = snd (dict_step (dict, bits) w))
    (c_pack_word n (directory, bits, types) w)"
proof -
  obtain d' where d': "insert_dic n directory (ucast w) = Some d'" "represents n d' (dict @ [ucast w])"
    using insert_represents [OF assms(1,2)] by (auto simp: ok_def)
  show ?thesis
    using d' rep
    by (simp add: c_pack_word_def dict_step_def Let_def match_dic_mmmm_def match_dic_mmmx_def
        match_dic_mmxx_def match_represents [OF rep] low_byte_word [OF w])
qed

lemma dict_words_bits:
  "bits + 2 * int (length ws) \<le> snd (foldl dict_step (dict, bits) ws)
   \<and> snd (foldl dict_step (dict, bits) ws) \<le> bits + 34 * int (length ws)"
proof (induction ws arbitrary: dict bits)
  case Nil
  then show ?case by simp
next
  case (Cons w ws)
  obtain d b where s: "dict_step (dict, bits) w = (d, b)" by fastforce
  with dict_step_bits [of bits dict w] Cons.IH [of b d] show ?case by simp
qed

lemma c_pack_words:
  assumes "represents n directory dict" and "length dict + length ws \<le> n" and "\<forall>w \<in> set ws. w < 2 ^ 32"
  shows "ok (\<lambda>(d, b, t). b = snd (foldl dict_step (dict, bits) ws))
    (foldM (c_pack_word n) (directory, bits, types) ws)"
  using assms
proof (induction ws arbitrary: directory dict bits types)
  case Nil
  then show ?case by simp
next
  case (Cons w ws)
  obtain dict' bits' where s: "dict_step (dict, bits) w = (dict', bits')" by fastforce
  then have len: "length dict' \<le> Suc (length dict)" using dict_step_length [of dict bits w] by simp
  have "ok (\<lambda>(d, b, t). represents n d dict' \<and> b = bits') (c_pack_word n (directory, bits, types) w)"
    using c_pack_word_step [of n directory dict w bits types] Cons.prems s by simp
  then obtain d t where "c_pack_word n (directory, bits, types) w = Some (d, bits', t)" "represents n d dict'"
    by (auto simp: ok_def)
  with Cons.IH [of d dict' bits' t] Cons.prems len s show ?case by simp
qed

text \<open>The cost of a line in bits: nothing but the flag for a zero line, at most 32 bits a word.\<close>

definition c_pack_bits :: "u64 list \<Rightarrow> int" where
  "c_pack_bits ws =
     (if \<forall>w \<in> set ws. w = 0 then 0 else min (snd (foldl dict_step ([], 0) ws)) (32 * int (length ws)))"

lemma calculate_eq:
  assumes "represents (length ws) directory []" and "\<forall>w \<in> set ws. w < 2 ^ 32"
  shows "ok (\<lambda>(bits, zero_block, t, n). bits = c_pack_bits ws \<and> (zero_block \<longleftrightarrow> (\<forall>w \<in> set ws. w = 0))
      \<and> n = length ws)
    (calculate_compressed_size_c_pack directory ws types)"
proof (cases "\<forall>w \<in> set ws. w = 0")
  case True
  then show ?thesis by (simp add: calculate_compressed_size_c_pack_def c_pack_bits_def list_all_iff Let_def)
next
  case False
  obtain d t where
    "foldM (c_pack_word (length ws)) (directory, 0, types) ws = Some (d, snd (foldl dict_step ([], 0) ws), t)"
    using c_pack_words [OF assms(1) _ assms(2), of 0 types] by (auto simp: ok_def)
  with False show ?thesis
    by (auto simp: calculate_compressed_size_c_pack_def c_pack_bits_def list_all_iff Let_def min_def)
qed

lemma c_pack_bits_bounds: "0 \<le> c_pack_bits ws \<and> c_pack_bits ws \<le> 32 * int (length ws)"
  using dict_words_bits [of 0 ws "[]"] by (auto simp: c_pack_bits_def)

lemma c_pack_bits_pos:
  assumes "\<exists>w \<in> set ws. w \<noteq> 0"
  shows "0 < c_pack_bits ws"
proof -
  have "0 < int (length ws)" using assms by (cases ws) auto
  then have "0 < snd (foldl dict_step ([], 0) ws)" using dict_words_bits [of 0 ws "[]"] by linarith
  with assms dict_words_bits [of 0 ws "[]"] \<open>0 < int (length ws)\<close> show ?thesis by (auto simp: c_pack_bits_def)
qed

text \<open>The array is cleared up to the entry count of the previous line only.\<close>

lemma initialize_represents:
  assumes "n \<le> numEntries" and "numEntries \<le> length directory"
  shows "ok (\<lambda>d. represents n d []) (initialize_dic numEntries directory)"
proof -
  have "\<exists>d. initialize_dic numEntries directory = Some d \<and>
      (length d = length directory \<and> (\<forall>i < numEntries. \<not> m_valid (d ! i)))"
    unfolding initialize_dic_def
    by (rule foldM_upt_invariant [where I = "\<lambda>k d. length d = length directory \<and> (\<forall>i < k. \<not> m_valid (d ! i))"])
      (use assms in \<open>auto simp: nth_list_update less_Suc_eq\<close>)
  then show ?thesis using assms by (auto simp: ok_def represents_def)
qed

end
