(* ===== verification/Compression.thy ===== *)
theory Compression
  imports C_Pack
begin

text \<open>
  The cache line compressors of \<open>gpgpu-sim/compression.cpp\<close>: base-delta-immediate compression in
  its variants, frequent pattern compression, C-Pack and the selector \<open>GeneralCompress\<close>. An array
  passed with its length is one list; a \<open>char\<close> buffer is a list of bytes, which the code reads as
  \<open>unsigned char\<close>; sizes are 32 bit words and wrap as the code's \<open>unsigned\<close> does. A read past the
  end of an array, \<open>exit\<close> and the undefined \<open>abs\<close> and \<open>llabs\<close> of the least number are \<open>None\<close>.
\<close>

section \<open>Reading the line as words\<close>

text \<open>\<open>convertBuffer2Array\<close>: the outer loop steps \<open>i\<close> by \<open>step\<close> below \<open>size\<close>.\<close>

definition steps :: "nat \<Rightarrow> nat \<Rightarrow> nat list" where
  "steps sz step = map (\<lambda>q. q * step) [0..<(sz + step - 1) div step]"

definition convertBuffer2Array :: "u8 list \<Rightarrow> nat \<Rightarrow> nat \<Rightarrow> u64 list option" where
  "convertBuffer2Array buffer sz step =
     foldM (\<lambda>values i.
       foldM (\<lambda>values j. do {
           b \<leftarrow> at_get buffer (i + j);
           v \<leftarrow> at_get values (i div step);
           at_put values (i div step) (v + push_bit (8 * j) (ucast b)) }) values [0..<step])
       (replicate (sz div step) 0) (steps sz step)"

section \<open>The base-delta compressors\<close>

definition isZeroPackable :: "u64 list \<Rightarrow> bool" where
  "isZeroPackable values = (\<not> list_ex (\<lambda>v. v \<noteq> 0) values)"

definition isSameValuePackable :: "u64 list \<Rightarrow> bool" where
  "isSameValuePackable values = (\<not> list_ex (\<lambda>v. values ! 0 \<noteq> v) values)"

definition doubleExponentCompression :: "u64 list \<Rightarrow> u32 \<Rightarrow> u32 \<Rightarrow> u32 option" where
  "doubleExponentCompression values blimit bsize = do {
     limit \<leftarrow> (if blimit = 1 then Some 56 else if blimit = 2 then Some 48 else None);
     let n = of_nat (length values);
     let compCount = of_nat (length (filter (\<lambda>v. drop_bit limit (values ! 0) = drop_bit limit v) values));
     Some (if compCount \<noteq> n then n * bsize
           else n * bsize - (compCount - 1) * blimit) }"

text \<open>\<open>llabs\<close> of the difference read as a signed number, converted back to unsigned for the
  comparison with the unsigned limit; undefined at the least signed number.\<close>

definition llabs :: "u64 \<Rightarrow> u64 option" where
  "llabs x = (if sint x = - (2 ^ 63) then None else Some (if sint x < 0 then - x else x))"

definition base_limit :: "u32 \<Rightarrow> u64 option" where
  "base_limit blimit =
     (if blimit = 1 then Some 0xFF
      else if blimit = 2 then Some 0xFFFF
      else if blimit = 4 then Some 0xFFFFFFFF
      else None)"

text \<open>
  The inner loop that looks for a base far from value \<open>v\<close> runs over the vector it appends to.
  An appended \<open>v\<close> is at distance 0 from itself, so the number of far bases still ahead decreases
  with each append, and the loop ends.
\<close>

function scan_bases :: "u64 \<Rightarrow> u64 \<Rightarrow> u64 list \<Rightarrow> nat \<Rightarrow> u64 list option" where
  "scan_bases limit v mbases j =
     (if j < length mbases
      then (case llabs (mbases ! j - v) of
          None \<Rightarrow> None
        | Some d \<Rightarrow> scan_bases limit v (if d > limit then mbases @ [v] else mbases) (Suc j))
      else Some mbases)"
  by pat_completeness auto
termination
proof (relation "measures [\<lambda>(limit, v, mbases, j). length (filter (\<lambda>b. \<exists>d > limit. llabs (b - v) = Some d) (drop j mbases)),
    \<lambda>(limit, v, mbases, j). length mbases - j]")
  fix limit v :: u64 and mbases :: "u64 list" and j d
  assume j: "j < length mbases" and d: "llabs (mbases ! j - v) = Some d"
  then have "drop j mbases = mbases ! j # drop (Suc j) mbases"
    by (simp add: Cons_nth_drop_Suc)
  with j d show "((limit, v, if limit < d then mbases @ [v] else mbases, Suc j),
         limit, v, mbases, j)
        \<in> measures [\<lambda>(limit, v, mbases, j). length (filter (\<lambda>b. \<exists>d > limit. llabs (b - v) = Some d) (drop j mbases)),
             \<lambda>(limit, v, mbases, j). length mbases - j]"
    by (auto simp: llabs_def)
qed simp

declare scan_bases.simps [simp del]

text \<open>The outer loop stops once there are \<open>BASES = 2\<close> bases.\<close>

primrec find_bases :: "u64 \<Rightarrow> u64 list \<Rightarrow> u64 list \<Rightarrow> u64 list option" where
  "find_bases limit mbases [] = Some mbases"
| "find_bases limit mbases (v # vs) = do {
     mbases \<leftarrow> scan_bases limit v mbases 0;
     if length mbases \<ge> 2 then Some mbases else find_bases limit mbases vs }"

text \<open>The inner loop of the count, which ends at the first base that is near.\<close>

primrec covered :: "u64 \<Rightarrow> u64 list \<Rightarrow> u64 \<Rightarrow> bool option" where
  "covered limit [] v = Some False"
| "covered limit (b # bs) v = do {
     d \<leftarrow> llabs (b - v);
     if d \<le> limit then Some True else covered limit bs v }"

definition count_covered :: "u64 \<Rightarrow> u64 list \<Rightarrow> u64 list \<Rightarrow> u32 option" where
  "count_covered limit mbases values =
     foldM (\<lambda>c v. do { h \<leftarrow> covered limit mbases v; Some (if h then c + 1 else c) }) 0 values"

definition multBaseCompression :: "u64 list \<Rightarrow> u32 \<Rightarrow> u32 \<Rightarrow> u32 option" where
  "multBaseCompression values blimit bsize = do {
     limit \<leftarrow> base_limit blimit;
     base \<leftarrow> at_get values 0;
     let n = of_nat (length values);
     mbases \<leftarrow> find_bases limit [base] values;
     compCount \<leftarrow> count_covered limit mbases values;
     Some (blimit * compCount + bsize * 2 + (n - compCount) * bsize) }"

definition singleBaseCompression :: "u64 list \<Rightarrow> u32 \<Rightarrow> u32 \<Rightarrow> u32 option" where
  "singleBaseCompression values blimit bsize = do {
     limit \<leftarrow> base_limit blimit;
     base \<leftarrow> at_get values 0;
     let n = of_nat (length values);
     compCount \<leftarrow> count_covered limit [base] values;
     Some (if n \<noteq> compCount then n * bsize else blimit * compCount + bsize * 1) }"

text \<open>The statement \<open>bestCSize = bestCSize > currCSize ? currCSize : bestCSize\<close>.\<close>

definition better :: "u32 \<Rightarrow> u32 \<Rightarrow> u32" where
  "better bestCSize currCSize = (if bestCSize > currCSize then currCSize else bestCSize)"

text \<open>Single base: 8, 4 and 2 byte values, then the exponent compression.\<close>

definition BDICompressSingle :: "u8 list \<Rightarrow> u32 \<Rightarrow> u32 option" where
  "BDICompressSingle buffer blockSize = do {
     values \<leftarrow> convertBuffer2Array buffer (unat blockSize) 8;
     let bestCSize = blockSize;
     let currCSize = blockSize;
     let bestCSize = (if isZeroPackable values then 1 else bestCSize);
     let currCSize = (if isSameValuePackable values then 8 else currCSize);
     let bestCSize = better bestCSize currCSize;
     currCSize \<leftarrow> singleBaseCompression values 1 8;
     let bestCSize = better bestCSize currCSize;
     currCSize \<leftarrow> singleBaseCompression values 2 8;
     let bestCSize = better bestCSize currCSize;
     currCSize \<leftarrow> singleBaseCompression values 4 8;
     let bestCSize = better bestCSize currCSize;
     values \<leftarrow> convertBuffer2Array buffer (unat blockSize) 4;
     let currCSize = (if isSameValuePackable values then 4 else currCSize);
     let bestCSize = better bestCSize currCSize;
     currCSize \<leftarrow> singleBaseCompression values 1 4;
     let bestCSize = better bestCSize currCSize;
     currCSize \<leftarrow> singleBaseCompression values 2 4;
     let bestCSize = better bestCSize currCSize;
     values \<leftarrow> convertBuffer2Array buffer (unat blockSize) 2;
     currCSize \<leftarrow> singleBaseCompression values 1 2;
     let bestCSize = better bestCSize currCSize;
     values \<leftarrow> convertBuffer2Array buffer (unat blockSize) 8;
     currCSize \<leftarrow> doubleExponentCompression values 2 8;
     let bestCSize = better bestCSize currCSize;
     currCSize \<leftarrow> doubleExponentCompression values 1 8;
     let bestCSize = better bestCSize currCSize;
     Some bestCSize }"

text \<open>Two bases, 8 and 4 byte values.\<close>

definition BDICompress4BOnly :: "u8 list \<Rightarrow> u32 \<Rightarrow> u32 option" where
  "BDICompress4BOnly buffer blockSize = do {
     values \<leftarrow> convertBuffer2Array buffer (unat blockSize) 8;
     let bestCSize = blockSize;
     let currCSize = blockSize;
     let bestCSize = (if isZeroPackable values then 1 else bestCSize);
     let currCSize = (if isSameValuePackable values then 8 else currCSize);
     let bestCSize = better bestCSize currCSize;
     currCSize \<leftarrow> multBaseCompression values 1 8;
     let bestCSize = better bestCSize currCSize;
     currCSize \<leftarrow> multBaseCompression values 2 8;
     let bestCSize = better bestCSize currCSize;
     currCSize \<leftarrow> multBaseCompression values 4 8;
     let bestCSize = better bestCSize currCSize;
     values \<leftarrow> convertBuffer2Array buffer (unat blockSize) 4;
     let currCSize = (if isSameValuePackable values then 4 else currCSize);
     let bestCSize = better bestCSize currCSize;
     currCSize \<leftarrow> multBaseCompression values 1 4;
     let bestCSize = better bestCSize currCSize;
     currCSize \<leftarrow> multBaseCompression values 2 4;
     let bestCSize = better bestCSize currCSize;
     values \<leftarrow> convertBuffer2Array buffer (unat blockSize) 8;
     currCSize \<leftarrow> doubleExponentCompression values 2 8;
     let bestCSize = better bestCSize currCSize;
     currCSize \<leftarrow> doubleExponentCompression values 1 8;
     let bestCSize = better bestCSize currCSize;
     Some bestCSize }"

text \<open>Two bases, 8 byte values only.\<close>

definition BDICompress8BOnly :: "u8 list \<Rightarrow> u32 \<Rightarrow> u32 option" where
  "BDICompress8BOnly buffer blockSize = do {
     values \<leftarrow> convertBuffer2Array buffer (unat blockSize) 8;
     let bestCSize = blockSize;
     let currCSize = blockSize;
     let bestCSize = (if isZeroPackable values then 1 else bestCSize);
     let currCSize = (if isSameValuePackable values then 8 else currCSize);
     let bestCSize = better bestCSize currCSize;
     currCSize \<leftarrow> multBaseCompression values 1 8;
     let bestCSize = better bestCSize currCSize;
     currCSize \<leftarrow> multBaseCompression values 2 8;
     let bestCSize = better bestCSize currCSize;
     currCSize \<leftarrow> multBaseCompression values 4 8;
     let bestCSize = better bestCSize currCSize;
     values \<leftarrow> convertBuffer2Array buffer (unat blockSize) 8;
     currCSize \<leftarrow> doubleExponentCompression values 2 8;
     let bestCSize = better bestCSize currCSize;
     currCSize \<leftarrow> doubleExponentCompression values 1 8;
     let bestCSize = better bestCSize currCSize;
     Some bestCSize }"

text \<open>Two bases, 8, 4 and 2 byte values.\<close>

definition BDICompress :: "u8 list \<Rightarrow> u32 \<Rightarrow> u32 option" where
  "BDICompress buffer blockSize = do {
     values \<leftarrow> convertBuffer2Array buffer (unat blockSize) 8;
     let bestCSize = blockSize;
     let currCSize = blockSize;
     let bestCSize = (if isZeroPackable values then 1 else bestCSize);
     let currCSize = (if isSameValuePackable values then 8 else currCSize);
     let bestCSize = better bestCSize currCSize;
     currCSize \<leftarrow> multBaseCompression values 1 8;
     let bestCSize = better bestCSize currCSize;
     currCSize \<leftarrow> multBaseCompression values 2 8;
     let bestCSize = better bestCSize currCSize;
     currCSize \<leftarrow> multBaseCompression values 4 8;
     let bestCSize = better bestCSize currCSize;
     values \<leftarrow> convertBuffer2Array buffer (unat blockSize) 4;
     let currCSize = (if isSameValuePackable values then 4 else currCSize);
     let bestCSize = better bestCSize currCSize;
     currCSize \<leftarrow> multBaseCompression values 1 4;
     let bestCSize = better bestCSize currCSize;
     currCSize \<leftarrow> multBaseCompression values 2 4;
     let bestCSize = better bestCSize currCSize;
     values \<leftarrow> convertBuffer2Array buffer (unat blockSize) 2;
     currCSize \<leftarrow> multBaseCompression values 1 2;
     let bestCSize = better bestCSize currCSize;
     values \<leftarrow> convertBuffer2Array buffer (unat blockSize) 8;
     currCSize \<leftarrow> doubleExponentCompression values 2 8;
     let bestCSize = better bestCSize currCSize;
     currCSize \<leftarrow> doubleExponentCompression values 1 8;
     let bestCSize = better bestCSize currCSize;
     Some bestCSize }"

text \<open>As \<open>BDICompress\<close>, with the base size of the best encoding returned by reference.\<close>

definition BDICompressSpecial :: "u8 list \<Rightarrow> u32 \<Rightarrow> (u32 \<times> u32) option" where
  "BDICompressSpecial buffer blockSize = do {
     values \<leftarrow> convertBuffer2Array buffer (unat blockSize) 8;
     let bestCSize = blockSize;
     let currCSize = blockSize;
     let baseSize = 8;
     let bestCSize = (if isZeroPackable values then 1 else bestCSize);
     let baseSize = (if isZeroPackable values then 0 else baseSize);
     let currCSize = (if isSameValuePackable values then 8 else currCSize);
     let baseSize = (if isSameValuePackable values then 8 else baseSize);
     let bestCSize = better bestCSize currCSize;
     currCSize \<leftarrow> multBaseCompression values 1 8;
     let baseSize = (if bestCSize > currCSize then 8 else baseSize);
     let bestCSize = better bestCSize currCSize;
     currCSize \<leftarrow> multBaseCompression values 2 8;
     let baseSize = (if bestCSize > currCSize then 8 else baseSize);
     let bestCSize = better bestCSize currCSize;
     currCSize \<leftarrow> multBaseCompression values 4 8;
     let baseSize = (if bestCSize > currCSize then 8 else baseSize);
     let bestCSize = better bestCSize currCSize;
     values \<leftarrow> convertBuffer2Array buffer (unat blockSize) 4;
     let currCSize = (if isSameValuePackable values then 4 else currCSize);
     let baseSize = (if isSameValuePackable values then 4 else baseSize);
     let bestCSize = better bestCSize currCSize;
     currCSize \<leftarrow> multBaseCompression values 1 4;
     let baseSize = (if bestCSize > currCSize then 4 else baseSize);
     let bestCSize = better bestCSize currCSize;
     currCSize \<leftarrow> multBaseCompression values 2 4;
     let baseSize = (if bestCSize > currCSize then 4 else baseSize);
     let bestCSize = better bestCSize currCSize;
     values \<leftarrow> convertBuffer2Array buffer (unat blockSize) 2;
     currCSize \<leftarrow> multBaseCompression values 1 2;
     let baseSize = (if bestCSize > currCSize then 2 else baseSize);
     let bestCSize = better bestCSize currCSize;
     values \<leftarrow> convertBuffer2Array buffer (unat blockSize) 8;
     currCSize \<leftarrow> doubleExponentCompression values 2 8;
     let baseSize = (if bestCSize > currCSize then 8 else baseSize);
     let bestCSize = better bestCSize currCSize;
     currCSize \<leftarrow> doubleExponentCompression values 1 8;
     let baseSize = (if bestCSize > currCSize then 8 else baseSize);
     let bestCSize = better bestCSize currCSize;
     Some (bestCSize, baseSize) }"

section \<open>Frequent pattern compression\<close>

text \<open>\<open>abs\<close> of a value converted to \<open>int\<close>; undefined at the least \<open>int\<close>.\<close>

definition abs_int :: "u64 \<Rightarrow> int option" where
  "abs_int v = (let n = sint (ucast v :: u32) in if n = - (2 ^ 31) then None else Some \<bar>n\<bar>)"

text \<open>The bytes one word contributes to \<open>compressable\<close>: one iteration of the loop.\<close>

definition fpc_word :: "u64 \<Rightarrow> u32 option" where
  "fpc_word v =
     (if v = 0 then Some 0
      else do {
        a \<leftarrow> abs_int v;
        if a \<le> 0xFF then Some 1
        else if a \<le> 0xFFFF then Some 2
        else if v AND 0xFFFF = 0 then Some 2
        else do {
          lo \<leftarrow> abs_int (v AND 0xFFFF);
          hi \<leftarrow> abs_int (drop_bit 16 v AND 0xFFFF);
          if lo \<le> 0xFF \<and> hi \<le> 0xFF then Some 2
          else
            (let byte0 = v AND 0xFF;
                 byte1 = drop_bit 8 v AND 0xFF;
                 byte2 = drop_bit 16 v AND 0xFF;
                 byte3 = drop_bit 24 v AND 0xFF
             in if byte0 = byte1 \<and> byte0 = byte2 \<and> byte0 = byte3 then Some 1 else Some 4) } })"

definition FPCCompress :: "u8 list \<Rightarrow> u32 \<Rightarrow> u32 option" where
  "FPCCompress buffer sz = do {
     values \<leftarrow> convertBuffer2Array buffer (unat (sz * 4)) 4;
     assert_c (unat sz \<le> length values);
     compressable \<leftarrow> foldM (\<lambda>c v. do { n \<leftarrow> fpc_word v; Some (c + n) }) 0 (take (unat sz) values);
     let compSize = compressable + sz * 3 div 8;
     Some (if compSize < sz * 4 then compSize else sz * 4) }"

section \<open>C-Pack and the selector\<close>

text \<open>
  What \<open>new DirectoryEntry[n]\<close> holds is not initialised: it is the parameter \<open>fresh\<close>. The result is
  the size and the new value of the static \<open>numEntries\<close>.
\<close>

definition CPack ::
  "(nat \<Rightarrow> DirectoryEntry list) \<Rightarrow> nat \<Rightarrow> u8 list \<Rightarrow> u32 \<Rightarrow> (u32 \<times> nat) option" where
  "CPack fresh numEntries buffer blockSize = do {
     directory \<leftarrow> initialize_dic numEntries (fresh (unat (blockSize div 4 * 8)));
     values \<leftarrow> convertBuffer2Array buffer (unat blockSize) 4;
     (bits, zeroBlock, types, numEntries) \<leftarrow>
       calculate_compressed_size_c_pack directory values (replicate 6 0);
     let compSize = (of_int bits :: u32);
     Some (if zeroBlock then 1 else (compSize + 7) div 8, numEntries) }"

definition GeneralCompress ::
  "(nat \<Rightarrow> DirectoryEntry list) \<Rightarrow> nat \<Rightarrow> u8 list \<Rightarrow> u32 \<Rightarrow> u32 \<Rightarrow> (u32 \<times> nat) option" where
  "GeneralCompress fresh numEntries buffer blockSize compress =
     (if compress = 0 then Some (blockSize, numEntries)
      else if compress = 1 then do { n \<leftarrow> BDICompress buffer blockSize; Some (n, numEntries) }
      else if compress = 2 then do { n \<leftarrow> FPCCompress buffer (blockSize div 4); Some (n, numEntries) }
      else if compress = 3 then do {
        BDISize \<leftarrow> BDICompress buffer blockSize;
        FPCSize \<leftarrow> FPCCompress buffer (blockSize div 4);
        Some (if BDISize \<le> FPCSize then BDISize else FPCSize, numEntries) }
      else if compress = 4 then CPack fresh numEntries buffer blockSize
      else if compress = 5 then do {
        BDISize \<leftarrow> BDICompress buffer blockSize;
        FPCSize \<leftarrow> FPCCompress buffer (blockSize div 4);
        (CPackSize, numEntries) \<leftarrow> CPack fresh numEntries buffer blockSize;
        if BDISize \<le> FPCSize \<and> BDISize \<le> CPackSize then Some (BDISize, numEntries)
        else if FPCSize \<le> BDISize \<and> FPCSize \<le> CPackSize then Some (FPCSize, numEntries)
        else if CPackSize \<le> BDISize \<and> CPackSize \<le> FPCSize then Some (CPackSize, numEntries)
        else do { n \<leftarrow> BDICompressSingle buffer blockSize; Some (n, numEntries) } }
      else if compress = 6 then do { n \<leftarrow> BDICompressSingle buffer blockSize; Some (n, numEntries) }
      else if compress = 7 then do { n \<leftarrow> BDICompress4BOnly buffer blockSize; Some (n, numEntries) }
      else if compress = 8 then do { n \<leftarrow> BDICompress8BOnly buffer blockSize; Some (n, numEntries) }
      else None)"

section \<open>The line read as words\<close>

definition word_at :: "u8 list \<Rightarrow> nat \<Rightarrow> nat \<Rightarrow> u64" where
  "word_at buffer step q = (\<Sum>j \<in> {..< step}. push_bit (8 * j) (ucast (buffer ! (q * step + j))))"

lemma convert_inner:
  assumes "q < length values" and "q * step + m \<le> length buffer" and "m \<le> step" and "0 < step"
  shows "foldM (\<lambda>values j. do {
           b \<leftarrow> at_get buffer (q * step + j);
           v \<leftarrow> at_get values (q * step div step);
           at_put values (q * step div step) (v + push_bit (8 * j) (ucast b)) }) values [0..<m] =
         Some (values[q := values ! q + (\<Sum>j \<in> {..< m}. push_bit (8 * j) (ucast (buffer ! (q * step + j))))])"
  using assms
proof (induction m)
  case 0
  then show ?case by simp
next
  case (Suc m)
  then show ?case by (simp add: foldM_append add.assoc)
qed

lemma convert_outer:
  assumes "m \<le> n" and "n * step \<le> length buffer" and "0 < step"
  shows "foldM (\<lambda>values i.
       foldM (\<lambda>values j. do {
           b \<leftarrow> at_get buffer (i + j);
           v \<leftarrow> at_get values (i div step);
           at_put values (i div step) (v + push_bit (8 * j) (ucast b)) }) values [0..<step])
       (replicate n 0) (map (\<lambda>q. q * step) [0..<m]) =
     Some (map (word_at buffer step) [0..<m] @ replicate (n - m) 0)"
  using assms
proof (induction m)
  case 0
  then show ?case by simp
next
  case (Suc m)
  have len: "m * step + step \<le> length buffer"
  proof -
    have "Suc m * step \<le> n * step" using Suc.prems(1) by (rule mult_le_mono1)
    with Suc.prems(2) show ?thesis by simp
  qed
  let ?vs = "map (word_at buffer step) [0..<m] @ replicate (n - m) 0"
  have "foldM (\<lambda>values j. do {
           b \<leftarrow> at_get buffer (m * step + j);
           v \<leftarrow> at_get values (m * step div step);
           at_put values (m * step div step) (v + push_bit (8 * j) (ucast b)) }) ?vs [0..<step] =
        Some (?vs[m := ?vs ! m + word_at buffer step m])"
    unfolding word_at_def
    by (rule convert_inner) (use Suc.prems len in auto)
  moreover have "?vs[m := ?vs ! m + word_at buffer step m] =
      map (word_at buffer step) [0..<Suc m] @ replicate (n - Suc m) 0"
  proof -
    have "replicate (n - m) (0::u64) = 0 # replicate (n - Suc m) 0"
      using Suc.prems(1) by (simp add: Suc_diff_Suc flip: replicate_Suc)
    then show ?thesis by (simp add: nth_append list_update_append)
  qed
  ultimately show ?case
    using Suc by (simp add: foldM_append)
qed

lemma convertBuffer2Array_eq:
  assumes "n * step \<le> length buffer" and "0 < step"
  shows "convertBuffer2Array buffer (n * step) step = Some (map (word_at buffer step) [0..<n])"
proof -
  have "(n * step + step - 1) div step = n"
    using assms(2) by (metis Suc_pred' add.commute div_mult_self3 div_less diff_less
        add_diff_assoc2 less_numeral_extra(1) add.left_neutral Suc_leI add_diff_assoc plus_1_eq_Suc not_gr_zero)
  then show ?thesis
    using convert_outer [of n n step buffer] assms
    by (simp add: convertBuffer2Array_def steps_def)
qed

lemma base256_digit:
  assumes "i < m" and "\<And>j. b j < (256::nat)"
  shows "(\<Sum>j \<in> {..< m}. 256 ^ j * b j) div 256 ^ i mod 256 = b i"
  using assms
proof (induction m arbitrary: b i)
  case 0
  then show ?case by simp
next
  case (Suc m)
  have split: "(\<Sum>j \<in> {..< Suc m}. 256 ^ j * b j) = b 0 + 256 * (\<Sum>j \<in> {..< m}. 256 ^ j * b (Suc j))"
    by (simp add: sum.lessThan_Suc_shift sum_distrib_left mult.assoc del: sum.lessThan_Suc)
  show ?case
  proof (cases i)
    case 0
    with split Suc.prems(2) [of 0] show ?thesis by simp
  next
    case (Suc k)
    have "(\<Sum>j \<in> {..< m}. 256 ^ j * b (Suc j)) div 256 ^ k mod 256 = b (Suc k)"
      using Suc.prems Suc by (intro Suc.IH) auto
    with split Suc Suc.prems(2) [of 0] show ?thesis
      by (simp add: div_mult2_eq)
  qed
qed

lemma base256_less:
  assumes "\<And>j. b j < (256::nat)"
  shows "(\<Sum>j \<in> {..< m}. 256 ^ j * b j) < 256 ^ m"
proof (induction m)
  case 0
  then show ?case by simp
next
  case (Suc m)
  have "256 ^ m * b m \<le> 256 ^ m * 255" using assms [of m] by simp
  moreover have "(256::nat) ^ Suc m = 256 ^ m + 256 ^ m * 255" by simp
  ultimately show ?case using Suc by (simp only: sum.lessThan_Suc)
qed

lemma word_at_nat:
  "word_at buffer step q = of_nat (\<Sum>j \<in> {..< step}. 256 ^ j * unat (buffer ! (q * step + j)))"
proof -
  have "push_bit (8 * j) (ucast (b :: u8) :: u64) = of_nat (256 ^ j * unat b)" for j b
  proof -
    have "(2::u64) ^ (8 * j) = 256 ^ j" by (simp add: power_mult)
    then show ?thesis by (simp add: push_bit_eq_mult mult.commute)
  qed
  then show ?thesis by (simp add: word_at_def)
qed

lemma word_at_byte:
  assumes "i < step" and "step \<le> 8"
  shows "ucast (drop_bit (8 * i) (word_at buffer step q)) = buffer ! (q * step + i)"
proof -
  define N where "N = (\<Sum>j \<in> {..< step}. 256 ^ j * unat (buffer ! (q * step + j)))"
  have "N < 256 ^ step" unfolding N_def by (rule base256_less) simp
  also have "\<dots> \<le> 256 ^ 8" using assms(2) by (intro power_increasing) auto
  finally have small: "N < 2 ^ 64" by simp
  have dig: "N div 256 ^ i mod 256 = unat (buffer ! (q * step + i))"
    unfolding N_def using assms(1) by (intro base256_digit) auto
  have "unat (drop_bit (8 * i) (word_at buffer step q)) = N div 256 ^ i"
  proof -
    have "unat (of_nat N :: u64) = N" using small by (simp add: unat_of_nat)
    then show ?thesis
      by (simp only: word_at_nat N_def [symmetric] unat_drop_bit_eq)
        (simp add: drop_bit_eq_div power_mult)
  qed
  then have "unat (ucast (drop_bit (8 * i) (word_at buffer step q)) :: u8) = N div 256 ^ i mod 256"
    by (simp add: unsigned_ucast_eq take_bit_eq_mod)
  with dig have "unat (ucast (drop_bit (8 * i) (word_at buffer step q)) :: u8) =
      unat (buffer ! (q * step + i))" by simp
  then show ?thesis by (simp only: word_unat_eq_iff)
qed

section \<open>The bases\<close>

text \<open>A line on which no difference is the least signed number.\<close>

definition spread :: "u64 list \<Rightarrow> bool" where
  "spread ws \<longleftrightarrow> (\<forall>v \<in> set ws. \<forall>w \<in> set ws. v - w \<noteq> 2 ^ 63)"

definition distance :: "u64 \<Rightarrow> u64 \<Rightarrow> u64" where
  "distance v w = (if sint (v - w) < 0 then w - v else v - w)"

lemma sint_least: "sint x = - (2 ^ 63) \<longleftrightarrow> x = 2 ^ 63" for x :: u64
proof
  assume "sint x = - (2 ^ 63)"
  moreover have "word_of_int (sint x) = x" by (simp flip: scast_eq)
  ultimately have "x = word_of_int (- (2 ^ 63))" by simp
  then show "x = 2 ^ 63" by simp
next
  assume "x = 2 ^ 63"
  then show "sint x = - (2 ^ 63)" by simp
qed

lemma llabs_distance: "v - w \<noteq> 2 ^ 63 \<Longrightarrow> llabs (v - w) = Some (distance v w)"
  using sint_least [of "v - w"] by (simp add: llabs_def distance_def)

lemma llabs_undefined: "llabs (2 ^ 63) = None"
  by (simp add: llabs_def)

lemma llabs_0 [simp]: "llabs 0 = Some 0"
  by (simp add: llabs_def)

lemma distance_self [simp]: "distance v v = 0"
  by (simp add: distance_def)

lemma scan_bases_one:
  "b - v \<noteq> 2 ^ 63 \<Longrightarrow> scan_bases limit v [b] 0 = Some (if distance b v > limit then [b, v] else [b])"
  using llabs_distance [of b v] by (subst scan_bases.simps)
    (auto simp: scan_bases.simps [of _ _ _ "Suc 0"] scan_bases.simps [of _ _ _ "Suc (Suc 0)"])

lemma find_bases_eq:
  "\<forall>v \<in> set vs. b - v \<noteq> 2 ^ 63 \<Longrightarrow> find_bases limit [b] vs = Some
   (case List.find (\<lambda>v. distance b v > limit) vs of None \<Rightarrow> [b] | Some v \<Rightarrow> [b, v])"
  by (induction vs) (simp_all add: scan_bases_one)

lemma covered_eq:
  "\<forall>b \<in> set bs. b - v \<noteq> 2 ^ 63 \<Longrightarrow> covered limit bs v = Some (list_ex (\<lambda>b. distance b v \<le> limit) bs)"
  by (induction bs) (simp_all add: llabs_distance)

lemma count_loop:
  "\<forall>v \<in> set vs. covered limit bs v = Some (P v) \<Longrightarrow>
    foldM (\<lambda>c v. do { h \<leftarrow> covered limit bs v; Some (if h then c + 1 else c) }) (c :: u32) vs =
      Some (c + of_nat (length (filter P vs)))"
  by (induction vs arbitrary: c) (simp_all add: add.commute add.left_commute)

lemma count_covered_eq:
  assumes "\<forall>b \<in> set bs. \<forall>v \<in> set vs. b - v \<noteq> 2 ^ 63"
  shows "count_covered limit bs vs = Some (of_nat (length (filter (\<lambda>v. list_ex (\<lambda>b. distance b v \<le> limit) bs) vs)))"
  using count_loop [of vs limit bs "\<lambda>v. list_ex (\<lambda>b. distance b v \<le> limit) bs" 0] covered_eq [of bs _ limit] assms
  by (simp add: count_covered_def)

definition bases_of :: "u64 \<Rightarrow> u64 list \<Rightarrow> u64 list" where
  "bases_of limit ws = ws ! 0 # (case List.find (\<lambda>v. distance (ws ! 0) v > limit) ws of None \<Rightarrow> [] | Some v \<Rightarrow> [v])"

lemma multBase_run:
  assumes "base_limit blimit = Some limit" and "ws \<noteq> []" and "spread ws"
  shows "multBaseCompression ws blimit bsize =
    (let c = of_nat (length (filter (\<lambda>v. list_ex (\<lambda>b. distance b v \<le> limit) (bases_of limit ws)) ws))
     in Some (blimit * c + bsize * 2 + (of_nat (length ws) - c) * bsize))"
proof -
  have "set (bases_of limit ws) \<subseteq> set ws"
    using assms(2) by (auto simp: bases_of_def find_Some_iff find_Some_iff2 split: option.splits)
  then have "\<forall>b \<in> set (bases_of limit ws). \<forall>v \<in> set ws. b - v \<noteq> 2 ^ 63" using assms(3) by (auto simp: spread_def)
  note count = count_covered_eq [OF this, of limit]
  have "\<forall>v \<in> set ws. ws ! 0 - v \<noteq> 2 ^ 63" using assms(2,3) by (simp add: spread_def)
  from find_bases_eq [OF this, of limit] have "find_bases limit [ws ! 0] ws = Some (bases_of limit ws)"
    by (simp add: bases_of_def split: option.splits)
  then show ?thesis using assms(1,2) count by (simp add: multBaseCompression_def Let_def)
qed

lemma singleBase_run:
  assumes "base_limit blimit = Some limit" and "ws \<noteq> []" and "spread ws"
  shows "singleBaseCompression ws blimit bsize =
    (let c = of_nat (length (filter (\<lambda>v. distance (ws ! 0) v \<le> limit) ws))
     in Some (if of_nat (length ws) \<noteq> c then of_nat (length ws) * bsize else blimit * c + bsize))"
proof -
  have "\<forall>b \<in> set [ws ! 0]. \<forall>v \<in> set ws. b - v \<noteq> 2 ^ 63" using assms(2,3) by (simp add: spread_def)
  from count_covered_eq [OF this, of limit] show ?thesis using assms(1,2) by (simp add: singleBaseCompression_def Let_def)
qed

section \<open>Sizes\<close>

text \<open>The lines the compressors are called on: whole 8 byte words, inside the buffer, and small
  enough for the size arithmetic not to wrap.\<close>

definition valid_line :: "u8 list \<Rightarrow> u32 \<Rightarrow> bool" where
  "valid_line buffer n \<longleftrightarrow>
     0 < unat n \<and> unat n mod 8 = 0 \<and> unat n \<le> length buffer \<and> unat n < 2 ^ 28"

text \<open>The lines on which every difference of two 8 byte values has an absolute value; a difference of 4 or 2 byte
  values always has one.\<close>

definition bdi_line :: "u8 list \<Rightarrow> u32 \<Rightarrow> bool" where
  "bdi_line buffer n \<longleftrightarrow> valid_line buffer n \<and> spread (map (word_at buffer 8) [0..<unat n div 8])"

lemma bdi_line_valid: "bdi_line buffer n \<Longrightarrow> valid_line buffer n"
  by (simp add: bdi_line_def)

lemma better_le_left: "better a b \<le> a"
  by (auto simp: better_def intro: order.strict_implies_order)

lemma better_le_right: "better a b \<le> b"
  by (simp add: better_def not_less)

lemma better_pos: "0 < a \<Longrightarrow> 0 < b \<Longrightarrow> 0 < better a b"
  by (simp add: better_def)

lemma better_min: "better a b = min a b"
  by (auto simp: better_def min_def)

lemma valid_line_words:
  assumes "valid_line buffer n" and "step = 8 \<or> step = 4 \<or> step = 2"
  shows "convertBuffer2Array buffer (unat n) step =
           Some (map (word_at buffer step) [0..<unat n div step])"
    and "0 < unat n div step" and "unat n div step * step = unat n"
proof -
  have d: "step dvd 8" using assms(2) by auto
  from assms(1) have "8 dvd unat n" by (auto simp: valid_line_def)
  with d have dv: "step dvd unat n" by (rule dvd_trans)
  then show eq: "unat n div step * step = unat n" by simp
  then show "0 < unat n div step"
    using assms(1) by (metis gr0I mult_0 valid_line_def less_numeral_extra(3))
  show "convertBuffer2Array buffer (unat n) step =
      Some (map (word_at buffer step) [0..<unat n div step])"
    using convertBuffer2Array_eq [of "unat n div step" step buffer] eq assms
    by (auto simp: valid_line_def)
qed

lemma multBase_ok:
  assumes "values \<noteq> []" and "length values < 2 ^ 27"
    and "blimit \<in> {1, 2, 4}" and "bsize \<in> {8, 4, 2}" and spr: "spread values"
  shows "ok (\<lambda>r. 0 < r) (multBaseCompression values blimit bsize)"
proof -
  from assms(3) obtain limit where limit: "base_limit blimit = Some limit"
    by (auto simp: base_limit_def)
  define n where "n = length values"
  define c where "c = length (filter (\<lambda>v. list_ex (\<lambda>b. distance b v \<le> limit) (bases_of limit values)) values)"
  obtain b l where bl: "bsize = of_nat b" "blimit = of_nat l" "b \<in> {8, 4, 2}" "l \<in> {1, 2, 4}"
    using assms(3,4) that [of 8 1] that [of 8 2] that [of 8 4] that [of 4 1] that [of 4 2]
      that [of 4 4] that [of 2 1] that [of 2 2] that [of 2 4] by auto
  have cn: "c \<le> n" by (simp add: c_def n_def)
  have "multBaseCompression values blimit bsize =
      Some (of_nat (l * c + b * 2 + (n - c) * b))"
    using multBase_run [OF limit assms(1) spr, of bsize] cn
    by (simp add: bl(1,2) Let_def of_nat_diff flip: c_def n_def)
  moreover have "(0::u32) < of_nat (l * c + b * 2 + (n - c) * b)"
    using bl(3,4) cn assms(2) by (intro u32_of_nat_pos) (auto simp: n_def)
  ultimately show ?thesis by (simp add: ok_def)
qed

lemma singleBase_ok:
  assumes "values \<noteq> []" and "length values < 2 ^ 27"
    and "blimit \<in> {1, 2, 4}" and "bsize \<in> {8, 4, 2}" and spr: "spread values"
  shows "ok (\<lambda>r. 0 < r) (singleBaseCompression values blimit bsize)"
proof -
  from assms(3) obtain limit where limit: "base_limit blimit = Some limit"
    by (auto simp: base_limit_def)
  define n where "n = length values"
  define c where "c = length (filter (\<lambda>v. distance (values ! 0) v \<le> limit) values)"
  obtain b l where bl: "bsize = of_nat b" "blimit = of_nat l" "b \<in> {8, 4, 2}" "l \<in> {1, 2, 4}"
    using assms(3,4) that [of 8 1] that [of 8 2] that [of 8 4] that [of 4 1] that [of 4 2]
      that [of 4 4] that [of 2 1] that [of 2 2] that [of 2 4] by auto
  have cn: "c \<le> n" by (simp add: c_def n_def)
  have "singleBaseCompression values blimit bsize =
      Some (of_nat (if (of_nat n :: u32) \<noteq> of_nat c then n * b else l * c + b))"
    using singleBase_run [OF limit assms(1) spr, of bsize]
    by (simp add: bl(1,2) Let_def flip: c_def n_def)
  moreover have "(0::u32) < of_nat (if (of_nat n :: u32) \<noteq> of_nat c then n * b else l * c + b)"
    using bl(3,4) cn assms(1,2) by (intro u32_of_nat_pos) (auto simp: n_def)
  ultimately show ?thesis by (simp add: ok_def)
qed

lemma doubleExponent_ok:
  assumes "values \<noteq> []" and "length values < 2 ^ 27" and "blimit \<in> {1, 2}" and "bsize = 8"
  shows "ok (\<lambda>r. 0 < r) (doubleExponentCompression values blimit bsize)"
proof -
  obtain l limit where l: "blimit = of_nat l" "l \<in> {1, 2}"
    "(if blimit = 1 then Some 56 else if blimit = 2 then Some 48 else None) = Some (limit :: nat)"
    using assms(3) that [of 1 56] that [of 2 48] by auto
  define n where "n = length values"
  define c where "c = length (filter (\<lambda>v. drop_bit limit (values ! 0) = drop_bit limit v) values)"
  have n: "0 < n" "n < 2 ^ 27" using assms by (auto simp: n_def)
  have "c \<le> n" by (simp add: c_def n_def)
  with n have inj: "(of_nat c :: u32) \<noteq> of_nat n \<longleftrightarrow> c \<noteq> n"
    by (subst u32_of_nat_inject) auto
  have "doubleExponentCompression values blimit bsize =
      Some (if (of_nat c :: u32) \<noteq> of_nat n then of_nat n * 8
            else of_nat n * 8 - (of_nat c - 1) * of_nat l)"
    unfolding doubleExponentCompression_def l(3) c_def n_def by (simp add: l(1) assms(4) Let_def)
  also have "\<dots> = Some (if c \<noteq> n then of_nat n * 8 else of_nat n * 8 - (of_nat c - 1) * of_nat l)"
    by (simp only: inj)
  also have "\<dots> = Some (of_nat (if c \<noteq> n then n * 8 else n * 8 - (n - 1) * l))"
    using n l(2) by (auto simp: of_nat_diff)
  finally have run: "doubleExponentCompression values blimit bsize =
      Some (of_nat (if c \<noteq> n then n * 8 else n * 8 - (n - 1) * l))" .
  have "(0::u32) < of_nat (if c \<noteq> n then n * 8 else n * 8 - (n - 1) * l)"
    using n l(2) by (intro u32_of_nat_pos) auto
  with run show ?thesis by (simp add: ok_def)
qed

lemma isZeroPackable_iff: "isZeroPackable vs \<longleftrightarrow> (\<forall>v \<in> set vs. v = 0)"
  by (auto simp: isZeroPackable_def list_ex_iff)

lemma isSameValuePackable_iff: "isSameValuePackable vs \<longleftrightarrow> (\<forall>v \<in> set vs. v = vs ! 0)"
  by (auto simp: isSameValuePackable_def list_ex_iff)

lemma word_at_small: "step \<le> 4 \<Longrightarrow> unat (word_at buffer step q) < 2 ^ 32"
proof -
  assume "step \<le> 4"
  define N where "N = (\<Sum>j \<in> {..< step}. 256 ^ j * unat (buffer ! (q * step + j)))"
  have "N < 256 ^ step" unfolding N_def by (rule base256_less) simp
  also have "\<dots> \<le> 256 ^ 4" using \<open>step \<le> 4\<close> by (intro power_increasing) auto
  finally have "N < 2 ^ 32" by simp
  then show ?thesis by (simp add: word_at_nat flip: N_def)
qed

lemma spread_small:
  assumes "\<forall>v \<in> set ws. unat v < 2 ^ 32"
  shows "spread ws"
  unfolding spread_def
proof (intro ballI notI)
  fix v w assume vw: "v \<in> set ws" "w \<in> set ws" and "v - w = 2 ^ 63"
  then have "v = w + 2 ^ 63" by (metis diff_add_cancel add.commute)
  then have "unat v = (unat w + 2 ^ 63) mod 2 ^ 64" by (simp add: unat_word_ariths)
  moreover have "unat v < 2 ^ 32" "unat w < 2 ^ 32" using assms vw by blast+
  ultimately show False by simp
qed

lemma line_spread:
  assumes "bdi_line buffer n" and "step = 8 \<or> step = 4 \<or> step = 2"
  shows "spread (map (word_at buffer step) [0..<unat n div step])"
proof (cases "step = 8")
  case True
  then show ?thesis using assms(1) by (simp add: bdi_line_def)
next
  case False
  then have "step \<le> 4" using assms(2) by auto
  with word_at_small show ?thesis by (intro spread_small) simp
qed

text \<open>What a conversion of such a line gives the base compressors.\<close>

lemma convert_ok:
  assumes "bdi_line buffer n" and "step = 8 \<or> step = 4 \<or> step = 2"
  shows "ok (\<lambda>vs. vs = map (word_at buffer step) [0..<unat n div step] \<and> vs \<noteq> [] \<and> length vs < 2 ^ 27 \<and> spread vs)
    (convertBuffer2Array buffer (unat n) step)"
proof -
  have "unat n div step < 2 ^ 27"
    using assms by (auto simp: valid_line_def bdi_line_def)
  with valid_line_words [OF bdi_line_valid [OF assms(1)] assms(2)] line_spread [OF assms] show ?thesis by (simp add: ok_def)
qed

lemma better_bounds:
  "0 < a \<Longrightarrow> a \<le> n \<Longrightarrow> 0 < b \<Longrightarrow> 0 < better a b \<and> better a b \<le> (n :: u32)"
  by (auto simp: better_def)

lemma valid_line_pos: "valid_line buffer n \<Longrightarrow> 0 < n \<and> 1 \<le> n"
  by (auto simp: valid_line_def word_less_nat_alt word_le_nat_alt)

lemma bdi_line_pos: "bdi_line buffer n \<Longrightarrow> 0 < n \<and> 1 \<le> n"
  using bdi_line_valid valid_line_pos by blast

section \<open>The base-delta compressors return a size within the line\<close>

text \<open>The rules that run the steps of a base-delta compressor on a valid line.\<close>

lemmas bdi_steps = ok_bind [OF convert_ok] ok_bind [OF multBase_ok] ok_bind [OF singleBase_ok]
  ok_bind [OF doubleExponent_ok]

lemma start_bounds: "bdi_line buffer n \<Longrightarrow> 0 < (if z then 1 else n) \<and> (if z then 1 else n) \<le> n"
  using bdi_line_pos by auto

lemma pack_pos: "bdi_line buffer n \<Longrightarrow> 0 < c \<Longrightarrow> 0 < m \<Longrightarrow> 0 < (if s then m else c)"
  by simp

lemma better_boundsI:
  "0 < a \<and> a \<le> n \<Longrightarrow> 0 < b \<Longrightarrow> 0 < better a b \<and> better a b \<le> (n :: u32)"
  by (auto simp: better_def)

lemma BDICompress_ok:
  assumes "bdi_line buffer n"
  shows "ok (\<lambda>r. 0 < r \<and> r \<le> n) (BDICompress buffer n)"
  unfolding BDICompress_def Let_def
  by (intro bdi_steps ok_SomeI better_boundsI start_bounds pack_pos; (elim conjE)?)
    (use assms bdi_line_pos in auto)

lemma BDICompressSingle_ok:
  assumes "bdi_line buffer n"
  shows "ok (\<lambda>r. 0 < r \<and> r \<le> n) (BDICompressSingle buffer n)"
  unfolding BDICompressSingle_def Let_def
  by (intro bdi_steps ok_SomeI better_boundsI start_bounds pack_pos; (elim conjE)?)
    (use assms bdi_line_pos in auto)

lemma BDICompress4BOnly_ok:
  assumes "bdi_line buffer n"
  shows "ok (\<lambda>r. 0 < r \<and> r \<le> n) (BDICompress4BOnly buffer n)"
  unfolding BDICompress4BOnly_def Let_def
  by (intro bdi_steps ok_SomeI better_boundsI start_bounds pack_pos; (elim conjE)?)
    (use assms bdi_line_pos in auto)

lemma BDICompress8BOnly_ok:
  assumes "bdi_line buffer n"
  shows "ok (\<lambda>r. 0 < r \<and> r \<le> n) (BDICompress8BOnly buffer n)"
  unfolding BDICompress8BOnly_def Let_def
  by (intro bdi_steps ok_SomeI better_boundsI start_bounds pack_pos; (elim conjE)?)
    (use assms bdi_line_pos in auto)

lemma BDICompressSpecial_size: "map_option fst (BDICompressSpecial buffer n) = BDICompress buffer n"
  by (simp add: BDICompressSpecial_def BDICompress_def Let_def map_option_bind comp_def)

lemma better_one: "1 = a \<Longrightarrow> 0 < b \<Longrightarrow> 1 = better a b"
  by (auto simp: better_def word_less_nat_alt)

lemma zero_words:
  assumes "valid_line buffer n" and "\<forall>b \<in> set (take (unat n) buffer). b = 0"
  shows "isZeroPackable (map (word_at buffer 8) [0..<unat n div 8])"
proof -
  have z: "buffer ! (q * 8 + j) = 0" if "q < unat n div 8" "j < 8" for q j
  proof -
    have "q * 8 + j < unat n" using that by simp
    moreover from this have "buffer ! (q * 8 + j) \<in> set (take (unat n) buffer)"
      using assms(1) by (force simp: valid_line_def in_set_conv_nth)
    ultimately show ?thesis using assms(2) by blast
  qed
  then show ?thesis by (auto simp: isZeroPackable_iff word_at_def)
qed

lemma start_one: "z \<Longrightarrow> (1 :: u32) = (if z then 1 else n)"
  by simp

lemma BDICompress_zero:
  assumes "bdi_line buffer n" and "\<forall>b \<in> set (take (unat n) buffer). b = 0"
  shows "ok ((=) 1) (BDICompress buffer n)"
  unfolding BDICompress_def Let_def
  by (intro bdi_steps ok_SomeI better_one start_one pack_pos; (elim conjE)?)
    (use zero_words [OF bdi_line_valid [OF assms(1)] assms(2)] assms(1) bdi_line_pos in auto)

section \<open>Base-delta compression as the cheapest encoding\<close>

text \<open>
  The specification of the size of an encoding, over natural numbers: with two bases (the first value
  and the first value far from it), a value within \<open>2 ^ (8 * l) - 1\<close> of a base costs \<open>l\<close> bytes and
  any other costs \<open>b\<close>; with a shared exponent every value costs its low part.
\<close>

definition near :: "nat \<Rightarrow> u64 \<Rightarrow> u64 \<Rightarrow> bool" where
  "near l v w \<longleftrightarrow> \<bar>sint (v - w)\<bar> < 2 ^ (8 * l)"

definition the_bases :: "nat \<Rightarrow> u64 list \<Rightarrow> u64 list" where
  "the_bases l ws = ws ! 0 # (case List.find (\<lambda>v. \<not> near l (ws ! 0) v) ws of None \<Rightarrow> [] | Some v \<Rightarrow> [v])"

definition two_base_bytes :: "nat \<Rightarrow> nat \<Rightarrow> u64 list \<Rightarrow> nat" where
  "two_base_bytes l b ws =
     (\<Sum>v \<leftarrow> ws. if \<exists>base \<in> set (the_bases l ws). near l base v then l else b) + 2 * b"

definition exponent_bytes :: "nat \<Rightarrow> u64 list \<Rightarrow> nat" where
  "exponent_bytes l ws =
     (if \<forall>v \<in> set ws. drop_bit (8 * (8 - l)) v = drop_bit (8 * (8 - l)) (ws ! 0)
      then 8 * length ws - l * (length ws - 1) else 8 * length ws)"

lemma uint_of_sint_64: "uint x = sint x mod 2 ^ 64" for x :: "64 word"
proof -
  have "take_bit 64 (sint x) = take_bit 64 (uint x)"
    by (simp add: sint_uint take_bit_signed_take_bit)
  also have "\<dots> = uint x" using take_bit_int_eq_self [of "uint x" 64] unsigned_less [of x] by simp
  finally show ?thesis by (simp add: take_bit_eq_mod)
qed
lemma sint_range_64: "- (2 ^ 63) \<le> sint x \<and> sint x < 2 ^ 63" for x :: "64 word"
  using sint_greater_eq [of x] sint_less [of x] by simp

lemma unat_distance: "int (unat (distance v w)) = \<bar>sint (v - w)\<bar>"
proof -
  have "uint (v - w) = sint (v - w) mod 2 ^ 64" by (rule uint_of_sint_64)
  moreover have "uint (w - v) = (- sint (v - w)) mod 2 ^ 64"
    using uint_word_of_int [of "- sint (v - w)", where 'a = 64] by (simp add: take_bit_eq_mod)
  ultimately show ?thesis
    using sint_range_64 [of "v - w"] by (auto simp: distance_def)
qed

lemma near_limit:
  assumes "base_limit (of_nat l) = Some limit" and "l \<in> {1, 2, 4}"
  shows "distance v w \<le> limit \<longleftrightarrow> near l v w"
proof -
  have lim: "int (unat limit) = 2 ^ (8 * l) - 1"
    using assms by (auto simp: base_limit_def split: if_splits)
  have "distance v w \<le> limit \<longleftrightarrow> int (unat (distance v w)) \<le> int (unat limit)"
    by (simp only: word_le_nat_alt of_nat_le_iff)
  also have "\<dots> \<longleftrightarrow> near l v w" by (simp only: unat_distance lim near_def) linarith
  finally show ?thesis .
qed

lemma sum_if_count:
  "(\<Sum>v \<leftarrow> ws. if P v then l else b) =
     l * length (filter P ws) + (length ws - length (filter P ws)) * (b :: nat)"
proof (induction ws)
  case Nil
  then show ?case by simp
next
  case (Cons v ws)
  have "length (filter P ws) \<le> length ws" by simp
  with Cons show ?case by (auto simp: Suc_diff_le)
qed

lemma multBase_eq:
  assumes "base_limit (of_nat l) = Some limit" and "l \<in> {1, 2, 4}" and "ws \<noteq> []" and "spread ws"
  shows "multBaseCompression ws (of_nat l) (of_nat b) = Some (of_nat (two_base_bytes l b ws))"
proof -
  have bases: "bases_of limit ws = the_bases l ws"
    using near_limit [OF assms(1,2)] by (simp add: bases_of_def the_bases_def flip: not_le)
  have cov: "(\<lambda>v. list_ex (\<lambda>b. distance b v \<le> limit) (the_bases l ws)) = (\<lambda>v. \<exists>base \<in> set (the_bases l ws). near l base v)"
    using near_limit [OF assms(1,2)] by (simp add: list_ex_iff)
  define c where "c = length (filter (\<lambda>v. \<exists>base \<in> set (the_bases l ws). near l base v) ws)"
  have c: "c \<le> length ws" by (simp add: c_def)
  have "multBaseCompression ws (of_nat l) (of_nat b) =
      Some (of_nat l * of_nat c + of_nat b * 2 + (of_nat (length ws) - of_nat c) * of_nat b)"
    using multBase_run [OF assms(1,3,4), of "of_nat b"] by (simp only: bases cov Let_def flip: c_def)
  also have "\<dots> = Some (of_nat (l * c + b * 2 + (length ws - c) * b))"
    using c by (simp add: of_nat_diff)
  also have "l * c + b * 2 + (length ws - c) * b = two_base_bytes l b ws"
    by (simp add: two_base_bytes_def sum_if_count flip: c_def)
  finally show ?thesis .
qed

lemma doubleExponent_eq:
  assumes "l \<in> {1, 2}" and "ws \<noteq> []" and "length ws < 2 ^ 27"
  shows "doubleExponentCompression ws (of_nat l) 8 = Some (of_nat (exponent_bytes l ws))"
proof -
  define P where "P = (\<lambda>v. drop_bit (8 * (8 - l)) (ws ! 0) = drop_bit (8 * (8 - l)) v)"
  define c where "c = length (filter P ws)"
  have c: "c \<le> length ws" by (simp add: c_def)
  have "c = length ws \<longleftrightarrow> (\<forall>v \<in> set ws. P v)"
    unfolding c_def by (metis filter_id_conv length_filter_less less_irrefl)
  then have full: "(\<forall>v \<in> set ws. drop_bit (8 * (8 - l)) v = drop_bit (8 * (8 - l)) (ws ! 0)) \<longleftrightarrow>
      c = length ws" by (metis P_def)
  have inj: "(of_nat c :: u32) = of_nat (length ws) \<longleftrightarrow> c = length ws"
    using c assms(3) by (intro u32_of_nat_inject) auto
  have "doubleExponentCompression ws (of_nat l) 8 =
      Some (if (of_nat c :: u32) \<noteq> of_nat (length ws) then of_nat (length ws) * 8
            else of_nat (length ws) * 8 - (of_nat c - 1) * of_nat l)"
    using assms(1) by (auto simp: doubleExponentCompression_def c_def P_def Let_def)
  also have "\<dots> = Some (of_nat (exponent_bytes l ws))"
  proof (cases "c = length ws")
    case True
    have "l * (length ws - 1) \<le> 8 * length ws"
      using assms(1) by (intro mult_le_mono) auto
    with True assms(2) show ?thesis
      by (simp add: exponent_bytes_def full of_nat_diff Suc_le_eq mult.commute)
  next
    case False
    then show ?thesis by (simp add: exponent_bytes_def full inj)
  qed
  finally show ?thesis .
qed

lemma two_base_bytes_bound:
  assumes "length ws < 2 ^ 27" and "l \<le> 8" and "b \<le> 8"
  shows "two_base_bytes l b ws < 2 ^ 32"
proof -
  have "(\<Sum>v \<leftarrow> ws. if \<exists>base \<in> set (the_bases l ws). near l base v then l else b) \<le> (\<Sum>v \<leftarrow> ws. 8)"
    using assms(2,3) by (intro sum_list_mono) auto
  also have "\<dots> = 8 * length ws" by (simp add: sum_list_triv)
  finally show ?thesis using assms(1,3) by (simp add: two_base_bytes_def)
qed

lemma exponent_bytes_bound: "length ws < 2 ^ 27 \<Longrightarrow> exponent_bytes l ws < 2 ^ 32"
  by (auto simp: exponent_bytes_def intro: le_less_trans [OF diff_le_self])

lemma better_of_nat:
  assumes "a < 2 ^ 32" and "b < 2 ^ 32"
  shows "better (of_nat a) (of_nat b) = of_nat (min a b)"
  using assms by (auto simp: better_def word_less_nat_alt min_def)

text \<open>The encodings \<open>BDICompress\<close> chooses from, for a line of \<open>n\<close> bytes.\<close>

definition bdi_encodings :: "u8 list \<Rightarrow> nat \<Rightarrow> nat list" where
  "bdi_encodings buffer n =
     (let w8 = map (word_at buffer 8) [0..<n div 8];
          w4 = map (word_at buffer 4) [0..<n div 4];
          w2 = map (word_at buffer 2) [0..<n div 2]
      in [n] @ (if \<forall>v \<in> set w8. v = 0 then [1] else [])
         @ (if \<forall>v \<in> set w8. v = w8 ! 0 then [8] else [])
         @ [two_base_bytes 1 8 w8, two_base_bytes 2 8 w8, two_base_bytes 4 8 w8]
         @ (if \<forall>v \<in> set w4. v = w4 ! 0 then [4] else [])
         @ [two_base_bytes 1 4 w4, two_base_bytes 2 4 w4, two_base_bytes 1 2 w2,
            exponent_bytes 2 w8, exponent_bytes 1 w8])"

lemma base_limits:
  "base_limit (of_nat 1) = Some 0xFF" "base_limit (of_nat 2) = Some 0xFFFF"
  "base_limit (of_nat 4) = Some 0xFFFFFFFF"
  by (simp_all add: base_limit_def)

lemmas mult_eqs = multBase_eq [OF base_limits(1), simplified] multBase_eq [OF base_limits(2), simplified]
  multBase_eq [OF base_limits(3), simplified]

lemma mult_runs:
  assumes "ws \<noteq> []" and "spread ws"
  shows "multBaseCompression ws 1 8 = Some (of_nat (two_base_bytes 1 8 ws))"
    and "multBaseCompression ws 2 8 = Some (of_nat (two_base_bytes 2 8 ws))"
    and "multBaseCompression ws 4 8 = Some (of_nat (two_base_bytes 4 8 ws))"
    and "multBaseCompression ws 1 4 = Some (of_nat (two_base_bytes 1 4 ws))"
    and "multBaseCompression ws 2 4 = Some (of_nat (two_base_bytes 2 4 ws))"
    and "multBaseCompression ws 1 2 = Some (of_nat (two_base_bytes 1 2 ws))"
  using mult_eqs [OF assms, of 8] mult_eqs [OF assms, of 4] mult_eqs [OF assms, of 2] by simp_all

lemma exponent_runs:
  assumes "ws \<noteq> []" and "length ws < 2 ^ 27"
  shows "doubleExponentCompression ws 1 8 = Some (of_nat (exponent_bytes 1 ws))"
    and "doubleExponentCompression ws 2 8 = Some (of_nat (exponent_bytes 2 ws))"
  using doubleExponent_eq [OF _ assms, of 1] doubleExponent_eq [OF _ assms, of 2] by simp_all

lemma better_if:
  assumes "a < 2 ^ 32" and "b < 2 ^ 32" and "c < 2 ^ 32"
  shows "better (of_nat a) (if s then of_nat b else of_nat c) =
    of_nat (min a (if s then b else c))"
  using assms by (simp add: better_of_nat)

lemma min_lt: "(a :: nat) < k \<Longrightarrow> min a b < k"
  by (rule min.strict_coboundedI1)

lemma min_chain:
  fixes N :: nat
  assumes "1 \<le> N"
  shows "min (min (min (min (min (min (min (min (min (min (if z then 1 else N) (if s8 then 8 else N)) a) b) c)
       (if s4 then 4 else c)) d) e) f) g) h =
     Min (set ([N] @ (if z then [1] else []) @ (if s8 then [8] else []) @ [a, b, c] @
       (if s4 then [4] else []) @ [d, e, f, g, h]))" (is "?l = ?r")
proof -
  have "k \<le> ?l \<longleftrightarrow> k \<le> ?r" for k
  proof -
    let ?S = "set ([N] @ (if z then [1] else []) @ (if s8 then [8] else []) @ [a, b, c] @
       (if s4 then [4] else []) @ [d, e, f, g, h])"
    have "k \<le> ?r \<longleftrightarrow> (\<forall>x \<in> ?S. k \<le> x)" by (rule Min_ge_iff) simp_all
    moreover have "k \<le> 1 \<Longrightarrow> k \<le> N" using assms by simp
    ultimately show ?thesis
      unfolding min.bounded_iff by (cases z; cases s8; cases s4; simp only: if_True if_False
       set_append list.set ball_Un ball_simps Un_insert_left Un_empty_left append.simps; blast)
  qed
  from this [of ?l] this [of ?r] show ?thesis by (intro antisym) blast+
qed

lemma BDICompress_min:
  assumes bdi: "bdi_line buffer n"
  shows "BDICompress buffer n = Some (of_nat (Min (set (bdi_encodings buffer (unat n)))))"
proof -
  have valid: "valid_line buffer n" using bdi by (rule bdi_line_valid)
  define N where "N = unat n"
  have n: "n = of_nat N" by (simp add: N_def)
  define w8 where "w8 = map (word_at buffer 8) [0..<N div 8]"
  define w4 where "w4 = map (word_at buffer 4) [0..<N div 4]"
  define w2 where "w2 = map (word_at buffer 2) [0..<N div 2]"
  have conv: "convertBuffer2Array buffer (unat n) 8 = Some w8"
    "convertBuffer2Array buffer (unat n) 4 = Some w4" "convertBuffer2Array buffer (unat n) 2 = Some w2"
    and ne: "w8 \<noteq> []" "w4 \<noteq> []" "w2 \<noteq> []"
    using valid_line_words [OF valid, of 8] valid_line_words [OF valid, of 4]
      valid_line_words [OF valid, of 2] by (simp_all add: w8_def w4_def w2_def N_def)
  have spr: "spread w8" "spread w4" "spread w2"
    using line_spread [OF bdi, of 8] line_spread [OF bdi, of 4] line_spread [OF bdi, of 2]
    by (simp_all add: w8_def w4_def w2_def N_def)
  have small: "N < 2 ^ 28" "length w8 < 2 ^ 27" "length w4 < 2 ^ 27" "length w2 < 2 ^ 27"
    using valid by (auto simp: w8_def w4_def w2_def N_def valid_line_def)
  have b: "two_base_bytes l b w8 < 2 ^ 32" "two_base_bytes l b w4 < 2 ^ 32"
    "two_base_bytes l b w2 < 2 ^ 32" "exponent_bytes l w8 < 2 ^ 32" if "l \<le> 8" "b \<le> 8" for l b
    using two_base_bytes_bound exponent_bytes_bound small that by auto
  let ?z = "isZeroPackable w8" and ?s8 = "isSameValuePackable w8" and ?s4 = "isSameValuePackable w4"
  define c0 where "c0 = (if ?z then 1 else N)"
  define c1 where "c1 = min c0 (if ?s8 then 8 else N)"
  define c2 where "c2 = min (min (min c1 (two_base_bytes 1 8 w8)) (two_base_bytes 2 8 w8)) (two_base_bytes 4 8 w8)"
  define c3 where "c3 = min c2 (if ?s4 then 4 else two_base_bytes 4 8 w8)"
  define c4 where "c4 = min (min (min c3 (two_base_bytes 1 4 w4)) (two_base_bytes 2 4 w4)) (two_base_bytes 1 2 w2)"
  define c5 where "c5 = min (min c4 (exponent_bytes 2 w8)) (exponent_bytes 1 w8)"
  have lt0: "c0 < 2 ^ 32" using small by (simp add: c0_def)
  have lt1: "c1 < 2 ^ 32" unfolding c1_def by (intro min_lt lt0)
  have lt2: "c2 < 2 ^ 32" unfolding c2_def by (intro min_lt lt1)
  have lt3: "c3 < 2 ^ 32" unfolding c3_def by (intro min_lt lt2)
  have lt4: "c4 < 2 ^ 32" unfolding c4_def by (intro min_lt lt3)
  note lt = lt0 lt1 lt2 lt3 lt4
  have s0: "(if ?z then 1 else n) = of_nat c0" by (simp add: c0_def n)
  have s1: "better (of_nat c0) (if ?s8 then 8 else n) = of_nat c1"
    using better_of_nat [OF lt(1), of 8] better_of_nat [OF lt(1), of N] small by (simp add: c1_def n)
  have s2: "better (better (better (of_nat c1) (of_nat (two_base_bytes 1 8 w8)))
        (of_nat (two_base_bytes 2 8 w8))) (of_nat (two_base_bytes 4 8 w8)) = of_nat c2"
    by (simp only: c2_def better_of_nat min_lt lt b numeral_le_iff one_le_numeral semiring_norm order_refl)
  have s3: "better (of_nat c2) (if ?s4 then 4 else of_nat (two_base_bytes 4 8 w8)) = of_nat c3"
    using better_of_nat [OF lt(3), of 4] better_of_nat [OF lt(3) b(1), of 4 8] by (simp add: c3_def)
  have s4: "better (better (better (of_nat c3) (of_nat (two_base_bytes 1 4 w4)))
        (of_nat (two_base_bytes 2 4 w4))) (of_nat (two_base_bytes 1 2 w2)) = of_nat c4"
    by (simp only: c4_def better_of_nat min_lt lt b numeral_le_iff one_le_numeral semiring_norm order_refl)
  have s5: "better (better (of_nat c4) (of_nat (exponent_bytes 2 w8)))
        (of_nat (exponent_bytes 1 w8)) = of_nat c5"
    by (simp only: c5_def better_of_nat min_lt lt exponent_bytes_bound [OF small(2)])
  have "BDICompress buffer n = Some (of_nat c5)"
    by (simp only: BDICompress_def conv mult_runs [OF ne(1) spr(1)] mult_runs [OF ne(2) spr(2)] mult_runs [OF ne(3) spr(3)]
        exponent_runs [OF ne(1) small(2)] Let_def bind.bind_lunit s0 s1 s2 s3 s4 s5)
  also have "c5 = Min (set (bdi_encodings buffer N))"
  proof -
    have enc: "bdi_encodings buffer N = [N] @ (if ?z then [1] else []) @ (if ?s8 then [8] else [])
        @ [two_base_bytes 1 8 w8, two_base_bytes 2 8 w8, two_base_bytes 4 8 w8]
        @ (if ?s4 then [4] else [])
        @ [two_base_bytes 1 4 w4, two_base_bytes 2 4 w4, two_base_bytes 1 2 w2,
           exponent_bytes 2 w8, exponent_bytes 1 w8]"
      by (simp only: bdi_encodings_def Let_def isZeroPackable_iff isSameValuePackable_iff
          w8_def w4_def w2_def)
    have "1 \<le> N" using valid by (simp add: valid_line_def N_def)
    then show ?thesis
      unfolding enc c5_def c4_def c3_def c2_def c1_def c0_def by (rule min_chain)
  qed
  finally show ?thesis by (simp add: N_def)
qed

section \<open>Frequent pattern compression\<close>

text \<open>The word \<open>abs\<close> is undefined on; a line with it has no size.\<close>

definition abs_defined :: "u8 list \<Rightarrow> u32 \<Rightarrow> bool" where
  "abs_defined buffer n \<longleftrightarrow> (\<forall>q < unat n div 4. word_at buffer 4 q \<noteq> 0x80000000)"

lemma sint_min: "sint v = - (2 ^ 31) \<longleftrightarrow> v = 0x80000000" for v :: u32
proof
  assume "sint v = - (2 ^ 31)"
  moreover have "word_of_int (sint v) = v" by (simp flip: scast_eq)
  ultimately have "v = word_of_int (- (2 ^ 31))" by simp
  then show "v = 0x80000000" by simp
next
  assume "v = 0x80000000"
  then show "sint v = - (2 ^ 31)" by simp
qed

lemma abs_int_None: "unat w < 2 ^ 32 \<Longrightarrow> abs_int w = None \<longleftrightarrow> w = 0x80000000"
proof -
  assume w: "unat w < 2 ^ 32"
  define v where "v = (ucast w :: u32)"
  have "unat v = unat w mod 2 ^ 32" by (simp add: v_def unsigned_ucast_eq take_bit_eq_mod)
  with w have vw: "unat v = unat w" by simp
  have "v = 0x80000000 \<longleftrightarrow> w = 0x80000000"
    using vw by (simp add: word_unat_eq_iff)
  then show ?thesis using sint_min [of v] by (simp add: abs_int_def Let_def flip: v_def)
qed

lemma abs_int_low: "abs_int (x AND 0xFFFF) \<noteq> None"
proof -
  have "x AND 0xFFFF = take_bit 16 x" by (simp add: take_bit_eq_mask mask_eq_exp_minus_1)
  moreover have "unat (take_bit 16 x) < 2 ^ 16" by (simp only: unsigned_take_bit_eq take_bit_nat_less_exp)
  ultimately have small: "unat (x AND 0xFFFF) < 2 ^ 16" by simp
  then have "x AND 0xFFFF \<noteq> 0x80000000" by (simp add: word_unat_eq_iff)
  with small show ?thesis by (simp add: abs_int_None)
qed
lemma fpc_word_ok:
  assumes "unat w < 2 ^ 32" and "w \<noteq> 0x80000000"
  shows "ok (\<lambda>c. c \<le> 4) (fpc_word w)"
proof (cases "w = 0")
  case True
  then show ?thesis by (simp add: fpc_word_def)
next
  case False
  from assms obtain a where a: "abs_int w = Some a" using abs_int_None by fastforce
  from abs_int_low obtain lo hi where
    "abs_int (w AND 0xFFFF) = Some lo" "abs_int (drop_bit 16 w AND 0xFFFF) = Some hi" by blast
  with a False show ?thesis by (simp add: fpc_word_def Let_def)
qed

lemma fpc_word_undefined: "fpc_word 0x80000000 = None"
  using abs_int_None [of "0x80000000"] by (simp add: fpc_word_def)

lemma valid_line_quarter:
  assumes "valid_line buffer n"
  shows "n div 4 * 4 = n" and "unat (n div 4) = unat n div 4"
proof -
  have "4 dvd unat n" using assms by (auto simp: valid_line_def mod_eq_0_iff_dvd intro: dvd_trans [of 4 8])
  moreover show "unat (n div 4) = unat n div 4" by (simp add: unat_div)
  ultimately have "unat (n div 4 * 4) = unat n"
    using assms by (simp add: unat_word_ariths valid_line_def)
  then show "n div 4 * 4 = n" by (simp only: word_unat_eq_iff)
qed

lemma FPCCompress_run:
  assumes "valid_line buffer n"
  shows "FPCCompress buffer (n div 4) =
    foldM (\<lambda>c v. do { b \<leftarrow> fpc_word v; Some (c + b) }) 0 (map (word_at buffer 4) [0..<unat n div 4]) \<bind>
      (\<lambda>c. Some (if c + n div 4 * 3 div 8 < n then c + n div 4 * 3 div 8 else n))"
  using valid_line_words(1) [OF assms, of 4] valid_line_quarter [OF assms]
  by (simp add: FPCCompress_def Let_def cong: if_cong)

lemma FPCCompress_ok:
  assumes "valid_line buffer n" and "abs_defined buffer n"
  shows "ok (\<lambda>r. r \<le> n) (FPCCompress buffer (n div 4))"
proof -
  have "ok (\<lambda>_. True) (foldM (\<lambda>c v. do { b \<leftarrow> fpc_word v; Some (c + b) }) 0
      (map (word_at buffer 4) [0..<unat n div 4]))"
  proof (rule ok_foldM)
    fix c v assume "v \<in> set (map (word_at buffer 4) [0..<unat n div 4])"
    then have "ok (\<lambda>c. c \<le> 4) (fpc_word v)"
      using assms(2) by (auto simp: abs_defined_def intro!: fpc_word_ok word_at_small)
    then show "ok (\<lambda>_. True) (do { b \<leftarrow> fpc_word v; Some (c + b) })" by (auto simp: ok_def)
  qed simp
  then show ?thesis
    unfolding FPCCompress_run [OF assms(1)] by (auto simp: ok_def)
qed

lemma foldM_fails:
  assumes "x \<in> set xs" and "\<And>s. f s x = None"
  shows "foldM f s xs = None"
  using assms(1)
proof (induction xs arbitrary: s)
  case Nil
  then show ?case by simp
next
  case (Cons y ys)
  then show ?case using assms(2) by (cases "f s y") auto
qed

lemma FPCCompress_undefined:
  assumes "valid_line buffer n" and "\<not> abs_defined buffer n"
  shows "FPCCompress buffer (n div 4) = None"
proof -
  have "0x80000000 \<in> set (map (word_at buffer 4) [0..<unat n div 4])"
    using assms(2) by (force simp: abs_defined_def)
  then show ?thesis
    unfolding FPCCompress_run [OF assms(1)]
    by (subst foldM_fails [where x = "0x80000000"]) (simp_all add: fpc_word_undefined)
qed

section \<open>C-Pack\<close>

text \<open>The stale entry count must cover this line, and the array must have that many slots.\<close>

lemma CPack_eq:
  assumes "valid_line buffer n" and "unat n div 4 \<le> numEntries" and "numEntries \<le> 2 * unat n"
    and "\<And>k. length (fresh k) = k" and "ws = map (word_at buffer 4) [0..<unat n div 4]"
  shows "CPack fresh numEntries buffer n =
    Some (if \<forall>w \<in> set ws. w = 0 then 1 else (of_int (c_pack_bits ws) + 7) div 8, unat n div 4)"
proof -
  have slots: "unat (n div 4 * 8) = 2 * unat n"
  proof -
    have "4 dvd unat n" using assms(1) by (auto simp: valid_line_def mod_eq_0_iff_dvd intro: dvd_trans [of 4 8])
    with assms(1) valid_line_quarter [OF assms(1)] show ?thesis
      by (auto simp: unat_word_ariths valid_line_def)
  qed
  have len: "length ws = unat n div 4" by (simp add: assms(5))
  obtain d where d: "initialize_dic numEntries (fresh (unat (n div 4 * 8))) = Some d"
    "represents (length ws) d []"
    using initialize_represents [of "length ws" numEntries "fresh (2 * unat n)"] assms(2,3,4) slots len
    by (auto simp: ok_def)
  have "\<forall>w \<in> set ws. w < 2 ^ 32"
    using word_at_small [of 4 buffer] by (auto simp: assms(5) word_less_nat_alt)
  from calculate_eq [OF d(2) this, of "replicate 6 0"] obtain t where
    "calculate_compressed_size_c_pack d ws (replicate 6 0) =
      Some (c_pack_bits ws, (\<forall>w \<in> set ws. w = 0), t, length ws)"
    by (auto simp: ok_def)
  with d(1) len show ?thesis
    using valid_line_words(1) [OF assms(1), of 4]
    by (simp add: CPack_def Let_def flip: assms(5))
qed

lemma CPack_ok:
  assumes "valid_line buffer n" and "unat n div 4 \<le> numEntries" and "numEntries \<le> 2 * unat n"
    and "\<And>k. length (fresh k) = k"
  shows "ok (\<lambda>(r, m). 0 < r \<and> r \<le> n \<and> m = unat n div 4) (CPack fresh numEntries buffer n)"
proof -
  define ws where "ws = map (word_at buffer 4) [0..<unat n div 4]"
  note run = CPack_eq [OF assms ws_def]
  show ?thesis
  proof (cases "\<forall>w \<in> set ws. w = 0")
    case True
    with run valid_line_pos [OF assms(1)] show ?thesis by simp
  next
    case False
    define k where "k = nat (c_pack_bits ws)"
    have k: "0 < k" "k \<le> 32 * (unat n div 4)"
      using c_pack_bits_pos [of ws] c_pack_bits_bounds [of ws] False
      by (auto simp: k_def ws_def)
    have small: "unat n < 2 ^ 28" using assms(1) by (simp add: valid_line_def)
    have "of_int (c_pack_bits ws) = (of_nat k :: u32)" using k(1) by (simp add: k_def)
    then have "unat ((of_int (c_pack_bits ws) + 7) div 8 :: u32) = (k + 7) div 8"
      using k small by (simp add: unat_div unat_word_ariths unat_of_nat)
    moreover have "(k + 7) div 8 \<le> unat n" "0 < (k + 7) div 8" using k by auto
    ultimately show ?thesis
      using run False by (simp add: word_less_nat_alt word_le_nat_alt)
  qed
qed

section \<open>The contract of a compressor\<close>

text \<open>
  What \<open>GeneralCompress\<close> relies on when it calls a compressor: on the lines it is meant for it
  returns, and never reports more than the line. Two compressors give a third, the better of the two.
\<close>

locale line_compressor =
  fixes compress :: "u8 list \<Rightarrow> u32 \<Rightarrow> u32 option"
    and good :: "u8 list \<Rightarrow> u32 \<Rightarrow> bool"
  assumes fits: "good buffer n \<Longrightarrow> ok (\<lambda>r. r \<le> n) (compress buffer n)"
begin

lemma returns: "good buffer n \<Longrightarrow> \<exists>r. compress buffer n = Some r \<and> r \<le> n"
  using fits [of buffer n] by (simp add: ok_def)

end

locale two_compressors = fst_c: line_compressor c1 g1 + snd_c: line_compressor c2 g2
  for c1 :: "u8 list \<Rightarrow> u32 \<Rightarrow> u32 option" and g1 and c2 :: "u8 list \<Rightarrow> u32 \<Rightarrow> u32 option" and g2
begin

lemma best_run:
  assumes "g1 buffer n" and "g2 buffer n"
  shows "\<exists>a b. c1 buffer n = Some a \<and> c2 buffer n = Some b \<and> a \<le> n \<and> b \<le> n
    \<and> do { x \<leftarrow> c1 buffer n; y \<leftarrow> c2 buffer n; Some (if x \<le> y then x else y) } = Some (min a b)"
  using fst_c.returns [OF assms(1)] snd_c.returns [OF assms(2)] by (auto simp: min_def)

end

sublocale two_compressors \<subseteq> best: line_compressor
  "\<lambda>buffer n. do { x \<leftarrow> c1 buffer n; y \<leftarrow> c2 buffer n; Some (if x \<le> y then x else y) }"
  "\<lambda>buffer n. g1 buffer n \<and> g2 buffer n"
proof
  fix buffer n assume "g1 buffer n \<and> g2 buffer n"
  then show "ok (\<lambda>r. r \<le> n) (do { x \<leftarrow> c1 buffer n; y \<leftarrow> c2 buffer n; Some (if x \<le> y then x else y) })"
    using best_run [of buffer n] by (auto simp: ok_def min_le_iff_disj)
qed

definition fpc_line :: "u8 list \<Rightarrow> u32 \<Rightarrow> u32 option" where
  "fpc_line buffer n = FPCCompress buffer (n div 4)"

definition fpc_good :: "u8 list \<Rightarrow> u32 \<Rightarrow> bool" where
  "fpc_good buffer n \<longleftrightarrow> valid_line buffer n \<and> abs_defined buffer n"

interpretation bdi: line_compressor BDICompress bdi_line
  by unfold_locales (rule ok_mono [OF BDICompress_ok], auto)

interpretation bdi_single: line_compressor BDICompressSingle bdi_line
  by unfold_locales (rule ok_mono [OF BDICompressSingle_ok], auto)

interpretation bdi_4b: line_compressor BDICompress4BOnly bdi_line
  by unfold_locales (rule ok_mono [OF BDICompress4BOnly_ok], auto)

interpretation bdi_8b: line_compressor BDICompress8BOnly bdi_line
  by unfold_locales (rule ok_mono [OF BDICompress8BOnly_ok], auto)

interpretation fpc: line_compressor fpc_line fpc_good
  unfolding fpc_line_def fpc_good_def
  by unfold_locales (rule ok_mono [OF FPCCompress_ok], auto)

interpretation bdi_fpc: two_compressors BDICompress bdi_line fpc_line fpc_good
  by unfold_locales

text \<open>The lines and the entry count on which every mode of the selector returns.\<close>

definition general_good :: "(nat \<Rightarrow> DirectoryEntry list) \<Rightarrow> nat \<Rightarrow> u8 list \<Rightarrow> u32 \<Rightarrow> bool" where
  "general_good fresh numEntries buffer n \<longleftrightarrow>
     bdi_line buffer n \<and> fpc_good buffer n \<and> unat n div 4 \<le> numEntries \<and> numEntries \<le> 2 * unat n
     \<and> (\<forall>k. length (fresh k) = k)"

lemma general_good_cpack:
  assumes "general_good fresh numEntries buffer n"
  shows "\<exists>r. CPack fresh numEntries buffer n = Some (r, unat n div 4) \<and> r \<le> n"
  using CPack_ok [of buffer n numEntries fresh] assms
  by (auto simp: general_good_def fpc_good_def ok_def)

lemma general_mode_5:
  assumes "general_good fresh numEntries buffer n"
  obtains b f c where "BDICompress buffer n = Some b" "FPCCompress buffer (n div 4) = Some f"
    "CPack fresh numEntries buffer n = Some (c, unat n div 4)"
    "GeneralCompress fresh numEntries buffer n 5 = Some (min b (min f c), unat n div 4)"
    "b \<le> n" "f \<le> n" "c \<le> n"
proof -
  have v: "bdi_line buffer n" "fpc_good buffer n"
    using assms by (auto simp: general_good_def)
  obtain b where b: "BDICompress buffer n = Some b" "b \<le> n" using bdi.returns [OF v(1)] by blast
  obtain f where f: "FPCCompress buffer (n div 4) = Some f" "f \<le> n"
    using fpc.returns [OF v(2)] by (auto simp: fpc_line_def)
  obtain c where c: "CPack fresh numEntries buffer n = Some (c, unat n div 4)" "c \<le> n"
    using general_good_cpack [OF assms] by blast
  have "GeneralCompress fresh numEntries buffer n 5 = Some (min b (min f c), unat n div 4)"
    using b f c by (auto simp: GeneralCompress_def min_def)
  with b f c show thesis by (intro that)
qed

lemma general_returns:
  assumes "general_good fresh numEntries buffer n" and "mode < 9"
  shows "ok (\<lambda>(r, m). r \<le> n \<and> (m = numEntries \<or> m = unat n div 4))
    (GeneralCompress fresh numEntries buffer n mode)"
proof -
  have v: "bdi_line buffer n" "fpc_good buffer n"
    using assms by (auto simp: general_good_def)
  have "unat mode < 9" using assms(2) by (simp add: word_less_nat_alt)
  then have "unat mode \<in> {0, 1, 2, 3, 4, 5, 6, 7, 8}" by auto
  then have "mode \<in> {0, 1, 2, 3, 4, 5, 6, 7, 8}" by (auto simp: word_unat_eq_iff)
  moreover have "ok (\<lambda>(r, m). r \<le> n \<and> (m = numEntries \<or> m = unat n div 4))
      (GeneralCompress fresh numEntries buffer n 5)"
    by (rule general_mode_5 [OF assms(1)]) (simp add: min_le_iff_disj)
  moreover obtain b where "BDICompress buffer n = Some b" "b \<le> n" using bdi.returns [OF v(1)] by blast
  moreover obtain f where "FPCCompress buffer (n div 4) = Some f" "f \<le> n"
    using fpc.returns [OF v(2)] by (auto simp: fpc_line_def)
  moreover obtain c where "CPack fresh numEntries buffer n = Some (c, unat n div 4)" "c \<le> n"
    using general_good_cpack [OF assms(1)] by blast
  moreover obtain s where "BDICompressSingle buffer n = Some s" "s \<le> n"
    using bdi_single.returns [OF v(1)] by blast
  moreover obtain q where "BDICompress4BOnly buffer n = Some q" "q \<le> n"
    using bdi_4b.returns [OF v(1)] by blast
  moreover obtain e where "BDICompress8BOnly buffer n = Some e" "e \<le> n"
    using bdi_8b.returns [OF v(1)] by blast
  ultimately show ?thesis by (auto simp: GeneralCompress_def)
qed

section \<open>Properties\<close>

definition sample_line :: "u8 list" where
  "sample_line = [1, 2, 3, 4, 5, 6, 7, 8, 9, 10, 11, 12, 13, 14, 15, 16]"

lemma sample_valid: "valid_line sample_line 16"
  by (simp add: valid_line_def sample_line_def)

lemma sample_bdi: "bdi_line sample_line 16"
proof -
  have "[0..<2] = [0, 1::nat]" by (simp add: upt_rec)
  then show ?thesis using sample_valid
    by (simp add: bdi_line_def spread_def word_at_def sample_line_def lessThan_nat_numeral lessThan_Suc push_bit_eq_mult)
qed

lemma sample_good: "general_good (\<lambda>k. replicate k \<lparr>m_valid = True, m_entry = 7, m_cnt = 0\<rparr>) 4 sample_line 16"
proof -
  have "word_at sample_line 4 q \<noteq> 0x80000000" if "q < 4" for q
  proof -
    have "q = 0 \<or> q = 1 \<or> q = 2 \<or> q = 3" using that by auto
    then show ?thesis
      by (elim disjE) (simp_all add: word_at_def sample_line_def lessThan_nat_numeral lessThan_Suc
          push_bit_eq_mult)
  qed
  then show ?thesis
    using sample_valid sample_bdi by (simp add: general_good_def fpc_good_def abs_defined_def)
qed

text \<open>\<open>convertBuffer2Array\<close> loses nothing: on a line of \<open>n\<close> words of \<open>step\<close> bytes it returns
  \<open>n\<close> values, and byte \<open>i\<close> of value \<open>q\<close> is byte \<open>q * step + i\<close> of the buffer.\<close>

theorem convertBuffer2Array_roundtrip:
  assumes "n * step \<le> length buffer" and "step \<in> {2, 4, 8}"
  shows "\<exists>values. convertBuffer2Array buffer (n * step) step = Some values \<and> length values = n
    \<and> concat (map (\<lambda>v. map (\<lambda>i. ucast (drop_bit (8 * i) v)) [0..<step]) values) = take (n * step) buffer"
proof -
  have step: "0 < step" "step \<le> 8" using assms(2) by auto
  have chunk: "map (\<lambda>i. ucast (drop_bit (8 * i) (word_at buffer step q))) [0..<step] =
      map (\<lambda>i. buffer ! (q * step + i)) [0..<step]" for q
    using word_at_byte [OF _ step(2), of _ buffer q] by (intro map_cong) auto
  have "concat (map (\<lambda>q. map (\<lambda>i. buffer ! (q * step + i)) [0..<step]) [0..<m]) = take (m * step) buffer"
    if "m \<le> n" for m
    using that
  proof (induction m)
    case 0
    then show ?case by simp
  next
    case (Suc m)
    have le: "m * step + step \<le> length buffer"
      using Suc.prems assms(1) mult_le_mono1 [of "Suc m" n step] by simp
    have "map (\<lambda>i. buffer ! (m * step + i)) [0..<step] = take step (drop (m * step) buffer)"
      using le by (intro nth_equalityI) auto
    moreover have "take (Suc m * step) buffer = take (m * step) buffer @ take step (drop (m * step) buffer)"
      using take_add [of "m * step" step buffer] by (simp add: add.commute)
    ultimately show ?case using Suc by simp
  qed
  from this [of n] show ?thesis
    using convertBuffer2Array_eq [OF assms(1) step(1)] by (simp add: comp_def chunk)
qed

theorem convertBuffer2Array_roundtrip_witness:
  "\<exists>values. convertBuffer2Array sample_line (4 * 4) 4 = Some values \<and> length values = 4
    \<and> concat (map (\<lambda>v. map (\<lambda>i. ucast (drop_bit (8 * i) v)) [0..<4]) values) = take (4 * 4) sample_line"
  by (rule convertBuffer2Array_roundtrip) (simp_all add: sample_line_def)

text \<open>C26. On a valid line no two of whose 8 byte values differ by exactly \<open>2 ^ 63\<close>, \<open>BDICompress\<close> returns, and what it
  returns is the least size among the line itself, one byte for a zero line, one value for a repeated value, the
  two-base encodings with 8, 4 and 2 byte values and the shared exponent encodings.\<close>

theorem BDICompress_cheapest:
  assumes "bdi_line buffer n"
  shows "BDICompress buffer n = Some (of_nat (Min (set (bdi_encodings buffer (unat n)))))"
  using assms by (rule BDICompress_min)

theorem BDICompress_cheapest_witness:
  "BDICompress sample_line 16 = Some (of_nat (Min (set (bdi_encodings sample_line 16))))"
  using BDICompress_cheapest [OF sample_bdi] by simp

text \<open>The condition is needed: \<open>llabs\<close> is undefined on the line of the values 0 and \<open>2 ^ 63\<close>.\<close>

lemma BDICompress_undefined: "BDICompress (replicate 15 0 @ [0x80]) 16 = None"
proof -
  let ?line = "replicate 15 0 @ [0x80] :: u8 list"
  have v: "valid_line ?line 16" by (simp add: valid_line_def)
  have "[0..<2] = [0, 1::nat]" by (simp add: upt_rec)
  then have w: "map (word_at ?line 8) [0..<unat (16 :: u32) div 8] = [0, 2 ^ 63]"
    by (simp add: word_at_def lessThan_nat_numeral lessThan_Suc push_bit_eq_mult nth_append)
  have "scan_bases limit 0 [0] 0 = Some [0]" for limit by (simp add: scan_bases_one)
  moreover have "scan_bases limit (2 ^ 63) [0] 0 = None" for limit by (subst scan_bases.simps) (simp add: llabs_def)
  ultimately have "multBaseCompression [0, 2 ^ 63] 1 8 = None" by (simp add: multBaseCompression_def base_limit_def)
  then show ?thesis using valid_line_words(1) [OF v, of 8] unfolding w by (simp add: BDICompress_def Let_def)
qed

text \<open>\<open>BDICompressSpecial\<close>, which also reports a base size, computes the same compressed size
  as \<open>BDICompress\<close>, and fails exactly when it does.\<close>

theorem BDICompressSpecial_same_size:
  "map_option fst (BDICompressSpecial buffer blockSize) = BDICompress buffer blockSize"
  by (rule BDICompressSpecial_size)

text \<open>\<open>FPCCompress\<close> of a valid line returns, and within the line, exactly when no 4 byte word is
  \<open>0x80000000\<close>, the value whose \<open>abs\<close> as an \<open>int\<close> is undefined.\<close>

theorem FPCCompress_defined_iff:
  assumes "valid_line buffer n"
  shows "(\<exists>r. FPCCompress buffer (n div 4) = Some r \<and> r \<le> n) \<longleftrightarrow>
    (\<forall>q < unat n div 4. word_at buffer 4 q \<noteq> 0x80000000)"
  unfolding abs_defined_def [symmetric]
  using FPCCompress_ok [OF assms] FPCCompress_undefined [OF assms]
  by (cases "abs_defined buffer n") (auto simp: ok_def)

theorem FPCCompress_defined_iff_witness:
  "(\<exists>r. FPCCompress sample_line (16 div 4) = Some r \<and> r \<le> 16) \<longleftrightarrow>
    \<not> (\<exists>q < unat (16 :: u32) div 4. word_at sample_line 4 q = 0x80000000)"
  using FPCCompress_defined_iff [OF sample_valid] by blast



text \<open>On a line every compressor accepts, each mode of \<open>GeneralCompress\<close> below 9 returns a size
  within the line, mode 3 returns the better of base-delta and frequent pattern compression and
  mode 5 the best of these and C-Pack; an unknown mode is an error.\<close>

theorem GeneralCompress_selects:
  assumes "general_good fresh numEntries buffer n"
  shows "(if mode < 9
      then \<exists>r m. GeneralCompress fresh numEntries buffer n mode = Some (r, m) \<and> r \<le> n
      else GeneralCompress fresh numEntries buffer n mode = None)
    \<and> (\<exists>b f c m. BDICompress buffer n = Some b \<and> FPCCompress buffer (n div 4) = Some f
        \<and> CPack fresh numEntries buffer n = Some (c, m)
        \<and> GeneralCompress fresh numEntries buffer n 3 = Some (min b f, numEntries)
        \<and> GeneralCompress fresh numEntries buffer n 5 = Some (min b (min f c), m))"
proof
  have "GeneralCompress fresh numEntries buffer n mode = None" if "\<not> mode < 9"
  proof -
    have "mode \<notin> {0, 1, 2, 3, 4, 5, 6, 7, 8}" using that by auto
    then show ?thesis by (simp add: GeneralCompress_def)
  qed
  moreover have "\<exists>r m. GeneralCompress fresh numEntries buffer n mode = Some (r, m) \<and> r \<le> n" if "mode < 9"
    using general_returns [OF assms that] by (auto simp: ok_def)
  ultimately show "if mode < 9
      then \<exists>r m. GeneralCompress fresh numEntries buffer n mode = Some (r, m) \<and> r \<le> n
      else GeneralCompress fresh numEntries buffer n mode = None"
    by simp
  have v: "bdi_line buffer n" "fpc_good buffer n"
    using assms by (auto simp: general_good_def)
  show "\<exists>b f c m. BDICompress buffer n = Some b \<and> FPCCompress buffer (n div 4) = Some f
        \<and> CPack fresh numEntries buffer n = Some (c, m)
        \<and> GeneralCompress fresh numEntries buffer n 3 = Some (min b f, numEntries)
        \<and> GeneralCompress fresh numEntries buffer n 5 = Some (min b (min f c), m)"
    by (rule general_mode_5 [OF assms])
      (use bdi_fpc.best_run [OF v] in \<open>auto simp: GeneralCompress_def fpc_line_def min_def\<close>)
qed

theorem GeneralCompress_selects_witness:
  "\<exists>r m. GeneralCompress (\<lambda>k. replicate k \<lparr>m_valid = True, m_entry = 7, m_cnt = 0\<rparr>) 4 sample_line 16 5
     = Some (r, m) \<and> r \<le> 16"
  using GeneralCompress_selects [OF sample_good, of 5] by simp

end
