(* ===== verification/Scoreboard.thy ===== *)
theory Scoreboard
  imports Hardware_Model
begin

text \<open>
  The scoreboard of \<open>gpgpu-sim/scoreboard.cc\<close>: for each warp the set of registers with a pending
  write, and the set of those that wait for a long memory operation. Register 0 stands for no register.
  The instruction is the part of \<open>inst_t\<close> the scoreboard reads. \<open>abort\<close> and a warp number past
  the table are \<open>None\<close>.
\<close>

record inst =
  inst_out :: "nat list"
  inst_in :: "nat list"
  inst_pred :: int
  inst_ar1 :: int
  inst_ar2 :: int
  inst_is_load :: bool
  inst_space :: memory_space
  inst_warp_id :: nat

record scoreboard =
  reg_table :: "nat set list"
  longopregs :: "nat set list"

definition new_scoreboard :: "nat \<Rightarrow> scoreboard" where
  "new_scoreboard n_warps =
     \<lparr>reg_table = replicate n_warps {}, longopregs = replicate n_warps {}\<rparr>"

section \<open>Operations\<close>

definition reserveRegister :: "nat \<Rightarrow> nat \<Rightarrow> scoreboard \<Rightarrow> scoreboard option" where
  "reserveRegister wid regnum sb = do {
     regs \<leftarrow> at_get (reg_table sb) wid;
     if regnum \<in> regs then None
     else Some (sb\<lparr>reg_table := (reg_table sb)[wid := insert regnum regs]\<rparr>) }"

definition releaseRegister :: "nat \<Rightarrow> nat \<Rightarrow> scoreboard \<Rightarrow> scoreboard option" where
  "releaseRegister wid regnum sb = do {
     regs \<leftarrow> at_get (reg_table sb) wid;
     if regnum \<notin> regs then Some sb
     else Some (sb\<lparr>reg_table := (reg_table sb)[wid := regs - {regnum}]\<rparr>) }"

definition islongop :: "nat \<Rightarrow> nat \<Rightarrow> scoreboard \<Rightarrow> bool option" where
  "islongop warp_id regnum sb = do {
     regs \<leftarrow> at_get (longopregs sb) warp_id;
     Some (regnum \<in> regs) }"

definition long_space :: "memory_space \<Rightarrow> bool" where
  "long_space sp \<longleftrightarrow> sp = global_space \<or> sp = local_space \<or> sp = param_space_kernel
     \<or> sp = param_space_local \<or> sp = param_space_unclassified \<or> sp = tex_space"

definition mark_longop :: "nat \<Rightarrow> scoreboard \<Rightarrow> nat \<Rightarrow> scoreboard option" where
  "mark_longop wid sb r =
     (if r > 0
      then do {
        regs \<leftarrow> at_get (longopregs sb) wid;
        Some (sb\<lparr>longopregs := (longopregs sb)[wid := insert r regs]\<rparr>) }
      else Some sb)"

definition reserveRegisters :: "inst \<Rightarrow> scoreboard \<Rightarrow> scoreboard option" where
  "reserveRegisters i sb = do {
     sb \<leftarrow> foldM (\<lambda>sb r. if r > 0 then reserveRegister (inst_warp_id i) r sb else Some sb) sb (inst_out i);
     if inst_is_load i \<and> long_space (inst_space i)
     then foldM (mark_longop (inst_warp_id i)) sb (inst_out i)
     else Some sb }"

definition release_one :: "nat \<Rightarrow> scoreboard \<Rightarrow> nat \<Rightarrow> scoreboard option" where
  "release_one wid sb r =
     (if r > 0
      then do {
        sb \<leftarrow> releaseRegister wid r sb;
        regs \<leftarrow> at_get (longopregs sb) wid;
        Some (sb\<lparr>longopregs := (longopregs sb)[wid := regs - {r}]\<rparr>) }
      else Some sb)"

definition releaseRegisters :: "inst \<Rightarrow> scoreboard \<Rightarrow> scoreboard option" where
  "releaseRegisters i sb = foldM (release_one (inst_warp_id i)) sb (inst_out i)"

definition inst_regs :: "inst \<Rightarrow> nat set" where
  "inst_regs i =
     {r \<in> set (inst_out i @ inst_in i). r > 0}
     \<union> nat ` {r \<in> {inst_pred i, inst_ar1 i, inst_ar2 i}. r > 0}"

definition checkCollision :: "nat \<Rightarrow> inst \<Rightarrow> scoreboard \<Rightarrow> bool option" where
  "checkCollision wid i sb = do {
     regs \<leftarrow> at_get (reg_table sb) wid;
     Some (regs \<inter> inst_regs i \<noteq> {}) }"

definition pendingWrites :: "nat \<Rightarrow> scoreboard \<Rightarrow> bool option" where
  "pendingWrites wid sb = do {
     regs \<leftarrow> at_get (reg_table sb) wid;
     Some (regs \<noteq> {}) }"

section \<open>What the operations do\<close>

definition outs :: "inst \<Rightarrow> nat set" where
  "outs i = {r \<in> set (inst_out i). r > 0}"

lemma outs_subset_regs: "outs i \<subseteq> inst_regs i"
  by (auto simp: outs_def inst_regs_def)

definition sb_shape :: "nat \<Rightarrow> scoreboard \<Rightarrow> bool" where
  "sb_shape n sb \<longleftrightarrow> length (reg_table sb) = n \<and> length (longopregs sb) = n"

lemma reserve_fold:
  assumes "wid < length (reg_table sb)" and "distinct (filter (\<lambda>r. r > 0) rs)"
    and "reg_table sb ! wid \<inter> {r \<in> set rs. r > 0} = {}"
  shows "foldM (\<lambda>sb r. if r > 0 then reserveRegister wid r sb else Some sb) sb rs =
    Some (sb\<lparr>reg_table := (reg_table sb)[wid := reg_table sb ! wid \<union> {r \<in> set rs. r > 0}]\<rparr>)"
  using assms
proof (induction rs arbitrary: sb)
  case Nil
  then show ?case by simp
next
  case (Cons r rs)
  show ?case
  proof (cases "r > 0")
    case True
    let ?sb = "sb\<lparr>reg_table := (reg_table sb)[wid := insert r (reg_table sb ! wid)]\<rparr>"
    have "reserveRegister wid r sb = Some ?sb"
      using Cons.prems True by (auto simp: reserveRegister_def)
    moreover have "foldM (\<lambda>sb r. if r > 0 then reserveRegister wid r sb else Some sb) ?sb rs =
        Some (?sb\<lparr>reg_table := (reg_table ?sb)[wid := reg_table ?sb ! wid \<union> {r \<in> set rs. r > 0}]\<rparr>)"
      using Cons.prems True by (intro Cons.IH) auto
    moreover have "insert r (reg_table sb ! wid) \<union> {r \<in> set rs. r > 0} =
        reg_table sb ! wid \<union> {x \<in> set (r # rs). x > 0}"
      using True by auto
    ultimately show ?thesis using Cons.prems(1) True by simp
  next
    case False
    then have "{x \<in> set (r # rs). x > 0} = {x \<in> set rs. x > 0}" by auto
    with Cons False show ?thesis by simp
  qed
qed

lemma mark_fold:
  assumes "wid < length (longopregs sb)"
  shows "foldM (mark_longop wid) sb rs =
    Some (sb\<lparr>longopregs := (longopregs sb)[wid := longopregs sb ! wid \<union> {r \<in> set rs. r > 0}]\<rparr>)"
  using assms
proof (induction rs arbitrary: sb)
  case Nil
  then show ?case by simp
next
  case (Cons r rs)
  show ?case
  proof (cases "r > 0")
    case True
    have "insert r (longopregs sb ! wid) \<union> {r \<in> set rs. r > 0} =
        longopregs sb ! wid \<union> {x \<in> set (r # rs). x > 0}"
      using True by auto
    with Cons.IH [of "sb\<lparr>longopregs := (longopregs sb)[wid := insert r (longopregs sb ! wid)]\<rparr>"]
    show ?thesis using Cons.prems True by (simp add: mark_longop_def)
  next
    case False
    then have "{x \<in> set (r # rs). x > 0} = {x \<in> set rs. x > 0}" by auto
    with Cons False show ?thesis by (simp add: mark_longop_def)
  qed
qed

lemma release_one_eq:
  assumes "wid < length (reg_table sb)" and "wid < length (longopregs sb)"
  shows "release_one wid sb r = Some (if r > 0 then
      \<lparr>reg_table = (reg_table sb)[wid := reg_table sb ! wid - {r}],
       longopregs = (longopregs sb)[wid := longopregs sb ! wid - {r}]\<rparr> else sb)"
  using assms by (cases sb) (auto simp: release_one_def releaseRegister_def)

lemma release_fold:
  assumes "wid < length (reg_table sb)" and "wid < length (longopregs sb)"
  shows "foldM (release_one wid) sb rs =
    Some \<lparr>reg_table = (reg_table sb)[wid := reg_table sb ! wid - {r \<in> set rs. r > 0}],
          longopregs = (longopregs sb)[wid := longopregs sb ! wid - {r \<in> set rs. r > 0}]\<rparr>"
  using assms
proof (induction rs arbitrary: sb)
  case Nil
  then show ?case by (cases sb) simp
next
  case (Cons r rs)
  show ?case
  proof (cases "r > 0")
    case True
    have d: "A - {r} - {r \<in> set rs. r > 0} = A - {x \<in> set (r # rs). x > 0}" for A
      using True by auto
    show ?thesis
      using Cons.prems True by (simp add: release_one_eq Cons.IH d)
  next
    case False
    then have "{x \<in> set (r # rs). x > 0} = {x \<in> set rs. x > 0}" by auto
    with Cons False show ?thesis by (simp add: release_one_eq)
  qed
qed

section \<open>Issue and write back\<close>

text \<open>
  The protocol the shader core runs: an instruction issues when \<open>checkCollision\<close> finds no hazard, and
  reserves its output registers. An instruction that writes back releases them all (\<open>writeback\<close>:
  \<open>shader_core_ctx::writeback\<close> and the dispatch register of the memory unit); a load releases each of its
  registers when the last access to it has come back (\<open>release\<close>: \<open>ldst_unit::writeback\<close>). The second component
  of a state is the list of the instructions in flight, each with the registers it still writes.
\<close>

definition drop_out :: "nat \<Rightarrow> inst \<Rightarrow> inst" where
  "drop_out r i = i\<lparr>inst_out := map (\<lambda>x. if x = r then 0 else x) (inst_out i)\<rparr>"

inductive sb_step :: "scoreboard \<times> inst list \<Rightarrow> scoreboard \<times> inst list \<Rightarrow> bool" where
  issue: "checkCollision (inst_warp_id i) i sb = Some False \<Longrightarrow> reserveRegisters i sb = Some sb'
    \<Longrightarrow> sb_step (sb, fl) (sb', i # fl)"
| writeback: "releaseRegisters i sb = Some sb' \<Longrightarrow> sb_step (sb, xs @ i # ys) (sb', xs @ ys)"
| release: "r \<in> outs i \<Longrightarrow> releaseRegister (inst_warp_id i) r sb = Some sb'
    \<Longrightarrow> sb_step (sb, xs @ i # ys) (sb', xs @ drop_out r i # ys)"

inductive_cases sb_stepE: "sb_step s s'"

inductive sb_reach :: "nat \<Rightarrow> scoreboard \<times> inst list \<Rightarrow> bool" for n where
  start: "sb_reach n (new_scoreboard n, [])"
| step: "sb_reach n s \<Longrightarrow> sb_step s s' \<Longrightarrow> sb_reach n s'"

text \<open>The registers of warp \<open>w\<close> that the instructions of \<open>fl\<close> chosen by \<open>P\<close> still write.\<close>

definition pending :: "(inst \<Rightarrow> bool) \<Rightarrow> inst list \<Rightarrow> nat \<Rightarrow> nat set" where
  "pending P fl w = (\<Union>i \<in> {i \<in> set fl. inst_warp_id i = w \<and> P i}. outs i)"

definition is_longop :: "inst \<Rightarrow> bool" where
  "is_longop i \<longleftrightarrow> inst_is_load i \<and> long_space (inst_space i)"

definition clash :: "inst \<Rightarrow> inst \<Rightarrow> bool" where
  "clash i k \<longleftrightarrow> inst_warp_id i = inst_warp_id k \<and> outs i \<inter> outs k \<noteq> {}"

primrec no_clash :: "inst list \<Rightarrow> bool" where
  "no_clash [] = True"
| "no_clash (i # fl) = ((\<forall>k \<in> set fl. \<not> clash i k) \<and> no_clash fl)"

definition sb_inv :: "nat \<Rightarrow> scoreboard \<times> inst list \<Rightarrow> bool" where
  "sb_inv n = (\<lambda>(sb, fl). sb_shape n sb \<and> no_clash fl \<and> (\<forall>i \<in> set fl. inst_warp_id i < n)
     \<and> (\<forall>w < n. reg_table sb ! w = pending (\<lambda>_. True) fl w)
     \<and> (\<forall>w < n. pending is_longop fl w \<subseteq> longopregs sb ! w))"

lemma clash_sym: "clash i k \<longleftrightarrow> clash k i"
  by (auto simp: clash_def)

lemma no_clash_append:
  "no_clash (xs @ ys) \<longleftrightarrow> no_clash xs \<and> no_clash ys \<and> (\<forall>x \<in> set xs. \<forall>y \<in> set ys. \<not> clash x y)"
  by (induction xs) auto

lemma no_clash_remove: "no_clash (xs @ i # ys) \<Longrightarrow> no_clash (xs @ ys)"
  by (auto simp: no_clash_append)

lemma pending_remove:
  assumes "no_clash (xs @ i # ys)"
  shows "pending P (xs @ ys) w =
    (if inst_warp_id i = w then pending P (xs @ i # ys) w - outs i else pending P (xs @ i # ys) w)"
proof -
  have "outs k \<inter> outs i = {}" if "k \<in> set (xs @ ys)" "inst_warp_id k = inst_warp_id i" for k
    using assms that clash_sym by (auto simp: no_clash_append clash_def)
  then have "pending P (xs @ ys) w \<inter> outs i = {}" if "inst_warp_id i = w"
    using that by (auto simp: pending_def)
  moreover have "pending P (xs @ i # ys) w =
      (if inst_warp_id i = w \<and> P i then outs i else {}) \<union> pending P (xs @ ys) w"
    by (auto simp: pending_def)
  ultimately show ?thesis by auto
qed

lemma pending_Cons:
  "pending P (i # fl) w = (if inst_warp_id i = w \<and> P i then outs i \<union> pending P fl w else pending P fl w)"
  by (auto simp: pending_def)

lemma checkCollision_eq:
  "checkCollision wid i sb = Some b \<longleftrightarrow> wid < length (reg_table sb) \<and> b = (reg_table sb ! wid \<inter> inst_regs i \<noteq> {})"
  by (auto simp: checkCollision_def bind_eq_Some_conv at_get_eq_Some)

lemma reserveRegisters_eq:
  assumes "sb_shape n sb" and "inst_warp_id i < n" and "distinct (filter (\<lambda>r. r > 0) (inst_out i))"
    and "reg_table sb ! inst_warp_id i \<inter> outs i = {}"
  shows "reserveRegisters i sb = Some
    \<lparr>reg_table = (reg_table sb)[inst_warp_id i := reg_table sb ! inst_warp_id i \<union> outs i],
     longopregs = (if is_longop i then (longopregs sb)[inst_warp_id i := longopregs sb ! inst_warp_id i \<union> outs i]
       else longopregs sb)\<rparr>"
  using assms by (cases sb) (simp add: reserveRegisters_def reserve_fold mark_fold sb_shape_def outs_def
      is_longop_def)

text \<open>A successful reservation shows that the output registers were distinct and free.\<close>

lemma reserve_fold_Some:
  assumes "foldM (\<lambda>sb r. if r > 0 then reserveRegister wid r sb else Some sb) sb rs = Some sb'"
    and "\<exists>r \<in> set rs. r > 0"
  shows "distinct (filter (\<lambda>r. r > 0) rs) \<and> reg_table sb ! wid \<inter> {r \<in> set rs. r > 0} = {}"
  using assms
proof (induction rs arbitrary: sb)
  case Nil
  then show ?case by simp
next
  case (Cons r rs)
  show ?case
  proof (cases "r > 0")
    case True
    then have ok: "wid < length (reg_table sb)" "r \<notin> reg_table sb ! wid"
      "foldM (\<lambda>sb r. if r > 0 then reserveRegister wid r sb else Some sb)
        (sb\<lparr>reg_table := (reg_table sb)[wid := insert r (reg_table sb ! wid)]\<rparr>) rs = Some sb'"
      using Cons.prems(1)
      by (auto simp: reserveRegister_def bind_eq_Some_conv at_get_eq_Some split: if_splits)
    show ?thesis
    proof (cases "\<exists>r \<in> set rs. r > 0")
      case True
      from Cons.IH [OF ok(3) this] ok(1,2) show ?thesis by auto
    next
      case False
      then have "filter (\<lambda>r. r > 0) rs = []" by (simp add: filter_empty_conv)
      with False ok(2) show ?thesis by auto
    qed
  next
    case False
    with Cons show ?thesis by auto
  qed
qed

lemma sb_inv_start: "sb_inv n (new_scoreboard n, [])"
  by (simp add: sb_inv_def new_scoreboard_def sb_shape_def pending_def)

lemma sb_inv_issue:
  assumes inv: "sb_inv n (sb, fl)" and "inst_warp_id i < n"
    and free: "reg_table sb ! inst_warp_id i \<inter> inst_regs i = {}"
    and dist: "distinct (filter (\<lambda>r. r > 0) (inst_out i))"
  shows "ok (\<lambda>sb'. sb_inv n (sb', i # fl)) (reserveRegisters i sb)"
proof -
  have shape: "sb_shape n sb" using inv by (simp add: sb_inv_def)
  have disj: "reg_table sb ! inst_warp_id i \<inter> outs i = {}" using free outs_subset_regs by blast
  moreover have "reg_table sb ! inst_warp_id i = pending (\<lambda>_. True) fl (inst_warp_id i)"
    using inv assms(2) by (simp add: sb_inv_def)
  ultimately have none: "pending (\<lambda>_. True) fl (inst_warp_id i) \<inter> outs i = {}" by simp
  have "\<not> clash i k" if "k \<in> set fl" for k
  proof
    assume "clash i k"
    then have "inst_warp_id k = inst_warp_id i" and "outs i \<inter> outs k \<noteq> {}" by (auto simp: clash_def)
    moreover from this that have "outs k \<subseteq> pending (\<lambda>_. True) fl (inst_warp_id i)"
      by (auto simp: pending_def)
    ultimately show False using none by blast
  qed
  moreover have "sb_shape n sb" "no_clash fl" "\<forall>i \<in> set fl. inst_warp_id i < n"
    "\<forall>w < n. reg_table sb ! w = pending (\<lambda>_. True) fl w"
    "\<forall>w < n. pending is_longop fl w \<subseteq> longopregs sb ! w"
    using inv by (auto simp: sb_inv_def)
  ultimately show ?thesis
    using assms(2) unfolding reserveRegisters_eq [OF shape assms(2) dist disj] ok_Some sb_inv_def prod.case
    by (intro conjI allI impI)
      (auto simp add: sb_shape_def nth_list_update pending_Cons Un_commute)
qed

lemma sb_inv_writeback:
  assumes inv: "sb_inv n (sb, xs @ i # ys)"
  shows "ok (\<lambda>sb'. sb_inv n (sb', xs @ ys)) (releaseRegisters i sb)"
proof -
  have nc: "no_clash (xs @ i # ys)" and i: "inst_warp_id i < n"
    and rest: "sb_shape n sb" "\<forall>i \<in> set (xs @ i # ys). inst_warp_id i < n"
    "\<forall>w < n. reg_table sb ! w = pending (\<lambda>_. True) (xs @ i # ys) w"
    "\<forall>w < n. pending is_longop (xs @ i # ys) w \<subseteq> longopregs sb ! w"
    using inv by (auto simp: sb_inv_def)
  have "releaseRegisters i sb = Some
      \<lparr>reg_table = (reg_table sb)[inst_warp_id i := reg_table sb ! inst_warp_id i - outs i],
       longopregs = (longopregs sb)[inst_warp_id i := longopregs sb ! inst_warp_id i - outs i]\<rparr>"
    using i rest(1) by (simp add: releaseRegisters_def release_fold sb_shape_def outs_def)
  then show ?thesis
    using i rest no_clash_remove [OF nc]
    by (auto simp add: sb_inv_def sb_shape_def pending_remove [OF nc] nth_list_update)
qed

lemma drop_out_simps [simp]: "inst_warp_id (drop_out r i) = inst_warp_id i" "is_longop (drop_out r i) = is_longop i"
  "outs (drop_out r i) = outs i - {r}"
  by (auto simp: drop_out_def is_longop_def outs_def)

text \<open>Dropping a register of an instruction in flight is taking the instruction away and putting the rest back.\<close>

lemma pending_drop:
  assumes "no_clash (xs @ i # ys)" and "r \<in> outs i"
  shows "pending P (xs @ drop_out r i # ys) w = (if inst_warp_id i = w \<and> P i \<and> P (drop_out r i)
    then pending P (xs @ i # ys) w - {r} else pending P (xs @ drop_out r i # ys) w)"
proof -
  have ex: "pending P (xs @ k # ys) w = (if inst_warp_id k = w \<and> P k then outs k else {}) \<union> pending P (xs @ ys) w" for k
    by (auto simp: pending_def)
  have "r \<notin> pending P (xs @ ys) w" if "inst_warp_id i = w"
    using pending_remove [OF assms(1), of P w] assms(2) that by auto
  then show ?thesis by (auto simp: ex)
qed

lemma pending_other:
  "inst_warp_id i \<noteq> w \<Longrightarrow> pending P (xs @ drop_out r i # ys) w = pending P (xs @ i # ys) w"
  by (auto simp: pending_def)

lemma no_clash_drop: "no_clash (xs @ i # ys) \<Longrightarrow> no_clash (xs @ drop_out r i # ys)"
  by (auto simp: no_clash_append clash_def)

lemma pending_longop_drop: "pending is_longop (xs @ drop_out r i # ys) w \<subseteq> pending is_longop (xs @ i # ys) w"
  by (auto simp: pending_def)

lemma sb_inv_release:
  assumes inv: "sb_inv n (sb, xs @ i # ys)" and r: "r \<in> outs i"
  shows "ok (\<lambda>sb'. sb_inv n (sb', xs @ drop_out r i # ys)) (releaseRegister (inst_warp_id i) r sb)"
proof -
  let ?w = "inst_warp_id i"
  have nc: "no_clash (xs @ i # ys)" and w: "?w < n" and shape: "sb_shape n sb"
    and all: "\<forall>i \<in> set (xs @ i # ys). inst_warp_id i < n"
    and tab: "\<forall>w < n. reg_table sb ! w = pending (\<lambda>_. True) (xs @ i # ys) w"
    and long: "\<forall>w < n. pending is_longop (xs @ i # ys) w \<subseteq> longopregs sb ! w"
    using inv by (auto simp: sb_inv_def)
  have "r \<in> reg_table sb ! ?w" using tab w r by (auto simp: pending_def)
  then have e: "releaseRegister ?w r sb = Some (sb\<lparr>reg_table := (reg_table sb)[?w := reg_table sb ! ?w - {r}]\<rparr>)"
    using w shape by (simp add: releaseRegister_def sb_shape_def)
  have "(reg_table sb)[?w := reg_table sb ! ?w - {r}] ! v = pending (\<lambda>_. True) (xs @ drop_out r i # ys) v" if "v < n" for v
    using tab that w shape pending_drop [OF nc r, of "\<lambda>_. True" v] pending_other [of i v]
    by (cases "v = ?w") (simp_all add: sb_shape_def)
  moreover have "pending is_longop (xs @ drop_out r i # ys) v \<subseteq> longopregs sb ! v" if "v < n" for v
    using long that pending_longop_drop [of xs r i ys v] by blast
  ultimately show ?thesis
    using no_clash_drop [OF nc] all shape unfolding e ok_Some sb_inv_def prod.case by (simp add: sb_shape_def)
qed

lemma sb_inv_step:
  assumes "sb_inv n s" and "sb_step s s'"
  shows "sb_inv n s'"
  using assms(2)
proof (cases rule: sb_step.cases)
  case (issue i sb sb' fl)
  have inv: "sb_inv n (sb, fl)" using assms(1) issue(1) by simp
  have w: "inst_warp_id i < n" and free: "reg_table sb ! inst_warp_id i \<inter> inst_regs i = {}"
    using issue(3) inv by (auto simp: checkCollision_eq sb_inv_def sb_shape_def)
  have "distinct (filter (\<lambda>r. r > 0) (inst_out i))"
  proof (cases "\<exists>r \<in> set (inst_out i). r > 0")
    case True
    from issue(4) obtain sb1 where
      "foldM (\<lambda>sb r. if r > 0 then reserveRegister (inst_warp_id i) r sb else Some sb) sb (inst_out i) = Some sb1"
      by (auto simp: reserveRegisters_def bind_eq_Some_conv)
    from reserve_fold_Some [OF this True] show ?thesis by simp
  next
    case False
    then have "filter (\<lambda>r. r > 0) (inst_out i) = []" by (simp add: filter_empty_conv)
    then show ?thesis by simp
  qed
  from sb_inv_issue [OF inv w free this] issue(2,4) show ?thesis by simp
next
  case (writeback i sb sb' xs ys)
  with sb_inv_writeback [of n sb xs i ys] assms(1) show ?thesis by simp
next
  case (release r i sb sb' xs ys)
  with sb_inv_release [of n sb xs i ys r] assms(1) show ?thesis by simp
qed

lemma sb_reach_inv: "sb_reach n s \<Longrightarrow> sb_inv n s"
  by (induction rule: sb_reach.induct) (auto intro: sb_inv_start sb_inv_step)

section \<open>Properties\<close>

definition load_r1 :: inst where
  "load_r1 = \<lparr>inst_out = [1, 0, 0, 0], inst_in = [2, 0, 0, 0], inst_pred = 0, inst_ar1 = 0, inst_ar2 = 0,
     inst_is_load = True, inst_space = global_space, inst_warp_id = 0\<rparr>"

definition add_r3 :: inst where
  "add_r3 = \<lparr>inst_out = [3, 0, 0, 0], inst_in = [2, 4, 0, 0], inst_pred = 0, inst_ar1 = 0, inst_ar2 = 0,
     inst_is_load = False, inst_space = reg_space, inst_warp_id = 0\<rparr>"

definition sb_one_load :: scoreboard where
  "sb_one_load = \<lparr>reg_table = [{1}, {}], longopregs = [{1}, {}]\<rparr>"

lemma reach_one_load: "sb_reach 2 (sb_one_load, [load_r1])"
proof (rule sb_reach.step [OF sb_reach.start], rule sb_step.issue)
  show "checkCollision (inst_warp_id load_r1) load_r1 (new_scoreboard 2) = Some False"
    by (simp add: checkCollision_def new_scoreboard_def load_r1_def numeral_2_eq_2)
  show "reserveRegisters load_r1 (new_scoreboard 2) = Some sb_one_load"
    by (simp add: reserveRegisters_def reserveRegister_def mark_longop_def long_space_def
        new_scoreboard_def load_r1_def sb_one_load_def numeral_2_eq_2)
qed

text \<open>C21. In every run, in which instructions issue, write back, or release one register after the other as loads do,
  the register table of a warp is exactly the union of the output registers that its instructions in flight still
  write, these are distinct for different instructions (no write after write hazard), \<open>pendingWrites\<close> holds exactly
  when there is one, and every register a load from a long space still writes is known as a long operation.\<close>

theorem scoreboard_tracks_pending:
  assumes "sb_reach n (sb, fl)" and "w < n"
  shows "reg_table sb ! w = (\<Union>i \<in> {i \<in> set fl. inst_warp_id i = w}. outs i)
    \<and> no_clash fl
    \<and> pendingWrites w sb = Some (\<exists>i \<in> set fl. inst_warp_id i = w \<and> outs i \<noteq> {})
    \<and> (\<forall>i \<in> set fl. inst_warp_id i = w \<and> is_longop i \<longrightarrow> (\<forall>r \<in> outs i. islongop w r sb = Some True))"
proof -
  have inv: "sb_inv n (sb, fl)" by (rule sb_reach_inv [OF assms(1)])
  then have "r \<in> longopregs sb ! w" if "i \<in> set fl" "inst_warp_id i = w \<and> is_longop i" "r \<in> outs i" for i r
    using that assms(2) by (fastforce simp: sb_inv_def pending_def)
  then show ?thesis using inv assms(2)
    by (auto simp: sb_inv_def pending_def pendingWrites_def sb_shape_def islongop_def)
qed

theorem scoreboard_tracks_pending_witness:
  "reg_table sb_one_load ! 0 = (\<Union>i \<in> {i \<in> set [load_r1]. inst_warp_id i = 0}. outs i)
    \<and> pendingWrites 0 sb_one_load = Some (\<exists>i \<in> set [load_r1]. inst_warp_id i = 0 \<and> outs i \<noteq> {})"
  using scoreboard_tracks_pending [OF reach_one_load, of 0] by simp

text \<open>The converse of the last part fails. The load of register 1 completes in \<open>ldst_unit::writeback\<close>, which releases the register
  but leaves the mark: nothing is pending, and the two level scheduler still takes register 1 for a long operation.\<close>

lemma longop_mark_stays:
  "sb_reach 2 (sb_one_load\<lparr>reg_table := [{}, {}]\<rparr>, [drop_out 1 load_r1])"
  "pendingWrites 0 (sb_one_load\<lparr>reg_table := [{}, {}]\<rparr>) = Some False"
  "islongop 0 1 (sb_one_load\<lparr>reg_table := [{}, {}]\<rparr>) = Some True"
proof -
  have "sb_step (sb_one_load, [] @ load_r1 # []) (sb_one_load\<lparr>reg_table := [{}, {}]\<rparr>, [] @ drop_out 1 load_r1 # [])"
    by (rule sb_step.release) (simp_all add: load_r1_def outs_def releaseRegister_def sb_one_load_def)
  from sb_reach.step [OF reach_one_load, of "(sb_one_load\<lparr>reg_table := [{}, {}]\<rparr>, [drop_out 1 load_r1])"] this
  show "sb_reach 2 (sb_one_load\<lparr>reg_table := [{}, {}]\<rparr>, [drop_out 1 load_r1])" by simp
qed (simp_all add: pendingWrites_def islongop_def sb_one_load_def)

text \<open>The registers an instruction reads: its sources, its predicate and its two address registers. It has to wait for an
  instruction in flight of its warp that still writes one of them, or one that it writes itself.\<close>

definition source_regs :: "inst \<Rightarrow> nat set" where
  "source_regs i = {r. r > 0 \<and> (r \<in> set (inst_in i) \<or> int r = inst_pred i \<or> int r = inst_ar1 i \<or> int r = inst_ar2 i)}"

definition hazard :: "inst list \<Rightarrow> inst \<Rightarrow> bool" where
  "hazard fl i \<longleftrightarrow> (\<exists>k \<in> set fl. inst_warp_id k = inst_warp_id i \<and> (\<exists>r \<in> outs k. r \<in> source_regs i \<or> r \<in> outs i))"

lemma inst_regs_iff: "r \<in> inst_regs i \<longleftrightarrow> r \<in> source_regs i \<or> r \<in> outs i"
proof -
  have im: "r \<in> nat ` {x \<in> A. x > 0} \<longleftrightarrow> r > 0 \<and> int r \<in> A" for A by (auto simp: image_iff intro!: bexI [of _ "int r"])
  then show ?thesis unfolding inst_regs_def Un_iff im by (auto simp: source_regs_def outs_def)
qed

text \<open>C23. In every run \<open>checkCollision\<close> decides exactly whether the instruction has a read after write or a write
  after write hazard with an instruction in flight of its warp. Without one it can issue: \<open>reserveRegister\<close>
  does not abort, given that its output registers are distinct. And every instruction in flight can
  release its registers, all at once or one by one.\<close>

theorem scoreboard_issue_never_aborts:
  assumes "sb_reach n (sb, fl)" and "inst_warp_id i < n" and "distinct (filter (\<lambda>r. r > 0) (inst_out i))"
  shows "checkCollision (inst_warp_id i) i sb = Some (hazard fl i)
    \<and> (\<not> hazard fl i \<longrightarrow> (\<exists>sb'. reserveRegisters i sb = Some sb' \<and> sb_reach n (sb', i # fl)))
    \<and> (\<forall>k \<in> set fl. releaseRegisters k sb \<noteq> None \<and> (\<forall>r \<in> outs k. releaseRegister (inst_warp_id k) r sb \<noteq> None))"
proof (intro conjI ballI impI)
  have inv: "sb_inv n (sb, fl)" by (rule sb_reach_inv [OF assms(1)])
  have "reg_table sb ! inst_warp_id i = pending (\<lambda>_. True) fl (inst_warp_id i)"
    using inv assms(2) by (simp add: sb_inv_def)
  then have free: "reg_table sb ! inst_warp_id i \<inter> inst_regs i \<noteq> {} \<longleftrightarrow> hazard fl i"
    using inst_regs_iff [of _ i] by (auto simp: pending_def hazard_def)
  then show check: "checkCollision (inst_warp_id i) i sb = Some (hazard fl i)"
    using inv assms(2) by (auto simp: checkCollision_eq sb_inv_def sb_shape_def)
  show "\<exists>sb'. reserveRegisters i sb = Some sb' \<and> sb_reach n (sb', i # fl)" if "\<not> hazard fl i"
  proof -
    have "reg_table sb ! inst_warp_id i \<inter> inst_regs i = {}" using free that by blast
    then obtain sb' where "reserveRegisters i sb = Some sb'"
      using sb_inv_issue [OF inv assms(2) _ assms(3)] by (auto simp: ok_def)
    moreover have "checkCollision (inst_warp_id i) i sb = Some False" using check that by simp
    ultimately show ?thesis using sb_reach.step [OF assms(1) sb_step.issue] by blast
  qed
  fix k assume "k \<in> set fl"
  then obtain xs ys where k: "fl = xs @ k # ys" by (auto simp: in_set_conv_decomp)
  with inv sb_inv_writeback [of n sb xs k ys] show "releaseRegisters k sb \<noteq> None" by (auto simp: ok_def)
  fix r assume "r \<in> outs k"
  with k inv sb_inv_release [of n sb xs k ys r] show "releaseRegister (inst_warp_id k) r sb \<noteq> None" by (auto simp: ok_def)
qed

theorem scoreboard_issue_never_aborts_witness:
  "\<exists>sb'. reserveRegisters add_r3 sb_one_load = Some sb' \<and> sb_reach 2 (sb', [add_r3, load_r1])"
proof -
  have "inst_warp_id add_r3 < 2" "distinct (filter (\<lambda>r. r > 0) (inst_out add_r3))"
    by (simp_all add: add_r3_def)
  from scoreboard_issue_never_aborts [OF reach_one_load this] show ?thesis
    by (auto simp: hazard_def source_regs_def outs_def add_r3_def load_r1_def)
qed

end
