(* ===== verification/Tag_Array.thy ===== *)
theory Tag_Array
  imports Prelude
begin

text \<open>
  The tag array of the caches of \<open>gpgpu-sim/gpu-cache.h\<close> and \<open>gpu-cache.cc\<close>: the configuration read
  from the option string, the set index functions, and the operations \<open>probe\<close>, \<open>access\<close>, \<open>fill\<close> and
  \<open>flush\<close> on the array of lines. A failing \<open>assert\<close>, \<open>abort\<close> and an index past the array are
  \<open>None\<close>. Time stamps and counters are 32 bit words; line indices are natural numbers, the value
  \<open>(unsigned) -1\<close> that stands for no line being \<open>None\<close>.
\<close>

section \<open>Configuration\<close>

datatype cache_block_state = INVALID | RESERVED | VALID | MODIFIED
datatype cache_request_status = HIT | HIT_RESERVED | MISS | RESERVATION_FAIL
datatype replacement_policy = LRU | FIFO
datatype write_policy = READ_ONLY | WRITE_BACK | WRITE_THROUGH | WRITE_EVICT | LOCAL_WB_GLOBAL_WT
datatype allocation_policy = ON_MISS | ON_FILL
datatype write_allocate_policy = NO_WRITE_ALLOCATE | WRITE_ALLOCATE
datatype mshr_config = TEX_FIFO | ASSOC
datatype set_index_fun = FERMI_HASH_SET_FUNCTION | LINEAR_SET_FUNCTION | CUSTOM_SET_FUNCTION

text \<open>Which class overrides the virtual \<open>set_index\<close>; the L2 cache may have an address mapping.\<close>

datatype config_class = Base_config | L1d_config | L2_config "(u64 \<Rightarrow> u64) option"

record cache_config =
  m_nset :: u32
  m_line_sz :: u32
  m_line_sz_log2 :: nat
  m_nset_log2 :: nat
  m_assoc :: nat
  m_replacement_policy :: replacement_policy
  m_write_policy :: write_policy
  m_alloc_policy :: allocation_policy
  m_write_alloc_policy :: write_allocate_policy
  m_mshr_type :: mshr_config
  m_mshr_entries :: nat
  m_mshr_max_merge :: nat
  m_miss_queue_size :: nat
  m_result_fifo_entries :: nat
  m_data_port_width :: u32
  m_set_index_function :: set_index_fun
  m_class :: config_class

text \<open>\<open>LOGB2\<close> of \<open>gpu-misc.cc\<close>: binary search for the highest set bit. One line of its body is
  \<open>logb2_step\<close>, with the mask and the exponent of the line.\<close>

definition logb2_step :: "u32 \<Rightarrow> nat \<Rightarrow> u32 \<times> u32 \<Rightarrow> u32 \<times> u32" where
  "logb2_step m k = (\<lambda>(v, r).
     let shift = push_bit k (if v AND m \<noteq> 0 then 1 else 0)
     in (drop_bit (unat shift) v, r OR shift))"

definition LOGB2 :: "u32 \<Rightarrow> u32" where
  "LOGB2 v = snd (logb2_step 0x2 0 (logb2_step 0xC 1 (logb2_step 0xF0 2
     (logb2_step 0xFF00 3 (logb2_step 0xFFFF0000 4 (v, 0))))))"

text \<open>
  The fields \<open>sscanf\<close> reads from the option string, and how many of them it read. The string
  \<open>none\<close> disables the cache, which is the result \<open>Some None\<close>.
\<close>

record config_fields =
  f_nset :: u32
  f_line_sz :: u32
  f_assoc :: nat
  f_rp :: char
  f_wp :: char
  f_ap :: char
  f_wap :: char
  f_sif :: char
  f_mshr_type :: char
  f_mshr_entries :: nat
  f_mshr_max_merge :: nat
  f_miss_queue_size :: nat
  f_result_fifo :: nat
  f_port_width :: u32

definition parse_rp :: "char \<Rightarrow> replacement_policy option" where
  "parse_rp c = (if c = CHR ''L'' then Some LRU else if c = CHR ''F'' then Some FIFO else None)"

definition parse_wp :: "char \<Rightarrow> write_policy option" where
  "parse_wp c =
     (if c = CHR ''R'' then Some READ_ONLY
      else if c = CHR ''B'' then Some WRITE_BACK
      else if c = CHR ''T'' then Some WRITE_THROUGH
      else if c = CHR ''E'' then Some WRITE_EVICT
      else if c = CHR ''L'' then Some LOCAL_WB_GLOBAL_WT
      else None)"

definition parse_ap :: "char \<Rightarrow> allocation_policy option" where
  "parse_ap c = (if c = CHR ''m'' then Some ON_MISS else if c = CHR ''f'' then Some ON_FILL else None)"

definition parse_mshr :: "nat \<Rightarrow> char \<Rightarrow> mshr_config option" where
  "parse_mshr ntok c =
     (if c = CHR ''F'' then do { _ \<leftarrow> assert_c (ntok = 13); Some TEX_FIFO }
      else if c = CHR ''A'' then Some ASSOC
      else None)"

definition parse_wap :: "char \<Rightarrow> write_allocate_policy option" where
  "parse_wap c =
     (if c = CHR ''W'' then Some WRITE_ALLOCATE else if c = CHR ''N'' then Some NO_WRITE_ALLOCATE else None)"

definition parse_sif :: "char \<Rightarrow> set_index_fun option" where
  "parse_sif c =
     (if c = CHR ''H'' then Some FERMI_HASH_SET_FUNCTION
      else if c = CHR ''C'' then Some CUSTOM_SET_FUNCTION
      else if c = CHR ''L'' then Some LINEAR_SET_FUNCTION
      else None)"

text \<open>
  A width that \<open>sscanf\<close> did not read keeps the 0 of the constructor; fields it did not read keep
  what they held and are passed in as read.
\<close>

definition config_init ::
  "config_class \<Rightarrow> bool \<Rightarrow> nat \<Rightarrow> config_fields \<Rightarrow> cache_config option option" where
  "config_init cl is_none ntok f =
     (if ntok < 11
      then (if is_none then Some None else None)
      else do {
        rp \<leftarrow> parse_rp (f_rp f);
        wp \<leftarrow> parse_wp (f_wp f);
        ap \<leftarrow> parse_ap (f_ap f);
        mt \<leftarrow> parse_mshr ntok (f_mshr_type f);
        wap \<leftarrow> parse_wap (f_wap f);
        _ \<leftarrow> assert_c (\<not> (ap = ON_FILL \<and> wp = WRITE_BACK));
        let width = (if ntok < 14 then 0 else f_port_width f);
        let width = (if width = 0 then f_line_sz f else width);
        _ \<leftarrow> assert_c (width \<noteq> 0);
        _ \<leftarrow> assert_c (f_line_sz f mod width = 0);
        sif \<leftarrow> parse_sif (f_sif f);
        Some (Some
          \<lparr>m_nset = f_nset f, m_line_sz = f_line_sz f, m_line_sz_log2 = unat (LOGB2 (f_line_sz f)),
           m_nset_log2 = unat (LOGB2 (f_nset f)), m_assoc = f_assoc f, m_replacement_policy = rp,
           m_write_policy = wp, m_alloc_policy = ap, m_write_alloc_policy = wap, m_mshr_type = mt,
           m_mshr_entries = f_mshr_entries f, m_mshr_max_merge = f_mshr_max_merge f,
           m_miss_queue_size = f_miss_queue_size f, m_result_fifo_entries = f_result_fifo f,
           m_data_port_width = width, m_set_index_function = sif, m_class = cl\<rparr>) })"

definition get_num_lines :: "cache_config \<Rightarrow> nat" where
  "get_num_lines cfg = unat (m_nset cfg) * m_assoc cfg"

section \<open>Set index and tag\<close>

definition linear_index :: "cache_config \<Rightarrow> u64 \<Rightarrow> u32" where
  "linear_index cfg addr = ucast (drop_bit (m_line_sz_log2 cfg) addr AND ucast (m_nset cfg - 1))"

definition base_set_index :: "cache_config \<Rightarrow> u64 \<Rightarrow> u32 option" where
  "base_set_index cfg addr =
     (if m_set_index_function cfg \<noteq> LINEAR_SET_FUNCTION then None else Some (linear_index cfg addr))"

definition fermi_hash :: "cache_config \<Rightarrow> u64 \<Rightarrow> u32" where
  "fermi_hash cfg addr =
     (let lower_xor = ucast (drop_bit (m_line_sz_log2 cfg) addr AND 0x1F) :: u32;
          upper_xor = ucast (drop_bit 13 (addr AND 0xE000)) :: u32;
          upper_xor = upper_xor OR ucast (drop_bit 14 (addr AND 0x20000));
          upper_xor = upper_xor OR ucast (drop_bit 15 (addr AND 0x80000));
          set_index = lower_xor XOR upper_xor
      in if m_nset cfg = 64 then set_index OR ucast (drop_bit 7 (addr AND 0x1000)) else set_index)"

definition l1d_set_index :: "cache_config \<Rightarrow> u64 \<Rightarrow> u32 option" where
  "l1d_set_index cfg addr = do {
     set_index \<leftarrow>
       (case m_set_index_function cfg of
          FERMI_HASH_SET_FUNCTION \<Rightarrow>
            if m_nset cfg = 32 \<or> m_nset cfg = 64 then Some (fermi_hash cfg addr) else None
        | CUSTOM_SET_FUNCTION \<Rightarrow> Some (m_nset cfg)
        | LINEAR_SET_FUNCTION \<Rightarrow> Some (linear_index cfg addr));
     if set_index < m_nset cfg then Some set_index else None }"

definition l2_set_index :: "(u64 \<Rightarrow> u64) option \<Rightarrow> cache_config \<Rightarrow> u64 \<Rightarrow> u32 option" where
  "l2_set_index mapping cfg addr =
     (case mapping of
        None \<Rightarrow> Some (linear_index cfg addr)
      | Some partition_address \<Rightarrow> Some (linear_index cfg (partition_address addr)))"

definition set_index :: "cache_config \<Rightarrow> u64 \<Rightarrow> nat option" where
  "set_index cfg addr = map_option unat
     (case m_class cfg of
        Base_config \<Rightarrow> base_set_index cfg addr
      | L1d_config \<Rightarrow> l1d_set_index cfg addr
      | L2_config mapping \<Rightarrow> l2_set_index mapping cfg addr)"

text \<open>\<open>tag\<close> and \<open>block_addr\<close>: the mask is a 32 bit \<open>unsigned\<close>, so it also clears the upper half.\<close>

definition block_addr :: "cache_config \<Rightarrow> u64 \<Rightarrow> u64" where
  "block_addr cfg addr = addr AND ucast (NOT (m_line_sz cfg - 1))"

definition tag_of :: "cache_config \<Rightarrow> u64 \<Rightarrow> u64" where
  "tag_of cfg addr = addr AND ucast (NOT (m_line_sz cfg - 1))"

section \<open>The tag array\<close>

record cache_block =
  m_tag :: u64
  m_block_addr :: u64
  m_alloc_time :: u32
  m_last_access_time :: u32
  m_fill_time :: u32
  m_status :: cache_block_state

definition empty_block :: cache_block where
  "empty_block = \<lparr>m_tag = 0, m_block_addr = 0, m_alloc_time = 0, m_last_access_time = 0,
     m_fill_time = 0, m_status = INVALID\<rparr>"

definition block_allocate :: "u64 \<Rightarrow> u64 \<Rightarrow> u32 \<Rightarrow> cache_block \<Rightarrow> cache_block" where
  "block_allocate tag baddr time b =
     b\<lparr>m_tag := tag, m_block_addr := baddr, m_alloc_time := time, m_last_access_time := time,
       m_fill_time := 0, m_status := RESERVED\<rparr>"

definition block_fill :: "u32 \<Rightarrow> cache_block \<Rightarrow> cache_block option" where
  "block_fill time b = do {
     _ \<leftarrow> assert_c (m_status b = RESERVED);
     Some (b\<lparr>m_status := VALID, m_fill_time := time\<rparr>) }"

record tag_array =
  m_lines :: "cache_block list"
  m_access :: u32
  m_miss :: u32
  m_pending_hit :: u32
  m_res_fail :: u32
  m_prev_snapshot_access :: u32
  m_prev_snapshot_miss :: u32
  m_prev_snapshot_pending_hit :: u32

text \<open>The array is allocated four times as large as the configuration asks for.\<close>

definition new_tag_array :: "cache_config \<Rightarrow> tag_array" where
  "new_tag_array cfg =
     \<lparr>m_lines = replicate (4 * get_num_lines cfg) empty_block, m_access = 0, m_miss = 0,
      m_pending_hit = 0, m_res_fail = 0, m_prev_snapshot_access = 0, m_prev_snapshot_miss = 0,
      m_prev_snapshot_pending_hit = 0\<rparr>"

text \<open>What the loop of \<open>probe\<close> has found so far.\<close>

record probe_state =
  invalid_line :: "nat option"
  valid_line :: "nat option"
  valid_timestamp :: u32
  all_reserved :: bool

definition replacement_time :: "cache_config \<Rightarrow> cache_block \<Rightarrow> u32" where
  "replacement_time cfg line =
     (case m_replacement_policy cfg of LRU \<Rightarrow> m_last_access_time line | FIFO \<Rightarrow> m_alloc_time line)"

definition probe_note :: "cache_config \<Rightarrow> nat \<Rightarrow> cache_block \<Rightarrow> probe_state \<Rightarrow> probe_state" where
  "probe_note cfg index line st =
     (if m_status line \<noteq> RESERVED
      then (let st = st\<lparr>all_reserved := False\<rparr>
            in if m_status line = INVALID then st\<lparr>invalid_line := Some index\<rparr>
               else if replacement_time cfg line < valid_timestamp st
               then st\<lparr>valid_timestamp := replacement_time cfg line, valid_line := Some index\<rparr>
               else st)
      else st)"

text \<open>The loop over the ways: a hit or a pending hit returns from the function.\<close>

primrec probe_ways :: "cache_config \<Rightarrow> cache_block list \<Rightarrow> u64 \<Rightarrow> nat list \<Rightarrow> probe_state
    \<Rightarrow> ((cache_request_status \<times> nat) + probe_state) option" where
  "probe_ways cfg lines tag [] st = Some (Inr st)"
| "probe_ways cfg lines tag (index # is) st = do {
     line \<leftarrow> at_get lines index;
     if m_tag line = tag \<and> m_status line = RESERVED then Some (Inl (HIT_RESERVED, index))
     else if m_tag line = tag \<and> m_status line = VALID then Some (Inl (HIT, index))
     else if m_tag line = tag \<and> m_status line = MODIFIED then Some (Inl (HIT, index))
     else probe_ways cfg lines tag is (probe_note cfg index line st) }"

definition probe_start :: probe_state where
  "probe_start = \<lparr>invalid_line = None, valid_line = None, valid_timestamp = - 1, all_reserved = True\<rparr>"

text \<open>The index is returned in a reference parameter, which a reservation failure leaves as it was.\<close>

definition ta_probe :: "cache_config \<Rightarrow> tag_array \<Rightarrow> u64 \<Rightarrow> nat \<Rightarrow> (cache_request_status \<times> nat) option" where
  "ta_probe cfg ta addr idx = do {
     s \<leftarrow> set_index cfg addr;
     found \<leftarrow> probe_ways cfg (m_lines ta) (tag_of cfg addr)
       (map (\<lambda>way. s * m_assoc cfg + way) [0..<m_assoc cfg]) probe_start;
     case found of
       Inl hit \<Rightarrow> Some hit
     | Inr st \<Rightarrow>
         if all_reserved st then do {
           _ \<leftarrow> assert_c (m_alloc_policy cfg = ON_MISS);
           Some (RESERVATION_FAIL, idx) }
         else case invalid_line st of
           Some i \<Rightarrow> Some (MISS, i)
         | None \<Rightarrow> (case valid_line st of Some i \<Rightarrow> Some (MISS, i) | None \<Rightarrow> None) }"

definition upd_line :: "nat \<Rightarrow> (cache_block \<Rightarrow> cache_block) \<Rightarrow> tag_array \<Rightarrow> tag_array option" where
  "upd_line idx g ta = do {
     line \<leftarrow> at_get (m_lines ta) idx;
     Some (ta\<lparr>m_lines := (m_lines ta)[idx := g line]\<rparr>) }"

text \<open>
  \<open>access\<close> with the write back flag: the result is the status, the index, the evicted line when
  the flag was set, and the new array.
\<close>

definition ta_access_wb :: "cache_config \<Rightarrow> u64 \<Rightarrow> u32 \<Rightarrow> nat \<Rightarrow> tag_array
    \<Rightarrow> (cache_request_status \<times> nat \<times> cache_block option \<times> tag_array) option" where
  "ta_access_wb cfg addr time idx ta = do {
     let ta = ta\<lparr>m_access := m_access ta + 1\<rparr>;
     (status, idx) \<leftarrow> ta_probe cfg ta addr idx;
     case status of
       HIT_RESERVED \<Rightarrow> do {
         ta \<leftarrow> upd_line idx (m_last_access_time_update (\<lambda>_. time)) (ta\<lparr>m_pending_hit := m_pending_hit ta + 1\<rparr>);
         Some (status, idx, None, ta) }
     | HIT \<Rightarrow> do {
         ta \<leftarrow> upd_line idx (m_last_access_time_update (\<lambda>_. time)) ta;
         Some (status, idx, None, ta) }
     | MISS \<Rightarrow> do {
         let ta = ta\<lparr>m_miss := m_miss ta + 1\<rparr>;
         if m_alloc_policy cfg = ON_MISS then do {
           line \<leftarrow> at_get (m_lines ta) idx;
           ta \<leftarrow> upd_line idx (block_allocate (tag_of cfg addr) (block_addr cfg addr) time) ta;
           Some (status, idx, if m_status line = MODIFIED then Some line else None, ta) }
         else Some (status, idx, None, ta) }
     | RESERVATION_FAIL \<Rightarrow> Some (status, idx, None, ta\<lparr>m_res_fail := m_res_fail ta + 1\<rparr>) }"

definition ta_access :: "cache_config \<Rightarrow> u64 \<Rightarrow> u32 \<Rightarrow> nat \<Rightarrow> tag_array
    \<Rightarrow> (cache_request_status \<times> nat \<times> tag_array) option" where
  "ta_access cfg addr time idx ta = do {
     (status, idx, wb, ta) \<leftarrow> ta_access_wb cfg addr time idx ta;
     _ \<leftarrow> assert_c (wb = None);
     Some (status, idx, ta) }"

definition ta_fill_addr :: "cache_config \<Rightarrow> u64 \<Rightarrow> u32 \<Rightarrow> tag_array \<Rightarrow> tag_array option" where
  "ta_fill_addr cfg addr time ta = do {
     _ \<leftarrow> assert_c (m_alloc_policy cfg = ON_FILL);
     (status, idx) \<leftarrow> ta_probe cfg ta addr 0;
     _ \<leftarrow> assert_c (status = MISS);
     ta \<leftarrow> upd_line idx (block_allocate (tag_of cfg addr) (block_addr cfg addr) time) ta;
     line \<leftarrow> at_get (m_lines ta) idx;
     line \<leftarrow> block_fill time line;
     upd_line idx (\<lambda>_. line) ta }"

definition ta_fill_index :: "cache_config \<Rightarrow> nat \<Rightarrow> u32 \<Rightarrow> tag_array \<Rightarrow> tag_array option" where
  "ta_fill_index cfg index time ta = do {
     _ \<leftarrow> assert_c (m_alloc_policy cfg = ON_MISS);
     line \<leftarrow> at_get (m_lines ta) index;
     line \<leftarrow> block_fill time line;
     upd_line index (\<lambda>_. line) ta }"

definition ta_flush :: "cache_config \<Rightarrow> tag_array \<Rightarrow> tag_array option" where
  "ta_flush cfg ta =
     foldM (\<lambda>ta i. upd_line i (m_status_update (\<lambda>_. INVALID)) ta) ta [0..<get_num_lines cfg]"

definition ta_new_window :: "tag_array \<Rightarrow> tag_array" where
  "ta_new_window ta =
     ta\<lparr>m_prev_snapshot_access := m_access ta, m_prev_snapshot_miss := m_miss ta,
        m_prev_snapshot_pending_hit := m_pending_hit ta\<rparr>"

section \<open>Bits\<close>

lemma bit_le_unat: "bit (w :: 'a :: len word) i \<Longrightarrow> 2 ^ i \<le> unat w"
proof -
  assume "bit w i"
  then have "bit (unat w) i" by (simp add: bit_unsigned_iff)
  then have "odd (unat w div 2 ^ i)" by (simp add: bit_iff_odd)
  then have "unat w div 2 ^ i \<noteq> 0" by (metis even_zero)
  then show ?thesis by (metis div_less leI)
qed

lemma bit_index_less: "bit (w :: 'a :: len word) i \<Longrightarrow> unat w < 2 ^ k \<Longrightarrow> i < k"
  by (drule bit_le_unat) (metis le_less_trans nat_power_less_imp_less zero_less_numeral)

lemma u32_less_of_bits:
  assumes "\<And>i. bit (w :: u32) i \<Longrightarrow> i < k" and "k < 32"
  shows "unat w < 2 ^ k"
proof -
  have "take_bit k w = w" by (rule bit_eqI) (use assms(1) in \<open>auto simp: bit_simps\<close>)
  then have "unat w = take_bit k (unat w)" by (metis unsigned_take_bit_eq)
  then show ?thesis by (metis take_bit_nat_less_exp)
qed

lemma u64_and_le: "x AND m \<le> (m :: u64)"
  by (rule word_and_le1)

text \<open>For each set of lines of an \<open>n\<close> set cache a power of two is not needed for the bound.\<close>

lemma linear_index_less:
  assumes "0 < m_nset cfg"
  shows "linear_index cfg addr < m_nset cfg"
proof -
  let ?n = "m_nset cfg" and ?x = "drop_bit (m_line_sz_log2 cfg) addr AND ucast (m_nset cfg - 1)"
  have pos: "0 < unat ?n" using assms by (simp add: word_less_nat_alt)
  then have n1: "unat (?n - 1) = unat ?n - 1" by (simp add: unat_sub word_le_nat_alt Suc_le_eq)
  have "unat ?x \<le> unat (ucast (?n - 1) :: u64)" using u64_and_le by (simp only: word_le_nat_alt)
  also have "\<dots> = unat ?n - 1"
    by (simp only: unat_u32_u64 n1)
  finally have "unat ?x \<le> unat ?n - 1" .
  moreover have "unat (ucast ?x :: u32) \<le> unat ?x"
    by (simp add: unsigned_ucast_eq take_bit_nat_less_eq_self)
  ultimately show ?thesis
    using pos unfolding linear_index_def word_less_nat_alt by linarith
qed

lemma masked_bits:
  assumes "bit (ucast (drop_bit n (x AND m)) :: u32) i" and "unat (drop_bit n (m :: u64)) < 2 ^ k"
  shows "i < k"
proof -
  have "bit (drop_bit n m) i" using assms(1) by (simp add: bit_simps)
  then show ?thesis using assms(2) by (rule bit_index_less)
qed

lemma fermi_hash_bits:
  assumes "bit (fermi_hash cfg addr) i"
  shows "i < (if m_nset cfg = 64 then 6 else 5)"
proof (cases "i < 5")
  case True
  then show ?thesis by simp
next
  case False
  have low: "\<not> bit (ucast (drop_bit 0 (drop_bit (m_line_sz_log2 cfg) addr AND 0x1F)) :: u32) i"
    "\<not> bit (ucast (drop_bit 13 (addr AND 0xE000)) :: u32) i"
    "\<not> bit (ucast (drop_bit 14 (addr AND 0x20000)) :: u32) i"
    "\<not> bit (ucast (drop_bit 15 (addr AND 0x80000)) :: u32) i"
    by (rule notI, drule masked_bits [where k = 5], simp, use False in simp)+
  have "i < 6" if "bit (ucast (drop_bit 7 (addr AND 0x1000)) :: u32) i"
    using that by (rule masked_bits) simp
  moreover have "m_nset cfg = 64 \<and> bit (ucast (drop_bit 7 (addr AND 0x1000)) :: u32) i"
    using assms low
    by (simp only: fermi_hash_def Let_def drop_bit_0 id_apply bit_or_iff bit_xor_iff
        simp_thms split: if_splits)
  ultimately show ?thesis by simp
qed

lemma fermi_hash_less:
  assumes "m_nset cfg = 32 \<or> m_nset cfg = 64"
  shows "fermi_hash cfg addr < m_nset cfg"
proof -
  have "unat (fermi_hash cfg addr) < 2 ^ (if m_nset cfg = 64 then 6 else 5)"
    by (rule u32_less_of_bits) (use fermi_hash_bits in auto)
  with assms show ?thesis by (auto simp: word_less_nat_alt)
qed

section \<open>Well-formed configurations\<close>

text \<open>Configurations whose \<open>set_index\<close> never aborts.\<close>

definition cfg_ok :: "cache_config \<Rightarrow> bool" where
  "cfg_ok cfg \<longleftrightarrow> 0 < m_nset cfg \<and>
     (case m_class cfg of
        Base_config \<Rightarrow> m_set_index_function cfg = LINEAR_SET_FUNCTION
      | L1d_config \<Rightarrow> m_set_index_function cfg = LINEAR_SET_FUNCTION
          \<or> m_set_index_function cfg = FERMI_HASH_SET_FUNCTION \<and> (m_nset cfg = 32 \<or> m_nset cfg = 64)
      | L2_config _ \<Rightarrow> True)"

lemma set_index_ok:
  assumes "cfg_ok cfg"
  shows "ok (\<lambda>s. s < unat (m_nset cfg)) (set_index cfg addr)"
proof -
  have "linear_index cfg a < m_nset cfg" for a
    using assms by (intro linear_index_less) (simp add: cfg_ok_def)
  moreover have "fermi_hash cfg addr < m_nset cfg" if "m_nset cfg = 32 \<or> m_nset cfg = 64"
    using that by (rule fermi_hash_less)
  ultimately show ?thesis
    using assms
    by (auto simp: set_index_def cfg_ok_def base_set_index_def l1d_set_index_def l2_set_index_def
        word_less_nat_alt split: config_class.splits option.splits)
qed

definition ways_of :: "cache_config \<Rightarrow> nat \<Rightarrow> nat list" where
  "ways_of cfg s = map (\<lambda>way. s * m_assoc cfg + way) [0..<m_assoc cfg]"

lemma set_ways_of: "i \<in> set (ways_of cfg s) \<longleftrightarrow> s * m_assoc cfg \<le> i \<and> i < s * m_assoc cfg + m_assoc cfg"
  by (auto simp: ways_of_def intro!: image_eqI [of _ _ "i - s * m_assoc cfg"])

lemma ways_of_div: "i \<in> set (ways_of cfg s) \<Longrightarrow> i div m_assoc cfg = s"
  by (auto simp: set_ways_of intro!: div_nat_eqI simp: mult.commute)

lemma div_ways_of: "0 < m_assoc cfg \<Longrightarrow> i \<in> set (ways_of cfg (i div m_assoc cfg))"
  by (simp add: set_ways_of div_times_less_eq_dividend)
    (metis add.commute div_mult_mod_eq mod_less_divisor nat_add_left_cancel_less)

lemma ways_of_less: "s < unat (m_nset cfg) \<Longrightarrow> i \<in> set (ways_of cfg s) \<Longrightarrow> i < get_num_lines cfg"
proof -
  assume "s < unat (m_nset cfg)" and i: "i \<in> set (ways_of cfg s)"
  then have "Suc s * m_assoc cfg \<le> get_num_lines cfg"
    unfolding get_num_lines_def by (intro mult_le_mono1) simp
  with i show ?thesis by (auto simp: set_ways_of)
qed

section \<open>What the probe finds\<close>

definition live :: "cache_block \<Rightarrow> bool" where
  "live b \<longleftrightarrow> m_status b \<noteq> INVALID"

definition replaceable :: "cache_block \<Rightarrow> bool" where
  "replaceable b \<longleftrightarrow> m_status b = VALID \<or> m_status b = MODIFIED"

definition probe_post :: "cache_config \<Rightarrow> cache_block list \<Rightarrow> u64 \<Rightarrow> nat list \<Rightarrow> probe_state
    \<Rightarrow> (cache_request_status \<times> nat) + probe_state \<Rightarrow> bool" where
  "probe_post cfg lines tag is st r =
    (case r of
       Inl (status, i) \<Rightarrow> i \<in> set is \<and> m_tag (lines ! i) = tag \<and> live (lines ! i)
         \<and> status = (if m_status (lines ! i) = RESERVED then HIT_RESERVED else HIT)
     | Inr st' \<Rightarrow> (\<forall>i \<in> set is. \<not> (m_tag (lines ! i) = tag \<and> live (lines ! i)))
         \<and> st' = foldl (\<lambda>st i. probe_note cfg i (lines ! i) st) st is)"

lemma probe_post_Cons:
  assumes "probe_post cfg lines tag is (probe_note cfg i (lines ! i) st) r"
    and "\<not> (m_tag (lines ! i) = tag \<and> live (lines ! i))"
  shows "probe_post cfg lines tag (i # is) st r"
proof (cases r)
  case (Inl hit)
  with assms(1) show ?thesis by (cases hit) (simp add: probe_post_def)
next
  case (Inr st')
  with assms show ?thesis by (simp add: probe_post_def)
qed

lemma probe_ways_spec:
  assumes "\<forall>i \<in> set is. i < length lines"
  shows "ok (probe_post cfg lines tag is st) (probe_ways cfg lines tag is st)"
  using assms
proof (induction "is" arbitrary: st)
  case Nil
  then show ?case by (simp add: probe_post_def)
next
  case (Cons i "is")
  let ?b = "lines ! i"
  consider "m_tag ?b = tag \<and> m_status ?b = RESERVED" | "m_tag ?b = tag \<and> m_status ?b = VALID"
    | "m_tag ?b = tag \<and> m_status ?b = MODIFIED" | "\<not> (m_tag ?b = tag \<and> live ?b)"
    unfolding live_def by (cases "m_status ?b") auto
  then show ?case
  proof cases
    case 4
    then have run: "probe_ways cfg lines tag (i # is) st = probe_ways cfg lines tag is (probe_note cfg i ?b st)"
      using Cons.prems by (auto simp: live_def)
    have "ok (probe_post cfg lines tag is (probe_note cfg i ?b st))
        (probe_ways cfg lines tag is (probe_note cfg i ?b st))"
      using Cons.prems by (intro Cons.IH) simp
    then show ?thesis unfolding run by (rule ok_mono) (rule probe_post_Cons [OF _ 4])
  qed (use Cons.prems in \<open>simp_all add: live_def probe_post_def\<close>)
qed

text \<open>What the loop has noted after the ways \<open>is\<close>.\<close>

definition noted :: "cache_config \<Rightarrow> cache_block list \<Rightarrow> nat set \<Rightarrow> probe_state \<Rightarrow> bool" where
  "noted cfg lines I st \<longleftrightarrow>
     (all_reserved st \<longleftrightarrow> (\<forall>i \<in> I. m_status (lines ! i) = RESERVED))
     \<and> (case invalid_line st of None \<Rightarrow> \<forall>i \<in> I. live (lines ! i)
          | Some i \<Rightarrow> i \<in> I \<and> \<not> live (lines ! i))
     \<and> (\<forall>i \<in> I. replaceable (lines ! i) \<longrightarrow> valid_timestamp st \<le> replacement_time cfg (lines ! i))
     \<and> (case valid_line st of None \<Rightarrow> valid_timestamp st = - 1
          | Some i \<Rightarrow> i \<in> I \<and> replaceable (lines ! i) \<and> valid_timestamp st = replacement_time cfg (lines ! i))"

lemma noted_step:
  assumes "noted cfg lines I st"
  shows "noted cfg lines (insert i I) (probe_note cfg i (lines ! i) st)"
proof -
  let ?b = "lines ! i"
  consider "m_status ?b = INVALID" | "m_status ?b = RESERVED"
    | "replaceable ?b" "replacement_time cfg ?b < valid_timestamp st"
    | "replaceable ?b" "valid_timestamp st \<le> replacement_time cfg ?b"
    using not_le unfolding replaceable_def by (cases "m_status ?b") blast+
  then show ?thesis
  proof cases
    case 1
    then have "probe_note cfg i ?b st = st\<lparr>all_reserved := False, invalid_line := Some i\<rparr>"
      by (simp add: probe_note_def Let_def)
    with 1 assms show ?thesis
      by (simp add: noted_def live_def replaceable_def split: option.splits)
  next
    case 2
    then have "probe_note cfg i ?b st = st" by (simp add: probe_note_def)
    with 2 assms show ?thesis
      by (simp add: noted_def live_def replaceable_def split: option.splits)
  next
    case 3
    then have "probe_note cfg i ?b st =
        st\<lparr>all_reserved := False, valid_timestamp := replacement_time cfg ?b, valid_line := Some i\<rparr>"
      by (auto simp: probe_note_def Let_def replaceable_def)
    moreover have "live ?b" "m_status ?b \<noteq> RESERVED" using 3 by (auto simp: replaceable_def live_def)
    moreover have "replacement_time cfg ?b \<le> replacement_time cfg (lines ! k)"
      if "k \<in> I" "replaceable (lines ! k)" for k
      using assms 3(2) that by (auto simp: noted_def intro: order.trans [OF order.strict_implies_order])
    ultimately show ?thesis using 3 assms by (simp add: noted_def split: option.splits)
  next
    case 4
    then have "probe_note cfg i ?b st = st\<lparr>all_reserved := False\<rparr>"
      by (auto simp: probe_note_def Let_def replaceable_def not_less)
    moreover have "live ?b" "m_status ?b \<noteq> RESERVED" using 4 by (auto simp: replaceable_def live_def)
    ultimately show ?thesis using 4 assms by (simp add: noted_def split: option.splits)
  qed
qed

lemma noted_fold:
  "noted cfg lines I st \<Longrightarrow>
    noted cfg lines (I \<union> set is) (foldl (\<lambda>st i. probe_note cfg i (lines ! i) st) st is)"
proof (induction "is" arbitrary: I st)
  case Nil
  then show ?case by simp
next
  case (Cons i "is")
  from Cons.IH [OF noted_step [OF Cons.prems, of i]] show ?case by simp
qed

lemma noted_start: "noted cfg lines {} probe_start"
  by (simp add: noted_def probe_start_def)

section \<open>The invariant of the tag array\<close>

text \<open>
  The live lines of the configured part of the array hold block addresses, each in the set its address
  maps to, and no block is held twice.
\<close>

definition ta_inv :: "cache_config \<Rightarrow> tag_array \<Rightarrow> bool" where
  "ta_inv cfg ta \<longleftrightarrow>
     get_num_lines cfg \<le> length (m_lines ta)
     \<and> (\<forall>i < get_num_lines cfg. live (m_lines ta ! i) \<longrightarrow>
          tag_of cfg (m_tag (m_lines ta ! i)) = m_tag (m_lines ta ! i)
          \<and> set_index cfg (m_tag (m_lines ta ! i)) = Some (i div m_assoc cfg))
     \<and> (\<forall>i < get_num_lines cfg. \<forall>j < get_num_lines cfg.
          live (m_lines ta ! i) \<longrightarrow> live (m_lines ta ! j) \<longrightarrow>
          m_tag (m_lines ta ! i) = m_tag (m_lines ta ! j) \<longrightarrow> i = j)"

text \<open>No line has the greatest time stamp, which \<open>probe\<close> uses for none.\<close>

definition times_ok :: "cache_config \<Rightarrow> tag_array \<Rightarrow> bool" where
  "times_ok cfg ta \<longleftrightarrow> (\<forall>i < get_num_lines cfg. replacement_time cfg (m_lines ta ! i) \<noteq> - 1)"

definition holds_block :: "cache_config \<Rightarrow> tag_array \<Rightarrow> u64 \<Rightarrow> nat \<Rightarrow> bool" where
  "holds_block cfg ta tag i \<longleftrightarrow>
     i < get_num_lines cfg \<and> live (m_lines ta ! i) \<and> m_tag (m_lines ta ! i) = tag"

text \<open>The victim \<open>probe\<close> names for a miss in the set \<open>I\<close> of lines.\<close>

definition good_victim :: "cache_config \<Rightarrow> tag_array \<Rightarrow> nat set \<Rightarrow> nat \<Rightarrow> bool" where
  "good_victim cfg ta I i \<longleftrightarrow> i \<in> I \<and>
     (if \<exists>k \<in> I. \<not> live (m_lines ta ! k) then \<not> live (m_lines ta ! i)
      else replaceable (m_lines ta ! i)
        \<and> (\<forall>k \<in> I. replaceable (m_lines ta ! k) \<longrightarrow>
             replacement_time cfg (m_lines ta ! i) \<le> replacement_time cfg (m_lines ta ! k)))"

definition probe_result :: "cache_config \<Rightarrow> tag_array \<Rightarrow> u64 \<Rightarrow> nat \<Rightarrow> nat \<Rightarrow> cache_request_status \<times> nat \<Rightarrow> bool" where
  "probe_result cfg ta addr s idx = (\<lambda>(status, i).
     case status of
       HIT \<Rightarrow> holds_block cfg ta (tag_of cfg addr) i \<and> m_status (m_lines ta ! i) \<noteq> RESERVED
     | HIT_RESERVED \<Rightarrow> holds_block cfg ta (tag_of cfg addr) i \<and> m_status (m_lines ta ! i) = RESERVED
     | MISS \<Rightarrow> (\<forall>k \<in> set (ways_of cfg s). \<not> holds_block cfg ta (tag_of cfg addr) k)
         \<and> good_victim cfg ta (set (ways_of cfg s)) i \<and> m_status (m_lines ta ! i) \<noteq> RESERVED
     | RESERVATION_FAIL \<Rightarrow> (\<forall>k \<in> set (ways_of cfg s). \<not> holds_block cfg ta (tag_of cfg addr) k)
         \<and> (\<forall>k \<in> set (ways_of cfg s). m_status (m_lines ta ! k) = RESERVED)
         \<and> m_alloc_policy cfg = ON_MISS \<and> i = idx)"

lemma ta_probe_partial:
  assumes "s < unat (m_nset cfg)" and "set_index cfg addr = Some s"
    and "get_num_lines cfg \<le> length (m_lines ta)" and "ta_probe cfg ta addr idx = Some r"
  shows "probe_result cfg ta addr s idx r"
proof -
  let ?I = "set (ways_of cfg s)"
  have less: "i < get_num_lines cfg" if "i \<in> ?I" for i using ways_of_less [OF assms(1) that] .
  with assms(3) have range: "\<forall>i \<in> ?I. i < length (m_lines ta)" by fastforce
  obtain found where f: "probe_ways cfg (m_lines ta) (tag_of cfg addr) (ways_of cfg s) probe_start = Some found"
    "probe_post cfg (m_lines ta) (tag_of cfg addr) (ways_of cfg s) probe_start found"
    using probe_ways_spec [OF range] by (force simp: ok_def)
  show ?thesis
  proof (cases found)
    case (Inl hit)
    with f assms(2,4) less show ?thesis
      by (cases hit) (auto simp: ta_probe_def ways_of_def [symmetric] probe_post_def probe_result_def holds_block_def)
  next
    case (Inr st)
    have st: "noted cfg (m_lines ta) ?I st"
      using noted_fold [OF noted_start, of cfg "m_lines ta" "ways_of cfg s"] f(2) Inr
      by (simp add: probe_post_def)
    have none: "\<forall>k \<in> ?I. \<not> holds_block cfg ta (tag_of cfg addr) k"
      using f(2) Inr by (auto simp: probe_post_def holds_block_def)
    have eq: "ta_probe cfg ta addr idx =
        (if all_reserved st then assert_c (m_alloc_policy cfg = ON_MISS) \<bind> (\<lambda>_. Some (RESERVATION_FAIL, idx))
         else case invalid_line st of Some i \<Rightarrow> Some (MISS, i)
              | None \<Rightarrow> (case valid_line st of Some i \<Rightarrow> Some (MISS, i) | None \<Rightarrow> None))"
      using f(1) Inr assms(2) by (simp add: ta_probe_def flip: ways_of_def)
    show ?thesis
    proof (cases "all_reserved st")
      case True
      then have "m_alloc_policy cfg = ON_MISS" "r = (RESERVATION_FAIL, idx)"
        using eq assms(4) by (auto simp: assert_c_def split: if_splits)
      moreover have "\<forall>k \<in> ?I. m_status (m_lines ta ! k) = RESERVED" using st True by (simp add: noted_def)
      ultimately show ?thesis using none by (simp add: probe_result_def)
    next
      case False
      show ?thesis
      proof (cases "invalid_line st")
        case (Some i)
        with eq False assms(4) have "r = (MISS, i)" by simp
        moreover have "i \<in> ?I" "\<not> live (m_lines ta ! i)" using st Some by (auto simp: noted_def)
        ultimately show ?thesis
          using none by (auto simp: probe_result_def good_victim_def live_def)
      next
        case None
        with eq False assms(4) obtain i where i: "valid_line st = Some i" "r = (MISS, i)"
          by (auto split: option.splits)
        have "\<forall>k \<in> ?I. live (m_lines ta ! k)" using st None by (simp add: noted_def)
        moreover have "i \<in> ?I" "replaceable (m_lines ta ! i)"
          "\<forall>k \<in> ?I. replaceable (m_lines ta ! k) \<longrightarrow>
            replacement_time cfg (m_lines ta ! i) \<le> replacement_time cfg (m_lines ta ! k)"
          using st i(1) by (auto simp: noted_def)
        ultimately show ?thesis
          using none i(2) by (auto simp: probe_result_def good_victim_def replaceable_def)
      qed
    qed
  qed
qed

lemma ta_probe_total:
  assumes "cfg_ok cfg" and "get_num_lines cfg \<le> length (m_lines ta)" and "times_ok cfg ta"
    and "m_alloc_policy cfg = ON_MISS"
  shows "\<exists>r. ta_probe cfg ta addr idx = Some r"
proof -
  obtain s where s: "set_index cfg addr = Some s" "s < unat (m_nset cfg)"
    using set_index_ok [OF assms(1)] by (auto simp: ok_def)
  let ?I = "set (ways_of cfg s)"
  have less: "i < get_num_lines cfg" if "i \<in> ?I" for i using ways_of_less [OF s(2) that] .
  with assms(2) have range: "\<forall>i \<in> ?I. i < length (m_lines ta)" by fastforce
  obtain found where f: "probe_ways cfg (m_lines ta) (tag_of cfg addr) (ways_of cfg s) probe_start = Some found"
    "probe_post cfg (m_lines ta) (tag_of cfg addr) (ways_of cfg s) probe_start found"
    using probe_ways_spec [OF range] by (force simp: ok_def)
  show ?thesis
  proof (cases found)
    case (Inl hit)
    with f s show ?thesis by (simp add: ta_probe_def flip: ways_of_def)
  next
    case (Inr st)
    have st: "noted cfg (m_lines ta) ?I st"
      using noted_fold [OF noted_start, of cfg "m_lines ta" "ways_of cfg s"] f(2) Inr
      by (simp add: probe_post_def)
    show ?thesis
    proof (cases "all_reserved st \<or> invalid_line st \<noteq> None \<or> valid_line st \<noteq> None")
      case True
      with f s Inr assms(4) show ?thesis
        by (auto simp: ta_probe_def split: option.splits simp flip: ways_of_def)
    next
      case False
      then obtain i where i: "i \<in> ?I" "m_status (m_lines ta ! i) \<noteq> RESERVED" "live (m_lines ta ! i)"
        using st by (auto simp: noted_def)
      then have "replaceable (m_lines ta ! i)"
        unfolding replaceable_def live_def by (cases "m_status (m_lines ta ! i)") auto
      with i st False have "- 1 \<le> replacement_time cfg (m_lines ta ! i)" by (auto simp: noted_def)
      then have "replacement_time cfg (m_lines ta ! i) = - 1" by (metis word_order.extremum_uniqueI)
      with assms(3) less [OF i(1)] show ?thesis by (simp add: times_ok_def)
    qed
  qed
qed

lemma block_addr_tag: "block_addr cfg addr = tag_of cfg addr"
  by (simp add: block_addr_def tag_of_def)

lemma tag_of_idem [simp]: "tag_of cfg (tag_of cfg addr) = tag_of cfg addr"
  by (simp add: tag_of_def and.assoc)

lemma ta_inv_update:
  assumes "ta_inv cfg ta" and "i < get_num_lines cfg"
    and "live b \<Longrightarrow> tag_of cfg (m_tag b) = m_tag b \<and> set_index cfg (m_tag b) = Some (i div m_assoc cfg)"
    and "\<And>k. live b \<Longrightarrow> k \<noteq> i \<Longrightarrow> \<not> holds_block cfg ta (m_tag b) k"
    and "m_lines ta' = (m_lines ta)[i := b]"
  shows "ta_inv cfg ta'"
proof -
  have i: "i < length (m_lines ta)" using assms(1,2) by (simp add: ta_inv_def)
  show ?thesis
    unfolding ta_inv_def
  proof (intro conjI allI impI)
    show "get_num_lines cfg \<le> length (m_lines ta')" using assms(1,5) by (simp add: ta_inv_def)
  next
    fix k assume "k < get_num_lines cfg" "live (m_lines ta' ! k)"
    then show "tag_of cfg (m_tag (m_lines ta' ! k)) = m_tag (m_lines ta' ! k)"
      using assms(1,3,5) i by (cases "k = i") (auto simp: ta_inv_def)
  next
    fix k assume "k < get_num_lines cfg" "live (m_lines ta' ! k)"
    then show "set_index cfg (m_tag (m_lines ta' ! k)) = Some (k div m_assoc cfg)"
      using assms(1,3,5) i by (cases "k = i") (auto simp: ta_inv_def)
  next
    fix k j
    assume "k < get_num_lines cfg" "j < get_num_lines cfg" "live (m_lines ta' ! k)" "live (m_lines ta' ! j)"
      "m_tag (m_lines ta' ! k) = m_tag (m_lines ta' ! j)"
    then show "k = j"
      using assms(1,4,5) i by (cases "k = i"; cases "j = i") (auto simp: ta_inv_def holds_block_def)
  qed
qed

lemma ta_inv_keep:
  assumes "ta_inv cfg ta" and "i < get_num_lines cfg" and "m_tag b = m_tag (m_lines ta ! i)"
    and "live b \<Longrightarrow> live (m_lines ta ! i)" and "m_lines ta' = (m_lines ta)[i := b]"
  shows "ta_inv cfg ta'"
  using assms(1,2) _ _ assms(5)
proof (rule ta_inv_update)
  assume "live b"
  then show "tag_of cfg (m_tag b) = m_tag b \<and> set_index cfg (m_tag b) = Some (i div m_assoc cfg)"
    using assms by (auto simp: ta_inv_def)
next
  fix k assume "live b" "k \<noteq> i"
  then show "\<not> holds_block cfg ta (m_tag b) k"
    using assms by (auto simp: ta_inv_def holds_block_def)
qed

lemma ta_inv_lines: "ta_inv cfg ta \<Longrightarrow> m_lines ta' = m_lines ta \<Longrightarrow> ta_inv cfg ta'"
  by (simp add: ta_inv_def)

lemma ta_inv_allocate:
  assumes "ta_inv cfg ta" and "set_index cfg addr = Some s" and "s < unat (m_nset cfg)"
    and "tag_of cfg addr = addr" and "i \<in> set (ways_of cfg s)"
    and "\<forall>k \<in> set (ways_of cfg s). \<not> holds_block cfg ta addr k"
    and "m_tag b = addr" and "m_lines ta' = (m_lines ta)[i := b]"
  shows "ta_inv cfg ta'"
  using assms(1) _ _ _ assms(8)
proof (rule ta_inv_update)
  show "i < get_num_lines cfg" using assms(3,5) by (rule ways_of_less)
  show "tag_of cfg (m_tag b) = m_tag b \<and> set_index cfg (m_tag b) = Some (i div m_assoc cfg)"
    using assms by (simp add: ways_of_div)
  have assoc: "0 < m_assoc cfg" using assms(5) by (cases "m_assoc cfg") (auto simp: set_ways_of)
  fix k
  show "\<not> holds_block cfg ta (m_tag b) k"
  proof
    assume h: "holds_block cfg ta (m_tag b) k"
    then have "set_index cfg addr = Some (k div m_assoc cfg)"
      using assms(1,7) by (auto simp: ta_inv_def holds_block_def)
    with assms(2) div_ways_of [OF assoc, of k] have "k \<in> set (ways_of cfg s)" by simp
    with h assms(6,7) show False by blast
  qed
qed

lemma upd_line_eq_Some:
  "upd_line i g ta = Some ta' \<longleftrightarrow>
    i < length (m_lines ta) \<and> ta' = ta\<lparr>m_lines := (m_lines ta)[i := g (m_lines ta ! i)]\<rparr>"
  by (auto simp: upd_line_def bind_eq_Some_conv at_get_eq_Some)

lemma ta_access_inv:
  assumes "cfg_ok cfg" and "ta_inv cfg ta" and "tag_of cfg addr = addr"
    and "ta_access_wb cfg addr time idx ta = Some (status, i, wb, ta')"
  shows "ta_inv cfg ta'"
proof -
  obtain s where s: "set_index cfg addr = Some s" "s < unat (m_nset cfg)"
    using set_index_ok [OF assms(1)] by (auto simp: ok_def)
  have len: "get_num_lines cfg \<le> length (m_lines (ta\<lparr>m_access := m_access ta + 1\<rparr>))"
    using assms(2) by (simp add: ta_inv_def)
  obtain st k where p: "ta_probe cfg (ta\<lparr>m_access := m_access ta + 1\<rparr>) addr idx = Some (st, k)"
    using assms(4) unfolding ta_access_wb_def Let_def bind_eq_Some_conv by auto
  note r = ta_probe_partial [OF s(2,1) len p]
  show ?thesis
  proof (cases st)
    case HIT
    then have "k < get_num_lines cfg" using r by (simp add: probe_result_def holds_block_def)
    then show ?thesis
      by (rule ta_inv_keep [OF assms(2), where b = "(m_lines ta ! k)\<lparr>m_last_access_time := time\<rparr>"])
        (use assms(4) p HIT in \<open>auto simp: ta_access_wb_def Let_def bind_eq_Some_conv upd_line_eq_Some live_def\<close>)
  next
    case HIT_RESERVED
    then have "k < get_num_lines cfg" using r by (simp add: probe_result_def holds_block_def)
    then show ?thesis
      by (rule ta_inv_keep [OF assms(2), where b = "(m_lines ta ! k)\<lparr>m_last_access_time := time\<rparr>"])
        (use assms(4) p HIT_RESERVED in \<open>auto simp: ta_access_wb_def Let_def bind_eq_Some_conv upd_line_eq_Some live_def\<close>)
  next
    case MISS
    then have k: "k \<in> set (ways_of cfg s)" "\<forall>j \<in> set (ways_of cfg s). \<not> holds_block cfg ta addr j"
      using r assms(3) by (auto simp: probe_result_def good_victim_def holds_block_def)
    show ?thesis
    proof (cases "m_alloc_policy cfg = ON_MISS")
      case True
      show ?thesis
        by (rule ta_inv_allocate [OF assms(2) s assms(3) k,
            where b = "block_allocate (tag_of cfg addr) (block_addr cfg addr) time (m_lines ta ! k)"])
          (use assms(3,4) p MISS True in \<open>auto simp: ta_access_wb_def Let_def bind_eq_Some_conv upd_line_eq_Some
            block_allocate_def\<close>)
    next
      case False
      with assms(4) p MISS show ?thesis
        by (intro ta_inv_lines [OF assms(2)]) (auto simp: ta_access_wb_def Let_def)
    qed
  next
    case RESERVATION_FAIL
    with assms(4) p show ?thesis
      by (intro ta_inv_lines [OF assms(2)]) (auto simp: ta_access_wb_def Let_def)
  qed
qed

lemma ta_fill_index_inv:
  assumes "ta_inv cfg ta" and "i < get_num_lines cfg" and "ta_fill_index cfg i time ta = Some ta'"
  shows "ta_inv cfg ta'"
  by (rule ta_inv_keep [OF assms(1,2), where b = "(m_lines ta ! i)\<lparr>m_status := VALID, m_fill_time := time\<rparr>"])
    (use assms(3) in \<open>auto simp: ta_fill_index_def block_fill_def bind_eq_Some_conv at_get_eq_Some
      upd_line_eq_Some live_def\<close>)

lemma ta_fill_addr_inv:
  assumes "cfg_ok cfg" and "ta_inv cfg ta" and "tag_of cfg addr = addr"
    and "ta_fill_addr cfg addr time ta = Some ta'"
  shows "ta_inv cfg ta'"
proof -
  obtain s where s: "set_index cfg addr = Some s" "s < unat (m_nset cfg)"
    using set_index_ok [OF assms(1)] by (auto simp: ok_def)
  have len: "get_num_lines cfg \<le> length (m_lines ta)" using assms(2) by (simp add: ta_inv_def)
  obtain k where p: "ta_probe cfg ta addr 0 = Some (MISS, k)"
    using assms(4) by (auto simp: ta_fill_addr_def bind_eq_Some_conv)
  from ta_probe_partial [OF s(2,1) len p] have k: "k \<in> set (ways_of cfg s)"
    "\<forall>j \<in> set (ways_of cfg s). \<not> holds_block cfg ta addr j"
    using assms(3) by (auto simp: probe_result_def good_victim_def)
  show ?thesis
    by (rule ta_inv_allocate [OF assms(2) s assms(3) k,
        where b = "(block_allocate (tag_of cfg addr) (block_addr cfg addr) time (m_lines ta ! k))
          \<lparr>m_status := VALID, m_fill_time := time\<rparr>"])
      (use assms(3,4) p in \<open>auto simp: ta_fill_addr_def block_fill_def bind_eq_Some_conv at_get_eq_Some
        upd_line_eq_Some block_allocate_def\<close>)
qed

lemma ta_flush_spec:
  assumes "get_num_lines cfg \<le> length (m_lines ta)"
  shows "\<exists>ta'. ta_flush cfg ta = Some ta' \<and> length (m_lines ta') = length (m_lines ta)
    \<and> (\<forall>i < get_num_lines cfg. \<not> live (m_lines ta' ! i))"
proof -
  have "\<exists>ta'. ta_flush cfg ta = Some ta' \<and> (length (m_lines ta') = length (m_lines ta)
    \<and> (\<forall>i < get_num_lines cfg. \<not> live (m_lines ta' ! i)))"
    unfolding ta_flush_def
    by (rule foldM_upt_invariant [where I = "\<lambda>k t. length (m_lines t) = length (m_lines ta)
        \<and> (\<forall>i < k. \<not> live (m_lines t ! i))"])
      (use assms in \<open>auto simp: upd_line_def nth_list_update live_def less_Suc_eq\<close>)
  then show ?thesis by blast
qed

section \<open>The logarithm\<close>

lemma and_high_mask:
  assumes "unat (w :: u32) < 2 ^ (2 * j)" and "\<And>i. bit m i \<longleftrightarrow> j \<le> i \<and> i < 2 * j" and "j < 32"
  shows "w AND m \<noteq> 0 \<longleftrightarrow> 2 ^ j \<le> unat w"
proof
  assume "w AND m \<noteq> 0"
  then obtain i where "bit w i" "bit m i" by (auto simp: bit_eq_iff bit_and_iff)
  then have "2 ^ j \<le> (2 :: nat) ^ i" "2 ^ i \<le> unat w"
    using assms(2) bit_le_unat by (auto intro: power_increasing)
  then show "2 ^ j \<le> unat w" by (rule order.trans)
next
  assume "2 ^ j \<le> unat w"
  show "w AND m \<noteq> 0"
  proof
    assume z: "w AND m = 0"
    have small: "i < j" if "bit w i" for i
    proof (rule ccontr)
      assume "\<not> i < j"
      have "\<not> bit (w AND m) i" by (simp add: z)
      with that \<open>\<not> i < j\<close> assms(2) have "\<not> i < 2 * j" by (simp add: bit_and_iff)
      with bit_index_less [OF that assms(1)] show False by simp
    qed
    have "unat w < 2 ^ j" by (rule u32_less_of_bits [OF small assms(3)])
    with \<open>2 ^ j \<le> unat w\<close> show False by simp
  qed
qed

definition logb2_inv :: "u32 \<Rightarrow> nat \<Rightarrow> u32 \<times> u32 \<Rightarrow> bool" where
  "logb2_inv v0 j = (\<lambda>(v, r). unat v = unat v0 div 2 ^ unat r \<and> unat v < 2 ^ j \<and> j dvd unat r
     \<and> unat r + j \<le> 32 \<and> v \<noteq> 0)"

lemma logb2_step_inv:
  assumes "logb2_inv v0 (2 * 2 ^ k) (v, r)" and "\<And>i. bit m i \<longleftrightarrow> 2 ^ k \<le> i \<and> i < 2 * 2 ^ k" and "k < 5"
  shows "logb2_inv v0 (2 ^ k) (logb2_step m k (v, r))"
proof -
  let ?j = "2 ^ k :: nat"
  have inv: "unat v = unat v0 div 2 ^ unat r" "unat v < 2 ^ (2 * ?j)" "2 * ?j dvd unat r"
    "unat r + 2 * ?j \<le> 32" "v \<noteq> 0"
    using assms(1) by (auto simp: logb2_inv_def)
  have j32: "?j < 32" using assms(3) power_strict_increasing [of k 5 "2 :: nat"] by simp
  have dvd: "?j dvd unat r" using inv(3) by (rule dvd_mult_right)
  have cond: "v AND m \<noteq> 0 \<longleftrightarrow> 2 ^ ?j \<le> unat v" by (rule and_high_mask [OF inv(2) assms(2) j32])
  show ?thesis
  proof (cases "2 ^ ?j \<le> unat v")
    case False
    then have "logb2_step m k (v, r) = (v, r)" using cond by (simp add: logb2_step_def)
    with False inv dvd show ?thesis by (simp add: logb2_inv_def)
  next
    case True
    have sh: "unat (push_bit k 1 :: u32) = ?j"
    proof -
      have "push_bit k 1 = (of_nat ?j :: u32)" by (simp add: push_bit_eq_mult)
      moreover have "?j < 2 ^ 32" using j32 by simp
      ultimately show ?thesis by (simp only: u32_unat_of_nat)
    qed
    obtain q where q: "unat r = 2 * ?j * q" using inv(3) by (elim dvdE)
    have "\<not> bit r k"
    proof
      assume "bit r k"
      then have "bit (unat r) k" by (simp add: bit_unsigned_iff)
      then have "odd (unat r div 2 ^ k)" by (simp add: bit_iff_odd)
      with q show False by (simp add: mult.assoc)
    qed
    then have "r OR push_bit k 1 = r + push_bit k 1"
      by (intro disjunctive_add [symmetric]) (auto simp: bit_simps)
    then have r': "unat (r OR push_bit k 1) = unat r + ?j"
      using inv(4) sh by (simp add: unat_word_ariths)
    have step: "logb2_step m k (v, r) = (drop_bit ?j v, r OR push_bit k 1)"
      using True cond sh by (simp add: logb2_step_def)
    have v': "unat (drop_bit ?j v) = unat v div 2 ^ ?j" by (simp only: unat_drop_bit_eq) (simp add: drop_bit_eq_div)
    have "unat v div 2 ^ ?j < 2 ^ ?j"
      using inv(2) by (simp add: less_mult_imp_div_less mult_2 power_add)
    moreover have "unat v div 2 ^ ?j \<noteq> 0" using True by (simp add: div_eq_0_iff)
    moreover from this have "drop_bit ?j v \<noteq> 0" using v' by (metis unat_0)
    ultimately show ?thesis
      using inv dvd v' r' by (simp add: step logb2_inv_def div_mult2_eq power_add)
  qed
qed

lemma logb2_masks:
  "bit (0xFFFF0000 :: u32) i \<longleftrightarrow> 2 ^ 4 \<le> i \<and> i < 2 * 2 ^ 4"
  "bit (0xFF00 :: u32) i \<longleftrightarrow> 2 ^ 3 \<le> i \<and> i < 2 * 2 ^ 3"
  "bit (0xF0 :: u32) i \<longleftrightarrow> 2 ^ 2 \<le> i \<and> i < 2 * 2 ^ 2"
  "bit (0xC :: u32) i \<longleftrightarrow> 2 ^ 1 \<le> i \<and> i < 2 * 2 ^ 1"
  "bit (0x2 :: u32) i \<longleftrightarrow> 2 ^ 0 \<le> i \<and> i < 2 * 2 ^ 0"
proof -
  have m: "push_bit j (mask j) = (of_nat ((2 ^ j - 1) * 2 ^ j) :: u32)" for j
    by (simp add: push_bit_eq_mult mask_eq_exp_minus_1)
  have "bit (push_bit j (mask j) :: u32) i \<longleftrightarrow> j \<le> i \<and> i < 2 * j" if "2 * j \<le> 32" for j
    using that by (auto simp: bit_simps)
  from this [of 16] this [of 8] this [of 4] this [of 2] this [of 1]
  show "bit (0xFFFF0000 :: u32) i \<longleftrightarrow> 2 ^ 4 \<le> i \<and> i < 2 * 2 ^ 4"
    "bit (0xFF00 :: u32) i \<longleftrightarrow> 2 ^ 3 \<le> i \<and> i < 2 * 2 ^ 3"
    "bit (0xF0 :: u32) i \<longleftrightarrow> 2 ^ 2 \<le> i \<and> i < 2 * 2 ^ 2"
    "bit (0xC :: u32) i \<longleftrightarrow> 2 ^ 1 \<le> i \<and> i < 2 * 2 ^ 1"
    "bit (0x2 :: u32) i \<longleftrightarrow> 2 ^ 0 \<le> i \<and> i < 2 * 2 ^ 0"
    by (simp_all add: push_bit_eq_mult mask_eq_exp_minus_1)
qed

text \<open>\<open>LOGB2\<close> of a positive number is the floor of its binary logarithm, which the cache, the
  address decoder and the statistics use for the position of the bits of a field.\<close>

theorem LOGB2_floor:
  assumes "v \<noteq> 0"
  shows "2 ^ unat (LOGB2 v) \<le> unat v \<and> unat v < 2 ^ Suc (unat (LOGB2 v))"
proof -
  have step: "logb2_inv v (2 * 2 ^ k) p \<Longrightarrow> (\<And>i. bit m i \<longleftrightarrow> 2 ^ k \<le> i \<and> i < 2 * 2 ^ k) \<Longrightarrow> k < 5
      \<Longrightarrow> logb2_inv v (2 ^ k) (logb2_step m k p)" for k p m
    by (cases p) (simp add: logb2_step_inv)
  have "logb2_inv v (2 * 2 ^ 4) (v, 0)" using assms by (simp add: logb2_inv_def)
  then have "logb2_inv v (2 * 2 ^ 3) (logb2_step 0xFFFF0000 4 (v, 0))"
    using step [OF _ logb2_masks(1)] by simp
  then have "logb2_inv v (2 * 2 ^ 2) (logb2_step 0xFF00 3 (logb2_step 0xFFFF0000 4 (v, 0)))"
    using step [OF _ logb2_masks(2)] by simp
  then have "logb2_inv v (2 * 2 ^ 1) (logb2_step 0xF0 2 (logb2_step 0xFF00 3 (logb2_step 0xFFFF0000 4 (v, 0))))"
    using step [OF _ logb2_masks(3)] by simp
  then have "logb2_inv v (2 * 2 ^ 0) (logb2_step 0xC 1 (logb2_step 0xF0 2 (logb2_step 0xFF00 3
      (logb2_step 0xFFFF0000 4 (v, 0)))))"
    using step [OF _ logb2_masks(4)] by simp
  from step [OF this logb2_masks(5)] obtain w r where
    "logb2_step 0x2 0 (logb2_step 0xC 1 (logb2_step 0xF0 2 (logb2_step 0xFF00 3
      (logb2_step 0xFFFF0000 4 (v, 0))))) = (w, r)" "logb2_inv v 1 (w, r)"
    by (metis power_0 surj_pair zero_less_numeral)
  then have "LOGB2 v = r" "unat v div 2 ^ unat r = unat w" "unat w < 2" "w \<noteq> 0"
    by (simp_all add: LOGB2_def logb2_inv_def)
  then have "unat v div 2 ^ unat r = 1" by (metis One_nat_def less_2_cases unat_eq_0)
  with \<open>LOGB2 v = r\<close> show ?thesis
    by (metis One_nat_def div_less_iff_less_mult dividend_less_times_div div_greater_zero_iff
        lessI less_numeral_extra(1) mult.commute mult_2 numeral_2_eq_2 power_Suc zero_less_numeral zero_less_power)
qed

theorem LOGB2_floor_witness:
  "2 ^ unat (LOGB2 200) \<le> unat (200 :: u32) \<and> unat (200 :: u32) < 2 ^ Suc (unat (LOGB2 200))"
  by (rule LOGB2_floor) simp

section \<open>Properties of the tag array\<close>

lemma ta_probe_held:
  assumes "set_index cfg addr = Some s" and "s < unat (m_nset cfg)" and "ta_inv cfg ta"
    and "holds_block cfg ta (tag_of cfg addr) i" and "i \<in> set (ways_of cfg s)"
  shows "ta_probe cfg ta addr idx =
    Some (if m_status (m_lines ta ! i) = RESERVED then HIT_RESERVED else HIT, i)"
proof -
  have less: "k < get_num_lines cfg" if "k \<in> set (ways_of cfg s)" for k
    using ways_of_less [OF assms(2) that] .
  with assms(3) have range: "\<forall>k \<in> set (ways_of cfg s). k < length (m_lines ta)"
    by (fastforce simp: ta_inv_def)
  obtain found where f: "probe_ways cfg (m_lines ta) (tag_of cfg addr) (ways_of cfg s) probe_start = Some found"
    "probe_post cfg (m_lines ta) (tag_of cfg addr) (ways_of cfg s) probe_start found"
    using probe_ways_spec [OF range] by (force simp: ok_def)
  obtain st k where "found = Inl (st, k)" "k \<in> set (ways_of cfg s)" "m_tag (m_lines ta ! k) = tag_of cfg addr"
    "live (m_lines ta ! k)" "st = (if m_status (m_lines ta ! k) = RESERVED then HIT_RESERVED else HIT)"
    using f(2) assms(4,5) by (cases found) (auto simp: probe_post_def holds_block_def)
  moreover from this have "k = i"
    using assms(3,4) less by (auto simp: ta_inv_def holds_block_def)
  ultimately show ?thesis using f(1) assms(1) by (simp add: ta_probe_def flip: ways_of_def)
qed

lemma new_tag_array_inv: "ta_inv cfg (new_tag_array cfg)"
  by (auto simp: ta_inv_def new_tag_array_def live_def empty_block_def)

lemma new_tag_array_times: "times_ok cfg (new_tag_array cfg)"
  by (auto simp: times_ok_def new_tag_array_def empty_block_def replacement_time_def
      split: replacement_policy.splits)

definition sample_cfg :: cache_config where
  "sample_cfg = \<lparr>m_nset = 2, m_line_sz = 128, m_line_sz_log2 = 7, m_nset_log2 = 1, m_assoc = 2,
     m_replacement_policy = LRU, m_write_policy = WRITE_BACK, m_alloc_policy = ON_MISS,
     m_write_alloc_policy = WRITE_ALLOCATE, m_mshr_type = ASSOC, m_mshr_entries = 4, m_mshr_max_merge = 2,
     m_miss_queue_size = 4, m_result_fifo_entries = 0, m_data_port_width = 128,
     m_set_index_function = LINEAR_SET_FUNCTION, m_class = L1d_config\<rparr>"

lemma sample_cfg_ok: "cfg_ok sample_cfg"
  by (simp add: cfg_ok_def sample_cfg_def)

lemma sample_tag: "tag_of sample_cfg 0x1000 = 0x1000"
  by (simp add: sample_cfg_def tag_of_def)

lemma sample_lines: "get_num_lines sample_cfg = 4"
  by (simp add: sample_cfg_def get_num_lines_def)

text \<open>Every accepted configuration maps every address to a set of the cache: the linear index for
  any number of sets, the Fermi hash for 32 and 64 sets.\<close>

theorem set_index_in_bounds:
  assumes "cfg_ok cfg"
  shows "\<exists>s. set_index cfg addr = Some s \<and> s < unat (m_nset cfg)"
  using set_index_ok [OF assms, of addr] by (simp add: ok_def)

theorem set_index_in_bounds_witness:
  "\<exists>s. set_index sample_cfg 0xDEADBEEF = Some s \<and> s < unat (m_nset sample_cfg)"
  by (rule set_index_in_bounds [OF sample_cfg_ok])

text \<open>The tag and the block address forget the upper half of an address, since their mask is a 32
  bit number: blocks \<open>2 ^ 32\<close> bytes apart have the same tag and the cache takes one for the other.\<close>

theorem block_addr_drops_upper_half:
  "block_addr cfg (addr + push_bit 32 k) = block_addr cfg addr
   \<and> tag_of cfg (addr + push_bit 32 k) = tag_of cfg addr"
proof -
  have t: "take_bit 32 (addr + push_bit 32 k) = take_bit 32 addr"
  proof -
    have "unat (addr + push_bit 32 k) mod 2 ^ 32 = unat addr mod 2 ^ 32"
      by (simp add: push_bit_eq_mult unat_word_ariths mod_mod_cancel mod_simps)
    then have "unat (take_bit 32 (addr + push_bit 32 k)) = unat (take_bit 32 addr)"
      by (simp only: unsigned_take_bit_eq) (simp add: take_bit_eq_mod)
    then show ?thesis by (simp only: word_unat_eq_iff)
  qed
  have "x AND ucast (m :: u32) = take_bit 32 x AND ucast m" for x :: u64 and m
    by (rule bit_eqI) (auto simp: bit_simps dest: bit_imp_le_length)
  then show ?thesis unfolding block_addr_def tag_of_def using t by metis
qed

text \<open>C30. \<open>probe\<close> decides exactly: on an array that keeps the invariant it returns, a hit means a line
  with the block, valid or modified, a pending hit a reserved line with the block, a miss that no line of
  the set has it and a victim that is free if a line of the set is free and otherwise one of least time
  stamp (last access for LRU, allocation for FIFO) and never a reserved line, and a reservation
  failure that every line of the set is reserved.\<close>

theorem probe_decides:
  assumes "cfg_ok cfg" and "ta_inv cfg ta" and "times_ok cfg ta" and "m_alloc_policy cfg = ON_MISS"
  shows "\<exists>s status i. set_index cfg addr = Some s \<and> ta_probe cfg ta addr idx = Some (status, i)
    \<and> probe_result cfg ta addr s idx (status, i)"
proof -
  obtain s where s: "set_index cfg addr = Some s" "s < unat (m_nset cfg)"
    using set_index_ok [OF assms(1)] by (auto simp: ok_def)
  have len: "get_num_lines cfg \<le> length (m_lines ta)" using assms(2) by (simp add: ta_inv_def)
  obtain status i where "ta_probe cfg ta addr idx = Some (status, i)"
    using ta_probe_total [OF assms(1) len assms(3,4), of addr idx] by auto
  with ta_probe_partial [OF s(2,1) len this] s(1) show ?thesis by blast
qed

theorem probe_decides_witness:
  "\<exists>s status i. set_index sample_cfg 0x1000 = Some s
    \<and> ta_probe sample_cfg (new_tag_array sample_cfg) 0x1000 0 = Some (status, i)
    \<and> probe_result sample_cfg (new_tag_array sample_cfg) 0x1000 s 0 (status, i)"
  by (rule probe_decides [OF sample_cfg_ok new_tag_array_inv new_tag_array_times])
    (simp add: sample_cfg_def)

text \<open>C34. Every operation on block addresses keeps the invariant that the live lines hold block
  addresses in their own sets and no block twice; the flush ends with no line live.\<close>

theorem tag_array_invariant:
  assumes "cfg_ok cfg" and "ta_inv cfg ta" and "tag_of cfg addr = addr" and "i < get_num_lines cfg"
  shows "(\<forall>r. ta_access_wb cfg addr time idx ta = Some r \<longrightarrow> ta_inv cfg (snd (snd (snd r))))
    \<and> (\<forall>ta'. ta_fill_index cfg i time ta = Some ta' \<longrightarrow> ta_inv cfg ta')
    \<and> (\<forall>ta'. ta_fill_addr cfg addr time ta = Some ta' \<longrightarrow> ta_inv cfg ta')
    \<and> (\<exists>ta'. ta_flush cfg ta = Some ta' \<and> ta_inv cfg ta' \<and> (\<forall>k < get_num_lines cfg. \<not> live (m_lines ta' ! k)))
    \<and> ta_inv cfg (new_tag_array cfg)"
proof (intro conjI allI impI)
  fix r assume "ta_access_wb cfg addr time idx ta = Some r"
  then show "ta_inv cfg (snd (snd (snd r)))"
    by (cases r) (auto intro: ta_access_inv [OF assms(1-3)])
next
  have len: "get_num_lines cfg \<le> length (m_lines ta)" using assms(2) by (simp add: ta_inv_def)
  then show "\<exists>ta'. ta_flush cfg ta = Some ta' \<and> ta_inv cfg ta' \<and>
      (\<forall>k < get_num_lines cfg. \<not> live (m_lines ta' ! k))"
    using ta_flush_spec [OF len] by (auto simp: ta_inv_def)
qed (use assms in \<open>auto intro: ta_fill_index_inv ta_fill_addr_inv new_tag_array_inv\<close>)

theorem tag_array_invariant_witness:
  "\<exists>ta'. ta_flush sample_cfg (new_tag_array sample_cfg) = Some ta' \<and> ta_inv sample_cfg ta'"
proof -
  have "0 < get_num_lines sample_cfg" by (simp add: sample_lines)
  from tag_array_invariant [OF sample_cfg_ok new_tag_array_inv sample_tag this] show ?thesis by blast
qed

text \<open>The life of a block in a cache that allocates on a miss: after the access that misses, a probe
  finds the line reserved; the fill of that line succeeds, and from then on the block hits there. The
  access reports the old line exactly when it was modified and has to be written back.\<close>

theorem block_lifecycle:
  assumes "cfg_ok cfg" and "ta_inv cfg ta" and "tag_of cfg addr = addr" and "m_alloc_policy cfg = ON_MISS"
    and "ta_access_wb cfg addr time idx ta = Some (MISS, i, wb, ta')"
  shows "wb = (if m_status (m_lines ta ! i) = MODIFIED then Some (m_lines ta ! i) else None)
    \<and> ta_probe cfg ta' addr j = Some (HIT_RESERVED, i)
    \<and> (\<exists>ta''. ta_fill_index cfg i t ta' = Some ta'' \<and> ta_probe cfg ta'' addr j = Some (HIT, i))"
proof -
  obtain s where s: "set_index cfg addr = Some s" "s < unat (m_nset cfg)"
    using set_index_ok [OF assms(1)] by (auto simp: ok_def)
  let ?ta = "ta\<lparr>m_access := m_access ta + 1\<rparr>"
  have len: "get_num_lines cfg \<le> length (m_lines ?ta)" using assms(2) by (simp add: ta_inv_def)
  have acc: "ta_probe cfg ?ta addr idx = Some (MISS, i) \<and> i < length (m_lines ta)
      \<and> wb = (if m_status (m_lines ta ! i) = MODIFIED then Some (m_lines ta ! i) else None)
      \<and> m_lines ta' = (m_lines ta)[i := block_allocate addr addr time (m_lines ta ! i)]"
  proof -
    obtain st k where p: "ta_probe cfg ?ta addr idx = Some (st, k)"
      using assms(5) unfolding ta_access_wb_def Let_def bind_eq_Some_conv by auto
    with assms(5) have "st = MISS"
      by (cases st) (auto simp: ta_access_wb_def Let_def bind_eq_Some_conv)
    with p assms(3-5) show ?thesis
      by (auto simp: ta_access_wb_def Let_def bind_eq_Some_conv upd_line_eq_Some at_get_eq_Some block_addr_tag)
  qed
  then have i: "i \<in> set (ways_of cfg s)" "i < length (m_lines ta)"
    using ta_probe_partial [OF s(2,1) len, of idx "(MISS, i)"] by (auto simp: probe_result_def good_victim_def)
  have lt: "i < get_num_lines cfg" by (rule ways_of_less [OF s(2) i(1)])
  have inv': "ta_inv cfg ta'" by (rule ta_access_inv [OF assms(1-3,5)])
  have line: "m_lines ta' ! i = block_allocate addr addr time (m_lines ta ! i)" using acc i by simp
  then have held: "holds_block cfg ta' (tag_of cfg addr) i"
    using lt assms(3) by (simp add: holds_block_def live_def block_allocate_def)
  have p1: "ta_probe cfg ta' addr j = Some (HIT_RESERVED, i)"
    using ta_probe_held [OF s inv' held i(1)] line by (simp add: block_allocate_def)
  define ta'' where "ta'' = ta'\<lparr>m_lines := (m_lines ta')[i := (m_lines ta' ! i)\<lparr>m_status := VALID, m_fill_time := t\<rparr>]\<rparr>"
  have fill: "ta_fill_index cfg i t ta' = Some ta''"
    using assms(4) acc line
    by (simp add: ta_fill_index_def block_fill_def upd_line_def ta''_def block_allocate_def)
  have "holds_block cfg ta'' (tag_of cfg addr) i"
    using held acc i by (simp add: holds_block_def ta''_def live_def)
  then have "ta_probe cfg ta'' addr j = Some (HIT, i)"
    using ta_probe_held [OF s ta_fill_index_inv [OF inv' lt fill] _ i(1)] acc i by (simp add: ta''_def)
  with acc p1 fill show ?thesis by blast
qed

theorem block_lifecycle_witness:
  "ta_probe sample_cfg (new_tag_array sample_cfg
      \<lparr>m_lines := (m_lines (new_tag_array sample_cfg))
        [1 := block_allocate 0x1000 0x1000 5 empty_block], m_access := 1, m_miss := 1\<rparr>) 0x1000 0
    = Some (HIT_RESERVED, 1)"
proof -
  have idx: "set_index sample_cfg 0x1000 = Some 0"
    by (simp add: set_index_def sample_cfg_def l1d_set_index_def linear_index_def)
  let ?ta = "new_tag_array sample_cfg"
  have lines: "m_lines ?ta = replicate 16 empty_block"
    by (simp add: new_tag_array_def get_num_lines_def sample_cfg_def)
  have upt: "[0..<2] = [0, 1 :: nat]" by (simp add: upt_rec)
  have fields: "m_assoc sample_cfg = 2" "m_alloc_policy sample_cfg = ON_MISS"
    "tag_of sample_cfg 0x1000 = 0x1000"
    by (simp_all add: sample_cfg_def tag_of_def)
  have "ta_probe sample_cfg (?ta\<lparr>m_access := m_access ?ta + 1\<rparr>) 0x1000 0 = Some (MISS, 1)"
    by (simp add: ta_probe_def idx lines fields upt probe_note_def probe_start_def empty_block_def)
  then have "ta_access_wb sample_cfg 0x1000 5 0 ?ta = Some (MISS, 1, None, ?ta
      \<lparr>m_lines := (m_lines ?ta)[1 := block_allocate 0x1000 0x1000 5 empty_block], m_access := 1, m_miss := 1\<rparr>)"
    by (simp add: ta_access_wb_def Let_def fields lines upd_line_def block_addr_tag)
      (simp add: new_tag_array_def empty_block_def)
  from block_lifecycle [OF sample_cfg_ok new_tag_array_inv fields(3,2) this, of 0] show ?thesis by blast
qed

end
