(* ===== verification/Mshr.thy ===== *)
theory Mshr
  imports Prelude "HOL-Library.AList" "HOL-Library.Multiset"
begin

text \<open>
  The miss status holding registers \<open>mshr_table\<close> of \<open>gpgpu-sim/gpu-cache.cc\<close>: a finite table from
  block addresses to the requests that wait for the block, and the list of blocks whose fill has
  come back. The hash map is an association list (nothing depends on its order); a \<open>mem_fetch *\<close> is a
  natural number, and whether it is atomic is passed along. A failing assertion is \<open>None\<close>.
\<close>

record mshr_entry =
  m_list :: "nat list"
  m_has_atomic :: bool

record mshr_table =
  m_num_entries :: nat
  m_max_merged :: nat
  m_data :: "(u64 \<times> mshr_entry) list"
  m_current_response :: "u64 list"

definition new_mshr :: "nat \<Rightarrow> nat \<Rightarrow> mshr_table" where
  "new_mshr num_entries max_merged =
     \<lparr>m_num_entries = num_entries, m_max_merged = max_merged, m_data = [], m_current_response = []\<rparr>"

text \<open>\<open>m_data[block_addr]\<close> creates an empty entry where there is none.\<close>

definition entry_at :: "mshr_table \<Rightarrow> u64 \<Rightarrow> mshr_entry" where
  "entry_at t a =
     (case map_of (m_data t) a of None \<Rightarrow> \<lparr>m_list = [], m_has_atomic = False\<rparr> | Some e \<Rightarrow> e)"

definition mshr_probe :: "mshr_table \<Rightarrow> u64 \<Rightarrow> bool" where
  "mshr_probe t block_addr = (map_of (m_data t) block_addr \<noteq> None)"

definition mshr_full :: "mshr_table \<Rightarrow> u64 \<Rightarrow> bool" where
  "mshr_full t block_addr =
     (case map_of (m_data t) block_addr of
        Some e \<Rightarrow> length (m_list e) \<ge> m_max_merged t
      | None \<Rightarrow> length (m_data t) \<ge> m_num_entries t)"

definition mshr_add :: "u64 \<Rightarrow> nat \<Rightarrow> bool \<Rightarrow> mshr_table \<Rightarrow> mshr_table option" where
  "mshr_add block_addr mf isatomic t = do {
     let e = entry_at t block_addr;
     let e = e\<lparr>m_list := m_list e @ [mf]\<rparr>;
     let t = t\<lparr>m_data := AList.update block_addr e (m_data t)\<rparr>;
     _ \<leftarrow> assert_c (length (m_data t) \<le> m_num_entries t);
     _ \<leftarrow> assert_c (length (m_list e) \<le> m_max_merged t);
     Some (if isatomic
           then t\<lparr>m_data := AList.update block_addr (e\<lparr>m_has_atomic := True\<rparr>) (m_data t)\<rparr>
           else t) }"

definition mshr_mark_ready :: "u64 \<Rightarrow> mshr_table \<Rightarrow> (bool \<times> mshr_table) option" where
  "mshr_mark_ready block_addr t = do {
     e \<leftarrow> map_of (m_data t) block_addr;
     let t = t\<lparr>m_current_response := m_current_response t @ [block_addr]\<rparr>;
     _ \<leftarrow> assert_c (length (m_current_response t) \<le> length (m_data t));
     Some (m_has_atomic e, t) }"

definition mshr_access_ready :: "mshr_table \<Rightarrow> bool" where
  "mshr_access_ready t = (m_current_response t \<noteq> [])"

definition mshr_next_access :: "mshr_table \<Rightarrow> (nat \<times> mshr_table) option" where
  "mshr_next_access t =
     (case m_current_response t of
        [] \<Rightarrow> None
      | block_addr # rest \<Rightarrow>
          let e = entry_at t block_addr
          in (case m_list e of
                [] \<Rightarrow> None
              | result # waiting \<Rightarrow>
                  Some (result,
                    if waiting = []
                    then t\<lparr>m_data := AList.delete block_addr (m_data t), m_current_response := rest\<rparr>
                    else t\<lparr>m_data := AList.update block_addr (e\<lparr>m_list := waiting\<rparr>) (m_data t)\<rparr>)))"

section \<open>The invariant\<close>

definition mshr_inv :: "mshr_table \<Rightarrow> bool" where
  "mshr_inv t \<longleftrightarrow> distinct (map fst (m_data t)) \<and> length (m_data t) \<le> m_num_entries t
     \<and> (\<forall>a e. map_of (m_data t) a = Some e \<longrightarrow> m_list e \<noteq> [] \<and> length (m_list e) \<le> m_max_merged t)
     \<and> distinct (m_current_response t)
     \<and> (\<forall>a \<in> set (m_current_response t). mshr_probe t a)"

definition waiting :: "mshr_table \<Rightarrow> u64 \<Rightarrow> nat list" where
  "waiting t a = m_list (entry_at t a)"

lemma new_mshr_inv: "mshr_inv (new_mshr n m)"
  by (simp add: mshr_inv_def new_mshr_def)

lemma mshr_probe_dom: "mshr_probe t a \<longleftrightarrow> a \<in> fst ` set (m_data t)"
  by (simp add: mshr_probe_def map_of_eq_None_iff)

lemma length_update:
  "distinct (map fst al) \<Longrightarrow> length (AList.update k v al) = (if k \<in> fst ` set al then length al else Suc (length al))"
  by (induction al) auto

lemma response_bound:
  assumes "mshr_inv t"
  shows "length (m_current_response t) \<le> length (m_data t)"
proof -
  have "set (m_current_response t) \<subseteq> set (map fst (m_data t))"
    using assms by (auto simp: mshr_inv_def mshr_probe_dom)
  then have "card (set (m_current_response t)) \<le> card (set (map fst (m_data t)))"
    by (rule card_mono [rotated]) simp
  also have "\<dots> \<le> length (map fst (m_data t))" by (rule card_length)
  finally show ?thesis using assms by (simp add: mshr_inv_def distinct_card)
qed

section \<open>The operations\<close>

lemma map_of_update: "map_of (AList.update k v al) = (map_of al)(k \<mapsto> v)"
  by (rule update_conv')

lemma mshr_add_eq:
  assumes "mshr_inv t" and "\<not> mshr_full t a" and "0 < m_max_merged t"
  shows "\<exists>t'. mshr_add a mf at t = Some t'
    \<and> map_of (m_data t') = (map_of (m_data t))(a \<mapsto>
        \<lparr>m_list = waiting t a @ [mf], m_has_atomic = (at \<or> m_has_atomic (entry_at t a))\<rparr>)
    \<and> m_current_response t' = m_current_response t \<and> m_num_entries t' = m_num_entries t
    \<and> m_max_merged t' = m_max_merged t \<and> distinct (map fst (m_data t'))
    \<and> length (m_data t') \<le> m_num_entries t \<and> length (waiting t a @ [mf]) \<le> m_max_merged t"
proof -
  have d: "distinct (map fst (m_data t))" and n: "length (m_data t) \<le> m_num_entries t"
    using assms(1) by (auto simp: mshr_inv_def)
  have len: "length (AList.update a e (m_data t)) \<le> m_num_entries t" for e
  proof (cases "a \<in> fst ` set (m_data t)")
    case True
    with n show ?thesis by (simp add: length_update [OF d])
  next
    case False
    then have "map_of (m_data t) a = None" by (simp add: map_of_eq_None_iff)
    with assms(2) False show ?thesis by (simp add: length_update [OF d] mshr_full_def)
  qed
  have merged: "length (waiting t a @ [mf]) \<le> m_max_merged t"
    using assms(2,3) by (auto simp: mshr_full_def waiting_def entry_at_def split: option.splits)
  have du: "distinct (map fst (AList.update a e' (AList.update a e (m_data t))))" for e e'
    using d by (intro distinct_update)
  have du1: "distinct (map fst (AList.update a e (m_data t)))" for e
    using d by (intro distinct_update)
  have len2: "length (AList.update a e' (AList.update a e (m_data t))) \<le> m_num_entries t" for e e'
    using len [of e] length_update [OF du1 [of e], of a e'] by (simp add: dom_update)
  show ?thesis
    using len len2 merged du du1
    by (cases "entry_at t a") (auto simp: mshr_add_def Let_def map_of_update waiting_def)
qed

lemma mshr_add_inv:
  assumes "mshr_inv t" and "\<not> mshr_full t a" and "0 < m_max_merged t"
  shows "ok mshr_inv (mshr_add a mf at t)"
proof -
  obtain t' where t': "mshr_add a mf at t = Some t'"
    "map_of (m_data t') = (map_of (m_data t))(a \<mapsto>
        \<lparr>m_list = waiting t a @ [mf], m_has_atomic = (at \<or> m_has_atomic (entry_at t a))\<rparr>)"
    "m_current_response t' = m_current_response t" "m_num_entries t' = m_num_entries t"
    "m_max_merged t' = m_max_merged t" "distinct (map fst (m_data t'))"
    "length (m_data t') \<le> m_num_entries t" "length (waiting t a @ [mf]) \<le> m_max_merged t"
    using mshr_add_eq [OF assms, of mf at] by blast
  then have "mshr_inv t'"
    using assms(1) by (auto simp: mshr_inv_def mshr_probe_def split: if_splits)
  with t'(1) show ?thesis by simp
qed

lemma mshr_mark_ready_inv:
  assumes "mshr_inv t" and "mshr_probe t a" and "a \<notin> set (m_current_response t)"
  shows "mshr_mark_ready a t = Some (m_has_atomic (entry_at t a), t\<lparr>m_current_response := m_current_response t @ [a]\<rparr>)
    \<and> mshr_inv (t\<lparr>m_current_response := m_current_response t @ [a]\<rparr>)"
proof -
  let ?t = "t\<lparr>m_current_response := m_current_response t @ [a]\<rparr>"
  have inv: "mshr_inv ?t"
    using assms by (auto simp: mshr_inv_def mshr_probe_def)
  from response_bound [OF inv] assms(2) have "mshr_mark_ready a t = Some (m_has_atomic (entry_at t a), ?t)"
    by (auto simp: mshr_mark_ready_def mshr_probe_def entry_at_def)
  with inv show ?thesis by simp
qed

lemma mshr_next_access_spec:
  assumes "mshr_inv t" and "m_current_response t = a # rest"
  shows "\<exists>mf ws t'. mshr_next_access t = Some (mf, t') \<and> waiting t a = mf # ws \<and> waiting t' a = ws
    \<and> mshr_inv t' \<and> (\<forall>b. b \<noteq> a \<longrightarrow> map_of (m_data t') b = map_of (m_data t) b)
    \<and> m_current_response t' = (if ws = [] then rest else a # rest)
    \<and> mshr_probe t' a = (ws \<noteq> []) \<and> m_max_merged t' = m_max_merged t"
proof -
  obtain e where e: "map_of (m_data t) a = Some e" "m_list e \<noteq> []" "length (m_list e) \<le> m_max_merged t"
    using assms by (auto simp: mshr_inv_def mshr_probe_def)
  have at: "entry_at t a = e" using e(1) by (simp add: entry_at_def)
  obtain mf ws where ws: "m_list e = mf # ws" using e(2) by (cases "m_list e") auto
  have d: "distinct (map fst (m_data t))" using assms(1) by (simp add: mshr_inv_def)
  show ?thesis
  proof (cases "ws = []")
    case True
    let ?t = "t\<lparr>m_data := AList.delete a (m_data t), m_current_response := rest\<rparr>"
    have run: "mshr_next_access t = Some (mf, ?t)"
      using assms(2) at ws True by (simp add: mshr_next_access_def)
    have del: "map_of (AList.delete a (m_data t)) = (map_of (m_data t))(a := None)"
      by (rule delete_conv')
    have "length (AList.delete a (m_data t)) \<le> m_num_entries t"
      using assms(1) length_delete_le [of a "m_data t"] by (simp add: mshr_inv_def)
    then have "mshr_inv ?t"
      using assms d del by (auto simp: mshr_inv_def mshr_probe_def distinct_delete split: if_splits)
    with run del at ws True show ?thesis
      by (auto simp: waiting_def entry_at_def mshr_probe_def)
  next
    case False
    let ?t = "t\<lparr>m_data := AList.update a (e\<lparr>m_list := ws\<rparr>) (m_data t)\<rparr>"
    have run: "mshr_next_access t = Some (mf, ?t)"
      using assms(2) at ws False by (simp add: mshr_next_access_def)
    have "a \<in> fst ` set (m_data t)" using e(1) by (metis mshr_probe_dom mshr_probe_def option.distinct(1))
    then have "length (AList.update a (e\<lparr>m_list := ws\<rparr>) (m_data t)) \<le> m_num_entries t"
      using assms(1) by (simp add: length_update [OF d] mshr_inv_def)
    then have "mshr_inv ?t"
      using assms d e ws False
      by (auto simp: mshr_inv_def mshr_probe_def map_of_update distinct_update split: if_splits)
    with run at ws False assms(2) show ?thesis
      by (auto simp: waiting_def entry_at_def mshr_probe_def map_of_update)
  qed
qed

lemma mshr_add_full:
  assumes "mshr_inv t" and "mshr_full t a"
  shows "mshr_add a mf at t = None"
proof -
  have d: "distinct (map fst (m_data t))" using assms(1) by (simp add: mshr_inv_def)
  show ?thesis
  proof (cases "map_of (m_data t) a")
    case None
    then have "a \<notin> fst ` set (m_data t)" by (simp add: map_of_eq_None_iff)
    then have "\<not> length (AList.update a e (m_data t)) \<le> m_num_entries t" for e
      using assms(2) None by (simp add: length_update [OF d] mshr_full_def)
    then show ?thesis by (simp add: mshr_add_def Let_def)
  next
    case (Some e)
    with assms(2) show ?thesis by (simp add: mshr_add_def Let_def mshr_full_def entry_at_def)
  qed
qed

section \<open>The contract of a table of requests\<close>

text \<open>
  What the caches rely on: an insertion into a table that is not full for the block returns, appends the
  request to those of its block and leaves the others alone. A client that tests before it inserts
  can therefore run any sequence of requests.
\<close>

locale request_table =
  fixes wf :: "'t \<Rightarrow> bool" and full :: "'t \<Rightarrow> 'k \<Rightarrow> bool"
    and add :: "'k \<Rightarrow> 'm \<Rightarrow> 't \<Rightarrow> 't option" and pend :: "'t \<Rightarrow> 'k \<Rightarrow> 'm2 list" and name_of :: "'m \<Rightarrow> 'm2"
  assumes add_ok: "wf t \<Longrightarrow> \<not> full t k \<Longrightarrow>
    \<exists>t'. add k m t = Some t' \<and> wf t' \<and> pend t' k = pend t k @ [name_of m] \<and> (\<forall>j. j \<noteq> k \<longrightarrow> pend t' j = pend t j)"
begin

lemma guarded_run:
  assumes "wf t"
  shows "\<exists>t'. foldM (\<lambda>t (k, m). if full t k then Some t else add k m t) t reqs = Some t' \<and> wf t'"
proof (rule foldM_invariant [where I = wf, OF assms])
  fix s x assume s: "wf s"
  show "\<exists>s'. (case x of (k, m) \<Rightarrow> if full s k then Some s else add k m s) = Some s' \<and> wf s'"
    using s add_ok [OF s, of "fst x" "snd x"] by (cases x; cases "full s (fst x)") auto
qed

lemma guarded_run_pend:
  assumes "wf t" and "foldM (\<lambda>t (k, m). if full t k then Some t else add k m t) t reqs = Some t'"
  shows "\<exists>xs. pend t' k = pend t k @ xs \<and> set xs \<subseteq> {name_of m |m. (k, m) \<in> set reqs}"
  using assms
proof (induction reqs arbitrary: t)
  case Nil
  then show ?case by simp
next
  case (Cons r reqs)
  obtain j m where r: "r = (j, m)" by fastforce
  obtain t1 where t1: "(if full t j then Some t else add j m t) = Some t1"
    "foldM (\<lambda>t (k, m). if full t k then Some t else add k m t) t1 reqs = Some t'"
    using Cons.prems(2) r by (auto simp: bind_eq_Some_conv)
  have "wf t1 \<and> (\<exists>ys. pend t1 k = pend t k @ ys \<and> set ys \<subseteq> {name_of m |m. (k, m) \<in> set (r # reqs)})"
  proof (cases "full t j")
    case True
    with t1(1) Cons.prems(1) show ?thesis by auto
  next
    case False
    from add_ok [OF Cons.prems(1) this, of m] t1(1) False r show ?thesis
      by (cases "k = j") auto
  qed
  moreover from Cons.IH [of t1] t1(2) this obtain zs where
    "pend t' k = pend t1 k @ zs" "set zs \<subseteq> {name_of m |m. (k, m) \<in> set reqs}" by blast
  ultimately show ?case by fastforce
qed

end

definition mshr_wf :: "mshr_table \<Rightarrow> bool" where
  "mshr_wf t \<longleftrightarrow> mshr_inv t \<and> 0 < m_max_merged t"

interpretation mshrs: request_table mshr_wf mshr_full "\<lambda>a (mf, at) t. mshr_add a mf at t" waiting fst
proof
  fix t k and m :: "nat \<times> bool"
  assume wf: "mshr_wf t" and free: "\<not> mshr_full t k"
  obtain mf at where m: "m = (mf, at)" by fastforce
  from wf have inv: "mshr_inv t" and pos: "0 < m_max_merged t" by (auto simp: mshr_wf_def)
  from mshr_add_eq [OF inv free pos, of mf at] mshr_add_inv [OF inv free pos, of mf at]
  show "\<exists>t'. (case m of (mf, at) \<Rightarrow> \<lambda>t. mshr_add k mf at t) t = Some t' \<and> mshr_wf t' \<and>
      waiting t' k = waiting t k @ [fst m] \<and> (\<forall>j. j \<noteq> k \<longrightarrow> waiting t' j = waiting t j)"
    using pos by (auto simp: m mshr_wf_def waiting_def entry_at_def)
qed

section \<open>Properties\<close>

text \<open>Taking \<open>n\<close> ready requests one after the other.\<close>

primrec drain :: "nat \<Rightarrow> mshr_table \<Rightarrow> (nat list \<times> mshr_table) option" where
  "drain 0 t = Some ([], t)"
| "drain (Suc n) t = do {
     (mf, t) \<leftarrow> mshr_next_access t;
     (mfs, t) \<leftarrow> drain n t;
     Some (mf # mfs, t) }"

lemma drain_front:
  assumes "mshr_inv t" and "m_current_response t = a # rest"
  shows "\<exists>t'. drain (length (waiting t a)) t = Some (waiting t a, t') \<and> mshr_inv t' \<and> m_current_response t' = rest
    \<and> \<not> mshr_probe t' a \<and> (\<forall>b. b \<noteq> a \<longrightarrow> map_of (m_data t') b = map_of (m_data t) b)"
  using assms
proof (induction "waiting t a" arbitrary: t)
  case Nil
  with mshr_next_access_spec [OF Nil.prems] show ?case by auto
next
  case (Cons mf ws)
  from mshr_next_access_spec [OF Cons.prems] Cons.hyps(2) obtain t1 where t1:
    "mshr_next_access t = Some (mf, t1)" "waiting t1 a = ws" "mshr_inv t1"
    "\<forall>b. b \<noteq> a \<longrightarrow> map_of (m_data t1) b = map_of (m_data t) b"
    "m_current_response t1 = (if ws = [] then rest else a # rest)" "mshr_probe t1 a = (ws \<noteq> [])"
    by (metis list.inject)
  show ?case
  proof (cases "ws = []")
    case True
    with t1 Cons.hyps(2) show ?thesis by (auto simp flip: Cons.hyps(2))
  next
    case False
    from Cons.hyps(1) [of t1] t1 False obtain t' where
      "drain (length ws) t1 = Some (ws, t')" "mshr_inv t'" "m_current_response t' = rest" "\<not> mshr_probe t' a"
      "\<forall>b. b \<noteq> a \<longrightarrow> map_of (m_data t') b = map_of (m_data t1) b" by auto
    with t1 show ?thesis by (auto simp flip: Cons.hyps(2))
  qed
qed

definition sample_mshr :: mshr_table where
  "sample_mshr = \<lparr>m_num_entries = 2, m_max_merged = 4,
     m_data = [(0x80, \<lparr>m_list = [7, 8], m_has_atomic = False\<rparr>)], m_current_response = []\<rparr>"

lemma sample_mshr_inv: "mshr_inv sample_mshr"
  by (simp add: mshr_inv_def sample_mshr_def)

text \<open>A request can be added exactly when \<open>full\<close> says so: then \<open>add\<close> returns a table that keeps the
  bounds on entries and merged requests, with the request behind those of its block and the other blocks
  unchanged; on a full table it aborts.\<close>

theorem mshr_add_iff_not_full:
  assumes "mshr_inv t" and "0 < m_max_merged t"
  shows "((\<exists>t'. mshr_add a mf at t = Some t') \<longleftrightarrow> \<not> mshr_full t a)
    \<and> (\<forall>t'. mshr_add a mf at t = Some t' \<longrightarrow> mshr_inv t' \<and> waiting t' a = waiting t a @ [mf]
      \<and> (\<forall>b. b \<noteq> a \<longrightarrow> waiting t' b = waiting t b))"
proof -
  have wf: "mshr_wf t" using assms by (simp add: mshr_wf_def)
  have "(\<exists>t'. mshr_add a mf at t = Some t') \<longleftrightarrow> \<not> mshr_full t a"
    using mshrs.add_ok [OF wf, of a "(mf, at)"] mshr_add_full [OF assms(1), of a mf at] by auto
  then show ?thesis
    using mshrs.add_ok [OF wf, of a "(mf, at)"] by (auto simp: mshr_wf_def)
qed

theorem mshr_add_iff_not_full_witness:
  "\<exists>t'. mshr_add 0x80 9 False sample_mshr = Some t'"
proof -
  have "\<not> mshr_full sample_mshr 0x80" by (simp add: mshr_full_def sample_mshr_def)
  with mshr_add_iff_not_full [OF sample_mshr_inv, of "0x80" 9 False] show ?thesis
    by (simp add: sample_mshr_def)
qed

text \<open>C35. A fill serves every merged request: once a pending block is marked ready in a table with no
  other response, taking as many accesses as requests wait for it returns exactly these, in the order
  they were added, then releases the entry and leaves the other blocks alone.\<close>

theorem mshr_serves_in_order:
  assumes "mshr_inv t" and "mshr_probe t a" and "m_current_response t = []"
  shows "\<exists>at t1 t2. mshr_mark_ready a t = Some (at, t1) \<and> mshr_access_ready t1
    \<and> drain (length (waiting t a)) t1 = Some (waiting t a, t2) \<and> mshr_inv t2
    \<and> \<not> mshr_probe t2 a \<and> \<not> mshr_access_ready t2
    \<and> (\<forall>b. b \<noteq> a \<longrightarrow> map_of (m_data t2) b = map_of (m_data t) b)"
proof -
  let ?t = "t\<lparr>m_current_response := m_current_response t @ [a]\<rparr>"
  have m: "mshr_mark_ready a t = Some (m_has_atomic (entry_at t a), ?t)" "mshr_inv ?t"
    using mshr_mark_ready_inv [OF assms(1,2)] assms(3) by auto
  have w: "waiting ?t a = waiting t a" by (simp add: waiting_def entry_at_def)
  from drain_front [OF m(2), of a "[]"] assms(3) m w show ?thesis
    by (auto simp: mshr_access_ready_def)
qed

theorem mshr_serves_in_order_witness:
  "\<exists>at t1 t2. mshr_mark_ready 0x80 sample_mshr = Some (at, t1) \<and> drain 2 t1 = Some ([7, 8], t2)
    \<and> \<not> mshr_probe t2 0x80"
proof -
  have "waiting sample_mshr 0x80 = [7, 8]" by (simp add: waiting_def entry_at_def sample_mshr_def)
  with mshr_serves_in_order [OF sample_mshr_inv, of "0x80"] show ?thesis
    by (auto simp: mshr_probe_def sample_mshr_def numeral_2_eq_2)
qed

end
