(* ===== verification/Data_Cache.thy ===== *)
theory Data_Cache
  imports Hardware_Model Tag_Array Mshr
begin

text \<open>
  The read only and the data caches of \<open>gpgpu-sim/gpu-cache.cc\<close>: statistics, port bandwidth, the
  functions \<open>baseline_cache\<close> shares (\<open>cycle\<close>, \<open>fill\<close>, \<open>send_read_request\<close>), the write and read policies
  of \<open>data_cache\<close> and the access functions. The state of a cache is one record, in which a
  \<open>mem_fetch *\<close> is a number and the objects live in a store, since the code changes requests that
  queues and tables hold; the list of events an access reports is part of it. The lower level of
  memory is a parameter of \<open>cycle\<close>. Masks, the embedded instruction and the decoded DRAM address of a
  request are not kept.
\<close>

section \<open>Requests\<close>

datatype mem_fetch_status =
    MEM_FETCH_INITIALIZED | IN_L1I_MISS_QUEUE | IN_L1D_MISS_QUEUE | IN_L1T_MISS_QUEUE | IN_L1C_MISS_QUEUE
  | IN_L1TLB_MISS_QUEUE | IN_VM_MANAGER_QUEUE | IN_ICNT_TO_MEM | IN_PARTITION_ROP_DELAY
  | IN_PARTITION_ICNT_TO_L2_QUEUE | IN_PARTITION_L2_TO_DRAM_QUEUE | IN_PARTITION_DRAM_LATENCY_QUEUE
  | IN_PARTITION_L2_MISS_QUEUE | IN_PARTITION_MC_INTERFACE_QUEUE | IN_PARTITION_MC_INPUT_QUEUE
  | IN_PARTITION_MC_BANK_ARB_QUEUE | IN_PARTITION_DRAM | IN_PARTITION_MC_RETURNQ
  | IN_PARTITION_DRAM_TO_L2_QUEUE | IN_PARTITION_L2_FILL_QUEUE | IN_PARTITION_L2_TO_ICNT_QUEUE
  | IN_ICNT_TO_SHADER | IN_CLUSTER_TO_SHADER_QUEUE | IN_SHADER_LDST_RESPONSE_FIFO | IN_SHADER_FETCHED
  | IN_SHADER_L1T_ROB | MEM_FETCH_DELETED

datatype cache_event = WRITE_BACK_REQUEST_SENT | READ_REQUEST_SENT | WRITE_REQUEST_SENT

record mem_fetch =
  mf_addr :: u64
  mf_data_size :: u32
  mf_ctrl_size :: u32
  mf_is_write :: bool
  mf_access_type :: mem_access_type
  mf_isatomic :: bool
  mf_wid :: u32
  mf_sid :: u32
  mf_tpc :: u32
  mf_status :: mem_fetch_status
  mf_status_change :: u64

definition mf_size :: "mem_fetch \<Rightarrow> u32" where
  "mf_size mf = mf_data_size mf + mf_ctrl_size mf"

definition mf_set_status :: "mem_fetch_status \<Rightarrow> u32 \<Rightarrow> mem_fetch \<Rightarrow> mem_fetch" where
  "mf_set_status status cycle mf = mf\<lparr>mf_status := status, mf_status_change := ucast cycle\<rparr>"

text \<open>Flits of a request on the interconnect, for a direction and a flit size.\<close>

definition get_num_flits :: "u32 \<Rightarrow> bool \<Rightarrow> mem_fetch \<Rightarrow> u32" where
  "get_num_flits icnt_flit_size simt_to_mem mf =
     (let sz = (if mf_isatomic mf \<or> (simt_to_mem \<and> mf_is_write mf) \<or> \<not> (simt_to_mem \<or> mf_is_write mf)
                then mf_size mf else mf_ctrl_size mf)
      in sz div icnt_flit_size + (if sz mod icnt_flit_size \<noteq> 0 then 1 else 0))"

definition was_write_sent :: "cache_event list \<Rightarrow> bool" where
  "was_write_sent events = list_ex (\<lambda>e. e = WRITE_REQUEST_SENT) events"

definition was_writeback_sent :: "cache_event list \<Rightarrow> bool" where
  "was_writeback_sent events = list_ex (\<lambda>e. e = WRITE_BACK_REQUEST_SENT) events"

definition was_read_sent :: "cache_event list \<Rightarrow> bool" where
  "was_read_sent events = list_ex (\<lambda>e. e = READ_REQUEST_SENT) events"

section \<open>Statistics\<close>

text \<open>Access types and outcomes are indices of a table of counters, in the order of their enums.\<close>

definition type_index :: "mem_access_type \<Rightarrow> nat" where
  "type_index t = (case t of GLOBAL_ACC_R \<Rightarrow> 0 | LOCAL_ACC_R \<Rightarrow> 1 | CONST_ACC_R \<Rightarrow> 2 | TEXTURE_ACC_R \<Rightarrow> 3
     | GLOBAL_ACC_W \<Rightarrow> 4 | LOCAL_ACC_W \<Rightarrow> 5 | L1_WRBK_ACC \<Rightarrow> 6 | L2_WRBK_ACC \<Rightarrow> 7 | INST_ACC_R \<Rightarrow> 8
     | L1_WR_ALLOC_R \<Rightarrow> 9 | L2_WR_ALLOC_R \<Rightarrow> 10)"

definition status_index :: "cache_request_status \<Rightarrow> nat" where
  "status_index s = (case s of HIT \<Rightarrow> 0 | HIT_RESERVED \<Rightarrow> 1 | MISS \<Rightarrow> 2 | RESERVATION_FAIL \<Rightarrow> 3)"

record cache_stats =
  m_stats :: "u32 list list"
  m_cache_port_available_cycles :: u64
  m_cache_data_port_busy_cycles :: u64
  m_cache_fill_port_busy_cycles :: u64

definition new_stats :: cache_stats where
  "new_stats = \<lparr>m_stats = replicate 11 (replicate 4 0), m_cache_port_available_cycles = 0,
     m_cache_data_port_busy_cycles = 0, m_cache_fill_port_busy_cycles = 0\<rparr>"

definition stats_clear :: "cache_stats \<Rightarrow> cache_stats" where
  "stats_clear st = st\<lparr>m_stats := map (map (\<lambda>_. 0)) (m_stats st), m_cache_port_available_cycles := 0,
     m_cache_data_port_busy_cycles := 0, m_cache_fill_port_busy_cycles := 0\<rparr>"

definition check_valid :: "int \<Rightarrow> int \<Rightarrow> bool" where
  "check_valid type status \<longleftrightarrow> type \<ge> 0 \<and> type < 11 \<and> status \<ge> 0 \<and> status < 4"

definition stat_at :: "cache_stats \<Rightarrow> int \<Rightarrow> int \<Rightarrow> u32 option" where
  "stat_at st type status = do {
     _ \<leftarrow> assert_c (check_valid type status);
     row \<leftarrow> at_get (m_stats st) (nat type);
     at_get row (nat status) }"

definition inc_stats :: "int \<Rightarrow> int \<Rightarrow> cache_stats \<Rightarrow> cache_stats option" where
  "inc_stats access_type access_outcome st = do {
     n \<leftarrow> stat_at st access_type access_outcome;
     row \<leftarrow> at_get (m_stats st) (nat access_type);
     Some (st\<lparr>m_stats := (m_stats st)[nat access_type := row[nat access_outcome := n + 1]]\<rparr>) }"

definition select_stats_status :: "cache_request_status \<Rightarrow> cache_request_status \<Rightarrow> cache_request_status" where
  "select_stats_status probe access =
     (if probe = HIT_RESERVED \<and> access \<noteq> RESERVATION_FAIL then probe else access)"

definition stats_plus :: "cache_stats \<Rightarrow> cache_stats \<Rightarrow> cache_stats" where
  "stats_plus a b =
     \<lparr>m_stats = map2 (map2 (+)) (m_stats a) (m_stats b),
      m_cache_port_available_cycles = m_cache_port_available_cycles a + m_cache_port_available_cycles b,
      m_cache_data_port_busy_cycles = m_cache_data_port_busy_cycles a + m_cache_data_port_busy_cycles b,
      m_cache_fill_port_busy_cycles = m_cache_fill_port_busy_cycles a + m_cache_fill_port_busy_cycles b\<rparr>"

text \<open>\<open>get_stats\<close>: the sum over a list of types and a list of outcomes.\<close>

definition get_stats :: "mem_access_type list \<Rightarrow> cache_request_status list \<Rightarrow> cache_stats \<Rightarrow> u32 option" where
  "get_stats types statuses st =
     foldM (\<lambda>total t. foldM (\<lambda>total s. do {
         n \<leftarrow> stat_at st (int (type_index t)) (int (status_index s));
         Some (total + n) }) total statuses) 0 types"

record cache_sub_stats =
  css_accesses :: u32
  css_misses :: u32
  css_pending_hits :: u32
  css_res_fails :: u32
  css_port_available_cycles :: u64
  css_data_port_busy_cycles :: u64
  css_fill_port_busy_cycles :: u64

definition css_add :: "nat \<Rightarrow> u32 \<Rightarrow> cache_sub_stats \<Rightarrow> cache_sub_stats" where
  "css_add status n c =
     (let c = (if status = 0 \<or> status = 2 \<or> status = 1 then c\<lparr>css_accesses := css_accesses c + n\<rparr> else c);
          c = (if status = 2 then c\<lparr>css_misses := css_misses c + n\<rparr> else c);
          c = (if status = 1 then c\<lparr>css_pending_hits := css_pending_hits c + n\<rparr> else c)
      in if status = 3 then c\<lparr>css_res_fails := css_res_fails c + n\<rparr> else c)"

definition get_sub_stats :: "cache_stats \<Rightarrow> cache_sub_stats" where
  "get_sub_stats st =
     (let c = foldl (\<lambda>c type. foldl (\<lambda>c status. css_add status (m_stats st ! type ! status) c) c [0..<4])
        \<lparr>css_accesses = 0, css_misses = 0, css_pending_hits = 0, css_res_fails = 0,
         css_port_available_cycles = 0, css_data_port_busy_cycles = 0, css_fill_port_busy_cycles = 0\<rparr> [0..<11]
      in c\<lparr>css_port_available_cycles := m_cache_port_available_cycles st,
           css_data_port_busy_cycles := m_cache_data_port_busy_cycles st,
           css_fill_port_busy_cycles := m_cache_fill_port_busy_cycles st\<rparr>)"

definition css_plus :: "cache_sub_stats \<Rightarrow> cache_sub_stats \<Rightarrow> cache_sub_stats" where
  "css_plus a b =
     \<lparr>css_accesses = css_accesses a + css_accesses b, css_misses = css_misses a + css_misses b,
      css_pending_hits = css_pending_hits a + css_pending_hits b,
      css_res_fails = css_res_fails a + css_res_fails b,
      css_port_available_cycles = css_port_available_cycles a + css_port_available_cycles b,
      css_data_port_busy_cycles = css_data_port_busy_cycles a + css_data_port_busy_cycles b,
      css_fill_port_busy_cycles = css_fill_port_busy_cycles a + css_fill_port_busy_cycles b\<rparr>"

definition sample_cache_port_utility :: "bool \<Rightarrow> bool \<Rightarrow> cache_stats \<Rightarrow> cache_stats" where
  "sample_cache_port_utility data_port_busy fill_port_busy st =
     (let st = st\<lparr>m_cache_port_available_cycles := m_cache_port_available_cycles st + 1\<rparr>;
          st = (if data_port_busy
                then st\<lparr>m_cache_data_port_busy_cycles := m_cache_data_port_busy_cycles st + 1\<rparr> else st)
      in if fill_port_busy
         then st\<lparr>m_cache_fill_port_busy_cycles := m_cache_fill_port_busy_cycles st + 1\<rparr> else st)"

section \<open>The state of a cache\<close>

record extra_mf_fields =
  x_block_addr :: u64
  x_cache_index :: nat
  x_data_size :: u32

text \<open>What an allocator of requests puts into them: the shader core and cluster of a level one cache
  (\<open>shader_core_mem_fetch_allocator\<close>), or no core for a level two cache (\<open>partition_mf_allocator\<close>).\<close>

record mem_fetch_allocator =
  m_core_id :: u32
  m_cluster_id :: u32

definition partition_mf_allocator :: mem_fetch_allocator where
  "partition_mf_allocator = \<lparr>m_core_id = - 1, m_cluster_id = - 1\<rparr>"

record cache_sys =
  cs_cfg :: cache_config
  cs_tags :: tag_array
  cs_mshrs :: mshr_table
  cs_miss_queue :: "nat list"
  cs_miss_queue_status :: mem_fetch_status
  cs_extra :: "nat \<Rightarrow> extra_mf_fields option"
  cs_stats :: cache_stats
  cs_data_port :: int
  cs_fill_port :: int
  cs_wr_alloc_type :: mem_access_type
  cs_wrbk_type :: mem_access_type
  cs_memfetch_creator :: mem_fetch_allocator
  cs_events :: "cache_event list"
  cs_heap :: "nat \<Rightarrow> mem_fetch option"
  cs_next :: nat
  cs_now :: u64

definition upd_mf :: "nat \<Rightarrow> (mem_fetch \<Rightarrow> mem_fetch) \<Rightarrow> cache_sys \<Rightarrow> cache_sys option" where
  "upd_mf p g c = do {
     mf \<leftarrow> cs_heap c p;
     Some (c\<lparr>cs_heap := (cs_heap c)(p \<mapsto> g mf)\<rparr>) }"

text \<open>\<open>new mem_fetch\<close>: the next free pointer.\<close>

definition new_mf :: "mem_fetch \<Rightarrow> cache_sys \<Rightarrow> nat \<times> cache_sys" where
  "new_mf mf c = (cs_next c, c\<lparr>cs_heap := (cs_heap c)(cs_next c \<mapsto> mf), cs_next := Suc (cs_next c)\<rparr>)"

definition set_block_status :: "nat \<Rightarrow> cache_block_state \<Rightarrow> cache_sys \<Rightarrow> cache_sys option" where
  "set_block_status idx s c = do {
     ta \<leftarrow> upd_line idx (m_status_update (\<lambda>_. s)) (cs_tags c);
     Some (c\<lparr>cs_tags := ta\<rparr>) }"

definition miss_queue_full :: "nat \<Rightarrow> cache_sys \<Rightarrow> bool" where
  "miss_queue_full num_miss c = (length (cs_miss_queue c) + num_miss \<ge> m_miss_queue_size (cs_cfg c))"

section \<open>Ports\<close>

definition use_data_port :: "nat \<Rightarrow> cache_request_status \<Rightarrow> cache_sys \<Rightarrow> cache_sys option" where
  "use_data_port p outcome c = do {
     mf \<leftarrow> cs_heap c p;
     let port_width = m_data_port_width (cs_cfg c);
     case outcome of
       HIT \<Rightarrow> Some (c\<lparr>cs_data_port := cs_data_port c +
           uint (mf_data_size mf div port_width + (if mf_data_size mf mod port_width > 0 then 1 else 0))\<rparr>)
     | HIT_RESERVED \<Rightarrow> Some (if was_writeback_sent (cs_events c)
         then c\<lparr>cs_data_port := cs_data_port c + uint (m_line_sz (cs_cfg c) div port_width)\<rparr> else c)
     | MISS \<Rightarrow> Some (if was_writeback_sent (cs_events c)
         then c\<lparr>cs_data_port := cs_data_port c + uint (m_line_sz (cs_cfg c) div port_width)\<rparr> else c)
     | RESERVATION_FAIL \<Rightarrow> Some c }"

definition use_fill_port :: "cache_sys \<Rightarrow> cache_sys" where
  "use_fill_port c = c\<lparr>cs_fill_port := cs_fill_port c + uint (m_line_sz (cs_cfg c) div m_data_port_width (cs_cfg c))\<rparr>"

definition replenish_port_bandwidth :: "cache_sys \<Rightarrow> cache_sys option" where
  "replenish_port_bandwidth c = do {
     let c = (if cs_data_port c > 0 then c\<lparr>cs_data_port := cs_data_port c - 1\<rparr> else c);
     _ \<leftarrow> assert_c (cs_data_port c \<ge> 0);
     let c = (if cs_fill_port c > 0 then c\<lparr>cs_fill_port := cs_fill_port c - 1\<rparr> else c);
     _ \<leftarrow> assert_c (cs_fill_port c \<ge> 0);
     Some c }"

definition data_port_free :: "cache_sys \<Rightarrow> bool" where
  "data_port_free c = (cs_data_port c = 0)"

definition fill_port_free :: "cache_sys \<Rightarrow> bool" where
  "fill_port_free c = (cs_fill_port c = 0)"

section \<open>The baseline cache\<close>

text \<open>\<open>cycle\<close>: \<open>full\<close> is the test of the lower level; the result holds the request pushed to it.\<close>

definition cache_cycle :: "(u32 \<Rightarrow> bool \<Rightarrow> bool) \<Rightarrow> cache_sys \<Rightarrow> (nat option \<times> cache_sys) option" where
  "cache_cycle full c = do {
     (pushed, c) \<leftarrow>
       (case cs_miss_queue c of
          [] \<Rightarrow> Some (None, c)
        | p # rest \<Rightarrow> do {
            mf \<leftarrow> cs_heap c p;
            Some (if \<not> full (mf_size mf) (mf_is_write mf)
                  then (Some p, c\<lparr>cs_miss_queue := rest\<rparr>) else (None, c)) });
     let data_port_busy = \<not> data_port_free c;
     let fill_port_busy = \<not> fill_port_free c;
     let c = c\<lparr>cs_stats := sample_cache_port_utility data_port_busy fill_port_busy (cs_stats c)\<rparr>;
     c \<leftarrow> replenish_port_bandwidth c;
     Some (pushed, c) }"

definition cache_fill :: "nat \<Rightarrow> u32 \<Rightarrow> cache_sys \<Rightarrow> cache_sys option" where
  "cache_fill p time c = do {
     e \<leftarrow> cs_extra c p;
     c \<leftarrow> upd_mf p (mf_data_size_update (\<lambda>_. x_data_size e)) c;
     ta \<leftarrow> (case m_alloc_policy (cs_cfg c) of
             ON_MISS \<Rightarrow> ta_fill_index (cs_cfg c) (x_cache_index e) time (cs_tags c)
           | ON_FILL \<Rightarrow> ta_fill_addr (cs_cfg c) (x_block_addr e) time (cs_tags c));
     let c = c\<lparr>cs_tags := ta\<rparr>;
     (has_atomic, t) \<leftarrow> mshr_mark_ready (x_block_addr e) (cs_mshrs c);
     let c = c\<lparr>cs_mshrs := t\<rparr>;
     c \<leftarrow> (if has_atomic
           then do {
             _ \<leftarrow> assert_c (m_alloc_policy (cs_cfg c) = ON_MISS);
             set_block_status (x_cache_index e) MODIFIED c }
           else Some c);
     let c = c\<lparr>cs_extra := (cs_extra c)(p := None)\<rparr>;
     Some (use_fill_port c) }"

definition waiting_for_fill :: "nat \<Rightarrow> cache_sys \<Rightarrow> bool" where
  "waiting_for_fill p c = (cs_extra c p \<noteq> None)"

definition cache_next_access :: "cache_sys \<Rightarrow> (nat \<times> cache_sys) option" where
  "cache_next_access c = do {
     (p, t) \<leftarrow> mshr_next_access (cs_mshrs c);
     Some (p, c\<lparr>cs_mshrs := t\<rparr>) }"

definition cache_flush :: "cache_sys \<Rightarrow> cache_sys option" where
  "cache_flush c = do {
     ta \<leftarrow> ta_flush (cs_cfg c) (cs_tags c);
     Some (c\<lparr>cs_tags := ta\<rparr>) }"

text \<open>The tag access of a request: the four argument \<open>access\<close> asserts that nothing is written back.\<close>

definition tag_access :: "bool \<Rightarrow> u64 \<Rightarrow> u32 \<Rightarrow> nat \<Rightarrow> cache_sys
    \<Rightarrow> (nat \<times> cache_block option \<times> cache_sys) option" where
  "tag_access read_only addr time idx c =
     (if read_only
      then do {
        (status, idx, ta) \<leftarrow> ta_access (cs_cfg c) addr time idx (cs_tags c);
        Some (idx, None, c\<lparr>cs_tags := ta\<rparr>) }
      else do {
        (status, idx, wb, ta) \<leftarrow> ta_access_wb (cs_cfg c) addr time idx (cs_tags c);
        Some (idx, wb, c\<lparr>cs_tags := ta\<rparr>) })"

definition add_to_mshr :: "u64 \<Rightarrow> nat \<Rightarrow> cache_sys \<Rightarrow> cache_sys option" where
  "add_to_mshr baddr p c = do {
     mf \<leftarrow> cs_heap c p;
     t \<leftarrow> mshr_add baddr p (mf_isatomic mf) (cs_mshrs c);
     Some (c\<lparr>cs_mshrs := t\<rparr>) }"

text \<open>The result is \<open>do_miss\<close>, the evicted block when \<open>wb\<close> was set, and the new state.\<close>

definition send_read_request :: "u64 \<Rightarrow> nat \<Rightarrow> nat \<Rightarrow> u32 \<Rightarrow> bool \<Rightarrow> bool \<Rightarrow> cache_sys
    \<Rightarrow> (bool \<times> cache_block option \<times> cache_sys) option" where
  "send_read_request baddr cache_index p time read_only wa c =
     (let mshr_hit = mshr_probe (cs_mshrs c) baddr;
          mshr_avail = \<not> mshr_full (cs_mshrs c) baddr
      in if mshr_hit \<and> mshr_avail then do {
           (cache_index, wb, c) \<leftarrow> tag_access read_only baddr time cache_index c;
           c \<leftarrow> add_to_mshr baddr p c;
           Some (True, wb, c) }
         else if \<not> mshr_hit \<and> mshr_avail \<and> length (cs_miss_queue c) < m_miss_queue_size (cs_cfg c) then do {
           (cache_index, wb, c) \<leftarrow> tag_access read_only baddr time cache_index c;
           c \<leftarrow> add_to_mshr baddr p c;
           mf \<leftarrow> cs_heap c p;
           let c = c\<lparr>cs_extra := (cs_extra c)(p \<mapsto>
             \<lparr>x_block_addr = baddr, x_cache_index = cache_index, x_data_size = mf_data_size mf\<rparr>)\<rparr>;
           c \<leftarrow> upd_mf p (mf_data_size_update (\<lambda>_. m_line_sz (cs_cfg c))) c;
           let c = c\<lparr>cs_miss_queue := cs_miss_queue c @ [p]\<rparr>;
           c \<leftarrow> upd_mf p (mf_set_status (cs_miss_queue_status c) time) c;
           Some (True, wb, if \<not> wa then c\<lparr>cs_events := cs_events c @ [READ_REQUEST_SENT]\<rparr> else c) }
         else Some (False, None, c))"

section \<open>The policies of the data cache\<close>

definition send_write_request :: "nat \<Rightarrow> cache_event \<Rightarrow> u32 \<Rightarrow> cache_sys \<Rightarrow> cache_sys option" where
  "send_write_request p request time c =
     upd_mf p (mf_set_status (cs_miss_queue_status c) time)
       (c\<lparr>cs_events := cs_events c @ [request], cs_miss_queue := cs_miss_queue c @ [p]\<rparr>)"

definition wr_hit_wb :: "u64 \<Rightarrow> nat \<Rightarrow> nat \<Rightarrow> u32 \<Rightarrow> cache_sys \<Rightarrow> (cache_request_status \<times> cache_sys) option" where
  "wr_hit_wb addr cache_index p time c = do {
     (cache_index, _, c) \<leftarrow> tag_access True (block_addr (cs_cfg c) addr) time cache_index c;
     c \<leftarrow> set_block_status cache_index MODIFIED c;
     Some (HIT, c) }"

definition wr_hit_wt :: "u64 \<Rightarrow> nat \<Rightarrow> nat \<Rightarrow> u32 \<Rightarrow> cache_sys \<Rightarrow> (cache_request_status \<times> cache_sys) option" where
  "wr_hit_wt addr cache_index p time c =
     (if miss_queue_full 0 c then Some (RESERVATION_FAIL, c)
      else do {
        (cache_index, _, c) \<leftarrow> tag_access True (block_addr (cs_cfg c) addr) time cache_index c;
        c \<leftarrow> set_block_status cache_index MODIFIED c;
        c \<leftarrow> send_write_request p WRITE_REQUEST_SENT time c;
        Some (HIT, c) })"

definition wr_hit_we :: "u64 \<Rightarrow> nat \<Rightarrow> nat \<Rightarrow> u32 \<Rightarrow> cache_sys \<Rightarrow> (cache_request_status \<times> cache_sys) option" where
  "wr_hit_we addr cache_index p time c =
     (if miss_queue_full 0 c then Some (RESERVATION_FAIL, c)
      else do {
        c \<leftarrow> send_write_request p WRITE_REQUEST_SENT time c;
        c \<leftarrow> set_block_status cache_index INVALID c;
        Some (HIT, c) })"

definition wr_hit_global_we_local_wb ::
  "u64 \<Rightarrow> nat \<Rightarrow> nat \<Rightarrow> u32 \<Rightarrow> cache_sys \<Rightarrow> (cache_request_status \<times> cache_sys) option" where
  "wr_hit_global_we_local_wb addr cache_index p time c = do {
     mf \<leftarrow> cs_heap c p;
     if mf_access_type mf = GLOBAL_ACC_W then wr_hit_we addr cache_index p time c
     else wr_hit_wb addr cache_index p time c }"

text \<open>A request for the write back of an evicted block, from the allocator of the cache.\<close>

definition wrbk_mf :: "cache_sys \<Rightarrow> u64 \<Rightarrow> mem_fetch" where
  "wrbk_mf c addr = \<lparr>mf_addr = addr, mf_data_size = m_line_sz (cs_cfg c), mf_ctrl_size = 8,
     mf_is_write = True, mf_access_type = cs_wrbk_type c, mf_isatomic = False, mf_wid = - 1,
     mf_sid = m_core_id (cs_memfetch_creator c), mf_tpc = m_cluster_id (cs_memfetch_creator c), mf_status = MEM_FETCH_INITIALIZED, mf_status_change = cs_now c\<rparr>"

definition wr_miss_wa :: "u64 \<Rightarrow> nat \<Rightarrow> nat \<Rightarrow> u32 \<Rightarrow> cache_sys \<Rightarrow> (cache_request_status \<times> cache_sys) option" where
  "wr_miss_wa addr cache_index p time c =
     (let baddr = block_addr (cs_cfg c) addr;
          mshr_hit = mshr_probe (cs_mshrs c) baddr;
          mshr_avail = \<not> mshr_full (cs_mshrs c) baddr
      in if miss_queue_full 2 c \<or> (\<not> (mshr_hit \<and> mshr_avail)
           \<and> \<not> (\<not> mshr_hit \<and> mshr_avail \<and> length (cs_miss_queue c) < m_miss_queue_size (cs_cfg c)))
         then Some (RESERVATION_FAIL, c)
         else do {
           c \<leftarrow> send_write_request p WRITE_REQUEST_SENT time c;
           mf \<leftarrow> cs_heap c p;
           let (n, c) = new_mf (mf\<lparr>mf_access_type := cs_wr_alloc_type c, mf_is_write := False,
             mf_isatomic := False, mf_status := MEM_FETCH_INITIALIZED, mf_status_change := cs_now c\<rparr>) c;
           (do_miss, wb, c) \<leftarrow> send_read_request baddr cache_index n time False True c;
           if do_miss then
             (case wb of
                Some evicted \<Rightarrow>
                  if m_write_policy (cs_cfg c) \<noteq> WRITE_THROUGH then do {
                    let (w, c) = new_mf (wrbk_mf c (m_block_addr evicted)) c;
                    let c = c\<lparr>cs_miss_queue := cs_miss_queue c @ [w]\<rparr>;
                    c \<leftarrow> upd_mf w (mf_set_status (cs_miss_queue_status c) time) c;
                    Some (MISS, c) }
                  else Some (MISS, c)
              | None \<Rightarrow> Some (MISS, c))
           else Some (RESERVATION_FAIL, c) })"

definition wr_miss_no_wa :: "u64 \<Rightarrow> nat \<Rightarrow> nat \<Rightarrow> u32 \<Rightarrow> cache_sys \<Rightarrow> (cache_request_status \<times> cache_sys) option" where
  "wr_miss_no_wa addr cache_index p time c =
     (if miss_queue_full 0 c then Some (RESERVATION_FAIL, c)
      else do {
        c \<leftarrow> send_write_request p WRITE_REQUEST_SENT time c;
        Some (MISS, c) })"

definition rd_hit_base :: "u64 \<Rightarrow> nat \<Rightarrow> nat \<Rightarrow> u32 \<Rightarrow> cache_sys \<Rightarrow> (cache_request_status \<times> cache_sys) option" where
  "rd_hit_base addr cache_index p time c = do {
     (cache_index, _, c) \<leftarrow> tag_access True (block_addr (cs_cfg c) addr) time cache_index c;
     mf \<leftarrow> cs_heap c p;
     c \<leftarrow> (if mf_isatomic mf
           then do {
             _ \<leftarrow> assert_c (mf_access_type mf = GLOBAL_ACC_R);
             set_block_status cache_index MODIFIED c }
           else Some c);
     Some (HIT, c) }"

definition rd_miss_base :: "u64 \<Rightarrow> nat \<Rightarrow> nat \<Rightarrow> u32 \<Rightarrow> cache_sys \<Rightarrow> (cache_request_status \<times> cache_sys) option" where
  "rd_miss_base addr cache_index p time c =
     (if miss_queue_full 1 c then Some (RESERVATION_FAIL, c)
      else do {
        (do_miss, wb, c) \<leftarrow> send_read_request (block_addr (cs_cfg c) addr) cache_index p time False False c;
        if do_miss then
          (case wb of
             Some evicted \<Rightarrow>
               if m_write_policy (cs_cfg c) \<noteq> WRITE_THROUGH then do {
                 let (w, c) = new_mf (wrbk_mf c (m_block_addr evicted)) c;
                 c \<leftarrow> send_write_request w WRITE_BACK_REQUEST_SENT time c;
                 Some (MISS, c) }
               else Some (MISS, c)
           | None \<Rightarrow> Some (MISS, c))
        else Some (RESERVATION_FAIL, c) })"

section \<open>The access functions\<close>

text \<open>The function pointers that the constructor sets from the configuration.\<close>

definition m_wr_hit :: "u64 \<Rightarrow> nat \<Rightarrow> nat \<Rightarrow> u32 \<Rightarrow> cache_sys \<Rightarrow> (cache_request_status \<times> cache_sys) option" where
  "m_wr_hit addr cache_index p time c =
     (case m_write_policy (cs_cfg c) of
        READ_ONLY \<Rightarrow> None
      | WRITE_BACK \<Rightarrow> wr_hit_wb addr cache_index p time c
      | WRITE_THROUGH \<Rightarrow> wr_hit_wt addr cache_index p time c
      | WRITE_EVICT \<Rightarrow> wr_hit_we addr cache_index p time c
      | LOCAL_WB_GLOBAL_WT \<Rightarrow> wr_hit_global_we_local_wb addr cache_index p time c)"

definition m_wr_miss :: "u64 \<Rightarrow> nat \<Rightarrow> nat \<Rightarrow> u32 \<Rightarrow> cache_sys \<Rightarrow> (cache_request_status \<times> cache_sys) option" where
  "m_wr_miss addr cache_index p time c =
     (case m_write_alloc_policy (cs_cfg c) of
        WRITE_ALLOCATE \<Rightarrow> wr_miss_wa addr cache_index p time c
      | NO_WRITE_ALLOCATE \<Rightarrow> wr_miss_no_wa addr cache_index p time c)"

definition process_tag_probe :: "bool \<Rightarrow> cache_request_status \<Rightarrow> u64 \<Rightarrow> nat \<Rightarrow> nat \<Rightarrow> u32 \<Rightarrow> cache_sys
    \<Rightarrow> (cache_request_status \<times> cache_sys) option" where
  "process_tag_probe wr probe_status addr cache_index p time c = do {
     (access_status, c) \<leftarrow>
       (if wr then
          (if probe_status = HIT then m_wr_hit addr cache_index p time c
           else if probe_status \<noteq> RESERVATION_FAIL then m_wr_miss addr cache_index p time c
           else Some (probe_status, c))
        else
          (if probe_status = HIT then rd_hit_base addr cache_index p time c
           else if probe_status \<noteq> RESERVATION_FAIL then rd_miss_base addr cache_index p time c
           else Some (probe_status, c)));
     c \<leftarrow> use_data_port p access_status c;
     Some (access_status, c) }"

text \<open>\<open>data_cache::access\<close>, which \<open>l1_cache::access\<close> and \<open>l2_cache::access\<close> call; the event list of the
  caller is empty at the call. The index \<open>(unsigned) -1\<close> it starts with is never used.\<close>

definition data_cache_access :: "u64 \<Rightarrow> nat \<Rightarrow> u32 \<Rightarrow> cache_sys \<Rightarrow> (cache_request_status \<times> cache_sys) option" where
  "data_cache_access addr p time c = do {
     mf \<leftarrow> cs_heap c p;
     _ \<leftarrow> assert_c (mf_data_size mf \<le> m_line_sz (cs_cfg c));
     let wr = mf_is_write mf;
     (probe_status, cache_index) \<leftarrow> ta_probe (cs_cfg c) (cs_tags c) (block_addr (cs_cfg c) addr) (2 ^ 32 - 1);
     (access_status, c) \<leftarrow> process_tag_probe wr probe_status addr cache_index p time c;
     st \<leftarrow> inc_stats (int (type_index (mf_access_type mf)))
       (int (status_index (select_stats_status probe_status access_status))) (cs_stats c);
     Some (access_status, c\<lparr>cs_stats := st\<rparr>) }"

definition read_only_cache_access :: "u64 \<Rightarrow> nat \<Rightarrow> u32 \<Rightarrow> cache_sys \<Rightarrow> (cache_request_status \<times> cache_sys) option" where
  "read_only_cache_access addr p time c = do {
     mf \<leftarrow> cs_heap c p;
     _ \<leftarrow> assert_c (mf_data_size mf \<le> m_line_sz (cs_cfg c));
     _ \<leftarrow> assert_c (m_write_policy (cs_cfg c) = READ_ONLY);
     _ \<leftarrow> assert_c (\<not> mf_is_write mf);
     let baddr = block_addr (cs_cfg c) addr;
     (status, cache_index) \<leftarrow> ta_probe (cs_cfg c) (cs_tags c) baddr (2 ^ 32 - 1);
     (cache_status, c) \<leftarrow>
       (if status = HIT then do {
          (cache_status, _, ta) \<leftarrow> ta_access (cs_cfg c) baddr time cache_index (cs_tags c);
          Some (cache_status, c\<lparr>cs_tags := ta\<rparr>) }
        else if status \<noteq> RESERVATION_FAIL then
          (if \<not> miss_queue_full 0 c then do {
             (do_miss, _, c) \<leftarrow> send_read_request baddr cache_index p time True False c;
             Some (if do_miss then MISS else RESERVATION_FAIL, c) }
           else Some (RESERVATION_FAIL, c))
        else Some (RESERVATION_FAIL, c));
     st \<leftarrow> inc_stats (int (type_index (mf_access_type mf)))
       (int (status_index (select_stats_status status cache_status))) (cs_stats c);
     Some (cache_status, c\<lparr>cs_stats := st\<rparr>) }"

section \<open>A rejected access has no effect\<close>

lemma send_read_no_miss:
  "send_read_request b i p t ro wa c = Some (False, wb, c') \<Longrightarrow> c' = c"
  by (auto simp: send_read_request_def Let_def bind_eq_Some_conv split: if_splits)

lemma send_read_accepted:
  assumes "\<not> mshr_full (cs_mshrs c) b" and "length (cs_miss_queue c) < m_miss_queue_size (cs_cfg c)"
  shows "send_read_request b i p t ro wa c \<noteq> Some (False, wb, c')"
  using assms by (auto simp: send_read_request_def Let_def bind_eq_Some_conv split: if_splits)

lemma wr_hit_wb_accepts: "wr_hit_wb addr i p t c \<noteq> Some (RESERVATION_FAIL, c')"
  by (auto simp: wr_hit_wb_def bind_eq_Some_conv)

lemma wr_hit_wt_rejects: "wr_hit_wt addr i p t c = Some (RESERVATION_FAIL, c') \<Longrightarrow> c' = c"
  by (auto simp: wr_hit_wt_def bind_eq_Some_conv split: if_splits)

lemma wr_hit_we_rejects: "wr_hit_we addr i p t c = Some (RESERVATION_FAIL, c') \<Longrightarrow> c' = c"
  by (auto simp: wr_hit_we_def bind_eq_Some_conv split: if_splits)

lemma wr_hit_global_rejects:
  "wr_hit_global_we_local_wb addr i p t c = Some (RESERVATION_FAIL, c') \<Longrightarrow> c' = c"
  using wr_hit_wb_accepts wr_hit_we_rejects
  by (auto simp: wr_hit_global_we_local_wb_def bind_eq_Some_conv split: if_splits)

lemma m_wr_hit_rejects: "m_wr_hit addr i p t c = Some (RESERVATION_FAIL, c') \<Longrightarrow> c' = c"
  using wr_hit_wb_accepts wr_hit_wt_rejects wr_hit_we_rejects wr_hit_global_rejects
  by (auto simp: m_wr_hit_def split: write_policy.splits)

lemma rd_hit_accepts: "rd_hit_base addr i p t c \<noteq> Some (RESERVATION_FAIL, c')"
  by (auto simp: rd_hit_base_def bind_eq_Some_conv)

lemma rd_miss_rejects: "rd_miss_base addr i p t c = Some (RESERVATION_FAIL, c') \<Longrightarrow> c' = c"
  by (auto simp: rd_miss_base_def bind_eq_Some_conv Let_def split: if_splits option.splits prod.splits
      dest: send_read_no_miss)

lemma wr_miss_no_wa_rejects: "wr_miss_no_wa addr i p t c = Some (RESERVATION_FAIL, c') \<Longrightarrow> c' = c"
  by (auto simp: wr_miss_no_wa_def bind_eq_Some_conv split: if_splits)

lemma send_write_frame:
  assumes "send_write_request p e t c = Some c'"
  shows "cs_cfg c' = cs_cfg c \<and> cs_tags c' = cs_tags c \<and> cs_mshrs c' = cs_mshrs c
    \<and> cs_miss_queue c' = cs_miss_queue c @ [p] \<and> cs_extra c' = cs_extra c \<and> cs_stats c' = cs_stats c"
  using assms by (auto simp: send_write_request_def upd_mf_def bind_eq_Some_conv)

lemma wr_miss_wa_rejects:
  assumes "wr_miss_wa addr i p t c = Some (RESERVATION_FAIL, c')"
  shows "c' = c"
proof (rule ccontr)
  assume neq: "c' \<noteq> c"
  let ?b = "block_addr (cs_cfg c) addr"
  have room: "length (cs_miss_queue c) + 2 < m_miss_queue_size (cs_cfg c)" "\<not> mshr_full (cs_mshrs c) ?b"
    using assms neq by (auto simp: wr_miss_wa_def Let_def miss_queue_full_def split: if_splits)
  then obtain c1 mf where c1: "send_write_request p WRITE_REQUEST_SENT t c = Some c1" "cs_heap c1 p = Some mf"
    using assms neq by (auto simp: wr_miss_wa_def Let_def bind_eq_Some_conv split: if_splits)
  obtain n c2 where c2: "new_mf (mf\<lparr>mf_access_type := cs_wr_alloc_type c1, mf_is_write := False,
      mf_isatomic := False, mf_status := MEM_FETCH_INITIALIZED, mf_status_change := cs_now c1\<rparr>) c1 = (n, c2)"
    by fastforce
  have open2: "\<not> mshr_full (cs_mshrs c2) ?b" "length (cs_miss_queue c2) < m_miss_queue_size (cs_cfg c2)"
    using room c2 send_write_frame [OF c1(1)] by (auto simp: new_mf_def)
  have free: "\<not> miss_queue_full 2 c" using room by (simp add: miss_queue_full_def)
  note accepted = send_read_accepted [OF open2, of i n t False True]
  have "wr_miss_wa addr i p t c \<noteq> Some (RESERVATION_FAIL, c')"
  proof (cases "send_read_request ?b i n t False True c2")
    case None
    with room free c1 c2 show ?thesis by (simp add: wr_miss_wa_def Let_def)
  next
    case (Some r)
    obtain d wb c3 where r: "r = (d, wb, c3)" by (cases r)
    with Some accepted have "d" by (cases d) auto
    with Some r have "send_read_request ?b i n t False True c2 = Some (True, wb, c3)" by simp
    with room free c1 c2 show ?thesis
      by (cases wb) (auto simp: wr_miss_wa_def Let_def bind_eq_Some_conv split: prod.splits)
  qed
  with assms show False by simp
qed

lemma m_wr_miss_rejects: "m_wr_miss addr i p t c = Some (RESERVATION_FAIL, c') \<Longrightarrow> c' = c"
  using wr_miss_wa_rejects wr_miss_no_wa_rejects
  by (auto simp: m_wr_miss_def split: write_allocate_policy.splits)

lemma process_tag_probe_rejects:
  assumes "process_tag_probe wr ps addr i p t c = Some (RESERVATION_FAIL, c')"
  shows "c' = c"
proof -
  obtain c1 where "(if wr then
          (if ps = HIT then m_wr_hit addr i p t c
           else if ps \<noteq> RESERVATION_FAIL then m_wr_miss addr i p t c
           else Some (ps, c))
        else
          (if ps = HIT then rd_hit_base addr i p t c
           else if ps \<noteq> RESERVATION_FAIL then rd_miss_base addr i p t c
           else Some (ps, c))) = Some (RESERVATION_FAIL, c1)" "use_data_port p RESERVATION_FAIL c1 = Some c'"
    using assms by (auto simp: process_tag_probe_def bind_eq_Some_conv)
  moreover from this(2) have "c' = c1" by (auto simp: use_data_port_def bind_eq_Some_conv)
  ultimately show ?thesis
    using m_wr_hit_rejects m_wr_miss_rejects rd_hit_accepts rd_miss_rejects by (auto split: if_splits)
qed

lemma data_access_rejects:
  assumes "data_cache_access addr p t c = Some (RESERVATION_FAIL, c')"
  shows "\<exists>st. c' = c\<lparr>cs_stats := st\<rparr>"
  using assms process_tag_probe_rejects
  by (fastforce simp: data_cache_access_def Let_def bind_eq_Some_conv)

section \<open>The bound on the miss queue\<close>

definition queue_ok :: "cache_sys \<Rightarrow> bool" where
  "queue_ok c \<longleftrightarrow> length (cs_miss_queue c) \<le> m_miss_queue_size (cs_cfg c)"

lemma upd_mf_frame:
  "upd_mf p g c = Some c' \<Longrightarrow> cs_cfg c' = cs_cfg c \<and> cs_tags c' = cs_tags c \<and> cs_mshrs c' = cs_mshrs c
    \<and> cs_miss_queue c' = cs_miss_queue c \<and> cs_extra c' = cs_extra c \<and> cs_stats c' = cs_stats c"
  by (auto simp: upd_mf_def bind_eq_Some_conv)

lemma new_mf_frame:
  "new_mf mf c = (n, c') \<Longrightarrow> cs_cfg c' = cs_cfg c \<and> cs_tags c' = cs_tags c \<and> cs_mshrs c' = cs_mshrs c
    \<and> cs_miss_queue c' = cs_miss_queue c \<and> cs_extra c' = cs_extra c \<and> cs_stats c' = cs_stats c"
  by (auto simp: new_mf_def)

lemma set_block_frame:
  "set_block_status i s c = Some c' \<Longrightarrow> cs_cfg c' = cs_cfg c \<and> cs_mshrs c' = cs_mshrs c
    \<and> cs_miss_queue c' = cs_miss_queue c \<and> cs_extra c' = cs_extra c \<and> cs_stats c' = cs_stats c"
  by (auto simp: set_block_status_def bind_eq_Some_conv)

lemma tag_access_frame:
  "tag_access ro a t i c = Some (j, wb, c') \<Longrightarrow> cs_cfg c' = cs_cfg c \<and> cs_mshrs c' = cs_mshrs c
    \<and> cs_miss_queue c' = cs_miss_queue c \<and> cs_extra c' = cs_extra c \<and> cs_stats c' = cs_stats c"
  by (auto simp: tag_access_def bind_eq_Some_conv split: if_splits)

lemma add_to_mshr_frame:
  "add_to_mshr b p c = Some c' \<Longrightarrow> cs_cfg c' = cs_cfg c \<and> cs_tags c' = cs_tags c
    \<and> cs_miss_queue c' = cs_miss_queue c \<and> cs_extra c' = cs_extra c \<and> cs_stats c' = cs_stats c"
  by (auto simp: add_to_mshr_def bind_eq_Some_conv)

lemmas frames = send_write_frame upd_mf_frame new_mf_frame set_block_frame tag_access_frame add_to_mshr_frame

section \<open>The invariant of a cache\<close>

text \<open>
  The tag array and the miss table keep their invariants, and the miss queue its bound.
\<close>

definition cs_inv :: "cache_sys \<Rightarrow> bool" where
  "cs_inv c \<longleftrightarrow> cfg_ok (cs_cfg c) \<and> ta_inv (cs_cfg c) (cs_tags c) \<and> mshr_inv (cs_mshrs c)
     \<and> 0 < m_max_merged (cs_mshrs c) \<and> queue_ok c"

lemma cs_inv_frame:
  assumes "cs_inv c" and "cs_cfg c' = cs_cfg c" and "cs_tags c' = cs_tags c" and "cs_mshrs c' = cs_mshrs c"
    and "length (cs_miss_queue c') \<le> m_miss_queue_size (cs_cfg c)"
  shows "cs_inv c'"
  using assms by (simp add: cs_inv_def queue_ok_def)

lemma cs_inv_tags:
  assumes "cs_inv c" and "cs_cfg c' = cs_cfg c" and "ta_inv (cs_cfg c) (cs_tags c')" and "cs_mshrs c' = cs_mshrs c"
    and "cs_miss_queue c' = cs_miss_queue c"
  shows "cs_inv c'"
  using assms by (simp add: cs_inv_def queue_ok_def)

lemma ta_probe_cong: "m_lines ta' = m_lines ta \<Longrightarrow> ta_probe cfg ta' a i = ta_probe cfg ta a i"
  by (simp add: ta_probe_def)

lemma ta_probe_idx:
  assumes "ta_probe cfg ta a i = Some (s, k)" and "s \<noteq> RESERVATION_FAIL"
  shows "ta_probe cfg ta a j = Some (s, k)"
proof -
  obtain y r where y: "set_index cfg a = Some y" and r: "probe_ways cfg (m_lines ta) (tag_of cfg a)
      (map (\<lambda>way. y * m_assoc cfg + way) [0..<m_assoc cfg]) probe_start = Some r"
    using assms(1) by (auto simp: ta_probe_def bind_eq_Some_conv)
  show ?thesis
  proof (cases r)
    case (Inl hit)
    with y r assms(1) show ?thesis by (simp add: ta_probe_def)
  next
    case (Inr st)
    with y r assms show ?thesis by (cases "all_reserved st") (auto simp: ta_probe_def bind_eq_Some_conv)
  qed
qed

lemma ta_access_ro_wb:
  "ta_access cfg a t i ta = Some (s, j, ta') \<Longrightarrow> ta_access_wb cfg a t i ta = Some (s, j, None, ta')"
  by (auto simp: ta_access_def bind_eq_Some_conv)

lemma tag_access_inv:
  assumes "cs_inv c" and "tag_of (cs_cfg c) a = a" and "tag_access ro a t i c = Some (j, wb, c')"
  shows "cs_inv c'"
proof -
  obtain s wb' ta where ta: "ta_access_wb (cs_cfg c) a t i (cs_tags c) = Some (s, j, wb', ta)"
    "c' = c\<lparr>cs_tags := ta\<rparr>"
    using assms(3) by (auto simp: tag_access_def bind_eq_Some_conv split: if_splits dest: ta_access_ro_wb)
  have "ta_inv (cs_cfg c) ta"
    using assms(1,2) ta(1) by (auto simp: cs_inv_def intro: ta_access_inv)
  with assms(1) ta(2) show ?thesis by (simp add: cs_inv_def queue_ok_def)
qed

lemma hit_access:
  assumes "cs_inv c" and "tag_of (cs_cfg c) a = a" and "ta_probe (cs_cfg c) (cs_tags c) a i' = Some (HIT, k)"
    and "tag_access True a t i c = Some (j, wb, c')"
  shows "j = k \<and> k < get_num_lines (cs_cfg c) \<and> live (m_lines (cs_tags c') ! k)"
proof -
  have cfg: "cfg_ok (cs_cfg c)" and inv: "ta_inv (cs_cfg c) (cs_tags c)" using assms(1) by (auto simp: cs_inv_def)
  obtain s where s: "set_index (cs_cfg c) a = Some s" "s < unat (m_nset (cs_cfg c))"
    using set_index_ok [OF cfg] by (auto simp: ok_def)
  have len: "get_num_lines (cs_cfg c) \<le> length (m_lines (cs_tags c))" using inv by (simp add: ta_inv_def)
  from ta_probe_partial [OF s(2,1) len assms(3)] have k: "k < get_num_lines (cs_cfg c)" "live (m_lines (cs_tags c) ! k)"
    by (auto simp: probe_result_def holds_block_def)
  have p: "ta_probe (cs_cfg c) ((cs_tags c)\<lparr>m_access := n\<rparr>) a i = Some (HIT, k)" for n
    using ta_probe_idx [OF assms(3)] by (simp add: ta_probe_cong [of "(cs_tags c)\<lparr>m_access := n\<rparr>" "cs_tags c"])
  have "j = k \<and> m_lines (cs_tags c') = (m_lines (cs_tags c))[k := (m_lines (cs_tags c) ! k)\<lparr>m_last_access_time := t\<rparr>]"
    using assms(4) p
    by (auto simp: tag_access_def ta_access_def ta_access_wb_def Let_def bind_eq_Some_conv upd_line_eq_Some)
  with k len show ?thesis by (auto simp: live_def)
qed

lemma set_status_inv:
  assumes "cs_inv c" and "set_block_status k s c = Some c'"
    and "s = INVALID \<or> (k < get_num_lines (cs_cfg c) \<longrightarrow> live (m_lines (cs_tags c) ! k))"
  shows "cs_inv c'"
proof -
  obtain ta where ta: "upd_line k (m_status_update (\<lambda>_. s)) (cs_tags c) = Some ta" "c' = c\<lparr>cs_tags := ta\<rparr>"
    using assms(2) by (auto simp: set_block_status_def bind_eq_Some_conv)
  have inv: "ta_inv (cs_cfg c) (cs_tags c)" using assms(1) by (simp add: cs_inv_def)
  have "ta_inv (cs_cfg c) ta"
  proof (cases "k < get_num_lines (cs_cfg c)")
    case True
    with inv show ?thesis
      by (rule ta_inv_keep [where b = "(m_lines (cs_tags c) ! k)\<lparr>m_status := s\<rparr>"])
        (use ta(1) assms(3) True in \<open>auto simp: upd_line_eq_Some live_def\<close>)
  next
    case False
    with inv ta(1) show ?thesis by (simp add: ta_inv_def upd_line_eq_Some)
  qed
  with assms(1) ta(2) show ?thesis by (simp add: cs_inv_def queue_ok_def)
qed

lemma send_write_inv:
  assumes "cs_inv c" and "\<not> miss_queue_full 0 c" and "send_write_request p e t c = Some c'"
  shows "cs_inv c'"
  by (rule cs_inv_frame [OF assms(1)])
    (use assms(2) send_write_frame [OF assms(3)] in \<open>auto simp: miss_queue_full_def\<close>)

lemma add_to_mshr_inv:
  assumes "cs_inv c" and "\<not> mshr_full (cs_mshrs c) b" and "add_to_mshr b p c = Some c'"
  shows "cs_inv c'"
proof -
  obtain at t where t: "mshr_add b p at (cs_mshrs c) = Some t" "c' = c\<lparr>cs_mshrs := t\<rparr>"
    using assms(3) by (auto simp: add_to_mshr_def bind_eq_Some_conv)
  have "mshr_wf (cs_mshrs c)" using assms(1) by (simp add: cs_inv_def mshr_wf_def)
  from mshrs.add_ok [OF this assms(2), of "(p, at)"] t(1) have "mshr_wf t" by auto
  with assms(1) t(2) show ?thesis by (simp add: cs_inv_def mshr_wf_def queue_ok_def)
qed

lemma send_read_inv:
  assumes "cs_inv c" and "tag_of (cs_cfg c) b = b" and "send_read_request b i p t ro wa c = Some (d, wb, c')"
  shows "cs_inv c' \<and> cs_cfg c' = cs_cfg c \<and> length (cs_miss_queue c') \<le> Suc (length (cs_miss_queue c))"
proof -
  consider (none) "d = False" | (merge) "mshr_probe (cs_mshrs c) b" "\<not> mshr_full (cs_mshrs c) b" "d"
    | (new) "\<not> mshr_probe (cs_mshrs c) b" "\<not> mshr_full (cs_mshrs c) b" "d"
        "length (cs_miss_queue c) < m_miss_queue_size (cs_cfg c)"
    using assms(3) by (auto simp: send_read_request_def Let_def split: if_splits)
  then show ?thesis
  proof cases
    case none
    with assms(1,3) show ?thesis using send_read_no_miss by fastforce
  next
    case merge
    then obtain j wb1 c1 where c1: "tag_access ro b t i c = Some (j, wb1, c1)" "add_to_mshr b p c1 = Some c'"
      using assms(3) by (auto simp: send_read_request_def Let_def bind_eq_Some_conv)
    have "cs_inv c1" by (rule tag_access_inv [OF assms(1,2) c1(1)])
    moreover have "cs_mshrs c1 = cs_mshrs c" using tag_access_frame [OF c1(1)] by simp
    ultimately have "cs_inv c'" using merge c1(2) by (auto intro: add_to_mshr_inv)
    then show ?thesis using tag_access_frame [OF c1(1)] add_to_mshr_frame [OF c1(2)] by simp
  next
    case new
    then obtain j wb1 c1 c2 where c1: "tag_access ro b t i c = Some (j, wb1, c1)" "add_to_mshr b p c1 = Some c2"
      and rest: "cs_cfg c' = cs_cfg c2" "cs_tags c' = cs_tags c2" "cs_mshrs c' = cs_mshrs c2"
        "cs_miss_queue c' = cs_miss_queue c2 @ [p]"
      using assms(3)
      by (auto simp: send_read_request_def Let_def bind_eq_Some_conv upd_mf_def)
    have "cs_inv c1" by (rule tag_access_inv [OF assms(1,2) c1(1)])
    moreover have "cs_mshrs c1 = cs_mshrs c" using tag_access_frame [OF c1(1)] by simp
    ultimately have "cs_inv c2" using new c1(2) by (auto intro: add_to_mshr_inv)
    then have "cs_inv c'"
      by (rule cs_inv_frame)
        (use new rest tag_access_frame [OF c1(1)] add_to_mshr_frame [OF c1(2)] in auto)
    then show ?thesis using rest tag_access_frame [OF c1(1)] add_to_mshr_frame [OF c1(2)] by simp
  qed
qed

lemma wr_hit_wb_inv:
  assumes "cs_inv c" and "ta_probe (cs_cfg c) (cs_tags c) (block_addr (cs_cfg c) addr) i' = Some (HIT, k)"
    and "wr_hit_wb addr k p t c = Some (s, c')"
  shows "cs_inv c'"
proof -
  let ?b = "block_addr (cs_cfg c) addr"
  have al: "tag_of (cs_cfg c) ?b = ?b" by (simp add: block_addr_tag)
  obtain j wb c1 where c1: "tag_access True ?b t k c = Some (j, wb, c1)" "set_block_status j MODIFIED c1 = Some c'"
    using assms(3) by (auto simp: wr_hit_wb_def bind_eq_Some_conv)
  show ?thesis
    by (rule set_status_inv [OF tag_access_inv [OF assms(1) al c1(1)] c1(2)])
      (use hit_access [OF assms(1) al assms(2) c1(1)] in simp)
qed

lemma wr_hit_wt_inv:
  assumes "cs_inv c" and "ta_probe (cs_cfg c) (cs_tags c) (block_addr (cs_cfg c) addr) i' = Some (HIT, k)"
    and "wr_hit_wt addr k p t c = Some (s, c')"
  shows "cs_inv c'"
proof (cases "miss_queue_full 0 c")
  case True
  with assms(1,3) show ?thesis by (simp add: wr_hit_wt_def)
next
  case False
  let ?b = "block_addr (cs_cfg c) addr"
  have al: "tag_of (cs_cfg c) ?b = ?b" by (simp add: block_addr_tag)
  obtain j wb c1 c2 where c1: "tag_access True ?b t k c = Some (j, wb, c1)"
    "set_block_status j MODIFIED c1 = Some c2" "send_write_request p WRITE_REQUEST_SENT t c2 = Some c'"
    using assms(3) False by (auto simp: wr_hit_wt_def bind_eq_Some_conv)
  have "cs_inv c2"
    by (rule set_status_inv [OF tag_access_inv [OF assms(1) al c1(1)] c1(2)])
      (use hit_access [OF assms(1) al assms(2) c1(1)] in simp)
  moreover have "\<not> miss_queue_full 0 c2"
    using False tag_access_frame [OF c1(1)] set_block_frame [OF c1(2)] by (simp add: miss_queue_full_def)
  ultimately show ?thesis using c1(3) by (rule send_write_inv)
qed

lemma wr_hit_we_inv:
  assumes "cs_inv c" and "wr_hit_we addr k p t c = Some (s, c')"
  shows "cs_inv c'"
proof (cases "miss_queue_full 0 c")
  case True
  with assms show ?thesis by (simp add: wr_hit_we_def)
next
  case False
  then obtain c1 where c1: "send_write_request p WRITE_REQUEST_SENT t c = Some c1"
    "set_block_status k INVALID c1 = Some c'"
    using assms(2) by (auto simp: wr_hit_we_def bind_eq_Some_conv)
  show ?thesis by (rule set_status_inv [OF send_write_inv [OF assms(1) False c1(1)] c1(2)]) simp
qed

lemma m_wr_hit_inv:
  assumes "cs_inv c" and "ta_probe (cs_cfg c) (cs_tags c) (block_addr (cs_cfg c) addr) i' = Some (HIT, k)"
    and "m_wr_hit addr k p t c = Some (s, c')"
  shows "cs_inv c'"
  using assms wr_hit_wb_inv [OF assms(1,2)] wr_hit_wt_inv [OF assms(1,2)] wr_hit_we_inv [OF assms(1)]
  by (auto simp: m_wr_hit_def wr_hit_global_we_local_wb_def bind_eq_Some_conv
      split: write_policy.splits if_splits)

lemma rd_hit_base_inv:
  assumes "cs_inv c" and "ta_probe (cs_cfg c) (cs_tags c) (block_addr (cs_cfg c) addr) i' = Some (HIT, k)"
    and "rd_hit_base addr k p t c = Some (s, c')"
  shows "cs_inv c'"
proof -
  let ?b = "block_addr (cs_cfg c) addr"
  have al: "tag_of (cs_cfg c) ?b = ?b" by (simp add: block_addr_tag)
  obtain j wb c1 where c1: "tag_access True ?b t k c = Some (j, wb, c1)"
    "c' = c1 \<or> set_block_status j MODIFIED c1 = Some c'"
    using assms(3) by (auto simp: rd_hit_base_def bind_eq_Some_conv split: if_splits)
  have "cs_inv c1" by (rule tag_access_inv [OF assms(1) al c1(1)])
  with c1(2) hit_access [OF assms(1) al assms(2) c1(1)] show ?thesis
    by (auto intro: set_status_inv)
qed

text \<open>After an accepted read request, a write back request of the evicted block may follow.\<close>

lemma rd_miss_base_inv:
  assumes "cs_inv c" and "rd_miss_base addr k p t c = Some (s, c')"
  shows "cs_inv c'"
proof (cases "miss_queue_full 1 c")
  case True
  with assms show ?thesis by (simp add: rd_miss_base_def)
next
  case False
  let ?b = "block_addr (cs_cfg c) addr"
  obtain d wb c1 where c1: "send_read_request ?b k p t False False c = Some (d, wb, c1)"
    using assms(2) False by (auto simp: rd_miss_base_def bind_eq_Some_conv)
  have inv: "cs_inv c1 \<and> cs_cfg c1 = cs_cfg c \<and> length (cs_miss_queue c1) \<le> Suc (length (cs_miss_queue c))"
    by (rule send_read_inv [OF assms(1) _ c1]) (simp add: block_addr_tag)
  have res: "c' = c1 \<or> (\<exists>w mf c2. new_mf mf c1 = (w, c2) \<and> send_write_request w WRITE_BACK_REQUEST_SENT t c2 = Some c')"
    using assms(2) False c1
    by (auto simp: rd_miss_base_def bind_eq_Some_conv split: if_splits option.splits prod.splits)
  show ?thesis
  proof (cases "c' = c1")
    case True
    with inv show ?thesis by simp
  next
    case neq: False
    with res obtain w mf c2 where c2: "new_mf mf c1 = (w, c2)" "send_write_request w WRITE_BACK_REQUEST_SENT t c2 = Some c'"
      by blast
    have "cs_inv c2"
      by (rule cs_inv_frame) (use inv new_mf_frame [OF c2(1)] in \<open>auto simp: cs_inv_def queue_ok_def\<close>)
    moreover have "\<not> miss_queue_full 0 c2"
      using False inv new_mf_frame [OF c2(1)] by (auto simp: miss_queue_full_def)
    ultimately show ?thesis using c2(2) by (rule send_write_inv)
  qed
qed

lemma wr_miss_no_wa_inv: "cs_inv c \<Longrightarrow> wr_miss_no_wa addr k p t c = Some (s, c') \<Longrightarrow> cs_inv c'"
  by (auto simp: wr_miss_no_wa_def bind_eq_Some_conv split: if_splits intro: send_write_inv)

lemma wr_miss_wa_inv:
  assumes "cs_inv c" and "wr_miss_wa addr k p t c = Some (s, c')"
  shows "cs_inv c'"
proof (cases "s = RESERVATION_FAIL")
  case True
  with assms wr_miss_wa_rejects show ?thesis by blast
next
  case ok: False
  let ?b = "block_addr (cs_cfg c) addr"
  have room: "length (cs_miss_queue c) + 2 < m_miss_queue_size (cs_cfg c)"
    using assms(2) ok by (auto simp: wr_miss_wa_def Let_def miss_queue_full_def split: if_splits)
  then have free: "\<not> miss_queue_full 0 c" "\<not> miss_queue_full 2 c" by (auto simp: miss_queue_full_def)
  obtain c1 mf where c1: "send_write_request p WRITE_REQUEST_SENT t c = Some c1" "cs_heap c1 p = Some mf"
    using assms(2) ok by (auto simp: wr_miss_wa_def Let_def bind_eq_Some_conv split: if_splits)
  obtain n c2 where c2: "new_mf (mf\<lparr>mf_access_type := cs_wr_alloc_type c1, mf_is_write := False,
      mf_isatomic := False, mf_status := MEM_FETCH_INITIALIZED, mf_status_change := cs_now c1\<rparr>) c1 = (n, c2)"
    by fastforce
  have f1: "cs_cfg c1 = cs_cfg c" "length (cs_miss_queue c1) = Suc (length (cs_miss_queue c))"
    using send_write_frame [OF c1(1)] by auto
  have "cs_inv c1" by (rule send_write_inv [OF assms(1) free(1) c1(1)])
  then have i2: "cs_inv c2"
    by (rule cs_inv_frame) (use new_mf_frame [OF c2] f1 room in auto)
  obtain d wb c3 where c3: "send_read_request ?b k n t False True c2 = Some (d, wb, c3)"
    and res: "c' = c3 \<or> (\<exists>w mf c4 c5. new_mf mf c3 = (w, c4) \<and>
      upd_mf w (mf_set_status (cs_miss_queue_status c4) t) (c4\<lparr>cs_miss_queue := cs_miss_queue c4 @ [w]\<rparr>) = Some c')"
    using assms(2) ok c1 c2
    by (auto simp: wr_miss_wa_def Let_def bind_eq_Some_conv split: if_splits option.splits prod.splits)
  have inv: "cs_inv c3 \<and> cs_cfg c3 = cs_cfg c2 \<and> length (cs_miss_queue c3) \<le> Suc (length (cs_miss_queue c2))"
    by (rule send_read_inv [OF i2 _ c3]) (use f1 new_mf_frame [OF c2] in \<open>simp add: block_addr_tag\<close>)
  show ?thesis
  proof (cases "c' = c3")
    case True
    with inv show ?thesis by simp
  next
    case False
    with res obtain w mf c4 where c4: "new_mf mf c3 = (w, c4)"
      "upd_mf w (mf_set_status (cs_miss_queue_status c4) t) (c4\<lparr>cs_miss_queue := cs_miss_queue c4 @ [w]\<rparr>) = Some c'"
      by blast
    show ?thesis
      by (rule cs_inv_frame [of c3])
        (use inv new_mf_frame [OF c4(1)] upd_mf_frame [OF c4(2)] f1 room new_mf_frame [OF c2] in auto)
  qed
qed

lemma use_data_port_frame:
  "use_data_port p s c = Some c' \<Longrightarrow> cs_cfg c' = cs_cfg c \<and> cs_tags c' = cs_tags c \<and> cs_mshrs c' = cs_mshrs c
    \<and> cs_miss_queue c' = cs_miss_queue c"
  by (cases s) (auto simp: use_data_port_def Let_def bind_eq_Some_conv split: if_splits)

lemma use_data_port_inv: "cs_inv c \<Longrightarrow> use_data_port p s c = Some c' \<Longrightarrow> cs_inv c'"
  by (rule cs_inv_frame) (auto dest: use_data_port_frame simp: cs_inv_def queue_ok_def)

lemma process_tag_probe_inv:
  assumes "cs_inv c" and "ta_probe (cs_cfg c) (cs_tags c) (block_addr (cs_cfg c) addr) i' = Some (ps, k)"
    and "process_tag_probe wr ps addr k p t c = Some (s, c')"
  shows "cs_inv c'"
proof -
  obtain c1 where c1: "(if wr then
          (if ps = HIT then m_wr_hit addr k p t c
           else if ps \<noteq> RESERVATION_FAIL then m_wr_miss addr k p t c
           else Some (ps, c))
        else
          (if ps = HIT then rd_hit_base addr k p t c
           else if ps \<noteq> RESERVATION_FAIL then rd_miss_base addr k p t c
           else Some (ps, c))) = Some (s, c1)" "use_data_port p s c1 = Some c'"
    using assms(3) by (auto simp: process_tag_probe_def bind_eq_Some_conv)
  have "cs_inv c1"
    using c1(1) assms(1,2) m_wr_hit_inv [OF assms(1)] rd_hit_base_inv [OF assms(1)]
      rd_miss_base_inv [OF assms(1)] wr_miss_wa_inv [OF assms(1)] wr_miss_no_wa_inv [OF assms(1)]
    by (auto simp: m_wr_miss_def split: if_splits write_allocate_policy.splits)
  then show ?thesis using c1(2) by (rule use_data_port_inv)
qed

lemma cs_inv_stats [simp]: "cs_inv (c\<lparr>cs_stats := st\<rparr>) = cs_inv c"
  by (simp add: cs_inv_def queue_ok_def)

lemma data_cache_access_inv:
  assumes "cs_inv c" and "data_cache_access addr p t c = Some (s, c')"
  shows "cs_inv c'"
  using assms process_tag_probe_inv [OF assms(1)]
  by (fastforce simp: data_cache_access_def Let_def bind_eq_Some_conv)

lemma read_only_access_cases:
  assumes "read_only_cache_access addr p t c = Some (s, c')"
  shows "\<exists>c1 st. c' = c1\<lparr>cs_stats := st\<rparr> \<and> (c1 = c
    \<or> (\<exists>j k. tag_access True (block_addr (cs_cfg c) addr) t k c = Some (j, None, c1))
    \<or> (\<exists>k d wb. send_read_request (block_addr (cs_cfg c) addr) k p t True False c = Some (d, wb, c1)))"
proof -
  let ?b = "block_addr (cs_cfg c) addr"
  obtain ps k c1 cs st where c1: "(if ps = HIT then do {
          (cache_status, _, ta) \<leftarrow> ta_access (cs_cfg c) ?b t k (cs_tags c);
          Some (cache_status, c\<lparr>cs_tags := ta\<rparr>) }
        else if ps \<noteq> RESERVATION_FAIL then
          (if \<not> miss_queue_full 0 c then do {
             (do_miss, _, c) \<leftarrow> send_read_request ?b k p t True False c;
             Some (if do_miss then MISS else RESERVATION_FAIL, c) }
           else Some (RESERVATION_FAIL, c))
        else Some (RESERVATION_FAIL, c)) = Some (cs, c1)" and c': "c' = c1\<lparr>cs_stats := st\<rparr>"
    using assms by (auto simp: read_only_cache_access_def Let_def bind_eq_Some_conv)
  have "c1 = c \<or> (\<exists>j k. tag_access True ?b t k c = Some (j, None, c1))
    \<or> (\<exists>k d wb. send_read_request ?b k p t True False c = Some (d, wb, c1))"
  proof (cases "ps = HIT")
    case True
    with c1 show ?thesis by (auto simp: tag_access_def bind_eq_Some_conv)
  next
    case False
    with c1 show ?thesis by (auto simp: bind_eq_Some_conv split: if_splits)
  qed
  with c' show ?thesis by blast
qed

lemma read_only_access_inv:
  assumes "cs_inv c" and "read_only_cache_access addr p t c = Some (s, c')"
  shows "cs_inv c'"
proof -
  let ?b = "block_addr (cs_cfg c) addr"
  have al: "tag_of (cs_cfg c) ?b = ?b" by (simp add: block_addr_tag)
  obtain c1 st where "c' = c1\<lparr>cs_stats := st\<rparr>" "c1 = c
    \<or> (\<exists>j k. tag_access True ?b t k c = Some (j, None, c1))
    \<or> (\<exists>k d wb. send_read_request ?b k p t True False c = Some (d, wb, c1))"
    using read_only_access_cases [OF assms(2)] by blast
  moreover from this(2) have "cs_inv c1"
    using assms(1) tag_access_inv [OF assms(1) al] send_read_inv [OF assms(1) al] by blast
  ultimately show ?thesis by simp
qed

lemma replenish_frame:
  "replenish_port_bandwidth c = Some c' \<Longrightarrow> cs_cfg c' = cs_cfg c \<and> cs_tags c' = cs_tags c
    \<and> cs_mshrs c' = cs_mshrs c \<and> cs_miss_queue c' = cs_miss_queue c"
  by (auto simp: replenish_port_bandwidth_def Let_def bind_eq_Some_conv)

lemma cache_cycle_inv:
  assumes "cs_inv c" and "cache_cycle full c = Some (r, c')"
  shows "cs_inv c'"
proof -
  obtain c1 st where c1: "(case cs_miss_queue c of
          [] \<Rightarrow> Some (None, c)
        | p # rest \<Rightarrow> do {
            mf \<leftarrow> cs_heap c p;
            Some (if \<not> full (mf_size mf) (mf_is_write mf)
                  then (Some p, c\<lparr>cs_miss_queue := rest\<rparr>) else (None, c)) }) = Some (r, c1)"
    "replenish_port_bandwidth (c1\<lparr>cs_stats := st\<rparr>) = Some c'"
    using assms(2) by (auto simp: cache_cycle_def Let_def bind_eq_Some_conv)
  then have "cs_cfg c1 = cs_cfg c \<and> cs_tags c1 = cs_tags c \<and> cs_mshrs c1 = cs_mshrs c
      \<and> length (cs_miss_queue c1) \<le> length (cs_miss_queue c)"
    by (auto simp: bind_eq_Some_conv split: list.splits if_splits)
  with replenish_frame [OF c1(2)] assms(1) show ?thesis
    by (intro cs_inv_frame [OF assms(1)]) (auto simp: cs_inv_def queue_ok_def)
qed

lemma ta_fill_index_inv':
  assumes "ta_inv cfg ta" and "ta_fill_index cfg i time ta = Some ta'"
  shows "ta_inv cfg ta'"
proof (cases "i < get_num_lines cfg")
  case True
  with assms show ?thesis by (blast intro: ta_fill_index_inv)
next
  case False
  with assms show ?thesis
    by (auto simp: ta_fill_index_def block_fill_def bind_eq_Some_conv at_get_eq_Some upd_line_eq_Some ta_inv_def)
qed

lemma ta_fill_index_live:
  "ta_fill_index cfg i time ta = Some ta' \<Longrightarrow> live (m_lines ta' ! i)"
  by (auto simp: ta_fill_index_def block_fill_def bind_eq_Some_conv at_get_eq_Some upd_line_eq_Some live_def)

lemma cache_fill_cases:
  assumes "cs_extra c p = Some e" and "cache_fill p t c = Some c'"
  obtains ta at ms c2 c3 where "(case m_alloc_policy (cs_cfg c) of
        ON_MISS \<Rightarrow> ta_fill_index (cs_cfg c) (x_cache_index e) t (cs_tags c)
      | ON_FILL \<Rightarrow> ta_fill_addr (cs_cfg c) (x_block_addr e) t (cs_tags c)) = Some ta"
    and "mshr_mark_ready (x_block_addr e) (cs_mshrs c) = Some (at, ms)"
    and "(if at then do { _ \<leftarrow> assert_c (m_alloc_policy (cs_cfg c) = ON_MISS);
          set_block_status (x_cache_index e) MODIFIED c2 } else Some c2) = Some c3"
    and "cs_cfg c2 = cs_cfg c" "cs_tags c2 = ta" "cs_mshrs c2 = ms" "cs_miss_queue c2 = cs_miss_queue c"
      "cs_extra c2 = cs_extra c"
    and "c' = use_fill_port (c3\<lparr>cs_extra := (cs_extra c3)(p := None)\<rparr>)"
proof -
  obtain c0 where c0: "upd_mf p (mf_data_size_update (\<lambda>_. x_data_size e)) c = Some c0"
    using assms unfolding cache_fill_def by (cases "upd_mf p (mf_data_size_update (\<lambda>_. x_data_size e)) c") auto
  note f = upd_mf_frame [OF c0]
  obtain ta where ta: "(case m_alloc_policy (cs_cfg c) of
      ON_MISS \<Rightarrow> ta_fill_index (cs_cfg c) (x_cache_index e) t (cs_tags c)
    | ON_FILL \<Rightarrow> ta_fill_addr (cs_cfg c) (x_block_addr e) t (cs_tags c)) = Some ta"
    using assms c0 f by (auto simp: cache_fill_def Let_def bind_eq_Some_conv cong: allocation_policy.case_cong if_cong)
  obtain at ms where ms: "mshr_mark_ready (x_block_addr e) (cs_mshrs c) = Some (at, ms)"
    using assms c0 f ta by (auto simp: cache_fill_def Let_def bind_eq_Some_conv cong: allocation_policy.case_cong if_cong)
  let ?c2 = "c0\<lparr>cs_tags := ta, cs_mshrs := ms\<rparr>"
  obtain c3 where c3: "(if at then do { _ \<leftarrow> assert_c (m_alloc_policy (cs_cfg c) = ON_MISS);
        set_block_status (x_cache_index e) MODIFIED ?c2 } else Some ?c2) = Some c3"
    "c' = use_fill_port (c3\<lparr>cs_extra := (cs_extra c3)(p := None)\<rparr>)"
    using assms c0 f ta ms by (auto simp: cache_fill_def Let_def bind_eq_Some_conv cong: allocation_policy.case_cong if_cong)
  show thesis by (rule that [OF ta ms c3(1) _ _ _ _ _ c3(2)]) (use f in simp_all)
qed

lemma cache_fill_inv:
  assumes "cs_inv c" and "cs_extra c p = Some e" and "tag_of (cs_cfg c) (x_block_addr e) = x_block_addr e"
    and "x_block_addr e \<notin> set (m_current_response (cs_mshrs c))" and "cache_fill p t c = Some c'"
  shows "cs_inv c'"
proof -
  obtain ta at ms c2 c3 where ta: "(case m_alloc_policy (cs_cfg c) of
        ON_MISS \<Rightarrow> ta_fill_index (cs_cfg c) (x_cache_index e) t (cs_tags c)
      | ON_FILL \<Rightarrow> ta_fill_addr (cs_cfg c) (x_block_addr e) t (cs_tags c)) = Some ta"
    and ms: "mshr_mark_ready (x_block_addr e) (cs_mshrs c) = Some (at, ms)"
    and c3: "(if at then do { _ \<leftarrow> assert_c (m_alloc_policy (cs_cfg c) = ON_MISS);
          set_block_status (x_cache_index e) MODIFIED c2 } else Some c2) = Some c3"
    and c2: "cs_cfg c2 = cs_cfg c" "cs_tags c2 = ta" "cs_mshrs c2 = ms" "cs_miss_queue c2 = cs_miss_queue c"
      "cs_extra c2 = cs_extra c"
    and c': "c' = use_fill_port (c3\<lparr>cs_extra := (cs_extra c3)(p := None)\<rparr>)"
    by (rule cache_fill_cases [OF assms(2,5)])
  have cfg: "cfg_ok (cs_cfg c)" and inv: "ta_inv (cs_cfg c) (cs_tags c)" and mi: "mshr_inv (cs_mshrs c)"
    using assms(1) by (auto simp: cs_inv_def)
  have tai: "ta_inv (cs_cfg c) ta"
    using ta ta_fill_index_inv' [OF inv] ta_fill_addr_inv [OF cfg inv assms(3)]
    by (auto split: allocation_policy.splits)
  have "mshr_probe (cs_mshrs c) (x_block_addr e)"
    using ms by (auto simp: mshr_mark_ready_def mshr_probe_def bind_eq_Some_conv)
  from mshr_mark_ready_inv [OF mi this assms(4)] ms have msi: "mshr_inv ms" "m_max_merged ms = m_max_merged (cs_mshrs c)"
    by auto
  have "cs_inv c2"
    using assms(1) c2 tai msi by (simp add: cs_inv_def queue_ok_def)
  moreover have "live (m_lines ta ! x_cache_index e)" if "m_alloc_policy (cs_cfg c) = ON_MISS"
    using ta that by (auto intro: ta_fill_index_live)
  ultimately have "cs_inv c3"
    using c2 c3 by (cases at) (auto simp: bind_eq_Some_conv intro: set_status_inv)
  then show ?thesis by (simp add: c' use_fill_port_def cs_inv_def queue_ok_def)
qed

section \<open>Requests in flight\<close>

text \<open>
  Each request that waits for a fill is the only one for its block; the block is aligned, has an
  entry in the miss table and its fill has not come back yet.
\<close>

definition link_inv :: "cache_config \<Rightarrow> mshr_table \<Rightarrow> (nat \<Rightarrow> extra_mf_fields option) \<Rightarrow> bool" where
  "link_inv cfg t x \<longleftrightarrow>
     (\<forall>p e. x p = Some e \<longrightarrow> tag_of cfg (x_block_addr e) = x_block_addr e \<and> mshr_probe t (x_block_addr e)
        \<and> x_block_addr e \<notin> set (m_current_response t))
     \<and> (\<forall>p q e f. x p = Some e \<longrightarrow> x q = Some f \<longrightarrow> x_block_addr e = x_block_addr f \<longrightarrow> p = q)"

definition cs_link :: "cache_sys \<Rightarrow> bool" where
  "cs_link c = link_inv (cs_cfg c) (cs_mshrs c) (cs_extra c)"

lemma cs_link_frame:
  "cs_link c \<Longrightarrow> cs_cfg c' = cs_cfg c \<Longrightarrow> cs_mshrs c' = cs_mshrs c \<Longrightarrow> cs_extra c' = cs_extra c \<Longrightarrow> cs_link c'"
  by (simp add: cs_link_def)

lemma mshr_add_frame:
  assumes "mshr_add b p at t = Some t'"
  shows "m_current_response t' = m_current_response t \<and> (\<forall>a. mshr_probe t' a = (a = b \<or> mshr_probe t a))"
  using assms by (cases at) (auto simp: mshr_add_def Let_def bind_eq_Some_conv mshr_probe_def map_of_update)

lemma link_add:
  assumes "link_inv cfg t x" and "mshr_add b p at t = Some t'"
  shows "link_inv cfg t' x"
  using assms(1) mshr_add_frame [OF assms(2)] unfolding link_inv_def by metis

lemma link_new:
  assumes "link_inv cfg t x" and "mshr_inv t" and "\<not> mshr_probe t b" and "mshr_add b p at t = Some t'"
    and "tag_of cfg b = b" and "x_block_addr e = b"
  shows "link_inv cfg t' (x(p \<mapsto> e))"
proof -
  have "b \<notin> set (m_current_response t)" using assms(2,3) by (auto simp: mshr_inv_def)
  moreover have "x_block_addr f \<noteq> b" if "x q = Some f" for q f
    using assms(1,3) that by (auto simp: link_inv_def)
  ultimately show ?thesis
    using assms mshr_add_frame [OF assms(4)] unfolding link_inv_def
    by (auto split: if_splits)
qed

lemma send_read_link:
  assumes "cs_inv c" and "cs_link c" and "tag_of (cs_cfg c) b = b"
    and "send_read_request b i p t ro wa c = Some (d, wb, c')"
  shows "cs_link c'"
proof -
  consider (none) "d = False" | (merge) "mshr_probe (cs_mshrs c) b" "\<not> mshr_full (cs_mshrs c) b" "d"
    | (new) "\<not> mshr_probe (cs_mshrs c) b" "\<not> mshr_full (cs_mshrs c) b" "d"
        "length (cs_miss_queue c) < m_miss_queue_size (cs_cfg c)"
    using assms(4) by (auto simp: send_read_request_def Let_def split: if_splits)
  then show ?thesis
  proof cases
    case none
    with assms(2,4) show ?thesis using send_read_no_miss by fastforce
  next
    case merge
    then obtain j wb1 c1 where c1: "tag_access ro b t i c = Some (j, wb1, c1)" "add_to_mshr b p c1 = Some c'"
      using assms(4) by (auto simp: send_read_request_def Let_def bind_eq_Some_conv)
    note f = tag_access_frame [OF c1(1)] add_to_mshr_frame [OF c1(2)]
    obtain at where "mshr_add b p at (cs_mshrs c) = Some (cs_mshrs c')"
      using c1(2) f by (auto simp: add_to_mshr_def bind_eq_Some_conv)
    with assms(2) f show ?thesis by (auto simp: cs_link_def intro: link_add)
  next
    case new
    then obtain j wb1 c1 where t1: "tag_access ro b t i c = Some (j, wb1, c1)"
      using assms(4) by (auto simp: send_read_request_def Let_def bind_eq_Some_conv)
    then obtain c2 where c1: "tag_access ro b t i c = Some (j, wb1, c1)" "add_to_mshr b p c1 = Some c2"
      using assms(4) new by (auto simp: send_read_request_def Let_def bind_eq_Some_conv)
    have rest: "cs_cfg c' = cs_cfg c2 \<and> cs_mshrs c' = cs_mshrs c2 \<and>
        (\<exists>e. x_block_addr e = b \<and> cs_extra c' = (cs_extra c2)(p \<mapsto> e))"
      using assms(4) new c1 by (auto simp: send_read_request_def upd_mf_def Let_def bind_eq_Some_conv)
        (rule exI, rule conjI [rotated], rule refl, simp)+
    note f = tag_access_frame [OF c1(1)] add_to_mshr_frame [OF c1(2)]
    obtain at where "mshr_add b p at (cs_mshrs c) = Some (cs_mshrs c2)"
      using c1(2) f by (auto simp: add_to_mshr_def bind_eq_Some_conv)
    moreover have "mshr_inv (cs_mshrs c)" using assms(1) by (simp add: cs_inv_def)
    ultimately show ?thesis
      using assms(2,3) new(1) f rest by (auto simp: cs_link_def intro!: link_new)
  qed
qed

lemma send_write_link: "cs_link c \<Longrightarrow> send_write_request p e t c = Some c' \<Longrightarrow> cs_link c'"
  by (erule cs_link_frame) (auto dest: send_write_frame)

lemma new_mf_link: "cs_link c \<Longrightarrow> new_mf mf c = (n, c') \<Longrightarrow> cs_link c'"
  by (erule cs_link_frame) (auto dest: new_mf_frame)

lemma new_mf_inv:
  assumes "cs_inv c" and "new_mf mf c = (n, c')"
  shows "cs_inv c'"
  using assms new_mf_frame [OF assms(2)] by (simp add: cs_inv_def queue_ok_def)

lemma set_block_link: "cs_link c \<Longrightarrow> set_block_status i s c = Some c' \<Longrightarrow> cs_link c'"
  by (erule cs_link_frame) (auto dest: set_block_frame)

lemma tag_access_link: "cs_link c \<Longrightarrow> tag_access ro a t i c = Some (j, wb, c') \<Longrightarrow> cs_link c'"
  by (erule cs_link_frame) (auto dest: tag_access_frame)

lemmas links = send_write_link new_mf_link set_block_link tag_access_link

lemma m_wr_hit_link: "cs_link c \<Longrightarrow> m_wr_hit addr k p t c = Some (s, c') \<Longrightarrow> cs_link c'"
  by (erule cs_link_frame) (auto simp: m_wr_hit_def wr_hit_wb_def wr_hit_wt_def wr_hit_we_def
      wr_hit_global_we_local_wb_def bind_eq_Some_conv split: write_policy.splits if_splits
      dest!: send_write_frame set_block_frame tag_access_frame)

lemma rd_hit_link: "cs_link c \<Longrightarrow> rd_hit_base addr k p t c = Some (s, c') \<Longrightarrow> cs_link c'"
  by (erule cs_link_frame) (auto simp: rd_hit_base_def bind_eq_Some_conv split: if_splits
      dest!: set_block_frame tag_access_frame)

lemma rd_miss_link:
  assumes "cs_inv c" and "cs_link c" and "rd_miss_base addr k p t c = Some (s, c')"
  shows "cs_link c'"
proof (cases "miss_queue_full 1 c")
  case True
  with assms show ?thesis by (simp add: rd_miss_base_def)
next
  case False
  obtain d wb c1 where c1: "send_read_request (block_addr (cs_cfg c) addr) k p t False False c = Some (d, wb, c1)"
    using assms(3) False by (auto simp: rd_miss_base_def bind_eq_Some_conv)
  have "cs_link c1" by (rule send_read_link [OF assms(1,2) _ c1]) (simp add: block_addr_tag)
  moreover have "c' = c1 \<or> (\<exists>w mf c2. new_mf mf c1 = (w, c2) \<and> send_write_request w WRITE_BACK_REQUEST_SENT t c2 = Some c')"
    using assms(3) False c1
    by (auto simp: rd_miss_base_def bind_eq_Some_conv split: if_splits option.splits prod.splits)
  ultimately show ?thesis by (auto intro: links)
qed

lemma wr_miss_wa_link:
  assumes "cs_inv c" and "cs_link c" and "wr_miss_wa addr k p t c = Some (s, c')"
  shows "cs_link c'"
proof (cases "s = RESERVATION_FAIL")
  case True
  with assms wr_miss_wa_rejects show ?thesis by blast
next
  case ok: False
  let ?b = "block_addr (cs_cfg c) addr"
  have free: "\<not> miss_queue_full 0 c"
    using assms(3) ok by (auto simp: wr_miss_wa_def Let_def miss_queue_full_def split: if_splits)
  obtain c1 mf where c1: "send_write_request p WRITE_REQUEST_SENT t c = Some c1" "cs_heap c1 p = Some mf"
    using assms(3) ok by (auto simp: wr_miss_wa_def Let_def bind_eq_Some_conv split: if_splits)
  obtain n c2 where c2: "new_mf (mf\<lparr>mf_access_type := cs_wr_alloc_type c1, mf_is_write := False,
      mf_isatomic := False, mf_status := MEM_FETCH_INITIALIZED, mf_status_change := cs_now c1\<rparr>) c1 = (n, c2)"
    by fastforce
  have i2: "cs_inv c2" "cs_link c2"
    using send_write_inv [OF assms(1) free c1(1)] send_write_link [OF assms(2) c1(1)] c2
    by (auto intro: new_mf_inv new_mf_link)
  have cfg: "cs_cfg c2 = cs_cfg c" using send_write_frame [OF c1(1)] new_mf_frame [OF c2] by simp
  obtain d wb c3 where c3: "send_read_request ?b k n t False True c2 = Some (d, wb, c3)"
    and res: "c' = c3 \<or> (\<exists>w mf c4. new_mf mf c3 = (w, c4) \<and>
      upd_mf w (mf_set_status (cs_miss_queue_status c4) t) (c4\<lparr>cs_miss_queue := cs_miss_queue c4 @ [w]\<rparr>) = Some c')"
    using assms(3) ok c1 c2
    by (auto simp: wr_miss_wa_def Let_def bind_eq_Some_conv split: if_splits option.splits prod.splits)
  have l3: "cs_link c3" by (rule send_read_link [OF i2 _ c3]) (simp add: cfg block_addr_tag)
  show ?thesis
  proof (cases "c' = c3")
    case True
    with l3 show ?thesis by simp
  next
    case False
    with res obtain w mf c4 where c4: "new_mf mf c3 = (w, c4)"
      "upd_mf w (mf_set_status (cs_miss_queue_status c4) t) (c4\<lparr>cs_miss_queue := cs_miss_queue c4 @ [w]\<rparr>) = Some c'"
      by blast
    show ?thesis
      by (rule cs_link_frame [OF l3]) (use new_mf_frame [OF c4(1)] upd_mf_frame [OF c4(2)] in auto)
  qed
qed

lemma process_tag_probe_link:
  assumes "cs_inv c" and "cs_link c" and "process_tag_probe wr ps addr k p t c = Some (s, c')"
  shows "cs_link c'"
proof -
  obtain c1 where c1: "(if wr then
          (if ps = HIT then m_wr_hit addr k p t c
           else if ps \<noteq> RESERVATION_FAIL then m_wr_miss addr k p t c
           else Some (ps, c))
        else
          (if ps = HIT then rd_hit_base addr k p t c
           else if ps \<noteq> RESERVATION_FAIL then rd_miss_base addr k p t c
           else Some (ps, c))) = Some (s, c1)" "use_data_port p s c1 = Some c'"
    using assms(3) by (auto simp: process_tag_probe_def bind_eq_Some_conv)
  have miss: "cs_link c1" if "m_wr_miss addr k p t c = Some (s, c1)"
    using that assms(2) wr_miss_wa_link [OF assms(1,2)]
    by (cases "m_write_alloc_policy (cs_cfg c)")
      (auto simp: m_wr_miss_def wr_miss_no_wa_def bind_eq_Some_conv split: if_splits intro: send_write_link)
  have "cs_link c1"
    using c1(1) assms(2) miss m_wr_hit_link [OF assms(2)] rd_hit_link [OF assms(2)] rd_miss_link [OF assms(1,2)]
    by (cases wr; cases "ps = HIT"; cases "ps = RESERVATION_FAIL") simp_all
  moreover have "cs_extra c' = cs_extra c1"
    using c1(2) by (cases s) (auto simp: use_data_port_def Let_def bind_eq_Some_conv split: if_splits)
  ultimately show ?thesis using use_data_port_frame [OF c1(2)] by (auto intro: cs_link_frame)
qed

lemma data_cache_access_link:
  assumes "cs_inv c" and "cs_link c" and "data_cache_access addr p t c = Some (s, c')"
  shows "cs_link c'"
proof -
  obtain wr ps k c1 st where "process_tag_probe wr ps addr k p t c = Some (s, c1)" "c' = c1\<lparr>cs_stats := st\<rparr>"
    using assms(3) by (auto simp: data_cache_access_def Let_def bind_eq_Some_conv)
  with process_tag_probe_link [OF assms(1,2)] show ?thesis by (auto simp: cs_link_def)
qed

lemma read_only_access_link:
  assumes "cs_inv c" and "cs_link c" and "read_only_cache_access addr p t c = Some (s, c')"
  shows "cs_link c'"
proof -
  let ?b = "block_addr (cs_cfg c) addr"
  have al: "tag_of (cs_cfg c) ?b = ?b" by (simp add: block_addr_tag)
  obtain c1 st where "c' = c1\<lparr>cs_stats := st\<rparr>" "c1 = c
    \<or> (\<exists>j k. tag_access True ?b t k c = Some (j, None, c1))
    \<or> (\<exists>k d wb. send_read_request ?b k p t True False c = Some (d, wb, c1))"
    using read_only_access_cases [OF assms(3)] by blast
  moreover from this(2) have "cs_link c1"
    using assms(2) tag_access_link [OF assms(2)] send_read_link [OF assms(1,2) al] by blast
  ultimately show ?thesis by (simp add: cs_link_def)
qed

lemma cycle_frame:
  assumes "cache_cycle full c = Some (r, c')"
  shows "cs_cfg c' = cs_cfg c \<and> cs_tags c' = cs_tags c \<and> cs_mshrs c' = cs_mshrs c \<and> cs_extra c' = cs_extra c"
proof -
  obtain c1 st where c1: "(case cs_miss_queue c of
          [] \<Rightarrow> Some (None, c)
        | p # rest \<Rightarrow> do {
            mf \<leftarrow> cs_heap c p;
            Some (if \<not> full (mf_size mf) (mf_is_write mf)
                  then (Some p, c\<lparr>cs_miss_queue := rest\<rparr>) else (None, c)) }) = Some (r, c1)"
    "replenish_port_bandwidth (c1\<lparr>cs_stats := st\<rparr>) = Some c'"
    using assms by (auto simp: cache_cycle_def Let_def bind_eq_Some_conv)
  then have "cs_cfg c1 = cs_cfg c \<and> cs_tags c1 = cs_tags c \<and> cs_mshrs c1 = cs_mshrs c \<and> cs_extra c1 = cs_extra c"
    by (auto simp: bind_eq_Some_conv split: list.splits if_splits)
  moreover have "cs_extra c' = cs_extra c1"
    using c1(2) by (auto simp: replenish_port_bandwidth_def Let_def bind_eq_Some_conv)
  ultimately show ?thesis using replenish_frame [OF c1(2)] by simp
qed

lemma mark_ready_link:
  assumes "link_inv cfg t x" and "x p = Some e" and "mshr_mark_ready (x_block_addr e) t = Some (at, t')"
  shows "link_inv cfg t' (x(p := None))"
  using assms by (auto simp: link_inv_def mshr_mark_ready_def Let_def bind_eq_Some_conv mshr_probe_def)

lemma cache_fill_frame:
  assumes "cache_fill p t c = Some c'"
  shows "\<exists>e at. cs_extra c p = Some e \<and> mshr_mark_ready (x_block_addr e) (cs_mshrs c) = Some (at, cs_mshrs c')
    \<and> cs_extra c' = (cs_extra c)(p := None) \<and> cs_cfg c' = cs_cfg c"
proof -
  obtain e where e: "cs_extra c p = Some e"
    using assms unfolding cache_fill_def by (cases "cs_extra c p") auto
  obtain ta at t2 c2 c3 where f: "mshr_mark_ready (x_block_addr e) (cs_mshrs c) = Some (at, t2)"
    "(if at then do { _ \<leftarrow> assert_c (m_alloc_policy (cs_cfg c) = ON_MISS);
        set_block_status (x_cache_index e) MODIFIED c2 } else Some c2) = Some c3"
    "cs_cfg c2 = cs_cfg c" "cs_mshrs c2 = t2" "cs_extra c2 = cs_extra c"
    "c' = use_fill_port (c3\<lparr>cs_extra := (cs_extra c3)(p := None)\<rparr>)"
    by (rule cache_fill_cases [OF e assms])
  from f(2) have "cs_cfg c3 = cs_cfg c2 \<and> cs_mshrs c3 = cs_mshrs c2 \<and> cs_extra c3 = cs_extra c2"
    by (cases at) (auto simp: bind_eq_Some_conv dest!: set_block_frame)
  with e f show ?thesis by (simp add: use_fill_port_def)
qed

lemma cache_fill_link:
  assumes "cs_link c" and "cache_fill p t c = Some c'"
  shows "cs_link c'"
  using cache_fill_frame [OF assms(2)] assms(1) by (auto simp: cs_link_def intro: mark_ready_link)

lemma fill_keeps_inv:
  assumes "cs_inv c" and "cs_link c" and "cache_fill p t c = Some c'"
  shows "cs_inv c'"
proof -
  obtain e where e: "cs_extra c p = Some e" using cache_fill_frame [OF assms(3)] by blast
  with assms(2) have "tag_of (cs_cfg c) (x_block_addr e) = x_block_addr e"
    "x_block_addr e \<notin> set (m_current_response (cs_mshrs c))"
    by (auto simp: cs_link_def link_inv_def)
  from cache_fill_inv [OF assms(1) e this assms(3)] show ?thesis .
qed

lemma next_access_link:
  assumes "cs_inv c" and "cs_link c" and "cache_next_access c = Some (p, c')"
  shows "cs_inv c' \<and> cs_link c'"
proof -
  obtain t where t: "mshr_next_access (cs_mshrs c) = Some (p, t)" "c' = c\<lparr>cs_mshrs := t\<rparr>"
    using assms(3) by (auto simp: cache_next_access_def bind_eq_Some_conv)
  obtain a rest where a: "m_current_response (cs_mshrs c) = a # rest"
    using t(1) by (cases "m_current_response (cs_mshrs c)") (auto simp: mshr_next_access_def)
  have mi: "mshr_inv (cs_mshrs c)" using assms(1) by (simp add: cs_inv_def)
  from mshr_next_access_spec [OF mi a] t(1) obtain ws where
    ws: "mshr_inv t" "\<forall>b. b \<noteq> a \<longrightarrow> map_of (m_data t) b = map_of (m_data (cs_mshrs c)) b"
    "m_current_response t = rest \<or> m_current_response t = a # rest" by (auto split: if_splits)
  have "m_max_merged t = m_max_merged (cs_mshrs c)"
    using t(1) a by (auto simp: mshr_next_access_def Let_def split: list.splits if_splits)
  moreover have "link_inv (cs_cfg c) t (cs_extra c)"
    using assms(2) ws a unfolding cs_link_def link_inv_def mshr_probe_def
    by (metis (no_types, lifting) list.set_intros)
  ultimately show ?thesis using assms(1) ws t(2) by (simp add: cs_inv_def cs_link_def queue_ok_def)
qed

lemma flush_keeps:
  assumes "cs_inv c" and "cs_link c" and "cache_flush c = Some c'"
  shows "cs_inv c' \<and> cs_link c'"
proof -
  obtain ta where ta: "ta_flush (cs_cfg c) (cs_tags c) = Some ta" "c' = c\<lparr>cs_tags := ta\<rparr>"
    using assms(3) by (auto simp: cache_flush_def bind_eq_Some_conv)
  have len: "get_num_lines (cs_cfg c) \<le> length (m_lines (cs_tags c))"
    using assms(1) by (simp add: cs_inv_def ta_inv_def)
  from ta_flush_spec [OF len] ta(1) len have "ta_inv (cs_cfg c) ta" by (auto simp: ta_inv_def)
  with assms ta(2) show ?thesis by (simp add: cs_inv_def cs_link_def queue_ok_def)
qed

section \<open>The runs of a cache\<close>

text \<open>
  The constructors of \<open>baseline_cache\<close>, \<open>read_only_cache\<close> and \<open>data_cache\<close>: the heap holds the requests
  the cache is handed. The type of the miss table is asserted.
\<close>

definition new_cache :: "cache_config \<Rightarrow> mem_fetch_status \<Rightarrow> mem_access_type \<Rightarrow> mem_access_type \<Rightarrow> mem_fetch_allocator
    \<Rightarrow> (nat \<Rightarrow> mem_fetch option) \<Rightarrow> nat \<Rightarrow> u64 \<Rightarrow> cache_sys option" where
  "new_cache cfg status wr_alloc_type wrbk_type mfcreator heap next now = do {
     _ \<leftarrow> assert_c (m_mshr_type cfg = ASSOC);
     Some \<lparr>cs_cfg = cfg, cs_tags = new_tag_array cfg,
       cs_mshrs = new_mshr (m_mshr_entries cfg) (m_mshr_max_merge cfg), cs_miss_queue = [],
       cs_miss_queue_status = status, cs_extra = (\<lambda>_. None), cs_stats = new_stats,
       cs_data_port = 0, cs_fill_port = 0, cs_wr_alloc_type = wr_alloc_type, cs_wrbk_type = wrbk_type, cs_memfetch_creator = mfcreator,
       cs_events = [], cs_heap = heap, cs_next = next, cs_now = now\<rparr> }"

text \<open>What the rest of the simulator may call: it makes a request, lets time pass (\<open>gpu_sim_cycle + gpu_tot_sim_cycle\<close>), hands it to the cache with an empty
  list of events, clocks the cache, returns a fill, takes a finished access, or flushes.\<close>

inductive cache_step :: "cache_sys \<Rightarrow> cache_sys \<Rightarrow> bool" where
  request: "new_mf mf c = (p, c') \<Longrightarrow> cache_step c c'"
| clock: "cache_step c (c\<lparr>cs_now := n\<rparr>)"
| data: "data_cache_access addr p t (c\<lparr>cs_events := []\<rparr>) = Some (s, c') \<Longrightarrow> cache_step c c'"
| read_only: "read_only_cache_access addr p t (c\<lparr>cs_events := []\<rparr>) = Some (s, c') \<Longrightarrow> cache_step c c'"
| cycle: "cache_cycle full c = Some (r, c') \<Longrightarrow> cache_step c c'"
| fill: "cache_fill p t c = Some c' \<Longrightarrow> cache_step c c'"
| next_access: "cache_next_access c = Some (p, c') \<Longrightarrow> cache_step c c'"
| flush: "cache_flush c = Some c' \<Longrightarrow> cache_step c c'"

inductive cache_reach :: "cache_config \<Rightarrow> cache_sys \<Rightarrow> bool" where
  start: "new_cache cfg status wa wb creator heap next now = Some c \<Longrightarrow> cache_reach cfg c"
| step: "cache_reach cfg c \<Longrightarrow> cache_step c c' \<Longrightarrow> cache_reach cfg c'"

lemma events_inv [simp]: "cs_inv (c\<lparr>cs_events := es\<rparr>) = cs_inv c" "cs_link (c\<lparr>cs_events := es\<rparr>) = cs_link c"
  by (simp_all add: cs_inv_def cs_link_def queue_ok_def)

lemma cache_step_inv: "cache_step c c' \<Longrightarrow> cs_inv c \<Longrightarrow> cs_link c \<Longrightarrow> cs_inv c' \<and> cs_link c'"
proof (induction rule: cache_step.induct)
  case (request mf c p c')
  then show ?case by (auto intro: new_mf_inv new_mf_link)
next
  case (clock c n)
  then show ?case by (simp add: cs_inv_def cs_link_def queue_ok_def)
next
  case (data addr p t c s c')
  with data_cache_access_inv data_cache_access_link show ?case by (metis events_inv)
next
  case (read_only addr p t c s c')
  with read_only_access_inv read_only_access_link show ?case by (metis events_inv)
next
  case (cycle full c r c')
  with cache_cycle_inv cycle_frame show ?case by (metis cs_link_frame)
next
  case (fill p t c c')
  then show ?case by (auto intro: fill_keeps_inv cache_fill_link)
qed (auto dest: next_access_link flush_keeps)

lemma new_cache_inv:
  assumes "new_cache cfg status wa wb creator heap n now = Some c" and "cfg_ok cfg" and "0 < m_mshr_max_merge cfg"
  shows "cs_inv c \<and> cs_link c"
  using assms new_tag_array_inv [of cfg] new_mshr_inv [of "m_mshr_entries cfg" "m_mshr_max_merge cfg"]
  by (auto simp: new_cache_def bind_eq_Some_conv cs_inv_def cs_link_def link_inv_def queue_ok_def new_mshr_def)

lemma cache_reach_inv: "cache_reach cfg c \<Longrightarrow> cfg_ok cfg \<Longrightarrow> 0 < m_mshr_max_merge cfg \<Longrightarrow> cs_inv c \<and> cs_link c"
  by (induction rule: cache_reach.induct) (auto dest: new_cache_inv cache_step_inv)

section \<open>Properties\<close>

lemma ta_access_hit:
  assumes "ta_probe cfg ta a i' = Some (HIT, k)" and "ta_access cfg a t i ta = Some (s, j, ta')"
  shows "s = HIT"
proof -
  have p: "ta_probe cfg (ta\<lparr>m_access := n\<rparr>) a i = Some (HIT, k)" for n
    using ta_probe_idx [OF assms(1)] by (simp add: ta_probe_cong [of "ta\<lparr>m_access := n\<rparr>" ta])
  show ?thesis
    using assms(2) p by (auto simp: ta_access_def ta_access_wb_def Let_def bind_eq_Some_conv)
qed

lemma select_reject [simp]: "select_stats_status ps RESERVATION_FAIL = RESERVATION_FAIL"
  by (simp add: select_stats_status_def)

lemma status_index_reject [simp]: "status_index RESERVATION_FAIL = 3"
  by (simp add: status_index_def)

lemma read_only_rejects:
  assumes "read_only_cache_access addr p t c = Some (RESERVATION_FAIL, c')" and "cs_heap c p = Some mf"
  shows "\<exists>st. inc_stats (int (type_index (mf_access_type mf))) 3 (cs_stats c) = Some st \<and> c' = c\<lparr>cs_stats := st\<rparr>"
proof -
  let ?b = "block_addr (cs_cfg c) addr"
  obtain ps k c1 st where ps: "ta_probe (cs_cfg c) (cs_tags c) ?b (2 ^ 32 - 1) = Some (ps, k)"
    and c1: "(if ps = HIT then do {
          (cache_status, _, ta) \<leftarrow> ta_access (cs_cfg c) ?b t k (cs_tags c);
          Some (cache_status, c\<lparr>cs_tags := ta\<rparr>) }
        else if ps \<noteq> RESERVATION_FAIL then
          (if \<not> miss_queue_full 0 c then do {
             (do_miss, _, c) \<leftarrow> send_read_request ?b k p t True False c;
             Some (if do_miss then MISS else RESERVATION_FAIL, c) }
           else Some (RESERVATION_FAIL, c))
        else Some (RESERVATION_FAIL, c)) = Some (RESERVATION_FAIL, c1)"
    and st: "inc_stats (int (type_index (mf_access_type mf))) 3 (cs_stats c1) = Some st" "c' = c1\<lparr>cs_stats := st\<rparr>"
    using assms by (auto simp: read_only_cache_access_def Let_def bind_eq_Some_conv)
  have "c1 = c"
  proof (cases "ps = HIT")
    case True
    with c1 ps show ?thesis by (auto simp: bind_eq_Some_conv dest: ta_access_hit)
  next
    case False
    with c1 show ?thesis by (auto simp: bind_eq_Some_conv split: if_splits dest: send_read_no_miss)
  qed
  with st show ?thesis by simp
qed

text \<open>C17. A rejected access changes nothing but its counter: when the access function of the data cache
  or of the read only cache answers \<open>RESERVATION_FAIL\<close>, tags, miss table, miss queue, ports and requests
  are as before, and the one counter of the access type's failed reservations has been increased.\<close>

theorem rejected_access_no_effect:
  assumes "cs_heap c p = Some mf"
    and "data_cache_access addr p t c = Some (RESERVATION_FAIL, c')
      \<or> read_only_cache_access addr p t c = Some (RESERVATION_FAIL, c')"
  shows "\<exists>st. inc_stats (int (type_index (mf_access_type mf))) 3 (cs_stats c) = Some st \<and> c' = c\<lparr>cs_stats := st\<rparr>"
  using assms(2)
proof
  assume "data_cache_access addr p t c = Some (RESERVATION_FAIL, c')"
  then obtain wr ps k c1 st where "process_tag_probe wr ps addr k p t c = Some (RESERVATION_FAIL, c1)"
    "inc_stats (int (type_index (mf_access_type mf))) 3 (cs_stats c1) = Some st" "c' = c1\<lparr>cs_stats := st\<rparr>"
    using assms(1) by (auto simp: data_cache_access_def Let_def bind_eq_Some_conv)
  with process_tag_probe_rejects show ?thesis by blast
qed (use assms(1) read_only_rejects in blast)

text \<open>C19. In every run from a new cache, over accesses, clock cycles, fills, finished accesses and flushes
  in any order: no block is in two lines and each is in its own set, the miss table is within its bounds,
  the miss queue is within its bound, and each request that waits for a fill is the only one for its
  block and has an entry in the miss table.\<close>

theorem cache_run_invariant:
  assumes "cache_reach cfg c" and "cfg_ok cfg" and "0 < m_mshr_max_merge cfg"
  shows "ta_inv (cs_cfg c) (cs_tags c) \<and> mshr_inv (cs_mshrs c)
    \<and> length (cs_miss_queue c) \<le> m_miss_queue_size (cs_cfg c)
    \<and> (\<forall>p q e f. cs_extra c p = Some e \<longrightarrow> cs_extra c q = Some f \<longrightarrow>
         mshr_probe (cs_mshrs c) (x_block_addr e) \<and> (x_block_addr e = x_block_addr f \<longrightarrow> p = q))"
  using cache_reach_inv [OF assms] by (auto simp: cs_inv_def cs_link_def link_inv_def queue_ok_def)

definition sample_read :: mem_fetch where
  "sample_read = \<lparr>mf_addr = 0x1000, mf_data_size = 32, mf_ctrl_size = 8, mf_is_write = False,
     mf_access_type = GLOBAL_ACC_R, mf_isatomic = False, mf_wid = 0, mf_sid = 0, mf_tpc = 0,
     mf_status = MEM_FETCH_INITIALIZED, mf_status_change = 0\<rparr>"

definition sample_cache :: cache_sys where
  "sample_cache = \<lparr>cs_cfg = sample_cfg, cs_tags = new_tag_array sample_cfg,
     cs_mshrs = new_mshr (m_mshr_entries sample_cfg) (m_mshr_max_merge sample_cfg), cs_miss_queue = [],
     cs_miss_queue_status = IN_L1D_MISS_QUEUE, cs_extra = (\<lambda>_. None), cs_stats = new_stats,
     cs_data_port = 0, cs_fill_port = 0, cs_wr_alloc_type = L1_WR_ALLOC_R, cs_wrbk_type = L1_WRBK_ACC,
     cs_memfetch_creator = \<lparr>m_core_id = 3, m_cluster_id = 1\<rparr>,
     cs_events = [], cs_heap = (\<lambda>p. if p = 0 then Some sample_read else None), cs_next = 1, cs_now = 0\<rparr>"

lemma sample_cache_new:
  "new_cache sample_cfg IN_L1D_MISS_QUEUE L1_WR_ALLOC_R L1_WRBK_ACC \<lparr>m_core_id = 3, m_cluster_id = 1\<rparr>
     (\<lambda>p. if p = 0 then Some sample_read else None) 1 0 = Some sample_cache"
  by (simp add: new_cache_def sample_cache_def sample_cfg_def)

theorem cache_run_invariant_witness:
  "\<exists>c. cache_reach sample_cfg c \<and> ta_inv (cs_cfg c) (cs_tags c) \<and> mshr_inv (cs_mshrs c)"
proof -
  have "cache_reach sample_cfg sample_cache" by (rule cache_reach.start [OF sample_cache_new])
  moreover have "0 < m_mshr_max_merge sample_cfg" by (simp add: sample_cfg_def)
  ultimately show ?thesis using cache_run_invariant [OF _ sample_cfg_ok] by blast
qed

lemma hit_update:
  assumes "ta_probe (cs_cfg c) (cs_tags c) a i' = Some (HIT, k)"
    and "tag_access True a t i c = Some (j, wb, c1)"
  shows "j = k \<and> k < length (m_lines (cs_tags c)) \<and> cs_events c1 = cs_events c
    \<and> m_lines (cs_tags c1) = (m_lines (cs_tags c))[k := (m_lines (cs_tags c) ! k)\<lparr>m_last_access_time := t\<rparr>]"
proof -
  have p: "ta_probe (cs_cfg c) ((cs_tags c)\<lparr>m_access := n\<rparr>) a i = Some (HIT, k)" for n
    using ta_probe_idx [OF assms(1)] by (simp add: ta_probe_cong [of "(cs_tags c)\<lparr>m_access := n\<rparr>" "cs_tags c"])
  show ?thesis
    using assms(2) p
    by (auto simp: tag_access_def ta_access_def ta_access_wb_def Let_def bind_eq_Some_conv upd_line_eq_Some)
qed

lemma set_block_effect:
  "set_block_status k s c = Some c' \<Longrightarrow> k < length (m_lines (cs_tags c))
    \<and> m_lines (cs_tags c') = (m_lines (cs_tags c))[k := (m_lines (cs_tags c) ! k)\<lparr>m_status := s\<rparr>]
    \<and> cs_events c' = cs_events c"
  by (auto simp: set_block_status_def bind_eq_Some_conv upd_line_eq_Some)

lemma send_write_effect:
  "send_write_request p e t c = Some c' \<Longrightarrow> cs_events c' = cs_events c @ [e]"
  by (auto simp: send_write_request_def upd_mf_def bind_eq_Some_conv)

definition write_hit_result :: "bool \<Rightarrow> bool \<Rightarrow> nat \<Rightarrow> nat \<Rightarrow> cache_sys \<Rightarrow> cache_sys \<Rightarrow> bool" where
  "write_hit_result evict sent k p c c' \<longleftrightarrow>
     m_status (m_lines (cs_tags c') ! k) = (if evict then INVALID else MODIFIED)
     \<and> (\<forall>j. j \<noteq> k \<longrightarrow> m_lines (cs_tags c') ! j = m_lines (cs_tags c) ! j)
     \<and> cs_miss_queue c' = cs_miss_queue c @ (if sent then [p] else [])
     \<and> cs_events c' = cs_events c @ (if sent then [WRITE_REQUEST_SENT] else [])
     \<and> cs_mshrs c' = cs_mshrs c \<and> cs_extra c' = cs_extra c"

lemma wr_hit_wb_effect:
  assumes "ta_probe (cs_cfg c) (cs_tags c) (block_addr (cs_cfg c) addr) i' = Some (HIT, k)"
    and "wr_hit_wb addr k p t c = Some (HIT, c')"
  shows "write_hit_result False False k p c c'"
proof -
  obtain j wb c1 where c1: "tag_access True (block_addr (cs_cfg c) addr) t k c = Some (j, wb, c1)"
    "set_block_status j MODIFIED c1 = Some c'"
    using assms(2) by (auto simp: wr_hit_wb_def bind_eq_Some_conv)
  from hit_update [OF assms(1) c1(1)] set_block_effect [OF c1(2)]
    tag_access_frame [OF c1(1)] set_block_frame [OF c1(2)]
  show ?thesis by (auto simp: write_hit_result_def)
qed

lemma wr_hit_wt_effect:
  assumes "ta_probe (cs_cfg c) (cs_tags c) (block_addr (cs_cfg c) addr) i' = Some (HIT, k)"
    and "wr_hit_wt addr k p t c = Some (HIT, c')"
  shows "write_hit_result False True k p c c'"
proof -
  obtain j wb c1 c2 where c1: "tag_access True (block_addr (cs_cfg c) addr) t k c = Some (j, wb, c1)"
    "set_block_status j MODIFIED c1 = Some c2" "send_write_request p WRITE_REQUEST_SENT t c2 = Some c'"
    using assms(2) by (auto simp: wr_hit_wt_def bind_eq_Some_conv split: if_splits)
  from hit_update [OF assms(1) c1(1)] set_block_effect [OF c1(2)]
    tag_access_frame [OF c1(1)] set_block_frame [OF c1(2)] send_write_frame [OF c1(3)] send_write_effect [OF c1(3)]
  show ?thesis by (auto simp: write_hit_result_def)
qed

lemma wr_hit_we_effect:
  assumes "wr_hit_we addr k p t c = Some (HIT, c')"
  shows "write_hit_result True True k p c c'"
proof -
  obtain c1 where c1: "send_write_request p WRITE_REQUEST_SENT t c = Some c1"
    "set_block_status k INVALID c1 = Some c'"
    using assms by (auto simp: wr_hit_we_def bind_eq_Some_conv split: if_splits)
  from set_block_effect [OF c1(2)] set_block_frame [OF c1(2)] send_write_frame [OF c1(1)] send_write_effect [OF c1(1)]
  show ?thesis by (auto simp: write_hit_result_def)
qed

text \<open>C36. What a write hit does under each write policy: with write evict, and with the mixed policy for
  a global write, the block is dropped and the write is queued for the lower level; with write through
  it is marked modified and the write is queued; with write back, and with the mixed policy for a local
  write, it is only marked modified. No other line, miss entry or pending fill changes.\<close>

theorem write_hit_effect:
  assumes "ta_probe (cs_cfg c) (cs_tags c) (block_addr (cs_cfg c) addr) i' = Some (HIT, k)"
    and "cs_heap c p = Some mf" and "m_wr_hit addr k p t c = Some (HIT, c')"
    and "evict \<longleftrightarrow> m_write_policy (cs_cfg c) = WRITE_EVICT
      \<or> m_write_policy (cs_cfg c) = LOCAL_WB_GLOBAL_WT \<and> mf_access_type mf = GLOBAL_ACC_W"
  shows "write_hit_result evict (evict \<or> m_write_policy (cs_cfg c) = WRITE_THROUGH) k p c c'"
  using assms wr_hit_wb_effect [OF assms(1)] wr_hit_wt_effect [OF assms(1)] wr_hit_we_effect
  by (cases "m_write_policy (cs_cfg c)")
    (auto simp: m_wr_hit_def wr_hit_global_we_local_wb_def split: if_splits)

section \<open>Statistics are additive\<close>

lemma css_add_plus:
  "css_add s (m + n) (css_plus a b) = css_plus (css_add s m a) (css_add s n b)"
  by (simp add: css_add_def css_plus_def Let_def)

lemma css_fold_plus:
  "foldl (\<lambda>c s. css_add s (f s + g s) c) (css_plus a b) ss
     = css_plus (foldl (\<lambda>c s. css_add s (f s) c) a ss) (foldl (\<lambda>c s. css_add s (g s) c) b ss)"
  by (induction ss arbitrary: a b) (simp_all add: css_add_plus)

lemma css_fold2_plus:
  "foldl (\<lambda>c t. foldl (\<lambda>c s. css_add s (f t s + g t s) c) c ss) (css_plus a b) ts
     = css_plus (foldl (\<lambda>c t. foldl (\<lambda>c s. css_add s (f t s) c) c ss) a ts)
         (foldl (\<lambda>c t. foldl (\<lambda>c s. css_add s (g t s) c) c ss) b ts)"
  by (induction ts arbitrary: a b) (simp_all add: css_fold_plus)

definition stats_dims :: "cache_stats \<Rightarrow> bool" where
  "stats_dims st \<longleftrightarrow> length (m_stats st) = 11 \<and> (\<forall>row \<in> set (m_stats st). length row = 4)"

lemma stats_cell:
  assumes "stats_dims a" and "stats_dims b" and "t < 11" and "s < 4"
  shows "m_stats (stats_plus a b) ! t ! s = m_stats a ! t ! s + m_stats b ! t ! s"
  using assms by (simp add: stats_dims_def stats_plus_def)

text \<open>The statistics of several caches may be added before or after they are summarised: the summary
  of a sum of two tables of counters is the sum of their summaries, on 32 and 64 bits with wrap around.\<close>

theorem sub_stats_additive:
  assumes "stats_dims a" and "stats_dims b"
  shows "get_sub_stats (stats_plus a b) = css_plus (get_sub_stats a) (get_sub_stats b)"
proof -
  let ?z = "\<lparr>css_accesses = 0, css_misses = 0, css_pending_hits = 0, css_res_fails = 0,
         css_port_available_cycles = 0, css_data_port_busy_cycles = 0, css_fill_port_busy_cycles = 0\<rparr> :: cache_sub_stats"
  let ?f = "\<lambda>st c. foldl (\<lambda>c type. foldl (\<lambda>c status. css_add status (m_stats st ! type ! status) c) c [0..<4]) c [0..<11]"
  have "?f (stats_plus a b) ?z = foldl (\<lambda>c t. foldl (\<lambda>c s. css_add s (m_stats a ! t ! s + m_stats b ! t ! s) c) c [0..<4]) ?z [0..<11]"
    by (intro foldl_cong refl) (simp add: stats_cell [OF assms])
  moreover have zz: "css_plus ?z ?z = ?z" by (simp add: css_plus_def)
  ultimately have "?f (stats_plus a b) ?z = css_plus (?f a ?z) (?f b ?z)"
    using css_fold2_plus [where a = ?z and b = ?z and ss = "[0..<4]" and ts = "[0..<11]"
        and f = "\<lambda>t s. m_stats a ! t ! s" and g = "\<lambda>t s. m_stats b ! t ! s"] by (simp only: zz)
  then show ?thesis
    unfolding get_sub_stats_def Let_def by (simp only:) (simp add: css_plus_def stats_plus_def)
qed

lemma new_stats_dims: "stats_dims new_stats"
  by (simp add: stats_dims_def new_stats_def)

theorem sub_stats_additive_witness:
  "get_sub_stats (stats_plus new_stats new_stats) = css_plus (get_sub_stats new_stats) (get_sub_stats new_stats)"
  by (rule sub_stats_additive [OF new_stats_dims new_stats_dims])

definition full_cache :: cache_sys where
  "full_cache = sample_cache\<lparr>cs_miss_queue := [1, 2, 3, 4]\<rparr>"

lemma full_cache_probe:
  "ta_probe (cs_cfg full_cache) (cs_tags full_cache) (block_addr (cs_cfg full_cache) 0x1000) 0 = Some (MISS, 1)"
  by code_simp

lemma full_cache_rejects:
  "map_option fst (data_cache_access 0x1000 0 5 full_cache) = Some RESERVATION_FAIL"
proof -
  have p: "ta_probe (cs_cfg full_cache) (cs_tags full_cache) (block_addr (cs_cfg full_cache) 0x1000) (2 ^ 32 - 1)
      = Some (MISS, 1)"
    by (rule ta_probe_idx [OF full_cache_probe]) simp
  have f: "miss_queue_full 1 full_cache" "cs_heap full_cache 0 = Some sample_read" "cs_stats full_cache = new_stats"
    "m_line_sz (cs_cfg full_cache) = 128"
    by (simp_all add: miss_queue_full_def full_cache_def sample_cache_def sample_cfg_def)
  have r: "process_tag_probe False MISS 0x1000 1 0 5 full_cache = Some (RESERVATION_FAIL, full_cache)"
    using f by (simp add: process_tag_probe_def rd_miss_base_def use_data_port_def)
  have "inc_stats 0 3 new_stats \<noteq> None"
    by (simp add: inc_stats_def stat_at_def check_valid_def new_stats_def at_get_def)
  with p f r show ?thesis
    by (auto simp: data_cache_access_def sample_read_def type_index_def word_le_nat_alt)
qed

theorem rejected_access_no_effect_witness:
  "\<exists>st c'. data_cache_access 0x1000 0 5 full_cache = Some (RESERVATION_FAIL, c') \<and> c' = full_cache\<lparr>cs_stats := st\<rparr>"
proof -
  obtain c' where c': "data_cache_access 0x1000 0 5 full_cache = Some (RESERVATION_FAIL, c')"
    using full_cache_rejects by auto
  have "cs_heap full_cache 0 = Some sample_read" by (simp add: full_cache_def sample_cache_def)
  from rejected_access_no_effect [OF this disjI1 [OF c']] c' show ?thesis by blast
qed

definition hit_cache :: cache_sys where
  "hit_cache = sample_cache\<lparr>cs_tags := (cs_tags sample_cache)
      \<lparr>m_lines := (m_lines (cs_tags sample_cache))
         [0 := \<lparr>m_tag = 0x1000, m_block_addr = 0x1000, m_alloc_time = 1, m_last_access_time = 1,
            m_fill_time = 1, m_status = VALID\<rparr>]\<rparr>\<rparr>"

lemma hit_cache_probe:
  "ta_probe (cs_cfg hit_cache) (cs_tags hit_cache) (block_addr (cs_cfg hit_cache) 0x1000) 0 = Some (HIT, 0)"
  by code_simp

lemma hit_cache_write: "map_option fst (m_wr_hit 0x1000 0 0 5 hit_cache) = Some HIT"
  by code_simp

theorem write_hit_effect_witness:
  "\<exists>c'. m_wr_hit 0x1000 0 0 5 hit_cache = Some (HIT, c') \<and> write_hit_result False False 0 0 hit_cache c'"
proof -
  obtain c' where c': "m_wr_hit 0x1000 0 0 5 hit_cache = Some (HIT, c')"
    using hit_cache_write by auto
  have "cs_heap hit_cache 0 = Some sample_read" "m_write_policy (cs_cfg hit_cache) = WRITE_BACK"
    by (simp_all add: hit_cache_def sample_cache_def sample_cfg_def)
  with write_hit_effect [OF hit_cache_probe _ c', of sample_read False] c' show ?thesis by auto
qed

section \<open>The traffic of a read miss\<close>

lemma add_to_mshr_waiting:
  assumes "cs_inv c" and "\<not> mshr_full (cs_mshrs c) b" and "add_to_mshr b p c = Some c'"
  shows "waiting (cs_mshrs c') b = waiting (cs_mshrs c) b @ [p]"
proof -
  obtain at t where t: "mshr_add b p at (cs_mshrs c) = Some t" "c' = c\<lparr>cs_mshrs := t\<rparr>"
    using assms(3) by (auto simp: add_to_mshr_def bind_eq_Some_conv)
  have "mshr_inv (cs_mshrs c)" "0 < m_max_merged (cs_mshrs c)" using assms(1) by (auto simp: cs_inv_def)
  from mshr_add_eq [OF this(1) assms(2) this(2), of p at] t show ?thesis
    by (auto simp: waiting_def entry_at_def)
qed

lemma send_read_effect:
  assumes "cs_inv c" and "tag_of (cs_cfg c) b = b" and "send_read_request b i p t ro wa c = Some (True, wb, c')"
  shows "waiting (cs_mshrs c') b = waiting (cs_mshrs c) b @ [p]
    \<and> cs_miss_queue c' = cs_miss_queue c @ (if mshr_probe (cs_mshrs c) b then [] else [p])
    \<and> (waiting_for_fill p c' \<longleftrightarrow> waiting_for_fill p c \<or> \<not> mshr_probe (cs_mshrs c) b)
    \<and> cs_next c' = cs_next c \<and> cs_wrbk_type c' = cs_wrbk_type c \<and> cs_memfetch_creator c' = cs_memfetch_creator c
    \<and> (\<exists>j c1. tag_access ro b t i c = Some (j, wb, c1))"
proof -
  have free: "\<not> mshr_full (cs_mshrs c) b" 
    using assms(3) by (auto simp: send_read_request_def Let_def split: if_splits)
  obtain j wb1 c1 where c1: "tag_access ro b t i c = Some (j, wb1, c1)"
    using assms(3) by (auto simp: send_read_request_def Let_def bind_eq_Some_conv split: if_splits)
  then obtain c2 where c2: "add_to_mshr b p c1 = Some c2"
    using assms(3) by (auto simp: send_read_request_def Let_def bind_eq_Some_conv split: if_splits)
  note f = tag_access_frame [OF c1] add_to_mshr_frame [OF c2]
  have "cs_inv c1" by (rule tag_access_inv [OF assms(1,2) c1])
  then have w: "waiting (cs_mshrs c2) b = waiting (cs_mshrs c) b @ [p]"
    using add_to_mshr_waiting [of c1 b p c2] f free c2 by simp
  have g: "cs_next c2 = cs_next c \<and> cs_wrbk_type c2 = cs_wrbk_type c
      \<and> cs_memfetch_creator c2 = cs_memfetch_creator c"
    using c1 c2 by (auto simp: tag_access_def add_to_mshr_def bind_eq_Some_conv split: if_splits)
  show ?thesis
  proof (cases "mshr_probe (cs_mshrs c) b")
    case True
    with assms(3) free c1 c2 have "c' = c2" "wb = wb1" by (auto simp: send_read_request_def Let_def)
    with True f w g c1 show ?thesis by (auto simp: waiting_for_fill_def)
  next
    case False
    have r: "cs_mshrs c' = cs_mshrs c2 \<and> cs_miss_queue c' = cs_miss_queue c2 @ [p] \<and> cs_extra c' p \<noteq> None
        \<and> cs_next c' = cs_next c2 \<and> cs_wrbk_type c' = cs_wrbk_type c2
        \<and> cs_memfetch_creator c' = cs_memfetch_creator c2 \<and> wb = wb1"
      using assms(3) False free c1 c2
      by (auto simp: send_read_request_def upd_mf_def Let_def bind_eq_Some_conv split: if_splits)
    with False f w g c1 show ?thesis by (auto simp: waiting_for_fill_def)
  qed
qed

text \<open>The requests that follow the read request: the write back of the line it evicts.\<close>

definition write_back_of :: "cache_sys \<Rightarrow> cache_block option \<Rightarrow> nat list" where
  "write_back_of c wb = (case wb of Some _ \<Rightarrow> if m_write_policy (cs_cfg c) \<noteq> WRITE_THROUGH then [cs_next c] else []
     | None \<Rightarrow> [])"

text \<open>C24. What an accepted read miss sends: the request is merged behind those that wait for its block;
  it goes to the lower level exactly when its block was not requested already, and then it waits for the
  fill; a write back request follows it exactly when the tag access evicts a modified line and the cache
  is not write through. It is a write of that line, with its address and size, and names the core and the cluster of
  the allocator of the cache.\<close>

theorem read_miss_traffic:
  assumes "cs_inv c" and "b = block_addr (cs_cfg c) addr" and "rd_miss_base addr k p t c = Some (MISS, c')"
  shows "\<exists>j wb c1. tag_access False b t k c = Some (j, wb, c1)
    \<and> waiting (cs_mshrs c') b = waiting (cs_mshrs c) b @ [p]
    \<and> cs_miss_queue c' = cs_miss_queue c @ (if mshr_probe (cs_mshrs c) b then [] else [p]) @ write_back_of c wb
    \<and> (\<not> mshr_probe (cs_mshrs c) b \<longrightarrow> waiting_for_fill p c')
    \<and> (\<forall>ev w. wb = Some ev \<longrightarrow> w \<in> set (write_back_of c wb) \<longrightarrow>
         (\<exists>mf. cs_heap c' w = Some mf \<and> mf_addr mf = m_block_addr ev \<and> mf_is_write mf
           \<and> mf_data_size mf = m_line_sz (cs_cfg c) \<and> mf_access_type mf = cs_wrbk_type c
           \<and> mf_sid mf = m_core_id (cs_memfetch_creator c) \<and> mf_tpc mf = m_cluster_id (cs_memfetch_creator c)))"
proof -
  obtain wb c1 where c1: "send_read_request b k p t False False c = Some (True, wb, c1)"
    and res: "c' = (case wb of Some ev \<Rightarrow> if m_write_policy (cs_cfg c1) \<noteq> WRITE_THROUGH then c' else c1 | None \<Rightarrow> c1)"
      "\<And>ev. wb = Some ev \<Longrightarrow> m_write_policy (cs_cfg c1) \<noteq> WRITE_THROUGH \<Longrightarrow>
        (\<exists>w c2. new_mf (wrbk_mf c1 (m_block_addr ev)) c1 = (w, c2) \<and>
          send_write_request w WRITE_BACK_REQUEST_SENT t c2 = Some c')"
    using assms(2,3)
    by (auto simp: rd_miss_base_def bind_eq_Some_conv split: if_splits option.splits prod.splits)
  have al: "tag_of (cs_cfg c) b = b" by (simp add: assms(2) block_addr_tag)
  note e = send_read_effect [OF assms(1) al c1]
  have cfg: "cs_cfg c1 = cs_cfg c" using send_read_inv [OF assms(1) al c1] by simp
  obtain j c0 where ta: "tag_access False b t k c = Some (j, wb, c0)" using e by blast
  show ?thesis
  proof (cases "\<exists>ev. wb = Some ev \<and> m_write_policy (cs_cfg c) \<noteq> WRITE_THROUGH")
    case False
    then have "c' = c1" "write_back_of c wb = []"
      using res(1) cfg by (auto simp: write_back_of_def split: option.splits)
    with ta e show ?thesis by auto
  next
    case True
    then obtain ev w c2 where ev: "wb = Some ev" "m_write_policy (cs_cfg c) \<noteq> WRITE_THROUGH"
      and c2: "new_mf (wrbk_mf c1 (m_block_addr ev)) c1 = (w, c2)" "send_write_request w WRITE_BACK_REQUEST_SENT t c2 = Some c'"
      using res(2) cfg by metis
    have h: "write_back_of c wb = [w]" using ev c2(1) e by (simp add: write_back_of_def new_mf_def)
    have "\<exists>mf. cs_heap c' w = Some mf \<and> mf_addr mf = m_block_addr ev \<and> mf_is_write mf
        \<and> mf_data_size mf = m_line_sz (cs_cfg c) \<and> mf_access_type mf = cs_wrbk_type c
        \<and> mf_sid mf = m_core_id (cs_memfetch_creator c) \<and> mf_tpc mf = m_cluster_id (cs_memfetch_creator c)"
      using c2 e cfg by (auto simp: new_mf_def send_write_request_def upd_mf_def wrbk_mf_def mf_set_status_def)
    moreover have "cs_mshrs c' = cs_mshrs c1 \<and> cs_miss_queue c' = cs_miss_queue c1 @ [w] \<and> cs_extra c' = cs_extra c1"
      using new_mf_frame [OF c2(1)] send_write_frame [OF c2(2)] by simp
    ultimately show ?thesis using ta e h ev by (auto simp: waiting_for_fill_def)
  qed
qed

lemma sample_cache_inv: "cs_inv sample_cache"
  using new_cache_inv [OF sample_cache_new sample_cfg_ok] by (simp add: sample_cfg_def)

lemma sample_read_miss: "map_option fst (rd_miss_base 0x1000 1 0 5 sample_cache) = Some MISS"
  by code_simp

theorem read_miss_traffic_witness:
  "\<exists>c'. rd_miss_base 0x1000 1 0 5 sample_cache = Some (MISS, c')
    \<and> waiting (cs_mshrs c') (block_addr sample_cfg 0x1000) = [0]"
proof -
  obtain c' where c': "rd_miss_base 0x1000 1 0 5 sample_cache = Some (MISS, c')"
    using sample_read_miss by auto
  have "cs_cfg sample_cache = sample_cfg" "waiting (cs_mshrs sample_cache) b = []" for b
    by (simp_all add: sample_cache_def waiting_def entry_at_def new_mshr_def)
  with read_miss_traffic [OF sample_cache_inv refl c'] c' show ?thesis by auto
qed

end
