(* ===== verification/Coalescing.thy ===== *)
theory Coalescing
  imports Hardware_Model
begin

text \<open>
  How a warp turns the addresses of its threads into memory accesses:
  \<open>warp_inst_t::generate_mem_accesses\<close> of \<open>abstract_hardware_model.cc\<close> with the coalescing rules of
  compute capability 1.3, the switch that disables coalescing for the whole program or for one source
  line, the variant for atomics, and the bank conflicts of shared memory. The instruction is the part of
  \<open>warp_inst_t\<close> these functions use. \<open>ptx_line_number(pc)\<close> is the argument \<open>line\<close>. Printing and the
  statistics of source lines are left out.
\<close>

record warp_inst =
  wi_op :: uarch_op
  wi_memory_op :: memory_op
  wi_data_size :: u32
  wi_space :: memory_space
  wi_empty :: bool
  wi_isatomic :: bool
  wi_active :: "nat set"
  wi_valid :: bool
  wi_addr :: "u64 list list"
  wi_accessq :: "mem_access list"
  wi_created :: bool
  wi_cycles :: nat

definition is_load :: "warp_inst \<Rightarrow> bool" where
  "is_load w \<longleftrightarrow> wi_op w = LOAD_OP \<or> wi_memory_op w = memory_load"

definition is_store :: "warp_inst \<Rightarrow> bool" where
  "is_store w \<longleftrightarrow> wi_op w = STORE_OP \<or> wi_memory_op w = memory_store"

text \<open>\<open>m_per_scalar_thread[thread].memreqaddr[access]\<close>, \<open>None\<close> past the arrays.\<close>

definition req_addr :: "warp_inst \<Rightarrow> nat \<Rightarrow> nat \<Rightarrow> u64 option" where
  "req_addr w thread access = do {
     addrs \<leftarrow> at_get (wi_addr w) thread;
     at_get addrs access }"

section \<open>Transactions\<close>

record transaction_info =
  chunks :: "nat set"
  bytes :: "nat set"
  active :: "nat set"

definition new_transaction :: transaction_info where
  "new_transaction = \<lparr>chunks = {}, bytes = {}, active = {}\<rparr>"

definition test_bytes :: "nat \<Rightarrow> nat \<Rightarrow> transaction_info \<Rightarrow> bool option" where
  "test_bytes start_bit end_bit info =
     foldM (\<lambda>found i. if found then Some True else bs_test 128 i (bytes info)) False [start_bit..<Suc end_bit]"

definition segment_size_of :: "u32 \<Rightarrow> u32" where
  "segment_size_of data_size =
     (if data_size = 1 then 32 else if data_size = 2 then 64
      else if data_size = 4 \<or> data_size = 8 \<or> data_size = 16 then 128 else 0)"

definition chunk_of :: "u64 \<Rightarrow> nat" where
  "chunk_of addr = unat ((addr AND 127) div 32)"

text \<open>The chunk, the thread and the bytes of one access join a transaction.\<close>

definition join_transaction :: "u64 \<Rightarrow> u32 \<Rightarrow> nat \<Rightarrow> transaction_info \<Rightarrow> transaction_info option" where
  "join_transaction addr sz thread info = do {
     cs \<leftarrow> bs_set 4 (chunk_of addr) (chunks info);
     ac \<leftarrow> bs_set 32 thread (active info);
     bs \<leftarrow> foldM (\<lambda>bs i. bs_set 128 (unat (addr AND 127) + i) bs) (bytes info) [0..<unat sz];
     Some \<lparr>chunks = cs, bytes = bs, active = ac\<rparr> }"

definition add_access :: "u32 \<Rightarrow> nat \<Rightarrow> u32 \<Rightarrow> u64 \<Rightarrow> (u64 \<times> transaction_info) list
    \<Rightarrow> (u64 \<times> transaction_info) list option" where
  "add_access segment_size thread sz addr m = do {
     let block_address = line_size_based_tag_func addr (ucast segment_size);
     let info = omap_get new_transaction (ucast block_address) m;
     _ \<leftarrow> assert_c (block_address = line_size_based_tag_func (addr + ucast sz - 1) (ucast segment_size));
     info \<leftarrow> join_transaction addr sz thread info;
     Some (omap_put (ucast block_address) info m) }"

text \<open>The halves of a 64 byte segment that are used, from two chunks.\<close>

definition halves :: "bool \<Rightarrow> bool \<Rightarrow> nat set" where
  "halves a b = (if a then {0} else {}) \<union> (if b then {1} else {})"

definition reduce_segment :: "nat set \<Rightarrow> u64 \<Rightarrow> u32 \<Rightarrow> (u64 \<times> u32) option" where
  "reduce_segment q addr segment_size = do {
     _ \<leftarrow> assert_c (addr AND ucast (segment_size - 1) = 0);
     _ \<leftarrow> assert_c (card q \<ge> 1);
     (addr, sz, h) \<leftarrow>
       (if segment_size = 128 then
          let lower_half_used = 0 \<in> q \<or> 1 \<in> q;
              upper_half_used = 2 \<in> q \<or> 3 \<in> q
          in if lower_half_used \<and> \<not> upper_half_used then Some (addr, 64, halves (0 \<in> q) (1 \<in> q))
             else if \<not> lower_half_used \<and> upper_half_used then Some (addr + 64, 64, halves (2 \<in> q) (3 \<in> q))
             else do {
               _ \<leftarrow> assert_c (lower_half_used \<and> upper_half_used);
               Some (addr, segment_size, {}) }
        else if segment_size = 64 then
          (if addr mod 128 = 0 then Some (addr, segment_size, halves (0 \<in> q) (1 \<in> q))
           else do {
             _ \<leftarrow> assert_c (addr mod 128 = 64);
             Some (addr, segment_size, halves (2 \<in> q) (3 \<in> q)) })
        else Some (addr, segment_size, {}));
     if sz = 64 then
       (let lower_half_used = (0::nat) \<in> h; upper_half_used = 1 \<in> h
        in if lower_half_used \<and> \<not> upper_half_used then Some (addr, 32)
           else if \<not> lower_half_used \<and> upper_half_used then Some (addr + 32, 32)
           else do {
             _ \<leftarrow> assert_c (lower_half_used \<and> upper_half_used);
             Some (addr, sz) })
     else Some (addr, sz) }"

definition reduce_and_send :: "bool \<Rightarrow> mem_access_type \<Rightarrow> u32 \<Rightarrow> mem_access list
    \<Rightarrow> u64 \<times> transaction_info \<Rightarrow> mem_access list option" where
  "reduce_and_send is_write access_type segment_size accessq = (\<lambda>(addr, info). do {
     (addr, sz) \<leftarrow> reduce_segment (chunks info) addr segment_size;
     Some (accessq @ [\<lparr>ma_type = access_type, ma_addr = addr, ma_size = sz, ma_write = is_write,
       ma_warp_mask = active info, ma_byte_mask = bytes info\<rparr>]) })"

section \<open>Coalescing of loads and stores\<close>

text \<open>Whether coalescing is off for this instruction: always, or for one source line.\<close>

definition coalescing_off :: "core_config \<Rightarrow> u32 \<Rightarrow> bool" where
  "coalescing_off cfg line =
     (if coal_disabled_dyn cfg then line = coal_line_num cfg else coal_disabled cfg)"

text \<open>The size of the pieces of an access, and their number: local memory is accessed 4 bytes at a time.\<close>

definition split_access :: "warp_inst \<Rightarrow> u32 \<times> u32" where
  "split_access w =
     (if (wi_space w = local_space \<or> wi_space w = param_space_local) \<and> wi_data_size w \<ge> 4
      then (4, wi_data_size w div 4) else (wi_data_size w, 1))"

definition coalesce_thread :: "core_config \<Rightarrow> u32 \<Rightarrow> warp_inst \<Rightarrow> bool \<Rightarrow> mem_access_type
    \<Rightarrow> (u64 \<times> transaction_info) list \<times> mem_access list \<times> bool \<Rightarrow> nat
    \<Rightarrow> ((u64 \<times> transaction_info) list \<times> mem_access list \<times> bool) option" where
  "coalesce_thread cfg line w is_write access_type = (\<lambda>(m, accessq, off) thread. do {
     a \<leftarrow> bs_test 32 thread (wi_active w);
     if \<not> a then Some (m, accessq, off)
     else do {
       let off = coalescing_off cfg line;
       let m = (if off then [] else m);
       let (sz, num_accesses) = split_access w;
       _ \<leftarrow> assert_c (num_accesses \<le> 8);
       m \<leftarrow> foldM (\<lambda>m access. do {
           addr \<leftarrow> req_addr w thread access;
           add_access (segment_size_of (wi_data_size w)) thread sz addr m }) m [0..<unat num_accesses];
       Some (m, if off
         then accessq @ map (\<lambda>(addr, info). \<lparr>ma_type = access_type, ma_addr = addr,
           ma_size = segment_size_of (wi_data_size w), ma_write = is_write,
           ma_warp_mask = active info, ma_byte_mask = bytes info\<rparr>) m
         else accessq, off) } })"

definition coalesce_subwarp :: "core_config \<Rightarrow> u32 \<Rightarrow> warp_inst \<Rightarrow> bool \<Rightarrow> mem_access_type
    \<Rightarrow> mem_access list \<times> bool \<Rightarrow> nat \<Rightarrow> (mem_access list \<times> bool) option" where
  "coalesce_subwarp cfg line w is_write access_type = (\<lambda>(accessq, off) subwarp. do {
     let subwarp_size = warp_size cfg div mem_warp_parts cfg;
     (m, accessq, off) \<leftarrow> foldM (coalesce_thread cfg line w is_write access_type) ([], accessq, off)
       [subwarp * subwarp_size..<subwarp_size * (subwarp + 1)];
     if \<not> off then do {
       accessq \<leftarrow> foldM (reduce_and_send is_write access_type (segment_size_of (wi_data_size w))) accessq m;
       Some (accessq, off) }
     else Some (accessq, off) })"

definition memory_coalescing_arch_13 :: "core_config \<Rightarrow> u32 \<Rightarrow> warp_inst \<Rightarrow> bool \<Rightarrow> mem_access_type
    \<Rightarrow> mem_access list option" where
  "memory_coalescing_arch_13 cfg line w is_write access_type = do {
     _ \<leftarrow> assert_c (mem_warp_parts cfg \<noteq> 0);
     (accessq, off) \<leftarrow> foldM (coalesce_subwarp cfg line w is_write access_type) (wi_accessq w, True)
       [0..<mem_warp_parts cfg];
     Some accessq }"

section \<open>Coalescing of atomics\<close>

definition join_atomic :: "u64 \<Rightarrow> u32 \<Rightarrow> nat \<Rightarrow> transaction_info \<Rightarrow> transaction_info option" where
  "join_atomic addr sz thread info = do {
     cs \<leftarrow> bs_set 4 (chunk_of addr) (chunks info);
     ac \<leftarrow> bs_set 32 thread (active info);
     bs \<leftarrow> foldM (\<lambda>bs i. do {
         taken \<leftarrow> bs_test 128 (unat (addr AND 127) + i) bs;
         _ \<leftarrow> assert_c (\<not> taken);
         bs_set 128 (unat (addr AND 127) + i) bs }) (bytes info) [0..<unat sz];
     Some \<lparr>chunks = cs, bytes = bs, active = ac\<rparr> }"

text \<open>The first transaction of a block that has none of the thread's bytes, or a new one at the end.\<close>

primrec place_atomic :: "u64 \<Rightarrow> u32 \<Rightarrow> nat \<Rightarrow> transaction_info list \<Rightarrow> transaction_info list option" where
  "place_atomic addr sz thread [] = do {
     info \<leftarrow> join_atomic addr sz thread new_transaction;
     Some [info] }"
| "place_atomic addr sz thread (x # xs) = do {
     let idx = unat (addr AND 127);
     clash \<leftarrow> test_bytes idx (unat (of_nat idx + sz - 1)) x;
     if clash then do {
       ys \<leftarrow> place_atomic addr sz thread xs;
       Some (x # ys) }
     else do {
       y \<leftarrow> join_atomic addr sz thread x;
       Some (y # xs) } }"

definition atomic_thread :: "warp_inst \<Rightarrow> (u64 \<times> transaction_info list) list \<Rightarrow> nat
    \<Rightarrow> (u64 \<times> transaction_info list) list option" where
  "atomic_thread w m thread = do {
     a \<leftarrow> bs_test 32 thread (wi_active w);
     if \<not> a then Some m
     else do {
       addr \<leftarrow> req_addr w thread 0;
       let segment_size = ucast (segment_size_of (wi_data_size w));
       let block_address = line_size_based_tag_func addr segment_size;
       _ \<leftarrow> assert_c (block_address = line_size_based_tag_func (addr + ucast (wi_data_size w) - 1) segment_size);
       infos \<leftarrow> place_atomic addr (wi_data_size w) thread (omap_get [] (ucast block_address) m);
       Some (omap_put (ucast block_address) infos m) } }"

definition atomic_subwarp :: "core_config \<Rightarrow> warp_inst \<Rightarrow> bool \<Rightarrow> mem_access_type \<Rightarrow> mem_access list
    \<Rightarrow> nat \<Rightarrow> mem_access list option" where
  "atomic_subwarp cfg w is_write access_type accessq subwarp = do {
     let subwarp_size = warp_size cfg div 2;
     m \<leftarrow> foldM (atomic_thread w) [] [subwarp * subwarp_size..<subwarp_size * (subwarp + 1)];
     foldM (\<lambda>accessq (addr, infos).
         foldM (\<lambda>accessq info. reduce_and_send is_write access_type (segment_size_of (wi_data_size w)) accessq
           (addr, info)) accessq infos)
       accessq m }"

definition memory_coalescing_arch_13_atomic :: "core_config \<Rightarrow> warp_inst \<Rightarrow> bool \<Rightarrow> mem_access_type
    \<Rightarrow> mem_access list option" where
  "memory_coalescing_arch_13_atomic cfg w is_write access_type = do {
     _ \<leftarrow> assert_c (wi_space w = global_space);
     foldM (atomic_subwarp cfg w is_write access_type) (wi_accessq w) [0..<2] }"

section \<open>Shared memory\<close>

definition shmem_bank_func :: "core_config \<Rightarrow> u32 \<Rightarrow> u32 option" where
  "shmem_bank_func cfg addr = do {
     _ \<leftarrow> assert_c (num_shmem_bank cfg \<noteq> 0);
     Some ((addr div 4) mod num_shmem_bank cfg) }"

type_synonym bank_accesses = "(u32 \<times> (u64 \<times> nat) list) list"

text \<open>Step 1: how often each word of each bank is accessed.\<close>

definition count_word :: "core_config \<Rightarrow> warp_inst \<Rightarrow> bank_accesses \<Rightarrow> nat \<Rightarrow> bank_accesses option" where
  "count_word cfg w accs thread = do {
     a \<leftarrow> bs_test 32 thread (wi_active w);
     if \<not> a then Some accs
     else do {
       addr \<leftarrow> req_addr w thread 0;
       bank \<leftarrow> shmem_bank_func cfg (ucast addr);
       let word_addr = ucast (line_size_based_tag_func addr 4);
       let words = omap_get [] bank accs;
       Some (omap_put bank (omap_put word_addr (Suc (omap_get 0 word_addr words)) words) accs) } }"

text \<open>Step 2 with limited broadcast: the first word of the first bank that is accessed twice.\<close>

definition find_broadcast :: "bank_accesses \<Rightarrow> (u32 \<times> u64 \<times> nat) option" where
  "find_broadcast accs =
     List.find (\<lambda>(bank, word_addr, n). n > 1)
       (concat (map (\<lambda>(bank, words). map (\<lambda>(word_addr, n). (bank, word_addr, n)) words) accs))"

text \<open>Step 3: the accesses of a bank, its broadcast counted once.\<close>

definition bank_cost :: "(u32 \<times> u64 \<times> nat) option \<Rightarrow> u32 \<times> (u64 \<times> nat) list \<Rightarrow> nat option" where
  "bank_cost broadcast = (\<lambda>(bank, words).
     let bank_accesses = sum_list (map snd words)
     in (case broadcast of
           Some (broadcast_bank, broadcast_word, _) \<Rightarrow>
             if broadcast_bank = bank then
               (case map_of words broadcast_word of
                  Some n \<Rightarrow> do {
                    _ \<leftarrow> assert_c (n > 1);
                    _ \<leftarrow> assert_c (bank_accesses \<ge> n - 1);
                    Some (bank_accesses - (n - 1)) }
                | None \<Rightarrow> Some bank_accesses)
             else Some bank_accesses
         | None \<Rightarrow> Some bank_accesses))"

definition subwarp_conflicts :: "core_config \<Rightarrow> warp_inst \<Rightarrow> nat \<Rightarrow> nat \<Rightarrow> nat option" where
  "subwarp_conflicts cfg w total_accesses subwarp = do {
     let subwarp_size = warp_size cfg div mem_warp_parts cfg;
     accs \<leftarrow> foldM (count_word cfg w) [] [subwarp * subwarp_size..<(subwarp + 1) * subwarp_size];
     max_bank_accesses \<leftarrow>
       (if shmem_limited_broadcast cfg
        then foldM (\<lambda>best b. do {
            n \<leftarrow> bank_cost (find_broadcast accs) b;
            Some (if n > best then n else best) }) 0 accs
        else Some (foldl (\<lambda>best b. max best (length (snd b))) 0 accs));
     Some (total_accesses + max_bank_accesses) }"

definition shared_conflicts :: "core_config \<Rightarrow> warp_inst \<Rightarrow> nat option" where
  "shared_conflicts cfg w = do {
     _ \<leftarrow> assert_c (mem_warp_parts cfg \<noteq> 0);
     foldM (subwarp_conflicts cfg w) 0 [0..<mem_warp_parts cfg] }"

section \<open>Texture and constant memory\<close>

text \<open>One access for each cache block; all of them get the bytes of all threads.\<close>

definition block_thread :: "warp_inst \<Rightarrow> u64 \<Rightarrow> (u64 \<times> nat set) list \<times> nat set \<Rightarrow> nat
    \<Rightarrow> ((u64 \<times> nat set) list \<times> nat set) option" where
  "block_thread w cache_block_size = (\<lambda>(accesses, byte_mask) thread. do {
     a \<leftarrow> bs_test 32 thread (wi_active w);
     if \<not> a then Some (accesses, byte_mask)
     else do {
       addr \<leftarrow> req_addr w thread 0;
       let block_address = line_size_based_tag_func addr cache_block_size;
       threads \<leftarrow> bs_set 32 thread (omap_get {} (ucast block_address) accesses);
       let idx = (ucast (addr - ucast block_address) :: u32);
       byte_mask \<leftarrow> foldM (\<lambda>bs i. bs_set 128 (unat (idx + of_nat i)) bs) byte_mask [0..<unat (wi_data_size w)];
       Some (omap_put (ucast block_address) threads accesses, byte_mask) } })"

definition block_accesses :: "core_config \<Rightarrow> warp_inst \<Rightarrow> u64 \<Rightarrow> mem_access_type \<Rightarrow> bool \<Rightarrow> mem_access list option" where
  "block_accesses cfg w cache_block_size access_type is_write = do {
     _ \<leftarrow> assert_c (wi_accessq w = []);
     (accesses, byte_mask) \<leftarrow> foldM (block_thread w cache_block_size) ([], {}) [0..<warp_size cfg];
     Some (map (\<lambda>(addr, threads). \<lparr>ma_type = access_type, ma_addr = addr, ma_size = ucast cache_block_size,
       ma_write = is_write, ma_warp_mask = threads, ma_byte_mask = byte_mask\<rparr>) accesses) }"

section \<open>The accesses of an instruction\<close>

definition generate_queue :: "core_config \<Rightarrow> u32 \<Rightarrow> warp_inst \<Rightarrow> warp_inst option" where
  "generate_queue cfg line w =
     (let is_write = is_store w
      in if wi_space w = shared_space then do {
           total_accesses \<leftarrow> shared_conflicts cfg w;
           _ \<leftarrow> assert_c (total_accesses > 0 \<and> total_accesses \<le> warp_size cfg);
           Some (w\<lparr>wi_cycles := total_accesses\<rparr>) }
         else if wi_space w = tex_space then
           (if gpgpu_cache_texl1_linesize cfg = 0 then Some w
            else do {
              q \<leftarrow> block_accesses cfg w (ucast (gpgpu_cache_texl1_linesize cfg)) TEXTURE_ACC_R is_write;
              Some (w\<lparr>wi_accessq := q\<rparr>) })
         else if wi_space w = const_space \<or> wi_space w = param_space_kernel then
           (if gpgpu_cache_constl1_linesize cfg = 0 then Some w
            else do {
              q \<leftarrow> block_accesses cfg w (ucast (gpgpu_cache_constl1_linesize cfg)) CONST_ACC_R is_write;
              Some (w\<lparr>wi_accessq := q\<rparr>) })
         else if wi_space w = global_space \<or> wi_space w = local_space \<or> wi_space w = param_space_local then do {
           let access_type = (if wi_space w = global_space then (if is_write then GLOBAL_ACC_W else GLOBAL_ACC_R)
             else (if is_write then LOCAL_ACC_W else LOCAL_ACC_R));
           _ \<leftarrow> assert_c (gpgpu_coalesce_arch cfg = 13);
           q \<leftarrow> (if wi_isatomic w then memory_coalescing_arch_13_atomic cfg w is_write access_type
                 else memory_coalescing_arch_13 cfg line w is_write access_type);
           Some (w\<lparr>wi_accessq := q\<rparr>) }
         else None)"

definition generate_mem_accesses :: "core_config \<Rightarrow> u32 \<Rightarrow> warp_inst \<Rightarrow> warp_inst option" where
  "generate_mem_accesses cfg line w =
     (if wi_empty w \<or> wi_op w = MEMORY_BARRIER_OP \<or> wi_created w then Some w
      else if \<not> (wi_op w = LOAD_OP \<or> wi_op w = STORE_OP) then Some w
      else if card (wi_active w) = 0 then Some w
      else do {
        _ \<leftarrow> assert_c (is_load w \<or> is_store w);
        _ \<leftarrow> assert_c (wi_valid w);
        w \<leftarrow> generate_queue cfg line w;
        Some (w\<lparr>wi_created := True\<rparr>) })"

section \<open>The queue of accesses\<close>

text \<open>\<open>accessq_back\<close>, \<open>accessq_pop_back\<close> and \<open>accessq_empty\<close>.\<close>

definition accessq_empty :: "warp_inst \<Rightarrow> bool" where
  "accessq_empty w = (wi_accessq w = [])"

definition accessq_back :: "warp_inst \<Rightarrow> mem_access option" where
  "accessq_back w = (if wi_accessq w = [] then None else Some (last (wi_accessq w)))"

definition accessq_pop_back :: "warp_inst \<Rightarrow> warp_inst option" where
  "accessq_pop_back w = (if wi_accessq w = [] then None else Some (w\<lparr>wi_accessq := butlast (wi_accessq w)\<rparr>))"

definition dispatch_delay :: "warp_inst \<Rightarrow> bool \<times> warp_inst" where
  "dispatch_delay w =
     (let w = (if wi_cycles w > 0 then w\<lparr>wi_cycles := wi_cycles w - 1\<rparr> else w) in (wi_cycles w > 0, w))"

section \<open>Coalescing off: one access for each thread\<close>

abbreviation lanes :: "core_config \<Rightarrow> nat" where
  "lanes cfg \<equiv> mem_warp_parts cfg * (warp_size cfg div mem_warp_parts cfg)"

definition thread_addr :: "warp_inst \<Rightarrow> nat \<Rightarrow> u64" where
  "thread_addr w t = the (req_addr w t 0)"

definition thread_block :: "warp_inst \<Rightarrow> nat \<Rightarrow> u64" where
  "thread_block w t = ucast (line_size_based_tag_func (thread_addr w t) (ucast (segment_size_of (wi_data_size w))))"

definition thread_bytes :: "warp_inst \<Rightarrow> nat \<Rightarrow> nat set" where
  "thread_bytes w t = {unat (thread_addr w t AND 127) ..< unat (thread_addr w t AND 127) + unat (wi_data_size w)}"

definition thread_access :: "warp_inst \<Rightarrow> bool \<Rightarrow> mem_access_type \<Rightarrow> nat \<Rightarrow> mem_access" where
  "thread_access w is_write access_type t = \<lparr>ma_type = access_type, ma_addr = thread_block w t,
     ma_size = segment_size_of (wi_data_size w), ma_write = is_write, ma_warp_mask = {t},
     ma_byte_mask = thread_bytes w t\<rparr>"

lemma join_transaction_eq_Some:
  "join_transaction a sz t info = Some info' \<longleftrightarrow>
     chunk_of a < 4 \<and> t < 32 \<and> (unat sz = 0 \<or> unat (a AND 127) + unat sz \<le> 128)
     \<and> info' = \<lparr>chunks = insert (chunk_of a) (chunks info),
          bytes = bytes info \<union> {unat (a AND 127) ..< unat (a AND 127) + unat sz}, active = insert t (active info)\<rparr>"
  by (auto simp: join_transaction_def bind_eq_Some_conv bs_set_eq_Some bs_set_range)

lemma coalesce_thread_one:
  assumes "wi_space w \<noteq> local_space" and "wi_space w \<noteq> param_space_local"
    and "coalesce_thread cfg line w wr ty (m, q, off) t = Some (m', q', off')"
  shows "(t \<notin> wi_active w \<and> m' = m \<and> q' = q \<and> off' = off) \<or>
    (t \<in> wi_active w \<and> off' = coalescing_off cfg line \<and>
       add_access (segment_size_of (wi_data_size w)) t (wi_data_size w) (thread_addr w t) (if off' then [] else m) = Some m' \<and>
       q' = (if off' then q @ map (\<lambda>(addr, info). \<lparr>ma_type = ty, ma_addr = addr,
           ma_size = segment_size_of (wi_data_size w), ma_write = wr,
           ma_warp_mask = active info, ma_byte_mask = bytes info\<rparr>) m' else q))"
  using assms
  by (auto simp: coalesce_thread_def split_access_def bind_eq_Some_conv bs_test_eq_Some thread_addr_def Let_def
      split: if_splits)

lemma add_access_one:
  "add_access seg t sz a [] = Some m' \<Longrightarrow> m' = [(ucast (line_size_based_tag_func a (ucast seg)),
     \<lparr>chunks = {chunk_of a}, bytes = {unat (a AND 127) ..< unat (a AND 127) + unat sz}, active = {t}\<rparr>)]"
  by (auto simp: add_access_def Let_def bind_eq_Some_conv join_transaction_eq_Some new_transaction_def)

lemma coalesce_thread_off:
  assumes "wi_space w \<noteq> local_space" and "wi_space w \<noteq> param_space_local" and "coalescing_off cfg line"
    and "coalesce_thread cfg line w wr ty (m, q, True) t = Some (m', q', off')"
  shows "off' \<and> q' = q @ (if t \<in> wi_active w then [thread_access w wr ty t] else [])"
  using coalesce_thread_one [OF assms(1,2,4)] assms(3)
  by (auto simp: thread_access_def thread_block_def thread_bytes_def dest!: add_access_one)

lemma coalesce_threads_off:
  assumes "wi_space w \<noteq> local_space" and "wi_space w \<noteq> param_space_local" and "coalescing_off cfg line"
    and "foldM (coalesce_thread cfg line w wr ty) (m, q, True) ts = Some (m', q', off')"
  shows "off' \<and> q' = q @ map (thread_access w wr ty) (filter (\<lambda>t. t \<in> wi_active w) ts)"
  using assms(4)
proof (induction ts arbitrary: m q)
  case (Cons t ts)
  then obtain m1 q1 off1 where s: "coalesce_thread cfg line w wr ty (m, q, True) t = Some (m1, q1, off1)"
    "foldM (coalesce_thread cfg line w wr ty) (m1, q1, off1) ts = Some (m', q', off')"
    by (auto simp: bind_eq_Some_conv)
  from coalesce_thread_off [OF assms(1,2,3) s(1)] Cons.IH [of m1 q1] s(2) show ?case by auto
qed simp

lemma upt_chunk: "[0..<n * k] @ [n * k..<k * (n + 1)] = [0..<Suc n * (k::nat)]"
proof -
  have "k * (n + 1) = n * k + k" "Suc n * k = n * k + k" by (simp_all add: mult.commute)
  moreover have "[0..<n * k + k] = [0..<n * k] @ [n * k..<n * k + k]" by (rule upt_add_eq_append) simp
  ultimately show ?thesis by (simp only:)
qed

lemma coalesce_subwarps_off:
  assumes "wi_space w \<noteq> local_space" and "wi_space w \<noteq> param_space_local" and "coalescing_off cfg line"
    and "foldM (coalesce_subwarp cfg line w wr ty) (q, True) [0..<n] = Some (q', off')"
  shows "off' \<and> q' = q @ map (thread_access w wr ty)
    (filter (\<lambda>t. t \<in> wi_active w) [0..<n * (warp_size cfg div mem_warp_parts cfg)])"
  using assms(4)
proof (induction n arbitrary: q' off')
  case (Suc n)
  let ?k = "warp_size cfg div mem_warp_parts cfg"
  from Suc.prems obtain q1 off1 where s: "foldM (coalesce_subwarp cfg line w wr ty) (q, True) [0..<n] = Some (q1, off1)"
    "coalesce_subwarp cfg line w wr ty (q1, off1) n = Some (q', off')"
    by (auto simp: foldM_append bind_eq_Some_conv)
  from Suc.IH [OF s(1)] have i: "off1" "q1 = q @ map (thread_access w wr ty)
      (filter (\<lambda>t. t \<in> wi_active w) [0..<n * ?k])" by auto
  with s(2) obtain m2 q2 off2 where
    t: "foldM (coalesce_thread cfg line w wr ty) ([], q1, True) [n * ?k..<?k * (n + 1)] = Some (m2, q2, off2)"
    and "(if \<not> off2 then do {
       accessq \<leftarrow> foldM (reduce_and_send wr ty (segment_size_of (wi_data_size w))) q2 m2;
       Some (accessq, off2) } else Some (q2, off2)) = Some (q', off')"
    by (auto simp: coalesce_subwarp_def Let_def bind_eq_Some_conv)
  moreover note j = coalesce_threads_off [OF assms(1-3) t]
  ultimately have "off'" "q' = q2" by auto
  with i j show ?case by (simp add: upt_chunk [symmetric] del: mult_Suc upt_Suc)
qed simp

lemma generate_global:
  assumes "generate_mem_accesses cfg line w = Some w'" and "wi_space w = global_space" and "\<not> wi_isatomic w"
    and "\<not> wi_empty w" and "\<not> wi_created w" and "wi_op w = LOAD_OP \<or> wi_op w = STORE_OP" and "wi_active w \<subseteq> {..<32}"
    and "ty = (if is_store w then GLOBAL_ACC_W else GLOBAL_ACC_R)"
  shows "(wi_active w = {} \<and> w' = w) \<or> (mem_warp_parts cfg \<noteq> 0 \<and>
    (\<exists>off. foldM (coalesce_subwarp cfg line w (is_store w) ty) (wi_accessq w, True) [0..<mem_warp_parts cfg]
       = Some (wi_accessq w', off)))"
proof -
  have fin: "finite (wi_active w)" using assms(7) by (rule finite_subset) simp
  show ?thesis
  proof (cases "wi_active w = {}")
    case True
    with assms show ?thesis by (auto simp: generate_mem_accesses_def)
  next
    case False
    with fin have "card (wi_active w) \<noteq> 0" by simp
    with assms have g: "generate_queue cfg line w \<bind> (\<lambda>w. Some (w\<lparr>wi_created := True\<rparr>)) = Some w'"
      by (simp add: generate_mem_accesses_def bind_eq_Some_conv disj_commute split: if_splits)
    show ?thesis
      using g assms(2,3,8)
      by (auto simp: generate_queue_def memory_coalescing_arch_13_def bind_eq_Some_conv Let_def split: if_splits)
  qed
qed

lemma coalescing_off_queue:
  assumes "generate_mem_accesses cfg line w = Some w'" and "coalescing_off cfg line" and "wi_space w = global_space"
    and "\<not> wi_isatomic w" and "\<not> wi_empty w" and "\<not> wi_created w" and "wi_op w = LOAD_OP \<or> wi_op w = STORE_OP"
    and "wi_active w \<subseteq> {..<32}" and "ty = (if is_store w then GLOBAL_ACC_W else GLOBAL_ACC_R)"
  shows "wi_accessq w' = wi_accessq w @ map (thread_access w (is_store w) ty)
    (filter (\<lambda>t. t \<in> wi_active w) [0..<lanes cfg])"
  using generate_global [OF assms(1,3-9)]
proof (elim disjE conjE exE)
  fix off
  assume "foldM (coalesce_subwarp cfg line w (is_store w) ty) (wi_accessq w, True) [0..<mem_warp_parts cfg]
       = Some (wi_accessq w', off)"
  from coalesce_subwarps_off [OF _ _ assms(2) this] assms(3) show ?thesis by simp
qed (simp add: filter_False)

text \<open>C1. With coalescing off, for the whole program or for the line of the instruction, a load or store to
  global memory makes exactly one access for each active thread, in the order of the threads, of the size
  of a full segment and to the segment of the thread's address: how many accesses there are, of which type
  and size and for which thread does not depend on the addresses, so two executions that differ only in
  their addresses cannot be told apart by these.\<close>

theorem coalescing_off_hides_addresses:
  assumes "generate_mem_accesses cfg line w = Some w'" and "coalescing_off cfg line" and "wi_space w = global_space"
    and "\<not> wi_isatomic w" and "\<not> wi_empty w" and "\<not> wi_created w" and "wi_op w = LOAD_OP \<or> wi_op w = STORE_OP"
    and "wi_active w \<subseteq> {..<32}" and "generate_mem_accesses cfg line (w\<lparr>wi_addr := addrs\<rparr>) = Some v'"
  shows "map (\<lambda>a. (ma_type a, ma_size a, ma_write a, ma_warp_mask a)) (wi_accessq w')
       = map (\<lambda>a. (ma_type a, ma_size a, ma_write a, ma_warp_mask a)) (wi_accessq v')
    \<and> length (wi_accessq w') = length (wi_accessq w) + card (wi_active w \<inter> {..<lanes cfg})
    \<and> (wi_accessq w = [] \<longrightarrow> map ma_addr (wi_accessq w') =
         map (thread_block w) (filter (\<lambda>t. t \<in> wi_active w) [0..<lanes cfg]))"
proof -
  let ?v = "w\<lparr>wi_addr := addrs\<rparr>"
  let ?ty = "if is_store w then GLOBAL_ACC_W else GLOBAL_ACC_R"
  let ?ts = "filter (\<lambda>t. t \<in> wi_active w) [0..<lanes cfg]"
  have st: "is_store ?v = is_store w" by (simp add: is_store_def)
  have q: "wi_accessq w' = wi_accessq w @ map (thread_access w (is_store w) ?ty) ?ts"
    by (rule coalescing_off_queue [OF assms(1-8) refl])
  have r: "wi_accessq v' = wi_accessq w @ map (thread_access ?v (is_store w) ?ty) ?ts"
    using coalescing_off_queue [OF assms(9,2), of ?ty] assms(3-8) st by simp
  have "length ?ts = card (set ?ts)" by (rule distinct_card [symmetric]) simp
  also have "set ?ts = wi_active w \<inter> {..<lanes cfg}" by auto
  finally have "length ?ts = card (wi_active w \<inter> {..<lanes cfg})" .
  with q r show ?thesis by (simp add: thread_access_def comp_def)
qed

section \<open>Coalescing on: the transactions of a subwarp\<close>

definition thread_chunk :: "warp_inst \<Rightarrow> nat \<Rightarrow> nat" where
  "thread_chunk w t = chunk_of (thread_addr w t)"

text \<open>The transactions of a set of threads: one for each segment, with the chunks, bytes and threads of the
  threads whose address is in it.\<close>

definition transactions_of :: "warp_inst \<Rightarrow> nat set \<Rightarrow> (u64 \<times> transaction_info) list \<Rightarrow> bool" where
  "transactions_of w S m \<longleftrightarrow> sorted_wrt (<) (map fst m) \<and> fst ` set m = thread_block w ` S
     \<and> (\<forall>k info. map_of m k = Some info \<longrightarrow> info = \<lparr>chunks = thread_chunk w ` {t \<in> S. thread_block w t = k},
          bytes = (\<Union>t \<in> {t \<in> S. thread_block w t = k}. thread_bytes w t), active = {t \<in> S. thread_block w t = k}\<rparr>)"

lemma transactions_of_empty: "transactions_of w {} []"
  by (simp add: transactions_of_def)

lemma add_access_transactions:
  assumes "transactions_of w S m"
    and "add_access (segment_size_of (wi_data_size w)) t (wi_data_size w) (thread_addr w t) m = Some m'"
  shows "transactions_of w (insert t S) m'"
proof -
  let ?k = "thread_block w t"
  let ?g = "\<lambda>k. \<lparr>chunks = thread_chunk w ` {t \<in> S. thread_block w t = k},
          bytes = (\<Union>t \<in> {t \<in> S. thread_block w t = k}. thread_bytes w t), active = {t \<in> S. thread_block w t = k}\<rparr>"
  have get: "omap_get new_transaction ?k m = ?g ?k"
  proof (cases "map_of m ?k")
    case None
    then have "?k \<notin> thread_block w ` S" using assms(1) by (auto simp: transactions_of_def map_of_eq_None_iff)
    then have "{t \<in> S. thread_block w t = ?k} = {}" by (auto simp: image_iff)
    with None show ?thesis by (auto simp: omap_get_map_of new_transaction_def)
  next
    case (Some info)
    with assms(1) show ?thesis by (simp add: omap_get_map_of transactions_of_def)
  qed
  obtain info where info: "join_transaction (thread_addr w t) (wi_data_size w) t (?g ?k) = Some info"
    and m': "m' = omap_put ?k info m"
    using assms(2) get by (auto simp: add_access_def thread_block_def Let_def bind_eq_Some_conv)
  have join: "info = \<lparr>chunks = insert (thread_chunk w t) (chunks (?g ?k)),
      bytes = bytes (?g ?k) \<union> thread_bytes w t, active = insert t (active (?g ?k))\<rparr>"
    using info by (simp add: join_transaction_eq_Some thread_chunk_def thread_bytes_def)
  have sets: "{u \<in> insert t S. thread_block w u = k} =
      (if k = ?k then insert t {u \<in> S. thread_block w u = k} else {u \<in> S. thread_block w u = k})" for k
    by auto
  show ?thesis
    using assms(1) unfolding transactions_of_def m' sets
    by (auto simp: sorted_omap_put join)
qed

lemma coalesce_threads_on:
  assumes "wi_space w \<noteq> local_space" and "wi_space w \<noteq> param_space_local" and "\<not> coalescing_off cfg line"
    and "foldM (coalesce_thread cfg line w wr ty) (m, q, off) ts = Some (m', q', off')" and "transactions_of w S m"
  shows "q' = q \<and> transactions_of w (S \<union> (set ts \<inter> wi_active w)) m'
    \<and> (off' \<longleftrightarrow> off \<and> set ts \<inter> wi_active w = {})"
  using assms(4,5)
proof (induction ts arbitrary: m q off S)
  case (Cons t ts)
  then obtain m1 q1 off1 where s: "coalesce_thread cfg line w wr ty (m, q, off) t = Some (m1, q1, off1)"
    "foldM (coalesce_thread cfg line w wr ty) (m1, q1, off1) ts = Some (m', q', off')"
    by (auto simp: bind_eq_Some_conv)
  from coalesce_thread_one [OF assms(1,2) s(1)] show ?case
  proof (elim disjE conjE)
    assume "t \<notin> wi_active w" "m1 = m" "q1 = q" "off1 = off"
    with Cons.IH [OF s(2)] Cons.prems(2) show ?thesis by simp
  next
    assume t: "t \<in> wi_active w" and o: "off1 = coalescing_off cfg line"
      and a: "add_access (segment_size_of (wi_data_size w)) t (wi_data_size w) (thread_addr w t)
        (if off1 then [] else m) = Some m1"
      and "q1 = (if off1 then q @ map (\<lambda>(addr, info). \<lparr>ma_type = ty, ma_addr = addr,
           ma_size = segment_size_of (wi_data_size w), ma_write = wr,
           ma_warp_mask = active info, ma_byte_mask = bytes info\<rparr>) m1 else q)"
    then have "transactions_of w (insert t S) m1" "q1 = q" "\<not> off1"
      using add_access_transactions [OF Cons.prems(2)] assms(3) by auto
    with Cons.IH [OF s(2), of "insert t S"] t show ?thesis by (simp add: Int_insert_left)
  qed
qed simp

section \<open>Reducing a transaction\<close>

text \<open>A transaction sent at address \<open>a\<close> with size \<open>s\<close> covers the 32 bytes of chunk \<open>c\<close> of the 128 byte
  line of \<open>addr\<close>.\<close>

definition covers_chunk :: "u64 \<Rightarrow> u32 \<Rightarrow> u64 \<Rightarrow> nat \<Rightarrow> bool" where
  "covers_chunk a s addr c \<longleftrightarrow> unat a \<le> unat addr div 128 * 128 + 32 * c
     \<and> unat addr div 128 * 128 + 32 * c + 32 \<le> unat a + unat s"

lemma unat_add_small: "unat (a :: u64) < 2 ^ 32 \<Longrightarrow> n < 2 ^ 32 \<Longrightarrow> unat (a + of_nat n) = unat a + n"
  by (subst unat_add_lem [THEN iffD1]) (simp_all add: unat_of_nat)

lemma reduce_128:
  assumes "reduce_segment q addr 128 = Some (a, s)"
  shows "(a, s) = (if \<not> (2 \<in> q \<or> 3 \<in> q) then (if 0 \<in> q \<and> 1 \<in> q then (addr, 64) else if 0 \<in> q then (addr, 32) else (addr + 32, 32))
    else if \<not> (0 \<in> q \<or> 1 \<in> q) then (if 2 \<in> q \<and> 3 \<in> q then (addr + 64, 64) else if 2 \<in> q then (addr + 64, 32)
      else (addr + 64 + 32, 32))
    else (addr, 128))"
  using assms unfolding reduce_segment_def Let_def halves_def assert_c_bind_eq_Some
  by (cases "2 \<in> q \<or> 3 \<in> q"; cases "0 \<in> q \<or> 1 \<in> q") (auto split: if_splits)

lemma half_line_cases:
  assumes "n mod 64 = 0" and "32 * c div 64 = n mod 128 div 64" and "c < 4"
  shows "n mod 128 = (0::nat) \<and> (c = 0 \<or> c = 1) \<or> n mod 128 = 64 \<and> (c = 2 \<or> c = 3)"
proof -
  have "n mod 128 mod 64 = 0" using assms(1) by (simp add: mod_mod_cancel)
  moreover have "n mod 128 < 128" by simp
  moreover have "x = 0 \<or> x = 64" if "x mod 64 = 0" "x < 128" for x :: nat using that by presburger
  ultimately have "n mod 128 = 0 \<or> n mod 128 = 64" by metis
  moreover have "c = 0 \<or> c = 1 \<or> c = 2 \<or> c = 3" using assms(3) by auto
  ultimately show ?thesis using assms(2) by auto
qed

lemma reduce_segment_covers:
  assumes "reduce_segment q addr seg = Some (a, s)" and "seg = 32 \<or> seg = 64 \<or> seg = 128"
    and "unat addr < 2 ^ 32" and "unat addr mod unat seg = 0"
    and "q \<subseteq> {..<4}" and "c \<in> q" and "32 * c div unat seg = unat addr mod 128 div unat seg"
  shows "covers_chunk a s addr c"
proof -
  have c: "c < 4" using assms(5,6) by auto
  have u: "unat (addr + 64) = unat addr + 64" "unat (addr + 32) = unat addr + 32" "unat (addr + 64 + 32) = unat addr + 96"
    using unat_add_small [OF assms(3), of 64] unat_add_small [OF assms(3), of 32] unat_add_small [OF assms(3), of 96]
    by (simp_all add: add.assoc)
  have m128: "(addr mod 128 = 0) = (unat addr mod 128 = 0)" "(addr mod 128 = 64) = (unat addr mod 128 = 64)"
    by (simp_all add: word_unat_eq_iff unat_mod)
  have split: "c = 0 \<or> c = 1 \<or> c = 2 \<or> c = 3" using c by auto
  have d: "unat addr mod 128 = 0 \<Longrightarrow> unat addr div 128 * 128 = unat addr"
    "unat addr mod 128 = 64 \<Longrightarrow> unat addr = unat addr div 128 * 128 + 64" by presburger+
  define fits where "fits k \<longleftrightarrow> unat a \<le> unat addr + 32 * k \<and> unat addr + 32 * k + 32 \<le> unat a + unat s" for k
  show ?thesis
    using assms(2)
  proof (elim disjE)
    assume seg: "seg = 32"
    have as: "a = addr" "s = 32" using assms(1) seg by (auto simp: reduce_segment_def bind_eq_Some_conv)
    moreover have "unat addr mod 128 = 32 * c"
    proof -
      have "unat addr mod 32 = 0" "c = unat addr mod 128 div 32" using assms(4,7) seg by simp_all
      moreover have "unat addr mod 128 mod 32 = unat addr mod 32" by (simp add: mod_mod_cancel)
      ultimately show ?thesis by (metis add.right_neutral div_mult_mod_eq mult.commute)
    qed
    ultimately have "unat addr div 128 * 128 + 32 * c = unat addr" by (metis div_mult_mod_eq)
    with as show ?thesis by (simp add: covers_chunk_def)
  next
    assume seg: "seg = 64"
    have n: "unat addr mod 128 = 0 \<and> (c = 0 \<or> c = 1) \<or> unat addr mod 128 = 64 \<and> (c = 2 \<or> c = 3)"
    proof -
      have "unat addr mod 64 = 0" "32 * c div 64 = unat addr mod 128 div 64" using assms(4,7) seg by simp_all
      then show ?thesis using c by (rule half_line_cases)
    qed
    have q: "(0 \<in> q \<longrightarrow> fits 0) \<and> (1 \<in> q \<longrightarrow> fits 1)" if "unat addr mod 128 = 0"
      by (cases "0 \<in> q"; cases "1 \<in> q")
        (use assms(1,6) seg u that in \<open>auto simp: reduce_segment_def bind_eq_Some_conv halves_def m128 fits_def\<close>)
    have q2: "(2 \<in> q \<longrightarrow> fits 0) \<and> (3 \<in> q \<longrightarrow> fits 1)" if "unat addr mod 128 = 64"
      by (cases "2 \<in> q"; cases "3 \<in> q")
        (use assms(1,6) seg u that in \<open>auto simp: reduce_segment_def bind_eq_Some_conv halves_def m128 fits_def\<close>)
    show ?thesis
      using n
    proof (rule disjE)
      assume "unat addr mod 128 = 0 \<and> (c = 0 \<or> c = 1)"
      then have r: "unat addr mod 128 = 0" "c = 0 \<or> c = 1" by simp_all
      with q assms(6) have "fits c" by auto
      with d(1) [OF r(1)] show ?thesis by (simp add: covers_chunk_def fits_def)
    next
      assume "unat addr mod 128 = 64 \<and> (c = 2 \<or> c = 3)"
      then have r: "unat addr mod 128 = 64" "c = 2 \<or> c = 3" by simp_all
      with q2 assms(6) have "fits (c - 2)" by auto
      moreover obtain k where "unat addr div 128 = k" "unat addr = k * 128 + 64" using d(2) [OF r(1)] by blast
      ultimately show ?thesis using r(2) by (auto simp: covers_chunk_def fits_def)
    qed
  next
    assume seg: "seg = 128"
    have n: "unat addr mod 128 = 0" using assms(4) seg by simp
    have q: "(0 \<in> q \<longrightarrow> fits 0) \<and> (1 \<in> q \<longrightarrow> fits 1) \<and> (2 \<in> q \<longrightarrow> fits 2) \<and> (3 \<in> q \<longrightarrow> fits 3)"
      by (cases "0 \<in> q"; cases "1 \<in> q"; cases "2 \<in> q"; cases "3 \<in> q")
        (use reduce_128 [of q addr a s] assms(1) seg u in \<open>simp_all add: fits_def\<close>)
    show ?thesis
    proof -
      from q split assms(6) have "fits c" by auto
      with d(1) [OF n] show ?thesis by (simp add: covers_chunk_def fits_def)
    qed
  qed
qed

section \<open>Segments as numbers\<close>

abbreviation low_addr :: "u64 \<Rightarrow> nat" where
  "low_addr a \<equiv> unat (ucast a :: u32)"

lemma tag_func_bits:
  "line_size_based_tag_func a (2 ^ k) = push_bit k (drop_bit k (ucast a :: u32))"
proof (rule bit_word_eqI)
  fix n assume "n < LENGTH(32)"
  moreover have "2 ^ k - 1 = (mask k :: u64)" by (simp add: mask_eq_exp_minus_1)
  ultimately show "bit (line_size_based_tag_func a (2 ^ k)) n = bit (push_bit k (drop_bit k (ucast a :: u32))) n"
    by (auto simp: line_size_based_tag_func_def bit_ucast_iff bit_and_iff bit_not_iff bit_mask_iff
        bit_push_bit_iff bit_drop_bit_eq)
qed

lemma tag_func_unat:
  "unat (line_size_based_tag_func a (2 ^ k)) = low_addr a div 2 ^ k * 2 ^ k"
proof -
  have "take_bit 32 (low_addr a) = low_addr a" by (rule take_bit_nat_eq_self) simp
  then have "unat (push_bit k (drop_bit k (ucast a :: u32))) = take_bit 32 (low_addr a div 2 ^ k * 2 ^ k)"
    by (simp only: unsigned_push_bit_eq unsigned_drop_bit_eq) (simp add: drop_bit_eq_div push_bit_eq_mult)
  also have "\<dots> = low_addr a div 2 ^ k * 2 ^ k"
    by (rule take_bit_nat_eq_self) (rule le_less_trans [OF div_times_less_eq_dividend], simp)
  finally show ?thesis by (simp add: tag_func_bits)
qed

lemma low_addr_mod: "unat (a AND 127) = low_addr a mod 128"
proof -
  have "a AND 127 = take_bit 7 a" by (simp add: take_bit_eq_mask mask_eq_exp_minus_1)
  then have "unat (a AND 127) = unat a mod 128" by (simp add: take_bit_eq_mod unat_mod)
  moreover have "low_addr a = unat a mod 2 ^ 32" by (simp add: unsigned_ucast_eq take_bit_eq_mod)
  moreover have "unat a mod 2 ^ 32 mod 128 = unat a mod 128" by (rule mod_mod_cancel) simp
  ultimately show ?thesis by simp
qed

lemma chunk_of_low: "chunk_of a = low_addr a mod 128 div 32"
  by (simp add: chunk_of_def unat_div low_addr_mod)

lemma chunk_of_less: "chunk_of a < 4"
proof -
  have "low_addr a mod 128 < 128" by simp
  then show ?thesis unfolding chunk_of_low by linarith
qed

definition data_size_ok :: "warp_inst \<Rightarrow> bool" where
  "data_size_ok w \<longleftrightarrow> wi_data_size w \<in> {1, 2, 4, 8, 16}"

lemma segment_cases:
  assumes "data_size_ok w"
  obtains k where "segment_size_of (wi_data_size w) = 2 ^ k" "k = 5 \<or> k = 6 \<or> k = 7"
    "(ucast (segment_size_of (wi_data_size w)) :: u64) = 2 ^ k"
  using assms that [of 5] that [of 6] that [of 7]
  by (auto simp: data_size_ok_def segment_size_of_def)

lemma thread_block_unat:
  assumes "data_size_ok w" 
  shows "unat (thread_block w t) = low_addr (thread_addr w t) div unat (segment_size_of (wi_data_size w))
    * unat (segment_size_of (wi_data_size w))"
proof -
  obtain k where k: "segment_size_of (wi_data_size w) = 2 ^ k" "k = 5 \<or> k = 6 \<or> k = 7"
    "(ucast (segment_size_of (wi_data_size w)) :: u64) = 2 ^ k"
    by (rule segment_cases [OF assms])
  then have "unat (2 ^ k :: u32) = 2 ^ k" by auto
  with k show ?thesis by (simp add: thread_block_def tag_func_unat)
qed

text \<open>The access of a thread with an aligned address stays in its chunk of 32 bytes.\<close>

lemma aligned_in_chunk:
  assumes "data_size_ok w" and "unat (wi_data_size w) dvd low_addr a"
  shows "low_addr a + unat (wi_data_size w) \<le> low_addr a div 128 * 128 + 32 * chunk_of a + 32"
proof -
  let ?d = "unat (wi_data_size w)"
  have d: "?d dvd 32" "0 < ?d" using assms(1) by (auto simp: data_size_ok_def)
  have e: "low_addr a = low_addr a div 128 * 128 + 32 * chunk_of a + low_addr a mod 32"
  proof -
    have "low_addr a = low_addr a div 128 * 128 + low_addr a mod 128" by simp
    moreover have "low_addr a mod 128 = 32 * chunk_of a + low_addr a mod 128 mod 32"
      unfolding chunk_of_low by simp
    moreover have "low_addr a mod 128 mod 32 = low_addr a mod 32" by (simp add: mod_mod_cancel)
    ultimately show ?thesis by linarith
  qed
  have "low_addr a mod 32 + ?d \<le> 32"
  proof -
    obtain q where q: "32 = ?d * q" using d(1) by blast
    have "?d dvd low_addr a mod 32" using assms(2) d(1) by (rule dvd_mod)
    then obtain r where r: "low_addr a mod 32 = ?d * r" by blast
    have "?d * r < ?d * q" using r q by (metis mod_less_divisor zero_less_numeral)
    then have "Suc r \<le> q" by simp
    then have "?d * Suc r \<le> ?d * q" by (rule mult_le_mono2)
    with q r show ?thesis by simp
  qed
  with e show ?thesis by linarith
qed

section \<open>Coalescing on: one access for each segment of a subwarp\<close>

definition serves :: "warp_inst \<Rightarrow> nat \<Rightarrow> mem_access \<Rightarrow> bool" where
  "serves w t acc \<longleftrightarrow> t \<in> ma_warp_mask acc \<and> thread_bytes w t \<subseteq> ma_byte_mask acc
     \<and> unat (ma_addr acc) \<le> low_addr (thread_addr w t)
     \<and> low_addr (thread_addr w t) + unat (wi_data_size w) \<le> unat (ma_addr acc) + unat (ma_size acc)"

definition sent_for :: "u32 \<Rightarrow> u64 \<times> transaction_info \<Rightarrow> mem_access \<Rightarrow> bool" where
  "sent_for seg = (\<lambda>(k, info) acc. reduce_segment (chunks info) k seg = Some (ma_addr acc, ma_size acc)
     \<and> ma_warp_mask acc = active info \<and> ma_byte_mask acc = bytes info)"

lemma reduce_and_send_one:
  "reduce_and_send wr ty seg q (k, info) = Some q1 \<Longrightarrow> \<exists>a s. reduce_segment (chunks info) k seg = Some (a, s)
     \<and> q1 = q @ [\<lparr>ma_type = ty, ma_addr = a, ma_size = s, ma_write = wr,
       ma_warp_mask = active info, ma_byte_mask = bytes info\<rparr>]"
  by (auto simp: reduce_and_send_def bind_eq_Some_conv)

lemma reduce_and_send_all:
  "foldM (reduce_and_send wr ty seg) q m = Some q' \<Longrightarrow> \<exists>accs. q' = q @ accs \<and> list_all2 (sent_for seg) m accs"
proof (induction m arbitrary: q)
  case Nil
  then show ?case by simp
next
  case (Cons x m)
  obtain k info where x: "x = (k, info)" by fastforce
  from Cons.prems x obtain q1 where q1: "reduce_and_send wr ty seg q (k, info) = Some q1"
    and f: "foldM (reduce_and_send wr ty seg) q1 m = Some q'"
    by (auto simp: bind_eq_Some_conv)
  from reduce_and_send_one [OF q1] have "\<exists>acc. q1 = q @ [acc] \<and> sent_for seg (k, info) acc"
    by (force simp: sent_for_def)
  with Cons.IH [OF f] x show ?case by force
qed

lemma seg_mod: "0 < K \<Longrightarrow> x div K * K mod (K * n) div K = x mod (K * n) div (K :: nat)"
  by (simp add: mod_mult2_eq mult.commute)

lemma transaction_serves:
  assumes ds: "data_size_ok w" and tr: "transactions_of w S m" and t: "t \<in> S"
    and al: "unat (wi_data_size w) dvd low_addr (thread_addr w t)"
    and sent: "list_all2 (sent_for (segment_size_of (wi_data_size w))) m accs"
  shows "\<exists>acc \<in> set accs. serves w t acc"
proof -
  let ?k = "thread_block w t" and ?a = "thread_addr w t" and ?seg = "segment_size_of (wi_data_size w)"
  have "?k \<in> fst ` set m" using tr t by (auto simp: transactions_of_def)
  then obtain info where mem: "(?k, info) \<in> set m" by auto
  have "distinct (map fst m)" using tr by (simp add: transactions_of_def omap_distinct)
  with mem have "map_of m ?k = Some info" by (simp add: map_of_is_SomeI)
  with tr have "info = \<lparr>chunks = thread_chunk w ` {u \<in> S. thread_block w u = ?k},
      bytes = (\<Union>u \<in> {u \<in> S. thread_block w u = ?k}. thread_bytes w u), active = {u \<in> S. thread_block w u = ?k}\<rparr>"
    unfolding transactions_of_def by blast
  then have info: "chunks info = thread_chunk w ` {u \<in> S. thread_block w u = ?k}"
    "bytes info = (\<Union>u \<in> {u \<in> S. thread_block w u = ?k}. thread_bytes w u)" "active info = {u \<in> S. thread_block w u = ?k}"
    by simp_all
  obtain acc where acc: "acc \<in> set accs" "sent_for ?seg (?k, info) acc"
    using sent mem by (metis in_set_conv_nth list_all2_conv_all_nth nth_mem)
  have kb: "unat ?k = low_addr ?a div unat ?seg * unat ?seg" by (rule thread_block_unat [OF ds])
  obtain j where j: "?seg = 2 ^ j" "j = 5 \<or> j = 6 \<or> j = 7" by (rule segment_cases [OF ds]) auto
  then have segv: "unat ?seg = 2 ^ j" by auto
  have base: "unat ?k div 128 * 128 = low_addr ?a div 128 * 128" and
    chunk: "32 * thread_chunk w t div unat ?seg = unat ?k mod 128 div unat ?seg"
    using j(2) seg_mod [of 32 "low_addr ?a" 4] seg_mod [of 64 "low_addr ?a" 2] seg_mod [of 128 "low_addr ?a" 1]
    unfolding kb segv thread_chunk_def chunk_of_low by (auto simp: div_mult2_eq [symmetric])
  have "covers_chunk (ma_addr acc) (ma_size acc) ?k (thread_chunk w t)"
  proof (rule reduce_segment_covers [where q = "chunks info" and seg = ?seg])
    show "reduce_segment (chunks info) ?k ?seg = Some (ma_addr acc, ma_size acc)"
      using acc(2) by (simp add: sent_for_def)
    show "?seg = 32 \<or> ?seg = 64 \<or> ?seg = 128" using j by auto
    show "unat ?k < 2 ^ 32" unfolding thread_block_def unat_u32_u64 by simp
    show "unat ?k mod unat ?seg = 0" by (simp add: kb)
    show "chunks info \<subseteq> {..<4}" using info(1) chunk_of_less by (auto simp: thread_chunk_def)
    show "thread_chunk w t \<in> chunks info" using info(1) t by auto
  qed (rule chunk)
  then have cov: "unat (ma_addr acc) \<le> low_addr ?a div 128 * 128 + 32 * chunk_of ?a"
    "low_addr ?a div 128 * 128 + 32 * chunk_of ?a + 32 \<le> unat (ma_addr acc) + unat (ma_size acc)"
    unfolding covers_chunk_def thread_chunk_def base by blast+
  have "32 * chunk_of ?a \<le> low_addr ?a mod 128" by (simp add: chunk_of_low)
  moreover have "low_addr ?a = low_addr ?a div 128 * 128 + low_addr ?a mod 128" by simp
  ultimately have "low_addr ?a div 128 * 128 + 32 * chunk_of ?a \<le> low_addr ?a" by linarith
  with cov aligned_in_chunk [OF ds al]
  have "unat (ma_addr acc) \<le> low_addr ?a \<and> low_addr ?a + unat (wi_data_size w) \<le> unat (ma_addr acc) + unat (ma_size acc)"
    by linarith
  with acc(2) info t have "serves w t acc" by (auto simp: serves_def sent_for_def)
  with acc(1) show ?thesis by blast
qed

definition subwarp_threads :: "core_config \<Rightarrow> warp_inst \<Rightarrow> nat \<Rightarrow> nat set" where
  "subwarp_threads cfg w n = {t \<in> wi_active w. n * (warp_size cfg div mem_warp_parts cfg) \<le> t
     \<and> t < (warp_size cfg div mem_warp_parts cfg) * (n + 1)}"

lemma coalesce_subwarp_on:
  assumes "wi_space w \<noteq> local_space" and "wi_space w \<noteq> param_space_local" and "\<not> coalescing_off cfg line"
    and "data_size_ok w" and "\<And>t. t \<in> wi_active w \<Longrightarrow> unat (wi_data_size w) dvd low_addr (thread_addr w t)"
    and "coalesce_subwarp cfg line w wr ty (q, off) n = Some (q', off')"
  shows "\<exists>accs. q' = q @ accs \<and> length accs = card (thread_block w ` subwarp_threads cfg w n)
    \<and> (\<forall>t \<in> subwarp_threads cfg w n. \<exists>acc \<in> set accs. serves w t acc)"
proof -
  let ?k = "warp_size cfg div mem_warp_parts cfg" and ?seg = "segment_size_of (wi_data_size w)"
  from assms(6) obtain m q1 off1 where
    t: "foldM (coalesce_thread cfg line w wr ty) ([], q, off) [n * ?k..<?k * (n + 1)] = Some (m, q1, off1)"
    and r: "(if \<not> off1 then do { accessq \<leftarrow> foldM (reduce_and_send wr ty ?seg) q1 m; Some (accessq, off1) }
      else Some (q1, off1)) = Some (q', off')"
    by (auto simp: coalesce_subwarp_def Let_def bind_eq_Some_conv)
  have S: "{} \<union> (set [n * ?k..<?k * (n + 1)] \<inter> wi_active w) = subwarp_threads cfg w n"
    by (auto simp: subwarp_threads_def)
  from coalesce_threads_on [OF assms(1-3) t transactions_of_empty, unfolded S]
  have tr: "q1 = q" "transactions_of w (subwarp_threads cfg w n) m"
    "off1 \<longrightarrow> subwarp_threads cfg w n = {}"
    using S by auto
  show ?thesis
  proof (cases off1)
    case True
    with r tr show ?thesis by auto
  next
    case False
    with r have "foldM (reduce_and_send wr ty ?seg) q1 m = Some q'" by (auto simp: bind_eq_Some_conv)
    from reduce_and_send_all [OF this] tr(1) obtain accs where
      a: "q' = q @ accs" "list_all2 (sent_for ?seg) m accs" by blast
    have "length accs = card (fst ` set m)"
      using list_all2_lengthD [OF a(2)] tr(2) length_omap [of m] by (simp add: transactions_of_def)
    with tr(2) have "length accs = card (thread_block w ` subwarp_threads cfg w n)"
      by (simp add: transactions_of_def)
    moreover have "\<forall>t \<in> subwarp_threads cfg w n. \<exists>acc \<in> set accs. serves w t acc"
      using transaction_serves [OF assms(4) tr(2) _ _ a(2)] assms(5) by (auto simp: subwarp_threads_def)
    ultimately show ?thesis using a(1) by blast
  qed
qed

lemma coalesce_subwarps_on:
  assumes "wi_space w \<noteq> local_space" and "wi_space w \<noteq> param_space_local" and "\<not> coalescing_off cfg line"
    and "data_size_ok w" and "\<And>t. t \<in> wi_active w \<Longrightarrow> unat (wi_data_size w) dvd low_addr (thread_addr w t)"
    and "foldM (coalesce_subwarp cfg line w wr ty) (q, off) [0..<n] = Some (q', off')"
  shows "\<exists>accs. q' = q @ accs \<and> length accs = (\<Sum>s<n. card (thread_block w ` subwarp_threads cfg w s))
    \<and> (\<forall>s < n. \<forall>t \<in> subwarp_threads cfg w s. \<exists>acc \<in> set accs. serves w t acc)"
  using assms(6)
proof (induction n arbitrary: q' off')
  case (Suc n)
  then obtain q1 off1 where s: "foldM (coalesce_subwarp cfg line w wr ty) (q, off) [0..<n] = Some (q1, off1)"
    "coalesce_subwarp cfg line w wr ty (q1, off1) n = Some (q', off')"
    by (auto simp: foldM_append bind_eq_Some_conv)
  from Suc.IH [OF s(1)] obtain a1 where a1: "q1 = q @ a1"
    "length a1 = (\<Sum>s<n. card (thread_block w ` subwarp_threads cfg w s))"
    "\<forall>s < n. \<forall>t \<in> subwarp_threads cfg w s. \<exists>acc \<in> set a1. serves w t acc" by blast
  from coalesce_subwarp_on [OF assms(1-5) s(2)] obtain a2 where a2: "q' = q1 @ a2"
    "length a2 = card (thread_block w ` subwarp_threads cfg w n)"
    "\<forall>t \<in> subwarp_threads cfg w n. \<exists>acc \<in> set a2. serves w t acc" by blast
  show ?case
    by (rule exI [of _ "a1 @ a2"]) (use a1 a2 in \<open>auto simp: less_Suc_eq bex_Un\<close>)
qed simp

text \<open>C2. With coalescing on, a load or store to global memory makes one access for each segment its threads
  address in each part of the warp, no more; every active thread with an aligned address is served by one
  of them: it is in its thread mask, its bytes are in the byte mask, and the range of the access, after the
  reduction of its size, covers the bytes the thread asks for (in the lower 4 GB).\<close>

theorem coalescing_merges_segments:
  assumes "generate_mem_accesses cfg line w = Some w'" and "\<not> coalescing_off cfg line" and "wi_space w = global_space"
    and "\<not> wi_isatomic w" and "\<not> wi_empty w" and "\<not> wi_created w" and "wi_op w = LOAD_OP \<or> wi_op w = STORE_OP"
    and "wi_active w \<subseteq> {..<32}" and "data_size_ok w"
    and "\<And>t. t \<in> wi_active w \<Longrightarrow> unat (wi_data_size w) dvd low_addr (thread_addr w t)"
  shows "\<exists>accs. wi_accessq w' = wi_accessq w @ accs
    \<and> length accs = (\<Sum>s < mem_warp_parts cfg. card (thread_block w ` subwarp_threads cfg w s))
    \<and> (\<forall>s < mem_warp_parts cfg. \<forall>t \<in> subwarp_threads cfg w s. \<exists>acc \<in> set accs. serves w t acc)"
  using generate_global [OF assms(1,3-8) refl]
proof (elim disjE conjE exE)
  fix off
  assume "foldM (coalesce_subwarp cfg line w (is_store w) (if is_store w then GLOBAL_ACC_W else GLOBAL_ACC_R))
    (wi_accessq w, True) [0..<mem_warp_parts cfg] = Some (wi_accessq w', off)"
  from coalesce_subwarps_on [OF _ _ assms(2,9,10) this] assms(3) show ?thesis by simp
qed (auto simp: subwarp_threads_def)

section \<open>Atomics\<close>

lemma claim_bytes:
  "foldM (\<lambda>bs i. do { taken \<leftarrow> bs_test n (k + i) bs; _ \<leftarrow> assert_c (\<not> taken); bs_set n (k + i) bs }) bs [0..<m] = Some bs'
    \<Longrightarrow> bs' = bs \<union> {k ..< k + m} \<and> bs \<inter> {k ..< k + m} = {}"
proof (induction m arbitrary: bs')
  case 0
  then show ?case by simp
next
  case (Suc m)
  then obtain b1 where "foldM (\<lambda>bs i. do { taken \<leftarrow> bs_test n (k + i) bs; _ \<leftarrow> assert_c (\<not> taken); bs_set n (k + i) bs }) bs [0..<m] = Some b1"
    "k + m \<notin> b1" "bs' = insert (k + m) b1"
    by (auto simp: foldM_append bind_eq_Some_conv bs_test_eq_Some bs_set_eq_Some)
  moreover have "{k ..< k + Suc m} = insert (k + m) {k ..< k + m}" by auto
  ultimately show ?case using Suc.IH [of b1] by auto
qed

text \<open>A transaction of an atomic: the bytes of its threads are its bytes, and no two threads share one.\<close>

definition atomic_ok :: "warp_inst \<Rightarrow> transaction_info \<Rightarrow> bool" where
  "atomic_ok w info \<longleftrightarrow> bytes info = (\<Union>t \<in> active info. thread_bytes w t)
     \<and> (\<forall>t \<in> active info. \<forall>u \<in> active info. t \<noteq> u \<longrightarrow> thread_bytes w t \<inter> thread_bytes w u = {})"

lemma join_atomic_ok:
  assumes "join_atomic (thread_addr w t) (wi_data_size w) t info = Some info'" and "atomic_ok w info"
  shows "atomic_ok w info' \<and> active info' = insert t (active info)"
proof -
  from assms(1) have "active info' = insert t (active info)"
    "bytes info' = bytes info \<union> thread_bytes w t" "bytes info \<inter> thread_bytes w t = {}"
    unfolding join_atomic_def
    by (auto simp: bind_eq_Some_conv bs_set_eq_Some thread_bytes_def dest!: claim_bytes)
  with assms(2) show ?thesis by (auto simp: atomic_ok_def)
qed

lemma place_atomic_ok:
  assumes "place_atomic (thread_addr w t) (wi_data_size w) t xs = Some ys" and "\<forall>x \<in> set xs. atomic_ok w x"
  shows "(\<forall>y \<in> set ys. atomic_ok w y) \<and> \<Union> (active ` set ys) = insert t (\<Union> (active ` set xs))"
  using assms
proof (induction xs arbitrary: ys)
  case Nil
  then obtain info where "join_atomic (thread_addr w t) (wi_data_size w) t new_transaction = Some info" "ys = [info]"
    by (auto simp: bind_eq_Some_conv)
  moreover have "atomic_ok w new_transaction" by (simp add: atomic_ok_def new_transaction_def)
  ultimately show ?case using join_atomic_ok by (fastforce simp: new_transaction_def)
next
  case (Cons x xs)
  then consider zs where "place_atomic (thread_addr w t) (wi_data_size w) t xs = Some zs" "ys = x # zs"
    | y where "join_atomic (thread_addr w t) (wi_data_size w) t x = Some y" "ys = y # xs"
    by (auto simp: Let_def bind_eq_Some_conv split: if_splits)
  then show ?case
  proof cases
    case (1 zs)
    with Cons.IH [of zs] Cons.prems(2) show ?thesis by auto
  next
    case (2 y)
    with join_atomic_ok [of w t x y] Cons.prems(2) show ?thesis by auto
  qed
qed

definition atomic_map_ok :: "warp_inst \<Rightarrow> nat set \<Rightarrow> (u64 \<times> transaction_info list) list \<Rightarrow> bool" where
  "atomic_map_ok w S m \<longleftrightarrow> sorted_wrt (<) (map fst m)
     \<and> (\<forall>k infos. map_of m k = Some infos \<longrightarrow> (\<forall>info \<in> set infos. atomic_ok w info)
          \<and> \<Union> (active ` set infos) = {t \<in> S. thread_block w t = k})
     \<and> fst ` set m = thread_block w ` S"

lemma atomic_thread_ok:
  assumes "atomic_thread w m t = Some m'" and "atomic_map_ok w S m"
  shows "atomic_map_ok w (S \<union> ({t} \<inter> wi_active w)) m'"
proof (cases "t \<in> wi_active w")
  case False
  with assms show ?thesis by (auto simp: atomic_thread_def bind_eq_Some_conv bs_test_eq_Some)
next
  case True
  let ?k = "thread_block w t"
  obtain ys where ys: "place_atomic (thread_addr w t) (wi_data_size w) t (omap_get [] ?k m) = Some ys"
    and m': "m' = omap_put ?k ys m"
    using assms(1) True
    by (auto simp: atomic_thread_def Let_def bind_eq_Some_conv bs_test_eq_Some thread_addr_def thread_block_def)
  have get: "(\<forall>x \<in> set (omap_get [] ?k m). atomic_ok w x) \<and> \<Union> (active ` set (omap_get [] ?k m)) = {u \<in> S. thread_block w u = ?k}"
  proof (cases "map_of m ?k")
    case None
    then have "?k \<notin> thread_block w ` S" using assms(2) by (auto simp: atomic_map_ok_def map_of_eq_None_iff)
    with None show ?thesis by (auto simp: omap_get_map_of image_iff)
  next
    case (Some infos)
    with assms(2) show ?thesis by (simp add: omap_get_map_of atomic_map_ok_def)
  qed
  from place_atomic_ok [OF ys] get have new: "\<forall>y \<in> set ys. atomic_ok w y"
    "\<Union> (active ` set ys) = insert t {u \<in> S. thread_block w u = ?k}" by auto
  have sets: "{u \<in> insert t S. thread_block w u = k} =
      (if k = ?k then insert t {u \<in> S. thread_block w u = k} else {u \<in> S. thread_block w u = k})" for k
    by auto
  have one: "S \<union> ({t} \<inter> wi_active w) = insert t S" using True by auto
  show ?thesis
    using assms(2) new unfolding one atomic_map_ok_def m' sets by (auto simp: sorted_omap_put)
qed

lemma atomic_threads_ok:
  "foldM (atomic_thread w) m ts = Some m' \<Longrightarrow> atomic_map_ok w S m \<Longrightarrow> atomic_map_ok w (S \<union> (set ts \<inter> wi_active w)) m'"
proof (induction ts arbitrary: m S)
  case (Cons t ts)
  then obtain m1 where s: "atomic_thread w m t = Some m1" "foldM (atomic_thread w) m1 ts = Some m'"
    by (auto simp: bind_eq_Some_conv)
  have "S \<union> (set (t # ts) \<inter> wi_active w) = (S \<union> ({t} \<inter> wi_active w)) \<union> (set ts \<inter> wi_active w)" by auto
  with Cons.IH [OF s(2) atomic_thread_ok [OF s(1) Cons.prems(2)]] show ?case by simp
qed simp

definition same_word_free :: "warp_inst \<Rightarrow> mem_access \<Rightarrow> bool" where
  "same_word_free w acc \<longleftrightarrow> (\<forall>t \<in> ma_warp_mask acc. \<forall>u \<in> ma_warp_mask acc. t \<noteq> u \<longrightarrow>
     thread_bytes w t \<inter> thread_bytes w u = {})"

lemma reduce_infos:
  "foldM (\<lambda>accessq info. reduce_and_send wr ty seg accessq (k, info)) q infos = Some q'
    \<Longrightarrow> \<exists>accs. q' = q @ accs \<and> map ma_warp_mask accs = map active infos"
proof (induction infos arbitrary: q)
  case (Cons info infos)
  then obtain q1 where q1: "reduce_and_send wr ty seg q (k, info) = Some q1"
    and f: "foldM (\<lambda>accessq info. reduce_and_send wr ty seg accessq (k, info)) q1 infos = Some q'"
    by (auto simp: bind_eq_Some_conv)
  from reduce_and_send_one [OF q1] Cons.IH [OF f] show ?case by force
qed simp

lemma reduce_infos_all:
  "foldM (\<lambda>accessq (k, infos). foldM (\<lambda>accessq info. reduce_and_send wr ty seg accessq (k, info)) accessq infos) q m
      = Some q'
    \<Longrightarrow> \<exists>accs. q' = q @ accs \<and> map ma_warp_mask accs = concat (map (\<lambda>(k, infos). map active infos) m)"
proof (induction m arbitrary: q)
  case (Cons x m)
  obtain k infos where x: "x = (k, infos)" by fastforce
  with Cons.prems obtain q1 where q1: "foldM (\<lambda>accessq info. reduce_and_send wr ty seg accessq (k, info)) q infos = Some q1"
    and f: "foldM (\<lambda>accessq (k, infos). foldM (\<lambda>accessq info. reduce_and_send wr ty seg accessq (k, info)) accessq infos) q1 m
      = Some q'"
    by (auto simp: bind_eq_Some_conv)
  obtain a1 where "q1 = q @ a1" "map ma_warp_mask a1 = map active infos" using reduce_infos [OF q1] by blast
  moreover obtain a2 where "q' = q1 @ a2" "map ma_warp_mask a2 = concat (map (\<lambda>(k, infos). map active infos) m)"
    using Cons.IH [OF f] by blast
  ultimately show ?case using x by (intro exI [of _ "a1 @ a2"]) simp
qed simp

definition half_threads :: "core_config \<Rightarrow> warp_inst \<Rightarrow> nat \<Rightarrow> nat set" where
  "half_threads cfg w n = {t \<in> wi_active w. n * (warp_size cfg div 2) \<le> t \<and> t < (warp_size cfg div 2) * (n + 1)}"

lemma atomic_subwarp_ok:
  assumes "atomic_subwarp cfg w wr ty q n = Some q'"
  shows "\<exists>accs. q' = q @ accs \<and> (\<forall>acc \<in> set accs. same_word_free w acc)
    \<and> \<Union> (ma_warp_mask ` set accs) = half_threads cfg w n"
proof -
  let ?k = "warp_size cfg div 2"
  from assms obtain m where t: "foldM (atomic_thread w) [] [n * ?k..<?k * (n + 1)] = Some m"
    and f: "foldM (\<lambda>accessq (k, infos). foldM (\<lambda>accessq info. reduce_and_send wr ty (segment_size_of (wi_data_size w))
        accessq (k, info)) accessq infos) q m = Some q'"
    by (auto simp: atomic_subwarp_def Let_def bind_eq_Some_conv)
  have S: "{} \<union> (set [n * ?k..<?k * (n + 1)] \<inter> wi_active w) = half_threads cfg w n"
    by (auto simp: half_threads_def)
  have "atomic_map_ok w {} []" by (simp add: atomic_map_ok_def)
  from atomic_threads_ok [OF t this, unfolded S] have m: "atomic_map_ok w (half_threads cfg w n) m" .
  have dist: "distinct (map fst m)" using m by (simp add: atomic_map_ok_def omap_distinct)
  have each: "(\<forall>info \<in> set infos. atomic_ok w info) \<and> \<Union> (active ` set infos) = {t \<in> half_threads cfg w n. thread_block w t = k}"
    if "(k, infos) \<in> set m" for k infos
    using m map_of_is_SomeI [OF dist that] by (simp add: atomic_map_ok_def)
  have each2: "\<Union> (active ` set infos) = {t \<in> half_threads cfg w n. thread_block w t = k}"
    if "(k, infos) \<in> set m" for k infos using each that by blast
  obtain accs where a: "q' = q @ accs" "map ma_warp_mask accs = concat (map (\<lambda>(k, infos). map active infos) m)"
    using reduce_infos_all [OF f] by blast
  have masks: "ma_warp_mask ` set accs = (\<Union>(k, infos) \<in> set m. active ` set infos)"
    using arg_cong [OF a(2), of set] by auto
  have "same_word_free w acc" if acc: "acc \<in> set accs" for acc
  proof -
    have "ma_warp_mask acc \<in> (\<Union>(k, infos) \<in> set m. active ` set infos)" using acc masks by blast
    then obtain k infos info where "(k, infos) \<in> set m" "info \<in> set infos" "ma_warp_mask acc = active info" by auto
    with each show ?thesis by (auto simp: same_word_free_def atomic_ok_def)
  qed
  moreover have "\<Union> (ma_warp_mask ` set accs) = half_threads cfg w n"
  proof -
    have "\<Union> (ma_warp_mask ` set accs) = (\<Union>(k, infos) \<in> set m. \<Union> (active ` set infos))"
      unfolding masks by auto
    also have "\<dots> = (\<Union>(k, infos) \<in> set m. {t \<in> half_threads cfg w n. thread_block w t = k})"
      by (rule SUP_cong [OF refl]) (use each2 in clarsimp)
    also have "\<dots> = {t \<in> half_threads cfg w n. thread_block w t \<in> fst ` set m}" by force
    also have "\<dots> = half_threads cfg w n" using m by (auto simp: atomic_map_ok_def)
    finally show ?thesis .
  qed
  ultimately show ?thesis using a(1) by blast
qed

text \<open>C37. The accesses of an atomic to global memory serve exactly the active threads, and two threads whose
  addresses share a byte are never in the same access, so their updates are done one after the other.\<close>

theorem atomics_serialised:
  assumes "memory_coalescing_arch_13_atomic cfg w wr ty = Some q'"
  shows "\<exists>accs. q' = wi_accessq w @ accs \<and> (\<forall>acc \<in> set accs. same_word_free w acc)
    \<and> \<Union> (ma_warp_mask ` set accs) = {t \<in> wi_active w. t < 2 * (warp_size cfg div 2)}"
proof -
  have two: "[0..<2] = [0, 1 :: nat]" by (simp add: numeral_2_eq_2)
  from assms obtain q1 where q: "atomic_subwarp cfg w wr ty (wi_accessq w) 0 = Some q1"
    "atomic_subwarp cfg w wr ty q1 1 = Some q'"
    unfolding memory_coalescing_arch_13_atomic_def two by (auto simp: bind_eq_Some_conv)
  obtain a1 where a1: "q1 = wi_accessq w @ a1" "\<forall>acc \<in> set a1. same_word_free w acc"
    "\<Union> (ma_warp_mask ` set a1) = half_threads cfg w 0" using atomic_subwarp_ok [OF q(1)] by blast
  obtain a2 where a2: "q' = q1 @ a2" "\<forall>acc \<in> set a2. same_word_free w acc"
    "\<Union> (ma_warp_mask ` set a2) = half_threads cfg w 1" using atomic_subwarp_ok [OF q(2)] by blast
  have "half_threads cfg w 0 \<union> half_threads cfg w 1 = {t \<in> wi_active w. t < 2 * (warp_size cfg div 2)}"
    by (auto simp: half_threads_def)
  with a1(3) a2(3) have "\<Union> (ma_warp_mask ` set (a1 @ a2)) = {t \<in> wi_active w. t < 2 * (warp_size cfg div 2)}"
    by (simp add: image_Un)
  with a1 a2 show ?thesis by (intro exI [of _ "a1 @ a2"]) (simp add: ball_Un)
qed

section \<open>Bank conflicts\<close>

definition thread_bank :: "core_config \<Rightarrow> warp_inst \<Rightarrow> nat \<Rightarrow> u32" where
  "thread_bank cfg w t = (ucast (thread_addr w t) div 4) mod num_shmem_bank cfg"

definition thread_word :: "warp_inst \<Rightarrow> nat \<Rightarrow> u64" where
  "thread_word w t = ucast (line_size_based_tag_func (thread_addr w t) 4)"

text \<open>The table of step 1 for a set of threads: each bank with its distinct words.\<close>

definition words_of :: "core_config \<Rightarrow> warp_inst \<Rightarrow> nat set \<Rightarrow> u32 \<Rightarrow> u64 set" where
  "words_of cfg w S b = thread_word w ` {t \<in> S. thread_bank cfg w t = b}"

definition bank_table :: "core_config \<Rightarrow> warp_inst \<Rightarrow> nat set \<Rightarrow> bank_accesses \<Rightarrow> bool" where
  "bank_table cfg w S accs \<longleftrightarrow> sorted_wrt (<) (map fst accs) \<and> fst ` set accs = thread_bank cfg w ` S
     \<and> (\<forall>b words. map_of accs b = Some words \<longrightarrow> sorted_wrt (<) (map fst words) \<and> fst ` set words = words_of cfg w S b)"

lemma count_word_table:
  assumes "count_word cfg w accs t = Some accs'" and "bank_table cfg w S accs"
  shows "bank_table cfg w (S \<union> ({t} \<inter> wi_active w)) accs'"
proof (cases "t \<in> wi_active w")
  case False
  with assms show ?thesis by (auto simp: count_word_def bind_eq_Some_conv bs_test_eq_Some)
next
  case True
  let ?b = "thread_bank cfg w t" and ?a = "thread_word w t"
  let ?ws = "omap_get [] ?b accs"
  have accs': "accs' = omap_put ?b (omap_put ?a (Suc (omap_get 0 ?a ?ws)) ?ws) accs"
    using assms(1) True
    by (auto simp: count_word_def shmem_bank_func_def Let_def bind_eq_Some_conv bs_test_eq_Some thread_addr_def
        thread_bank_def thread_word_def)
  have ws: "sorted_wrt (<) (map fst ?ws) \<and> fst ` set ?ws = words_of cfg w S ?b"
  proof (cases "map_of accs ?b")
    case None
    then have "?b \<notin> thread_bank cfg w ` S" using assms(2) by (auto simp: bank_table_def map_of_eq_None_iff)
    with None show ?thesis by (auto simp: omap_get_map_of words_of_def image_iff)
  next
    case (Some words)
    with assms(2) show ?thesis by (simp add: omap_get_map_of bank_table_def)
  qed
  have one: "S \<union> ({t} \<inter> wi_active w) = insert t S" using True by auto
  have words: "words_of cfg w (insert t S) b = (if b = ?b then insert ?a (words_of cfg w S b) else words_of cfg w S b)" for b
    by (auto simp: words_of_def)
  show ?thesis
    using assms(2) ws unfolding one bank_table_def accs' words by (auto simp: sorted_omap_put)
qed

lemma count_words_table:
  "foldM (count_word cfg w) accs ts = Some accs' \<Longrightarrow> bank_table cfg w S accs
    \<Longrightarrow> bank_table cfg w (S \<union> (set ts \<inter> wi_active w)) accs'"
proof (induction ts arbitrary: accs S)
  case (Cons t ts)
  then obtain a1 where s: "count_word cfg w accs t = Some a1" "foldM (count_word cfg w) a1 ts = Some accs'"
    by (auto simp: bind_eq_Some_conv)
  have "S \<union> (set (t # ts) \<inter> wi_active w) = (S \<union> ({t} \<inter> wi_active w)) \<union> (set ts \<inter> wi_active w)" by auto
  with Cons.IH [OF s(2) count_word_table [OF s(1) Cons.prems(2)]] show ?case by simp
qed simp

lemma foldl_max: "foldl (\<lambda>best b. max best (f b)) (n :: nat) xs = Max (insert n (f ` set xs))"
proof (induction xs arbitrary: n)
  case Nil
  then show ?case by simp
next
  case (Cons x xs)
  have "Max (insert (max n (f x)) A) = Max (insert n (insert (f x) A))" if "finite A" for A
    using that by (cases "A = {}") (simp_all add: max.assoc)
  with Cons show ?case by simp
qed

text \<open>The conflicts of a part of the warp: the largest number of distinct words in one bank.\<close>

definition conflict_degree :: "core_config \<Rightarrow> warp_inst \<Rightarrow> nat set \<Rightarrow> nat" where
  "conflict_degree cfg w S = Max (insert 0 ((\<lambda>b. card (words_of cfg w S b)) ` thread_bank cfg w ` S))"

lemma subwarp_conflicts_degree:
  assumes "subwarp_conflicts cfg w m0 n = Some m1" and "\<not> shmem_limited_broadcast cfg"
  shows "m1 = m0 + conflict_degree cfg w (subwarp_threads cfg w n)"
proof -
  let ?k = "warp_size cfg div mem_warp_parts cfg"
  from assms obtain accs where t: "foldM (count_word cfg w) [] [n * ?k..<(n + 1) * ?k] = Some accs"
    and r: "m1 = m0 + foldl (\<lambda>best b. max best (length (snd b))) 0 accs"
    by (auto simp: subwarp_conflicts_def Let_def bind_eq_Some_conv)
  have S: "{} \<union> (set [n * ?k..<(n + 1) * ?k] \<inter> wi_active w) = subwarp_threads cfg w n"
    by (auto simp: subwarp_threads_def mult.commute)
  have "bank_table cfg w {} []" by (simp add: bank_table_def)
  from count_words_table [OF t this, unfolded S] have tab: "bank_table cfg w (subwarp_threads cfg w n) accs" .
  have "length words = card (words_of cfg w (subwarp_threads cfg w n) b)" if "(b, words) \<in> set accs" for b words
  proof -
    have "map_of accs b = Some words" using tab that by (simp add: bank_table_def omap_distinct map_of_is_SomeI)
    with tab have "sorted_wrt (<) (map fst words)" "fst ` set words = words_of cfg w (subwarp_threads cfg w n) b"
      by (auto simp: bank_table_def)
    then show ?thesis using length_omap [of words] by simp
  qed
  then have "(\<lambda>b. length (snd b)) ` set accs = (\<lambda>b. card (words_of cfg w (subwarp_threads cfg w n) b)) ` fst ` set accs"
    by (force simp: image_iff)
  with tab r show ?thesis by (simp add: foldl_max conflict_degree_def bank_table_def)
qed

text \<open>An access to shared memory takes, for each part of the warp, as many cycles as the busiest bank has
  distinct words (without limited broadcast), and the total is between one and the size of the warp.\<close>

theorem shared_cycles_are_conflicts:
  assumes "generate_queue cfg line w = Some w'" and "wi_space w = shared_space" and "\<not> shmem_limited_broadcast cfg"
  shows "wi_cycles w' = (\<Sum>s < mem_warp_parts cfg. conflict_degree cfg w (subwarp_threads cfg w s))
    \<and> 0 < wi_cycles w' \<and> wi_cycles w' \<le> warp_size cfg \<and> wi_accessq w' = wi_accessq w"
proof -
  have sum: "m1 = m0 + (\<Sum>s < n. conflict_degree cfg w (subwarp_threads cfg w s))"
    if "foldM (subwarp_conflicts cfg w) m0 [0..<n] = Some m1" for n m0 m1
    using that
  proof (induction n arbitrary: m1)
    case (Suc n)
    then show ?case
      using subwarp_conflicts_degree [OF _ assms(3)] by (fastforce simp: foldM_append bind_eq_Some_conv)
  qed simp
  from assms(1,2) obtain n where "shared_conflicts cfg w = Some n" "n > 0" "n \<le> warp_size cfg" "w' = w\<lparr>wi_cycles := n\<rparr>"
    by (auto simp: generate_queue_def Let_def bind_eq_Some_conv)
  with sum show ?thesis by (fastforce simp: shared_conflicts_def bind_eq_Some_conv)
qed

section \<open>Sample instructions\<close>

definition sample_core :: "bool \<Rightarrow> core_config" where
  "sample_core off = \<lparr>warp_size = 4, gpgpu_coalesce_arch = 13, shmem_limited_broadcast = False,
     num_shmem_bank = 16, mem_warp_parts = 2, coal_disabled = off, coal_disabled_dyn = False, coal_line_num = 0,
     gpgpu_cache_texl1_linesize = 128, gpgpu_cache_constl1_linesize = 64\<rparr>"

definition sample_load :: "memory_space \<Rightarrow> u64 \<Rightarrow> warp_inst" where
  "sample_load sp a = \<lparr>wi_op = LOAD_OP, wi_memory_op = memory_load, wi_data_size = 4, wi_space = sp,
     wi_empty = False, wi_isatomic = False, wi_active = {0, 1, 2}, wi_valid = True,
     wi_addr = [[a], [a + 4], [a + 128], [0]], wi_accessq = [], wi_created = False, wi_cycles = 0\<rparr>"

lemma sample_load_off: "generate_mem_accesses (sample_core True) 0 (sample_load global_space 0x1000) \<noteq> None"
  by code_simp

lemma sample_load_off2: "generate_mem_accesses (sample_core True) 0 (sample_load global_space 0x2040) \<noteq> None"
  by code_simp

lemma sample_load_on: "generate_mem_accesses (sample_core False) 0 (sample_load global_space 0x1000) \<noteq> None"
  by code_simp

lemmas sample_load_runs = sample_load_off sample_load_off2 sample_load_on

lemma sample_atomic_runs:
  "memory_coalescing_arch_13_atomic (sample_core False) (sample_load global_space 0x1000) False GLOBAL_ACC_R \<noteq> None"
  by code_simp

lemma sample_shared_runs: "generate_queue (sample_core False) 0 (sample_load shared_space 0x1000) \<noteq> None"
  by code_simp

theorem coalescing_off_hides_addresses_witness:
  "\<exists>w' v'. generate_mem_accesses (sample_core True) 0 (sample_load global_space 0x1000) = Some w'
    \<and> generate_mem_accesses (sample_core True) 0 (sample_load global_space 0x2040) = Some v'
    \<and> map ma_warp_mask (wi_accessq w') = map ma_warp_mask (wi_accessq v')"
proof -
  obtain w' v' where r: "generate_mem_accesses (sample_core True) 0 (sample_load global_space 0x1000) = Some w'"
    "generate_mem_accesses (sample_core True) 0 (sample_load global_space 0x2040) = Some v'"
    using sample_load_runs by blast
  have v: "sample_load global_space 0x2040 = sample_load global_space 0x1000
      \<lparr>wi_addr := [[0x2040], [0x2044], [0x20C0], [0]]\<rparr>" by (simp add: sample_load_def)
  have "map (\<lambda>a. (ma_type a, ma_size a, ma_write a, ma_warp_mask a)) (wi_accessq w')
      = map (\<lambda>a. (ma_type a, ma_size a, ma_write a, ma_warp_mask a)) (wi_accessq v')"
    by (rule coalescing_off_hides_addresses [OF r(1) _ _ _ _ _ _ _ r(2) [unfolded v], THEN conjunct1])
      (simp_all add: sample_load_def sample_core_def coalescing_off_def)
  from arg_cong [OF this, of "map (snd \<circ> snd \<circ> snd)"] r show ?thesis by (auto simp: comp_def)
qed

theorem coalescing_merges_segments_witness:
  "\<exists>w'. generate_mem_accesses (sample_core False) 0 (sample_load global_space 0x1000) = Some w'
    \<and> (\<forall>s < 2. \<forall>t \<in> subwarp_threads (sample_core False) (sample_load global_space 0x1000) s.
         \<exists>acc \<in> set (wi_accessq w'). serves (sample_load global_space 0x1000) t acc)"
proof -
  let ?w = "sample_load global_space 0x1000"
  obtain w' where r: "generate_mem_accesses (sample_core False) 0 ?w = Some w'" using sample_load_runs by blast
  have al: "unat (wi_data_size ?w) dvd low_addr (thread_addr ?w t)" if "t \<in> wi_active ?w" for t
    using that by (auto simp: sample_load_def thread_addr_def req_addr_def)
  from coalescing_merges_segments [OF r _ _ _ _ _ _ _ _ al] r show ?thesis
    by (force simp: sample_load_def sample_core_def coalescing_off_def data_size_ok_def)
qed

theorem atomics_serialised_witness:
  "\<exists>accs. memory_coalescing_arch_13_atomic (sample_core False) (sample_load global_space 0x1000) False GLOBAL_ACC_R = Some accs
    \<and> (\<forall>acc \<in> set accs. same_word_free (sample_load global_space 0x1000) acc)"
proof -
  obtain q where q: "memory_coalescing_arch_13_atomic (sample_core False) (sample_load global_space 0x1000) False GLOBAL_ACC_R
    = Some q" using sample_atomic_runs by blast
  from atomics_serialised [OF q] q show ?thesis by (auto simp: sample_load_def)
qed

theorem shared_cycles_are_conflicts_witness:
  "\<exists>w'. generate_queue (sample_core False) 0 (sample_load shared_space 0x1000) = Some w' \<and> 0 < wi_cycles w'
    \<and> wi_cycles w' \<le> 4"
proof -
  obtain w' where q: "generate_queue (sample_core False) 0 (sample_load shared_space 0x1000) = Some w'"
    using sample_shared_runs by blast
  from shared_cycles_are_conflicts [OF q] q show ?thesis by (simp add: sample_load_def sample_core_def)
qed

end
