(* ===== verification/Simt_Stack.thy ===== *)
theory Simt_Stack
  imports Hardware_Model
begin

text \<open>
  The reconvergence stack of a warp: \<open>simt_stack\<close> of \<open>abstract_hardware_model.cc\<close>. The stack is a list
  with its top first. \<open>update\<close> takes the program counters the threads of the top entry go on with, groups
  them into at most two paths and pushes, replaces or pops entries so that the paths reconverge at the
  post dominator. The address -1 stands for none. The printing is left out; \<open>cycle\<close> is the simulation
  time that is written into an entry.
\<close>

datatype stack_entry_type = STACK_ENTRY_TYPE_NORMAL | STACK_ENTRY_TYPE_CALL

record simt_entry =
  m_pc :: u32
  m_calldepth :: nat
  m_active_mask :: "nat set"
  m_recvg_pc :: u32
  m_branch_div_cycle :: u64
  m_type :: stack_entry_type

definition new_entry :: simt_entry where
  "new_entry = \<lparr>m_pc = - 1, m_calldepth = 0, m_active_mask = {}, m_recvg_pc = - 1, m_branch_div_cycle = 0,
     m_type = STACK_ENTRY_TYPE_NORMAL\<rparr>"

type_synonym simt_stack = "simt_entry list"

definition launch :: "u32 \<Rightarrow> nat set \<Rightarrow> simt_stack" where
  "launch start_pc active_mask =
     [new_entry\<lparr>m_pc := start_pc, m_calldepth := 1, m_active_mask := active_mask, m_type := STACK_ENTRY_TYPE_NORMAL\<rparr>]"

definition get_active_mask :: "simt_stack \<Rightarrow> nat set option" where
  "get_active_mask st = (case st of [] \<Rightarrow> None | e # _ \<Rightarrow> Some (m_active_mask e))"

definition get_pdom_stack_top_info :: "simt_stack \<Rightarrow> (u32 \<times> u32) option" where
  "get_pdom_stack_top_info st = (case st of [] \<Rightarrow> None | e # _ \<Rightarrow> Some (m_pc e, m_recvg_pc e))"

definition get_rp :: "simt_stack \<Rightarrow> u32 option" where
  "get_rp st = (case st of [] \<Rightarrow> None | e # _ \<Rightarrow> Some (m_recvg_pc e))"

section \<open>Grouping the threads of the top entry\<close>

text \<open>One thread of the loop that extracts the threads with the same next program counter.\<close>

definition extract_step :: "nat set \<Rightarrow> u32 list \<Rightarrow> nat set \<times> u32 \<times> nat set \<Rightarrow> nat \<Rightarrow> nat set \<times> u32 \<times> nat set" where
  "extract_step thread_done next_pc = (\<lambda>(top_active_mask, tmp_next_pc, tmp_active_mask) i.
     if i \<in> top_active_mask then
       (if i \<in> thread_done then (top_active_mask - {i}, tmp_next_pc, tmp_active_mask)
        else if tmp_next_pc = - 1 then (top_active_mask - {i}, next_pc ! i, insert i tmp_active_mask)
        else if tmp_next_pc = next_pc ! i then (top_active_mask - {i}, tmp_next_pc, insert i tmp_active_mask)
        else (top_active_mask, tmp_next_pc, tmp_active_mask))
     else (top_active_mask, tmp_next_pc, tmp_active_mask))"

definition extract_group :: "nat \<Rightarrow> nat set \<Rightarrow> u32 list \<Rightarrow> nat set \<Rightarrow> nat set \<times> u32 \<times> nat set" where
  "extract_group m_warp_size thread_done next_pc top_active_mask =
     foldl (extract_step thread_done next_pc) (top_active_mask, - 1, {}) (rev [0..<m_warp_size])"

lemma extract_fixed:
  "pc \<noteq> - 1 \<Longrightarrow> distinct xs \<Longrightarrow> foldl (extract_step dn np) (act, pc, msk) xs =
     (act - {i \<in> set xs. i \<in> dn \<or> np ! i = pc}, pc, msk \<union> {i \<in> set xs. i \<in> act \<and> i \<notin> dn \<and> np ! i = pc})"
proof (induction xs arbitrary: act msk)
  case (Cons x xs)
  then show ?case
    by (cases "x \<in> act"; cases "x \<in> dn"; cases "np ! x = pc") (auto simp: extract_step_def)
qed simp

lemma extract_free:
  assumes "distinct xs" and "\<forall>i \<in> set xs \<inter> act - dn. np ! i \<noteq> - 1"
  shows "if set xs \<inter> act - dn = {} then foldl (extract_step dn np) (act, - 1, {}) xs = (act - (set xs \<inter> dn), - 1, {})
    else \<exists>t \<in> set xs \<inter> act - dn. foldl (extract_step dn np) (act, - 1, {}) xs =
      (act - {i \<in> set xs. i \<in> dn \<or> np ! i = np ! t}, np ! t, {i \<in> set xs. i \<in> act \<and> i \<notin> dn \<and> np ! i = np ! t})"
  using assms
proof (induction xs arbitrary: act)
  case (Cons x xs)
  consider (out) "x \<notin> act" | (dn) "x \<in> act" "x \<in> dn" | (live) "x \<in> act" "x \<notin> dn" by blast
  then show ?case
  proof cases
    case out
    have a: "act - {i \<in> set (x # xs). P i} = act - {i \<in> set xs. P i}" for P using out by auto
    have b: "{i \<in> set (x # xs). i \<in> act \<and> P i} = {i \<in> set xs. i \<in> act \<and> P i}" for P using out by auto
    have c: "set (x # xs) \<inter> act - dn = set xs \<inter> act - dn" "act - (set (x # xs) \<inter> dn) = act - (set xs \<inter> dn)"
      using out by auto
    have d: "extract_step dn np (act, - 1, {}) x = (act, - 1, {})" using out by (simp add: extract_step_def)
    show ?thesis
      unfolding a b c foldl_Cons d by (rule Cons.IH) (use Cons.prems in auto)
  next
    case dn
    let ?A = "act - {x}"
    have x: "x \<notin> set xs" using Cons.prems by simp
    have a: "act - {i \<in> set (x # xs). i \<in> dn \<or> P i} = ?A - {i \<in> set xs. i \<in> dn \<or> P i}" for P using dn by auto
    have b: "{i \<in> set (x # xs). i \<in> act \<and> i \<notin> dn \<and> P i} = {i \<in> set xs. i \<in> ?A \<and> i \<notin> dn \<and> P i}" for P
      using dn x by auto
    have c: "set (x # xs) \<inter> act - dn = set xs \<inter> ?A - dn" "act - (set (x # xs) \<inter> dn) = ?A - (set xs \<inter> dn)"
      using dn x by auto
    have d: "extract_step dn np (act, - 1, {}) x = (?A, - 1, {})" using dn by (simp add: extract_step_def)
    show ?thesis
      unfolding a b c foldl_Cons d by (rule Cons.IH) (use Cons.prems in auto)
  next
    case live
    then have "extract_step dn np (act, - 1, {}) x = (act - {x}, np ! x, {x})" by (simp add: extract_step_def)
    moreover have "np ! x \<noteq> - 1" using Cons.prems live by auto
    ultimately show ?thesis using live Cons.prems(1) by (auto simp: extract_fixed)
  qed
qed simp

text \<open>A thread of the warp is taken out of the mask whenever a program counter is found.\<close>

lemma extract_keeps: "foldl (extract_step dn np) (act, pc, msk) xs = (act', pc', msk') \<Longrightarrow> act' \<subseteq> act"
proof (induction xs arbitrary: act pc msk)
  case (Cons x xs)
  obtain a p k where s: "extract_step dn np (act, pc, msk) x = (a, p, k)" by (cases "extract_step dn np (act, pc, msk) x")
  then have "a \<subseteq> act" by (auto simp: extract_step_def split: if_splits)
  moreover have "act' \<subseteq> a" by (rule Cons.IH [of a p k]) (use Cons.prems s in simp)
  ultimately show ?case by blast
qed simp

lemma extract_removes:
  "foldl (extract_step dn np) (act, - 1, msk) xs = (act', pc', msk') \<Longrightarrow> pc' \<noteq> - 1
    \<Longrightarrow> \<exists>i \<in> set xs. i \<in> act \<and> i \<notin> act'"
proof (induction xs arbitrary: act msk)
  case (Cons x xs)
  obtain a p k where s: "extract_step dn np (act, - 1, msk) x = (a, p, k)" by (cases "extract_step dn np (act, - 1, msk) x")
  show ?case
  proof (cases "p = - 1")
    case True
    then have "\<exists>i \<in> set xs. i \<in> a \<and> i \<notin> act'" using Cons s by auto
    moreover have "a \<subseteq> act" using s by (auto simp: extract_step_def split: if_splits)
    ultimately show ?thesis by auto
  next
    case False
    then have "x \<in> act" "x \<notin> a" using s by (auto simp: extract_step_def split: if_splits)
    moreover have "act' \<subseteq> a" using extract_keeps [of dn np a p k xs act' pc' msk'] Cons.prems(1) s by simp
    ultimately show ?thesis by auto
  qed
qed simp

lemma group_smaller:
  assumes "extract_group n dn np act = (act', pc, msk)" and "pc \<noteq> - 1"
  shows "card (act' \<inter> {..<n}) < card (act \<inter> {..<n})"
proof -
  have e: "foldl (extract_step dn np) (act, - 1, {}) (rev [0..<n]) = (act', pc, msk)"
    using assms(1) by (simp add: extract_group_def)
  have "act' \<inter> {..<n} \<subset> act \<inter> {..<n}"
    using extract_keeps [OF e] extract_removes [OF e assms(2)] by auto
  then show ?thesis by (auto intro: psubset_card_mono)
qed

text \<open>The loop that fills \<open>divergent_paths\<close> and counts them.\<close>

function divergent_paths :: "nat \<Rightarrow> nat set \<Rightarrow> u32 list \<Rightarrow> nat set \<Rightarrow> (u32 \<times> nat set) list \<Rightarrow> nat
    \<Rightarrow> ((u32 \<times> nat set) list \<times> nat) option" where
  "divergent_paths m_warp_size thread_done next_pc top_active_mask paths num =
     (if top_active_mask = {} then Some (paths, num)
      else (case extract_group m_warp_size thread_done next_pc top_active_mask of
        (top_active_mask', tmp_next_pc, tmp_active_mask) \<Rightarrow>
          if tmp_next_pc = - 1
          then (if top_active_mask' = {} then Some (paths, num) else None)
          else divergent_paths m_warp_size thread_done next_pc top_active_mask'
            (omap_put tmp_next_pc tmp_active_mask paths) (Suc num)))"
  by pat_completeness auto

termination
  by (relation "measure (\<lambda>(n, _, _, act, _, _). card (act \<inter> {..<n}))") (auto dest!: group_smaller [OF sym])

declare divergent_paths.simps [simp del]

section \<open>Updating the stack\<close>

text \<open>What the update reads of the top entry and the instruction.\<close>

record update_args =
  u_top_recvg_pc :: u32
  u_top_type :: stack_entry_type
  u_recvg_pc :: u32
  u_op :: uarch_op
  u_num :: nat
  u_cycle :: u64

text \<open>The treatment of one path: \<open>Inl\<close> is the early return, \<open>Inr\<close> the stack, \<open>warp_diverged\<close> and
  \<open>new_recvg_pc\<close> for the next path.\<close>

definition path_step :: "update_args \<Rightarrow> simt_stack \<times> bool \<times> u32 \<Rightarrow> u32 \<Rightarrow> nat set
    \<Rightarrow> (simt_stack + simt_stack \<times> bool \<times> u32) option" where
  "path_step u = (\<lambda>(st, warp_diverged, new_recvg_pc) tmp_next_pc tmp_active_mask.
     if u_op u = CALL_OPS then do {
       _ \<leftarrow> assert_c (u_num u = 1);
       Some (Inl (new_entry\<lparr>m_pc := tmp_next_pc, m_active_mask := tmp_active_mask,
         m_branch_div_cycle := u_cycle u, m_type := STACK_ENTRY_TYPE_CALL\<rparr> # st)) }
     else if u_op u = RET_OPS \<and> u_top_type u = STACK_ENTRY_TYPE_CALL then do {
       _ \<leftarrow> assert_c (u_num u = 1);
       case tl st of
         [] \<Rightarrow> None
       | e # es \<Rightarrow>
           Some (Inl (if tmp_next_pc = m_recvg_pc e \<and> m_type e \<noteq> STACK_ENTRY_TYPE_CALL
             then es else e\<lparr>m_pc := tmp_next_pc\<rparr> # es)) }
     else if tmp_next_pc = u_top_recvg_pc u \<and> u_top_type u \<noteq> STACK_ENTRY_TYPE_CALL
     then Some (Inr (st, warp_diverged, new_recvg_pc))
     else do {
       let diverges = u_num u > 1 \<and> \<not> warp_diverged;
       let new_recvg_pc = (if diverges then u_recvg_pc u else new_recvg_pc);
       st \<leftarrow> (if diverges \<and> new_recvg_pc \<noteq> u_top_recvg_pc u
             then (case st of
               [] \<Rightarrow> None
             | e # es \<Rightarrow> Some (new_entry # e\<lparr>m_pc := new_recvg_pc, m_branch_div_cycle := u_cycle u\<rparr> # es))
             else Some st);
       let warp_diverged = (warp_diverged \<or> diverges);
       if warp_diverged \<and> tmp_next_pc = new_recvg_pc then Some (Inr (st, warp_diverged, new_recvg_pc))
       else (case st of
          [] \<Rightarrow> None
        | e # es \<Rightarrow>
            let e = e\<lparr>m_pc := tmp_next_pc, m_active_mask := tmp_active_mask\<rparr>;
                e = (if warp_diverged then e\<lparr>m_calldepth := 0, m_recvg_pc := new_recvg_pc\<rparr>
                     else e\<lparr>m_recvg_pc := u_top_recvg_pc u\<rparr>)
            in Some (Inr (new_entry # e # es, warp_diverged, new_recvg_pc))) })"

text \<open>Which path is next: the one that falls through, else the one with the least address.\<close>

definition next_path :: "u32 \<Rightarrow> nat \<Rightarrow> (u32 \<times> nat set) list \<Rightarrow> (u32 \<times> nat set \<times> (u32 \<times> nat set) list) option" where
  "next_path not_taken_pc i paths =
     (case map_of paths not_taken_pc of
        Some m \<Rightarrow> do {
          _ \<leftarrow> assert_c (i = 0);
          Some (not_taken_pc, m, filter (\<lambda>p. fst p \<noteq> not_taken_pc) paths) }
      | None \<Rightarrow>
          (case paths of
             [] \<Rightarrow> None
           | p # ps \<Rightarrow> Some (fst p, snd p, ps)))"

primrec update_paths :: "update_args \<Rightarrow> u32 \<Rightarrow> nat list \<Rightarrow> (u32 \<times> nat set) list \<Rightarrow> simt_stack \<times> bool \<times> u32
    \<Rightarrow> (simt_stack + simt_stack \<times> bool \<times> u32) option" where
  "update_paths u not_taken_pc [] paths s = Some (Inr s)"
| "update_paths u not_taken_pc (i # is) paths s = do {
     (tmp_next_pc, tmp_active_mask, paths) \<leftarrow> next_path not_taken_pc i paths;
     r \<leftarrow> path_step u s tmp_next_pc tmp_active_mask;
     case r of
       Inl st \<Rightarrow> Some (Inl st)
     | Inr s \<Rightarrow> update_paths u not_taken_pc is paths s }"

definition simt_update :: "nat \<Rightarrow> u64 \<Rightarrow> nat set \<Rightarrow> u32 list \<Rightarrow> u32 \<Rightarrow> uarch_op \<Rightarrow> u32 \<Rightarrow> u32 \<Rightarrow> simt_stack
    \<Rightarrow> simt_stack option" where
  "simt_update m_warp_size cycle thread_done next_pc recvg_pc next_inst_op next_inst_size next_inst_pc st =
     (case st of
        [] \<Rightarrow> None
      | tos # _ \<Rightarrow> do {
          _ \<leftarrow> assert_c (length next_pc = m_warp_size \<and> m_warp_size \<le> 32);
          _ \<leftarrow> assert_c (m_pc tos = next_inst_pc);
          _ \<leftarrow> assert_c (m_active_mask tos \<noteq> {});
          (paths, num) \<leftarrow> divergent_paths m_warp_size thread_done next_pc (m_active_mask tos) [] 0;
          _ \<leftarrow> assert_c (num \<le> 2);
          r \<leftarrow> update_paths \<lparr>u_top_recvg_pc = m_recvg_pc tos, u_top_type = m_type tos, u_recvg_pc = recvg_pc,
              u_op = next_inst_op, u_num = num, u_cycle = cycle\<rparr>
            (next_inst_pc + next_inst_size) [0..<num] paths (st, False, - 1);
          case r of
            Inl st \<Rightarrow> Some st
          | Inr (st, _, _) \<Rightarrow> (case st of [] \<Rightarrow> None | _ # es \<Rightarrow> Some es) })"

section \<open>The groups are the threads by their next program counter\<close>

lemma extract_group_spec:
  assumes "act \<subseteq> {..<n}" and "\<forall>t \<in> act - dn. np ! t \<noteq> - 1"
  shows "if act - dn = {} then extract_group n dn np act = ({}, - 1, {})
    else \<exists>t \<in> act - dn. extract_group n dn np act =
      ({u \<in> act - dn. np ! u \<noteq> np ! t}, np ! t, {u \<in> act - dn. np ! u = np ! t})"
proof -
  have s: "set (rev [0..<n]) \<inter> act - dn = act - dn" using assms(1) by auto
  have a: "act - (set (rev [0..<n]) \<inter> dn) = act - dn"
    "act - {i \<in> set (rev [0..<n]). i \<in> dn \<or> np ! i = p} = {u \<in> act - dn. np ! u \<noteq> p}"
    "{i \<in> set (rev [0..<n]). i \<in> act \<and> i \<notin> dn \<and> np ! i = p} = {u \<in> act - dn. np ! u = p}" for p
    using assms(1) by auto
  have p: "\<forall>i \<in> set (rev [0..<n]) \<inter> act - dn. np ! i \<noteq> - 1" using assms(2) by auto
  note e = extract_free [OF _ p, unfolded s a, folded extract_group_def]
  show ?thesis
    using e by (cases "act - dn = {}") (simp_all only: distinct_rev distinct_upt if_True if_False simp_thms)
qed

lemma divergent_paths_spec:
  assumes "act \<subseteq> {..<n}" and "\<forall>t \<in> act - dn. np ! t \<noteq> - 1" and "sorted_wrt (<) (map fst paths)"
    and "fst ` set paths \<inter> (!) np ` (act - dn) = {}"
  shows "\<exists>m. divergent_paths n dn np act paths k = Some (m, k + card ((!) np ` (act - dn)))
    \<and> sorted_wrt (<) (map fst m)
    \<and> map_of m = (\<lambda>pc. if pc \<in> (!) np ` (act - dn) then Some {t \<in> act - dn. np ! t = pc} else map_of paths pc)"
  using assms
proof (induction "card (act \<inter> {..<n})" arbitrary: act paths k rule: less_induct)
  case less
  let ?L = "act - dn"
  show ?case
  proof (cases "?L = {}")
    case True
    then have "divergent_paths n dn np act paths k = Some (paths, k)"
      using extract_group_spec [OF less.prems(1,2)] by (subst divergent_paths.simps) simp
    then show ?thesis using less.prems(3) unfolding True by simp
  next
    case False
    with extract_group_spec [OF less.prems(1,2)] obtain t where t: "t \<in> ?L"
      and e: "extract_group n dn np act = ({u \<in> ?L. np ! u \<noteq> np ! t}, np ! t, {u \<in> ?L. np ! u = np ! t})" by auto
    let ?A = "{u \<in> ?L. np ! u \<noteq> np ! t}" and ?P = "omap_put (np ! t) {u \<in> ?L. np ! u = np ! t} paths"
    have ne: "np ! t \<noteq> - 1" using less.prems(2) t by blast
    have step: "divergent_paths n dn np act paths k = divergent_paths n dn np ?A ?P (Suc k)"
      using e ne t by (subst divergent_paths.simps) auto
    have sm: "card (?A \<inter> {..<n}) < card (act \<inter> {..<n})" by (rule group_smaller [OF e ne])
    have L: "?A - dn = ?A" by auto
    have img: "(!) np ` ?L = insert (np ! t) ((!) np ` ?A)" using t by auto
    have nin: "np ! t \<notin> (!) np ` ?A" by auto
    have fin: "finite ?A" using less.prems(1) by (auto intro: finite_subset)
    have "\<exists>m. divergent_paths n dn np ?A ?P (Suc k) = Some (m, Suc k + card ((!) np ` (?A - dn)))
      \<and> sorted_wrt (<) (map fst m)
      \<and> map_of m = (\<lambda>pc. if pc \<in> (!) np ` (?A - dn) then Some {u \<in> ?A - dn. np ! u = pc} else map_of ?P pc)"
    proof (rule less.hyps [OF sm])
      show "?A \<subseteq> {..<n}" "\<forall>u \<in> ?A - dn. np ! u \<noteq> - 1" using less.prems(1,2) by auto
      show "sorted_wrt (<) (map fst ?P)" using less.prems(3) by (rule sorted_omap_put)
      show "fst ` set ?P \<inter> (!) np ` (?A - dn) = {}" using less.prems(4) by auto
    qed
    then obtain m where m: "divergent_paths n dn np act paths k = Some (m, Suc k + card ((!) np ` ?A))"
      "sorted_wrt (<) (map fst m)"
      "map_of m = (\<lambda>pc. if pc \<in> (!) np ` ?A then Some {u \<in> ?A. np ! u = pc} else map_of ?P pc)"
      unfolding step L by blast
    have "map_of m pc = (if pc \<in> (!) np ` ?L then Some {u \<in> ?L. np ! u = pc} else map_of paths pc)" for pc
    proof (cases "pc = np ! t")
      case True
      with m(3) nin t show ?thesis by auto
    next
      case False
      then have "{u \<in> ?A. np ! u = pc} = {u \<in> ?L. np ! u = pc}" by auto
      with m(3) False img show ?thesis by auto
    qed
    moreover have "Suc k + card ((!) np ` ?A) = k + card ((!) np ` ?L)"
      using fin nin unfolding img by simp
    ultimately show ?thesis using m(1,2) by auto
  qed
qed

text \<open>At most two paths: none, one, or two in the order \<open>next_path\<close> takes them.\<close>

lemma map_of_single: "sorted_wrt (<) (map fst m) \<Longrightarrow> fst ` set m = {k} \<Longrightarrow> map_of m (k :: 'k :: linorder) = Some v \<Longrightarrow> m = [(k, v)]"
  by (cases m; cases "tl m") (auto dest: map_of_SomeD)

lemma map_of_pair:
  assumes "sorted_wrt (<) (map fst m)" and "fst ` set m = {p, q}" and "p < (q :: 'k :: linorder)"
    and "map_of m p = Some v" and "map_of m q = Some w"
  shows "m = [(p, v), (q, w)]"
proof -
  have "map fst m = [p, q]"
    using assms(1-3) by (intro sorted_distinct_set_unique) (auto simp: strict_sorted_iff less_le)
  then obtain x y where "m = [(p, x), (q, y)]" by (cases m; cases "tl m") auto
  with assms(3-5) show ?thesis by (auto dest: less_imp_neq split: if_splits)
qed

definition path_of :: "nat set \<Rightarrow> u32 list \<Rightarrow> u32 \<Rightarrow> nat set" where
  "path_of L np pc = {t \<in> L. np ! t = pc}"

section \<open>Evaluating the update\<close>

lemma update_one:
  "update_paths u nt [0..<1] [(p, v)] s = path_step u s p v"
  by (cases "path_step u s p v") (auto simp: next_path_def split: option.splits sum.splits)

lemma update_two:
  assumes "p \<noteq> q"
  shows "\<exists>x y. {x, y} = {p, q} \<and> x \<noteq> y \<and> update_paths u nt [0..<2] [(p, f p), (q, f q)] s =
    path_step u s x (f x) \<bind> (\<lambda>r. case r of Inl st \<Rightarrow> Some (Inl st) | Inr s \<Rightarrow> path_step u s y (f y))"
proof -
  have one: "path_step u s p v \<bind> (\<lambda>r. case r of Inl st \<Rightarrow> Some (Inl st) | Inr s \<Rightarrow> Some (Inr s)) = path_step u s p v"
    for s p v by (cases "path_step u s p v") (auto split: sum.splits)
  have two: "[0..<2] = [0, 1 :: nat]" by (simp add: numeral_2_eq_2)
  show ?thesis
  proof (cases "nt = q")
    case True
    with assms show ?thesis
      by (intro exI [of _ q] exI [of _ p]) (auto simp: two next_path_def one cong: sum.case_cong)
  next
    case False
    with assms show ?thesis
      by (intro exI [of _ p] exI [of _ q]) (auto simp: two next_path_def one cong: sum.case_cong)
  qed
qed

section \<open>The program counter of a thread\<close>

text \<open>A thread is at the program counter of the topmost entry it is in.\<close>

primrec thread_pc :: "simt_stack \<Rightarrow> nat \<Rightarrow> u32 option" where
  "thread_pc [] t = None"
| "thread_pc (e # es) t = (if t \<in> m_active_mask e then Some (m_pc e) else thread_pc es t)"

text \<open>The invariant: when a path ends at the reconvergence point of its entry, the entries below hold its
  threads at that point; a call entry has the caller's entry below it and no reconvergence point.\<close>

primrec simt_ok :: "simt_stack \<Rightarrow> bool" where
  "simt_ok [] \<longleftrightarrow> True"
| "simt_ok (e # es) \<longleftrightarrow> simt_ok es
     \<and> (m_type e = STACK_ENTRY_TYPE_NORMAL \<longrightarrow> m_recvg_pc e \<noteq> - 1 \<longrightarrow>
          (\<forall>t \<in> m_active_mask e. thread_pc es t = Some (m_recvg_pc e)))
     \<and> (m_type e = STACK_ENTRY_TYPE_CALL \<longrightarrow> m_recvg_pc e = - 1 \<and> es \<noteq> [] \<and> m_active_mask e \<subseteq> m_active_mask (hd es))"

lemma launch_ok: "simt_ok (launch pc m)"
  by (simp add: launch_def new_entry_def)

text \<open>The update did what the threads asked for: the threads \<open>L\<close> of the top entry that are not done are at
  their next program counters, and the others where they were.\<close>

definition advanced :: "nat set \<Rightarrow> u32 list \<Rightarrow> simt_stack \<Rightarrow> simt_stack \<Rightarrow> bool" where
  "advanced L np st st' \<longleftrightarrow> simt_ok st' \<and> (\<forall>t \<in> L. thread_pc st' t = Some (np ! t))
     \<and> (\<forall>t. t \<notin> m_active_mask (hd st) \<longrightarrow> t \<notin> m_active_mask (hd (tl st)) \<longrightarrow> thread_pc st' t = thread_pc st t)"

lemma ok_type: "m_type e \<noteq> STACK_ENTRY_TYPE_CALL \<longleftrightarrow> m_type e = STACK_ENTRY_TYPE_NORMAL"
  by (cases "m_type e") auto

lemma one_path_advances:
  assumes "simt_ok (e # es)" and "L \<subseteq> m_active_mask e" and "L \<noteq> {}" and "\<forall>t \<in> L. np ! t = p" and "p \<noteq> - 1"
    and "u = \<lparr>u_top_recvg_pc = m_recvg_pc e, u_top_type = m_type e, u_recvg_pc = r, u_op = op, u_num = 1, u_cycle = c\<rparr>"
  shows "(\<exists>st'. path_step u (e # es, False, - 1) p L = Some (Inl st') \<and> advanced L np (e # es) st')
    \<or> (\<exists>b st' d n. path_step u (e # es, False, - 1) p L = Some (Inr (b # st', d, n)) \<and> advanced L np (e # es) st')"
proof -
  consider (call) "op = CALL_OPS" | (ret) "op = RET_OPS" "m_type e = STACK_ENTRY_TYPE_CALL"
    | (rec) "op \<noteq> CALL_OPS" "p = m_recvg_pc e" "m_type e \<noteq> STACK_ENTRY_TYPE_CALL"
    | (go) "op \<noteq> CALL_OPS" "\<not> (op = RET_OPS \<and> m_type e = STACK_ENTRY_TYPE_CALL)"
        "\<not> (p = m_recvg_pc e \<and> m_type e \<noteq> STACK_ENTRY_TYPE_CALL)"
    by blast
  then show ?thesis
  proof cases
    case call
    with assms show ?thesis by (auto simp: path_step_def advanced_def new_entry_def)
  next
    case ret
    then obtain e2 es2 where es: "es = e2 # es2" "m_active_mask e \<subseteq> m_active_mask e2"
      using assms(1) by (cases es) auto
    show ?thesis
    proof (cases "p = m_recvg_pc e2 \<and> m_type e2 \<noteq> STACK_ENTRY_TYPE_CALL")
      case True
      with ret es assms have "path_step u (e # es, False, - 1) p L = Some (Inl es2)" by (simp add: path_step_def)
      moreover have "advanced L np (e # es) es2"
        using True es assms(1,2,4,5) by (auto simp: advanced_def ok_type)
      ultimately show ?thesis by blast
    next
      case False
      then have "path_step u (e # es, False, - 1) p L = Some (Inl (e2\<lparr>m_pc := p\<rparr> # es2))"
        by (simp add: path_step_def assms(6) es(1) ret)
      moreover have "advanced L np (e # es) (e2\<lparr>m_pc := p\<rparr> # es2)"
        using es assms(1,2,4) by (auto simp: advanced_def)
      ultimately show ?thesis by blast
    qed
  next
    case rec
    then have "path_step u (e # es, False, - 1) p L = Some (Inr (e # es, False, - 1))"
      using assms(6) by (auto simp: path_step_def)
    moreover have "advanced L np (e # es) es"
      using rec assms(1,2,4,5) by (auto simp: advanced_def ok_type)
    ultimately show ?thesis by blast
  next
    case go
    let ?e = "e\<lparr>m_pc := p, m_active_mask := L, m_recvg_pc := m_recvg_pc e\<rparr>"
    have "path_step u (e # es, False, - 1) p L = Some (Inr (new_entry # ?e # es, False, - 1))"
      using go assms(6) by (auto simp: path_step_def Let_def)
    moreover have "advanced L np (e # es) (?e # es)"
      using assms(1,2,4) by (auto simp: advanced_def)
    ultimately show ?thesis by blast
  qed
qed

text \<open>The steps of two paths, for an instruction that is neither a call nor a return from a call.\<close>

definition plain :: "update_args \<Rightarrow> bool" where
  "plain u \<longleftrightarrow> u_op u \<noteq> CALL_OPS \<and> \<not> (u_op u = RET_OPS \<and> u_top_type u = STACK_ENTRY_TYPE_CALL) \<and> u_num u = 2"

lemma step_skip:
  "plain u \<Longrightarrow> x = u_top_recvg_pc u \<Longrightarrow> u_top_type u \<noteq> STACK_ENTRY_TYPE_CALL
    \<Longrightarrow> path_step u (st, d, n) x v = Some (Inr (st, d, n))"
  by (simp add: path_step_def plain_def)

lemma step_new:
  "plain u \<Longrightarrow> u_recvg_pc u \<noteq> u_top_recvg_pc u \<Longrightarrow> \<not> (x = u_top_recvg_pc u \<and> u_top_type u \<noteq> STACK_ENTRY_TYPE_CALL)
    \<Longrightarrow> path_step u (e # es, False, n) x v = Some (Inr
      (if x = u_recvg_pc u then new_entry # e\<lparr>m_pc := u_recvg_pc u, m_branch_div_cycle := u_cycle u\<rparr> # es
       else new_entry # new_entry\<lparr>m_pc := x, m_active_mask := v, m_calldepth := 0, m_recvg_pc := u_recvg_pc u\<rparr>
         # e\<lparr>m_pc := u_recvg_pc u, m_branch_div_cycle := u_cycle u\<rparr> # es, True, u_recvg_pc u))"
  by (simp add: path_step_def plain_def Let_def)

lemma step_reuse:
  "plain u \<Longrightarrow> u_recvg_pc u = u_top_recvg_pc u \<Longrightarrow> \<not> (x = u_top_recvg_pc u \<and> u_top_type u \<noteq> STACK_ENTRY_TYPE_CALL)
    \<Longrightarrow> x \<noteq> u_recvg_pc u \<Longrightarrow> path_step u (e # es, False, n) x v = Some (Inr
      (new_entry # e\<lparr>m_pc := x, m_active_mask := v, m_calldepth := 0, m_recvg_pc := u_recvg_pc u\<rparr> # es, True, u_recvg_pc u))"
  by (simp add: path_step_def plain_def Let_def)

lemma step_next:
  "plain u \<Longrightarrow> \<not> (y = u_top_recvg_pc u \<and> u_top_type u \<noteq> STACK_ENTRY_TYPE_CALL) \<Longrightarrow>
    path_step u (b # st, True, r) y v = Some (Inr
      (if y = r then b # st
       else new_entry # b\<lparr>m_pc := y, m_active_mask := v, m_calldepth := 0, m_recvg_pc := r\<rparr> # st, True, r))"
  by (simp add: path_step_def plain_def Let_def)

lemma advanced_old:
  assumes "simt_ok (e # es)" and "L \<subseteq> m_active_mask e" and "\<forall>t \<in> L. np ! t = z \<or> np ! t = m_recvg_pc e"
    and "m_recvg_pc e \<noteq> - 1" and "m_type e = STACK_ENTRY_TYPE_NORMAL"
  shows "advanced L np (e # es)
    (e\<lparr>m_pc := z, m_active_mask := path_of L np z, m_calldepth := d, m_recvg_pc := m_recvg_pc e\<rparr> # es)"
proof -
  have "thread_pc es t = Some (np ! t)" if "t \<in> L" "np ! t \<noteq> z" for t
    using assms that by (metis simt_ok.simps(2) subsetD)
  with assms show ?thesis by (auto simp: advanced_def path_of_def)
qed

lemma advanced_both:
  assumes "simt_ok (e # es)" and "L \<subseteq> m_active_mask e" and "\<forall>t \<in> L. np ! t = x \<or> np ! t = y" and "x \<noteq> y"
  shows "advanced L np (e # es)
    (new_entry\<lparr>m_pc := y, m_active_mask := path_of L np y, m_calldepth := 0, m_recvg_pc := m_recvg_pc e\<rparr>
     # e\<lparr>m_pc := x, m_active_mask := path_of L np x, m_calldepth := 0, m_recvg_pc := m_recvg_pc e\<rparr> # es)"
  using assms by (cases "m_type e") (auto simp: advanced_def path_of_def new_entry_def)

lemma two_paths_advance:
  assumes "simt_ok (e # es)" and "L \<subseteq> m_active_mask e" and "x \<noteq> y" and "\<forall>t \<in> L. np ! t = x \<or> np ! t = y"
    and "x \<noteq> - 1" "y \<noteq> - 1" and "op \<noteq> CALL_OPS" and "\<not> (op = RET_OPS \<and> m_type e = STACK_ENTRY_TYPE_CALL)"
    and "x = m_recvg_pc e \<or> y = m_recvg_pc e \<Longrightarrow> r = m_recvg_pc e"
    and "u = \<lparr>u_top_recvg_pc = m_recvg_pc e, u_top_type = m_type e, u_recvg_pc = r, u_op = op, u_num = 2, u_cycle = c\<rparr>"
  shows "\<exists>b st' d n. (path_step u (e # es, False, - 1) x (path_of L np x) \<bind>
      (\<lambda>q. case q of Inl st \<Rightarrow> Some (Inl st) | Inr s \<Rightarrow> path_step u s y (path_of L np y)))
      = Some (Inr (b # st', d, n)) \<and> advanced L np (e # es) st'"
proof -
  let ?R = "m_recvg_pc e"
  let ?new = "\<lambda>z. new_entry\<lparr>m_pc := z, m_active_mask := path_of L np z, m_calldepth := 0, m_recvg_pc := r\<rparr>"
  let ?old = "\<lambda>z. e\<lparr>m_pc := z, m_active_mask := path_of L np z, m_calldepth := 0, m_recvg_pc := r\<rparr>"
  have normal: "?R \<noteq> - 1 \<Longrightarrow> m_type e = STACK_ENTRY_TYPE_NORMAL" using assms(1) by (cases "m_type e") auto
  have pl: "plain u" using assms(7,8,10) by (simp add: plain_def)
  have u: "u_recvg_pc u = r" "u_top_recvg_pc u = ?R" "u_top_type u = m_type e" "u_cycle u = c" by (simp_all add: assms(10))
  have nR: "z \<noteq> - 1 \<Longrightarrow> z = ?R \<Longrightarrow> m_type e \<noteq> STACK_ENTRY_TYPE_CALL" for z using normal by auto
  let ?run = "path_step u (e # es, False, - 1) x (path_of L np x) \<bind>
      (\<lambda>q. case q of Inl st \<Rightarrow> Some (Inl st) | Inr s \<Rightarrow> path_step u s y (path_of L np y))"
  show ?thesis
  proof (cases "r = ?R")
    case False
    then have nx: "x \<noteq> ?R" "y \<noteq> ?R" using assms(9) by auto
    have run: "?run = Some (Inr (new_entry # (if y = r then [] else [?new y]) @ (if x = r then [] else [?new x])
        @ e\<lparr>m_pc := r, m_branch_div_cycle := c\<rparr> # es, True, r))"
      using False nx assms(3) by (cases "x = r") (simp_all add: step_new [OF pl] step_next [OF pl] u)
    have "advanced L np (e # es) ((if y = r then [] else [?new y]) @ (if x = r then [] else [?new x])
        @ e\<lparr>m_pc := r, m_branch_div_cycle := c\<rparr> # es)"
      using assms(1-4) normal
      by (cases "x = r"; cases "y = r") (auto simp: advanced_def path_of_def new_entry_def)
    with run show ?thesis by blast
  next
    case True
    have run: "?run = Some (Inr (new_entry # (if x = r then [?old y] else if y = r then [?old x] else [?new y, ?old x])
        @ es, True, r))"
      using True assms(3) nR [OF assms(5)] nR [OF assms(6)]
      by (cases "x = r"; cases "y = r") (simp_all add: step_skip [OF pl] step_reuse [OF pl] step_next [OF pl] u)
    have "advanced L np (e # es) ((if x = r then [?old y] else if y = r then [?old x] else [?new y, ?old x]) @ es)"
    proof (cases "x = r \<or> y = r")
      case rec: True
      with True assms(5,6) normal have "m_recvg_pc e \<noteq> - 1" "m_type e = STACK_ENTRY_TYPE_NORMAL" by auto
      note old = advanced_old [OF assms(1,2) _ this, of np]
      show ?thesis
        using rec True assms(3,4) old [where z = x and d = 0] old [where z = y and d = 0]
        by (cases "x = r") (simp_all add: disj_commute)
    next
      case no: False
      with True advanced_both [OF assms(1,2,4,3)] show ?thesis by simp
    qed
    with run show ?thesis by blast
  qed
qed

section \<open>The update\<close>

lemma card_le_two:
  assumes "finite A" and "card A \<le> 2"
  shows "A = {} \<or> (\<exists>p. A = {p}) \<or> (\<exists>p q. p < (q :: 'k :: linorder) \<and> A = {p, q})"
proof -
  consider "card A = 0" | "card A = 1" | "card A = 2" using assms(2) by linarith
  then show ?thesis
  proof cases
    case 1
    with assms(1) show ?thesis by simp
  next
    case 2
    then show ?thesis by (auto simp: card_1_singleton_iff)
  next
    case 3
    then obtain p q where "A = {p, q}" "p \<noteq> q" by (auto simp: card_2_iff)
    then show ?thesis by (metis insert_commute neqE)
  qed
qed

lemma simt_update_advances:
  assumes "simt_ok (tos # es)" and "m_active_mask tos \<subseteq> {..<n}" and "m_active_mask tos \<noteq> {}"
    and "length np = n" and "n \<le> 32" and "m_pc tos = pc" and "L = m_active_mask tos - dn"
    and "\<forall>t \<in> L. np ! t \<noteq> - 1" and "card ((!) np ` L) \<le> 2"
    and "card ((!) np ` L) = 2 \<Longrightarrow> op \<noteq> CALL_OPS \<and> \<not> (op = RET_OPS \<and> m_type tos = STACK_ENTRY_TYPE_CALL)"
    and "card ((!) np ` L) = 2 \<Longrightarrow> m_recvg_pc tos \<in> (!) np ` L \<Longrightarrow> r = m_recvg_pc tos"
  shows "\<exists>st'. simt_update n c dn np r op sz pc (tos # es) = Some st' \<and> advanced L np (tos # es) st'"
proof -
  let ?P = "(!) np ` L" and ?st = "tos # es"
  let ?u = "\<lparr>u_top_recvg_pc = m_recvg_pc tos, u_top_type = m_type tos, u_recvg_pc = r, u_op = op,
      u_num = card ?P, u_cycle = c\<rparr>"
  have sub: "L \<subseteq> m_active_mask tos" using assms(7) by auto
  have fin: "finite ?P" using assms(2) sub by (auto intro: finite_subset finite_imageI)
  obtain m where m: "divergent_paths n dn np (m_active_mask tos) [] 0 = Some (m, card ?P)" "sorted_wrt (<) (map fst m)"
    and mo: "map_of m = (\<lambda>pc. if pc \<in> ?P then Some (path_of L np pc) else None)"
    using divergent_paths_spec [OF assms(2), of dn np "[]" 0] assms(7,8) by (auto simp: path_of_def cong: if_cong)
  have "dom (map_of m) = ?P" unfolding mo by (simp add: dom_def)
  then have dom: "fst ` set m = ?P" by (simp only: dom_map_of_conv_image_fst)
  have upd: "simt_update n c dn np r op sz pc ?st = update_paths ?u (pc + sz) [0..<card ?P] m (?st, False, - 1)
      \<bind> (\<lambda>q. case q of Inl st \<Rightarrow> Some st | Inr (st, _, _) \<Rightarrow> (case st of [] \<Rightarrow> None | _ # es \<Rightarrow> Some es))"
    using assms(3-6,9) m(1) by (simp add: simt_update_def)
  from card_le_two [OF fin assms(9)] show ?thesis
  proof (elim disjE exE conjE)
    assume "?P = {}"
    then have "L = {}" by simp
    then have "simt_update n c dn np r op sz pc ?st = Some es" using upd by simp
    moreover have "advanced L np ?st es" using assms(1) \<open>L = {}\<close> by (simp add: advanced_def)
    ultimately show ?thesis by blast
  next
    fix p assume p: "?P = {p}"
    then have L: "L \<noteq> {}" "\<forall>t \<in> L. np ! t = p" "p \<noteq> - 1" using assms(8) by auto
    then have "path_of L np p = L" by (auto simp: path_of_def)
    then have mp: "m = [(p, L)]" using map_of_single [OF m(2)] dom p mo by simp
    have "card ?P = 1" using p by simp
    then have "update_paths ?u (pc + sz) [0..<card ?P] m (?st, False, - 1) = path_step (?u\<lparr>u_num := 1\<rparr>) (?st, False, - 1) p L"
      unfolding mp by (simp only: update_one) simp
    with one_path_advances [OF assms(1) sub L refl, of r op c] upd show ?thesis by auto
  next
    fix p q assume pq: "p < q" "?P = {p, q}"
    have "m = [(p, path_of L np p), (q, path_of L np q)]"
      by (rule map_of_pair [OF m(2)]) (use dom pq mo in auto)
    moreover have two: "card ?P = 2" using pq by auto
    moreover obtain x y where xy: "{x, y} = {p, q}" "x \<noteq> y" and
      "update_paths ?u (pc + sz) [0..<2] [(p, path_of L np p), (q, path_of L np q)] (?st, False, - 1) =
       path_step ?u (?st, False, - 1) x (path_of L np x) \<bind>
         (\<lambda>q. case q of Inl st \<Rightarrow> Some (Inl st) | Inr s \<Rightarrow> path_step ?u s y (path_of L np y))"
      using update_two [of p q ?u "pc + sz" "path_of L np" "(?st, False, - 1)"] pq(1) by blast
    ultimately have run: "update_paths ?u (pc + sz) [0..<card ?P] m (?st, False, - 1) =
       path_step ?u (?st, False, - 1) x (path_of L np x) \<bind>
         (\<lambda>q. case q of Inl st \<Rightarrow> Some (Inl st) | Inr s \<Rightarrow> path_step ?u s y (path_of L np y))" by simp
    have P: "?P = {x, y}" using pq(2) xy(1) by simp
    have "\<exists>b st' d k. update_paths ?u (pc + sz) [0..<card ?P] m (?st, False, - 1) = Some (Inr (b # st', d, k))
        \<and> advanced L np ?st st'"
      unfolding run
    proof (rule two_paths_advance [OF assms(1) sub xy(2)])
      show "\<forall>t \<in> L. np ! t = x \<or> np ! t = y" using P by auto
      have "- 1 \<notin> ?P" using assms(8) by auto
      then show "x \<noteq> - 1" "y \<noteq> - 1" unfolding P by auto
      show "op \<noteq> CALL_OPS" "\<not> (op = RET_OPS \<and> m_type tos = STACK_ENTRY_TYPE_CALL)" using assms(10) two by auto
      show "r = m_recvg_pc tos" if "x = m_recvg_pc tos \<or> y = m_recvg_pc tos"
        using assms(11) two that P by auto
      show "?u = \<lparr>u_top_recvg_pc = m_recvg_pc tos, u_top_type = m_type tos, u_recvg_pc = r, u_op = op, u_num = 2, u_cycle = c\<rparr>"
        using two by simp
    qed
    with upd show ?thesis by auto
  qed
qed

text \<open>C5. \<open>update\<close> keeps the stack's threads at the right program counters. For a stack that fulfils the
  invariant, an instruction with at most two next program counters (one for calls, and returns from a
  call), and a reconvergence point that is that of the top entry when a path goes directly there, the
  update returns; each thread of the top entry that is not done is afterwards at its own next program
  counter, every thread outside the top two entries is where it was, and the invariant holds.\<close>

theorem simt_update_tracks_threads:
  assumes "simt_ok (tos # es)" and "m_active_mask tos \<subseteq> {..<n}" and "m_active_mask tos \<noteq> {}"
    and "length np = n" and "n \<le> 32" and "m_pc tos = pc" and "L = m_active_mask tos - dn"
    and "\<forall>t \<in> L. np ! t \<noteq> - 1" and "card ((!) np ` L) \<le> 2"
    and "card ((!) np ` L) = 2 \<Longrightarrow> op \<noteq> CALL_OPS \<and> \<not> (op = RET_OPS \<and> m_type tos = STACK_ENTRY_TYPE_CALL)"
    and "card ((!) np ` L) = 2 \<Longrightarrow> m_recvg_pc tos \<in> (!) np ` L \<Longrightarrow> r = m_recvg_pc tos"
  shows "\<exists>st'. simt_update n c dn np r op sz pc (tos # es) = Some st' \<and> advanced L np (tos # es) st'"
  by (rule simt_update_advances) (use assms in simp_all)

text \<open>A branch of a warp of four: threads 0 and 1 go on, threads 2 and 3 jump to 64.\<close>

theorem simt_update_tracks_threads_witness:
  "\<exists>st'. simt_update 4 7 {} [16, 16, 64, 64] 96 BRANCH_OP 8 8 (launch 8 {0, 1, 2, 3}) = Some st'
    \<and> thread_pc st' 0 = Some 16 \<and> thread_pc st' 3 = Some 64 \<and> simt_ok st'"
proof -
  let ?e = "new_entry\<lparr>m_pc := 8, m_calldepth := 1, m_active_mask := {0, 1, 2, 3}, m_type := STACK_ENTRY_TYPE_NORMAL\<rparr>"
  have l: "launch 8 {0, 1, 2, 3} = [?e]" by (simp add: launch_def)
  have img: "(!) [16, 16, 64, 64 :: u32] ` {0, 1, 2, 3} = {16, 64}" by auto
  have "\<exists>st'. simt_update 4 7 {} [16, 16, 64, 64] 96 BRANCH_OP 8 8 [?e] = Some st'
      \<and> advanced {0, 1, 2, 3} [16, 16, 64, 64] [?e] st'"
    by (rule simt_update_tracks_threads, unfold img) (simp_all add: new_entry_def)
  then show ?thesis unfolding l by (auto simp: advanced_def)
qed

end
