(* ===== verification/Ring_Buffer.thy ===== *)
theory Ring_Buffer
  imports Prelude
begin

text \<open>
  The ring buffer \<open>tex_cache::fifo\<close> of \<open>gpu-cache.h\<close>, and the contract of a bounded queue that its
  clients rely on, as a locale.
\<close>

section \<open>Bounded queues\<close>

locale bounded_queue =
  fixes wf :: "'q \<Rightarrow> bool"
    and contents :: "'q \<Rightarrow> 'e list"
    and capacity_of :: "'q \<Rightarrow> nat"
    and is_full :: "'q \<Rightarrow> bool"
    and enqueue :: "'e \<Rightarrow> 'q \<Rightarrow> (nat \<times> 'q) option"
    and dequeue :: "'q \<Rightarrow> ('e \<times> 'q) option"
  assumes full_law: "wf q \<Longrightarrow> is_full q \<longleftrightarrow> length (contents q) = capacity_of q"
    and bound_law: "wf q \<Longrightarrow> length (contents q) \<le> capacity_of q"
    and push_law: "wf q \<Longrightarrow> \<not> is_full q \<Longrightarrow>
      \<exists>i q'. enqueue e q = Some (i, q') \<and> wf q' \<and> contents q' = contents q @ [e] \<and> capacity_of q' = capacity_of q"
    and full_push_law: "wf q \<Longrightarrow> is_full q \<Longrightarrow> enqueue e q = None"
    and pop_law: "wf q \<Longrightarrow> contents q = e # es \<Longrightarrow>
      \<exists>q'. dequeue q = Some (e, q') \<and> wf q' \<and> contents q' = es \<and> capacity_of q' = capacity_of q"
    and empty_pop_law: "wf q \<Longrightarrow> contents q = [] \<Longrightarrow> dequeue q = None"
begin

lemma push_Some:
  assumes "wf q" and "enqueue e q = Some (i, q')"
  shows "wf q' \<and> contents q' = contents q @ [e] \<and> capacity_of q' = capacity_of q \<and> \<not> is_full q"
  using assms push_law [of q e] full_push_law [of q e] by (cases "is_full q") auto

lemma pop_Some:
  assumes "wf q" and "dequeue q = Some (e, q')"
  shows "wf q' \<and> contents q = e # contents q' \<and> capacity_of q' = capacity_of q"
  using assms pop_law [of q] empty_pop_law [of q] by (cases "contents q") auto

primrec enqueue_all :: "'e list \<Rightarrow> 'q \<Rightarrow> 'q option" where
  "enqueue_all [] q = Some q"
| "enqueue_all (e # es) q = enqueue e q \<bind> (\<lambda>(i, q). enqueue_all es q)"

primrec dequeue_n :: "nat \<Rightarrow> 'q \<Rightarrow> ('e list \<times> 'q) option" where
  "dequeue_n 0 q = Some ([], q)"
| "dequeue_n (Suc n) q = dequeue q \<bind> (\<lambda>(e, q). dequeue_n n q \<bind> (\<lambda>(es, q). Some (e # es, q)))"

lemma enqueue_all_fits:
  "wf q \<Longrightarrow> length (contents q) + length es \<le> capacity_of q \<Longrightarrow>
    \<exists>q'. enqueue_all es q = Some q' \<and> wf q' \<and> contents q' = contents q @ es \<and> capacity_of q' = capacity_of q"
proof (induction es arbitrary: q)
  case (Cons e es)
  then have "\<not> is_full q" by (simp add: full_law)
  with Cons.prems(1) obtain i q1 where "enqueue e q = Some (i, q1)" "wf q1" "contents q1 = contents q @ [e]"
    "capacity_of q1 = capacity_of q" using push_law by blast
  with Cons.IH [of q1] Cons.prems(2) show ?case by auto
qed simp

lemma dequeue_n_order:
  "wf q \<Longrightarrow> contents q = es @ fs \<Longrightarrow>
    \<exists>q'. dequeue_n (length es) q = Some (es, q') \<and> wf q' \<and> contents q' = fs \<and> capacity_of q' = capacity_of q"
proof (induction es arbitrary: q)
  case (Cons e es)
  from Cons.prems(2) have "contents q = e # (es @ fs)" by simp
  from pop_law [OF Cons.prems(1) this] obtain q1
    where q1: "dequeue q = Some (e, q1)" "wf q1" "contents q1 = es @ fs" "capacity_of q1 = capacity_of q" by blast
  from Cons.IH [OF q1(2,3)] obtain q2 where "dequeue_n (length es) q1 = Some (es, q2)" "wf q2" "contents q2 = fs"
    "capacity_of q2 = capacity_of q1" by blast
  with q1 show ?case by simp
qed simp

lemma first_in_first_out:
  assumes "wf q" and "contents q = []" and "length es \<le> capacity_of q"
  shows "\<exists>q1 q2. enqueue_all es q = Some q1 \<and> dequeue_n (length es) q1 = Some (es, q2) \<and> contents q2 = []"
proof -
  have "length (contents q) + length es \<le> capacity_of q" using assms(2,3) by simp
  from enqueue_all_fits [OF assms(1) this]
  obtain q1 where q1: "enqueue_all es q = Some q1" "wf q1" "contents q1 = contents q @ es" by blast
  then have "contents q1 = es @ []" using assms(2) by simp
  from dequeue_n_order [OF q1(2) this]
  obtain q2 where "dequeue_n (length es) q1 = Some (es, q2)" "contents q2 = []" by blast
  with q1(1) show ?thesis by blast
qed

end

section \<open>The ring buffer\<close>

record 'e fifo =
  f_head :: nat
  f_tail :: nat
  f_num :: nat
  f_size :: nat
  f_data :: "'e list"

text \<open>\<open>new T[size]\<close> holds some value \<open>d\<close> everywhere.\<close>

definition new_fifo :: "'e \<Rightarrow> nat \<Rightarrow> 'e fifo" where
  "new_fifo d sz = \<lparr>f_head = 0, f_tail = 0, f_num = 0, f_size = sz, f_data = replicate sz d\<rparr>"

definition fifo_full :: "'e fifo \<Rightarrow> bool" where
  "fifo_full q = (f_num q = f_size q)"

definition fifo_empty :: "'e fifo \<Rightarrow> bool" where
  "fifo_empty q = (f_num q = 0)"

definition inc_head :: "'e fifo \<Rightarrow> 'e fifo" where
  "inc_head q = q\<lparr>f_head := (f_head q + 1) mod f_size q, f_num := f_num q + 1\<rparr>"

definition inc_tail :: "'e fifo \<Rightarrow> 'e fifo option" where
  "inc_tail q = do {
     _ \<leftarrow> assert_c (f_num q > 0);
     Some (q\<lparr>f_tail := (f_tail q + 1) mod f_size q, f_num := f_num q - 1\<rparr>) }"

definition fifo_push :: "'e \<Rightarrow> 'e fifo \<Rightarrow> (nat \<times> 'e fifo) option" where
  "fifo_push e q = do {
     _ \<leftarrow> assert_c (\<not> fifo_full q);
     d \<leftarrow> at_put (f_data q) (f_head q) e;
     Some (f_head q, inc_head (q\<lparr>f_data := d\<rparr>)) }"

definition fifo_pop :: "'e fifo \<Rightarrow> ('e \<times> 'e fifo) option" where
  "fifo_pop q = do {
     _ \<leftarrow> assert_c (\<not> fifo_empty q);
     e \<leftarrow> at_get (f_data q) (f_tail q);
     q \<leftarrow> inc_tail q;
     Some (e, q) }"

definition fifo_peek_at :: "nat \<Rightarrow> 'e fifo \<Rightarrow> 'e option" where
  "fifo_peek_at index q = do {
     _ \<leftarrow> assert_c (index < f_size q);
     at_get (f_data q) index }"

definition fifo_peek :: "'e fifo \<Rightarrow> 'e option" where
  "fifo_peek q = at_get (f_data q) (f_tail q)"

definition fifo_update :: "nat \<Rightarrow> ('e \<Rightarrow> 'e) \<Rightarrow> 'e fifo \<Rightarrow> 'e fifo option" where
  "fifo_update index g q = do {
     e \<leftarrow> fifo_peek_at index q;
     Some (q\<lparr>f_data := (f_data q)[index := g e]\<rparr>) }"

definition next_pop_index :: "'e fifo \<Rightarrow> nat" where
  "next_pop_index q = f_tail q"

section \<open>Its contents\<close>

definition fifo_contents :: "'e fifo \<Rightarrow> 'e list" where
  "fifo_contents q = map (\<lambda>i. f_data q ! ((f_tail q + i) mod f_size q)) [0..<f_num q]"

definition fifo_wf :: "'e fifo \<Rightarrow> bool" where
  "fifo_wf q \<longleftrightarrow> length (f_data q) = f_size q \<and> f_num q \<le> f_size q
     \<and> (0 < f_size q \<longrightarrow> f_tail q < f_size q \<and> f_head q = (f_tail q + f_num q) mod f_size q)"

lemma new_fifo_wf: "fifo_wf (new_fifo d n)" "fifo_contents (new_fifo d n) = []" "f_size (new_fifo d n) = n"
  by (auto simp: fifo_wf_def new_fifo_def fifo_contents_def)

lemma length_contents [simp]: "length (fifo_contents q) = f_num q"
  by (simp add: fifo_contents_def)

lemma add_mod_inj:
  assumes "i < n" "j < n" "(a + i) mod n = (a + j) mod n"
  shows "i = (j :: nat)"
proof (rule ccontr)
  have wlog: False if "i < j" "j < n" "(a + i) mod n = (a + j) mod n" for i j :: nat
  proof -
    from that(3) have "n dvd (a + j) - (a + i)" using that(1) by (metis mod_eq_dvd_iff_nat nat_add_left_cancel_le less_imp_le)
    with that show False by (auto dest: dvd_imp_le)
  qed
  assume "i \<noteq> j"
  with assms wlog show False by (metis linorder_neqE_nat)
qed

lemma fifo_push_contents:
  assumes "fifo_wf q" and "\<not> fifo_full q"
  shows "\<exists>q'. fifo_push e q = Some (f_head q, q') \<and> fifo_wf q' \<and> fifo_contents q' = fifo_contents q @ [e]
    \<and> f_size q' = f_size q"
proof -
  let ?q = "inc_head (q\<lparr>f_data := (f_data q)[f_head q := e]\<rparr>)"
  have wf: "length (f_data q) = f_size q" "f_num q < f_size q" "f_tail q < f_size q"
    "f_head q = (f_tail q + f_num q) mod f_size q"
    using assms by (auto simp: fifo_wf_def fifo_full_def)
  then have hd: "f_head q < f_size q" by simp
  have old: "(f_data q)[f_head q := e] ! ((f_tail q + i) mod f_size q) = f_data q ! ((f_tail q + i) mod f_size q)"
    if "i < f_num q" for i
  proof -
    have "(f_tail q + i) mod f_size q \<noteq> f_head q"
      using add_mod_inj [of i "f_size q" "f_num q" "f_tail q"] that wf(2,4) by auto
    then show ?thesis by simp
  qed
  have "fifo_contents ?q = fifo_contents q @ [e]"
    using wf hd old by (auto simp: fifo_contents_def inc_head_def)
  moreover have "fifo_wf ?q"
    using wf by (auto simp: fifo_wf_def inc_head_def mod_Suc_eq)
  moreover have "fifo_push e q = Some (f_head q, ?q)"
    using assms(2) wf(1) hd by (simp add: fifo_push_def)
  ultimately show ?thesis by (auto simp: inc_head_def)
qed

lemma fifo_pop_contents:
  assumes "fifo_wf q" and "fifo_contents q = e # es"
  shows "\<exists>q'. fifo_pop q = Some (e, q') \<and> fifo_wf q' \<and> fifo_contents q' = es \<and> f_size q' = f_size q"
proof -
  let ?q = "q\<lparr>f_tail := (f_tail q + 1) mod f_size q, f_num := f_num q - 1\<rparr>"
  have n: "0 < f_num q" using assms(2) length_contents [of q] by (cases "f_num q") auto
  then have wf: "length (f_data q) = f_size q" "f_num q \<le> f_size q" "f_tail q < f_size q"
    "f_head q = (f_tail q + f_num q) mod f_size q"
    using assms(1) by (auto simp: fifo_wf_def)
  have upt: "[0..<f_num q] = 0 # map Suc [0..<f_num q - 1]"
    using n by (simp add: map_Suc_upt upt_conv_Cons)
  have split: "fifo_contents q = f_data q ! f_tail q # fifo_contents ?q"
    using wf(3) by (auto simp: fifo_contents_def upt mod_add_left_eq simp del: upt_Suc)
  have "((f_tail q + 1) mod f_size q + (f_num q - 1)) mod f_size q = (f_tail q + 1 + (f_num q - 1)) mod f_size q"
    by (rule mod_add_left_eq)
  then have "fifo_wf ?q"
    using wf n by (auto simp: fifo_wf_def simp del: mod_add_left_eq)
  moreover have "fifo_pop q = Some (f_data q ! f_tail q, ?q)"
    using wf n by (simp add: fifo_pop_def fifo_empty_def inc_tail_def)
  ultimately show ?thesis using split assms(2) by auto
qed

interpretation rb: bounded_queue fifo_wf fifo_contents f_size fifo_full fifo_push fifo_pop
proof unfold_locales
  show "fifo_full q \<longleftrightarrow> length (fifo_contents q) = f_size q" for q :: "'a fifo"
    by (simp add: fifo_full_def)
  show "fifo_wf q \<Longrightarrow> length (fifo_contents q) \<le> f_size q" for q :: "'a fifo"
    by (simp add: fifo_wf_def)
  show "fifo_push e q = None" if "fifo_full q" for e and q :: "'a fifo"
    using that by (simp add: fifo_push_def)
  show "fifo_pop q = None" if "fifo_contents q = []" for q :: "'a fifo"
    using that length_contents [of q] by (simp add: fifo_pop_def fifo_empty_def)
  show "\<exists>i q'. fifo_push e q = Some (i, q') \<and> fifo_wf q' \<and> fifo_contents q' = fifo_contents q @ [e] \<and> f_size q' = f_size q"
    if "fifo_wf q" "\<not> fifo_full q" for e and q :: "'a fifo"
    using fifo_push_contents [OF that, of e] by (rule exE) (rule exI, rule exI)
  show "\<exists>q'. fifo_pop q = Some (e, q') \<and> fifo_wf q' \<and> fifo_contents q' = es \<and> f_size q' = f_size q"
    if "fifo_wf q" "fifo_contents q = e # es" for e es and q :: "'a fifo"
    by (rule fifo_pop_contents [OF that])
qed

text \<open>\<open>peek()\<close> reads the oldest element, and an element keeps its index until it is popped.\<close>

lemma fifo_peek_contents: "fifo_wf q \<Longrightarrow> fifo_contents q = e # es \<Longrightarrow> fifo_peek q = Some e"
  using fifo_pop_contents [of q e es] by (auto simp: fifo_pop_def fifo_peek_def bind_eq_Some_conv)

text \<open>The slot of the \<open>i\<close>-th oldest element.\<close>

definition fifo_slot :: "'e fifo \<Rightarrow> nat \<Rightarrow> nat" where
  "fifo_slot q i = (f_tail q + i) mod f_size q"

lemma fifo_contents_nth: "i < f_num q \<Longrightarrow> fifo_contents q ! i = f_data q ! fifo_slot q i"
  by (simp add: fifo_contents_def fifo_slot_def)

lemma fifo_slot_less: "fifo_wf q \<Longrightarrow> 0 < f_num q \<Longrightarrow> fifo_slot q i < f_size q"
  by (auto simp: fifo_slot_def fifo_wf_def)

lemma fifo_slot_inj: "fifo_wf q \<Longrightarrow> i < f_num q \<Longrightarrow> j < f_num q \<Longrightarrow> fifo_slot q i = fifo_slot q j \<Longrightarrow> i = j"
  unfolding fifo_slot_def fifo_wf_def by (elim conjE) (rule add_mod_inj, auto)

lemma fifo_push_slots:
  assumes "fifo_wf q" and "fifo_push e q = Some (i, q')"
  shows "i = fifo_slot q (f_num q)" "fifo_slot q' = fifo_slot q" "f_num q' = Suc (f_num q)" "f_size q' = f_size q"
  using assms by (auto simp: fifo_push_def bind_eq_Some_conv fifo_slot_def fun_eq_iff inc_head_def fifo_full_def fifo_wf_def)

lemma fifo_pop_slots:
  assumes "fifo_wf q" and "fifo_pop q = Some (e, q')"
  shows "fifo_slot q' k = fifo_slot q (Suc k)" "f_num q = Suc (f_num q')" "f_size q' = f_size q"
  using assms by (auto simp: fifo_pop_def inc_tail_def bind_eq_Some_conv fifo_slot_def mod_add_left_eq)

text \<open>A change through \<open>peek(i)\<close> is seen at the element that sits in the slot \<open>i\<close>, if one does.\<close>

lemma fifo_update_slots:
  assumes "fifo_wf q" and "fifo_update i g q = Some q'"
  shows "fifo_wf q'" "fifo_slot q' = fifo_slot q" "f_num q' = f_num q" "f_size q' = f_size q"
    "k < f_num q \<Longrightarrow> fifo_contents q' ! k = (if fifo_slot q k = i then g (fifo_contents q ! k) else fifo_contents q ! k)"
proof -
  have q': "i < f_size q" "q' = q\<lparr>f_data := (f_data q)[i := g (f_data q ! i)]\<rparr>"
    using assms by (auto simp: fifo_update_def fifo_peek_at_def bind_eq_Some_conv at_get_eq_Some fifo_wf_def)
  then show "fifo_wf q'" "fifo_slot q' = fifo_slot q" "f_num q' = f_num q" "f_size q' = f_size q"
    using assms(1) by (auto simp: fifo_wf_def fifo_slot_def fun_eq_iff)
  with q' assms(1)
  show "k < f_num q \<Longrightarrow> fifo_contents q' ! k = (if fifo_slot q k = i then g (fifo_contents q ! k) else fifo_contents q ! k)"
    by (simp add: fifo_contents_nth fifo_wf_def)
qed

text \<open>The ring buffer is a first in first out queue: elements that fit, pushed into a new buffer, are
  popped in the order they were pushed.
\<close>

theorem ring_buffer_fifo:
  assumes "length es \<le> n"
  shows "\<exists>q1 q2. foldM (\<lambda>q e. map_option snd (fifo_push e q)) (new_fifo d n) es = Some q1
    \<and> foldM (\<lambda>(q, out) _. map_option (\<lambda>(e, q). (q, out @ [e])) (fifo_pop q)) (q1, []) es = Some (q2, es)
    \<and> fifo_empty q2"
proof -
  have push: "foldM (\<lambda>q e. map_option snd (fifo_push e q)) q xs = rb.enqueue_all xs q" for xs :: "'a list" and q
    by (induction xs arbitrary: q) (auto split: option.splits simp: bind_eq_Some_conv map_option_case)
  have pop: "foldM (\<lambda>(q, out) _. map_option (\<lambda>(e, q). (q, out @ [e])) (fifo_pop q)) (q, ys) xs =
      map_option (\<lambda>(es, q). (q, ys @ es)) (rb.dequeue_n (length xs) q)" for xs ys :: "'a list" and q
    by (induction xs arbitrary: q ys) (auto split: option.splits simp: bind_eq_Some_conv map_option_case)
  obtain q1 q2 where "rb.enqueue_all es (new_fifo d n) = Some q1"
    "rb.dequeue_n (length es) q1 = Some (es, q2)" "fifo_contents q2 = []"
    using rb.first_in_first_out [OF new_fifo_wf(1,2), of es d n] assms by (auto simp: new_fifo_wf)
  moreover from this(3) have "fifo_empty q2" using length_contents [of q2] by (simp add: fifo_empty_def)
  ultimately show ?thesis using push pop by auto
qed

theorem ring_buffer_fifo_witness:
  "\<exists>q1 q2. foldM (\<lambda>q e. map_option snd (fifo_push e q)) (new_fifo 0 3) [5, 7 :: nat] = Some q1
    \<and> foldM (\<lambda>(q, out) _. map_option (\<lambda>(e, q). (q, out @ [e])) (fifo_pop q)) (q1, []) [5, 7 :: nat] = Some (q2, [5, 7])
    \<and> fifo_empty q2"
  by (rule ring_buffer_fifo) simp

end
