(* ===== verification/Tex_Cache.thy ===== *)
theory Tex_Cache
  imports Data_Cache Ring_Buffer
begin

text \<open>
  The texture cache of \<open>gpu-cache.h\<close> and \<open>gpu-cache.cc\<close>, after Igehy et al.: tags are looked up when a
  request is accepted, data when the request reaches the head of the fragment queue, and the reorder
  buffer puts returning blocks back into the order of the requests. Requests are pointers into a heap,
  as in \<open>Data_Cache\<close>; the second, asserting lookup of a missing key is \<open>None\<close>.
\<close>

section \<open>State\<close>

record fragment_entry =
  fr_request :: nat
  fr_cache_index :: nat
  fr_miss :: bool
  fr_data_size :: u32

record rob_entry =
  rob_ready :: bool
  rob_time :: u32
  rob_index :: nat
  rob_request :: nat
  rob_block_addr :: u64

record data_block =
  blk_valid :: bool
  blk_block_addr :: u64

record tex_cache =
  tx_cfg :: cache_config
  tx_tags :: tag_array
  tx_fragment_fifo :: "fragment_entry fifo"
  tx_request_fifo :: "nat fifo"
  tx_rob :: "rob_entry fifo"
  tx_cache :: "data_block list"
  tx_result_fifo :: "nat fifo"
  tx_request_queue_status :: mem_fetch_status
  tx_rob_status :: mem_fetch_status
  tx_extra :: "nat \<Rightarrow> nat option"
  tx_stats :: cache_stats
  tx_events :: "cache_event list"
  tx_heap :: "nat \<Rightarrow> mem_fetch option"

definition new_rob_entry :: "nat \<Rightarrow> nat \<Rightarrow> u64 \<Rightarrow> rob_entry" where
  "new_rob_entry i mf a = \<lparr>rob_ready = False, rob_time = 0, rob_index = i, rob_request = mf, rob_block_addr = a\<rparr>"

text \<open>
  The queue sizes are unions with the fields of the miss table in the configuration. What the new
  arrays hold is left open: \<open>fe\<close>, \<open>re\<close>, \<open>p\<close> and the block address \<open>a\<close>.
\<close>

definition new_tex_cache :: "fragment_entry \<Rightarrow> rob_entry \<Rightarrow> nat \<Rightarrow> u64 \<Rightarrow> cache_config \<Rightarrow> mem_fetch_status
    \<Rightarrow> mem_fetch_status \<Rightarrow> (nat \<Rightarrow> mem_fetch option) \<Rightarrow> tex_cache option" where
  "new_tex_cache fe re p a cfg request_status rob_status heap = do {
     _ \<leftarrow> assert_c (m_mshr_type cfg = TEX_FIFO);
     _ \<leftarrow> assert_c (m_write_policy cfg = READ_ONLY);
     _ \<leftarrow> assert_c (m_alloc_policy cfg = ON_MISS);
     Some \<lparr>tx_cfg = cfg, tx_tags = new_tag_array cfg,
       tx_fragment_fifo = new_fifo fe (m_mshr_entries cfg),
       tx_request_fifo = new_fifo p (m_mshr_max_merge cfg),
       tx_rob = new_fifo re (m_miss_queue_size cfg),
       tx_cache = replicate (get_num_lines cfg) \<lparr>blk_valid = False, blk_block_addr = a\<rparr>,
       tx_result_fifo = new_fifo p (m_result_fifo_entries cfg),
       tx_request_queue_status = request_status, tx_rob_status = rob_status, tx_extra = (\<lambda>_. None),
       tx_stats = new_stats, tx_events = [], tx_heap = heap\<rparr> }"

section \<open>Operations\<close>

definition tex_miss :: "nat \<Rightarrow> nat \<Rightarrow> u64 \<Rightarrow> u32 \<Rightarrow> tex_cache \<Rightarrow> tex_cache option" where
  "tex_miss p cache_index baddr time t = do {
     (slot, rob) \<leftarrow> fifo_push (new_rob_entry cache_index p baddr) (tx_rob t);
     mf \<leftarrow> tx_heap t p;
     ta \<leftarrow> ta_fill_index (tx_cfg t) cache_index time (tx_tags t);
     (_, rq) \<leftarrow> fifo_push p (tx_request_fifo t);
     Some (t\<lparr>tx_rob := rob, tx_extra := (tx_extra t)(p \<mapsto> slot), tx_tags := ta, tx_request_fifo := rq,
       tx_heap := (tx_heap t)(p \<mapsto> mf_set_status (tx_request_queue_status t) time
         (mf\<lparr>mf_data_size := m_line_sz (tx_cfg t)\<rparr>)),
       tx_events := tx_events t @ [READ_REQUEST_SENT]\<rparr>) }"

definition tex_access :: "u64 \<Rightarrow> nat \<Rightarrow> u32 \<Rightarrow> tex_cache \<Rightarrow> (cache_request_status \<times> tex_cache) option" where
  "tex_access addr p time t =
     (if fifo_full (tx_fragment_fifo t) \<or> fifo_full (tx_request_fifo t) \<or> fifo_full (tx_rob t)
      then Some (RESERVATION_FAIL, t)
      else do {
        mf \<leftarrow> tx_heap t p;
        _ \<leftarrow> assert_c (mf_data_size mf \<le> m_line_sz (tx_cfg t));
        let baddr = block_addr (tx_cfg t) addr;
        (status, cache_index, ta) \<leftarrow> ta_access (tx_cfg t) baddr time 0xFFFFFFFF (tx_tags t);
        _ \<leftarrow> assert_c (status \<noteq> RESERVATION_FAIL);
        _ \<leftarrow> assert_c (status \<noteq> HIT_RESERVED);
        (_, ff) \<leftarrow> fifo_push \<lparr>fr_request = p, fr_cache_index = cache_index, fr_miss = (status = MISS),
          fr_data_size = mf_data_size mf\<rparr> (tx_fragment_fifo t);
        let t = t\<lparr>tx_tags := ta, tx_fragment_fifo := ff\<rparr>;
        t \<leftarrow> (if status = MISS then tex_miss p cache_index baddr time t else Some t);
        let cache_status = (if status = MISS then MISS else HIT_RESERVED);
        st \<leftarrow> inc_stats (int (type_index (mf_access_type mf)))
          (int (status_index (select_stats_status status cache_status))) (tx_stats t);
        Some (cache_status, t\<lparr>tx_stats := st\<rparr>) })"

text \<open>The first half of \<open>cycle\<close>: \<open>full\<close> is the test of the lower level, the result the request pushed.\<close>

definition tex_send :: "(u32 \<Rightarrow> bool \<Rightarrow> bool) \<Rightarrow> tex_cache \<Rightarrow> (nat option \<times> tex_cache) option" where
  "tex_send full t =
     (if \<not> fifo_empty (tx_request_fifo t) then do {
        p \<leftarrow> fifo_peek (tx_request_fifo t);
        mf \<leftarrow> tx_heap t p;
        if \<not> full (mf_ctrl_size mf) False then do {
          (_, rq) \<leftarrow> fifo_pop (tx_request_fifo t);
          Some (Some p, t\<lparr>tx_request_fifo := rq\<rparr>) }
        else Some (None, t) }
      else Some (None, t))"

definition tex_complete_miss :: "fragment_entry \<Rightarrow> tex_cache \<Rightarrow> tex_cache option" where
  "tex_complete_miss e t = do {
     let slot = next_pop_index (tx_rob t);
     r \<leftarrow> fifo_peek_at slot (tx_rob t);
     mf \<leftarrow> tx_heap t (fr_request e);
     _ \<leftarrow> assert_c (rob_request r = fr_request e);
     _ \<leftarrow> assert_c (rob_block_addr r = block_addr (tx_cfg t) (mf_addr mf));
     if rob_ready r then do {
       _ \<leftarrow> assert_c (rob_index r = fr_cache_index e);
       data \<leftarrow> at_put (tx_cache t) (rob_index r) \<lparr>blk_valid = True, blk_block_addr = rob_block_addr r\<rparr>;
       (_, rf) \<leftarrow> fifo_push (fr_request e) (tx_result_fifo t);
       (_, rob) \<leftarrow> fifo_pop (tx_rob t);
       (_, ff) \<leftarrow> fifo_pop (tx_fragment_fifo t);
       Some (t\<lparr>tx_cache := data, tx_result_fifo := rf, tx_rob := rob, tx_fragment_fifo := ff\<rparr>) }
     else Some t }"

definition tex_complete_hit :: "fragment_entry \<Rightarrow> tex_cache \<Rightarrow> tex_cache option" where
  "tex_complete_hit e t = do {
     b \<leftarrow> at_get (tx_cache t) (fr_cache_index e);
     mf \<leftarrow> tx_heap t (fr_request e);
     _ \<leftarrow> assert_c (blk_valid b);
     _ \<leftarrow> assert_c (blk_block_addr b = block_addr (tx_cfg t) (mf_addr mf));
     (_, rf) \<leftarrow> fifo_push (fr_request e) (tx_result_fifo t);
     (_, ff) \<leftarrow> fifo_pop (tx_fragment_fifo t);
     Some (t\<lparr>tx_result_fifo := rf, tx_fragment_fifo := ff\<rparr>) }"

definition tex_read :: "tex_cache \<Rightarrow> tex_cache option" where
  "tex_read t =
     (if \<not> fifo_empty (tx_fragment_fifo t) \<and> \<not> fifo_full (tx_result_fifo t) then do {
        e \<leftarrow> fifo_peek (tx_fragment_fifo t);
        if fr_miss e then tex_complete_miss e t else tex_complete_hit e t }
      else Some t)"

definition tex_cycle :: "(u32 \<Rightarrow> bool \<Rightarrow> bool) \<Rightarrow> tex_cache \<Rightarrow> (nat option \<times> tex_cache) option" where
  "tex_cycle full t = do {
     (pushed, t) \<leftarrow> tex_send full t;
     t \<leftarrow> tex_read t;
     Some (pushed, t) }"

definition tex_fill :: "nat \<Rightarrow> u32 \<Rightarrow> tex_cache \<Rightarrow> tex_cache option" where
  "tex_fill p time t = do {
     slot \<leftarrow> tx_extra t p;
     _ \<leftarrow> assert_c (\<not> fifo_empty (tx_rob t));
     mf \<leftarrow> tx_heap t p;
     r \<leftarrow> fifo_peek_at slot (tx_rob t);
     _ \<leftarrow> assert_c (\<not> rob_ready r);
     _ \<leftarrow> assert_c (rob_block_addr r = block_addr (tx_cfg t) (mf_addr mf));
     rob \<leftarrow> fifo_update slot (\<lambda>r. r\<lparr>rob_ready := True, rob_time := time\<rparr>) (tx_rob t);
     Some (t\<lparr>tx_rob := rob, tx_heap := (tx_heap t)(p \<mapsto> mf_set_status (tx_rob_status t) time mf)\<rparr>) }"

definition tex_access_ready :: "tex_cache \<Rightarrow> bool" where
  "tex_access_ready t = (\<not> fifo_empty (tx_result_fifo t))"

definition tex_next_access :: "tex_cache \<Rightarrow> (nat \<times> tex_cache) option" where
  "tex_next_access t = do {
     (p, rf) \<leftarrow> fifo_pop (tx_result_fifo t);
     Some (p, t\<lparr>tx_result_fifo := rf\<rparr>) }"

definition tex_data_port_free :: "tex_cache \<Rightarrow> bool" where
  "tex_data_port_free t = True"

definition tex_fill_port_free :: "tex_cache \<Rightarrow> bool" where
  "tex_fill_port_free t = True"

section \<open>What the tags promise and the data array holds\<close>

text \<open>
  The data array is written when a miss leaves the fragment queue. \<open>replay\<close> is the array after the
  queued fragments have left, \<open>justified\<close> says that each queued hit will find its block there.
\<close>

primrec replay :: "(nat \<Rightarrow> u64) \<Rightarrow> fragment_entry list \<Rightarrow> data_block list \<Rightarrow> data_block list" where
  "replay f [] B = B"
| "replay f (e # es) B = replay f es
     (if fr_miss e then B[fr_cache_index e := \<lparr>blk_valid = True, blk_block_addr = f (fr_request e)\<rparr>] else B)"

primrec justified :: "(nat \<Rightarrow> u64) \<Rightarrow> fragment_entry list \<Rightarrow> data_block list \<Rightarrow> bool" where
  "justified f [] B \<longleftrightarrow> True"
| "justified f (e # es) B \<longleftrightarrow> fr_cache_index e < length B
     \<and> (\<not> fr_miss e \<longrightarrow> B ! fr_cache_index e = \<lparr>blk_valid = True, blk_block_addr = f (fr_request e)\<rparr>)
     \<and> justified f es
       (if fr_miss e then B[fr_cache_index e := \<lparr>blk_valid = True, blk_block_addr = f (fr_request e)\<rparr>] else B)"

lemma replay_append [simp]: "replay f (es @ fs) B = replay f fs (replay f es B)"
  by (induction es arbitrary: B) simp_all

lemma length_replay [simp]: "length (replay f es B) = length B"
  by (induction es arbitrary: B) simp_all

lemma justified_append [simp]: "justified f (es @ fs) B \<longleftrightarrow> justified f es B \<and> justified f fs (replay f es B)"
  by (induction es arbitrary: B) auto

lemma replay_cong: "(\<And>e. e \<in> set es \<Longrightarrow> f (fr_request e) = g (fr_request e)) \<Longrightarrow> replay f es B = replay g es B"
  by (induction es arbitrary: B) auto

lemma justified_cong:
  "(\<And>e. e \<in> set es \<Longrightarrow> f (fr_request e) = g (fr_request e)) \<Longrightarrow> justified f es B = justified g es B"
  by (induction es arbitrary: B) auto

definition tags_match :: "cache_config \<Rightarrow> tag_array \<Rightarrow> data_block list \<Rightarrow> bool" where
  "tags_match cfg ta B \<longleftrightarrow> length B = get_num_lines cfg \<and> (\<forall>i < get_num_lines cfg.
     (m_status (m_lines ta ! i) = INVALID \<or> m_status (m_lines ta ! i) = VALID)
     \<and> (m_status (m_lines ta ! i) = VALID \<longrightarrow>
         B ! i = \<lparr>blk_valid = True, blk_block_addr = m_tag (m_lines ta ! i)\<rparr>))"

definition rob_matches :: "(nat \<Rightarrow> u64) \<Rightarrow> fragment_entry \<Rightarrow> rob_entry \<Rightarrow> bool" where
  "rob_matches f e r \<longleftrightarrow> rob_request r = fr_request e \<and> rob_index r = fr_cache_index e
     \<and> rob_block_addr r = f (fr_request e)"

definition block_of :: "tex_cache \<Rightarrow> nat \<Rightarrow> u64" where
  "block_of t p = block_addr (tx_cfg t) (case tx_heap t p of Some mf \<Rightarrow> mf_addr mf | None \<Rightarrow> 0)"

abbreviation fragments :: "tex_cache \<Rightarrow> fragment_entry list" where
  "fragments t \<equiv> fifo_contents (tx_fragment_fifo t)"

abbreviation pending :: "tex_cache \<Rightarrow> rob_entry list" where
  "pending t \<equiv> fifo_contents (tx_rob t)"

abbreviation results :: "tex_cache \<Rightarrow> nat list" where
  "results t \<equiv> fifo_contents (tx_result_fifo t)"

abbreviation unsent :: "tex_cache \<Rightarrow> nat list" where
  "unsent t \<equiv> fifo_contents (tx_request_fifo t)"

definition tex_inv :: "tex_cache \<Rightarrow> bool" where
  "tex_inv t \<longleftrightarrow> cfg_ok (tx_cfg t) \<and> m_alloc_policy (tx_cfg t) = ON_MISS
     \<and> ta_inv (tx_cfg t) (tx_tags t)
     \<and> fifo_wf (tx_fragment_fifo t) \<and> fifo_wf (tx_request_fifo t) \<and> fifo_wf (tx_rob t) \<and> fifo_wf (tx_result_fifo t)
     \<and> (\<forall>e \<in> set (fragments t). tx_heap t (fr_request e) \<noteq> None) \<and> (\<forall>p \<in> set (unsent t). tx_heap t p \<noteq> None)
     \<and> list_all2 (rob_matches (block_of t)) (filter fr_miss (fragments t)) (pending t)
     \<and> justified (block_of t) (fragments t) (tx_cache t)
     \<and> tags_match (tx_cfg t) (tx_tags t) (replay (block_of t) (fragments t) (tx_cache t))"

text \<open>Each pending request still finds its own slot of the reorder buffer.\<close>

definition slots_inv :: "tex_cache \<Rightarrow> bool" where
  "slots_inv t \<longleftrightarrow> (\<forall>k < length (pending t). tx_extra t (rob_request (pending t ! k)) = Some (fifo_slot (tx_rob t) k))
     \<and> distinct (map rob_request (pending t))"

lemma ta_access_lines:
  assumes "cfg_ok cfg" and "m_alloc_policy cfg = ON_MISS" and "ta_inv cfg ta" and "tag_of cfg a = a"
    and "ta_access cfg a time idx ta = Some (status, i, ta')" and "status \<noteq> RESERVATION_FAIL" "status \<noteq> HIT_RESERVED"
  shows "i < get_num_lines cfg" "i < length (m_lines ta)"
    "status = HIT \<Longrightarrow> m_tag (m_lines ta ! i) = a \<and> live (m_lines ta ! i) \<and> m_status (m_lines ta ! i) \<noteq> RESERVED
      \<and> m_lines ta' = (m_lines ta)[i := (m_lines ta ! i)\<lparr>m_last_access_time := time\<rparr>]"
    "status \<noteq> HIT \<Longrightarrow> status = MISS
      \<and> m_lines ta' = (m_lines ta)[i := block_allocate a a time (m_lines ta ! i)]"
proof -
  obtain s where s: "set_index cfg a = Some s" "s < unat (m_nset cfg)"
    using set_index_ok [OF assms(1)] by (auto simp: ok_def)
  let ?ta = "ta\<lparr>m_access := m_access ta + 1\<rparr>"
  have len: "get_num_lines cfg \<le> length (m_lines ?ta)" "get_num_lines cfg \<le> length (m_lines ta)"
    using assms(3) by (auto simp: ta_inv_def)
  obtain wb where wb: "ta_access_wb cfg a time idx ta = Some (status, i, wb, ta')"
    using assms(5) by (auto simp: ta_access_def bind_eq_Some_conv)
  obtain st k where p: "ta_probe cfg ?ta a idx = Some (st, k)"
    using wb unfolding ta_access_wb_def Let_def bind_eq_Some_conv by auto
  have r: "probe_result cfg ?ta a s idx (st, k)" by (rule ta_probe_partial [OF s(2,1) len(1) p])
  have eq: "st = status" "k = i" using wb p assms(6,7)
    by (auto simp: ta_access_wb_def Let_def bind_eq_Some_conv upd_line_eq_Some assms(2)
        split: cache_request_status.splits)
  show less: "i < get_num_lines cfg"
    using r eq assms(6,7) ways_of_less [OF s(2), of i]
    by (auto simp: probe_result_def holds_block_def good_victim_def split: cache_request_status.splits)
  with len(2) show "i < length (m_lines ta)" by simp
  show "m_tag (m_lines ta ! i) = a \<and> live (m_lines ta ! i) \<and> m_status (m_lines ta ! i) \<noteq> RESERVED
      \<and> m_lines ta' = (m_lines ta)[i := (m_lines ta ! i)\<lparr>m_last_access_time := time\<rparr>]" if "status = HIT"
    using r eq that wb p assms(4)
    by (auto simp: probe_result_def holds_block_def ta_access_wb_def Let_def bind_eq_Some_conv upd_line_eq_Some)
  show "status = MISS \<and> m_lines ta' = (m_lines ta)[i := block_allocate a a time (m_lines ta ! i)]" if "status \<noteq> HIT"
  proof -
    have "status = MISS" using that assms(6,7) by (cases status) auto
    then show ?thesis using wb p eq assms(2,4)
      by (auto simp: ta_access_wb_def Let_def bind_eq_Some_conv upd_line_eq_Some block_addr_tag)
  qed
qed

lemma tags_match_hit:
  assumes "tags_match cfg ta B" and "i < get_num_lines cfg" and "i < length (m_lines ta)"
    and "m_lines ta' = (m_lines ta)[i := (m_lines ta ! i)\<lparr>m_last_access_time := time\<rparr>]"
  shows "tags_match cfg ta' B"
  using assms by (auto simp: tags_match_def nth_list_update)

lemma tags_match_miss:
  assumes "tags_match cfg ta B" and "i < get_num_lines cfg" and "i < length (m_lines ta)"
    and "m_lines ta1 = (m_lines ta)[i := block_allocate a a time (m_lines ta ! i)]"
    and "ta_fill_index cfg i time ta1 = Some ta'"
  shows "tags_match cfg ta' (B[i := \<lparr>blk_valid = True, blk_block_addr = a\<rparr>])"
  using assms
  by (auto simp: tags_match_def ta_fill_index_def block_fill_def bind_eq_Some_conv at_get_eq_Some
      upd_line_eq_Some nth_list_update block_allocate_def)

section \<open>Each operation keeps the invariant\<close>

lemma block_of_simps [simp]:
  "block_of (t\<lparr>tx_tags := a\<rparr>) = block_of t" "block_of (t\<lparr>tx_fragment_fifo := b\<rparr>) = block_of t"
  "block_of (t\<lparr>tx_request_fifo := c\<rparr>) = block_of t" "block_of (t\<lparr>tx_rob := d\<rparr>) = block_of t"
  "block_of (t\<lparr>tx_cache := h\<rparr>) = block_of t" "block_of (t\<lparr>tx_result_fifo := c\<rparr>) = block_of t"
  "block_of (t\<lparr>tx_extra := x\<rparr>) = block_of t" "block_of (t\<lparr>tx_stats := y\<rparr>) = block_of t"
  "block_of (t\<lparr>tx_events := z\<rparr>) = block_of t"
  by (auto simp: block_of_def)

lemma block_of_heap:
  "tx_heap t p = Some mf \<Longrightarrow> mf_addr mf' = mf_addr mf \<Longrightarrow> block_of (t\<lparr>tx_heap := (tx_heap t)(p \<mapsto> mf')\<rparr>) = block_of t"
  by (auto simp: block_of_def)

lemma set_status_addr [simp]: "mf_addr (mf_set_status s c mf) = mf_addr mf"
  by (simp add: mf_set_status_def)

lemma block_of_Some: "tx_heap t p = Some mf \<Longrightarrow> block_of t p = block_addr (tx_cfg t) (mf_addr mf)"
  by (simp add: block_of_def)

lemma tex_access_hit_inv:
  assumes inv: "tex_inv t" and heap: "tx_heap t p = Some mf"
    and acc: "ta_access (tx_cfg t) (block_of t p) time idx (tx_tags t) = Some (HIT, i, ta)"
    and push: "fifo_push \<lparr>fr_request = p, fr_cache_index = i, fr_miss = False, fr_data_size = d\<rparr> (tx_fragment_fifo t) = Some (n, ff)"
  shows "tex_inv (t\<lparr>tx_tags := ta, tx_fragment_fifo := ff\<rparr>)"
proof -
  have tag: "tag_of (tx_cfg t) (block_of t p) = block_of t p"
    by (simp add: block_of_def block_addr_tag)
  have I: "cfg_ok (tx_cfg t)" "m_alloc_policy (tx_cfg t) = ON_MISS" "ta_inv (tx_cfg t) (tx_tags t)"
    "fifo_wf (tx_fragment_fifo t)" "tags_match (tx_cfg t) (tx_tags t) (replay (block_of t) (fragments t) (tx_cache t))"
    using inv by (auto simp: tex_inv_def)
  note L = ta_access_lines [OF I(1,2,3) tag acc, simplified]
  have ff: "fifo_wf ff" "fifo_contents ff = fragments t @ [\<lparr>fr_request = p, fr_cache_index = i, fr_miss = False, fr_data_size = d\<rparr>]"
    using rb.push_Some [OF I(4) push] by auto
  have "ta_inv (tx_cfg t) ta"
    using acc ta_access_inv [OF I(1,3) tag] by (auto simp: ta_access_def bind_eq_Some_conv)
  moreover have "tags_match (tx_cfg t) ta (replay (block_of t) (fragments t) (tx_cache t))"
    using tags_match_hit [OF I(5) L(1,2)] L(3) by blast
  moreover have "replay (block_of t) (fragments t) (tx_cache t) ! i = \<lparr>blk_valid = True, blk_block_addr = block_of t p\<rparr>"
    "i < length (tx_cache t)"
    using I(5) L(1,3) by (auto simp: tags_match_def live_def)
  ultimately show ?thesis
    using inv ff heap by (auto simp: tex_inv_def)
qed

lemma tex_access_miss_inv:
  assumes inv: "tex_inv t" and heap: "tx_heap t p = Some mf"
    and acc: "ta_access (tx_cfg t) (block_of t p) time idx (tx_tags t) = Some (MISS, i, ta)"
    and push: "fifo_push \<lparr>fr_request = p, fr_cache_index = i, fr_miss = True, fr_data_size = d\<rparr> (tx_fragment_fifo t) = Some (n, ff)"
    and miss: "tex_miss p i (block_of t p) time (t\<lparr>tx_tags := ta, tx_fragment_fifo := ff\<rparr>) = Some t'"
  shows "tex_inv t'"
proof -
  have tag: "tag_of (tx_cfg t) (block_of t p) = block_of t p"
    by (simp add: block_of_def block_addr_tag)
  have I: "cfg_ok (tx_cfg t)" "m_alloc_policy (tx_cfg t) = ON_MISS" "ta_inv (tx_cfg t) (tx_tags t)"
    "fifo_wf (tx_fragment_fifo t)" "tags_match (tx_cfg t) (tx_tags t) (replay (block_of t) (fragments t) (tx_cache t))"
    "fifo_wf (tx_rob t)" "fifo_wf (tx_request_fifo t)"
    using inv by (auto simp: tex_inv_def)
  note L = ta_access_lines [OF I(1,2,3) tag acc, simplified]
  have ff: "fifo_wf ff" "fifo_contents ff = fragments t @ [\<lparr>fr_request = p, fr_cache_index = i, fr_miss = True, fr_data_size = d\<rparr>]"
    using rb.push_Some [OF I(4) push] by auto
  from miss heap obtain slot rob ta' k rq where m:
    "fifo_push (new_rob_entry i p (block_of t p)) (tx_rob t) = Some (slot, rob)"
    "ta_fill_index (tx_cfg t) i time ta = Some ta'" "fifo_push p (tx_request_fifo t) = Some (k, rq)"
    "t' = t\<lparr>tx_fragment_fifo := ff, tx_rob := rob, tx_extra := (tx_extra t)(p \<mapsto> slot), tx_tags := ta',
       tx_request_fifo := rq, tx_heap := (tx_heap t)(p \<mapsto> mf_set_status (tx_request_queue_status t) time
         (mf\<lparr>mf_data_size := m_line_sz (tx_cfg t)\<rparr>)), tx_events := tx_events t @ [READ_REQUEST_SENT]\<rparr>"
    by (auto simp: tex_miss_def bind_eq_Some_conv)
  have rob: "fifo_wf rob" "fifo_contents rob = pending t @ [new_rob_entry i p (block_of t p)]"
    using rb.push_Some [OF I(6) m(1)] by auto
  have rq: "fifo_wf rq" "fifo_contents rq = unsent t @ [p]"
    using rb.push_Some [OF I(7) m(3)] by auto
  have "ta_inv (tx_cfg t) ta"
    using acc ta_access_inv [OF I(1,3) tag] by (auto simp: ta_access_def bind_eq_Some_conv)
  then have ta': "ta_inv (tx_cfg t) ta'" using ta_fill_index_inv [OF _ L(1) m(2)] by blast
  have match: "tags_match (tx_cfg t) ta' ((replay (block_of t) (fragments t) (tx_cache t))[i :=
      \<lparr>blk_valid = True, blk_block_addr = block_of t p\<rparr>])"
    using tags_match_miss [OF I(5) L(1,2)] L(4) m(2) by blast
  have i: "i < length (tx_cache t)" using I(5) L(1) by (simp add: tags_match_def)
  have bl: "block_of t' = block_of t" using heap by (auto simp: m(4) block_of_def)
  have t': "tx_cfg t' = tx_cfg t" "tx_tags t' = ta'" "tx_fragment_fifo t' = ff" "tx_rob t' = rob" "tx_request_fifo t' = rq"
    "tx_result_fifo t' = tx_result_fifo t" "tx_cache t' = tx_cache t"
    "\<And>q. tx_heap t' q = None \<longleftrightarrow> tx_heap t q = None"
    using heap by (auto simp: m(4))
  have "rob_matches (block_of t) \<lparr>fr_request = p, fr_cache_index = i, fr_miss = True, fr_data_size = d\<rparr>
      (new_rob_entry i p (block_of t p))"
    by (simp add: rob_matches_def new_rob_entry_def)
  with inv ff rob rq ta' match i heap show ?thesis
    unfolding tex_inv_def bl t' by (auto intro: list_all2_appendI)
qed

text \<open>What an access does to the queues.\<close>

lemma tex_access_cases:
  assumes inv: "tex_inv t" and heap: "tx_heap t p = Some mf" and acc: "tex_access (mf_addr mf) p time t = Some (s, t')"
  shows "s = RESERVATION_FAIL \<and> t' = t
    \<or> (s = MISS \<or> s = HIT_RESERVED) \<and> tex_inv t' \<and> results t' = results t
      \<and> map fr_request (fragments t') = map fr_request (fragments t) @ [p]"
proof (cases "fifo_full (tx_fragment_fifo t) \<or> fifo_full (tx_request_fifo t) \<or> fifo_full (tx_rob t)")
  case True
  with acc show ?thesis by (simp add: tex_access_def)
next
  case False
  with acc heap obtain status i ta n ff t1 st where a:
    "ta_access (tx_cfg t) (block_of t p) time 0xFFFFFFFF (tx_tags t) = Some (status, i, ta)"
    "status \<noteq> RESERVATION_FAIL" "status \<noteq> HIT_RESERVED"
    "fifo_push \<lparr>fr_request = p, fr_cache_index = i, fr_miss = (status = MISS), fr_data_size = mf_data_size mf\<rparr>
      (tx_fragment_fifo t) = Some (n, ff)"
    "(if status = MISS then tex_miss p i (block_of t p) time (t\<lparr>tx_tags := ta, tx_fragment_fifo := ff\<rparr>)
      else Some (t\<lparr>tx_tags := ta, tx_fragment_fifo := ff\<rparr>)) = Some t1"
    "s = (if status = MISS then MISS else HIT_RESERVED)" "t' = t1\<lparr>tx_stats := st\<rparr>"
    unfolding tex_access_def Let_def
    by (auto simp: bind_eq_Some_conv assert_c_bind_eq_Some block_of_Some simp del: if_split_asm cong: if_cong)
  have ff: "fifo_contents ff = fragments t @ [\<lparr>fr_request = p, fr_cache_index = i, fr_miss = (status = MISS), fr_data_size = mf_data_size mf\<rparr>]"
    using rb.push_Some [OF _ a(4)] inv by (auto simp: tex_inv_def)
  have stats: "tex_inv (t1\<lparr>tx_stats := st\<rparr>) \<longleftrightarrow> tex_inv t1" by (simp add: tex_inv_def)
  show ?thesis
  proof (cases "status = MISS")
    case True
    with a heap have "tex_inv t1" by (intro tex_access_miss_inv [OF inv heap, where t' = t1]) auto
    moreover have "tx_fragment_fifo t1 = ff" "tx_result_fifo t1 = tx_result_fifo t"
      using a(5) True by (auto simp: tex_miss_def bind_eq_Some_conv)
    ultimately show ?thesis using a(6,7) True stats ff by simp
  next
    case False
    with a(2,3) have "status = HIT" by (cases status) auto
    with a have "tex_inv t1" using tex_access_hit_inv [OF inv heap, of time "0xFFFFFFFF" i ta "mf_data_size mf" n ff] by simp
    moreover have "tx_fragment_fifo t1 = ff" "tx_result_fifo t1 = tx_result_fifo t"
      using a(5) False by auto
    ultimately show ?thesis using a(6,7) False stats ff by simp
  qed
qed

lemma fifo_peek_pop: "fifo_wf q \<Longrightarrow> fifo_peek q = Some e \<Longrightarrow> \<not> fifo_empty q \<Longrightarrow>
  \<exists>q'. fifo_pop q = Some (e, q') \<and> fifo_wf q' \<and> fifo_contents q = e # fifo_contents q'"
  using fifo_peek_contents [of q] fifo_pop_contents [of q] length_contents [of q]
  by (cases "fifo_contents q") (auto simp: fifo_empty_def)

lemma fifo_empty_contents: "fifo_empty q \<Longrightarrow> fifo_contents q = []"
  by (simp add: fifo_empty_def fifo_contents_def)

lemma fifo_nonempty: "fifo_wf q \<Longrightarrow> \<not> fifo_empty q \<Longrightarrow> \<exists>e es. fifo_contents q = e # es"
  using length_contents [of q] by (cases "fifo_contents q") (auto simp: fifo_empty_def)

lemma tex_send_ok:
  assumes inv: "tex_inv t"
  shows "\<exists>r t'. tex_send full t = Some (r, t') \<and> tex_inv t' \<and> fragments t' = fragments t \<and> results t' = results t
    \<and> pending t' = pending t \<and> tx_rob t' = tx_rob t \<and> tx_extra t' = tx_extra t \<and> f_size (tx_result_fifo t') = f_size (tx_result_fifo t)
    \<and> (case r of None \<Rightarrow> unsent t' = unsent t | Some p \<Rightarrow> unsent t = p # unsent t')"
proof (cases "fifo_empty (tx_request_fifo t)")
  case True
  then show ?thesis using inv by (simp add: tex_send_def)
next
  case False
  have wf: "fifo_wf (tx_request_fifo t)" using inv by (simp add: tex_inv_def)
  obtain p ps where c: "unsent t = p # ps" using fifo_nonempty [OF wf False] by blast
  then have peek: "fifo_peek (tx_request_fifo t) = Some p" by (rule fifo_peek_contents [OF wf])
  obtain rq where pop: "fifo_pop (tx_request_fifo t) = Some (p, rq)" "fifo_wf rq" "fifo_contents rq = ps"
    using fifo_pop_contents [OF wf c] by blast
  obtain mf where "tx_heap t p = Some mf" using inv c by (auto simp: tex_inv_def)
  moreover have "tex_inv (t\<lparr>tx_request_fifo := rq\<rparr>)"
    using inv pop c by (auto simp: tex_inv_def)
  ultimately show ?thesis using False peek pop c inv by (auto simp: tex_send_def)
qed

text \<open>The effect of reading: nothing, or the oldest fragment becomes a result.\<close>

lemma tex_complete_hit_ok:
  assumes inv: "tex_inv t" and room: "\<not> fifo_full (tx_result_fifo t)"
    and frag: "fragments t = e # es" and hit: "\<not> fr_miss e"
  shows "\<exists>t'. tex_complete_hit e t = Some t' \<and> tex_inv t' \<and> results t' = results t @ [fr_request e] \<and> fragments t' = es
    \<and> tx_rob t' = tx_rob t \<and> tx_extra t' = tx_extra t \<and> f_size (tx_result_fifo t') = f_size (tx_result_fifo t)"
proof -
  have wf: "fifo_wf (tx_fragment_fifo t)" "fifo_wf (tx_result_fifo t)" using inv by (auto simp: tex_inv_def)
  obtain ff where ff: "fifo_pop (tx_fragment_fifo t) = Some (e, ff)" "fifo_wf ff" "fifo_contents ff = es"
    using fifo_pop_contents [OF wf(1) frag] by blast
  obtain rf n where rf: "fifo_push (fr_request e) (tx_result_fifo t) = Some (n, rf)" "fifo_wf rf"
    "fifo_contents rf = results t @ [fr_request e]" "f_size rf = f_size (tx_result_fifo t)"
    using fifo_push_contents [OF wf(2) room] by blast
  obtain mf where mf: "tx_heap t (fr_request e) = Some mf" using inv frag by (auto simp: tex_inv_def)
  have b: "fr_cache_index e < length (tx_cache t)"
    "tx_cache t ! fr_cache_index e = \<lparr>blk_valid = True, blk_block_addr = block_of t (fr_request e)\<rparr>"
    using inv frag hit by (auto simp: tex_inv_def)
  let ?t = "t\<lparr>tx_result_fifo := rf, tx_fragment_fifo := ff\<rparr>"
  have "tex_inv ?t" using inv ff rf frag hit by (auto simp: tex_inv_def)
  moreover have "tex_complete_hit e t = Some ?t"
    using b ff(1) rf(1) mf by (simp add: tex_complete_hit_def block_of_Some)
  ultimately show ?thesis using ff rf by auto
qed

lemma tex_complete_miss_ok:
  assumes inv: "tex_inv t" and room: "\<not> fifo_full (tx_result_fifo t)"
    and frag: "fragments t = e # es" and miss: "fr_miss e"
  shows "\<exists>r rs. pending t = r # rs \<and> rob_request r = fr_request e \<and>
    (\<exists>t'. tex_complete_miss e t = Some t' \<and> (if rob_ready r
      then tex_inv t' \<and> results t' = results t @ [fr_request e] \<and> fragments t' = es \<and> pending t' = rs
        \<and> fifo_pop (tx_rob t) = Some (r, tx_rob t') \<and> tx_extra t' = tx_extra t
        \<and> f_size (tx_result_fifo t') = f_size (tx_result_fifo t)
      else t' = t))"
proof -
  have wf: "fifo_wf (tx_fragment_fifo t)" "fifo_wf (tx_result_fifo t)" "fifo_wf (tx_rob t)"
    using inv by (auto simp: tex_inv_def)
  obtain r rs where r: "pending t = r # rs" "rob_matches (block_of t) e r"
    "list_all2 (rob_matches (block_of t)) (filter fr_miss es) rs"
    using inv frag miss by (auto simp: tex_inv_def list_all2_Cons1)
  obtain rob where rob: "fifo_pop (tx_rob t) = Some (r, rob)" "fifo_wf rob" "fifo_contents rob = rs"
    using fifo_pop_contents [OF wf(3) r(1)] by blast
  have peek: "fifo_peek_at (next_pop_index (tx_rob t)) (tx_rob t) = Some r"
    using rob(1) wf(3) unfolding fifo_pop_def fifo_empty_def fifo_peek_at_def next_pop_index_def fifo_wf_def
    by (auto simp: bind_eq_Some_conv at_get_eq_Some)
  obtain ff where ff: "fifo_pop (tx_fragment_fifo t) = Some (e, ff)" "fifo_wf ff" "fifo_contents ff = es"
    using fifo_pop_contents [OF wf(1) frag] by blast
  obtain rf n where rf: "fifo_push (fr_request e) (tx_result_fifo t) = Some (n, rf)" "fifo_wf rf"
    "fifo_contents rf = results t @ [fr_request e]" "f_size rf = f_size (tx_result_fifo t)"
    using fifo_push_contents [OF wf(2) room] by blast
  obtain mf where mf: "tx_heap t (fr_request e) = Some mf" using inv frag by (auto simp: tex_inv_def)
  have i: "fr_cache_index e < length (tx_cache t)" using inv frag by (auto simp: tex_inv_def)
  let ?t = "t\<lparr>tx_cache := (tx_cache t)[fr_cache_index e := \<lparr>blk_valid = True, blk_block_addr = block_of t (fr_request e)\<rparr>],
    tx_result_fifo := rf, tx_rob := rob, tx_fragment_fifo := ff\<rparr>"
  have "tex_inv ?t" using inv ff rf rob r frag miss by (auto simp: tex_inv_def)
  moreover have "tex_complete_miss e t = Some (if rob_ready r then ?t else t)"
    using r(2) ff(1) rf(1) rob(1) mf i peek
    by (simp add: tex_complete_miss_def rob_matches_def block_of_Some)
  ultimately show ?thesis using ff rf rob r by (auto simp: rob_matches_def)
qed

text \<open>\<open>tex_read\<close> never fails; \<open>ready_head t\<close> says that it moves the oldest fragment to the results.\<close>

definition ready_head :: "tex_cache \<Rightarrow> bool" where
  "ready_head t \<longleftrightarrow> \<not> fifo_full (tx_result_fifo t) \<and> (case fragments t of [] \<Rightarrow> False
     | e # _ \<Rightarrow> (fr_miss e \<longrightarrow> (case pending t of [] \<Rightarrow> False | r # _ \<Rightarrow> rob_ready r)))"

lemma tex_read_ok:
  assumes inv: "tex_inv t"
  shows "\<exists>t'. tex_read t = Some t' \<and> tex_inv t' \<and> f_size (tx_result_fifo t') = f_size (tx_result_fifo t)
    \<and> tx_extra t' = tx_extra t \<and> unsent t' = unsent t \<and> tx_heap t' = tx_heap t
    \<and> (if ready_head t then \<exists>e. fragments t = e # fragments t' \<and> results t' = results t @ [fr_request e]
        \<and> (if fr_miss e then \<exists>r. fifo_pop (tx_rob t) = Some (r, tx_rob t') else tx_rob t' = tx_rob t) else t' = t)"
proof (cases "fifo_empty (tx_fragment_fifo t) \<or> fifo_full (tx_result_fifo t)")
  case True
  then have "\<not> ready_head t"
    using fifo_empty_contents [of "tx_fragment_fifo t"] by (auto simp: ready_head_def)
  with True inv show ?thesis by (auto simp: tex_read_def)
next
  case False
  have wf: "fifo_wf (tx_fragment_fifo t)" using inv by (simp add: tex_inv_def)
  from False obtain e es where c: "fragments t = e # es" using fifo_nonempty [OF wf] by blast
  then have peek: "fifo_peek (tx_fragment_fifo t) = Some e" by (rule fifo_peek_contents [OF wf])
  have unch: "tex_complete_hit e t = Some t' \<Longrightarrow> unsent t' = unsent t \<and> tx_heap t' = tx_heap t"
    "tex_complete_miss e t = Some t' \<Longrightarrow> unsent t' = unsent t \<and> tx_heap t' = tx_heap t" for t'
    by (auto simp: tex_complete_hit_def tex_complete_miss_def bind_eq_Some_conv assert_c_bind_eq_Some split: if_splits)
  show ?thesis
  proof (cases "fr_miss e")
    case True
    with False tex_complete_miss_ok [OF inv _ c True] obtain r rs t' where
      "pending t = r # rs" "tex_complete_miss e t = Some t'" "if rob_ready r
      then tex_inv t' \<and> results t' = results t @ [fr_request e] \<and> fragments t' = es \<and> pending t' = rs
        \<and> fifo_pop (tx_rob t) = Some (r, tx_rob t') \<and> tx_extra t' = tx_extra t
        \<and> f_size (tx_result_fifo t') = f_size (tx_result_fifo t) else t' = t" by blast
    with True False inv c peek unch(2) [of t'] show ?thesis
      by (auto simp: tex_read_def ready_head_def split: if_splits)
  next
    case hit: False
    with False tex_complete_hit_ok [OF inv _ c hit] obtain t' where
      "tex_complete_hit e t = Some t'" "tex_inv t'" "results t' = results t @ [fr_request e]" "fragments t' = es"
      "tx_rob t' = tx_rob t" "tx_extra t' = tx_extra t" "f_size (tx_result_fifo t') = f_size (tx_result_fifo t)" by blast
    with hit False c peek unch(1) [of t'] show ?thesis
      by (auto simp: tex_read_def ready_head_def)
  qed
qed

lemma tex_cycle_ok:
  assumes inv: "tex_inv t"
  shows "\<exists>r t'. tex_cycle full t = Some (r, t') \<and> tex_inv t' \<and> f_size (tx_result_fifo t') = f_size (tx_result_fifo t)
    \<and> tx_extra t' = tx_extra t \<and> (case r of None \<Rightarrow> unsent t' = unsent t | Some p \<Rightarrow> unsent t = p # unsent t')
    \<and> (if ready_head t then \<exists>e. fragments t = e # fragments t' \<and> results t' = results t @ [fr_request e]
        \<and> (if fr_miss e then \<exists>r. fifo_pop (tx_rob t) = Some (r, tx_rob t') else tx_rob t' = tx_rob t)
      else fragments t' = fragments t \<and> results t' = results t \<and> tx_rob t' = tx_rob t)"
proof -
  from tex_send_ok [OF inv, of full] obtain r t1 where t1: "tex_send full t = Some (r, t1)" "tex_inv t1"
    "fragments t1 = fragments t" "results t1 = results t" "tx_rob t1 = tx_rob t" "tx_extra t1 = tx_extra t"
    "f_size (tx_result_fifo t1) = f_size (tx_result_fifo t)"
    "case r of None \<Rightarrow> unsent t1 = unsent t | Some p \<Rightarrow> unsent t = p # unsent t1" by blast
  have full: "fifo_full (tx_result_fifo t1) = fifo_full (tx_result_fifo t)"
    using t1(4,7) length_contents [of "tx_result_fifo t"] length_contents [of "tx_result_fifo t1"]
    by (simp add: fifo_full_def)
  have head: "ready_head t1 = ready_head t" unfolding ready_head_def full t1(3,5) ..
  from tex_read_ok [OF t1(2)] obtain t2 where t2: "tex_read t1 = Some t2" "tex_inv t2"
    "f_size (tx_result_fifo t2) = f_size (tx_result_fifo t1)" "tx_extra t2 = tx_extra t1" "unsent t2 = unsent t1"
    "if ready_head t1 then \<exists>e. fragments t1 = e # fragments t2 \<and> results t2 = results t1 @ [fr_request e]
        \<and> (if fr_miss e then \<exists>r. fifo_pop (tx_rob t1) = Some (r, tx_rob t2) else tx_rob t2 = tx_rob t1) else t2 = t1"
    by blast
  have "if ready_head t then \<exists>e. fragments t = e # fragments t2 \<and> results t2 = results t @ [fr_request e]
        \<and> (if fr_miss e then \<exists>r. fifo_pop (tx_rob t) = Some (r, tx_rob t2) else tx_rob t2 = tx_rob t)
      else fragments t2 = fragments t \<and> results t2 = results t \<and> tx_rob t2 = tx_rob t"
    using t2(6) by (auto simp: head t1 split: if_splits)
  moreover have "tex_cycle full t = Some (r, t2)" using t1(1) t2(1) by (simp add: tex_cycle_def)
  moreover have "case r of None \<Rightarrow> unsent t2 = unsent t | Some p \<Rightarrow> unsent t = p # unsent t2"
    using t1(8) by (simp add: t2(5) split: option.splits)
  ultimately show ?thesis using t1(6,7) t2(2,3,4) by (intro exI conjI) auto
qed

lemma tex_next_ok:
  assumes inv: "tex_inv t" and c: "results t = p # ps"
  shows "\<exists>t'. tex_next_access t = Some (p, t') \<and> tex_inv t' \<and> results t' = ps \<and> fragments t' = fragments t
    \<and> tx_rob t' = tx_rob t \<and> tx_extra t' = tx_extra t \<and> f_size (tx_result_fifo t') = f_size (tx_result_fifo t)"
proof -
  have wf: "fifo_wf (tx_result_fifo t)" using inv by (simp add: tex_inv_def)
  obtain rf where "fifo_pop (tx_result_fifo t) = Some (p, rf)" "fifo_wf rf" "fifo_contents rf = ps"
    "f_size rf = f_size (tx_result_fifo t)" using fifo_pop_contents [OF wf c] by blast
  moreover from this inv have "tex_inv (t\<lparr>tx_result_fifo := rf\<rparr>)" by (simp add: tex_inv_def)
  ultimately show ?thesis by (simp add: tex_next_access_def)
qed

text \<open>A fill marks at most one entry of the reorder buffer and changes nothing else of it.\<close>

lemma tex_fill_effect:
  assumes inv: "tex_inv t" and fill: "tex_fill p time t = Some t'"
  shows "tex_inv t' \<and> fragments t' = fragments t \<and> results t' = results t \<and> tx_extra t' = tx_extra t
    \<and> tx_result_fifo t' = tx_result_fifo t
    \<and> fifo_slot (tx_rob t') = fifo_slot (tx_rob t) \<and> length (pending t') = length (pending t)
    \<and> (\<exists>slot. tx_extra t p = Some slot \<and> (\<forall>k < length (pending t). pending t' ! k =
        (if fifo_slot (tx_rob t) k = slot then (pending t ! k)\<lparr>rob_ready := True, rob_time := time\<rparr> else pending t ! k)))"
proof -
  from fill obtain slot mf rob where f: "tx_extra t p = Some slot" "tx_heap t p = Some mf"
    "fifo_update slot (\<lambda>r. r\<lparr>rob_ready := True, rob_time := time\<rparr>) (tx_rob t) = Some rob"
    "t' = t\<lparr>tx_rob := rob, tx_heap := (tx_heap t)(p \<mapsto> mf_set_status (tx_rob_status t) time mf)\<rparr>"
    by (auto simp: tex_fill_def bind_eq_Some_conv)
  have wf: "fifo_wf (tx_rob t)" using inv by (simp add: tex_inv_def)
  note u = fifo_update_slots [OF wf f(3)]
  have bl: "block_of t' = block_of t" using f(2) by (auto simp: f(4) block_of_def)
  have same: "tx_heap t' q = None \<longleftrightarrow> tx_heap t q = None" for q using f(2) by (simp add: f(4))
  have t': "tx_cfg t' = tx_cfg t" "tx_tags t' = tx_tags t" "tx_fragment_fifo t' = tx_fragment_fifo t" "tx_rob t' = rob"
    "tx_request_fifo t' = tx_request_fifo t" "tx_result_fifo t' = tx_result_fifo t" "tx_cache t' = tx_cache t"
    "tx_extra t' = tx_extra t"
    by (simp_all add: f(4))
  have "list_all2 (rob_matches (block_of t)) (filter fr_miss (fragments t)) (fifo_contents rob)"
    using inv u by (auto simp: tex_inv_def list_all2_conv_all_nth rob_matches_def)
  with inv u(1) have "tex_inv t'" unfolding tex_inv_def bl t' same by simp
  with f(1) u show ?thesis by (auto simp: t')
qed

section \<open>Runs\<close>

text \<open>
  What the rest of the simulator does with the cache: it accesses it with a request that is not waiting in
  the reorder buffer, clocks it, returns a fill, takes a result, and changes, makes or frees requests, of
  which it keeps the addresses of those the cache holds. The lists are the accepted requests and the
  results taken so far.
\<close>

inductive tex_step :: "tex_cache \<times> nat list \<times> nat list \<Rightarrow> tex_cache \<times> nat list \<times> nat list \<Rightarrow> bool" where
  access: "tx_heap t p = Some mf \<Longrightarrow> p \<notin> rob_request ` set (pending t) \<Longrightarrow>
    tex_access (mf_addr mf) p time (t\<lparr>tx_events := []\<rparr>) = Some (s, t') \<Longrightarrow>
    tex_step (t, acc, ret) (t', if s = RESERVATION_FAIL then acc else acc @ [p], ret)"
| cycle: "tex_cycle full t = Some (r, t') \<Longrightarrow> tex_step (t, acc, ret) (t', acc, ret)"
| fill: "tex_fill p time t = Some t' \<Longrightarrow> tex_step (t, acc, ret) (t', acc, ret)"
| result: "tex_next_access t = Some (p, t') \<Longrightarrow> tex_step (t, acc, ret) (t', acc, ret @ [p])"
| requests: "(\<And>p mf. p \<in> fr_request ` set (fragments t) \<union> set (unsent t) \<Longrightarrow> tx_heap t p = Some mf \<Longrightarrow>
      \<exists>mf'. h p = Some mf' \<and> mf_addr mf' = mf_addr mf) \<Longrightarrow>
    tex_step (t, acc, ret) (t\<lparr>tx_heap := h\<rparr>, acc, ret)"

inductive_cases tex_stepE: "tex_step s s'"

inductive tex_reach :: "tex_cache \<times> nat list \<times> nat list \<Rightarrow> tex_cache \<times> nat list \<times> nat list \<Rightarrow> bool" for s where
  start: "tex_reach s s"
| step: "tex_reach s s' \<Longrightarrow> tex_step s' s'' \<Longrightarrow> tex_reach s s''"

text \<open>The invariant of the runs: what was accepted and has not been taken is in the cache, in order.\<close>

fun run_inv :: "tex_cache \<times> nat list \<times> nat list \<Rightarrow> bool" where
  "run_inv (t, acc, ret) \<longleftrightarrow>
     tex_inv t \<and> slots_inv t \<and> ret @ results t @ map fr_request (fragments t) = acc"

lemma slots_pop:
  assumes "slots_inv t" and "fifo_wf (tx_rob t)" and "fifo_pop (tx_rob t) = Some (r, tx_rob t')" and "tx_extra t' = tx_extra t"
  shows "slots_inv t'"
proof -
  note c = rb.pop_Some [OF assms(2,3)] and s = fifo_pop_slots [OF assms(2,3)]
  have "tx_extra t (rob_request (pending t ! Suc k)) = Some (fifo_slot (tx_rob t) (Suc k))"
    if "k < length (pending t')" for k
    using assms(1) that c by (auto simp: slots_inv_def simp del: length_contents)
  with assms(1,4) c s(1) show ?thesis by (auto simp: slots_inv_def simp del: length_contents)
qed

lemma slots_push:
  assumes "slots_inv t" and "fifo_wf (tx_rob t)" and "fifo_push e (tx_rob t) = Some (i, tx_rob t')"
    and "tx_extra t' = (tx_extra t)(rob_request e \<mapsto> i)" and "rob_request e \<notin> rob_request ` set (pending t)"
  shows "slots_inv t'"
proof -
  note c = rb.push_Some [OF assms(2,3)] and s = fifo_push_slots [OF assms(2,3)]
  have "tx_extra t' (rob_request (pending t' ! k)) = Some (fifo_slot (tx_rob t) k)" if "k < f_num (tx_rob t')" for k
  proof (cases "k < f_num (tx_rob t)")
    case True
    then have "pending t ! k \<in> set (pending t)" by (intro nth_mem) simp
    then have "rob_request (pending t ! k) \<noteq> rob_request e" using assms(5) by (metis imageI)
    with True assms(1,4) c show ?thesis by (simp add: slots_inv_def nth_append)
  next
    case False
    with that s(3) have "k = f_num (tx_rob t)" by simp
    with c s assms(4) show ?thesis by (simp add: nth_append)
  qed
  moreover have "distinct (map rob_request (pending t'))" using assms(1,5) c by (auto simp: slots_inv_def)
  ultimately show ?thesis using s(2) by (simp add: slots_inv_def)
qed

lemma slots_same: "slots_inv t \<Longrightarrow> tx_rob t' = tx_rob t \<Longrightarrow> tx_extra t' = tx_extra t \<Longrightarrow> slots_inv t'"
  by (simp add: slots_inv_def)

lemma tex_access_slots:
  assumes "tex_inv t" and "slots_inv t" and "p \<notin> rob_request ` set (pending t)"
    and acc: "tex_access addr p time t = Some (s, t')"
  shows "slots_inv t'"
proof (cases "tx_rob t' = tx_rob t \<and> tx_extra t' = tx_extra t")
  case True
  with assms(2) show ?thesis by (blast intro: slots_same)
next
  case False
  from acc False obtain i b slot where "fifo_push (new_rob_entry i p b) (tx_rob t) = Some (slot, tx_rob t')"
    "tx_extra t' = (tx_extra t)(p \<mapsto> slot)"
    by (auto simp: tex_access_def tex_miss_def Let_def bind_eq_Some_conv assert_c_bind_eq_Some split: if_splits)
  with slots_push [OF assms(2)] assms(1,3) show ?thesis by (auto simp: tex_inv_def new_rob_entry_def)
qed

lemma tex_heap_inv:
  assumes inv: "tex_inv t" and h: "\<And>p mf. p \<in> fr_request ` set (fragments t) \<union> set (unsent t) \<Longrightarrow> tx_heap t p = Some mf \<Longrightarrow>
      \<exists>mf'. h p = Some mf' \<and> mf_addr mf' = mf_addr mf"
  shows "tex_inv (t\<lparr>tx_heap := h\<rparr>)"
proof -
  let ?g = "block_of (t\<lparr>tx_heap := h\<rparr>)"
  have g: "block_of t (fr_request e) = ?g (fr_request e)" if "e \<in> set (fragments t)" for e
    using h [of "fr_request e"] that inv by (fastforce simp: tex_inv_def block_of_def)
  have dom: "h (fr_request e) \<noteq> None" if "e \<in> set (fragments t)" for e
    using h [of "fr_request e"] that inv by (fastforce simp: tex_inv_def)
  have dom2: "h p \<noteq> None" if "p \<in> set (unsent t)" for p
    using h [of p] that inv by (fastforce simp: tex_inv_def)
  have "list_all2 (rob_matches ?g) (filter fr_miss (fragments t)) (pending t)"
  proof -
    have "list_all2 (rob_matches (block_of t)) (filter fr_miss (fragments t)) (pending t)"
      using inv by (simp add: tex_inv_def)
    then show ?thesis
      by (rule list.rel_mono_strong) (auto simp: rob_matches_def g)
  qed
  moreover have "justified ?g (fragments t) (tx_cache t)" "replay ?g (fragments t) (tx_cache t) = replay (block_of t) (fragments t) (tx_cache t)"
  proof -
    have "justified (block_of t) (fragments t) (tx_cache t) = justified ?g (fragments t) (tx_cache t)"
      by (rule justified_cong) (rule g)
    with inv show "justified ?g (fragments t) (tx_cache t)" by (simp add: tex_inv_def)
    show "replay ?g (fragments t) (tx_cache t) = replay (block_of t) (fragments t) (tx_cache t)"
      by (rule replay_cong) (rule g [symmetric])
  qed
  ultimately show ?thesis using inv dom dom2 by (simp add: tex_inv_def)
qed

lemma tex_events_inv: "tex_inv (t\<lparr>tx_events := es\<rparr>) = tex_inv t" "slots_inv (t\<lparr>tx_events := es\<rparr>) = slots_inv t"
  by (simp_all add: tex_inv_def slots_inv_def)

lemma slots_mark:
  assumes "slots_inv t" and "tx_extra t' = tx_extra t" and "fifo_slot (tx_rob t') = fifo_slot (tx_rob t)"
    and "length (pending t') = length (pending t)"
    and "\<And>k. k < length (pending t) \<Longrightarrow> rob_request (pending t' ! k) = rob_request (pending t ! k)"
  shows "slots_inv t'"
proof -
  have "map rob_request (pending t') = map rob_request (pending t)"
    using assms(4,5) by (intro nth_equalityI) auto
  with assms show ?thesis by (simp add: slots_inv_def del: length_contents)
qed

lemma run_inv_step:
  assumes "tex_step s s'" and "run_inv s"
  shows "run_inv s'"
  using assms
proof (induction rule: tex_step.induct)
  case (access t p mf time s t' acc ret)
  then have inv: "tex_inv (t\<lparr>tx_events := []\<rparr>)" "slots_inv (t\<lparr>tx_events := []\<rparr>)" "tex_inv t"
    by (simp_all add: tex_events_inv)
  have "slots_inv t'" by (rule tex_access_slots [OF inv(1,2) _ access(3)]) (use access(2) in simp)
  with tex_access_cases [OF inv(1) _ access(3)] access(1,4) inv show ?case by (auto simp: tex_events_inv)
next
  case (cycle full t r t' acc ret)
  then have inv: "tex_inv t" "slots_inv t" "fifo_wf (tx_rob t)" by (auto simp: tex_inv_def)
  from tex_cycle_ok [OF inv(1), of full] cycle(1) have t': "tex_inv t'" "tx_extra t' = tx_extra t"
    "if ready_head t then \<exists>e. fragments t = e # fragments t' \<and> results t' = results t @ [fr_request e]
        \<and> (if fr_miss e then \<exists>r. fifo_pop (tx_rob t) = Some (r, tx_rob t') else tx_rob t' = tx_rob t)
      else fragments t' = fragments t \<and> results t' = results t \<and> tx_rob t' = tx_rob t" by auto
  have "slots_inv t'"
    using t'(3) slots_pop [OF inv(2,3) _ t'(2)] slots_same [OF inv(2) _ t'(2)] by (auto split: if_splits)
  with t' cycle(2) show ?case by (auto split: if_splits)
next
  case (fill p time t t' acc ret)
  then have inv: "tex_inv t" "slots_inv t" by auto
  note f = tex_fill_effect [OF inv(1) fill(1)]
  then have "slots_inv t'" by (intro slots_mark [OF inv(2)]) (auto simp del: length_contents)
  with f fill(2) show ?case by auto
next
  case (result t p t' acc ret)
  then have inv: "tex_inv t" "slots_inv t" by auto
  then have wf: "fifo_wf (tx_result_fifo t)" by (simp add: tex_inv_def)
  from result(1) obtain rf where "fifo_pop (tx_result_fifo t) = Some (p, rf)"
    by (auto simp: tex_next_access_def bind_eq_Some_conv)
  from rb.pop_Some [OF wf this] have c: "results t = p # fifo_contents rf" by simp
  from tex_next_ok [OF inv(1) c] result(1) have t': "tex_inv t'" "results t = p # results t'" "fragments t' = fragments t"
    "tx_rob t' = tx_rob t" "tx_extra t' = tx_extra t" using c by auto
  with result(2) slots_same [OF inv(2) t'(4,5)] show ?case by auto
next
  case (requests t h acc ret)
  then have "tex_inv (t\<lparr>tx_heap := h\<rparr>)" by (intro tex_heap_inv) auto
  with requests(2) show ?case by (simp add: slots_inv_def)
qed

lemma run_inv_reach: "tex_reach s s' \<Longrightarrow> run_inv s \<Longrightarrow> run_inv s'"
  by (induction rule: tex_reach.induct) (auto intro: run_inv_step)

lemma new_tex_inv:
  assumes "cfg_ok cfg" and "new_tex_cache fe re p a cfg rs ss h = Some t"
  shows "run_inv (t, [], [])"
proof -
  from assms(2) have t: "m_alloc_policy cfg = ON_MISS" "t = \<lparr>tx_cfg = cfg, tx_tags = new_tag_array cfg,
       tx_fragment_fifo = new_fifo fe (m_mshr_entries cfg), tx_request_fifo = new_fifo p (m_mshr_max_merge cfg),
       tx_rob = new_fifo re (m_miss_queue_size cfg),
       tx_cache = replicate (get_num_lines cfg) \<lparr>blk_valid = False, blk_block_addr = a\<rparr>,
       tx_result_fifo = new_fifo p (m_result_fifo_entries cfg), tx_request_queue_status = rs, tx_rob_status = ss,
       tx_extra = (\<lambda>_. None), tx_stats = new_stats, tx_events = [], tx_heap = h\<rparr>"
    by (auto simp: new_tex_cache_def bind_eq_Some_conv assert_c_bind_eq_Some)
  have "tags_match cfg (new_tag_array cfg) (replicate (get_num_lines cfg) \<lparr>blk_valid = False, blk_block_addr = a\<rparr>)"
    by (simp add: tags_match_def new_tag_array_def empty_block_def)
  with t assms(1) show ?thesis
    by (simp add: tex_inv_def slots_inv_def new_fifo_wf new_tag_array_inv del: length_contents)
qed

section \<open>Draining\<close>

text \<open>The unit clocks the cache and takes a result when one is ready, \<open>n\<close> times.\<close>

primrec tex_drain :: "(u32 \<Rightarrow> bool \<Rightarrow> bool) \<Rightarrow> nat \<Rightarrow> tex_cache \<Rightarrow> (nat list \<times> tex_cache) option" where
  "tex_drain full 0 t = Some ([], t)"
| "tex_drain full (Suc n) t = do {
     (_, t) \<leftarrow> tex_cycle full t;
     if tex_access_ready t then do {
       (p, t) \<leftarrow> tex_next_access t;
       (ps, t) \<leftarrow> tex_drain full n t;
       Some (p # ps, t) }
     else tex_drain full n t }"

text \<open>The memory returns every block the cache waits for.\<close>

definition fill_all :: "u32 \<Rightarrow> tex_cache \<Rightarrow> tex_cache option" where
  "fill_all time t = foldM (\<lambda>t p. tex_fill p time t) t
     (map rob_request (filter (\<lambda>r. \<not> rob_ready r) (pending t)))"

lemma ready_head_all:
  assumes inv: "tex_inv t" and "\<forall>r \<in> set (pending t). rob_ready r" and "0 < f_size (tx_result_fifo t)"
    and "results t = []" and "fragments t \<noteq> []"
  shows "ready_head t"
proof -
  obtain e es where c: "fragments t = e # es" using assms(5) by (cases "fragments t") auto
  have "\<not> fifo_full (tx_result_fifo t)"
    using assms(3,4) length_contents [of "tx_result_fifo t"] by (simp add: fifo_full_def)
  moreover have "\<exists>r rs. pending t = r # rs" if "fr_miss e"
    using inv c that by (auto simp: tex_inv_def list_all2_Cons1)
  ultimately show ?thesis using c assms(2) by (auto simp: ready_head_def)
qed

lemma drain_all:
  "tex_inv t \<Longrightarrow> \<forall>r \<in> set (pending t). rob_ready r \<Longrightarrow> 0 < f_size (tx_result_fifo t) \<Longrightarrow>
    n = length (results t) + length (fragments t) \<Longrightarrow>
    \<exists>t'. tex_drain full n t = Some (results t @ map fr_request (fragments t), t') \<and> tex_inv t'
      \<and> results t' = [] \<and> fragments t' = []"
proof (induction n arbitrary: t)
  case 0
  then show ?case by (simp del: length_contents)
next
  case (Suc n)
  from tex_cycle_ok [OF Suc.prems(1), of full] obtain r t1 where t1: "tex_cycle full t = Some (r, t1)" "tex_inv t1"
    "f_size (tx_result_fifo t1) = f_size (tx_result_fifo t)"
    "if ready_head t then \<exists>e. fragments t = e # fragments t1 \<and> results t1 = results t @ [fr_request e]
        \<and> (if fr_miss e then \<exists>r. fifo_pop (tx_rob t) = Some (r, tx_rob t1) else tx_rob t1 = tx_rob t)
      else fragments t1 = fragments t \<and> results t1 = results t \<and> tx_rob t1 = tx_rob t" by blast
  have rob: "fifo_wf (tx_rob t)" using Suc.prems(1) by (simp add: tex_inv_def)
  have all: "results t1 @ map fr_request (fragments t1) = results t @ map fr_request (fragments t)"
    using t1(4) by (auto split: if_splits)
  have ready: "\<forall>r \<in> set (pending t1). rob_ready r"
  proof -
    have "tx_rob t1 = tx_rob t \<or> (\<exists>r. fifo_pop (tx_rob t) = Some (r, tx_rob t1))"
      using t1(4) by (auto split: if_splits)
    then have "set (pending t1) \<subseteq> set (pending t)"
    proof
      assume "\<exists>r. fifo_pop (tx_rob t) = Some (r, tx_rob t1)"
      then obtain r where "fifo_pop (tx_rob t) = Some (r, tx_rob t1)" ..
      from rb.pop_Some [OF rob this] have "pending t = r # pending t1" by blast
      then show ?thesis by auto
    qed simp
    with Suc.prems(2) show ?thesis by blast
  qed
  have "results t1 \<noteq> []"
  proof
    assume "results t1 = []"
    then have "\<not> ready_head t" "results t = []" using t1(4) by (auto split: if_splits)
    with ready_head_all [OF Suc.prems(1,2,3)] have "results t = []" "fragments t = []" by auto
    with Suc.prems(4) show False by (simp del: length_contents)
  qed
  then obtain p ps where c: "results t1 = p # ps" by (cases "results t1") auto
  from tex_next_ok [OF t1(2) c] obtain t2 where t2: "tex_next_access t1 = Some (p, t2)" "tex_inv t2" "results t2 = ps"
    "fragments t2 = fragments t1" "tx_rob t2 = tx_rob t1" "f_size (tx_result_fifo t2) = f_size (tx_result_fifo t1)" by blast
  have "length (results t1) + length (fragments t1) = length (results t) + length (fragments t)"
    using arg_cong [OF all, of length] by (simp del: length_contents)
  then have "n = length (results t2) + length (fragments t2)"
    using Suc.prems(4) c t2(3,4) by (simp del: length_contents)
  from Suc.IH [OF t2(2) _ _ this] ready Suc.prems(3) t1(3) t2(5,6) obtain t' where
    "tex_drain full n t2 = Some (results t2 @ map fr_request (fragments t2), t')" "tex_inv t'" "results t' = []"
    "fragments t' = []" by auto
  moreover have "tex_access_ready t1" using c fifo_empty_contents [of "tx_result_fifo t1"] by (auto simp: tex_access_ready_def)
  ultimately show ?case using t1(1) t2 c all by auto
qed

lemma fill_one:
  assumes inv: "tex_inv t" "slots_inv t" and c: "pending t = xs @ r # ys" and r: "\<not> rob_ready r"
  shows "\<exists>t'. tex_fill (rob_request r) time t = Some t' \<and> tex_inv t' \<and> slots_inv t' \<and> fragments t' = fragments t
    \<and> tx_result_fifo t' = tx_result_fifo t
    \<and> pending t' = xs @ r\<lparr>rob_ready := True, rob_time := time\<rparr> # ys"
proof -
  let ?k = "length xs" and ?slot = "fifo_slot (tx_rob t) (length xs)"
  have wf: "fifo_wf (tx_rob t)" using inv(1) by (simp add: tex_inv_def)
  have k: "?k < length (pending t)" "pending t ! ?k = r" using c by (simp_all del: length_contents)
  then have x: "tx_extra t (rob_request r) = Some ?slot" using inv(2) by (auto simp: slots_inv_def simp del: length_contents)
  have less: "?slot < f_size (tx_rob t)" using k(1) wf by (intro fifo_slot_less) auto
  have at: "fifo_peek_at ?slot (tx_rob t) = Some r"
    using less k wf fifo_contents_nth [of ?k "tx_rob t"] by (simp add: fifo_peek_at_def fifo_wf_def)
  have "r \<in> set (pending t)" using c by simp
  then obtain e where e: "e \<in> set (fragments t)" "rob_matches (block_of t) e r"
  proof -
    have "list_all2 (rob_matches (block_of t)) (filter fr_miss (fragments t)) (pending t)"
      using inv(1) by (simp add: tex_inv_def)
    then obtain j where "j < length (filter fr_miss (fragments t))" "rob_matches (block_of t) (filter fr_miss (fragments t) ! j) r"
      using \<open>r \<in> set (pending t)\<close> by (metis in_set_conv_nth list_all2_conv_all_nth)
    then show ?thesis using nth_mem that [of "filter fr_miss (fragments t) ! j"] by fastforce
  qed
  obtain mf where mf: "tx_heap t (rob_request r) = Some mf" using e inv(1) by (auto simp: tex_inv_def rob_matches_def)
  have "rob_block_addr r = block_addr (tx_cfg t) (mf_addr mf)"
    using e(2) mf by (simp add: rob_matches_def block_of_Some)
  moreover have "\<not> fifo_empty (tx_rob t)" using c fifo_empty_contents [of "tx_rob t"] by auto
  ultimately obtain t' where fill: "tex_fill (rob_request r) time t = Some t'"
    using x mf at r by (auto simp: tex_fill_def fifo_update_def)
  note f = tex_fill_effect [OF inv(1) fill]
  have nth: "pending t' ! j = (if j = ?k then (pending t ! j)\<lparr>rob_ready := True, rob_time := time\<rparr> else pending t ! j)"
    if "j < length (pending t)" for j
    using f x fifo_slot_inj [OF wf, of j ?k] k(1) that by auto
  then have "pending t' = (pending t)[?k := r\<lparr>rob_ready := True, rob_time := time\<rparr>]"
    using f k(2) by (intro nth_equalityI) (auto simp del: length_contents)
  then have "pending t' = xs @ r\<lparr>rob_ready := True, rob_time := time\<rparr> # ys" by (simp add: c)
  moreover have "slots_inv t'" using f by (intro slots_mark [OF inv(2)]) (auto simp del: length_contents)
  ultimately show ?thesis using fill f by auto
qed

lemma fill_all_ok:
  assumes "tex_inv t" "slots_inv t"
  shows "\<exists>t'. fill_all time t = Some t' \<and> tex_inv t' \<and> fragments t' = fragments t
    \<and> tx_result_fifo t' = tx_result_fifo t \<and> (\<forall>r \<in> set (pending t'). rob_ready r)"
proof -
  have "\<exists>t'. foldM (\<lambda>t p. tex_fill p time t) t (map rob_request rs) = Some t' \<and> tex_inv t' \<and> fragments t' = fragments t
    \<and> tx_result_fifo t' = tx_result_fifo t \<and> (\<forall>r \<in> set (pending t'). rob_ready r)"
    if "tex_inv t" "slots_inv t" "rs = filter (\<lambda>r. \<not> rob_ready r) (pending t)" for rs and t :: tex_cache
    using that
  proof (induction rs arbitrary: t)
    case Nil
    from Nil(3) [symmetric] have "\<forall>r \<in> set (pending t). rob_ready r" by (simp add: filter_empty_conv)
    with Nil show ?case by simp
  next
    case (Cons r rs)
    from Cons.prems(3) [symmetric] obtain xs ys where c: "pending t = xs @ r # ys" "\<forall>x \<in> set xs. rob_ready x"
      "\<not> rob_ready r" "rs = filter (\<lambda>r. \<not> rob_ready r) ys"
      by (auto simp: filter_eq_Cons_iff)
    from fill_one [OF Cons.prems(1,2) c(1,3)] obtain t1 where t1: "tex_fill (rob_request r) time t = Some t1" "tex_inv t1"
      "slots_inv t1" "fragments t1 = fragments t" "tx_result_fifo t1 = tx_result_fifo t"
      "pending t1 = xs @ r\<lparr>rob_ready := True, rob_time := time\<rparr> # ys" by blast
    have "rs = filter (\<lambda>r. \<not> rob_ready r) (pending t1)" using c(2,4) by (simp add: t1(6))
    from Cons.IH [OF t1(2,3) this] t1 show ?case by auto
  qed
  from this [OF assms refl] show ?thesis by (simp add: fill_all_def)
qed

lemma drain_filled:
  assumes "tex_inv t" "slots_inv t" and "0 < f_size (tx_result_fifo t)"
  shows "\<exists>t1 t2. fill_all time t = Some t1
    \<and> tex_drain full (length (results t) + length (fragments t)) t1 = Some (results t @ map fr_request (fragments t), t2)
    \<and> results t2 = [] \<and> fragments t2 = []"
proof -
  from fill_all_ok [OF assms(1,2), of time] obtain t1 where t1: "fill_all time t = Some t1" "tex_inv t1"
    "fragments t1 = fragments t" "tx_result_fifo t1 = tx_result_fifo t" "\<forall>r \<in> set (pending t1). rob_ready r" by blast
  from drain_all [OF t1(2,5) _ refl, of full] assms(3) t1(1,3,4) show ?thesis by auto
qed

section \<open>Properties\<close>

text \<open>C6. Results leave the texture cache in the order the requests were accepted, whatever order the memory
  returns their blocks in, and none is lost or made up: the accepted requests are the results taken, then
  those waiting to be taken, then the queued fragments.
\<close>

theorem texture_results_in_order:
  assumes "cfg_ok cfg" and "new_tex_cache fe re p a cfg rs ss h = Some t0"
    and "tex_reach (t0, [], []) (t, acc, ret)"
  shows "acc = ret @ results t @ map fr_request (fragments t)"
  using run_inv_reach [OF assms(3) new_tex_inv [OF assms(1,2)]] by simp

text \<open>C38. No assertion of \<open>cycle\<close> fails in any run: the head of the reorder buffer is the entry of the oldest
  queued miss, a queued hit finds its block in the data array, and a result is moved only into a free slot.
\<close>

theorem texture_cycle_never_fails:
  assumes "cfg_ok cfg" and "new_tex_cache fe re p a cfg rs ss h = Some t0"
    and "tex_reach (t0, [], []) (t, acc, ret)"
  shows "\<exists>pushed t'. tex_cycle full t = Some (pushed, t')"
  using run_inv_reach [OF assms(3) new_tex_inv [OF assms(1,2)]] tex_cycle_ok [of t full] by auto

text \<open>C9. The texture cache does not deadlock: from any state of a run in which results have at least one slot,
  once the memory has returned the blocks waited for, clocking it as often as there are queued fragments and
  results delivers all of them, in order.
\<close>

theorem texture_cache_drains:
  assumes "cfg_ok cfg" and "new_tex_cache fe re p a cfg rs ss h = Some t0"
    and "tex_reach (t0, [], []) (t, acc, ret)" and "0 < f_size (tx_result_fifo t)"
  shows "\<exists>t1 t2 out. fill_all time t = Some t1
    \<and> tex_drain full (length (results t) + length (fragments t)) t1 = Some (out, t2)
    \<and> ret @ out = acc \<and> results t2 = [] \<and> fragments t2 = []"
  using run_inv_reach [OF assms(3) new_tex_inv [OF assms(1,2)]] drain_filled [of t time full] assms(4) by auto

section \<open>A run\<close>

text \<open>The index handed to \<open>tags.access\<close> is read only when every way is reserved, which is asserted not to
  happen, so a run may be computed with another one.\<close>

lemma ta_access_idx:
  "(ta_access cfg b time idx ta \<bind> (\<lambda>(st, i, ta). assert_c (st \<noteq> RESERVATION_FAIL) \<bind> (\<lambda>_. f st i ta)))
    = (ta_access cfg b time 0 ta \<bind> (\<lambda>(st, i, ta). assert_c (st \<noteq> RESERVATION_FAIL) \<bind> (\<lambda>_. f st i ta)))"
proof -
  have p: "ta_probe cfg ta' b idx = ta_probe cfg ta' b 0 \<or>
      (\<exists>j. ta_probe cfg ta' b idx = Some (RESERVATION_FAIL, j)) \<and> (\<exists>j. ta_probe cfg ta' b 0 = Some (RESERVATION_FAIL, j))"
    for ta'
    by (auto simp: ta_probe_def split: option.splits sum.splits if_splits) (auto simp: bind_eq_None_conv Option.bind_eq_Some_conv assert_c_def split: option.splits sum.splits if_splits bind_splits)
  show ?thesis
    using p [of "ta\<lparr>m_access := m_access ta + 1\<rparr>"]
    by (auto simp: ta_access_def ta_access_wb_def Let_def)
qed

lemma tex_access_code [code]:
  "tex_access addr p time t =
     (if fifo_full (tx_fragment_fifo t) \<or> fifo_full (tx_request_fifo t) \<or> fifo_full (tx_rob t)
      then Some (RESERVATION_FAIL, t)
      else do {
        mf \<leftarrow> tx_heap t p;
        _ \<leftarrow> assert_c (mf_data_size mf \<le> m_line_sz (tx_cfg t));
        let baddr = block_addr (tx_cfg t) addr;
        (status, cache_index, ta) \<leftarrow> ta_access (tx_cfg t) baddr time 0 (tx_tags t);
        _ \<leftarrow> assert_c (status \<noteq> RESERVATION_FAIL);
        _ \<leftarrow> assert_c (status \<noteq> HIT_RESERVED);
        (_, ff) \<leftarrow> fifo_push \<lparr>fr_request = p, fr_cache_index = cache_index, fr_miss = (status = MISS),
          fr_data_size = mf_data_size mf\<rparr> (tx_fragment_fifo t);
        let t = t\<lparr>tx_tags := ta, tx_fragment_fifo := ff\<rparr>;
        t \<leftarrow> (if status = MISS then tex_miss p cache_index baddr time t else Some t);
        let cache_status = (if status = MISS then MISS else HIT_RESERVED);
        st \<leftarrow> inc_stats (int (type_index (mf_access_type mf)))
          (int (status_index (select_stats_status status cache_status))) (tx_stats t);
        Some (cache_status, t\<lparr>tx_stats := st\<rparr>) })"
  unfolding tex_access_def by (subst ta_access_idx) (rule refl)

definition tex_cfg :: cache_config where
  "tex_cfg = sample_cfg\<lparr>m_mshr_type := TEX_FIFO, m_write_policy := READ_ONLY, m_mshr_max_merge := 4,
     m_result_fifo_entries := 2\<rparr>"

definition tex_request :: "u64 \<Rightarrow> mem_fetch" where
  "tex_request addr = \<lparr>mf_addr = addr, mf_data_size = 32, mf_ctrl_size = 8, mf_is_write = False,
     mf_access_type = TEXTURE_ACC_R, mf_isatomic = False, mf_wid = 0, mf_sid = 0, mf_tpc = 0,
     mf_status = MEM_FETCH_INITIALIZED, mf_status_change = 0\<rparr>"

definition tex_heap :: "nat \<Rightarrow> mem_fetch option" where
  "tex_heap p = (if p < 2 then Some (tex_request 0x1000) else if p = 2 then Some (tex_request 0x2000) else None)"

definition tex0 :: tex_cache where
  "tex0 = \<lparr>tx_cfg = tex_cfg, tx_tags = new_tag_array tex_cfg,
     tx_fragment_fifo = new_fifo \<lparr>fr_request = 0, fr_cache_index = 0, fr_miss = False, fr_data_size = 0\<rparr> 4,
     tx_request_fifo = new_fifo 0 4, tx_rob = new_fifo (new_rob_entry 0 0 0) 4,
     tx_cache = replicate 4 \<lparr>blk_valid = False, blk_block_addr = 0\<rparr>, tx_result_fifo = new_fifo 0 2,
     tx_request_queue_status = IN_L1T_MISS_QUEUE, tx_rob_status = IN_SHADER_L1T_ROB, tx_extra = (\<lambda>_. None),
     tx_stats = new_stats, tx_events = [], tx_heap = tex_heap\<rparr>"

definition tex1 :: tex_cache where
  "tex1 = snd (the (tex_access 0x1000 0 5 (tex0\<lparr>tx_events := []\<rparr>)))"

definition tex2 :: tex_cache where
  "tex2 = snd (the (tex_access 0x1000 1 6 (tex1\<lparr>tx_events := []\<rparr>)))"

definition tex3 :: tex_cache where
  "tex3 = snd (the (tex_access 0x2000 2 7 (tex2\<lparr>tx_events := []\<rparr>)))"

lemma tex_cfg_ok: "cfg_ok tex_cfg"
  by (simp add: cfg_ok_def sample_cfg_def tex_cfg_def)

lemma tex0_new: "new_tex_cache \<lparr>fr_request = 0, fr_cache_index = 0, fr_miss = False, fr_data_size = 0\<rparr>
     (new_rob_entry 0 0 0) 0 0 tex_cfg IN_L1T_MISS_QUEUE IN_SHADER_L1T_ROB tex_heap = Some tex0"
  by (simp add: tex0_def new_tex_cache_def tex_cfg_def sample_cfg_def get_num_lines_def)

lemma tex1_access: "map_option fst (tex_access 0x1000 0 5 (tex0\<lparr>tx_events := []\<rparr>)) = Some MISS"
  by code_simp

lemma tex2_access: "map_option fst (tex_access 0x1000 1 6 (tex1\<lparr>tx_events := []\<rparr>)) = Some HIT_RESERVED"
  by code_simp

lemma tex3_access: "map_option fst (tex_access 0x2000 2 7 (tex2\<lparr>tx_events := []\<rparr>)) = Some MISS"
  by code_simp

lemma tex_states:
  "map rob_request (pending tex1) = [0]" "map rob_request (pending tex2) = [0]" "map fr_request (fragments tex3) = [0, 1, 2]"
  "results tex3 = []" "f_size (tx_result_fifo tex3) = 2"
  "map_option mf_addr (tx_heap tex0 0) = Some 0x1000" "map_option mf_addr (tx_heap tex1 1) = Some 0x1000"
  "map_option mf_addr (tx_heap tex2 2) = Some 0x2000" "pending tex0 = []"
  by code_simp+

lemma tex_run: "tex_reach (tex0, [], []) (tex3, [0, 1, 2], [])"
proof -
  have eq: "x = Some (s, snd (the x))" if "map_option fst x = Some s" for s and x :: "(cache_request_status \<times> tex_cache) option"
    using that by (cases x) auto
  obtain m0 m1 m2 where m: "tx_heap tex0 0 = Some m0" "mf_addr m0 = 0x1000" "tx_heap tex1 1 = Some m1" "mf_addr m1 = 0x1000"
    "tx_heap tex2 2 = Some m2" "mf_addr m2 = 0x2000"
    using tex_states(6-8) by auto
  have notin: "1 \<notin> rob_request ` set (pending tex1)" "2 \<notin> rob_request ` set (pending tex2)"
    using arg_cong [OF tex_states(1), of set] arg_cong [OF tex_states(2), of set] by auto
  have "tex_step (tex0, [], []) (tex1, [0], [])"
    using tex_step.access [OF m(1), where acc = "[]" and ret = "[]"] eq [OF tex1_access] tex_states(9) m(2)
    by (fastforce simp: tex1_def)
  moreover have "tex_step (tex1, [0], []) (tex2, [0, 1], [])"
    using tex_step.access [OF m(3) notin(1), where acc = "[0]" and ret = "[]"] eq [OF tex2_access] m(4)
    by (fastforce simp: tex2_def)
  moreover have "tex_step (tex2, [0, 1], []) (tex3, [0, 1, 2], [])"
    using tex_step.access [OF m(5) notin(2), where acc = "[0, 1]" and ret = "[]"] eq [OF tex3_access] m(6)
    by (fastforce simp: tex3_def)
  ultimately show ?thesis by (blast intro: tex_reach.intros)
qed

theorem texture_results_in_order_witness: "map fr_request (fragments tex3) = [0, 1, 2]"
  using texture_results_in_order [OF tex_cfg_ok tex0_new tex_run] tex_states(4) by simp

theorem texture_cycle_never_fails_witness: "\<exists>pushed t'. tex_cycle (\<lambda>_ _. False) tex3 = Some (pushed, t')"
  by (rule texture_cycle_never_fails [OF tex_cfg_ok tex0_new tex_run])

theorem texture_cache_drains_witness:
  "\<exists>t1 t2. fill_all 9 tex3 = Some t1 \<and> tex_drain (\<lambda>_ _. False) 3 t1 = Some ([0, 1, 2], t2)"
proof -
  have "length (results tex3) + length (fragments tex3) = 3"
    using arg_cong [OF tex_states(3), of length] tex_states(4) by (simp del: length_contents)
  moreover have "0 < f_size (tx_result_fifo tex3)" by (simp add: tex_states)
  ultimately show ?thesis
    using texture_cache_drains [OF tex_cfg_ok tex0_new tex_run, of 9 "\<lambda>_ _. False"] by auto
qed

end
