(* ===== verification/Ptx_Memory.thy ===== *)
theory Ptx_Memory
  imports Hardware_Model
begin

text \<open>
  The byte addressed memories of the functional simulator, \<open>memory_space_impl\<close> of \<open>cuda-sim/memory.cc\<close>
  and \<open>memory.h\<close>: a hash map of blocks that come into being, zeroed, when they are first written. Addresses
  are 32 bit words, a buffer is the list of its bytes. A loop that might not end is a partial function,
  \<open>None\<close> where it does not return or where the code throws.
\<close>

section \<open>State\<close>

record mem_space =
  ms_log2_block_size :: nat
  ms_BSIZE :: u32
  ms_data :: "u32 \<Rightarrow> u8 list option"
  ms_watchpoints :: "(nat \<times> u32) list"

text \<open>The constructor asserts that exactly one bit of \<open>BSIZE\<close> is set.\<close>

definition log2_step :: "u32 \<Rightarrow> nat option \<Rightarrow> nat \<Rightarrow> nat option option" where
  "log2_step bsize r n =
     (if bsize AND push_bit n 1 \<noteq> 0 then do { _ \<leftarrow> assert_c (r = None); Some (Some n) } else Some r)"

definition new_mem_space :: "u32 \<Rightarrow> mem_space option" where
  "new_mem_space bsize = do {
     r \<leftarrow> foldM (log2_step bsize) None [0..<32];
     k \<leftarrow> r;
     Some \<lparr>ms_log2_block_size = k, ms_BSIZE = bsize, ms_data = (\<lambda>_. None), ms_watchpoints = []\<rparr> }"

section \<open>Blocks\<close>

text \<open>\<open>mem_storage\<close>: a block of \<open>BSIZE\<close> bytes, zeroed when it is made.\<close>

definition storage_write :: "u32 \<Rightarrow> u32 \<Rightarrow> u8 list \<Rightarrow> u8 list \<Rightarrow> u8 list option" where
  "storage_write bsize offset bytes b = do {
     _ \<leftarrow> assert_c (unat offset + length bytes \<le> unat bsize);
     Some (take (unat offset) b @ bytes @ drop (unat offset + length bytes) b) }"

definition storage_read :: "u32 \<Rightarrow> u32 \<Rightarrow> nat \<Rightarrow> u8 list \<Rightarrow> u8 list option" where
  "storage_read bsize offset len b = do {
     _ \<leftarrow> assert_c (unat offset + len \<le> unat bsize);
     Some (take len (drop (unat offset) b)) }"

text \<open>\<open>m_data[page].write(...)\<close> makes the block if there is none.\<close>

definition page_write :: "u32 \<Rightarrow> u32 \<Rightarrow> u8 list \<Rightarrow> mem_space \<Rightarrow> mem_space option" where
  "page_write page offset bytes m = do {
     b \<leftarrow> storage_write (ms_BSIZE m) offset bytes
       (case ms_data m page of None \<Rightarrow> replicate (unat (ms_BSIZE m)) 0 | Some b \<Rightarrow> b);
     Some (m\<lparr>ms_data := (ms_data m)(page \<mapsto> b)\<rparr>) }"

definition read_single_block :: "u32 \<Rightarrow> u32 \<Rightarrow> nat \<Rightarrow> mem_space \<Rightarrow> u8 list option" where
  "read_single_block blk_idx addr len m =
     (if unat addr + len > unat ((blk_idx + 1) * ms_BSIZE m) then None
      else case ms_data m blk_idx of
        None \<Rightarrow> Some (replicate len 0)
      | Some b \<Rightarrow> storage_read (ms_BSIZE m) (addr AND (ms_BSIZE m - 1)) len b)"

section \<open>Write and read\<close>

text \<open>How many bytes of the rest of an access lie in the block of the current address.\<close>

definition tx_bytes :: "mem_space \<Rightarrow> u32 \<Rightarrow> u32 \<Rightarrow> u32" where
  "tx_bytes m current_addr nbytes_remain =
     (let offset = current_addr AND (ms_BSIZE m - 1);
          access_limit = offset + nbytes_remain;
          access_limit = (if access_limit > ms_BSIZE m then ms_BSIZE m else access_limit)
      in access_limit - offset)"

partial_function (option) write_loop :: "u32 \<Rightarrow> u32 \<Rightarrow> u8 list \<Rightarrow> mem_space \<Rightarrow> mem_space option" where
  "write_loop current_addr nbytes_remain bytes m =
     (if nbytes_remain > 0 then do {
        let tx = tx_bytes m current_addr nbytes_remain;
        m \<leftarrow> page_write (drop_bit (ms_log2_block_size m) current_addr) (current_addr AND (ms_BSIZE m - 1))
          (take (unat tx) bytes) m;
        write_loop (current_addr + tx) (nbytes_remain - tx) (drop (unat tx) bytes) m }
      else Some m)"

partial_function (option) read_loop :: "u32 \<Rightarrow> u32 \<Rightarrow> mem_space \<Rightarrow> u8 list option" where
  "read_loop current_addr nbytes_remain m =
     (if nbytes_remain > 0 then do {
        let tx = tx_bytes m current_addr nbytes_remain;
        bytes \<leftarrow> read_single_block (drop_bit (ms_log2_block_size m) current_addr) current_addr (unat tx) m;
        rest \<leftarrow> read_loop (current_addr + tx) (nbytes_remain - tx) m;
        Some (bytes @ rest) }
      else Some [])"

text \<open>The watchpoints an access hits; telling the debugger is left out.\<close>

definition watch_hits :: "u32 \<Rightarrow> nat \<Rightarrow> mem_space \<Rightarrow> nat list" where
  "watch_hits addr len m = map fst (filter (\<lambda>(_, wa).
     addr \<le> wa \<and> unat addr + len > unat wa \<or> addr > wa \<and> addr < wa + 4) (ms_watchpoints m))"

definition mem_write :: "u32 \<Rightarrow> u8 list \<Rightarrow> mem_space \<Rightarrow> (nat list \<times> mem_space) option" where
  "mem_write addr bytes m = do {
     let index = drop_bit (ms_log2_block_size m) addr;
     m \<leftarrow> (if unat addr + length bytes \<le> unat ((index + 1) * ms_BSIZE m)
           then page_write index (addr AND (ms_BSIZE m - 1)) bytes m
           else write_loop addr (of_nat (length bytes)) bytes m);
     Some (watch_hits addr (length bytes) m, m) }"

definition mem_read :: "u32 \<Rightarrow> nat \<Rightarrow> mem_space \<Rightarrow> u8 list option" where
  "mem_read addr len m = do {
     let index = drop_bit (ms_log2_block_size m) addr;
     if unat addr + len \<le> unat ((index + 1) * ms_BSIZE m)
     then read_single_block index addr len m
     else read_loop addr (of_nat len) m }"

definition set_watch :: "u32 \<Rightarrow> nat \<Rightarrow> mem_space \<Rightarrow> mem_space" where
  "set_watch addr watchpoint m = m\<lparr>ms_watchpoints := omap_put watchpoint addr (ms_watchpoints m)\<rparr>"

section \<open>The memory as a function of the address\<close>

definition mem_wf :: "mem_space \<Rightarrow> bool" where
  "mem_wf m \<longleftrightarrow> ms_log2_block_size m < 32 \<and> ms_BSIZE m = push_bit (ms_log2_block_size m) 1
     \<and> (\<forall>p b. ms_data m p = Some b \<longrightarrow> length b = 2 ^ ms_log2_block_size m)"

text \<open>The byte at an address; what was never written is zero.\<close>

definition byte_at :: "mem_space \<Rightarrow> nat \<Rightarrow> u8" where
  "byte_at m x = (case ms_data m (of_nat (x div unat (ms_BSIZE m))) of None \<Rightarrow> 0
     | Some b \<Rightarrow> b ! (x mod unat (ms_BSIZE m)))"

lemma pow_less_32: "k < 32 \<Longrightarrow> (2::nat) ^ k \<le> 2147483648"
  using power_increasing [of k 31 "2::nat"] by simp

lemma unat_u32_pow: "k < 32 \<Longrightarrow> unat ((2 :: u32) ^ k) = 2 ^ k"
proof -
  assume "k < 32"
  then have "(2::nat) ^ k < 2 ^ 32" by (intro power_strict_increasing) auto
  moreover have "(2 :: u32) ^ k = of_nat (2 ^ k)" by simp
  ultimately show ?thesis by (simp only: u32_unat_of_nat)
qed

lemma wf_BSIZE: "mem_wf m \<Longrightarrow> unat (ms_BSIZE m) = 2 ^ ms_log2_block_size m"
  by (auto simp: mem_wf_def unat_u32_pow)

lemma wf_BSIZE_pos: "mem_wf m \<Longrightarrow> 0 < unat (ms_BSIZE m)" "mem_wf m \<Longrightarrow> unat (ms_BSIZE m) \<le> 2147483648"
  using pow_less_32 [of "ms_log2_block_size m"] by (auto simp: mem_wf_def unat_u32_pow)

lemma wf_BSIZE_dvd:
  assumes "mem_wf m" shows "unat (ms_BSIZE m) dvd 2 ^ 32"
proof -
  have "ms_log2_block_size m \<le> 32" using assms by (simp add: mem_wf_def)
  then show ?thesis unfolding wf_BSIZE [OF assms] by (rule le_imp_power_dvd)
qed

lemma unat_page: "mem_wf m \<Longrightarrow> unat (drop_bit (ms_log2_block_size m) (a :: u32)) = unat a div unat (ms_BSIZE m)"
  by (simp only: wf_BSIZE unat_drop_bit_eq flip: drop_bit_eq_div)

lemma unat_offset: "mem_wf m \<Longrightarrow> unat (a AND (ms_BSIZE m - 1)) = unat a mod unat (ms_BSIZE m)"
proof -
  assume wf: "mem_wf m"
  then have "ms_BSIZE m - 1 = mask (ms_log2_block_size m)"
    by (simp add: mem_wf_def mask_eq_exp_minus_1 push_bit_eq_mult)
  then have "a AND (ms_BSIZE m - 1) = take_bit (ms_log2_block_size m) a" by (simp add: take_bit_eq_mask)
  then show ?thesis by (simp only: wf_BSIZE [OF wf] unsigned_take_bit_eq flip: take_bit_eq_mod)
qed

lemma page_of_nat:
  "mem_wf m \<Longrightarrow> x < 2 ^ 32 \<Longrightarrow> (of_nat (x div unat (ms_BSIZE m)) :: u32) = p \<longleftrightarrow> x div unat (ms_BSIZE m) = unat p"
  by (metis div_le_dividend le_less_trans u32_unat_of_nat word_of_nat_eq_iff unat_eq_nat_uint unsigned_word_eqI)

lemma byte_at_cong:
  "ms_BSIZE m' = ms_BSIZE m \<Longrightarrow>
    ms_data m' (of_nat (x div unat (ms_BSIZE m))) = ms_data m (of_nat (x div unat (ms_BSIZE m))) \<Longrightarrow>
    byte_at m' x = byte_at m x"
  by (simp add: byte_at_def split: option.split)

lemma page_write_ok:
  assumes wf: "mem_wf m" and fits: "unat a mod unat (ms_BSIZE m) + length bytes \<le> unat (ms_BSIZE m)"
  shows "\<exists>m'. page_write (drop_bit (ms_log2_block_size m) a) (a AND (ms_BSIZE m - 1)) bytes m = Some m' \<and> mem_wf m'
    \<and> ms_log2_block_size m' = ms_log2_block_size m \<and> ms_BSIZE m' = ms_BSIZE m \<and> ms_watchpoints m' = ms_watchpoints m
    \<and> (\<forall>x < 2 ^ 32. byte_at m' x = (if unat a \<le> x \<and> x < unat a + length bytes then bytes ! (x - unat a) else byte_at m x))"
proof -
  let ?bs = "unat (ms_BSIZE m)" and ?p = "drop_bit (ms_log2_block_size m) a" and ?o = "unat a mod unat (ms_BSIZE m)"
  let ?b = "case ms_data m ?p of None \<Rightarrow> replicate ?bs 0 | Some b \<Rightarrow> b"
  let ?b' = "take ?o ?b @ bytes @ drop (?o + length bytes) ?b"
  let ?m = "m\<lparr>ms_data := (ms_data m)(?p \<mapsto> ?b')\<rparr>"
  have len: "length ?b = ?bs" using wf by (auto simp: mem_wf_def unat_u32_pow split: option.splits)
  have "mem_wf ?m" using wf len fits by (auto simp: mem_wf_def unat_u32_pow)
  moreover have "byte_at ?m x = (if unat a \<le> x \<and> x < unat a + length bytes then bytes ! (x - unat a) else byte_at m x)"
    if x: "x < 2 ^ 32" for x
  proof (cases "x div ?bs = unat a div ?bs")
    case True
    then have p: "(of_nat (x div ?bs) :: u32) = ?p" using page_of_nat [OF wf x, of ?p] unat_page [OF wf, of a] by simp
    have old: "byte_at m x = ?b ! (x mod ?bs)"
      using wf_BSIZE_pos [OF wf] by (simp add: byte_at_def p split: option.splits)
    have new: "byte_at ?m x = ?b' ! (x mod ?bs)" by (simp add: byte_at_def p)
    have ax: "unat a = ?bs * (unat a div ?bs) + ?o" "x = ?bs * (unat a div ?bs) + x mod ?bs"
      using True by (metis mult_div_mod_eq)+
    have o: "unat a \<le> x \<longleftrightarrow> ?o \<le> x mod ?bs" "x < unat a + length bytes \<longleftrightarrow> x mod ?bs < ?o + length bytes"
      "x - unat a = x mod ?bs - ?o"
      using ax by linarith+
    have "x mod ?bs < ?bs" using wf_BSIZE_pos [OF wf] by simp
    with len fits show ?thesis unfolding new old o by (auto simp: nth_append min_def)
  next
    case False
    then have p: "(of_nat (x div ?bs) :: u32) \<noteq> ?p" using page_of_nat [OF wf x, of ?p] unat_page [OF wf, of a] by simp
    have "\<not> (unat a \<le> x \<and> x < unat a + length bytes)"
    proof
      assume x: "unat a \<le> x \<and> x < unat a + length bytes"
      have "unat a + length bytes \<le> ?bs * (unat a div ?bs) + ?bs"
        using fits mult_div_mod_eq [of ?bs "unat a"] by linarith
      with x have "x < ?bs * (unat a div ?bs + 1)" by simp
      then have "x div ?bs \<le> unat a div ?bs" using less_mult_imp_div_less [of x "unat a div ?bs + 1" ?bs] by (simp add: mult.commute)
      moreover have "unat a div ?bs \<le> x div ?bs" using x by (intro div_le_mono) simp
      ultimately show False using False by simp
    qed
    moreover have "byte_at ?m x = byte_at m x"
      by (rule byte_at_cong) (use p in simp_all)
    ultimately show ?thesis by presburger
  qed
  moreover have "page_write ?p (a AND (ms_BSIZE m - 1)) bytes m = Some ?m"
    using fits by (simp add: page_write_def storage_write_def unat_offset [OF wf])
  ultimately show ?thesis by auto
qed

lemma tx_bytes_eq:
  assumes wf: "mem_wf m" and n: "unat n + unat (ms_BSIZE m) \<le> 2 ^ 32"
  shows "unat (tx_bytes m a n) = min (unat n) (unat (ms_BSIZE m) - unat a mod unat (ms_BSIZE m))"
proof -
  let ?o = "a AND (ms_BSIZE m - 1)"
  have o: "unat ?o = unat a mod unat (ms_BSIZE m)" by (rule unat_offset [OF wf])
  then have less: "unat ?o < unat (ms_BSIZE m)" using wf_BSIZE_pos [OF wf] by simp
  then have plus: "unat (?o + n) = unat ?o + unat n" using n by (intro unat_add_lem [THEN iffD1]) simp
  show ?thesis
  proof (cases "?o + n > ms_BSIZE m")
    case True
    then have "unat (ms_BSIZE m) < unat ?o + unat n" by (simp add: word_less_nat_alt plus)
    moreover have "unat (ms_BSIZE m - ?o) = unat (ms_BSIZE m) - unat ?o"
      using less by (intro unat_sub) (simp add: word_le_nat_alt)
    moreover have "unat (ms_BSIZE m) - unat ?o \<le> unat n" using calculation(1) by linarith
    ultimately show ?thesis using True by (simp add: tx_bytes_def Let_def o min_absorb2)
  next
    case False
    then have "unat ?o + unat n \<le> unat (ms_BSIZE m)" by (simp add: word_less_nat_alt plus not_less)
    then have "unat n \<le> unat (ms_BSIZE m) - unat ?o" by linarith
    with False show ?thesis using o by (simp add: tx_bytes_def Let_def min_absorb1)
  qed
qed

text \<open>The loop writes the bytes one after the other and ends.\<close>

lemma write_loop_ok:
  assumes "mem_wf m" and "unat a + length bytes \<le> 2 ^ 32" and "length bytes + unat (ms_BSIZE m) \<le> 2 ^ 32"
  shows "\<exists>m'. write_loop a (of_nat (length bytes)) bytes m = Some m' \<and> mem_wf m'
    \<and> ms_log2_block_size m' = ms_log2_block_size m \<and> ms_BSIZE m' = ms_BSIZE m \<and> ms_watchpoints m' = ms_watchpoints m
    \<and> (\<forall>x < 2 ^ 32. byte_at m' x = (if unat a \<le> x \<and> x < unat a + length bytes then bytes ! (x - unat a) else byte_at m x))"
  using assms
proof (induction "length bytes" arbitrary: a bytes m rule: less_induct)
  case less
  let ?bs = "unat (ms_BSIZE m)" and ?n = "length bytes"
  have pos: "0 < ?bs" "?bs \<le> 2147483648" using wf_BSIZE_pos [OF less.prems(1)] by auto
  have n: "unat (of_nat ?n :: u32) = ?n" using less.prems(3) pos by simp
  show ?case
  proof (cases "?n = 0")
    case True
    with less.prems(1) show ?thesis by (subst write_loop.simps) auto
  next
    case False
    let ?tx = "tx_bytes m a (of_nat ?n)"
    have tx: "unat ?tx = min ?n (?bs - unat a mod ?bs)"
      using tx_bytes_eq [OF less.prems(1), of "of_nat ?n" a] less.prems(3) by (simp add: n)
    have "unat a mod ?bs < ?bs" using pos by simp
    with False tx have tx_pos: "0 < unat ?tx" "unat ?tx \<le> ?n" by auto
    have "unat a mod ?bs + length (take (unat ?tx) bytes) \<le> ?bs"
    proof -
      have "length (take (unat ?tx) bytes) \<le> ?bs - unat a mod ?bs" using tx by simp
      with \<open>unat a mod ?bs < ?bs\<close> show ?thesis by linarith
    qed
    from page_write_ok [OF less.prems(1) this] obtain m1 where m1:
      "page_write (drop_bit (ms_log2_block_size m) a) (a AND (ms_BSIZE m - 1)) (take (unat ?tx) bytes) m = Some m1"
      "mem_wf m1" "ms_log2_block_size m1 = ms_log2_block_size m" "ms_BSIZE m1 = ms_BSIZE m" "ms_watchpoints m1 = ms_watchpoints m"
      "\<And>x. x < 2 ^ 32 \<Longrightarrow> byte_at m1 x = (if unat a \<le> x \<and> x < unat a + length (take (unat ?tx) bytes)
        then take (unat ?tx) bytes ! (x - unat a) else byte_at m x)" by blast
    have step: "write_loop a (of_nat ?n) bytes m = write_loop (a + ?tx) (of_nat ?n - ?tx) (drop (unat ?tx) bytes) m1"
      using False n m1(1) by (subst write_loop.simps) (simp add: word_less_nat_alt Let_def)
    have rest: "of_nat ?n - ?tx = (of_nat (length (drop (unat ?tx) bytes)) :: u32)"
      using tx_pos by (simp add: of_nat_diff)
    show ?thesis
    proof (cases "unat ?tx = ?n")
      case True
      then have "write_loop a (of_nat ?n) bytes m = Some m1"
        unfolding step rest by (subst write_loop.simps) simp
      with m1 True show ?thesis by auto
    next
      case False
      with tx_pos have lt: "unat ?tx < ?n" by simp
      then have a': "unat (a + ?tx) = unat a + unat ?tx"
        using less.prems(2) by (intro unat_add_lem [THEN iffD1]) simp
      have "length (drop (unat ?tx) bytes) < ?n" using tx_pos False by simp
      moreover have "unat (a + ?tx) + length (drop (unat ?tx) bytes) \<le> 2 ^ 32"
        "length (drop (unat ?tx) bytes) + unat (ms_BSIZE m1) \<le> 2 ^ 32"
        using less.prems(2,3) lt by (simp_all add: a' m1(4))
      ultimately obtain m2 where m2:
        "write_loop (a + ?tx) (of_nat (length (drop (unat ?tx) bytes))) (drop (unat ?tx) bytes) m1 = Some m2"
        "mem_wf m2" "ms_log2_block_size m2 = ms_log2_block_size m1" "ms_BSIZE m2 = ms_BSIZE m1" "ms_watchpoints m2 = ms_watchpoints m1"
        "\<And>x. x < 2 ^ 32 \<Longrightarrow> byte_at m2 x = (if unat (a + ?tx) \<le> x \<and> x < unat (a + ?tx) + length (drop (unat ?tx) bytes)
          then drop (unat ?tx) bytes ! (x - unat (a + ?tx)) else byte_at m1 x)"
        using less.hyps [OF _ m1(2)] by meson
      have "byte_at m2 x = (if unat a \<le> x \<and> x < unat a + ?n then bytes ! (x - unat a) else byte_at m x)"
        if x: "x < 2 ^ 32" for x
      proof (cases "unat a + unat ?tx \<le> x")
        case True
        then show ?thesis using lt by (auto simp: m2(6) [OF x] m1(6) [OF x] a')
      next
        case False
        then show ?thesis using lt by (auto simp: m2(6) [OF x] m1(6) [OF x] a')
      qed
      with m1 m2 show ?thesis unfolding step rest by auto
    qed
  qed
qed

lemma page_end: "mem_wf m \<Longrightarrow>
  unat ((drop_bit (ms_log2_block_size m) (a :: u32) + 1) * ms_BSIZE m) \<le> (unat a div unat (ms_BSIZE m) + 1) * unat (ms_BSIZE m)"
proof -
  assume wf: "mem_wf m"
  have le: "unat (x * y) \<le> unat x * unat y" "unat (x + 1) \<le> unat x + 1" for x y :: u32
    by (simp_all add: unat_word_ariths)
  let ?p = "drop_bit (ms_log2_block_size m) a"
  have "unat ((?p + 1) * ms_BSIZE m) \<le> unat (?p + 1) * unat (ms_BSIZE m)" by (rule le)
  also have "\<dots> \<le> (unat ?p + 1) * unat (ms_BSIZE m)" by (intro mult_le_mono1 le)
  finally show ?thesis by (simp only: unat_page [OF wf])
qed

lemma in_page: "a + n \<le> (a div b + 1) * b \<Longrightarrow> a mod b + n \<le> (b :: nat)"
proof -
  assume "a + n \<le> (a div b + 1) * b"
  moreover have "(a div b + 1) * b = b * (a div b) + b" by simp
  ultimately show ?thesis using mult_div_mod_eq [of b a] by linarith
qed

lemma not_last_page:
  assumes wf: "mem_wf m" and "unat a + unat (ms_BSIZE m) < 2 ^ 32"
  shows "unat a div unat (ms_BSIZE m) + 1 < 2 ^ 32 div unat (ms_BSIZE m)"
proof -
  let ?bs = "unat (ms_BSIZE m)"
  have "2 ^ 32 = ?bs * (2 ^ 32 div ?bs)" using wf_BSIZE_dvd [OF wf] by simp
  then have "unat a + ?bs < ?bs * (2 ^ 32 div ?bs)" using assms(2) by presburger
  then have "(unat a + ?bs) div ?bs < 2 ^ 32 div ?bs" by (intro less_mult_imp_div_less) (simp add: mult.commute)
  moreover have "(unat a + ?bs) div ?bs = unat a div ?bs + 1"
    using wf_BSIZE_pos(1) [OF wf] by (intro div_add_self2) simp
  ultimately show ?thesis by argo
qed

lemma read_block_ok:
  assumes wf: "mem_wf m" and fits: "unat a mod unat (ms_BSIZE m) + len \<le> unat (ms_BSIZE m)"
    and last: "unat a div unat (ms_BSIZE m) + 1 < 2 ^ 32 div unat (ms_BSIZE m)"
  shows "read_single_block (drop_bit (ms_log2_block_size m) a) a len m = Some (map (\<lambda>i. byte_at m (unat a + i)) [0..<len])"
proof -
  let ?bs = "unat (ms_BSIZE m)" and ?p = "drop_bit (ms_log2_block_size m) a" and ?o = "unat a mod unat (ms_BSIZE m)"
  have p: "unat ?p = unat a div ?bs" by (rule unat_page [OF wf])
  have "?bs * (unat a div ?bs + 1) < 2 ^ 32"
    using last wf_BSIZE_dvd [OF wf] wf_BSIZE_pos [OF wf]
    by (metis dvd_mult_div_cancel mult_less_cancel1)
  moreover from this have "unat a div ?bs + 1 < 2 ^ 32"
    using wf_BSIZE_pos(1) [OF wf] by (metis le_less_trans mult.commute mult_le_mono2 nat_mult_1_right less_eq_Suc_le One_nat_def)
  ultimately have "unat ((?p + 1) * ms_BSIZE m) = (unat a div ?bs + 1) * ?bs"
    by (simp add: unat_word_ariths p mult.commute)
  moreover have "unat a + len \<le> (unat a div ?bs + 1) * ?bs"
  proof -
    have "(unat a div ?bs + 1) * ?bs = ?bs * (unat a div ?bs) + ?bs" by simp
    then show ?thesis using fits mult_div_mod_eq [of ?bs "unat a"] by linarith
  qed
  moreover have "byte_at m (unat a + i) = (case ms_data m ?p of None \<Rightarrow> 0 | Some b \<Rightarrow> b ! (?o + i))" if "i < len" for i
  proof -
    have "?o + i < ?bs" using fits that by simp
    then have "(unat a + i) div ?bs = unat a div ?bs" "(unat a + i) mod ?bs = ?o + i"
      by (metis add.assoc add.right_neutral div_less div_mult_self4 less_nat_zero_code mult_div_mod_eq not_gr_zero)
        (metis \<open>?o + i < ?bs\<close> mod_add_left_eq mod_less)
    moreover have "(of_nat (unat a div ?bs) :: u32) = ?p" by (simp flip: p)
    ultimately show ?thesis by (simp add: byte_at_def split: option.split)
  qed
  moreover have "length b = ?bs" if "ms_data m ?p = Some b" for b
    using wf that by (auto simp: mem_wf_def unat_u32_pow)
  ultimately show ?thesis
    using fits
    by (auto simp: read_single_block_def storage_read_def unat_offset [OF wf] intro!: nth_equalityI split: option.splits)
qed

text \<open>The bytes up to the last block of the 32 bit address space.\<close>

definition below_last :: "mem_space \<Rightarrow> nat \<Rightarrow> bool" where
  "below_last m x \<longleftrightarrow> x + unat (ms_BSIZE m) \<le> 2 ^ 32"

lemma read_loop_ok:
  assumes "mem_wf m" and "below_last m (unat a + n)"
  shows "read_loop a (of_nat n) m = Some (map (\<lambda>i. byte_at m (unat a + i)) [0..<n])"
  using assms(2)
proof (induction n arbitrary: a rule: less_induct)
  case (less n)
  let ?bs = "unat (ms_BSIZE m)"
  have wf: "mem_wf m" by (rule assms(1))
  have pos: "0 < ?bs" "?bs \<le> 2147483648" using wf_BSIZE_pos [OF wf] by auto
  have n: "unat (of_nat n :: u32) = n" using less.prems pos by (simp add: below_last_def)
  show ?case
  proof (cases "n = 0")
    case True
    then show ?thesis by (subst read_loop.simps) simp
  next
    case False
    let ?tx = "tx_bytes m a (of_nat n)"
    have tx: "unat ?tx = min n (?bs - unat a mod ?bs)"
      using tx_bytes_eq [OF wf, of "of_nat n" a] less.prems by (simp add: n below_last_def)
    have o: "unat a mod ?bs < ?bs" using pos by simp
    with False tx have tx_pos: "0 < unat ?tx" "unat ?tx \<le> n" "unat ?tx \<le> ?bs - unat a mod ?bs" by auto
    then have fits: "unat a mod ?bs + unat ?tx \<le> ?bs" using o by linarith
    have last: "unat a div ?bs + 1 < 2 ^ 32 div ?bs"
      by (rule not_last_page [OF wf]) (use less.prems False in \<open>simp add: below_last_def\<close>)
    note blk = read_block_ok [OF wf fits last]
    have rest: "of_nat n - ?tx = (of_nat (n - unat ?tx) :: u32)" using tx_pos by (simp add: of_nat_diff)
    have step: "read_loop a (of_nat n) m = map_option ((@) (map (\<lambda>i. byte_at m (unat a + i)) [0..<unat ?tx]))
        (read_loop (a + ?tx) (of_nat (n - unat ?tx)) m)"
      using False n by (subst read_loop.simps) (simp add: word_less_nat_alt Let_def blk rest map_option_case split: option.split)
    have a': "unat (a + ?tx) = unat a + unat ?tx"
      using less.prems tx_pos pos by (intro unat_add_lem [THEN iffD1]) (simp add: below_last_def)
    have "n - unat ?tx < n" "below_last m (unat (a + ?tx) + (n - unat ?tx))"
      using less.prems tx_pos False by (simp_all add: a')
    from less.IH [OF this] have ih: "read_loop (a + ?tx) (of_nat (n - unat ?tx)) m =
        Some (map (\<lambda>i. byte_at m (unat a + unat ?tx + i)) [0..<n - unat ?tx])" by (simp add: a')
    have "map (\<lambda>i. byte_at m (unat a + unat ?tx + i)) [0..<n - unat ?tx] = map (\<lambda>i. byte_at m (unat a + i)) [unat ?tx..<n]"
      by (rule nth_equalityI) (auto simp: add.assoc)
    then show ?thesis
      unfolding step ih using upt_add_eq_append [of 0 "unat ?tx" "n - unat ?tx"] tx_pos by simp
  qed
qed

section \<open>Properties\<close>

lemma mem_write_ok:
  assumes wf: "mem_wf m" and n: "unat a + length bytes \<le> 2 ^ 32" "length bytes + unat (ms_BSIZE m) \<le> 2 ^ 32"
  shows "\<exists>m'. mem_write a bytes m = Some (watch_hits a (length bytes) m, m') \<and> mem_wf m'
    \<and> ms_BSIZE m' = ms_BSIZE m
    \<and> (\<forall>x < 2 ^ 32. byte_at m' x = (if unat a \<le> x \<and> x < unat a + length bytes then bytes ! (x - unat a) else byte_at m x))"
proof (cases "unat a + length bytes \<le> unat ((drop_bit (ms_log2_block_size m) a + 1) * ms_BSIZE m)")
  case True
  let ?bs = "unat (ms_BSIZE m)" and ?p = "drop_bit (ms_log2_block_size m) a"
  have "unat a mod ?bs + length bytes \<le> ?bs"
    by (rule in_page) (use True page_end [OF wf, of a] in linarith)
  from page_write_ok [OF wf this] True show ?thesis by (auto simp: mem_write_def Let_def watch_hits_def)
next
  case False
  with write_loop_ok [OF wf n] show ?thesis by (auto simp: mem_write_def Let_def watch_hits_def)
qed

lemma mem_read_ok:
  assumes wf: "mem_wf m" and n: "below_last m (unat a + n)"
  shows "mem_read a n m = Some (map (\<lambda>i. byte_at m (unat a + i)) [0..<n])"
proof (cases "unat a + n \<le> unat ((drop_bit (ms_log2_block_size m) a + 1) * ms_BSIZE m)")
  case False
  with read_loop_ok [OF wf n] show ?thesis by (simp add: mem_read_def Let_def)
next
  case True
  let ?bs = "unat (ms_BSIZE m)"
  have fits: "unat a mod ?bs + n \<le> ?bs"
    by (rule in_page) (use True page_end [OF wf, of a] in linarith)
  show ?thesis
  proof (cases "n = 0")
    case True
    with \<open>unat a + n \<le> _\<close> show ?thesis
      using wf_BSIZE_pos(1) [OF wf]
      by (auto simp: mem_read_def Let_def read_single_block_def storage_read_def unat_offset [OF wf] less_imp_le split: option.splits)
  next
    case False
    have "unat a div ?bs + 1 < 2 ^ 32 div ?bs"
      by (rule not_last_page [OF wf]) (use n False in \<open>simp add: below_last_def\<close>)
    from read_block_ok [OF wf fits this] True show ?thesis by (simp add: mem_read_def Let_def)
  qed
qed


text \<open>C27. The paged memory implements a map from addresses to bytes: a write of any length, across any number of
  blocks, ends, and changes the bytes of its range and no others; a read of any range, below the last block
  of the address space, ends and returns the bytes of that map.\<close>

theorem memory_refines_byte_map:
  assumes "mem_wf m" and "below_last m (unat a + length bytes)" and "below_last m (unat b + n)"
  shows "\<exists>hits m'. mem_write a bytes m = Some (hits, m') \<and> mem_wf m'
    \<and> mem_read b n m = Some (map (byte_at m) [unat b..<unat b + n])
    \<and> mem_read b n m' = Some (map (\<lambda>x. if unat a \<le> x \<and> x < unat a + length bytes then bytes ! (x - unat a)
        else byte_at m x) [unat b..<unat b + n])"
proof -
  have rng: "map (\<lambda>i. f (unat b + i)) [0..<n] = map f [unat b..<unat b + n]" for f :: "nat \<Rightarrow> u8"
    by (rule nth_equalityI) auto
  obtain m' where m': "mem_write a bytes m = Some (watch_hits a (length bytes) m, m')" "mem_wf m'" "ms_BSIZE m' = ms_BSIZE m"
    "\<forall>x < 2 ^ 32. byte_at m' x = (if unat a \<le> x \<and> x < unat a + length bytes then bytes ! (x - unat a) else byte_at m x)"
    using mem_write_ok [OF assms(1), of a bytes] assms(2) by (auto simp: below_last_def)
  have "mem_read b n m' = Some (map (byte_at m') [unat b..<unat b + n])"
    using mem_read_ok [OF m'(2)] assms(3) m'(3) by (simp add: below_last_def rng)
  also have "map (byte_at m') [unat b..<unat b + n] = map (\<lambda>x. if unat a \<le> x \<and> x < unat a + length bytes
      then bytes ! (x - unat a) else byte_at m x) [unat b..<unat b + n]"
    using m'(4) assms(3) by (intro map_cong) (auto simp: below_last_def)
  finally show ?thesis using m'(1,2) mem_read_ok [OF assms(1,3)] rng by simp
qed

text \<open>No byte of the last block of the 32 bit address space can be read, though it can be written: the
  end of that block is computed in 32 bits and comes out as 0, so the read throws.\<close>

theorem memory_last_block_unreadable:
  assumes "mem_wf m" and "2 ^ 32 - unat (ms_BSIZE m) \<le> unat a" and "bytes \<noteq> []" and "unat a + length bytes \<le> 2 ^ 32"
  shows "mem_read a (length bytes) m = None \<and> (\<exists>hits m'. mem_write a bytes m = Some (hits, m'))"
proof -
  let ?bs = "unat (ms_BSIZE m)" and ?p = "drop_bit (ms_log2_block_size m) a" and ?n = "length bytes"
  have pos: "0 < ?bs" "?bs \<le> 2147483648" using wf_BSIZE_pos [OF assms(1)] by auto
  have n: "?n \<le> ?bs" "0 < ?n" "unat (of_nat ?n :: u32) = ?n" using assms(2,3,4) pos by auto
  obtain q where q: "2 ^ 32 = ?bs * q" using wf_BSIZE_dvd [OF assms(1)] unfolding dvd_def by blast
  have "unat a < ?bs * q" unfolding q [symmetric] by simp
  then have "unat a div ?bs < q" using less_mult_imp_div_less [of "unat a" q ?bs] by (simp add: mult.commute)
  moreover have "q - 1 \<le> unat a div ?bs"
  proof -
    have "?bs * (q - 1) \<le> unat a" using assms(2) unfolding q by (simp add: diff_mult_distrib2)
    then show ?thesis using pos(1) by (simp add: less_eq_div_iff_mult_less_eq mult.commute)
  qed
  ultimately have "unat ?p + 1 = q" using unat_page [OF assms(1), of a] by linarith
  then have "(unat ?p + 1) * ?bs = 2 ^ 32" using q by (simp add: mult.commute)
  moreover have "unat ((?p + 1) * ms_BSIZE m) = ((unat ?p + 1) * ?bs) mod 2 ^ 32"
    by (simp add: unat_word_ariths mod_mult_left_eq)
  ultimately have zero: "unat ((?p + 1) * ms_BSIZE m) = 0" by simp
  have blk: "read_single_block ?p a (unat (tx_bytes m a (of_nat ?n))) m = None"
    if "0 < unat (tx_bytes m a (of_nat ?n))" using zero that by (simp add: read_single_block_def)
  have "unat (tx_bytes m a (of_nat ?n)) = min ?n (?bs - unat a mod ?bs)"
    using tx_bytes_eq [OF assms(1), of "of_nat ?n" a] n pos by simp
  moreover have "unat a mod ?bs < ?bs" using pos by simp
  ultimately have "read_loop a (of_nat ?n) m = None"
    using blk n by (subst read_loop.simps) (simp add: word_less_nat_alt Let_def)
  then have "mem_read a ?n m = None" using zero n by (simp add: mem_read_def Let_def)
  moreover have "?n + ?bs \<le> 2 ^ 32" using n pos by simp
  ultimately show ?thesis using mem_write_ok [OF assms(1,4)] by blast
qed

lemma log2_step_pow:
  assumes "k < 32" and "n < 32"
  shows "log2_step (push_bit k 1) r n = (if n = k then (if r = None then Some (Some n) else None) else Some r)"
proof -
  have "(push_bit k 1 AND push_bit n 1 :: u32) \<noteq> 0 \<longleftrightarrow> n = k"
  proof
    assume "(push_bit k 1 AND push_bit n 1 :: u32) \<noteq> 0"
    then obtain i where "bit (push_bit k 1 AND push_bit n 1 :: u32) i"
      using bit_eq_iff [of "push_bit k 1 AND push_bit n 1 :: u32" 0] by auto
    then show "n = k" by (simp add: bit_simps)
  next
    assume "n = k"
    moreover have "bit (push_bit k 1 :: u32) k" using assms(1) by (simp add: bit_simps)
    ultimately show "(push_bit k 1 AND push_bit n 1 :: u32) \<noteq> 0" by (metis and.idem bit_0_eq bot_apply bot_bool_def)
  qed
  then show ?thesis unfolding log2_step_def by (auto simp: assert_c_def)
qed

lemma log2_fold: "k < 32 \<Longrightarrow> n \<le> 32 \<Longrightarrow>
    foldM (log2_step (push_bit k 1)) None [0..<n] = Some (if k < n then Some k else None)"
  by (induction n) (auto simp: foldM_append log2_step_pow less_Suc_eq simp del: push_bit_of_1)

text \<open>The constructor takes every power of two, so the memories the simulator makes are well formed.\<close>

lemma new_mem_space_pow:
  assumes "k < 32"
  shows "\<exists>m. new_mem_space (push_bit k 1) = Some m \<and> mem_wf m \<and> byte_at m x = 0"
  unfolding new_mem_space_def log2_fold [OF assms order_refl]
  using assms by (simp add: mem_wf_def byte_at_def)

definition sample_mem :: mem_space where
  "sample_mem = \<lparr>ms_log2_block_size = 5, ms_BSIZE = 32, ms_data = (\<lambda>_. None), ms_watchpoints = []\<rparr>"

lemma sample_mem_wf: "mem_wf sample_mem"
  by (simp add: mem_wf_def sample_mem_def)

theorem memory_refines_byte_map_witness:
  "\<exists>hits m'. mem_write 30 [1, 2, 3, 4] sample_mem = Some (hits, m') \<and> mem_read 31 4 m' = Some [2, 3, 4, 0]"
proof -
  have b: "byte_at sample_mem x = 0" for x by (simp add: byte_at_def sample_mem_def)
  have r: "[unat (31 :: u32)..<unat (31 :: u32) + 4] = [31, 32, 33, 34]" by (simp add: upt_rec)
  have "below_last sample_mem (unat (30 :: u32) + length [1, 2, 3, 4 :: u8])" "below_last sample_mem (unat (31 :: u32) + 4)"
    by (simp_all add: below_last_def sample_mem_def)
  from memory_refines_byte_map [OF sample_mem_wf this] show ?thesis unfolding r by (simp add: b) blast
qed

theorem memory_last_block_unreadable_witness: "mem_read 0xFFFFFFE0 1 sample_mem = None"
  using memory_last_block_unreadable [OF sample_mem_wf, where a = "0xFFFFFFE0" and bytes = "[7]"] by (simp add: sample_mem_def)

end
