(* ===== verification/Ptx_Regs.thy ===== *)
theory Ptx_Regs
  imports Ptx_Memory
begin

text \<open>
  Register values and operands of the functional simulator (\<open>cuda-sim/instructions.cc\<close>,
  \<open>ptx_sim.h\<close>, \<open>ptx_ir.h\<close>): the union \<open>ptx_reg_t\<close> as a 128 bit word of which each member is the low
  part, a symbol as a record that stands for its address, and the reading and writing of operands in the
  register frames and the memories of a thread. A float is its bit pattern. Debug traces are left out, and
  the special registers are an argument held by the thread.
\<close>

section \<open>Types\<close>

datatype ptx_type =
    S8_TYPE | S16_TYPE | S32_TYPE | S64_TYPE | U8_TYPE | U16_TYPE | U32_TYPE | U64_TYPE
  | F16_TYPE | F32_TYPE | F64_TYPE | FF64_TYPE | B8_TYPE | B16_TYPE | B32_TYPE | B64_TYPE
  | BB64_TYPE | BB128_TYPE | PRED_TYPE | TEXREF_TYPE | SAMPLERREF_TYPE | SURFREF_TYPE

text \<open>\<open>type_decode\<close>: index, size in bits and basic type.\<close>

definition type_decode :: "ptx_type \<Rightarrow> nat \<times> nat \<times> int" where
  "type_decode t = (case t of
     S8_TYPE \<Rightarrow> (0, 8, 1) | S16_TYPE \<Rightarrow> (1, 16, 1) | S32_TYPE \<Rightarrow> (2, 32, 1) | S64_TYPE \<Rightarrow> (3, 64, 1)
   | U8_TYPE \<Rightarrow> (4, 8, 0) | U16_TYPE \<Rightarrow> (5, 16, 0) | U32_TYPE \<Rightarrow> (6, 32, 0) | U64_TYPE \<Rightarrow> (7, 64, 0)
   | F16_TYPE \<Rightarrow> (8, 16, -1) | F32_TYPE \<Rightarrow> (9, 32, -1) | F64_TYPE \<Rightarrow> (10, 64, -1) | FF64_TYPE \<Rightarrow> (10, 64, -1)
   | PRED_TYPE \<Rightarrow> (11, 1, 2) | B8_TYPE \<Rightarrow> (12, 8, 0) | B16_TYPE \<Rightarrow> (13, 16, 0) | B32_TYPE \<Rightarrow> (14, 32, 0)
   | B64_TYPE \<Rightarrow> (15, 64, 0) | BB64_TYPE \<Rightarrow> (15, 64, 0) | BB128_TYPE \<Rightarrow> (16, 128, 0)
   | TEXREF_TYPE \<Rightarrow> (16, 32, 3) | SAMPLERREF_TYPE \<Rightarrow> (16, 32, 3) | SURFREF_TYPE \<Rightarrow> (16, 32, 3))"

definition type_size :: "ptx_type \<Rightarrow> nat" where
  "type_size t = fst (snd (type_decode t))"

section \<open>Register values\<close>

type_synonym u16 = "16 word"
type_synonym reg = "128 word"

text \<open>Reading and assigning a member of the union: the low bits of the value.\<close>

definition fld :: "reg \<Rightarrow> 'a :: len word" where
  "fld r = ucast r"

definition put :: "'a :: len word \<Rightarrow> reg \<Rightarrow> reg" where
  "put v r = (r AND NOT (mask LENGTH('a))) OR ucast v"

definition get_bit :: "nat \<Rightarrow> reg \<Rightarrow> bool" where
  "get_bit b r = (if b < 32 then odd (drop_bit b (fld r :: u32)) else odd (drop_bit (b - 32) (fld (drop_bit 32 r) :: u32)))"

text \<open>\<open>mask_and\<close> and \<open>mask_or\<close> work on the two halves \<open>bits.ms\<close> and \<open>bits.ls\<close>.\<close>

definition of_halves :: "u32 \<Rightarrow> u32 \<Rightarrow> u64" where
  "of_halves ms ls = push_bit 32 (ucast ms) OR ucast ls"

definition mask_and :: "u32 \<Rightarrow> u32 \<Rightarrow> reg \<Rightarrow> reg" where
  "mask_and ms ls r = put (fld r AND of_halves ms ls) r"

definition mask_or :: "u32 \<Rightarrow> u32 \<Rightarrow> reg \<Rightarrow> reg" where
  "mask_or ms ls r = put (fld r OR of_halves ms ls) r"

text \<open>IEEE comparisons on bit patterns: \<open>f32_key\<close> orders the values that are not NaN, with one zero.\<close>

definition f32_nan :: "u32 \<Rightarrow> bool" where
  "f32_nan x \<longleftrightarrow> x AND 0x7FFFFFFF > 0x7F800000"

definition f32_key :: "u32 \<Rightarrow> int" where
  "f32_key x = (let m = uint (x AND 0x7FFFFFFF) in if bit x 31 then - m else m)"

definition f32_eq :: "u32 \<Rightarrow> u32 \<Rightarrow> bool" where
  "f32_eq x y \<longleftrightarrow> \<not> f32_nan x \<and> \<not> f32_nan y \<and> f32_key x = f32_key y"

definition f32_lt :: "u32 \<Rightarrow> u32 \<Rightarrow> bool" where
  "f32_lt x y \<longleftrightarrow> \<not> f32_nan x \<and> \<not> f32_nan y \<and> f32_key x < f32_key y"

definition f32_le :: "u32 \<Rightarrow> u32 \<Rightarrow> bool" where
  "f32_le x y \<longleftrightarrow> \<not> f32_nan x \<and> \<not> f32_nan y \<and> f32_key x \<le> f32_key y"

definition f64_nan :: "u64 \<Rightarrow> bool" where
  "f64_nan x \<longleftrightarrow> x AND 0x7FFFFFFFFFFFFFFF > 0x7FF0000000000000"

definition f64_key :: "u64 \<Rightarrow> int" where
  "f64_key x = (let m = uint (x AND 0x7FFFFFFFFFFFFFFF) in if bit x 63 then - m else m)"

definition f64_eq :: "u64 \<Rightarrow> u64 \<Rightarrow> bool" where
  "f64_eq x y \<longleftrightarrow> \<not> f64_nan x \<and> \<not> f64_nan y \<and> f64_key x = f64_key y"

definition f64_lt :: "u64 \<Rightarrow> u64 \<Rightarrow> bool" where
  "f64_lt x y \<longleftrightarrow> \<not> f64_nan x \<and> \<not> f64_nan y \<and> f64_key x < f64_key y"

definition f64_le :: "u64 \<Rightarrow> u64 \<Rightarrow> bool" where
  "f64_le x y \<longleftrightarrow> \<not> f64_nan x \<and> \<not> f64_nan y \<and> f64_key x \<le> f64_key y"

definition f32_neg :: "u32 \<Rightarrow> u32" where
  "f32_neg x = x XOR 0x80000000"

definition f64_neg :: "u64 \<Rightarrow> u64" where
  "f64_neg x = x XOR 0x8000000000000000"

section \<open>Symbols, operands and threads\<close>

record symbol =
  sy_name :: string
  sy_uid :: nat
  sy_space :: memory_space
  sy_scalar :: ptx_type
  sy_is_label :: bool
  sy_address :: u32

definition sym_is_reg :: "symbol \<Rightarrow> bool" where
  "sym_is_reg s = (sy_space s = reg_space)"

definition get_address :: "symbol \<Rightarrow> u32 option" where
  "get_address s = do { _ \<leftarrow> assert_c (sy_is_label s \<or> \<not> sym_is_reg s); Some (sy_address s) }"

datatype operand_type =
  reg_t | vector_t | builtin_t | address_t | memory_t | float_op_t | double_op_t | int_t | unsigned_t
| symbolic_t | label_t | undef_t

datatype operand_value = V_word u32 | V_double u64 | V_symbol symbol | V_vector "symbol list"

record operand_info =
  o_type :: operand_type
  o_value :: operand_value
  o_vector :: bool
  o_immediate_address :: bool
  o_addr_space :: memory_space
  o_lohi :: int
  o_double :: int
  o_neg :: bool
  o_const_mem_offset :: u32
  o_addr_offset :: u32
  o_neg_pred :: bool

definition get_symbol :: "operand_info \<Rightarrow> symbol option" where
  "get_symbol op = (case o_value op of V_symbol s \<Rightarrow> Some s | _ \<Rightarrow> None)"

definition vec_symbol :: "operand_info \<Rightarrow> nat \<Rightarrow> symbol option" where
  "vec_symbol op idx = (case o_value op of V_vector ss \<Rightarrow> at_get ss idx | _ \<Rightarrow> None)"

definition get_vect_nelem :: "operand_info \<Rightarrow> nat option" where
  "get_vect_nelem op = do {
     _ \<leftarrow> assert_c (o_vector op);
     case o_value op of V_vector ss \<Rightarrow> Some (length ss) | _ \<Rightarrow> None }"

definition op_is_reg :: "operand_info \<Rightarrow> bool" where
  "op_is_reg op = (o_type op = reg_t \<or>
     o_type op = symbolic_t \<and> (case get_symbol op of Some s \<Rightarrow> sym_is_reg s | None \<Rightarrow> False))"

definition op_is_literal :: "operand_info \<Rightarrow> bool" where
  "op_is_literal op = (o_type op \<in> {int_t, float_op_t, double_op_t, unsigned_t})"

definition op_is_shared :: "operand_info \<Rightarrow> bool" where
  "op_is_shared op = (o_type op \<in> {symbolic_t, address_t, memory_t} \<and>
     (case get_symbol op of Some s \<Rightarrow> sy_space s = shared_space | None \<Rightarrow> False))"

definition get_literal_value :: "operand_info \<Rightarrow> reg option" where
  "get_literal_value op =
     (case (o_type op, o_value op) of
        (int_t, V_word w) \<Rightarrow> Some (put w 0)
      | (float_op_t, V_word w) \<Rightarrow> Some (put w 0)
      | (unsigned_t, V_word w) \<Rightarrow> Some (put w 0)
      | (double_op_t, V_double w) \<Rightarrow> Some (put w 0)
      | _ \<Rightarrow> None)"

text \<open>The register frames of a thread, the innermost call first.\<close>

record ptx_thread =
  th_regs :: "(symbol \<Rightarrow> reg option) list"
  th_last_set :: reg
  th_global :: mem_space
  th_shared :: mem_space
  th_local :: mem_space
  th_last_address :: u32
  th_last_space :: memory_space
  th_builtin :: "u32 \<Rightarrow> u32 \<Rightarrow> u32"

definition set_reg :: "symbol \<Rightarrow> reg \<Rightarrow> ptx_thread \<Rightarrow> ptx_thread option" where
  "set_reg s v th =
     (if sy_name s = ''_'' then Some th
      else case th_regs th of
        [] \<Rightarrow> None
      | frame # frames \<Rightarrow> do {
          _ \<leftarrow> assert_c (sy_uid s > 0);
          Some (th\<lparr>th_regs := frame(s \<mapsto> v) # frames, th_last_set := v\<rparr>) })"

text \<open>A register that was never written is set to zero when it is read.\<close>

definition get_reg :: "symbol \<Rightarrow> ptx_thread \<Rightarrow> (reg \<times> ptx_thread) option" where
  "get_reg s th =
     (case th_regs th of
        [] \<Rightarrow> None
      | frame # frames \<Rightarrow>
          (case frame s of
             Some v \<Rightarrow> Some (v, th)
           | None \<Rightarrow> do {
               _ \<leftarrow> assert_c (sym_is_reg s);
               th \<leftarrow> set_reg s 0 th;
               frame \<leftarrow> (case th_regs th of [] \<Rightarrow> None | frame # _ \<Rightarrow> Some frame);
               v \<leftarrow> frame s;
               Some (v, th) }))"

text \<open>\<open>m_regs.back()[s]\<close> of a register that is not there makes it, with value zero.\<close>

definition reg_ref :: "symbol \<Rightarrow> ptx_thread \<Rightarrow> (reg \<times> ptx_thread) option" where
  "reg_ref s th =
     (case th_regs th of
        [] \<Rightarrow> None
      | frame # frames \<Rightarrow>
          (case frame s of
             Some v \<Rightarrow> Some (v, th)
           | None \<Rightarrow> Some (0, th\<lparr>th_regs := frame(s \<mapsto> 0) # frames\<rparr>)))"

section \<open>Reading an operand\<close>

definition get_operand_nbits :: "operand_info \<Rightarrow> nat option" where
  "get_operand_nbits op =
     (if op_is_reg op then do {
        s \<leftarrow> get_symbol op;
        case sy_scalar s of
          PRED_TYPE \<Rightarrow> Some 1
        | B8_TYPE \<Rightarrow> Some 8 | S8_TYPE \<Rightarrow> Some 8 | U8_TYPE \<Rightarrow> Some 8
        | S16_TYPE \<Rightarrow> Some 16 | U16_TYPE \<Rightarrow> Some 16 | F16_TYPE \<Rightarrow> Some 16 | B16_TYPE \<Rightarrow> Some 16
        | S32_TYPE \<Rightarrow> Some 32 | U32_TYPE \<Rightarrow> Some 32 | F32_TYPE \<Rightarrow> Some 32 | B32_TYPE \<Rightarrow> Some 32
        | S64_TYPE \<Rightarrow> Some 64 | U64_TYPE \<Rightarrow> Some 64 | F64_TYPE \<Rightarrow> Some 64 | B64_TYPE \<Rightarrow> Some 64
        | _ \<Rightarrow> None }
      else None)"

definition sign_extend :: "reg \<Rightarrow> nat \<Rightarrow> operand_info \<Rightarrow> reg option" where
  "sign_extend d src_size dst =
     (if \<not> op_is_reg dst then Some d
      else do {
        dst_size \<leftarrow> get_operand_nbits dst;
        if src_size \<ge> dst_size then Some d
        else if push_bit (src_size - 1) 1 AND (fld d :: u64) = 0 then Some d
        else Some (put ((fld d :: u64) OR push_bit src_size (push_bit (dst_size - src_size) 1 - 1)) d) })"

text \<open>Memory holds the bytes of a value with the lowest first.\<close>

definition le_reg :: "u8 list \<Rightarrow> reg" where
  "le_reg bytes = foldr (\<lambda>b w. push_bit 8 w OR ucast b) bytes 0"

definition reg_bytes :: "nat \<Rightarrow> reg \<Rightarrow> u8 list" where
  "reg_bytes n r = map (\<lambda>i. fld (drop_bit (8 * i) r)) [0..<n]"

definition lohi_half :: "operand_info \<Rightarrow> u64 \<Rightarrow> u64" where
  "lohi_half op w =
     (if o_lohi op = 1 then w AND 0xFFFF else if o_lohi op = 2 then drop_bit 16 w AND 0xFFFF else w)"

text \<open>The address of a memory operand, whose symbol is a register or a variable.\<close>

definition memory_operand_address :: "operand_info \<Rightarrow> ptx_thread \<Rightarrow> (reg \<times> ptx_thread) option" where
  "memory_operand_address op th = do {
     s \<leftarrow> get_symbol op;
     if sym_is_reg s then do {
       (r, th) \<leftarrow> get_reg s th;
       Some (put ((fld r :: u64) + scast (o_addr_offset op)) 0, th) }
     else if sy_space s \<in> {param_space_kernel, param_space_local} then do {
       a \<leftarrow> get_address s;
       Some (put (ucast (a + o_addr_offset op) :: u64) 0, th) }
     else if sy_space s = global_space then do {
       a \<leftarrow> get_address s;
       Some (put (ucast a :: u64) 0, th) }
     else if sy_space s \<in> {local_space, const_space} \<or> op_is_shared op then do {
       a \<leftarrow> get_address s;
       Some (put (ucast (a + o_addr_offset op) :: u64) 0, th) }
     else None }"

definition single_operand :: "operand_info \<Rightarrow> ptx_thread \<Rightarrow> (reg \<times> ptx_thread) option" where
  "single_operand op th = do {
     (r, th) \<leftarrow>
       (if op_is_reg op then do { s \<leftarrow> get_symbol op; get_reg s th }
        else if o_type op = builtin_t
        then (case o_value op of V_word w \<Rightarrow> Some (put (th_builtin th w (o_addr_offset op)) 0, th) | _ \<Rightarrow> None)
        else if o_immediate_address op then Some (put (scast (o_addr_offset op) :: u64) 0, th)
        else if o_type op = memory_t then memory_operand_address op th
        else if op_is_literal op then do { r \<leftarrow> get_literal_value op; Some (r, th) }
        else do {
          s \<leftarrow> get_symbol op;
          _ \<leftarrow> assert_c (o_type op = label_t \<or> op_is_shared op \<or> sy_space s \<in> {const_space, global_space, local_space});
          a \<leftarrow> get_address s;
          Some (put (ucast a :: u64) 0, th) });
     Some (if o_lohi op = 1 \<or> o_lohi op = 2 then put (lohi_half op (fld r)) r else r, th) }"

text \<open>The value an operand names before it is dereferenced.\<close>

definition operand_base :: "operand_info \<Rightarrow> ptx_type \<Rightarrow> ptx_thread \<Rightarrow> (reg \<times> ptx_thread) option" where
  "operand_base op opType th =
     (if o_double op = 0 then
        (if opType \<notin> {BB128_TYPE, BB64_TYPE, FF64_TYPE} \<or> o_addr_space op \<noteq> undefined_space
         then single_operand op th
         else if opType = BB128_TYPE then do {
           s0 \<leftarrow> vec_symbol op 0; (r0, th) \<leftarrow> get_reg s0 th;
           s1 \<leftarrow> vec_symbol op 1; (r1, th) \<leftarrow> get_reg s1 th;
           s2 \<leftarrow> vec_symbol op 2; (r2, th) \<leftarrow> get_reg s2 th;
           s3 \<leftarrow> vec_symbol op 3; (r3, th) \<leftarrow> get_reg s3 th;
           Some (push_bit 96 (ucast (fld r3 :: u32)) OR push_bit 64 (ucast (fld r2 :: u32))
             OR push_bit 32 (ucast (fld r1 :: u32)) OR ucast (fld r0 :: u32), th) }
         else do {
           s0 \<leftarrow> vec_symbol op 0; (r0, th) \<leftarrow> get_reg s0 th;
           s1 \<leftarrow> vec_symbol op 1; (r1, th) \<leftarrow> get_reg s1 th;
           Some (put (of_halves (fld r1) (fld r0)) 0, th) })
      else if o_double op = 1 then do {
        s0 \<leftarrow> vec_symbol op 0; (r0, th) \<leftarrow> get_reg s0 th;
        s1 \<leftarrow> vec_symbol op 1; (r1, th) \<leftarrow> get_reg s1 th;
        Some (put ((fld r0 :: u64) + lohi_half op (fld r1)) 0, th) }
      else if o_double op = 2 then do {
        s0 \<leftarrow> vec_symbol op 0; (r0, th) \<leftarrow> get_reg s0 th;
        s1 \<leftarrow> vec_symbol op 1; (r1, th) \<leftarrow> get_reg s1 th;
        th \<leftarrow> set_reg s0 (put ((fld r0 :: u64) + lohi_half op (fld r1)) 0) th;
        Some (put (fld r0 :: u64) 0, th) }
      else if o_double op = 3 then do {
        s \<leftarrow> get_symbol op; (r, th) \<leftarrow> get_reg s th;
        th \<leftarrow> set_reg s (put ((fld r :: u64) + scast (o_addr_offset op)) 0) th;
        Some (put (fld r :: u64) 0, th) }
      else Some (0, th))"

definition load_operand :: "mem_space \<Rightarrow> memory_space \<Rightarrow> u32 \<Rightarrow> u32 \<Rightarrow> operand_info \<Rightarrow> ptx_type \<Rightarrow> ptx_thread
    \<Rightarrow> (reg \<times> ptx_thread) option" where
  "load_operand m space addr offset dst opType th = do {
     bytes \<leftarrow> mem_read (addr + offset) (type_size opType div 8) m;
     let th = th\<lparr>th_last_address := addr, th_last_space := space\<rparr>;
     r \<leftarrow> (if opType = S16_TYPE \<or> opType = S32_TYPE then sign_extend (le_reg bytes) (type_size opType) dst
           else Some (le_reg bytes));
     Some (r, th) }"

definition negate_operand :: "ptx_type \<Rightarrow> reg \<Rightarrow> reg option" where
  "negate_operand t r =
     (if t \<in> {S8_TYPE, U8_TYPE, B8_TYPE} then Some (put (- (fld r :: u8)) r)
      else if t \<in> {S16_TYPE, U16_TYPE, B16_TYPE} then Some (put (- (fld r :: u16)) r)
      else if t \<in> {S32_TYPE, U32_TYPE, B32_TYPE} then Some (put (- (fld r :: u32)) r)
      else if t \<in> {S64_TYPE, U64_TYPE, B64_TYPE} then Some (put (- (fld r :: u64)) r)
      else if t \<in> {F16_TYPE, F32_TYPE} then Some (put (f32_neg (fld r)) r)
      else if t \<in> {F64_TYPE, FF64_TYPE} then Some (put (f64_neg (fld r)) r)
      else None)"

definition get_operand_value :: "operand_info \<Rightarrow> operand_info \<Rightarrow> ptx_type \<Rightarrow> bool \<Rightarrow> ptx_thread
    \<Rightarrow> (reg \<times> ptx_thread) option" where
  "get_operand_value op dst opType deref th = do {
     (r, th) \<leftarrow> operand_base op opType th;
     (r, th) \<leftarrow>
       (if \<not> deref then Some (r, th)
        else case o_addr_space op of
          global_space \<Rightarrow> load_operand (th_global th) global_space (fld r) 0 dst opType th
        | shared_space \<Rightarrow> load_operand (th_shared th) shared_space (fld r) 0 dst opType th
        | const_space \<Rightarrow> load_operand (th_global th) const_space (fld r) (o_const_mem_offset op) dst opType th
        | local_space \<Rightarrow> load_operand (th_local th) local_space (fld r) 0 dst opType th
        | _ \<Rightarrow> Some (r, th));
     r \<leftarrow> (if o_neg op \<and> deref then negate_operand opType r else Some r);
     Some (r, th) }"

definition get_vector_operand_values :: "operand_info \<Rightarrow> reg list \<Rightarrow> nat \<Rightarrow> ptx_thread \<Rightarrow> reg list option" where
  "get_vector_operand_values op v num_elements th = do {
     _ \<leftarrow> assert_c (o_vector op);
     _ \<leftarrow> assert_c (num_elements \<le> 4);
     foldM (\<lambda>v idx. do {
         s \<leftarrow> vec_symbol op idx;
         if sy_name s \<noteq> ''_'' then do {
           frame \<leftarrow> (case th_regs th of [] \<Rightarrow> None | frame # _ \<Rightarrow> Some frame);
           r \<leftarrow> frame s;
           at_put v idx r }
         else Some v }) v (rev [0..<num_elements]) }"

section \<open>Writing an operand\<close>

text \<open>The zero and sign flags of a value. The shift \<open>1 << (size - 1)\<close> of a 32 bit one counts modulo 32.\<close>

definition zero_flag :: "ptx_type \<Rightarrow> reg \<Rightarrow> bool option" where
  "zero_flag t v = (case t of
     S8_TYPE \<Rightarrow> Some ((fld v :: u8) AND 0x7F = 0)
   | S16_TYPE \<Rightarrow> Some ((fld v :: u16) AND 0x7FFF = 0)
   | S32_TYPE \<Rightarrow> Some ((fld v :: u32) AND 0x7FFFFFFF = 0)
   | S64_TYPE \<Rightarrow> Some ((fld v :: u64) AND 0x7FFFFFFFFFFFFFFF = 0)
   | U8_TYPE \<Rightarrow> Some ((fld v :: u8) = 0) | B8_TYPE \<Rightarrow> Some ((fld v :: u8) = 0)
   | U16_TYPE \<Rightarrow> Some ((fld v :: u16) = 0) | B16_TYPE \<Rightarrow> Some ((fld v :: u16) = 0)
   | U32_TYPE \<Rightarrow> Some ((fld v :: u32) = 0) | B32_TYPE \<Rightarrow> Some ((fld v :: u32) = 0)
   | U64_TYPE \<Rightarrow> Some ((fld v :: u64) = 0) | B64_TYPE \<Rightarrow> Some ((fld v :: u64) = 0)
   | F16_TYPE \<Rightarrow> Some (f32_eq (fld v) 0) | F32_TYPE \<Rightarrow> Some (f32_eq (fld v) 0)
   | F64_TYPE \<Rightarrow> Some (f64_eq (fld v) 0) | FF64_TYPE \<Rightarrow> Some (f64_eq (fld v) 0)
   | _ \<Rightarrow> None)"

definition sign_flag :: "ptx_type \<Rightarrow> reg \<Rightarrow> bool" where
  "sign_flag t v =
     (t \<in> {S8_TYPE, S16_TYPE, S32_TYPE, S64_TYPE, U8_TYPE, U16_TYPE, U32_TYPE, U64_TYPE,
           B8_TYPE, B16_TYPE, B32_TYPE, B64_TYPE} \<and> (fld v :: u32) AND push_bit ((type_size t - 1) mod 32) 1 \<noteq> 0
      \<or> t = F32_TYPE \<and> f32_lt (fld v) 0)"

text \<open>A half of a register is replaced; \<open>~(0xFFFF0000)\<close> is a 32 bit mask, so the upper half of the 64 bits goes.\<close>

definition replace_half :: "operand_info \<Rightarrow> u64 \<Rightarrow> u64 \<Rightarrow> u64" where
  "replace_half dst old d =
     (if o_lohi dst = 1 then (old AND NOT 0xFFFF) + (d AND 0xFFFF)
      else (old AND 0xFFFF) + (push_bit 16 d AND 0xFFFF0000))"

definition write_half :: "operand_info \<Rightarrow> symbol \<Rightarrow> reg \<Rightarrow> ptx_thread \<Rightarrow> (reg \<times> ptx_thread) option" where
  "write_half dst s d th =
     (if o_lohi dst = 1 \<or> o_lohi dst = 2 then do {
        (old, th) \<leftarrow> reg_ref s th;
        Some (put (replace_half dst (fld old) (fld d)) 0, th) }
      else Some (put (fld d :: u64) 0, th))"

definition store_operand :: "operand_info \<Rightarrow> reg \<Rightarrow> ptx_type \<Rightarrow> ptx_thread \<Rightarrow> ptx_thread option" where
  "store_operand dst d t th = do {
     (a, th) \<leftarrow> get_operand_value dst dst t False th;
     let addr = (fld a :: u32);
     let bytes = reg_bytes (type_size t div 8) d;
     th \<leftarrow> (case o_addr_space dst of
         global_space \<Rightarrow> do { (_, m) \<leftarrow> mem_write addr bytes (th_global th); Some (th\<lparr>th_global := m\<rparr>) }
       | shared_space \<Rightarrow> do { (_, m) \<leftarrow> mem_write addr bytes (th_shared th); Some (th\<lparr>th_shared := m\<rparr>) }
       | local_space \<Rightarrow> do { (_, m) \<leftarrow> mem_write addr bytes (th_local th); Some (th\<lparr>th_local := m\<rparr>) }
       | _ \<Rightarrow> None);
     Some (th\<lparr>th_last_address := addr, th_last_space := o_addr_space dst\<rparr>) }"

definition set_operand_value :: "operand_info \<Rightarrow> reg \<Rightarrow> ptx_type \<Rightarrow> ptx_thread \<Rightarrow> ptx_thread option" where
  "set_operand_value dst d t th =
     (if o_addr_space dst = undefined_space then
        (if o_double dst = -1 then do {
           s1 \<leftarrow> vec_symbol dst 0;
           s2 \<leftarrow> vec_symbol dst 1;
           let zero = ((fld d :: u64) = 0);
           let v2 = (if t \<in> {F16_TYPE, F32_TYPE, F64_TYPE, FF64_TYPE}
                     then put (if zero then 0x3F800000 else 0 :: u32) 0
                     else put (if zero then 0xFFFFFFFF else 0 :: u32) 0);
           th \<leftarrow> set_reg s1 (put (fld d :: u64) 0) th;
           set_reg s2 v2 th }
         else if o_double dst = -2 \<or> o_double dst = -3 then do {
           p \<leftarrow> vec_symbol dst 0;
           s \<leftarrow> vec_symbol dst 1;
           z \<leftarrow> zero_flag t d;
           (v, th) \<leftarrow> write_half dst s d th;
           th \<leftarrow> set_reg p (put ((if z then 1 else 0) OR (if sign_flag t d then 2 else 0) :: u64) 0) th;
           set_reg s v th }
         else if t = BB128_TYPE then do {
           s1 \<leftarrow> vec_symbol dst 0; s2 \<leftarrow> vec_symbol dst 1; s3 \<leftarrow> vec_symbol dst 2; s4 \<leftarrow> vec_symbol dst 3;
           th \<leftarrow> set_reg s1 (put (fld d :: u32) 0) th;
           th \<leftarrow> set_reg s2 (put (fld (drop_bit 32 d) :: u32) 0) th;
           th \<leftarrow> set_reg s3 (put (fld (drop_bit 64 d) :: u32) 0) th;
           set_reg s4 (put (fld (drop_bit 96 d) :: u32) 0) th }
         else if t = BB64_TYPE \<or> t = FF64_TYPE then do {
           s1 \<leftarrow> vec_symbol dst 0; s2 \<leftarrow> vec_symbol dst 1;
           let v = put (fld d :: u32) (put (fld d :: u64) 0);
           th \<leftarrow> set_reg s1 v th;
           set_reg s2 (put (fld (drop_bit 32 d) :: u32) 0) th }
         else do {
           s \<leftarrow> get_symbol dst;
           (v, th) \<leftarrow> write_half dst s d th;
           set_reg s v th })
      else store_operand dst d t th)"

text \<open>The overload with flags, used by additions and multiplications: the flags go to bits 2 and 3 of the
  predicate of a double destination.\<close>

definition set_operand_flags :: "operand_info \<Rightarrow> reg \<Rightarrow> ptx_type \<Rightarrow> bool \<Rightarrow> bool \<Rightarrow> ptx_thread \<Rightarrow> ptx_thread option" where
  "set_operand_flags dst d t overflow carry th = do {
     th \<leftarrow> set_operand_value dst d t th;
     if o_double dst = -2 then do {
       s \<leftarrow> vec_symbol dst 0;
       (old, th) \<leftarrow> reg_ref s th;
       let v = (fld old AND NOT 0x0C :: u64);
       let v = v OR (if overflow then 8 else 0);
       let v = v OR (if carry then 4 else 0);
       set_reg s (put v 0) th }
     else if o_double dst = 0 then Some th
     else None }"

definition set_vector_operand_values :: "operand_info \<Rightarrow> reg list \<Rightarrow> ptx_thread \<Rightarrow> ptx_thread option" where
  "set_vector_operand_values dst v th = do {
     n \<leftarrow> get_vect_nelem dst;
     th \<leftarrow> foldM (\<lambda>th idx. do {
         s \<leftarrow> vec_symbol dst idx;
         r \<leftarrow> at_get v idx;
         set_reg s r th }) th [0..<n];
     r \<leftarrow> at_get v 0;
     Some (th\<lparr>th_last_set := r\<rparr>) }"

section \<open>Members of the union\<close>

lemma bit_fld: "bit (fld r :: 'a :: len word) i \<longleftrightarrow> i < LENGTH('a) \<and> bit r i"
  by (auto simp: fld_def bit_simps)

lemma bit_put: "bit (put (v :: 'a :: len word) r) i \<longleftrightarrow> i < 128 \<and> (if i < LENGTH('a) then bit v i else bit r i)"
  by (auto simp: put_def bit_simps dest: bit_imp_le_length)

lemma fld_put_le:
  assumes "LENGTH('b) \<le> LENGTH('a)" and "LENGTH('b) \<le> 128"
  shows "(fld (put (v :: 'a :: len word) r) :: 'b :: len word) = ucast v"
  by (rule bit_word_eqI) (use assms in \<open>auto simp: bit_fld bit_put bit_simps\<close>)

lemma fld_put [simp]: "LENGTH('a) \<le> 128 \<Longrightarrow> fld (put (v :: 'a :: len word) r) = v"
  by (simp add: fld_put_le)

lemma fld_put_zero: "LENGTH('b) \<le> 128 \<Longrightarrow> (fld (put (v :: 'a :: len word) 0) :: 'b :: len word) = ucast v"
  by (rule bit_word_eqI) (auto simp: bit_fld bit_put bit_simps dest: bit_imp_le_length)

lemma ucast_fld: "LENGTH('b) \<le> LENGTH('a) \<Longrightarrow> (ucast (fld r :: 'a :: len word) :: 'b :: len word) = fld r"
  by (rule bit_word_eqI) (auto simp: bit_fld bit_simps)

lemma put_put [simp]: "put (v :: 'a :: len word) (put (w :: 'a word) r) = put v r"
  by (rule bit_word_eqI) (auto simp: bit_put)

section \<open>Properties\<close>

text \<open>A register operand that is not doubled and not negated.\<close>

definition plain_reg :: "operand_info \<Rightarrow> symbol \<Rightarrow> bool" where
  "plain_reg op s \<longleftrightarrow> o_type op = reg_t \<and> o_value op = V_symbol s \<and> o_addr_space op = undefined_space
     \<and> o_double op = 0 \<and> \<not> o_neg op \<and> sy_name s \<noteq> ''_'' \<and> 0 < sy_uid s"

definition single_type :: "ptx_type \<Rightarrow> bool" where
  "single_type t \<longleftrightarrow> t \<notin> {BB128_TYPE, BB64_TYPE, FF64_TYPE}"

lemma set_reg_eq:
  "sy_name s \<noteq> ''_'' \<Longrightarrow> 0 < sy_uid s \<Longrightarrow> th_regs th = frame # frames \<Longrightarrow>
    set_reg s v th = Some (th\<lparr>th_regs := frame(s \<mapsto> v) # frames, th_last_set := v\<rparr>)"
  by (simp add: set_reg_def)

lemma get_plain_reg:
  assumes "plain_reg op s" and "single_type t" and "th_regs th = frame # frames" and "frame s = Some v"
  shows "get_operand_value op dst t deref th =
    Some (if o_lohi op = 1 \<or> o_lohi op = 2 then put (lohi_half op (fld v)) v else v, th)"
  using assms
  by (auto simp: get_operand_value_def operand_base_def single_operand_def plain_reg_def single_type_def op_is_reg_def
      get_symbol_def get_reg_def)

lemma set_plain_reg:
  assumes "plain_reg dst s" and "single_type t" and "th_regs th = frame # frames"
    and "v = put (if o_lohi dst = 1 \<or> o_lohi dst = 2
        then replace_half dst (case frame s of Some r \<Rightarrow> fld r | None \<Rightarrow> 0) (fld d) else fld d) 0"
  shows "set_operand_value dst d t th = Some (th\<lparr>th_regs := frame(s \<mapsto> v) # frames, th_last_set := v\<rparr>)"
  using assms
  by (auto simp: set_operand_value_def plain_reg_def single_type_def get_symbol_def write_half_def reg_ref_def
      set_reg_eq fld_def put_def split: option.splits)

lemma word64_halves:
  "(old AND NOT 0xFFFF) + (d AND 0xFFFF) = (old AND NOT 0xFFFF) OR (d AND 0xFFFF :: u64)"
  "(old AND 0xFFFF) + (push_bit 16 d AND 0xFFFF0000) = (old AND 0xFFFF) OR (push_bit 16 d AND 0xFFFF0000 :: u64)"
proof -
  have m: "(0xFFFF :: u64) = mask 16" "(0xFFFF0000 :: u64) = push_bit 16 (mask 16)" by (simp_all add: mask_numeral)
  show "(old AND NOT 0xFFFF) + (d AND 0xFFFF) = (old AND NOT 0xFFFF) OR (d AND 0xFFFF :: u64)"
    unfolding m by (rule disjunctive_add) (auto simp: bit_simps)
  show "(old AND 0xFFFF) + (push_bit 16 d AND 0xFFFF0000) = (old AND 0xFFFF) OR (push_bit 16 d AND 0xFFFF0000 :: u64)"
    unfolding m by (rule disjunctive_add) (auto simp: bit_simps)
qed

lemma replace_half_reads:
  assumes "o_lohi dst = 1 \<or> o_lohi dst = 2"
  shows "lohi_half dst (replace_half dst old d) = d AND 0xFFFF"
proof -
  have m: "(0xFFFF :: u64) = mask 16" "(0xFFFF0000 :: u64) = push_bit 16 (mask 16)" by (simp_all add: mask_numeral)
  show ?thesis
    using assms unfolding lohi_half_def replace_half_def word64_halves
    unfolding m by (auto intro!: bit_word_eqI simp: bit_simps)
qed

text \<open>The bits of a register after a write to it: a half register takes the low 16 bits of the value and keeps the other
  half. A write to the high half clears the bits from 32 on, since its mask \<open>~(0xFFFF0000)\<close> is a 32 bit number; a write
  to the low half keeps them.\<close>

definition written_bit :: "int \<Rightarrow> u64 \<Rightarrow> u64 \<Rightarrow> nat \<Rightarrow> bool" where
  "written_bit lohi old d i =
     (if lohi = 1 then (if i < 16 then bit d i else bit old i)
      else if lohi = 2 then (if i < 16 then bit old i else i < 32 \<and> bit d (i - 16))
      else bit d i)"

lemma bit_replace_half:
  assumes "o_lohi dst = 1 \<or> o_lohi dst = 2" and "i < 64"
  shows "bit (replace_half dst old d) i = written_bit (o_lohi dst) old d i"
proof -
  have m: "(0xFFFF :: u64) = mask 16" "(0xFFFF0000 :: u64) = push_bit 16 (mask 16)" by (simp_all add: mask_numeral)
  show ?thesis
    using assms unfolding replace_half_def word64_halves unfolding m written_bit_def by (auto simp: bit_simps)
qed

text \<open>C29. Writing a value to a register operand that is not doubled or negated, whole or half, changes the register in the top
  frame and the last value set, and nothing else of the thread: not another register, another frame or a memory.
  Its bits are those of \<open>written_bit\<close>, and reading the operand back gives the 64 bits of the value, or, for a half
  register, its low 16 bits.\<close>

theorem register_write_read:
  assumes "plain_reg dst s" and "single_type t" and "th_regs th = frame # frames"
    and "old = (case frame s of Some r \<Rightarrow> fld r | None \<Rightarrow> 0)"
  shows "\<exists>w th' v. set_operand_value dst d t th = Some th'
    \<and> th' = th\<lparr>th_regs := frame(s \<mapsto> put w 0) # frames, th_last_set := put w 0\<rparr>
    \<and> (\<forall>i < 64. bit (w :: u64) i = written_bit (o_lohi dst) old (fld d) i)
    \<and> get_operand_value dst dst' t deref th' = Some (v, th')
    \<and> fld v = (if o_lohi dst = 1 \<or> o_lohi dst = 2 then fld d AND 0xFFFF else fld d :: u64)"
proof -
  let ?w = "if o_lohi dst = 1 \<or> o_lohi dst = 2 then replace_half dst old (fld d) else fld d :: u64"
  let ?th = "th\<lparr>th_regs := frame(s \<mapsto> put ?w 0) # frames, th_last_set := put ?w 0\<rparr>"
  have set: "set_operand_value dst d t th = Some ?th"
    by (rule set_plain_reg [OF assms(1-3)]) (simp add: assms(4))
  have bits: "bit ?w i = written_bit (o_lohi dst) old (fld d) i" if "i < 64" for i
  proof (cases "o_lohi dst = 1 \<or> o_lohi dst = 2")
    case True
    then show ?thesis using bit_replace_half [OF True that] by simp
  qed (simp add: written_bit_def)
  have get: "get_operand_value dst dst' t deref ?th =
      Some (if o_lohi dst = 1 \<or> o_lohi dst = 2 then put (lohi_half dst (fld (put ?w 0))) (put ?w 0) else put ?w 0, ?th)"
    by (rule get_plain_reg [OF assms(1,2), of _ "frame(s \<mapsto> put ?w 0)" frames]) simp_all
  have read: "(fld (if o_lohi dst = 1 \<or> o_lohi dst = 2 then put (lohi_half dst (fld (put ?w 0))) (put ?w 0) else put ?w 0) :: u64)
      = (if o_lohi dst = 1 \<or> o_lohi dst = 2 then fld d AND 0xFFFF else fld d)"
    using replace_half_reads [of dst] by auto
  show ?thesis by (rule exI [of _ ?w], rule exI [of _ ?th]) (use set bits get read in blast)
qed

definition reg_symbol :: "string \<Rightarrow> nat \<Rightarrow> symbol" where
  "reg_symbol n u = \<lparr>sy_name = n, sy_uid = u, sy_space = reg_space, sy_scalar = U32_TYPE, sy_is_label = False, sy_address = 0\<rparr>"

definition reg_operand :: "symbol \<Rightarrow> int \<Rightarrow> operand_info" where
  "reg_operand s lohi = \<lparr>o_type = reg_t, o_value = V_symbol s, o_vector = False, o_immediate_address = False,
     o_addr_space = undefined_space, o_lohi = lohi, o_double = 0, o_neg = False, o_const_mem_offset = 0,
     o_addr_offset = 0, o_neg_pred = False\<rparr>"

definition sample_thread :: ptx_thread where
  "sample_thread = \<lparr>th_regs = [(\<lambda>_. Some 0x12345678)], th_last_set = 0, th_global = sample_mem, th_shared = sample_mem,
     th_local = sample_mem, th_last_address = 0, th_last_space = undefined_space, th_builtin = (\<lambda>_ _. 0)\<rparr>"

lemma plain_reg_operand: "n \<noteq> ''_'' \<Longrightarrow> 0 < u \<Longrightarrow> plain_reg (reg_operand (reg_symbol n u) lohi) (reg_symbol n u)"
  by (simp add: plain_reg_def reg_operand_def reg_symbol_def)

theorem register_write_read_witness:
  "\<exists>w th' v. set_operand_value (reg_operand (reg_symbol ''r1'' 1) 2) 0xABCD U32_TYPE sample_thread = Some th'
    \<and> (\<forall>i < 64. bit (w :: u64) i = written_bit 2 0x12345678 0xABCD i)
    \<and> get_operand_value (reg_operand (reg_symbol ''r1'' 1) 2) (reg_operand (reg_symbol ''r1'' 1) 2) U32_TYPE True th'
        = Some (v, th')
    \<and> fld v = (0xABCD :: u64)"
proof -
  have "(fld (0xABCD :: reg) :: u64) = 0xABCD" "(fld (0xABCD :: reg) AND 0xFFFF :: u64) = 0xABCD"
    "(case Some (0x12345678 :: reg) of Some r \<Rightarrow> fld r | None \<Rightarrow> (0 :: u64)) = 0x12345678" by (simp_all add: fld_def)
  moreover have "o_lohi (reg_operand s l) = l" for s l by (simp add: reg_operand_def)
  moreover have "th_regs sample_thread = (\<lambda>_. Some 0x12345678) # []" by (simp add: sample_thread_def)
  ultimately show ?thesis
    using register_write_read [where dst = "reg_operand (reg_symbol ''r1'' 1) 2" and s = "reg_symbol ''r1'' 1"
        and t = U32_TYPE and th = sample_thread and frame = "\<lambda>_. Some 0x12345678" and frames = "[]" and d = "0xABCD"
        and old = "0x12345678" and dst' = "reg_operand (reg_symbol ''r1'' 1) 2" and deref = True]
      plain_reg_operand [of "''r1''" 1 2] by (auto simp: single_type_def)
qed

text \<open>The flags of a value ignore its top bit: the least signed number counts as zero, and the sign of a 64 bit
  number is taken from its bit 31.\<close>

theorem flags_ignore_top_bit:
  "zero_flag S32_TYPE (put (0x80000000 :: u32) 0) = Some True"
  "\<not> sign_flag S64_TYPE (put (0x8000000000000000 :: u64) 0)"
  "sign_flag S64_TYPE (put (0x80000000 :: u64) 0)"
  by (simp_all add: zero_flag_def sign_flag_def fld_put_zero type_size_def type_decode_def)

end
