(* ===== verification/Ptx_Alu.thy ===== *)
theory Ptx_Alu
  imports Ptx_Regs "HOL-Library.Signed_Division"
begin

text \<open>
  The arithmetic, logic, comparison, shift and conversion instructions of the functional simulator, the
  \<open>*_impl\<close> functions of \<open>cuda-sim/instructions.cc\<close>. Each has an \<open>*_alu\<close> function from the values of its
  operands to its result, the \<open>switch\<close> of the source, in which \<open>None\<close> is a failed assertion or a trap, and
  an \<open>*_impl\<close> that reads the operands of a thread and writes the result back. Integers have the width C++
  computes with; signed overflow is taken to wrap. Floating point operations on bit patterns are the record
  \<open>fpu\<close>, an argument.
\<close>

section \<open>Instructions\<close>

datatype rounding_mode =
  RN_OPTION | RZ_OPTION | RM_OPTION | RP_OPTION | RNI_OPTION | RZI_OPTION | RMI_OPTION | RPI_OPTION

datatype cmpop =
  EQ_OPTION | NE_OPTION | LT_OPTION | LE_OPTION | GT_OPTION | GE_OPTION | LO_OPTION | LS_OPTION | HI_OPTION
| HS_OPTION | EQU_OPTION | NEU_OPTION | LTU_OPTION | LEU_OPTION | GTU_OPTION | GEU_OPTION | NUM_OPTION | NAN_OPTION

record fpu =
  f32_add :: "rounding_mode \<Rightarrow> u32 \<Rightarrow> u32 \<Rightarrow> u32"
  f32_sub :: "rounding_mode \<Rightarrow> u32 \<Rightarrow> u32 \<Rightarrow> u32"
  f32_mul :: "rounding_mode \<Rightarrow> u32 \<Rightarrow> u32 \<Rightarrow> u32"
  f32_div :: "rounding_mode \<Rightarrow> u32 \<Rightarrow> u32 \<Rightarrow> u32"
  f64_add :: "rounding_mode \<Rightarrow> u64 \<Rightarrow> u64 \<Rightarrow> u64"
  f64_sub :: "rounding_mode \<Rightarrow> u64 \<Rightarrow> u64 \<Rightarrow> u64"
  f64_mul :: "rounding_mode \<Rightarrow> u64 \<Rightarrow> u64 \<Rightarrow> u64"
  f64_div :: "rounding_mode \<Rightarrow> u64 \<Rightarrow> u64 \<Rightarrow> u64"

record ptx_instruction =
  pi_dst :: operand_info
  pi_src1 :: operand_info
  pi_src2 :: operand_info
  pi_src3 :: operand_info
  pi_src4 :: operand_info
  pi_num_operands :: nat
  pi_type :: ptx_type
  pi_type2 :: ptx_type
  pi_rounding :: rounding_mode
  pi_saturation :: bool
  pi_wide :: bool
  pi_hi :: bool
  pi_lo :: bool
  pi_cmpop :: cmpop
  pi_abs :: bool
  pi_neg :: bool

definition src_value :: "operand_info \<Rightarrow> ptx_instruction \<Rightarrow> ptx_type \<Rightarrow> ptx_thread \<Rightarrow> (reg \<times> ptx_thread) option" where
  "src_value op pI t th = get_operand_value op (pi_dst pI) t True th"

text \<open>The frames of the instructions with one, two and three sources.\<close>

definition exec1 :: "(reg \<Rightarrow> reg option) \<Rightarrow> ptx_instruction \<Rightarrow> ptx_thread \<Rightarrow> ptx_thread option" where
  "exec1 alu pI th = do {
     (a, th) \<leftarrow> src_value (pi_src1 pI) pI (pi_type pI) th;
     d \<leftarrow> alu a;
     set_operand_value (pi_dst pI) d (pi_type pI) th }"

definition exec2 :: "(reg \<Rightarrow> reg \<Rightarrow> reg option) \<Rightarrow> ptx_instruction \<Rightarrow> ptx_thread \<Rightarrow> ptx_thread option" where
  "exec2 alu pI th = do {
     (a, th) \<leftarrow> src_value (pi_src1 pI) pI (pi_type pI) th;
     (b, th) \<leftarrow> src_value (pi_src2 pI) pI (pi_type pI) th;
     d \<leftarrow> alu a b;
     set_operand_value (pi_dst pI) d (pi_type pI) th }"

definition exec3 :: "(reg \<Rightarrow> reg \<Rightarrow> reg \<Rightarrow> reg option) \<Rightarrow> ptx_instruction \<Rightarrow> ptx_thread \<Rightarrow> ptx_thread option" where
  "exec3 alu pI th = do {
     (a, th) \<leftarrow> src_value (pi_src1 pI) pI (pi_type pI) th;
     (b, th) \<leftarrow> src_value (pi_src2 pI) pI (pi_type pI) th;
     (c, th) \<leftarrow> src_value (pi_src3 pI) pI (pi_type pI) th;
     d \<leftarrow> alu a b c;
     set_operand_value (pi_dst pI) d (pi_type pI) th }"

section \<open>Addition and subtraction\<close>

text \<open>The signed cases of \<open>add\<close> and \<open>sub\<close> at a width \<open>w\<close>: sum, overflow and carry.\<close>

definition add_s :: "nat \<Rightarrow> u64 \<Rightarrow> u64 \<Rightarrow> u64 \<Rightarrow> u64 \<times> bool \<times> bool" where
  "add_s w a b c =
     (let s = push_bit (w - 1) 1;
          d = (a AND mask w) + (b AND mask w) + c
      in (d, (a AND s) - (b AND s) = 0 \<and> (a AND s) - (d AND s) \<noteq> 0, bit d w))"

definition add_u :: "nat \<Rightarrow> u64 \<Rightarrow> u64 \<Rightarrow> u64 \<Rightarrow> u64 \<times> bool \<times> bool" where
  "add_u w a b c = (let d = (a AND mask w) + (b AND mask w) + c in (d, False, bit d w))"

definition sub_s :: "nat \<Rightarrow> u64 \<Rightarrow> u64 \<Rightarrow> u64 \<times> bool \<times> bool" where
  "sub_s w a b =
     (let s = push_bit (w - 1) 1;
          d = (a AND mask w) - (b AND mask w) + push_bit w 1
      in (d, (a AND s) - (b AND s) \<noteq> 0 \<and> (a AND s) - (d AND s) \<noteq> 0, bit d w))"

definition sub_u :: "nat \<Rightarrow> u64 \<Rightarrow> u64 \<Rightarrow> u64 \<times> bool \<times> bool" where
  "sub_u w a b = (let d = (a AND mask w) - (b AND mask w) + push_bit w 1 in (d, False, bit d w))"

text \<open>The switch that \<open>add\<close> and \<open>addp\<close> share, with the term \<open>c\<close> added for the carry in.\<close>

definition add_switch :: "fpu \<Rightarrow> ptx_instruction \<Rightarrow> u64 \<Rightarrow> reg \<Rightarrow> reg \<Rightarrow> (reg \<times> bool \<times> bool) option" where
  "add_switch f pI c ra rb = do {
     _ \<leftarrow> assert_c (pi_rounding pI \<in> {RN_OPTION, RZ_OPTION});
     let a = (fld ra :: u64);
     let b = (fld rb :: u64);
     let int64 = (\<lambda>(d, ov, cy). Some (put (d :: u64) 0, ov, cy));
     case pi_type pI of
       S8_TYPE \<Rightarrow> int64 (add_s 8 a b c)
     | S16_TYPE \<Rightarrow> int64 (add_s 16 a b c)
     | S32_TYPE \<Rightarrow> int64 (add_s 32 a b c)
     | S64_TYPE \<Rightarrow> int64 (a + b + c, False, False)
     | U8_TYPE \<Rightarrow> int64 (add_u 8 a b c)
     | U16_TYPE \<Rightarrow> int64 (add_u 16 a b c)
     | U32_TYPE \<Rightarrow> int64 (add_u 32 a b c)
     | U64_TYPE \<Rightarrow> int64 (a + b + c, False, False)
     | F32_TYPE \<Rightarrow> Some (put (f32_add f (pi_rounding pI) (fld ra) (fld rb)) 0, False, False)
     | F64_TYPE \<Rightarrow> Some (put (f64_add f (pi_rounding pI) a b) 0, False, False)
     | FF64_TYPE \<Rightarrow> Some (put (f64_add f (pi_rounding pI) a b) 0, False, False)
     | _ \<Rightarrow> None }"

definition add_alu :: "fpu \<Rightarrow> ptx_instruction \<Rightarrow> reg \<Rightarrow> reg \<Rightarrow> (reg \<times> bool \<times> bool) option" where
  "add_alu f pI a b = add_switch f pI 0 a b"

text \<open>\<open>addp\<close> adds \<open>src3_data.pred & 0x4\<close>.\<close>

definition addp_alu :: "fpu \<Rightarrow> ptx_instruction \<Rightarrow> reg \<Rightarrow> reg \<Rightarrow> reg \<Rightarrow> (reg \<times> bool \<times> bool) option" where
  "addp_alu f pI a b c = add_switch f pI (ucast (fld c AND 4 :: 4 word)) a b"

definition sub_alu :: "fpu \<Rightarrow> ptx_instruction \<Rightarrow> reg \<Rightarrow> reg \<Rightarrow> (reg \<times> bool \<times> bool) option" where
  "sub_alu f pI ra rb = do {
     let a = (fld ra :: u64);
     let b = (fld rb :: u64);
     let int64 = (\<lambda>(d, ov, cy). Some (put (d :: u64) 0, ov, cy));
     case pi_type pI of
       S8_TYPE \<Rightarrow> int64 (sub_s 8 a b)
     | S16_TYPE \<Rightarrow> int64 (sub_s 16 a b)
     | S32_TYPE \<Rightarrow> int64 (sub_s 32 a b)
     | S64_TYPE \<Rightarrow> int64 (a - b, False, False)
     | B8_TYPE \<Rightarrow> int64 (sub_u 8 a b) | U8_TYPE \<Rightarrow> int64 (sub_u 8 a b)
     | B16_TYPE \<Rightarrow> int64 (sub_u 16 a b) | U16_TYPE \<Rightarrow> int64 (sub_u 16 a b)
     | B32_TYPE \<Rightarrow> int64 (sub_u 32 a b) | U32_TYPE \<Rightarrow> int64 (sub_u 32 a b)
     | B64_TYPE \<Rightarrow> int64 (a - b, False, False) | U64_TYPE \<Rightarrow> int64 (a - b, False, False)
     | F32_TYPE \<Rightarrow> Some (put (f32_sub f RN_OPTION (fld ra) (fld rb)) 0, False, False)
     | F64_TYPE \<Rightarrow> Some (put (f64_sub f RN_OPTION a b) 0, False, False)
     | FF64_TYPE \<Rightarrow> Some (put (f64_sub f RN_OPTION a b) 0, False, False)
     | _ \<Rightarrow> None }"

definition add_impl :: "fpu \<Rightarrow> ptx_instruction \<Rightarrow> ptx_thread \<Rightarrow> ptx_thread option" where
  "add_impl f pI th = do {
     (a, th) \<leftarrow> src_value (pi_src1 pI) pI (pi_type pI) th;
     (b, th) \<leftarrow> src_value (pi_src2 pI) pI (pi_type pI) th;
     (d, ov, cy) \<leftarrow> add_alu f pI a b;
     set_operand_flags (pi_dst pI) d (pi_type pI) ov cy th }"

definition addp_impl :: "fpu \<Rightarrow> ptx_instruction \<Rightarrow> ptx_thread \<Rightarrow> ptx_thread option" where
  "addp_impl f pI th = do {
     (a, th) \<leftarrow> src_value (pi_src1 pI) pI (pi_type pI) th;
     (b, th) \<leftarrow> src_value (pi_src2 pI) pI (pi_type pI) th;
     (c, th) \<leftarrow> src_value (pi_src3 pI) pI (pi_type pI) th;
     (d, ov, cy) \<leftarrow> addp_alu f pI a b c;
     set_operand_flags (pi_dst pI) d (pi_type pI) ov cy th }"

definition sub_impl :: "fpu \<Rightarrow> ptx_instruction \<Rightarrow> ptx_thread \<Rightarrow> ptx_thread option" where
  "sub_impl f pI th = do {
     (a, th) \<leftarrow> src_value (pi_src1 pI) pI (pi_type pI) th;
     (b, th) \<leftarrow> src_value (pi_src2 pI) pI (pi_type pI) th;
     (d, ov, cy) \<leftarrow> sub_alu f pI a b;
     set_operand_flags (pi_dst pI) d (pi_type pI) ov cy th }"

section \<open>Absolute value, negation, minimum and maximum\<close>

definition my_abs :: "'a :: len word \<Rightarrow> 'a word" where
  "my_abs a = (if sint a < 0 then - a else a)"

definition abs_alu :: "ptx_instruction \<Rightarrow> reg \<Rightarrow> reg option" where
  "abs_alu pI a = (case pi_type pI of
     S16_TYPE \<Rightarrow> Some (put (my_abs (fld a :: u16)) 0)
   | S32_TYPE \<Rightarrow> Some (put (my_abs (fld a :: u32)) 0)
   | S64_TYPE \<Rightarrow> Some (put (my_abs (fld a :: u64)) 0)
   | U16_TYPE \<Rightarrow> Some (put (fld a :: u16) 0)
   | U32_TYPE \<Rightarrow> Some (put (fld a :: u32) 0)
   | U64_TYPE \<Rightarrow> Some (put (fld a :: u64) 0)
   | F32_TYPE \<Rightarrow> Some (put (if f32_lt (fld a) 0 then f32_neg (fld a) else fld a) 0)
   | F64_TYPE \<Rightarrow> Some (put (if f64_lt (fld a) 0 then f64_neg (fld a) else fld a) 0)
   | FF64_TYPE \<Rightarrow> Some (put (if f64_lt (fld a) 0 then f64_neg (fld a) else fld a) 0)
   | _ \<Rightarrow> None)"

definition abs_impl :: "ptx_instruction \<Rightarrow> ptx_thread \<Rightarrow> ptx_thread option" where
  "abs_impl pI = exec1 (abs_alu pI) pI"

definition neg_alu :: "fpu \<Rightarrow> ptx_instruction \<Rightarrow> reg \<Rightarrow> reg option" where
  "neg_alu f pI a =
     (if pi_type pI \<in> {S8_TYPE, S16_TYPE, S32_TYPE, S64_TYPE} then Some (put (0 - (fld a :: u64)) 0)
      else if pi_type pI = F32_TYPE then Some (put (f32_sub f RN_OPTION 0 (fld a)) 0)
      else if pi_type pI \<in> {F64_TYPE, FF64_TYPE} then Some (put (f64_sub f RN_OPTION 0 (fld a)) 0)
      else None)"

definition neg_impl :: "fpu \<Rightarrow> ptx_instruction \<Rightarrow> ptx_thread \<Rightarrow> ptx_thread option" where
  "neg_impl f pI = exec1 (neg_alu f pI) pI"

definition umax :: "'a :: len word \<Rightarrow> 'a word \<Rightarrow> 'a word" where "umax a b = (if a > b then a else b)"
definition umin :: "'a :: len word \<Rightarrow> 'a word \<Rightarrow> 'a word" where "umin a b = (if a < b then a else b)"
definition smax :: "'a :: len word \<Rightarrow> 'a word \<Rightarrow> 'a word" where "smax a b = (if sint a > sint b then a else b)"
definition smin :: "'a :: len word \<Rightarrow> 'a word \<Rightarrow> 'a word" where "smin a b = (if sint a < sint b then a else b)"

definition max_alu :: "ptx_instruction \<Rightarrow> reg \<Rightarrow> reg \<Rightarrow> reg option" where
  "max_alu pI a b = (case pi_type pI of
     U16_TYPE \<Rightarrow> Some (put (umax (fld a :: u16) (fld b)) 0)
   | U32_TYPE \<Rightarrow> Some (put (umax (fld a :: u32) (fld b)) 0)
   | U64_TYPE \<Rightarrow> Some (put (umax (fld a :: u64) (fld b)) 0)
   | S16_TYPE \<Rightarrow> Some (put (smax (fld a :: u16) (fld b)) 0)
   | S32_TYPE \<Rightarrow> Some (put (smax (fld a :: u32) (fld b)) 0)
   | S64_TYPE \<Rightarrow> Some (put (smax (fld a :: u64) (fld b)) 0)
   | F32_TYPE \<Rightarrow> Some (put (if f32_nan (fld a) then fld b else if f32_nan (fld b) then fld a
       else if f32_lt (fld b) (fld a) then fld a else fld b :: u32) 0)
   | _ \<Rightarrow> if pi_type pI \<in> {F64_TYPE, FF64_TYPE}
       then Some (put (if f64_nan (fld a) then fld b else if f64_nan (fld b) then fld a
         else if f64_lt (fld b) (fld a) then fld a else fld b :: u64) 0)
       else None)"

definition min_alu :: "ptx_instruction \<Rightarrow> reg \<Rightarrow> reg \<Rightarrow> reg option" where
  "min_alu pI a b = (case pi_type pI of
     U16_TYPE \<Rightarrow> Some (put (umin (fld a :: u16) (fld b)) 0)
   | U32_TYPE \<Rightarrow> Some (put (umin (fld a :: u32) (fld b)) 0)
   | U64_TYPE \<Rightarrow> Some (put (umin (fld a :: u64) (fld b)) 0)
   | S16_TYPE \<Rightarrow> Some (put (smin (fld a :: u16) (fld b)) 0)
   | S32_TYPE \<Rightarrow> Some (put (smin (fld a :: u32) (fld b)) 0)
   | S64_TYPE \<Rightarrow> Some (put (smin (fld a :: u64) (fld b)) 0)
   | F32_TYPE \<Rightarrow> Some (put (if f32_nan (fld a) then fld b else if f32_nan (fld b) then fld a
       else if f32_lt (fld a) (fld b) then fld a else fld b :: u32) 0)
   | _ \<Rightarrow> if pi_type pI \<in> {F64_TYPE, FF64_TYPE}
       then Some (put (if f64_nan (fld a) then fld b else if f64_nan (fld b) then fld a
         else if f64_lt (fld a) (fld b) then fld a else fld b :: u64) 0)
       else None)"

definition max_impl :: "ptx_instruction \<Rightarrow> ptx_thread \<Rightarrow> ptx_thread option" where
  "max_impl pI = exec2 (max_alu pI) pI"

definition min_impl :: "ptx_instruction \<Rightarrow> ptx_thread \<Rightarrow> ptx_thread option" where
  "min_impl pI = exec2 (min_alu pI) pI"

text \<open>\<open>SAD\<close>: \<open>c + |a - b|\<close>.\<close>

definition sad_u :: "'a :: len word \<Rightarrow> 'a word \<Rightarrow> 'a word \<Rightarrow> 'a word" where
  "sad_u a b c = c + (if a < b then b - a else a - b)"

definition sad_s :: "'a :: len word \<Rightarrow> 'a word \<Rightarrow> 'a word \<Rightarrow> 'a word" where
  "sad_s a b c = c + (if sint a < sint b then b - a else a - b)"

definition sad_alu :: "fpu \<Rightarrow> ptx_instruction \<Rightarrow> reg \<Rightarrow> reg \<Rightarrow> reg \<Rightarrow> reg option" where
  "sad_alu f pI a b c = (case pi_type pI of
     U16_TYPE \<Rightarrow> Some (put (sad_u (fld a :: u16) (fld b) (fld c)) 0)
   | U32_TYPE \<Rightarrow> Some (put (sad_u (fld a :: u32) (fld b) (fld c)) 0)
   | U64_TYPE \<Rightarrow> Some (put (sad_u (fld a :: u64) (fld b) (fld c)) 0)
   | S16_TYPE \<Rightarrow> Some (put (sad_s (fld a :: u16) (fld b) (fld c)) 0)
   | S32_TYPE \<Rightarrow> Some (put (sad_s (fld a :: u32) (fld b) (fld c)) 0)
   | S64_TYPE \<Rightarrow> Some (put (sad_s (fld a :: u64) (fld b) (fld c)) 0)
   | F32_TYPE \<Rightarrow> Some (put (f32_add f RN_OPTION (fld c) (if f32_lt (fld a) (fld b)
       then f32_sub f RN_OPTION (fld b) (fld a) else f32_sub f RN_OPTION (fld a) (fld b))) 0)
   | _ \<Rightarrow> if pi_type pI \<in> {F64_TYPE, FF64_TYPE}
       then Some (put (f64_add f RN_OPTION (fld c) (if f64_lt (fld a) (fld b)
         then f64_sub f RN_OPTION (fld b) (fld a) else f64_sub f RN_OPTION (fld a) (fld b))) 0)
       else None)"

definition sad_impl :: "fpu \<Rightarrow> ptx_instruction \<Rightarrow> ptx_thread \<Rightarrow> ptx_thread option" where
  "sad_impl f pI = exec3 (sad_alu f pI) pI"

section \<open>Multiplication\<close>

text \<open>Products in C++: operands sign or zero extended to the type of the product, which wraps.\<close>

definition mul_sx :: "'a :: len word \<Rightarrow> 'a word \<Rightarrow> 'b :: len word" where "mul_sx a b = scast a * scast b"
definition mul_zx :: "'a :: len word \<Rightarrow> 'a word \<Rightarrow> 'b :: len word" where "mul_zx a b = ucast a * ucast b"

definition saturate32 :: "ptx_instruction \<Rightarrow> u32 \<Rightarrow> u32" where
  "saturate32 pI d = (if pi_saturation pI then if f32_lt d 0 then 0 else if f32_lt 0x3F800000 d then 0x3F800000 else d else d)"

definition saturate64 :: "ptx_instruction \<Rightarrow> u64 \<Rightarrow> u64" where
  "saturate64 pI d = (if pi_saturation pI then if f64_lt d 0 then 0
     else if f64_lt 0x3FF0000000000000 d then 0x3FF0000000000000 else d else d)"

definition mul_alu :: "fpu \<Rightarrow> ptx_instruction \<Rightarrow> reg \<Rightarrow> reg \<Rightarrow> reg option" where
  "mul_alu f pI a b = (case pi_type pI of
     S16_TYPE \<Rightarrow>
       (let t = (mul_sx (fld a :: u16) (fld b) :: u32)
        in if pi_wide pI then Some (put t 0)
           else if pi_hi pI then Some (put (ucast (signed_drop_bit 16 t) :: u16) 0)
           else if pi_lo pI then Some (put (ucast t :: u16) 0) else None)
   | S32_TYPE \<Rightarrow>
       (let t = (mul_sx (fld a :: u32) (fld b) :: u64)
        in if pi_wide pI then Some (put t 0)
           else if pi_hi pI then Some (put (ucast (signed_drop_bit 32 t) :: u32) 0)
           else if pi_lo pI then Some (put (ucast t :: u32) 0) else None)
   | U16_TYPE \<Rightarrow>
       (let t = (mul_zx (fld a :: u16) (fld b) :: u32)
        in if pi_wide pI then Some (put t 0)
           else if pi_lo pI then Some (put (ucast t :: u16) 0)
           else if pi_hi pI then Some (put (ucast (drop_bit 16 t) :: u16) 0) else None)
   | U32_TYPE \<Rightarrow>
       (let t = (mul_zx (fld a :: u32) (fld b) :: u64)
        in if pi_wide pI then Some (put t 0)
           else if pi_lo pI then Some (put (ucast t :: u32) 0)
           else if pi_hi pI then Some (put (ucast (drop_bit 32 t) :: u32) 0) else None)
   | F32_TYPE \<Rightarrow> do {
       _ \<leftarrow> assert_c (pi_rounding pI \<in> {RN_OPTION, RZ_OPTION});
       Some (put (saturate32 pI (f32_mul f (pi_rounding pI) (fld a) (fld b))) 0) }
   | _ \<Rightarrow> if pi_type pI \<in> {S64_TYPE, U64_TYPE} then do {
         _ \<leftarrow> assert_c (\<not> pi_wide pI);
         _ \<leftarrow> assert_c (\<not> pi_hi pI);
         _ \<leftarrow> assert_c (pi_lo pI);
         Some (put ((fld a :: u64) * fld b) 0) }
       else if pi_type pI \<in> {F64_TYPE, FF64_TYPE} then do {
         _ \<leftarrow> assert_c (pi_rounding pI \<in> {RN_OPTION, RZ_OPTION});
         Some (put (saturate64 pI (f64_mul f (pi_rounding pI) (fld a) (fld b))) 0) }
       else None)"

definition mul_impl :: "fpu \<Rightarrow> ptx_instruction \<Rightarrow> ptx_thread \<Rightarrow> ptx_thread option" where
  "mul_impl f pI = exec2 (mul_alu f pI) pI"

definition mul24_alu :: "ptx_instruction \<Rightarrow> reg \<Rightarrow> reg \<Rightarrow> reg option" where
  "mul24_alu pI a b = do {
     let a = mask_and 0 0x00FFFFFF a;
     let b = mask_and 0 0x00FFFFFF b;
     d \<leftarrow> (if pi_type pI = S32_TYPE then
             (let a = (if get_bit 23 a then mask_or 0xFFFFFFFF 0xFF000000 a else a);
                  b = (if get_bit 23 b then mask_or 0xFFFFFFFF 0xFF000000 b else b)
              in Some (put ((fld a :: u64) * fld b) 0))
           else if pi_type pI = U32_TYPE then Some (put ((fld a :: u64) * fld b) 0)
           else None);
     Some (if pi_hi pI then mask_and 0 0xFFFFFFFF (put (drop_bit 16 (fld d :: u64)) d)
           else if pi_lo pI then mask_and 0 0xFFFFFFFF d
           else d) }"

definition mul24_impl :: "ptx_instruction \<Rightarrow> ptx_thread \<Rightarrow> ptx_thread option" where
  "mul24_impl pI = exec2 (mul24_alu pI) pI"

text \<open>In \<open>mad24\<close> and \<open>mad\<close> the product of two 32 bit operands is computed in 32 bits.\<close>

definition mad24_alu :: "ptx_instruction \<Rightarrow> reg \<Rightarrow> reg \<Rightarrow> reg \<Rightarrow> reg option" where
  "mad24_alu pI a b c = do {
     _ \<leftarrow> assert_c (\<not> pi_wide pI);
     if pi_type pI = S32_TYPE then
       (let t = (scast ((fld a :: u32) * fld b) :: u64)
        in if pi_hi pI then
             (let d = signed_drop_bit 16 t + scast (fld c :: u32)
              in Some (put (if pi_saturation pI then if sint d > 0x7FFFFFFF then 0x7FFFFFFF
                  else if sint d < - 0x80000000 then - 0x80000000 else d else d) 0))
           else if pi_lo pI then Some (put (scast ((ucast t :: u32) + fld c) :: u64) 0)
           else None)
     else if pi_type pI = U32_TYPE then
       (let t = (ucast ((fld a :: u32) * fld b) :: u64)
        in if pi_hi pI then Some (put (drop_bit 16 t + ucast (fld c :: u32)) 0)
           else if pi_lo pI then Some (put (ucast ((ucast t :: u32) + fld c) :: u64) 0)
           else None)
     else None }"

definition mad24_impl :: "ptx_instruction \<Rightarrow> ptx_thread \<Rightarrow> ptx_thread option" where
  "mad24_impl pI = exec3 (mad24_alu pI) pI"

text \<open>\<open>mad_def\<close>, with \<open>p\<close> the carry in (0 or 1); the result is the sum and the carry out.\<close>

definition mad_alu :: "fpu \<Rightarrow> ptx_instruction \<Rightarrow> bool \<Rightarrow> bool \<Rightarrow> reg \<Rightarrow> reg \<Rightarrow> reg \<Rightarrow> (reg \<times> bool) option" where
  "mad_alu f pI use_carry carry_in a b c =
     (case pi_type pI of
        S16_TYPE \<Rightarrow>
          (let p = of_bool carry_in; t = (mul_sx (fld a :: u16) (fld b) :: u32); cy = bit (t + fld c + p) 31
           in if pi_wide pI then Some (put (t + fld c + p) 0, cy)
              else if pi_hi pI then Some (put (ucast (signed_drop_bit 16 t + scast (fld c :: u16) + p) :: u16) 0, cy)
              else if pi_lo pI then Some (put (ucast t + (fld c :: u16) + of_bool carry_in) 0, cy)
              else None)
      | S32_TYPE \<Rightarrow>
          (let t = (scast ((fld a :: u32) * fld b) :: u64)
           in if pi_wide pI then Some (put (t + fld c + of_bool carry_in) 0, False)
              else if pi_hi pI
              then Some (put (ucast (signed_drop_bit 32 t + scast (fld c :: u32) + of_bool carry_in) :: u32) 0, False)
              else if pi_lo pI then Some (put (ucast t + (fld c :: u32) + of_bool carry_in) 0, False)
              else None)
      | U16_TYPE \<Rightarrow>
          (let p = of_bool carry_in; t = (mul_zx (fld a :: u16) (fld b) :: u32);
               cy = bit ((ucast t :: u64) + ucast (fld c :: u32) + of_bool carry_in) 32
           in if pi_wide pI then Some (put (t + fld c + p) 0, cy)
              else if pi_hi pI then Some (put (ucast (drop_bit 16 (t + ucast (fld c :: u16) + p)) :: u16) 0, cy)
              else if pi_lo pI then Some (put (ucast t + (fld c :: u16) + of_bool carry_in) 0, cy)
              else None)
      | U32_TYPE \<Rightarrow>
          (let t = (ucast ((fld a :: u32) * fld b) :: u64)
           in if pi_wide pI then Some (put (t + fld c + of_bool carry_in) 0, False)
              else if pi_hi pI
              then Some (put (ucast (drop_bit 32 (t + ucast (fld c :: u32) + of_bool carry_in)) :: u32) 0, False)
              else if pi_lo pI then Some (put (ucast t + (fld c :: u32) + of_bool carry_in) 0, False)
              else None)
      | F32_TYPE \<Rightarrow> do {
          _ \<leftarrow> assert_c (\<not> use_carry);
          _ \<leftarrow> assert_c (pi_rounding pI \<in> {RN_OPTION, RZ_OPTION});
          Some (put (saturate32 pI (f32_add f (pi_rounding pI) (f32_mul f (pi_rounding pI) (fld a) (fld b)) (fld c))) 0,
            False) }
      | _ \<Rightarrow> if pi_type pI \<in> {S64_TYPE, U64_TYPE} then do {
            _ \<leftarrow> assert_c (\<not> pi_wide pI);
            _ \<leftarrow> assert_c (\<not> pi_hi pI);
            _ \<leftarrow> assert_c (\<not> use_carry);
            _ \<leftarrow> assert_c (pi_lo pI);
            Some (put ((fld a :: u64) * fld b + fld c + of_bool carry_in) 0, False) }
          else if pi_type pI \<in> {F64_TYPE, FF64_TYPE} then do {
            _ \<leftarrow> assert_c (\<not> use_carry);
            _ \<leftarrow> assert_c (pi_rounding pI \<in> {RN_OPTION, RZ_OPTION});
            Some (put (saturate64 pI (f64_add f (pi_rounding pI) (f64_mul f (pi_rounding pI) (fld a) (fld b)) (fld c))) 0,
              False) }
          else None)"

definition mad_def :: "fpu \<Rightarrow> bool \<Rightarrow> ptx_instruction \<Rightarrow> ptx_thread \<Rightarrow> ptx_thread option" where
  "mad_def f use_carry pI th = do {
     (a, th) \<leftarrow> src_value (pi_src1 pI) pI (pi_type pI) th;
     (b, th) \<leftarrow> src_value (pi_src2 pI) pI (pi_type pI) th;
     (c, th) \<leftarrow> src_value (pi_src3 pI) pI (pi_type pI) th;
     (carry_in, th) \<leftarrow> (if use_carry then do {
         (r, th) \<leftarrow> get_operand_value (pi_src4 pI) (pi_dst pI) PRED_TYPE False th;
         Some (bit (fld r :: 4 word) 2, th) }
       else Some (False, th));
     (d, cy) \<leftarrow> mad_alu f pI use_carry carry_in a b c;
     set_operand_flags (pi_dst pI) d (pi_type pI) False cy th }"

definition mad_impl :: "fpu \<Rightarrow> ptx_instruction \<Rightarrow> ptx_thread \<Rightarrow> ptx_thread option" where
  "mad_impl f pI th = mad_def f False pI th"

definition madp_impl :: "fpu \<Rightarrow> ptx_instruction \<Rightarrow> ptx_thread \<Rightarrow> ptx_thread option" where
  "madp_impl f pI th = mad_def f True pI th"

section \<open>Division\<close>

text \<open>Division truncates towards zero; a zero divisor traps, and so does the least number over \<open>-1\<close> where it is
  not promoted.\<close>

definition sdiv_c :: "bool \<Rightarrow> 'a :: len word \<Rightarrow> 'a word \<Rightarrow> 'a word option" where
  "sdiv_c promoted a b =
     (if b = 0 \<or> \<not> promoted \<and> sint a = - (2 ^ (LENGTH('a) - 1)) \<and> sint b = - 1 then None
      else Some (word_of_int (sint a sdiv sint b)))"

definition udiv_c :: "'a :: len word \<Rightarrow> 'a word \<Rightarrow> 'a word option" where
  "udiv_c a b = (if b = 0 then None else Some (a div b))"

definition div_alu :: "fpu \<Rightarrow> ptx_instruction \<Rightarrow> reg \<Rightarrow> reg \<Rightarrow> reg option" where
  "div_alu f pI a b = (case pi_type pI of
     S8_TYPE \<Rightarrow> map_option (\<lambda>d. put d 0) (sdiv_c True (fld a :: u8) (fld b))
   | S16_TYPE \<Rightarrow> map_option (\<lambda>d. put d 0) (sdiv_c True (fld a :: u16) (fld b))
   | S32_TYPE \<Rightarrow> map_option (\<lambda>d. put d 0) (sdiv_c False (fld a :: u32) (fld b))
   | S64_TYPE \<Rightarrow> map_option (\<lambda>d. put d 0) (sdiv_c False (fld a :: u64) (fld b))
   | F32_TYPE \<Rightarrow> Some (put (f32_div f RN_OPTION (fld a) (fld b)) 0)
   | _ \<Rightarrow> if pi_type pI \<in> {U8_TYPE, B8_TYPE} then map_option (\<lambda>d. put d 0) (udiv_c (fld a :: u8) (fld b))
       else if pi_type pI \<in> {U16_TYPE, B16_TYPE} then map_option (\<lambda>d. put d 0) (udiv_c (fld a :: u16) (fld b))
       else if pi_type pI \<in> {U32_TYPE, B32_TYPE} then map_option (\<lambda>d. put d 0) (udiv_c (fld a :: u32) (fld b))
       else if pi_type pI \<in> {U64_TYPE, B64_TYPE} then map_option (\<lambda>d. put d 0) (udiv_c (fld a :: u64) (fld b))
       else if pi_type pI \<in> {F64_TYPE, FF64_TYPE} then Some (put (f64_div f RN_OPTION (fld a) (fld b)) 0)
       else None)"

definition div_impl :: "fpu \<Rightarrow> ptx_instruction \<Rightarrow> ptx_thread \<Rightarrow> ptx_thread option" where
  "div_impl f pI = exec2 (div_alu f pI) pI"

text \<open>\<open>rem\<close> looks at no type.\<close>

definition rem_alu :: "reg \<Rightarrow> reg \<Rightarrow> reg option" where
  "rem_alu a b = (if (fld b :: u64) = 0 then None else Some (put ((fld a :: u64) mod fld b) 0))"

definition rem_impl :: "ptx_instruction \<Rightarrow> ptx_thread \<Rightarrow> ptx_thread option" where
  "rem_impl pI = exec2 rem_alu pI"

section \<open>Logic\<close>

text \<open>A predicate is a 4 bit field in which a set lowest bit (the zero flag) means false.\<close>

definition logic_alu :: "(4 word \<Rightarrow> 4 word \<Rightarrow> 4 word) \<Rightarrow> (u64 \<Rightarrow> u64 \<Rightarrow> u64) \<Rightarrow> ptx_instruction \<Rightarrow> reg \<Rightarrow> reg \<Rightarrow> reg option" where
  "logic_alu on_pred on_bits pI a b =
     Some (if pi_type pI = PRED_TYPE then put (on_pred (fld a) (fld b)) 0 else put (on_bits (fld a) (fld b)) 0)"

definition and_alu :: "ptx_instruction \<Rightarrow> reg \<Rightarrow> reg \<Rightarrow> reg option" where
  "and_alu = logic_alu (\<lambda>a b. NOT (NOT a AND NOT b)) (\<lambda>a b. a AND b)"

definition or_alu :: "ptx_instruction \<Rightarrow> reg \<Rightarrow> reg \<Rightarrow> reg option" where
  "or_alu = logic_alu (\<lambda>a b. NOT (NOT a OR NOT b)) (\<lambda>a b. a OR b)"

definition xor_alu :: "ptx_instruction \<Rightarrow> reg \<Rightarrow> reg \<Rightarrow> reg option" where
  "xor_alu = logic_alu (\<lambda>a b. NOT (NOT a XOR NOT b)) (\<lambda>a b. a XOR b)"

definition orn_alu :: "ptx_instruction \<Rightarrow> reg \<Rightarrow> reg \<Rightarrow> reg option" where
  "orn_alu = logic_alu (\<lambda>a b. NOT (NOT a OR b)) (\<lambda>a b. a OR NOT b)"

definition norn_alu :: "ptx_instruction \<Rightarrow> reg \<Rightarrow> reg \<Rightarrow> reg option" where
  "norn_alu = logic_alu (\<lambda>a b. NOT (a AND NOT b)) (\<lambda>a b. NOT a AND b)"

definition nandn_alu :: "ptx_instruction \<Rightarrow> reg \<Rightarrow> reg \<Rightarrow> reg option" where
  "nandn_alu = logic_alu (\<lambda>a b. NOT a AND b) (\<lambda>a b. NOT (a AND NOT b))"

definition andn_alu :: "ptx_instruction \<Rightarrow> reg \<Rightarrow> reg \<Rightarrow> reg option" where
  "andn_alu pI a b = do {
     b \<leftarrow> (case pi_type pI of
         B16_TYPE \<Rightarrow> Some (put (NOT (fld b) :: u16) b)
       | B32_TYPE \<Rightarrow> Some (put (NOT (fld b) :: u32) b)
       | B64_TYPE \<Rightarrow> Some (put (NOT (fld b) :: u64) b)
       | _ \<Rightarrow> None);
     Some (put ((fld a :: u64) AND fld b) 0) }"

definition not_alu :: "ptx_instruction \<Rightarrow> reg \<Rightarrow> reg option" where
  "not_alu pI a = (case pi_type pI of
     PRED_TYPE \<Rightarrow> Some (put (NOT (fld a) :: 4 word) 0)
   | B16_TYPE \<Rightarrow> Some (put (NOT (fld a) :: u16) 0)
   | B32_TYPE \<Rightarrow> Some (put (NOT (fld a) :: u32) 0)
   | B64_TYPE \<Rightarrow> Some (put (NOT (fld a) :: u64) 0)
   | _ \<Rightarrow> None)"

definition cnot_alu :: "ptx_instruction \<Rightarrow> reg \<Rightarrow> reg option" where
  "cnot_alu pI a = (case pi_type pI of
     PRED_TYPE \<Rightarrow> Some (put (if (fld a AND 1 :: 4 word) = 0 then 1 else 0 :: 4 word) 0)
   | B16_TYPE \<Rightarrow> Some (put (if (fld a :: u16) = 0 then 1 else 0 :: u16) 0)
   | B32_TYPE \<Rightarrow> Some (put (if (fld a :: u32) = 0 then 1 else 0 :: u32) 0)
   | B64_TYPE \<Rightarrow> Some (put (if (fld a :: u64) = 0 then 1 else 0 :: u64) 0)
   | _ \<Rightarrow> None)"

definition and_impl :: "ptx_instruction \<Rightarrow> ptx_thread \<Rightarrow> ptx_thread option" where "and_impl pI = exec2 (and_alu pI) pI"
definition or_impl :: "ptx_instruction \<Rightarrow> ptx_thread \<Rightarrow> ptx_thread option" where "or_impl pI = exec2 (or_alu pI) pI"
definition xor_impl :: "ptx_instruction \<Rightarrow> ptx_thread \<Rightarrow> ptx_thread option" where "xor_impl pI = exec2 (xor_alu pI) pI"
definition orn_impl :: "ptx_instruction \<Rightarrow> ptx_thread \<Rightarrow> ptx_thread option" where "orn_impl pI = exec2 (orn_alu pI) pI"
definition norn_impl :: "ptx_instruction \<Rightarrow> ptx_thread \<Rightarrow> ptx_thread option" where "norn_impl pI = exec2 (norn_alu pI) pI"
definition nandn_impl :: "ptx_instruction \<Rightarrow> ptx_thread \<Rightarrow> ptx_thread option" where "nandn_impl pI = exec2 (nandn_alu pI) pI"
definition andn_impl :: "ptx_instruction \<Rightarrow> ptx_thread \<Rightarrow> ptx_thread option" where "andn_impl pI = exec2 (andn_alu pI) pI"
definition not_impl :: "ptx_instruction \<Rightarrow> ptx_thread \<Rightarrow> ptx_thread option" where "not_impl pI = exec1 (not_alu pI) pI"
definition cnot_impl :: "ptx_instruction \<Rightarrow> ptx_thread \<Rightarrow> ptx_thread option" where "cnot_impl pI = exec1 (cnot_alu pI) pI"

section \<open>Counting\<close>

function clz_loop :: "nat \<Rightarrow> u64 \<Rightarrow> nat \<Rightarrow> u64 \<Rightarrow> nat" where
  "clz_loop max_bits m d a =
     (if d < max_bits \<and> a AND m = 0 then clz_loop max_bits m (Suc d) (push_bit 1 a) else d)"
  by pat_completeness auto
termination
  by (relation "measure (\<lambda>(max_bits, m, d, a). max_bits - d)") auto

declare clz_loop.simps [simp del]

definition clz_alu :: "ptx_instruction \<Rightarrow> reg \<Rightarrow> reg option" where
  "clz_alu pI a = (case pi_type pI of
     B32_TYPE \<Rightarrow> Some (put (of_nat (clz_loop 32 0x80000000 0 (fld a)) :: u32) 0)
   | B64_TYPE \<Rightarrow> Some (put (of_nat (clz_loop 64 0x8000000000000000 0 (fld a)) :: u32) 0)
   | _ \<Rightarrow> None)"

definition clz_impl :: "ptx_instruction \<Rightarrow> ptx_thread \<Rightarrow> ptx_thread option" where
  "clz_impl pI th = do {
     (a, th) \<leftarrow> src_value (pi_src1 pI) pI (pi_type pI) th;
     d \<leftarrow> clz_alu pI a;
     set_operand_value (pi_dst pI) d B32_TYPE th }"

text \<open>\<open>bitset::count\<close>.\<close>

definition bit_count :: "nat \<Rightarrow> u64 \<Rightarrow> nat" where
  "bit_count n a = length (filter (bit a) [0..<n])"

definition popc_alu :: "ptx_instruction \<Rightarrow> reg \<Rightarrow> reg option" where
  "popc_alu pI a = (case pi_type pI of
     B32_TYPE \<Rightarrow> Some (put (of_nat (bit_count 32 (fld a)) :: u32) 0)
   | B64_TYPE \<Rightarrow> Some (put (of_nat (bit_count 64 (fld a)) :: u32) 0)
   | _ \<Rightarrow> None)"

definition popc_impl :: "ptx_instruction \<Rightarrow> ptx_thread \<Rightarrow> ptx_thread option" where
  "popc_impl pI = exec1 (popc_alu pI) pI"

section \<open>Shifts\<close>

text \<open>The 64 bit shifts test the low 32 bits of the count and shift by all of it, of which the processor takes 6.\<close>

definition shl_alu :: "ptx_instruction \<Rightarrow> reg \<Rightarrow> reg \<Rightarrow> reg option" where
  "shl_alu pI a b =
     (if pi_type pI \<in> {B16_TYPE, U16_TYPE} then
        Some (put (if (fld b :: u16) \<ge> 16 then 0
          else ucast (push_bit (unat (fld b :: u16)) (ucast (fld a :: u16) :: u32) AND 0xFFFF) :: u16) 0)
      else if pi_type pI \<in> {B32_TYPE, U32_TYPE} then
        Some (put (if (fld b :: u32) \<ge> 32 then 0 else push_bit (unat (fld b :: u32)) (fld a) AND 0xFFFFFFFF :: u32) 0)
      else if pi_type pI \<in> {B64_TYPE, U64_TYPE} then
        Some (put (if (fld b :: u32) \<ge> 64 then 0 else push_bit (unat (fld b :: u64) mod 64) (fld a) :: u64) 0)
      else None)"

definition shr_alu :: "ptx_instruction \<Rightarrow> reg \<Rightarrow> reg \<Rightarrow> reg option" where
  "shr_alu pI a b = (case pi_type pI of
     S16_TYPE \<Rightarrow> Some (put (if (fld b :: u16) < 16 then scast (signed_drop_bit (unat (fld b :: u16)) (fld a :: u16))
       else if sint (fld a :: u16) < 0 then - 1 else 0 :: u64) 0)
   | S32_TYPE \<Rightarrow> Some (put (if (fld b :: u32) < 32 then scast (signed_drop_bit (unat (fld b :: u32)) (fld a :: u32))
       else if sint (fld a :: u32) < 0 then - 1 else 0 :: u64) 0)
   | S64_TYPE \<Rightarrow>
       (if (fld b :: u64) < 64 then Some (put (signed_drop_bit (unat (fld b :: u64)) (fld a) :: u64) 0)
        else if sint (fld a :: u64) < 0 then
          (if sint (fld b :: u32) < 0 then Some (put (0 :: u32) (put (- 1 :: u64) 0)) else Some (put (- 1 :: u64) 0))
        else Some (put (0 :: u64) 0))
   | _ \<Rightarrow> if pi_type pI \<in> {U16_TYPE, B16_TYPE} then
         Some (put (if (fld b :: u16) < 16 then drop_bit (unat (fld b :: u16)) (fld a) AND 0xFFFF else 0 :: u16) 0)
       else if pi_type pI \<in> {U32_TYPE, B32_TYPE} then
         Some (put (if (fld b :: u32) < 32 then drop_bit (unat (fld b :: u32)) (fld a) AND 0xFFFFFFFF else 0 :: u32) 0)
       else if pi_type pI \<in> {U64_TYPE, B64_TYPE} then
         Some (put (if (fld b :: u32) < 64 then drop_bit (unat (fld b :: u64) mod 64) (fld a) else 0 :: u64) 0)
       else None)"

definition shl_impl :: "ptx_instruction \<Rightarrow> ptx_thread \<Rightarrow> ptx_thread option" where "shl_impl pI = exec2 (shl_alu pI) pI"
definition shr_impl :: "ptx_instruction \<Rightarrow> ptx_thread \<Rightarrow> ptx_thread option" where "shr_impl pI = exec2 (shr_alu pI) pI"

section \<open>Comparison and selection\<close>

definition isFloat :: "ptx_type \<Rightarrow> bool" where
  "isFloat t = (t \<in> {F16_TYPE, F32_TYPE, F64_TYPE, FF64_TYPE})"

definition cmp_s :: "cmpop \<Rightarrow> int \<Rightarrow> int \<Rightarrow> bool option" where
  "cmp_s p a b = (case p of
     EQ_OPTION \<Rightarrow> Some (a = b) | NE_OPTION \<Rightarrow> Some (a \<noteq> b) | LT_OPTION \<Rightarrow> Some (a < b) | LE_OPTION \<Rightarrow> Some (a \<le> b)
   | GT_OPTION \<Rightarrow> Some (a > b) | GE_OPTION \<Rightarrow> Some (a \<ge> b) | _ \<Rightarrow> None)"

definition cmp_u :: "cmpop \<Rightarrow> 'a :: len word \<Rightarrow> 'a word \<Rightarrow> bool option" where
  "cmp_u p a b = (case p of
     EQ_OPTION \<Rightarrow> Some (a = b) | NE_OPTION \<Rightarrow> Some (a \<noteq> b) | LT_OPTION \<Rightarrow> Some (a < b) | LE_OPTION \<Rightarrow> Some (a \<le> b)
   | GT_OPTION \<Rightarrow> Some (a > b) | GE_OPTION \<Rightarrow> Some (a \<ge> b) | LO_OPTION \<Rightarrow> Some (a < b) | LS_OPTION \<Rightarrow> Some (a \<le> b)
   | HI_OPTION \<Rightarrow> Some (a > b) | HS_OPTION \<Rightarrow> Some (a \<ge> b) | _ \<Rightarrow> None)"

text \<open>The float cases, from equality, order and NaN tests; \<open>lt\<close> and \<open>le\<close> are false on a NaN.\<close>

definition cmp_f :: "cmpop \<Rightarrow> bool \<Rightarrow> bool \<Rightarrow> bool \<Rightarrow> bool \<Rightarrow> bool \<Rightarrow> bool \<Rightarrow> bool option" where
  "cmp_f p nan eq lt le gt ge = (case p of
     EQ_OPTION \<Rightarrow> Some (eq \<and> \<not> nan) | NE_OPTION \<Rightarrow> Some (\<not> eq \<and> \<not> nan) | LT_OPTION \<Rightarrow> Some (lt \<and> \<not> nan)
   | LE_OPTION \<Rightarrow> Some (le \<and> \<not> nan) | GT_OPTION \<Rightarrow> Some (gt \<and> \<not> nan) | GE_OPTION \<Rightarrow> Some (ge \<and> \<not> nan)
   | EQU_OPTION \<Rightarrow> Some (eq \<or> nan) | NEU_OPTION \<Rightarrow> Some (\<not> eq \<or> nan) | LTU_OPTION \<Rightarrow> Some (lt \<or> nan)
   | LEU_OPTION \<Rightarrow> Some (le \<or> nan) | GTU_OPTION \<Rightarrow> Some (gt \<or> nan) | GEU_OPTION \<Rightarrow> Some (ge \<or> nan)
   | NUM_OPTION \<Rightarrow> Some (\<not> nan) | NAN_OPTION \<Rightarrow> Some nan | _ \<Rightarrow> None)"

text \<open>The cases of \<open>B16_TYPE\<close> and \<open>B32_TYPE\<close> have no \<open>break\<close> and run on into that of \<open>B64_TYPE\<close>.\<close>

definition CmpOp :: "ptx_type \<Rightarrow> reg \<Rightarrow> reg \<Rightarrow> cmpop \<Rightarrow> bool option" where
  "CmpOp t a b p =
     (if t \<in> {B16_TYPE, B32_TYPE, B64_TYPE} then
        (case p of EQ_OPTION \<Rightarrow> Some ((fld a :: u64) = fld b) | NE_OPTION \<Rightarrow> Some ((fld a :: u64) \<noteq> fld b) | _ \<Rightarrow> None)
      else if t \<in> {S8_TYPE, S16_TYPE} then cmp_s p (sint (fld a :: u16)) (sint (fld b :: u16))
      else if t = S32_TYPE then cmp_s p (sint (fld a :: u32)) (sint (fld b :: u32))
      else if t = S64_TYPE then cmp_s p (sint (fld a :: u64)) (sint (fld b :: u64))
      else if t \<in> {U8_TYPE, U16_TYPE} then cmp_u p (fld a :: u16) (fld b)
      else if t = U32_TYPE then cmp_u p (fld a :: u32) (fld b)
      else if t = U64_TYPE then cmp_u p (fld a :: u64) (fld b)
      else if t = F32_TYPE then
        (let x = fld a; y = fld b
         in cmp_f p (f32_nan x \<or> f32_nan y) (f32_eq x y) (f32_lt x y) (f32_le x y) (f32_lt y x) (f32_le y x))
      else if t \<in> {F64_TYPE, FF64_TYPE} then
        (let x = fld a; y = fld b
         in cmp_f p (f64_nan x \<or> f64_nan y) (f64_eq x y) (f64_lt x y) (f64_le x y) (f64_lt y x) (f64_le y x))
      else None)"

definition setp_impl :: "ptx_instruction \<Rightarrow> ptx_thread \<Rightarrow> ptx_thread option" where
  "setp_impl pI th = do {
     _ \<leftarrow> assert_c (pi_num_operands pI < 4);
     (a, th) \<leftarrow> src_value (pi_src1 pI) pI (pi_type pI) th;
     (b, th) \<leftarrow> src_value (pi_src2 pI) pI (pi_type pI) th;
     t \<leftarrow> CmpOp (pi_type pI) a b (pi_cmpop pI);
     set_operand_value (pi_dst pI) (put (if t then 0 else 1 :: 4 word) 0) PRED_TYPE th }"

text \<open>The absolute value of the first operand of \<open>set\<close>.\<close>

definition set_abs :: "ptx_type \<Rightarrow> reg \<Rightarrow> reg option" where
  "set_abs t a = (case t of
     S16_TYPE \<Rightarrow> Some (put (my_abs (fld a :: u16)) a)
   | S32_TYPE \<Rightarrow> Some (put (my_abs (fld a :: u32)) a)
   | S64_TYPE \<Rightarrow> Some (put (my_abs (fld a :: u64)) a)
   | U16_TYPE \<Rightarrow> Some a | U32_TYPE \<Rightarrow> Some a | U64_TYPE \<Rightarrow> Some a
   | F32_TYPE \<Rightarrow> Some (put (if f32_lt (fld a) 0 then f32_neg (fld a) else fld a) a)
   | F64_TYPE \<Rightarrow> Some (put (if f64_lt (fld a) 0 then f64_neg (fld a) else fld a) a)
   | FF64_TYPE \<Rightarrow> Some (put (if f64_lt (fld a) 0 then f64_neg (fld a) else fld a) a)
   | _ \<Rightarrow> None)"

definition set_impl :: "ptx_instruction \<Rightarrow> ptx_thread \<Rightarrow> ptx_thread option" where
  "set_impl pI th = do {
     _ \<leftarrow> assert_c (pi_num_operands pI < 4);
     (a, th) \<leftarrow> src_value (pi_src1 pI) pI (pi_type2 pI) th;
     (b, th) \<leftarrow> src_value (pi_src2 pI) pI (pi_type2 pI) th;
     a \<leftarrow> (if pi_abs pI then set_abs (pi_type2 pI) a else Some a);
     t \<leftarrow> CmpOp (pi_type2 pI) a b (pi_cmpop pI);
     let d = (if isFloat (pi_type pI) then put (if t then 0x3F800000 else 0 :: u32) 0
              else put (if t then 0xFFFFFFFF else 0 :: u32) 0);
     set_operand_value (pi_dst pI) d (pi_type pI) th }"

definition selp_alu :: "reg \<Rightarrow> reg \<Rightarrow> reg \<Rightarrow> reg" where
  "selp_alu a b c = (if (fld c AND 1 :: 4 word) = 0 then a else b)"

definition selp_impl :: "ptx_instruction \<Rightarrow> ptx_thread \<Rightarrow> ptx_thread option" where
  "selp_impl pI th = do {
     (a, th) \<leftarrow> src_value (pi_src1 pI) pI (pi_type pI) th;
     (b, th) \<leftarrow> src_value (pi_src2 pI) pI (pi_type pI) th;
     (c, th) \<leftarrow> src_value (pi_src3 pI) pI (pi_type pI) th;
     set_operand_value (pi_dst pI) (selp_alu a b c) PRED_TYPE th }"

definition slct_alu :: "ptx_instruction \<Rightarrow> reg \<Rightarrow> reg \<Rightarrow> reg \<Rightarrow> reg option" where
  "slct_alu pI a b c = do {
     t \<leftarrow> (case pi_type2 pI of
         S32_TYPE \<Rightarrow> Some (sint (fld c :: u32) \<ge> 0)
       | F32_TYPE \<Rightarrow> Some (f32_le 0 (fld c))
       | _ \<Rightarrow> None);
     let x = (if t then a else b);
     if pi_type pI \<in> {B16_TYPE, S16_TYPE, U16_TYPE} then Some (put (fld x :: u16) 0)
     else if pi_type pI \<in> {F32_TYPE, B32_TYPE, S32_TYPE, U32_TYPE} then Some (put (fld x :: u32) 0)
     else if pi_type pI \<in> {F64_TYPE, FF64_TYPE, B64_TYPE, S64_TYPE, U64_TYPE} then Some (put (fld x :: u64) 0)
     else None }"

definition slct_impl :: "ptx_instruction \<Rightarrow> ptx_thread \<Rightarrow> ptx_thread option" where
  "slct_impl pI th = do {
     (a, th) \<leftarrow> src_value (pi_src1 pI) pI (pi_type pI) th;
     (b, th) \<leftarrow> src_value (pi_src2 pI) pI (pi_type pI) th;
     (c, th) \<leftarrow> src_value (pi_src3 pI) pI (pi_type2 pI) th;
     d \<leftarrow> slct_alu pI a b c;
     set_operand_value (pi_dst pI) d (pi_type pI) th }"

section \<open>Conversion\<close>

definition chop :: "nat \<Rightarrow> reg \<Rightarrow> reg option" where
  "chop to_width x =
     (if to_width = 8 then Some (mask_and 0 0xFF x)
      else if to_width = 16 then Some (mask_and 0 0xFFFF x)
      else if to_width = 32 then Some (mask_and 0 0xFFFFFFFF x)
      else if to_width = 64 then Some x
      else None)"

text \<open>The sign extension of \<open>sext\<close> at the width of the source and of \<open>sexd\<close> at that of the destination.\<close>

definition extend_at :: "nat \<Rightarrow> reg \<Rightarrow> reg option" where
  "extend_at width x =
     (if width = 8 then Some (if get_bit 7 x then mask_or 0xFFFFFFFF 0xFFFFFF00 x else x)
      else if width = 16 then Some (if get_bit 15 x then mask_or 0xFFFFFFFF 0xFFFF0000 x else x)
      else if width = 32 then Some (if get_bit 31 x then mask_or 0xFFFFFFFF 0 x else x)
      else if width = 64 then Some x
      else None)"

definition sext :: "nat \<Rightarrow> nat \<Rightarrow> reg \<Rightarrow> reg option" where
  "sext from_width to_width x = chop from_width x \<bind> extend_at from_width"

definition sexd :: "nat \<Rightarrow> nat \<Rightarrow> reg \<Rightarrow> reg option" where
  "sexd from_width to_width x = chop from_width x \<bind> extend_at to_width"

definition zext :: "nat \<Rightarrow> nat \<Rightarrow> reg \<Rightarrow> reg option" where
  "zext from_width to_width x = chop from_width x"

text \<open>The table of conversions; those that involve a float are left to an argument.\<close>

datatype cvt_fn = NULL_FN | SEXT | SEXD | ZEXT | CHOP | S2F | U2F | F2X | F2F | D2X | D2D

definition g_cvt_fn :: "cvt_fn list list" where
  "g_cvt_fn =
    [[NULL_FN, SEXT, SEXT, SEXT, NULL_FN, SEXT, SEXT, SEXT, S2F, S2F, S2F],
     [CHOP, NULL_FN, SEXT, SEXT, CHOP, NULL_FN, SEXT, SEXT, S2F, S2F, S2F],
     [CHOP, SEXD, NULL_FN, SEXT, CHOP, CHOP, NULL_FN, SEXT, S2F, S2F, S2F],
     [CHOP, CHOP, CHOP, NULL_FN, CHOP, CHOP, CHOP, NULL_FN, S2F, S2F, S2F],
     [NULL_FN, ZEXT, ZEXT, ZEXT, NULL_FN, ZEXT, ZEXT, ZEXT, U2F, U2F, U2F],
     [CHOP, NULL_FN, ZEXT, ZEXT, CHOP, NULL_FN, ZEXT, ZEXT, U2F, U2F, U2F],
     [CHOP, CHOP, NULL_FN, ZEXT, CHOP, CHOP, NULL_FN, ZEXT, U2F, U2F, U2F],
     [CHOP, CHOP, CHOP, NULL_FN, CHOP, CHOP, CHOP, NULL_FN, U2F, U2F, U2F],
     [F2X, F2X, F2X, F2X, F2X, F2X, F2X, F2X, NULL_FN, F2X, F2X],
     [F2X, F2X, F2X, F2X, F2X, F2X, F2X, F2X, F2X, F2F, F2X],
     [D2X, D2X, D2X, D2X, D2X, D2X, D2X, D2X, D2X, D2X, D2D]]"

type_synonym float_cvt = "cvt_fn \<Rightarrow> nat \<Rightarrow> nat \<Rightarrow> bool \<Rightarrow> rounding_mode \<Rightarrow> bool \<Rightarrow> reg \<Rightarrow> reg option"

definition cvt_apply :: "float_cvt \<Rightarrow> ptx_instruction \<Rightarrow> cvt_fn \<Rightarrow> nat \<Rightarrow> nat \<Rightarrow> bool \<Rightarrow> reg \<Rightarrow> reg option" where
  "cvt_apply fc pI fn from_width to_width to_sign x = (case fn of
     NULL_FN \<Rightarrow> Some x
   | CHOP \<Rightarrow> chop to_width x
   | SEXT \<Rightarrow> sext from_width to_width x
   | SEXD \<Rightarrow> sexd from_width to_width x
   | ZEXT \<Rightarrow> zext from_width to_width x
   | _ \<Rightarrow> fc fn from_width to_width to_sign (pi_rounding pI) (pi_saturation pI) x)"

text \<open>The table is indexed without a check; an index past it is undefined behaviour, \<open>None\<close>.\<close>

definition cvt_alu :: "float_cvt \<Rightarrow> ptx_instruction \<Rightarrow> reg \<Rightarrow> reg option" where
  "cvt_alu fc pI x = do {
     let (src_fmt, from_width, _) = type_decode (pi_type2 pI);
     let (dst_fmt, to_width, to_sign) = type_decode (pi_type pI);
     x \<leftarrow> (if pi_neg pI then negate_operand (pi_type2 pI) x else Some x);
     row \<leftarrow> at_get g_cvt_fn src_fmt;
     fn \<leftarrow> at_get row dst_fmt;
     cvt_apply fc pI fn from_width to_width (to_sign = 1) x }"

definition cvt_impl :: "float_cvt \<Rightarrow> ptx_instruction \<Rightarrow> ptx_thread \<Rightarrow> ptx_thread option" where
  "cvt_impl fc pI th = do {
     _ \<leftarrow> assert_c (pi_type pI \<noteq> F16_TYPE \<and> pi_type2 pI \<noteq> F16_TYPE);
     (x, th) \<leftarrow> src_value (pi_src1 pI) pI (pi_type2 pI) th;
     d \<leftarrow> cvt_alu fc pI x;
     set_operand_value (pi_dst pI) d (pi_type pI) th }"

section \<open>Move\<close>

definition mov_bits :: "ptx_type \<Rightarrow> nat option" where
  "mov_bits t = (case t of B16_TYPE \<Rightarrow> Some 16 | B32_TYPE \<Rightarrow> Some 32 | B64_TYPE \<Rightarrow> Some 64 | _ \<Rightarrow> None)"

definition pack_elem :: "nat \<Rightarrow> reg list \<Rightarrow> u64 \<Rightarrow> nat \<Rightarrow> u64 option" where
  "pack_elem bits v w i = do {
     r \<leftarrow> at_get v i;
     x \<leftarrow> (if bits = 8 then Some (ucast (fld r :: u8) :: u64)
           else if bits = 16 then Some (ucast (fld r :: u16))
           else if bits = 32 then Some (ucast (fld r :: u32))
           else None);
     Some (w OR push_bit (bits * i) x) }"

definition pack :: "nat \<Rightarrow> reg list \<Rightarrow> nat \<Rightarrow> u64 option" where
  "pack nbits v nelem = (if nelem = 0 then None else foldM (pack_elem (nbits div nelem) v) 0 [0..<nelem])"

definition unpack_elem :: "nat \<Rightarrow> u64 \<Rightarrow> reg list \<Rightarrow> nat \<Rightarrow> reg list option" where
  "unpack_elem bits w v i = do {
     r \<leftarrow> at_get v i;
     r \<leftarrow> (if bits = 8 then Some (put (ucast (drop_bit (8 * i) w AND 0xFF) :: u8) r)
           else if bits = 16 then Some (put (ucast (drop_bit (16 * i) w AND 0xFFFF) :: u16) r)
           else if bits = 32 then Some (put (ucast (drop_bit (32 * i) w AND 0xFFFFFFFF) :: u32) r)
           else None);
     at_put v i r }"

definition unpack :: "nat \<Rightarrow> u64 \<Rightarrow> nat \<Rightarrow> reg list option" where
  "unpack nbits w nelem = (if nelem = 0 then None else foldM (unpack_elem (nbits div nelem) w) (replicate 4 0) [0..<nelem])"

definition mov_source :: "ptx_instruction \<Rightarrow> ptx_thread \<Rightarrow> (u64 \<times> ptx_thread) option" where
  "mov_source pI th =
     (if o_vector (pi_src1 pI) then do {
        n \<leftarrow> mov_bits (pi_type pI);
        nelem \<leftarrow> get_vect_nelem (pi_src1 pI);
        v \<leftarrow> get_vector_operand_values (pi_src1 pI) (replicate 4 0) nelem th;
        w \<leftarrow> pack n v nelem;
        Some (w, th) }
      else do {
        (d, th) \<leftarrow> src_value (pi_src1 pI) pI (pi_type pI) th;
        w \<leftarrow> (case pi_type pI of
            B16_TYPE \<Rightarrow> Some (ucast (fld d :: u16))
          | B32_TYPE \<Rightarrow> Some (ucast (fld d :: u32))
          | B64_TYPE \<Rightarrow> Some (fld d)
          | _ \<Rightarrow> None);
        Some (w, th) })"

definition mov_impl :: "ptx_instruction \<Rightarrow> ptx_thread \<Rightarrow> ptx_thread option" where
  "mov_impl pI th =
     (if (o_vector (pi_src1 pI) \<or> o_vector (pi_dst pI)) \<and> pi_type pI \<notin> {BB64_TYPE, BB128_TYPE, FF64_TYPE} then do {
        n \<leftarrow> mov_bits (pi_type pI);
        (w, th) \<leftarrow> mov_source pI th;
        if o_vector (pi_dst pI) then do {
          nelem \<leftarrow> get_vect_nelem (pi_dst pI);
          v \<leftarrow> unpack n w nelem;
          set_vector_operand_values (pi_dst pI) v th }
        else set_operand_value (pi_dst pI) (put w 0) (pi_type pI) th }
      else if pi_type pI = PRED_TYPE \<and> op_is_literal (pi_src1 pI) then do {
        (d, th) \<leftarrow> src_value (pi_src1 pI) pI (pi_type pI) th;
        set_operand_value (pi_dst pI) (put (if (fld d :: u32) = 0 then 1 else 0 :: 4 word) 0) (pi_type pI) th }
      else do {
        (d, th) \<leftarrow> src_value (pi_src1 pI) pI (pi_type pI) th;
        set_operand_value (pi_dst pI) d (pi_type pI) th })"

section \<open>Vote\<close>

datatype vote_mode = vote_any | vote_all | vote_uni | vote_ballot

text \<open>The static variables of \<open>vote_impl\<close>, which live from the first to the last active thread of a warp.\<close>

record vote_state =
  v_first_in_warp :: bool
  v_and_all :: bool
  v_or_all :: bool
  v_ballot :: u32
  v_threads :: "nat list"
  v_last_tid :: nat

definition vote_init :: vote_state where
  "vote_init = \<lparr>v_first_in_warp = True, v_and_all = False, v_or_all = False, v_ballot = 0, v_threads = [], v_last_tid = 0\<rparr>"

text \<open>The search for the last active lane goes down from lane 31.\<close>

definition last_active :: "nat set \<Rightarrow> nat option" where
  "last_active active = find (\<lambda>l. l \<in> active) (rev [0..<32])"

definition vote_begin :: "nat \<Rightarrow> nat set \<Rightarrow> nat \<Rightarrow> vote_state \<Rightarrow> vote_state option" where
  "vote_begin ws active tid vs =
     (if v_first_in_warp vs then do {
        offset \<leftarrow> last_active active;
        Some \<lparr>v_first_in_warp = False, v_and_all = True, v_or_all = False, v_ballot = 0, v_threads = [],
          v_last_tid = tid - tid mod ws + offset\<rparr> }
      else Some vs)"

definition vote_add :: "nat \<Rightarrow> nat \<Rightarrow> bool \<Rightarrow> vote_state \<Rightarrow> vote_state" where
  "vote_add ws tid x vs =
     vs\<lparr>v_threads := v_threads vs @ [tid], v_and_all := v_and_all vs \<and> x, v_or_all := v_or_all vs \<or> x,
        v_ballot := (if x then v_ballot vs OR push_bit (tid mod ws mod 32) 1 else v_ballot vs)\<rparr>"

definition vote_result :: "vote_mode \<Rightarrow> vote_state \<Rightarrow> reg" where
  "vote_result mode vs = (case mode of
     vote_ballot \<Rightarrow> put (v_ballot vs) 0
   | vote_any \<Rightarrow> put (if v_or_all vs then 0 else 1 :: 4 word) 0
   | vote_all \<Rightarrow> put (if v_and_all vs then 0 else 1 :: 4 word) 0
   | vote_uni \<Rightarrow> put (if v_or_all vs \<noteq> v_and_all vs then 0 else 1 :: 4 word) 0)"

text \<open>One thread of the warp executes the instruction: \<open>ws\<close> is the size of a warp, \<open>ths\<close> the threads of the core.\<close>

definition vote_impl :: "nat \<Rightarrow> nat set \<Rightarrow> vote_mode \<Rightarrow> ptx_instruction \<Rightarrow> nat \<Rightarrow> vote_state \<times> (nat \<Rightarrow> ptx_thread)
    \<Rightarrow> (vote_state \<times> (nat \<Rightarrow> ptx_thread)) option" where
  "vote_impl ws active mode pI tid = (\<lambda>(vs, ths). do {
     vs \<leftarrow> vote_begin ws active tid vs;
     (a, th) \<leftarrow> src_value (pi_src1 pI) pI PRED_TYPE (ths tid);
     let ths = ths(tid := th);
     let pred_value = ((fld a AND 1 :: 4 word) = 0);
     let invert = o_neg_pred (pi_src1 pI);
     let vs = vote_add ws tid (invert \<noteq> pred_value) vs;
     if tid = v_last_tid vs then do {
       ths \<leftarrow> foldM (\<lambda>ths t. do {
           th \<leftarrow> set_operand_value (pi_dst pI) (vote_result mode vs) (if mode = vote_ballot then pi_type pI else PRED_TYPE) (ths t);
           Some (ths(t := th)) }) ths (v_threads vs);
       Some (vs\<lparr>v_first_in_warp := True\<rparr>, ths) }
     else Some (vs, ths) })"

end
