(* ===== verification/Ptx_Arith.thy ===== *)
theory Ptx_Arith
  imports Ptx_Alu
begin

text \<open>
  Properties of the arithmetic of \<open>Ptx_Alu\<close>: the value and the flags of sums and differences against
  their integer meaning, exact products from the wide, high and low forms, and conversions between integer
  types. The last section states the divergences found.
\<close>

section \<open>Sums, flags and differences\<close>

lemma sign_bit_test: "n < 64 \<Longrightarrow> ((a :: u64) AND push_bit n 1) - (b AND push_bit n 1) = 0 \<longleftrightarrow> bit a n = bit b n"
proof -
  assume n: "n < 64"
  have "(a AND push_bit n 1 = b AND push_bit n 1) \<longleftrightarrow> bit a n = bit b n"
  proof
    assume "a AND push_bit n 1 = b AND push_bit n 1"
    then have "bit (a AND push_bit n 1) n = bit (b AND push_bit n 1) n" by simp
    then show "bit a n = bit b n" using n by (simp add: bit_simps)
  next
    assume "bit a n = bit b n"
    then show "a AND push_bit n 1 = b AND push_bit n 1" by (intro bit_word_eqI) (auto simp: bit_simps)
  qed
  then show ?thesis by simp
qed

lemma uint_masked: "uint ((a :: u64) AND mask w) = take_bit w (uint a)"
  by (simp flip: take_bit_eq_mask add: unsigned_take_bit_eq)

text \<open>Bits of a number below \<open>4 * 2 ^ n\<close>.\<close>

lemma top_bits:
  fixes s :: int
  assumes "0 \<le> s" and "s < 4 * 2 ^ n"
  shows "bit s (Suc n) \<longleftrightarrow> 2 * 2 ^ n \<le> s"
    "bit s n \<longleftrightarrow> 2 ^ n \<le> s \<and> s < 2 * 2 ^ n \<or> 3 * 2 ^ n \<le> s"
proof -
  let ?H = "2 ^ n :: int"
  define q where "q = s div ?H"
  have q: "q * ?H \<le> s" "s < q * ?H + ?H"
  proof -
    have "s = q * ?H + s mod ?H" unfolding q_def by (rule div_mult_mod_eq [symmetric])
    moreover have "0 \<le> s mod ?H" "s mod ?H < ?H" by simp_all
    ultimately show "q * ?H \<le> s" "s < q * ?H + ?H" by linarith+
  qed
  have "0 \<le> q" using assms(1) by (simp add: q_def pos_imp_zdiv_nonneg_iff)
  moreover have "q < 4"
  proof -
    have "q * ?H < 4 * ?H" using q(1) assms(2) by linarith
    then show ?thesis by simp
  qed
  ultimately have "q = 0 \<or> q = 1 \<or> q = 2 \<or> q = 3" by auto
  moreover have "bit s n \<longleftrightarrow> odd q" by (simp add: bit_iff_odd q_def)
  moreover have "bit s (Suc n) \<longleftrightarrow> odd (q div 2)" by (simp add: bit_iff_odd q_def power_Suc2 zdiv_zmult2_eq del: power_Suc)
  ultimately show "bit s (Suc n) \<longleftrightarrow> 2 * ?H \<le> s" "bit s n \<longleftrightarrow> ?H \<le> s \<and> s < 2 * ?H \<or> 3 * ?H \<le> s"
    using q by auto
qed

lemma signed_value: "signed_take_bit n (x :: int) = take_bit (Suc n) x - (if bit x n then 2 * 2 ^ n else 0)"
  by (simp add: signed_take_bit_eq_take_bit_minus)

lemma take_bit_range: "0 \<le> take_bit (Suc n) (x :: int)" "take_bit (Suc n) x < 2 * 2 ^ n"
  using take_bit_int_less_exp [of "Suc n" x] by simp_all

lemma bit_take: "bit (x :: int) n \<longleftrightarrow> 2 ^ n \<le> take_bit (Suc n) x"
  using top_bits(2) [of "take_bit (Suc n) x" n] take_bit_range [of n x] by (simp add: bit_take_bit_iff)

lemma overflow_int:
  fixes H x y :: int
  assumes "0 < H" "0 \<le> x" "x < 2 * H" "0 \<le> y" "y < 2 * H"
  shows "((H \<le> x) = (H \<le> y) \<and> (H \<le> x) \<noteq> (H \<le> x + y \<and> x + y < 2 * H \<or> 3 * H \<le> x + y)) \<longleftrightarrow>
      \<not> (- H \<le> x - (if H \<le> x then 2 * H else 0) + (y - (if H \<le> y then 2 * H else 0))
         \<and> x - (if H \<le> x then 2 * H else 0) + (y - (if H \<le> y then 2 * H else 0)) < H)"
    "((H \<le> x) \<noteq> (H \<le> y) \<and> (H \<le> x) \<noteq> (H \<le> x - y + 2 * H \<and> x - y + 2 * H < 2 * H \<or> 3 * H \<le> x - y + 2 * H)) \<longleftrightarrow>
      \<not> (- H \<le> x - (if H \<le> x then 2 * H else 0) - (y - (if H \<le> y then 2 * H else 0))
         \<and> x - (if H \<le> x then 2 * H else 0) - (y - (if H \<le> y then 2 * H else 0)) < H)"
  using assms by (cases "H \<le> x"; cases "H \<le> y"; simp; linarith)+

lemma uint_pow64: "k < 64 \<Longrightarrow> uint (push_bit k 1 :: u64) = 2 ^ k"
proof -
  assume k: "k < 64"
  then have "take_bit 64 ((2 :: int) ^ k) = 2 ^ k" by simp
  with uint_word_of_int_eq [of "2 ^ k", where ?'a = 64] k show ?thesis by simp
qed

definition in_range :: "nat \<Rightarrow> int \<Rightarrow> bool" where
  "in_range n x \<longleftrightarrow> - (2 ^ n) \<le> x \<and> x < 2 ^ n"

text \<open>Sum and difference of two numbers of \<open>Suc n\<close> bits.\<close>

lemma add_spec:
  assumes "n < 62"
  shows "case add_s (Suc n) a b 0 of (d, ov, cy) \<Rightarrow>
      take_bit (Suc n) (uint d) = take_bit (Suc n) (uint a + uint b)
      \<and> (cy \<longleftrightarrow> 2 ^ Suc n \<le> take_bit (Suc n) (uint a) + take_bit (Suc n) (uint b))
      \<and> (ov \<longleftrightarrow> \<not> in_range n (signed_take_bit n (uint a) + signed_take_bit n (uint b)))"
    "add_u (Suc n) a b 0 = (fst (add_s (Suc n) a b 0), False, snd (snd (add_s (Suc n) a b 0)))"
proof -
  let ?x = "take_bit (Suc n) (uint a)" and ?y = "take_bit (Suc n) (uint b)" and ?H = "2 ^ n :: int"
  let ?d = "(a AND mask (Suc n)) + (b AND mask (Suc n)) + 0"
  have r: "0 \<le> ?x" "?x < 2 * ?H" "0 \<le> ?y" "?y < 2 * ?H" by (rule take_bit_range)+
  have H: "4 * ?H < 18446744073709551616" using assms power_strict_increasing [of "n + 2" 64 "2 :: int"] by simp
  have d: "uint ?d = ?x + ?y"
    using r H by (simp add: uint_word_ariths uint_masked)
  have bits: "bit ?d i = bit (?x + ?y) i" for i by (metis d bit_uint_iff bit_imp_le_length)
  have ab: "bit a n \<longleftrightarrow> ?H \<le> ?x" "bit b n \<longleftrightarrow> ?H \<le> ?y"
    using bit_take [of "uint a" n] bit_take [of "uint b" n] assms by (simp_all add: bit_uint_iff)
  have dn: "bit ?d (Suc n) \<longleftrightarrow> 2 * ?H \<le> ?x + ?y" "bit ?d n \<longleftrightarrow> ?H \<le> ?x + ?y \<and> ?x + ?y < 2 * ?H \<or> 3 * ?H \<le> ?x + ?y"
    using top_bits [of "?x + ?y" n] r by (simp_all only: bits)
  have s: "signed_take_bit n (uint a) = ?x - (if bit a n then 2 * ?H else 0)"
    "signed_take_bit n (uint b) = ?y - (if bit b n then 2 * ?H else 0)"
    using assms by (simp_all add: signed_value bit_uint_iff)
  have "take_bit (Suc n) (uint ?d) = take_bit (Suc n) (uint a + uint b)"
    unfolding d by (simp add: take_bit_add)
  moreover have "(bit a n = bit b n \<and> bit a n \<noteq> bit ?d n) \<longleftrightarrow>
      \<not> in_range n (signed_take_bit n (uint a) + signed_take_bit n (uint b))"
    unfolding s in_range_def dn ab by (rule overflow_int(1)) (use r in simp_all)
  ultimately show "case add_s (Suc n) a b 0 of (d, ov, cy) \<Rightarrow>
      take_bit (Suc n) (uint d) = take_bit (Suc n) (uint a + uint b)
      \<and> (cy \<longleftrightarrow> 2 ^ Suc n \<le> take_bit (Suc n) (uint a) + take_bit (Suc n) (uint b))
      \<and> (ov \<longleftrightarrow> \<not> in_range n (signed_take_bit n (uint a) + signed_take_bit n (uint b)))"
    using dn(1) assms sign_bit_test [of n a b] sign_bit_test [of n a ?d]
    by (simp add: add_s_def Let_def del: push_bit_of_1)
  show "add_u (Suc n) a b 0 = (fst (add_s (Suc n) a b 0), False, snd (snd (add_s (Suc n) a b 0)))"
    by (simp add: add_s_def add_u_def Let_def)
qed

lemma sub_spec:
  assumes "n < 62"
  shows "case sub_s (Suc n) a b of (d, ov, cy) \<Rightarrow>
      take_bit (Suc n) (uint d) = take_bit (Suc n) (uint a - uint b)
      \<and> (cy \<longleftrightarrow> take_bit (Suc n) (uint b) \<le> take_bit (Suc n) (uint a))
      \<and> (ov \<longleftrightarrow> \<not> in_range n (signed_take_bit n (uint a) - signed_take_bit n (uint b)))"
    "sub_u (Suc n) a b = (fst (sub_s (Suc n) a b), False, snd (snd (sub_s (Suc n) a b)))"
proof -
  let ?x = "take_bit (Suc n) (uint a)" and ?y = "take_bit (Suc n) (uint b)" and ?H = "2 ^ n :: int"
  let ?d = "(a AND mask (Suc n)) - (b AND mask (Suc n)) + push_bit (Suc n) 1"
  have r: "0 \<le> ?x" "?x < 2 * ?H" "0 \<le> ?y" "?y < 2 * ?H" by (rule take_bit_range)+
  have H: "4 * ?H < 18446744073709551616" using assms power_strict_increasing [of "n + 2" 64 "2 :: int"] by simp
  have p: "uint (push_bit (Suc n) 1 :: u64) = 2 * ?H"
    using assms uint_pow64 [of "Suc n"] by simp
  have d: "uint ?d = ?x - ?y + 2 * ?H"
  proof -
    have "uint ?d = (?x - ?y + 2 * ?H) mod 18446744073709551616"
      by (simp only: uint_word_ariths uint_masked p mod_simps) simp
    also have "\<dots> = ?x - ?y + 2 * ?H"
      by (rule mod_pos_pos_trivial) (use r H in linarith)+
    finally show ?thesis .
  qed
  have bits: "bit ?d i = bit (?x - ?y + 2 * ?H) i" for i by (metis d bit_uint_iff bit_imp_le_length)
  have ab: "bit a n \<longleftrightarrow> ?H \<le> ?x" "bit b n \<longleftrightarrow> ?H \<le> ?y"
    using bit_take [of "uint a" n] bit_take [of "uint b" n] assms by (simp_all add: bit_uint_iff)
  have dn: "bit ?d (Suc n) \<longleftrightarrow> 2 * ?H \<le> ?x - ?y + 2 * ?H"
    "bit ?d n \<longleftrightarrow> ?H \<le> ?x - ?y + 2 * ?H \<and> ?x - ?y + 2 * ?H < 2 * ?H \<or> 3 * ?H \<le> ?x - ?y + 2 * ?H"
    using top_bits [of "?x - ?y + 2 * ?H" n] r by (simp_all only: bits)
  have s: "signed_take_bit n (uint a) = ?x - (if bit a n then 2 * ?H else 0)"
    "signed_take_bit n (uint b) = ?y - (if bit b n then 2 * ?H else 0)"
    using assms by (simp_all add: signed_value bit_uint_iff)
  have "take_bit (Suc n) (uint ?d) = take_bit (Suc n) (?x - ?y + 2 ^ Suc n)"
    unfolding d by simp
  also have "\<dots> = take_bit (Suc n) (uint a - uint b)"
    unfolding take_bit_eq_mod by (simp add: mod_simps del: power_Suc)
  finally have "take_bit (Suc n) (uint ?d) = take_bit (Suc n) (uint a - uint b)" .
  moreover have "(bit a n \<noteq> bit b n \<and> bit a n \<noteq> bit ?d n) \<longleftrightarrow>
      \<not> in_range n (signed_take_bit n (uint a) - signed_take_bit n (uint b))"
    unfolding s in_range_def dn ab by (rule overflow_int(2)) (use r in simp_all)
  ultimately show "case sub_s (Suc n) a b of (d, ov, cy) \<Rightarrow>
      take_bit (Suc n) (uint d) = take_bit (Suc n) (uint a - uint b)
      \<and> (cy \<longleftrightarrow> take_bit (Suc n) (uint b) \<le> take_bit (Suc n) (uint a))
      \<and> (ov \<longleftrightarrow> \<not> in_range n (signed_take_bit n (uint a) - signed_take_bit n (uint b)))"
    using dn(1) assms sign_bit_test [of n a b] sign_bit_test [of n a ?d]
    by (simp add: sub_s_def Let_def del: eq_iff_diff_eq_0 push_bit_of_1)
  show "sub_u (Suc n) a b = (fst (sub_s (Suc n) a b), False, snd (snd (sub_s (Suc n) a b)))"
    by (simp add: sub_s_def sub_u_def Let_def)
qed



text \<open>The width of the integer types whose additions set flags.\<close>

definition signed_width :: "ptx_type \<Rightarrow> nat option" where
  "signed_width t = (case t of S8_TYPE \<Rightarrow> Some 8 | S16_TYPE \<Rightarrow> Some 16 | S32_TYPE \<Rightarrow> Some 32 | _ \<Rightarrow> None)"

lemma signed_widthE:
  assumes "signed_width t = Some w"
  obtains "t = S8_TYPE" "w = 8" | "t = S16_TYPE" "w = 16" | "t = S32_TYPE" "w = 32"
  using assms by (cases t) (auto simp: signed_width_def)

text \<open>C25. Signed additions and subtractions of 8, 16 and 32 bits give the sum and the difference modulo the
  width; carry is the carry out of the sum and the absence of a borrow of the difference; overflow is set
  exactly when the signed result does not fit.\<close>

theorem add_sub_flags:
  assumes "signed_width (pi_type pI) = Some w" and "pi_rounding pI = RN_OPTION"
  shows "\<exists>s sov scy d dov dcy. add_alu f pI a b = Some (s, sov, scy) \<and> sub_alu f pI a b = Some (d, dov, dcy)
    \<and> take_bit w (uint s) = take_bit w (uint a + uint b) \<and> take_bit w (uint d) = take_bit w (uint a - uint b)
    \<and> (scy \<longleftrightarrow> 2 ^ w \<le> take_bit w (uint a) + take_bit w (uint b))
    \<and> (dcy \<longleftrightarrow> take_bit w (uint b) \<le> take_bit w (uint a))
    \<and> (sov \<longleftrightarrow> \<not> in_range (w - 1) (signed_take_bit (w - 1) (uint a) + signed_take_bit (w - 1) (uint b)))
    \<and> (dov \<longleftrightarrow> \<not> in_range (w - 1) (signed_take_bit (w - 1) (uint a) - signed_take_bit (w - 1) (uint b)))"
proof -
  obtain n where n: "w = Suc n" "n < 62" using assms(1) by (auto elim!: signed_widthE)
  let ?a = "fld a :: u64" and ?b = "fld b :: u64"
  obtain s sov scy where s: "add_s w ?a ?b 0 = (s, sov, scy)" by (cases "add_s w ?a ?b 0")
  obtain d dov dcy where d: "sub_s w ?a ?b = (d, dov, dcy)" by (cases "sub_s w ?a ?b")
  have fld: "take_bit w (uint (fld x :: u64)) = take_bit w (uint x)" "signed_take_bit n (uint (fld x :: u64)) = signed_take_bit n (uint x)"
    for x :: reg using n by (auto intro!: bit_eqI simp: bit_simps bit_fld min_def)
  have mix: "take_bit w (uint ?a + uint ?b) = take_bit w (uint a + uint b)"
    "take_bit w (uint ?a - uint ?b) = take_bit w (uint a - uint b)"
    by (metis fld(1) take_bit_add) (metis fld(1) take_bit_diff)
  have put_s: "take_bit w (uint (put x 0 :: reg)) = take_bit w (uint x)" for x :: u64
    using n by (intro bit_eqI) (auto simp: bit_simps bit_put dest: bit_imp_le_length)
  have alu: "add_alu f pI a b = Some (put s 0, sov, scy)" "sub_alu f pI a b = Some (put d 0, dov, dcy)"
    using assms s d by (auto elim!: signed_widthE simp: add_alu_def add_switch_def sub_alu_def Let_def)
  have spec: "take_bit w (uint s) = take_bit w (uint ?a + uint ?b)" "take_bit w (uint d) = take_bit w (uint ?a - uint ?b)"
    "scy \<longleftrightarrow> 2 ^ w \<le> take_bit w (uint ?a) + take_bit w (uint ?b)"
    "dcy \<longleftrightarrow> take_bit w (uint ?b) \<le> take_bit w (uint ?a)"
    "sov \<longleftrightarrow> \<not> in_range n (signed_take_bit n (uint ?a) + signed_take_bit n (uint ?b))"
    "dov \<longleftrightarrow> \<not> in_range n (signed_take_bit n (uint ?a) - signed_take_bit n (uint ?b))"
    using add_spec(1) [OF n(2), of ?a ?b] sub_spec(1) [OF n(2), of ?a ?b] s d by (simp_all add: n(1))
  have w: "w - 1 = n" using n by simp
  show ?thesis
    by (intro exI conjI, rule alu(1), rule alu(2)) (simp_all only: spec put_s fld mix w)
qed


definition sample_instruction :: "ptx_type \<Rightarrow> ptx_type \<Rightarrow> ptx_instruction" where
  "sample_instruction t t2 = (let r = reg_operand (reg_symbol ''r1'' 1) 0 in
     \<lparr>pi_dst = r, pi_src1 = r, pi_src2 = r, pi_src3 = r, pi_src4 = r, pi_num_operands = 3, pi_type = t, pi_type2 = t2,
      pi_rounding = RN_OPTION, pi_saturation = False, pi_wide = True, pi_hi = False, pi_lo = False, pi_cmpop = EQ_OPTION,
      pi_abs = False, pi_neg = False\<rparr>)"

lemma sample_instruction_simps [simp]:
  "pi_type (sample_instruction t t2) = t" "pi_type2 (sample_instruction t t2) = t2"
  "pi_rounding (sample_instruction t t2) = RN_OPTION" "pi_neg (sample_instruction t t2) = False"
  "pi_wide (sample_instruction t t2) = True"
  by (simp_all add: sample_instruction_def Let_def)

definition sample_fpu :: fpu where
  "sample_fpu = \<lparr>f32_add = (\<lambda>_ a b. a), f32_sub = (\<lambda>_ a b. a), f32_mul = (\<lambda>_ a b. a), f32_div = (\<lambda>_ a b. a),
     f64_add = (\<lambda>_ a b. a), f64_sub = (\<lambda>_ a b. a), f64_mul = (\<lambda>_ a b. a), f64_div = (\<lambda>_ a b. a)\<rparr>"

theorem add_sub_flags_witness:
  "\<exists>s sov scy d dov dcy. add_alu sample_fpu (sample_instruction S8_TYPE S8_TYPE) 0x7F 1 = Some (s, sov, scy)
    \<and> sub_alu sample_fpu (sample_instruction S8_TYPE S8_TYPE) 0x7F 1 = Some (d, dov, dcy)
    \<and> take_bit 8 (uint s) = 0x80 \<and> take_bit 8 (uint d) = 0x7E \<and> \<not> scy \<and> dcy \<and> sov \<and> \<not> dov"
  using add_sub_flags [where pI = "sample_instruction S8_TYPE S8_TYPE" and w = 8 and f = sample_fpu and a = "0x7F" and b = 1]
  by (simp add: signed_width_def in_range_def take_bit_eq_mod signed_take_bit_eq_take_bit_minus bit_iff_odd)

text \<open>The carry in of \<open>addp\<close> is bit 2 of the predicate and is added unshifted, as 4.\<close>

lemma addp_adds_four:
  "addp_alu f pI a b c = add_switch f pI (if bit c 2 then 4 else 0) a b"
proof -
  have "fld c AND (4 :: 4 word) = (if bit c 2 then 4 else 0)"
  proof (rule bit_word_eqI)
    fix n assume "n < LENGTH(4)"
    then have "n = 0 \<or> n = 1 \<or> n = 2 \<or> n = 3" by auto
    then show "bit (fld c AND (4 :: 4 word)) n = bit (if bit c 2 then 4 else 0 :: 4 word) n"
      by (auto simp: bit_simps bit_fld)
  qed
  then show ?thesis by (simp add: addp_alu_def)
qed

section \<open>Products\<close>

lemma sint_product:
  assumes "2 * LENGTH('a) \<le> LENGTH('b)"
  shows "sint (mul_sx (a :: 'a :: len word) b :: 'b :: len word) = sint a * sint b"
proof -
  let ?n = "LENGTH('a) - 1"
  have r: "- (2 ^ ?n) \<le> sint a" "sint a < 2 ^ ?n" "- (2 ^ ?n) \<le> sint b" "sint b < 2 ^ ?n"
    using sint_greater_eq [of a] sint_less [of a] sint_greater_eq [of b] sint_less [of b] by simp_all
  then have "\<bar>sint a\<bar> \<le> 2 ^ ?n" "\<bar>sint b\<bar> \<le> 2 ^ ?n" by linarith+
  then have "\<bar>sint a * sint b\<bar> \<le> 2 ^ ?n * 2 ^ ?n" unfolding abs_mult by (intro mult_mono) auto
  moreover have "(2 :: int) ^ ?n * 2 ^ ?n < 2 ^ (LENGTH('b) - 1)"
  proof -
    have "?n + ?n < LENGTH('b) - 1" using assms len_gt_0 [where 'a = 'a] by linarith
    then show ?thesis by (simp flip: power_add)
  qed
  ultimately have "signed_take_bit (LENGTH('b) - 1) (sint a * sint b) = sint a * sint b"
    by (intro signed_take_bit_int_eq_self) linarith+
  moreover have "(mul_sx a b :: 'b word) = word_of_int (sint a * sint b)"
    by (simp only: mul_sx_def scast_eq wi_hom_mult)
  ultimately show ?thesis by (simp only: sint_sbintrunc')
qed

lemma uint_product:
  assumes "2 * LENGTH('a) \<le> LENGTH('b)"
  shows "uint (mul_zx (a :: 'a :: len word) b :: 'b :: len word) = uint a * uint b"
proof -
  have "uint a * uint b < 2 ^ LENGTH('a) * 2 ^ LENGTH('a)"
    by (intro mult_strict_mono') (simp_all add: uint_lt2p)
  also have "\<dots> \<le> 2 ^ LENGTH('b)" using assms by (simp flip: power_add add: mult_2)
  finally have "take_bit LENGTH('b) (uint a * uint b) = uint a * uint b" by (simp add: take_bit_int_eq_self)
  moreover have "(mul_zx a b :: 'b word) = word_of_int (uint a * uint b)"
    by (simp only: mul_zx_def ucast_eq wi_hom_mult)
  ultimately show ?thesis by (simp only: uint_word_of_int_eq)
qed

lemma hi_lo_signed:
  "sint (ucast (signed_drop_bit 32 t) :: u32) * 2 ^ 32 + uint (ucast (t :: u64) :: u32) = sint t"
proof -
  have b: "- (2 ^ 63) \<le> sint t" "sint t < 2 ^ 63" using sint_greater_eq [of t] sint_less [of t] by simp_all
  have "sint (ucast (signed_drop_bit 32 t) :: u32) = signed_take_bit 31 (sint (signed_drop_bit 32 t))"
    by (rule bit_eqI) (auto simp: bit_simps min_def)
  also have "\<dots> = signed_take_bit 31 (sint t div 2 ^ 32)"
    by (simp add: sint_signed_drop_bit_eq drop_bit_eq_div)
  also have "\<dots> = sint t div 2 ^ 32"
    by (rule signed_take_bit_int_eq_self) (use b in simp_all)
  finally have hi: "sint (ucast (signed_drop_bit 32 t) :: u32) = sint t div 2 ^ 32" .
  have "uint (ucast t :: u32) = take_bit 32 (sint t)"
    by (rule bit_eqI) (auto simp: bit_simps min_def)
  then have lo: "uint (ucast t :: u32) = sint t mod 2 ^ 32" by (simp add: take_bit_eq_mod)
  show ?thesis unfolding hi lo by (rule div_mult_mod_eq)
qed

lemma hi_lo_unsigned:
  "uint (ucast (drop_bit 32 t) :: u32) * 2 ^ 32 + uint (ucast (t :: u64) :: u32) = uint t"
proof -
  have "uint t < 2 ^ 64" using uint_lt2p [of t] by simp
  then have "take_bit 32 (uint t div 2 ^ 32) = uint t div 2 ^ 32"
    by (intro take_bit_int_eq_self) (simp_all add: pos_imp_zdiv_nonneg_iff)
  moreover have "uint (ucast (drop_bit 32 t) :: u32) = take_bit 32 (uint t div 2 ^ 32)"
    unfolding drop_bit_eq_div [symmetric] by (rule bit_eqI) (auto simp: bit_simps simp flip: drop_bit_eq_div)
  ultimately have "uint (ucast (drop_bit 32 t) :: u32) = uint t div 2 ^ 32" by (simp only:)
  moreover have "uint (ucast t :: u32) = uint t mod 2 ^ 32" by (simp add: unsigned_ucast_eq take_bit_eq_mod)
  ultimately show ?thesis by (simp only: div_mult_mod_eq)
qed

text \<open>The wide product of two 32 bit operands is exact, and its high and low halves, as the two other forms of
  the instruction return them, make it up, signed and unsigned.\<close>

theorem mul_exact:
  assumes "pi_type pI = S32_TYPE \<or> pi_type pI = U32_TYPE"
  shows "\<exists>w hi lo. mul_alu f (pI\<lparr>pi_wide := True\<rparr>) a b = Some w
    \<and> mul_alu f (pI\<lparr>pi_wide := False, pi_hi := True, pi_lo := False\<rparr>) a b = Some hi
    \<and> mul_alu f (pI\<lparr>pi_wide := False, pi_hi := False, pi_lo := True\<rparr>) a b = Some lo
    \<and> (if pi_type pI = S32_TYPE
       then sint (fld w :: u64) = sint (fld a :: u32) * sint (fld b :: u32)
         \<and> sint (fld hi :: u32) * 2 ^ 32 + uint (fld lo :: u32) = sint (fld a :: u32) * sint (fld b :: u32)
       else uint (fld w :: u64) = uint (fld a :: u32) * uint (fld b :: u32)
         \<and> uint (fld hi :: u32) * 2 ^ 32 + uint (fld lo :: u32) = uint (fld a :: u32) * uint (fld b :: u32))"
  using assms
proof
  assume t: "pi_type pI = S32_TYPE"
  let ?t = "mul_sx (fld a :: u32) (fld b) :: u64"
  have p: "sint ?t = sint (fld a :: u32) * sint (fld b :: u32)" by (rule sint_product) simp
  show ?thesis
    using t p hi_lo_signed [of ?t] by (simp add: mul_alu_def Let_def)
next
  assume t: "pi_type pI = U32_TYPE"
  let ?t = "mul_zx (fld a :: u32) (fld b) :: u64"
  have p: "uint ?t = uint (fld a :: u32) * uint (fld b :: u32)" by (rule uint_product) simp
  show ?thesis
    using t p hi_lo_unsigned [of ?t] by (simp add: mul_alu_def Let_def)
qed

theorem mul_exact_witness:
  "\<exists>w. mul_alu sample_fpu (sample_instruction S32_TYPE S32_TYPE\<lparr>pi_wide := True\<rparr>) 0xFFFFFFFF 2 = Some w
    \<and> sint (fld w :: u64) = - 2"
  using mul_exact [where pI = "sample_instruction S32_TYPE S32_TYPE" and f = sample_fpu and a = "0xFFFFFFFF" and b = 2]
  by (auto simp: fld_def)

section \<open>Conversions between integers\<close>

text \<open>The number a register holds at an integer type, and the residue of a number at that type.\<close>

definition int_type :: "ptx_type \<Rightarrow> bool" where
  "int_type t \<longleftrightarrow> t \<in> {S8_TYPE, S16_TYPE, S32_TYPE, S64_TYPE, U8_TYPE, U16_TYPE, U32_TYPE, U64_TYPE}"

definition wrap_to :: "ptx_type \<Rightarrow> int \<Rightarrow> int" where
  "wrap_to t v = (case type_decode t of (_, w, s) \<Rightarrow> if s = 1 then signed_take_bit (w - 1) v else take_bit w v)"

lemma bit_of_halves: "bit (of_halves ms ls) i \<longleftrightarrow> i < 64 \<and> (if i < 32 then bit ls i else bit ms (i - 32))"
  by (auto simp: of_halves_def bit_simps dest: bit_imp_le_length)

lemma bit_mask_and: "i < 64 \<Longrightarrow> bit (mask_and ms ls r) i \<longleftrightarrow> bit r i \<and> (if i < 32 then bit ls i else bit ms (i - 32))"
  by (simp add: mask_and_def bit_put bit_fld bit_and_iff bit_of_halves)

lemma bit_mask_or: "i < 64 \<Longrightarrow> bit (mask_or ms ls r) i \<longleftrightarrow> bit r i \<or> (if i < 32 then bit ls i else bit ms (i - 32))"
  by (simp add: mask_or_def bit_put bit_fld bit_or_iff bit_of_halves)

lemma get_bit_iff: "b < 64 \<Longrightarrow> get_bit b r \<longleftrightarrow> bit r b"
  by (auto simp: get_bit_def bit_fld bit_drop_bit_eq simp flip: bit_iff_odd_drop_bit)

lemma masks: "(0xFF :: u32) = mask 8" "(0xFFFF :: u32) = mask 16" "(0xFFFFFFFF :: u32) = mask 32"
  "(0xFFFFFF00 :: u32) = NOT (mask 8)" "(0xFFFF0000 :: u32) = NOT (mask 16)"
  by (simp_all add: mask_eq_exp_minus_1)

lemma chop_bits:
  assumes "w \<in> {8, 16, 32, 64}"
  obtains y where "chop w x = Some y" "\<And>i. i < 64 \<Longrightarrow> bit y i \<longleftrightarrow> i < w \<and> bit x i"
proof (rule that)
  show "chop w x = Some (if w = 8 then mask_and 0 0xFF x else if w = 16 then mask_and 0 0xFFFF x
      else if w = 32 then mask_and 0 0xFFFFFFFF x else x)"
    using assms by (auto simp: chop_def)
  show "bit (if w = 8 then mask_and 0 0xFF x else if w = 16 then mask_and 0 0xFFFF x
      else if w = 32 then mask_and 0 0xFFFFFFFF x else x) i \<longleftrightarrow> i < w \<and> bit x i" if "i < 64" for i
    using assms that by (auto simp: bit_mask_and masks bit_mask_iff)
qed

lemma extend_bits:
  assumes "w \<in> {8, 16, 32, 64}"
  obtains y where "extend_at w x = Some y" "\<And>i. i < w \<Longrightarrow> bit y i \<longleftrightarrow> bit x i"
    "\<And>i. i < 64 \<Longrightarrow> (\<And>j. w \<le> j \<Longrightarrow> j < 64 \<Longrightarrow> \<not> bit x j) \<Longrightarrow> bit y i \<longleftrightarrow> bit x (min i (w - 1))"
proof (rule that)
  let ?y = "if w = 8 then (if bit x 7 then mask_or 0xFFFFFFFF 0xFFFFFF00 x else x)
      else if w = 16 then (if bit x 15 then mask_or 0xFFFFFFFF 0xFFFF0000 x else x)
      else if w = 32 then (if bit x 31 then mask_or 0xFFFFFFFF 0 x else x) else x"
  show "extend_at w x = Some ?y" using assms by (auto simp: extend_at_def get_bit_iff)
  show "bit ?y i \<longleftrightarrow> bit x i" if "i < w" for i
    using assms that by (auto simp: bit_mask_or masks bit_mask_iff bit_not_iff)
  show "bit ?y i \<longleftrightarrow> bit x (min i (w - 1))" if "i < 64" "\<And>j. w \<le> j \<Longrightarrow> j < 64 \<Longrightarrow> \<not> bit x j" for i
    using assms that by (cases "i < w") (auto simp: bit_mask_or masks bit_mask_iff bit_not_iff min_def not_less)
qed

text \<open>What an entry of the table must satisfy, and that every entry for two integer types does.\<close>

definition cvt_fits :: "cvt_fn \<Rightarrow> nat \<Rightarrow> nat \<Rightarrow> bool \<Rightarrow> bool" where
  "cvt_fits fn fw tw sx = (case fn of NULL_FN \<Rightarrow> fw = tw | CHOP \<Rightarrow> tw \<le> fw | SEXT \<Rightarrow> fw \<le> tw \<and> sx | SEXD \<Rightarrow> tw \<le> fw
     | ZEXT \<Rightarrow> fw \<le> tw \<and> \<not> sx | _ \<Rightarrow> False)"

lemma cvt_apply_bits:
  assumes "cvt_fits fn fw tw sx" and "fw \<in> {8, 16, 32, 64}" and "tw \<in> {8, 16, 32, 64}"
  shows "\<exists>d. cvt_apply fc pI fn fw tw ts x = Some d
    \<and> (\<forall>i < tw. bit d i \<longleftrightarrow> (if i < fw then bit x i else sx \<and> bit x (fw - 1)))"
proof -
  have tw: "i < 64" if "i < tw" for i using that assms(3) by auto
  obtain y where y: "chop fw x = Some y" "\<And>i. i < 64 \<Longrightarrow> bit y i \<longleftrightarrow> i < fw \<and> bit x i"
    using chop_bits [OF assms(2)] by metis
  obtain c where c: "chop tw x = Some c" "\<And>i. i < 64 \<Longrightarrow> bit c i \<longleftrightarrow> i < tw \<and> bit x i"
    using chop_bits [OF assms(3)] by metis
  obtain e where e: "extend_at fw y = Some e"
    "\<And>i. i < 64 \<Longrightarrow> (\<And>j. fw \<le> j \<Longrightarrow> j < 64 \<Longrightarrow> \<not> bit y j) \<Longrightarrow> bit e i \<longleftrightarrow> bit y (min i (fw - 1))"
    using extend_bits [OF assms(2)] by metis
  have e2: "bit e i \<longleftrightarrow> bit x (min i (fw - 1))" if "i < 64" for i
  proof -
    have "fw - 1 < 64" "0 < fw" using assms(2) by auto
    then show ?thesis using e(2) [OF that] y(2) [of "min i (fw - 1)"] that y(2) by (auto simp: min_def)
  qed
  obtain g where g: "extend_at tw y = Some g" "\<And>i. i < tw \<Longrightarrow> bit g i \<longleftrightarrow> bit y i"
    using extend_bits [OF assms(3)] by metis
  have fw: "0 < fw" using assms(2) by auto
  from assms(1) show ?thesis
    using y c e g tw e2 fw unfolding cvt_fits_def
    by (cases fn) (auto simp: cvt_apply_def sext_def sexd_def zext_def min_def)
qed

lemma cvt_table:
  assumes "int_type t" and "int_type u" and "type_decode t = (sf, fw, s)" and "type_decode u = (df, tw, s')"
  shows "\<exists>fn. at_get g_cvt_fn sf \<bind> (\<lambda>row. at_get row df) = Some fn \<and> cvt_fits fn fw tw (s = 1)
    \<and> fw \<in> {8, 16, 32, 64} \<and> tw \<in> {8, 16, 32, 64}"
  using assms unfolding int_type_def type_decode_def g_cvt_fn_def cvt_fits_def
  by (elim insertE emptyE) (simp_all add: at_get_def)

lemma bit_wrap:
  assumes "int_type t" and "type_decode t = (f, w, s)"
  shows "bit (wrap_to t v) i \<longleftrightarrow> (if i < w then bit v i else s = 1 \<and> bit v (w - 1))"
proof -
  have "0 < w" using assms by (auto simp: int_type_def type_decode_def)
  then show ?thesis using assms(2) by (cases "i = w - 1") (auto simp: wrap_to_def bit_simps min_def)
qed

text \<open>C31. A conversion between two integer types writes the number its operand holds, reduced to the width of the
  destination: it is unchanged when it fits, and wraps as in C when it does not.\<close>

theorem cvt_preserves_value:
  assumes "int_type (pi_type pI)" and "int_type (pi_type2 pI)" and "\<not> pi_neg pI"
  shows "\<exists>d. cvt_alu fc pI x = Some d
    \<and> wrap_to (pi_type pI) (uint d) = wrap_to (pi_type pI) (wrap_to (pi_type2 pI) (uint x))"
proof -
  obtain sf fw s where f: "type_decode (pi_type2 pI) = (sf, fw, s)" by (cases "type_decode (pi_type2 pI)")
  obtain df tw s' where t: "type_decode (pi_type pI) = (df, tw, s')" by (cases "type_decode (pi_type pI)")
  obtain fn where fn: "at_get g_cvt_fn sf \<bind> (\<lambda>row. at_get row df) = Some fn" "cvt_fits fn fw tw (s = 1)"
    "fw \<in> {8, 16, 32, 64}" "tw \<in> {8, 16, 32, 64}"
    using cvt_table [OF assms(2,1) f t] by blast
  obtain d where d: "cvt_apply fc pI fn fw tw (s' = 1) x = Some d"
    "\<And>i. i < tw \<Longrightarrow> bit d i \<longleftrightarrow> (if i < fw then bit x i else s = 1 \<and> bit x (fw - 1))"
    using cvt_apply_bits [OF fn(2,3,4)] by metis
  obtain row where "at_get g_cvt_fn sf = Some row" "at_get row df = Some fn"
    using fn(1) by (auto simp: Option.bind_eq_Some_conv)
  then have "cvt_alu fc pI x = Some d" using d(1) assms(3) by (simp add: cvt_alu_def f t)
  moreover have "wrap_to (pi_type pI) (uint d) = wrap_to (pi_type pI) (wrap_to (pi_type2 pI) (uint x))"
  proof (rule bit_eqI)
    fix i
    have "0 < tw" "tw \<le> 64" "fw \<le> 64" "0 < fw" using fn(3,4) by auto
    then show "bit (wrap_to (pi_type pI) (uint d)) i = bit (wrap_to (pi_type pI) (wrap_to (pi_type2 pI) (uint x))) i"
      using d(2) by (auto simp: bit_wrap [OF assms(1) t] bit_wrap [OF assms(2) f] bit_uint_iff)
  qed
  ultimately show ?thesis by blast
qed

theorem cvt_preserves_value_witness:
  "\<exists>d. cvt_alu (\<lambda>_ _ _ _ _ _ _. None) (sample_instruction S32_TYPE S8_TYPE) 0x180 = Some d
    \<and> wrap_to S32_TYPE (uint d) = - 128"
  using cvt_preserves_value [where pI = "sample_instruction S32_TYPE S8_TYPE" and x = "0x180"
      and fc = "\<lambda>_ _ _ _ _ _ _. None"]
  by (simp add: int_type_def wrap_to_def type_decode_def take_bit_eq_mod signed_take_bit_eq_take_bit_minus bit_iff_odd)

section \<open>Divergences\<close>

text \<open>\<open>vote.uni\<close> writes false (a set zero flag) exactly when the threads agree.\<close>

lemma vote_uni_inverted:
  "fld (vote_result vote_uni vs) = (if v_or_all vs = v_and_all vs then 1 else 0 :: 4 word)"
  by (simp add: vote_result_def)

text \<open>The product of \<open>mad.hi.u32\<close> is computed in 32 bits, so without an addend its upper half is always zero.\<close>

lemma mad_hi_loses_product:
  assumes "pi_type pI = U32_TYPE" and "\<not> pi_wide pI" and "pi_hi pI"
  shows "mad_alu f pI uc False a b 0 = Some (0, False)"
proof -
  have "drop_bit 32 (ucast (x :: u32) :: u64) = 0" for x
    by (rule bit_word_eqI) (auto simp: bit_simps dest: bit_imp_le_length)
  moreover have "put (0 :: u32) 0 = 0" "(fld 0 :: u32) = 0" by (simp_all add: put_def fld_def)
  ultimately show ?thesis using assms by (simp add: mad_alu_def Let_def)
qed

end
