(* ===== verification/Barrier.thy ===== *)
theory Barrier
  imports Hardware_Model
begin

text \<open>
  The barriers of a core, class \<open>barrier_set_t\<close> of \<open>gpgpu-sim/shader.cc\<close>: which warps of which block of
  threads (CTA) have reached which barrier, and which warps wait. The sets of warps are bitsets of
  \<open>WARP_PER_CTA_MAX\<close> positions. The second section has the invariant of a core whose programs
  use one barrier of all warps, which the issue stage relies on, and that every operation keeps it; runs with all
  kinds of barriers are in \<open>Barrier_Sync\<close>.
\<close>

section \<open>State and operations\<close>

datatype barrier_type = NOT_BAR | SYNC | ARRIVE | RED

record barrier_set =
  m_max_cta_per_core :: nat
  m_max_warps_per_core :: nat
  m_max_barriers_per_cta :: nat
  m_warp_size :: nat
  m_cta_to_warps :: "nat \<Rightarrow> nat set option"
  m_bar_id_to_warps :: "nat \<Rightarrow> nat set"
  m_warp_active :: "nat set"
  m_warp_at_barrier :: "nat set"

definition WARP_PER_CTA_MAX :: nat where "WARP_PER_CTA_MAX = 48"
definition MAX_BARRIERS_PER_CTA :: nat where "MAX_BARRIERS_PER_CTA = 16"

definition new_barrier_set :: "nat \<Rightarrow> nat \<Rightarrow> nat \<Rightarrow> nat \<Rightarrow> barrier_set option" where
  "new_barrier_set max_warps max_cta max_barriers ws = do {
     _ \<leftarrow> assert_c (max_warps \<le> WARP_PER_CTA_MAX);
     _ \<leftarrow> assert_c (max_barriers \<le> MAX_BARRIERS_PER_CTA);
     Some \<lparr>m_max_cta_per_core = max_cta, m_max_warps_per_core = max_warps, m_max_barriers_per_cta = max_barriers,
       m_warp_size = ws, m_cta_to_warps = (\<lambda>_. None), m_bar_id_to_warps = (\<lambda>_. {}), m_warp_active = {},
       m_warp_at_barrier = {}\<rparr> }"

text \<open>The keys of the map are below \<open>m_max_cta_per_core\<close>, so this is its size.\<close>

definition cta_count :: "barrier_set \<Rightarrow> nat" where
  "cta_count b = length (filter (\<lambda>c. m_cta_to_warps b c \<noteq> None) [0..<m_max_cta_per_core b])"

text \<open>Take warps off the barriers \<open>0..<m_max_barriers_per_cta\<close>.\<close>

definition clear_barriers :: "nat set \<Rightarrow> barrier_set \<Rightarrow> nat \<Rightarrow> nat set" where
  "clear_barriers warps b = (\<lambda>i. if i < m_max_barriers_per_cta b then m_bar_id_to_warps b i - warps else m_bar_id_to_warps b i)"

definition allocate_barrier :: "nat \<Rightarrow> nat set \<Rightarrow> barrier_set \<Rightarrow> barrier_set option" where
  "allocate_barrier cta_id warps b = do {
     _ \<leftarrow> assert_c (cta_id < m_max_cta_per_core b);
     _ \<leftarrow> assert_c (m_cta_to_warps b cta_id = None);
     let b = b\<lparr>m_cta_to_warps := (m_cta_to_warps b)(cta_id \<mapsto> warps)\<rparr>;
     _ \<leftarrow> assert_c (cta_count b \<le> m_max_cta_per_core b);
     Some (b\<lparr>m_warp_active := m_warp_active b \<union> warps, m_warp_at_barrier := m_warp_at_barrier b - warps,
             m_bar_id_to_warps := clear_barriers warps b\<rparr>) }"

definition deallocate_barrier :: "nat \<Rightarrow> barrier_set \<Rightarrow> barrier_set option" where
  "deallocate_barrier cta_id b =
     (case m_cta_to_warps b cta_id of
        None \<Rightarrow> Some b
      | Some warps \<Rightarrow> do {
          _ \<leftarrow> assert_c (warps \<inter> m_warp_at_barrier b = {});
          _ \<leftarrow> assert_c (warps \<inter> m_warp_active b = {});
          _ \<leftarrow> assert_c (\<forall>i \<in> set [0..<m_max_barriers_per_cta b]. warps \<inter> m_bar_id_to_warps b i = {});
          Some (b\<lparr>m_warp_active := m_warp_active b - warps, m_warp_at_barrier := m_warp_at_barrier b - warps,
                  m_bar_id_to_warps := clear_barriers warps b,
                  m_cta_to_warps := (m_cta_to_warps b)(cta_id := None)\<rparr>) })"

text \<open>Release the warps of a barrier.\<close>

definition release_barrier :: "nat \<Rightarrow> nat set \<Rightarrow> barrier_set \<Rightarrow> barrier_set" where
  "release_barrier bar_id warps b =
     b\<lparr>m_bar_id_to_warps := (m_bar_id_to_warps b)(bar_id := m_bar_id_to_warps b bar_id - warps),
       m_warp_at_barrier := m_warp_at_barrier b - warps\<rparr>"

text \<open>The result has the reduction that \<open>broadcast_barrier_reduction\<close> is called with, if any. A count of \<open>-1\<close>
  stands for all the active warps of the block.\<close>

definition warp_reaches_barrier :: "nat \<Rightarrow> nat \<Rightarrow> barrier_type \<Rightarrow> u32 \<Rightarrow> u32 \<Rightarrow> barrier_set
    \<Rightarrow> ((nat \<times> nat \<times> nat set) option \<times> barrier_set) option" where
  "warp_reaches_barrier cta_id warp_id bar_type bar_id bar_count b = do {
     _ \<leftarrow> assert_c (bar_id \<noteq> - 1);
     warps_in_cta \<leftarrow> m_cta_to_warps b cta_id;
     t \<leftarrow> bs_test WARP_PER_CTA_MAX warp_id warps_in_cta;
     _ \<leftarrow> assert_c t;
     let id = unat bar_id;
     let b = b\<lparr>m_bar_id_to_warps := (m_bar_id_to_warps b)(id := insert warp_id (m_bar_id_to_warps b id))\<rparr>;
     let b = (if bar_type = SYNC \<or> bar_type = RED then b\<lparr>m_warp_at_barrier := insert warp_id (m_warp_at_barrier b)\<rparr> else b);
     let at_barrier = warps_in_cta \<inter> m_bar_id_to_warps b id;
     let active = warps_in_cta \<inter> m_warp_active b;
     let full = (if bar_count = - 1 then at_barrier = active else card at_barrier * m_warp_size b = unat bar_count);
     Some (if full then (if bar_type = RED then Some (cta_id, id, at_barrier) else None, release_barrier id at_barrier b)
           else (None, b)) }"

definition release_if_full :: "nat set \<Rightarrow> nat set \<Rightarrow> barrier_set \<Rightarrow> nat \<Rightarrow> barrier_set" where
  "release_if_full warps_in_cta active b i =
     (let at = warps_in_cta \<inter> m_bar_id_to_warps b i in if at = active then release_barrier i at b else b)"

text \<open>A warp that is in no block makes the source read past the end of the map, \<open>None\<close>.\<close>

definition warp_exit :: "nat \<Rightarrow> barrier_set \<Rightarrow> barrier_set option" where
  "warp_exit warp_id b = do {
     _ \<leftarrow> assert_c (warp_id < WARP_PER_CTA_MAX);
     let b = b\<lparr>m_warp_active := m_warp_active b - {warp_id}\<rparr>;
     cta \<leftarrow> find (\<lambda>c. case m_cta_to_warps b c of Some ws \<Rightarrow> warp_id \<in> ws | None \<Rightarrow> False) [0..<m_max_cta_per_core b];
     warps_in_cta \<leftarrow> m_cta_to_warps b cta;
     let active = warps_in_cta \<inter> m_warp_active b;
     Some (foldl (release_if_full warps_in_cta active) b [0..<m_max_barriers_per_cta b]) }"

definition warp_waiting_at_barrier :: "nat \<Rightarrow> barrier_set \<Rightarrow> bool option" where
  "warp_waiting_at_barrier warp_id b = bs_test WARP_PER_CTA_MAX warp_id (m_warp_at_barrier b)"

section \<open>One barrier of all warps\<close>

lemma cta_count_le: "m_max_cta_per_core b = n \<Longrightarrow> cta_count b \<le> n"
  unfolding cta_count_def by (metis diff_zero length_filter_le length_upt)

lemma release_nothing [simp]: "release_barrier i {} b = b"
  by (simp add: release_barrier_def fun_upd_idem)

lemma release_barrier_simps [simp]:
  "m_cta_to_warps (release_barrier i ws b) = m_cta_to_warps b"
  "m_max_cta_per_core (release_barrier i ws b) = m_max_cta_per_core b"
  "m_max_barriers_per_cta (release_barrier i ws b) = m_max_barriers_per_cta b"
  "m_warp_active (release_barrier i ws b) = m_warp_active b"
  "m_warp_at_barrier (release_barrier i ws b) = m_warp_at_barrier b - ws"
  "m_bar_id_to_warps (release_barrier i ws b) = (m_bar_id_to_warps b)(i := m_bar_id_to_warps b i - ws)"
  by (simp_all add: release_barrier_def)

lemma release_if_full_empty: "ws \<inter> m_bar_id_to_warps b i = {} \<Longrightarrow> release_if_full ws active b i = b"
  by (simp add: release_if_full_def Let_def)

lemma foldl_release_idle:
  "\<forall>i \<in> set is. ws \<inter> m_bar_id_to_warps b i = {} \<Longrightarrow> foldl (release_if_full ws active) b is = b"
  by (induction "is") (simp_all add: release_if_full_empty)

lemma foldl_release:
  assumes "k < n" and "\<And>i. i \<noteq> k \<Longrightarrow> ws \<inter> m_bar_id_to_warps b i = {}"
  shows "foldl (release_if_full ws active) b [0..<n] = release_if_full ws active b k"
proof -
  have "[0..<n] = [0..<k] @ k # [Suc k..<n]" using assms(1)
    by (metis append_Cons append_Nil less_imp_le_nat upt_conv_Cons upt_add_eq_append le_add_diff_inverse zero_le)
  moreover have "foldl (release_if_full ws active) b [0..<k] = b"
    by (rule foldl_release_idle) (use assms(2) in auto)
  moreover have "foldl (release_if_full ws active) (release_if_full ws active b k) [Suc k..<n] = release_if_full ws active b k"
    by (rule foldl_release_idle) (use assms(2) in \<open>auto simp: release_if_full_def Let_def\<close>)
  ultimately show ?thesis by simp
qed

text \<open>The number of times a warp has been past the barrier.\<close>

definition passed :: "barrier_set \<Rightarrow> (nat \<Rightarrow> nat) \<Rightarrow> nat \<Rightarrow> nat" where
  "passed b n w = (if w \<in> m_warp_at_barrier b then n w - 1 else n w)"

definition same_phase :: "barrier_set \<Rightarrow> (nat \<Rightarrow> nat) \<Rightarrow> nat set \<Rightarrow> bool" where
  "same_phase b n ws \<longleftrightarrow> (\<forall>u \<in> ws \<inter> m_warp_active b. \<forall>v \<in> ws \<inter> m_warp_active b. passed b n u = passed b n v)"

text \<open>Not all the active warps of a block wait.\<close>

definition not_full :: "barrier_set \<Rightarrow> nat set \<Rightarrow> bool" where
  "not_full b ws \<longleftrightarrow> (ws \<inter> m_warp_active b = {} \<or> \<not> ws \<inter> m_warp_active b \<subseteq> m_warp_at_barrier b)"

lemma same_phase_cong:
  assumes "ws \<inter> m_warp_active b' = ws \<inter> m_warp_active b" and "\<And>w. w \<in> ws \<Longrightarrow> passed b' n' w = passed b n w"
  shows "same_phase b' n' ws = same_phase b n ws"
  unfolding same_phase_def assms(1) using assms(2) by (metis IntD1)

lemma not_full_cong:
  assumes "ws \<inter> m_warp_active b' = ws \<inter> m_warp_active b"
    and "\<And>w. w \<in> ws \<Longrightarrow> w \<in> m_warp_at_barrier b' \<longleftrightarrow> w \<in> m_warp_at_barrier b"
  shows "not_full b' ws = not_full b ws"
  unfolding not_full_def assms(1) using assms(2) by blast

text \<open>The invariant, in which the blocks \<open>X\<close> may be about to be released.\<close>

definition barrier_inv :: "nat \<Rightarrow> nat set \<Rightarrow> barrier_set \<Rightarrow> (nat \<Rightarrow> nat) \<Rightarrow> bool" where
  "barrier_inv k X b n \<longleftrightarrow> k < m_max_barriers_per_cta b \<and> m_max_barriers_per_cta b \<le> MAX_BARRIERS_PER_CTA
     \<and> (\<forall>c ws. m_cta_to_warps b c = Some ws \<longrightarrow> c < m_max_cta_per_core b \<and> ws \<subseteq> {..<WARP_PER_CTA_MAX}
          \<and> same_phase b n ws \<and> (c \<notin> X \<longrightarrow> not_full b ws))
     \<and> (\<forall>c c' ws ws'. m_cta_to_warps b c = Some ws \<longrightarrow> m_cta_to_warps b c' = Some ws' \<longrightarrow> c \<noteq> c' \<longrightarrow> ws \<inter> ws' = {})
     \<and> (\<forall>w \<in> m_warp_active b. \<exists>c ws. m_cta_to_warps b c = Some ws \<and> w \<in> ws)
     \<and> m_warp_at_barrier b \<subseteq> m_warp_active b \<and> m_bar_id_to_warps b k = m_warp_at_barrier b
     \<and> (\<forall>i. i \<noteq> k \<longrightarrow> m_bar_id_to_warps b i = {}) \<and> (\<forall>w \<in> m_warp_at_barrier b. 0 < n w)"

lemma barrier_invD:
  assumes "barrier_inv k X b n"
  shows "k < m_max_barriers_per_cta b" "m_max_barriers_per_cta b \<le> MAX_BARRIERS_PER_CTA"
    "m_cta_to_warps b c = Some ws \<Longrightarrow> c < m_max_cta_per_core b"
    "m_cta_to_warps b c = Some ws \<Longrightarrow> ws \<subseteq> {..<WARP_PER_CTA_MAX}"
    "m_cta_to_warps b c = Some ws \<Longrightarrow> same_phase b n ws"
    "m_cta_to_warps b c = Some ws \<Longrightarrow> c \<notin> X \<Longrightarrow> not_full b ws"
    "m_cta_to_warps b c = Some ws \<Longrightarrow> m_cta_to_warps b c' = Some ws' \<Longrightarrow> c \<noteq> c' \<Longrightarrow> ws \<inter> ws' = {}"
    "w \<in> m_warp_active b \<Longrightarrow> \<exists>c ws. m_cta_to_warps b c = Some ws \<and> w \<in> ws"
    "m_warp_at_barrier b \<subseteq> m_warp_active b" "m_bar_id_to_warps b k = m_warp_at_barrier b"
    "i \<noteq> k \<Longrightarrow> m_bar_id_to_warps b i = {}" "w \<in> m_warp_at_barrier b \<Longrightarrow> 0 < n w"
  using assms unfolding barrier_inv_def by blast+

lemma barrier_invI:
  assumes "k < m_max_barriers_per_cta b" "m_max_barriers_per_cta b \<le> MAX_BARRIERS_PER_CTA"
    "\<And>c ws. m_cta_to_warps b c = Some ws \<Longrightarrow> c < m_max_cta_per_core b \<and> ws \<subseteq> {..<WARP_PER_CTA_MAX}"
    "\<And>c ws. m_cta_to_warps b c = Some ws \<Longrightarrow> same_phase b n ws \<and> (c \<notin> X \<longrightarrow> not_full b ws)"
    "\<And>c c' ws ws'. m_cta_to_warps b c = Some ws \<Longrightarrow> m_cta_to_warps b c' = Some ws' \<Longrightarrow> c \<noteq> c' \<Longrightarrow> ws \<inter> ws' = {}"
    "\<And>w. w \<in> m_warp_active b \<Longrightarrow> \<exists>c ws. m_cta_to_warps b c = Some ws \<and> w \<in> ws"
    "m_warp_at_barrier b \<subseteq> m_warp_active b" "m_bar_id_to_warps b k = m_warp_at_barrier b"
    "\<And>i. i \<noteq> k \<Longrightarrow> m_bar_id_to_warps b i = {}" "\<And>w. w \<in> m_warp_at_barrier b \<Longrightarrow> 0 < n w"
  shows "barrier_inv k X b n"
  unfolding barrier_inv_def using assms(3,4)
  by (intro conjI allI ballI impI assms(1,2,5-10)) (assumption | metis)+

lemma settle:
  assumes "barrier_inv k {c} b n" and c: "m_cta_to_warps b c = Some ws"
  shows "barrier_inv k {} (release_if_full ws (ws \<inter> m_warp_active b) b k) n"
proof (cases "ws \<inter> m_warp_at_barrier b = ws \<inter> m_warp_active b")
  case True
  let ?b = "release_barrier k (ws \<inter> m_warp_at_barrier b) b"
  have "same_phase ?b n v \<and> not_full ?b v" if v: "m_cta_to_warps b c' = Some v" for c' v
  proof (cases "c' = c")
    case [simp]: True
    have [simp]: "v = ws" using v c by simp
    have "n x = n y" if "x \<in> ws" "x \<in> m_warp_active b" "y \<in> ws" "y \<in> m_warp_active b" for x y
    proof -
      have "x \<in> m_warp_at_barrier b" "y \<in> m_warp_at_barrier b" using that \<open>ws \<inter> _ = _\<close> by blast+
      with barrier_invD(5) [OF assms(1) c] barrier_invD(12) [OF assms(1)] that show ?thesis
        unfolding same_phase_def passed_def by (metis IntI Suc_diff_1)
    qed
    then show ?thesis by (auto simp: same_phase_def not_full_def passed_def)
  next
    case False
    then have d: "v \<inter> ws = {}" using barrier_invD(7) [OF assms(1) v c] by simp
    then have w: "x \<in> m_warp_at_barrier ?b \<longleftrightarrow> x \<in> m_warp_at_barrier b" if "x \<in> v" for x using that by auto
    have "same_phase ?b n v = same_phase b n v" using w by (simp add: same_phase_def passed_def)
    moreover have "not_full ?b v = not_full b v" unfolding not_full_def using w by (simp add: subset_iff)
    moreover have "c' \<notin> {c}" using False by simp
    ultimately show ?thesis using barrier_invD(5) [OF assms(1) v] barrier_invD(6) [OF assms(1) v] by blast
  qed
  moreover have "release_if_full ws (ws \<inter> m_warp_active b) b k = ?b"
    using True barrier_invD(10) [OF assms(1)] by (simp add: release_if_full_def)
  moreover have "barrier_inv k {} ?b n"
  proof (rule barrier_invI)
    show "m_warp_at_barrier ?b \<subseteq> m_warp_active ?b" using barrier_invD(9) [OF assms(1)] by auto
    show "\<And>c ws. m_cta_to_warps ?b c = Some ws \<Longrightarrow> c < m_max_cta_per_core ?b \<and> ws \<subseteq> {..<WARP_PER_CTA_MAX}"
      using barrier_invD(3,4) [OF assms(1)] by simp
    show "\<And>c ws. m_cta_to_warps ?b c = Some ws \<Longrightarrow> same_phase ?b n ws \<and> (c \<notin> {} \<longrightarrow> not_full ?b ws)"
      using calculation(1) by simp
    show "\<And>w. w \<in> m_warp_active ?b \<Longrightarrow> \<exists>c ws. m_cta_to_warps ?b c = Some ws \<and> w \<in> ws"
      using barrier_invD(8) [OF assms(1)] by simp
  qed (use barrier_invD(1,2,7,10-12) [OF assms(1)] in simp_all)
  ultimately show ?thesis by simp
next
  case False
  then have "not_full b ws" using barrier_invD(9) [OF assms(1)] by (auto simp: not_full_def)
  moreover have "release_if_full ws (ws \<inter> m_warp_active b) b k = b"
    using False barrier_invD(10) [OF assms(1)] by (simp add: release_if_full_def)
  moreover have "barrier_inv k {} b n"
  proof (rule barrier_invI)
    show "same_phase b n v \<and> (c' \<notin> {} \<longrightarrow> not_full b v)" if "m_cta_to_warps b c' = Some v" for c' v
      using barrier_invD(5,6) [OF assms(1) that] calculation(1) that c by (cases "c' = c") auto
    show "c' < m_max_cta_per_core b \<and> v \<subseteq> {..<WARP_PER_CTA_MAX}" if "m_cta_to_warps b c' = Some v" for c' v
      using barrier_invD(3,4) [OF assms(1) that] by simp
  qed (fact barrier_invD [OF assms(1)])+
  ultimately show ?thesis by simp
qed

lemma small_barrier:
  assumes "k < MAX_BARRIERS_PER_CTA"
  shows "unat (of_nat k :: u32) = k \<and> (of_nat k :: u32) \<noteq> - 1"
proof
  show k: "unat (of_nat k :: u32) = k" using assms by (simp add: MAX_BARRIERS_PER_CTA_def unat_of_nat)
  have m: "unat (- 1 :: u32) = 4294967295" by (simp add: unsigned_minus_1_eq_mask mask_eq_exp_minus_1)
  show "(of_nat k :: u32) \<noteq> - 1"
  proof
    assume "(of_nat k :: u32) = - 1"
    with k m have "k = 4294967295" by (simp only:)
    with assms show False by (simp add: MAX_BARRIERS_PER_CTA_def)
  qed
qed

lemma arrive_ok:
  assumes inv: "barrier_inv k {} b n" and c: "m_cta_to_warps b c = Some ws" and w: "w \<in> ws" "w \<in> m_warp_active b" "w \<notin> m_warp_at_barrier b"
    and t: "t = SYNC \<or> t = RED"
  shows "\<exists>r b'. warp_reaches_barrier c w t (of_nat k) (- 1) b = Some (r, b') \<and> barrier_inv k {} b' (n(w := Suc (n w)))"
proof -
  let ?b = "b\<lparr>m_bar_id_to_warps := (m_bar_id_to_warps b)(k := insert w (m_bar_id_to_warps b k)),
      m_warp_at_barrier := insert w (m_warp_at_barrier b)\<rparr>"
  have k: "unat (of_nat k :: u32) = k \<and> (of_nat k :: u32) \<noteq> - 1"
    by (rule small_barrier) (use barrier_invD(1,2) [OF inv] in simp)
  have pv: "passed ?b (n(w := Suc (n w))) v = passed b n v" for v using w by (simp add: passed_def)
  have act: "m_warp_active ?b = m_warp_active b" by simp
  have sp: "same_phase ?b (n(w := Suc (n w))) v" if "m_cta_to_warps b c' = Some v" for c' v
    using barrier_invD(5) [OF inv that] unfolding same_phase_def act pv .
  have nf: "not_full ?b v" if v: "m_cta_to_warps b c' = Some v" and "c' \<noteq> c" for c' v
  proof -
    have "w \<notin> v" using barrier_invD(7) [OF inv v c \<open>c' \<noteq> c\<close>] w(1) by blast
    then have "v \<inter> m_warp_active b \<subseteq> insert w (m_warp_at_barrier b) \<longleftrightarrow> v \<inter> m_warp_active b \<subseteq> m_warp_at_barrier b" by blast
    moreover have "not_full b v" by (rule barrier_invD(6) [OF inv v]) simp
    ultimately show ?thesis by (simp add: not_full_def)
  qed
  have "barrier_inv k {c} ?b (n(w := Suc (n w)))"
  proof (rule barrier_invI)
    show "\<And>c' v. m_cta_to_warps ?b c' = Some v \<Longrightarrow> same_phase ?b (n(w := Suc (n w))) v \<and> (c' \<notin> {c} \<longrightarrow> not_full ?b v)"
      using sp nf by simp
    show "m_warp_at_barrier ?b \<subseteq> m_warp_active ?b" using barrier_invD(9) [OF inv] w by simp
    show "0 < (n(w := Suc (n w))) x" if "x \<in> m_warp_at_barrier ?b" for x
      using that barrier_invD(12) [OF inv, of x] by auto
    show "m_bar_id_to_warps ?b k = m_warp_at_barrier ?b" using barrier_invD(10) [OF inv] by simp
    show "\<And>i. i \<noteq> k \<Longrightarrow> m_bar_id_to_warps ?b i = {}" using barrier_invD(11) [OF inv] by simp
    show "\<And>x. x \<in> m_warp_active ?b \<Longrightarrow> \<exists>c ws. m_cta_to_warps ?b c = Some ws \<and> x \<in> ws"
      using barrier_invD(8) [OF inv] by simp
    show "\<And>c ws. m_cta_to_warps ?b c = Some ws \<Longrightarrow> c < m_max_cta_per_core ?b \<and> ws \<subseteq> {..<WARP_PER_CTA_MAX}"
      using barrier_invD(3,4) [OF inv] by simp
  qed (use barrier_invD(1,2,7) [OF inv] in simp_all)
  from settle [OF this, of ws] c
  have "barrier_inv k {} (release_if_full ws (ws \<inter> m_warp_active b) ?b k) (n(w := Suc (n w)))" by simp
  moreover have "\<exists>r. warp_reaches_barrier c w t (of_nat k) (- 1) b = Some (r, release_if_full ws (ws \<inter> m_warp_active b) ?b k)"
    using k c w t barrier_invD(4) [OF inv c]
    by (auto simp: warp_reaches_barrier_def bs_test_def Let_def release_if_full_def assert_c_def)
  ultimately show ?thesis by blast
qed

lemma leave_ok:
  assumes inv: "barrier_inv k {} b n" and w: "w \<in> m_warp_active b" "w \<notin> m_warp_at_barrier b"
  shows "\<exists>b'. warp_exit w b = Some b' \<and> barrier_inv k {} b' n"
proof -
  let ?b = "b\<lparr>m_warp_active := m_warp_active b - {w}\<rparr>"
  let ?P = "\<lambda>c. case m_cta_to_warps b c of Some ws \<Rightarrow> w \<in> ws | None \<Rightarrow> False"
  obtain c0 ws0 where "m_cta_to_warps b c0 = Some ws0" "w \<in> ws0" using barrier_invD(8) [OF inv w(1)] by blast
  then have "?P c0" "c0 < m_max_cta_per_core b" using barrier_invD(3) [OF inv] by simp_all
  then obtain c where f: "find ?P [0..<m_max_cta_per_core b] = Some c"
    by (cases "find ?P [0..<m_max_cta_per_core b]") (auto simp: find_None_iff)
  then have "?P c" by (auto simp: find_Some_iff)
  then obtain ws where c: "m_cta_to_warps b c = Some ws" "w \<in> ws" by (auto split: option.splits)
  have "w < WARP_PER_CTA_MAX" using barrier_invD(4) [OF inv c(1)] c(2) by auto
  have "barrier_inv k {c} ?b n"
  proof (rule barrier_invI)
    show "same_phase ?b n v \<and> (c' \<notin> {c} \<longrightarrow> not_full ?b v)" if v: "m_cta_to_warps ?b c' = Some v" for c' v
    proof
      have v': "m_cta_to_warps b c' = Some v" using v by simp
      show "same_phase ?b n v" using barrier_invD(5) [OF inv v'] by (simp add: same_phase_def passed_def)
      show "c' \<notin> {c} \<longrightarrow> not_full ?b v"
      proof
        assume "c' \<notin> {c}"
        then have "w \<notin> v" using barrier_invD(7) [OF inv v' c(1)] c(2) by auto
        then have "v \<inter> (m_warp_active b - {w}) = v \<inter> m_warp_active b" by blast
        moreover have "not_full b v" by (rule barrier_invD(6) [OF inv v']) simp
        ultimately show "not_full ?b v" by (simp add: not_full_def)
      qed
    qed
    show "m_warp_at_barrier ?b \<subseteq> m_warp_active ?b" using barrier_invD(9) [OF inv] w by auto
    show "\<exists>c ws. m_cta_to_warps ?b c = Some ws \<and> x \<in> ws" if "x \<in> m_warp_active ?b" for x
      using that barrier_invD(8) [OF inv, of x] by simp
    show "\<And>c ws. m_cta_to_warps ?b c = Some ws \<Longrightarrow> c < m_max_cta_per_core ?b \<and> ws \<subseteq> {..<WARP_PER_CTA_MAX}"
      using barrier_invD(3,4) [OF inv] by simp
  qed (use barrier_invD(1,2,7,10-12) [OF inv] in simp_all)
  from settle [OF this, of ws] c(1)
  have "barrier_inv k {} (release_if_full ws (ws \<inter> m_warp_active ?b) ?b k) n" by simp
  moreover have "warp_exit w b = Some (release_if_full ws (ws \<inter> m_warp_active ?b) ?b k)"
    using f c(1) \<open>w < _\<close> foldl_release [of k "m_max_barriers_per_cta b" ws ?b] barrier_invD(1,11) [OF inv]
    by (simp add: warp_exit_def Let_def)
  ultimately show ?thesis by blast
qed

lemma no_bar:
  assumes "barrier_inv k X b n" and "ws \<inter> m_warp_at_barrier b = {}"
  shows "m_bar_id_to_warps b i - ws = m_bar_id_to_warps b i"
proof (cases "i = k")
  case True
  then show ?thesis using assms(2) barrier_invD(10) [OF assms(1)] by auto
next
  case False
  then show ?thesis using barrier_invD(11) [OF assms(1)] by simp
qed

lemma block_launch_ok:
  assumes inv: "barrier_inv k {} b n" and ws: "ws \<subseteq> {..<WARP_PER_CTA_MAX}"
    and disj: "\<And>c' ws'. m_cta_to_warps b c' = Some ws' \<Longrightarrow> ws \<inter> ws' = {}"
    and b': "allocate_barrier c ws b = Some b'"
  shows "barrier_inv k {} b' (\<lambda>w. if w \<in> ws then 0 else n w)"
proof -
  have c: "c < m_max_cta_per_core b" "m_cta_to_warps b c = None"
    using b' by (auto simp: allocate_barrier_def assert_c_def bind_eq_Some_conv Let_def split: if_splits)
  have d: "ws \<inter> m_warp_active b = {}" using disj barrier_invD(8) [OF inv] by blast
  have d2: "ws \<inter> m_warp_at_barrier b = {}" using d barrier_invD(9) [OF inv] by blast
  then have e: "b' = b\<lparr>m_cta_to_warps := (m_cta_to_warps b)(c \<mapsto> ws), m_warp_active := m_warp_active b \<union> ws,
      m_warp_at_barrier := m_warp_at_barrier b, m_bar_id_to_warps := clear_barriers ws b\<rparr>"
    using b' by (auto simp: allocate_barrier_def assert_c_def bind_eq_Some_conv Let_def Diff_triv Int_commute clear_barriers_def
        split: if_splits cong: if_cong)
  let ?n = "\<lambda>w. if w \<in> ws then 0 else n w"
  have bars: "m_bar_id_to_warps b' = m_bar_id_to_warps b"
    using no_bar [OF inv d2] by (simp add: e clear_barriers_def fun_eq_iff)
  show ?thesis
  proof (rule barrier_invI)
    show "same_phase b' ?n v \<and> (c' \<notin> {} \<longrightarrow> not_full b' v)" if v: "m_cta_to_warps b' c' = Some v" for c' v
    proof (cases "c' = c")
      case True
      then show ?thesis using v d2 by (auto simp: e same_phase_def passed_def not_full_def)
    next
      case False
      then have v': "m_cta_to_warps b c' = Some v" using v by (simp add: e)
      have 1: "v \<inter> ws = {}" using disj [OF v'] by blast
      then have a: "v \<inter> m_warp_active b' = v \<inter> m_warp_active b" by (auto simp: e)
      have x: "x \<notin> ws" if "x \<in> v" for x using 1 that by blast
      have "same_phase b' ?n v = same_phase b n v" by (rule same_phase_cong [OF a]) (simp add: e x passed_def)
      moreover have "not_full b' v = not_full b v" by (rule not_full_cong [OF a]) (simp add: e)
      moreover have "not_full b v" by (rule barrier_invD(6) [OF inv v']) simp
      ultimately show ?thesis using barrier_invD(5) [OF inv v'] by blast
    qed
    show "c' < m_max_cta_per_core b' \<and> v \<subseteq> {..<WARP_PER_CTA_MAX}" if "m_cta_to_warps b' c' = Some v" for c' v
      using that c(1) ws barrier_invD(3,4) [OF inv, of c' v] by (auto simp: e split: if_splits)
    show "v \<inter> v' = {}" if "m_cta_to_warps b' c1 = Some v" "m_cta_to_warps b' c2 = Some v'" "c1 \<noteq> c2" for c1 c2 v v'
      using that disj [of c1] disj [of c2] barrier_invD(7) [OF inv, of c1 v c2 v'] by (auto simp: e split: if_splits)
    show "\<exists>c1 v. m_cta_to_warps b' c1 = Some v \<and> x \<in> v" if x: "x \<in> m_warp_active b'" for x
    proof (cases "x \<in> ws")
      case True
      then show ?thesis by (auto simp: e)
    next
      case False
      then obtain c1 v where "m_cta_to_warps b c1 = Some v" "x \<in> v" using x barrier_invD(8) [OF inv, of x] by (auto simp: e)
      then show ?thesis using c(2) by (auto simp: e intro!: exI [of _ c1])
    qed
    show "m_warp_at_barrier b' \<subseteq> m_warp_active b'" using barrier_invD(9) [OF inv] by (auto simp: e)
    show "m_bar_id_to_warps b' k = m_warp_at_barrier b'" using bars barrier_invD(10) [OF inv] by (simp add: e)
    show "\<And>i. i \<noteq> k \<Longrightarrow> m_bar_id_to_warps b' i = {}" using bars barrier_invD(11) [OF inv] by simp
    show "0 < ?n x" if "x \<in> m_warp_at_barrier b'" for x
      using that d2 barrier_invD(12) [OF inv, of x] by (auto simp: e)
  qed (use barrier_invD(1,2) [OF inv] in \<open>simp_all add: e\<close>)
qed

lemma retire_ok:
  assumes inv: "barrier_inv k {} b n" and b': "deallocate_barrier c b = Some b'"
  shows "barrier_inv k {} b' n"
proof (cases "m_cta_to_warps b c")
  case None
  then show ?thesis using assms by (simp add: deallocate_barrier_def)
next
  case (Some ws)
  have d: "ws \<inter> m_warp_active b = {}" "ws \<inter> m_warp_at_barrier b = {}"
    using b' Some by (auto simp: deallocate_barrier_def assert_c_def bind_eq_Some_conv split: if_splits)
  have e: "b' = b\<lparr>m_warp_active := m_warp_active b - ws, m_warp_at_barrier := m_warp_at_barrier b - ws,
      m_bar_id_to_warps := clear_barriers ws b, m_cta_to_warps := (m_cta_to_warps b)(c := None)\<rparr>"
    using b' Some by (auto simp: deallocate_barrier_def assert_c_def bind_eq_Some_conv split: if_splits)
  have s: "m_warp_active b - ws = m_warp_active b" "m_warp_at_barrier b - ws = m_warp_at_barrier b" using d by blast+
  have bars: "clear_barriers ws b = m_bar_id_to_warps b"
    using no_bar [OF inv d(2)] by (simp add: clear_barriers_def fun_eq_iff)
  have e: "b' = b\<lparr>m_cta_to_warps := (m_cta_to_warps b)(c := None)\<rparr>" by (simp add: e s bars)
  show ?thesis
  proof (rule barrier_invI)
    show "same_phase b' n v \<and> (c' \<notin> {} \<longrightarrow> not_full b' v)" if v: "m_cta_to_warps b' c' = Some v" for c' v
    proof -
      have v': "m_cta_to_warps b c' = Some v" using v by (simp add: e split: if_splits)
      have "same_phase b' n v = same_phase b n v" by (rule same_phase_cong) (simp_all add: e passed_def)
      moreover have "not_full b' v = not_full b v" by (rule not_full_cong) (simp_all add: e)
      moreover have "not_full b v" by (rule barrier_invD(6) [OF inv v']) simp
      ultimately show ?thesis using barrier_invD(5) [OF inv v'] by blast
    qed
    show "c' < m_max_cta_per_core b' \<and> v \<subseteq> {..<WARP_PER_CTA_MAX}" if "m_cta_to_warps b' c' = Some v" for c' v
      using that barrier_invD(3) [OF inv, of c' v] barrier_invD(4) [OF inv, of c' v] by (simp add: e split: if_splits)
    show "v \<inter> v' = {}" if "m_cta_to_warps b' c1 = Some v" "m_cta_to_warps b' c2 = Some v'" "c1 \<noteq> c2" for c1 c2 v v'
      using that barrier_invD(7) [OF inv, of c1 v c2 v'] by (simp add: e split: if_splits)
    show "\<exists>c1 v. m_cta_to_warps b' c1 = Some v \<and> x \<in> v" if x: "x \<in> m_warp_active b'" for x
    proof -
      obtain c1 v where "m_cta_to_warps b c1 = Some v" "x \<in> v" using x barrier_invD(8) [OF inv, of x] by (auto simp: e)
      then show ?thesis using d(1) x Some by (auto simp: e intro!: exI [of _ c1])
    qed
  qed (use barrier_invD(1,2,9-12) [OF inv] in \<open>simp_all add: e\<close>)
qed

lemma start_ok:
  assumes "new_barrier_set mw mc mb ws = Some b" and "k < mb"
  shows "barrier_inv k {} b (\<lambda>_. 0)"
proof -
  have "mb \<le> MAX_BARRIERS_PER_CTA" and b: "m_max_barriers_per_cta b = mb" "m_cta_to_warps b = (\<lambda>_. None)"
    "m_bar_id_to_warps b = (\<lambda>_. {})" "m_warp_active b = {}" "m_warp_at_barrier b = {}"
    using assms(1) by (auto simp: new_barrier_set_def assert_c_def split: if_splits)
  then show ?thesis by (intro barrier_invI) (simp_all add: assms(2))
qed

section \<open>Several barriers\<close>

text \<open>A warp that arrived at one barrier without waiting and now waits at another is set free when the first is full:
  three warps, of which warp 0 arrives at barrier 1 for two warps and then waits for all at barrier 0, until warp 1
  comes to barrier 1.\<close>

definition early_release :: "barrier_set option" where
  "early_release = do {
     b \<leftarrow> new_barrier_set 48 8 16 32;
     b \<leftarrow> allocate_barrier 0 {0, 1, 2} b;
     (_, b) \<leftarrow> warp_reaches_barrier 0 0 ARRIVE 1 64 b;
     (_, b) \<leftarrow> warp_reaches_barrier 0 0 SYNC 0 (- 1) b;
     (_, b) \<leftarrow> warp_reaches_barrier 0 1 SYNC 1 64 b;
     Some b }"

lemma barrier_early_release:
  "map_option (\<lambda>b. (m_bar_id_to_warps b 0, m_warp_active b, m_warp_at_barrier b)) early_release = Some ({0}, {0, 1, 2}, {})"
  by (simp add: early_release_def new_barrier_set_def WARP_PER_CTA_MAX_def MAX_BARRIERS_PER_CTA_def allocate_barrier_def
      cta_count_le clear_barriers_def warp_reaches_barrier_def bs_test_def release_barrier_def Let_def insert_commute)

end
