(* ===== verification/Barrier_Sync.thy ===== *)
theory Barrier_Sync
  imports Barrier
begin

text \<open>
  Runs of the barriers of a core: every warp may come to every barrier, wait there (\<open>bar.sync\<close>, \<open>bar.red\<close>) or only
  arrive (\<open>bar.arrive\<close>), with a count of threads or with none, exit, and blocks are launched and taken down. Shown is
  that the barriers of all warps synchronise, whatever the other barriers do.
\<close>

section \<open>Runs\<close>

text \<open>The number of times that a warp came to a barrier is part of the state of a run. The barriers \<open>K\<close> are those at
  which all warps of a block wait, always; the other barriers are free. A warp waits only when it is
  in no set of arrived warps: the code drops the wait of a warp that is in two (\<open>barrier_early_release\<close>).\<close>

type_synonym barrier_run = "barrier_set \<times> (nat \<Rightarrow> nat \<Rightarrow> nat)"

definition come :: "nat \<Rightarrow> nat \<Rightarrow> (nat \<Rightarrow> nat \<Rightarrow> nat) \<Rightarrow> nat \<Rightarrow> nat \<Rightarrow> nat" where
  "come i w n = n(i := (n i)(w := Suc (n i w)))"

definition may_arrive :: "nat set \<Rightarrow> nat \<Rightarrow> barrier_type \<Rightarrow> nat \<Rightarrow> u32 \<Rightarrow> barrier_set \<Rightarrow> bool" where
  "may_arrive K w t i cnt b \<longleftrightarrow> i < m_max_barriers_per_cta b \<and> w \<in> m_warp_active b \<and> w \<notin> m_warp_at_barrier b
     \<and> (t = SYNC \<or> t = RED \<longrightarrow> (\<forall>j. w \<notin> m_bar_id_to_warps b j))
     \<and> (i \<in> K \<longrightarrow> (t = SYNC \<or> t = RED) \<and> cnt = - 1)"

inductive barriers_step :: "nat set \<Rightarrow> barrier_run \<Rightarrow> barrier_run \<Rightarrow> bool" for K :: "nat set" where
  launch: "allocate_barrier c ws b = Some b' \<Longrightarrow> ws \<subseteq> {..<WARP_PER_CTA_MAX} \<Longrightarrow>
    (\<And>c' ws'. m_cta_to_warps b c' = Some ws' \<Longrightarrow> ws \<inter> ws' = {}) \<Longrightarrow>
    barriers_step K (b, n) (b', \<lambda>i w. if w \<in> ws then 0 else n i w)"
| arrive: "may_arrive K w t i cnt b \<Longrightarrow> warp_reaches_barrier c w t (of_nat i) cnt b = Some (r, b') \<Longrightarrow>
    barriers_step K (b, n) (b', come i w n)"
| leave: "warp_exit w b = Some b' \<Longrightarrow> w \<in> m_warp_active b \<Longrightarrow> w \<notin> m_warp_at_barrier b \<Longrightarrow> barriers_step K (b, n) (b', n)"
| retire: "deallocate_barrier c b = Some b' \<Longrightarrow> barriers_step K (b, n) (b', n)"

inductive barriers_reach :: "nat set \<Rightarrow> barrier_run \<Rightarrow> bool" for K :: "nat set" where
  start: "new_barrier_set mw mc mb ws = Some b \<Longrightarrow> K \<subseteq> {..<mb} \<Longrightarrow> barriers_reach K (b, \<lambda>_ _. 0)"
| step: "barriers_reach K s \<Longrightarrow> barriers_step K s s' \<Longrightarrow> barriers_reach K s'"

text \<open>The number of times a warp has been past a barrier.\<close>

definition passed_at :: "nat \<Rightarrow> barrier_run \<Rightarrow> nat \<Rightarrow> nat" where
  "passed_at i s w = (if w \<in> m_bar_id_to_warps (fst s) i then snd s i w - 1 else snd s i w)"

section \<open>The invariant\<close>

definition in_phase :: "barrier_run \<Rightarrow> nat set \<Rightarrow> nat \<Rightarrow> bool" where
  "in_phase s ws i \<longleftrightarrow> (\<forall>u \<in> ws \<inter> m_warp_active (fst s). \<forall>v \<in> ws \<inter> m_warp_active (fst s). passed_at i s u = passed_at i s v)"

definition some_missing :: "barrier_set \<Rightarrow> nat set \<Rightarrow> nat \<Rightarrow> bool" where
  "some_missing b ws i \<longleftrightarrow> (ws \<inter> m_warp_active b = {} \<or> \<not> ws \<inter> m_warp_active b \<subseteq> m_bar_id_to_warps b i)"

definition blocks_ok :: "barrier_set \<Rightarrow> bool" where
  "blocks_ok b \<longleftrightarrow> m_max_barriers_per_cta b \<le> MAX_BARRIERS_PER_CTA
     \<and> (\<forall>c ws. m_cta_to_warps b c = Some ws \<longrightarrow> c < m_max_cta_per_core b \<and> ws \<subseteq> {..<WARP_PER_CTA_MAX})
     \<and> (\<forall>c c' ws ws'. m_cta_to_warps b c = Some ws \<longrightarrow> m_cta_to_warps b c' = Some ws' \<longrightarrow> c \<noteq> c' \<longrightarrow> ws \<inter> ws' = {})
     \<and> (\<forall>w \<in> m_warp_active b. \<exists>c ws. m_cta_to_warps b c = Some ws \<and> w \<in> ws)"

text \<open>A waiting warp waits at one barrier, and the warps at a barrier of \<open>K\<close> wait.\<close>

definition waits_ok :: "nat set \<Rightarrow> barrier_run \<Rightarrow> bool" where
  "waits_ok K s \<longleftrightarrow> K \<subseteq> {..<m_max_barriers_per_cta (fst s)}
     \<and> (\<forall>w \<in> m_warp_at_barrier (fst s). \<exists>!i. w \<in> m_bar_id_to_warps (fst s) i)
     \<and> (\<forall>i \<in> K. m_bar_id_to_warps (fst s) i \<subseteq> m_warp_at_barrier (fst s) \<inter> m_warp_active (fst s)
          \<and> (\<forall>w \<in> m_bar_id_to_warps (fst s) i. 0 < snd s i w)
          \<and> (\<forall>c ws. m_cta_to_warps (fst s) c = Some ws \<longrightarrow> in_phase s ws i))"

definition none_full :: "nat set \<Rightarrow> barrier_set \<Rightarrow> bool" where
  "none_full K b \<longleftrightarrow> (\<forall>i \<in> K. \<forall>c ws. m_cta_to_warps b c = Some ws \<longrightarrow> some_missing b ws i)"

definition barriers_ok :: "nat set \<Rightarrow> barrier_run \<Rightarrow> bool" where
  "barriers_ok K s \<longleftrightarrow> blocks_ok (fst s) \<and> waits_ok K s \<and> none_full K (fst s)"

lemma blocks_okD:
  assumes "blocks_ok b" and "m_cta_to_warps b c = Some ws"
  shows "c < m_max_cta_per_core b" "ws \<subseteq> {..<WARP_PER_CTA_MAX}"
    "m_cta_to_warps b c' = Some ws' \<Longrightarrow> c \<noteq> c' \<Longrightarrow> ws \<inter> ws' = {}"
  using assms unfolding blocks_ok_def by blast+

lemma blocks_ok_block: "blocks_ok b \<Longrightarrow> w \<in> m_warp_active b \<Longrightarrow> \<exists>c ws. m_cta_to_warps b c = Some ws \<and> w \<in> ws"
  unfolding blocks_ok_def by blast

lemma waits_okD:
  assumes "waits_ok K (b, n)"
  shows "K \<subseteq> {..<m_max_barriers_per_cta b}"
    "w \<in> m_warp_at_barrier b \<Longrightarrow> \<exists>!i. w \<in> m_bar_id_to_warps b i"
    "i \<in> K \<Longrightarrow> m_bar_id_to_warps b i \<subseteq> m_warp_at_barrier b" "i \<in> K \<Longrightarrow> m_bar_id_to_warps b i \<subseteq> m_warp_active b"
    "i \<in> K \<Longrightarrow> w \<in> m_bar_id_to_warps b i \<Longrightarrow> 0 < n i w"
    "i \<in> K \<Longrightarrow> m_cta_to_warps b c = Some ws \<Longrightarrow> in_phase (b, n) ws i"
  using assms unfolding waits_ok_def by (simp_all add: subset_iff)

lemma in_phaseD:
  "in_phase s ws i \<Longrightarrow> u \<in> ws \<inter> m_warp_active (fst s) \<Longrightarrow> v \<in> ws \<inter> m_warp_active (fst s) \<Longrightarrow> passed_at i s u = passed_at i s v"
  unfolding in_phase_def by (drule (1) bspec, drule (1) bspec)

lemma in_phase_cong:
  assumes "ws \<inter> m_warp_active b' \<subseteq> ws \<inter> m_warp_active b"
    and "\<And>w. w \<in> ws \<inter> m_warp_active b' \<Longrightarrow> passed_at i (b', n') w = passed_at i (b, n) w" and "in_phase (b, n) ws i"
  shows "in_phase (b', n') ws i"
  using assms unfolding in_phase_def fst_conv by (metis subsetD)

section \<open>Releases\<close>

text \<open>Releasing the warps \<open>ws\<close> that came to barrier \<open>j\<close>, where a barrier of \<open>K\<close> is released for all running warps.\<close>

lemma release_waits:
  assumes w: "waits_ok K (b, n)" and b: "blocks_ok b" and c: "m_cta_to_warps b c = Some ws"
    and full: "j \<in> K \<Longrightarrow> ws \<inter> m_bar_id_to_warps b j = ws \<inter> m_warp_active b"
  shows "waits_ok K (release_barrier j (ws \<inter> m_bar_id_to_warps b j) b, n)"
proof -
  let ?A = "ws \<inter> m_bar_id_to_warps b j"
  let ?b = "release_barrier j ?A b"
  have one: "i = j" if "x \<in> m_warp_at_barrier b" "x \<in> m_bar_id_to_warps b i" "x \<in> m_bar_id_to_warps b j" for x i
    using waits_okD(2) [OF w that(1)] that by blast
  have ph: "in_phase (?b, n) v i" if i: "i \<in> K" and v: "m_cta_to_warps b c' = Some v" for i c' v
  proof (cases "i = j \<and> c' = c")
    case True
    then have s: "i = j" "v = ws" using v c by auto
    have e: "passed_at i (?b, n) x = passed_at i (?b, n) y" if "x \<in> ws \<inter> m_warp_active b" "y \<in> ws \<inter> m_warp_active b" for x y
    proof -
      have xy: "x \<in> m_bar_id_to_warps b j" "y \<in> m_bar_id_to_warps b j" using full i s that by blast+
      have "passed_at j (b, n) x = passed_at j (b, n) y"
        by (rule in_phaseD [OF waits_okD(6) [OF w i v, unfolded s]]) (use that in simp_all)
      then have "n j x - 1 = n j y - 1" using xy by (simp add: passed_at_def)
      then have "n j x = n j y" using waits_okD(5) [OF w i] xy s by (metis Suc_diff_1)
      then show ?thesis using that s by (simp add: passed_at_def)
    qed
    show ?thesis unfolding in_phase_def by (intro ballI, rule e) (simp_all add: s)
  next
    case False
    then have "x \<in> m_bar_id_to_warps ?b i \<longleftrightarrow> x \<in> m_bar_id_to_warps b i" if "x \<in> v" for x
      using that blocks_okD(3) [OF b v c] by auto
    then show ?thesis
      by (intro in_phase_cong [OF _ _ waits_okD(6) [OF w i v]]) (simp_all add: passed_at_def)
  qed
  have ex: "\<exists>!i. x \<in> m_bar_id_to_warps ?b i" if x: "x \<in> m_warp_at_barrier ?b" for x
  proof -
    have "x \<in> m_warp_at_barrier b" "x \<notin> ?A" using x by simp_all
    then show ?thesis using waits_okD(2) [OF w, of x] by auto
  qed
  have sub: "m_bar_id_to_warps ?b i \<subseteq> m_warp_at_barrier ?b \<inter> m_warp_active ?b" if i: "i \<in> K" for i
    using waits_okD(3,4) [OF w i] one [of _ i] by auto
  show ?thesis
    unfolding waits_ok_def fst_conv snd_conv
    using waits_okD(1) [OF w] ex sub ph waits_okD(5) [OF w] by (auto split: if_splits)
qed

lemma release_blocks [simp]: "blocks_ok (release_barrier j A b) = blocks_ok b"
  by (simp add: blocks_ok_def)

lemma release_missing:
  assumes w: "waits_ok K (b, n)" and b: "blocks_ok b" and c: "m_cta_to_warps b c = Some ws" and i: "i \<in> K"
    and v: "m_cta_to_warps b c' = Some v" and h: "some_missing b v i \<or> i = j \<and> c' = c"
    and full: "ws \<inter> m_bar_id_to_warps b j = ws \<inter> m_warp_active b"
  shows "some_missing (release_barrier j (ws \<inter> m_bar_id_to_warps b j) b) v i"
  using h v c full by (auto simp: some_missing_def)

lemma release_if_full_ok:
  fixes j :: nat
  assumes w: "waits_ok K (b, n)" and b: "blocks_ok b" and c: "m_cta_to_warps b c = Some ws"
    and a: "active = ws \<inter> m_warp_active b"
  defines "b' \<equiv> release_if_full ws active b j"
  shows "waits_ok K (b', n)" "blocks_ok b'" "m_cta_to_warps b' = m_cta_to_warps b" "m_warp_active b' = m_warp_active b"
    "\<And>i c' v. i \<in> K \<Longrightarrow> m_cta_to_warps b c' = Some v \<Longrightarrow> some_missing b v i \<or> i = j \<and> c' = c \<Longrightarrow> some_missing b' v i"
proof -
  show "waits_ok K (b', n)" using release_waits [OF w b c, of j] w a by (auto simp: b'_def release_if_full_def Let_def)
  show "blocks_ok b'" "m_cta_to_warps b' = m_cta_to_warps b" "m_warp_active b' = m_warp_active b"
    using b by (simp_all add: b'_def release_if_full_def Let_def)
  fix i c' v
  assume i: "i \<in> K" and v: "m_cta_to_warps b c' = Some v" and h: "some_missing b v i \<or> i = j \<and> c' = c"
  show "some_missing b' v i"
  proof (cases "ws \<inter> m_bar_id_to_warps b j = active")
    case True
    then show ?thesis using release_missing [OF w b c i v h] a by (simp add: b'_def release_if_full_def)
  next
    case False
    then have "some_missing b v i" using h i v c a waits_okD(4) [OF w i] by (auto simp: some_missing_def)
    then show ?thesis using False by (simp add: b'_def release_if_full_def Let_def)
  qed
qed

lemma release_all_ok:
  assumes "waits_ok K (b, n)" and "blocks_ok b" and "m_cta_to_warps b c = Some ws" and "active = ws \<inter> m_warp_active b"
  shows "waits_ok K (foldl (release_if_full ws active) b js, n) \<and> blocks_ok (foldl (release_if_full ws active) b js)
    \<and> m_cta_to_warps (foldl (release_if_full ws active) b js) = m_cta_to_warps b
    \<and> (\<forall>i \<in> K. \<forall>c' v. m_cta_to_warps b c' = Some v \<longrightarrow> some_missing b v i \<or> i \<in> set js \<and> c' = c \<longrightarrow>
        some_missing (foldl (release_if_full ws active) b js) v i)"
  using assms
proof (induction js arbitrary: b)
  case (Cons j js)
  note r = release_if_full_ok [OF Cons.prems]
  have "active = ws \<inter> m_warp_active (release_if_full ws active b j)" using r(4) Cons.prems(4) by simp
  from Cons.IH [OF r(1,2) _ this] r(3,5) Cons.prems(3) show ?case by (auto simp: Ball_def)
qed simp

section \<open>The steps keep the invariant\<close>

lemma barriers_arrive_ok:
  assumes ok: "barriers_ok K (b, n)" and may: "may_arrive K w t i cnt b"
    and r: "warp_reaches_barrier c w t (of_nat i) cnt b = Some (r, b')"
  shows "barriers_ok K (b', come i w n)"
proof -
  have b: "blocks_ok b" and wt: "waits_ok K (b, n)" and nf: "none_full K b" using ok by (simp_all add: barriers_ok_def)
  have i: "i < m_max_barriers_per_cta b" "i < MAX_BARRIERS_PER_CTA" using may b by (auto simp: may_arrive_def blocks_ok_def)
  have k: "unat (of_nat i :: u32) = i \<and> (of_nat i :: u32) \<noteq> - 1" by (rule small_barrier [OF i(2)])
  obtain ws where c: "m_cta_to_warps b c = Some ws" "w \<in> ws"
    using r by (auto simp: warp_reaches_barrier_def bind_eq_Some_conv bs_test_def assert_c_def split: if_splits)
  have act: "w \<in> m_warp_active b" "w \<notin> m_warp_at_barrier b" using may by (simp_all add: may_arrive_def)
  define W where "W = (t = SYNC \<or> t = RED)"
  define b1 where "b1 = b\<lparr>m_bar_id_to_warps := (m_bar_id_to_warps b)(i := insert w (m_bar_id_to_warps b i)),
      m_warp_at_barrier := (if W then insert w (m_warp_at_barrier b) else m_warp_at_barrier b)\<rparr>"
  define full where "full = (if cnt = - 1 then ws \<inter> m_bar_id_to_warps b1 i = ws \<inter> m_warp_active b1
      else card (ws \<inter> m_bar_id_to_warps b1 i) * m_warp_size b1 = unat cnt)"
  have b': "b' = (if full then release_barrier i (ws \<inter> m_bar_id_to_warps b1 i) b1 else b1)"
    using r c k by (auto simp: warp_reaches_barrier_def bind_eq_Some_conv assert_c_def Let_def b1_def full_def W_def
        split: if_splits)
  have free: "W \<Longrightarrow> w \<notin> m_bar_id_to_warps b j" for j using may by (auto simp: may_arrive_def W_def)
  have W: "i \<in> K \<Longrightarrow> W" and cnt: "i \<in> K \<Longrightarrow> cnt = - 1" using may by (auto simp: may_arrive_def W_def)
  have b1: "blocks_ok b1" "m_cta_to_warps b1 = m_cta_to_warps b" "m_warp_active b1 = m_warp_active b"
    using b by (simp_all add: b1_def blocks_ok_def)
  have pass: "passed_at j (b1, come i w n) v = passed_at j (b, n) v" if "j \<in> K" for j v
    using free [of i] W that by (auto simp: passed_at_def b1_def come_def)
  have ph: "in_phase (b1, come i w n) v j" if "j \<in> K" "m_cta_to_warps b c' = Some v" for j c' v
    using in_phase_cong [OF _ _ waits_okD(6) [OF wt that], of b1 "come i w n"] pass [OF that(1)] b1 by simp
  have ex: "\<exists>!j. x \<in> m_bar_id_to_warps b1 j" if x: "x \<in> m_warp_at_barrier b1" for x
  proof (cases "x = w")
    case True
    then have W using x act(2) by (auto simp: b1_def split: if_splits)
    from True free [OF this] show ?thesis by (auto simp: b1_def)
  next
    case False
    then show ?thesis using x waits_okD(2) [OF wt, of x] by (auto simp: b1_def split: if_splits)
  qed
  have w1: "waits_ok K (b1, come i w n)"
    unfolding waits_ok_def fst_conv snd_conv
  proof (intro conjI ballI allI impI ex)
    show "K \<subseteq> {..<m_max_barriers_per_cta b1}" using waits_okD(1) [OF wt] by (simp add: b1_def)
    show "m_bar_id_to_warps b1 j \<subseteq> m_warp_at_barrier b1 \<inter> m_warp_active b1" if "j \<in> K" for j
      using waits_okD(3,4) [OF wt that] W act(1) that by (auto simp: b1_def)
    show "0 < come i w n j x" if "j \<in> K" "x \<in> m_bar_id_to_warps b1 j" for j x
      using that waits_okD(5) [OF wt that(1), of x] by (auto simp: b1_def come_def split: if_splits)
    show "in_phase (b1, come i w n) v j" if "j \<in> K" "m_cta_to_warps b1 c' = Some v" for j c' v
      using ph that b1(2) by simp
  qed
  have miss1: "some_missing b1 v j" if "j \<in> K" "m_cta_to_warps b c' = Some v" "\<not> (j = i \<and> c' = c)" for j c' v
  proof -
    have "some_missing b v j" using nf that by (auto simp: none_full_def)
    moreover have "j = i \<Longrightarrow> w \<notin> v" using blocks_okD(3) [OF b that(2) c(1)] that(3) c(2) by blast
    ultimately show ?thesis by (auto simp: some_missing_def b1_def)
  qed
  have "some_missing b' v j" if j: "j \<in> K" and v: "m_cta_to_warps b c' = Some v" for j c' v
  proof (cases full)
    case True
    show ?thesis
    proof (cases "j = i \<and> c' = c")
      case True
      then have "ws \<inter> m_bar_id_to_warps b1 i = ws \<inter> m_warp_active b1" using \<open>full\<close> cnt j by (auto simp: full_def)
      then show ?thesis using True \<open>full\<close> v c b' by (auto simp: some_missing_def)
    next
      case False
      from miss1 [OF j v this] show ?thesis using True b' by (auto simp: some_missing_def)
    qed
  next
    case False
    then have "j = i \<and> c' = c \<Longrightarrow> some_missing b1 v j"
      using cnt j v c waits_okD(4) [OF w1, of i] by (auto simp: full_def some_missing_def)
    then show ?thesis using False miss1 [OF j v] b' by auto
  qed
  moreover have "waits_ok K (b', come i w n)"
    using release_waits [OF w1 b1(1), of c ws i] w1 c b1(2) b' cnt by (auto simp: full_def)
  moreover have "blocks_ok b'" "m_cta_to_warps b' = m_cta_to_warps b" using b' b1 by simp_all
  ultimately show ?thesis by (simp add: barriers_ok_def none_full_def)
qed

lemma barriers_leave_ok:
  assumes ok: "barriers_ok K (b, n)" and r: "warp_exit w b = Some b'" and act: "w \<notin> m_warp_at_barrier b"
  shows "barriers_ok K (b', n)"
proof -
  have b: "blocks_ok b" and wt: "waits_ok K (b, n)" and nf: "none_full K b" using ok by (simp_all add: barriers_ok_def)
  define b1 where "b1 = b\<lparr>m_warp_active := m_warp_active b - {w}\<rparr>"
  obtain c ws where f: "find (\<lambda>c. case m_cta_to_warps b c of Some ws \<Rightarrow> w \<in> ws | None \<Rightarrow> False) [0..<m_max_cta_per_core b] = Some c"
    and c: "m_cta_to_warps b c = Some ws"
    and b': "b' = foldl (release_if_full ws (ws \<inter> m_warp_active b1)) b1 [0..<m_max_barriers_per_cta b1]"
    using r by (auto simp: warp_exit_def bind_eq_Some_conv assert_c_def Let_def b1_def split: if_splits)
  have w: "w \<in> ws" using f c by (auto simp: find_Some_iff)
  have b1: "blocks_ok b1" "m_cta_to_warps b1 = m_cta_to_warps b" "m_max_barriers_per_cta b1 = m_max_barriers_per_cta b"
    using b by (simp_all add: b1_def blocks_ok_def)
  have "in_phase (b1, n) v i" if "i \<in> K" "m_cta_to_warps b c' = Some v" for i c' v
    by (rule in_phase_cong [OF _ _ waits_okD(6) [OF wt that]]) (auto simp: b1_def passed_at_def)
  moreover have "m_bar_id_to_warps b1 i \<subseteq> m_warp_at_barrier b1 \<inter> m_warp_active b1" if "i \<in> K" for i
    using waits_okD(3,4) [OF wt that] act by (auto simp: b1_def)
  ultimately have w1: "waits_ok K (b1, n)"
    using waits_okD(1,2,5) [OF wt] unfolding waits_ok_def by (simp add: b1_def)
  have miss: "some_missing b1 v i" if "i \<in> K" "m_cta_to_warps b c' = Some v" "c' \<noteq> c" for i c' v
  proof -
    have "w \<notin> v" using blocks_okD(3) [OF b that(2) c that(3)] w by blast
    moreover have "some_missing b v i" using nf that by (auto simp: none_full_def)
    ultimately show ?thesis by (auto simp: some_missing_def b1_def)
  qed
  note all = release_all_ok [OF w1 b1(1) c [folded b1(2)] refl, of "[0..<m_max_barriers_per_cta b1]", folded b']
  have "some_missing b' v i" if "i \<in> K" "m_cta_to_warps b' c' = Some v" for i c' v
    using all that miss [OF that(1), of c' v] waits_okD(1) [OF w1] b1(2) by auto
  then show ?thesis using all by (simp add: barriers_ok_def none_full_def)
qed

lemma barriers_launch_ok:
  assumes ok: "barriers_ok K (b, n)" and r: "allocate_barrier c ws b = Some b'" and ws: "ws \<subseteq> {..<WARP_PER_CTA_MAX}"
    and disj: "\<And>c' ws'. m_cta_to_warps b c' = Some ws' \<Longrightarrow> ws \<inter> ws' = {}"
  shows "barriers_ok K (b', \<lambda>i w. if w \<in> ws then 0 else n i w)"
proof -
  let ?n = "\<lambda>i w. if w \<in> ws then 0 else n i w"
  have b: "blocks_ok b" and wt: "waits_ok K (b, n)" and nf: "none_full K b" using ok by (simp_all add: barriers_ok_def)
  have c: "c < m_max_cta_per_core b" "m_cta_to_warps b c = None"
    and b': "b' = b\<lparr>m_cta_to_warps := (m_cta_to_warps b)(c \<mapsto> ws), m_warp_active := m_warp_active b \<union> ws,
      m_warp_at_barrier := m_warp_at_barrier b - ws, m_bar_id_to_warps := clear_barriers ws b\<rparr>"
    using r by (auto simp: allocate_barrier_def assert_c_def bind_eq_Some_conv Let_def clear_barriers_def split: if_splits cong: if_cong)
  have d: "ws \<inter> m_warp_active b = {}" using disj blocks_ok_block [OF b] by blast
  have bar: "m_bar_id_to_warps b' i = m_bar_id_to_warps b i" if "i \<in> K" for i
    using waits_okD(4) [OF wt that] d by (auto simp: b' clear_barriers_def)
  have bar2: "m_bar_id_to_warps b' i - ws = m_bar_id_to_warps b i - ws" for i by (auto simp: b' clear_barriers_def)
  have old: "v \<inter> ws = {}" "m_cta_to_warps b c' = Some v" if "m_cta_to_warps b' c' = Some v" "c' \<noteq> c" for c' v
    using that disj by (auto simp: b')
  have ph: "in_phase (b', ?n) v i \<and> some_missing b' v i" if i: "i \<in> K" and v: "m_cta_to_warps b' c' = Some v" for i c' v
  proof (cases "c' = c")
    case True
    then have "v = ws" using v by (simp add: b')
    moreover have "ws \<inter> m_bar_id_to_warps b' i = {}" using d waits_okD(4) [OF wt i] bar [OF i] by blast
    moreover have "m_warp_active b' = m_warp_active b \<union> ws" by (simp add: b')
    ultimately show ?thesis by (auto simp: in_phase_def some_missing_def passed_at_def)
  next
    case False
    note o = old [OF v False]
    have a: "v \<inter> m_warp_active b' = v \<inter> m_warp_active b" using o(1) by (auto simp: b')
    have "in_phase (b', ?n) v i"
      by (rule in_phase_cong [OF _ _ waits_okD(6) [OF wt i o(2)]]) (use a o(1) in \<open>auto simp: passed_at_def bar [OF i]\<close>)
    moreover have "some_missing b v i" using nf o(2) i by (auto simp: none_full_def)
    ultimately show ?thesis by (simp add: some_missing_def a bar [OF i])
  qed
  have ex: "\<exists>!i. x \<in> m_bar_id_to_warps b' i" if x: "x \<in> m_warp_at_barrier b'" for x
    proof -
    have x': "x \<in> m_warp_at_barrier b" "x \<notin> ws" using x by (simp_all add: b')
    then have "x \<in> m_bar_id_to_warps b' i \<longleftrightarrow> x \<in> m_bar_id_to_warps b i" for i using bar2 [of i] by blast
    then show ?thesis using waits_okD(2) [OF wt x'(1)] by simp
  qed
  have bl: "blocks_ok b'"
    unfolding blocks_ok_def
  proof (intro conjI allI impI ballI)
    show "m_max_barriers_per_cta b' \<le> MAX_BARRIERS_PER_CTA" using b by (simp add: b' blocks_ok_def)
    show "v < m_max_cta_per_core b'" "u \<subseteq> {..<WARP_PER_CTA_MAX}" if "m_cta_to_warps b' v = Some u" for v u
      using that c(1) ws blocks_okD(1,2) [OF b, of v u] by (auto simp: b' split: if_splits)
    show "v \<inter> v' = {}" if "m_cta_to_warps b' c1 = Some v" "m_cta_to_warps b' c2 = Some v'" "c1 \<noteq> c2" for c1 c2 v v'
      using that disj [of c1] disj [of c2] blocks_okD(3) [OF b, of c1 v c2 v'] by (auto simp: b' split: if_splits)
    show "\<exists>c1 v. m_cta_to_warps b' c1 = Some v \<and> x \<in> v" if "x \<in> m_warp_active b'" for x
    proof (cases "x \<in> ws")
      case False
      then have "x \<in> m_warp_active b" using that by (simp add: b')
      then obtain c1 v where "m_cta_to_warps b c1 = Some v" "x \<in> v" using blocks_ok_block [OF b] by blast
      then show ?thesis using c(2) by (auto simp: b' intro!: exI [of _ c1])
    qed (auto simp: b')
  qed
  have "waits_ok K (b', ?n)"
    unfolding waits_ok_def fst_conv snd_conv
  proof (intro conjI ballI allI impI ex)
    show "K \<subseteq> {..<m_max_barriers_per_cta b'}" using waits_okD(1) [OF wt] by (simp add: b')
    show "m_bar_id_to_warps b' i \<subseteq> m_warp_at_barrier b' \<inter> m_warp_active b'" if "i \<in> K" for i
      using waits_okD(3,4) [OF wt that] d bar [OF that] by (auto simp: b')
    show "0 < (if x \<in> ws then 0 else n i x)" if "i \<in> K" "x \<in> m_bar_id_to_warps b' i" for i x
      using that waits_okD(4,5) [OF wt that(1)] d bar [OF that(1)] by auto
    show "in_phase (b', ?n) v i" if "i \<in> K" "m_cta_to_warps b' c' = Some v" for i c' v using ph [OF that] by blast
  qed
  then show ?thesis using bl ph by (simp add: barriers_ok_def none_full_def)
qed

lemma barriers_retire_ok:
  assumes ok: "barriers_ok K (b, n)" and r: "deallocate_barrier c b = Some b'"
  shows "barriers_ok K (b', n)"
proof (cases "m_cta_to_warps b c")
  case None
  then show ?thesis using assms by (simp add: deallocate_barrier_def)
next
  case (Some ws)
  have b: "blocks_ok b" and wt: "waits_ok K (b, n)" and nf: "none_full K b" using ok by (simp_all add: barriers_ok_def)
  have d: "ws \<inter> m_warp_active b = {}" "ws \<inter> m_warp_at_barrier b = {}"
    and bars: "\<forall>i<m_max_barriers_per_cta b. ws \<inter> m_bar_id_to_warps b i = {}"
    and e: "b' = b\<lparr>m_warp_active := m_warp_active b - ws, m_warp_at_barrier := m_warp_at_barrier b - ws,
      m_bar_id_to_warps := clear_barriers ws b, m_cta_to_warps := (m_cta_to_warps b)(c := None)\<rparr>"
    using r Some by (auto simp: deallocate_barrier_def assert_c_def bind_eq_Some_conv split: if_splits)
  have "m_warp_active b - ws = m_warp_active b" "m_warp_at_barrier b - ws = m_warp_at_barrier b"
    "clear_barriers ws b = m_bar_id_to_warps b"
    using d bars by (auto simp: clear_barriers_def fun_eq_iff)
  then have e: "b' = b\<lparr>m_cta_to_warps := (m_cta_to_warps b)(c := None)\<rparr>" by (simp add: e)
  have "blocks_ok b'"
    unfolding blocks_ok_def
  proof (intro conjI allI impI ballI)
    show "\<exists>c1 v. m_cta_to_warps b' c1 = Some v \<and> x \<in> v" if x: "x \<in> m_warp_active b'" for x
    proof -
      obtain c1 v where "m_cta_to_warps b c1 = Some v" "x \<in> v" using x blocks_ok_block [OF b, of x] by (auto simp: e)
      then show ?thesis using d(1) x Some by (auto simp: e intro!: exI [of _ c1])
    qed
    show "m_max_barriers_per_cta b' \<le> MAX_BARRIERS_PER_CTA" using b by (simp add: e blocks_ok_def)
    show "v < m_max_cta_per_core b'" "u \<subseteq> {..<WARP_PER_CTA_MAX}" if "m_cta_to_warps b' v = Some u" for v u
      using that blocks_okD(1,2) [OF b, of v u] by (auto simp: e split: if_splits)
    show "v \<inter> v' = {}" if "m_cta_to_warps b' c1 = Some v" "m_cta_to_warps b' c2 = Some v'" "c1 \<noteq> c2" for c1 c2 v v'
      using that blocks_okD(3) [OF b, of c1 v c2 v'] by (auto simp: e split: if_splits)
  qed
  moreover have "waits_ok K (b', n)"
  proof -
    have "in_phase (b', n) v i" if "i \<in> K" "m_cta_to_warps b' c' = Some v" for i c' v
      by (rule in_phase_cong [OF _ _ waits_okD(6) [OF wt that(1)]])
        (use that in \<open>simp_all add: e passed_at_def split: if_splits\<close>)
    then show ?thesis using waits_okD(1-5) [OF wt] unfolding waits_ok_def fst_conv snd_conv by (simp add: e)
  qed
  moreover have "none_full K b'" using nf by (simp add: e none_full_def some_missing_def)
  ultimately show ?thesis by (simp add: barriers_ok_def)
qed

lemma barriers_start_ok: "new_barrier_set mw mc mb ws = Some b \<Longrightarrow> K \<subseteq> {..<mb} \<Longrightarrow> barriers_ok K (b, \<lambda>_ _. 0)"
  by (auto simp: new_barrier_set_def assert_c_def barriers_ok_def blocks_ok_def waits_ok_def none_full_def split: if_splits)

lemma barriers_reach_ok: "barriers_reach K s \<Longrightarrow> barriers_ok K s"
proof (induction rule: barriers_reach.induct)
  case start
  then show ?case by (rule barriers_start_ok)
next
  case (step s s')
  from step(2,3) show ?case
    by (induction rule: barriers_step.induct)
      (blast intro: barriers_launch_ok barriers_arrive_ok barriers_leave_ok barriers_retire_ok)+
qed

section \<open>Synchronisation\<close>

text \<open>C3. In every run, with any other barriers, counts and arrivals beside it, a barrier at which all warps of a block
  wait keeps them together: any two running warps of a block have been past it equally often, so no warp goes past it
  before every running warp of its block has come, and not all the running warps of a block are kept
  there. A warp that waits, waits at one barrier. The runs are those in which a warp does not wait while it
  is arrived somewhere else.\<close>

theorem barrier_synchronises:
  assumes "barriers_reach K (b, n)" and "i \<in> K" and "m_cta_to_warps b c = Some ws"
    and "u \<in> ws \<inter> m_warp_active b" and "v \<in> ws \<inter> m_warp_active b"
  shows "passed_at i (b, n) u = passed_at i (b, n) v \<and> n i u \<le> Suc (n i v)
    \<and> (\<exists>w \<in> ws \<inter> m_warp_active b. w \<notin> m_bar_id_to_warps b i)
    \<and> m_bar_id_to_warps b i \<subseteq> m_warp_at_barrier b \<and> (\<forall>w \<in> m_warp_at_barrier b. \<exists>!j. w \<in> m_bar_id_to_warps b j)"
proof -
  have ok: "waits_ok K (b, n)" "none_full K b" using barriers_reach_ok [OF assms(1)] by (simp_all add: barriers_ok_def)
  have eq: "passed_at i (b, n) u = passed_at i (b, n) v"
    by (rule in_phaseD [OF waits_okD(6) [OF ok(1) assms(2,3)]]) (use assms(4,5) in simp_all)
  moreover have "n i u \<le> Suc (n i v)" using eq by (auto simp: passed_at_def split: if_splits)
  moreover have "some_missing b ws i" using ok(2) assms(2,3) by (auto simp: none_full_def)
  then have "\<exists>w \<in> ws \<inter> m_warp_active b. w \<notin> m_bar_id_to_warps b i" using assms(4) by (auto simp: some_missing_def)
  moreover have "m_bar_id_to_warps b i \<subseteq> m_warp_at_barrier b" by (rule waits_okD(3) [OF ok(1) assms(2)])
  moreover have "\<forall>w \<in> m_warp_at_barrier b. \<exists>!j. w \<in> m_bar_id_to_warps b j" using waits_okD(2) [OF ok(1)] by blast
  ultimately show ?thesis by blast
qed

text \<open>In such a run a warp that may come to a barrier can come, and a running warp that does not wait can exit.\<close>

lemma barrier_never_aborts:
  assumes "barriers_reach K (b, n)" and c: "m_cta_to_warps b c = Some ws" and w: "w \<in> ws"
  shows "may_arrive K w t i cnt b \<Longrightarrow> warp_reaches_barrier c w t (of_nat i) cnt b \<noteq> None" and "warp_exit w b \<noteq> None"
proof -
  have b: "blocks_ok b" using barriers_reach_ok [OF assms(1)] by (simp add: barriers_ok_def)
  have w48: "w < WARP_PER_CTA_MAX" using blocks_okD(2) [OF b c] w by auto
  show "warp_reaches_barrier c w t (of_nat i) cnt b \<noteq> None" if "may_arrive K w t i cnt b"
  proof -
    have "i < MAX_BARRIERS_PER_CTA" using that b by (auto simp: may_arrive_def blocks_ok_def)
    from small_barrier [OF this] show ?thesis
      using c w w48 by (simp add: warp_reaches_barrier_def bs_test_def assert_c_def Let_def)
  qed
  let ?P = "\<lambda>c. case m_cta_to_warps b c of Some ws \<Rightarrow> w \<in> ws | None \<Rightarrow> False"
  have "?P c" "c < m_max_cta_per_core b" using c w blocks_okD(1) [OF b c] by simp_all
  then obtain c1 where f: "find ?P [0..<m_max_cta_per_core b] = Some c1"
    by (cases "find ?P [0..<m_max_cta_per_core b]") (auto simp: find_None_iff)
  then have "?P c1" by (auto simp: find_Some_iff)
  then show "warp_exit w b \<noteq> None" using f w48 by (auto simp: warp_exit_def assert_c_def Let_def split: option.splits)
qed

text \<open>A core of 8 blocks and 2 barriers, with three warps: warp 0 arrives at barrier 1 for two warps and goes on, warp 1
  comes to barrier 0 of all warps.\<close>

definition sample_run :: "nat \<Rightarrow> barrier_run" where
  "sample_run k = (\<lparr>m_max_cta_per_core = 8, m_max_warps_per_core = 48, m_max_barriers_per_cta = 2, m_warp_size = 32,
     m_cta_to_warps = (if k = 0 then \<lambda>_. None else [0 \<mapsto> {0, 1, 2}]),
     m_bar_id_to_warps = (\<lambda>i. if i = 1 \<and> 2 \<le> k then {0} else if i = 0 \<and> 3 \<le> k then {1} else {}),
     m_warp_active = (if k = 0 then {} else {0, 1, 2}), m_warp_at_barrier = (if 3 \<le> k then {1} else {})\<rparr>,
     \<lambda>i w. if (i, w) = (1, 0) \<and> 2 \<le> k \<or> (i, w) = (0, 1) \<and> 3 \<le> k then 1 else 0)"

lemma sample_run_reach: "barriers_reach {0} (sample_run 3)"
proof -
  have u: "unat (64 :: u32) = 64" by simp
  have "barriers_reach {0} (fst (sample_run 0), \<lambda>_ _. 0)"
    by (rule barriers_reach.start [of 48 8 2 32])
      (simp_all add: sample_run_def new_barrier_set_def WARP_PER_CTA_MAX_def MAX_BARRIERS_PER_CTA_def cong: if_cong)
  then have 0: "barriers_reach {0} (sample_run 0)" by (simp add: sample_run_def)
  have "barriers_step {0} (fst (sample_run 0), snd (sample_run 0)) (fst (sample_run 1), \<lambda>i w. if w \<in> {0, 1, 2} then 0 else snd (sample_run 0) i w)"
    by (rule barriers_step.launch [of 0])
      (auto simp: sample_run_def allocate_barrier_def cta_count_le clear_barriers_def WARP_PER_CTA_MAX_def Let_def cong: if_cong)
  then have s0: "barriers_step {0} (sample_run 0) (sample_run 1)" by (simp add: sample_run_def cong: if_cong)
  have "barriers_step {0} (fst (sample_run 1), snd (sample_run 1)) (fst (sample_run 2), come 1 0 (snd (sample_run 1)))"
    by (rule barriers_step.arrive [of _ _ ARRIVE 1 64 _ 0 None])
      (auto simp: sample_run_def may_arrive_def warp_reaches_barrier_def Let_def bs_test_def WARP_PER_CTA_MAX_def fun_eq_iff)
  then have s1: "barriers_step {0} (sample_run 1) (sample_run 2)"
    by (auto simp: sample_run_def come_def fun_eq_iff elim!: back_subst [of "barriers_step {0} _"])
  have "barriers_step {0} (fst (sample_run 2), snd (sample_run 2)) (fst (sample_run 3), come 0 1 (snd (sample_run 2)))"
    by (rule barriers_step.arrive [of _ _ SYNC 0 "- 1" _ 0 None])
      (auto simp: sample_run_def may_arrive_def warp_reaches_barrier_def Let_def bs_test_def WARP_PER_CTA_MAX_def fun_eq_iff)
  then have s2: "barriers_step {0} (sample_run 2) (sample_run 3)"
    by (auto simp: sample_run_def come_def fun_eq_iff elim!: back_subst [of "barriers_step {0} _"])
  show ?thesis by (rule barriers_reach.step [OF barriers_reach.step [OF barriers_reach.step [OF 0 s0] s1] s2])
qed

theorem barrier_synchronises_witness:
  "passed_at 0 (sample_run 3) 0 = passed_at 0 (sample_run 3) 1
    \<and> (\<exists>w \<in> {0, 1, 2} \<inter> m_warp_active (fst (sample_run 3)). w \<notin> m_bar_id_to_warps (fst (sample_run 3)) 0)"
proof -
  have r: "barriers_reach {0} (fst (sample_run 3), snd (sample_run 3))" using sample_run_reach by simp
  show ?thesis
    using barrier_synchronises [OF r, of 0 0 "{0, 1, 2}" 0 1] by (simp add: sample_run_def)
qed

end
