(* ===== verification/Delay_Queue.thy ===== *)
theory Delay_Queue
  imports Prelude
begin

text \<open>
  The queue with a least length, class \<open>fifo_pipeline\<close> of \<open>gpgpu-sim/delayqueue.h\<close>: a list of nodes, some of
  which hold no element and stand for a delay. The linked list with its head and tail is the list of the
  data of its nodes.
\<close>

section \<open>State and operations\<close>

record 'a fifo_pipeline =
  m_min_len :: nat
  m_max_len :: nat
  m_length :: nat
  m_n_element :: u32
  m_nodes :: "'a option list"

definition fp_full :: "'a fifo_pipeline \<Rightarrow> bool" where
  "fp_full q = (m_max_len q \<noteq> 0 \<and> m_max_len q \<le> m_length q)"

definition fp_empty :: "'a fifo_pipeline \<Rightarrow> bool" where
  "fp_empty q = (m_nodes q = [])"

definition fp_top :: "'a fifo_pipeline \<Rightarrow> 'a option" where
  "fp_top q = (case m_nodes q of [] \<Rightarrow> None | x # _ \<Rightarrow> x)"

definition fp_push :: "'a option \<Rightarrow> 'a fifo_pipeline \<Rightarrow> 'a fifo_pipeline option" where
  "fp_push data q = do {
     _ \<leftarrow> assert_c (m_length q < m_max_len q);
     Some (if m_nodes q = [] \<or> last (m_nodes q) \<noteq> None \<or> m_length q < m_min_len q
       then q\<lparr>m_nodes := m_nodes q @ [data], m_length := Suc (m_length q), m_n_element := m_n_element q + 1\<rparr>
       else q\<lparr>m_nodes := butlast (m_nodes q) @ [data]\<rparr>) }"

text \<open>The result is a null pointer, \<open>None\<close>, for a delay and for an empty queue.\<close>

definition fp_pop :: "'a fifo_pipeline \<Rightarrow> ('a option \<times> 'a fifo_pipeline) option" where
  "fp_pop q =
     (case m_nodes q of
        [] \<Rightarrow> Some (None, q)
      | x # nodes \<Rightarrow> do {
          let q = q\<lparr>m_nodes := nodes, m_length := m_length q - 1\<rparr>;
          _ \<leftarrow> assert_c (m_length q \<noteq> 0 \<or> nodes = []);
          let q = q\<lparr>m_n_element := m_n_element q - 1\<rparr>;
          if m_min_len q \<noteq> 0 \<and> m_length q < m_min_len q then do {
            q \<leftarrow> fp_push None q;
            Some (x, q\<lparr>m_n_element := m_n_element q - 1\<rparr>) }
          else Some (x, q) })"

definition new_fifo_pipeline :: "nat \<Rightarrow> nat \<Rightarrow> 'a fifo_pipeline option" where
  "new_fifo_pipeline minlen maxlen = do {
     _ \<leftarrow> assert_c (maxlen \<noteq> 0);
     foldM (\<lambda>q _. fp_push None q)
       \<lparr>m_min_len = minlen, m_max_len = maxlen, m_length = 0, m_n_element = 0, m_nodes = []\<rparr> [0..<minlen] }"

text \<open>The two loops of \<open>set_min_length\<close>. A loop that would push past the greatest length fails its assertion.\<close>

function grow_loop :: "'a fifo_pipeline \<Rightarrow> 'a fifo_pipeline option" where
  "grow_loop q =
     (if m_length q < m_min_len q then
        (case fp_push None q of
           None \<Rightarrow> None
         | Some q' \<Rightarrow> grow_loop (q'\<lparr>m_n_element := m_n_element q' - 1\<rparr>))
      else Some q)"
  by pat_completeness auto
termination
  by (relation "measure (\<lambda>q. m_max_len q - m_length q)")
    (auto simp: fp_push_def bind_eq_Some_conv assert_c_def split: if_splits)

function shrink_loop :: "'a fifo_pipeline \<Rightarrow> 'a fifo_pipeline option" where
  "shrink_loop q =
     (if m_min_len q < m_length q \<and> m_nodes q \<noteq> [] \<and> last (m_nodes q) = None then
        (if length (m_nodes q) = 1 then
           (case fp_pop q of None \<Rightarrow> None | Some (_, q') \<Rightarrow> shrink_loop q')
         else shrink_loop (q\<lparr>m_nodes := butlast (m_nodes q), m_length := m_length q - 1\<rparr>))
      else Some q)"
  by pat_completeness auto
termination
  by (relation "measure m_length") (auto simp: fp_pop_def Let_def bind_eq_Some_conv assert_c_def split: list.splits if_splits)

declare grow_loop.simps [simp del] shrink_loop.simps [simp del]

definition set_min_length :: "nat \<Rightarrow> 'a fifo_pipeline \<Rightarrow> 'a fifo_pipeline option" where
  "set_min_length new_min_len q =
     (if new_min_len = m_min_len q then Some q
      else if new_min_len > m_min_len q then grow_loop (q\<lparr>m_min_len := new_min_len\<rparr>)
      else do {
        _ \<leftarrow> assert_c (m_nodes q \<noteq> []);
        shrink_loop (q\<lparr>m_min_len := new_min_len\<rparr>) })"

section \<open>The queue of the elements\<close>

definition fp_items :: "'a fifo_pipeline \<Rightarrow> 'a list" where
  "fp_items q = map the (filter (\<lambda>x. x \<noteq> None) (m_nodes q))"

definition fp_wf :: "'a fifo_pipeline \<Rightarrow> bool" where
  "fp_wf q \<longleftrightarrow> m_length q = length (m_nodes q) \<and> m_min_len q \<le> m_length q \<and> m_length q \<le> m_max_len q \<and> 0 < m_max_len q"

lemma fp_full_iff: "fp_wf q \<Longrightarrow> fp_full q \<longleftrightarrow> m_length q = m_max_len q"
  by (auto simp: fp_full_def fp_wf_def)

text \<open>Pushing an element never loses one, and pushing a delay leaves the elements.\<close>

lemma push_elem:
  assumes "fp_wf q" and "\<not> fp_full q"
  shows "\<exists>q'. fp_push (Some e) q = Some q' \<and> fp_wf q' \<and> fp_items q' = fp_items q @ [e]
    \<and> m_max_len q' = m_max_len q \<and> m_min_len q' = m_min_len q"
proof -
  have room: "m_length q < m_max_len q" using assms by (auto simp: fp_full_def fp_wf_def)
  show ?thesis
  proof (cases "m_nodes q = [] \<or> last (m_nodes q) \<noteq> None \<or> m_length q < m_min_len q")
    case True
    then show ?thesis using assms(1) room by (auto simp: fp_push_def fp_wf_def fp_items_def)
  next
    case False
    then obtain xs where "m_nodes q = xs @ [None]" by (metis append_butlast_last_id)
    then show ?thesis using assms(1) room False by (auto simp: fp_push_def fp_wf_def fp_items_def)
  qed
qed

lemma pop_any:
  assumes "fp_wf q"
  shows "\<exists>r q'. fp_pop q = Some (r, q') \<and> fp_wf q' \<and> fp_items q = (case r of None \<Rightarrow> [] | Some e \<Rightarrow> [e]) @ fp_items q'
    \<and> r = fp_top q \<and> m_max_len q' = m_max_len q \<and> m_min_len q' = m_min_len q
    \<and> (\<exists>ys. m_nodes q' = tl (m_nodes q) @ ys)"
proof (cases "m_nodes q")
  case Nil
  then show ?thesis using assms by (simp add: fp_pop_def fp_top_def)
next
  case (Cons x xs)
  have l: "m_length q = Suc (length xs)" using assms Cons by (simp add: fp_wf_def)
  show ?thesis
  proof (cases "m_min_len q \<noteq> 0 \<and> length xs < m_min_len q")
    case True
    then show ?thesis using assms Cons l
      by (auto simp: fp_pop_def fp_push_def fp_wf_def fp_items_def fp_top_def split: option.splits)
  next
    case False
    then show ?thesis using assms Cons l
      by (auto simp: fp_pop_def fp_wf_def fp_items_def fp_top_def split: option.splits)
  qed
qed

lemma grow_loop_ok:
  "m_length q = length (m_nodes q) \<Longrightarrow> m_length q \<le> m_max_len q \<Longrightarrow> m_min_len q \<le> m_max_len q \<Longrightarrow> 0 < m_max_len q \<Longrightarrow>
    \<exists>q'. grow_loop q = Some q' \<and> fp_wf q' \<and> fp_items q' = fp_items q \<and> m_max_len q' = m_max_len q \<and> m_min_len q' = m_min_len q
      \<and> m_length q' \<le> max (m_length q) (m_min_len q)"
proof (induction q rule: grow_loop.induct)
  case (1 q)
  show ?case
  proof (cases "m_length q < m_min_len q")
    case False
    then show ?thesis using 1 by (subst grow_loop.simps) (simp add: fp_wf_def)
  next
    case True
    let ?q = "q\<lparr>m_nodes := m_nodes q @ [None], m_length := Suc (m_length q), m_n_element := m_n_element q + 1\<rparr>"
    have p: "fp_push None q = Some ?q" using True 1(4) by (simp add: fp_push_def)
    have "\<exists>q'. grow_loop (?q\<lparr>m_n_element := m_n_element ?q - 1\<rparr>) = Some q' \<and> fp_wf q'
        \<and> fp_items q' = fp_items (?q\<lparr>m_n_element := m_n_element ?q - 1\<rparr>)
        \<and> m_max_len q' = m_max_len (?q\<lparr>m_n_element := m_n_element ?q - 1\<rparr>)
        \<and> m_min_len q' = m_min_len (?q\<lparr>m_n_element := m_n_element ?q - 1\<rparr>)
        \<and> m_length q' \<le> max (m_length (?q\<lparr>m_n_element := m_n_element ?q - 1\<rparr>)) (m_min_len (?q\<lparr>m_n_element := m_n_element ?q - 1\<rparr>))"
      by (rule 1(1) [OF True p]) (use True 1(2-5) in simp_all)
    then show ?thesis using True p by (subst grow_loop.simps) (auto simp: fp_items_def max_def)
  qed
qed

lemma shrink_loop_ok:
  "fp_wf q \<Longrightarrow> \<exists>q'. shrink_loop q = Some q' \<and> fp_wf q' \<and> fp_items q' = fp_items q \<and> m_max_len q' = m_max_len q
    \<and> m_min_len q' = m_min_len q \<and> (m_length q' \<le> m_min_len q' \<or> last (m_nodes q') \<noteq> None) \<and> m_length q' \<le> m_length q"
proof (induction q rule: shrink_loop.induct)
  case (1 q)
  show ?case
  proof (cases "m_min_len q < m_length q \<and> m_nodes q \<noteq> [] \<and> last (m_nodes q) = None")
    case False
    then show ?thesis using 1(3) by (subst shrink_loop.simps) (auto simp: fp_wf_def)
  next
    case True
    then obtain xs where xs: "m_nodes q = xs @ [None]" by (metis append_butlast_last_id)
    show ?thesis
    proof (cases "length (m_nodes q) = 1")
      case l: True
      obtain q' where q': "fp_pop q = Some (None, q')" "fp_wf q'" "fp_items q = fp_items q'" "m_max_len q' = m_max_len q"
        "m_min_len q' = m_min_len q" using pop_any [OF 1(3)] l xs by (auto simp: fp_top_def)
      have "m_length q' = 0" using q'(1) True l xs 1(3) by (auto simp: fp_pop_def fp_wf_def)
      with 1(1) [OF True l q'(1) _ q'(2)] q' True l show ?thesis by (subst shrink_loop.simps) auto
    next
      case l: False
      let ?q = "q\<lparr>m_nodes := butlast (m_nodes q), m_length := m_length q - 1\<rparr>"
      have "fp_wf ?q" using 1(3) True xs by (auto simp: fp_wf_def)
      from 1(2) [OF True l this] True l xs show ?thesis by (subst shrink_loop.simps) (auto simp: fp_items_def)
    qed
  qed
qed

section \<open>The contract of a queue with delays\<close>

locale delay_pipe =
  fixes wf :: "'q \<Rightarrow> bool"
    and contents :: "'q \<Rightarrow> 'e list"
    and is_full :: "'q \<Rightarrow> bool"
    and enqueue :: "'e \<Rightarrow> 'q \<Rightarrow> 'q option"
    and dequeue :: "'q \<Rightarrow> ('e option \<times> 'q) option"
  assumes push_law: "wf q \<Longrightarrow> \<not> is_full q \<Longrightarrow> \<exists>q'. enqueue e q = Some q' \<and> wf q' \<and> contents q' = contents q @ [e]"
    and pop_law: "wf q \<Longrightarrow> \<exists>r q'. dequeue q = Some (r, q') \<and> wf q' \<and> contents q = (case r of None \<Rightarrow> [] | Some e \<Rightarrow> [e]) @ contents q'"
begin

text \<open>A client that pushes where there is room (\<open>Some e\<close>) and pops (\<open>None\<close>): the elements it gets and those it
  could push.\<close>

fun client :: "'e option list \<Rightarrow> 'q \<Rightarrow> ('e list \<times> 'e list \<times> 'q) option" where
  "client [] q = Some ([], [], q)"
| "client (Some e # cs) q =
     (if is_full q then client cs q
      else do { q \<leftarrow> enqueue e q; (got, put, q) \<leftarrow> client cs q; Some (got, e # put, q) })"
| "client (None # cs) q = do {
     (r, q) \<leftarrow> dequeue q;
     (got, put, q) \<leftarrow> client cs q;
     Some (case r of None \<Rightarrow> got | Some e \<Rightarrow> e # got, put, q) }"

lemma client_fifo:
  "wf q \<Longrightarrow> \<exists>got put q'. client cs q = Some (got, put, q') \<and> wf q' \<and> contents q @ put = got @ contents q'"
proof (induction cs arbitrary: q)
  case Nil
  then show ?case by simp
next
  case (Cons c cs)
  show ?case
  proof (cases c)
    case (Some e)
    show ?thesis
    proof (cases "is_full q")
      case True
      then show ?thesis using Cons Some by simp
    next
      case False
      obtain q1 where q1: "enqueue e q = Some q1" "wf q1" "contents q1 = contents q @ [e]"
        using push_law [OF Cons.prems False] by blast
      show ?thesis using Cons.IH [OF q1(2)] q1 Some False by auto
    qed
  next
    case None
    obtain r q1 where q1: "dequeue q = Some (r, q1)" "wf q1" "contents q = (case r of None \<Rightarrow> [] | Some e \<Rightarrow> [e]) @ contents q1"
      using pop_law [OF Cons.prems] by blast
    show ?thesis using Cons.IH [OF q1(2)] q1 None by (auto split: option.splits)
  qed
qed

end

interpretation fq: delay_pipe fp_wf fp_items fp_full "\<lambda>e. fp_push (Some e)" fp_pop
proof
  show "\<exists>q'. fp_push (Some e) q = Some q' \<and> fp_wf q' \<and> fp_items q' = fp_items q @ [e]"
    if "fp_wf q" "\<not> fp_full q" for e :: 'a and q using push_elem [OF that] by blast
  show "\<exists>r q'. fp_pop q = Some (r, q') \<and> fp_wf q' \<and> fp_items q = (case r of None \<Rightarrow> [] | Some e \<Rightarrow> [e]) @ fp_items q'"
    if "fp_wf q" for q :: "'a fifo_pipeline" using pop_any [OF that] by blast
qed

section \<open>Properties\<close>

lemma push_delays:
  "n \<le> l \<Longrightarrow> m_min_len q0 = l \<Longrightarrow> l \<le> m_max_len q0 \<Longrightarrow> m_length q0 = 0 \<Longrightarrow> m_nodes q0 = [] \<Longrightarrow>
    \<exists>q. foldM (\<lambda>q _. fp_push None q) q0 [0..<n] = Some q \<and> m_nodes q = replicate n None \<and> m_length q = n
      \<and> m_min_len q = l \<and> m_max_len q = m_max_len q0"
proof (induction n)
  case 0
  then show ?case by simp
next
  case (Suc n)
  then obtain q where q: "foldM (\<lambda>q _. fp_push None q) q0 [0..<n] = Some q" "m_nodes q = replicate n None" "m_length q = n"
    "m_min_len q = l" "m_max_len q = m_max_len q0" by auto
  have "fp_push None q = Some (q\<lparr>m_nodes := m_nodes q @ [None], m_length := Suc (m_length q), m_n_element := m_n_element q + 1\<rparr>)"
    using q Suc.prems by (simp add: fp_push_def)
  with q show ?case by (simp add: foldM_append replicate_append_same)
qed

lemma new_fifo_pipeline_ok:
  assumes "minlen \<le> maxlen" and "0 < maxlen"
  shows "\<exists>q. new_fifo_pipeline minlen maxlen = Some q \<and> fp_wf q \<and> fp_items q = [] \<and> m_min_len q = minlen
    \<and> m_max_len q = maxlen \<and> m_nodes q = replicate minlen None"
proof -
  have f: "filter (\<lambda>x. x \<noteq> None) (replicate n None) = []" for n :: nat by (induction n) simp_all
  show ?thesis
    using push_delays [of minlen minlen "\<lparr>m_min_len = minlen, m_max_len = maxlen, m_length = 0, m_n_element = 0, m_nodes = []\<rparr>"] assms
    by (auto simp: new_fifo_pipeline_def fp_wf_def fp_items_def f)
qed

primrec fp_pops :: "nat \<Rightarrow> 'a fifo_pipeline \<Rightarrow> ('a option list \<times> 'a fifo_pipeline) option" where
  "fp_pops 0 q = Some ([], q)"
| "fp_pops (Suc n) q = do { (r, q) \<leftarrow> fp_pop q; (rs, q) \<leftarrow> fp_pops n q; Some (r # rs, q) }"

lemma fp_pops_nodes:
  "fp_wf q \<Longrightarrow> n \<le> length (m_nodes q) \<Longrightarrow> \<exists>q'. fp_pops n q = Some (take n (m_nodes q), q') \<and> fp_wf q'"
proof (induction n arbitrary: q)
  case 0
  then show ?case by simp
next
  case (Suc n)
  obtain r q1 ys where q1: "fp_pop q = Some (r, q1)" "fp_wf q1" "r = fp_top q" "m_nodes q1 = tl (m_nodes q) @ ys"
    using pop_any [OF Suc.prems(1)] by blast
  have "n \<le> length (m_nodes q1)" using q1(4) Suc.prems(2) by simp
  from Suc.IH [OF q1(2) this] obtain q2 where q2: "fp_pops n q1 = Some (take n (m_nodes q1), q2)" "fp_wf q2" by blast
  have "take (Suc n) (m_nodes q) = r # take n (m_nodes q1)"
    using q1(3,4) Suc.prems(2) by (cases "m_nodes q") (simp_all add: fp_top_def)
  with q1(1) q2 show ?case by simp
qed

text \<open>C39. An element leaves the queue in its turn and not early: after it is pushed, it comes out of the pop whose
  number is the length of the queue, which is at least the least length, and the pops before it give the
  elements that were there before it, in order.\<close>

theorem delay_queue_latency:
  assumes "fp_wf q" and "\<not> fp_full q"
  shows "\<exists>q' out q''. fp_push (Some e) q = Some q' \<and> m_min_len q \<le> m_length q'
    \<and> fp_pops (m_length q') q' = Some (out @ [Some e], q'') \<and> map the (filter (\<lambda>x. x \<noteq> None) out) = fp_items q"
proof -
  obtain q' where q': "fp_push (Some e) q = Some q'" "fp_wf q'" "fp_items q' = fp_items q @ [e]" "m_min_len q' = m_min_len q"
    using push_elem [OF assms] by blast
  obtain out where out: "m_nodes q' = out @ [Some e]"
    using q'(1) by (auto simp: fp_push_def bind_eq_Some_conv split: if_splits)
  obtain q'' where "fp_pops (m_length q') q' = Some (m_nodes q', q'')"
    using fp_pops_nodes [OF q'(2), of "m_length q'"] q'(2) by (auto simp: fp_wf_def)
  moreover have "m_min_len q \<le> m_length q'" using q'(2,4) by (simp add: fp_wf_def)
  moreover have "map the (filter (\<lambda>x. x \<noteq> None) out) = fp_items q" using q'(3) out by (simp add: fp_items_def)
  ultimately show ?thesis using q'(1) out by auto
qed

lemma set_min_length_ok:
  assumes "fp_wf q" and "n \<le> m_max_len q" and "m_nodes q \<noteq> []"
  shows "\<exists>q'. set_min_length n q = Some q' \<and> fp_wf q' \<and> fp_items q' = fp_items q \<and> m_min_len q' = n \<and> m_max_len q' = m_max_len q
    \<and> m_length q' \<le> max (m_length q) n"
proof -
  consider "n = m_min_len q" | "m_min_len q < n" | "n < m_min_len q" by linarith
  then show ?thesis
  proof cases
    case 1
    then show ?thesis using assms by (simp add: set_min_length_def)
  next
    case 2
    then show ?thesis using assms grow_loop_ok [of "q\<lparr>m_min_len := n\<rparr>"] by (auto simp: set_min_length_def fp_wf_def fp_items_def)
  next
    case 3
    then have "fp_wf (q\<lparr>m_min_len := n\<rparr>)" using assms(1) by (simp add: fp_wf_def)
    from shrink_loop_ok [OF this] 3 assms(3) show ?thesis by (auto simp: set_min_length_def fp_items_def max_def)
  qed
qed

text \<open>C40. Changing the least length ends, with the elements in the queue and their order as they were.\<close>

theorem set_min_length_ends:
  assumes "fp_wf q" and "n \<le> m_max_len q" and "m_nodes q \<noteq> []"
  shows "\<exists>q'. set_min_length n q = Some q' \<and> fp_wf q' \<and> fp_items q' = fp_items q \<and> m_min_len q' = n \<and> m_max_len q' = m_max_len q"
  using set_min_length_ok [OF assms] by blast

definition sample_pipe :: "nat fifo_pipeline" where
  "sample_pipe = \<lparr>m_min_len = 2, m_max_len = 3, m_length = 2, m_n_element = 1, m_nodes = [Some 7, None]\<rparr>"

lemma sample_pipe_wf: "fp_wf sample_pipe" "\<not> fp_full sample_pipe"
  by (simp_all add: sample_pipe_def fp_wf_def fp_full_def)

theorem delay_queue_latency_witness:
  "\<exists>q' out q''. fp_push (Some 8) sample_pipe = Some q' \<and> fp_pops (m_length q') q' = Some (out @ [Some 8], q'')
    \<and> map the (filter (\<lambda>x. x \<noteq> None) out) = [7]"
  using delay_queue_latency [OF sample_pipe_wf, of 8] by (auto simp: sample_pipe_def fp_items_def)

theorem set_min_length_ends_witness:
  "\<exists>q'. set_min_length 1 sample_pipe = Some q' \<and> fp_items q' = [7]"
  using set_min_length_ends [OF sample_pipe_wf(1), of 1] by (auto simp: sample_pipe_def fp_items_def)

end
