(* ===== verification/Dram_Sched.thy ===== *)
theory Dram_Sched
  imports Prelude
begin

text \<open>
  The first ready, first come first served scheduler of a memory controller, class \<open>frfcfs_scheduler\<close> of
  \<open>gpgpu-sim/dram_sched.cc\<close>. Requests are objects on the heap, here numbers; \<open>row\<close> gives the row of a request.
  A queue holds a request once, so an iterator into it is the request it points to; the pointer
  \<open>m_last_row\<close> into a map of bins is the key of the bin. New requests are at the front of the lists.
  The abstract scheduler is the list of the waiting requests in order of arrival with the row that is served.
\<close>

section \<open>State and operations\<close>

record frfcfs =
  m_num_pending :: nat
  m_queue :: "nat \<Rightarrow> nat list"
  m_bins :: "nat \<Rightarrow> u32 \<Rightarrow> nat list option"
  m_last_row :: "nat \<Rightarrow> u32 option"
  curr_row_service_time :: "nat \<Rightarrow> u32"
  row_service_timestamp :: "nat \<Rightarrow> u32"
  max_servicetime2samerow :: "nat \<Rightarrow> u32"
  concurrent_row_access :: "nat \<Rightarrow> u32"
  max_conc_access2samerow :: "nat \<Rightarrow> u32"
  num_activates :: "nat \<Rightarrow> u32"
  row_access :: "nat \<Rightarrow> u32"

definition new_frfcfs :: frfcfs where
  "new_frfcfs = \<lparr>m_num_pending = 0, m_queue = (\<lambda>_. []), m_bins = (\<lambda>_ _. None), m_last_row = (\<lambda>_. None),
     curr_row_service_time = (\<lambda>_. 0), row_service_timestamp = (\<lambda>_. 0), max_servicetime2samerow = (\<lambda>_. 0),
     concurrent_row_access = (\<lambda>_. 0), max_conc_access2samerow = (\<lambda>_. 0), num_activates = (\<lambda>_. 0), row_access = (\<lambda>_. 0)\<rparr>"

definition bin :: "frfcfs \<Rightarrow> nat \<Rightarrow> u32 \<Rightarrow> nat list" where
  "bin s bank r = (case m_bins s bank r of None \<Rightarrow> [] | Some l \<Rightarrow> l)"

definition add_req :: "(nat \<Rightarrow> nat) \<Rightarrow> (nat \<Rightarrow> u32) \<Rightarrow> nat \<Rightarrow> frfcfs \<Rightarrow> frfcfs" where
  "add_req bank_of row p s =
     (let b = bank_of p in
      s\<lparr>m_num_pending := Suc (m_num_pending s), m_queue := (m_queue s)(b := p # m_queue s b),
        m_bins := (m_bins s)(b := (m_bins s b)(row p \<mapsto> p # bin s b (row p)))\<rparr>)"

definition data_collection :: "u64 \<Rightarrow> nat \<Rightarrow> frfcfs \<Rightarrow> frfcfs" where
  "data_collection time bank s =
     (let t = (ucast time - row_service_timestamp s bank :: u32);
          s = (if time > ucast (row_service_timestamp s bank) \<and> t > max_servicetime2samerow s bank
            then s\<lparr>max_servicetime2samerow := (max_servicetime2samerow s)(bank := t)\<rparr> else s);
          s = s\<lparr>curr_row_service_time := (curr_row_service_time s)(bank := 0),
                row_service_timestamp := (row_service_timestamp s)(bank := ucast time)\<rparr>;
          s = (if concurrent_row_access s bank > max_conc_access2samerow s bank
            then s\<lparr>max_conc_access2samerow := (max_conc_access2samerow s)(bank := concurrent_row_access s bank)\<rparr> else s)
      in s\<lparr>concurrent_row_access := (concurrent_row_access s)(bank := 0),
           num_activates := (num_activates s)(bank := num_activates s bank + 1)\<rparr>)"

text \<open>Which bin is served: the one served before, the one of the open row, or that of the oldest request.\<close>

definition choose_row :: "u64 \<Rightarrow> (nat \<Rightarrow> u32) \<Rightarrow> nat \<Rightarrow> u32 \<Rightarrow> frfcfs \<Rightarrow> frfcfs option" where
  "choose_row time row bank curr_row s =
     (if m_bins s bank curr_row = None then do {
        let r = row (last (m_queue s bank));
        _ \<leftarrow> assert_c (m_bins s bank r \<noteq> None);
        Some (data_collection time bank (s\<lparr>m_last_row := (m_last_row s)(bank := Some r)\<rparr>)) }
      else Some (s\<lparr>m_last_row := (m_last_row s)(bank := Some curr_row)\<rparr>))"

text \<open>Taking the oldest request of the bin that is served.\<close>

definition take_oldest :: "(nat \<Rightarrow> u32) \<Rightarrow> nat \<Rightarrow> frfcfs \<Rightarrow> (nat \<times> frfcfs) option" where
  "take_oldest row bank s = do {
     r \<leftarrow> m_last_row s bank;
     l \<leftarrow> m_bins s bank r;
     _ \<leftarrow> assert_c (l \<noteq> []);
     let req = last l;
     let s = s\<lparr>concurrent_row_access := (concurrent_row_access s)(bank := concurrent_row_access s bank + 1),
               row_access := (row_access s)(bank := row_access s bank + 1),
               m_bins := (m_bins s)(bank := (m_bins s bank)(r \<mapsto> butlast l)),
               m_queue := (m_queue s)(bank := remove1 req (m_queue s bank))\<rparr>;
     let s = (if butlast l = []
       then s\<lparr>m_bins := (m_bins s)(bank := (m_bins s bank)(row req := None)), m_last_row := (m_last_row s)(bank := None)\<rparr>
       else s);
     _ \<leftarrow> assert_c (m_num_pending s \<noteq> 0);
     Some (req, s\<lparr>m_num_pending := m_num_pending s - 1\<rparr>) }"

definition schedule :: "u64 \<Rightarrow> (nat \<Rightarrow> u32) \<Rightarrow> nat \<Rightarrow> u32 \<Rightarrow> frfcfs \<Rightarrow> (nat option \<times> frfcfs) option" where
  "schedule time row bank curr_row s =
     (if m_last_row s bank = None \<and> m_queue s bank = [] then Some (None, s)
      else do {
        s \<leftarrow> (if m_last_row s bank = None then choose_row time row bank curr_row s else Some s);
        (req, s) \<leftarrow> take_oldest row bank s;
        Some (Some req, s) })"

section \<open>The abstract scheduler\<close>

text \<open>The waiting requests of a bank, the oldest first, and the row that is served, if any.\<close>

definition spec_row :: "(nat \<Rightarrow> u32) \<Rightarrow> u32 \<Rightarrow> nat list \<times> u32 option \<Rightarrow> u32 option" where
  "spec_row row curr_row = (\<lambda>(q, r). case r of Some r \<Rightarrow> Some r
     | None \<Rightarrow> if q = [] then None else Some (if \<exists>p \<in> set q. row p = curr_row then curr_row else row (hd q)))"

definition spec_schedule :: "(nat \<Rightarrow> u32) \<Rightarrow> u32 \<Rightarrow> nat list \<times> u32 option \<Rightarrow> nat option \<times> nat list \<times> u32 option" where
  "spec_schedule row curr_row qr =
     (case spec_row row curr_row qr of
        None \<Rightarrow> (None, qr)
      | Some r \<Rightarrow>
          (case filter (\<lambda>p. row p = r) (fst qr) of
             [] \<Rightarrow> (None, qr)
           | p # ps \<Rightarrow> (Some p, remove1 p (fst qr), if ps = [] then None else Some r)))"

definition abs_bank :: "frfcfs \<Rightarrow> nat \<Rightarrow> nat list \<times> u32 option" where
  "abs_bank s b = (rev (m_queue s b), m_last_row s b)"

definition bank_inv :: "(nat \<Rightarrow> u32) \<Rightarrow> frfcfs \<Rightarrow> nat \<Rightarrow> bool" where
  "bank_inv row s b \<longleftrightarrow> distinct (m_queue s b)
     \<and> (\<forall>r. m_bins s b r = (case filter (\<lambda>p. row p = r) (m_queue s b) of [] \<Rightarrow> None | l \<Rightarrow> Some l))
     \<and> (\<forall>r. m_last_row s b = Some r \<longrightarrow> (\<exists>p \<in> set (m_queue s b). row p = r))"

definition sched_inv :: "(nat \<Rightarrow> u32) \<Rightarrow> nat \<Rightarrow> frfcfs \<Rightarrow> bool" where
  "sched_inv row nbk s \<longleftrightarrow> (\<forall>b < nbk. bank_inv row s b) \<and> m_num_pending s = (\<Sum>b<nbk. length (m_queue s b))"

section \<open>Refinement\<close>

lemma distinct_butlast_last:
  assumes "distinct q" and "filter P q \<noteq> []"
  shows "filter P (remove1 (last (filter P q)) q) = butlast (filter P q)"
proof -
  let ?l = "filter P q"
  have d: "distinct (butlast ?l @ [last ?l])" using assms by simp
  have "filter P (remove1 (last ?l) q) = filter (\<lambda>x. x \<noteq> last ?l) ?l"
    using assms(1) by (simp add: distinct_remove1_removeAll removeAll_filter_not_eq conj_commute filter_filter) (metis (no_types, lifting) filter_cong)
  moreover have "filter (\<lambda>x. x \<noteq> last ?l) (butlast ?l @ [last ?l]) = butlast ?l"
    using d by (auto simp: filter_id_conv)
  moreover have "butlast ?l @ [last ?l] = ?l" using assms(2) by simp
  ultimately show ?thesis by metis
qed

lemma remove1_rev: "distinct q \<Longrightarrow> remove1 p (rev q) = rev (remove1 p q)"
  by (simp add: distinct_remove1_removeAll removeAll_filter_not_eq rev_filter)

lemma bank_invD:
  assumes "bank_inv row s b"
  shows "distinct (m_queue s b)" "m_bins s b r = (case filter (\<lambda>p. row p = r) (m_queue s b) of [] \<Rightarrow> None | l \<Rightarrow> Some l)"
    "m_last_row s b = Some r \<Longrightarrow> \<exists>p \<in> set (m_queue s b). row p = r"
  using assms by (simp_all add: bank_inv_def)

lemma data_collection_frame [simp]:
  "m_num_pending (data_collection t b s) = m_num_pending s" "m_queue (data_collection t b s) = m_queue s"
  "m_bins (data_collection t b s) = m_bins s" "m_last_row (data_collection t b s) = m_last_row s"
  by (simp_all add: data_collection_def Let_def)

lemma take_oldest_ok:
  assumes inv: "bank_inv row s b" and r: "m_last_row s b = Some r" and n: "m_num_pending s \<noteq> 0"
  defines "l \<equiv> filter (\<lambda>p. row p = r) (m_queue s b)"
  shows "\<exists>s'. take_oldest row b s = Some (last l, s') \<and> bank_inv row s' b \<and> l \<noteq> []
    \<and> m_queue s' = (m_queue s)(b := remove1 (last l) (m_queue s b))
    \<and> m_last_row s' = (m_last_row s)(b := if butlast l = [] then None else Some r)
    \<and> (\<forall>b'. b' \<noteq> b \<longrightarrow> m_bins s' b' = m_bins s b') \<and> Suc (m_num_pending s') = m_num_pending s"
proof -
  have ne: "l \<noteq> []" using bank_invD(3) [OF inv r] by (auto simp: l_def filter_empty_conv)
  have bin: "m_bins s b r = Some l" using bank_invD(2) [OF inv, of r] ne by (auto simp: l_def split: list.splits)
  have "last l \<in> set l" using ne by simp
  then have lr: "row (last l) = r" by (simp add: l_def)
  let ?q = "remove1 (last l) (m_queue s b)"
  have d: "distinct ?q" using bank_invD(1) [OF inv] by simp
  have f: "filter (\<lambda>p. row p = r) ?q = butlast l"
    using distinct_butlast_last [OF bank_invD(1) [OF inv], of "\<lambda>p. row p = r"] ne by (simp add: l_def)
  have o: "filter (\<lambda>p. row p = x) ?q = filter (\<lambda>p. row p = x) (m_queue s b)" if "x \<noteq> r" for x
    using bank_invD(1) [OF inv] lr that
    by (simp add: distinct_remove1_removeAll removeAll_filter_not_eq filter_filter) (metis (mono_tags, lifting) filter_cong)
  define s' where "s' = s\<lparr>concurrent_row_access := (concurrent_row_access s)(b := concurrent_row_access s b + 1),
    row_access := (row_access s)(b := row_access s b + 1),
    m_bins := (m_bins s)(b := (m_bins s b)(r := if butlast l = [] then None else Some (butlast l))),
    m_queue := (m_queue s)(b := ?q), m_last_row := (m_last_row s)(b := if butlast l = [] then None else Some r),
    m_num_pending := m_num_pending s - 1\<rparr>"
  have "take_oldest row b s = Some (last l, s')"
    using r bin ne lr n by (simp add: take_oldest_def s'_def Let_def fun_upd_idem assert_c_def)
  moreover have "bank_inv row s' b"
    unfolding bank_inv_def
  proof (intro conjI allI impI)
    show "distinct (m_queue s' b)" using d by (simp add: s'_def)
    show "m_bins s' b x = (case filter (\<lambda>p. row p = x) (m_queue s' b) of [] \<Rightarrow> None | l \<Rightarrow> Some l)" for x
      using f o [of x] bank_invD(2) [OF inv, of x] by (cases "x = r") (auto simp: s'_def split: list.splits)
    show "\<exists>p \<in> set (m_queue s' b). row p = x" if "m_last_row s' b = Some x" for x
    proof -
      have "x = r" "filter (\<lambda>p. row p = r) ?q \<noteq> []" using that f by (auto simp: s'_def split: if_splits)
      then show ?thesis by (auto simp: s'_def filter_empty_conv)
    qed
  qed
  ultimately show ?thesis using ne n by (intro exI [of _ s']) (simp add: s'_def)
qed

lemma choose_row_ok:
  assumes inv: "bank_inv row s b" and q: "m_queue s b \<noteq> []" and none: "m_last_row s b = None"
  shows "\<exists>s' r. choose_row t row b cr s = Some s' \<and> bank_inv row s' b \<and> m_queue s' = m_queue s \<and> m_bins s' = m_bins s
    \<and> m_last_row s' = (m_last_row s)(b := Some r) \<and> m_num_pending s' = m_num_pending s
    \<and> spec_row row cr (abs_bank s b) = Some r"
proof -
  let ?r = "if \<exists>p \<in> set (m_queue s b). row p = cr then cr else row (last (m_queue s b))"
  have hd: "hd (rev (m_queue s b)) = last (m_queue s b)" using q by (simp add: hd_rev)
  have in_q: "\<exists>p \<in> set (m_queue s b). row p = ?r" using q by auto
  have bins: "m_bins s b x = None \<longleftrightarrow> \<not> (\<exists>p \<in> set (m_queue s b). row p = x)" for x
    using bank_invD(2) [OF inv, of x] filter_empty_conv [of "\<lambda>p. row p = x" "m_queue s b"]
    by (cases "filter (\<lambda>p. row p = x) (m_queue s b)") auto
  define s' where "s' = (if m_bins s b cr = None then data_collection t b (s\<lparr>m_last_row := (m_last_row s)(b := Some ?r)\<rparr>)
    else s\<lparr>m_last_row := (m_last_row s)(b := Some ?r)\<rparr>)"
  have "choose_row t row b cr s = Some s'"
  proof -
    have "\<exists>p \<in> set (m_queue s b). row p = row (last (m_queue s b))" using last_in_set [OF q] by blast
    with bins [of cr] bins [of "row (last (m_queue s b))"] show ?thesis
      by (cases "\<exists>p \<in> set (m_queue s b). row p = cr") (auto simp: choose_row_def s'_def Let_def)
  qed
  moreover have s': "m_queue s' = m_queue s" "m_bins s' = m_bins s" "m_last_row s' = (m_last_row s)(b := Some ?r)"
    "m_num_pending s' = m_num_pending s" by (simp_all add: s'_def)
  moreover have "bank_inv row s' b" unfolding bank_inv_def s'(1-3) using bank_invD(1,2) [OF inv] in_q by auto
  moreover have "spec_row row cr (abs_bank s b) = Some ?r" using none q hd by (simp add: spec_row_def abs_bank_def)
  ultimately show ?thesis by blast
qed

lemma schedule_ok:
  assumes "sched_inv row nbk s" and "bank < nbk"
  shows "\<exists>req s'. schedule time row bank curr_row s = Some (req, s') \<and> sched_inv row nbk s'
    \<and> (req, abs_bank s' bank) = spec_schedule row curr_row (abs_bank s bank)
    \<and> (\<forall>b. b \<noteq> bank \<longrightarrow> abs_bank s' b = abs_bank s b)
    \<and> m_num_pending s = m_num_pending s' + (if req = None then 0 else 1)"
proof (cases "m_queue s bank = []")
  case True
  have "m_last_row s bank = None"
    using assms True unfolding sched_inv_def by (metis bank_invD(3) empty_iff empty_set not_Some_eq)
  then show ?thesis using assms True by (simp add: schedule_def spec_schedule_def spec_row_def abs_bank_def)
next
  case False
  have inv: "bank_inv row s b" if "b < nbk" for b using assms(1) that by (simp add: sched_inv_def)
  have n: "m_num_pending s \<noteq> 0"
    using assms False by (auto simp: sched_inv_def sum_eq_0_iff)
  obtain s1 r where s1: "(if m_last_row s bank = None then choose_row time row bank curr_row s else Some s) = Some s1"
    "bank_inv row s1 bank" "m_queue s1 = m_queue s" "m_bins s1 = m_bins s" "m_last_row s1 bank = Some r"
    "\<forall>b. b \<noteq> bank \<longrightarrow> m_last_row s1 b = m_last_row s b" "m_num_pending s1 = m_num_pending s"
    "spec_row row curr_row (abs_bank s bank) = Some r"
  proof (cases "m_last_row s bank")
    case None
    then show ?thesis using choose_row_ok [OF inv [OF assms(2)] False None, of time curr_row] that by auto
  next
    case (Some r)
    then show ?thesis using inv [OF assms(2)] that by (auto simp: spec_row_def abs_bank_def)
  qed
  define l where "l = filter (\<lambda>p. row p = r) (m_queue s bank)"
  have n1: "m_num_pending s1 \<noteq> 0" using n s1(7) by simp
  from take_oldest_ok [OF s1(2,5) n1] obtain s2 where s2: "take_oldest row bank s1 = Some (last l, s2)" "bank_inv row s2 bank" "l \<noteq> []"
    "m_queue s2 = (m_queue s)(bank := remove1 (last l) (m_queue s bank))"
    "m_last_row s2 = (m_last_row s1)(bank := if butlast l = [] then None else Some r)"
    "\<forall>b'. b' \<noteq> bank \<longrightarrow> m_bins s2 b' = m_bins s b'" "Suc (m_num_pending s2) = m_num_pending s"
    unfolding s1(3,4,7) l_def by blast
  have g1: "schedule time row bank curr_row s = Some (Some (last l), s2)"
    using False s1(1) s2(1) by (simp add: schedule_def)
  have g2: "sched_inv row nbk s2"
    unfolding sched_inv_def
  proof (intro conjI allI impI)
    show "bank_inv row s2 b" if "b < nbk" for b
      using inv [OF that] s2(2,4,5,6) s1(6) by (cases "b = bank") (simp_all add: bank_inv_def)
    have "last l \<in> set (m_queue s bank)" using last_in_set [OF s2(3)] by (simp add: l_def)
    then have "length (m_queue s bank) = Suc (length (remove1 (last l) (m_queue s bank)))"
      by (metis One_nat_def Suc_pred length_pos_if_in_set length_remove1)
    moreover have "m_num_pending s = length (m_queue s bank) + (\<Sum>b \<in> {..<nbk} - {bank}. length (m_queue s b))"
      using assms by (simp add: sched_inv_def sum.remove [of _ bank])
    moreover have "(\<Sum>b<nbk. length (m_queue s2 b)) = length (remove1 (last l) (m_queue s bank))
        + (\<Sum>b \<in> {..<nbk} - {bank}. length (m_queue s b))"
      using assms(2) by (simp add: s2(4) sum.remove [of _ bank])
    ultimately show "m_num_pending s2 = (\<Sum>b<nbk. length (m_queue s2 b))" using s2(7) by simp
  qed
  have g3: "(Some (last l), abs_bank s2 bank) = spec_schedule row curr_row (abs_bank s bank)"
  proof -
    have "filter (\<lambda>p. row p = r) (rev (m_queue s bank)) = rev l" by (simp add: l_def rev_filter)
    moreover have "rev l = last l # rev (butlast l)" using s2(3) by (metis append_butlast_last_id rev_eq_Cons_iff rev_rev_ident)
    moreover have "remove1 (last l) (rev (m_queue s bank)) = rev (remove1 (last l) (m_queue s bank))"
      by (rule remove1_rev [OF bank_invD(1) [OF inv [OF assms(2)]]])
    ultimately show ?thesis using s1(8) s2(4,5) by (simp add: spec_schedule_def abs_bank_def)
  qed
  have g4: "\<forall>b. b \<noteq> bank \<longrightarrow> abs_bank s2 b = abs_bank s b" using s2(4,5) s1(6) by (simp add: abs_bank_def)
  have g5: "m_num_pending s = m_num_pending s2 + (if Some (last l) = None then 0 else 1)" using s2(7) by simp
  show ?thesis by (intro exI conjI) (rule g1, rule g2, rule g3, rule g4, rule g5)
qed

text \<open>C10. The scheduler with its queues, bins and row pointers implements the abstract scheduler of every bank: it
  serves the oldest request of the row that is being served, and when there is none, of the open row, and
  only when none is waiting for that, of the row of the oldest request. No assertion fails, and each request
  is taken once.\<close>

theorem schedule_refines_spec:
  assumes "sched_inv row nbk s" and "bank < nbk"
  shows "\<exists>req s'. schedule time row bank curr_row s = Some (req, s') \<and> sched_inv row nbk s'
    \<and> (req, abs_bank s' bank) = spec_schedule row curr_row (abs_bank s bank)
    \<and> (\<forall>b. b \<noteq> bank \<longrightarrow> abs_bank s' b = abs_bank s b)
    \<and> m_num_pending s = m_num_pending s' + (if req = None then 0 else 1)"
  using schedule_ok [OF assms] .

text \<open>A request joins the queue of its bank as the newest.\<close>

theorem add_req_refines:
  assumes "sched_inv row nbk s" and "bank_of p < nbk" and "p \<notin> set (m_queue s (bank_of p))"
  shows "sched_inv row nbk (add_req bank_of row p s) \<and> abs_bank (add_req bank_of row p s) (bank_of p)
      = (fst (abs_bank s (bank_of p)) @ [p], snd (abs_bank s (bank_of p)))
    \<and> (\<forall>b. b \<noteq> bank_of p \<longrightarrow> abs_bank (add_req bank_of row p s) b = abs_bank s b)"
proof -
  have inv: "bank_inv row s b" if "b < nbk" for b using assms(1) that by (simp add: sched_inv_def)
  have "bank_inv row (add_req bank_of row p s) b" if "b < nbk" for b
  proof (cases "b = bank_of p")
    case True
    have "bin s b r = filter (\<lambda>p. row p = r) (m_queue s b)" for r
      using bank_invD(2) [OF inv [OF that], of r] by (simp add: bin_def split: list.splits)
    then show ?thesis using inv [OF that] assms(3) True by (auto simp: bank_inv_def add_req_def Let_def)
  next
    case False
    then show ?thesis using inv [OF that] by (simp add: bank_inv_def add_req_def Let_def)
  qed
  moreover have "(\<Sum>b<nbk. length (m_queue (add_req bank_of row p s) b)) = Suc (\<Sum>b<nbk. length (m_queue s b))"
    using assms(2) by (simp add: add_req_def Let_def sum.remove [of _ "bank_of p"])
  moreover have "m_num_pending (add_req bank_of row p s) = Suc (m_num_pending s)" by (simp add: add_req_def Let_def)
  ultimately have "sched_inv row nbk (add_req bank_of row p s)" using assms(1) by (simp add: sched_inv_def)
  then show ?thesis by (simp add: abs_bank_def add_req_def Let_def)
qed

lemma new_frfcfs_inv: "sched_inv row nbk new_frfcfs"
  by (simp add: sched_inv_def bank_inv_def new_frfcfs_def)

text \<open>Two requests for row 5 wait in bank 0 around one for row 7, and row 7 is open.\<close>

definition sample_rows :: "nat \<Rightarrow> u32" where
  "sample_rows p = (if p = 1 then 7 else 5)"

definition sample_sched :: frfcfs where
  "sample_sched = add_req (\<lambda>_. 0) sample_rows 2 (add_req (\<lambda>_. 0) sample_rows 1 (add_req (\<lambda>_. 0) sample_rows 0 new_frfcfs))"

lemma sample_sched_inv: "sched_inv sample_rows 4 sample_sched"
  unfolding sample_sched_def
  by (intro add_req_refines [THEN conjunct1] new_frfcfs_inv) (simp_all add: add_req_def new_frfcfs_def Let_def)

theorem schedule_refines_spec_witness:
  "\<exists>s'. schedule 10 sample_rows 0 7 sample_sched = Some (Some 1, s') \<and> abs_bank s' 0 = ([0, 2], None)"
proof -
  have "abs_bank sample_sched 0 = ([0, 1, 2], None)"
    by (simp add: abs_bank_def sample_sched_def add_req_def new_frfcfs_def Let_def)
  then have "spec_schedule sample_rows 7 (abs_bank sample_sched 0) = (Some 1, [0, 2], None)"
    by (simp add: spec_schedule_def spec_row_def sample_rows_def)
  then show ?thesis using schedule_refines_spec [OF sample_sched_inv, of 0 10 7] by auto
qed

end
