(* ===== verification/Dram.thy ===== *)
theory Dram
  imports Delay_Queue Dram_Sched
begin

text \<open>
  A DRAM channel, class \<open>dram_t\<close> of \<open>gpgpu-sim/dram.cc\<close>: its banks with their timing counters, the queue of
  transfers, the return queue, and \<open>cycle\<close>, which returns a finished transfer, schedules a request to a bank,
  issues at most one command and counts the timers down. Requests are objects on a heap, numbered by their
  pointers. Statistics kept for reports (partial counters, latencies, status of a fetch) are left out.
\<close>

section \<open>State\<close>

datatype dram_ctrl_t = DRAM_FIFO | DRAM_FRFCFS

record dram_config =
  scheduler_type :: dram_ctrl_t
  frfcfs_queue_size :: nat
  return_queue_size :: nat
  nbk :: nat
  nbkgrp :: nat
  bk_tag_length :: nat
  dram_atom_size :: nat
  burst_cycles :: nat
  CL :: nat
  WL :: nat
  tCCD :: nat
  tRRD :: nat
  tRCD :: nat
  tRCDWR :: nat
  tRAS :: nat
  tRP :: nat
  tRC :: nat
  tWTR :: nat
  tRTW :: nat
  tCCDL :: nat
  tRTPL :: nat
  tWTP :: nat

text \<open>\<open>rq_wrbk\<close>: the access is a write back of a cache, which gets no reply.\<close>

record dram_req =
  rq_row :: u32
  rq_bk :: nat
  rq_nbytes :: nat
  rq_txbytes :: nat
  rq_dqbytes :: nat
  rq_write :: bool
  rq_wrbk :: bool

record bank_t =
  RCDc :: nat
  RCDWRc :: nat
  RASc :: nat
  RPc :: nat
  RCc :: nat
  WTPc :: nat
  RTPc :: nat
  active :: bool
  curr_row :: u32
  mrq :: "nat option"
  n_access :: u32
  n_idle :: u32

record bankgrp_t =
  CCDLc :: nat
  RTPLc :: nat

record dram_t =
  CCDc :: nat
  RRDc :: nat
  RTWc :: nat
  WTRc :: nat
  writing :: bool
  bkgrp :: "nat \<Rightarrow> bankgrp_t"
  bk :: "nat \<Rightarrow> bank_t"
  prio :: nat
  rwq :: "nat fifo_pipeline"
  mrqq :: "nat fifo_pipeline"
  returnq :: "nat fifo_pipeline"
  frfcfs_scheduler :: frfcfs
  heap :: "nat \<Rightarrow> dram_req option"
  set_done :: "nat list"
  n_cmd :: u32
  n_activity :: u32
  n_nop :: u32
  n_act :: u32
  n_pre :: u32
  n_rd :: u32
  n_wr :: u32
  n_req :: u32
  bwutil :: u32
  max_mrqs :: nat
  ave_mrqs :: nat

definition new_dram :: "dram_config \<Rightarrow> dram_t option" where
  "new_dram cfg = do {
     rw \<leftarrow> new_fifo_pipeline (CL cfg) (CL cfg + 1);
     mr \<leftarrow> new_fifo_pipeline 0 2;
     rt \<leftarrow> new_fifo_pipeline 0 (if return_queue_size cfg = 0 then 1024 else return_queue_size cfg);
     Some \<lparr>CCDc = 0, RRDc = 0, RTWc = 0, WTRc = 0, writing = False, bkgrp = (\<lambda>_. \<lparr>CCDLc = 0, RTPLc = 0\<rparr>),
       bk = (\<lambda>_. \<lparr>RCDc = 0, RCDWRc = 0, RASc = 0, RPc = 0, RCc = 0, WTPc = 0, RTPc = 0, active = False, curr_row = 0,
                  mrq = None, n_access = 0, n_idle = 0\<rparr>),
       prio = 0, rwq = rw, mrqq = mr, returnq = rt, frfcfs_scheduler = new_frfcfs, heap = (\<lambda>_. None), set_done = [],
       n_cmd = 0, n_activity = 0, n_nop = 0, n_act = 0, n_pre = 0, n_rd = 0, n_wr = 0, n_req = 0, bwutil = 0,
       max_mrqs = 0, ave_mrqs = 0\<rparr> }"

definition dram_full :: "dram_config \<Rightarrow> dram_t \<Rightarrow> bool" where
  "dram_full cfg d =
     (if scheduler_type cfg = DRAM_FRFCFS
      then frfcfs_queue_size cfg \<noteq> 0 \<and> frfcfs_queue_size cfg \<le> m_num_pending (frfcfs_scheduler d)
      else fp_full (mrqq d))"

definition que_length :: "dram_config \<Rightarrow> dram_t \<Rightarrow> nat" where
  "que_length cfg d = (if scheduler_type cfg = DRAM_FRFCFS then m_num_pending (frfcfs_scheduler d) else m_length (mrqq d))"

definition returnq_full :: "dram_t \<Rightarrow> bool" where
  "returnq_full d = fp_full (returnq d)"

text \<open>\<open>push\<close> of a request that is allocated at \<open>p\<close>.\<close>

definition dram_push :: "nat \<Rightarrow> dram_req \<Rightarrow> dram_t \<Rightarrow> dram_t option" where
  "dram_push p req d = do {
     q \<leftarrow> fp_push (Some p) (mrqq d);
     Some (d\<lparr>mrqq := q, heap := (heap d)(p \<mapsto> req\<lparr>rq_txbytes := 0, rq_dqbytes := 0\<rparr>), n_req := n_req d + 1\<rparr>) }"

definition return_queue_pop :: "dram_t \<Rightarrow> (nat option \<times> dram_t) option" where
  "return_queue_pop d = do { (r, q) \<leftarrow> fp_pop (returnq d); Some (r, d\<lparr>returnq := q\<rparr>) }"

definition return_queue_top :: "dram_t \<Rightarrow> nat option" where
  "return_queue_top d = fp_top (returnq d)"

section \<open>The phases of a cycle\<close>

definition return_transfer :: "dram_config \<Rightarrow> nat \<Rightarrow> dram_t \<Rightarrow> dram_t option" where
  "return_transfer cfg p d = do {
     req \<leftarrow> heap d p;
     let dq = rq_dqbytes req + dram_atom_size cfg;
     if dq \<ge> rq_nbytes req then do {
       d \<leftarrow> (if \<not> rq_wrbk req then do { q \<leftarrow> fp_push (Some p) (returnq d); Some (d\<lparr>returnq := q\<rparr>) }
             else Some (d\<lparr>set_done := set_done d @ [p]\<rparr>));
       Some (d\<lparr>heap := (heap d)(p := None)\<rparr>) }
     else Some (d\<lparr>heap := (heap d)(p \<mapsto> req\<lparr>rq_dqbytes := dq\<rparr>)\<rparr>) }"

definition return_phase :: "dram_config \<Rightarrow> dram_t \<Rightarrow> dram_t option" where
  "return_phase cfg d =
     (if fp_full (returnq d) then Some d
      else do {
        (cmd, q) \<leftarrow> fp_pop (rwq d);
        case cmd of None \<Rightarrow> Some (d\<lparr>rwq := q\<rparr>) | Some p \<Rightarrow> return_transfer cfg p (d\<lparr>rwq := q\<rparr>) })"

definition set_mrq :: "nat \<Rightarrow> nat option \<Rightarrow> dram_t \<Rightarrow> dram_t" where
  "set_mrq j p d = d\<lparr>bk := (bk d)(j := (bk d j)\<lparr>mrq := p\<rparr>)\<rparr>"

definition scheduler_fifo :: "dram_config \<Rightarrow> dram_t \<Rightarrow> dram_t option" where
  "scheduler_fifo cfg d =
     (if fp_empty (mrqq d) then Some d
      else do {
        p \<leftarrow> fp_top (mrqq d);
        req \<leftarrow> heap d p;
        _ \<leftarrow> assert_c (rq_bk req < nbk cfg);
        if mrq (bk d (rq_bk req)) = None then do {
          (r, q) \<leftarrow> fp_pop (mrqq d);
          Some (set_mrq (rq_bk req) r (d\<lparr>mrqq := q\<rparr>)) }
        else Some d })"

text \<open>The loop that fills the scheduler; as each round takes a node off the queue, as many rounds as it has nodes
  are enough.\<close>

fun drain_mrqq :: "dram_config \<Rightarrow> nat \<Rightarrow> dram_t \<Rightarrow> dram_t option" where
  "drain_mrqq cfg 0 d = Some d"
| "drain_mrqq cfg (Suc n) d =
     (if fp_empty (mrqq d) \<or> frfcfs_queue_size cfg \<noteq> 0 \<and> frfcfs_queue_size cfg \<le> m_num_pending (frfcfs_scheduler d) then Some d
      else do {
        (r, q) \<leftarrow> fp_pop (mrqq d);
        p \<leftarrow> r;
        req \<leftarrow> heap d p;
        _ \<leftarrow> assert_c (rq_bk req < nbk cfg);
        drain_mrqq cfg n (d\<lparr>mrqq := q, frfcfs_scheduler := add_req (\<lambda>_. rq_bk req) (\<lambda>_. rq_row req) p (frfcfs_scheduler d)\<rparr>) })"

definition row_of :: "dram_t \<Rightarrow> nat \<Rightarrow> u32" where
  "row_of d p = (case heap d p of Some req \<Rightarrow> rq_row req | None \<Rightarrow> 0)"

text \<open>The first bank without a request that gets one; the search stops there.\<close>

fun find_bank :: "u64 \<Rightarrow> dram_config \<Rightarrow> nat list \<Rightarrow> dram_t \<Rightarrow> dram_t option" where
  "find_bank time cfg [] d = Some d"
| "find_bank time cfg (i # is) d =
     (let b = (i + prio d) mod nbk cfg
      in if mrq (bk d b) \<noteq> None then find_bank time cfg is d
         else do {
           (r, s) \<leftarrow> schedule time (row_of d) b (curr_row (bk d b)) (frfcfs_scheduler d);
           let d = d\<lparr>frfcfs_scheduler := s\<rparr>;
           case r of
             None \<Rightarrow> find_bank time cfg is d
           | Some p \<Rightarrow> Some (set_mrq b (Some p) (d\<lparr>prio := (prio d + 1) mod nbk cfg\<rparr>)) })"

definition scheduler_frfcfs :: "u64 \<Rightarrow> dram_config \<Rightarrow> dram_t \<Rightarrow> dram_t option" where
  "scheduler_frfcfs time cfg d = do {
     d \<leftarrow> drain_mrqq cfg (length (m_nodes (mrqq d))) d;
     find_bank time cfg [0..<nbk cfg] d }"

definition schedule_phase :: "u64 \<Rightarrow> dram_config \<Rightarrow> dram_t \<Rightarrow> dram_t option" where
  "schedule_phase time cfg d = do {
     d \<leftarrow> (case scheduler_type cfg of DRAM_FIFO \<Rightarrow> scheduler_fifo cfg d | DRAM_FRFCFS \<Rightarrow> scheduler_frfcfs time cfg d);
     let n = que_length cfg d;
     Some (d\<lparr>max_mrqs := (if n > max_mrqs d then n else max_mrqs d), ave_mrqs := ave_mrqs d + n\<rparr>) }"

text \<open>The command issued in a cycle: activate a row of a bank, read or write it, close the bank.\<close>

datatype dram_cmd = ACT nat u32 | RD nat u32 | WR nat u32 | PRE nat

definition turn_bus :: "dram_config \<Rightarrow> bool \<Rightarrow> dram_t \<Rightarrow> dram_t option" where
  "turn_bus cfg wr d =
     (if writing d \<noteq> wr then do {
        q \<leftarrow> set_min_length (if wr then WL cfg else CL cfg) (rwq d);
        Some (d\<lparr>writing := wr, rwq := q\<rparr>) }
      else Some d)"

definition column_timers :: "dram_config \<Rightarrow> bool \<Rightarrow> nat \<Rightarrow> dram_t \<Rightarrow> dram_t" where
  "column_timers cfg wr j d =
     (let grp = drop_bit (bk_tag_length cfg) j;
          d = d\<lparr>CCDc := tCCD cfg, bwutil := bwutil d + of_nat (burst_cycles cfg)\<rparr>
      in if wr
         then d\<lparr>WTRc := tWTR cfg, n_wr := n_wr d + 1, bkgrp := (bkgrp d)(grp := (bkgrp d grp)\<lparr>CCDLc := tCCDL cfg\<rparr>),
                bk := (bk d)(j := (bk d j)\<lparr>WTPc := tWTP cfg\<rparr>)\<rparr>
         else d\<lparr>RTWc := tRTW cfg, n_rd := n_rd d + 1,
                bkgrp := (bkgrp d)(grp := (bkgrp d grp)\<lparr>CCDLc := tCCDL cfg, RTPLc := tRTPL cfg\<rparr>),
                bk := (bk d)(j := (bk d j)\<lparr>RTPc := burst_cycles cfg, n_access := n_access (bk d j) + 1\<rparr>)\<rparr>)"

definition column_cmd :: "dram_config \<Rightarrow> bool \<Rightarrow> nat \<Rightarrow> nat \<Rightarrow> dram_req \<Rightarrow> dram_t \<Rightarrow> dram_t option" where
  "column_cmd cfg wr j p req d = do {
     d \<leftarrow> turn_bus cfg wr d;
     q \<leftarrow> fp_push (Some p) (rwq d);
     let tx = rq_txbytes req + dram_atom_size cfg;
     let d = column_timers cfg wr j (d\<lparr>rwq := q, heap := (heap d)(p \<mapsto> req\<lparr>rq_txbytes := tx\<rparr>)\<rparr>);
     Some (if tx < rq_nbytes req then d else set_mrq j None d) }"

definition activate_cmd :: "dram_config \<Rightarrow> nat \<Rightarrow> u32 \<Rightarrow> dram_t \<Rightarrow> dram_t" where
  "activate_cmd cfg j row d =
     d\<lparr>bk := (bk d)(j := (bk d j)\<lparr>curr_row := row, active := True, RCDc := tRCD cfg, RCDWRc := tRCDWR cfg, RASc := tRAS cfg,
                                   RCc := tRC cfg\<rparr>),
       RRDc := tRRD cfg, prio := (j + 1) mod nbk cfg, n_act := n_act d + 1\<rparr>"

definition precharge_cmd :: "dram_config \<Rightarrow> nat \<Rightarrow> dram_t \<Rightarrow> dram_t" where
  "precharge_cmd cfg j d =
     d\<lparr>bk := (bk d)(j := (bk d j)\<lparr>active := False, RPc := tRP cfg\<rparr>), prio := (j + 1) mod nbk cfg, n_pre := n_pre d + 1\<rparr>"

text \<open>One round of the loop over the banks; \<open>k\<close> counts the banks that are not quite idle.\<close>

definition issue_bank :: "dram_config \<Rightarrow> dram_t \<times> u32 \<times> dram_cmd option \<Rightarrow> nat \<Rightarrow> (dram_t \<times> u32 \<times> dram_cmd option) option" where
  "issue_bank cfg = (\<lambda>(d, k, issued) i. do {
     let j = (i + prio d) mod nbk cfg;
     let grp = drop_bit (bk_tag_length cfg) j;
     let b = bk d j;
     case mrq b of
       Some p \<Rightarrow> do {
         req \<leftarrow> heap d p;
         _ \<leftarrow> assert_c (grp < nbkgrp cfg);
         if issued = None \<and> CCDc d = 0 \<and> RCDc b = 0 \<and> CCDLc (bkgrp d grp) = 0 \<and> curr_row b = rq_row req \<and> \<not> rq_write req
            \<and> WTRc d = 0 \<and> active b \<and> \<not> fp_full (rwq d) then do {
           d \<leftarrow> column_cmd cfg False j p req d;
           Some (d, k, Some (RD j (curr_row b))) }
         else if issued = None \<and> CCDc d = 0 \<and> RCDWRc b = 0 \<and> CCDLc (bkgrp d grp) = 0 \<and> curr_row b = rq_row req
            \<and> rq_write req \<and> RTWc d = 0 \<and> active b \<and> \<not> fp_full (rwq d) then do {
           d \<leftarrow> column_cmd cfg True j p req d;
           Some (d, k, Some (WR j (curr_row b))) }
         else if issued = None \<and> RRDc d = 0 \<and> \<not> active b \<and> RPc b = 0 \<and> RCc b = 0
         then Some (activate_cmd cfg j (rq_row req) d, k, Some (ACT j (rq_row req)))
         else if issued = None \<and> curr_row b \<noteq> rq_row req \<and> active b \<and> RASc b = 0 \<and> WTPc b = 0 \<and> RTPc b = 0
            \<and> RTPLc (bkgrp d grp) = 0
         then Some (precharge_cmd cfg j d, k, Some (PRE j))
         else Some (d, k, issued) }
     | None \<Rightarrow>
         (let k = (if CCDc d = 0 \<and> RRDc d = 0 \<and> RTWc d = 0 \<and> WTRc d = 0 \<and> RCDc b = 0 \<and> RASc b = 0 \<and> RCc b = 0 \<and> RPc b = 0
                    \<and> RCDWRc b = 0 then k - 1 else k)
          in Some (d\<lparr>bk := (bk d)(j := b\<lparr>n_idle := n_idle b + 1\<rparr>)\<rparr>, k, issued)) })"

definition tick_bank :: "bank_t \<Rightarrow> bank_t" where
  "tick_bank b = b\<lparr>RCDc := RCDc b - 1, RASc := RASc b - 1, RCc := RCc b - 1, RPc := RPc b - 1, RCDWRc := RCDWRc b - 1,
     WTPc := WTPc b - 1, RTPc := RTPc b - 1\<rparr>"

definition tick_phase :: "dram_config \<Rightarrow> dram_t \<Rightarrow> dram_t" where
  "tick_phase cfg d =
     d\<lparr>RRDc := RRDc d - 1, CCDc := CCDc d - 1, RTWc := RTWc d - 1, WTRc := WTRc d - 1,
       bk := (\<lambda>j. if j < nbk cfg then tick_bank (bk d j) else bk d j),
       bkgrp := (\<lambda>j. if j < nbkgrp cfg then \<lparr>CCDLc = CCDLc (bkgrp d j) - 1, RTPLc = RTPLc (bkgrp d j) - 1\<rparr> else bkgrp d j)\<rparr>"

definition dram_cycle :: "u64 \<Rightarrow> dram_config \<Rightarrow> dram_t \<Rightarrow> (dram_t \<times> dram_cmd option) option" where
  "dram_cycle time cfg d = do {
     d \<leftarrow> return_phase cfg d;
     d \<leftarrow> schedule_phase time cfg d;
     (d, k, issued) \<leftarrow> foldM (issue_bank cfg) (d, of_nat (nbk cfg), None) [0..<nbk cfg];
     let d = (if issued = None then d\<lparr>n_nop := n_nop d + 1\<rparr> else d);
     let d = (if k \<noteq> 0 then d\<lparr>n_activity := n_activity d + 1\<rparr> else d);
     Some (tick_phase cfg (d\<lparr>n_cmd := n_cmd d + 1\<rparr>), issued) }"

text \<open>The banks belong to the groups by the upper bits of their number, and each has its group.\<close>

definition group_of :: "dram_config \<Rightarrow> nat \<Rightarrow> nat" where
  "group_of cfg j = drop_bit (bk_tag_length cfg) j"

definition cfg_ok :: "dram_config \<Rightarrow> bool" where
  "cfg_ok cfg \<longleftrightarrow> 0 < nbk cfg \<and> (\<forall>j < nbk cfg. group_of cfg j < nbkgrp cfg)"

end
