(* ===== verification/Dram_Timing.thy ===== *)
theory Dram_Timing
  imports Dram
begin

text \<open>
  The commands of a DRAM channel obey the timing of its configuration. The protocol is stated on the trace of
  the commands, without the counters of the banks: which command may follow which other and after how many
  cycles. The counters are shown to know enough of the trace.
\<close>

section \<open>The protocol of the commands\<close>

text \<open>A trace has the cycle and the command, the newest first. \<open>min_gap cfg c' c\<close>: the least number of cycles from \<open>c'\<close>
  to \<open>c\<close>.\<close>

fun cmd_bank :: "dram_cmd \<Rightarrow> nat" where
  "cmd_bank (ACT b r) = b" | "cmd_bank (RD b r) = b" | "cmd_bank (WR b r) = b" | "cmd_bank (PRE b) = b"

fun min_gap :: "dram_config \<Rightarrow> dram_cmd \<Rightarrow> dram_cmd \<Rightarrow> nat" where
  "min_gap cfg (RD b' _) (RD b _) = max (tCCD cfg) (if group_of cfg b' = group_of cfg b then tCCDL cfg else 0)"
| "min_gap cfg (WR b' _) (WR b _) = max (tCCD cfg) (if group_of cfg b' = group_of cfg b then tCCDL cfg else 0)"
| "min_gap cfg (RD b' _) (WR b _) = max (max (tCCD cfg) (tRTW cfg)) (if group_of cfg b' = group_of cfg b then tCCDL cfg else 0)"
| "min_gap cfg (WR b' _) (RD b _) = max (max (tCCD cfg) (tWTR cfg)) (if group_of cfg b' = group_of cfg b then tCCDL cfg else 0)"
| "min_gap cfg (ACT b' _) (RD b _) = (if b' = b then tRCD cfg else 0)"
| "min_gap cfg (ACT b' _) (WR b _) = (if b' = b then tRCDWR cfg else 0)"
| "min_gap cfg (ACT b' _) (ACT b _) = max (tRRD cfg) (if b' = b then tRC cfg else 0)"
| "min_gap cfg (PRE b') (ACT b _) = (if b' = b then tRP cfg else 0)"
| "min_gap cfg (ACT b' _) (PRE b) = (if b' = b then tRAS cfg else 0)"
| "min_gap cfg (RD b' _) (PRE b) = max (if b' = b then burst_cycles cfg else 0)
     (if group_of cfg b' = group_of cfg b then tRTPL cfg else 0)"
| "min_gap cfg (WR b' _) (PRE b) = (if b' = b then tWTP cfg else 0)"
| "min_gap cfg _ _ = 0"

text \<open>The row that is open in a bank after some commands, the newest first.\<close>

fun open_row :: "dram_cmd list \<Rightarrow> nat \<Rightarrow> u32 option" where
  "open_row [] b = None"
| "open_row (ACT b' r # cs) b = (if b' = b then Some r else open_row cs b)"
| "open_row (PRE b' # cs) b = (if b' = b then None else open_row cs b)"
| "open_row (_ # cs) b = open_row cs b"

fun row_ok :: "dram_cmd list \<Rightarrow> dram_cmd \<Rightarrow> bool" where
  "row_ok cs (ACT b r) = (open_row cs b = None)"
| "row_ok cs (RD b r) = (open_row cs b = Some r)"
| "row_ok cs (WR b r) = (open_row cs b = Some r)"
| "row_ok cs (PRE b) = (open_row cs b \<noteq> None)"

fun legal :: "dram_config \<Rightarrow> (nat \<times> dram_cmd) list \<Rightarrow> bool" where
  "legal cfg [] = True"
| "legal cfg ((t, c) # tr) = (legal cfg tr \<and> (\<forall>(t', c') \<in> set tr. t' < t \<and> t' + min_gap cfg c' c \<le> t) \<and> row_ok (map snd tr) c)"

section \<open>What the timers know of the trace\<close>

definition cmd_counters :: "dram_config \<Rightarrow> dram_t \<Rightarrow> dram_cmd \<Rightarrow> (nat \<times> nat) list" where
  "cmd_counters cfg d c = (case c of
     RD b _ \<Rightarrow> [(tCCD cfg, CCDc d), (tCCDL cfg, CCDLc (bkgrp d (group_of cfg b))), (tRTW cfg, RTWc d),
       (burst_cycles cfg, RTPc (bk d b)), (tRTPL cfg, RTPLc (bkgrp d (group_of cfg b)))]
   | WR b _ \<Rightarrow> [(tCCD cfg, CCDc d), (tCCDL cfg, CCDLc (bkgrp d (group_of cfg b))), (tWTR cfg, WTRc d), (tWTP cfg, WTPc (bk d b))]
   | ACT b _ \<Rightarrow> [(tRRD cfg, RRDc d), (tRCD cfg, RCDc (bk d b)), (tRCDWR cfg, RCDWRc (bk d b)), (tRAS cfg, RASc (bk d b)),
       (tRC cfg, RCc (bk d b))]
   | PRE b \<Rightarrow> [(tRP cfg, RPc (bk d b))])"

definition timing_inv :: "dram_config \<Rightarrow> nat \<Rightarrow> dram_t \<Rightarrow> (nat \<times> dram_cmd) list \<Rightarrow> bool" where
  "timing_inv cfg now d tr \<longleftrightarrow> (\<forall>(t, c) \<in> set tr. cmd_bank c < nbk cfg \<and> (\<forall>(T, x) \<in> set (cmd_counters cfg d c). t + T \<le> now + x))"

definition rows_inv :: "dram_config \<Rightarrow> dram_t \<Rightarrow> (nat \<times> dram_cmd) list \<Rightarrow> bool" where
  "rows_inv cfg d tr \<longleftrightarrow> (\<forall>b. open_row (map snd tr) b = (if active (bk d b) then Some (curr_row (bk d b)) else None))"

text \<open>The timers of two states agree; and no timer of \<open>d'\<close> is below that of \<open>d\<close> unless it was just set.\<close>

definition bank_view :: "bank_t \<Rightarrow> bank_t" where
  "bank_view b = b\<lparr>mrq := None, n_access := 0, n_idle := 0\<rparr>"

lemma bank_view_eq: "bank_view a = bank_view b \<longleftrightarrow> RCDc a = RCDc b \<and> RCDWRc a = RCDWRc b \<and> RASc a = RASc b \<and> RPc a = RPc b
    \<and> RCc a = RCc b \<and> WTPc a = WTPc b \<and> RTPc a = RTPc b \<and> active a = active b \<and> curr_row a = curr_row b"
  by (cases a; cases b) (auto simp: bank_view_def)

definition same_timers :: "dram_t \<Rightarrow> dram_t \<Rightarrow> bool" where
  "same_timers d d' \<longleftrightarrow> CCDc d' = CCDc d \<and> RRDc d' = RRDc d \<and> RTWc d' = RTWc d \<and> WTRc d' = WTRc d \<and> bkgrp d' = bkgrp d
     \<and> (\<forall>j. bank_view (bk d' j) = bank_view (bk d j))"

lemma same_timers_self [simp]: "same_timers d d"
  by (simp add: same_timers_def)

lemma same_timers_trans: "same_timers a b \<Longrightarrow> same_timers b c \<Longrightarrow> same_timers a c"
  by (simp add: same_timers_def)

lemma same_timers_counters: "same_timers d d' \<Longrightarrow> cmd_counters cfg d' c = cmd_counters cfg d c"
  by (auto simp: same_timers_def bank_view_eq cmd_counters_def split: dram_cmd.splits)

lemma same_timers_inv:
  "same_timers d d' \<Longrightarrow> timing_inv cfg now d tr \<Longrightarrow> timing_inv cfg now d' tr"
  "same_timers d d' \<Longrightarrow> rows_inv cfg d tr \<Longrightarrow> rows_inv cfg d' tr"
  by (simp add: timing_inv_def same_timers_counters) (simp add: rows_inv_def same_timers_def bank_view_eq)

lemma same_timers_upd [simp]:
  "same_timers d (d'\<lparr>rwq := q\<rparr>) = same_timers d d'"
  "same_timers d (d'\<lparr>mrqq := q\<rparr>) = same_timers d d'"
  "same_timers d (d'\<lparr>returnq := q\<rparr>) = same_timers d d'"
  "same_timers d (d'\<lparr>heap := h\<rparr>) = same_timers d d'"
  "same_timers d (d'\<lparr>set_done := l\<rparr>) = same_timers d d'"
  "same_timers d (d'\<lparr>frfcfs_scheduler := s\<rparr>) = same_timers d d'"
  "same_timers d (d'\<lparr>prio := n\<rparr>) = same_timers d d'"
  "same_timers d (d'\<lparr>max_mrqs := n\<rparr>) = same_timers d d'"
  "same_timers d (d'\<lparr>ave_mrqs := n\<rparr>) = same_timers d d'"
  "same_timers d (d'\<lparr>writing := w\<rparr>) = same_timers d d'"
  "same_timers d (d'\<lparr>n_req := k\<rparr>) = same_timers d d'"
  "same_timers d (d'\<lparr>n_cmd := k\<rparr>) = same_timers d d'"
  "same_timers d (d'\<lparr>n_nop := k\<rparr>) = same_timers d d'"
  "same_timers d (d'\<lparr>n_activity := k\<rparr>) = same_timers d d'"
  by (simp_all add: same_timers_def)

lemma same_timers_set_mrq [simp]: "same_timers d (set_mrq j p d') = same_timers d d'"
  by (auto simp: same_timers_def set_mrq_def bank_view_eq)

lemma return_transfer_timers: "return_transfer cfg p d = Some d' \<Longrightarrow> same_timers d d'"
  by (auto simp: return_transfer_def bind_eq_Some_conv Let_def split: if_splits)

lemma return_phase_timers:
  assumes "return_phase cfg d = Some d'"
  shows "same_timers d d'"
proof (cases "fp_full (returnq d)")
  case True
  then show ?thesis using assms by (simp add: return_phase_def)
next
  case False
  with assms obtain r q where "fp_pop (rwq d) = Some (r, q)"
    and r: "(case r of None \<Rightarrow> Some (d\<lparr>rwq := q\<rparr>) | Some p \<Rightarrow> return_transfer cfg p (d\<lparr>rwq := q\<rparr>)) = Some d'"
    unfolding return_phase_def by (auto simp: bind_eq_Some_conv)
  show ?thesis
  proof (cases r)
    case (Some p)
    then have "same_timers (d\<lparr>rwq := q\<rparr>) d'" using r return_transfer_timers by simp
    then show ?thesis by (simp add: same_timers_def)
  qed (use r in auto)
qed

lemma drain_timers: "drain_mrqq cfg n d = Some d' \<Longrightarrow> same_timers d d'"
proof (induction n arbitrary: d)
  case (Suc n)
  show ?case
  proof (cases "fp_empty (mrqq d) \<or> frfcfs_queue_size cfg \<noteq> 0 \<and> frfcfs_queue_size cfg \<le> m_num_pending (frfcfs_scheduler d)")
    case False
    with Suc.prems obtain q s where "drain_mrqq cfg n (d\<lparr>mrqq := q, frfcfs_scheduler := s\<rparr>) = Some d'"
      by (auto simp: bind_eq_Some_conv)
    from Suc.IH [OF this] show ?thesis by (simp add: same_timers_def)
  qed (use Suc.prems in simp)
qed simp

lemma find_bank_timers: "find_bank time cfg is d = Some d' \<Longrightarrow> same_timers d d'"
proof (induction "is" arbitrary: d)
  case (Cons i "is")
  let ?b = "(i + prio d) mod nbk cfg"
  show ?case
  proof (cases "mrq (bk d ?b)")
    case (Some p)
    then show ?thesis using Cons by (simp add: Let_def)
  next
    case None
    with Cons.prems obtain r s where rs: "(case r of None \<Rightarrow> find_bank time cfg is (d\<lparr>frfcfs_scheduler := s\<rparr>)
        | Some p \<Rightarrow> Some (set_mrq ?b (Some p) (d\<lparr>frfcfs_scheduler := s, prio := (prio d + 1) mod nbk cfg\<rparr>))) = Some d'"
      by (auto simp: Let_def bind_eq_Some_conv cong: option.case_cong)
    show ?thesis
    proof (cases r)
      case None
      then have "find_bank time cfg is (d\<lparr>frfcfs_scheduler := s\<rparr>) = Some d'" using rs by simp
      from Cons.IH [OF this] show ?thesis by (simp add: same_timers_def)
    next
      case (Some p)
      then show ?thesis using rs by auto
    qed
  qed
qed simp

lemma schedule_phase_timers: "schedule_phase time cfg d = Some d' \<Longrightarrow> same_timers d d'"
proof -
  assume a: "schedule_phase time cfg d = Some d'"
  then obtain d1 where d1: "(case scheduler_type cfg of DRAM_FIFO \<Rightarrow> scheduler_fifo cfg d | DRAM_FRFCFS \<Rightarrow> scheduler_frfcfs time cfg d) = Some d1"
    and d': "same_timers d1 d'"
    by (auto simp: schedule_phase_def bind_eq_Some_conv Let_def)
  have "same_timers d d1"
  proof (cases "scheduler_type cfg")
    case DRAM_FIFO
    then show ?thesis using d1
      by (auto simp: scheduler_fifo_def bind_eq_Some_conv split: if_splits)
  next
    case DRAM_FRFCFS
    then obtain d2 where "drain_mrqq cfg (length (m_nodes (mrqq d))) d = Some d2" "find_bank time cfg [0..<nbk cfg] d2 = Some d1"
      using d1 by (auto simp: scheduler_frfcfs_def bind_eq_Some_conv)
    then show ?thesis by (rule same_timers_trans [OF drain_timers find_bank_timers])
  qed
  then show ?thesis by (rule same_timers_trans [OF _ d'])
qed

section \<open>One command\<close>

text \<open>What a command waits for, as \<open>cycle\<close> tests it, and what it does to the timers: those of the command are loaded, the
  others keep their value.\<close>

fun ready :: "dram_config \<Rightarrow> dram_t \<Rightarrow> dram_cmd \<Rightarrow> bool" where
  "ready cfg d (RD b r) = (CCDc d = 0 \<and> RCDc (bk d b) = 0 \<and> CCDLc (bkgrp d (group_of cfg b)) = 0 \<and> WTRc d = 0)"
| "ready cfg d (WR b r) = (CCDc d = 0 \<and> RCDWRc (bk d b) = 0 \<and> CCDLc (bkgrp d (group_of cfg b)) = 0 \<and> RTWc d = 0)"
| "ready cfg d (ACT b r) = (RRDc d = 0 \<and> RPc (bk d b) = 0 \<and> RCc (bk d b) = 0)"
| "ready cfg d (PRE b) = (RASc (bk d b) = 0 \<and> WTPc (bk d b) = 0 \<and> RTPc (bk d b) = 0 \<and> RTPLc (bkgrp d (group_of cfg b)) = 0)"

fun row_ready :: "dram_t \<Rightarrow> dram_cmd \<Rightarrow> bool" where
  "row_ready d (RD b r) = (active (bk d b) \<and> curr_row (bk d b) = r)"
| "row_ready d (WR b r) = (active (bk d b) \<and> curr_row (bk d b) = r)"
| "row_ready d (ACT b r) = (\<not> active (bk d b))"
| "row_ready d (PRE b) = active (bk d b)"

definition grows :: "dram_config \<Rightarrow> dram_t \<Rightarrow> dram_t \<Rightarrow> bool" where
  "grows cfg d d' \<longleftrightarrow> CCDc d' \<in> {CCDc d, tCCD cfg} \<and> RRDc d' \<in> {RRDc d, tRRD cfg} \<and> RTWc d' \<in> {RTWc d, tRTW cfg}
     \<and> WTRc d' \<in> {WTRc d, tWTR cfg}
     \<and> (\<forall>g. CCDLc (bkgrp d' g) \<in> {CCDLc (bkgrp d g), tCCDL cfg} \<and> RTPLc (bkgrp d' g) \<in> {RTPLc (bkgrp d g), tRTPL cfg})
     \<and> (\<forall>j. RCDc (bk d' j) \<in> {RCDc (bk d j), tRCD cfg} \<and> RCDWRc (bk d' j) \<in> {RCDWRc (bk d j), tRCDWR cfg}
          \<and> RASc (bk d' j) \<in> {RASc (bk d j), tRAS cfg} \<and> RPc (bk d' j) \<in> {RPc (bk d j), tRP cfg}
          \<and> RCc (bk d' j) \<in> {RCc (bk d j), tRC cfg} \<and> WTPc (bk d' j) \<in> {WTPc (bk d j), tWTP cfg}
          \<and> RTPc (bk d' j) \<in> {RTPc (bk d j), burst_cycles cfg})"

definition loaded :: "dram_config \<Rightarrow> dram_t \<Rightarrow> dram_cmd \<Rightarrow> bool" where
  "loaded cfg d c \<longleftrightarrow> (\<forall>(T, x) \<in> set (cmd_counters cfg d c). x = T)"

definition cmd_effect :: "dram_config \<Rightarrow> dram_cmd \<Rightarrow> dram_t \<Rightarrow> dram_t \<Rightarrow> bool" where
  "cmd_effect cfg c d d' \<longleftrightarrow> grows cfg d d' \<and> loaded cfg d' c
     \<and> (\<forall>j. active (bk d' j) = (case c of ACT b r \<Rightarrow> j = b \<or> active (bk d j) | PRE b \<Rightarrow> j \<noteq> b \<and> active (bk d j)
            | _ \<Rightarrow> active (bk d j))
          \<and> curr_row (bk d' j) = (case c of ACT b r \<Rightarrow> if j = b then r else curr_row (bk d j) | _ \<Rightarrow> curr_row (bk d j)))"

lemma activate_effect: "cmd_effect cfg (ACT j r) d (activate_cmd cfg j r d)"
  by (simp add: cmd_effect_def activate_cmd_def grows_def loaded_def cmd_counters_def)

lemma precharge_effect: "cmd_effect cfg (PRE j) d (precharge_cmd cfg j d)"
  by (simp add: cmd_effect_def precharge_cmd_def grows_def loaded_def cmd_counters_def)

lemma cmd_effect_same:
  assumes "cmd_effect cfg c e e'" "same_timers d e" "same_timers e' d'"
  shows "cmd_effect cfg c d d'"
proof -
  have 1: "grows cfg d d'" using assms by (auto simp: cmd_effect_def same_timers_def grows_def bank_view_eq)
  have 2: "loaded cfg d' c" using assms by (simp add: cmd_effect_def loaded_def same_timers_counters)
  show ?thesis
    unfolding cmd_effect_def using 1 2 assms by (auto simp: cmd_effect_def same_timers_def bank_view_eq split: dram_cmd.splits)
qed

lemma column_timers_effect:
  "cmd_effect cfg (RD j r) d (column_timers cfg False j d)"
  "cmd_effect cfg (WR j r) d (column_timers cfg True j d)"
  by (simp_all add: cmd_effect_def column_timers_def Let_def grows_def loaded_def cmd_counters_def group_of_def)

lemma turn_bus_timers: "turn_bus cfg wr d = Some d' \<Longrightarrow> same_timers d d'"
  by (auto simp: turn_bus_def bind_eq_Some_conv split: if_splits)

lemma column_effect:
  assumes "column_cmd cfg wr j p req d = Some d'"
  shows "cmd_effect cfg (if wr then WR j r else RD j r) d d'"
proof -
  from assms obtain e q where e: "turn_bus cfg wr d = Some e" and "fp_push (Some p) (rwq e) = Some q"
    and d': "d' = (let tx = rq_txbytes req + dram_atom_size cfg;
        f = column_timers cfg wr j (e\<lparr>rwq := q, heap := (heap e)(p \<mapsto> req\<lparr>rq_txbytes := tx\<rparr>)\<rparr>)
      in if tx < rq_nbytes req then f else set_mrq j None f)"
    unfolding column_cmd_def by (auto simp: bind_eq_Some_conv Let_def)
  define h where "h = (heap e)(p \<mapsto> req\<lparr>rq_txbytes := rq_txbytes req + dram_atom_size cfg\<rparr>)"
  let ?e = "e\<lparr>rwq := q, heap := h\<rparr>"
  have se: "same_timers d ?e" using turn_bus_timers [OF e] by simp
  have ce: "cmd_effect cfg (if wr then WR j r else RD j r) ?e (column_timers cfg wr j ?e)"
    using column_timers_effect by simp
  have "same_timers (column_timers cfg wr j ?e) d'" by (simp add: d' Let_def h_def)
  with ce se show ?thesis by (rule cmd_effect_same)
qed

text \<open>One round of the loop: either no command is issued and no timer moves, or it is the first command and it was ready.\<close>

definition issues :: "dram_config \<Rightarrow> dram_t \<Rightarrow> dram_t \<Rightarrow> dram_cmd \<Rightarrow> bool" where
  "issues cfg d d' c \<longleftrightarrow> cmd_bank c < nbk cfg \<and> ready cfg d c \<and> row_ready d c \<and> cmd_effect cfg c d d'"

lemma issue_bank_effect:
  assumes "issue_bank cfg (d, k, issued) i = Some (d', k', issued')" and n: "0 < nbk cfg"
  shows "same_timers d d' \<and> issued' = issued \<or> issued = None \<and> (\<exists>c. issued' = Some c \<and> issues cfg d d' c)"
proof -
  define j where "j = (i + prio d) mod nbk cfg"
  have j: "j < nbk cfg" using n by (simp add: j_def)
  show ?thesis
  proof (cases "mrq (bk d j)")
    case None
    then have "d' = d\<lparr>bk := (bk d)(j := (bk d j)\<lparr>n_idle := n_idle (bk d j) + 1\<rparr>)\<rparr> \<and> issued' = issued"
      using assms(1) by (simp add: issue_bank_def Let_def j_def [symmetric])
    then show ?thesis by (simp add: same_timers_def bank_view_eq)
  next
    case (Some p)
    with assms(1) obtain req where req: "heap d p = Some req"
      by (auto simp: issue_bank_def Let_def j_def [symmetric] bind_eq_Some_conv)
    consider (rd) e where "column_cmd cfg False j p req d = Some e" "d' = e" "issued' = Some (RD j (curr_row (bk d j)))"
        "issued = None" "ready cfg d (RD j (curr_row (bk d j)))" "active (bk d j)"
      | (wr) e where "column_cmd cfg True j p req d = Some e" "d' = e" "issued' = Some (WR j (curr_row (bk d j)))"
        "issued = None" "ready cfg d (WR j (curr_row (bk d j)))" "active (bk d j)"
      | (act) "d' = activate_cmd cfg j (rq_row req) d" "issued' = Some (ACT j (rq_row req))" "issued = None"
        "ready cfg d (ACT j (rq_row req))" "\<not> active (bk d j)"
      | (pre) "d' = precharge_cmd cfg j d" "issued' = Some (PRE j)" "issued = None" "ready cfg d (PRE j)" "active (bk d j)"
      | (no) "d' = d" "issued' = issued"
      using assms(1) Some req
      by (auto simp: issue_bank_def Let_def j_def [symmetric] bind_eq_Some_conv group_of_def split: if_splits)
    then show ?thesis
    proof cases
      case rd
      then show ?thesis using column_effect [OF rd(1), of "curr_row (bk d j)"] j by (simp add: issues_def)
    next
      case wr
      then show ?thesis using column_effect [OF wr(1), of "curr_row (bk d j)"] j by (simp add: issues_def)
    next
      case act
      then show ?thesis using activate_effect j by (simp add: issues_def)
    next
      case pre
      then show ?thesis using precharge_effect j by (simp add: issues_def)
    qed simp
  qed
qed

lemma same_timers_ready: "same_timers d e \<Longrightarrow> ready cfg e c = ready cfg d c \<and> row_ready e c = row_ready d c"
  by (cases c) (auto simp: same_timers_def bank_view_eq)

lemma issues_same:
  assumes "issues cfg e e' c" "same_timers d e" "same_timers e' d'"
  shows "issues cfg d d' c"
  using assms cmd_effect_same [OF _ assms(2,3)] same_timers_ready [OF assms(2)] by (simp add: issues_def)

lemma issue_loop_after:
  "foldM (issue_bank cfg) (d, k, Some c) is = Some (d', k', issued) \<Longrightarrow> 0 < nbk cfg \<Longrightarrow> issued = Some c \<and> same_timers d d'"
proof (induction "is" arbitrary: d k)
  case (Cons i "is")
  then obtain e k1 x where e: "issue_bank cfg (d, k, Some c) i = Some (e, k1, x)"
    "foldM (issue_bank cfg) (e, k1, x) is = Some (d', k', issued)"
    by (auto simp: bind_eq_Some_conv)
  have "x = Some c" "same_timers d e" using issue_bank_effect [OF e(1) Cons.prems(2)] by auto
  with Cons.IH [of e k1] e(2) Cons.prems(2) show ?case using same_timers_trans by blast
qed simp

lemma issue_loop:
  "foldM (issue_bank cfg) (d, k, None) is = Some (d', k', issued) \<Longrightarrow> 0 < nbk cfg \<Longrightarrow>
    (case issued of None \<Rightarrow> same_timers d d' | Some c \<Rightarrow> issues cfg d d' c)"
proof (induction "is" arbitrary: d k)
  case (Cons i "is")
  then obtain e k1 x where e: "issue_bank cfg (d, k, None) i = Some (e, k1, x)"
    "foldM (issue_bank cfg) (e, k1, x) is = Some (d', k', issued)"
    by (auto simp: bind_eq_Some_conv)
  show ?case
  proof (cases x)
    case None
    then have se: "same_timers d e" using issue_bank_effect [OF e(1) Cons.prems(2)] by auto
    have "case issued of None \<Rightarrow> same_timers e d' | Some c \<Rightarrow> issues cfg e d' c"
      using Cons.IH [of e k1] e(2) None Cons.prems(2) by simp
    then show ?thesis
      using se issues_same [OF _ se] same_timers_trans [OF se] by (auto split: option.splits)
  next
    case (Some c)
    then have "issues cfg d e c" using issue_bank_effect [OF e(1) Cons.prems(2)] by auto
    moreover have "issued = Some c \<and> same_timers e d'"
      using issue_loop_after [of cfg e k1 c "is"] e(2) Some Cons.prems(2) by simp
    ultimately show ?thesis using issues_same [OF _ same_timers_self] by simp
  qed
qed simp

section \<open>The invariant of the timers\<close>

lemma timing_inv_iff:
  "timing_inv cfg now d tr \<longleftrightarrow>
    (\<forall>t c. (t, c) \<in> set tr \<longrightarrow> cmd_bank c < nbk cfg \<and> (\<forall>(T, x) \<in> set (cmd_counters cfg d c). t + T \<le> now + x))"
  by (fastforce simp: timing_inv_def)

lemma timing_gap:
  assumes "timing_inv cfg now d tr" and "(t', c') \<in> set tr" and "t' \<le> now" and "ready cfg d c"
  shows "t' + min_gap cfg c' c \<le> now"
proof -
  have "\<forall>(T, x) \<in> set (cmd_counters cfg d c'). t' + T \<le> now + x"
    using assms(1,2) by (auto simp: timing_inv_def)
  then show ?thesis
    using assms(3,4) by (cases c'; cases c; clarsimp simp: cmd_counters_def max_def; (intro conjI impI; simp)?)
qed

lemma growsD:
  assumes "grows cfg d d'"
  shows "CCDc d' \<in> {CCDc d, tCCD cfg}" "RRDc d' \<in> {RRDc d, tRRD cfg}" "RTWc d' \<in> {RTWc d, tRTW cfg}"
    "WTRc d' \<in> {WTRc d, tWTR cfg}" "CCDLc (bkgrp d' g) \<in> {CCDLc (bkgrp d g), tCCDL cfg}"
    "RTPLc (bkgrp d' g) \<in> {RTPLc (bkgrp d g), tRTPL cfg}" "RCDc (bk d' j) \<in> {RCDc (bk d j), tRCD cfg}"
    "RCDWRc (bk d' j) \<in> {RCDWRc (bk d j), tRCDWR cfg}" "RASc (bk d' j) \<in> {RASc (bk d j), tRAS cfg}"
    "RPc (bk d' j) \<in> {RPc (bk d j), tRP cfg}" "RCc (bk d' j) \<in> {RCc (bk d j), tRC cfg}"
    "WTPc (bk d' j) \<in> {WTPc (bk d j), tWTP cfg}" "RTPc (bk d' j) \<in> {RTPc (bk d j), burst_cycles cfg}"
  using assms unfolding grows_def by blast+

lemma kept_or_loaded: "x' \<in> {x, T} \<Longrightarrow> t \<le> now \<Longrightarrow> t + T \<le> now + x \<Longrightarrow> t + T \<le> now + (x' :: nat)"
  by auto

lemma timing_grows:
  assumes "timing_inv cfg now d tr" and "grows cfg d d'" and "\<forall>(t, c) \<in> set tr. t \<le> now"
  shows "timing_inv cfg now d' tr"
proof -
  have "\<forall>(T, x) \<in> set (cmd_counters cfg d' c). t + T \<le> now + x" if tc: "(t, c) \<in> set tr" for t c
  proof -
    have t: "t \<le> now" using tc assms(3) by auto
    have *: "\<forall>(T, x) \<in> set (cmd_counters cfg d c). t + T \<le> now + x"
      using assms(1) tc by (auto simp: timing_inv_def)
    note k = growsD [OF assms(2), THEN kept_or_loaded, OF t]
    show ?thesis using * by (cases c) (simp_all add: cmd_counters_def k)
  qed
  then show ?thesis using assms(1) unfolding timing_inv_iff by blast
qed

lemma timing_issue:
  assumes inv: "timing_inv cfg now d tr" "rows_inv cfg d tr" and old: "\<forall>(t, c) \<in> set tr. t < now" and lg: "legal cfg tr"
    and c: "issues cfg d d' c"
  shows "legal cfg ((now, c) # tr) \<and> timing_inv cfg now d' ((now, c) # tr) \<and> rows_inv cfg d' ((now, c) # tr)"
proof -
  have i: "cmd_bank c < nbk cfg" "ready cfg d c" "row_ready d c" "grows cfg d d'" "loaded cfg d' c" "cmd_effect cfg c d d'"
    using c by (simp_all add: issues_def cmd_effect_def)
  have le: "\<forall>(t, c) \<in> set tr. t \<le> now" using old by auto
  have "row_ok (map snd tr) c"
    using i(3) inv(2) by (cases c) (simp_all add: rows_inv_def)
  moreover have "t' < now \<and> t' + min_gap cfg c' c \<le> now" if "(t', c') \<in> set tr" for t' c'
    using timing_gap [OF inv(1) that _ i(2)] that old by auto
  ultimately have "legal cfg ((now, c) # tr)" using lg by auto
  moreover have "timing_inv cfg now d' ((now, c) # tr)"
    using timing_grows [OF inv(1) i(4) le] i(1,5) by (auto simp: timing_inv_def loaded_def)
  moreover have "rows_inv cfg d' ((now, c) # tr)"
    using i(6) inv(2) unfolding cmd_effect_def rows_inv_def by (cases c) simp_all
  ultimately show ?thesis by blast
qed

lemma timing_tick:
  assumes "timing_inv cfg now d tr" and "cfg_ok cfg"
  shows "timing_inv cfg (Suc now) (tick_phase cfg d) tr"
proof -
  have "\<forall>(T, x) \<in> set (cmd_counters cfg (tick_phase cfg d) c). t + T \<le> Suc now + x" if tc: "(t, c) \<in> set tr" for t c
  proof -
    have b: "cmd_bank c < nbk cfg" and *: "\<forall>(T, x) \<in> set (cmd_counters cfg d c). t + T \<le> now + x"
      using assms(1) tc by (auto simp: timing_inv_def)
    have "group_of cfg (cmd_bank c) < nbkgrp cfg" using b assms(2) by (simp add: cfg_ok_def)
    with b * show ?thesis by (cases c) (simp_all add: cmd_counters_def tick_phase_def tick_bank_def, linarith+)
  qed
  then show ?thesis using assms(1) unfolding timing_inv_iff by blast
qed

lemma rows_tick: "rows_inv cfg d tr \<Longrightarrow> rows_inv cfg (tick_phase cfg d) tr"
  by (simp add: rows_inv_def tick_phase_def tick_bank_def)

section \<open>A cycle\<close>

lemma dram_cycle_effect:
  assumes "dram_cycle time cfg d = Some (d', c)" and "0 < nbk cfg"
  shows "\<exists>e. d' = tick_phase cfg e \<and> (case c of None \<Rightarrow> same_timers d e | Some c \<Rightarrow> issues cfg d e c)"
proof -
  from assms(1) obtain d1 d2 d3 k where d1: "return_phase cfg d = Some d1" and d2: "schedule_phase time cfg d1 = Some d2"
    and d3: "foldM (issue_bank cfg) (d2, of_nat (nbk cfg), None) [0..<nbk cfg] = Some (d3, k, c)"
    and d': "d' = (let e = (if c = None then d3\<lparr>n_nop := n_nop d3 + 1\<rparr> else d3);
        e = (if k \<noteq> 0 then e\<lparr>n_activity := n_activity e + 1\<rparr> else e) in tick_phase cfg (e\<lparr>n_cmd := n_cmd e + 1\<rparr>))"
    unfolding dram_cycle_def by (auto simp: bind_eq_Some_conv Let_def)
  obtain e where e: "d' = tick_phase cfg e" "same_timers d3 e"
    using d' by (auto simp: Let_def)
  have s2: "same_timers d d2" using return_phase_timers [OF d1] schedule_phase_timers [OF d2] same_timers_trans by blast
  have "case c of None \<Rightarrow> same_timers d2 d3 | Some c \<Rightarrow> issues cfg d2 d3 c" by (rule issue_loop [OF d3 assms(2)])
  then have "case c of None \<Rightarrow> same_timers d e | Some c \<Rightarrow> issues cfg d e c"
    using issues_same [OF _ s2 e(2)] same_timers_trans [OF same_timers_trans [OF s2] e(2)] by (simp split: option.splits)
  with e(1) show ?thesis by blast
qed

section \<open>Runs of the channel\<close>

text \<open>What the memory partition does with a channel: it pushes a request if the channel is not full, takes a reply, and
  runs a cycle.\<close>

datatype dram_event = Push nat dram_req | Pop | Cycle u64

definition add_cmd :: "nat \<Rightarrow> dram_cmd option \<Rightarrow> (nat \<times> dram_cmd) list \<Rightarrow> (nat \<times> dram_cmd) list" where
  "add_cmd now c tr = (case c of None \<Rightarrow> tr | Some c \<Rightarrow> (now, c) # tr)"

fun dram_step :: "dram_config \<Rightarrow> dram_t \<times> nat \<times> (nat \<times> dram_cmd) list \<Rightarrow> dram_event
    \<Rightarrow> (dram_t \<times> nat \<times> (nat \<times> dram_cmd) list) option" where
  "dram_step cfg (d, now, tr) (Push p req) =
     (if dram_full cfg d then Some (d, now, tr) else do { d \<leftarrow> dram_push p req d; Some (d, now, tr) })"
| "dram_step cfg (d, now, tr) Pop = do { (r, d) \<leftarrow> return_queue_pop d; Some (d, now, tr) }"
| "dram_step cfg (d, now, tr) (Cycle time) = do { (d, c) \<leftarrow> dram_cycle time cfg d; Some (d, Suc now, add_cmd now c tr) }"

definition run_dram :: "dram_config \<Rightarrow> dram_event list \<Rightarrow> (dram_t \<times> nat \<times> (nat \<times> dram_cmd) list) option" where
  "run_dram cfg evs = do { d \<leftarrow> new_dram cfg; foldM (dram_step cfg) (d, 0, []) evs }"

definition dram_inv :: "dram_config \<Rightarrow> dram_t \<times> nat \<times> (nat \<times> dram_cmd) list \<Rightarrow> bool" where
  "dram_inv cfg = (\<lambda>(d, now, tr). timing_inv cfg now d tr \<and> rows_inv cfg d tr \<and> (\<forall>(t, c) \<in> set tr. t < now) \<and> legal cfg tr)"

lemma dram_inv_same: "dram_inv cfg (d, now, tr) \<Longrightarrow> same_timers d d' \<Longrightarrow> dram_inv cfg (d', now, tr)"
  using same_timers_inv by (auto simp: dram_inv_def)

lemma dram_inv_tick: "timing_inv cfg now d tr \<Longrightarrow> rows_inv cfg d tr \<Longrightarrow> \<forall>(t, c) \<in> set tr. t < Suc now \<Longrightarrow> legal cfg tr \<Longrightarrow>
    cfg_ok cfg \<Longrightarrow> dram_inv cfg (tick_phase cfg d, Suc now, tr)"
  using timing_tick rows_tick by (auto simp: dram_inv_def)

lemma dram_inv_cycle:
  assumes "dram_inv cfg (d, now, tr)" and "cfg_ok cfg" and "dram_cycle time cfg d = Some (d', c)"
  shows "dram_inv cfg (d', Suc now, add_cmd now c tr)"
proof -
  have inv: "timing_inv cfg now d tr" "rows_inv cfg d tr" "\<forall>(t, c) \<in> set tr. t < now" "legal cfg tr"
    using assms(1) by (simp_all add: dram_inv_def)
  have "0 < nbk cfg" using assms(2) by (simp add: cfg_ok_def)
  from dram_cycle_effect [OF assms(3) this] obtain e where d': "d' = tick_phase cfg e"
    and e: "case c of None \<Rightarrow> same_timers d e | Some c \<Rightarrow> issues cfg d e c" by blast
  show ?thesis
  proof (cases c)
    case None
    then have "dram_inv cfg (e, now, tr)" using e assms(1) dram_inv_same by simp
    then show ?thesis using None d' assms(2) dram_inv_tick [of cfg now e tr] by (force simp: dram_inv_def add_cmd_def)
  next
    case (Some x)
    then have "legal cfg ((now, x) # tr) \<and> timing_inv cfg now e ((now, x) # tr) \<and> rows_inv cfg e ((now, x) # tr)"
      using timing_issue [OF inv] e by simp
    moreover have "\<forall>(t, c) \<in> set ((now, x) # tr). t < Suc now" using inv(3) by auto
    ultimately show ?thesis using Some d' assms(2) dram_inv_tick by (simp add: add_cmd_def)
  qed
qed

lemma dram_inv_event:
  assumes "dram_inv cfg s" and "cfg_ok cfg" and "dram_step cfg s ev = Some s'"
  shows "dram_inv cfg s'"
proof -
  obtain d now tr where s: "s = (d, now, tr)" by (cases s)
  show ?thesis
  proof (cases ev)
    case (Push p req)
    then obtain d' where "s' = (d', now, tr)" "same_timers d d'"
      using assms(3) s by (auto simp: bind_eq_Some_conv dram_push_def split: if_splits)
    then show ?thesis using assms(1) s dram_inv_same by simp
  next
    case Pop
    then obtain d' where "s' = (d', now, tr)" "same_timers d d'"
      using assms(3) s by (auto simp: bind_eq_Some_conv return_queue_pop_def)
    then show ?thesis using assms(1) s dram_inv_same by simp
  next
    case (Cycle time)
    then obtain d' c where "dram_cycle time cfg d = Some (d', c)" "s' = (d', Suc now, add_cmd now c tr)"
      using assms(3) s by (auto simp: bind_eq_Some_conv)
    then show ?thesis using dram_inv_cycle assms(1,2) s by simp
  qed
qed

text \<open>C4. The commands of a DRAM channel obey its timing, in every run and under either scheduler: at most one is issued
  in a cycle, each waits for all the gaps to the earlier ones that the configuration asks for (between
  columns, groups of banks, turns of the bus, activations, the opening and the closing of a row), a row is opened
  only in a closed bank, and only the open row is read, written and closed.\<close>

theorem dram_timing:
  assumes "cfg_ok cfg" and "run_dram cfg evs = Some (d, now, tr)"
  shows "legal cfg tr"
proof -
  from assms(2) obtain d0 where d0: "new_dram cfg = Some d0" and f: "foldM (dram_step cfg) (d0, 0, []) evs = Some (d, now, tr)"
    by (auto simp: run_dram_def bind_eq_Some_conv)
  have "dram_inv cfg (d0, 0, [])"
    using d0 by (auto simp: dram_inv_def timing_inv_def rows_inv_def new_dram_def bind_eq_Some_conv)
  from f this have "dram_inv cfg (d, now, tr)"
    by (rule foldM_invariant_Some [where I = "dram_inv cfg"]) (rule dram_inv_event [OF _ assms(1)])
  then show ?thesis by (simp add: dram_inv_def)
qed

text \<open>Two banks in one group, and a request for row 3 of the first, which is activated and then read.\<close>

definition dram_sample_cfg :: "dram_ctrl_t \<Rightarrow> dram_config" where
  "dram_sample_cfg s = \<lparr>scheduler_type = s, frfcfs_queue_size = 4, return_queue_size = 4, nbk = 2, nbkgrp = 1, bk_tag_length = 1,
     dram_atom_size = 32, burst_cycles = 2, CL = 1, WL = 1, tCCD = 2, tRRD = 2, tRCD = 1, tRCDWR = 2, tRAS = 5, tRP = 3,
     tRC = 8, tWTR = 2, tRTW = 3, tCCDL = 3, tRTPL = 2, tWTP = 4\<rparr>"

definition sample_req :: dram_req where
  "sample_req = \<lparr>rq_row = 3, rq_bk = 0, rq_nbytes = 64, rq_txbytes = 0, rq_dqbytes = 0, rq_write = False, rq_wrbk = False\<rparr>"

lemma sample_run: "map_option snd (run_dram (dram_sample_cfg DRAM_FIFO) [Push 1 sample_req, Cycle 0, Cycle 1]) = Some (2, [(1, RD 0 3), (0, ACT 0 3)])"
  by code_simp

lemma dram_sample_ok: "cfg_ok (dram_sample_cfg s)"
  by (auto simp: cfg_ok_def dram_sample_cfg_def group_of_def drop_bit_Suc less_2_cases_iff)

theorem dram_timing_witness:
  "\<exists>d tr. run_dram (dram_sample_cfg DRAM_FIFO) [Push 1 sample_req, Cycle 0, Cycle 1] = Some (d, 2, tr)
    \<and> tr = [(1, RD 0 3), (0, ACT 0 3)] \<and> legal (dram_sample_cfg DRAM_FIFO) tr"
proof -
  obtain d where "run_dram (dram_sample_cfg DRAM_FIFO) [Push 1 sample_req, Cycle 0, Cycle 1] = Some (d, 2, [(1, RD 0 3), (0, ACT 0 3)])"
    using sample_run by auto
  with dram_timing [OF dram_sample_ok this] show ?thesis by blast
qed

end
