(* ===== verification/Dram_Wf.thy ===== *)
theory Dram_Wf
  imports Dram
begin

text \<open>
  The objects of a DRAM channel. A request is on the heap from \<open>push\<close> until its last transfer has come out of the
  transfer queue; it waits in one place (the queue of arrivals, the scheduler's queue of its bank, or its bank),
  and its byte counts agree with the transfers that are under way. With this no pointer dangles, no assertion
  of \<open>cycle\<close> fails and its loops end.
\<close>

section \<open>The invariant\<close>

text \<open>A queue without delays.\<close>

definition plain_pipe :: "'a fifo_pipeline \<Rightarrow> bool" where
  "plain_pipe q \<longleftrightarrow> fp_wf q \<and> m_min_len q = 0 \<and> None \<notin> set (m_nodes q)"

definition pipes_ok :: "dram_config \<Rightarrow> dram_t \<Rightarrow> bool" where
  "pipes_ok cfg d \<longleftrightarrow> fp_wf (rwq d) \<and> m_max_len (rwq d) = CL cfg + 1 \<and> m_min_len (rwq d) = (if writing d then WL cfg else CL cfg)
     \<and> plain_pipe (mrqq d) \<and> fp_wf (returnq d)"

text \<open>The requests of a bank: the one it works on and those the scheduler has for it.\<close>

definition claims :: "dram_t \<Rightarrow> nat \<Rightarrow> nat list" where
  "claims d b = (case mrq (bk d b) of None \<Rightarrow> [] | Some p \<Rightarrow> [p]) @ m_queue (frfcfs_scheduler d) b"

definition waiting :: "(nat \<Rightarrow> dram_req option) \<Rightarrow> nat \<Rightarrow> nat \<Rightarrow> bool" where
  "waiting h b p \<longleftrightarrow> (case h p of None \<Rightarrow> False | Some req \<Rightarrow> rq_bk req = b \<and> rq_txbytes req < rq_nbytes req)"

definition waits_ok :: "nat \<Rightarrow> (nat \<Rightarrow> dram_req option) \<Rightarrow> nat list \<Rightarrow> (nat \<Rightarrow> nat list) \<Rightarrow> bool" where
  "waits_ok n h xs cl \<longleftrightarrow> distinct xs \<and> (\<forall>p \<in> set xs. \<exists>b < n. waiting h b p \<and> p \<notin> set (cl b))
     \<and> (\<forall>b < n. distinct (cl b) \<and> (\<forall>p \<in> set (cl b). waiting h b p))"

definition bus_ok :: "nat \<Rightarrow> (nat \<Rightarrow> dram_req option) \<Rightarrow> nat list \<Rightarrow> bool" where
  "bus_ok atom h xs \<longleftrightarrow> (\<forall>p. case h p of
     None \<Rightarrow> p \<notin> set xs
   | Some req \<Rightarrow> rq_dqbytes req < rq_nbytes req \<and> rq_txbytes req < rq_nbytes req + atom
       \<and> rq_dqbytes req + atom * count_list xs p = rq_txbytes req)"

definition dram_wf :: "dram_config \<Rightarrow> dram_t \<Rightarrow> bool" where
  "dram_wf cfg d \<longleftrightarrow> pipes_ok cfg d \<and> waits_ok (nbk cfg) (heap d) (fp_items (mrqq d)) (claims d)
     \<and> bus_ok (dram_atom_size cfg) (heap d) (fp_items (rwq d)) \<and> sched_inv (row_of d) (nbk cfg) (frfcfs_scheduler d)"

definition cfg_wf :: "dram_config \<Rightarrow> bool" where
  "cfg_wf cfg \<longleftrightarrow> cfg_ok cfg \<and> 0 < WL cfg \<and> WL cfg \<le> CL cfg"

lemma dram_wf_cong:
  assumes "heap d' = heap d" "mrqq d' = mrqq d" "rwq d' = rwq d" "returnq d' = returnq d" "writing d' = writing d"
    "frfcfs_scheduler d' = frfcfs_scheduler d" "\<And>b. mrq (bk d' b) = mrq (bk d b)"
  shows "dram_wf cfg d' = dram_wf cfg d"
proof -
  have "claims d' = claims d" using assms by (simp add: claims_def fun_eq_iff)
  moreover have "row_of d' = row_of d" using assms(1) by (simp add: row_of_def fun_eq_iff)
  ultimately show ?thesis using assms by (simp add: dram_wf_def pipes_ok_def)
qed

lemma dram_wfD:
  assumes "dram_wf cfg d"
  shows "fp_wf (rwq d)" "m_max_len (rwq d) = CL cfg + 1" "m_min_len (rwq d) = (if writing d then WL cfg else CL cfg)"
    "plain_pipe (mrqq d)" "fp_wf (returnq d)"
    "waits_ok (nbk cfg) (heap d) (fp_items (mrqq d)) (claims d)" "bus_ok (dram_atom_size cfg) (heap d) (fp_items (rwq d))"
    "sched_inv (row_of d) (nbk cfg) (frfcfs_scheduler d)"
  using assms by (simp_all add: dram_wf_def pipes_ok_def)

lemma sched_inv_cong:
  assumes "sched_inv row n s" and "\<And>b p. b < n \<Longrightarrow> p \<in> set (m_queue s b) \<Longrightarrow> row' p = row p"
  shows "sched_inv row' n s"
proof -
  have "bank_inv row' s b" if b: "b < n" for b
  proof -
    have inv: "bank_inv row s b" using assms(1) b by (simp add: sched_inv_def)
    have "filter (\<lambda>p. row' p = r) (m_queue s b) = filter (\<lambda>p. row p = r) (m_queue s b)" for r
      by (rule filter_cong) (use assms(2) [OF b] in auto)
    then show ?thesis using inv assms(2) [OF b] unfolding bank_inv_def by simp
  qed
  then show ?thesis using assms(1) by (simp add: sched_inv_def)
qed

section \<open>Queues without delays\<close>

lemma plain_nodes: "None \<notin> set xs \<Longrightarrow> map Some (map the (filter (\<lambda>x. x \<noteq> None) xs)) = xs"
proof (induction xs)
  case (Cons x xs)
  then show ?case by (cases x) auto
qed simp

lemma plain_items: "plain_pipe q \<Longrightarrow> m_nodes q = map Some (fp_items q)"
  unfolding plain_pipe_def fp_items_def using plain_nodes [of "m_nodes q"] by simp

lemma items_map_Some [simp]: "map the (filter (\<lambda>x. x \<noteq> None) (map Some xs)) = xs"
  by (induction xs) auto

lemma plain_push:
  assumes "plain_pipe q" and "\<not> fp_full q"
  shows "\<exists>q'. fp_push (Some e) q = Some q' \<and> plain_pipe q' \<and> fp_items q' = fp_items q @ [e]"
proof -
  have q: "fp_wf q" "m_min_len q = 0" "m_nodes q = map Some (fp_items q)"
    using assms(1) plain_items by (simp_all add: plain_pipe_def)
  obtain q' where q': "fp_push (Some e) q = Some q'" "fp_wf q'" "fp_items q' = fp_items q @ [e]" "m_min_len q' = m_min_len q"
    using push_elem [OF q(1) assms(2)] by blast
  have "None \<notin> set (m_nodes q')" using q'(1) assms(1)
    by (auto simp: fp_push_def plain_pipe_def bind_eq_Some_conv split: if_splits dest: in_set_butlastD)
  then show ?thesis using q' q(2) by (simp add: plain_pipe_def)
qed

lemma plain_pop:
  assumes "plain_pipe q" and "fp_items q = x # xs"
  shows "fp_top q = Some x \<and> \<not> fp_empty q \<and> (\<exists>q'. fp_pop q = Some (Some x, q') \<and> plain_pipe q' \<and> fp_items q' = xs)"
proof -
  have n: "m_nodes q = Some x # map Some xs" using plain_items [OF assms(1)] assms(2) by simp
  then have "m_length q = Suc (length xs)" "m_min_len q = 0" "m_max_len q \<noteq> 0" "m_length q \<le> m_max_len q"
    using assms(1) by (simp_all add: plain_pipe_def fp_wf_def)
  then show ?thesis using n
    by (auto simp: fp_top_def fp_empty_def fp_pop_def plain_pipe_def fp_wf_def fp_items_def Let_def)
qed

lemma plain_empty: "plain_pipe q \<Longrightarrow> fp_empty q \<longleftrightarrow> fp_items q = []"
  using plain_items by (fastforce simp: fp_empty_def)

section \<open>Returning a transfer\<close>

lemma waits_live: "waits_ok n h xs cl \<Longrightarrow> b < n \<Longrightarrow> p \<in> set (cl b) \<Longrightarrow> waiting h b p"
  by (simp add: waits_ok_def)

lemma waits_cong:
  assumes "waits_ok n h xs cl" and "\<And>b p. waiting h b p \<Longrightarrow> waiting h' b p"
  shows "waits_ok n h' xs cl"
  using assms unfolding waits_ok_def by blast

lemma return_transfer_wf:
  assumes pre: "pipes_ok cfg d" "waits_ok (nbk cfg) (heap d) (fp_items (mrqq d)) (claims d)"
      "sched_inv (row_of d) (nbk cfg) (frfcfs_scheduler d)"
    and bus: "bus_ok (dram_atom_size cfg) (heap d) (p # fp_items (rwq d))" and room: "\<not> fp_full (returnq d)"
  shows "\<exists>d'. return_transfer cfg p d = Some d' \<and> dram_wf cfg d'"
proof -
  obtain req where req: "heap d p = Some req" using bus by (fastforce simp: bus_ok_def split: option.splits)
  let ?a = "dram_atom_size cfg" and ?xs = "fp_items (rwq d)"
  have b: "rq_dqbytes req < rq_nbytes req" "rq_txbytes req < rq_nbytes req + ?a"
    "rq_dqbytes req + ?a * Suc (count_list ?xs p) = rq_txbytes req"
    using bus req unfolding bus_ok_def by (auto dest!: spec [of _ p])
  have rest: "case heap d x of None \<Rightarrow> x \<notin> set ?xs | Some req \<Rightarrow> rq_dqbytes req < rq_nbytes req
      \<and> rq_txbytes req < rq_nbytes req + ?a \<and> rq_dqbytes req + ?a * count_list ?xs x = rq_txbytes req" if "x \<noteq> p" for x
    using bus that unfolding bus_ok_def by (auto dest!: spec [of _ x] split: option.splits)
  show ?thesis
  proof (cases "rq_dqbytes req + ?a \<ge> rq_nbytes req")
    case True
    have "?a * count_list ?xs p = 0"
    proof (rule ccontr)
      assume "?a * count_list ?xs p \<noteq> 0"
      then have "?a \<le> ?a * count_list ?xs p" by simp
      then show False using b True unfolding mult_Suc_right by linarith
    qed
    moreover have "?a \<noteq> 0" using b True by linarith
    ultimately have c: "p \<notin> set ?xs" by (simp add: count_list_0_iff)
    have tx: "rq_nbytes req \<le> rq_txbytes req" using b True by simp
    let ?h = "(heap d)(p := None)"
    have bus': "bus_ok ?a ?h ?xs" unfolding bus_ok_def using rest c by simp
    have nw: "\<not> waiting (heap d) b p" for b using tx req by (simp add: waiting_def)
    have w: "waits_ok (nbk cfg) ?h (fp_items (mrqq d)) (claims d)"
      by (rule waits_cong [OF pre(2)]) (use nw in \<open>auto simp: waiting_def split: if_splits\<close>)
    have sched: "sched_inv (row_of (e\<lparr>heap := ?h\<rparr>)) (nbk cfg) (frfcfs_scheduler d)" for e
    proof (rule sched_inv_cong [OF pre(3)])
      fix b x assume "b < nbk cfg" "x \<in> set (m_queue (frfcfs_scheduler d) b)"
      then have "waiting (heap d) b x" using waits_live [OF pre(2), of b x] by (simp add: claims_def)
      then have "x \<noteq> p" using nw by auto
      then show "row_of (e\<lparr>heap := ?h\<rparr>) x = row_of d x" by (simp add: row_of_def)
    qed
    obtain q where q: "fp_push (Some p) (returnq d) = Some q" "fp_wf q"
      using push_elem [OF _ room] pre(1) by (auto simp: pipes_ok_def)
    have cl: "claims (d\<lparr>returnq := q, heap := ?h\<rparr>) = claims d" "claims (d\<lparr>set_done := l, heap := ?h\<rparr>) = claims d" for l
      by (simp_all add: claims_def fun_eq_iff)
    have "dram_wf cfg (d\<lparr>returnq := q, heap := ?h\<rparr>)" "dram_wf cfg (d\<lparr>set_done := l, heap := ?h\<rparr>)" for l
      using pre(1) w bus' q(2) sched [of "d\<lparr>returnq := q\<rparr>"] sched [of "d\<lparr>set_done := l\<rparr>"]
      by (simp_all add: dram_wf_def pipes_ok_def cl)
    then show ?thesis using req True q(1) by (simp add: return_transfer_def Let_def)
  next
    case False
    let ?h = "(heap d)(p \<mapsto> req\<lparr>rq_dqbytes := rq_dqbytes req + ?a\<rparr>)"
    have bus': "bus_ok ?a ?h ?xs" unfolding bus_ok_def using rest b False by simp
    have w: "waits_ok (nbk cfg) ?h (fp_items (mrqq d)) (claims d)"
      by (rule waits_cong [OF pre(2)]) (use req in \<open>auto simp: waiting_def split: if_splits\<close>)
    have "row_of (d\<lparr>heap := ?h\<rparr>) = row_of d" "claims (d\<lparr>heap := ?h\<rparr>) = claims d"
      using req by (simp_all add: row_of_def claims_def fun_eq_iff)
    then have "dram_wf cfg (d\<lparr>heap := ?h\<rparr>)" using pre(1,3) w bus' by (simp add: dram_wf_def pipes_ok_def)
    then show ?thesis using req False by (simp add: return_transfer_def Let_def)
  qed
qed

lemma return_phase_wf:
  assumes "dram_wf cfg d"
  shows "\<exists>d'. return_phase cfg d = Some d' \<and> dram_wf cfg d'"
proof (cases "fp_full (returnq d)")
  case True
  then show ?thesis using assms by (simp add: return_phase_def)
next
  case False
  note wf = dram_wfD [OF assms]
  obtain r q where q: "fp_pop (rwq d) = Some (r, q)" "fp_wf q" "fp_items (rwq d) = (case r of None \<Rightarrow> [] | Some e \<Rightarrow> [e]) @ fp_items q"
    "m_max_len q = m_max_len (rwq d)" "m_min_len q = m_min_len (rwq d)"
    using pop_any [OF wf(1)] by blast
  let ?d = "d\<lparr>rwq := q\<rparr>"
  have f: "pipes_ok cfg ?d" "claims ?d = claims d" "row_of ?d = row_of d"
    using wf(1-5) q by (simp_all add: pipes_ok_def claims_def row_of_def fun_eq_iff)
  show ?thesis
  proof (cases r)
    case None
    then have "dram_wf cfg ?d" using f wf(6-8) q(3) by (simp add: dram_wf_def)
    then show ?thesis using False None q(1) by (simp add: return_phase_def)
  next
    case (Some p)
    then have "\<exists>d'. return_transfer cfg p ?d = Some d' \<and> dram_wf cfg d'"
      by (intro return_transfer_wf) (use f wf(6-8) q(3) False in simp_all)
    then show ?thesis using False Some q(1) by (simp add: return_phase_def)
  qed
qed

section \<open>Scheduling\<close>

lemma waits_perm:
  assumes "waits_ok n h xs cl" and "distinct xs'" and "set xs' \<subseteq> set xs"
    and "\<And>b. b < n \<Longrightarrow> distinct (cl' b)"
    and "\<And>b p. b < n \<Longrightarrow> p \<in> set (cl' b) \<Longrightarrow> waiting h b p"
    and "\<And>b p. b < n \<Longrightarrow> p \<in> set xs' \<Longrightarrow> waiting h b p \<Longrightarrow> p \<notin> set (cl' b)"
  shows "waits_ok n h xs' cl'"
  using assms unfolding waits_ok_def by blast

text \<open>The first request of the queue of arrivals moves to its bank.\<close>

lemma waits_move:
  assumes w: "waits_ok n h (p # xs) cl" and b: "b < n" "waiting h b p"
    and cl': "set (cl' b) = insert p (set (cl b))" "distinct (cl' b)" "\<And>b'. b' \<noteq> b \<Longrightarrow> cl' b' = cl b'"
  shows "waits_ok n h xs cl'"
proof (rule waits_perm [OF w])
  show "distinct xs" using w by (simp add: waits_ok_def)
  show "distinct (cl' b')" if "b' < n" for b' using w that cl' by (cases "b' = b") (simp_all add: waits_ok_def)
  show "waiting h b' x" if "b' < n" "x \<in> set (cl' b')" for b' x
    using w that cl' b by (cases "b' = b") (auto simp: waits_ok_def)
  show "x \<notin> set (cl' b')" if b': "b' < n" and x: "x \<in> set xs" "waiting h b' x" for b' x
  proof -
    obtain b2 where b2: "waiting h b2 x" "x \<notin> set (cl b2)" using w x(1) by (auto simp: waits_ok_def)
    have "b2 = b'" using b2(1) x(2) by (auto simp: waiting_def split: option.splits)
    moreover have "x \<noteq> p" using w x(1) by (auto simp: waits_ok_def)
    ultimately show ?thesis using cl' b2(2) by (cases "b' = b") auto
  qed
qed auto

lemma waits_head:
  assumes "waits_ok n h (p # xs) cl"
  obtains req where "h p = Some req" "rq_bk req < n" "waiting h (rq_bk req) p" "p \<notin> set (cl (rq_bk req))"
  using assms by (auto simp: waits_ok_def waiting_def split: option.splits)

lemma scheduler_fifo_wf:
  assumes "dram_wf cfg d"
  shows "\<exists>d'. scheduler_fifo cfg d = Some d' \<and> dram_wf cfg d'"
proof (cases "fp_items (mrqq d)")
  case Nil
  then show ?thesis using assms plain_empty dram_wfD(4) [OF assms] by (auto simp: scheduler_fifo_def)
next
  case (Cons p xs)
  note wf = dram_wfD [OF assms]
  obtain req where req: "heap d p = Some req" "rq_bk req < nbk cfg" "waiting (heap d) (rq_bk req) p" "p \<notin> set (claims d (rq_bk req))"
    using wf(6) Cons waits_head by metis
  obtain q where q: "fp_top (mrqq d) = Some p" "\<not> fp_empty (mrqq d)" "fp_pop (mrqq d) = Some (Some p, q)" "plain_pipe q" "fp_items q = xs"
    using plain_pop [OF wf(4) Cons] by blast
  show ?thesis
  proof (cases "mrq (bk d (rq_bk req))")
    case None
    let ?d = "set_mrq (rq_bk req) (Some p) (d\<lparr>mrqq := q\<rparr>)"
    have cl: "claims ?d b = (if b = rq_bk req then p # claims d b else claims d b)" for b
      using None by (simp add: claims_def set_mrq_def)
    have "waits_ok (nbk cfg) (heap d) xs (claims ?d)"
      by (rule waits_move [OF _ req(2,3)])
        (use wf(6) Cons cl req(2,4) in \<open>auto simp: waits_ok_def\<close>)
    moreover have "row_of ?d = row_of d" by (simp add: set_mrq_def row_of_def fun_eq_iff)
    ultimately have "dram_wf cfg ?d"
      using wf q(4,5) by (simp add: dram_wf_def pipes_ok_def set_mrq_def)
    then show ?thesis using q(1-3) req(1,2) None by (simp add: scheduler_fifo_def)
  next
    case (Some x)
    then show ?thesis using q(1,2) req(1,2) assms by (simp add: scheduler_fifo_def)
  qed
qed

lemma drain_wf:
  "dram_wf cfg d \<Longrightarrow> \<exists>d'. drain_mrqq cfg n d = Some d' \<and> dram_wf cfg d'"
proof (induction n arbitrary: d)
  case (Suc n)
  note wf = dram_wfD [OF Suc.prems]
  show ?case
  proof (cases "fp_empty (mrqq d) \<or> frfcfs_queue_size cfg \<noteq> 0 \<and> frfcfs_queue_size cfg \<le> m_num_pending (frfcfs_scheduler d)")
    case True
    then show ?thesis using Suc.prems by simp
  next
    case False
    then obtain p xs where xs: "fp_items (mrqq d) = p # xs" using plain_empty [OF wf(4)] by (cases "fp_items (mrqq d)") auto
    obtain req where req: "heap d p = Some req" "rq_bk req < nbk cfg" "waiting (heap d) (rq_bk req) p" "p \<notin> set (claims d (rq_bk req))"
      using wf(6) xs waits_head by metis
    obtain q where q: "fp_pop (mrqq d) = Some (Some p, q)" "plain_pipe q" "fp_items q = xs"
      using plain_pop [OF wf(4) xs] by blast
    define s where "s = add_req (\<lambda>_. rq_bk req) (\<lambda>_. rq_row req) p (frfcfs_scheduler d)"
    let ?d = "d\<lparr>mrqq := q, frfcfs_scheduler := s\<rparr>"
    have s': "s = add_req (\<lambda>_. rq_bk req) (row_of d) p (frfcfs_scheduler d)"
      using req(1) by (simp add: s_def add_req_def row_of_def)
    have sq: "m_queue s = (m_queue (frfcfs_scheduler d))(rq_bk req := p # m_queue (frfcfs_scheduler d) (rq_bk req))"
      by (simp add: s_def add_req_def Let_def)
    have "p \<notin> set (m_queue (frfcfs_scheduler d) (rq_bk req))" using req(4) by (simp add: claims_def)
    then have "sched_inv (row_of d) (nbk cfg) s"
      unfolding s' using add_req_refines [OF wf(8), of "\<lambda>_. rq_bk req"] req(2) by simp
    moreover have "waits_ok (nbk cfg) (heap d) xs (claims ?d)"
    proof (rule waits_move [OF _ req(2,3)])
      show "waits_ok (nbk cfg) (heap d) (p # xs) (claims d)" using wf(6) xs by simp
      show "distinct (claims ?d (rq_bk req))"
        using wf(6) req(2,4) by (auto simp: claims_def sq waits_ok_def split: option.splits)
    qed (auto simp: claims_def sq)
    moreover have "row_of ?d = row_of d" by (simp add: row_of_def fun_eq_iff)
    ultimately have "dram_wf cfg ?d" using wf q(2,3) by (simp add: dram_wf_def pipes_ok_def)
    from Suc.IH [OF this] show ?thesis using False q(1) req(1,2) by (auto simp: s_def)
  qed
qed simp

lemma schedule_queue:
  assumes "sched_inv row n s" and "b < n" and "mrq0 = m_queue s b"
  shows "\<exists>r s'. schedule time row b cr s = Some (r, s') \<and> sched_inv row n s' \<and> (\<forall>b'. b' \<noteq> b \<longrightarrow> m_queue s' b' = m_queue s b')
    \<and> (case r of None \<Rightarrow> m_queue s' b = m_queue s b | Some p \<Rightarrow> p \<in> set (m_queue s b) \<and> m_queue s' b = remove1 p (m_queue s b))"
proof -
  obtain r s' where s': "schedule time row b cr s = Some (r, s')" "sched_inv row n s'"
    "(r, abs_bank s' b) = spec_schedule row cr (abs_bank s b)" "\<forall>b'. b' \<noteq> b \<longrightarrow> abs_bank s' b' = abs_bank s b'"
    using schedule_ok [OF assms(1,2)] by blast
  have d: "distinct (m_queue s b)" using assms(1,2) by (simp add: sched_inv_def bank_inv_def)
  have "case r of None \<Rightarrow> m_queue s' b = m_queue s b | Some p \<Rightarrow> p \<in> set (m_queue s b) \<and> m_queue s' b = remove1 p (m_queue s b)"
  proof (cases r)
    case None
    then show ?thesis using s'(3)
      by (auto simp: spec_schedule_def abs_bank_def split: option.splits list.splits)
  next
    case (Some p)
    then obtain x ps where "filter (\<lambda>p. row p = x) (rev (m_queue s b)) = p # ps" "rev (m_queue s' b) = remove1 p (rev (m_queue s b))"
      using s'(3) by (auto simp: spec_schedule_def abs_bank_def split: option.splits list.splits)
    moreover from this(1) have "p \<in> set (m_queue s b)"
      by (metis filter_is_subset list.set_intros(1) set_rev subsetD)
    ultimately show ?thesis using Some remove1_rev [OF d] by (simp add: rev_swap)
  qed
  then show ?thesis using s' by (auto simp: abs_bank_def)
qed

lemma find_bank_wf:
  "dram_wf cfg d \<Longrightarrow> 0 < nbk cfg \<Longrightarrow> \<exists>d'. find_bank time cfg is d = Some d' \<and> dram_wf cfg d'"
proof (induction "is" arbitrary: d)
  case (Cons i "is")
  note wf = dram_wfD [OF Cons.prems(1)]
  define b where "b = (i + prio d) mod nbk cfg"
  have b: "b < nbk cfg" using Cons.prems(2) by (simp add: b_def)
  show ?case
  proof (cases "mrq (bk d b)")
    case (Some x)
    then show ?thesis using Cons by (simp add: Let_def b_def [symmetric])
  next
    case None
    obtain r s where s: "schedule time (row_of d) b (curr_row (bk d b)) (frfcfs_scheduler d) = Some (r, s)"
      "sched_inv (row_of d) (nbk cfg) s" "\<forall>b'. b' \<noteq> b \<longrightarrow> m_queue s b' = m_queue (frfcfs_scheduler d) b'"
      "case r of None \<Rightarrow> m_queue s b = m_queue (frfcfs_scheduler d) b
         | Some p \<Rightarrow> p \<in> set (m_queue (frfcfs_scheduler d) b) \<and> m_queue s b = remove1 p (m_queue (frfcfs_scheduler d) b)"
      using schedule_queue [OF wf(8) b] by blast
    have row: "row_of (d\<lparr>frfcfs_scheduler := s\<rparr>) = row_of d" by (simp add: row_of_def fun_eq_iff)
    show ?thesis
    proof (cases r)
      case r: None
      then have "m_queue s = m_queue (frfcfs_scheduler d)" using s(3,4) by (auto simp: fun_eq_iff)
      then have "claims (d\<lparr>frfcfs_scheduler := s\<rparr>) = claims d" by (simp add: claims_def fun_eq_iff)
      then have "dram_wf cfg (d\<lparr>frfcfs_scheduler := s\<rparr>)" using wf s(2) row by (simp add: dram_wf_def pipes_ok_def)
      from Cons.IH [OF this Cons.prems(2)] show ?thesis using None r s(1) by (simp add: Let_def b_def [symmetric])
    next
      case r: (Some p)
      let ?d = "set_mrq b (Some p) (d\<lparr>frfcfs_scheduler := s, prio := (prio d + 1) mod nbk cfg\<rparr>)"
      have cl: "claims ?d x = (if x = b then p # remove1 p (claims d b) else claims d x)" for x
        using None s(3,4) r by (auto simp: claims_def set_mrq_def)
      have p: "p \<in> set (claims d b)" using s(4) r by (simp add: claims_def)
      have db: "distinct (claims d b)" using wf(6) b by (simp add: waits_ok_def)
      have set: "set (claims ?d x) = set (claims d x)" "x < nbk cfg \<Longrightarrow> distinct (claims ?d x)" for x
        using cl p db wf(6) by (auto simp: waits_ok_def)
      have "waits_ok (nbk cfg) (heap d) (fp_items (mrqq d)) (claims ?d)"
        using wf(6) unfolding waits_ok_def set(1) using set(2) by blast
      moreover have "row_of ?d = row_of d" by (simp add: row_of_def set_mrq_def fun_eq_iff)
      ultimately have "dram_wf cfg ?d" using wf s(2) by (simp add: dram_wf_def pipes_ok_def set_mrq_def)
      then show ?thesis using None r s(1) by (simp add: Let_def b_def [symmetric])
    qed
  qed
qed simp

lemma schedule_phase_wf:
  assumes "dram_wf cfg d" and "0 < nbk cfg"
  shows "\<exists>d'. schedule_phase time cfg d = Some d' \<and> dram_wf cfg d'"
proof -
  have "\<exists>d'. (case scheduler_type cfg of DRAM_FIFO \<Rightarrow> scheduler_fifo cfg d | DRAM_FRFCFS \<Rightarrow> scheduler_frfcfs time cfg d) = Some d'
    \<and> dram_wf cfg d'"
  proof (cases "scheduler_type cfg")
    case DRAM_FIFO
    then show ?thesis using scheduler_fifo_wf [OF assms(1)] by simp
  next
    case DRAM_FRFCFS
    obtain d1 where d1: "drain_mrqq cfg (length (m_nodes (mrqq d))) d = Some d1" "dram_wf cfg d1" using drain_wf [OF assms(1)] by blast
    then show ?thesis using find_bank_wf [OF d1(2) assms(2)] DRAM_FRFCFS by (simp add: scheduler_frfcfs_def)
  qed
  then obtain d1 where d1: "(case scheduler_type cfg of DRAM_FIFO \<Rightarrow> scheduler_fifo cfg d | DRAM_FRFCFS \<Rightarrow> scheduler_frfcfs time cfg d) = Some d1"
    "dram_wf cfg d1" by blast
  have "dram_wf cfg (d1\<lparr>max_mrqs := m, ave_mrqs := a\<rparr>)" for m a using d1(2) by (subst dram_wf_cong) simp_all
  then show ?thesis using d1(1) by (simp add: schedule_phase_def Let_def)
qed

section \<open>Commands\<close>

lemma turn_bus_ok:
  assumes "dram_wf cfg d" and "cfg_wf cfg" and "\<not> fp_full (rwq d)"
  shows "\<exists>q. turn_bus cfg wr d = Some (d\<lparr>writing := wr, rwq := q\<rparr>) \<and> fp_wf q \<and> fp_items q = fp_items (rwq d)
    \<and> m_max_len q = CL cfg + 1 \<and> m_min_len q = (if wr then WL cfg else CL cfg) \<and> \<not> fp_full q"
proof (cases "writing d = wr")
  case True
  then show ?thesis using dram_wfD(1-3) [OF assms(1)] assms(3)
    by (intro exI [of _ "rwq d"]) (auto simp: turn_bus_def)
next
  case False
  note wf = dram_wfD [OF assms(1)]
  have c: "0 < WL cfg" "WL cfg \<le> CL cfg" using assms(2) by (simp_all add: cfg_wf_def)
  have ne: "m_nodes (rwq d) \<noteq> []" using wf(1,3) c by (auto simp: fp_wf_def split: if_splits)
  have l: "m_length (rwq d) < CL cfg + 1" using wf(2) assms(3) by (simp add: fp_full_def)
  let ?n = "if wr then WL cfg else CL cfg"
  have n: "?n \<le> m_max_len (rwq d)" using wf(2) c by simp
  obtain q where q: "set_min_length ?n (rwq d) = Some q" "fp_wf q" "fp_items q = fp_items (rwq d)" "m_min_len q = ?n"
    "m_max_len q = m_max_len (rwq d)" "m_length q \<le> max (m_length (rwq d)) ?n"
    using set_min_length_ok [OF wf(1) n ne] by blast
  have "m_length q < CL cfg + 1" using q(6) l c by (auto split: if_splits)
  then show ?thesis using False q wf(2) by (intro exI [of _ q]) (simp add: turn_bus_def fp_full_def)
qed

lemma column_timers_frame [simp]:
  "heap (column_timers cfg wr j d) = heap d" "mrqq (column_timers cfg wr j d) = mrqq d" "rwq (column_timers cfg wr j d) = rwq d"
  "returnq (column_timers cfg wr j d) = returnq d" "writing (column_timers cfg wr j d) = writing d"
  "frfcfs_scheduler (column_timers cfg wr j d) = frfcfs_scheduler d" "mrq (bk (column_timers cfg wr j d) b) = mrq (bk d b)"
  by (simp_all add: column_timers_def Let_def)

lemma column_cmd_wf:
  assumes inv: "dram_wf cfg d" "cfg_wf cfg" and room: "\<not> fp_full (rwq d)"
    and j: "j < nbk cfg" "mrq (bk d j) = Some p" "heap d p = Some req"
  shows "\<exists>d'. column_cmd cfg wr j p req d = Some d' \<and> dram_wf cfg d'"
proof -
  note wf = dram_wfD [OF inv(1)]
  let ?a = "dram_atom_size cfg"
  obtain q0 where q0: "turn_bus cfg wr d = Some (d\<lparr>writing := wr, rwq := q0\<rparr>)" "fp_wf q0" "fp_items q0 = fp_items (rwq d)"
    "m_max_len q0 = CL cfg + 1" "m_min_len q0 = (if wr then WL cfg else CL cfg)" "\<not> fp_full q0"
    using turn_bus_ok [OF inv room] by blast
  obtain q where q: "fp_push (Some p) q0 = Some q" "fp_wf q" "fp_items q = fp_items (rwq d) @ [p]" "m_max_len q = CL cfg + 1"
    "m_min_len q = (if wr then WL cfg else CL cfg)"
    using push_elem [OF q0(2,6)] q0(3-5) by metis
  let ?tx = "rq_txbytes req + ?a"
  let ?h = "(heap d)(p \<mapsto> req\<lparr>rq_txbytes := ?tx\<rparr>)"
  define e where "e = column_timers cfg wr j (d\<lparr>writing := wr, rwq := q, heap := ?h\<rparr>)"
  have pj: "waiting (heap d) j p" using wf(6) j by (simp add: waits_ok_def claims_def)
  then have tx: "rq_txbytes req < rq_nbytes req" using j(3) by (simp add: waiting_def)
  have bus: "bus_ok ?a ?h (fp_items (rwq d) @ [p])"
    unfolding bus_ok_def
  proof
    fix x
    have "case heap d x of None \<Rightarrow> x \<notin> set (fp_items (rwq d)) | Some req \<Rightarrow> rq_dqbytes req < rq_nbytes req
      \<and> rq_txbytes req < rq_nbytes req + ?a \<and> rq_dqbytes req + ?a * count_list (fp_items (rwq d)) x = rq_txbytes req"
      using wf(7) unfolding bus_ok_def by blast
    then show "case ?h x of None \<Rightarrow> x \<notin> set (fp_items (rwq d) @ [p]) | Some req \<Rightarrow> rq_dqbytes req < rq_nbytes req
      \<and> rq_txbytes req < rq_nbytes req + ?a \<and> rq_dqbytes req + ?a * count_list (fp_items (rwq d) @ [p]) x = rq_txbytes req"
      using j(3) tx by (cases "x = p") (auto split: option.splits)
  qed
  have row: "row_of (f\<lparr>heap := ?h\<rparr>) = row_of d" for f using j(3) by (simp add: row_of_def fun_eq_iff)
  have row_e: "row_of e = row_of d" using j(3) by (simp add: row_of_def fun_eq_iff e_def)
  have cl_e: "claims e = claims d" by (simp add: claims_def fun_eq_iff e_def)
  have pipes: "pipes_ok cfg e" using wf(4,5) q(2,4,5) by (simp add: pipes_ok_def e_def)
  show ?thesis
  proof (cases "?tx < rq_nbytes req")
    case True
    have "waits_ok (nbk cfg) ?h (fp_items (mrqq d)) (claims d)"
      by (rule waits_cong [OF wf(6)]) (use j(3) True in \<open>auto simp: waiting_def split: if_splits\<close>)
    then have "dram_wf cfg e" using pipes bus wf(8) row_e cl_e q(3) by (simp add: dram_wf_def) (simp add: e_def q(3))
    then show ?thesis using True q0(1) q(1) by (simp add: column_cmd_def Let_def e_def)
  next
    case False
    let ?e = "set_mrq j None e"
    have cl: "claims ?e b = (if b = j then m_queue (frfcfs_scheduler d) j else claims d b)" for b
      by (simp add: claims_def set_mrq_def e_def)
    have old: "claims d j = p # m_queue (frfcfs_scheduler d) j" using j(2) by (simp add: claims_def)
    have other: "waiting ?h b x" if "waiting (heap d) b x" "x \<noteq> p" for b x using that by (simp add: waiting_def)
    have pb: "b = j" if "waiting (heap d) b p" for b using that pj by (auto simp: waiting_def split: option.splits)
    have "waits_ok (nbk cfg) ?h (fp_items (mrqq d)) (claims ?e)"
      unfolding waits_ok_def
    proof (intro conjI ballI allI impI)
      show "distinct (fp_items (mrqq d))" using wf(6) by (simp add: waits_ok_def)
      show "\<exists>b < nbk cfg. waiting ?h b x \<and> x \<notin> set (claims ?e b)" if x: "x \<in> set (fp_items (mrqq d))" for x
      proof -
        obtain b where b: "b < nbk cfg" "waiting (heap d) b x" "x \<notin> set (claims d b)" using wf(6) x by (auto simp: waits_ok_def)
        have "x \<noteq> p" using b(2,3) pb old by auto
        then show ?thesis using b other [OF b(2)] cl [of b] old by (intro exI [of _ b]) (simp split: if_splits)
      qed
      fix b assume b: "b < nbk cfg"
      have db: "distinct (claims d b)" "\<forall>x \<in> set (claims d b). waiting (heap d) b x" using wf(6) b by (simp_all add: waits_ok_def)
      show "distinct (claims ?e b)" using db(1) cl [of b] old by (simp split: if_splits)
      show "waiting ?h b x" if "x \<in> set (claims ?e b)" for x
      proof -
        have "x \<in> set (claims d b)" "x \<noteq> p" using that cl [of b] old db pb [of b] by (auto split: if_splits)
        then show ?thesis using db(2) other by blast
      qed
    qed
    moreover have "row_of ?e = row_of d" using row_e by (simp add: set_mrq_def row_of_def fun_eq_iff)
    ultimately have "dram_wf cfg ?e"
      using pipes bus wf(8) q(3) by (simp add: dram_wf_def) (simp add: pipes_ok_def set_mrq_def e_def q(3))
    then show ?thesis using False q0(1) q(1) by (simp add: column_cmd_def Let_def e_def)
  qed
qed

lemma issue_bank_wf:
  assumes inv: "dram_wf cfg d" "cfg_wf cfg"
  shows "\<exists>d' k' issued'. issue_bank cfg (d, k, issued) i = Some (d', k', issued') \<and> dram_wf cfg d'"
proof -
  define j where "j = (i + prio d) mod nbk cfg"
  have n: "0 < nbk cfg" "group_of cfg b < nbkgrp cfg" if "b < nbk cfg" for b using inv(2) that by (simp_all add: cfg_wf_def cfg_ok_def)
  have j: "j < nbk cfg" using inv(2) by (simp add: j_def cfg_wf_def cfg_ok_def)
  show ?thesis
  proof (cases "mrq (bk d j)")
    case None
    have "dram_wf cfg (d\<lparr>bk := (bk d)(j := (bk d j)\<lparr>n_idle := n_idle (bk d j) + 1\<rparr>)\<rparr>)" using inv(1) by (subst dram_wf_cong) simp_all
    then show ?thesis using None by (simp add: issue_bank_def Let_def j_def [symmetric])
  next
    case (Some p)
    obtain req where req: "heap d p = Some req"
      using dram_wfD(6) [OF inv(1)] j Some by (force simp: waits_ok_def claims_def waiting_def split: option.splits)
    have a: "dram_wf cfg (activate_cmd cfg j (rq_row req) d)"
      using inv(1) by (subst dram_wf_cong) (simp_all add: activate_cmd_def)
    have p: "dram_wf cfg (precharge_cmd cfg j d)"
      using inv(1) by (subst dram_wf_cong) (simp_all add: precharge_cmd_def)
    have g: "drop_bit (bk_tag_length cfg) j < nbkgrp cfg" using n(2) [OF j] by (simp add: group_of_def)
    show ?thesis
    proof (cases "fp_full (rwq d)")
      case True
      then show ?thesis using Some req g inv(1) a p by (simp add: issue_bank_def Let_def j_def [symmetric])
    next
      case False
      have c: "\<exists>d'. column_cmd cfg wr j p req d = Some d' \<and> dram_wf cfg d'" for wr by (rule column_cmd_wf [OF inv False j Some req])
      from c [of True] c [of False] obtain dr dw where "column_cmd cfg False j p req d = Some dr" "dram_wf cfg dr"
        "column_cmd cfg True j p req d = Some dw" "dram_wf cfg dw" by blast
      then show ?thesis using Some req g inv(1) a p by (simp add: issue_bank_def Let_def j_def [symmetric])
    qed
  qed
qed

section \<open>Operations of the channel\<close>

lemma new_dram_wf:
  assumes "cfg_wf cfg"
  shows "\<exists>d. new_dram cfg = Some d \<and> dram_wf cfg d \<and> \<not> fp_full (mrqq d) \<and> heap d = (\<lambda>_. None)"
proof -
  obtain rw :: "nat fifo_pipeline" where rw: "new_fifo_pipeline (CL cfg) (CL cfg + 1) = Some rw" "fp_wf rw" "fp_items rw = []"
    "m_min_len rw = CL cfg" "m_max_len rw = CL cfg + 1"
    using new_fifo_pipeline_ok [of "CL cfg" "CL cfg + 1"] by auto
  obtain mr :: "nat fifo_pipeline" where mr: "new_fifo_pipeline 0 2 = Some mr" "plain_pipe mr" "fp_items mr = []"
    "\<not> fp_full mr"
    using new_fifo_pipeline_ok [where 'a = nat, of 0 2] by (auto simp: plain_pipe_def fp_full_def fp_wf_def)
  obtain rt :: "nat fifo_pipeline" where rt: "new_fifo_pipeline 0 (if return_queue_size cfg = 0 then 1024 else return_queue_size cfg) = Some rt"
    "fp_wf rt"
    using new_fifo_pipeline_ok [where 'a = nat, of 0 "if return_queue_size cfg = 0 then 1024 else return_queue_size cfg"]
    by (cases "return_queue_size cfg = 0") auto
  show ?thesis
    using rw mr rt new_frfcfs_inv
    by (simp add: new_dram_def dram_wf_def pipes_ok_def waits_ok_def claims_def bus_ok_def) (simp add: new_frfcfs_def)
qed

lemma dram_push_wf:
  assumes "dram_wf cfg d" and "\<not> fp_full (mrqq d)" and fresh: "heap d p = None" and req: "rq_bk req < nbk cfg" "0 < rq_nbytes req"
  shows "\<exists>d'. dram_push p req d = Some d' \<and> dram_wf cfg d'"
proof -
  note wf = dram_wfD [OF assms(1)]
  obtain q where q: "fp_push (Some p) (mrqq d) = Some q" "plain_pipe q" "fp_items q = fp_items (mrqq d) @ [p]"
    using plain_push [OF wf(4) assms(2)] by blast
  let ?h = "(heap d)(p \<mapsto> req\<lparr>rq_txbytes := 0, rq_dqbytes := 0\<rparr>)"
  let ?d = "d\<lparr>mrqq := q, heap := ?h, n_req := n_req d + 1\<rparr>"
  have other: "waiting (heap d) b x \<Longrightarrow> waiting ?h b x \<and> x \<noteq> p" for b x using fresh by (auto simp: waiting_def)
  have cl: "claims ?d = claims d" by (simp add: claims_def fun_eq_iff)
  have np: "b < nbk cfg \<Longrightarrow> p \<notin> set (claims d b)" "p \<notin> set (fp_items (mrqq d))" for b
    using wf(6) other unfolding waits_ok_def by blast+
  have "waits_ok (nbk cfg) ?h (fp_items (mrqq d) @ [p]) (claims d)"
    unfolding waits_ok_def
  proof (intro conjI ballI allI impI)
    show "distinct (fp_items (mrqq d) @ [p])" using wf(6) np(2) by (simp add: waits_ok_def)
    show "\<exists>b < nbk cfg. waiting ?h b x \<and> x \<notin> set (claims d b)" if "x \<in> set (fp_items (mrqq d) @ [p])" for x
    proof (cases "x = p")
      case True
      then show ?thesis using req np(1) by (intro exI [of _ "rq_bk req"]) (simp add: waiting_def)
    next
      case False
      then have "x \<in> set (fp_items (mrqq d))" using that by simp
      then show ?thesis using wf(6) other unfolding waits_ok_def by blast
    qed
  qed (use wf(6) other in \<open>auto simp: waits_ok_def\<close>)
  moreover have "bus_ok (dram_atom_size cfg) ?h (fp_items (rwq d))"
    unfolding bus_ok_def
  proof
    fix x
    have "case heap d x of None \<Rightarrow> x \<notin> set (fp_items (rwq d)) | Some req \<Rightarrow> rq_dqbytes req < rq_nbytes req
      \<and> rq_txbytes req < rq_nbytes req + dram_atom_size cfg
      \<and> rq_dqbytes req + dram_atom_size cfg * count_list (fp_items (rwq d)) x = rq_txbytes req"
      using wf(7) unfolding bus_ok_def by blast
    then show "case ?h x of None \<Rightarrow> x \<notin> set (fp_items (rwq d)) | Some req \<Rightarrow> rq_dqbytes req < rq_nbytes req
      \<and> rq_txbytes req < rq_nbytes req + dram_atom_size cfg
      \<and> rq_dqbytes req + dram_atom_size cfg * count_list (fp_items (rwq d)) x = rq_txbytes req"
      using fresh req(2) by (cases "x = p") auto
  qed
  moreover have "sched_inv (row_of ?d) (nbk cfg) (frfcfs_scheduler d)"
  proof (rule sched_inv_cong [OF wf(8)])
    fix b x assume "b < nbk cfg" "x \<in> set (m_queue (frfcfs_scheduler d) b)"
    then have "x \<noteq> p" using np(1) [of b] by (auto simp: claims_def)
    then show "row_of ?d x = row_of d x" by (simp add: row_of_def)
  qed
  ultimately have "dram_wf cfg ?d" using wf(1-5) q(2,3) by (simp add: dram_wf_def pipes_ok_def cl)
  then show ?thesis using q(1) by (simp add: dram_push_def)
qed

lemma return_queue_pop_wf:
  assumes "dram_wf cfg d"
  shows "\<exists>r d'. return_queue_pop d = Some (r, d') \<and> dram_wf cfg d'"
proof -
  note wf = dram_wfD [OF assms]
  obtain r q where q: "fp_pop (returnq d) = Some (r, q)" "fp_wf q" using pop_any [OF wf(5)] by blast
  have "claims (d\<lparr>returnq := q\<rparr>) = claims d" "row_of (d\<lparr>returnq := q\<rparr>) = row_of d"
    by (simp_all add: claims_def row_of_def fun_eq_iff)
  then have "dram_wf cfg (d\<lparr>returnq := q\<rparr>)" using wf q(2) by (simp add: dram_wf_def pipes_ok_def)
  then show ?thesis using q(1) by (simp add: return_queue_pop_def)
qed

text \<open>C12. The objects of a DRAM channel are well formed after every cycle: a cycle does not fail (no assertion, no dangling
  or null pointer, no queue pushed when full), its loops end, and afterwards each request on the heap waits in at
  most one place, for the bank of its address, with byte counts that agree with the transfers under way, while a
  freed request is in no queue.\<close>

theorem dram_cycle_wf:
  assumes "dram_wf cfg d" and "cfg_wf cfg"
  shows "\<exists>d' c. dram_cycle time cfg d = Some (d', c) \<and> dram_wf cfg d'"
proof -
  have n: "0 < nbk cfg" using assms(2) by (simp add: cfg_wf_def cfg_ok_def)
  obtain d1 where d1: "return_phase cfg d = Some d1" "dram_wf cfg d1" using return_phase_wf [OF assms(1)] by blast
  obtain d2 where d2: "schedule_phase time cfg d1 = Some d2" "dram_wf cfg d2" using schedule_phase_wf [OF d1(2) n] by blast
  have "\<exists>s. foldM (issue_bank cfg) (d2, of_nat (nbk cfg), None) [0..<nbk cfg] = Some s \<and> dram_wf cfg (fst s)"
  proof (rule foldM_invariant)
    show "\<exists>s'. issue_bank cfg s i = Some s' \<and> dram_wf cfg (fst s')" if "dram_wf cfg (fst s)" for s i
      using issue_bank_wf [OF that assms(2)] by (cases s) fastforce
  qed (use d2(2) in simp)
  then obtain d3 k c where d3: "foldM (issue_bank cfg) (d2, of_nat (nbk cfg), None) [0..<nbk cfg] = Some (d3, k, c)" "dram_wf cfg d3"
    by auto
  have "dram_wf cfg (tick_phase cfg e) \<longleftrightarrow> dram_wf cfg e" for e
    by (rule dram_wf_cong) (simp_all add: tick_phase_def tick_bank_def)
  moreover have "dram_wf cfg (d3\<lparr>n_cmd := a\<rparr>)" "dram_wf cfg (d3\<lparr>n_nop := b, n_cmd := a\<rparr>)" "dram_wf cfg (d3\<lparr>n_activity := b, n_cmd := a\<rparr>)"
    "dram_wf cfg (d3\<lparr>n_nop := e, n_activity := b, n_cmd := a\<rparr>)" for a b e
    using d3(2) by (subst dram_wf_cong; simp)+
  ultimately show ?thesis using d1(1) d2(1) d3(1) by (simp add: dram_cycle_def Let_def)
qed

text \<open>A channel with two banks.\<close>

definition wf_cfg :: dram_config where
  "wf_cfg = \<lparr>scheduler_type = DRAM_FRFCFS, frfcfs_queue_size = 4, return_queue_size = 4, nbk = 2, nbkgrp = 1, bk_tag_length = 1,
     dram_atom_size = 32, burst_cycles = 2, CL = 3, WL = 2, tCCD = 2, tRRD = 2, tRCD = 3, tRCDWR = 2, tRAS = 5, tRP = 3,
     tRC = 8, tWTR = 2, tRTW = 3, tCCDL = 3, tRTPL = 2, tWTP = 4\<rparr>"

lemma wf_cfg_ok: "cfg_wf wf_cfg"
  by (auto simp: cfg_wf_def cfg_ok_def wf_cfg_def group_of_def drop_bit_Suc less_2_cases_iff)

definition wf_req :: dram_req where
  "wf_req = \<lparr>rq_row = 3, rq_bk = 1, rq_nbytes = 64, rq_txbytes = 0, rq_dqbytes = 0, rq_write = False, rq_wrbk = False\<rparr>"

theorem dram_cycle_wf_witness:
  "\<exists>d1 d2 d3 c. new_dram wf_cfg = Some d1 \<and> dram_push 9 wf_req d1 = Some d2 \<and> dram_cycle 7 wf_cfg d2 = Some (d3, c) \<and> dram_wf wf_cfg d3"
proof -
  obtain d1 where d1: "new_dram wf_cfg = Some d1" "dram_wf wf_cfg d1" "\<not> fp_full (mrqq d1)" "heap d1 = (\<lambda>_. None)"
    using new_dram_wf [OF wf_cfg_ok] by blast
  obtain d2 where d2: "dram_push 9 wf_req d1 = Some d2" "dram_wf wf_cfg d2"
    using dram_push_wf [OF d1(2,3), of 9 wf_req] d1(4) by (auto simp: wf_req_def wf_cfg_def)
  from dram_cycle_wf [OF d2(2) wf_cfg_ok, of 7] d1(1) d2(1) show ?thesis by blast
qed

end
