(* ===== verification/Dram_Config.thy ===== *)
theory Dram_Config
  imports Dram
begin

text \<open>
  How \<open>memory_config::init\<close> of \<open>gpgpu-sim/gpu-sim.h\<close> turns the options of the DRAM into the configuration that
  \<open>dram_t\<close> reads: the bits of a bank number inside its group, and the timing that follows from the
  latencies. The numbers are 32 bit words, as they are read, so differences can wrap around. Reading the options
  out of their string is left out; the address mapping is modelled in its own theory.
\<close>

record dram_options =
  o_scheduler_type :: dram_ctrl_t
  o_frfcfs_queue_size :: u32
  o_return_queue_size :: u32
  o_nbk :: u32
  o_tCCD :: u32
  o_tRRD :: u32
  o_tRCD :: u32
  o_tRAS :: u32
  o_tRP :: u32
  o_tRC :: u32
  o_CL :: u32
  o_WL :: u32
  o_tCDLR :: u32
  o_tWR :: u32
  o_nbkgrp :: u32
  o_tCCDL :: u32
  o_tRTPL :: u32
  o_BL :: u32
  o_busW :: u32
  o_n_mem_per_ctrlr :: u32
  o_freq_ratio :: u32
  o_sub_partitions :: u32

text \<open>The loop that counts the bits; its variable is a signed integer.\<close>

fun tag_bits :: "nat \<Rightarrow> nat" where
  "tag_bits nbkt = (if nbkt > 0 then Suc (tag_bits (nbkt div 2)) else 0)"

declare tag_bits.simps [simp del]

definition bank_tag_length :: "u32 \<Rightarrow> u32 \<Rightarrow> nat" where
  "bank_tag_length n g = (let nbkt = sint (n div g) in if nbkt > 0 then tag_bits (nat nbkt) else 0)"

text \<open>A division by zero ends the program as a failed assertion does.\<close>

definition init_memory_config :: "dram_options \<Rightarrow> dram_config option" where
  "init_memory_config o1 = do {
     _ \<leftarrow> assert_c (o_nbkgrp o1 \<noteq> 0);
     _ \<leftarrow> assert_c (o_freq_ratio o1 \<noteq> 0);
     let burst = o_BL o1 div o_freq_ratio o1;
     _ \<leftarrow> assert_c (o_sub_partitions o1 > 0);
     _ \<leftarrow> assert_c (o_nbk o1 mod o_sub_partitions o1 = 0);
     Some \<lparr>scheduler_type = o_scheduler_type o1, frfcfs_queue_size = unat (o_frfcfs_queue_size o1),
       return_queue_size = unat (o_return_queue_size o1), nbk = unat (o_nbk o1), nbkgrp = unat (o_nbkgrp o1),
       bk_tag_length = bank_tag_length (o_nbk o1) (o_nbkgrp o1),
       dram_atom_size = unat (o_BL o1 * o_busW o1 * o_n_mem_per_ctrlr o1), burst_cycles = unat burst,
       CL = unat (o_CL o1), WL = unat (o_WL o1), tCCD = unat (o_tCCD o1), tRRD = unat (o_tRRD o1), tRCD = unat (o_tRCD o1),
       tRCDWR = unat (o_tRCD o1 - (o_WL o1 + 1)), tRAS = unat (o_tRAS o1), tRP = unat (o_tRP o1), tRC = unat (o_tRC o1),
       tWTR = unat (o_WL o1 + burst + o_tCDLR o1), tRTW = unat (o_CL o1 + burst + 2 - o_WL o1), tCCDL = unat (o_tCCDL o1),
       tRTPL = unat (o_tRTPL o1), tWTP = unat (o_WL o1 + burst + o_tWR o1)\<rparr> }"

section \<open>Properties\<close>

lemma tag_bits_bound: "n < 2 ^ tag_bits n"
proof (induction n rule: tag_bits.induct)
  case (1 n)
  show ?case
  proof (cases "n > 0")
    case True
    then have "n div 2 < 2 ^ tag_bits (n div 2)" using 1 by simp
    then have "n < 2 * 2 ^ tag_bits (n div 2)" by linarith
    then show ?thesis using True by (subst tag_bits.simps) simp
  qed (subst tag_bits.simps, simp)
qed

lemma bank_tag_length_nat: "unat n < 2 ^ 31 \<Longrightarrow> bank_tag_length n g = tag_bits (unat n div unat g)"
proof -
  assume b: "unat n < 2 ^ 31"
  have u: "unat (n div g) = unat n div unat g" by (rule unat_div_distrib)
  have "unat (n div g) < 2 ^ 31" using b u div_le_dividend [of "unat n" "unat g"] by linarith
  then have "int (unat (n div g)) < int (2 ^ 31)" by (simp only: of_nat_less_iff)
  then have "int (unat (n div g)) < 2 ^ 31" by (simp only: of_nat_power of_nat_numeral)
  then have "sint (n div g) = int (unat (n div g))"
    using signed_take_bit_int_eq_self [of 31 "int (unat (n div g))"] order_trans [OF _ uint_ge_0, of "- 2147483648" "n div g"]
    by (simp add: sint_uint)
  then show ?thesis by (simp add: bank_tag_length_def u tag_bits.simps)
qed

text \<open>What \<open>init\<close> derives: every bank has a group, and the turns of the bus and the delay of a write are the
  differences of the latencies where these do not wrap around.\<close>

theorem init_memory_config_ok:
  assumes "init_memory_config opt = Some cfg" and "0 < unat (o_nbk opt)" and "unat (o_nbk opt) < 2 ^ 31"
  shows "cfg_ok cfg \<and> (o_WL opt < o_tRCD opt \<longrightarrow> tRCDWR cfg + WL cfg + 1 = tRCD cfg)
    \<and> (WL cfg \<le> CL cfg \<and> CL cfg + burst_cycles cfg + 2 < 2 ^ 32 \<longrightarrow> tRTW cfg + WL cfg = CL cfg + burst_cycles cfg + 2)"
proof -
  let ?n = "unat (o_nbk opt)" and ?g = "unat (o_nbkgrp opt)"
  have cfg: "nbk cfg = ?n" "nbkgrp cfg = ?g" "bk_tag_length cfg = tag_bits (?n div ?g)" "CL cfg = unat (o_CL opt)"
    "WL cfg = unat (o_WL opt)" "tRCD cfg = unat (o_tRCD opt)" "tRCDWR cfg = unat (o_tRCD opt - (o_WL opt + 1))"
    "burst_cycles cfg = unat (o_BL opt div o_freq_ratio opt)"
    "tRTW cfg = unat (o_CL opt + o_BL opt div o_freq_ratio opt + 2 - o_WL opt)" and g: "?g \<noteq> 0"
    using assms(1) bank_tag_length_nat [OF assms(3)]
    by (auto simp: init_memory_config_def Let_def bind_eq_Some_conv unat_eq_0)
  have "group_of cfg j < nbkgrp cfg" if "j < nbk cfg" for j
  proof -
    have "?n div ?g < 2 ^ tag_bits (?n div ?g)" by (rule tag_bits_bound)
    then have "?n < ?g * 2 ^ tag_bits (?n div ?g)"
      using g by (metis div_less_iff_less_mult mult.commute neq0_conv)
    then have "j < ?g * 2 ^ tag_bits (?n div ?g)" using that cfg(1) by simp
    then show ?thesis unfolding group_of_def cfg(2,3) drop_bit_eq_div by (simp add: div_less_iff_less_mult)
  qed
  then have 1: "cfg_ok cfg" using assms(2) cfg(1) by (simp add: cfg_ok_def)
  have 2: "tRCDWR cfg + WL cfg + 1 = tRCD cfg" if w: "o_WL opt < o_tRCD opt"
  proof -
    have "unat (o_WL opt) < unat (o_tRCD opt)" using w by (simp add: word_less_nat_alt)
    moreover from this have "Suc (unat (o_WL opt)) < 4294967296" using unat_u32_less [of "o_tRCD opt"] by linarith
    then have "unat (o_WL opt + 1) = unat (o_WL opt) + 1"
      using w unsigned_less [of "o_tRCD opt", where 'a = nat] by (simp add: word_less_nat_alt unat_word_ariths)
    moreover note this
    ultimately have "unat (o_tRCD opt - (o_WL opt + 1)) = unat (o_tRCD opt) - (unat (o_WL opt) + 1)"
      by (metis Suc_eq_plus1 Suc_leI unat_sub word_le_nat_alt)
    then show ?thesis using \<open>unat (o_WL opt) < _\<close> cfg by simp
  qed
  have 3: "tRTW cfg + WL cfg = CL cfg + burst_cycles cfg + 2"
    if a: "WL cfg \<le> CL cfg" "CL cfg + burst_cycles cfg + 2 < 2 ^ 32"
  proof -
    let ?b = "o_BL opt div o_freq_ratio opt"
    have "unat (o_CL opt + ?b) = unat (o_CL opt) + unat ?b" using a(2) cfg by (intro unat_add_lem [THEN iffD1]) simp
    moreover from this have "unat (o_CL opt + ?b + 2) = unat (o_CL opt) + unat ?b + 2"
      using a(2) cfg unat_add_lem [THEN iffD1, of "o_CL opt + ?b" 2] by simp
    ultimately show ?thesis using a(1) cfg by (simp add: unat_sub word_le_nat_alt)
  qed
  show ?thesis using 1 2 3 by blast
qed

text \<open>The count of bits is one more than a group of a power of two banks needs, so the groups are twice too large: the
  first bank that should be in the second group is still in the first.\<close>

theorem second_group_starts_late:
  assumes "init_memory_config opt = Some cfg" and "unat (o_nbk opt) < 2 ^ 31"
  shows "group_of cfg (nbk cfg div nbkgrp cfg) = 0"
proof -
  have "nbk cfg = unat (o_nbk opt)" "nbkgrp cfg = unat (o_nbkgrp opt)"
    "bk_tag_length cfg = tag_bits (unat (o_nbk opt) div unat (o_nbkgrp opt))"
    using assms(1) bank_tag_length_nat [OF assms(2)] by (auto simp: init_memory_config_def Let_def bind_eq_Some_conv)
  then show ?thesis using tag_bits_bound [of "nbk cfg div nbkgrp cfg"] by (simp add: group_of_def drop_bit_eq_div)
qed

text \<open>Sixteen banks in four groups, as in GDDR5: bank 4 is in group 0, and groups 2 and 3 are empty.\<close>

definition sample_options :: dram_options where
  "sample_options = \<lparr>o_scheduler_type = DRAM_FRFCFS, o_frfcfs_queue_size = 16, o_return_queue_size = 116, o_nbk = 16, o_tCCD = 2,
     o_tRRD = 6, o_tRCD = 12, o_tRAS = 28, o_tRP = 12, o_tRC = 40, o_CL = 12, o_WL = 4, o_tCDLR = 5, o_tWR = 12,
     o_nbkgrp = 4, o_tCCDL = 3, o_tRTPL = 2, o_BL = 8, o_busW = 4, o_n_mem_per_ctrlr = 2, o_freq_ratio = 4, o_sub_partitions = 2\<rparr>"

lemma sample_options_cfg: "\<exists>cfg. init_memory_config sample_options = Some cfg"
  by (simp add: init_memory_config_def sample_options_def Let_def)

theorem init_memory_config_ok_witness:
  "\<exists>cfg. init_memory_config sample_options = Some cfg \<and> cfg_ok cfg \<and> tRCDWR cfg + 5 = 12"
proof -
  obtain cfg where c: "init_memory_config sample_options = Some cfg" using sample_options_cfg by blast
  have f: "o_nbk sample_options = 16" "o_WL sample_options < o_tRCD sample_options" "WL cfg = 4" "tRCD cfg = 12"
    using c by (auto simp: init_memory_config_def sample_options_def Let_def bind_eq_Some_conv)
  have "cfg_ok cfg" "tRCDWR cfg + 5 = 12" using init_memory_config_ok [OF c] f by simp_all
  then show ?thesis using c by blast
qed

theorem sample_groups:
  "\<exists>cfg. init_memory_config sample_options = Some cfg \<and> group_of cfg 4 = 0 \<and> (\<forall>j < 16. group_of cfg j < 2)"
proof -
  obtain cfg where c: "init_memory_config sample_options = Some cfg" using sample_options_cfg by blast
  have "bk_tag_length cfg = tag_bits 4"
    using c bank_tag_length_nat [of 16 4] by (auto simp: init_memory_config_def sample_options_def Let_def bind_eq_Some_conv)
  also have "tag_bits 4 = 3" by (simp add: tag_bits.simps)
  finally have "group_of cfg j = j div 8" for j by (simp add: group_of_def drop_bit_eq_div)
  then show ?thesis using c by auto
qed

end
