(* ===== verification/Addr_Dec.thy ===== *)
theory Addr_Dec
  imports Tag_Array
begin

text \<open>
  The address decoder, class \<open>linear_to_raw_address_translation\<close> of \<open>gpgpu-sim/addrdec.cc\<close>: it splits an address into
  the memory channel, the bank, row and column and into the memory partition and the address inside that
  partition. A part of an address is what a bit mask selects, packed. The arrays indexed by the parts are
  functions; an undefined shift of the source is a failure of the model.
\<close>

section \<open>State\<close>

datatype addr_part = CHIP | BK | ROW | COL | BURST

record addrdec_t =
  ad_chip :: u32
  ad_bk :: u32
  ad_row :: u32
  ad_col :: u32
  ad_burst :: u32
  ad_sub_partition :: u32

record translation =
  addrdec_option :: "string option"
  gpgpu_mem_address_mask :: int
  ADDR_CHIP_S :: int
  addrdec_mklow :: "addr_part \<Rightarrow> nat"
  addrdec_mkhigh :: "addr_part \<Rightarrow> nat"
  addrdec_mask :: "addr_part \<Rightarrow> u64"
  sub_partition_id_mask :: u64
  gap :: u32
  m_n_channel :: u32
  m_n_sub_partition_in_channel :: u32

definition new_translation :: "string option \<Rightarrow> int \<Rightarrow> translation" where
  "new_translation opt m = \<lparr>addrdec_option = opt, gpgpu_mem_address_mask = m, ADDR_CHIP_S = 10,
     addrdec_mklow = (\<lambda>_. 0), addrdec_mkhigh = (\<lambda>_. 64),
     addrdec_mask = (\<lambda>p. case p of CHIP \<Rightarrow> 0x1C00 | BK \<Rightarrow> 0x300 | ROW \<Rightarrow> 0xFFF0000 | COL \<Rightarrow> 0xE0FF | BURST \<Rightarrow> 0xF),
     sub_partition_id_mask = 0, gap = 0, m_n_channel = 0, m_n_sub_partition_in_channel = 0\<rparr>"

section \<open>Helpers\<close>

fun powli :: "int \<Rightarrow> nat \<Rightarrow> int" where
  "powli x 0 = 1"
| "powli x (Suc y) = powli x y * x"

definition LOGB2_32 :: "u32 \<Rightarrow> u32" where
  "LOGB2_32 v = snd (logb2_step 0x2 0 (logb2_step 0xC 1 (logb2_step 0xF0 2
     (logb2_step 0xFF00 3 (logb2_step 0xFFFF0000 4 (v, 0))))))"

definition pack_step :: "u64 \<Rightarrow> u64 \<Rightarrow> u64 \<times> nat \<Rightarrow> nat \<Rightarrow> u64 \<times> nat" where
  "pack_step msk val = (\<lambda>(result, pos) i.
     if msk AND push_bit i 1 \<noteq> 0 then (result OR push_bit pos (drop_bit i (val AND push_bit i 1)), pos + 1) else (result, pos))"

definition addrdec_packbits :: "u64 \<Rightarrow> u64 \<Rightarrow> nat \<Rightarrow> nat \<Rightarrow> u64" where
  "addrdec_packbits msk val high low = fst (foldl (pack_step msk val) (0, 0) [low..<high])"

definition limit_step :: "u64 \<Rightarrow> nat \<times> nat \<times> bool \<Rightarrow> nat \<Rightarrow> nat \<times> nat \<times> bool" where
  "limit_step msk = (\<lambda>(high, low, low_found) i.
     if msk AND push_bit i 1 \<noteq> 0 then if low_found then (i + 1, low, low_found) else (i + 1, i, True) else (high, low, low_found))"

definition addrdec_getmasklimit :: "u64 \<Rightarrow> nat \<times> nat" where
  "addrdec_getmasklimit msk = (let (high, low, low_found) = foldl (limit_step msk) (64, 0, False) [0..<64] in (high, low))"

section \<open>Decoding\<close>

definition get_part :: "translation \<Rightarrow> addr_part \<Rightarrow> u64 \<Rightarrow> u64" where
  "get_part t p a = addrdec_packbits (addrdec_mask t p) a (addrdec_mkhigh t p) (addrdec_mklow t p)"

text \<open>The address without its channel, when the number of channels is no power of two. The lower part is
  \<open>(1 << ADDR_CHIP_S) - 1\<close> of an \<open>int\<close>.\<close>

definition rest_of_addr :: "translation \<Rightarrow> u64 \<Rightarrow> u64" where
  "rest_of_addr t a = push_bit (nat (ADDR_CHIP_S t)) (drop_bit (nat (ADDR_CHIP_S t)) a div ucast (m_n_channel t))
     OR (a AND (2 ^ nat (ADDR_CHIP_S t) - 1))"

definition partition_address :: "translation \<Rightarrow> u64 \<Rightarrow> u64" where
  "partition_address t a =
     (if gap t = 0 then addrdec_packbits (NOT (addrdec_mask t CHIP OR sub_partition_id_mask t)) a 64 0
      else addrdec_packbits (NOT (sub_partition_id_mask t)) (rest_of_addr t a) 64 0)"

definition addrdec_tlx :: "translation \<Rightarrow> u64 \<Rightarrow> addrdec_t" where
  "addrdec_tlx t a =
     (let chip = (if gap t = 0 then get_part t CHIP a else drop_bit (nat (ADDR_CHIP_S t)) a mod ucast (m_n_channel t));
          r = (if gap t = 0 then a else rest_of_addr t a);
          bk = ucast (get_part t BK r) :: u32
      in \<lparr>ad_chip = ucast chip, ad_bk = bk, ad_row = ucast (get_part t ROW r), ad_col = ucast (get_part t COL r),
          ad_burst = ucast (get_part t BURST r),
          ad_sub_partition = ucast chip * m_n_sub_partition_in_channel t + (bk AND (m_n_sub_partition_in_channel t - 1))\<rparr>)"

text \<open>The order and the hash of the test table.\<close>

definition addrdec_less :: "addrdec_t \<Rightarrow> addrdec_t \<Rightarrow> bool" where
  "addrdec_less x y = (if ad_chip x \<ge> ad_chip y then False else if ad_bk x \<ge> ad_bk y then False else if ad_row x \<ge> ad_row y then False
     else if ad_col x \<ge> ad_col y then False else if ad_burst x \<ge> ad_burst y then False else True)"

definition hash_addrdec :: "addrdec_t \<Rightarrow> u32" where
  "hash_addrdec x = ad_chip x XOR ad_bk x XOR ad_row x XOR ad_col x XOR ad_burst x"

section \<open>Initialisation\<close>

text \<open>\<open>sscanf (option, "dramid@%d", ...)\<close>: after the literal text an integer, with white space before it.\<close>

definition scan_digits :: "string \<Rightarrow> nat option" where
  "scan_digits s = (let ds = takeWhile (\<lambda>c. 48 \<le> (of_char c :: nat) \<and> of_char c \<le> (57 :: nat)) s
     in if ds = [] then None else Some (foldl (\<lambda>n c. 10 * n + (of_char c - 48)) 0 ds))"

definition scan_int :: "string \<Rightarrow> int option" where
  "scan_int s = (case dropWhile (\<lambda>c. c \<in> {CHR '' '', CHR 0x09, CHR 0x0A, CHR 0x0B, CHR 0x0C, CHR 0x0D}) s of
     [] \<Rightarrow> None
   | c # cs \<Rightarrow> if c = CHR ''-'' then map_option (\<lambda>n. - int n) (scan_digits cs)
       else if c = CHR ''+'' then map_option int (scan_digits cs) else map_option int (scan_digits (c # cs)))"

definition scan_dramid :: "string \<Rightarrow> int option" where
  "scan_dramid s = (if take 7 s = ''dramid@'' then scan_int (drop 7 s) else None)"

text \<open>The parts a letter of the map puts its bit in; other characters are skipped, invalid ones with a message.\<close>

definition letter_parts :: "char \<Rightarrow> addr_part list option" where
  "letter_parts c =
     (if c \<in> set ''Dd'' then Some [CHIP] else if c \<in> set ''Bb'' then Some [BK] else if c \<in> set ''Rr'' then Some [ROW]
      else if c \<in> set ''Cc'' then Some [COL] else if c \<in> set ''Ss'' then Some [BURST, COL] else if c = CHR ''0'' then Some []
      else None)"

text \<open>\<open>ofs\<close> is the bit that a letter stands for; a negative shift is undefined.\<close>

definition map_char :: "bool \<Rightarrow> (addr_part \<Rightarrow> u64) \<times> int \<Rightarrow> char \<Rightarrow> ((addr_part \<Rightarrow> u64) \<times> int) option" where
  "map_char dramid_parsed = (\<lambda>(masks, ofs) c.
     case letter_parts c of
       None \<Rightarrow> Some (masks, ofs)
     | Some ps \<Rightarrow> do {
         _ \<leftarrow> assert_c (CHIP \<in> set ps \<longrightarrow> \<not> dramid_parsed);
         _ \<leftarrow> assert_c (ps \<noteq> [] \<longrightarrow> ofs \<ge> 0);
         Some (foldl (\<lambda>masks p. masks(p := masks p OR push_bit (nat ofs) 1)) masks ps, ofs - 1) })"

definition addrdec_parseoption :: "string \<Rightarrow> translation \<Rightarrow> translation option" where
  "addrdec_parseoption option t = do {
     let dramid = scan_dramid option;
     let cmapping = (if CHR '';'' \<in> set option then tl (dropWhile (\<lambda>c. c \<noteq> CHR '';'') option) else option);
     (msk, ofs) \<leftarrow> foldM (map_char (dramid \<noteq> None)) (\<lambda>_. 0, 63) cmapping;
     _ \<leftarrow> assert_c (ofs = -1);
     Some (t\<lparr>ADDR_CHIP_S := (case dramid of Some s \<Rightarrow> s | None \<Rightarrow> -1), addrdec_mask := msk\<rparr>) }"

text \<open>The masks built in: where the channel bits go in, and the masks of bank, row and column.\<close>

definition mask_table :: "int \<Rightarrow> (int \<times> u64 \<times> u64 \<times> u64) option" where
  "mask_table m =
     (if m = 0 then Some (10, 0x300, 0x7FFE000, 0x1CFF)
      else if m = 1 then Some (13, 0x1800, 0x7FFE000, 0x7FF)
      else if m = 2 then Some (11, 0x1800, 0x7FFE000, 0x7FF)
      else if m = 3 then Some (11, 0x1800, 0xFFFE000, 0x7FF)
      else if m = 14 then Some (14, 0x1800, 0x7FFE000, 0x7FF)
      else if m = 15 then Some (15, 0x1800, 0x7FFE000, 0x7FF)
      else if m = 16 then Some (16, 0x1800, 0x7FFE000, 0x7FF)
      else if m = 6 then Some (6, 0x1800, 0x7FFE000, 0x7FF)
      else if m = 5 then Some (5, 0x1800, 0x7FFE000, 0x7FF)
      else if m = 100 then Some (1, 3, 0x7FFE000, 0x1FFC)
      else if m = 103 then Some (3, 3, 0x7FFE000, 0x1FFC)
      else if m = 106 then Some (6, 0x1800, 0x7FFE000, 0x7FF)
      else if m = 160 then Some (6, 0x300, 0x7FFE000, 0x1CFF)
      else None)"

definition insert_chip :: "nat \<Rightarrow> nat \<Rightarrow> (addr_part \<Rightarrow> u64) \<Rightarrow> addr_part \<Rightarrow> u64" where
  "insert_chip s nchipbits masks =
     (let low = push_bit s 1 - 1;
          up = (\<lambda>m. push_bit nchipbits (m AND NOT low) OR (m AND low))
      in masks(BK := up (masks BK), ROW := up (masks ROW), COL := up (masks COL),
               CHIP := foldl (\<lambda>m i. m OR push_bit i 1) (masks CHIP) [s..<s + nchipbits]))"

fun sub_mask_loop :: "u64 \<Rightarrow> nat \<Rightarrow> nat \<Rightarrow> u64 \<Rightarrow> nat list \<Rightarrow> u64" where
  "sub_mask_loop msk n pos sub [] = sub"
| "sub_mask_loop msk n pos sub (i # is) =
     (if msk AND push_bit i 1 \<noteq> 0
      then if pos + 1 \<ge> n then sub OR push_bit i 1 else sub_mask_loop msk n (pos + 1) (sub OR push_bit i 1) is
      else sub_mask_loop msk n pos sub is)"

text \<open>The steps of \<open>init\<close>: the numbers of channels, the built in masks, the place of the channel bits, the limits of
  the masks and the mask of the bits that make up the number of the sub partition.\<close>

definition set_channels :: "u32 \<Rightarrow> u32 \<Rightarrow> translation \<Rightarrow> translation" where
  "set_channels n_channel n_sub t = t\<lparr>m_n_channel := n_channel, m_n_sub_partition_in_channel := n_sub,
     gap := word_of_int (int (unat n_channel) - powli 2 (unat (LOGB2_32 n_channel)))\<rparr>"

definition pick_masks :: "translation \<Rightarrow> translation" where
  "pick_masks t = (case mask_table (gpgpu_mem_address_mask t) of
       None \<Rightarrow> t
     | Some (s, b, r, c) \<Rightarrow> t\<lparr>ADDR_CHIP_S := s, addrdec_mask := (addrdec_mask t)(CHIP := 0, BK := b, ROW := r, COL := c)\<rparr>)"

definition place_chip :: "translation \<Rightarrow> translation option" where
  "place_chip t =
     (let nchipbits = unat (LOGB2_32 (m_n_channel t)) + (if gap t \<noteq> 0 then 1 else 0)
      in if ADDR_CHIP_S t \<noteq> -1 then
           (if gap t = 0 then do {
              _ \<leftarrow> assert_c (0 \<le> ADDR_CHIP_S t \<and> nat (ADDR_CHIP_S t) + nchipbits \<le> 64 \<and> ADDR_CHIP_S t < 64);
              Some (t\<lparr>addrdec_mask := insert_chip (nat (ADDR_CHIP_S t)) nchipbits (addrdec_mask t)\<rparr>) }
            else Some t)
         else do { _ \<leftarrow> assert_c (m_n_channel t AND (m_n_channel t - 1) = 0); Some t })"

definition set_limits :: "translation \<Rightarrow> translation" where
  "set_limits t = t\<lparr>addrdec_mkhigh := (\<lambda>p. fst (addrdec_getmasklimit (addrdec_mask t p))),
     addrdec_mklow := (\<lambda>p. snd (addrdec_getmasklimit (addrdec_mask t p)))\<rparr>"

definition set_sub_mask :: "translation \<Rightarrow> translation" where
  "set_sub_mask t = t\<lparr>sub_partition_id_mask :=
     (if m_n_sub_partition_in_channel t > 1
      then sub_mask_loop (addrdec_mask t BK) (unat (LOGB2_32 (m_n_sub_partition_in_channel t))) 0 0
        [addrdec_mklow t BK..<addrdec_mkhigh t BK]
      else 0)\<rparr>"

definition init :: "u32 \<Rightarrow> u32 \<Rightarrow> translation \<Rightarrow> translation option" where
  "init n_channel n_sub t = do {
     let t = pick_masks (set_channels n_channel n_sub t);
     t \<leftarrow> (case addrdec_option t of None \<Rightarrow> Some t | Some opt \<Rightarrow> addrdec_parseoption opt t);
     t \<leftarrow> place_chip t;
     _ \<leftarrow> assert_c (n_sub AND (n_sub - 1) = 0);
     Some (set_sub_mask (set_limits t)) }"

section \<open>Packing the bits of a mask\<close>

lemma and_exp_zero_iff: "m AND 2 ^ i = 0 \<longleftrightarrow> \<not> bit m i" for m :: "'a :: len word"
  using and_exp_eq_0_iff_not_bit [of m i] .

lemma and_bit_zero_iff: "m AND push_bit i 1 = 0 \<longleftrightarrow> \<not> bit m i" for m :: "'a :: len word"
  by (simp add: and_exp_zero_iff)

lemmas bit_tests = and_bit_zero_iff and_exp_zero_iff

text \<open>The bits a mask selects, the lowest first.\<close>

definition sel :: "u64 \<Rightarrow> nat list" where
  "sel m = filter (bit m) [0..<64]"

lemma sel_set: "i \<in> set (sel m) \<longleftrightarrow> bit m i"
  using bit_imp_le_length [of m i] by (auto simp: sel_def)

lemma pack_bit_at:
  assumes "i < 64" and "pos < 64"
  shows "bit (push_bit pos (drop_bit i (v AND push_bit i 1)) :: u64) k \<longleftrightarrow> k = pos \<and> bit v i"
  using assms by (auto simp: bit_simps)

lemma pack_fold:
  "h \<le> 64 \<Longrightarrow> foldl (pack_step m v) (0, 0) [l..<h] = (r, pos) \<Longrightarrow>
    pos = length (filter (bit m) [l..<h]) \<and> (\<forall>k. bit r k \<longleftrightarrow> k < pos \<and> bit v (filter (bit m) [l..<h] ! k))"
proof (induction h arbitrary: r pos)
  case 0
  then show ?case by simp
next
  case (Suc h)
  show ?case
  proof (cases "l \<le> h")
    case False
    then show ?thesis using Suc.prems by simp
  next
    case True
    obtain r1 p1 where f: "foldl (pack_step m v) (0, 0) [l..<h] = (r1, p1)" by (meson surj_pair)
    let ?L = "filter (bit m) [l..<h]"
    have IH: "p1 = length ?L" "\<And>k. bit r1 k \<longleftrightarrow> k < p1 \<and> bit v (?L ! k)"
      using Suc.IH [OF _ f] Suc.prems(1) by simp_all
    have p: "p1 < 64" using Suc.prems(1) length_filter_le [of "bit m" "[l..<h]"] IH(1) by simp
    show ?thesis
    proof (cases "bit m h")
      case False
      then show ?thesis using Suc.prems(2) f IH True by (simp add: pack_step_def bit_tests)
    next
      case b: True
      then have r: "r = r1 OR push_bit p1 (drop_bit h (v AND push_bit h 1))" "pos = Suc p1"
        using Suc.prems(2) f True by (simp_all add: pack_step_def bit_tests)
      have L: "filter (bit m) [l..<Suc h] = ?L @ [h]" using b True by simp
      have "bit r k \<longleftrightarrow> k < pos \<and> bit v ((?L @ [h]) ! k)" for k
      proof -
        have "bit r k \<longleftrightarrow> bit r1 k \<or> k = p1 \<and> bit v h"
          using pack_bit_at [OF _ p, of h v k] Suc.prems(1) unfolding r(1) bit_or_iff by simp
        then show ?thesis using IH(1) IH(2) [of k] r(2) by (cases "k < p1"; cases "k = p1") (simp_all add: nth_append)
      qed
      then show ?thesis unfolding L using IH(1) r(2) by simp
    qed
  qed
qed

lemma limit_fold:
  "foldl (limit_step m) (64, 0, False) [0..<n] = (high, low, found) \<Longrightarrow> n \<le> 64 \<Longrightarrow>
    (found \<longrightarrow> bit m low \<and> low < high \<and> high \<le> n \<and> (\<forall>i < n. bit m i \<longrightarrow> low \<le> i \<and> i < high))
    \<and> (\<not> found \<longrightarrow> high = 64 \<and> low = 0 \<and> (\<forall>i < n. \<not> bit m i))"
proof (induction n arbitrary: high low found)
  case (Suc n)
  obtain h l f where f: "foldl (limit_step m) (64, 0, False) [0..<n] = (h, l, f)" by (rule prod_cases3)
  have IH: "(f \<longrightarrow> bit m l \<and> l < h \<and> h \<le> n \<and> (\<forall>i < n. bit m i \<longrightarrow> l \<le> i \<and> i < h))
      \<and> (\<not> f \<longrightarrow> h = 64 \<and> l = 0 \<and> (\<forall>i < n. \<not> bit m i))"
    using Suc.IH [OF f] Suc.prems(2) by simp
  have e: "(high, low, found) = limit_step m (h, l, f) n" using Suc.prems(1) f by simp
  show ?case
    using IH e by (cases "bit m n"; cases f) (auto simp: limit_step_def bit_tests less_Suc_eq)
qed simp

lemma limits_select:
  assumes "addrdec_getmasklimit m = (high, low)"
  shows "high \<le> 64 \<and> filter (bit m) [low..<high] = sel m"
proof -
  obtain found where f: "foldl (limit_step m) (64, 0, False) [0..<64] = (high, low, found)"
    using assms unfolding addrdec_getmasklimit_def by (auto simp del: foldl.simps upt.simps split: prod.splits)
  from limit_fold [OF f] have c: "(found \<longrightarrow> bit m low \<and> low < high \<and> high \<le> 64 \<and> (\<forall>i < 64. bit m i \<longrightarrow> low \<le> i \<and> i < high))
    \<and> (\<not> found \<longrightarrow> high = 64 \<and> low = 0)" by simp
  show ?thesis
  proof (cases found)
    case True
    then have b: "low < high" "high \<le> 64" "\<And>i. i < 64 \<Longrightarrow> bit m i \<Longrightarrow> low \<le> i \<and> i < high" using c by auto
    have "[0..<64] = [0..<low] @ [low..<high] @ [high..<64]"
      using b(1,2) upt_add_eq_append [of 0 low "64 - low"] upt_add_eq_append [of low high "64 - high"] by simp
    moreover have "\<not> bit m i" if "i < low" for i using b(1,2) b(3) [of i] that by auto
    moreover have "\<not> bit m i" if "i < 64" "high \<le> i" for i using b(3) [of i] that by auto
    ultimately have "sel m = filter (bit m) [low..<high]" unfolding sel_def by (simp del: upt.simps add: filter_empty_conv)
    then show ?thesis using b(2) by simp
  next
    case False
    then show ?thesis using c by (simp add: sel_def)
  qed
qed

lemma packbits_bit:
  assumes "h \<le> 64" and "filter (bit m) [l..<h] = sel m"
  shows "bit (addrdec_packbits m v h l) k \<longleftrightarrow> k < length (sel m) \<and> bit v (sel m ! k)"
proof -
  obtain r pos where f: "foldl (pack_step m v) (0, 0) [l..<h] = (r, pos)" by (meson surj_pair)
  show ?thesis using pack_fold [OF assms(1) f] assms(2) f by (simp add: addrdec_packbits_def)
qed

lemma pack_all_bit: "bit (addrdec_packbits m v 64 0) k \<longleftrightarrow> k < length (sel m) \<and> bit v (sel m ! k)"
  by (rule packbits_bit) (simp_all add: sel_def)

text \<open>Two addresses with the same packed bits agree on the bits of the mask.\<close>

lemma same_bits:
  assumes "\<And>k. k < length (sel m) \<Longrightarrow> bit a (sel m ! k) = bit b (sel m ! k)" and "bit m i"
  shows "bit a i = bit b i"
proof -
  have "i \<in> set (sel m)" using assms(2) by (simp add: sel_set)
  then obtain k where "k < length (sel m)" "sel m ! k = i" by (auto simp: in_set_conv_nth)
  then show ?thesis using assms(1) by blast
qed

lemma pack_all_inj:
  assumes "addrdec_packbits m a 64 0 = addrdec_packbits m b 64 0" and "bit m i"
  shows "bit a i = bit b i"
proof (rule same_bits [OF _ assms(2)])
  fix k assume "k < length (sel m)"
  then show "bit a (sel m ! k) = bit b (sel m ! k)"
    using arg_cong [OF assms(1), of "\<lambda>x. bit x k"] by (simp add: pack_all_bit)
qed

lemma sub_mask_bits:
  "pos < n \<Longrightarrow> bit (sub_mask_loop m n pos sub is) i \<longleftrightarrow> bit sub i \<or> i \<in> set (take (n - pos) (filter (bit m) is))"
proof (induction "is" arbitrary: pos sub)
  case (Cons x xs)
  have p: "bit (sub OR 2 ^ x) i \<longleftrightarrow> bit sub i \<or> i = x" if "bit m x"
    using bit_imp_le_length [OF that] by (auto simp: bit_simps)
  show ?case
  proof (cases "bit m x")
    case False
    then show ?thesis using Cons by (simp add: bit_tests)
  next
    case True
    show ?thesis
    proof (cases "pos + 1 \<ge> n")
      case last: True
      then have "n - pos = 1" using Cons.prems by simp
      then show ?thesis using True last p by (simp add: bit_tests)
    next
      case False
      then have "n - pos = Suc (n - (pos + 1))" by simp
      then show ?thesis using True False Cons.IH [of "pos + 1" "sub OR 2 ^ x"] p by (auto simp: bit_tests)
    qed
  qed
qed simp

section \<open>What initialisation sets up\<close>

lemma LOGB2_32_bounds:
  assumes "v \<noteq> 0"
  shows "2 ^ unat (LOGB2_32 v) \<le> unat v \<and> unat v < 2 ^ Suc (unat (LOGB2_32 v))"
  using LOGB2_floor [OF assms] by (simp add: LOGB2_32_def LOGB2_def)

lemma powli_2: "powli 2 n = 2 ^ n"
  by (induction n) simp_all

text \<open>A number without a bit in common with its predecessor is a power of two.\<close>

lemma power_of_two_test:
  fixes v :: u32
  assumes "v AND (v - 1) = 0" and "v \<noteq> 0"
  shows "unat v = 2 ^ unat (LOGB2_32 v)"
proof (rule ccontr)
  let ?k = "unat (LOGB2_32 v)"
  assume "unat v \<noteq> 2 ^ ?k"
  then have b: "2 ^ ?k < unat v" "unat v < 2 * 2 ^ ?k" using LOGB2_32_bounds [OF assms(2)] by auto
  have "unat v div 2 ^ ?k = 1" using b by (intro div_nat_eqI) simp_all
  then have "bit (unat v) ?k" by (simp add: bit_iff_odd)
  moreover have p: "unat (v - 1) = unat v - 1" using assms(2) by (simp add: unat_minus_one)
  have "unat (v - 1) div 2 ^ ?k = 1" unfolding p using b by (intro div_nat_eqI) simp_all
  then have "bit (unat (v - 1)) ?k" by (simp add: bit_iff_odd)
  ultimately have "bit (v AND (v - 1)) ?k" by (simp add: bit_and_iff bit_unsigned_iff)
  then show False using assms(1) by simp
qed

definition decoder :: "u32 \<Rightarrow> u32 \<Rightarrow> translation \<Rightarrow> bool" where
  "decoder n_channel n_sub t \<longleftrightarrow> m_n_channel t = n_channel \<and> m_n_sub_partition_in_channel t = n_sub
     \<and> (\<forall>p. addrdec_getmasklimit (addrdec_mask t p) = (addrdec_mkhigh t p, addrdec_mklow t p))
     \<and> (\<forall>i. bit (sub_partition_id_mask t) i \<longleftrightarrow> i \<in> set (take (unat (LOGB2_32 n_sub)) (sel (addrdec_mask t BK))))
     \<and> unat n_sub = 2 ^ unat (LOGB2_32 n_sub) \<and> (gap t = 0 \<longrightarrow> unat n_channel = 2 ^ unat (LOGB2_32 n_channel))"

lemma gap_zero:
  assumes "n \<noteq> 0" and "word_of_int (int (unat n) - powli 2 (unat (LOGB2_32 n))) = (0 :: u32)"
  shows "unat n = 2 ^ unat (LOGB2_32 n)"
proof -
  let ?k = "unat (LOGB2_32 n)"
  have b: "2 ^ ?k \<le> unat n" using LOGB2_32_bounds [OF assms(1)] by simp
  have "(of_nat (unat n - 2 ^ ?k) :: u32) = 0" using assms(2) b by (simp add: powli_2 of_nat_diff)
  moreover have "unat n - 2 ^ ?k < 4294967296" using unat_u32_less [of n] by linarith
  then have "unat n - 2 ^ ?k < 2 ^ 32" by simp
  moreover note this
  ultimately have "unat n - 2 ^ ?k = 0" by (metis u32_unat_of_nat unsigned_0)
  then show ?thesis using b by simp
qed

lemma sub_mask_all:
  assumes "addrdec_getmasklimit m = (high, low)" and "n \<noteq> 0"
  shows "bit (sub_mask_loop m n 0 0 [low..<high]) i \<longleftrightarrow> i \<in> set (take n (sel m))"
  using sub_mask_bits [of 0 n m 0 "[low..<high]" i] limits_select [OF assms(1)] assms(2) by simp

text \<open>Which fields the steps keep.\<close>

definition same_setup :: "translation \<Rightarrow> translation \<Rightarrow> bool" where
  "same_setup t t' \<longleftrightarrow> m_n_channel t' = m_n_channel t \<and> m_n_sub_partition_in_channel t' = m_n_sub_partition_in_channel t
     \<and> gap t' = gap t"

lemma setup_steps:
  "same_setup t (pick_masks t)"
  "addrdec_parseoption opt t = Some t' \<Longrightarrow> same_setup t t'"
  "place_chip t = Some t' \<Longrightarrow> same_setup t t'"
  "same_setup t (set_limits t)" "same_setup t (set_sub_mask t)"
  by (auto simp: same_setup_def pick_masks_def addrdec_parseoption_def place_chip_def set_limits_def set_sub_mask_def
      bind_eq_Some_conv Let_def split: option.splits if_splits prod.splits)

lemma same_setup_trans: "same_setup a b \<Longrightarrow> same_setup b c \<Longrightarrow> same_setup a c"
  by (simp add: same_setup_def)

lemma init_stages:
  assumes "init n_channel n_sub t = Some t'"
  obtains t1 t2 where "t' = set_sub_mask (set_limits t2)" "place_chip t1 = Some t2"
    "case addrdec_option (pick_masks (set_channels n_channel n_sub t)) of None \<Rightarrow> t1 = pick_masks (set_channels n_channel n_sub t)
     | Some opt \<Rightarrow> addrdec_parseoption opt (pick_masks (set_channels n_channel n_sub t)) = Some t1"
    "n_sub AND (n_sub - 1) = 0" "same_setup (set_channels n_channel n_sub t) t1" "same_setup (set_channels n_channel n_sub t) t2"
proof -
  let ?t0 = "pick_masks (set_channels n_channel n_sub t)"
  from assms obtain t1 t2 where t1: "(case addrdec_option ?t0 of None \<Rightarrow> Some ?t0 | Some opt \<Rightarrow> addrdec_parseoption opt ?t0) = Some t1"
    and t2: "place_chip t1 = Some t2" "t' = set_sub_mask (set_limits t2)" "n_sub AND (n_sub - 1) = 0"
    by (auto simp: init_def Let_def bind_eq_Some_conv)
  have "same_setup ?t0 t1" using t1 setup_steps(2) [of _ ?t0 t1] by (auto simp: same_setup_def split: option.splits)
  then have s1: "same_setup (set_channels n_channel n_sub t) t1" by (rule same_setup_trans [OF setup_steps(1)])
  from same_setup_trans [OF s1 setup_steps(3) [OF t2(1)]] show ?thesis using that t1 t2 s1 by (auto split: option.splits)
qed

lemma init_decoder:
  assumes "init n_channel n_sub t = Some t'" and "n_channel \<noteq> 0" and "n_sub \<noteq> 0"
  shows "decoder n_channel n_sub t'"
proof -
  obtain t2 where t': "t' = set_sub_mask (set_limits t2)" and n: "n_sub AND (n_sub - 1) = 0"
    and s: "same_setup (set_channels n_channel n_sub t) t2"
    using init_stages [OF assms(1)] by metis
  have f: "m_n_channel t2 = n_channel" "m_n_sub_partition_in_channel t2 = n_sub"
    "gap t2 = word_of_int (int (unat n_channel) - powli 2 (unat (LOGB2_32 n_channel)))"
    using s by (simp_all add: same_setup_def set_channels_def)
  have p: "unat n_sub = 2 ^ unat (LOGB2_32 n_sub)" by (rule power_of_two_test [OF n assms(3)])
  have lim: "addrdec_getmasklimit (addrdec_mask t' q) = (addrdec_mkhigh t' q, addrdec_mklow t' q)" for q
    by (simp add: t' set_sub_mask_def set_limits_def)
  have sub: "bit (sub_partition_id_mask t') i \<longleftrightarrow> i \<in> set (take (unat (LOGB2_32 n_sub)) (sel (addrdec_mask t' BK)))" for i
  proof (cases "n_sub > 1")
    case True
    then have "unat (LOGB2_32 n_sub) \<noteq> 0" using p by (intro notI) (simp add: word_less_nat_alt)
    moreover have "sub_partition_id_mask t' = sub_mask_loop (addrdec_mask t' BK) (unat (LOGB2_32 n_sub)) 0 0
        [addrdec_mklow t' BK..<addrdec_mkhigh t' BK]"
      using True f(2) by (simp add: t' set_sub_mask_def set_limits_def)
    ultimately show ?thesis using sub_mask_all [OF lim] by simp
  next
    case False
    then have "2 ^ unat (LOGB2_32 n_sub) \<le> (1 :: nat)" unfolding p [symmetric] by (simp add: word_less_nat_alt)
    then have "unat (LOGB2_32 n_sub) = 0" using one_less_power [of "2 :: nat" "unat (LOGB2_32 n_sub)"] by (cases "unat (LOGB2_32 n_sub)") simp_all
    moreover have "sub_partition_id_mask t' = 0" using False f(2) by (simp add: t' set_sub_mask_def set_limits_def)
    ultimately show ?thesis by simp
  qed
  have "gap t' = 0 \<longrightarrow> unat n_channel = 2 ^ unat (LOGB2_32 n_channel)"
    using gap_zero [OF assms(2)] f(3) by (simp add: t' set_sub_mask_def set_limits_def)
  moreover have "m_n_channel t' = n_channel" "m_n_sub_partition_in_channel t' = n_sub"
    using f by (simp_all add: t' set_sub_mask_def set_limits_def)
  ultimately show ?thesis using p lim sub by (simp add: decoder_def)
qed

section \<open>The channel bits\<close>

lemma foldl_set_bits: "bit (foldl (\<lambda>m i. m OR 2 ^ i) m is) k \<longleftrightarrow> bit m k \<or> k \<in> set is \<and> k < 64" for m :: u64
  by (induction "is" arbitrary: m) (auto simp: bit_simps)

text \<open>With a position for the channel number in the address, the channel bits are the ones from that position on.\<close>

lemma map_char_no_chip:
  assumes "map_char True (m, ofs) c = Some (m1, o1)" and "m CHIP = 0"
  shows "m1 CHIP = 0"
proof -
  have *: "CHIP \<notin> set ps \<Longrightarrow> foldl (\<lambda>masks p. masks(p := masks p OR push_bit n 1)) f ps CHIP = f CHIP" for ps n and f :: "addr_part \<Rightarrow> u64"
    by (induction ps arbitrary: f) auto
  show ?thesis
  proof (cases "letter_parts c")
    case (Some ps)
    then have c: "CHIP \<notin> set ps" and m1: "m1 = foldl (\<lambda>masks p. masks(p := masks p OR push_bit (nat ofs) 1)) m ps"
      using assms(1) unfolding map_char_def by (auto simp only: prod.case option.case bind_eq_Some_conv assert_c_eq_Some option.inject prod.inject)
    show ?thesis unfolding m1 using * [OF c, of "nat ofs" m] assms(2) by simp
  qed (use assms in \<open>simp add: map_char_def\<close>)
qed

lemma parse_no_chip:
  "foldM (map_char True) (m, ofs) cs = Some (m', ofs') \<Longrightarrow> m CHIP = 0 \<Longrightarrow> m' CHIP = 0"
proof (induction cs arbitrary: m ofs)
  case (Cons c cs)
  then obtain m1 o1 where m1: "map_char True (m, ofs) c = Some (m1, o1)" and f: "foldM (map_char True) (m1, o1) cs = Some (m', ofs')"
    by (auto simp: bind_eq_Some_conv)
  have "m1 CHIP = 0" by (rule map_char_no_chip [OF m1 Cons.prems(2)])
  then show ?case using Cons.IH [OF f] by simp
qed simp

lemma parse_chip:
  assumes "addrdec_parseoption opt t = Some t'" and "ADDR_CHIP_S t' \<noteq> -1"
  shows "addrdec_mask t' CHIP = 0"
proof -
  from assms(1) obtain m ofs cm where f: "foldM (map_char (scan_dramid opt \<noteq> None)) (\<lambda>_. 0, 63) cm = Some (m, ofs)"
    "t' = t\<lparr>ADDR_CHIP_S := (case scan_dramid opt of Some s \<Rightarrow> s | None \<Rightarrow> -1), addrdec_mask := m\<rparr>"
    unfolding addrdec_parseoption_def by (auto simp: bind_eq_Some_conv Let_def)
  have "scan_dramid opt \<noteq> None" using assms(2) f(2) by (cases "scan_dramid opt") auto
  then show ?thesis using parse_no_chip [of "\<lambda>_. 0" 63 cm m ofs] f by simp
qed

lemma chip_bits:
  assumes "place_chip t = Some t'" and "gap t = 0" and "ADDR_CHIP_S t \<noteq> -1" and "addrdec_mask t CHIP = 0"
  shows "length (sel (addrdec_mask t' CHIP)) = unat (LOGB2_32 (m_n_channel t))"
proof -
  let ?s = "nat (ADDR_CHIP_S t)" and ?n = "unat (LOGB2_32 (m_n_channel t))"
  have b: "?s + ?n \<le> 64" "t' = t\<lparr>addrdec_mask := insert_chip ?s ?n (addrdec_mask t)\<rparr>"
    using assms(1-3) by (auto simp: place_chip_def Let_def bind_eq_Some_conv)
  have "set (sel (addrdec_mask t' CHIP)) = {?s..<?s + ?n}"
    using b assms(4) by (auto simp: sel_set insert_chip_def Let_def foldl_set_bits)
  then have "card (set (sel (addrdec_mask t' CHIP))) = ?n" by simp
  moreover have "distinct (sel (addrdec_mask t' CHIP))" by (simp add: sel_def)
  ultimately show ?thesis by (simp add: distinct_card)
qed

text \<open>Outside the mode in which the letter D marks the bits of the channel.\<close>

lemma init_chip_bits:
  assumes "init n_channel n_sub t = Some t'" and "gap t' = 0" and "ADDR_CHIP_S t' \<noteq> -1"
    and "mask_table (gpgpu_mem_address_mask t) \<noteq> None \<or> addrdec_option t \<noteq> None"
  shows "length (sel (addrdec_mask t' CHIP)) = unat (LOGB2_32 n_channel)"
proof -
  let ?t0 = "pick_masks (set_channels n_channel n_sub t)"
  obtain t1 t2 where t: "t' = set_sub_mask (set_limits t2)" "place_chip t1 = Some t2"
    "case addrdec_option ?t0 of None \<Rightarrow> t1 = ?t0 | Some opt \<Rightarrow> addrdec_parseoption opt ?t0 = Some t1"
    "same_setup (set_channels n_channel n_sub t) t1" "same_setup (set_channels n_channel n_sub t) t2"
    using init_stages [OF assms(1)] by metis
  have f: "m_n_channel t1 = n_channel" "gap t1 = 0"
    using t(1,4,5) assms(2) by (simp_all add: same_setup_def set_channels_def set_sub_mask_def set_limits_def)
  have "ADDR_CHIP_S t2 = ADDR_CHIP_S t1" using t(2) by (auto simp: place_chip_def Let_def bind_eq_Some_conv split: if_splits)
  then have s: "ADDR_CHIP_S t1 \<noteq> -1" using assms(3) by (simp add: t(1) set_sub_mask_def set_limits_def)
  have "addrdec_mask t1 CHIP = 0"
  proof (cases "addrdec_option ?t0")
    case None
    then have "mask_table (gpgpu_mem_address_mask t) \<noteq> None"
      using assms(4) by (auto simp: pick_masks_def set_channels_def split: option.splits)
    then show ?thesis using t(3) None by (auto simp: pick_masks_def set_channels_def)
  next
    case (Some opt)
    then show ?thesis using parse_chip [of opt ?t0 t1] t(3) s by simp
  qed
  from chip_bits [OF t(2) f(2) s this] show ?thesis by (simp add: f(1) t(1) set_sub_mask_def set_limits_def)
qed

lemma pow2_gap:
  assumes "n AND (n - 1) = 0" and "n \<noteq> 0"
  shows "word_of_int (int (unat n) - powli 2 (unat (LOGB2_32 n))) = (0 :: u32)"
proof -
  have "int (unat n) = 2 ^ unat (LOGB2_32 n)" using power_of_two_test [OF assms] by (metis of_nat_numeral of_nat_power)
  then show ?thesis by (simp only: powli_2) simp
qed

lemma init_gap:
  assumes "init n_channel n_sub t = Some t'" and "n_channel \<noteq> 0" and "gap t' \<noteq> 0"
  shows "ADDR_CHIP_S t' \<noteq> -1"
proof
  assume s: "ADDR_CHIP_S t' = -1"
  obtain t1 t2 where t: "t' = set_sub_mask (set_limits t2)" "place_chip t1 = Some t2" "same_setup (set_channels n_channel n_sub t) t1"
    using init_stages [OF assms(1)] by metis
  have f: "m_n_channel t1 = n_channel" "gap t1 = word_of_int (int (unat n_channel) - powli 2 (unat (LOGB2_32 n_channel)))"
    using t(3) by (simp_all add: same_setup_def set_channels_def)
  have k: "ADDR_CHIP_S t2 = ADDR_CHIP_S t1" "gap t2 = gap t1"
    using t(2) by (auto simp: place_chip_def Let_def bind_eq_Some_conv split: if_splits)
  have "n_channel AND (n_channel - 1) = 0"
    using t(2) s k f by (auto simp: t(1) set_sub_mask_def set_limits_def place_chip_def Let_def bind_eq_Some_conv)
  then have "gap t1 = 0" using pow2_gap [OF _ assms(2)] f(2) by simp
  then show False using assms(3) k by (simp add: t(1) set_sub_mask_def set_limits_def)
qed

section \<open>Decoding loses nothing\<close>

lemma get_part_bit:
  assumes "decoder n_channel n_sub t"
  shows "bit (get_part t p a) k \<longleftrightarrow> k < length (sel (addrdec_mask t p)) \<and> bit a (sel (addrdec_mask t p) ! k)"
proof -
  have "addrdec_getmasklimit (addrdec_mask t p) = (addrdec_mkhigh t p, addrdec_mklow t p)"
    using assms by (simp add: decoder_def)
  from limits_select [OF this] show ?thesis unfolding get_part_def by (intro packbits_bit) simp_all
qed

lemma low_bits:
  assumes "unat n_sub = 2 ^ k" and "(x AND (n_sub - 1)) = (y AND (n_sub - 1))" and "j < k"
  shows "bit x j = bit (y :: u32) j"
proof -
  have "n_sub = of_nat (unat n_sub)" by simp
  then have "n_sub = 2 ^ k" unfolding assms(1) by simp
  then have "n_sub - 1 = mask k" by (simp add: mask_eq_exp_minus_1)
  moreover have "k < 32"
  proof (rule ccontr)
    assume "\<not> k < 32"
    then have "(2 :: nat) ^ 32 \<le> 2 ^ k" by (intro power_increasing) simp_all
    then show False using assms(1) unat_u32_less [of n_sub] by simp
  qed
  ultimately show ?thesis
    using arg_cong [OF assms(2), of "\<lambda>z. bit z j"] assms(3) by (simp add: bit_simps)
qed

lemma sub_bits:
  assumes d: "decoder n_channel n_sub t"
    and e: "(ucast (get_part t BK a) AND (n_sub - 1) :: u32) = ucast (get_part t BK b) AND (n_sub - 1)"
    and i: "bit (sub_partition_id_mask t) i"
  shows "bit a i = bit b i"
proof -
  let ?k = "unat (LOGB2_32 n_sub)" and ?L = "sel (addrdec_mask t BK)"
  have p: "unat n_sub = 2 ^ ?k" using d by (simp add: decoder_def)
  have "i \<in> set (take ?k ?L)" using d i by (simp add: decoder_def)
  then obtain j where j: "j < ?k" "j < length ?L" "?L ! j = i" by (auto simp: in_set_conv_nth)
  have "j < 32"
  proof -
    have "(2 :: nat) ^ j < 2 ^ ?k" using j(1) by (intro power_strict_increasing) simp_all
    also have "2 ^ ?k < (4294967296 :: nat)" using p unat_u32_less [of n_sub] by linarith
    also have "(4294967296 :: nat) = 2 ^ 32" by simp
    finally have "(2 :: nat) ^ j < 2 ^ 32" .
    then show ?thesis by (simp only: power_strict_increasing_iff one_less_numeral_iff semiring_norm)
  qed
  moreover have "bit (ucast (get_part t BK a) :: u32) j = bit (ucast (get_part t BK b) :: u32) j"
    by (rule low_bits [OF p e j(1)])
  ultimately have "bit (get_part t BK a) j = bit (get_part t BK b) j" by (simp add: bit_ucast_iff)
  then show ?thesis using j(2,3) by (simp add: get_part_bit [OF d])
qed

lemma small_of_bits:
  assumes "\<And>i. n \<le> i \<Longrightarrow> \<not> bit x i"
  shows "unat (x :: u64) < 2 ^ n"
proof -
  have "take_bit n x = x"
  proof (rule bit_word_eqI)
    show "bit (take_bit n x) i = bit x i" for i using assms [of i] by (auto simp: bit_take_bit_iff not_le [symmetric])
  qed
  then have "unat x = take_bit n (unat x)" by (metis unsigned_take_bit_eq)
  then show ?thesis by (metis take_bit_nat_less_exp)
qed

lemma no_bit_of_small: "unat (x :: u64) < 2 ^ n \<Longrightarrow> n \<le> i \<Longrightarrow> \<not> bit x i"
proof -
  assume a: "unat x < 2 ^ n" "n \<le> i"
  have "unat x < 2 ^ i" using a(1) power_increasing [OF a(2), of "2 :: nat"] by linarith
  then have "\<not> bit (unat x) i" by (simp add: bit_iff_odd)
  then show ?thesis by (simp add: bit_unsigned_iff)
qed

text \<open>The rest of an address has its quotient and its lower part.\<close>

lemma rest_parts:
  assumes "rest_of_addr t a = rest_of_addr t b" and "n = m_n_channel t" and "s = nat (ADDR_CHIP_S t)" and "s < 64"
  shows "drop_bit s a div ucast n = drop_bit s b div ucast n \<and> (\<forall>i < s. bit a i = bit b i)"
proof -
  have rest: "bit (rest_of_addr t x) i \<longleftrightarrow> i < 64 \<and> (if i < s then bit x i else bit (drop_bit s x div ucast n) (i - s))" for x i
    unfolding rest_of_addr_def assms(2) [symmetric] assms(3) [symmetric] mask_eq_exp_minus_1 [symmetric]
    by (auto simp: bit_or_iff bit_push_bit_iff bit_and_iff bit_mask_iff dest: bit_imp_le_length)
  have eq: "bit (rest_of_addr t a) i = bit (rest_of_addr t b) i" for i using assms(1) by simp
  have small: "\<not> bit (drop_bit s x div ucast n) i" if "64 - s \<le> i" for x :: u64 and i
  proof (rule no_bit_of_small [OF _ that])
    have "unat (drop_bit s x div ucast n) \<le> unat (drop_bit s x)" by (simp add: unat_div_distrib)
    also have "unat (drop_bit s x) = unat x div 2 ^ s"
      using take_bit_nat_eq_self [of "unat x" 64] unsigned_less [of x, where 'a = nat]
      by (simp only: unsigned_drop_bit_eq flip: drop_bit_eq_div) simp
    also have "\<dots> < 2 ^ (64 - s)"
    proof -
      have "unat x < 2 ^ 64" using unsigned_less [of x, where 'a = nat] by simp
      also have "(2 :: nat) ^ 64 = 2 ^ (64 - s) * 2 ^ s" using assms(4) by (simp flip: power_add)
      finally show ?thesis by (simp add: div_less_iff_less_mult)
    qed
    finally show "unat (drop_bit s x div ucast n) < 2 ^ (64 - s)" .
  qed
  have "drop_bit s a div ucast n = drop_bit s b div ucast n"
  proof (rule bit_word_eqI)
    fix i
    show "bit (drop_bit s a div ucast n) i = bit (drop_bit s b div ucast n) i"
    proof (cases "64 - s \<le> i")
      case True
      then show ?thesis using small [OF True] by blast
    next
      case False
      then have "i + s < 64" by linarith
      then show ?thesis using eq [of "i + s"] rest [of a "i + s"] rest [of b "i + s"] by simp
    qed
  qed
  moreover have "bit a i = bit b i" if "i < s" for i using eq [of i] rest [of a i] rest [of b i] that assms(4) by simp
  ultimately show ?thesis by blast
qed

lemma eq_of_parts:
  assumes "drop_bit s a div m = drop_bit s b div m" "drop_bit s a mod m = drop_bit s b mod m" "\<forall>i < s. bit a i = bit b i"
  shows "a = (b :: u64)"
proof -
  have "drop_bit s a = drop_bit s b" using assms(1,2) by (metis div_mult_mod_eq)
  then have d: "bit (drop_bit s a) i = bit (drop_bit s b) i" for i by simp
  show ?thesis
  proof (rule bit_word_eqI)
    show "bit a i = bit b i" for i using assms(3) d [of "i - s"] by (cases "i < s") (simp_all add: bit_drop_bit_eq)
  qed
qed

text \<open>The number of the sub partition is made up of the channel and the lower bits of the bank.\<close>

lemma sub_partition_parts:
  fixes chip bk n_sub :: u32
  assumes "unat chip < c" and "c * unat n_sub < 2 ^ 32" and "unat n_sub = 2 ^ k"
  shows "unat (chip * n_sub + (bk AND (n_sub - 1))) = unat chip * unat n_sub + unat (bk AND (n_sub - 1))"
    "unat (bk AND (n_sub - 1)) < unat n_sub"
    "unat (chip * n_sub + (bk AND (n_sub - 1))) < c * unat n_sub"
proof -
  have "n_sub \<noteq> 0" using assms(3) by auto
  then have "unat (n_sub - 1) < unat n_sub" using assms(3) by (simp add: unat_minus_one)
  moreover have "bk AND (n_sub - 1) \<le> n_sub - 1" by (simp add: word_and_le1)
  ultimately show l: "unat (bk AND (n_sub - 1)) < unat n_sub" by (simp add: word_le_nat_alt)
  have "unat chip * unat n_sub + unat n_sub \<le> c * unat n_sub"
    using assms(1) by (metis Suc_leI add.commute mult_Suc mult_le_mono1)
  then have s: "unat chip * unat n_sub + unat (bk AND (n_sub - 1)) < c * unat n_sub" using l by linarith
  have "unat (chip * n_sub + (bk AND (n_sub - 1))) = (unat chip * unat n_sub + unat (bk AND (n_sub - 1))) mod 2 ^ 32"
    by (simp add: unat_word_ariths mod_add_left_eq)
  then show e: "unat (chip * n_sub + (bk AND (n_sub - 1))) = unat chip * unat n_sub + unat (bk AND (n_sub - 1))"
    using s assms(2) by simp
  show "unat (chip * n_sub + (bk AND (n_sub - 1))) < c * unat n_sub" using s e by simp
qed

lemma chip_small:
  assumes d: "decoder n_channel n_sub t" and n: "n_channel \<noteq> 0"
    and c: "gap t = 0 \<Longrightarrow> length (sel (addrdec_mask t CHIP)) = unat (LOGB2_32 n_channel)"
  defines "chip \<equiv> \<lambda>a. if gap t = 0 then get_part t CHIP a else drop_bit (nat (ADDR_CHIP_S t)) a mod ucast (m_n_channel t)"
  shows "unat (chip a) < unat n_channel" "unat (ucast (chip a) :: u32) = unat (chip a)"
proof -
  show l: "unat (chip a) < unat n_channel"
  proof (cases "gap t = 0")
    case True
    have "unat (get_part t CHIP a) < 2 ^ unat (LOGB2_32 n_channel)"
      by (rule small_of_bits) (simp add: get_part_bit [OF d] c [OF True])
    then show ?thesis using True d by (simp add: chip_def decoder_def)
  next
    case False
    have m: "m_n_channel t = n_channel" using d by (simp add: decoder_def)
    have "unat n_channel \<noteq> 0" using n by (simp add: unat_eq_0)
    then show ?thesis using False by (simp add: chip_def m unat_mod_distrib)
  qed
  then have "unat (chip a) < 4294967296" using unat_u32_less [of n_channel] by linarith
  then show "unat (ucast (chip a) :: u32) = unat (chip a)" by (simp add: unsigned_ucast_eq take_bit_nat_eq_self)
qed

lemma decoding_unique:
  assumes d: "decoder n_channel n_sub t" and n: "n_channel \<noteq> 0" and m: "unat n_channel * unat n_sub < 2 ^ 32"
    and c: "gap t = 0 \<Longrightarrow> length (sel (addrdec_mask t CHIP)) = unat (LOGB2_32 n_channel)"
    and s: "gap t \<noteq> 0 \<Longrightarrow> 0 \<le> ADDR_CHIP_S t \<and> ADDR_CHIP_S t < 31"
  shows "unat (ad_sub_partition (addrdec_tlx t a)) < unat n_channel * unat n_sub"
    and "ad_sub_partition (addrdec_tlx t a) = ad_sub_partition (addrdec_tlx t b) \<Longrightarrow> partition_address t a = partition_address t b \<Longrightarrow> a = b"
proof -
  define chip where "chip = (\<lambda>a. if gap t = 0 then get_part t CHIP a else drop_bit (nat (ADDR_CHIP_S t)) a mod ucast (m_n_channel t))"
  define r where "r = (\<lambda>a. if gap t = 0 then a else rest_of_addr t a)"
  define bk where "bk = (\<lambda>a. ucast (get_part t BK (r a)) :: u32)"
  have sub: "ad_sub_partition (addrdec_tlx t x) = ucast (chip x) * n_sub + (bk x AND (n_sub - 1))" for x
    using d by (simp add: addrdec_tlx_def Let_def chip_def r_def bk_def decoder_def)
  have k: "unat n_sub = 2 ^ unat (LOGB2_32 n_sub)" using d by (simp add: decoder_def)
  have cs: "unat (chip x) < unat n_channel" "unat (ucast (chip x) :: u32) = unat (chip x)" for x
    using chip_small [OF d n c, of x] by (simp_all add: chip_def)
  have parts: "unat (ad_sub_partition (addrdec_tlx t x)) = unat (chip x) * unat n_sub + unat (bk x AND (n_sub - 1))"
    "unat (bk x AND (n_sub - 1)) < unat n_sub" "unat (ad_sub_partition (addrdec_tlx t x)) < unat n_channel * unat n_sub" for x
    using sub_partition_parts [OF _ m k, of "ucast (chip x)" "bk x"] cs [of x] unfolding sub by simp_all
  show "unat (ad_sub_partition (addrdec_tlx t a)) < unat n_channel * unat n_sub" by (rule parts(3))
  assume e: "ad_sub_partition (addrdec_tlx t a) = ad_sub_partition (addrdec_tlx t b)" and p: "partition_address t a = partition_address t b"
  have e': "unat (chip a) * unat n_sub + unat (bk a AND (n_sub - 1)) = unat (chip b) * unat n_sub + unat (bk b AND (n_sub - 1))"
    using e parts(1) by metis
  have "unat (chip a) = unat (chip b)"
    using arg_cong [OF e', of "\<lambda>x. x div unat n_sub"] parts(2) [of a] parts(2) [of b] by simp
  then have ch: "chip a = chip b" by (rule unsigned_word_eqI)
  then have "unat (bk a AND (n_sub - 1)) = unat (bk b AND (n_sub - 1))" using e' by simp
  then have low: "bk a AND (n_sub - 1) = bk b AND (n_sub - 1)" by (rule unsigned_word_eqI)
  have subs: "bit (r a) i = bit (r b) i" if "bit (sub_partition_id_mask t) i" for i
    by (rule sub_bits [OF d low [unfolded bk_def] that])
  show "a = b"
  proof (cases "gap t = 0")
    case True
    have ra: "r a = a" "r b = b" using True by (simp_all add: r_def)
    have pk: "addrdec_packbits (NOT (addrdec_mask t CHIP OR sub_partition_id_mask t)) a 64 0
        = addrdec_packbits (NOT (addrdec_mask t CHIP OR sub_partition_id_mask t)) b 64 0"
      using p True by (simp add: partition_address_def)
    have gp: "get_part t CHIP a = get_part t CHIP b" using ch True by (simp add: chip_def)
    show ?thesis
    proof (rule bit_word_eqI)
      fix i assume i: "i < LENGTH(64)"
      consider "bit (addrdec_mask t CHIP) i" | "bit (sub_partition_id_mask t) i"
        | "bit (NOT (addrdec_mask t CHIP OR sub_partition_id_mask t)) i"
        using i by (auto simp: bit_simps)
      then show "bit a i = bit b i"
      proof cases
        case 1
        show ?thesis
        proof (rule same_bits [OF _ 1])
          fix k assume "k < length (sel (addrdec_mask t CHIP))"
          then show "bit a (sel (addrdec_mask t CHIP) ! k) = bit b (sel (addrdec_mask t CHIP) ! k)"
            using arg_cong [OF gp, of "\<lambda>x. bit x k"] by (simp add: get_part_bit [OF d])
        qed
      next
        case 2
        then show ?thesis using subs ra by simp
      next
        case 3
        then show ?thesis by (rule pack_all_inj [OF pk])
      qed
    qed
  next
    case False
    have ra: "r a = rest_of_addr t a" "r b = rest_of_addr t b" using False by (simp_all add: r_def)
    have pk: "addrdec_packbits (NOT (sub_partition_id_mask t)) (r a) 64 0 = addrdec_packbits (NOT (sub_partition_id_mask t)) (r b) 64 0"
      using p False ra by (simp add: partition_address_def)
    have "r a = r b"
    proof (rule bit_word_eqI)
      fix i assume i: "i < LENGTH(64)"
      show "bit (r a) i = bit (r b) i"
      proof (cases "bit (sub_partition_id_mask t) i")
        case True
        then show ?thesis by (rule subs)
      next
        case False
        then show ?thesis using pack_all_inj [OF pk, of i] i by (simp add: bit_not_iff)
      qed
    qed
    then have "rest_of_addr t a = rest_of_addr t b" using ra by simp
    note eq = this
    have "nat (ADDR_CHIP_S t) < 64" using s [OF False] by linarith
    note rp = rest_parts [OF eq refl refl this]
    note q = rp [THEN conjunct1] and l = rp [THEN conjunct2]
    have "drop_bit (nat (ADDR_CHIP_S t)) a mod ucast (m_n_channel t) = drop_bit (nat (ADDR_CHIP_S t)) b mod ucast (m_n_channel t)"
      using ch unfolding chip_def if_not_P [OF False] .
    from eq_of_parts [OF q this l] show ?thesis .
  qed
qed

text \<open>C7. The decoder loses nothing of an address and reaches no partition that does not exist: for every number of channels,
  a power of two or not, and every power of two of sub partitions, the number of the sub partition is in range, and
  two addresses with the same sub partition and the same address inside it are the same. Where the map marks the
  channel bits itself, it has to mark as many as the number of channels needs.\<close>

theorem address_decoding_unique:
  assumes "init n_channel n_sub t0 = Some t" and "0 < n_channel" and "0 < n_sub" and "unat n_channel * unat n_sub < 2 ^ 32"
    and "mask_table (gpgpu_mem_address_mask t0) \<noteq> None \<or> addrdec_option t0 \<noteq> None"
    and "if ADDR_CHIP_S t = -1 then length (sel (addrdec_mask t CHIP)) = unat (LOGB2_32 n_channel) else 0 \<le> ADDR_CHIP_S t \<and> ADDR_CHIP_S t < 31"
  shows "unat (ad_sub_partition (addrdec_tlx t a)) < unat n_channel * unat n_sub
    \<and> (ad_sub_partition (addrdec_tlx t a) = ad_sub_partition (addrdec_tlx t b) \<and> partition_address t a = partition_address t b \<longrightarrow> a = b)"
proof -
  have n: "n_channel \<noteq> 0" "n_sub \<noteq> 0" using assms(2,3) by auto
  note d = init_decoder [OF assms(1) n]
  have c: "length (sel (addrdec_mask t CHIP)) = unat (LOGB2_32 n_channel)" if "gap t = 0"
    using init_chip_bits [OF assms(1) that _ assms(5)] assms(6) by (cases "ADDR_CHIP_S t = -1") simp_all
  have s: "0 \<le> ADDR_CHIP_S t \<and> ADDR_CHIP_S t < 31" if "gap t \<noteq> 0"
    using init_gap [OF assms(1) n(1) that] assms(6) by simp
  have "unat (ad_sub_partition (addrdec_tlx t a)) < unat n_channel * unat n_sub"
    using d n(1) assms(4) c s by (rule decoding_unique(1))
  moreover have "a = b" if "ad_sub_partition (addrdec_tlx t a) = ad_sub_partition (addrdec_tlx t b)" "partition_address t a = partition_address t b"
    using d n(1) assms(4) c s that by (rule decoding_unique(2))
  ultimately show ?thesis by blast
qed

text \<open>Six channels, no power of two, with two sub partitions each, as on the modelled GPU, and the third built in map.\<close>

definition sample_translation :: translation where
  "sample_translation = new_translation None 2"

lemma sample_log: "LOGB2_32 6 = 2"
  by code_simp

lemma sample_init: "\<exists>t. init 6 2 sample_translation = Some t \<and> ADDR_CHIP_S t = 11"
  by (simp add: init_def set_channels_def pick_masks_def place_chip_def sample_translation_def new_translation_def mask_table_def
      sample_log powli_2 set_sub_mask_def set_limits_def Let_def)

theorem address_decoding_unique_witness:
  "\<exists>t. init 6 2 sample_translation = Some t \<and> unat (ad_sub_partition (addrdec_tlx t 0x12345678)) < 12"
proof -
  obtain t where t: "init 6 2 sample_translation = Some t" "ADDR_CHIP_S t = 11" using sample_init by auto
  have "unat (ad_sub_partition (addrdec_tlx t 0x12345678)) < unat (6 :: u32) * unat (2 :: u32)"
    using address_decoding_unique [OF t(1), where a = "0x12345678"] t(2)
    by (simp add: sample_translation_def new_translation_def mask_table_def)
  then show ?thesis using t(1) by simp
qed

text \<open>The order of the test table is no order: three parts of addresses of which the first is below the last, while the
  second is neither below nor above either.\<close>

theorem addrdec_less_no_order:
  "\<exists>x y z. addrdec_less x z \<and> \<not> addrdec_less x y \<and> \<not> addrdec_less y x \<and> \<not> addrdec_less y z \<and> \<not> addrdec_less z y"
proof -
  let ?x = "\<lparr>ad_chip = 0, ad_bk = 0, ad_row = 0, ad_col = 0, ad_burst = 0, ad_sub_partition = 0\<rparr>"
  let ?z = "\<lparr>ad_chip = 1, ad_bk = 1, ad_row = 1, ad_col = 1, ad_burst = 1, ad_sub_partition = 1\<rparr>"
  let ?y = "\<lparr>ad_chip = 0, ad_bk = 2, ad_row = 0, ad_col = 0, ad_burst = 0, ad_sub_partition = 0\<rparr>"
  have "addrdec_less ?x ?z \<and> \<not> addrdec_less ?x ?y \<and> \<not> addrdec_less ?y ?x \<and> \<not> addrdec_less ?y ?z \<and> \<not> addrdec_less ?z ?y"
    by (simp add: addrdec_less_def)
  then show ?thesis by blast
qed

text \<open>The channel bits are put in below the bank, row and column bits, which move up, but the burst bits, which are column
  bits too, stay: a burst bit above the channel then is no column bit any more.\<close>

lemma burst_left_behind:
  assumes "s \<le> k" and "k + n < 64" and "0 < n" and "masks COL = 2 ^ k" and "masks BURST = 2 ^ k"
  shows "bit (insert_chip s n masks BURST) k \<and> \<not> bit (insert_chip s n masks COL) k"
  using assms by (auto simp: insert_chip_def Let_def bit_simps mask_eq_exp_minus_1 [symmetric])

end
