(* ===== verification/Shd_Warp.thy ===== *)
theory Shd_Warp
  imports Scoreboard
begin

text \<open>
  The hardware state of a warp, class \<open>shd_warp_t\<close> of \<open>gpgpu-sim/shader.h\<close>: which of its threads have
  completed, its buffer of two fetched instructions, and how many instructions and stores it has under way.
  The instructions are those of the pipeline registers, class \<open>warp_inst_t\<close>: the static part that is copied
  from the program and what \<open>issue\<close> adds. The last section is the life of a warp as a step relation.
\<close>

section \<open>Instructions\<close>

record pipe_inst = inst +
  pi_pc :: u32
  pi_isize :: u32
  pi_op :: uarch_op
  pi_reconvergence_pc :: u32
  pi_initiation_interval :: nat
  pi_decoded :: bool
  pi_isatomic :: bool
  pi_empty :: bool
  pi_uid :: nat
  pi_warp_active_mask :: "nat set"
  pi_warp_issued_mask :: "nat set"
  pi_dynamic_warp_id :: nat
  pi_issue_cycle :: u64
  pi_cycles :: nat

definition clear :: "'a pipe_inst_scheme \<Rightarrow> 'a pipe_inst_scheme" where
  "clear p = p\<lparr>pi_empty := True\<rparr>"

text \<open>\<open>uid\<close> is the value of the counter \<open>sm_next_uid\<close> after its increment.\<close>

definition issue_inst :: "nat set \<Rightarrow> nat \<Rightarrow> u64 \<Rightarrow> nat \<Rightarrow> nat \<Rightarrow> pipe_inst \<Rightarrow> pipe_inst" where
  "issue_inst msk warp_id cycle dynamic_warp_id uid p =
     p\<lparr>pi_warp_active_mask := msk, pi_warp_issued_mask := msk, pi_uid := uid, inst_warp_id := warp_id,
       pi_dynamic_warp_id := dynamic_warp_id, pi_issue_cycle := cycle, pi_cycles := pi_initiation_interval p,
       pi_empty := False\<rparr>"

section \<open>State and operations\<close>

record ibuffer_entry =
  ib_inst :: "pipe_inst option"
  ib_valid :: bool

record shd_warp =
  w_cta_id :: nat
  w_warp_id :: nat
  w_warp_size :: nat
  w_dynamic_warp_id :: nat
  w_next_pc :: u32
  w_n_completed :: nat
  w_active_threads :: "nat set"
  w_imiss_pending :: bool
  w_inst_at_barrier :: "pipe_inst option"
  w_ibuffer :: "ibuffer_entry list"
  w_next :: nat
  w_n_atomic :: u32
  w_membar :: bool
  w_done_exit :: bool
  w_last_fetch :: u64
  w_stores_outstanding :: nat
  w_inst_in_pipeline :: nat

definition IBUFFER_SIZE :: nat where "IBUFFER_SIZE = 2"
definition MAX_WARP_SIZE :: nat where "MAX_WARP_SIZE = 32"

definition no_entry :: ibuffer_entry where
  "no_entry = \<lparr>ib_inst = None, ib_valid = False\<rparr>"

definition warp_reset :: "shd_warp \<Rightarrow> shd_warp option" where
  "warp_reset w = do {
     _ \<leftarrow> assert_c (w_stores_outstanding w = 0);
     _ \<leftarrow> assert_c (w_inst_in_pipeline w = 0);
     Some (w\<lparr>w_imiss_pending := False, w_warp_id := unat (- 1 :: u32), w_dynamic_warp_id := unat (- 1 :: u32),
       w_n_completed := w_warp_size w, w_n_atomic := 0, w_membar := False, w_done_exit := True, w_last_fetch := 0,
       w_next := 0, w_inst_at_barrier := None\<rparr>) }"

text \<open>The constructor calls \<open>reset\<close>; it leaves the block and the next program counter unset, which are
  arguments here.\<close>

definition new_shd_warp :: "nat \<Rightarrow> u32 \<Rightarrow> nat \<Rightarrow> shd_warp option" where
  "new_shd_warp cta pc n =
     warp_reset \<lparr>w_cta_id = cta, w_warp_id = 0, w_warp_size = n, w_dynamic_warp_id = 0, w_next_pc = pc,
       w_n_completed = 0, w_active_threads = {}, w_imiss_pending = False, w_inst_at_barrier = None,
       w_ibuffer = replicate IBUFFER_SIZE no_entry, w_next = 0, w_n_atomic = 0, w_membar = False, w_done_exit = False,
       w_last_fetch = 0, w_stores_outstanding = 0, w_inst_in_pipeline = 0\<rparr>"

definition warp_init :: "u32 \<Rightarrow> nat \<Rightarrow> nat \<Rightarrow> nat set \<Rightarrow> nat \<Rightarrow> shd_warp \<Rightarrow> shd_warp option" where
  "warp_init start_pc cta_id wid act dynamic_warp_id w = do {
     let w = w\<lparr>w_cta_id := cta_id, w_warp_id := wid, w_dynamic_warp_id := dynamic_warp_id, w_next_pc := start_pc\<rparr>;
     _ \<leftarrow> assert_c (w_n_completed w \<ge> card act);
     _ \<leftarrow> assert_c (w_n_completed w \<le> w_warp_size w);
     Some (w\<lparr>w_n_completed := w_n_completed w - card act, w_active_threads := act, w_done_exit := False\<rparr>) }"

definition set_completed :: "nat \<Rightarrow> shd_warp \<Rightarrow> shd_warp option" where
  "set_completed lane w = do {
     t \<leftarrow> bs_test MAX_WARP_SIZE lane (w_active_threads w);
     _ \<leftarrow> assert_c t;
     Some (w\<lparr>w_active_threads := w_active_threads w - {lane}, w_n_completed := w_n_completed w + 1\<rparr>) }"

definition functional_done :: "shd_warp \<Rightarrow> bool" where
  "functional_done w \<longleftrightarrow> w_n_completed w = w_warp_size w"

definition stores_done :: "shd_warp \<Rightarrow> bool" where
  "stores_done w \<longleftrightarrow> w_stores_outstanding w = 0"

definition inst_in_pipeline :: "shd_warp \<Rightarrow> bool" where
  "inst_in_pipeline w \<longleftrightarrow> w_inst_in_pipeline w > 0"

definition hardware_done :: "shd_warp \<Rightarrow> bool" where
  "hardware_done w \<longleftrightarrow> functional_done w \<and> stores_done w \<and> \<not> inst_in_pipeline w"

definition inc_store_req :: "shd_warp \<Rightarrow> shd_warp" where
  "inc_store_req w = w\<lparr>w_stores_outstanding := w_stores_outstanding w + 1\<rparr>"

definition dec_store_req :: "shd_warp \<Rightarrow> shd_warp option" where
  "dec_store_req w = do {
     _ \<leftarrow> assert_c (w_stores_outstanding w > 0);
     Some (w\<lparr>w_stores_outstanding := w_stores_outstanding w - 1\<rparr>) }"

definition inc_inst_in_pipeline :: "shd_warp \<Rightarrow> shd_warp" where
  "inc_inst_in_pipeline w = w\<lparr>w_inst_in_pipeline := w_inst_in_pipeline w + 1\<rparr>"

definition dec_inst_in_pipeline :: "shd_warp \<Rightarrow> shd_warp option" where
  "dec_inst_in_pipeline w = do {
     _ \<leftarrow> assert_c (w_inst_in_pipeline w > 0);
     Some (w\<lparr>w_inst_in_pipeline := w_inst_in_pipeline w - 1\<rparr>) }"

definition inc_n_atomic :: "shd_warp \<Rightarrow> shd_warp" where
  "inc_n_atomic w = w\<lparr>w_n_atomic := w_n_atomic w + 1\<rparr>"

text \<open>\<open>shader_core_ctx::decrement_atomic_count\<close>.\<close>

definition decrement_atomic_count :: "u32 \<Rightarrow> shd_warp \<Rightarrow> shd_warp option" where
  "decrement_atomic_count n w = do {
     _ \<leftarrow> assert_c (w_n_atomic w \<ge> n);
     Some (w\<lparr>w_n_atomic := w_n_atomic w - n\<rparr>) }"

subsection \<open>The instruction buffer\<close>

definition ibuffer_fill :: "nat \<Rightarrow> pipe_inst option \<Rightarrow> shd_warp \<Rightarrow> shd_warp option" where
  "ibuffer_fill slot pI w = do {
     _ \<leftarrow> assert_c (slot < IBUFFER_SIZE);
     Some (w\<lparr>w_ibuffer := (w_ibuffer w)[slot := \<lparr>ib_inst = pI, ib_valid = True\<rparr>], w_next := 0\<rparr>) }"

definition ibuffer_empty :: "shd_warp \<Rightarrow> bool" where
  "ibuffer_empty w \<longleftrightarrow> (\<forall>e \<in> set (w_ibuffer w). \<not> ib_valid e)"

definition flush_slot :: "shd_warp \<Rightarrow> nat \<Rightarrow> shd_warp option" where
  "flush_slot w i = do {
     w \<leftarrow> (if ib_valid (w_ibuffer w ! i) then dec_inst_in_pipeline w else Some w);
     Some (w\<lparr>w_ibuffer := (w_ibuffer w)[i := no_entry]\<rparr>) }"

definition ibuffer_flush :: "shd_warp \<Rightarrow> shd_warp option" where
  "ibuffer_flush w = foldM flush_slot w [0..<IBUFFER_SIZE]"

definition ibuffer_next_inst :: "shd_warp \<Rightarrow> pipe_inst option" where
  "ibuffer_next_inst w = ib_inst (w_ibuffer w ! w_next w)"

definition ibuffer_next_valid :: "shd_warp \<Rightarrow> bool" where
  "ibuffer_next_valid w = ib_valid (w_ibuffer w ! w_next w)"

definition ibuffer_free :: "shd_warp \<Rightarrow> shd_warp" where
  "ibuffer_free w = w\<lparr>w_ibuffer := (w_ibuffer w)[w_next w := no_entry]\<rparr>"

definition ibuffer_step :: "shd_warp \<Rightarrow> shd_warp" where
  "ibuffer_step w = w\<lparr>w_next := (w_next w + 1) mod IBUFFER_SIZE\<rparr>"

definition num_inst_in_buffer :: "shd_warp \<Rightarrow> nat" where
  "num_inst_in_buffer w = length (filter ib_valid (w_ibuffer w))"

definition num_issued_inst_in_pipeline :: "shd_warp \<Rightarrow> nat" where
  "num_issued_inst_in_pipeline w = w_inst_in_pipeline w - num_inst_in_buffer w"

text \<open>\<open>shader_core_ctx::decode\<close>: the fetched address gives one or two instructions. \<open>fetch_inst\<close> is the
  program, \<open>ptx_fetch_inst\<close>, which has no instruction past its end.\<close>

definition decode :: "(u32 \<Rightarrow> pipe_inst option) \<Rightarrow> u32 \<Rightarrow> shd_warp \<Rightarrow> shd_warp option" where
  "decode fetch_inst pc w = do {
     w \<leftarrow> ibuffer_fill 0 (fetch_inst pc) w;
     let w = inc_inst_in_pipeline w;
     case fetch_inst pc of
       None \<Rightarrow> Some w
     | Some p1 \<Rightarrow>
         (case fetch_inst (pc + pi_isize p1) of
            None \<Rightarrow> Some w
          | Some p2 \<Rightarrow> do {
              w \<leftarrow> ibuffer_fill 1 (Some p2) w;
              Some (inc_inst_in_pipeline w) }) }"

text \<open>A thread has ended, \<open>shader_core_ctx::checkExecutionStatusAndUpdate\<close>: what is in the buffer was fetched too
  early.\<close>

definition lane_done :: "shd_warp \<Rightarrow> nat \<Rightarrow> shd_warp option" where
  "lane_done w lane = set_completed lane w \<bind> ibuffer_flush"

section \<open>The counts of a warp\<close>

text \<open>\<open>k\<close> is the number of its instructions that are issued and not written back.\<close>

definition counts_ok :: "nat \<Rightarrow> shd_warp \<Rightarrow> bool" where
  "counts_ok k w \<longleftrightarrow> length (w_ibuffer w) = 2 \<and> w_next w < 2 \<and> (\<forall>e \<in> set (w_ibuffer w). ib_inst e \<noteq> None \<longrightarrow> ib_valid e)
     \<and> w_inst_in_pipeline w = num_inst_in_buffer w + k
     \<and> finite (w_active_threads w) \<and> w_active_threads w \<subseteq> {..<MAX_WARP_SIZE}
     \<and> w_n_completed w + card (w_active_threads w) = w_warp_size w"

definition warp_ok :: "nat \<Rightarrow> shd_warp \<Rightarrow> bool" where
  "warp_ok k w \<longleftrightarrow> counts_ok k w \<and> (\<not> ibuffer_empty w \<longrightarrow> ibuffer_next_valid w)
     \<and> (functional_done w \<longrightarrow> ibuffer_empty w)"

lemma two_entries: "length xs = 2 \<longleftrightarrow> (\<exists>a b. xs = [a, b])"
  by (auto simp: length_Suc_conv numeral_2_eq_2)

lemma below_two: "n < (2 :: nat) \<longleftrightarrow> n = 0 \<or> n = 1"
  by auto

lemma no_entry_simps [simp]: "ib_inst no_entry = None" "ib_valid no_entry = False"
  by (simp_all add: no_entry_def)

lemmas buffer_defs = counts_ok_def num_inst_in_buffer_def ibuffer_empty_def ibuffer_next_valid_def functional_done_def

lemma flush_ok:
  assumes "counts_ok k w"
  shows "ibuffer_flush w = Some (w\<lparr>w_ibuffer := [no_entry, no_entry], w_inst_in_pipeline := k\<rparr>)"
    and "counts_ok k (w\<lparr>w_ibuffer := [no_entry, no_entry], w_inst_in_pipeline := k\<rparr>)"
proof -
  obtain a b where "w_ibuffer w = [a, b]" using assms by (auto simp: counts_ok_def two_entries)
  then show "ibuffer_flush w = Some (w\<lparr>w_ibuffer := [no_entry, no_entry], w_inst_in_pipeline := k\<rparr>)"
    using assms
    by (cases "ib_valid a"; cases "ib_valid b")
      (simp_all add: ibuffer_flush_def IBUFFER_SIZE_def upt_rec flush_slot_def dec_inst_in_pipeline_def buffer_defs)
  show "counts_ok k (w\<lparr>w_ibuffer := [no_entry, no_entry], w_inst_in_pipeline := k\<rparr>)"
    using assms by (simp add: buffer_defs)
qed

text \<open>What neither the end of threads nor the buffer changes.\<close>

definition same_warp :: "shd_warp \<Rightarrow> shd_warp \<Rightarrow> bool" where
  "same_warp w w' \<longleftrightarrow> w_cta_id w' = w_cta_id w \<and> w_warp_id w' = w_warp_id w \<and> w_warp_size w' = w_warp_size w
     \<and> w_dynamic_warp_id w' = w_dynamic_warp_id w \<and> w_done_exit w' = w_done_exit w"

lemma same_warp_refl [simp]: "same_warp w w"
  by (simp add: same_warp_def)

lemma same_warp_trans: "same_warp w w1 \<Longrightarrow> same_warp w1 w2 \<Longrightarrow> same_warp w w2"
  by (simp add: same_warp_def)

lemma lane_done_ok:
  assumes "counts_ok k w" and "lane \<in> w_active_threads w"
  shows "\<exists>w'. lane_done w lane = Some w' \<and> counts_ok k w' \<and> ibuffer_empty w' \<and> w_next w' = w_next w
    \<and> w_active_threads w' = w_active_threads w - {lane} \<and> same_warp w w'"
proof -
  let ?w = "w\<lparr>w_active_threads := w_active_threads w - {lane}, w_n_completed := w_n_completed w + 1\<rparr>"
  have "lane < MAX_WARP_SIZE" using assms by (auto simp: counts_ok_def)
  then have s: "set_completed lane w = Some ?w" using assms(2) by (simp add: set_completed_def bs_test_def)
  have "card (w_active_threads w) = Suc (card (w_active_threads w - {lane}))"
    by (rule card_Suc_Diff1 [symmetric]) (use assms in \<open>simp_all add: counts_ok_def\<close>)
  then have "counts_ok k ?w" using assms(1) by (auto simp: buffer_defs)
  from flush_ok [OF this] show ?thesis by (simp add: lane_done_def s ibuffer_empty_def same_warp_def)
qed

lemma lanes_done_ok:
  assumes "counts_ok k w" and "distinct lanes" and "set lanes \<subseteq> w_active_threads w"
  shows "\<exists>w'. foldM lane_done w lanes = Some w' \<and> counts_ok k w' \<and> (lanes \<noteq> [] \<longrightarrow> ibuffer_empty w') \<and> w_next w' = w_next w
    \<and> w_active_threads w' = w_active_threads w - set lanes \<and> (lanes = [] \<longrightarrow> w' = w) \<and> same_warp w w'"
  using assms
proof (induction lanes arbitrary: w)
  case (Cons l ls)
  then obtain w1 where w1: "lane_done w l = Some w1" "counts_ok k w1" "ibuffer_empty w1" "w_next w1 = w_next w"
    "w_active_threads w1 = w_active_threads w - {l}" "same_warp w w1" using lane_done_ok [of k w l] by auto
  moreover have "set ls \<subseteq> w_active_threads w1" using Cons.prems w1(5) by auto
  ultimately obtain w2 where "foldM lane_done w1 ls = Some w2" "counts_ok k w2" "ls \<noteq> [] \<longrightarrow> ibuffer_empty w2"
    "w_next w2 = w_next w1" "w_active_threads w2 = w_active_threads w1 - set ls" "ls = [] \<longrightarrow> w2 = w1" "same_warp w1 w2"
    using Cons.IH [of w1] Cons.prems by auto
  with w1 show ?case by (cases ls) (auto intro: same_warp_trans)
qed simp

text \<open>The steps of a warp. A block is launched on a warp that is done in hardware. An instruction is issued with
  the threads that end in it; \<open>decode\<close> follows a fetch, which is only for an empty buffer of a warp with
  threads.\<close>

inductive warp_step :: "(u32 \<Rightarrow> pipe_inst option) \<Rightarrow> shd_warp \<times> nat \<Rightarrow> shd_warp \<times> nat \<Rightarrow> bool" for prog where
  launch: "warp_reset w \<bind> warp_init pc cta wid act d = Some w' \<Longrightarrow> hardware_done w \<Longrightarrow> k = 0
    \<Longrightarrow> act \<subseteq> {..<w_warp_size w} \<Longrightarrow> act \<noteq> {} \<Longrightarrow> warp_step prog (w, k) (w', k)"
| decode: "decode prog pc w = Some w' \<Longrightarrow> ibuffer_empty w \<Longrightarrow> \<not> functional_done w \<Longrightarrow> warp_step prog (w, k) (w', k)"
| issue: "ibuffer_next_inst w = Some p \<Longrightarrow> foldM lane_done (ibuffer_free w) lanes = Some w'
    \<Longrightarrow> distinct lanes \<Longrightarrow> set lanes \<subseteq> w_active_threads w \<Longrightarrow> warp_step prog (w, k) (ibuffer_step w', Suc k)"
| flush: "ibuffer_flush w = Some w' \<Longrightarrow> warp_step prog (w, k) (w'\<lparr>w_next_pc := pc\<rparr>, k)"
| writeback: "dec_inst_in_pipeline w = Some w' \<Longrightarrow> warp_step prog (w, Suc k) (w', k)"
| store_req: "warp_step prog (w, k) (inc_store_req w, k)"
| store_ack: "dec_store_req w = Some w' \<Longrightarrow> warp_step prog (w, k) (w', k)"
| exited: "hardware_done w \<Longrightarrow> warp_step prog (w, k) (w\<lparr>w_done_exit := True\<rparr>, k)"

inductive warp_reach :: "(u32 \<Rightarrow> pipe_inst option) \<Rightarrow> shd_warp \<times> nat \<Rightarrow> bool" for prog where
  start: "new_shd_warp cta pc n = Some w \<Longrightarrow> n \<le> MAX_WARP_SIZE \<Longrightarrow> warp_reach prog (w, 0)"
| step: "warp_reach prog s \<Longrightarrow> warp_step prog s s' \<Longrightarrow> warp_reach prog s'"

lemma start_warp_ok:
  assumes "new_shd_warp cta pc n = Some w"
  shows "warp_ok 0 w" and "w_warp_size w = n"
  using assms
  by (auto simp: new_shd_warp_def warp_reset_def warp_ok_def buffer_defs IBUFFER_SIZE_def numeral_2_eq_2)

lemma launch_warp_ok:
  assumes "warp_reset w \<bind> warp_init pc cta wid act d = Some w'" and "warp_ok 0 w" and "w_warp_size w \<le> MAX_WARP_SIZE"
    and "act \<subseteq> {..<w_warp_size w}" and "act \<noteq> {}"
  shows "warp_ok 0 w' \<and> w_warp_size w' = w_warp_size w \<and> w_active_threads w' = act"
proof -
  have fin: "finite act" using assms(4) finite_subset by blast
  have "card act \<le> w_warp_size w" using card_mono [OF _ assms(4)] by simp
  moreover have "card act > 0" using fin assms(5) by (simp add: card_gt_0_iff)
  moreover have "act \<subseteq> {..<MAX_WARP_SIZE}" using assms(3,4) by auto
  moreover have "ibuffer_empty w" using assms(1,2)
    by (auto simp: warp_reset_def bind_eq_Some_conv warp_ok_def buffer_defs filter_empty_conv)
  ultimately show ?thesis using assms(1,2) fin
    by (auto simp: warp_reset_def warp_init_def Let_def bind_eq_Some_conv warp_ok_def buffer_defs)
qed

lemma decode_warp_ok:
  assumes "warp_ok k w" and "ibuffer_empty w" and "\<not> functional_done w"
  shows "\<exists>w'. decode prog pc w = Some w' \<and> warp_ok k w' \<and> w_active_threads w' = w_active_threads w
    \<and> w_warp_size w' = w_warp_size w \<and> ibuffer_next_inst w' = prog pc \<and> ibuffer_next_valid w'"
proof -
  obtain a b where "w_ibuffer w = [a, b]" using assms by (auto simp: warp_ok_def counts_ok_def two_entries)
  then show ?thesis using assms
    by (cases "prog pc"; cases "prog (pc + pi_isize (the (prog pc)))")
      (auto simp: decode_def Let_def ibuffer_fill_def IBUFFER_SIZE_def inc_inst_in_pipeline_def warp_ok_def buffer_defs
        ibuffer_next_inst_def)
qed

text \<open>An instruction leaves the buffer, and threads may end in it.\<close>

definition same_buffer :: "shd_warp \<Rightarrow> shd_warp \<Rightarrow> bool" where
  "same_buffer w w' \<longleftrightarrow> w_ibuffer w' = w_ibuffer w \<and> w_inst_in_pipeline w' = w_inst_in_pipeline w
     \<and> w_n_completed w' = w_n_completed w \<and> w_active_threads w' = w_active_threads w"

lemma free_counts_ok:
  assumes "warp_ok k w" and "ibuffer_next_inst w = Some p"
  shows "counts_ok (Suc k) (ibuffer_free w)"
proof -
  obtain a b where ab: "w_ibuffer w = [a, b]" using assms by (auto simp: warp_ok_def counts_ok_def two_entries)
  have nx: "w_next w = 0 \<or> w_next w = 1" using assms by (auto simp: warp_ok_def counts_ok_def)
  have "ib_valid (w_ibuffer w ! w_next w)"
    using assms ab nx by (auto simp: warp_ok_def counts_ok_def ibuffer_next_inst_def)
  then show ?thesis using assms(1) ab nx by (auto simp: warp_ok_def buffer_defs ibuffer_free_def)
qed

lemma free_step_ok:
  assumes "warp_ok k w" and "ibuffer_next_inst w = Some p" and "counts_ok (Suc k) w'" and "w_next w' = w_next w"
    and "same_warp w w'" and "same_buffer (ibuffer_free w) w' \<or> ibuffer_empty w'"
  shows "warp_ok (Suc k) (ibuffer_step w')"
proof -
  obtain a b where ab: "w_ibuffer w = [a, b]" using assms(1) by (auto simp: warp_ok_def counts_ok_def two_entries)
  have nx: "w_next w = 0 \<or> w_next w = 1" using assms(1) by (auto simp: warp_ok_def counts_ok_def)
  have v: "ib_valid (w_ibuffer w ! w_next w)"
    using assms(1,2) ab nx by (auto simp: warp_ok_def counts_ok_def ibuffer_next_inst_def)
  have c: "counts_ok (Suc k) (ibuffer_step w')" using assms(3) by (simp add: buffer_defs ibuffer_step_def IBUFFER_SIZE_def)
  show ?thesis
  proof (cases "ibuffer_empty w'")
    case True
    with c show ?thesis by (auto simp: warp_ok_def buffer_defs ibuffer_step_def)
  next
    case False
    then have same: "same_buffer (ibuffer_free w) w'" using assms(6) by blast
    then have e: "w_ibuffer w' = (w_ibuffer w)[w_next w := no_entry]" by (simp add: same_buffer_def ibuffer_free_def)
    have "\<not> functional_done w" using assms(1) ab nx v by (auto simp: warp_ok_def buffer_defs)
    then have "\<not> functional_done (ibuffer_step w')" using same assms(5)
      by (simp add: functional_done_def same_buffer_def same_warp_def ibuffer_step_def ibuffer_free_def)
    moreover have "ibuffer_next_valid (ibuffer_step w')"
      using False nx ab assms(4) by (auto simp: ibuffer_empty_def ibuffer_next_valid_def ibuffer_step_def IBUFFER_SIZE_def e)
    ultimately show ?thesis using c by (simp add: warp_ok_def)
  qed
qed

lemma issue_warp_ok:
  assumes "warp_ok k w" and "ibuffer_next_inst w = Some p" and "distinct lanes" and "set lanes \<subseteq> w_active_threads w"
  shows "\<exists>w'. foldM lane_done (ibuffer_free w) lanes = Some w' \<and> warp_ok (Suc k) (ibuffer_step w')
    \<and> w_active_threads w' = w_active_threads w - set lanes \<and> same_warp w (ibuffer_step w')"
proof -
  have f: "counts_ok (Suc k) (ibuffer_free w)" by (rule free_counts_ok [OF assms(1,2)])
  have "set lanes \<subseteq> w_active_threads (ibuffer_free w)" using assms(4) by (simp add: ibuffer_free_def)
  from lanes_done_ok [OF f assms(3) this] obtain w' where
    w': "foldM lane_done (ibuffer_free w) lanes = Some w'" "counts_ok (Suc k) w'"
      "lanes \<noteq> [] \<longrightarrow> ibuffer_empty w'" "w_next w' = w_next (ibuffer_free w)"
      "w_active_threads w' = w_active_threads (ibuffer_free w) - set lanes" "lanes = [] \<longrightarrow> w' = ibuffer_free w"
      "same_warp (ibuffer_free w) w'" by blast
  have s: "same_warp w w'" "w_next w' = w_next w" using w'(4,7) by (simp_all add: ibuffer_free_def same_warp_def)
  have "same_buffer (ibuffer_free w) w' \<or> ibuffer_empty w'" using w'(3,6) by (cases "lanes = []") (auto simp: same_buffer_def)
  from free_step_ok [OF assms(1,2) w'(2) s(2,1) this] w'(1,5) s(1) show ?thesis
    by (auto simp: ibuffer_free_def ibuffer_step_def same_warp_def)
qed

lemma flush_warp_ok:
  assumes "warp_ok k w"
  shows "\<exists>w'. ibuffer_flush w = Some w' \<and> warp_ok k (w'\<lparr>w_next_pc := pc\<rparr>) \<and> ibuffer_empty w' \<and> same_warp w w'
    \<and> w_active_threads w' = w_active_threads w"
proof -
  have c: "counts_ok k w" using assms by (simp add: warp_ok_def)
  show ?thesis unfolding flush_ok(1) [OF c]
    using flush_ok(2) [OF c] by (auto simp: warp_ok_def buffer_defs same_warp_def)
qed

text \<open>The size of a warp stays what the constructor made it, and the counts are right in every run.\<close>

definition life_ok :: "shd_warp \<times> nat \<Rightarrow> bool" where
  "life_ok s \<longleftrightarrow> warp_ok (snd s) (fst s) \<and> w_warp_size (fst s) \<le> MAX_WARP_SIZE"

lemma warp_step_ok:
  assumes "warp_step prog s s'" and "life_ok s"
  shows "life_ok s'"
  using assms
proof (induction rule: warp_step.induct)
  case (launch w pc cta wid act d w' k)
  then have ok: "warp_ok 0 w" "w_warp_size w \<le> MAX_WARP_SIZE" by (simp_all add: life_ok_def)
  from launch_warp_ok [OF launch(1) ok launch(4,5)] launch(3) ok(2) show ?case by (simp add: life_ok_def)
next
  case (decode pc w w' k)
  then have ok: "warp_ok k w" by (simp add: life_ok_def)
  from decode_warp_ok [OF ok decode(2,3), of prog pc] decode show ?case by (auto simp: life_ok_def)
next
  case (issue w p lanes w' k)
  then have ok: "warp_ok k w" by (simp add: life_ok_def)
  from issue_warp_ok [OF ok issue(1,3,4)] issue show ?case by (auto simp: life_ok_def same_warp_def)
next
  case (flush w w' k pc)
  then have ok: "warp_ok k w" by (simp add: life_ok_def)
  from flush_warp_ok [OF ok, of pc] flush show ?case by (auto simp: life_ok_def same_warp_def)
qed (auto simp: life_ok_def warp_ok_def buffer_defs dec_inst_in_pipeline_def inc_store_req_def dec_store_req_def bind_eq_Some_conv)

lemma warp_reach_ok: "warp_reach prog s \<Longrightarrow> life_ok s"
proof (induction rule: warp_reach.induct)
  case start
  then show ?case using start_warp_ok by (auto simp: life_ok_def)
next
  case step
  then show ?case by (blast intro: warp_step_ok)
qed

section \<open>Properties\<close>

text \<open>C22. In every run of a warp the number of instructions in its pipeline is that of the valid entries of its buffer
  and of its issued instructions that are not written back, and the threads completed are those that are not active.
  A warp that is done in hardware has no thread, no instruction in its buffer and none under way, and can be reset.
  The entry a warp issues from is valid whenever its buffer is not empty. Neither a flush, nor the end of a running
  thread, nor writing back an instruction under way fails an assertion.\<close>

theorem warp_counts_exact:
  assumes "warp_reach prog (w, k)"
  shows "w_inst_in_pipeline w = num_inst_in_buffer w + k \<and> num_issued_inst_in_pipeline w = k
    \<and> w_n_completed w + card (w_active_threads w) = w_warp_size w \<and> (functional_done w \<longleftrightarrow> w_active_threads w = {})
    \<and> (hardware_done w \<longleftrightarrow> w_active_threads w = {} \<and> stores_done w \<and> k = 0)
    \<and> (hardware_done w \<longrightarrow> ibuffer_empty w \<and> warp_reset w \<noteq> None)
    \<and> (\<not> ibuffer_empty w \<longrightarrow> ibuffer_next_valid w)
    \<and> ibuffer_flush w \<noteq> None \<and> (\<forall>lane \<in> w_active_threads w. lane_done w lane \<noteq> None)
    \<and> (k > 0 \<longrightarrow> dec_inst_in_pipeline w \<noteq> None)"
proof -
  have ok: "warp_ok k w" using warp_reach_ok [OF assms] by (simp add: life_ok_def)
  then have c: "counts_ok k w" by (simp add: warp_ok_def)
  have pl: "w_inst_in_pipeline w = num_inst_in_buffer w + k" using c by (simp add: counts_ok_def)
  have fd: "functional_done w \<longleftrightarrow> w_active_threads w = {}" using c by (auto simp: counts_ok_def functional_done_def)
  have em: "functional_done w \<Longrightarrow> num_inst_in_buffer w = 0"
    using ok by (simp add: warp_ok_def ibuffer_empty_def num_inst_in_buffer_def)
  have hd: "hardware_done w \<longleftrightarrow> w_active_threads w = {} \<and> stores_done w \<and> k = 0"
    using pl fd em by (auto simp: hardware_done_def inst_in_pipeline_def)
  have rs: "hardware_done w \<Longrightarrow> ibuffer_empty w \<and> warp_reset w \<noteq> None"
    using ok by (auto simp: hardware_done_def warp_ok_def stores_done_def inst_in_pipeline_def warp_reset_def)
  have ld: "\<forall>lane \<in> w_active_threads w. lane_done w lane \<noteq> None" using lane_done_ok [OF c] by fastforce
  have "ibuffer_flush w \<noteq> None" using flush_ok(1) [OF c] by simp
  then show ?thesis
    using ok c pl fd hd rs ld by (auto simp: warp_ok_def counts_ok_def num_issued_inst_in_pipeline_def dec_inst_in_pipeline_def)
qed

definition two_adds :: "u32 \<Rightarrow> pipe_inst option" where
  "two_adds pc = (if pc < 16 then Some (inst.extend add_r3 \<lparr>pi_pc = pc, pi_isize = 8, pi_op = ALU_OP,
     pi_reconvergence_pc = - 1, pi_initiation_interval = 1, pi_decoded = True, pi_isatomic = False, pi_empty = False,
     pi_uid = 0, pi_warp_active_mask = {}, pi_warp_issued_mask = {}, pi_dynamic_warp_id = 0, pi_issue_cycle = 0,
     pi_cycles = 0\<rparr>) else None)"

text \<open>A warp of four threads with two instructions in its buffer.\<close>

definition fresh_warp :: shd_warp where "fresh_warp = the (new_shd_warp 0 0 4)"
definition launched_warp :: shd_warp where "launched_warp = the (warp_reset fresh_warp \<bind> warp_init 0 0 0 {0, 1, 2, 3} 7)"
definition loaded_warp :: shd_warp where "loaded_warp = the (decode two_adds 0 launched_warp)"

lemma loaded_warp_reach: "warp_reach two_adds (loaded_warp, 0)"
proof -
  have f: "new_shd_warp 0 0 4 = Some fresh_warp" by (simp add: fresh_warp_def new_shd_warp_def warp_reset_def)
  have l: "warp_reset fresh_warp \<bind> warp_init 0 0 0 {0, 1, 2, 3} 7 = Some launched_warp"
    by (simp add: launched_warp_def fresh_warp_def new_shd_warp_def warp_reset_def warp_init_def)
  have d: "decode two_adds 0 launched_warp = Some loaded_warp"
    by (simp add: loaded_warp_def launched_warp_def fresh_warp_def new_shd_warp_def warp_reset_def warp_init_def decode_def
        ibuffer_fill_def two_adds_def IBUFFER_SIZE_def inst.defs Let_def)
  have "warp_reach two_adds (launched_warp, 0)"
    by (rule warp_reach.step [OF warp_reach.start [OF f] warp_step.launch [OF l]])
      (auto simp: MAX_WARP_SIZE_def fresh_warp_def new_shd_warp_def warp_reset_def hardware_done_def functional_done_def
        stores_done_def inst_in_pipeline_def)
  then show ?thesis
    by (rule warp_reach.step [OF _ warp_step.decode [OF d]])
      (simp_all add: launched_warp_def fresh_warp_def new_shd_warp_def warp_reset_def warp_init_def ibuffer_empty_def
        functional_done_def IBUFFER_SIZE_def no_entry_def)
qed

theorem warp_counts_exact_witness:
  "w_inst_in_pipeline loaded_warp = num_inst_in_buffer loaded_warp + 0 \<and> ibuffer_flush loaded_warp \<noteq> None"
  using warp_counts_exact [OF loaded_warp_reach] by blast

end
