(* ===== verification/Register_Set.thy ===== *)
theory Register_Set
  imports Shd_Warp
begin

text \<open>
  The registers between the stages of a core, \<open>register_set\<close> of \<open>abstract_hardware_model.h\<close>: a set holds several
  instructions, empty ones are free. Used by the issue stage and by the operand collectors.
\<close>

definition has_free :: "'a pipe_inst_scheme list \<Rightarrow> bool" where
  "has_free regs \<longleftrightarrow> (\<exists>r \<in> set regs. pi_empty r)"

definition has_ready :: "'a pipe_inst_scheme list \<Rightarrow> bool" where
  "has_ready regs \<longleftrightarrow> (\<exists>r \<in> set regs. \<not> pi_empty r)"

text \<open>Positions of the registers; \<open>get_free\<close> fails an assertion when there is none.\<close>

definition get_free :: "'a pipe_inst_scheme list \<Rightarrow> nat option" where
  "get_free regs = find (\<lambda>i. pi_empty (regs ! i)) [0..<length regs]"

definition ready_step :: "'a pipe_inst_scheme list \<Rightarrow> nat option \<Rightarrow> nat \<Rightarrow> nat option" where
  "ready_step regs ready i =
     (if \<not> pi_empty (regs ! i)
      then (case ready of
              None \<Rightarrow> Some i
            | Some r \<Rightarrow> if pi_uid (regs ! r) < pi_uid (regs ! i) then ready else Some i)
      else ready)"

definition get_ready :: "'a pipe_inst_scheme list \<Rightarrow> nat option" where
  "get_ready regs = foldl (ready_step regs) None [0..<length regs]"

text \<open>\<open>move_warp\<close> swaps the two instructions: the new destination and the cleared source.\<close>

definition move_warp :: "'a pipe_inst_scheme \<Rightarrow> 'a pipe_inst_scheme \<Rightarrow> ('a pipe_inst_scheme \<times> 'a pipe_inst_scheme) option" where
  "move_warp dst src = do {
     _ \<leftarrow> assert_c (pi_empty dst);
     Some (src, clear dst) }"

definition move_in :: "'a pipe_inst_scheme \<Rightarrow> 'a pipe_inst_scheme list \<Rightarrow> ('a pipe_inst_scheme \<times> 'a pipe_inst_scheme list) option" where
  "move_in src regs = do {
     i \<leftarrow> get_free regs;
     (dst, src) \<leftarrow> move_warp (regs ! i) src;
     Some (src, regs[i := dst]) }"

definition move_out_to :: "'a pipe_inst_scheme \<Rightarrow> 'a pipe_inst_scheme list \<Rightarrow> ('a pipe_inst_scheme \<times> 'a pipe_inst_scheme list) option" where
  "move_out_to dest regs = do {
     i \<leftarrow> get_ready regs;
     (dst, src) \<leftarrow> move_warp dest (regs ! i);
     Some (dst, regs[i := src]) }"

lemma get_free_has: "has_free regs \<Longrightarrow> \<exists>i < length regs. get_free regs = Some i \<and> pi_empty (regs ! i)"
proof -
  assume "has_free regs"
  then obtain j where "j < length regs" "pi_empty (regs ! j)" by (auto simp: has_free_def in_set_conv_nth)
  then have "find (\<lambda>i. pi_empty (regs ! i)) [0..<length regs] \<noteq> None" by (auto simp: find_None_iff)
  then obtain i where i: "find (\<lambda>i. pi_empty (regs ! i)) [0..<length regs] = Some i" by auto
  then have "i < length regs \<and> pi_empty (regs ! i)" by (auto simp: find_Some_iff)
  with i show ?thesis by (auto simp: get_free_def)
qed

end
