(* ===== verification/Warp_Order.thy ===== *)
theory Warp_Order
  imports Shd_Warp "HOL-Library.Multiset"
begin

text \<open>
  The order in which a warp scheduler of \<open>gpgpu-sim/shader.cc\<close> tries its warps: loose round robin, greedy then
  oldest, two levels of active and pending warps, and a limited number of warps. A pointer to a warp is its position
  in the table of warps; an iterator is a position in its list, the length being \<open>end()\<close>. Using the element at
  \<open>end()\<close> or the front of an empty queue is \<open>None\<close>. What \<open>std::sort\<close> promises is an interface: the order of
  equivalent elements is left open.
\<close>

section \<open>The two orders\<close>

text \<open>The loop of \<open>order_lrr\<close> that adds \<open>n\<close> more elements from \<open>iter\<close> on.\<close>

primrec lrr_loop :: "'a list \<Rightarrow> nat \<Rightarrow> nat \<Rightarrow> 'a list" where
  "lrr_loop input_list 0 iter = []"
| "lrr_loop input_list (Suc n) iter =
     (let iter = (if iter = length input_list then 0 else iter)
      in input_list ! iter # lrr_loop input_list n (Suc iter))"

definition order_lrr :: "'a list \<Rightarrow> nat \<Rightarrow> nat \<Rightarrow> 'a list option" where
  "order_lrr input_list last_issued num_warps_to_add = do {
     _ \<leftarrow> assert_c (num_warps_to_add \<le> length input_list);
     Some (lrr_loop input_list num_warps_to_add
       (if last_issued = length input_list then 0 else last_issued + 1)) }"

datatype ordering_type = ORDERING_GREEDY_THEN_PRIORITY_FUNC | ORDERED_PRIORITY_FUNC_ONLY | NUM_ORDERING

type_synonym 'a sorter = "('a \<Rightarrow> 'a \<Rightarrow> bool) \<Rightarrow> 'a list \<Rightarrow> 'a list"

definition order_by_priority :: "'a sorter \<Rightarrow> 'a list \<Rightarrow> nat \<Rightarrow> nat \<Rightarrow> ordering_type \<Rightarrow> ('a \<Rightarrow> 'a \<Rightarrow> bool) \<Rightarrow> 'a list option" where
  "order_by_priority std_sort input_list last_issued num_warps_to_add ord_kind priority_func = do {
     _ \<leftarrow> assert_c (num_warps_to_add \<le> length input_list);
     let temp = std_sort priority_func input_list;
     case ord_kind of
       ORDERING_GREEDY_THEN_PRIORITY_FUNC \<Rightarrow> do {
         greedy_value \<leftarrow> at_get input_list last_issued;
         Some (greedy_value # filter (\<lambda>x. x \<noteq> greedy_value) (take num_warps_to_add temp)) }
     | ORDERED_PRIORITY_FUNC_ONLY \<Rightarrow> Some (take num_warps_to_add temp)
     | NUM_ORDERING \<Rightarrow> None }"

text \<open>Which of two warps is tried first; \<open>waits\<close> is the value of \<open>waiting\<close>.\<close>

definition sort_warps_by_oldest_dynamic_id :: "(nat \<Rightarrow> bool) \<Rightarrow> shd_warp list \<Rightarrow> nat \<Rightarrow> nat \<Rightarrow> bool" where
  "sort_warps_by_oldest_dynamic_id waits ws lhs rhs =
     (if w_done_exit (ws ! lhs) \<or> waits lhs then False
      else if w_done_exit (ws ! rhs) \<or> waits rhs then True
      else w_dynamic_warp_id (ws ! lhs) < w_dynamic_warp_id (ws ! rhs))"

section \<open>Schedulers\<close>

datatype prioritization = SCHEDULER_PRIORITIZATION_LRR | SCHEDULER_PRIORITIZATION_SRR | SCHEDULER_PRIORITIZATION_GTO
  | SCHEDULER_PRIORITIZATION_GTLRR | SCHEDULER_PRIORITIZATION_GTY | SCHEDULER_PRIORITIZATION_OLDEST
  | SCHEDULER_PRIORITIZATION_YOUNGEST

text \<open>The classes derived from \<open>scheduler_unit\<close> with their parameters: the number of active warps and the inner and
  outer order of the two level scheduler, the order and the number of warps of the limiting one.\<close>

datatype scheduler_class = lrr_scheduler | gto_scheduler
  | two_level_active_scheduler nat prioritization prioritization
  | swl_scheduler prioritization nat

record scheduler_unit =
  s_class :: scheduler_class
  m_next_cycle_prioritized_warps :: "nat list"
  m_supervised_warps :: "nat list"
  m_pending_warps :: "nat list"
  m_last_supervised_issued :: nat

definition new_scheduler :: "scheduler_class \<Rightarrow> nat \<Rightarrow> scheduler_unit option" where
  "new_scheduler c max_warps_per_shader = do {
     _ \<leftarrow> (case c of
            swl_scheduler p n \<Rightarrow> assert_c (p = SCHEDULER_PRIORITIZATION_GTO \<and> n \<le> max_warps_per_shader)
          | _ \<Rightarrow> Some ());
     Some \<lparr>s_class = c, m_next_cycle_prioritized_warps = [], m_supervised_warps = [], m_pending_warps = [],
       m_last_supervised_issued = 0\<rparr> }"

definition add_supervised_warp_id :: "scheduler_unit \<Rightarrow> nat \<Rightarrow> scheduler_unit" where
  "add_supervised_warp_id s i =
     (case s_class s of
        two_level_active_scheduler m_max_active_warps _ _ \<Rightarrow>
          if length (m_next_cycle_prioritized_warps s) < m_max_active_warps
          then s\<lparr>m_next_cycle_prioritized_warps := m_next_cycle_prioritized_warps s @ [i]\<rparr>
          else s\<lparr>m_pending_warps := m_pending_warps s @ [i]\<rparr>
      | _ \<Rightarrow> s\<lparr>m_supervised_warps := m_supervised_warps s @ [i]\<rparr>)"

definition done_adding_supervised_warps :: "scheduler_unit \<Rightarrow> scheduler_unit" where
  "done_adding_supervised_warps s =
     s\<lparr>m_last_supervised_issued := (if s_class s = lrr_scheduler then length (m_supervised_warps s) else 0)\<rparr>"

text \<open>The constructor of the core deals the warps out to its schedulers.\<close>

definition create_schedulers :: "scheduler_class \<Rightarrow> nat \<Rightarrow> nat \<Rightarrow> nat \<Rightarrow> scheduler_unit list option" where
  "create_schedulers c n_sched max_warps_per_shader n_warps = do {
     s \<leftarrow> new_scheduler c max_warps_per_shader;
     Some (map done_adding_supervised_warps
       (foldl (\<lambda>ss i. ss[i mod n_sched := add_supervised_warp_id (ss ! (i mod n_sched)) i]) (replicate n_sched s) [0..<n_warps])) }"

subsection \<open>The order of each class\<close>

text \<open>Does the next instruction of a warp wait for a register that a long operation writes?\<close>

definition waits_for_long_op :: "scoreboard \<Rightarrow> shd_warp \<Rightarrow> bool option" where
  "waits_for_long_op sb w =
     foldM (\<lambda>wt i. case ibuffer_next_inst w of
         None \<Rightarrow> Some wt
       | Some p \<Rightarrow>
           if inst_in p ! i > 0
           then islongop (w_warp_id w) (inst_in p ! i) sb \<bind> (\<lambda>b. Some (wt \<or> b))
           else Some wt) False [0..<4]"

text \<open>The demotion of the waiting active warps: the active warps so far, the pending ones and the count.\<close>

definition demote_step :: "(nat \<Rightarrow> bool) \<Rightarrow> scoreboard \<Rightarrow> shd_warp list \<Rightarrow> nat list \<times> nat list \<times> nat \<Rightarrow> nat
    \<Rightarrow> (nat list \<times> nat list \<times> nat) option" where
  "demote_step waits sb ws = (\<lambda>(active, pend, num_demoted) k. do {
     long \<leftarrow> waits_for_long_op sb (ws ! k);
     Some (if waits k \<or> long then (active, pend @ [k], num_demoted + 1)
           else (active @ [k], pend, num_demoted)) })"

text \<open>The promotion of pending warps while there is room; the count is of the warps promoted.\<close>

fun promote :: "nat \<Rightarrow> nat list \<Rightarrow> nat list \<Rightarrow> nat \<Rightarrow> (nat list \<times> nat list \<times> nat) option" where
  "promote max_active active pend num_promoted =
     (if length active < max_active
      then (case pend of
              [] \<Rightarrow> None
            | k # ks \<Rightarrow> promote max_active (active @ [k]) ks (num_promoted + 1))
      else Some (active, pend, num_promoted))"

declare promote.simps [simp del]

definition two_level_order_warps :: "(nat \<Rightarrow> bool) \<Rightarrow> scoreboard \<Rightarrow> shd_warp list \<Rightarrow> nat \<Rightarrow> prioritization
    \<Rightarrow> nat list \<Rightarrow> nat list \<Rightarrow> (nat list \<times> nat list) option" where
  "two_level_order_warps waits sb ws m_max_active_warps outer active pend = do {
     (active, pend, num_demoted) \<leftarrow> foldM (demote_step waits sb ws) ([], pend, 0) active;
     _ \<leftarrow> assert_c (outer = SCHEDULER_PRIORITIZATION_SRR);
     (active, pend, num_promoted) \<leftarrow> promote m_max_active_warps active pend 0;
     _ \<leftarrow> assert_c (num_promoted = num_demoted);
     Some (active, pend) }"

definition lrr_order_warps :: "scheduler_unit \<Rightarrow> scheduler_unit option" where
  "lrr_order_warps s = do {
     r \<leftarrow> order_lrr (m_supervised_warps s) (m_last_supervised_issued s) (length (m_supervised_warps s));
     Some (s\<lparr>m_next_cycle_prioritized_warps := r\<rparr>) }"

definition gto_order_warps :: "nat sorter \<Rightarrow> (nat \<Rightarrow> bool) \<Rightarrow> shd_warp list \<Rightarrow> scheduler_unit \<Rightarrow> scheduler_unit option" where
  "gto_order_warps std_sort waits ws s = do {
     r \<leftarrow> order_by_priority std_sort (m_supervised_warps s) (m_last_supervised_issued s)
       (length (m_supervised_warps s)) ORDERING_GREEDY_THEN_PRIORITY_FUNC (sort_warps_by_oldest_dynamic_id waits ws);
     Some (s\<lparr>m_next_cycle_prioritized_warps := r\<rparr>) }"

definition swl_order_warps :: "nat sorter \<Rightarrow> (nat \<Rightarrow> bool) \<Rightarrow> shd_warp list \<Rightarrow> prioritization \<Rightarrow> nat \<Rightarrow> scheduler_unit
    \<Rightarrow> scheduler_unit option" where
  "swl_order_warps std_sort waits ws m_prioritization m_num_warps_to_limit s = do {
     _ \<leftarrow> assert_c (m_prioritization = SCHEDULER_PRIORITIZATION_GTO);
     r \<leftarrow> order_by_priority std_sort (m_supervised_warps s) (m_last_supervised_issued s)
       (min m_num_warps_to_limit (length (m_supervised_warps s))) ORDERING_GREEDY_THEN_PRIORITY_FUNC
       (sort_warps_by_oldest_dynamic_id waits ws);
     Some (s\<lparr>m_next_cycle_prioritized_warps := r\<rparr>) }"

text \<open>The virtual function of the classes. \<open>waiting\<close>, which they call, clears the flag of a memory barrier that is
  over; that changes no later answer (\<open>waiting_again\<close>), so it is left to the calls of \<open>cycle\<close>.\<close>

definition order_warps :: "nat sorter \<Rightarrow> (nat \<Rightarrow> bool) \<Rightarrow> scoreboard \<Rightarrow> shd_warp list \<Rightarrow> scheduler_unit \<Rightarrow> scheduler_unit option" where
  "order_warps std_sort waits sb ws s =
     (case s_class s of
        lrr_scheduler \<Rightarrow> lrr_order_warps s
      | gto_scheduler \<Rightarrow> gto_order_warps std_sort waits ws s
      | two_level_active_scheduler m_max_active_warps _ outer \<Rightarrow> do {
          (active, pend) \<leftarrow> two_level_order_warps waits sb ws m_max_active_warps outer
            (m_next_cycle_prioritized_warps s) (m_pending_warps s);
          Some (s\<lparr>m_next_cycle_prioritized_warps := active, m_pending_warps := pend\<rparr>) }
      | swl_scheduler p n \<Rightarrow> swl_order_warps std_sort waits ws p n s)"

lemmas order_warps_defs = order_warps_def lrr_order_warps_def gto_order_warps_def swl_order_warps_def

text \<open>What a class does besides \<open>ibuffer_step\<close> when the warp at a position of its list has issued.\<close>

definition reorder_on_issue :: "nat \<Rightarrow> scheduler_unit \<Rightarrow> scheduler_unit option" where
  "reorder_on_issue prioritized_iter s =
     (case s_class s of
        two_level_active_scheduler _ inner _ \<Rightarrow> do {
          _ \<leftarrow> assert_c (inner = SCHEDULER_PRIORITIZATION_LRR);
          r \<leftarrow> order_lrr (m_next_cycle_prioritized_warps s) prioritized_iter (length (m_next_cycle_prioritized_warps s));
          Some (s\<lparr>m_next_cycle_prioritized_warps := r\<rparr>) }
      | _ \<Rightarrow> Some s)"

text \<open>The search of \<open>cycle\<close> for the warp that issued among the supervised ones.\<close>

definition find_supervised :: "'a list \<Rightarrow> 'a \<Rightarrow> nat \<Rightarrow> nat" where
  "find_supervised supervised k la = foldl (\<lambda>la i. if supervised ! i = k then i else la) la [0..<length supervised]"

lemma find_supervised_notin:
  assumes "k \<notin> set xs"
  shows "find_supervised xs k la = la"
proof -
  have ne: "i < length xs \<Longrightarrow> xs ! i \<noteq> k" for i using assms by auto
  have "m \<le> length xs \<Longrightarrow> foldl (\<lambda>la i. if xs ! i = k then i else la) la [0..<m] = la" for m
    by (induction m) (simp_all add: ne)
  then show ?thesis by (simp add: find_supervised_def)
qed

lemma find_supervised_nth: "distinct xs \<Longrightarrow> l < length xs \<Longrightarrow> find_supervised xs (xs ! l) la = l"
proof -
  assume *: "distinct xs" "l < length xs"
  have "m \<le> length xs \<Longrightarrow> foldl (\<lambda>la i. if xs ! i = xs ! l then i else la) la [0..<m] = (if l < m then l else la)" for m
    by (induction m) (use * in \<open>auto simp: nth_eq_iff_index_eq\<close>)
  with * show ?thesis by (simp add: find_supervised_def)
qed

section \<open>Loose round robin\<close>

lemma length_lrr_loop [simp]: "length (lrr_loop xs n i) = n"
  by (induction n arbitrary: i) (simp_all add: Let_def)

lemma lrr_loop_nth:
  assumes "j < n" and "i \<le> length xs" and "xs \<noteq> []"
  shows "lrr_loop xs n i ! j = xs ! ((i + j) mod length xs)"
  using assms
proof (induction n arbitrary: i j)
  case (Suc n)
  show ?case
  proof (cases j)
    case 0
    then show ?thesis using Suc.prems by (auto simp: Let_def)
  next
    case (Suc j')
    have "lrr_loop xs (Suc n) i ! j = lrr_loop xs n (Suc (if i = length xs then 0 else i)) ! j'"
      by (simp add: Let_def Suc)
    also have "\<dots> = xs ! ((Suc (if i = length xs then 0 else i) + j') mod length xs)"
      by (rule Suc.IH) (use Suc Suc.prems in \<open>auto simp: Suc_le_eq\<close>)
    also have "(Suc (if i = length xs then 0 else i) + j') mod length xs = (i + j) mod length xs"
    proof (cases "i = length xs")
      case True
      have "(length xs + j) mod length xs = j mod length xs" by simp
      with True Suc show ?thesis by (simp del: mod_add_self1)
    next
      case False
      with Suc show ?thesis by simp
    qed
    finally show ?thesis .
  qed
qed simp

lemma lrr_loop_rotate:
  assumes "n \<le> length xs" and "i \<le> length xs"
  shows "lrr_loop xs n i = take n (rotate i xs)"
proof (cases "xs = []")
  case False
  show ?thesis
  proof (rule nth_equalityI)
    show "length (lrr_loop xs n i) = length (take n (rotate i xs))" using assms by simp
    fix j assume "j < length (lrr_loop xs n i)"
    then show "lrr_loop xs n i ! j = take n (rotate i xs) ! j"
      using lrr_loop_nth [OF _ assms(2) False] assms by (simp add: nth_rotate)
  qed
qed (use assms in simp)

lemma order_lrr_rotate:
  assumes "la \<le> length xs" and "n \<le> length xs"
  shows "order_lrr xs la n = Some (take n (rotate (if la = length xs then 0 else Suc la) xs))"
  using assms by (simp add: order_lrr_def lrr_loop_rotate)

text \<open>When the first warp in the order that is able to issue does so, every warp before it in the order was
  passed over, and those behind it move up by more than its place.\<close>

lemma rotate_move_up:
  assumes "distinct xs" and "n = length xs" and "q < p" and "p < n" and "i \<le> n" and "xs ! l = rotate i xs ! q" and "l < n"
  shows "rotate (Suc l) xs ! (p - Suc q) = rotate i xs ! p"
proof -
  have "xs ! l = xs ! ((i + q) mod n)" using assms by (simp add: nth_rotate)
  then have l: "l = (i + q) mod n" using assms by (metis mod_less_divisor nth_eq_iff_index_eq order_le_less_trans zero_le)
  have "(Suc l + (p - Suc q)) mod n = (i + p) mod n"
  proof -
    have "Suc l + (p - Suc q) = (i + q) mod n + (p - q)" using assms(3) l by simp
    then have "(Suc l + (p - Suc q)) mod n = ((i + q) + (p - q)) mod n" by (simp only: mod_add_left_eq)
    then show ?thesis using assms(3) by simp
  qed
  moreover have "rotate (Suc l) xs ! (p - Suc q) = xs ! ((Suc l + (p - Suc q)) mod n)"
    using assms by (subst nth_rotate) auto
  ultimately show ?thesis using assms by (simp only: nth_rotate)
qed

text \<open>The contract of a fair order: the element issued from is put behind all that were passed over.\<close>

locale fair_order =
  fixes order :: "'s \<Rightarrow> 'a list" and issued :: "'a \<Rightarrow> 's \<Rightarrow> 's" and wf :: "'s \<Rightarrow> bool"
  assumes keeps: "wf s \<Longrightarrow> k \<in> set (order s) \<Longrightarrow> wf (issued k s) \<and> length (order (issued k s)) = length (order s)"
    and moves_up: "wf s \<Longrightarrow> q < p \<Longrightarrow> p < length (order s) \<Longrightarrow> order (issued (order s ! q) s) ! (p - Suc q) = order s ! p"
begin

text \<open>Each cycle issues from the first element in the order that is able to.\<close>

primrec picks :: "'s \<Rightarrow> 'a set list \<Rightarrow> 'a option list" where
  "picks s [] = []"
| "picks s (able # ables) =
     (case find (\<lambda>k. k \<in> able) (order s) of
        None \<Rightarrow> None # picks s ables
      | Some k \<Rightarrow> Some k # picks (issued k s) ables)"

lemma served:
  assumes "wf s" and "p < length (order s)" and "order s ! p = k" and "p < length ables" and "\<forall>able \<in> set ables. k \<in> able"
  shows "Some k \<in> set (picks s ables)"
  using assms
proof (induction ables arbitrary: s p)
  case (Cons able ables)
  have "\<exists>x \<in> set (order s). x \<in> able" using Cons.prems by (intro bexI [of _ "order s ! p"]) auto
  then obtain j where j: "find (\<lambda>k. k \<in> able) (order s) = Some j"
    using find_None_iff2 [of "\<lambda>k. k \<in> able" "order s"] by (cases "find (\<lambda>k. k \<in> able) (order s)") auto
  then obtain q where q: "q < length (order s)" "order s ! q = j" "\<forall>i < q. order s ! i \<notin> able"
    by (auto simp: find_Some_iff)
  show ?case
  proof (cases "j = k")
    case True
    with j show ?thesis by simp
  next
    case False
    have "q < p" using q Cons.prems False by (metis linorder_neqE_nat list.set_intros(1))
    have "j \<in> set (order s)" using q by auto
    then have kp: "wf (issued j s)" "length (order (issued j s)) = length (order s)"
      using keeps [OF Cons.prems(1)] by blast+
    have "order (issued j s) ! (p - Suc q) = k"
      using moves_up [OF Cons.prems(1) \<open>q < p\<close> Cons.prems(2)] q(2) Cons.prems(3) by simp
    then have "Some k \<in> set (picks (issued j s) ables)"
      using Cons.IH [of "issued j s" "p - Suc q"] kp Cons.prems \<open>q < p\<close> by simp
    with j show ?thesis by simp
  qed
qed simp

end

text \<open>The supervised warps and the position of the one that issued last.\<close>

definition lrr_order :: "'a list \<times> nat \<Rightarrow> 'a list" where
  "lrr_order s = the (order_lrr (fst s) (snd s) (length (fst s)))"

definition lrr_issued :: "'a \<Rightarrow> 'a list \<times> nat \<Rightarrow> 'a list \<times> nat" where
  "lrr_issued k s = (fst s, find_supervised (fst s) k (snd s))"

definition lrr_wf :: "'a list \<times> nat \<Rightarrow> bool" where
  "lrr_wf s \<longleftrightarrow> distinct (fst s) \<and> snd s \<le> length (fst s)"

lemma lrr_order_rotate:
  "lrr_wf s \<Longrightarrow> lrr_order s = rotate (if snd s = length (fst s) then 0 else Suc (snd s)) (fst s)"
  by (simp add: lrr_wf_def lrr_order_def order_lrr_rotate)

lemma lrr_issued_at:
  assumes "lrr_wf s" and "k \<in> set (fst s)"
  shows "\<exists>l < length (fst s). fst s ! l = k \<and> lrr_issued k s = (fst s, l) \<and> lrr_wf (lrr_issued k s)
    \<and> lrr_order (lrr_issued k s) = rotate (Suc l) (fst s)"
proof -
  obtain l where l: "l < length (fst s)" "fst s ! l = k" using assms(2) by (auto simp: in_set_conv_nth)
  then have e: "lrr_issued k s = (fst s, l)"
    using assms(1) by (auto simp: lrr_issued_def lrr_wf_def find_supervised_nth)
  then have "lrr_wf (lrr_issued k s)" using l assms(1) by (simp add: lrr_wf_def)
  with l e show ?thesis using lrr_order_rotate [of "lrr_issued k s"] by auto
qed

interpretation lrr: fair_order lrr_order lrr_issued lrr_wf
proof
  fix s :: "'a list \<times> nat" and k
  assume wf: "lrr_wf s" and k: "k \<in> set (lrr_order s)"
  then have "k \<in> set (fst s)" by (simp add: lrr_order_rotate)
  then obtain l where "lrr_wf (lrr_issued k s)" "lrr_order (lrr_issued k s) = rotate (Suc l) (fst s)"
    using lrr_issued_at [OF wf] by blast
  then show "lrr_wf (lrr_issued k s) \<and> length (lrr_order (lrr_issued k s)) = length (lrr_order s)"
    by (simp add: lrr_order_rotate [OF wf])
next
  fix s :: "'a list \<times> nat" and q p
  assume wf: "lrr_wf s" and qp: "q < p" "p < length (lrr_order s)"
  let ?i = "if snd s = length (fst s) then 0 else Suc (snd s)"
  have r: "lrr_order s = rotate ?i (fst s)" by (rule lrr_order_rotate [OF wf])
  have "lrr_order s ! q \<in> set (lrr_order s)" using qp by simp
  then have "lrr_order s ! q \<in> set (fst s)" by (simp add: r)
  then obtain l where l: "l < length (fst s)" "fst s ! l = lrr_order s ! q"
    "lrr_order (lrr_issued (lrr_order s ! q) s) = rotate (Suc l) (fst s)" using lrr_issued_at [OF wf] by blast
  have "rotate (Suc l) (fst s) ! (p - Suc q) = rotate ?i (fst s) ! p"
    by (rule rotate_move_up [where n = "length (fst s)"])
      (use wf qp l in \<open>simp_all add: r lrr_wf_def split: if_splits\<close>)
  then show "lrr_order (lrr_issued (lrr_order s ! q) s) ! (p - Suc q) = lrr_order s ! p" by (subst l(3)) (simp only: r)
qed

section \<open>Greedy then oldest\<close>

definition strict_weak_order :: "('a \<Rightarrow> 'a \<Rightarrow> bool) \<Rightarrow> bool" where
  "strict_weak_order lt \<longleftrightarrow> (\<forall>x y. lt x y \<longrightarrow> \<not> lt y x) \<and> (\<forall>x y z. lt x z \<longrightarrow> lt x y \<or> lt y z)"

lemma oldest_strict_weak: "strict_weak_order (sort_warps_by_oldest_dynamic_id waits ws)"
  by (auto simp: strict_weak_order_def sort_warps_by_oldest_dynamic_id_def)

text \<open>What the language promises of \<open>std::sort\<close>.\<close>

locale cpp_sort =
  fixes srt :: "'a sorter"
  assumes sorts: "strict_weak_order lt \<Longrightarrow> mset (srt lt xs) = mset xs \<and> sorted_wrt (\<lambda>x y. \<not> lt y x) (srt lt xs)"
begin

lemma greedy_order:
  assumes "strict_weak_order lt" and "distinct xs" and "la < length xs"
  shows "\<exists>r. order_by_priority srt xs la (length xs) ORDERING_GREEDY_THEN_PRIORITY_FUNC lt = Some (xs ! la # r)
    \<and> mset (xs ! la # r) = mset xs \<and> sorted_wrt (\<lambda>x y. \<not> lt y x) r"
proof -
  let ?s = "srt lt xs"
  have m: "mset ?s = mset xs" and so: "sorted_wrt (\<lambda>x y. \<not> lt y x) ?s" using sorts [OF assms(1)] by blast+
  have len: "length ?s = length xs" and d: "distinct ?s"
    using m assms(2) by (metis mset_eq_length, metis mset_eq_imp_distinct_iff)
  have "xs ! la \<in> set ?s" using m assms(3) by (metis mset_eq_setD nth_mem)
  moreover have "filter (\<lambda>x. x \<noteq> xs ! la) ?s = remove1 (xs ! la) ?s"
    unfolding distinct_remove1_removeAll [OF d] removeAll_filter_not_eq by (rule filter_cong) auto
  ultimately have "mset (xs ! la # filter (\<lambda>x. x \<noteq> xs ! la) ?s) = mset ?s" by simp
  moreover have "sorted_wrt (\<lambda>x y. \<not> lt y x) (filter (\<lambda>x. x \<noteq> xs ! la) ?s)" using so by (rule sorted_wrt_filter)
  ultimately show ?thesis using assms(3) len m by (simp add: order_by_priority_def Let_def)
qed

lemma oldest_order:
  assumes "strict_weak_order lt"
  shows "\<exists>r. order_by_priority srt xs la (length xs) ORDERED_PRIORITY_FUNC_ONLY lt = Some r
    \<and> mset r = mset xs \<and> sorted_wrt (\<lambda>x y. \<not> lt y x) r"
proof -
  have m: "mset (srt lt xs) = mset xs" and so: "sorted_wrt (\<lambda>x y. \<not> lt y x) (srt lt xs)"
    using sorts [OF assms] by blast+
  then have "length (srt lt xs) = length xs" by (metis mset_eq_length)
  with m so show ?thesis by (simp add: order_by_priority_def Let_def)
qed

end

text \<open>Insertion sort fulfils the contract.\<close>

primrec insert_by :: "('a \<Rightarrow> 'a \<Rightarrow> bool) \<Rightarrow> 'a \<Rightarrow> 'a list \<Rightarrow> 'a list" where
  "insert_by lt x [] = [x]"
| "insert_by lt x (y # ys) = (if lt y x then y # insert_by lt x ys else x # y # ys)"

definition insertion_sort :: "'a sorter" where
  "insertion_sort lt xs = foldr (insert_by lt) xs []"

lemma mset_insert_by [simp]: "mset (insert_by lt x ys) = add_mset x (mset ys)"
  by (induction ys) auto

lemma set_insert_by [simp]: "set (insert_by lt x ys) = insert x (set ys)"
  by (induction ys) auto

lemma sorted_insert_by:
  assumes "strict_weak_order lt" and "sorted_wrt (\<lambda>x y. \<not> lt y x) ys"
  shows "sorted_wrt (\<lambda>x y. \<not> lt y x) (insert_by lt x ys)"
  using assms(2)
proof (induction ys)
  case (Cons y ys)
  show ?case
  proof (cases "lt y x")
    case True
    then show ?thesis using Cons assms(1) by (auto simp: strict_weak_order_def)
  next
    case False
    then have "\<not> lt z x" if "z \<in> set ys" for z
    proof -
      have "\<not> lt z y" using Cons.prems that by simp
      with False show ?thesis using assms(1) unfolding strict_weak_order_def by blast
    qed
    with False Cons.prems show ?thesis by simp
  qed
qed simp

interpretation ins: cpp_sort insertion_sort
proof
  fix lt :: "'a \<Rightarrow> 'a \<Rightarrow> bool" and xs
  assume "strict_weak_order lt"
  then show "mset (insertion_sort lt xs) = mset xs \<and> sorted_wrt (\<lambda>x y. \<not> lt y x) (insertion_sort lt xs)"
    by (induction xs) (simp_all add: insertion_sort_def sorted_insert_by)
qed

section \<open>Two levels\<close>

lemma demote_fold:
  assumes "\<forall>k \<in> set xs. waits_for_long_op sb (ws ! k) = Some (lng k)"
  shows "foldM (demote_step waits sb ws) (a, p, n) xs =
    Some (a @ filter (\<lambda>k. \<not> (waits k \<or> lng k)) xs, p @ filter (\<lambda>k. waits k \<or> lng k) xs,
      n + length (filter (\<lambda>k. waits k \<or> lng k) xs))"
  using assms by (induction xs arbitrary: a p n) (simp_all add: demote_step_def)

lemma promote_eq:
  "promote m a p n = (if length a + length p < m then None
     else Some (a @ take (m - length a) p, drop (m - length a) p, n + (m - length a)))"
proof (induction m a p n rule: promote.induct)
  case (1 m a p n)
  show ?case
  proof (cases "length a < m")
    case True
    show ?thesis
    proof (cases p)
      case (Cons k ks)
      have "m - length a = Suc (m - length (a @ [k]))" using True by simp
      with 1 [OF True Cons] True Cons show ?thesis by (subst promote.simps) simp
    qed (use True in \<open>simp add: promote.simps\<close>)
  qed (simp add: promote.simps)
qed

lemma two_level_eq:
  assumes "\<forall>k \<in> set a. waits_for_long_op sb (ws ! k) = Some (lng k)"
  shows "two_level_order_warps waits sb ws m outer a p =
    (let dem = filter (\<lambda>k. waits k \<or> lng k) a; kept = filter (\<lambda>k. \<not> (waits k \<or> lng k)) a; q = p @ dem in
     if outer = SCHEDULER_PRIORITIZATION_SRR \<and> m - length kept = length dem \<and> length kept + length q \<ge> m
     then Some (kept @ take (length dem) q, drop (length dem) q) else None)"
  unfolding two_level_order_warps_def demote_fold [OF assms] Let_def
  by (cases "outer = SCHEDULER_PRIORITIZATION_SRR") (auto simp: promote_eq assert_c_def)

section \<open>The warps are dealt out\<close>

text \<open>All the warps of a scheduler.\<close>

definition sched_warps :: "scheduler_unit \<Rightarrow> nat list" where
  "sched_warps s = (case s_class s of
     two_level_active_scheduler _ _ _ \<Rightarrow> m_next_cycle_prioritized_warps s @ m_pending_warps s | _ \<Rightarrow> m_supervised_warps s)"

text \<open>The two level scheduler fills its active warps first.\<close>

definition sched_ok :: "scheduler_class \<Rightarrow> nat list \<Rightarrow> scheduler_unit \<Rightarrow> bool" where
  "sched_ok c ks s \<longleftrightarrow> s_class s = c \<and> sched_warps s = ks
     \<and> (\<forall>m i ot. c = two_level_active_scheduler m i ot \<longrightarrow> length (m_next_cycle_prioritized_warps s) = min m (length ks))"

lemma sched_ok_add: "sched_ok c ks s \<Longrightarrow> sched_ok c (ks @ [k]) (add_supervised_warp_id s k)"
proof (cases c)
  case (two_level_active_scheduler m i ot)
  let ?a = "m_next_cycle_prioritized_warps s" and ?s = "add_supervised_warp_id s k"
  assume ok: "sched_ok c ks s"
  have cl: "s_class s = two_level_active_scheduler m i ot" and len: "length ?a = min m (length ks)"
    using ok two_level_active_scheduler by (simp_all add: sched_ok_def)
  have ks: "?a @ m_pending_warps s = ks" using ok cl by (simp add: sched_ok_def sched_warps_def)
  have "s_class ?s = two_level_active_scheduler m i ot \<and> m_next_cycle_prioritized_warps ?s @ m_pending_warps ?s = ks @ [k]
    \<and> length (m_next_cycle_prioritized_warps ?s) = min m (length (ks @ [k]))"
  proof (cases "length ?a < m")
    case True
    then have l: "length ?a = length ks" using len by (metis min_def nat_less_le)
    then have "m_pending_warps s = []" using ks by auto
    then show ?thesis using True cl ks l by (simp add: add_supervised_warp_id_def)
  next
    case False
    then have l: "length ?a = m" "m \<le> length ks" using len by (simp_all add: min_def split: if_splits)
    then show ?thesis using False cl ks by (simp add: add_supervised_warp_id_def)
  qed
  then show ?thesis using two_level_active_scheduler unfolding sched_ok_def sched_warps_def by simp
qed (auto simp: sched_ok_def sched_warps_def add_supervised_warp_id_def)

lemma deal_out:
  assumes "0 < n" and "\<forall>i < n. sched_ok c [] (ss ! i)" and "length ss = n"
  shows "length (foldl (\<lambda>ss i. ss[i mod n := add_supervised_warp_id (ss ! (i mod n)) i]) ss [0..<m]) = n
    \<and> (\<forall>i < n. sched_ok c (filter (\<lambda>k. k mod n = i) [0..<m])
         (foldl (\<lambda>ss i. ss[i mod n := add_supervised_warp_id (ss ! (i mod n)) i]) ss [0..<m] ! i))"
proof (induction m)
  case (Suc m)
  then show ?case using assms(1) by (auto simp: nth_list_update intro: sched_ok_add)
qed (use assms in auto)

lemma create_schedulers_ok:
  assumes "create_schedulers c n mx m = Some ss" and "0 < n"
  shows "length ss = n \<and> (\<forall>i < n. sched_ok c (filter (\<lambda>k. k mod n = i) [0..<m]) (ss ! i)
    \<and> m_last_supervised_issued (ss ! i) = (if c = lrr_scheduler then length (sched_warps (ss ! i)) else 0))"
proof -
  obtain s where s: "new_scheduler c mx = Some s" and
    ss: "ss = map done_adding_supervised_warps
      (foldl (\<lambda>ss i. ss[i mod n := add_supervised_warp_id (ss ! (i mod n)) i]) (replicate n s) [0..<m])"
    using assms(1) by (auto simp: create_schedulers_def bind_eq_Some_conv)
  have "sched_ok c [] s" using s
    by (cases c) (auto simp: new_scheduler_def sched_ok_def sched_warps_def bind_eq_Some_conv)
  then have "\<forall>i < n. sched_ok c [] (replicate n s ! i)" by simp
  from deal_out [OF assms(2) this, of m] show ?thesis unfolding ss
    by (cases c) (auto simp: done_adding_supervised_warps_def sched_ok_def sched_warps_def)
qed

section \<open>Properties\<close>

text \<open>C13. A warp that a loose round robin scheduler can issue from is never starved: when each cycle issues from the
  first warp in the order that can, one that always can is served within as many cycles as there are warps.\<close>

theorem lrr_never_starves:
  assumes "distinct warps" and "la \<le> length warps" and "k \<in> set warps"
    and "length ables = length warps" and "\<forall>able \<in> set ables. k \<in> able"
  shows "order_lrr warps la (length warps) = Some (lrr_order (warps, la))
    \<and> Some k \<in> set (lrr.picks (warps, la) ables)"
proof
  have wf: "lrr_wf (warps, la)" using assms by (simp add: lrr_wf_def)
  show "order_lrr warps la (length warps) = Some (lrr_order (warps, la))"
    using order_lrr_rotate [OF assms(2), of "length warps"] by (simp add: lrr_order_def)
  have "lrr_order (warps, la) = rotate (if la = length warps then 0 else Suc la) warps" using lrr_order_rotate [OF wf] by simp
  then have "set (lrr_order (warps, la)) = set warps" "length (lrr_order (warps, la)) = length warps" by simp_all
  then obtain p where "p < length warps" "lrr_order (warps, la) ! p = k" using assms(3) by (metis in_set_conv_nth)
  then show "Some k \<in> set (lrr.picks (warps, la) ables)"
    using lrr.served [OF wf, of p k ables] assms(4,5) \<open>length (lrr_order (warps, la)) = length warps\<close> by simp
qed

theorem lrr_never_starves_witness:
  "Some 2 \<in> set (lrr.picks ([0, 1, 2 :: nat], 2) [{0, 1, 2}, {0, 2}, {0, 1, 2}])"
  using lrr_never_starves [of "[0, 1, 2 :: nat]" 2 2 "[{0, 1, 2}, {0, 2}, {0, 1, 2}]"] by simp

text \<open>C33. The greedy then oldest scheduler tries every warp once: first the one that issued last, then the others,
  those that can run before those that wait or have exited, and the older ones, with the lesser dynamic number,
  first.\<close>

theorem gto_order:
  assumes "cpp_sort srt" and "s_class s = gto_scheduler" and "distinct (m_supervised_warps s)"
    and "m_last_supervised_issued s < length (m_supervised_warps s)"
  shows "\<exists>r. order_warps srt waits sb ws s = Some (s\<lparr>m_next_cycle_prioritized_warps :=
        m_supervised_warps s ! m_last_supervised_issued s # r\<rparr>)
    \<and> mset (m_supervised_warps s ! m_last_supervised_issued s # r) = mset (m_supervised_warps s)
    \<and> (\<forall>i j. i < j \<longrightarrow> j < length r \<longrightarrow> \<not> w_done_exit (ws ! (r ! j)) \<longrightarrow> \<not> waits (r ! j) \<longrightarrow>
         \<not> w_done_exit (ws ! (r ! i)) \<and> \<not> waits (r ! i)
         \<and> w_dynamic_warp_id (ws ! (r ! i)) \<le> w_dynamic_warp_id (ws ! (r ! j)))"
proof -
  let ?lt = "sort_warps_by_oldest_dynamic_id waits ws" and ?xs = "m_supervised_warps s"
  obtain r where r: "order_by_priority srt ?xs (m_last_supervised_issued s) (length ?xs) ORDERING_GREEDY_THEN_PRIORITY_FUNC ?lt
      = Some (?xs ! m_last_supervised_issued s # r)" "mset (?xs ! m_last_supervised_issued s # r) = mset ?xs"
    "sorted_wrt (\<lambda>x y. \<not> ?lt y x) r"
    using cpp_sort.greedy_order [OF assms(1) oldest_strict_weak assms(3,4)] by blast
  have "\<not> w_done_exit (ws ! (r ! i)) \<and> \<not> waits (r ! i) \<and> w_dynamic_warp_id (ws ! (r ! i)) \<le> w_dynamic_warp_id (ws ! (r ! j))"
    if "i < j" "j < length r" "\<not> w_done_exit (ws ! (r ! j))" "\<not> waits (r ! j)" for i j
  proof -
    have "\<not> ?lt (r ! j) (r ! i)" using sorted_wrt_nth_less [OF r(3) that(1,2)] .
    then show ?thesis using that(3,4) by (auto simp: sort_warps_by_oldest_dynamic_id_def split: if_splits)
  qed
  with r(1,2) show ?thesis by (auto simp: order_warps_defs assms(2))
qed

text \<open>C32. In the two level scheduler, once its active warps are as many as they may be: ordering succeeds, keeps the
  active warps that neither wait nor need the result of a long operation, in order, and replaces each other one
  by the warp that has been pending longest; no warp is lost and the number of active warps stays.\<close>

theorem two_level_order:
  assumes "\<forall>k \<in> set active. waits_for_long_op sb (ws ! k) = Some (lng k)" and "length active = m"
  shows "\<exists>active' pend'. two_level_order_warps waits sb ws m SCHEDULER_PRIORITIZATION_SRR active pend = Some (active', pend')
    \<and> length active' = m \<and> mset active' + mset pend' = mset active + mset pend
    \<and> active' @ pend' = filter (\<lambda>k. \<not> (waits k \<or> lng k)) active @ pend @ filter (\<lambda>k. waits k \<or> lng k) active
    \<and> length pend' = length pend"
proof -
  let ?d = "filter (\<lambda>k. waits k \<or> lng k) active" and ?k = "filter (\<lambda>k. \<not> (waits k \<or> lng k)) active"
  have len: "length ?k + length ?d = m" using sum_length_filter_compl [of "\<lambda>k. waits k \<or> lng k" active] assms(2) by simp
  have run: "two_level_order_warps waits sb ws m SCHEDULER_PRIORITIZATION_SRR active pend =
      Some (?k @ take (length ?d) (pend @ ?d), drop (length ?d) (pend @ ?d))"
    unfolding two_level_eq [OF assms(1)] Let_def using len by simp
  have cat: "(?k @ take (length ?d) (pend @ ?d)) @ drop (length ?d) (pend @ ?d) = ?k @ pend @ ?d"
    by (simp only: append_assoc append_take_drop_id)
  have len':  "length (?k @ take (length ?d) (pend @ ?d)) = m" using len by simp
  have ms: "mset (?k @ take (length ?d) (pend @ ?d)) + mset (drop (length ?d) (pend @ ?d)) = mset active + mset pend"
    unfolding mset_append [symmetric] cat using multiset_partition [of "mset active" "\<lambda>k. waits k \<or> lng k"] by simp
  have ln: "length (drop (length ?d) (pend @ ?d)) = length pend" by simp
  show ?thesis by (intro exI) (rule conjI [OF run conjI [OF len' conjI [OF ms conjI [OF cat ln]]]])
qed

text \<open>Three warps of which two may be active; warp 0 waits.\<close>

definition idle_warp :: shd_warp where "idle_warp = the (new_shd_warp 0 0 32)"

lemma idle_warp_next: "ibuffer_next_inst idle_warp = None"
  by (simp add: idle_warp_def new_shd_warp_def warp_reset_def ibuffer_next_inst_def IBUFFER_SIZE_def no_entry_def)

lemma idle_no_long_op: "waits_for_long_op sb idle_warp = Some False"
  by (simp add: waits_for_long_op_def idle_warp_next upt_rec)

theorem gto_order_witness:
  "\<exists>r. order_warps insertion_sort (\<lambda>k. k = 0) (new_scoreboard 3) (replicate 3 idle_warp)
      \<lparr>s_class = gto_scheduler, m_next_cycle_prioritized_warps = [], m_supervised_warps = [0, 1, 2], m_pending_warps = [],
        m_last_supervised_issued = 1\<rparr>
    = Some \<lparr>s_class = gto_scheduler, m_next_cycle_prioritized_warps = 1 # r, m_supervised_warps = [0, 1, 2],
        m_pending_warps = [], m_last_supervised_issued = 1\<rparr> \<and> mset (1 # r) = mset [0, 1, 2]"
  using gto_order [OF ins.cpp_sort_axioms, of "\<lparr>s_class = gto_scheduler, m_next_cycle_prioritized_warps = [],
      m_supervised_warps = [0, 1, 2], m_pending_warps = [], m_last_supervised_issued = 1\<rparr>" "\<lambda>k. k = 0" "new_scoreboard 3"
      "replicate 3 idle_warp"] by auto

theorem two_level_order_witness:
  "\<exists>active' pend'. two_level_order_warps (\<lambda>k. k = 0) (new_scoreboard 3) (replicate 3 idle_warp) 2
      SCHEDULER_PRIORITIZATION_SRR [0, 1] [2] = Some (active', pend') \<and> active' @ pend' = [1, 2, 0]"
  using two_level_order [of "[0, 1]" "new_scoreboard 3" "replicate 3 idle_warp" "\<lambda>_. False" 2 "\<lambda>k. k = 0" "[2]"]
  by (auto simp: idle_no_long_op)

section \<open>Deviations\<close>

text \<open>With fewer warps than may be active the two level scheduler takes from the front of an empty queue, or fails its
  assertion.\<close>

lemma two_level_few_warps:
  assumes "\<forall>k \<in> set active. waits_for_long_op sb (ws ! k) \<noteq> None" and "length active < m"
  shows "two_level_order_warps waits sb ws m outer active pend = None"
proof -
  let ?lng = "\<lambda>k. the (waits_for_long_op sb (ws ! k))"
  have l: "\<forall>k \<in> set active. waits_for_long_op sb (ws ! k) = Some (?lng k)" using assms(1) by simp
  have "length (filter (\<lambda>k. waits k \<or> ?lng k) active) + length (filter (\<lambda>k. \<not> (waits k \<or> ?lng k)) active) = length active"
    by (rule sum_length_filter_compl)
  then have "m - length (filter (\<lambda>k. \<not> (waits k \<or> ?lng k)) active) \<noteq> length (filter (\<lambda>k. waits k \<or> ?lng k) active)"
    using assms(2) by arith
  then show ?thesis unfolding two_level_eq [OF l] Let_def by (simp only: simp_thms if_False)
qed

text \<open>The scheduler that limits the warps to one tries two when the greedy warp is not the first in the order.\<close>

lemma swl_one_too_many:
  "order_by_priority insertion_sort [0, 1 :: nat] 1 1 ORDERING_GREEDY_THEN_PRIORITY_FUNC (<) = Some [1, 0]"
  by (simp add: order_by_priority_def insertion_sort_def)

text \<open>When the two level scheduler issues two instructions of a warp in one cycle it rotates its list twice, so the
  next warp loses its turn.\<close>

lemma dual_issue_skips:
  "order_lrr [0, 1, 2 :: nat] 0 3 \<bind> (\<lambda>r. order_lrr r 0 3) = Some [2, 0, 1]"
  by (simp add: order_lrr_def Let_def numeral_3_eq_3)

end
