(* ===== verification/Warp_Issue.thy ===== *)
theory Warp_Issue
  imports Warp_Order Register_Set Barrier Simt_Stack
begin

text \<open>
  The issue stage of a core, \<open>scheduler_unit::cycle\<close> and \<open>shader_core_ctx::issue_warp\<close> of \<open>gpgpu-sim/shader.cc\<close>:
  it brings together the warps, their order, the scoreboard, the reconvergence stacks, the barriers and the pipeline
  registers that lead to the operand collectors. The functional simulator that executes an instruction for a thread,
  \<open>ptx_thread_info::ptx_exec_inst\<close> of \<open>cuda-sim\<close>, needs the loaded program and is a parameter: a record of the
  functions the issue stage calls. The memory accesses an issued instruction generates are in \<open>Coalescing\<close>.
  A number of a warp, a position or an iterator out of range is \<open>None\<close>.
\<close>

section \<open>State\<close>

text \<open>The functional simulator with its state \<open>'f\<close>. Threads are numbered over the core. The arguments of a barrier
  instruction are set in the program when it is executed.\<close>

record 'f functional_sim =
  ptx_exec_inst :: "nat \<Rightarrow> nat \<Rightarrow> pipe_inst \<Rightarrow> 'f \<Rightarrow> (pipe_inst \<times> 'f) option"
  ptx_thread_done :: "'f \<Rightarrow> nat \<Rightarrow> bool"
  ptx_get_pc :: "'f \<Rightarrow> nat \<Rightarrow> u32"
  ptx_get_return_pc :: "'f \<Rightarrow> nat \<Rightarrow> u32"
  ptx_barrier_args :: "'f \<Rightarrow> u32 \<Rightarrow> barrier_type \<times> u32 \<times> u32"
  ptx_barrier_reduction :: "pipe_inst \<Rightarrow> 'f \<Rightarrow> 'f"

record issue_config =
  ic_warp_size :: nat
  ic_max_warps_per_shader :: nat
  ic_max_insn_issue_per_warp :: nat

datatype pipe = SP_OUT | SFU_OUT | MEM_OUT

record 'f shader_core =
  c_warp :: "shd_warp list"
  c_scoreboard :: scoreboard
  c_simt_stack :: "simt_stack list"
  c_barriers :: barrier_set
  c_pipe :: "pipe \<Rightarrow> pipe_inst list"
  c_next_uid :: nat
  c_sim_cycle :: u64
  c_cycle_distro :: "nat \<Rightarrow> nat"
  c_threads :: 'f

section \<open>Waiting\<close>

definition upd_warp :: "nat \<Rightarrow> (shd_warp \<Rightarrow> shd_warp option) \<Rightarrow> 'f shader_core \<Rightarrow> 'f shader_core option" where
  "upd_warp wid f c = do {
     w \<leftarrow> at_get (c_warp c) wid;
     w \<leftarrow> f w;
     Some (c\<lparr>c_warp := (c_warp c)[wid := w]\<rparr>) }"

text \<open>The answer, and the core with the flag cleared once the writes of the warp are done.\<close>

definition warp_waiting_at_mem_barrier :: "nat \<Rightarrow> 'f shader_core \<Rightarrow> (bool \<times> 'f shader_core) option" where
  "warp_waiting_at_mem_barrier wid c = do {
     w \<leftarrow> at_get (c_warp c) wid;
     if \<not> w_membar w then Some (False, c)
     else do {
       p \<leftarrow> pendingWrites wid (c_scoreboard c);
       if \<not> p then do {
         c \<leftarrow> upd_warp wid (\<lambda>w. Some (w\<lparr>w_membar := False\<rparr>)) c;
         Some (False, c) }
       else Some (True, c) } }"

definition waiting_warp :: "nat \<Rightarrow> 'f shader_core \<Rightarrow> (bool \<times> 'f shader_core) option" where
  "waiting_warp k c = do {
     w \<leftarrow> at_get (c_warp c) k;
     if functional_done w then Some (True, c)
     else do {
       b \<leftarrow> warp_waiting_at_barrier (w_warp_id w) (c_barriers c);
       if b then Some (True, c)
       else do {
         (m, c) \<leftarrow> warp_waiting_at_mem_barrier (w_warp_id w) c;
         if m then Some (True, c) else Some (w_n_atomic w > 0, c) } } }"

text \<open>The answer alone, for the order of the warps.\<close>

definition is_waiting :: "'f shader_core \<Rightarrow> nat \<Rightarrow> bool" where
  "is_waiting c k = (case waiting_warp k c of None \<Rightarrow> True | Some (b, _) \<Rightarrow> b)"

section \<open>Issuing an instruction\<close>

text \<open>\<open>shader_core_ctx::warp_exit\<close>, called when a thread ends.\<close>

definition core_warp_exit :: "'f functional_sim \<Rightarrow> issue_config \<Rightarrow> nat \<Rightarrow> 'f shader_core \<Rightarrow> 'f shader_core option" where
  "core_warp_exit fs cfg warp_id c =
     (if \<forall>i \<in> set [warp_id * ic_warp_size cfg..<(warp_id + 1) * ic_warp_size cfg]. ptx_thread_done fs (c_threads c) i
      then do {
        b \<leftarrow> warp_exit warp_id (c_barriers c);
        Some (c\<lparr>c_barriers := b\<rparr>) }
      else Some c)"

text \<open>\<open>shader_core_ctx::checkExecutionStatusAndUpdate\<close>; the addresses of local memory are not modelled.\<close>

definition checkExecutionStatusAndUpdate :: "'f functional_sim \<Rightarrow> pipe_inst \<Rightarrow> nat \<Rightarrow> nat \<Rightarrow> 'f shader_core \<Rightarrow> 'f shader_core option" where
  "checkExecutionStatusAndUpdate fs p t tid c = do {
     c \<leftarrow> (if pi_isatomic p then upd_warp (inst_warp_id p) (\<lambda>w. Some (inc_n_atomic w)) c else Some c);
     if ptx_thread_done fs (c_threads c) tid then upd_warp (inst_warp_id p) (\<lambda>w. lane_done w t) c else Some c }"

text \<open>One thread of \<open>core_t::execute_warp_inst_t\<close>. Ending the thread tells the core.\<close>

definition exec_lane :: "'f functional_sim \<Rightarrow> issue_config \<Rightarrow> pipe_inst \<times> 'f shader_core \<Rightarrow> nat
    \<Rightarrow> (pipe_inst \<times> 'f shader_core) option" where
  "exec_lane fs cfg = (\<lambda>(p, c) t.
     if t \<in> pi_warp_active_mask p then do {
       let tid = ic_warp_size cfg * inst_warp_id p + t;
       (p, f) \<leftarrow> ptx_exec_inst fs tid t p (c_threads c);
       let c = c\<lparr>c_threads := f\<rparr>;
       c \<leftarrow> (if ptx_thread_done fs f tid then core_warp_exit fs cfg (inst_warp_id p) c else Some c);
       c \<leftarrow> checkExecutionStatusAndUpdate fs p t tid c;
       Some (p, c) }
     else Some (p, c))"

definition execute_warp_inst_t :: "'f functional_sim \<Rightarrow> issue_config \<Rightarrow> pipe_inst \<Rightarrow> 'f shader_core
    \<Rightarrow> (pipe_inst \<times> 'f shader_core) option" where
  "execute_warp_inst_t fs cfg p c = foldM (exec_lane fs cfg) (p, c) [0..<ic_warp_size cfg]"

definition RECONVERGE_RETURN_PC :: u32 where "RECONVERGE_RETURN_PC = - 2"

text \<open>The threads of the warp that are done, their next program counters and the reconvergence point, which the first
  running thread replaces when it stands for the return address.\<close>

definition pc_step :: "'f functional_sim \<Rightarrow> 'f \<Rightarrow> nat \<Rightarrow> nat set \<times> u32 list \<times> u32 \<Rightarrow> nat \<Rightarrow> nat set \<times> u32 list \<times> u32" where
  "pc_step fs f wtid = (\<lambda>(thread_done, next_pc, rpc) i.
     if ptx_thread_done fs f (wtid + i) then (insert i thread_done, next_pc @ [- 1], rpc)
     else (thread_done, next_pc @ [ptx_get_pc fs f (wtid + i)],
           if rpc = RECONVERGE_RETURN_PC then ptx_get_return_pc fs f (wtid + i) else rpc))"

definition thread_pcs :: "'f functional_sim \<Rightarrow> issue_config \<Rightarrow> nat \<Rightarrow> u32 \<Rightarrow> 'f \<Rightarrow> nat set \<times> u32 list \<times> u32" where
  "thread_pcs fs cfg warpId rpc f = foldl (pc_step fs f (warpId * ic_warp_size cfg)) ({}, [], rpc) [0..<ic_warp_size cfg]"

definition updateSIMTStack :: "'f functional_sim \<Rightarrow> issue_config \<Rightarrow> nat \<Rightarrow> pipe_inst \<Rightarrow> 'f shader_core
    \<Rightarrow> (pipe_inst \<times> 'f shader_core) option" where
  "updateSIMTStack fs cfg warpId p c = do {
     let (thread_done, next_pc, rpc) = thread_pcs fs cfg warpId (pi_reconvergence_pc p) (c_threads c);
     st \<leftarrow> at_get (c_simt_stack c) warpId;
     st \<leftarrow> simt_update (ic_warp_size cfg) (c_sim_cycle c) thread_done next_pc rpc (pi_op p) (pi_isize p) (pi_pc p) st;
     Some (p\<lparr>pi_reconvergence_pc := rpc\<rparr>, c\<lparr>c_simt_stack := (c_simt_stack c)[warpId := st]\<rparr>) }"

text \<open>The results of a released reduction barrier go to the warps it releases.\<close>

definition broadcast_barrier_reduction :: "'f functional_sim \<Rightarrow> issue_config \<Rightarrow> nat set \<Rightarrow> 'f shader_core \<Rightarrow> 'f shader_core option" where
  "broadcast_barrier_reduction fs cfg warps c =
     foldM (\<lambda>c i. if i \<in> warps then do {
         w \<leftarrow> at_get (c_warp c) i;
         p \<leftarrow> w_inst_at_barrier w;
         Some (c\<lparr>c_threads := ptx_barrier_reduction fs p (c_threads c)\<rparr>) }
       else Some c) c [0..<ic_max_warps_per_shader cfg]"

text \<open>What \<open>issue_warp\<close> does for a barrier or a memory barrier.\<close>

definition issue_barrier :: "'f functional_sim \<Rightarrow> issue_config \<Rightarrow> pipe_inst \<Rightarrow> pipe_inst \<Rightarrow> nat \<Rightarrow> 'f shader_core \<Rightarrow> 'f shader_core option" where
  "issue_barrier fs cfg next_inst p warp_id c =
     (if pi_op next_inst = BARRIER_OP then do {
        c \<leftarrow> upd_warp warp_id (\<lambda>w. Some (w\<lparr>w_inst_at_barrier := Some p\<rparr>)) c;
        w \<leftarrow> at_get (c_warp c) warp_id;
        let (bar_type, bar_id, bar_count) = ptx_barrier_args fs (c_threads c) (pi_pc next_inst);
        (red, b) \<leftarrow> warp_reaches_barrier (w_cta_id w) warp_id bar_type bar_id bar_count (c_barriers c);
        let c = c\<lparr>c_barriers := b\<rparr>;
        case red of
          None \<Rightarrow> Some c
        | Some (_, _, warps) \<Rightarrow> broadcast_barrier_reduction fs cfg warps c }
      else if pi_op next_inst = MEMORY_BARRIER_OP then upd_warp warp_id (\<lambda>w. Some (w\<lparr>w_membar := True\<rparr>)) c
      else Some c)"

definition count_cycle :: "nat \<Rightarrow> 'f shader_core \<Rightarrow> 'f shader_core" where
  "count_cycle i c = c\<lparr>c_cycle_distro := (c_cycle_distro c)(i := c_cycle_distro c i + 1)\<rparr>"

definition issue_warp :: "'f functional_sim \<Rightarrow> issue_config \<Rightarrow> pipe \<Rightarrow> pipe_inst \<Rightarrow> nat set \<Rightarrow> nat \<Rightarrow> 'f shader_core
    \<Rightarrow> 'f shader_core option" where
  "issue_warp fs cfg out next_inst active_mask warp_id c = do {
     pipe_reg \<leftarrow> get_free (c_pipe c out);
     c \<leftarrow> upd_warp warp_id (\<lambda>w. Some (ibuffer_free w)) c;
     _ \<leftarrow> assert_c (pi_decoded next_inst);
     w \<leftarrow> at_get (c_warp c) warp_id;
     let p = issue_inst active_mask warp_id (c_sim_cycle c) (w_dynamic_warp_id w) (c_next_uid c + 1) next_inst;
     let c = count_cycle (2 + card (pi_warp_active_mask p)) (c\<lparr>c_next_uid := c_next_uid c + 1\<rparr>);
     (p, c) \<leftarrow> execute_warp_inst_t fs cfg p c;
     c \<leftarrow> issue_barrier fs cfg next_inst p warp_id c;
     (p, c) \<leftarrow> updateSIMTStack fs cfg warp_id p c;
     sb \<leftarrow> reserveRegisters (inst.truncate p) (c_scoreboard c);
     let c = c\<lparr>c_scoreboard := sb, c_pipe := (c_pipe c)(out := (c_pipe c out)[pipe_reg := p])\<rparr>;
     upd_warp warp_id (\<lambda>w. Some (w\<lparr>w_next_pc := pi_pc next_inst + pi_isize next_inst\<rparr>)) c }"

section \<open>A cycle of a scheduler\<close>

text \<open>The pipeline an instruction can go to, if any has room.\<close>

definition pick_pipe :: "pipe_inst \<Rightarrow> 'f shader_core \<Rightarrow> pipe option" where
  "pick_pipe pI c =
     (if pi_op pI = LOAD_OP \<or> pi_op pI = STORE_OP \<or> pi_op pI = MEMORY_BARRIER_OP
      then if has_free (c_pipe c MEM_OUT) then Some MEM_OUT else None
      else if has_free (c_pipe c SP_OUT) \<and> pi_op pI \<noteq> SFU_OP then Some SP_OUT
      else if (pi_op pI = SFU_OP \<or> pi_op pI = ALU_SFU_OP) \<and> has_free (c_pipe c SFU_OUT) then Some SFU_OUT
      else None)"

text \<open>The flags \<open>valid_inst\<close>, \<open>ready_inst\<close> and \<open>issued_inst\<close> of the cycle.\<close>

record cycle_flags =
  valid_inst :: bool
  ready_inst :: bool
  issued_inst :: bool

definition flush_to :: "u32 \<Rightarrow> shd_warp \<Rightarrow> shd_warp option" where
  "flush_to pc w = ibuffer_flush (w\<lparr>w_next_pc := pc\<rparr>)"

definition do_on_warp_issued :: "nat \<Rightarrow> nat \<Rightarrow> 'f shader_core \<times> scheduler_unit \<Rightarrow> ('f shader_core \<times> scheduler_unit) option" where
  "do_on_warp_issued warp_id prioritized_iter = (\<lambda>(c, s). do {
     c \<leftarrow> upd_warp warp_id (\<lambda>w. Some (ibuffer_step w)) c;
     s \<leftarrow> reorder_on_issue prioritized_iter s;
     Some (c, s) })"

text \<open>The body of the loop over the instructions of a warp; the last component is \<open>issued\<close>.\<close>

definition try_issue :: "'f functional_sim \<Rightarrow> issue_config \<Rightarrow> nat \<Rightarrow> nat \<Rightarrow> 'f shader_core \<times> scheduler_unit \<times> cycle_flags \<times> nat
    \<Rightarrow> ('f shader_core \<times> scheduler_unit \<times> cycle_flags \<times> nat) option" where
  "try_issue fs cfg warp_id iter = (\<lambda>(c, s, fl, issued). do {
     w \<leftarrow> at_get (c_warp c) warp_id;
     st \<leftarrow> at_get (c_simt_stack c) warp_id;
     (pc, rpc) \<leftarrow> get_pdom_stack_top_info st;
     case ibuffer_next_inst w of
       Some pI \<Rightarrow> do {
         _ \<leftarrow> assert_c (ibuffer_next_valid w);
         if pc \<noteq> pi_pc pI then do {
           c \<leftarrow> upd_warp warp_id (flush_to pc) c;
           Some (c, s, fl, issued) }
         else do {
           collision \<leftarrow> checkCollision warp_id (inst.truncate pI) (c_scoreboard c);
           if collision then Some (c, s, fl\<lparr>valid_inst := True\<rparr>, issued)
           else do {
             active_mask \<leftarrow> get_active_mask st;
             _ \<leftarrow> assert_c (inst_in_pipeline w);
             case pick_pipe pI c of
               None \<Rightarrow> Some (c, s, fl\<lparr>valid_inst := True, ready_inst := True\<rparr>, issued)
             | Some out \<Rightarrow> do {
                 c \<leftarrow> issue_warp fs cfg out pI active_mask warp_id c;
                 (c, s) \<leftarrow> do_on_warp_issued warp_id iter (c, s);
                 Some (c, s, \<lparr>valid_inst = True, ready_inst = True, issued_inst = True\<rparr>, issued + 1) } } } }
     | None \<Rightarrow>
         if ibuffer_next_valid w then do {
           c \<leftarrow> upd_warp warp_id (flush_to pc) c;
           Some (c, s, fl, issued) }
         else Some (c, s, fl, issued) })"

function issue_loop :: "'f functional_sim \<Rightarrow> issue_config \<Rightarrow> nat \<Rightarrow> nat \<Rightarrow> nat
    \<Rightarrow> 'f shader_core \<times> scheduler_unit \<times> cycle_flags \<times> nat \<Rightarrow> ('f shader_core \<times> scheduler_unit \<times> cycle_flags \<times> nat) option" where
  "issue_loop fs cfg warp_id iter checked (c, s, fl, issued) =
     do {
       (wt, c) \<leftarrow> waiting_warp warp_id c;
       w \<leftarrow> at_get (c_warp c) warp_id;
       if \<not> wt \<and> \<not> ibuffer_empty w \<and> checked < ic_max_insn_issue_per_warp cfg \<and> checked \<le> issued
          \<and> issued < ic_max_insn_issue_per_warp cfg
       then do {
         t \<leftarrow> try_issue fs cfg warp_id iter (c, s, fl, issued);
         issue_loop fs cfg warp_id iter (checked + 1) t }
       else Some (c, s, fl, issued) }"
  by pat_completeness auto
termination
  by (relation "measure (\<lambda>(fs, cfg, warp_id, iter, checked, _). ic_max_insn_issue_per_warp cfg - checked)") auto

declare issue_loop.simps [simp del]

text \<open>The loop over the prioritized warps, which ends with the first that issues.\<close>

primrec try_warps :: "'f functional_sim \<Rightarrow> issue_config \<Rightarrow> nat list \<Rightarrow> nat \<Rightarrow> 'f shader_core \<times> scheduler_unit \<times> cycle_flags
    \<Rightarrow> ('f shader_core \<times> scheduler_unit \<times> cycle_flags) option" where
  "try_warps fs cfg [] iter x = Some x"
| "try_warps fs cfg (k # ks) iter x =
     (case x of (c, s, fl) \<Rightarrow> do {
        w \<leftarrow> at_get (c_warp c) k;
        if w_done_exit w then try_warps fs cfg ks (Suc iter) (c, s, fl)
        else do {
          (c, s, fl, issued) \<leftarrow> issue_loop fs cfg (w_warp_id w) iter 0 (c, s, fl, 0);
          if issued > 0
          then Some (c, s\<lparr>m_last_supervised_issued :=
            find_supervised (m_supervised_warps s) k (m_last_supervised_issued s)\<rparr>, fl)
          else try_warps fs cfg ks (Suc iter) (c, s, fl) } })"

definition no_flags :: cycle_flags where
  "no_flags = \<lparr>valid_inst = False, ready_inst = False, issued_inst = False\<rparr>"

definition count_stall :: "cycle_flags \<Rightarrow> 'f shader_core \<Rightarrow> 'f shader_core" where
  "count_stall fl c =
     (if \<not> valid_inst fl then count_cycle 0 c
      else if \<not> ready_inst fl then count_cycle 1 c
      else if \<not> issued_inst fl then count_cycle 2 c
      else c)"

definition cycle :: "'f functional_sim \<Rightarrow> issue_config \<Rightarrow> nat sorter \<Rightarrow> 'f shader_core \<times> scheduler_unit
    \<Rightarrow> ('f shader_core \<times> scheduler_unit) option" where
  "cycle fs cfg std_sort = (\<lambda>(c, s). do {
     s \<leftarrow> order_warps std_sort (is_waiting c) (c_scoreboard c) (c_warp c) s;
     (c, s, fl) \<leftarrow> try_warps fs cfg (m_next_cycle_prioritized_warps s) 0 (c, s, no_flags);
     Some (count_stall fl c, s) })"

text \<open>\<open>shader_core_ctx::issue\<close>: the schedulers of the core, one after the other.\<close>

definition core_issue :: "'f functional_sim \<Rightarrow> issue_config \<Rightarrow> nat sorter \<Rightarrow> 'f shader_core \<times> scheduler_unit list
    \<Rightarrow> ('f shader_core \<times> scheduler_unit list) option" where
  "core_issue fs cfg std_sort = (\<lambda>(c, ss).
     foldM (\<lambda>(c, ss) i. do {
       s \<leftarrow> at_get ss i;
       (c, s) \<leftarrow> cycle fs cfg std_sort (c, s);
       Some (c, ss[i := s]) }) (c, ss) [0..<length ss])"

section \<open>What a cycle may do\<close>

text \<open>An instruction may be issued for a warp that does not wait, when it is the next of its buffer, at the program
  counter of the top of the warp's stack, free of hazards, and when a pipeline it fits has a free register. It is
  issued for the threads of the top entry.\<close>

definition fits :: "uarch_op \<Rightarrow> pipe \<Rightarrow> bool" where
  "fits oper out \<longleftrightarrow> (case out of
       MEM_OUT \<Rightarrow> oper \<in> {LOAD_OP, STORE_OP, MEMORY_BARRIER_OP}
     | SFU_OUT \<Rightarrow> oper \<in> {SFU_OP, ALU_SFU_OP}
     | SP_OUT \<Rightarrow> oper \<notin> {LOAD_OP, STORE_OP, MEMORY_BARRIER_OP, SFU_OP})"

definition may_issue :: "'f shader_core \<Rightarrow> nat \<Rightarrow> pipe_inst \<Rightarrow> nat set \<Rightarrow> pipe \<Rightarrow> bool" where
  "may_issue c wid p act out \<longleftrightarrow> wid < length (c_warp c) \<and> wid < length (c_simt_stack c)
     \<and> (\<exists>c'. waiting_warp wid c = Some (False, c'))
     \<and> ibuffer_next_inst (c_warp c ! wid) = Some p \<and> ibuffer_next_valid (c_warp c ! wid)
     \<and> (\<exists>rpc. get_pdom_stack_top_info (c_simt_stack c ! wid) = Some (pi_pc p, rpc))
     \<and> get_active_mask (c_simt_stack c ! wid) = Some act
     \<and> checkCollision wid (inst.truncate p) (c_scoreboard c) = Some False
     \<and> has_free (c_pipe c out) \<and> fits (pi_op p) out"

text \<open>The steps of the issue stage: looking whether a warp waits, throwing away the buffer of a warp that is elsewhere,
  and issuing. The list is of the instructions issued.\<close>

inductive issue_run :: "'f functional_sim \<Rightarrow> issue_config \<Rightarrow> 'f shader_core \<Rightarrow> (nat \<times> pipe_inst) list \<Rightarrow> 'f shader_core \<Rightarrow> bool"
  for fs cfg where
  stop: "issue_run fs cfg c [] c"
| look: "waiting_warp wid c = Some (b, c1) \<Longrightarrow> issue_run fs cfg c1 is c2 \<Longrightarrow> issue_run fs cfg c is c2"
| flush: "wid < length (c_warp c) \<Longrightarrow> wid < length (c_simt_stack c)
    \<Longrightarrow> get_pdom_stack_top_info (c_simt_stack c ! wid) = Some (pc, rpc)
    \<Longrightarrow> (case ibuffer_next_inst (c_warp c ! wid) of None \<Rightarrow> True | Some p \<Rightarrow> pi_pc p \<noteq> pc)
    \<Longrightarrow> upd_warp wid (flush_to pc) c = Some c1 \<Longrightarrow> issue_run fs cfg c1 is c2 \<Longrightarrow> issue_run fs cfg c is c2"
| issue: "may_issue c wid p act out \<Longrightarrow> issue_warp fs cfg out p act wid c = Some c0
    \<Longrightarrow> upd_warp wid (\<lambda>w. Some (ibuffer_step w)) c0 = Some c1 \<Longrightarrow> issue_run fs cfg c1 is c2
    \<Longrightarrow> issue_run fs cfg c ((wid, p) # is) c2"

lemma issue_run_trans: "issue_run fs cfg c is c1 \<Longrightarrow> issue_run fs cfg c1 js c2 \<Longrightarrow> issue_run fs cfg c (is @ js) c2"
proof (induction rule: issue_run.induct)
  case (issue c wid p act out c0 c1 "is" c2)
  then show ?case by (auto intro: issue_run.issue)
qed (auto intro: issue_run.intros)

lemma upd_warp_eq_Some:
  "upd_warp wid f c = Some c' \<longleftrightarrow> wid < length (c_warp c) \<and>
     (\<exists>w. f (c_warp c ! wid) = Some w \<and> c' = c\<lparr>c_warp := (c_warp c)[wid := w]\<rparr>)"
  by (auto simp: upd_warp_def bind_eq_Some_conv at_get_eq_Some)

text \<open>Looking again gives the same answer.\<close>

lemma waiting_again:
  assumes "waiting_warp k c = Some (b, c')"
  shows "waiting_warp k c' = Some (b, c')"
proof -
  let ?w = "c_warp c ! k"
  have k: "k < length (c_warp c)" using assms by (auto simp: waiting_warp_def bind_eq_Some_conv at_get_eq_Some)
  show ?thesis
  proof (cases "c' = c")
    case False
    have c': "c' = c\<lparr>c_warp := (c_warp c)[w_warp_id ?w := (c_warp c ! w_warp_id ?w)\<lparr>w_membar := False\<rparr>]\<rparr>"
      and r: "\<not> functional_done ?w" "warp_waiting_at_barrier (w_warp_id ?w) (c_barriers c) = Some False"
      "b = (w_n_atomic ?w > 0)" "w_warp_id ?w < length (c_warp c)"
      using assms False k
      by (auto simp: waiting_warp_def warp_waiting_at_mem_barrier_def upd_warp_def bind_eq_Some_conv at_get_eq_Some split: if_splits)
    have e: "functional_done (c_warp c' ! k) = functional_done ?w" "w_warp_id (c_warp c' ! k) = w_warp_id ?w"
      "w_n_atomic (c_warp c' ! k) = w_n_atomic ?w" "\<not> w_membar (c_warp c' ! w_warp_id ?w)"
      using r(4) k by (auto simp: c' nth_list_update functional_done_def)
    have len: "length (c_warp c') = length (c_warp c)" and ba: "c_barriers c' = c_barriers c" by (simp_all add: c')
    show ?thesis using k r e by (simp add: waiting_warp_def warp_waiting_at_mem_barrier_def len ba)
  qed (use assms in simp)
qed

lemma pick_pipe_fits: "pick_pipe p c = Some out \<Longrightarrow> has_free (c_pipe c out) \<and> fits (pi_op p) out"
  by (auto simp: pick_pipe_def fits_def split: if_splits)

lemma reorder_supervised: "reorder_on_issue p s = Some s' \<Longrightarrow> m_supervised_warps s' = m_supervised_warps s"
  by (cases "s_class s") (auto simp: reorder_on_issue_def bind_eq_Some_conv)

text \<open>The body of the loop is one step, or none.\<close>

lemma flush_run:
  assumes "get_pdom_stack_top_info (c_simt_stack c ! wid) = Some (pc, rpc)" and "wid < length (c_simt_stack c)"
    and "case ibuffer_next_inst (c_warp c ! wid) of None \<Rightarrow> True | Some p \<Rightarrow> pi_pc p \<noteq> pc"
    and "upd_warp wid (flush_to pc) c = Some c'"
  shows "issue_run fs cfg c [] c'"
proof -
  have "wid < length (c_warp c)" using assms(4) by (simp add: upd_warp_eq_Some)
  then show ?thesis using issue_run.flush [OF _ assms(2,1,3,4) issue_run.stop] by simp
qed

definition one_warp :: "nat \<Rightarrow> (nat \<times> pipe_inst) list \<Rightarrow> bool" where
  "one_warp wid is \<longleftrightarrow> fst ` set is \<subseteq> {wid}"

lemma one_warp_simps [simp]: "one_warp wid []" "one_warp wid [(wid, p)]" "one_warp wid (is @ js) \<longleftrightarrow> one_warp wid is \<and> one_warp wid js"
  by (auto simp: one_warp_def)

lemma try_issue_run:
  assumes "try_issue fs cfg wid iter (c, s, fl, n) = Some (c', s', fl', n')" and wt: "waiting_warp wid c = Some (False, c1)"
  shows "\<exists>is. issue_run fs cfg c is c' \<and> n' = n + length is \<and> length is \<le> 1 \<and> one_warp wid is \<and> (is \<noteq> [] \<longrightarrow> issued_inst fl')
    \<and> (is = [] \<longrightarrow> issued_inst fl' = issued_inst fl) \<and> m_supervised_warps s' = m_supervised_warps s"
proof -
  let ?w = "c_warp c ! wid" and ?st = "c_simt_stack c ! wid"
  let ?P = "\<lambda>is. issue_run fs cfg c is c' \<and> n' = n + length is \<and> length is \<le> 1 \<and> one_warp wid is \<and> (is \<noteq> [] \<longrightarrow> issued_inst fl')
    \<and> (is = [] \<longrightarrow> issued_inst fl' = issued_inst fl) \<and> m_supervised_warps s' = m_supervised_warps s"
  have len: "wid < length (c_warp c)" "wid < length (c_simt_stack c)"
    using assms(1) by (auto simp: try_issue_def bind_eq_Some_conv at_get_eq_Some)
  obtain pc rpc where top: "get_pdom_stack_top_info ?st = Some (pc, rpc)"
    using assms(1) len by (auto simp: try_issue_def bind_eq_Some_conv)
  show ?thesis
  proof (cases "ibuffer_next_inst ?w")
    case None
    then have "?P []" using assms(1) len top flush_run [OF top len(2)]
      by (auto simp: try_issue_def bind_eq_Some_conv intro: issue_run.stop split: if_splits)
    then show ?thesis by blast
  next
    case (Some pI)
    have v: "ibuffer_next_valid ?w" using assms(1) len top Some by (auto simp: try_issue_def bind_eq_Some_conv)
    consider "pc \<noteq> pi_pc pI" | "pc = pi_pc pI" "checkCollision wid (inst.truncate pI) (c_scoreboard c) \<noteq> Some False \<or> pick_pipe pI c = None"
      | out where "pc = pi_pc pI" "checkCollision wid (inst.truncate pI) (c_scoreboard c) = Some False" "pick_pipe pI c = Some out"
      by blast
    then show ?thesis
    proof cases
      case 1
      then have "?P []" using assms(1) len top Some v flush_run [OF top len(2)]
        by (auto simp: try_issue_def bind_eq_Some_conv)
      then show ?thesis by blast
    next
      case 2
      then have "?P []" using assms(1) len top Some v
        by (auto simp: try_issue_def bind_eq_Some_conv intro: issue_run.stop split: if_splits)
      then show ?thesis by blast
    next
      case 3
      obtain act where act: "get_active_mask ?st = Some act"
        using assms(1) len top Some v 3 by (auto simp: try_issue_def bind_eq_Some_conv)
      then obtain c0 where iss: "issue_warp fs cfg out pI act wid c = Some c0"
        and dow: "do_on_warp_issued wid iter (c0, s) = Some (c', s')" and r: "n' = n + 1" "issued_inst fl'"
        using assms(1) len top Some v 3 by (auto simp: try_issue_def bind_eq_Some_conv)
      have st: "upd_warp wid (\<lambda>w. Some (ibuffer_step w)) c0 = Some c'" and sup: "m_supervised_warps s' = m_supervised_warps s"
        using dow by (auto simp: do_on_warp_issued_def bind_eq_Some_conv reorder_supervised)
      have "may_issue c wid pI act out"
        using len wt Some v top 3 act pick_pipe_fits [OF 3(3)] by (auto simp: may_issue_def)
      from issue_run.issue [OF this iss st issue_run.stop] have "?P [(wid, pI)]" using r sup by simp
      then show ?thesis by blast
    qed
  qed
qed

lemma issue_loop_run:
  assumes "issue_loop fs cfg wid iter checked (c, s, fl, n) = Some (c', s', fl', n')" and "n \<le> ic_max_insn_issue_per_warp cfg"
  shows "\<exists>is. issue_run fs cfg c is c' \<and> n' = n + length is \<and> n' \<le> ic_max_insn_issue_per_warp cfg \<and> one_warp wid is
    \<and> (is \<noteq> [] \<longrightarrow> issued_inst fl') \<and> (is = [] \<longrightarrow> issued_inst fl' = issued_inst fl)
    \<and> m_supervised_warps s' = m_supervised_warps s"
  using assms
proof (induction fs cfg wid iter checked "(c, s, fl, n)" arbitrary: c s fl n c' s' fl' n' rule: issue_loop.induct)
  case (1 fs cfg wid iter checked c s fl n)
  let ?mx = "ic_max_insn_issue_per_warp cfg"
  obtain wt c1 where wt: "waiting_warp wid c = Some (wt, c1)"
    using "1.prems"(1) by (subst (asm) issue_loop.simps) (auto simp: bind_eq_Some_conv)
  obtain w where w: "at_get (c_warp c1) wid = Some w"
    using "1.prems"(1) wt by (subst (asm) issue_loop.simps) (auto simp: bind_eq_Some_conv)
  let ?go = "\<not> wt \<and> \<not> ibuffer_empty w \<and> checked < ?mx \<and> checked \<le> n \<and> n < ?mx"
  show ?case
  proof (cases ?go)
    case False
    then have "c' = c1 \<and> s' = s \<and> fl' = fl \<and> n' = n"
      using "1.prems"(1) wt w by (subst (asm) issue_loop.simps) auto
    then show ?thesis using "1.prems"(2) issue_run.look [OF wt issue_run.stop] by (intro exI [of _ "[]"]) auto
  next
    case True
    then obtain c2 s2 fl2 n2 where t: "try_issue fs cfg wid iter (c1, s, fl, n) = Some (c2, s2, fl2, n2)"
      and rest: "issue_loop fs cfg wid iter (checked + 1) (c2, s2, fl2, n2) = Some (c', s', fl', n')"
      using "1.prems"(1) wt w by (subst (asm) issue_loop.simps) (auto simp: bind_eq_Some_conv)
    have "waiting_warp wid c1 = Some (False, c1)" using waiting_again [OF wt] True by simp
    from try_issue_run [OF t this] obtain "is" where "is": "issue_run fs cfg c1 is c2" "n2 = n + length is" "length is \<le> 1"
      "one_warp wid is" "is \<noteq> [] \<longrightarrow> issued_inst fl2" "is = [] \<longrightarrow> issued_inst fl2 = issued_inst fl"
      "m_supervised_warps s2 = m_supervised_warps s" by blast
    have "n2 \<le> ?mx" using "is" True by simp
    from "1.hyps" [where a = "(wt, c1)" and aa = w, OF wt HOL.refl w True t rest this]
    obtain js where js: "issue_run fs cfg c2 js c'" "n' = n2 + length js" "n' \<le> ?mx" "one_warp wid js"
      "js \<noteq> [] \<longrightarrow> issued_inst fl'" "js = [] \<longrightarrow> issued_inst fl' = issued_inst fl2" "m_supervised_warps s' = m_supervised_warps s2"
      by blast
    have "issue_run fs cfg c (is @ js) c'" by (rule issue_run.look [OF wt issue_run_trans [OF "is"(1) js(1)]])
    then show ?thesis using "is" js by (intro exI [of _ "is @ js"]) auto
  qed
qed

lemma try_warps_run:
  assumes "try_warps fs cfg ks iter (c, s, fl) = Some (c', s', fl')" and "\<not> issued_inst fl"
  shows "\<exists>is wid. issue_run fs cfg c is c' \<and> length is \<le> ic_max_insn_issue_per_warp cfg \<and> one_warp wid is
    \<and> (issued_inst fl' \<longleftrightarrow> is \<noteq> []) \<and> m_supervised_warps s' = m_supervised_warps s"
  using assms
proof (induction ks arbitrary: iter c s fl)
  case Nil
  then show ?case by (auto intro!: exI [of _ "[]"] issue_run.stop)
next
  case (Cons k ks)
  obtain w where w: "at_get (c_warp c) k = Some w" using Cons.prems(1) by (auto simp: bind_eq_Some_conv)
  show ?case
  proof (cases "w_done_exit w")
    case True
    then show ?thesis using Cons.IH [of "Suc iter" c s fl] Cons.prems w by simp
  next
    case False
    then obtain c1 s1 fl1 n where l: "issue_loop fs cfg (w_warp_id w) iter 0 (c, s, fl, 0) = Some (c1, s1, fl1, n)"
      and rest: "(if n > 0 then Some (c1, s1\<lparr>m_last_supervised_issued :=
            find_supervised (m_supervised_warps s1) k (m_last_supervised_issued s1)\<rparr>, fl1)
          else try_warps fs cfg ks (Suc iter) (c1, s1, fl1)) = Some (c', s', fl')"
      using Cons.prems(1) w by (auto simp: bind_eq_Some_conv)
    from issue_loop_run [OF l] obtain "is" where "is": "issue_run fs cfg c is c1" "n = length is"
      "n \<le> ic_max_insn_issue_per_warp cfg" "one_warp (w_warp_id w) is" "is \<noteq> [] \<longrightarrow> issued_inst fl1"
      "is = [] \<longrightarrow> issued_inst fl1 = issued_inst fl" "m_supervised_warps s1 = m_supervised_warps s" by auto
    show ?thesis
    proof (cases "n > 0")
      case True
      then have "c' = c1 \<and> fl' = fl1 \<and> m_supervised_warps s' = m_supervised_warps s1" using rest by auto
      with "is" True show ?thesis by (intro exI [of _ "is"] exI [of _ "w_warp_id w"]) auto
    next
      case False
      then have "is = []" "try_warps fs cfg ks (Suc iter) (c1, s1, fl1) = Some (c', s', fl')" "\<not> issued_inst fl1"
        using "is" rest Cons.prems(2) by auto
      from Cons.IH [OF this(2,3)] obtain js wid where js: "issue_run fs cfg c1 js c'"
        "length js \<le> ic_max_insn_issue_per_warp cfg" "one_warp wid js" "issued_inst fl' \<longleftrightarrow> js \<noteq> []"
        "m_supervised_warps s' = m_supervised_warps s1" by blast
      have "issue_run fs cfg c js c'" using issue_run_trans [OF "is"(1) js(1)] \<open>is = []\<close> by simp
      with js "is" show ?thesis by auto
    qed
  qed
qed

lemma order_warps_supervised: "order_warps srt wt sb ws s = Some s' \<Longrightarrow> m_supervised_warps s' = m_supervised_warps s"
  by (cases "s_class s") (auto simp: order_warps_defs bind_eq_Some_conv)

lemma count_stall_issued: "issued_inst fl \<Longrightarrow> valid_inst fl \<Longrightarrow> ready_inst fl \<Longrightarrow> count_stall fl c = c"
  by (simp add: count_stall_def)

lemma cycle_is_run:
  assumes "cycle fs cfg srt (c, s) = Some (c', s')"
  shows "\<exists>is wid c1. issue_run fs cfg c is c1 \<and> length is \<le> ic_max_insn_issue_per_warp cfg \<and> (\<forall>i \<in> set is. fst i = wid)
    \<and> (c' = c1 \<or> (\<exists>i \<in> {0, 1, 2}. c' = count_cycle i c1)) \<and> (is = [] \<longrightarrow> c' \<noteq> c1)
    \<and> m_supervised_warps s' = m_supervised_warps s"
proof -
  obtain s1 fl c1 where o: "order_warps srt (is_waiting c) (c_scoreboard c) (c_warp c) s = Some s1"
    and t: "try_warps fs cfg (m_next_cycle_prioritized_warps s1) 0 (c, s1, no_flags) = Some (c1, s', fl)"
    and c': "c' = count_stall fl c1"
    using assms by (auto simp: cycle_def bind_eq_Some_conv)
  from try_warps_run [OF t] obtain "is" wid where "is": "issue_run fs cfg c is c1" "length is \<le> ic_max_insn_issue_per_warp cfg"
    "one_warp wid is" "issued_inst fl \<longleftrightarrow> is \<noteq> []" "m_supervised_warps s' = m_supervised_warps s1"
    by (auto simp: no_flags_def)
  have "count_cycle i c1 \<noteq> c1" for i
  proof
    assume "count_cycle i c1 = c1"
    then have "c_cycle_distro (count_cycle i c1) i = c_cycle_distro c1 i" by simp
    then show False by (simp add: count_cycle_def)
  qed
  then have "is = [] \<longrightarrow> c' \<noteq> c1" using "is"(4) by (auto simp: c' count_stall_def)
  moreover have "c' = c1 \<or> (\<exists>i \<in> {0, 1, 2}. c' = count_cycle i c1)" by (auto simp: c' count_stall_def)
  moreover have "\<forall>i \<in> set is. fst i = wid" using "is"(3) by (auto simp: one_warp_def)
  ultimately show ?thesis using "is"(1,2,5) order_warps_supervised [OF o] by metis
qed

end
