(* ===== verification/Issue_Ok.thy ===== *)
theory Issue_Ok
  imports Warp_Issue
begin

text \<open>
  Issuing an instruction keeps what the parts of a core rely on: the counts of the warp, the registers that the scoreboard
  holds, the program counters of the reconvergence stack and the barriers. What the functional simulator
  promises is a predicate: executing an instruction for a running thread that is at it succeeds, keeps the static part
  of the instruction and changes the state of no other thread.
\<close>

section \<open>The functional simulator\<close>

definition same_static :: "pipe_inst \<Rightarrow> pipe_inst \<Rightarrow> bool" where
  "same_static p p' \<longleftrightarrow> inst_out p' = inst_out p \<and> inst_in p' = inst_in p \<and> inst_warp_id p' = inst_warp_id p
     \<and> pi_pc p' = pi_pc p \<and> pi_isize p' = pi_isize p \<and> pi_op p' = pi_op p
     \<and> pi_reconvergence_pc p' = pi_reconvergence_pc p \<and> inst_pred p' = inst_pred p \<and> inst_ar1 p' = inst_ar1 p
     \<and> inst_ar2 p' = inst_ar2 p"

definition exec_ok :: "'f functional_sim \<Rightarrow> bool" where
  "exec_ok fs \<longleftrightarrow> (\<forall>tid t p f. \<not> ptx_thread_done fs f tid \<longrightarrow> ptx_get_pc fs f tid = pi_pc p \<longrightarrow>
     (\<exists>p' f'. ptx_exec_inst fs tid t p f = Some (p', f') \<and> same_static p p'
        \<and> (pi_warp_active_mask p' = pi_warp_active_mask p \<or> pi_warp_active_mask p' = pi_warp_active_mask p - {t})
        \<and> (\<forall>j. j \<noteq> tid \<longrightarrow> ptx_thread_done fs f' j = ptx_thread_done fs f j \<and> ptx_get_pc fs f' j = ptx_get_pc fs f j)))"

text \<open>The execution of an instruction for the threads of a warp, without the core.\<close>

definition exec_thread :: "'f functional_sim \<Rightarrow> issue_config \<Rightarrow> pipe_inst \<times> 'f \<Rightarrow> nat \<Rightarrow> (pipe_inst \<times> 'f) option" where
  "exec_thread fs cfg = (\<lambda>(p, f) t.
     if t \<in> pi_warp_active_mask p then ptx_exec_inst fs (ic_warp_size cfg * inst_warp_id p + t) t p f else Some (p, f))"

definition exec_threads :: "'f functional_sim \<Rightarrow> issue_config \<Rightarrow> pipe_inst \<Rightarrow> 'f \<Rightarrow> (pipe_inst \<times> 'f) option" where
  "exec_threads fs cfg p f = foldM (exec_thread fs cfg) (p, f) [0..<ic_warp_size cfg]"

lemma same_static_refl [simp]: "same_static p p"
  by (simp add: same_static_def)

lemma same_static_trans: "same_static p p1 \<Longrightarrow> same_static p1 p2 \<Longrightarrow> same_static p p2"
  by (simp add: same_static_def)

section \<open>Executing the lanes\<close>

text \<open>Thread \<open>t\<close> of the warp.\<close>

definition tid_of :: "issue_config \<Rightarrow> nat \<Rightarrow> nat \<Rightarrow> nat" where
  "tid_of cfg wid t = ic_warp_size cfg * wid + t"

text \<open>The threads that are done are those the warp has not active.\<close>

definition live_ok :: "'f functional_sim \<Rightarrow> issue_config \<Rightarrow> nat \<Rightarrow> 'f \<Rightarrow> shd_warp \<Rightarrow> bool" where
  "live_ok fs cfg wid f w \<longleftrightarrow> w_active_threads w \<subseteq> {..<ic_warp_size cfg}
     \<and> (\<forall>t < ic_warp_size cfg. ptx_thread_done fs f (tid_of cfg wid t) \<longleftrightarrow> t \<notin> w_active_threads w)"

text \<open>After the first \<open>i\<close> lanes: only the warp, the threads and, when its last thread has ended, the barriers have
  changed.\<close>

definition lanes_inv :: "'f functional_sim \<Rightarrow> issue_config \<Rightarrow> nat \<Rightarrow> (nat \<Rightarrow> nat) \<Rightarrow> nat \<Rightarrow> nat \<Rightarrow> pipe_inst \<Rightarrow> 'f shader_core \<Rightarrow> nat
    \<Rightarrow> pipe_inst \<times> 'f shader_core \<Rightarrow> bool" where
  "lanes_inv fs cfg k cnt kk wid p0 c0 i = (\<lambda>(p, c).
     same_static p0 p \<and> pi_warp_active_mask p \<subseteq> pi_warp_active_mask p0
     \<and> (\<forall>t \<ge> i. t \<in> pi_warp_active_mask p0 \<longrightarrow> t \<in> pi_warp_active_mask p)
     \<and> foldM (exec_thread fs cfg) (p0, c_threads c0) [0..<i] = Some (p, c_threads c)
     \<and> (\<exists>w b. c = c0\<lparr>c_warp := (c_warp c0)[wid := w], c_threads := c_threads c, c_barriers := b\<rparr>
          \<and> counts_ok kk w \<and> w_next w = w_next (c_warp c0 ! wid) \<and> same_warp (c_warp c0 ! wid) w
          \<and> live_ok fs cfg wid (c_threads c) w \<and> (same_buffer (c_warp c0 ! wid) w \<or> ibuffer_empty w)
          \<and> (\<forall>t \<ge> i. t \<in> pi_warp_active_mask p0 \<longrightarrow> t \<in> w_active_threads w \<and> ptx_get_pc fs (c_threads c) (tid_of cfg wid t) = pi_pc p0)
          \<and> barrier_inv k {} b cnt \<and> (w_active_threads w \<noteq> {} \<longrightarrow> b = c_barriers c0)))"

text \<open>The core is told of the end of a thread.\<close>

lemma warp_threads_done:
  assumes "live_ok fs cfg wid f w"
  shows "(\<forall>i \<in> set [wid * ic_warp_size cfg..<(wid + 1) * ic_warp_size cfg]. ptx_thread_done fs f i) \<longleftrightarrow> w_active_threads w = {}"
proof -
  let ?n = "ic_warp_size cfg"
  have "(\<forall>i \<in> set [wid * ?n..<(wid + 1) * ?n]. ptx_thread_done fs f i) \<longleftrightarrow> (\<forall>t < ?n. ptx_thread_done fs f (tid_of cfg wid t))"
  proof (intro iffI ballI allI impI)
    fix t assume *: "\<forall>i \<in> set [wid * ?n..<(wid + 1) * ?n]. ptx_thread_done fs f i" "t < ?n"
    then show "ptx_thread_done fs f (tid_of cfg wid t)" by (simp add: tid_of_def algebra_simps)
  next
    fix i assume *: "\<forall>t < ?n. ptx_thread_done fs f (tid_of cfg wid t)" "i \<in> set [wid * ?n..<(wid + 1) * ?n]"
    then have "i = tid_of cfg wid (i - wid * ?n)" "i - wid * ?n < ?n" by (auto simp: tid_of_def algebra_simps)
    with *(1) show "ptx_thread_done fs f i" by metis
  qed
  also have "\<dots> \<longleftrightarrow> w_active_threads w = {}" using assms by (auto simp: live_ok_def)
  finally show ?thesis .
qed

lemma status_ok:
  assumes "wid < length (c_warp c)" and "inst_warp_id p = wid" and "counts_ok kk (c_warp c ! wid)"
    and "t \<in> w_active_threads (c_warp c ! wid)"
  shows "\<exists>w'. checkExecutionStatusAndUpdate fs p t tid c = Some (c\<lparr>c_warp := (c_warp c)[wid := w']\<rparr>) \<and> counts_ok kk w'
    \<and> w_next w' = w_next (c_warp c ! wid) \<and> same_warp (c_warp c ! wid) w'
    \<and> (if ptx_thread_done fs (c_threads c) tid
       then w_active_threads w' = w_active_threads (c_warp c ! wid) - {t} \<and> ibuffer_empty w'
       else same_buffer (c_warp c ! wid) w')"
proof -
  let ?w = "c_warp c ! wid"
  let ?w1 = "if pi_isatomic p then inc_n_atomic ?w else ?w"
  let ?c1 = "c\<lparr>c_warp := (c_warp c)[wid := ?w1]\<rparr>"
  have c1: "counts_ok kk ?w1" "t \<in> w_active_threads ?w1" "same_warp ?w ?w1" "same_buffer ?w ?w1" "w_next ?w1 = w_next ?w"
    "w_active_threads ?w1 = w_active_threads ?w"
    using assms(3,4) by (auto simp: buffer_defs inc_n_atomic_def same_warp_def same_buffer_def)
  have u: "(if pi_isatomic p then upd_warp wid (\<lambda>w. Some (inc_n_atomic w)) c else Some c) = Some ?c1"
    using assms(1) by (simp add: upd_warp_def)
  show ?thesis
  proof (cases "ptx_thread_done fs (c_threads c) tid")
    case False
    then have "checkExecutionStatusAndUpdate fs p t tid c = Some ?c1"
      unfolding checkExecutionStatusAndUpdate_def assms(2) u by simp
    with c1 False show ?thesis by (intro exI [of _ ?w1]) (simp only: if_False simp_thms)
  next
    case True
    from lane_done_ok [OF c1(1,2)] obtain w' where w': "lane_done ?w1 t = Some w'" "counts_ok kk w'" "ibuffer_empty w'"
      "w_next w' = w_next ?w1" "w_active_threads w' = w_active_threads ?w1 - {t}" "same_warp ?w1 w'" by blast
    have "upd_warp wid (\<lambda>w. lane_done w t) ?c1 = Some (c\<lparr>c_warp := (c_warp c)[wid := w']\<rparr>)"
      using assms(1) w'(1) by (simp add: upd_warp_def)
    then have "checkExecutionStatusAndUpdate fs p t tid c = Some (c\<lparr>c_warp := (c_warp c)[wid := w']\<rparr>)"
      unfolding checkExecutionStatusAndUpdate_def assms(2) u using True by simp
    with w' c1 same_warp_trans [OF c1(3) w'(6)] True show ?thesis by (intro exI [of _ w']) simp
  qed
qed

lemma exit_ok:
  assumes "live_ok fs cfg wid (c_threads c) w" and "barrier_inv k {} (c_barriers c) cnt"
    and "wid \<in> m_warp_active (c_barriers c)" and "wid \<notin> m_warp_at_barrier (c_barriers c)"
  shows "\<exists>b. core_warp_exit fs cfg wid c = Some (c\<lparr>c_barriers := b\<rparr>) \<and> barrier_inv k {} b cnt
    \<and> (w_active_threads w \<noteq> {} \<longrightarrow> b = c_barriers c)"
proof (cases "w_active_threads w = {}")
  case True
  from leave_ok [OF assms(2-4)] obtain b where "warp_exit wid (c_barriers c) = Some b" "barrier_inv k {} b cnt" by blast
  with True warp_threads_done [OF assms(1)] show ?thesis by (intro exI [of _ b]) (simp add: core_warp_exit_def)
next
  case False
  then have "core_warp_exit fs cfg wid c = Some c" unfolding core_warp_exit_def warp_threads_done [OF assms(1)] by simp
  with assms(2) show ?thesis by (intro exI [of _ "c_barriers c"]) simp
qed

text \<open>One lane.\<close>

lemma lane_step:
  assumes fs: "exec_ok fs" and wid: "wid < length (c_warp c0)" "inst_warp_id p0 = wid"
    and inv: "lanes_inv fs cfg k cnt kk wid p0 c0 i (p, c)" and i: "i < ic_warp_size cfg"
    and b0: "wid \<in> m_warp_active (c_barriers c0)" "wid \<notin> m_warp_at_barrier (c_barriers c0)"
  shows "\<exists>x. exec_lane fs cfg (p, c) i = Some x \<and> lanes_inv fs cfg k cnt kk wid p0 c0 (Suc i) x"
proof -
  obtain w b where c: "c = c0\<lparr>c_warp := (c_warp c0)[wid := w], c_threads := c_threads c, c_barriers := b\<rparr>"
    and w: "counts_ok kk w" "w_next w = w_next (c_warp c0 ! wid)" "same_warp (c_warp c0 ! wid) w"
      "live_ok fs cfg wid (c_threads c) w" "same_buffer (c_warp c0 ! wid) w \<or> ibuffer_empty w"
      "\<forall>t \<ge> i. t \<in> pi_warp_active_mask p0 \<longrightarrow> t \<in> w_active_threads w \<and> ptx_get_pc fs (c_threads c) (tid_of cfg wid t) = pi_pc p0"
      "barrier_inv k {} b cnt" "w_active_threads w \<noteq> {} \<longrightarrow> b = c_barriers c0"
    and p: "same_static p0 p" "pi_warp_active_mask p \<subseteq> pi_warp_active_mask p0"
      "\<forall>t \<ge> i. t \<in> pi_warp_active_mask p0 \<longrightarrow> t \<in> pi_warp_active_mask p"
    and run: "foldM (exec_thread fs cfg) (p0, c_threads c0) [0..<i] = Some (p, c_threads c)"
    using inv unfolding lanes_inv_def prod.case by blast
  have pid: "inst_warp_id p = wid" using p(1) wid(2) by (simp add: same_static_def)
  show ?thesis
  proof (cases "i \<in> pi_warp_active_mask p")
    case False
    then have "exec_lane fs cfg (p, c) i = Some (p, c)" by (simp add: exec_lane_def)
    moreover have "foldM (exec_thread fs cfg) (p0, c_threads c0) [0..<Suc i] = Some (p, c_threads c)"
      using run False by (simp add: foldM_append exec_thread_def)
    then have "lanes_inv fs cfg k cnt kk wid p0 c0 (Suc i) (p, c)"
      unfolding lanes_inv_def prod.case using c w p by (intro conjI exI [of _ w] exI [of _ b]) auto
    ultimately show ?thesis by blast
  next
    case True
    let ?tid = "tid_of cfg wid i"
    have i0: "i \<in> pi_warp_active_mask p0" using True p(2) by blast
    then have live: "i \<in> w_active_threads w" and pc: "ptx_get_pc fs (c_threads c) ?tid = pi_pc p"
      using w(6) p(1) by (auto simp: same_static_def)
    have "\<not> ptx_thread_done fs (c_threads c) ?tid" using w(4) live i by (simp add: live_ok_def)
    with fs pc obtain p1 f1 where ex: "ptx_exec_inst fs ?tid i p (c_threads c) = Some (p1, f1)" and s1: "same_static p p1"
      and m1: "pi_warp_active_mask p1 = pi_warp_active_mask p \<or> pi_warp_active_mask p1 = pi_warp_active_mask p - {i}"
      and o1: "\<forall>j. j \<noteq> ?tid \<longrightarrow> ptx_thread_done fs f1 j = ptx_thread_done fs (c_threads c) j
        \<and> ptx_get_pc fs f1 j = ptx_get_pc fs (c_threads c) j"
      unfolding exec_ok_def by blast
    have b: "b = c_barriers c0" using w(8) live by blast
    have s0: "same_static p0 p1" by (rule same_static_trans [OF p(1) s1])
    have pid1: "inst_warp_id p1 = wid" using s0 wid(2) by (simp add: same_static_def)
    have other: "tid_of cfg wid t \<noteq> ?tid" if "t \<noteq> i" for t using that by (simp add: tid_of_def)
    have live1: "live_ok fs cfg wid f1 v" if "w_active_threads v = (if ptx_thread_done fs f1 ?tid then w_active_threads w - {i} else w_active_threads w)" for v
    proof -
      have "ptx_thread_done fs f1 (tid_of cfg wid t) \<longleftrightarrow> t \<notin> w_active_threads v" if t: "t < ic_warp_size cfg" for t
      proof (cases "t = i")
        case True
        then show ?thesis using that live by (simp add: \<open>w_active_threads v = _\<close>)
      next
        case False
        then show ?thesis using w(4) t o1 other [OF False] by (simp add: live_ok_def \<open>w_active_threads v = _\<close>)
      qed
      then show ?thesis using w(4) that by (auto simp: live_ok_def split: if_splits)
    qed
    let ?c1 = "c\<lparr>c_threads := f1\<rparr>"
    have cb: "c_barriers c = b" by (subst c) simp
    have "\<exists>b'. (if ptx_thread_done fs f1 ?tid then core_warp_exit fs cfg wid ?c1 else Some ?c1) = Some (?c1\<lparr>c_barriers := b'\<rparr>)
      \<and> barrier_inv k {} b' cnt \<and> (w_active_threads w - {i} \<noteq> {} \<or> \<not> ptx_thread_done fs f1 ?tid \<longrightarrow> b' = c_barriers c0)"
    proof (cases "ptx_thread_done fs f1 ?tid")
      case True
      let ?v = "w\<lparr>w_active_threads := w_active_threads w - {i}\<rparr>"
      have "live_ok fs cfg wid (c_threads ?c1) ?v" using live1 [of ?v] True by simp
      from exit_ok [OF this, of k cnt] obtain b' where "core_warp_exit fs cfg wid ?c1 = Some (?c1\<lparr>c_barriers := b'\<rparr>)"
        "barrier_inv k {} b' cnt" "w_active_threads w - {i} \<noteq> {} \<longrightarrow> b' = b"
        using w(7) b0 cb b by auto
      with True b show ?thesis by auto
    next
      case False
      with w(7) b cb show ?thesis by (intro exI [of _ b]) simp
    qed
    then obtain b' where ex': "(if ptx_thread_done fs f1 ?tid then core_warp_exit fs cfg wid ?c1 else Some ?c1) = Some (?c1\<lparr>c_barriers := b'\<rparr>)"
      and b': "barrier_inv k {} b' cnt" "w_active_threads w - {i} \<noteq> {} \<or> \<not> ptx_thread_done fs f1 ?tid \<longrightarrow> b' = c_barriers c0" by blast
    let ?c2 = "?c1\<lparr>c_barriers := b'\<rparr>"
    have cw: "c_warp c = (c_warp c0)[wid := w]" by (subst c) simp
    have len: "wid < length (c_warp ?c2)" and cwi: "c_warp ?c2 ! wid = w" using wid(1) by (simp_all add: cw)
    from status_ok [OF len pid1, of kk i fs ?tid, unfolded cwi, OF w(1) live] obtain w' where
      st: "checkExecutionStatusAndUpdate fs p1 i ?tid ?c2 = Some (?c2\<lparr>c_warp := (c_warp ?c2)[wid := w']\<rparr>)"
      and w': "counts_ok kk w'" "w_next w' = w_next w" "same_warp w w'"
        "if ptx_thread_done fs f1 ?tid then w_active_threads w' = w_active_threads w - {i} \<and> ibuffer_empty w' else same_buffer w w'"
      by auto
    have act': "w_active_threads w' = (if ptx_thread_done fs f1 ?tid then w_active_threads w - {i} else w_active_threads w)"
      using w'(4) by (simp add: same_buffer_def split: if_splits)
    have exl: "exec_lane fs cfg (p, c) i = Some (p1, ?c2\<lparr>c_warp := (c_warp ?c2)[wid := w']\<rparr>)"
      by (simp only: exec_lane_def prod.case True if_True Let_def pid tid_of_def [symmetric] ex bind.simps pid1 ex' st)
    have run1: "foldM (exec_thread fs cfg) (p0, c_threads c0) [0..<Suc i] = Some (p1, f1)"
      using run True ex pid by (simp add: foldM_append exec_thread_def tid_of_def)
    have buf: "same_buffer (c_warp c0 ! wid) w' \<or> ibuffer_empty w'"
      using w(5) w'(4) by (auto simp: same_buffer_def ibuffer_empty_def split: if_splits)
    have c': "?c2\<lparr>c_warp := (c_warp ?c2)[wid := w']\<rparr> = c0\<lparr>c_warp := (c_warp c0)[wid := w'], c_threads := f1, c_barriers := b'\<rparr>"
      by (subst c) (simp add: cw)
    have pcs: "\<forall>t \<ge> Suc i. t \<in> pi_warp_active_mask p0 \<longrightarrow> t \<in> w_active_threads w' \<and> ptx_get_pc fs f1 (tid_of cfg wid t) = pi_pc p0"
      using w(6) o1 other by (auto simp: act')
    have "lanes_inv fs cfg k cnt kk wid p0 c0 (Suc i) (p1, c0\<lparr>c_warp := (c_warp c0)[wid := w'], c_threads := f1, c_barriers := b'\<rparr>)"
      unfolding lanes_inv_def prod.case
    proof (intro conjI exI [of _ w'] exI [of _ b'])
      show "w_active_threads w' \<noteq> {} \<longrightarrow> b' = c_barriers c0" using b'(2) by (simp add: act')
      show "live_ok fs cfg wid (c_threads (c0\<lparr>c_warp := (c_warp c0)[wid := w'], c_threads := f1, c_barriers := b'\<rparr>)) w'"
        using live1 [OF act'] by simp
    qed (use s0 p m1 run1 w' w same_warp_trans [OF w(3) w'(3)] buf pcs b' in auto)
    then show ?thesis using exl c' by auto
  qed
qed

lemma lanes_ok:
  assumes "exec_ok fs" and "wid < length (c_warp c0)" and "inst_warp_id p0 = wid"
    and "lanes_inv fs cfg k cnt kk wid p0 c0 0 (p0, c0)"
    and "wid \<in> m_warp_active (c_barriers c0)" and "wid \<notin> m_warp_at_barrier (c_barriers c0)"
  shows "\<exists>x. execute_warp_inst_t fs cfg p0 c0 = Some x \<and> lanes_inv fs cfg k cnt kk wid p0 c0 (ic_warp_size cfg) x"
  unfolding execute_warp_inst_t_def
proof (rule foldM_upt_invariant [where I = "lanes_inv fs cfg k cnt kk wid p0 c0"])
  fix i x assume "i < ic_warp_size cfg" "lanes_inv fs cfg k cnt kk wid p0 c0 i x"
  then show "\<exists>x'. exec_lane fs cfg x i = Some x' \<and> lanes_inv fs cfg k cnt kk wid p0 c0 (Suc i) x'"
    using lane_step [OF assms(1-3) _ _ assms(5,6), of cfg k cnt kk i "fst x" "snd x"] by simp
qed (use assms(4) in simp_all)

section \<open>The barrier and the stack\<close>

lemma thread_pcs_spec:
  assumes "thread_pcs fs cfg wid rpc f = (dn, np, r)"
  shows "dn = {t. t < ic_warp_size cfg \<and> ptx_thread_done fs f (tid_of cfg wid t)} \<and> length np = ic_warp_size cfg
    \<and> (\<forall>t < ic_warp_size cfg. np ! t = (if ptx_thread_done fs f (tid_of cfg wid t) then - 1 else ptx_get_pc fs f (tid_of cfg wid t)))"
proof -
  have "case foldl (pc_step fs f (wid * ic_warp_size cfg)) ({}, [], rpc) [0..<m] of (dn, np, r) \<Rightarrow>
      dn = {t. t < m \<and> ptx_thread_done fs f (tid_of cfg wid t)} \<and> length np = m
      \<and> (\<forall>t < m. np ! t = (if ptx_thread_done fs f (tid_of cfg wid t) then - 1 else ptx_get_pc fs f (tid_of cfg wid t)))" for m
  proof (induction m)
    case (Suc m)
    have t: "wid * ic_warp_size cfg + m = tid_of cfg wid m" by (simp add: tid_of_def)
    show ?case using Suc
      by (auto simp: pc_step_def t nth_append less_Suc_eq split: prod.splits if_splits)
  qed simp
  from this [of "ic_warp_size cfg"] show ?thesis using assms by (simp add: thread_pcs_def)
qed

lemma sync_no_reduction:
  "warp_reaches_barrier ct w SYNC i n b = Some (r, b') \<Longrightarrow> r = None"
  by (auto simp: warp_reaches_barrier_def bind_eq_Some_conv Let_def split: if_splits)

lemma issue_barrier_ok:
  assumes "wid < length (c_warp c)" and "barrier_inv k {} (c_barriers c) cnt"
    and "pi_op q = BARRIER_OP \<Longrightarrow> ptx_barrier_args fs (c_threads c) (pi_pc q) = (SYNC, of_nat k, - 1)
      \<and> wid \<in> m_warp_active (c_barriers c) \<and> wid \<notin> m_warp_at_barrier (c_barriers c)
      \<and> m_cta_to_warps (c_barriers c) (w_cta_id (c_warp c ! wid)) = Some ws \<and> wid \<in> ws"
  shows "\<exists>w b cnt'. issue_barrier fs cfg q p wid c = Some (c\<lparr>c_warp := (c_warp c)[wid := w], c_barriers := b\<rparr>)
    \<and> barrier_inv k {} b cnt' \<and> same_warp (c_warp c ! wid) w \<and> same_buffer (c_warp c ! wid) w
    \<and> w_next w = w_next (c_warp c ! wid)"
proof -
  let ?w = "c_warp c ! wid"
  consider "pi_op q = BARRIER_OP" | "pi_op q = MEMORY_BARRIER_OP" | "pi_op q \<noteq> BARRIER_OP" "pi_op q \<noteq> MEMORY_BARRIER_OP" by blast
  then show ?thesis
  proof cases
    case 1
    let ?v = "?w\<lparr>w_inst_at_barrier := Some p\<rparr>"
    from arrive_ok [OF assms(2), of "w_cta_id ?w" ws wid SYNC] assms(3) [OF 1] obtain r b where
      b: "warp_reaches_barrier (w_cta_id ?w) wid SYNC (of_nat k) (- 1) (c_barriers c) = Some (r, b)"
        "barrier_inv k {} b (cnt(wid := Suc (cnt wid)))" by blast
    have "r = None" by (rule sync_no_reduction [OF b(1)])
    then have "issue_barrier fs cfg q p wid c = Some (c\<lparr>c_warp := (c_warp c)[wid := ?v], c_barriers := b\<rparr>)"
      using 1 assms(1) b(1) assms(3) [OF 1] by (simp add: issue_barrier_def upd_warp_def)
    with b(2) show ?thesis by (intro exI [of _ ?v] exI [of _ b] exI) (auto simp: same_warp_def same_buffer_def)
  next
    case 2
    let ?v = "?w\<lparr>w_membar := True\<rparr>"
    have "issue_barrier fs cfg q p wid c = Some (c\<lparr>c_warp := (c_warp c)[wid := ?v], c_barriers := c_barriers c\<rparr>)"
      using 2 assms(1) by (simp add: issue_barrier_def upd_warp_def)
    with assms(2) show ?thesis
      by (intro exI [of _ ?v] exI [of _ "c_barriers c"] exI [of _ cnt]) (auto simp: same_warp_def same_buffer_def)
  next
    case 3
    have "issue_barrier fs cfg q p wid c = Some (c\<lparr>c_warp := (c_warp c)[wid := ?w], c_barriers := c_barriers c\<rparr>)"
      using 3 by (simp add: issue_barrier_def)
    with assms(2) show ?thesis
      by (intro exI [of _ ?w] exI [of _ "c_barriers c"] exI [of _ cnt]) (auto simp: same_warp_def same_buffer_def)
  qed
qed

text \<open>What the program is asked for: the running threads of the top entry go on in at most two ways, one for a call and
  a return from it, and the reconvergence point is that of the entry when a path goes directly there.\<close>

definition branches_ok :: "'f functional_sim \<Rightarrow> issue_config \<Rightarrow> nat \<Rightarrow> pipe_inst \<Rightarrow> 'f \<Rightarrow> simt_entry \<Rightarrow> bool" where
  "branches_ok fs cfg wid p f tos = (case thread_pcs fs cfg wid (pi_reconvergence_pc p) f of (dn, np, r) \<Rightarrow>
     let ways = (!) np ` (m_active_mask tos - dn) in
     - 1 \<notin> ways \<and> card ways \<le> 2
     \<and> (card ways = 2 \<longrightarrow> pi_op p \<noteq> CALL_OPS \<and> \<not> (pi_op p = RET_OPS \<and> m_type tos = STACK_ENTRY_TYPE_CALL)
          \<and> (m_recvg_pc tos \<in> ways \<longrightarrow> r = m_recvg_pc tos)))"

lemma update_stack_ok:
  assumes "wid < length (c_simt_stack c)" and st: "c_simt_stack c ! wid = tos # es" and "simt_ok (tos # es)"
    and "m_active_mask tos \<subseteq> {..<ic_warp_size cfg}" and "m_active_mask tos \<noteq> {}" and "ic_warp_size cfg \<le> 32"
    and "m_pc tos = pi_pc p" and br: "branches_ok fs cfg wid p (c_threads c) tos"
  shows "\<exists>r st'. updateSIMTStack fs cfg wid p c = Some (p\<lparr>pi_reconvergence_pc := r\<rparr>, c\<lparr>c_simt_stack := (c_simt_stack c)[wid := st']\<rparr>)
    \<and> simt_ok st' \<and> (\<forall>t \<in> m_active_mask tos. \<not> ptx_thread_done fs (c_threads c) (tid_of cfg wid t) \<longrightarrow>
        thread_pc st' t = Some (ptx_get_pc fs (c_threads c) (tid_of cfg wid t)))"
proof -
  obtain dn np r where pcs: "thread_pcs fs cfg wid (pi_reconvergence_pc p) (c_threads c) = (dn, np, r)" by (metis prod_cases3)
  note sp = thread_pcs_spec [OF pcs]
  let ?L = "m_active_mask tos - dn"
  have b: "- 1 \<notin> (!) np ` ?L" "card ((!) np ` ?L) \<le> 2"
    "card ((!) np ` ?L) = 2 \<Longrightarrow> pi_op p \<noteq> CALL_OPS \<and> \<not> (pi_op p = RET_OPS \<and> m_type tos = STACK_ENTRY_TYPE_CALL)"
    "card ((!) np ` ?L) = 2 \<Longrightarrow> m_recvg_pc tos \<in> (!) np ` ?L \<Longrightarrow> r = m_recvg_pc tos"
    using br unfolding branches_ok_def pcs prod.case Let_def by blast+
  have len: "length np = ic_warp_size cfg" using sp by blast
  have ne: "\<forall>t \<in> ?L. np ! t \<noteq> - 1" using b(1) by (metis imageI)
  have "\<exists>st'. simt_update (ic_warp_size cfg) (c_sim_cycle c) dn np r (pi_op p) (pi_isize p) (pi_pc p) (tos # es) = Some st'
      \<and> advanced ?L np (tos # es) st'"
    by (rule simt_update_advances [OF assms(3-5) len assms(6,7) refl ne b(2)]) (erule b(3), erule (1) b(4))
  then obtain st' where st': "simt_update (ic_warp_size cfg) (c_sim_cycle c) dn np r (pi_op p) (pi_isize p) (pi_pc p) (tos # es) = Some st'"
    "advanced ?L np (tos # es) st'" by blast
  have "thread_pc st' t = Some (ptx_get_pc fs (c_threads c) (tid_of cfg wid t))"
    if t: "t \<in> m_active_mask tos" "\<not> ptx_thread_done fs (c_threads c) (tid_of cfg wid t)" for t
    using st'(2) sp t assms(4) by (auto simp: advanced_def)
  moreover have "updateSIMTStack fs cfg wid p c = Some (p\<lparr>pi_reconvergence_pc := r\<rparr>, c\<lparr>c_simt_stack := (c_simt_stack c)[wid := st']\<rparr>)"
    using assms(1) st st'(1) by (simp add: updateSIMTStack_def pcs)
  ultimately show ?thesis using st'(2) by (auto simp: advanced_def)
qed

section \<open>Issuing\<close>

text \<open>The state of a core as far as warp \<open>wid\<close> is concerned: \<open>fl\<close> are the instructions in flight, \<open>kk\<close> those of the warp,
  \<open>cnt\<close> how often each warp has come to the barrier \<open>k\<close>. The threads of the top of the stack are running and the
  functional simulator has them at its program counter.\<close>

definition core_ok :: "'f functional_sim \<Rightarrow> issue_config \<Rightarrow> nat \<Rightarrow> (nat \<Rightarrow> nat) \<Rightarrow> nat \<Rightarrow> inst list \<Rightarrow> 'f shader_core \<Rightarrow> nat \<Rightarrow> bool" where
  "core_ok fs cfg k cnt kk fl c wid \<longleftrightarrow> wid < length (c_warp c) \<and> length (c_simt_stack c) = length (c_warp c)
     \<and> ic_warp_size cfg \<le> 32 \<and> sb_inv (length (c_warp c)) (c_scoreboard c, fl)
     \<and> warp_ok kk (c_warp c ! wid) \<and> w_warp_id (c_warp c ! wid) = wid \<and> live_ok fs cfg wid (c_threads c) (c_warp c ! wid)
     \<and> barrier_inv k {} (c_barriers c) cnt \<and> wid \<in> m_warp_active (c_barriers c)
     \<and> (\<exists>ws. m_cta_to_warps (c_barriers c) (w_cta_id (c_warp c ! wid)) = Some ws \<and> wid \<in> ws)
     \<and> simt_ok (c_simt_stack c ! wid) \<and> c_simt_stack c ! wid \<noteq> []
     \<and> m_active_mask (hd (c_simt_stack c ! wid)) \<noteq> {}
     \<and> (\<forall>t \<in> m_active_mask (hd (c_simt_stack c ! wid)). t \<in> w_active_threads (c_warp c ! wid)
          \<and> ptx_get_pc fs (c_threads c) (tid_of cfg wid t) = m_pc (hd (c_simt_stack c ! wid)))"

text \<open>The instruction as it enters its pipeline register.\<close>

definition entering :: "nat set \<Rightarrow> nat \<Rightarrow> pipe_inst \<Rightarrow> 'f shader_core \<Rightarrow> pipe_inst" where
  "entering act wid q c = issue_inst act wid (c_sim_cycle c) (w_dynamic_warp_id (c_warp c ! wid)) (c_next_uid c + 1) q"

definition program_ok :: "'f functional_sim \<Rightarrow> issue_config \<Rightarrow> nat \<Rightarrow> nat \<Rightarrow> pipe_inst \<Rightarrow> simt_entry \<Rightarrow> pipe_inst \<Rightarrow> 'f \<Rightarrow> bool" where
  "program_ok fs cfg k wid q tos p f \<longleftrightarrow> branches_ok fs cfg wid p f tos
     \<and> (pi_op q = BARRIER_OP \<longrightarrow> ptx_barrier_args fs f (pi_pc q) = (SYNC, of_nat k, - 1)
          \<and> (\<exists>t < ic_warp_size cfg. \<not> ptx_thread_done fs f (tid_of cfg wid t)))"

lemma exec_threads_lanes:
  "foldM (exec_thread fs cfg) (p, f) [0..<ic_warp_size cfg] = exec_threads fs cfg p f"
  by (simp add: exec_threads_def)

text \<open>Executing the instruction.\<close>

lemma execute_ok:
  assumes fs: "exec_ok fs" and c: "core_ok fs cfg k cnt kk fl c wid" and w: "ibuffer_next_inst (c_warp c ! wid) = Some q"
    and b: "wid \<notin> m_warp_at_barrier (c_barriers c)" and act: "act = m_active_mask (hd (c_simt_stack c ! wid))"
    and pc: "pi_pc q = m_pc (hd (c_simt_stack c ! wid))"
    and c0: "c0 = (count_cycle i (c\<lparr>c_warp := (c_warp c)[wid := ibuffer_free (c_warp c ! wid)], c_next_uid := u\<rparr>))"
  shows "\<exists>p f w b. execute_warp_inst_t fs cfg (entering act wid q c) c0 =
      Some (p, c0\<lparr>c_warp := (c_warp c)[wid := w], c_threads := f, c_barriers := b\<rparr>)
    \<and> exec_threads fs cfg (entering act wid q c) (c_threads c) = Some (p, f) \<and> same_static (entering act wid q c) p
    \<and> counts_ok (Suc kk) w \<and> w_next w = w_next (c_warp c ! wid) \<and> same_warp (c_warp c ! wid) w
    \<and> (same_buffer (ibuffer_free (c_warp c ! wid)) w \<or> ibuffer_empty w) \<and> live_ok fs cfg wid f w
    \<and> barrier_inv k {} b cnt \<and> (w_active_threads w \<noteq> {} \<longrightarrow> b = c_barriers c)"
proof -
  let ?p0 = "entering act wid q c" and ?w0 = "ibuffer_free (c_warp c ! wid)"
  have ok: "wid < length (c_warp c)" "warp_ok kk (c_warp c ! wid)" "live_ok fs cfg wid (c_threads c) (c_warp c ! wid)"
    "barrier_inv k {} (c_barriers c) cnt" "wid \<in> m_warp_active (c_barriers c)"
    "\<forall>t \<in> act. t \<in> w_active_threads (c_warp c ! wid) \<and> ptx_get_pc fs (c_threads c) (tid_of cfg wid t) = pi_pc q"
    using c by (auto simp: core_ok_def act pc)
  have p0: "inst_warp_id ?p0 = wid" "pi_warp_active_mask ?p0 = act" "pi_pc ?p0 = pi_pc q"
    by (simp_all add: entering_def issue_inst_def)
  have cs: "c_warp c0 = (c_warp c)[wid := ?w0]" "c_threads c0 = c_threads c" "c_barriers c0 = c_barriers c"
    by (simp_all add: c0 count_cycle_def)
  have w0: "c_warp c0 ! wid = ?w0" using ok(1) by (simp add: cs)
  have f: "counts_ok (Suc kk) ?w0" by (rule free_counts_ok [OF ok(2) w])
  have live: "live_ok fs cfg wid (c_threads c) ?w0" using ok(3) by (simp add: live_ok_def ibuffer_free_def)
  have "lanes_inv fs cfg k cnt (Suc kk) wid ?p0 c0 0 (?p0, c0)"
    unfolding lanes_inv_def prod.case w0 cs
  proof (intro conjI exI [of _ ?w0] exI [of _ "c_barriers c"])
    show "c0 = c0\<lparr>c_warp := (c_warp c)[wid := ?w0, wid := ?w0], c_threads := c_threads c, c_barriers := c_barriers c\<rparr>"
      by (simp add: c0 count_cycle_def)
    show "\<forall>t \<ge> 0. t \<in> pi_warp_active_mask ?p0 \<longrightarrow> t \<in> w_active_threads ?w0 \<and> ptx_get_pc fs (c_threads c) (tid_of cfg wid t) = pi_pc ?p0"
      using ok(6) by (simp add: p0 ibuffer_free_def)
  qed (use f live ok in \<open>simp_all add: same_buffer_def\<close>)
  with lanes_ok [OF fs _ p0(1), of c0 cfg k cnt "Suc kk"] ok(1,5) b obtain p1 c1 where
    ex: "execute_warp_inst_t fs cfg ?p0 c0 = Some (p1, c1)" and inv: "lanes_inv fs cfg k cnt (Suc kk) wid ?p0 c0 (ic_warp_size cfg) (p1, c1)"
    by (auto simp: cs)
  obtain w1 b1 where c1: "c1 = c0\<lparr>c_warp := (c_warp c0)[wid := w1], c_threads := c_threads c1, c_barriers := b1\<rparr>"
    and r: "counts_ok (Suc kk) w1" "w_next w1 = w_next ?w0" "same_warp ?w0 w1" "live_ok fs cfg wid (c_threads c1) w1"
      "same_buffer ?w0 w1 \<or> ibuffer_empty w1" "barrier_inv k {} b1 cnt" "w_active_threads w1 \<noteq> {} \<longrightarrow> b1 = c_barriers c"
      "same_static ?p0 p1" "foldM (exec_thread fs cfg) (?p0, c_threads c) [0..<ic_warp_size cfg] = Some (p1, c_threads c1)"
    using inv unfolding lanes_inv_def prod.case w0 cs(2,3) by blast
  have "c1 = c0\<lparr>c_warp := (c_warp c)[wid := w1], c_threads := c_threads c1, c_barriers := b1\<rparr>"
    by (subst c1) (simp add: cs)
  moreover have "w_next ?w0 = w_next (c_warp c ! wid)" "same_warp (c_warp c ! wid) w1"
    using r(3) by (simp_all add: ibuffer_free_def same_warp_def)
  ultimately show ?thesis using ex r exec_threads_lanes by metis
qed

lemma may_issueD:
  assumes "may_issue c wid q act out" and "core_ok fs cfg k cnt kk fl c wid"
  shows "ibuffer_next_inst (c_warp c ! wid) = Some q" "wid \<notin> m_warp_at_barrier (c_barriers c)"
    "act = m_active_mask (hd (c_simt_stack c ! wid))" "pi_pc q = m_pc (hd (c_simt_stack c ! wid))"
    "reg_table (c_scoreboard c) ! wid \<inter> inst_regs (inst.truncate q) = {}" "has_free (c_pipe c out)"
proof -
  obtain e es where st: "c_simt_stack c ! wid = e # es" using assms(2) by (cases "c_simt_stack c ! wid") (auto simp: core_ok_def)
  show "ibuffer_next_inst (c_warp c ! wid) = Some q" "has_free (c_pipe c out)" using assms(1) by (simp_all add: may_issue_def)
  show "act = m_active_mask (hd (c_simt_stack c ! wid))" "pi_pc q = m_pc (hd (c_simt_stack c ! wid))"
    using assms(1) st by (auto simp: may_issue_def get_active_mask_def get_pdom_stack_top_info_def)
  show "reg_table (c_scoreboard c) ! wid \<inter> inst_regs (inst.truncate q) = {}"
    using assms(1) by (auto simp: may_issue_def checkCollision_def bind_eq_Some_conv at_get_eq_Some)
  show "wid \<notin> m_warp_at_barrier (c_barriers c)"
    using assms by (auto simp: may_issue_def core_ok_def waiting_warp_def warp_waiting_at_barrier_def bs_test_def
        bind_eq_Some_conv at_get_eq_Some split: if_splits)
qed

lemma truncate_regs:
  assumes "same_static p p'"
  shows "inst_regs (inst.truncate p') = inst_regs (inst.truncate p)" "inst_out (inst.truncate p') = inst_out p"
    "inst_warp_id (inst.truncate p') = inst_warp_id p"
  using assms by (simp_all add: inst_regs_def inst.defs same_static_def)

lemma counts_ok_cong:
  assumes "counts_ok k w" and "same_buffer w w'" and "same_warp w w'" and "w_next w' = w_next w"
  shows "counts_ok k w'"
  using assms by (simp add: buffer_defs same_buffer_def same_warp_def)

lemma issue_warp_composes:
  assumes fs: "exec_ok fs" and c: "core_ok fs cfg k cnt kk fl c wid" and may: "may_issue c wid q act out"
    and dec: "pi_decoded q" and dist: "distinct (filter (\<lambda>r. r > 0) (inst_out q))"
    and prog: "\<forall>p f. exec_threads fs cfg (entering act wid q c) (c_threads c) = Some (p, f)
      \<longrightarrow> program_ok fs cfg k wid q (hd (c_simt_stack c ! wid)) p f"
  shows "\<exists>c' p. issue_warp fs cfg out q act wid c = Some c' \<and> exec_threads fs cfg (entering act wid q c) (c_threads c) = Some (p, c_threads c')
    \<and> sb_inv (length (c_warp c)) (c_scoreboard c', inst.truncate p # fl)
    \<and> warp_ok (Suc kk) (ibuffer_step (c_warp c' ! wid)) \<and> live_ok fs cfg wid (c_threads c') (c_warp c' ! wid)
    \<and> (\<exists>cnt'. barrier_inv k {} (c_barriers c') cnt') \<and> simt_ok (c_simt_stack c' ! wid)
    \<and> (\<forall>t \<in> act. \<not> ptx_thread_done fs (c_threads c') (tid_of cfg wid t) \<longrightarrow>
         thread_pc (c_simt_stack c' ! wid) t = Some (ptx_get_pc fs (c_threads c') (tid_of cfg wid t)))
    \<and> (\<forall>j. j \<noteq> wid \<longrightarrow> c_warp c' ! j = c_warp c ! j \<and> c_simt_stack c' ! j = c_simt_stack c ! j)
    \<and> (\<exists>r rp. get_free (c_pipe c out) = Some r \<and> c_pipe c' = (c_pipe c)(out := (c_pipe c out)[r := p\<lparr>pi_reconvergence_pc := rp\<rparr>]))
    \<and> length (c_warp c') = length (c_warp c) \<and> same_warp (c_warp c ! wid) (c_warp c' ! wid) \<and> c_next_uid c' = c_next_uid c + 1"
proof -
  note m = may_issueD [OF may c]
  obtain tos es where st: "c_simt_stack c ! wid = tos # es" using c by (cases "c_simt_stack c ! wid") (auto simp: core_ok_def)
  have ok: "wid < length (c_warp c)" "length (c_simt_stack c) = length (c_warp c)" "ic_warp_size cfg \<le> 32"
    "sb_inv (length (c_warp c)) (c_scoreboard c, fl)" "warp_ok kk (c_warp c ! wid)" "simt_ok (tos # es)"
    "m_active_mask tos \<noteq> {}" "act = m_active_mask tos" "pi_pc q = m_pc tos" "act \<subseteq> {..<ic_warp_size cfg}"
    using c m(3,4) st by (auto simp: core_ok_def live_ok_def)
  obtain r where r: "get_free (c_pipe c out) = Some r" using get_free_has [OF m(6)] by blast
  let ?p0 = "entering act wid q c" and ?u = "c_next_uid c + 1"
  let ?c0 = "count_cycle (2 + card act) (c\<lparr>c_warp := (c_warp c)[wid := ibuffer_free (c_warp c ! wid)], c_next_uid := ?u\<rparr>)"
  obtain p f w b where ex: "execute_warp_inst_t fs cfg ?p0 ?c0 = Some (p, ?c0\<lparr>c_warp := (c_warp c)[wid := w], c_threads := f, c_barriers := b\<rparr>)"
    and et: "exec_threads fs cfg ?p0 (c_threads c) = Some (p, f)" and sp: "same_static ?p0 p"
    and w: "counts_ok (Suc kk) w" "w_next w = w_next (c_warp c ! wid)" "same_warp (c_warp c ! wid) w"
      "same_buffer (ibuffer_free (c_warp c ! wid)) w \<or> ibuffer_empty w" "live_ok fs cfg wid f w"
      "barrier_inv k {} b cnt" "w_active_threads w \<noteq> {} \<longrightarrow> b = c_barriers c"
    using execute_ok [OF fs c m(1-4) refl] by blast
  let ?c1 = "?c0\<lparr>c_warp := (c_warp c)[wid := w], c_threads := f, c_barriers := b\<rparr>"
  have pr: "program_ok fs cfg k wid q tos p f" using prog et st by simp
  obtain ws where ws: "m_cta_to_warps (c_barriers c) (w_cta_id (c_warp c ! wid)) = Some ws" "wid \<in> ws" "wid \<in> m_warp_active (c_barriers c)"
    using c by (auto simp: core_ok_def)
  have bar: "ptx_barrier_args fs (c_threads ?c1) (pi_pc q) = (SYNC, of_nat k, - 1)
      \<and> wid \<in> m_warp_active (c_barriers ?c1) \<and> wid \<notin> m_warp_at_barrier (c_barriers ?c1)
      \<and> m_cta_to_warps (c_barriers ?c1) (w_cta_id (c_warp ?c1 ! wid)) = Some ws \<and> wid \<in> ws" if "pi_op q = BARRIER_OP"
  proof -
    have "w_active_threads w \<noteq> {}" using pr that w(5) by (auto simp: program_ok_def live_ok_def)
    then have "b = c_barriers c" using w(7) by blast
    with pr that ws m(2) ok(1) w(3) show ?thesis by (simp add: program_ok_def same_warp_def)
  qed
  have l1: "wid < length (c_warp ?c1)" "c_warp ?c1 ! wid = w" "barrier_inv k {} (c_barriers ?c1) cnt" using ok(1) w(6) by simp_all
  from issue_barrier_ok [OF l1(1,3), of q fs ws cfg p, OF bar, unfolded l1(2)] obtain w2 b2 cnt' where
    ib: "issue_barrier fs cfg q p wid ?c1 = Some (?c1\<lparr>c_warp := (c_warp ?c1)[wid := w2], c_barriers := b2\<rparr>)"
    and w2: "barrier_inv k {} b2 cnt'" "same_warp w w2" "same_buffer w w2" "w_next w2 = w_next w" by blast
  let ?c2 = "?c1\<lparr>c_warp := (c_warp ?c1)[wid := w2], c_barriers := b2\<rparr>"
  have s2: "c_simt_stack ?c2 = c_simt_stack c" "c_threads ?c2 = f" "c_scoreboard ?c2 = c_scoreboard c" "c_pipe ?c2 = c_pipe c"
    "c_warp ?c2 = (c_warp c)[wid := w2]" "c_barriers ?c2 = b2" by (simp_all add: count_cycle_def)
  have pcp: "m_pc tos = pi_pc p" using sp ok(9) by (simp add: same_static_def entering_def issue_inst_def)
  have br: "branches_ok fs cfg wid p (c_threads ?c2) tos" using pr by (simp add: program_ok_def)
  have "wid < length (c_simt_stack ?c2)" "c_simt_stack ?c2 ! wid = tos # es" using ok(1,2) st s2 by simp_all
  from update_stack_ok [OF this ok(6) _ ok(7,3) pcp br] ok(8,10) obtain rp st' where
    us: "updateSIMTStack fs cfg wid p ?c2 = Some (p\<lparr>pi_reconvergence_pc := rp\<rparr>, ?c2\<lparr>c_simt_stack := (c_simt_stack ?c2)[wid := st']\<rparr>)"
    and st': "simt_ok st'" "\<forall>t \<in> act. \<not> ptx_thread_done fs f (tid_of cfg wid t) \<longrightarrow>
        thread_pc st' t = Some (ptx_get_pc fs f (tid_of cfg wid t))" by (auto simp: s2)
  let ?fin = "p\<lparr>pi_reconvergence_pc := rp\<rparr>"
  have tr: "inst.truncate ?fin = inst.truncate p" by (simp add: inst.defs)
  have tq: "inst_regs (inst.truncate ?p0) = inst_regs (inst.truncate q)" "inst_out ?p0 = inst_out q" "inst_warp_id ?p0 = wid"
    by (simp_all add: inst_regs_def inst.defs entering_def issue_inst_def)
  have "ok (\<lambda>sb. sb_inv (length (c_warp c)) (sb, inst.truncate p # fl)) (reserveRegisters (inst.truncate p) (c_scoreboard c))"
    by (rule sb_inv_issue [OF ok(4)]) (unfold truncate_regs [OF sp] tq, rule ok(1), rule m(5), rule dist)
  then obtain sb where sb: "reserveRegisters (inst.truncate p) (c_scoreboard c) = Some sb"
    "sb_inv (length (c_warp c)) (sb, inst.truncate p # fl)" by (auto simp: ok_def split: option.splits)
  let ?c3 = "?c2\<lparr>c_simt_stack := (c_simt_stack ?c2)[wid := st']\<rparr>"
  let ?c4 = "?c3\<lparr>c_scoreboard := sb, c_pipe := (c_pipe ?c3)(out := (c_pipe ?c3 out)[r := ?fin])\<rparr>"
  let ?w3 = "w2\<lparr>w_next_pc := pi_pc q + pi_isize q\<rparr>"
  let ?c5 = "?c4\<lparr>c_warp := (c_warp ?c4)[wid := ?w3]\<rparr>" and ?cx = "c\<lparr>c_warp := (c_warp c)[wid := ibuffer_free (c_warp c ! wid)]\<rparr>"
  have u0: "upd_warp wid (\<lambda>w. Some (ibuffer_free w)) c = Some ?cx" by (simp add: upd_warp_def ok(1))
  have a0: "at_get (c_warp ?cx) wid = Some (ibuffer_free (c_warp c ! wid))" by (simp add: ok(1))
  have p0: "issue_inst act wid (c_sim_cycle ?cx) (w_dynamic_warp_id (ibuffer_free (c_warp c ! wid))) (c_next_uid ?cx + 1) q = ?p0"
    by (simp add: entering_def ibuffer_free_def)
  have c0: "count_cycle (2 + card (pi_warp_active_mask ?p0)) (?cx\<lparr>c_next_uid := c_next_uid ?cx + 1\<rparr>) = ?c0"
    by (simp add: entering_def issue_inst_def)
  have sb3: "reserveRegisters (inst.truncate ?fin) (c_scoreboard ?c3) = Some sb" using sb(1) by (simp add: tr count_cycle_def)
  have u5: "upd_warp wid (\<lambda>w. Some (w\<lparr>w_next_pc := pi_pc q + pi_isize q\<rparr>)) ?c4 = Some ?c5"
    using ok(1) by (simp add: upd_warp_def count_cycle_def)
  have run: "issue_warp fs cfg out q act wid c = Some ?c5"
    by (simp only: issue_warp_def r bind.simps u0 assert_c_bind [OF dec] a0 Let_def p0 c0 ex prod.case ib us sb3 u5)
  have w3: "same_buffer w ?w3" "same_warp w ?w3" "w_next ?w3 = w_next w" using w2 by (simp_all add: same_buffer_def same_warp_def)
  have "same_buffer (ibuffer_free (c_warp c ! wid)) ?w3 \<or> ibuffer_empty ?w3"
    using w(4) w3(1) by (auto simp: same_buffer_def ibuffer_empty_def)
  from free_step_ok [OF ok(5) m(1) counts_ok_cong [OF w(1) w3] _ same_warp_trans [OF w(3) w3(2)] this] w(2) w3(3)
  have wok: "warp_ok (Suc kk) (ibuffer_step ?w3)" by simp
  have liv: "live_ok fs cfg wid f ?w3" using w(5) w3(1) by (simp add: live_ok_def same_buffer_def)
  obtain c' where c': "c' = ?c5" by blast
  have c5: "c_warp c' = (c_warp c)[wid := ?w3]" "c_threads c' = f" "c_scoreboard c' = sb" "c_barriers c' = b2"
    "c_simt_stack c' = (c_simt_stack c)[wid := st']" "c_pipe c' = (c_pipe c)(out := (c_pipe c out)[r := ?fin])"
    "c_next_uid c' = c_next_uid c + 1"
    unfolding c' by (simp_all add: count_cycle_def)
  have nth: "c_warp c' ! wid = ?w3" "c_simt_stack c' ! wid = st'" using ok(1,2) by (simp_all add: c5)
  have oth: "\<forall>j. j \<noteq> wid \<longrightarrow> c_warp c' ! j = c_warp c ! j \<and> c_simt_stack c' ! j = c_simt_stack c ! j"
    by (simp add: c5)
  have run': "issue_warp fs cfg out q act wid c = Some c'" unfolding c' by (rule run)
  have more: "length (c_warp c') = length (c_warp c)" "same_warp (c_warp c ! wid) ?w3"
    using same_warp_trans [OF w(3) w3(2)] by (simp_all add: c5)
  show ?thesis
    using run' et sb(2) wok liv w2(1) st' oth r c5(6) more c5(7) unfolding c5(2-4) [symmetric] nth [symmetric] by blast
qed

end
