(* ===== verification/Issue_Cycle.thy ===== *)
theory Issue_Cycle
  imports Issue_Ok
begin

text \<open>
  A cycle of a warp scheduler as a whole: it orders its warps, it succeeds, and it issues an instruction exactly when
  one of its warps can issue, and no more than one warp may issue in a cycle. The properties of the issue stage follow, with a core of one warp as
  their example.
\<close>

section \<open>A cycle succeeds and does not idle\<close>

text \<open>A warp of the scheduler: it has exited, or its threads have, or it is in a consistent state and its next
  instruction is one the issue stage can take.\<close>

definition warp_ready :: "'f functional_sim \<Rightarrow> issue_config \<Rightarrow> nat \<Rightarrow> inst list \<Rightarrow> 'f shader_core \<Rightarrow> nat \<Rightarrow> bool" where
  "warp_ready fs cfg k fl c j \<longleftrightarrow> j < length (c_warp c) \<and> (w_done_exit (c_warp c ! j)
     \<or> functional_done (c_warp c ! j) \<and> w_warp_id (c_warp c ! j) = j
     \<or> j < WARP_PER_CTA_MAX \<and> (\<exists>cnt kk. core_ok fs cfg k cnt kk fl c j) \<and>
       (\<forall>q. ibuffer_next_inst (c_warp c ! j) = Some q \<longrightarrow> pi_decoded q \<and> distinct (filter (\<lambda>r. r > 0) (inst_out q))
          \<and> (\<forall>p f. exec_threads fs cfg (entering (m_active_mask (hd (c_simt_stack c ! j))) j q c) (c_threads c) = Some (p, f)
               \<longrightarrow> program_ok fs cfg k j q (hd (c_simt_stack c ! j)) p f)))"

definition can_issue :: "'f shader_core \<Rightarrow> nat \<Rightarrow> bool" where
  "can_issue c j \<longleftrightarrow> \<not> w_done_exit (c_warp c ! j) \<and> (\<exists>q act out. may_issue c j q act out)"

text \<open>Changes of a warp that matter to no other, and not to itself but for its buffer.\<close>

definition quiet :: "nat \<Rightarrow> 'f shader_core \<Rightarrow> 'f shader_core \<Rightarrow> bool" where
  "quiet j c c' \<longleftrightarrow> (\<exists>w. c' = c\<lparr>c_warp := (c_warp c)[j := w]\<rparr> \<and> same_warp (c_warp c ! j) w
     \<and> w_active_threads w = w_active_threads (c_warp c ! j) \<and> w_n_completed w = w_n_completed (c_warp c ! j)
     \<and> (\<forall>kk. warp_ok kk (c_warp c ! j) \<longrightarrow> warp_ok kk w)
     \<and> (ibuffer_next_inst w = ibuffer_next_inst (c_warp c ! j) \<or> ibuffer_next_inst w = None))"

lemma quiet_ready:
  assumes "quiet j c c'" and "j < length (c_warp c)" and "warp_ready fs cfg k fl c i"
  shows "warp_ready fs cfg k fl c' i"
proof (cases "i = j")
  case False
  from assms(1) obtain w where c': "c' = c\<lparr>c_warp := (c_warp c)[j := w]\<rparr>" by (auto simp: quiet_def)
  have cw: "c_warp c' ! i = c_warp c ! i" "length (c_warp c') = length (c_warp c)" using False by (simp_all add: c')
  have eq: "c_simt_stack c' = c_simt_stack c" "c_threads c' = c_threads c" "c_barriers c' = c_barriers c"
    "c_scoreboard c' = c_scoreboard c" "c_sim_cycle c' = c_sim_cycle c" "c_next_uid c' = c_next_uid c" by (simp_all add: c')
  show ?thesis using assms(3) unfolding warp_ready_def core_ok_def entering_def cw eq .
next
  case True
  from assms(1) obtain w where c': "c' = c\<lparr>c_warp := (c_warp c)[j := w]\<rparr>" and w: "same_warp (c_warp c ! j) w"
     "w_active_threads w = w_active_threads (c_warp c ! j)" "w_n_completed w = w_n_completed (c_warp c ! j)"
     "\<forall>kk. warp_ok kk (c_warp c ! j) \<longrightarrow> warp_ok kk w"
     "ibuffer_next_inst w = ibuffer_next_inst (c_warp c ! j) \<or> ibuffer_next_inst w = None" by (auto simp: quiet_def)
  have cw: "c_warp c' ! j = w" "length (c_warp c') = length (c_warp c)" using assms(2) by (simp_all add: c')
  have eq: "c_simt_stack c' = c_simt_stack c" "c_threads c' = c_threads c" "c_barriers c' = c_barriers c"
    "c_scoreboard c' = c_scoreboard c" by (simp_all add: c')
  have en: "entering act j q c' = entering act j q c" for act q
    using w(1) cw assms(2) by (simp add: entering_def c' same_warp_def)
  have co: "core_ok fs cfg k cnt kk fl c' j" if "core_ok fs cfg k cnt kk fl c j" for cnt kk
    using that w unfolding core_ok_def cw eq by (simp add: same_warp_def live_ok_def)
  have sw: "w_done_exit w = w_done_exit (c_warp c ! j)" "functional_done w = functional_done (c_warp c ! j)"
    "w_warp_id w = w_warp_id (c_warp c ! j)" using w(1,3) by (simp_all add: same_warp_def functional_done_def)
  have nx: "ibuffer_next_inst (c_warp c ! j) = Some q" if "ibuffer_next_inst w = Some q" for q using w(5) that by auto
  show ?thesis using assms(3) co nx unfolding True warp_ready_def cw eq(1,2) en sw by blast
qed

lemma quiet_trans:
  assumes "quiet j c c1" and "quiet j c1 c2" and "j < length (c_warp c)"
  shows "quiet j c c2"
proof -
  obtain w1 where c1: "c1 = c\<lparr>c_warp := (c_warp c)[j := w1]\<rparr>" and w1: "same_warp (c_warp c ! j) w1"
    "w_active_threads w1 = w_active_threads (c_warp c ! j)" "w_n_completed w1 = w_n_completed (c_warp c ! j)"
    "\<forall>kk. warp_ok kk (c_warp c ! j) \<longrightarrow> warp_ok kk w1"
    "ibuffer_next_inst w1 = ibuffer_next_inst (c_warp c ! j) \<or> ibuffer_next_inst w1 = None"
    using assms(1) unfolding quiet_def by blast
  have cw: "c_warp c1 ! j = w1" using assms(3) by (simp add: c1)
  obtain w2 where c2: "c2 = c1\<lparr>c_warp := (c_warp c1)[j := w2]\<rparr>" and w2: "same_warp w1 w2"
    "w_active_threads w2 = w_active_threads w1" "w_n_completed w2 = w_n_completed w1"
    "\<forall>kk. warp_ok kk w1 \<longrightarrow> warp_ok kk w2" "ibuffer_next_inst w2 = ibuffer_next_inst w1 \<or> ibuffer_next_inst w2 = None"
    using assms(2) unfolding quiet_def cw by blast
  have e: "c2 = c\<lparr>c_warp := (c_warp c)[j := w2]\<rparr>" by (simp add: c1 c2)
  have nx: "ibuffer_next_inst w2 = ibuffer_next_inst (c_warp c ! j) \<or> ibuffer_next_inst w2 = None" using w1(5) w2(5) by metis
  have ok: "\<forall>kk. warp_ok kk (c_warp c ! j) \<longrightarrow> warp_ok kk w2" using w1(4) w2(4) by blast
  show ?thesis unfolding quiet_def
    by (rule exI [of _ w2], intro conjI) (rule e same_warp_trans [OF w1(1) w2(1)] trans [OF w2(2) w1(2)] trans [OF w2(3) w1(3)] ok nx)+
qed

lemma quiet_refl: "quiet j c c"
  unfolding quiet_def by (intro exI [of _ "c_warp c ! j"]) simp

text \<open>When a warp does not wait.\<close>

lemma not_waiting:
  assumes "j < length (c_warp c)" and "w_warp_id (c_warp c ! j) = j"
  shows "(\<exists>c'. waiting_warp j c = Some (False, c')) \<longleftrightarrow> \<not> functional_done (c_warp c ! j)
    \<and> warp_waiting_at_barrier j (c_barriers c) = Some False
    \<and> (w_membar (c_warp c ! j) \<longrightarrow> pendingWrites j (c_scoreboard c) = Some False) \<and> w_n_atomic (c_warp c ! j) = 0"
proof (cases "functional_done (c_warp c ! j)")
  case False
  note a = waiting_warp_def warp_waiting_at_mem_barrier_def upd_warp_def assms False
  show ?thesis
  proof (cases "warp_waiting_at_barrier j (c_barriers c)")
    case (Some b)
    note b = Some
    show ?thesis
    proof (cases "w_membar (c_warp c ! j)")
      case True
      then show ?thesis by (cases b; cases "pendingWrites j (c_scoreboard c)") (auto simp: a b word_gt_0)
    next
      case False
      then show ?thesis by (cases b) (auto simp: a b word_gt_0)
    qed
  qed (simp add: a)
qed (use assms in \<open>simp add: waiting_warp_def\<close>)

lemma waiting_ok:
  assumes "j < length (c_warp c)" and "w_warp_id (c_warp c ! j) = j" and "j < WARP_PER_CTA_MAX \<or> functional_done (c_warp c ! j)"
    and "j < length (reg_table (c_scoreboard c)) \<or> functional_done (c_warp c ! j)"
  shows "\<exists>b c1. waiting_warp j c = Some (b, c1) \<and> quiet j c c1"
proof -
  let ?w = "c_warp c ! j"
  have q: "quiet j c (c\<lparr>c_warp := (c_warp c)[j := ?w\<lparr>w_membar := False\<rparr>]\<rparr>)"
    unfolding quiet_def by (intro exI [of _ "?w\<lparr>w_membar := False\<rparr>"])
      (auto simp: same_warp_def warp_ok_def buffer_defs ibuffer_next_inst_def)
  show ?thesis
  proof (cases "functional_done ?w")
    case True
    then show ?thesis using assms(1) quiet_refl by (auto simp: waiting_warp_def)
  next
    case False
    then have "warp_waiting_at_barrier j (c_barriers c) = Some (j \<in> m_warp_at_barrier (c_barriers c))"
      "pendingWrites j (c_scoreboard c) = Some (reg_table (c_scoreboard c) ! j \<noteq> {})"
      using assms(3,4) by (auto simp: warp_waiting_at_barrier_def bs_test_def pendingWrites_def)
    then show ?thesis using False assms(1,2) q quiet_refl
      by (auto simp: waiting_warp_def warp_waiting_at_mem_barrier_def upd_warp_def)
  qed
qed

lemma quiet_can_issue:
  assumes "quiet j c c'" and "i \<noteq> j" and "warp_ready fs cfg k fl c i"
  shows "can_issue c' i = can_issue c i"
proof (cases "w_done_exit (c_warp c ! i)")
  case True
  then show ?thesis using assms(1,2) by (auto simp: can_issue_def quiet_def)
next
  case False
  from assms(1) obtain w where c': "c' = c\<lparr>c_warp := (c_warp c)[j := w]\<rparr>" by (auto simp: quiet_def)
  have cw: "c_warp c' ! i = c_warp c ! i" "length (c_warp c') = length (c_warp c)" using assms(2) by (simp_all add: c')
  have eq: "c_simt_stack c' = c_simt_stack c" "c_barriers c' = c_barriers c" "c_pipe c' = c_pipe c"
    "c_scoreboard c' = c_scoreboard c" by (simp_all add: c')
  have i: "i < length (c_warp c)" "w_warp_id (c_warp c ! i) = i" using assms(3) False by (auto simp: warp_ready_def core_ok_def)
  then have i': "i < length (c_warp c')" "w_warp_id (c_warp c' ! i) = i" by (simp_all add: cw)
  show ?thesis unfolding can_issue_def may_issue_def not_waiting [OF i] not_waiting [OF i'] unfolding cw eq by (rule refl)
qed

lemma flush_quiet:
  assumes "j < length (c_warp c)" and "warp_ok kk (c_warp c ! j)"
  shows "\<exists>c1. upd_warp j (flush_to pc) c = Some c1 \<and> quiet j c c1"
proof -
  let ?w = "c_warp c ! j" and ?x = "(c_warp c ! j)\<lparr>w_next_pc := pc\<rparr>"
  let ?v = "?x\<lparr>w_ibuffer := [no_entry, no_entry], w_inst_in_pipeline := kk\<rparr>"
  have c0: "counts_ok kk ?x" using assms(2) by (simp add: warp_ok_def buffer_defs)
  have f: "flush_to pc ?w = Some ?v" using flush_ok(1) [OF c0] by (simp add: flush_to_def)
  have "warp_ok k' ?v" if "warp_ok k' ?w" for k'
  proof -
    have "k' = kk" using that assms(2) unfolding warp_ok_def counts_ok_def by linarith
    then show ?thesis using flush_ok(2) [OF c0] by (simp add: warp_ok_def ibuffer_empty_def)
  qed
  moreover have "ibuffer_next_inst ?v = None"
    using assms(2) by (auto simp: ibuffer_next_inst_def warp_ok_def counts_ok_def less_2_cases_iff)
  ultimately have "quiet j c (c\<lparr>c_warp := (c_warp c)[j := ?v]\<rparr>)"
    unfolding quiet_def by (intro exI [of _ ?v]) (auto simp: same_warp_def)
  moreover have "upd_warp j (flush_to pc) c = Some (c\<lparr>c_warp := (c_warp c)[j := ?v]\<rparr>)"
    using assms(1) f by (simp add: upd_warp_def)
  ultimately show ?thesis by blast
qed

lemma pick_pipe_none: "pick_pipe q c = None \<Longrightarrow> has_free (c_pipe c out) \<Longrightarrow> fits (pi_op q) out \<Longrightarrow> False"
  by (cases out) (auto simp: pick_pipe_def fits_def split: if_splits)

definition inner_ok :: "scheduler_unit \<Rightarrow> bool" where
  "inner_ok s \<longleftrightarrow> (\<forall>m inner outer. s_class s = two_level_active_scheduler m inner outer \<longrightarrow> inner = SCHEDULER_PRIORITIZATION_LRR)"

lemma reorder_ok: "inner_ok s \<Longrightarrow> \<exists>s'. reorder_on_issue p s = Some s' \<and> s_class s' = s_class s"
  by (cases "s_class s") (auto simp: reorder_on_issue_def inner_ok_def order_lrr_def)

lemma can_issue_next:
  assumes "can_issue c j" and "core_ok fs cfg k cnt kk fl c j"
  obtains q act out where "may_issue c j q act out" "ibuffer_next_inst (c_warp c ! j) = Some q" "\<not> ibuffer_empty (c_warp c ! j)"
proof -
  obtain q act out where m: "may_issue c j q act out" using assms(1) by (auto simp: can_issue_def)
  then have n: "ibuffer_next_inst (c_warp c ! j) = Some q" "ibuffer_next_valid (c_warp c ! j)" by (simp_all add: may_issue_def)
  have "w_next (c_warp c ! j) < length (w_ibuffer (c_warp c ! j))"
    using assms(2) by (simp add: core_ok_def warp_ok_def counts_ok_def)
  then have "\<not> ibuffer_empty (c_warp c ! j)" using n(2) nth_mem unfolding ibuffer_empty_def ibuffer_next_valid_def by blast
  with m n show ?thesis using that by blast
qed

text \<open>The body of the loop issues exactly when the warp can issue.\<close>

lemma try_issue_ok:
  assumes fs: "exec_ok fs" and co: "core_ok fs cfg k cnt kk fl c j" and ready: "warp_ready fs cfg k fl c j"
    and wt: "waiting_warp j c = Some (False, c)" and live: "\<not> w_done_exit (c_warp c ! j)" and inner: "inner_ok s"
  shows "\<exists>c' s' g n. try_issue fs cfg j iter (c, s, g0, n0) = Some (c', s', g, n)
    \<and> (n = n0 \<and> quiet j c c' \<and> \<not> can_issue c j \<and> s' = s
       \<or> n = Suc n0 \<and> can_issue c j \<and> c_next_uid c' = c_next_uid c + 1 \<and> j < length (c_warp c')
          \<and> w_warp_id (c_warp c' ! j) = j \<and> j < length (reg_table (c_scoreboard c'))
          \<and> \<not> w_done_exit (c_warp c' ! j) \<and> s_class s' = s_class s)"
proof -
  let ?w = "c_warp c ! j"
  obtain e es where st: "c_simt_stack c ! j = e # es" using co by (cases "c_simt_stack c ! j") (auto simp: core_ok_def)
  have j: "j < length (c_warp c)" "j < length (c_simt_stack c)" "warp_ok kk ?w" "w_warp_id ?w = j" using co by (auto simp: core_ok_def)
  have top: "get_pdom_stack_top_info (c_simt_stack c ! j) = Some (m_pc e, m_recvg_pc e)" "get_active_mask (c_simt_stack c ! j) = Some (m_active_mask e)"
    by (simp_all add: st get_pdom_stack_top_info_def get_active_mask_def)
  have fd: "\<not> functional_done ?w"
  proof
    assume "functional_done ?w"
    then have "w_active_threads ?w = {}" using j(3) by (auto simp: warp_ok_def counts_ok_def functional_done_def)
    then show False using co by (auto simp: core_ok_def)
  qed
  have bw: "j \<notin> m_warp_at_barrier (c_barriers c)"
    using wt fd j by (auto simp: waiting_warp_def warp_waiting_at_barrier_def bs_test_def bind_eq_Some_conv split: if_splits)
  note t = try_issue_def j(1,2) top
  obtain cf where cf: "upd_warp j (flush_to (m_pc e)) c = Some cf" "quiet j c cf" using flush_quiet [OF j(1,3)] by blast
  show ?thesis
  proof (cases "ibuffer_next_inst ?w")
    case None
    then have "\<not> can_issue c j" by (auto simp: can_issue_def may_issue_def)
    with None cf quiet_refl show ?thesis by (cases "ibuffer_next_valid ?w") (simp_all add: t)
  next
    case (Some q)
    have v: "ibuffer_next_valid ?w"
    proof -
      have "w_next ?w < length (w_ibuffer ?w)" using j(3) by (simp add: warp_ok_def counts_ok_def)
      then have "w_ibuffer ?w ! w_next ?w \<in> set (w_ibuffer ?w)" by simp
      then show ?thesis using j(3) Some unfolding ibuffer_next_valid_def ibuffer_next_inst_def warp_ok_def counts_ok_def by auto
    qed
    have reg: "checkCollision j (inst.truncate q) (c_scoreboard c) = Some (reg_table (c_scoreboard c) ! j \<inter> inst_regs (inst.truncate q) \<noteq> {})"
      using co by (auto simp: checkCollision_def core_ok_def sb_inv_def sb_shape_def)
    consider "m_pc e \<noteq> pi_pc q" | "m_pc e = pi_pc q" "reg_table (c_scoreboard c) ! j \<inter> inst_regs (inst.truncate q) \<noteq> {}"
      | "m_pc e = pi_pc q" "reg_table (c_scoreboard c) ! j \<inter> inst_regs (inst.truncate q) = {}" by blast
    then show ?thesis
    proof cases
      case 1
      then have "\<not> can_issue c j" using Some top by (auto simp: can_issue_def may_issue_def)
      with 1 Some v cf show ?thesis by (auto simp: t)
    next
      case 2
      then have "\<not> can_issue c j" using Some reg by (auto simp: can_issue_def may_issue_def)
      with 2 Some v quiet_refl reg show ?thesis by (auto simp: t)
    next
      case 3
      have pl: "inst_in_pipeline ?w"
      proof -
        have "ib_valid (w_ibuffer ?w ! w_next ?w)" "w_next ?w < length (w_ibuffer ?w)"
          using v j(3) by (simp_all add: ibuffer_next_valid_def warp_ok_def counts_ok_def)
        then have "filter ib_valid (w_ibuffer ?w) \<noteq> []" by (metis filter_empty_conv nth_mem)
        then show ?thesis using j(3) by (simp add: inst_in_pipeline_def warp_ok_def counts_ok_def num_inst_in_buffer_def)
      qed
      show ?thesis
      proof (cases "pick_pipe q c")
        case None
        then have "\<not> can_issue c j" using Some pick_pipe_none [OF None] by (auto simp: can_issue_def may_issue_def)
        with 3 None Some v quiet_refl reg pl show ?thesis by (auto simp: t)
      next
        case (Some out)
        have may: "may_issue c j q (m_active_mask e) out"
          using j wt \<open>ibuffer_next_inst ?w = Some q\<close> v top 3 reg pick_pipe_fits [OF Some] by (auto simp: may_issue_def)
        have q: "pi_decoded q" "distinct (filter (\<lambda>r. r > 0) (inst_out q))"
          "\<forall>p f. exec_threads fs cfg (entering (m_active_mask e) j q c) (c_threads c) = Some (p, f) \<longrightarrow>
            program_ok fs cfg k j q (hd (c_simt_stack c ! j)) p f"
          using ready live fd \<open>ibuffer_next_inst ?w = Some q\<close> st by (auto simp: warp_ready_def)
        obtain c0 and p :: pipe_inst where iss: "issue_warp fs cfg out q (m_active_mask e) j c = Some c0"
          and r: "sb_inv (length (c_warp c)) (c_scoreboard c0, inst.truncate p # fl)" "length (c_warp c0) = length (c_warp c)"
            "same_warp ?w (c_warp c0 ! j)" "c_next_uid c0 = c_next_uid c + 1"
          using issue_warp_composes [OF fs co may q] by blast
        obtain s' where s': "reorder_on_issue iter s = Some s'" "s_class s' = s_class s" using reorder_ok [OF inner] by blast
        let ?c1 = "c0\<lparr>c_warp := (c_warp c0)[j := ibuffer_step (c_warp c0 ! j)]\<rparr>"
        have dow: "do_on_warp_issued j iter (c0, s) = Some (?c1, s')"
          using j(1) r(2) s' by (simp add: do_on_warp_issued_def upd_warp_def)
        have "try_issue fs cfg j iter (c, s, g0, n0) = Some (?c1, s', \<lparr>valid_inst = True, ready_inst = True, issued_inst = True\<rparr>, Suc n0)"
          using 3 Some \<open>ibuffer_next_inst ?w = Some q\<close> v reg pl iss dow by (simp add: t)
        moreover have "can_issue c j" using may live by (auto simp: can_issue_def)
        moreover have "j < length (c_warp ?c1)" "w_warp_id (c_warp ?c1 ! j) = j" "j < length (reg_table (c_scoreboard ?c1))"
          "c_next_uid ?c1 = c_next_uid c + 1" "\<not> w_done_exit (c_warp ?c1 ! j)"
          using r j live by (simp_all add: same_warp_def ibuffer_step_def sb_inv_def sb_shape_def)
        ultimately show ?thesis using s'(2) by blast
      qed
    qed
  qed
qed

lemma quiet_same:
  assumes "quiet j c c'" and "j < length (c_warp c)"
  shows "c_next_uid c' = c_next_uid c" "length (c_warp c') = length (c_warp c)" "w_done_exit (c_warp c' ! i) = w_done_exit (c_warp c ! i)"
    "w_warp_id (c_warp c' ! i) = w_warp_id (c_warp c ! i)" "c_scoreboard c' = c_scoreboard c"
    "functional_done (c_warp c' ! i) = functional_done (c_warp c ! i)"
proof -
  obtain w where c': "c' = c\<lparr>c_warp := (c_warp c)[j := w]\<rparr>" and w: "same_warp (c_warp c ! j) w"
    "w_n_completed w = w_n_completed (c_warp c ! j)" using assms(1) by (auto simp: quiet_def)
  show "w_done_exit (c_warp c' ! i) = w_done_exit (c_warp c ! i)" "w_warp_id (c_warp c' ! i) = w_warp_id (c_warp c ! i)"
    "functional_done (c_warp c' ! i) = functional_done (c_warp c ! i)"
    using w assms(2) by (cases "i = j"; simp add: c' same_warp_def functional_done_def)+
qed (use assms in \<open>auto simp: quiet_def\<close>)

text \<open>What a warp of the scheduler brings to a cycle.\<close>

lemma ready_wait:
  assumes "warp_ready fs cfg k fl c j" and "\<not> w_done_exit (c_warp c ! j)"
  shows "j < length (c_warp c)" "w_warp_id (c_warp c ! j) = j" "j < WARP_PER_CTA_MAX \<or> functional_done (c_warp c ! j)"
    "j < length (reg_table (c_scoreboard c)) \<or> functional_done (c_warp c ! j)"
  using assms by (auto simp: warp_ready_def core_ok_def sb_inv_def sb_shape_def)

lemma look_warp:
  assumes "waiting_warp j c = Some (b, c1)" and "w_warp_id (c_warp c ! j) = j" and "j < length (c_warp c)"
  shows "c1 = c \<or> c1 = c\<lparr>c_warp := (c_warp c)[j := (c_warp c ! j)\<lparr>w_membar := False\<rparr>]\<rparr>"
  using assms by (auto simp: waiting_warp_def warp_waiting_at_mem_barrier_def upd_warp_def bind_eq_Some_conv split: if_splits)

lemma look_same:
  assumes "waiting_warp j c = Some (b, c1)" and "w_warp_id (c_warp c ! j) = j" and "j < length (c_warp c)"
  shows "ibuffer_empty (c_warp c1 ! j) = ibuffer_empty (c_warp c ! j)" and "b = False \<Longrightarrow> can_issue c1 j = can_issue c j"
proof -
  let ?P = "\<lambda>w. (ibuffer_empty w, ibuffer_next_inst w, ibuffer_next_valid w, w_done_exit w)"
  have e: "?P (c_warp c1 ! j) = ?P (c_warp c ! j)" "c_simt_stack c1 = c_simt_stack c" "c_pipe c1 = c_pipe c"
    "c_scoreboard c1 = c_scoreboard c" "length (c_warp c1) = length (c_warp c)"
    using look_warp [OF assms] assms(3) by (auto simp: ibuffer_empty_def ibuffer_next_inst_def ibuffer_next_valid_def)
  show "ibuffer_empty (c_warp c1 ! j) = ibuffer_empty (c_warp c ! j)" using e(1) by simp
  show "can_issue c1 j = can_issue c j" if "b = False"
    using e assms(1) waiting_again [OF assms(1)] that by (auto simp: can_issue_def may_issue_def)
qed

text \<open>A warp stays ready while it issues in one cycle: after \<open>n\<close> instructions of it, as long as it may issue more.\<close>

definition stays_ready :: "'f functional_sim \<Rightarrow> issue_config \<Rightarrow> nat \<Rightarrow> nat \<Rightarrow> 'f shader_core \<Rightarrow> nat \<Rightarrow> bool" where
  "stays_ready fs cfg k n c j \<longleftrightarrow> (\<forall>is c1. issue_run fs cfg c is c1 \<longrightarrow> is \<noteq> [] \<longrightarrow> one_warp j is \<longrightarrow>
     n + length is < ic_max_insn_issue_per_warp cfg \<longrightarrow> (\<exists>fl. warp_ready fs cfg k fl c1 j))"

lemma stays_ready_run:
  assumes "stays_ready fs cfg k n c j" and "issue_run fs cfg c is c1" and "one_warp j is"
  shows "stays_ready fs cfg k (n + length is) c1 j"
  unfolding stays_ready_def
proof (intro allI impI)
  fix js c2
  assume a: "issue_run fs cfg c1 js c2" "js \<noteq> []" "one_warp j js" "n + length is + length js < ic_max_insn_issue_per_warp cfg"
  then have "issue_run fs cfg c (is @ js) c2" "is @ js \<noteq> []" "one_warp j (is @ js)"
    "n + length (is @ js) < ic_max_insn_issue_per_warp cfg"
    using issue_run_trans [OF assms(2)] assms(3) by simp_all
  then show "\<exists>fl. warp_ready fs cfg k fl c2 j" using assms(1) unfolding stays_ready_def by blast
qed

lemma cannot_issue:
  assumes ready: "warp_ready fs cfg k fl c j" and live: "\<not> w_done_exit (c_warp c ! j)"
    and w: "waiting_warp j c = Some (b, c1)" and stop: "b \<or> ibuffer_empty (c_warp c1 ! j)" and q: "quiet j c c1"
  shows "\<not> can_issue c j"
proof
  assume ci: "can_issue c j"
  note rw = ready_wait [OF ready live]
  note s1 = quiet_same [OF q rw(1)]
  have "\<not> b" using w ci by (auto simp: can_issue_def may_issue_def)
  then have em: "ibuffer_empty (c_warp c1 ! j)" and w1: "waiting_warp j c1 = Some (False, c1)"
    using stop waiting_again [OF w] by simp_all
  have "\<not> functional_done (c_warp c1 ! j)" using w1 s1(2) rw(1) by (auto simp: waiting_warp_def)
  then obtain cnt kk where "core_ok fs cfg k cnt kk fl c j" using ready live s1(6) by (auto simp: warp_ready_def)
  from can_issue_next [OF ci this] have "\<not> ibuffer_empty (c_warp c ! j)" by blast
  moreover have "ibuffer_empty (c_warp c1 ! j) = ibuffer_empty (c_warp c ! j)" by (rule look_same(1) [OF w rw(2,1)])
  ultimately show False using em by simp
qed

text \<open>A pass of the loop that does not issue ends it.\<close>

lemma issue_loop_idle:
  assumes "waiting_warp j c = Some (b, c1)" and "j < length (c_warp c1)" and "issued < checked"
  shows "issue_loop fs cfg j iter checked (c, s, g, issued) = Some (c1, s, g, issued)"
  using assms by (subst issue_loop.simps) auto

lemma issue_loop_ok:
  assumes fs: "exec_ok fs" and "inner_ok s" and "j < length (c_warp c)" and "w_warp_id (c_warp c ! j) = j"
    and "j < WARP_PER_CTA_MAX \<or> functional_done (c_warp c ! j)"
    and "j < length (reg_table (c_scoreboard c)) \<or> functional_done (c_warp c ! j)"
    and "\<not> w_done_exit (c_warp c ! j)" and "n \<le> ic_max_insn_issue_per_warp cfg"
    and "n < ic_max_insn_issue_per_warp cfg \<Longrightarrow> \<exists>fl. warp_ready fs cfg k fl c j" and "stays_ready fs cfg k n c j"
  shows "\<exists>c' s' g n'. issue_loop fs cfg j iter n (c, s, g0, n) = Some (c', s', g, n')
    \<and> n \<le> n' \<and> n' \<le> ic_max_insn_issue_per_warp cfg \<and> c_next_uid c' = c_next_uid c + (n' - n)
    \<and> (n < ic_max_insn_issue_per_warp cfg \<longrightarrow> (n < n' \<longleftrightarrow> can_issue c j)) \<and> (n' = n \<longrightarrow> quiet j c c' \<and> s' = s)"
  using assms(2-10)
proof (induction "ic_max_insn_issue_per_warp cfg - n" arbitrary: c s g0 n)
  case 0
  then have n: "n = ic_max_insn_issue_per_warp cfg" by simp
  obtain b c1 where w: "waiting_warp j c = Some (b, c1)" and q: "quiet j c c1" using waiting_ok [OF 0(3-6)] by blast
  have "j < length (c_warp c1)" using quiet_same(2) [OF q 0(3)] 0(3) by simp
  then have "issue_loop fs cfg j iter n (c, s, g0, n) = Some (c1, s, g0, n)"
    using w n by (subst issue_loop.simps) auto
  with q quiet_same(1) [OF q 0(3)] n show ?case by auto
next
  case (Suc d)
  note basic = Suc.prems(2-5)
  have n: "n < ic_max_insn_issue_per_warp cfg" using Suc.hyps(2) by simp
  obtain fl where ready: "warp_ready fs cfg k fl c j" using Suc.prems(8) n by blast
  obtain b c1 where w: "waiting_warp j c = Some (b, c1)" and q1: "quiet j c c1" using waiting_ok [OF basic] by blast
  note s1 = quiet_same [OF q1 basic(1)]
  have j1: "j < length (c_warp c1)" using s1(2) basic(1) by simp
  have ready1: "warp_ready fs cfg k fl c1 j" by (rule quiet_ready [OF q1 basic(1) ready])
  show ?case
  proof (cases "b \<or> ibuffer_empty (c_warp c1 ! j)")
    case True
    then have "issue_loop fs cfg j iter n (c, s, g0, n) = Some (c1, s, g0, n)" using w j1 by (subst issue_loop.simps) auto
    with cannot_issue [OF ready Suc.prems(6) w True q1] q1 s1(1) n show ?thesis by auto
  next
    case False
    then have w1: "waiting_warp j c1 = Some (False, c1)" using waiting_again [OF w] by simp
    then have fd: "\<not> functional_done (c_warp c1 ! j)" using j1 by (auto simp: waiting_warp_def)
    then obtain cnt kk where co: "core_ok fs cfg k cnt kk fl c1 j"
      using ready1 Suc.prems(6) s1(3) by (auto simp: warp_ready_def)
    have live1: "\<not> w_done_exit (c_warp c1 ! j)" using Suc.prems(6) s1(3) by simp
    have ci: "can_issue c1 j = can_issue c j" using look_same(2) [OF w basic(2,1)] False by simp
    obtain c2 s2 g m where t: "try_issue fs cfg j iter (c1, s, g0, n) = Some (c2, s2, g, m)" and
      r: "m = n \<and> quiet j c1 c2 \<and> \<not> can_issue c1 j \<and> s2 = s
       \<or> m = Suc n \<and> can_issue c1 j \<and> c_next_uid c2 = c_next_uid c1 + 1 \<and> j < length (c_warp c2)
          \<and> w_warp_id (c_warp c2 ! j) = j \<and> j < length (reg_table (c_scoreboard c2))
          \<and> \<not> w_done_exit (c_warp c2 ! j) \<and> s_class s2 = s_class s"
      using try_issue_ok [OF fs co ready1 w1 live1 Suc.prems(1)] by blast
    have step: "issue_loop fs cfg j iter n (c, s, g0, n) = issue_loop fs cfg j iter (n + 1) (c2, s2, g, m)"
      using w j1 False t n by (subst issue_loop.simps) auto
    from r show ?thesis
    proof (elim disjE conjE)
      assume m: "m = n" "quiet j c1 c2" "\<not> can_issue c1 j" "s2 = s"
      have q2: "quiet j c c2" by (rule quiet_trans [OF q1 m(2) basic(1)])
      have ready2: "warp_ready fs cfg k fl c2 j" by (rule quiet_ready [OF q2 basic(1) ready])
      have live2: "\<not> w_done_exit (c_warp c2 ! j)" using Suc.prems(6) quiet_same(3) [OF q2 basic(1)] by simp
      obtain b3 c3 where w3: "waiting_warp j c2 = Some (b3, c3)" "quiet j c2 c3"
        using waiting_ok [OF ready_wait [OF ready2 live2]] by blast
      have "j < length (c_warp c2)" using basic(1) quiet_same(2) [OF q2 basic(1)] by simp
      then have j3: "j < length (c_warp c3)" and q3: "quiet j c c3"
        using quiet_same(2) [OF w3(2)] quiet_trans [OF q2 w3(2) basic(1)] by simp_all
      have "issue_loop fs cfg j iter n (c, s, g0, n) = Some (c3, s, g, n)"
        unfolding step m(1,4) by (rule issue_loop_idle [OF w3(1) j3]) simp
      with q3 quiet_same(1) [OF q3 basic(1)] m(3) ci n show ?thesis by auto
    next
      assume m: "m = Suc n" "can_issue c1 j" "c_next_uid c2 = c_next_uid c1 + 1" "j < length (c_warp c2)"
        "w_warp_id (c_warp c2 ! j) = j" "j < length (reg_table (c_scoreboard c2))" "\<not> w_done_exit (c_warp c2 ! j)"
        "s_class s2 = s_class s"
      have big: "j < WARP_PER_CTA_MAX" using ready1 live1 fd by (auto simp: warp_ready_def)
      obtain is1 where is1: "issue_run fs cfg c1 is1 c2" "m = n + length is1" "one_warp j is1"
        using try_issue_run [OF t w1] by blast
      have run: "issue_run fs cfg c is1 c2" by (rule issue_run.look [OF w is1(1)])
      have stay: "stays_ready fs cfg k (Suc n) c2 j"
      proof -
        have "n + length is1 = Suc n" using is1(2) m(1) by linarith
        then show ?thesis using stays_ready_run [OF Suc.prems(9) run is1(3)] by (simp only:)
      qed
      have rdy: "\<exists>fl. warp_ready fs cfg k fl c2 j" if "Suc n < ic_max_insn_issue_per_warp cfg"
      proof -
        have "is1 \<noteq> []" "n + length is1 < ic_max_insn_issue_per_warp cfg" using is1(2) m(1) that by auto
        then show ?thesis using Suc.prems(9) run is1(3) unfolding stays_ready_def by blast
      qed
      have "inner_ok s2" using Suc.prems(1) m(8) by (simp add: inner_ok_def)
      moreover have "d = ic_max_insn_issue_per_warp cfg - Suc n" "Suc n \<le> ic_max_insn_issue_per_warp cfg"
        using Suc.hyps(2) by simp_all
      ultimately obtain c3 s3 g3 n3 where l: "issue_loop fs cfg j iter (Suc n) (c2, s2, g, Suc n) = Some (c3, s3, g3, n3)"
        "Suc n \<le> n3" "n3 \<le> ic_max_insn_issue_per_warp cfg" "c_next_uid c3 = c_next_uid c2 + (n3 - Suc n)"
        using Suc.hyps(1) [OF _ _ m(4,5) disjI1 [OF big] disjI1 [OF m(6)] m(7) _ rdy stay] by blast
      have "issue_loop fs cfg j iter n (c, s, g0, n) = Some (c3, s3, g3, n3)" using step l(1) m(1) by simp
      moreover have "c_next_uid c3 = c_next_uid c + (n3 - n)" using l(2,4) m(3) s1(1) by simp
      ultimately show ?thesis using l(2,3) m(2) ci n by auto
    qed
  qed
qed

lemma try_warps_ok:
  assumes fs: "exec_ok fs" and max: "0 < ic_max_insn_issue_per_warp cfg" and "inner_ok s"
    and "\<forall>j \<in> set ks. (\<exists>fl. warp_ready fs cfg k fl c j) \<and> stays_ready fs cfg k 0 c j" and "distinct ks"
  shows "\<exists>c' s' g n. try_warps fs cfg ks iter (c, s, g0) = Some (c', s', g)
    \<and> n \<le> ic_max_insn_issue_per_warp cfg \<and> c_next_uid c' = c_next_uid c + n \<and> (0 < n \<longleftrightarrow> (\<exists>j \<in> set ks. can_issue c j))"
  using assms(3-5)
proof (induction ks arbitrary: iter c s g0)
  case (Cons j ks)
  obtain fl where ready: "warp_ready fs cfg k fl c j" and stay: "stays_ready fs cfg k 0 c j" using Cons.prems by auto
  have j: "j < length (c_warp c)" using ready by (simp add: warp_ready_def)
  show ?case
  proof (cases "w_done_exit (c_warp c ! j)")
    case True
    then have "\<not> can_issue c j" by (simp add: can_issue_def)
    then show ?thesis using Cons.IH [of s c "Suc iter" g0] Cons.prems True j by simp
  next
    case False
    note rw = ready_wait [OF ready False]
    have "\<exists>fl. warp_ready fs cfg k fl c j" using ready by blast
    from issue_loop_ok [OF fs Cons.prems(1) rw False _ this stay, of iter g0] max obtain c1 s1 g n where
      l: "issue_loop fs cfg j iter 0 (c, s, g0, 0) = Some (c1, s1, g, n)" and n: "n \<le> ic_max_insn_issue_per_warp cfg"
      and r: "c_next_uid c1 = c_next_uid c + n" "0 < n \<longleftrightarrow> can_issue c j" "n = 0 \<longrightarrow> quiet j c c1 \<and> s1 = s" by auto
    show ?thesis
    proof (cases "n = 0")
      case True
      have q: "quiet j c c1" "s1 = s" "\<not> can_issue c j" using r True by simp_all
      have run: "issue_run fs cfg c [] c1"
        using issue_loop_run [OF l] True by auto
      have st: "stays_ready fs cfg k 0 c1 i" if "stays_ready fs cfg k 0 c i" for i
        using stays_ready_run [OF that run] by (simp add: one_warp_def)
      have "\<forall>i \<in> set ks. (\<exists>fl. warp_ready fs cfg k fl c1 i) \<and> stays_ready fs cfg k 0 c1 i"
        using Cons.prems(2) quiet_ready [OF q(1) j] st by (metis list.set_intros(2))
      moreover have "can_issue c1 i = can_issue c i" if "i \<in> set ks" for i
        using quiet_can_issue [OF q(1)] Cons.prems(2,3) that by (metis distinct.simps(2) list.set_intros(2))
      ultimately show ?thesis using Cons.IH [of s c1 "Suc iter" g] Cons.prems(1,3) q(2,3) l True r(1) j False rw(2) by simp
    next
      case False
      then show ?thesis using l j \<open>\<not> w_done_exit _\<close> rw(2) n r by auto
    qed
  qed
qed simp

section \<open>Ordering the warps succeeds\<close>

text \<open>What the classes of schedulers expect when they order their warps: a warp that issued last, for greedy then oldest;
  for the two level scheduler the orders it implements, and as many active warps as there may be, with entries in
  the table of long operations. The constructors of the core give the rest.\<close>

definition order_ok :: "scoreboard \<Rightarrow> shd_warp list \<Rightarrow> scheduler_unit \<Rightarrow> bool" where
  "order_ok sb ws s \<longleftrightarrow> distinct (sched_warps s) \<and>
     (case s_class s of
        lrr_scheduler \<Rightarrow> m_last_supervised_issued s \<le> length (m_supervised_warps s)
      | gto_scheduler \<Rightarrow> m_last_supervised_issued s < length (m_supervised_warps s)
      | two_level_active_scheduler m inner outer \<Rightarrow> inner = SCHEDULER_PRIORITIZATION_LRR \<and> outer = SCHEDULER_PRIORITIZATION_SRR
          \<and> length (m_next_cycle_prioritized_warps s) = m
          \<and> (\<forall>j \<in> set (m_next_cycle_prioritized_warps s). w_warp_id (ws ! j) < length (longopregs sb))
      | swl_scheduler p n \<Rightarrow> p = SCHEDULER_PRIORITIZATION_GTO \<and> m_last_supervised_issued s < length (m_supervised_warps s))"

lemma waits_for_long_op_ok: "w_warp_id w < length (longopregs sb) \<Longrightarrow> \<exists>b. waits_for_long_op sb w = Some b"
  by (cases "ibuffer_next_inst w") (simp_all add: waits_for_long_op_def upt_rec islongop_def, blast+)

lemma greedy_subset:
  assumes "cpp_sort srt" and "distinct xs" and "la < length xs" and "n \<le> length xs" and "strict_weak_order lt"
  shows "\<exists>r. order_by_priority srt xs la n ORDERING_GREEDY_THEN_PRIORITY_FUNC lt = Some r \<and> distinct r \<and> set r \<subseteq> set xs
    \<and> (n = length xs \<longrightarrow> set r = set xs)"
proof -
  have m: "mset (srt lt xs) = mset xs" using cpp_sort.sorts [OF assms(1,5)] by blast
  then have s: "set (srt lt xs) = set xs" "distinct (srt lt xs)" "length (srt lt xs) = length xs"
    using assms(2) by (metis mset_eq_setD, metis mset_eq_imp_distinct_iff, metis mset_eq_length)
  have "set (take n (srt lt xs)) \<subseteq> set xs" using set_take_subset s(1) by metis
  then show ?thesis using assms(3,4) s by (auto simp: order_by_priority_def Let_def)
qed

lemma order_warps_ok:
  assumes "cpp_sort srt" and "order_ok sb ws s"
  shows "\<exists>s1. order_warps srt waits sb ws s = Some s1 \<and> s_class s1 = s_class s
    \<and> distinct (m_next_cycle_prioritized_warps s1) \<and> set (m_next_cycle_prioritized_warps s1) \<subseteq> set (sched_warps s)
    \<and> (s_class s = lrr_scheduler \<or> s_class s = gto_scheduler \<longrightarrow> set (m_next_cycle_prioritized_warps s1) = set (sched_warps s))"
proof (cases "s_class s")
  case lrr_scheduler
  then have "distinct (m_supervised_warps s)" "m_last_supervised_issued s \<le> length (m_supervised_warps s)"
    using assms(2) by (simp_all add: order_ok_def sched_warps_def)
  then show ?thesis using lrr_scheduler by (simp add: order_warps_defs order_lrr_rotate sched_warps_def)
next
  case gto_scheduler
  then have "distinct (m_supervised_warps s)" "m_last_supervised_issued s < length (m_supervised_warps s)"
    using assms(2) by (simp_all add: order_ok_def sched_warps_def)
  from greedy_subset [OF assms(1) this order.refl oldest_strict_weak [of waits ws]] gto_scheduler show ?thesis
    by (auto simp: order_warps_defs sched_warps_def)
next
  case (swl_scheduler p n)
  then have "distinct (m_supervised_warps s)" "m_last_supervised_issued s < length (m_supervised_warps s)"
    "p = SCHEDULER_PRIORITIZATION_GTO" using assms(2) by (simp_all add: order_ok_def sched_warps_def)
  from greedy_subset [OF assms(1) this(1,2) min.cobounded2 oldest_strict_weak [of waits ws], of n] swl_scheduler this(3)
  show ?thesis by (auto simp: order_warps_defs sched_warps_def)
next
  case (two_level_active_scheduler m inner outer)
  let ?a = "m_next_cycle_prioritized_warps s" and ?p = "m_pending_warps s"
  have ok: "outer = SCHEDULER_PRIORITIZATION_SRR" "length ?a = m" "distinct (?a @ ?p)"
    "\<forall>j \<in> set ?a. \<exists>b. waits_for_long_op sb (ws ! j) = Some b"
    using assms(2) two_level_active_scheduler waits_for_long_op_ok by (auto simp: order_ok_def sched_warps_def)
  obtain lng where l: "\<forall>j \<in> set ?a. waits_for_long_op sb (ws ! j) = Some (lng j)" using ok(4) by metis
  from two_level_order [OF l ok(2), of waits ?p] obtain a' p' where
    r: "two_level_order_warps waits sb ws m SCHEDULER_PRIORITIZATION_SRR ?a ?p = Some (a', p')"
    "a' @ p' = filter (\<lambda>k. \<not> (waits k \<or> lng k)) ?a @ ?p @ filter (\<lambda>k. waits k \<or> lng k) ?a" by blast
  have "distinct (a' @ p')" "set (a' @ p') \<subseteq> set (?a @ ?p)" using ok(3) unfolding r(2) by auto
  then show ?thesis using r(1) ok(1) two_level_active_scheduler by (simp add: order_warps_def sched_warps_def)
qed

lemma cycle_ok:
  assumes fs: "exec_ok fs" and max: "0 < ic_max_insn_issue_per_warp cfg" and srt: "cpp_sort srt"
    and o: "order_ok (c_scoreboard c) (c_warp c) s"
    and ready: "\<forall>j \<in> set (sched_warps s). (\<exists>fl. warp_ready fs cfg k fl c j) \<and> stays_ready fs cfg k 0 c j"
  shows "\<exists>s1 c' s' n. order_warps srt (is_waiting c) (c_scoreboard c) (c_warp c) s = Some s1 \<and> cycle fs cfg srt (c, s) = Some (c', s')
    \<and> set (m_next_cycle_prioritized_warps s1) \<subseteq> set (sched_warps s)
    \<and> (s_class s = lrr_scheduler \<or> s_class s = gto_scheduler \<longrightarrow> set (m_next_cycle_prioritized_warps s1) = set (sched_warps s))
    \<and> n \<le> ic_max_insn_issue_per_warp cfg \<and> c_next_uid c' = c_next_uid c + n
    \<and> (0 < n \<longleftrightarrow> (\<exists>j \<in> set (m_next_cycle_prioritized_warps s1). can_issue c j))"
proof -
  obtain s1 where s1: "order_warps srt (is_waiting c) (c_scoreboard c) (c_warp c) s = Some s1" "s_class s1 = s_class s"
    "distinct (m_next_cycle_prioritized_warps s1)" "set (m_next_cycle_prioritized_warps s1) \<subseteq> set (sched_warps s)"
    "s_class s = lrr_scheduler \<or> s_class s = gto_scheduler \<longrightarrow> set (m_next_cycle_prioritized_warps s1) = set (sched_warps s)"
    using order_warps_ok [OF srt o] by blast
  have "inner_ok s1" using o s1(2) by (auto simp: inner_ok_def order_ok_def)
  moreover have "\<forall>j \<in> set (m_next_cycle_prioritized_warps s1). (\<exists>fl. warp_ready fs cfg k fl c j) \<and> stays_ready fs cfg k 0 c j"
    using ready s1(4) by blast
  ultimately obtain c1 s2 g n where
    "try_warps fs cfg (m_next_cycle_prioritized_warps s1) 0 (c, s1, no_flags) = Some (c1, s2, g)"
    "n \<le> ic_max_insn_issue_per_warp cfg" "c_next_uid c1 = c_next_uid c + n"
    "0 < n \<longleftrightarrow> (\<exists>j \<in> set (m_next_cycle_prioritized_warps s1). can_issue c j)"
    using try_warps_ok [OF fs max _ _ s1(3)] by blast
  then show ?thesis using s1 by (auto simp: cycle_def count_stall_def count_cycle_def)
qed

section \<open>Properties\<close>

text \<open>C8. Issuing fits the parts of the core together. An instruction that may be issued, for a warp in a consistent state
  whose program branches as the reconvergence stack expects, is issued without failing an assertion: the scoreboard
  holds its registers, the warp counts it, the barrier it may come to is consistent, the threads that ended are
  those the warp lost, each running thread is at its own program counter in the stack, the instruction is in a
  register that was free, and no other warp has changed.\<close>

theorem issue_warp_keeps:
  assumes fs: "exec_ok fs" and c: "core_ok fs cfg k cnt kk fl c wid" and may: "may_issue c wid q act out"
    and dec: "pi_decoded q" and dist: "distinct (filter (\<lambda>r. r > 0) (inst_out q))"
    and prog: "\<forall>p f. exec_threads fs cfg (entering act wid q c) (c_threads c) = Some (p, f)
      \<longrightarrow> program_ok fs cfg k wid q (hd (c_simt_stack c ! wid)) p f"
  shows "\<exists>c' p. issue_warp fs cfg out q act wid c = Some c' \<and> exec_threads fs cfg (entering act wid q c) (c_threads c) = Some (p, c_threads c')
    \<and> sb_inv (length (c_warp c)) (c_scoreboard c', inst.truncate p # fl)
    \<and> warp_ok (Suc kk) (ibuffer_step (c_warp c' ! wid)) \<and> live_ok fs cfg wid (c_threads c') (c_warp c' ! wid)
    \<and> (\<exists>cnt'. barrier_inv k {} (c_barriers c') cnt') \<and> simt_ok (c_simt_stack c' ! wid)
    \<and> (\<forall>t \<in> act. \<not> ptx_thread_done fs (c_threads c') (tid_of cfg wid t) \<longrightarrow>
         thread_pc (c_simt_stack c' ! wid) t = Some (ptx_get_pc fs (c_threads c') (tid_of cfg wid t)))
    \<and> (\<forall>j. j \<noteq> wid \<longrightarrow> c_warp c' ! j = c_warp c ! j \<and> c_simt_stack c' ! j = c_simt_stack c ! j)
    \<and> (\<exists>r rp. get_free (c_pipe c out) = Some r \<and> c_pipe c' = (c_pipe c)(out := (c_pipe c out)[r := p\<lparr>pi_reconvergence_pc := rp\<rparr>]))
    \<and> length (c_warp c') = length (c_warp c) \<and> same_warp (c_warp c ! wid) (c_warp c' ! wid) \<and> c_next_uid c' = c_next_uid c + 1"
  by (rule issue_warp_composes [OF fs c may dec dist prog])

text \<open>C14. A cycle of a scheduler is a run of the issue stage: it issues only instructions that may be issued, all of one
  warp and no more than the configuration allows, and besides looks at warps and throws away buffers of warps
  that are elsewhere. Without an instruction issued it is counted as a stall.\<close>

theorem cycle_issues_safely:
  assumes "cycle fs cfg srt (c, s) = Some (c', s')"
  shows "\<exists>is wid c1. issue_run fs cfg c is c1 \<and> length is \<le> ic_max_insn_issue_per_warp cfg \<and> (\<forall>i \<in> set is. fst i = wid)
    \<and> (c' = c1 \<or> (\<exists>i \<in> {0, 1, 2}. c' = count_cycle i c1)) \<and> (is = [] \<longrightarrow> c' \<noteq> c1)
    \<and> m_supervised_warps s' = m_supervised_warps s"
  using assms by (rule cycle_is_run)

text \<open>C11. A cycle of a scheduler issues whenever it can. For every class of scheduler in the state its class expects
  (\<open>order_ok\<close>: for the two level scheduler, as many active warps as may be), with each of its warps ready (exited, done, or in a
  consistent state with a next instruction the issue stage can take) and staying so between two instructions it
  issues in this cycle, the cycle orders its warps and ends without failing an assertion; it issues no more
  instructions than one warp may, and at least one exactly when some warp in its order can issue. The order has
  only warps of the scheduler; under loose round robin and greedy then oldest it has them all.\<close>

theorem cycle_progress:
  assumes fs: "exec_ok fs" and max: "0 < ic_max_insn_issue_per_warp cfg" and srt: "cpp_sort srt"
    and o: "order_ok (c_scoreboard c) (c_warp c) s"
    and ready: "\<forall>j \<in> set (sched_warps s). (\<exists>fl. warp_ready fs cfg k fl c j) \<and> stays_ready fs cfg k 0 c j"
  shows "\<exists>s1 c' s' n. order_warps srt (is_waiting c) (c_scoreboard c) (c_warp c) s = Some s1 \<and> cycle fs cfg srt (c, s) = Some (c', s')
    \<and> set (m_next_cycle_prioritized_warps s1) \<subseteq> set (sched_warps s)
    \<and> (s_class s = lrr_scheduler \<or> s_class s = gto_scheduler \<longrightarrow> set (m_next_cycle_prioritized_warps s1) = set (sched_warps s))
    \<and> n \<le> ic_max_insn_issue_per_warp cfg \<and> c_next_uid c' = c_next_uid c + n
    \<and> (0 < n \<longleftrightarrow> (\<exists>j \<in> set (m_next_cycle_prioritized_warps s1). can_issue c j))"
  by (rule cycle_ok [OF fs max srt o ready])

text \<open>A functional simulator of programs that run straight on to address 16.\<close>

definition straight :: "(nat \<Rightarrow> u32) functional_sim" where
  "straight = \<lparr>ptx_exec_inst = (\<lambda>tid t p f. Some (p, f(tid := pi_pc p + pi_isize p))), ptx_thread_done = (\<lambda>f tid. f tid \<ge> 16),
     ptx_get_pc = (\<lambda>f. f), ptx_get_return_pc = (\<lambda>_ _. 0), ptx_barrier_args = (\<lambda>_ _. (SYNC, 0, - 1)),
     ptx_barrier_reduction = (\<lambda>_ f. f)\<rparr>"

definition straight_cfg :: issue_config where
  "straight_cfg = \<lparr>ic_warp_size = 4, ic_max_warps_per_shader = 1, ic_max_insn_issue_per_warp = 1\<rparr>"

definition sample_barriers :: barrier_set where
  "sample_barriers = the (new_barrier_set 1 1 1 4 \<bind> allocate_barrier 0 {0})"

definition empty_reg :: pipe_inst where "empty_reg = clear (the (two_adds 0))"

definition sample_core :: "(nat \<Rightarrow> u32) shader_core" where
  "sample_core = \<lparr>c_warp = [loaded_warp], c_scoreboard = new_scoreboard 1, c_simt_stack = [launch 0 {0, 1, 2, 3}],
     c_barriers = sample_barriers, c_pipe = (\<lambda>_. [empty_reg]), c_next_uid = 0, c_sim_cycle = 0, c_cycle_distro = (\<lambda>_. 0),
     c_threads = (\<lambda>_. 0)\<rparr>"

lemma straight_ok: "exec_ok straight"
  by (simp add: exec_ok_def straight_def)

lemma replicate_two: "replicate 2 x = [x, x]"
  by (simp add: numeral_2_eq_2)

lemma loaded_warp_eq:
  "loaded_warp = fresh_warp\<lparr>w_cta_id := 0, w_warp_id := 0, w_dynamic_warp_id := 7, w_next_pc := 0, w_n_completed := 0,
     w_active_threads := {0, 1, 2, 3}, w_done_exit := False, w_next := 0, w_inst_in_pipeline := 2,
     w_ibuffer := [\<lparr>ib_inst = two_adds 0, ib_valid = True\<rparr>, \<lparr>ib_inst = two_adds 8, ib_valid = True\<rparr>]\<rparr>"
  by (simp add: loaded_warp_def launched_warp_def fresh_warp_def new_shd_warp_def warp_reset_def warp_init_def decode_def
      ibuffer_fill_def two_adds_def IBUFFER_SIZE_def inst.defs Let_def inc_inst_in_pipeline_def card_insert_if replicate_two)

lemma sample_barriers_eq:
  "sample_barriers = \<lparr>m_max_cta_per_core = 1, m_max_warps_per_core = 1, m_max_barriers_per_cta = 1, m_warp_size = 4,
     m_cta_to_warps = [0 \<mapsto> {0}], m_bar_id_to_warps = (\<lambda>_. {}), m_warp_active = {0}, m_warp_at_barrier = {}\<rparr>"
  by (simp add: sample_barriers_def new_barrier_set_def allocate_barrier_def WARP_PER_CTA_MAX_def MAX_BARRIERS_PER_CTA_def
      Let_def cta_count_le clear_barriers_def fun_eq_iff cong: if_cong)

lemma sample_barriers_ok: "barrier_inv 0 {} sample_barriers (\<lambda>_. 0)"
  by (rule barrier_invI)
    (auto simp: sample_barriers_eq MAX_BARRIERS_PER_CTA_def WARP_PER_CTA_MAX_def same_phase_def not_full_def passed_def split: if_splits)

lemma two_adds_0: "two_adds 0 = Some q \<Longrightarrow> pi_pc q = 0 \<and> pi_isize q = 8 \<and> pi_op q = ALU_OP \<and> pi_decoded q
    \<and> inst_out q = [3, 0, 0, 0] \<and> pi_reconvergence_pc q = - 1"
  by (auto simp: two_adds_def inst.defs add_r3_def)

lemma four: "t < 4 \<longleftrightarrow> t \<in> {0, 1, 2, 3 :: nat}"
  by auto

lemma sample_core_ok: "core_ok straight straight_cfg 0 (\<lambda>_. 0) 0 [] sample_core 0"
proof -
  have "warp_ok 0 loaded_warp" using warp_reach_ok [OF loaded_warp_reach] by (simp add: life_ok_def)
  moreover have "live_ok straight straight_cfg 0 (\<lambda>_. 0) loaded_warp"
    by (auto simp: live_ok_def straight_def straight_cfg_def loaded_warp_eq four)
  ultimately show ?thesis
    using sample_barriers_ok sb_inv_start [of 1] launch_ok [of 0 "{0, 1, 2, 3}"]
    by (auto simp: core_ok_def sample_core_def straight_cfg_def loaded_warp_eq sample_barriers_eq launch_def new_entry_def
        straight_def)
qed

lemma sample_may_issue: "may_issue sample_core 0 (the (two_adds 0)) {0, 1, 2, 3} SP_OUT"
proof -
  obtain q where q: "two_adds 0 = Some q" by (auto simp: two_adds_def)
  show ?thesis using two_adds_0 [OF q]
    by (auto simp: may_issue_def sample_core_def loaded_warp_eq waiting_warp_def warp_waiting_at_barrier_def bs_test_def
        sample_barriers_eq functional_done_def fresh_warp_def new_shd_warp_def warp_reset_def WARP_PER_CTA_MAX_def
        warp_waiting_at_mem_barrier_def ibuffer_next_inst_def ibuffer_next_valid_def q launch_def new_entry_def
        get_pdom_stack_top_info_def get_active_mask_def checkCollision_def new_scoreboard_def has_free_def empty_reg_def clear_def fits_def)
qed

definition after_first :: "nat \<Rightarrow> u32" where "after_first = (\<lambda>_. 0)(0 := 8, 1 := 8, 2 := 8, 3 := 8)"

lemma straight_exec:
  assumes "pi_warp_active_mask p = {0, 1, 2, 3}" and "pi_pc p + pi_isize p = 8" and "inst_warp_id p = 0"
  shows "exec_threads straight straight_cfg p (\<lambda>_. 0) = Some (p, after_first)"
proof -
  have u: "[0..<4] = [0, 1, 2, 3 :: nat]" by (simp add: upt_rec)
  show ?thesis by (simp add: exec_threads_def straight_cfg_def u exec_thread_def assms straight_def after_first_def numeral_2_eq_2 [symmetric])
qed

lemma sample_exec:
  assumes "two_adds 0 = Some q"
  shows "exec_threads straight straight_cfg (entering {0, 1, 2, 3} 0 q sample_core) (c_threads sample_core)
    = Some (entering {0, 1, 2, 3} 0 q sample_core, after_first)"
proof -
  have "c_threads sample_core = (\<lambda>_. 0)" by (simp add: sample_core_def)
  moreover have "exec_threads straight straight_cfg (entering {0, 1, 2, 3} 0 q sample_core) (\<lambda>_. 0)
      = Some (entering {0, 1, 2, 3} 0 q sample_core, after_first)"
    by (rule straight_exec) (use two_adds_0 [OF assms] in \<open>simp_all add: entering_def issue_inst_def\<close>)
  ultimately show ?thesis by simp
qed

lemma sample_program:
  assumes "two_adds 0 = Some q"
  shows "program_ok straight straight_cfg 0 0 q (hd (c_simt_stack sample_core ! 0)) (entering {0, 1, 2, 3} 0 q sample_core) after_first"
proof -
  have u: "[0..<4] = [0, 1, 2, 3 :: nat]" by (simp add: upt_rec)
  have q: "pi_op q = ALU_OP" "pi_reconvergence_pc q = - 1" using two_adds_0 [OF assms] by simp_all
  have pcs: "thread_pcs straight straight_cfg 0 (- 1) after_first = ({}, [8, 8, 8, 8], - 1)"
    by (simp add: thread_pcs_def straight_cfg_def u pc_step_def straight_def after_first_def RECONVERGE_RETURN_PC_def)
  have ways: "(!) [8, 8, 8, 8 :: u32] ` {0, 1, 2, 3} = {8}" by auto
  show ?thesis
    by (simp add: program_ok_def branches_ok_def entering_def issue_inst_def q pcs sample_core_def launch_def ways)
qed

theorem issue_warp_keeps_witness:
  "\<exists>c' p. issue_warp straight straight_cfg SP_OUT (the (two_adds 0)) {0, 1, 2, 3} 0 sample_core = Some c'
    \<and> sb_inv 1 (c_scoreboard c', [inst.truncate (p :: pipe_inst)]) \<and> thread_pc (c_simt_stack c' ! 0) 2 = Some 8"
proof -
  obtain q where q: "two_adds 0 = Some q" by (auto simp: two_adds_def)
  have d: "pi_decoded q" "distinct (filter (\<lambda>r. r > 0) (inst_out q))" using two_adds_0 [OF q] by simp_all
  have pr: "\<forall>p f. exec_threads straight straight_cfg (entering {0, 1, 2, 3} 0 q sample_core) (c_threads sample_core) = Some (p, f)
      \<longrightarrow> program_ok straight straight_cfg 0 0 q (hd (c_simt_stack sample_core ! 0)) p f"
    using sample_exec [OF q] sample_program [OF q] by simp
  have may: "may_issue sample_core 0 q {0, 1, 2, 3} SP_OUT" using sample_may_issue q by simp
  obtain c' and p :: pipe_inst where r: "issue_warp straight straight_cfg SP_OUT q {0, 1, 2, 3} 0 sample_core = Some c'"
    "exec_threads straight straight_cfg (entering {0, 1, 2, 3} 0 q sample_core) (c_threads sample_core) = Some (p, c_threads c')"
    "sb_inv (length (c_warp sample_core)) (c_scoreboard c', [inst.truncate p])"
    "\<forall>t \<in> {0, 1, 2, 3}. \<not> ptx_thread_done straight (c_threads c') (tid_of straight_cfg 0 t) \<longrightarrow>
         thread_pc (c_simt_stack c' ! 0) t = Some (ptx_get_pc straight (c_threads c') (tid_of straight_cfg 0 t))"
    using issue_warp_keeps [OF straight_ok sample_core_ok may d pr] by blast
  have f: "c_threads c' = after_first" using r(2) sample_exec [OF q] by simp
  have t: "\<not> ptx_thread_done straight after_first (tid_of straight_cfg 0 2)"
    "ptx_get_pc straight after_first (tid_of straight_cfg 0 2) = 8"
    by (simp_all add: straight_def after_first_def tid_of_def)
  have "thread_pc (c_simt_stack c' ! 0) 2 = Some 8" using r(4) t unfolding f by (metis insertCI)
  with r(1,3) q show ?thesis by (auto simp: sample_core_def)
qed

text \<open>One scheduler, with the one warp.\<close>

definition sample_scheduler :: scheduler_unit where
  "sample_scheduler = \<lparr>s_class = lrr_scheduler, m_next_cycle_prioritized_warps = [], m_supervised_warps = [0],
     m_pending_warps = [], m_last_supervised_issued = 1\<rparr>"

lemma sample_order:
  "order_warps insertion_sort (is_waiting sample_core) (c_scoreboard sample_core) (c_warp sample_core) sample_scheduler
    = Some (sample_scheduler\<lparr>m_next_cycle_prioritized_warps := [0]\<rparr>)"
  by (simp add: order_warps_defs sample_scheduler_def order_lrr_def)

lemma sample_ready: "warp_ready straight straight_cfg 0 [] sample_core 0"
proof -
  obtain q where q: "two_adds 0 = Some q" by (auto simp: two_adds_def)
  have n: "ibuffer_next_inst (c_warp sample_core ! 0) = Some q" using sample_may_issue q by (simp add: may_issue_def)
  have a: "m_active_mask (hd (c_simt_stack sample_core ! 0)) = {0, 1, 2, 3}" by (simp add: sample_core_def launch_def)
  have "pi_decoded q" "distinct (filter (\<lambda>r. r > 0) (inst_out q))" using two_adds_0 [OF q] by simp_all
  with sample_core_ok n sample_exec [OF q] sample_program [OF q] show ?thesis
    unfolding warp_ready_def a by (auto simp: core_ok_def WARP_PER_CTA_MAX_def)
qed

lemma sample_can: "can_issue sample_core 0"
  using sample_may_issue by (auto simp: can_issue_def sample_core_def loaded_warp_eq)

lemma sample_scheduler_ok: "order_ok (c_scoreboard sample_core) (c_warp sample_core) sample_scheduler"
  "sched_warps sample_scheduler = [0]"
  by (simp_all add: order_ok_def sample_scheduler_def sched_warps_def)

lemma sample_all_ready: "\<forall>j \<in> set (sched_warps sample_scheduler). (\<exists>fl. warp_ready straight straight_cfg 0 fl sample_core j)
    \<and> stays_ready straight straight_cfg 0 0 sample_core j"
  using sample_ready by (auto simp: sample_scheduler_ok(2) stays_ready_def straight_cfg_def)

lemma sample_max: "0 < ic_max_insn_issue_per_warp straight_cfg"
  by (simp add: straight_cfg_def)

lemma sample_cycle: "cycle straight straight_cfg insertion_sort (sample_core, sample_scheduler) \<noteq> None"
  using cycle_ok [OF straight_ok sample_max ins.cpp_sort_axioms sample_scheduler_ok(1) sample_all_ready] by auto

theorem cycle_progress_witness:
  "\<exists>c' s'. cycle straight straight_cfg insertion_sort (sample_core, sample_scheduler) = Some (c', s') \<and> c_next_uid c' = 1"
proof -
  have "s_class sample_scheduler = lrr_scheduler" "c_next_uid sample_core = 0" by (simp_all add: sample_scheduler_def sample_core_def)
  moreover have "ic_max_insn_issue_per_warp straight_cfg = 1" by (simp add: straight_cfg_def)
  ultimately show ?thesis
    using cycle_progress [OF straight_ok sample_max ins.cpp_sort_axioms sample_scheduler_ok(1) sample_all_ready] sample_can
    by (auto simp: sample_scheduler_ok(2))
qed

theorem cycle_issues_safely_witness:
  "\<exists>c' s' is c1. cycle straight straight_cfg insertion_sort (sample_core, sample_scheduler) = Some (c', s')
    \<and> issue_run straight straight_cfg sample_core is c1 \<and> length is \<le> 1"
proof -
  obtain c' s' where c: "cycle straight straight_cfg insertion_sort (sample_core, sample_scheduler) = Some (c', s')"
    using sample_cycle by auto
  from cycle_issues_safely [OF c] have "\<exists>is c1. issue_run straight straight_cfg sample_core is c1 \<and> length is \<le> 1"
    by (auto simp: straight_cfg_def)
  with c show ?thesis by blast
qed

section \<open>Deviations\<close>

text \<open>A thread whose predicate switches it off in an atomic instruction is counted as an atomic operation of its warp,
  although no access will be made for it and so nothing will take it off the count: the warp waits for ever.\<close>

lemma predicated_atomic_counted:
  assumes "t \<in> pi_warp_active_mask p" and "inst_warp_id p = wid" and "wid < length (c_warp c)"
    and "ptx_exec_inst fs (ic_warp_size cfg * wid + t) t p (c_threads c) = Some (p', f)"
    and "pi_isatomic p'" and "t \<notin> pi_warp_active_mask p'" and "inst_warp_id p' = wid"
    and "\<not> ptx_thread_done fs f (ic_warp_size cfg * wid + t)"
  shows "\<exists>c'. exec_lane fs cfg (p, c) t = Some (p', c') \<and> w_n_atomic (c_warp c' ! wid) = w_n_atomic (c_warp c ! wid) + 1"
  using assms by (simp add: exec_lane_def Let_def checkExecutionStatusAndUpdate_def upd_warp_def inc_n_atomic_def)

end
