(* ===== verification/Operand_Collector.thy ===== *)
theory Operand_Collector
  imports Register_Set Hardware_Model
begin

text \<open>
  The operand collectors of a core, \<open>opndcoll_rfu_t\<close> of \<open>gpgpu-sim/shader.h\<close> and \<open>gpgpu-sim/shader.cc\<close>, with the
  configuration the core gives them. An instruction waits in a collector unit until the arbiter has read each
  of its source registers from a bank of the register file; a dispatch unit then moves it to the execution stage.
  Collector units are named by their position in \<open>m_cu\<close>, which is the pointer the source keeps. The counts of accesses to the
  register file for the power model are left out.
\<close>

section \<open>State\<close>

text \<open>An instruction with the registers it reads and writes, \<open>arch_reg\<close>; a negative number is no register.\<close>

record oc_inst = pipe_inst +
  arch_src :: "nat \<Rightarrow> int"
  arch_dst :: "nat \<Rightarrow> int"

definition MAX_REG_OPERANDS :: nat where "MAX_REG_OPERANDS = 8"

datatype pipeline_stage = ID_OC_SP | ID_OC_SFU | ID_OC_MEM | OC_EX_SP | OC_EX_SFU | OC_EX_MEM | EX_WB

datatype cu_kind = SP_CUS | SFU_CUS | MEM_CUS | GEN_CUS

type_synonym pipeline_regs = "pipeline_stage \<Rightarrow> oc_inst list"

text \<open>A request to a bank: from a collector unit for a source operand, or from an instruction for a result.\<close>

record op_t =
  op_valid :: bool
  op_cu :: "nat option"
  op_warp :: "oc_inst option"
  op_operand :: nat
  op_register :: nat
  op_bank :: nat

definition no_op :: op_t where
  "no_op = \<lparr>op_valid = False, op_cu = None, op_warp = None, op_operand = 0, op_register = 0, op_bank = 0\<rparr>"

text \<open>\<open>m_output_register\<close> is the name of a register set. The numbers of banks and the shift, of which each
  collector unit has a copy, are those of the whole.\<close>

record collector_unit =
  cu_free :: bool
  cu_cuid :: nat
  cu_warp_id :: nat
  cu_warp :: oc_inst
  cu_output :: "pipeline_stage option"
  cu_src_op :: "op_t list"
  cu_not_ready :: "nat set"

datatype allocation = NO_ALLOC | READ_ALLOC op_t | WRITE_ALLOC op_t

record arbiter =
  ar_num_banks :: nat
  ar_num_collectors :: nat
  ar_allocated :: "allocation list"
  ar_queue :: "op_t list list"
  ar_last_cu :: nat

record input_port =
  ip_in :: "pipeline_stage list"
  ip_out :: "pipeline_stage list"
  ip_cu_sets :: "cu_kind list"

record dispatch_unit =
  du_num_collectors :: nat
  du_cus :: cu_kind
  du_last_cu :: nat

record opndcoll =
  rf_num_banks :: nat
  rf_bank_warp_shift :: nat
  rf_cu :: "collector_unit list"
  rf_cus :: "cu_kind \<Rightarrow> nat list"
  rf_arbiter :: arbiter
  rf_in_ports :: "input_port list"
  rf_dispatch_units :: "dispatch_unit list"

section \<open>Operands\<close>

definition register_bank :: "nat \<Rightarrow> nat \<Rightarrow> nat \<Rightarrow> nat \<Rightarrow> nat" where
  "register_bank regnum wid num_banks bank_warp_shift =
     (if bank_warp_shift \<noteq> 0 then regnum + wid else regnum) mod num_banks"

definition read_op :: "nat \<Rightarrow> collector_unit \<Rightarrow> nat \<Rightarrow> nat \<Rightarrow> nat \<Rightarrow> nat \<Rightarrow> op_t" where
  "read_op c cu op reg num_banks shift =
     \<lparr>op_valid = True, op_cu = Some c, op_warp = None, op_operand = op, op_register = reg,
      op_bank = register_bank reg (cu_warp_id cu) num_banks shift\<rparr>"

definition write_op :: "oc_inst \<Rightarrow> nat \<Rightarrow> nat \<Rightarrow> nat \<Rightarrow> op_t" where
  "write_op w reg num_banks shift =
     \<lparr>op_valid = True, op_cu = None, op_warp = Some w, op_operand = 2 ^ 32 - 1, op_register = reg,
      op_bank = register_bank reg (inst_warp_id w) num_banks shift\<rparr>"

definition get_reg :: "op_t \<Rightarrow> nat option" where
  "get_reg op = do { _ \<leftarrow> assert_c (op_valid op); Some (op_register op) }"

definition get_wid :: "collector_unit list \<Rightarrow> op_t \<Rightarrow> nat option" where
  "get_wid cus op =
     (case op_warp op of
        Some w \<Rightarrow> Some (inst_warp_id w)
      | None \<Rightarrow> do { c \<leftarrow> op_cu op; u \<leftarrow> at_get cus c; Some (cu_warp_id u) })"

definition get_oc_id :: "collector_unit list \<Rightarrow> op_t \<Rightarrow> nat option" where
  "get_oc_id cus op = do { c \<leftarrow> op_cu op; u \<leftarrow> at_get cus c; Some (cu_cuid u) }"

section \<open>Arbiter\<close>

definition arbiter_init :: "nat \<Rightarrow> nat \<Rightarrow> arbiter option" where
  "arbiter_init num_cu num_banks = do {
     _ \<leftarrow> assert_c (num_cu > 0);
     _ \<leftarrow> assert_c (num_banks > 0);
     Some \<lparr>ar_num_banks = num_banks, ar_num_collectors = num_cu, ar_allocated = replicate num_banks NO_ALLOC,
           ar_queue = replicate num_banks [], ar_last_cu = 0\<rparr> }"

definition add_read_request :: "arbiter \<Rightarrow> op_t \<Rightarrow> arbiter option" where
  "add_read_request a op =
     (if op_valid op then do {
        q \<leftarrow> at_get (ar_queue a) (op_bank op);
        Some (a\<lparr>ar_queue := (ar_queue a)[op_bank op := q @ [op]]\<rparr>) }
      else Some a)"

definition add_read_requests :: "collector_unit \<Rightarrow> arbiter \<Rightarrow> arbiter option" where
  "add_read_requests cu a = foldM add_read_request a (cu_src_op cu)"

fun is_free :: "allocation \<Rightarrow> bool" where
  "is_free NO_ALLOC = True"
| "is_free _ = False"

lemma is_free_iff [simp]: "is_free x \<longleftrightarrow> x = NO_ALLOC"
  by (cases x) simp_all

definition bank_idle :: "nat \<Rightarrow> arbiter \<Rightarrow> bool option" where
  "bank_idle bank a = do { x \<leftarrow> at_get (ar_allocated a) bank; Some (is_free x) }"

fun is_write :: "allocation \<Rightarrow> bool" where
  "is_write (WRITE_ALLOC _) = True"
| "is_write _ = False"

definition allocate_bank :: "nat \<Rightarrow> allocation \<Rightarrow> arbiter \<Rightarrow> arbiter option" where
  "allocate_bank bank x a = do {
     _ \<leftarrow> assert_c (bank < ar_num_banks a);
     old \<leftarrow> at_get (ar_allocated a) bank;
     _ \<leftarrow> assert_c (is_free old);
     Some (a\<lparr>ar_allocated := (ar_allocated a)[bank := x]\<rparr>) }"

definition allocate_bank_for_write :: "nat \<Rightarrow> op_t \<Rightarrow> arbiter \<Rightarrow> arbiter option" where
  "allocate_bank_for_write bank op = allocate_bank bank (WRITE_ALLOC op)"

definition allocate_for_read :: "nat \<Rightarrow> op_t \<Rightarrow> arbiter \<Rightarrow> arbiter option" where
  "allocate_for_read bank op = allocate_bank bank (READ_ALLOC op)"

definition reset_alloction :: "arbiter \<Rightarrow> arbiter" where
  "reset_alloction a = a\<lparr>ar_allocated := map (\<lambda>_. NO_ALLOC) (ar_allocated a)\<rparr>"

text \<open>The row of the matrix of requests for each bank, which has at most one entry, the collector unit of its first
  request; and \<open>_inmatch\<close>, where a bank that is written is taken.\<close>

definition request_row :: "collector_unit list \<Rightarrow> arbiter \<Rightarrow> nat option list \<times> int list \<Rightarrow> nat
    \<Rightarrow> (nat option list \<times> int list) option" where
  "request_row cus a = (\<lambda>(request, inmatch) i. do {
     q \<leftarrow> at_get (ar_queue a) i;
     row \<leftarrow> (case q of
        [] \<Rightarrow> Some None
      | op # _ \<Rightarrow> do {
          oc_id \<leftarrow> get_oc_id cus op;
          _ \<leftarrow> assert_c (oc_id < ar_num_collectors a);
          Some (Some oc_id) });
     x \<leftarrow> at_get (ar_allocated a) i;
     Some (request @ [row], inmatch @ [if is_write x then 0 else - 1]) })"

text \<open>One entry of a diagonal, one diagonal, and all of them, from the one with priority.\<close>

definition match_entry :: "nat \<Rightarrow> nat \<Rightarrow> nat option list \<Rightarrow> int list \<times> int list \<times> nat \<Rightarrow> nat
    \<Rightarrow> (int list \<times> int list \<times> nat) option" where
  "match_entry outputs square request = (\<lambda>(inmatch, outmatch, out) input. do {
     _ \<leftarrow> assert_c (out < outputs);
     let (inmatch, outmatch) =
       (if out < outputs \<and> inmatch ! input = - 1 \<and> outmatch ! out = - 1 \<and> request ! input = Some out
        then (inmatch[input := int out], outmatch[out := int input])
        else (inmatch, outmatch));
     Some (inmatch, outmatch, (out + 1) mod square) })"

definition match_diagonal :: "nat \<Rightarrow> nat \<Rightarrow> nat \<Rightarrow> nat option list \<Rightarrow> nat \<Rightarrow> int list \<times> int list \<Rightarrow> nat
    \<Rightarrow> (int list \<times> int list) option" where
  "match_diagonal inputs outputs square request pri = (\<lambda>(inmatch, outmatch) p. do {
     (inmatch, outmatch, _) \<leftarrow> foldM (match_entry outputs square request) (inmatch, outmatch, (pri + p) mod square) [0..<inputs];
     Some (inmatch, outmatch) })"

definition pop_granted :: "int list \<Rightarrow> op_t list \<times> arbiter \<Rightarrow> nat \<Rightarrow> (op_t list \<times> arbiter) option" where
  "pop_granted inmatch = (\<lambda>(result, a) i.
     if inmatch ! i \<noteq> - 1 then do {
       x \<leftarrow> at_get (ar_allocated a) i;
       if \<not> is_write x then do {
         q \<leftarrow> at_get (ar_queue a) i;
         case q of
           [] \<Rightarrow> None
         | op # ops \<Rightarrow> Some (result @ [op], a\<lparr>ar_queue := (ar_queue a)[i := ops]\<rparr>) }
       else Some (result, a) }
     else Some (result, a))"

definition arbiter_allocate_reads :: "collector_unit list \<Rightarrow> arbiter \<Rightarrow> (op_t list \<times> arbiter) option" where
  "arbiter_allocate_reads cus a = do {
     let inputs = ar_num_banks a;
     let outputs = ar_num_collectors a;
     let square = (if inputs > outputs then inputs else outputs);
     _ \<leftarrow> assert_c (square > 0);
     let pri = ar_last_cu a;
     (request, inmatch) \<leftarrow> foldM (request_row cus a) ([], []) [0..<inputs];
     (inmatch, outmatch) \<leftarrow> foldM (match_diagonal inputs outputs square request pri) (inmatch, replicate outputs (- 1)) [0..<square];
     foldM (pop_granted inmatch) ([], a\<lparr>ar_last_cu := (pri + 1) mod square\<rparr>) [0..<inputs] }"

section \<open>Collector units\<close>

definition collect_operand :: "nat \<Rightarrow> collector_unit \<Rightarrow> collector_unit option" where
  "collect_operand op cu = do {
     _ \<leftarrow> assert_c (op < MAX_REG_OPERANDS * 2);
     Some (cu\<lparr>cu_not_ready := cu_not_ready cu - {op}\<rparr>) }"

definition cu_ready :: "pipeline_regs \<Rightarrow> collector_unit \<Rightarrow> bool option" where
  "cu_ready regs cu =
     (if \<not> cu_free cu \<and> cu_not_ready cu = {} then do { out \<leftarrow> cu_output cu; Some (has_free (regs out)) }
      else Some False)"

text \<open>The operands of the instruction, in collector unit \<open>c\<close>.\<close>

definition take_operand :: "opndcoll \<Rightarrow> nat \<Rightarrow> oc_inst \<Rightarrow> collector_unit \<Rightarrow> nat \<Rightarrow> collector_unit" where
  "take_operand rf c p cu op =
     (let reg_num = arch_src p op
      in if 0 \<le> reg_num
         then cu\<lparr>cu_src_op := (cu_src_op cu)[op := read_op c cu op (nat reg_num) (rf_num_banks rf) (rf_bank_warp_shift rf)],
                 cu_not_ready := insert op (cu_not_ready cu)\<rparr>
         else cu\<lparr>cu_src_op := (cu_src_op cu)[op := no_op]\<rparr>)"

definition cu_allocate :: "opndcoll \<Rightarrow> nat \<Rightarrow> pipeline_stage \<Rightarrow> pipeline_stage \<Rightarrow> collector_unit \<Rightarrow> pipeline_regs
    \<Rightarrow> (bool \<times> collector_unit \<times> pipeline_regs) option" where
  "cu_allocate rf c inp out cu regs = do {
     _ \<leftarrow> assert_c (cu_free cu);
     _ \<leftarrow> assert_c (cu_not_ready cu = {});
     let cu = cu\<lparr>cu_free := False, cu_output := Some out\<rparr>;
     case get_ready (regs inp) of
       None \<Rightarrow> Some (False, cu, regs)
     | Some r \<Rightarrow>
         let p = regs inp ! r
         in if pi_empty p then Some (False, cu, regs)
            else do {
              let cu = foldl (take_operand rf c p) (cu\<lparr>cu_warp_id := inst_warp_id p\<rparr>) [0..<MAX_REG_OPERANDS];
              (warp, in_regs) \<leftarrow> move_out_to (cu_warp cu) (regs inp);
              Some (True, cu\<lparr>cu_warp := warp\<rparr>, regs(inp := in_regs)) } }"

definition cu_dispatch :: "collector_unit \<Rightarrow> pipeline_regs \<Rightarrow> (collector_unit \<times> pipeline_regs) option" where
  "cu_dispatch cu regs = do {
     _ \<leftarrow> assert_c (cu_not_ready cu = {});
     out \<leftarrow> cu_output cu;
     (warp, out_regs) \<leftarrow> move_in (cu_warp cu) (regs out);
     Some (cu\<lparr>cu_warp := warp, cu_free := True, cu_output := None,
              cu_src_op := map (\<lambda>op. op\<lparr>op_valid := False\<rparr>) (cu_src_op cu)\<rparr>, regs(out := out_regs)) }"

section \<open>The register file unit\<close>

definition upd_cu :: "nat \<Rightarrow> collector_unit \<Rightarrow> opndcoll \<Rightarrow> opndcoll" where
  "upd_cu c cu rf = rf\<lparr>rf_cu := (rf_cu rf)[c := cu]\<rparr>"

text \<open>The position of the unit to dispatch and the dispatch unit. The loop runs \<open>n\<close> over \<open>m_num_collectors\<close>.\<close>

fun find_ready_from :: "opndcoll \<Rightarrow> pipeline_regs \<Rightarrow> dispatch_unit \<Rightarrow> nat list \<Rightarrow> (nat option \<times> dispatch_unit) option" where
  "find_ready_from rf regs du [] = Some (None, du)"
| "find_ready_from rf regs du (n # ns) = do {
     let c = (du_last_cu du + n + 1) mod du_num_collectors du;
     i \<leftarrow> at_get (rf_cus rf (du_cus du)) c;
     cu \<leftarrow> at_get (rf_cu rf) i;
     r \<leftarrow> cu_ready regs cu;
     if r then Some (Some i, du\<lparr>du_last_cu := c\<rparr>) else find_ready_from rf regs du ns }"

definition find_ready :: "opndcoll \<Rightarrow> pipeline_regs \<Rightarrow> dispatch_unit \<Rightarrow> (nat option \<times> dispatch_unit) option" where
  "find_ready rf regs du = find_ready_from rf regs du [0..<du_num_collectors du]"

definition dispatch_step :: "opndcoll \<times> pipeline_regs \<Rightarrow> nat \<Rightarrow> (opndcoll \<times> pipeline_regs) option" where
  "dispatch_step = (\<lambda>(rf, regs) p. do {
     du \<leftarrow> at_get (rf_dispatch_units rf) p;
     (found, du) \<leftarrow> find_ready rf regs du;
     let rf = rf\<lparr>rf_dispatch_units := (rf_dispatch_units rf)[p := du]\<rparr>;
     case found of
       None \<Rightarrow> Some (rf, regs)
     | Some i \<Rightarrow> do {
         cu \<leftarrow> at_get (rf_cu rf) i;
         (cu, regs) \<leftarrow> cu_dispatch cu regs;
         Some (upd_cu i cu rf, regs) } })"

definition dispatch_ready_cu :: "opndcoll \<Rightarrow> pipeline_regs \<Rightarrow> (opndcoll \<times> pipeline_regs) option" where
  "dispatch_ready_cu rf regs = foldM dispatch_step (rf, regs) [0..<length (rf_dispatch_units rf)]"

text \<open>The reads that were granted, then the operands they bring. \<open>read_ops\<close> is a map in the order of the banks.\<close>

definition grant_read :: "opndcoll \<Rightarrow> arbiter \<times> (nat \<times> op_t) list \<Rightarrow> op_t \<Rightarrow> (arbiter \<times> (nat \<times> op_t) list) option" where
  "grant_read rf = (\<lambda>(a, read_ops) rr. do {
     reg \<leftarrow> get_reg rr;
     wid \<leftarrow> get_wid (rf_cu rf) rr;
     let bank = register_bank reg wid (rf_num_banks rf) (rf_bank_warp_shift rf);
     a \<leftarrow> allocate_for_read bank rr a;
     Some (a, omap_put bank rr read_ops) })"

definition collect_read :: "opndcoll \<Rightarrow> nat \<times> op_t \<Rightarrow> opndcoll option" where
  "collect_read rf = (\<lambda>(_, op). do {
     c \<leftarrow> get_oc_id (rf_cu rf) op;
     cu \<leftarrow> at_get (rf_cu rf) c;
     cu \<leftarrow> collect_operand (op_operand op) cu;
     Some (upd_cu c cu rf) })"

definition allocate_reads :: "opndcoll \<Rightarrow> opndcoll option" where
  "allocate_reads rf = do {
     (allocated, a) \<leftarrow> arbiter_allocate_reads (rf_cu rf) (rf_arbiter rf);
     (a, read_ops) \<leftarrow> foldM (grant_read rf) (a, []) allocated;
     foldM collect_read (rf\<lparr>rf_arbiter := a\<rparr>) read_ops }"

text \<open>The first free unit of a set, and the sets in order until one has taken the instruction.\<close>

fun find_free :: "opndcoll \<Rightarrow> nat list \<Rightarrow> nat option option" where
  "find_free rf [] = Some None"
| "find_free rf (i # is) = do {
     cu \<leftarrow> at_get (rf_cu rf) i;
     if cu_free cu then Some (Some i) else find_free rf is }"

fun try_cu_sets :: "pipeline_stage \<Rightarrow> pipeline_stage \<Rightarrow> cu_kind list \<Rightarrow> opndcoll \<Rightarrow> pipeline_regs
    \<Rightarrow> (opndcoll \<times> pipeline_regs) option" where
  "try_cu_sets inp out [] rf regs = Some (rf, regs)"
| "try_cu_sets inp out (s # ss) rf regs = do {
     found \<leftarrow> find_free rf (rf_cus rf s);
     case found of
       None \<Rightarrow> try_cu_sets inp out ss rf regs
     | Some i \<Rightarrow> do {
         cu \<leftarrow> at_get (rf_cu rf) i;
         (allocated, cu, regs) \<leftarrow> cu_allocate rf i inp out cu regs;
         a \<leftarrow> add_read_requests cu (rf_arbiter rf);
         let rf = (upd_cu i cu rf)\<lparr>rf_arbiter := a\<rparr>;
         if allocated then Some (rf, regs) else try_cu_sets inp out ss rf regs } }"

text \<open>Only the first input of the port that has an instruction is served.\<close>

fun allocate_inputs :: "input_port \<Rightarrow> nat list \<Rightarrow> opndcoll \<Rightarrow> pipeline_regs \<Rightarrow> (opndcoll \<times> pipeline_regs) option" where
  "allocate_inputs port [] rf regs = Some (rf, regs)"
| "allocate_inputs port (i # is) rf regs = do {
     inp \<leftarrow> at_get (ip_in port) i;
     if has_ready (regs inp) then do {
       out \<leftarrow> at_get (ip_out port) i;
       try_cu_sets inp out (ip_cu_sets port) rf regs }
     else allocate_inputs port is rf regs }"

definition allocate_cu :: "opndcoll \<times> pipeline_regs \<Rightarrow> nat \<Rightarrow> (opndcoll \<times> pipeline_regs) option" where
  "allocate_cu = (\<lambda>(rf, regs) port_num. do {
     port \<leftarrow> at_get (rf_in_ports rf) port_num;
     allocate_inputs port [0..<length (ip_in port)] rf regs })"

definition process_banks :: "opndcoll \<Rightarrow> opndcoll" where
  "process_banks rf = rf\<lparr>rf_arbiter := reset_alloction (rf_arbiter rf)\<rparr>"

definition step :: "opndcoll \<Rightarrow> pipeline_regs \<Rightarrow> (opndcoll \<times> pipeline_regs) option" where
  "step rf regs = do {
     (rf, regs) \<leftarrow> dispatch_ready_cu rf regs;
     rf \<leftarrow> allocate_reads rf;
     (rf, regs) \<leftarrow> foldM allocate_cu (rf, regs) [0..<length (rf_in_ports rf)];
     Some (process_banks rf, regs) }"

text \<open>Writing the results of an instruction: false when a bank is taken, with the banks taken before it kept.\<close>

definition get_regs_written :: "oc_inst \<Rightarrow> nat list" where
  "get_regs_written p = map (\<lambda>op. nat (arch_dst p op)) (filter (\<lambda>op. 0 \<le> arch_dst p op) [0..<MAX_REG_OPERANDS])"

fun write_regs :: "oc_inst \<Rightarrow> nat list \<Rightarrow> opndcoll \<Rightarrow> (bool \<times> opndcoll) option" where
  "write_regs p [] rf = Some (True, rf)"
| "write_regs p (reg # rs) rf = do {
     let bank = register_bank reg (inst_warp_id p) (rf_num_banks rf) (rf_bank_warp_shift rf);
     idle \<leftarrow> bank_idle bank (rf_arbiter rf);
     if idle then do {
       a \<leftarrow> allocate_bank_for_write bank (write_op p reg (rf_num_banks rf) (rf_bank_warp_shift rf)) (rf_arbiter rf);
       write_regs p rs (rf\<lparr>rf_arbiter := a\<rparr>) }
     else Some (False, rf) }"

definition writeback :: "oc_inst \<Rightarrow> opndcoll \<Rightarrow> (bool \<times> opndcoll) option" where
  "writeback p rf = do {
     _ \<leftarrow> assert_c (\<not> pi_empty p);
     write_regs p (get_regs_written p) rf }"

section \<open>Configuration\<close>

record oc_config =
  num_units :: "cu_kind \<Rightarrow> nat"
  num_in_ports :: "cu_kind \<Rightarrow> nat"
  num_out_ports :: "cu_kind \<Rightarrow> nat"
  num_reg_banks :: nat
  oc_warp_size :: nat

text \<open>A collector unit before \<open>init\<close>; what the constructor leaves out is 0.\<close>

definition empty_inst :: oc_inst where
  "empty_inst = \<lparr>inst_out = [], inst_in = [], inst_pred = 0, inst_ar1 = 0, inst_ar2 = 0, inst_is_load = False,
     inst_space = undefined_space, inst_warp_id = 0, pi_pc = 0, pi_isize = 0, pi_op = NO_OP, pi_reconvergence_pc = 0,
     pi_initiation_interval = 0, pi_decoded = False, pi_isatomic = False, pi_empty = True, pi_uid = 0,
     pi_warp_active_mask = {}, pi_warp_issued_mask = {}, pi_dynamic_warp_id = 0, pi_issue_cycle = 0, pi_cycles = 0,
     arch_src = (\<lambda>_. - 1), arch_dst = (\<lambda>_. - 1)\<rparr>"

definition new_collector_unit :: collector_unit where
  "new_collector_unit = \<lparr>cu_free = True, cu_cuid = 0, cu_warp_id = 2 ^ 32 - 1, cu_warp = empty_inst, cu_output = None,
     cu_src_op = replicate (MAX_REG_OPERANDS * 2) no_op, cu_not_ready = {}\<rparr>"

definition new_opndcoll :: opndcoll where
  "new_opndcoll = \<lparr>rf_num_banks = 0, rf_bank_warp_shift = 0, rf_cu = [], rf_cus = (\<lambda>_. []),
     rf_arbiter = \<lparr>ar_num_banks = 0, ar_num_collectors = 0, ar_allocated = [], ar_queue = [], ar_last_cu = 0\<rparr>,
     rf_in_ports = [], rf_dispatch_units = []\<rparr>"

text \<open>Each dispatch unit takes the size of its set when it is made, with the units of the set in place.\<close>

definition add_cu_set :: "cu_kind \<Rightarrow> nat \<Rightarrow> nat \<Rightarrow> opndcoll \<Rightarrow> opndcoll" where
  "add_cu_set set_id num_cu num_dispatch rf =
     (let n = length (rf_cu rf);
          cus = rf_cus rf set_id @ [n..<n + num_cu]
      in rf\<lparr>rf_cu := rf_cu rf @ replicate num_cu new_collector_unit, rf_cus := (rf_cus rf)(set_id := cus),
            rf_dispatch_units := rf_dispatch_units rf
              @ replicate num_dispatch \<lparr>du_num_collectors = length cus, du_cus = set_id, du_last_cu = 0\<rparr>\<rparr>)"

definition add_port :: "pipeline_stage list \<Rightarrow> pipeline_stage list \<Rightarrow> cu_kind list \<Rightarrow> opndcoll \<Rightarrow> opndcoll option" where
  "add_port input output cu_sets rf = do {
     _ \<leftarrow> assert_c (length input = length output);
     _ \<leftarrow> assert_c (cu_sets \<noteq> []);
     Some (rf\<lparr>rf_in_ports := rf_in_ports rf @ [\<lparr>ip_in = input, ip_out = output, ip_cu_sets = cu_sets\<rparr>]\<rparr>) }"

text \<open>\<open>(int) (log (n + 0.5) / log 2)\<close> for a warp of at least one thread: the exponent of the largest power of two up to \<open>n\<close>.\<close>

fun ilog2 :: "nat \<Rightarrow> nat" where
  "ilog2 n = (if n < 2 then 0 else Suc (ilog2 (n div 2)))"

declare ilog2.simps [simp del]

definition cu_init :: "nat \<Rightarrow> collector_unit \<Rightarrow> collector_unit" where
  "cu_init n cu = cu\<lparr>cu_cuid := n, cu_warp := empty_inst\<rparr>"

definition opndcoll_init :: "nat \<Rightarrow> nat \<Rightarrow> opndcoll \<Rightarrow> opndcoll option" where
  "opndcoll_init num_banks wsize rf = do {
     a \<leftarrow> arbiter_init (length (rf_cu rf)) num_banks;
     let shift = ilog2 wsize;
     _ \<leftarrow> assert_c (shift = 5 \<or> wsize \<noteq> 32);
     Some (rf\<lparr>rf_arbiter := a, rf_num_banks := num_banks, rf_bank_warp_shift := shift,
             rf_cu := map (\<lambda>j. cu_init j (rf_cu rf ! j)) [0..<length (rf_cu rf)]\<rparr>) }"

text \<open>The ports of the core for one kind of unit, and the whole register file unit.\<close>

fun port_of :: "cu_kind \<Rightarrow> pipeline_stage list \<times> pipeline_stage list \<times> cu_kind list" where
  "port_of SP_CUS = ([ID_OC_SP], [OC_EX_SP], [SP_CUS, GEN_CUS])"
| "port_of SFU_CUS = ([ID_OC_SFU], [OC_EX_SFU], [SFU_CUS, GEN_CUS])"
| "port_of MEM_CUS = ([ID_OC_MEM], [OC_EX_MEM], [MEM_CUS, GEN_CUS])"
| "port_of GEN_CUS = ([ID_OC_SP, ID_OC_SFU, ID_OC_MEM], [OC_EX_SP, OC_EX_SFU, OC_EX_MEM], [GEN_CUS])"

definition add_ports :: "oc_config \<Rightarrow> opndcoll \<Rightarrow> cu_kind \<Rightarrow> opndcoll option" where
  "add_ports cfg rf k = foldM (\<lambda>rf _. case port_of k of (input, output, cu_sets) \<Rightarrow> add_port input output cu_sets rf)
     rf [0..<num_in_ports cfg k]"

definition core_operand_collector :: "oc_config \<Rightarrow> opndcoll option" where
  "core_operand_collector cfg = do {
     let rf = foldl (\<lambda>rf k. add_cu_set k (num_units cfg k) (num_out_ports cfg k) rf) new_opndcoll
                [SP_CUS, SFU_CUS, MEM_CUS, GEN_CUS];
     rf \<leftarrow> foldM (add_ports cfg) rf [SP_CUS, SFU_CUS, MEM_CUS, GEN_CUS];
     opndcoll_init (num_reg_banks cfg) (oc_warp_size cfg) rf }"

end
