(* ===== verification/Oc_Arbiter.thy ===== *)
theory Oc_Arbiter
  imports Operand_Collector
begin

text \<open>
  The wavefront allocator of the operand collectors, \<open>arbiter_t::allocate_reads\<close>: the banks it grants and the collector units
  they serve form a matching that cannot be extended, and the requests on the diagonal with priority are granted.
\<close>

section \<open>The matching\<close>

text \<open>\<open>rows\<close> are the requests and \<open>wr\<close> the banks that are written. Entries that are not \<open>-1\<close> are taken.\<close>

definition match_ok :: "nat \<Rightarrow> nat \<Rightarrow> nat option list \<Rightarrow> (nat \<Rightarrow> bool) \<Rightarrow> int list \<times> int list \<Rightarrow> bool" where
  "match_ok inputs outputs rows wr = (\<lambda>(inm, outm). length inm = inputs \<and> length outm = outputs
     \<and> (\<forall>i < inputs. wr i \<longrightarrow> inm ! i \<noteq> - 1)
     \<and> (\<forall>i < inputs. inm ! i \<noteq> - 1 \<longrightarrow> \<not> wr i \<longrightarrow>
          (\<exists>j < outputs. inm ! i = int j \<and> outm ! j = int i \<and> rows ! i = Some j))
     \<and> (\<forall>j < outputs. outm ! j \<noteq> - 1 \<longrightarrow> (\<exists>i < inputs. \<not> wr i \<and> outm ! j = int i \<and> inm ! i = int j)))"

definition served :: "nat option list \<Rightarrow> int list \<times> int list \<Rightarrow> nat \<Rightarrow> nat \<Rightarrow> bool" where
  "served rows = (\<lambda>(inm, outm) i j. rows ! i = Some j \<longrightarrow> inm ! i \<noteq> - 1 \<or> outm ! j \<noteq> - 1)"

text \<open>Taken entries stay taken.\<close>

definition taken_le :: "int list \<times> int list \<Rightarrow> int list \<times> int list \<Rightarrow> bool" where
  "taken_le = (\<lambda>(inm, outm) (inm', outm'). length inm' = length inm \<and> length outm' = length outm
     \<and> (\<forall>i < length inm. inm ! i \<noteq> - 1 \<longrightarrow> inm' ! i = inm ! i) \<and> (\<forall>j < length outm. outm ! j \<noteq> - 1 \<longrightarrow> outm' ! j = outm ! j))"

lemma taken_le_refl [simp]: "taken_le m m"
  by (auto simp: taken_le_def)

lemma taken_le_trans: "taken_le m n \<Longrightarrow> taken_le n k \<Longrightarrow> taken_le m k"
  unfolding taken_le_def by (auto split: prod.splits)

lemma served_mono: "served rows m i j \<Longrightarrow> taken_le m n \<Longrightarrow> i < length (fst m) \<Longrightarrow> j < length (snd m) \<Longrightarrow> served rows n i j"
  by (auto simp: served_def taken_le_def split: prod.splits)

lemma match_entry_step:
  assumes "match_ok inputs outputs rows wr (inm, outm)" "out < outputs" "i < inputs"
  shows "\<exists>m. match_entry outputs square rows (inm, outm, out) i = Some (fst m, snd m, (out + 1) mod square)
    \<and> match_ok inputs outputs rows wr m \<and> taken_le (inm, outm) m \<and> served rows m i out
    \<and> (\<forall>j < outputs. j \<noteq> out \<longrightarrow> snd m ! j = outm ! j)
    \<and> (rows ! i = Some out \<longrightarrow> outm ! out = - 1 \<longrightarrow> fst m ! i \<noteq> - 1)"
proof (cases "inm ! i = - 1 \<and> outm ! out = - 1 \<and> rows ! i = Some out")
  case True
  let ?m = "(inm[i := int out], outm[out := int i])"
  have ok: "match_ok inputs outputs rows wr ?m"
    unfolding match_ok_def prod.case
  proof (intro conjI allI impI)
    show "length (inm[i := int out]) = inputs" "length (outm[out := int i]) = outputs"
      using assms(1) by (simp_all add: match_ok_def)
    show "inm[i := int out] ! k \<noteq> - 1" if "k < inputs" "wr k" for k
      using assms(1) that by (cases "k = i") (auto simp: match_ok_def)
  next
    fix k assume k: "k < inputs" "inm[i := int out] ! k \<noteq> - 1" "\<not> wr k"
    show "\<exists>j < outputs. inm[i := int out] ! k = int j \<and> outm[out := int i] ! j = int k \<and> rows ! k = Some j"
    proof (cases "k = i")
      case True
      with \<open>inm ! i = - 1 \<and> outm ! out = - 1 \<and> rows ! i = Some out\<close> assms show ?thesis by (auto simp: match_ok_def)
    next
      case False
      with k assms(1) obtain j where "j < outputs" "inm ! k = int j" "outm ! j = int k" "rows ! k = Some j"
        by (auto simp: match_ok_def)
      with False True show ?thesis by (intro exI [of _ j]) (cases "j = out"; auto)
    qed
  next
    fix j assume j: "j < outputs" "outm[out := int i] ! j \<noteq> - 1"
    show "\<exists>k < inputs. \<not> wr k \<and> outm[out := int i] ! j = int k \<and> inm[i := int out] ! k = int j"
    proof (cases "j = out")
      case True
      with \<open>inm ! i = - 1 \<and> outm ! out = - 1 \<and> rows ! i = Some out\<close> assms show ?thesis by (auto simp: match_ok_def)
    next
      case False
      with j assms(1) obtain k where "k < inputs" "\<not> wr k" "outm ! j = int k" "inm ! k = int j"
        by (auto simp: match_ok_def)
      with False True show ?thesis by (intro exI [of _ k]) (cases "k = i"; auto)
    qed
  qed
  have le: "taken_le (inm, outm) ?m" 
    unfolding taken_le_def prod.case
  proof (intro conjI allI impI)
    show "inm[i := int out] ! k = inm ! k" if "inm ! k \<noteq> - 1" for k using True that by (cases "k = i") auto
    show "outm[out := int i] ! j = outm ! j" if "outm ! j \<noteq> - 1" for j using True that by (cases "j = out") auto
  qed simp_all
  have len: "length inm = inputs" using assms(1) by (simp add: match_ok_def)
  show ?thesis
    by (rule exI [of _ ?m], intro conjI ok le) (use True assms(2,3) len in \<open>simp_all add: match_entry_def served_def\<close>)
next
  case False
  show ?thesis
  proof (intro exI [of _ "(inm, outm)"] conjI)
    show "match_entry outputs square rows (inm, outm, out) i = Some (fst (inm, outm), snd (inm, outm), (out + 1) mod square)"
      using False assms(2) by (auto simp: match_entry_def)
    show "served rows (inm, outm) i out" using False by (auto simp: served_def)
    show "rows ! i = Some out \<longrightarrow> outm ! out = - 1 \<longrightarrow> fst (inm, outm) ! i \<noteq> - 1" using False by auto
  qed (use assms(1) in simp_all)
qed

text \<open>A whole diagonal \<open>d\<close>. Its entries name each collector unit at most once, so what was free before it is served.\<close>

lemma mod_add_inj: "(d + i) mod s = (d + i') mod s \<Longrightarrow> i < s \<Longrightarrow> i' < s \<Longrightarrow> i = (i' :: nat)"
proof -
  assume a: "(d + i) mod s = (d + i') mod s" "i < s" "i' < s"
  then have "((d + i) + (s - d mod s)) mod s = ((d + i') + (s - d mod s)) mod s" by (metis mod_add_left_eq)
  moreover have "((d + k) + (s - d mod s)) mod s = k" if "k < s" for k
  proof -
    have "d + k + (s - d mod s) = k + s * (d div s + 1)"
      using that mult_div_mod_eq [of s d] mod_less_divisor [of s d] unfolding add_mult_distrib2 mult_1_right by linarith
    then show ?thesis using that by (simp only: mod_mult_self2 mod_less)
  qed
  ultimately show ?thesis using a by metis
qed

lemma match_diagonal_step:
  assumes "match_ok inputs outputs rows wr m" "0 < outputs" "inputs \<le> outputs"
  shows "\<exists>n. match_diagonal inputs outputs outputs rows pri m p = Some n
    \<and> match_ok inputs outputs rows wr n \<and> taken_le m n
    \<and> (\<forall>i < inputs. served rows n i ((pri + p + i) mod outputs))
    \<and> (\<forall>i < inputs. rows ! i = Some ((pri + p + i) mod outputs) \<longrightarrow> snd m ! ((pri + p + i) mod outputs) = - 1 \<longrightarrow> fst n ! i \<noteq> - 1)"
proof -
  obtain inm outm where m: "m = (inm, outm)" by fastforce
  let ?o = "\<lambda>i. (pri + p + i) mod outputs"
  let ?I = "\<lambda>k (inm', outm', out). out = ?o k \<and> match_ok inputs outputs rows wr (inm', outm')
    \<and> taken_le m (inm', outm') \<and> (\<forall>i < k. served rows (inm', outm') i (?o i))
    \<and> (\<forall>j < outputs. (\<forall>i < k. j \<noteq> ?o i) \<longrightarrow> outm' ! j = outm ! j)
    \<and> (\<forall>i < k. rows ! i = Some (?o i) \<longrightarrow> outm ! ?o i = - 1 \<longrightarrow> inm' ! i \<noteq> - 1)"
  have "\<exists>s. foldM (match_entry outputs outputs rows) (inm, outm, ?o 0) [0..<inputs] = Some s \<and> ?I inputs s"
  proof (rule foldM_upt_invariant [where I = ?I])
    show "?I 0 (inm, outm, ?o 0)" using assms m by simp
  next
    fix k s assume k: "k < inputs" and I: "?I k s"
    obtain inm' outm' out where s: "s = (inm', outm', out)" by (cases s)
    have out: "out < outputs" "out = ?o k" using I s assms(2) by simp_all
    have M: "match_ok inputs outputs rows wr (inm', outm')" using I s by simp
    from match_entry_step [OF M out(1) k, of outputs] obtain n where
      n: "match_entry outputs outputs rows (inm', outm', out) k = Some (fst n, snd n, (out + 1) mod outputs)"
        "match_ok inputs outputs rows wr n" "taken_le (inm', outm') n" "served rows n k out"
        "\<forall>j < outputs. j \<noteq> out \<longrightarrow> snd n ! j = outm' ! j"
        "rows ! k = Some out \<longrightarrow> outm' ! out = - 1 \<longrightarrow> fst n ! k \<noteq> - 1" by blast
    have len: "length inm' = inputs" "length outm' = outputs" using M by (simp_all add: match_ok_def)
    have fresh: "\<forall>i < k. ?o k \<noteq> ?o i" 
    proof (intro allI impI notI)
      fix i assume i: "i < k" "?o k = ?o i"
      with k assms(3) have "k = i" by (intro mod_add_inj [OF i(2)]) simp_all
      with i show False by simp
    qed
    have outk: "outm' ! ?o k = outm ! ?o k" using I s out fresh by simp
    have ex: "?I (Suc k) (fst n, snd n, (out + 1) mod outputs)"
      unfolding prod.case
    proof (intro conjI allI impI)
      show "(out + 1) mod outputs = ?o (Suc k)" using out(2) by (simp add: mod_Suc_eq)
      show "match_ok inputs outputs rows wr (fst n, snd n)" using n(2) by simp
      have "taken_le m (inm', outm')" using I s by simp
      then show "taken_le m (fst n, snd n)" using n(3) by (simp add: taken_le_trans)
      show "served rows (fst n, snd n) i (?o i)" if "i < Suc k" for i
      proof (cases "i = k")
        case True then show ?thesis using n(4) out(2) by simp
      next
        case False
        then have "served rows (inm', outm') i (?o i)" using that I s by simp
        from served_mono [OF this n(3)] show ?thesis using that k len assms(2) by simp
      qed
      show "snd n ! j = outm ! j" if "j < outputs" "\<forall>i < Suc k. j \<noteq> ?o i" for j
        using that n(5) out(2) I s by simp
      show "fst n ! i \<noteq> - 1" if i: "i < Suc k" "rows ! i = Some (?o i)" "outm ! ?o i = - 1" for i
      proof (cases "i = k")
        case True then show ?thesis using n(6) out(2) outk i by simp
      next
        case False
        then have "inm' ! i \<noteq> - 1" using I s i by simp
        then show ?thesis using n(3) len i k by (auto simp: taken_le_def split: prod.splits)
      qed
    qed
    show "\<exists>s'. match_entry outputs outputs rows s k = Some s' \<and> ?I (Suc k) s'"
      unfolding s n(1) using ex by blast
  qed simp
  then obtain s where s: "foldM (match_entry outputs outputs rows) (inm, outm, ?o 0) [0..<inputs] = Some s" "?I inputs s" by blast
  obtain inm' outm' out where "s = (inm', outm', out)" by (cases s)
  note r = s [unfolded this]
  from r show ?thesis using m by (intro exI [of _ "(inm', outm')"]) (simp add: match_diagonal_def)
qed

text \<open>All diagonals: each entry of the matrix has been looked at.\<close>

lemma diagonal_covers:
  assumes "0 < (s::nat)" "j < s"
  shows "\<exists>p < s. (pri + p + i) mod s = j"
proof -
  let ?p = "(j + (s - (pri + i) mod s)) mod s"
  let ?r = "(pri + i) mod s"
  have "(pri + ?p + i) mod s = ((pri + i) + ?p) mod s" by (simp only: ac_simps)
  also have "\<dots> = ((pri + i) + (j + (s - ?r))) mod s" by (rule mod_add_right_eq)
  also have "\<dots> = (?r + (j + (s - ?r))) mod s" by (simp only: mod_add_left_eq)
  also have "?r + (j + (s - ?r)) = j + s" using mod_less_divisor [OF assms(1), of "pri + i"] by linarith
  also have "(j + s) mod s = j" using assms by simp
  finally show ?thesis using assms by (intro exI [of _ ?p]) simp
qed

lemma match_all:
  assumes "match_ok inputs outputs rows wr m" "0 < outputs" "inputs \<le> outputs" "\<forall>j < outputs. snd m ! j = - 1"
  shows "\<exists>n. foldM (match_diagonal inputs outputs outputs rows pri) m [0..<outputs] = Some n
    \<and> match_ok inputs outputs rows wr n
    \<and> (\<forall>i < inputs. \<forall>j < outputs. served rows n i j)
    \<and> (\<forall>i < inputs. rows ! i = Some ((pri + i) mod outputs) \<longrightarrow> fst n ! i \<noteq> - 1)"
proof -
  let ?I = "\<lambda>k n. match_ok inputs outputs rows wr n \<and> (\<forall>i < inputs. \<forall>p < k. served rows n i ((pri + p + i) mod outputs))
    \<and> (0 < k \<longrightarrow> (\<forall>i < inputs. rows ! i = Some ((pri + i) mod outputs) \<longrightarrow> fst n ! i \<noteq> - 1)) \<and> (k = 0 \<longrightarrow> n = m)"
  have "\<exists>n. foldM (match_diagonal inputs outputs outputs rows pri) m [0..<outputs] = Some n \<and> ?I outputs n"
  proof (rule foldM_upt_invariant [where I = ?I])
    fix k s assume I: "?I k s"
    from I have M: "match_ok inputs outputs rows wr s" by simp
    from match_diagonal_step [OF M assms(2,3), of pri k] obtain n where
      n: "match_diagonal inputs outputs outputs rows pri s k = Some n" "match_ok inputs outputs rows wr n" "taken_le s n"
        "\<forall>i < inputs. served rows n i ((pri + k + i) mod outputs)"
        "\<forall>i < inputs. rows ! i = Some ((pri + k + i) mod outputs) \<longrightarrow> snd s ! ((pri + k + i) mod outputs) = - 1 \<longrightarrow> fst n ! i \<noteq> - 1"
      by blast
    have len: "length (fst s) = inputs" "length (snd s) = outputs" using M by (auto simp: match_ok_def split: prod.splits)
    have "?I (Suc k) n"
    proof (intro conjI allI impI)
      show "match_ok inputs outputs rows wr n" by (rule n(2))
      show "served rows n i ((pri + p + i) mod outputs)" if "i < inputs" "p < Suc k" for i p
        using that n(4) I served_mono [OF _ n(3)] len assms(2) by (cases "p = k") auto
      show "fst n ! i \<noteq> - 1" if "i < inputs" "rows ! i = Some ((pri + i) mod outputs)" for i
      proof (cases "k = 0")
        case True
        then show ?thesis using n(5) that I assms(2,4) by simp
      next
        case False
        then have "fst s ! i \<noteq> - 1" using I that by simp
        then show ?thesis using n(3) len that by (auto simp: taken_le_def split: prod.splits)
      qed
    qed simp
    with n(1) show "\<exists>s'. match_diagonal inputs outputs outputs rows pri s k = Some s' \<and> ?I (Suc k) s'" by blast
  qed (use assms in simp_all)
  then obtain n where n: "foldM (match_diagonal inputs outputs outputs rows pri) m [0..<outputs] = Some n" "?I outputs n" by blast
  have "served rows n i j" if "i < inputs" "j < outputs" for i j
    using diagonal_covers [OF assms(2) that(2), of pri i] n(2) that by auto
  with n assms(2) show ?thesis by (intro exI [of _ n]) simp
qed

section \<open>The reads that are granted\<close>

definition row_of :: "collector_unit list \<Rightarrow> op_t list \<Rightarrow> nat option" where
  "row_of cus q = (case q of [] \<Rightarrow> None | op # _ \<Rightarrow> get_oc_id cus op)"

definition arb_ok :: "collector_unit list \<Rightarrow> arbiter \<Rightarrow> bool" where
  "arb_ok cus a \<longleftrightarrow> 0 < ar_num_banks a \<and> length (ar_allocated a) = ar_num_banks a \<and> length (ar_queue a) = ar_num_banks a
     \<and> ar_num_collectors a = length cus
     \<and> (\<forall>b < ar_num_banks a. ar_queue a ! b \<noteq> [] \<longrightarrow> (\<exists>c < length cus. row_of cus (ar_queue a ! b) = Some c))"

lemma request_rows:
  assumes "arb_ok cus a"
  shows "foldM (request_row cus a) ([], []) [0..<ar_num_banks a]
    = Some (map (\<lambda>b. row_of cus (ar_queue a ! b)) [0..<ar_num_banks a],
            map (\<lambda>b. if is_write (ar_allocated a ! b) then 0 else - 1) [0..<ar_num_banks a])"
proof -
  let ?I = "\<lambda>k s. s = (map (\<lambda>b. row_of cus (ar_queue a ! b)) [0..<k],
    map (\<lambda>b. if is_write (ar_allocated a ! b) then 0 else - 1 :: int) [0..<k])"
  have "\<exists>s. foldM (request_row cus a) ([], []) [0..<ar_num_banks a] = Some s \<and> ?I (ar_num_banks a) s"
  proof (rule foldM_upt_invariant [where I = ?I])
    fix k s assume k: "k < ar_num_banks a" and s: "?I k s"
    show "\<exists>s'. request_row cus a s k = Some s' \<and> ?I (Suc k) s'"
    proof (cases "ar_queue a ! k")
      case Nil
      then show ?thesis using assms k s by (simp add: request_row_def arb_ok_def row_of_def)
    next
      case (Cons op ops)
      with assms k obtain c where "c < length cus" "get_oc_id cus op = Some c" by (fastforce simp: arb_ok_def row_of_def)
      with Cons show ?thesis using assms k s by (simp add: request_row_def arb_ok_def row_of_def)
    qed
  qed simp_all
  then show ?thesis by blast
qed

definition pop_banks :: "(nat \<Rightarrow> bool) \<Rightarrow> op_t list list \<Rightarrow> op_t list list" where
  "pop_banks G qs = map (\<lambda>b. if G b then tl (qs ! b) else qs ! b) [0..<length qs]"

lemma pop_granted_all:
  assumes "length (ar_allocated a) = nb" "length (ar_queue a) = nb"
    and "\<And>b. b < nb \<Longrightarrow> inm ! b \<noteq> - 1 \<Longrightarrow> \<not> is_write (ar_allocated a ! b) \<Longrightarrow> ar_queue a ! b \<noteq> []"
  defines "G \<equiv> \<lambda>b. inm ! b \<noteq> - 1 \<and> \<not> is_write (ar_allocated a ! b)"
  shows "foldM (pop_granted inm) ([], a) [0..<nb]
    = Some (map (\<lambda>b. hd (ar_queue a ! b)) (filter G [0..<nb]), a\<lparr>ar_queue := pop_banks G (ar_queue a)\<rparr>)"
proof -
  let ?q = "\<lambda>k. map (\<lambda>b. if b < k \<and> G b then tl (ar_queue a ! b) else ar_queue a ! b) [0..<nb]"
  let ?I = "\<lambda>k s. s = (map (\<lambda>b. hd (ar_queue a ! b)) (filter G [0..<k]), a\<lparr>ar_queue := ?q k\<rparr>)"
  have "\<exists>s. foldM (pop_granted inm) ([], a) [0..<nb] = Some s \<and> ?I nb s"
  proof (rule foldM_upt_invariant [where I = ?I])
    have "?q 0 = ar_queue a" using assms(2) by (auto intro: nth_equalityI)
    then show "?I 0 ([], a)" by simp
  next
    fix k s assume k: "k < nb" and s: "?I k s"
    show "\<exists>s'. pop_granted inm s k = Some s' \<and> ?I (Suc k) s'"
    proof (cases "G k")
      case True
      then obtain op ops where q: "ar_queue a ! k = op # ops" using assms(3) [OF k] by (auto simp: G_def neq_Nil_conv)
      have "(?q k)[k := ops] = ?q (Suc k)" using k True q by (auto intro!: nth_equalityI simp: nth_list_update less_Suc_eq)
      with True q k s assms(1,2) show ?thesis by (auto simp: pop_granted_def G_def)
    next
      case False
      then have "?q k = ?q (Suc k)" using k by (auto simp: less_Suc_eq)
      with False k s assms(1,2) show ?thesis by (auto simp: pop_granted_def G_def)
    qed
  qed simp
  moreover have "?q nb = pop_banks G (ar_queue a)" using assms(2) by (simp add: pop_banks_def)
  ultimately show ?thesis by simp
qed

text \<open>What the arbiter promises of the set \<open>G\<close> of granted banks.\<close>

definition grants_ok :: "collector_unit list \<Rightarrow> arbiter \<Rightarrow> (nat \<Rightarrow> bool) \<Rightarrow> bool" where
  "grants_ok cus a G \<longleftrightarrow>
     (\<forall>b < ar_num_banks a. G b \<longrightarrow> \<not> is_write (ar_allocated a ! b) \<and> ar_queue a ! b \<noteq> [])
     \<and> (\<forall>b < ar_num_banks a. \<forall>b' < ar_num_banks a. G b \<longrightarrow> G b' \<longrightarrow>
          row_of cus (ar_queue a ! b) = row_of cus (ar_queue a ! b') \<longrightarrow> b = b')
     \<and> (\<forall>b < ar_num_banks a. \<not> is_write (ar_allocated a ! b) \<longrightarrow> ar_queue a ! b \<noteq> [] \<longrightarrow> \<not> G b \<longrightarrow>
          (\<exists>b' < ar_num_banks a. G b' \<and> row_of cus (ar_queue a ! b') = row_of cus (ar_queue a ! b)))
     \<and> (\<forall>b < ar_num_banks a. \<not> is_write (ar_allocated a ! b) \<longrightarrow>
          row_of cus (ar_queue a ! b) = Some ((ar_last_cu a + b) mod length cus) \<longrightarrow> G b)"

lemma arbiter_grants:
  assumes ok: "arb_ok cus a" and banks: "ar_num_banks a \<le> length cus"
  shows "\<exists>G. grants_ok cus a G
    \<and> arbiter_allocate_reads cus a =
        Some (map (\<lambda>b. hd (ar_queue a ! b)) (filter G [0..<ar_num_banks a]),
              a\<lparr>ar_last_cu := (ar_last_cu a + 1) mod length cus, ar_queue := pop_banks G (ar_queue a)\<rparr>)"
proof -
  let ?nb = "ar_num_banks a" and ?nc = "length cus"
  let ?wr = "\<lambda>b. is_write (ar_allocated a ! b)"
  let ?row = "\<lambda>b. row_of cus (ar_queue a ! b)"
  let ?rows = "map ?row [0..<?nb]"
  let ?inm = "map (\<lambda>b. if ?wr b then 0 else - 1 :: int) [0..<?nb]"
  let ?m = "(?inm, replicate ?nc (- 1 :: int))"
  have "0 < ?nb" using ok by (simp add: arb_ok_def)
  with banks have nc: "0 < ?nc" by linarith
  have "match_ok ?nb ?nc ?rows ?wr ?m" by (simp add: match_ok_def)
  from match_all [OF this nc banks, of "ar_last_cu a"] obtain n where
    n: "foldM (match_diagonal ?nb ?nc ?nc ?rows (ar_last_cu a)) ?m [0..<?nc] = Some n" "match_ok ?nb ?nc ?rows ?wr n"
      "\<forall>i < ?nb. \<forall>j < ?nc. served ?rows n i j"
      "\<forall>i < ?nb. ?rows ! i = Some ((ar_last_cu a + i) mod ?nc) \<longrightarrow> fst n ! i \<noteq> - 1" by auto
  obtain inm outm where nn: "n = (inm, outm)" by fastforce
  define G where "G b = (inm ! b \<noteq> - 1 \<and> \<not> ?wr b)" for b
  have G: "\<exists>j < ?nc. ?row b = Some j \<and> inm ! b = int j \<and> outm ! j = int b" if "b < ?nb" "G b" for b
    using n(2) nn that by (auto simp: match_ok_def G_def)
  have ne: "ar_queue a ! b \<noteq> []" if "b < ?nb" "G b" for b
    using G [OF that] by (auto simp: row_of_def)
  have "grants_ok cus a G"
    unfolding grants_ok_def
  proof (intro conjI allI impI)
    show "\<not> ?wr b" "ar_queue a ! b \<noteq> []" if "b < ?nb" "G b" for b using that ne by (simp_all add: G_def)
    show "b = b'" if "b < ?nb" "b' < ?nb" "G b" "G b'" "?row b = ?row b'" for b b'
      using G [OF that(1,3)] G [OF that(2,4)] that(5) by auto
    show "\<exists>b' < ?nb. G b' \<and> ?row b' = ?row b" if b: "b < ?nb" "\<not> ?wr b" "ar_queue a ! b \<noteq> []" "\<not> G b" for b
    proof -
      from b ok obtain c where c: "c < ?nc" "?row b = Some c" by (auto simp: arb_ok_def)
      have "inm ! b = - 1" using b by (simp add: G_def)
      with n(3) nn b(1) c have "outm ! c \<noteq> - 1" by (auto simp: served_def)
      with n(2) nn c(1) obtain i where i: "i < ?nb" "\<not> ?wr i" "outm ! c = int i" "inm ! i = int c"
        by (auto simp: match_ok_def)
      then have "G i" by (simp add: G_def)
      with G [OF i(1) this] i c(2) show ?thesis by auto
    qed
    show "G b" if "b < ?nb" "\<not> ?wr b" "?row b = Some ((ar_last_cu a + b) mod ?nc)" for b
      using n(4) nn that by (simp add: G_def)
  qed
  moreover have "arbiter_allocate_reads cus a =
      Some (map (\<lambda>b. hd (ar_queue a ! b)) (filter G [0..<?nb]),
            a\<lparr>ar_last_cu := (ar_last_cu a + 1) mod ?nc, ar_queue := pop_banks G (ar_queue a)\<rparr>)"
  proof -
    let ?a = "a\<lparr>ar_last_cu := (ar_last_cu a + 1) mod ?nc\<rparr>"
    have "foldM (pop_granted inm) ([], ?a) [0..<?nb]
        = Some (map (\<lambda>b. hd (ar_queue a ! b)) (filter G [0..<?nb]), ?a\<lparr>ar_queue := pop_banks G (ar_queue a)\<rparr>)"
      using pop_granted_all [of ?a ?nb inm] ok ne by (simp add: arb_ok_def G_def [abs_def])
    moreover have "ar_num_collectors a = ?nc" "\<not> ?nc < ?nb" using ok banks by (simp_all add: arb_ok_def)
    ultimately show ?thesis
      using n(1) nn nc by (simp add: arbiter_allocate_reads_def request_rows [OF ok] Let_def)
  qed
  ultimately show ?thesis by blast
qed

end
