(* ===== verification/Oc_Ok.thy ===== *)
theory Oc_Ok
  imports Oc_Arbiter "HOL-Library.Multiset"
begin

text \<open>
  The invariant of the operand collectors and its preservation by every operation: the queues of the banks hold exactly the
  operands the collector units wait for, each once and in its bank; and no operation fails, loses or doubles an instruction.
\<close>

section \<open>The invariant\<close>

definition op_key :: "op_t \<Rightarrow> nat option \<times> nat" where
  "op_key op = (op_cu op, op_operand op)"

definition missing :: "collector_unit list \<Rightarrow> (nat option \<times> nat) set" where
  "missing cus = {(Some c, o') | c o'. c < length cus \<and> o' \<in> cu_not_ready (cus ! c)}"

definition pending :: "arbiter \<Rightarrow> (nat option \<times> nat) multiset" where
  "pending a = mset (map op_key (concat (ar_queue a)))"

definition unit_ok :: "nat \<Rightarrow> collector_unit \<Rightarrow> bool" where
  "unit_ok c cu \<longleftrightarrow> cu_cuid cu = c \<and> length (cu_src_op cu) = MAX_REG_OPERANDS * 2 \<and> cu_not_ready cu \<subseteq> {..<MAX_REG_OPERANDS}
     \<and> (if cu_free cu
        then cu_not_ready cu = {} \<and> pi_empty (cu_warp cu) \<and> (\<forall>op \<in> set (cu_src_op cu). \<not> op_valid op)
        else cu_output cu \<noteq> None \<and> \<not> pi_empty (cu_warp cu))"

definition request_ok :: "opndcoll \<Rightarrow> nat \<Rightarrow> op_t \<Rightarrow> bool" where
  "request_ok rf b e \<longleftrightarrow> op_valid e \<and> op_warp e = None \<and> op_bank e = b
     \<and> (\<exists>c < length (rf_cu rf). op_cu e = Some c
          \<and> b = register_bank (op_register e) (cu_warp_id (rf_cu rf ! c)) (rf_num_banks rf) (rf_bank_warp_shift rf))"

text \<open>What never changes, and the invariant. \<open>R\<close> are operands that are granted and not yet collected.\<close>

definition shape_ok :: "opndcoll \<Rightarrow> bool" where
  "shape_ok rf \<longleftrightarrow> 0 < rf_num_banks rf \<and> rf_num_banks rf \<le> length (rf_cu rf)
     \<and> ar_num_banks (rf_arbiter rf) = rf_num_banks rf \<and> ar_num_collectors (rf_arbiter rf) = length (rf_cu rf)
     \<and> length (ar_allocated (rf_arbiter rf)) = rf_num_banks rf \<and> length (ar_queue (rf_arbiter rf)) = rf_num_banks rf
     \<and> (\<forall>k. set (rf_cus rf k) \<subseteq> {..<length (rf_cu rf)})
     \<and> (\<forall>du \<in> set (rf_dispatch_units rf). du_num_collectors du = length (rf_cus rf (du_cus du)))
     \<and> (\<forall>p \<in> set (rf_in_ports rf). length (ip_in p) = length (ip_out p))"

definition oc_inv :: "(nat option \<times> nat) multiset \<Rightarrow> opndcoll \<Rightarrow> bool" where
  "oc_inv R rf \<longleftrightarrow> shape_ok rf
     \<and> (\<forall>c < length (rf_cu rf). unit_ok c (rf_cu rf ! c))
     \<and> (\<forall>b < rf_num_banks rf. \<forall>e \<in> set (ar_queue (rf_arbiter rf) ! b). request_ok rf b e)
     \<and> pending (rf_arbiter rf) + R = mset_set (missing (rf_cu rf))"

definition no_reads :: "opndcoll \<Rightarrow> bool" where
  "no_reads rf \<longleftrightarrow> (\<forall>x \<in> set (ar_allocated (rf_arbiter rf)). x = NO_ALLOC \<or> is_write x)"

definition oc_ok :: "opndcoll \<Rightarrow> bool" where
  "oc_ok rf \<longleftrightarrow> oc_inv {#} rf \<and> no_reads rf"

lemma finite_missing: "\<forall>c < length cus. unit_ok c (cus ! c) \<Longrightarrow> finite (missing cus)"
proof -
  assume u: "\<forall>c < length cus. unit_ok c (cus ! c)"
  have "missing cus \<subseteq> (\<lambda>(c, o'). (Some c, o')) ` ({..<length cus} \<times> {..<MAX_REG_OPERANDS})"
    using u by (fastforce simp: missing_def unit_ok_def)
  then show ?thesis by (rule finite_subset) simp
qed

lemma missing_upd: "c < length cus \<Longrightarrow>
    missing (cus[c := cu]) = {k \<in> missing cus. fst k \<noteq> Some c} \<union> Pair (Some c) ` cu_not_ready cu"
  by (auto simp: missing_def nth_list_update)

lemma missing_upd_same: "c < length cus \<Longrightarrow> cu_not_ready cu = cu_not_ready (cus ! c) \<Longrightarrow> missing (cus[c := cu]) = missing cus"
  by (auto simp: missing_def nth_list_update split: if_splits)

text \<open>The instructions in a set of registers, in all of them and in the collector units.\<close>

definition live :: "oc_inst list \<Rightarrow> oc_inst multiset" where
  "live rs = filter_mset (\<lambda>p. \<not> pi_empty p) (mset rs)"

definition in_regs :: "pipeline_regs \<Rightarrow> oc_inst multiset" where
  "in_regs regs = live (regs ID_OC_SP) + live (regs ID_OC_SFU) + live (regs ID_OC_MEM)
     + live (regs OC_EX_SP) + live (regs OC_EX_SFU) + live (regs OC_EX_MEM) + live (regs EX_WB)"

definition held :: "collector_unit list \<Rightarrow> oc_inst multiset" where
  "held cus = image_mset cu_warp (filter_mset (\<lambda>u. \<not> cu_free u) (mset cus))"

definition insts :: "opndcoll \<times> pipeline_regs \<Rightarrow> oc_inst multiset" where
  "insts = (\<lambda>(rf, regs). in_regs regs + held (rf_cu rf))"

lemma live_upd:
  assumes "i < length rs"
  shows "live (rs[i := x]) + (if pi_empty (rs ! i) then {#} else {#rs ! i#}) = live rs + (if pi_empty x then {#} else {#x#})"
proof -
  define M where "M = mset rs - {#rs ! i#}"
  have "mset rs = add_mset (rs ! i) M" "mset (rs[i := x]) = add_mset x M" using assms by (simp_all add: M_def mset_update)
  then show ?thesis by (simp add: live_def)
qed

lemma in_regs_upd: "in_regs (regs(s := x)) + live (regs s) = in_regs regs + live x"
  by (cases s) (simp_all add: in_regs_def ac_simps)

lemma held_upd:
  assumes "c < length cus"
  shows "held (cus[c := u]) + (if cu_free (cus ! c) then {#} else {#cu_warp (cus ! c)#})
    = held cus + (if cu_free u then {#} else {#cu_warp u#})"
proof -
  define M where "M = mset cus - {#cus ! c#}"
  have "mset cus = add_mset (cus ! c) M" "mset (cus[c := u]) = add_mset u M" using assms by (simp_all add: M_def mset_update)
  then show ?thesis by (simp add: held_def)
qed

section \<open>Dispatching\<close>

lemma oc_inv_upd_cu:
  assumes "oc_inv R rf" "c < length (rf_cu rf)" "unit_ok c cu" "cu_not_ready cu = cu_not_ready (rf_cu rf ! c)"
    "cu_warp_id cu = cu_warp_id (rf_cu rf ! c)"
  shows "oc_inv R (upd_cu c cu rf)"
proof -
  have w: "cu_warp_id ((rf_cu rf)[c := cu] ! d) = cu_warp_id (rf_cu rf ! d)" for d
    using assms(2,5) by (cases "d = c") simp_all
  have "request_ok (upd_cu c cu rf) b e = request_ok rf b e" for b e
    by (simp add: request_ok_def upd_cu_def w)
  moreover have "shape_ok (upd_cu c cu rf) = shape_ok rf" by (simp add: shape_ok_def upd_cu_def)
  moreover have "\<forall>d < length (rf_cu rf). unit_ok d ((rf_cu rf)[c := cu] ! d)"
    using assms(1-3) by (auto simp: oc_inv_def nth_list_update)
  ultimately show ?thesis
    using assms(1) missing_upd_same [OF assms(2,4)] by (simp add: oc_inv_def upd_cu_def)
qed

lemma oc_inv_dus:
  "oc_inv R rf \<Longrightarrow> \<forall>du \<in> set dus. du_num_collectors du = length (rf_cus rf (du_cus du)) \<Longrightarrow> oc_inv R (rf\<lparr>rf_dispatch_units := dus\<rparr>)"
  by (simp add: oc_inv_def shape_ok_def request_ok_def)

lemma move_in_ok:
  assumes "has_free (regs s)" "\<not> pi_empty w"
  shows "\<exists>w' rs. move_in w (regs s) = Some (w', rs) \<and> pi_empty w' \<and> in_regs (regs(s := rs)) = in_regs regs + {#w#}"
proof -
  from get_free_has [OF assms(1)] obtain i where i: "i < length (regs s)" "get_free (regs s) = Some i" "pi_empty (regs s ! i)" by blast
  have "live ((regs s)[i := w]) = live (regs s) + {#w#}" using live_upd [OF i(1), of w] i(3) assms(2) by simp
  then have "in_regs (regs(s := (regs s)[i := w])) = in_regs regs + {#w#}"
    using in_regs_upd [of regs s "(regs s)[i := w]"] by simp
  then show ?thesis using i by (simp add: move_in_def move_warp_def clear_def)
qed

lemma cu_dispatch_ok:
  assumes "unit_ok c cu" "\<not> cu_free cu" "cu_not_ready cu = {}" "cu_output cu = Some out" "has_free (regs out)"
  shows "\<exists>cu' regs'. cu_dispatch cu regs = Some (cu', regs') \<and> unit_ok c cu' \<and> cu_free cu' \<and> cu_not_ready cu' = {}
    \<and> cu_warp_id cu' = cu_warp_id cu \<and> in_regs regs' = in_regs regs + {#cu_warp cu#}"
proof -
  have "\<not> pi_empty (cu_warp cu)" using assms(1,2) by (simp add: unit_ok_def)
  from move_in_ok [of regs out, OF assms(5) this] obtain w rs where
    "move_in (cu_warp cu) (regs out) = Some (w, rs)" "pi_empty w" "in_regs (regs(out := rs)) = in_regs regs + {#cu_warp cu#}" by blast
  then show ?thesis using assms by (auto simp: cu_dispatch_def unit_ok_def)
qed

lemma find_ready_from_ok:
  assumes "oc_inv R rf" "du_num_collectors du = length (rf_cus rf (du_cus du))" "\<forall>n \<in> set ns. n < du_num_collectors du"
  shows "ok (\<lambda>(found, du'). du_num_collectors du' = du_num_collectors du \<and> du_cus du' = du_cus du
      \<and> (\<forall>i. found = Some i \<longrightarrow> i < length (rf_cu rf) \<and> cu_ready regs (rf_cu rf ! i) = Some True))
    (find_ready_from rf regs du ns)"
  using assms(3)
proof (induction ns)
  case Nil
  then show ?case by simp
next
  case (Cons n ns)
  let ?c = "(du_last_cu du + n + 1) mod du_num_collectors du"
  from Cons.prems have "0 < du_num_collectors du" by auto
  then have c: "?c < length (rf_cus rf (du_cus du))" using assms(2) by simp
  have "set (rf_cus rf (du_cus du)) \<subseteq> {..<length (rf_cu rf)}" using assms(1) by (simp add: oc_inv_def shape_ok_def)
  with nth_mem [OF c] have i: "rf_cus rf (du_cus du) ! ?c < length (rf_cu rf)" by auto
  then have "unit_ok (rf_cus rf (du_cus du) ! ?c) (rf_cu rf ! (rf_cus rf (du_cus du) ! ?c))" using assms(1) by (simp add: oc_inv_def)
  then have "\<exists>r. cu_ready regs (rf_cu rf ! (rf_cus rf (du_cus du) ! ?c)) = Some r" by (auto simp: cu_ready_def unit_ok_def)
  then obtain r where "cu_ready regs (rf_cu rf ! (rf_cus rf (du_cus du) ! ?c)) = Some r" by blast
  with Cons c i show ?case by (cases r) (simp_all add: Let_def)
qed

text \<open>What a part of a step leaves alone.\<close>

definition same_shape :: "opndcoll \<Rightarrow> opndcoll \<Rightarrow> bool" where
  "same_shape rf rf' \<longleftrightarrow> rf_num_banks rf' = rf_num_banks rf \<and> rf_bank_warp_shift rf' = rf_bank_warp_shift rf
     \<and> rf_cus rf' = rf_cus rf \<and> rf_in_ports rf' = rf_in_ports rf
     \<and> length (rf_dispatch_units rf') = length (rf_dispatch_units rf) \<and> length (rf_cu rf') = length (rf_cu rf)"

lemma same_shape_refl [simp]: "same_shape rf rf"
  by (simp add: same_shape_def)

lemma same_shape_trans: "same_shape a b \<Longrightarrow> same_shape b c \<Longrightarrow> same_shape a c"
  by (simp add: same_shape_def)

lemma dispatch_step_ok:
  assumes "oc_inv R rf" "p < length (rf_dispatch_units rf)"
  shows "ok (\<lambda>(rf', regs'). oc_inv R rf' \<and> insts (rf', regs') = insts (rf, regs) \<and> rf_arbiter rf' = rf_arbiter rf
    \<and> missing (rf_cu rf') = missing (rf_cu rf) \<and> same_shape rf rf') (dispatch_step (rf, regs) p)"
proof -
  let ?du = "rf_dispatch_units rf ! p"
  have du: "du_num_collectors ?du = length (rf_cus rf (du_cus ?du))"
    using assms by (auto simp: oc_inv_def shape_ok_def)
  from find_ready_from_ok [OF assms(1) du, of "[0..<du_num_collectors ?du]" regs] obtain found du' where
    f: "find_ready rf regs ?du = Some (found, du')" "du_num_collectors du' = du_num_collectors ?du" "du_cus du' = du_cus ?du"
      "\<forall>i. found = Some i \<longrightarrow> i < length (rf_cu rf) \<and> cu_ready regs (rf_cu rf ! i) = Some True"
    by (auto simp: ok_def find_ready_def)
  let ?rf = "rf\<lparr>rf_dispatch_units := (rf_dispatch_units rf)[p := du']\<rparr>"
  have inv: "oc_inv R ?rf"
  proof (rule oc_inv_dus [OF assms(1)], rule ballI)
    fix du assume "du \<in> set ((rf_dispatch_units rf)[p := du'])"
    then have "du = du' \<or> du \<in> set (rf_dispatch_units rf)" using set_update_subset_insert by fastforce
    then show "du_num_collectors du = length (rf_cus rf (du_cus du))"
      using f(2,3) du assms(1) by (auto simp: oc_inv_def shape_ok_def)
  qed
  show ?thesis
  proof (cases found)
    case None
    then show ?thesis using f(1) assms(2) inv by (simp add: dispatch_step_def same_shape_def insts_def)
  next
    case (Some i)
    then have i: "i < length (rf_cu rf)" "cu_ready regs (rf_cu rf ! i) = Some True" using f(4) by simp_all
    then obtain out where r: "\<not> cu_free (rf_cu rf ! i)" "cu_not_ready (rf_cu rf ! i) = {}" "cu_output (rf_cu rf ! i) = Some out"
      "has_free (regs out)" by (auto simp: cu_ready_def bind_eq_Some_conv split: if_splits)
    have "unit_ok i (rf_cu rf ! i)" using assms(1) i(1) by (simp add: oc_inv_def)
    from cu_dispatch_ok [where regs = regs, OF this r] obtain cu' regs' where
      d: "cu_dispatch (rf_cu rf ! i) regs = Some (cu', regs')" "unit_ok i cu'" "cu_free cu'" "cu_not_ready cu' = {}"
        "cu_warp_id cu' = cu_warp_id (rf_cu rf ! i)" "in_regs regs' = in_regs regs + {#cu_warp (rf_cu rf ! i)#}" by blast
    have inv': "oc_inv R (upd_cu i cu' ?rf)"
      by (rule oc_inv_upd_cu [OF inv]) (use i d r in simp_all)
    have "held ((rf_cu rf)[i := cu']) + {#cu_warp (rf_cu rf ! i)#} = held (rf_cu rf)"
      using held_upd [OF i(1), of cu'] d(3) r(1) by simp
    then have "insts (upd_cu i cu' ?rf, regs') = insts (rf, regs)"
      using d(6) by (simp add: insts_def upd_cu_def)
    moreover have "missing ((rf_cu rf)[i := cu']) = missing (rf_cu rf)"
      by (rule missing_upd_same) (use i d r in simp_all)
    ultimately show ?thesis
      using Some f(1) assms(2) i(1) d(1) inv' by (simp add: dispatch_step_def same_shape_def upd_cu_def)
  qed
qed

lemma dispatch_ready_cu_ok:
  assumes "oc_inv R rf"
  shows "ok (\<lambda>(rf', regs'). oc_inv R rf' \<and> insts (rf', regs') = insts (rf, regs) \<and> rf_arbiter rf' = rf_arbiter rf
    \<and> missing (rf_cu rf') = missing (rf_cu rf) \<and> same_shape rf rf') (dispatch_ready_cu rf regs)"
  unfolding dispatch_ready_cu_def
proof (rule ok_foldM)
  fix s p assume p: "p \<in> set [0..<length (rf_dispatch_units rf)]"
    and I: "case s of (rf', regs') \<Rightarrow> oc_inv R rf' \<and> insts (rf', regs') = insts (rf, regs) \<and> rf_arbiter rf' = rf_arbiter rf
      \<and> missing (rf_cu rf') = missing (rf_cu rf) \<and> same_shape rf rf'"
  obtain rf1 regs1 where s: "s = (rf1, regs1)" by fastforce
  have "p < length (rf_dispatch_units rf1)" using p I s by (simp add: same_shape_def)
  with I s have *: "oc_inv R rf1" "p < length (rf_dispatch_units rf1)" by simp_all
  show "ok (\<lambda>(rf', regs'). oc_inv R rf' \<and> insts (rf', regs') = insts (rf, regs) \<and> rf_arbiter rf' = rf_arbiter rf
      \<and> missing (rf_cu rf') = missing (rf_cu rf) \<and> same_shape rf rf') (dispatch_step s p)"
    unfolding s by (rule ok_mono [OF dispatch_step_ok [OF *]]) (use I s in \<open>auto intro: same_shape_trans\<close>)
qed (use assms in simp)

section \<open>Reading\<close>

lemma omap_put_last: "\<forall>x \<in> set m. fst x < k \<Longrightarrow> omap_put k v m = m @ [(k :: nat, v)]"
  by (induction m) auto

definition mark_reads :: "(nat \<Rightarrow> op_t) \<Rightarrow> nat list \<Rightarrow> allocation list \<Rightarrow> allocation list" where
  "mark_reads f gs al = foldl (\<lambda>al b. al[b := READ_ALLOC (f b)]) al gs"

lemma grant_reads:
  assumes "sorted_wrt (<) gs" "\<forall>b \<in> set gs. b < ar_num_banks a \<and> ar_allocated a ! b = NO_ALLOC" "length (ar_allocated a) = ar_num_banks a"
    and "\<forall>b \<in> set gs. op_valid (f b) \<and> (\<exists>w. get_wid (rf_cu rf) (f b) = Some w
      \<and> register_bank (op_register (f b)) w (rf_num_banks rf) (rf_bank_warp_shift rf) = b)"
    and "\<forall>x \<in> set ro. \<forall>b \<in> set gs. fst x < b"
  shows "foldM (grant_read rf) (a, ro) (map f gs)
    = Some (a\<lparr>ar_allocated := mark_reads f gs (ar_allocated a)\<rparr>, ro @ map (\<lambda>b. (b, f b)) gs)"
  using assms
proof (induction gs arbitrary: a ro)
  case Nil
  then show ?case by (simp add: mark_reads_def)
next
  case (Cons b gs)
  let ?a = "a\<lparr>ar_allocated := (ar_allocated a)[b := READ_ALLOC (f b)]\<rparr>"
  from Cons.prems obtain w where w: "get_wid (rf_cu rf) (f b) = Some w"
    "register_bank (op_register (f b)) w (rf_num_banks rf) (rf_bank_warp_shift rf) = b" "op_valid (f b)" by auto
  have "omap_put b (f b) ro = ro @ [(b, f b)]" using Cons.prems(5) by (intro omap_put_last) simp
  then have "grant_read rf (a, ro) (f b) = Some (?a, ro @ [(b, f b)])"
    using w Cons.prems(2,3) by (simp add: grant_read_def get_reg_def allocate_for_read_def allocate_bank_def)
  moreover have "foldM (grant_read rf) (?a, ro @ [(b, f b)]) (map f gs)
    = Some (?a\<lparr>ar_allocated := mark_reads f gs (ar_allocated ?a)\<rparr>, (ro @ [(b, f b)]) @ map (\<lambda>b. (b, f b)) gs)"
    by (rule Cons.IH) (use Cons.prems in \<open>auto simp: nth_list_update\<close>)
  ultimately show ?case by (simp add: mark_reads_def)
qed

text \<open>Collecting the operands of \<open>rs\<close>.\<close>

lemma collect_reads:
  assumes "oc_inv (R + mset (map op_key (map snd rs))) rf"
    and "\<forall>x \<in> set rs. op_key (snd x) \<in> missing (rf_cu rf)" "distinct (map (op_key \<circ> snd) rs)"
  shows "ok (\<lambda>rf'. oc_inv R rf' \<and> held (rf_cu rf') = held (rf_cu rf) \<and> rf_arbiter rf' = rf_arbiter rf \<and> same_shape rf rf'
    \<and> map cu_free (rf_cu rf') = map cu_free (rf_cu rf)
    \<and> missing (rf_cu rf') = missing (rf_cu rf) - op_key ` snd ` set rs) (foldM collect_read rf rs)"
  using assms
proof (induction rs arbitrary: rf)
  case Nil
  then show ?case by simp
next
  case (Cons x rs)
  obtain b op where x: "x = (b, op)" by fastforce
  from Cons.prems(2) x obtain c where c: "op_cu op = Some c" "c < length (rf_cu rf)" "op_operand op \<in> cu_not_ready (rf_cu rf ! c)"
    by (auto simp: missing_def op_key_def)
  let ?u = "rf_cu rf ! c"
  let ?u' = "?u\<lparr>cu_not_ready := cu_not_ready ?u - {op_operand op}\<rparr>"
  let ?rf = "upd_cu c ?u' rf"
  have u: "unit_ok c ?u" using Cons.prems(1) c(2) by (simp add: oc_inv_def)
  have op: "op_operand op < MAX_REG_OPERANDS * 2" using u c(3) by (auto simp: unit_ok_def)
  have step: "collect_read rf x = Some ?rf"
    using c u op x by (simp add: collect_read_def get_oc_id_def collect_operand_def unit_ok_def)
  have cus: "rf_cu ?rf = (rf_cu rf)[c := ?u']" by (simp add: upd_cu_def)
  have miss: "missing (rf_cu ?rf) = missing (rf_cu rf) - {op_key op}"
    unfolding cus missing_upd [OF c(2)] using c by (auto simp: missing_def op_key_def)
  have fin: "finite (missing (rf_cu rf))" using Cons.prems(1) by (intro finite_missing) (simp add: oc_inv_def)
  have u': "unit_ok c ?u'" using u c(3) by (auto simp: unit_ok_def)
  have inv: "oc_inv (R + mset (map op_key (map snd rs))) ?rf"
  proof -
    have w: "cu_warp_id (rf_cu ?rf ! d) = cu_warp_id (rf_cu rf ! d)" for d using c(2) by (cases "d = c") (simp_all add: upd_cu_def)
    have "request_ok ?rf b e = request_ok rf b e" for b e by (simp add: request_ok_def w) (simp add: upd_cu_def)
    moreover have "shape_ok ?rf = shape_ok rf" by (simp add: shape_ok_def upd_cu_def)
    moreover have "\<forall>d < length (rf_cu rf). unit_ok d (rf_cu ?rf ! d)"
      using Cons.prems(1) c(2) u' by (auto simp: oc_inv_def nth_list_update upd_cu_def)
    moreover have "pending (rf_arbiter rf) + (R + mset (map op_key (map snd rs))) = mset_set (missing (rf_cu ?rf))"
    proof -
      have "op_key op \<in> missing (rf_cu rf)" using Cons.prems(2) x by simp
      then have "mset_set (missing (rf_cu rf)) = add_mset (op_key op) (mset_set (missing (rf_cu ?rf)))"
        using fin unfolding miss by (simp add: mset_set.remove)
      with Cons.prems(1) x show ?thesis by (simp add: oc_inv_def)
    qed
    ultimately show ?thesis using Cons.prems(1) by (simp add: oc_inv_def upd_cu_def)
  qed
  have "held (rf_cu ?rf) = held (rf_cu rf)"
    using held_upd [OF c(2), of ?u'] by (simp add: upd_cu_def split: if_splits)
  moreover have "same_shape rf ?rf" "rf_arbiter ?rf = rf_arbiter rf" by (simp_all add: same_shape_def upd_cu_def)
  moreover have "map cu_free (rf_cu ?rf) = map cu_free (rf_cu rf)"
    unfolding cus using c(2) by (simp add: map_update list_update_same_conv)
  moreover have "ok (\<lambda>rf'. oc_inv R rf' \<and> held (rf_cu rf') = held (rf_cu ?rf) \<and> rf_arbiter rf' = rf_arbiter ?rf \<and> same_shape ?rf rf'
    \<and> map cu_free (rf_cu rf') = map cu_free (rf_cu ?rf)
    \<and> missing (rf_cu rf') = missing (rf_cu ?rf) - op_key ` snd ` set rs) (foldM collect_read ?rf rs)"
    by (rule Cons.IH [OF inv]) (use Cons.prems(2,3) x miss in \<open>auto simp: image_iff\<close>)
  ultimately show ?case
    unfolding foldM.simps step bind.bind_lunit
    by (elim ok_mono) (use miss x in \<open>auto intro: same_shape_trans\<close>)
qed

lemma pop_banks_concat:
  assumes "\<forall>b < length qs. G b \<longrightarrow> qs ! b \<noteq> []"
  shows "mset (concat qs) = mset (concat (pop_banks G qs)) + mset (map (\<lambda>b. hd (qs ! b)) (filter G [0..<length qs]))"
proof -
  have "mset (concat (map ((!) qs) bs)) = mset (concat (map (\<lambda>b. if G b then tl (qs ! b) else qs ! b) bs))
      + mset (map (\<lambda>b. hd (qs ! b)) (filter G bs))" if "\<forall>b \<in> set bs. G b \<longrightarrow> qs ! b \<noteq> []" for bs
    using that
  proof (induction bs)
    case Nil
    then show ?case by simp
  next
    case (Cons b bs)
    have "mset (qs ! b) = add_mset (hd (qs ! b)) (mset (tl (qs ! b)))" if "G b"
      using that Cons.prems by (cases "qs ! b") auto
    with Cons show ?case by simp
  qed
  from this [of "[0..<length qs]"] assms show ?thesis by (simp add: map_nth pop_banks_def)
qed

lemma arb_ok_inv:
  assumes "oc_inv R rf"
  shows "arb_ok (rf_cu rf) (rf_arbiter rf)"
proof -
  have "\<exists>c < length (rf_cu rf). row_of (rf_cu rf) (ar_queue (rf_arbiter rf) ! b) = Some c"
    if b: "b < rf_num_banks rf" "ar_queue (rf_arbiter rf) ! b \<noteq> []" for b
  proof -
    obtain e es where q: "ar_queue (rf_arbiter rf) ! b = e # es" using b(2) by (auto simp: neq_Nil_conv)
    then have "request_ok rf b e" using assms b(1) by (simp add: oc_inv_def)
    then obtain c where c: "c < length (rf_cu rf)" "op_cu e = Some c" by (auto simp: request_ok_def)
    then have "cu_cuid (rf_cu rf ! c) = c" using assms by (simp add: oc_inv_def unit_ok_def)
    with c q show ?thesis by (simp add: row_of_def get_oc_id_def)
  qed
  then show ?thesis using assms by (auto simp: arb_ok_def oc_inv_def shape_ok_def)
qed

definition granted_ops :: "opndcoll \<Rightarrow> (nat \<Rightarrow> bool) \<Rightarrow> op_t list" where
  "granted_ops rf G = map (\<lambda>b. hd (ar_queue (rf_arbiter rf) ! b)) (filter G [0..<rf_num_banks rf])"

text \<open>The requests that are granted: each from its own collector unit, each an operand that was missing.\<close>

lemma granted_distinct:
  assumes "oc_inv R rf" "grants_ok (rf_cu rf) (rf_arbiter rf) G"
  shows "distinct (map op_key (granted_ops rf G))"
proof -
  let ?q = "ar_queue (rf_arbiter rf)"
  have nb: "ar_num_banks (rf_arbiter rf) = rf_num_banks rf" using assms(1) by (simp add: oc_inv_def shape_ok_def)
  have "inj_on (\<lambda>b. op_key (hd (?q ! b))) (set (filter G [0..<rf_num_banks rf]))"
  proof (rule inj_onI)
    fix b b' assume b: "b \<in> set (filter G [0..<rf_num_banks rf])" "b' \<in> set (filter G [0..<rf_num_banks rf])"
      and eq: "op_key (hd (?q ! b)) = op_key (hd (?q ! b'))"
    have "?q ! b \<noteq> []" "?q ! b' \<noteq> []" using b assms(2) nb by (simp_all add: grants_ok_def)
    then have "row_of (rf_cu rf) (?q ! b) = row_of (rf_cu rf) (?q ! b')"
      using eq by (auto simp: row_of_def get_oc_id_def op_key_def neq_Nil_conv)
    then show "b = b'" using assms(2) b nb by (simp add: grants_ok_def)
  qed
  then show ?thesis by (simp add: granted_ops_def distinct_map comp_def)
qed

lemma granted_request:
  assumes "oc_inv R rf" "grants_ok (rf_cu rf) (rf_arbiter rf) G" "b < rf_num_banks rf" "G b"
  shows "request_ok rf b (hd (ar_queue (rf_arbiter rf) ! b))" and "ar_queue (rf_arbiter rf) ! b \<noteq> []"
    and "\<not> is_write (ar_allocated (rf_arbiter rf) ! b)"
proof -
  have "ar_num_banks (rf_arbiter rf) = rf_num_banks rf" using assms(1) by (simp add: oc_inv_def shape_ok_def)
  with assms(2-4) show *: "ar_queue (rf_arbiter rf) ! b \<noteq> []" "\<not> is_write (ar_allocated (rf_arbiter rf) ! b)"
    by (simp_all add: grants_ok_def)
  with assms(1,3) show "request_ok rf b (hd (ar_queue (rf_arbiter rf) ! b))" by (simp add: oc_inv_def)
qed

lemma allocate_reads_ok:
  assumes "oc_inv {#} rf" "no_reads rf"
  shows "\<exists>G. grants_ok (rf_cu rf) (rf_arbiter rf) G \<and> ok (\<lambda>rf'. oc_inv {#} rf' \<and> held (rf_cu rf') = held (rf_cu rf) \<and> same_shape rf rf'
    \<and> ar_queue (rf_arbiter rf') = pop_banks G (ar_queue (rf_arbiter rf))
    \<and> map cu_free (rf_cu rf') = map cu_free (rf_cu rf)
    \<and> ar_last_cu (rf_arbiter rf') = (ar_last_cu (rf_arbiter rf) + 1) mod length (rf_cu rf)
    \<and> missing (rf_cu rf') = missing (rf_cu rf) - op_key ` set (granted_ops rf G)) (allocate_reads rf)"
proof -
  let ?a = "rf_arbiter rf" and ?q = "ar_queue (rf_arbiter rf)" and ?nb = "rf_num_banks rf"
  have shape: "ar_num_banks ?a = ?nb" "?nb \<le> length (rf_cu rf)" "length ?q = ?nb" "length (ar_allocated ?a) = ?nb"
    using assms(1) by (simp_all add: oc_inv_def shape_ok_def)
  have nb: "ar_num_banks ?a \<le> length (rf_cu rf)" using shape by simp
  from arbiter_grants [OF arb_ok_inv [OF assms(1)] nb] obtain G where G: "grants_ok (rf_cu rf) ?a G"
    and reads: "arbiter_allocate_reads (rf_cu rf) ?a = Some (granted_ops rf G,
      ?a\<lparr>ar_last_cu := (ar_last_cu ?a + 1) mod length (rf_cu rf), ar_queue := pop_banks G ?q\<rparr>)"
    unfolding shape(1) granted_ops_def by blast
  let ?gs = "filter G [0..<?nb]" and ?f = "\<lambda>b. hd (?q ! b)"
  let ?a1 = "?a\<lparr>ar_last_cu := (ar_last_cu ?a + 1) mod length (rf_cu rf), ar_queue := pop_banks G ?q\<rparr>"
  let ?a2 = "?a1\<lparr>ar_allocated := mark_reads ?f ?gs (ar_allocated ?a)\<rparr>"
  let ?rs = "map (\<lambda>b. (b, ?f b)) ?gs"
  have grant: "foldM (grant_read rf) (?a1, []) (granted_ops rf G) = Some (?a2, ?rs)"
  proof -
    have "foldM (grant_read rf) (?a1, []) (map ?f ?gs) = Some (?a1\<lparr>ar_allocated := mark_reads ?f ?gs (ar_allocated ?a1)\<rparr>, [] @ ?rs)"
    proof (rule grant_reads)
      show "sorted_wrt (<) ?gs" by (simp add: sorted_wrt_filter)
      show "\<forall>b \<in> set ?gs. b < ar_num_banks ?a1 \<and> ar_allocated ?a1 ! b = NO_ALLOC"
        using granted_request [OF assms(1) G] assms(2) shape nth_mem by (fastforce simp: no_reads_def)
      show "\<forall>b \<in> set ?gs. op_valid (?f b) \<and> (\<exists>w. get_wid (rf_cu rf) (?f b) = Some w
          \<and> register_bank (op_register (?f b)) w ?nb (rf_bank_warp_shift rf) = b)"
        using granted_request [OF assms(1) G] by (fastforce simp: request_ok_def get_wid_def)
    qed (use shape in simp_all)
    then show ?thesis by (simp add: granted_ops_def)
  qed
  let ?rf = "rf\<lparr>rf_arbiter := ?a2\<rparr>"
  have snd: "map snd ?rs = granted_ops rf G" by (simp add: granted_ops_def comp_def)
  have pend: "pending ?a = pending ?a2 + mset (map op_key (granted_ops rf G))"
  proof -
    have "\<forall>b < length ?q. G b \<longrightarrow> ?q ! b \<noteq> []" using granted_request [OF assms(1) G] shape by simp
    from pop_banks_concat [OF this] have "mset (concat ?q) = mset (concat (pop_banks G ?q)) + mset (granted_ops rf G)"
      by (simp only: granted_ops_def shape(3))
    then show ?thesis by (simp add: pending_def)
  qed
  have inv: "oc_inv ({#} + mset (map op_key (map snd ?rs))) ?rf"
  proof -
    have "length (mark_reads ?f gs al) = length al" for gs al
      by (induction gs arbitrary: al) (simp_all add: mark_reads_def)
    then have "shape_ok ?rf" using assms(1) by (simp add: oc_inv_def shape_ok_def pop_banks_def)
    moreover have "request_ok ?rf b e" if b: "b < ?nb" "e \<in> set (pop_banks G ?q ! b)" for b e
    proof -
      have "set (tl (?q ! b)) \<subseteq> set (?q ! b)" by (cases "?q ! b") auto
      then have "e \<in> set (?q ! b)" using b shape(3) by (auto simp: pop_banks_def split: if_splits)
      then show ?thesis using assms(1) b(1) by (simp add: oc_inv_def request_ok_def)
    qed
    moreover have "pending ?a2 + mset (map op_key (granted_ops rf G)) = mset_set (missing (rf_cu rf))"
      using assms(1) pend by (simp add: oc_inv_def)
    ultimately show ?thesis using assms(1) unfolding snd by (simp add: oc_inv_def)
  qed
  have fin: "finite (missing (rf_cu rf))" using assms(1) by (intro finite_missing) (simp add: oc_inv_def)
  have miss: "\<forall>x \<in> set ?rs. op_key (snd x) \<in> missing (rf_cu ?rf)"
  proof
    fix x assume "x \<in> set ?rs"
    then have "op_key (snd x) \<in># mset (map op_key (granted_ops rf G))" by (auto simp: granted_ops_def)
    moreover have "mset_set (missing (rf_cu rf)) = pending ?a2 + mset (map op_key (granted_ops rf G))"
      using assms(1) pend by (simp add: oc_inv_def)
    ultimately have "op_key (snd x) \<in># mset_set (missing (rf_cu rf))" by simp
    then show "op_key (snd x) \<in> missing (rf_cu ?rf)" using fin by simp
  qed
  have dist: "distinct (map (op_key \<circ> snd) ?rs)"
    using granted_distinct [OF assms(1) G] unfolding snd [symmetric] by (simp add: comp_def)
  have "ok (\<lambda>rf'. oc_inv {#} rf' \<and> held (rf_cu rf') = held (rf_cu ?rf) \<and> rf_arbiter rf' = rf_arbiter ?rf \<and> same_shape ?rf rf'
    \<and> map cu_free (rf_cu rf') = map cu_free (rf_cu ?rf)
    \<and> missing (rf_cu rf') = missing (rf_cu ?rf) - op_key ` snd ` set ?rs) (foldM collect_read ?rf ?rs)"
    by (rule collect_reads [OF inv miss dist])
  moreover have "snd ` set ?rs = set (granted_ops rf G)" unfolding snd [symmetric] set_map ..
  moreover have "allocate_reads rf = foldM collect_read ?rf ?rs" 
    unfolding allocate_reads_def reads bind.bind_lunit prod.case grant ..
  ultimately have "ok (\<lambda>rf'. oc_inv {#} rf' \<and> held (rf_cu rf') = held (rf_cu rf) \<and> same_shape rf rf'
    \<and> ar_queue (rf_arbiter rf') = pop_banks G ?q
    \<and> map cu_free (rf_cu rf') = map cu_free (rf_cu rf)
    \<and> ar_last_cu (rf_arbiter rf') = (ar_last_cu ?a + 1) mod length (rf_cu rf)
    \<and> missing (rf_cu rf') = missing (rf_cu rf) - op_key ` set (granted_ops rf G)) (allocate_reads rf)"
    by (auto elim!: ok_mono simp: same_shape_def)
  with G show ?thesis by blast
qed

section \<open>Taking instructions\<close>

text \<open>\<open>get_ready\<close> is the oldest instruction in a set of registers.\<close>

lemma get_ready_fold:
  "(foldl (ready_step regs) None [0..<k] = None \<longleftrightarrow> (\<forall>i < k. pi_empty (regs ! i)))
   \<and> (\<forall>r. foldl (ready_step regs) None [0..<k] = Some r \<longrightarrow> r < k \<and> \<not> pi_empty (regs ! r)
        \<and> (\<forall>i < k. \<not> pi_empty (regs ! i) \<longrightarrow> pi_uid (regs ! r) \<le> pi_uid (regs ! i)))"
proof (induction k)
  case 0
  then show ?case by simp
next
  case (Suc k)
  let ?x = "foldl (ready_step regs) None [0..<k]"
  show ?case
  proof (cases "pi_empty (regs ! k)")
    case True
    then have "foldl (ready_step regs) None [0..<Suc k] = ?x" by (simp add: ready_step_def)
    with Suc True show ?thesis by (auto simp: less_Suc_eq)
  next
    case False
    show ?thesis
    proof (cases ?x)
      case None
      then have "foldl (ready_step regs) None [0..<Suc k] = Some k" using False by (simp add: ready_step_def)
      with Suc None False show ?thesis by (auto simp: less_Suc_eq)
    next
      case (Some r)
      then have "foldl (ready_step regs) None [0..<Suc k] = (if pi_uid (regs ! r) < pi_uid (regs ! k) then Some r else Some k)"
        using False by (simp add: ready_step_def)
      moreover have "r < k" "\<not> pi_empty (regs ! r)" "\<forall>i < k. \<not> pi_empty (regs ! i) \<longrightarrow> pi_uid (regs ! r) \<le> pi_uid (regs ! i)"
        using Suc Some by simp_all
      ultimately show ?thesis using False by (auto simp: less_Suc_eq)
    qed
  qed
qed

lemma get_ready_has:
  "has_ready regs \<Longrightarrow> \<exists>r < length regs. get_ready regs = Some r \<and> \<not> pi_empty (regs ! r)
     \<and> (\<forall>p \<in> set regs. \<not> pi_empty p \<longrightarrow> pi_uid (regs ! r) \<le> pi_uid p)"
  using get_ready_fold [of regs "length regs"]
  by (cases "get_ready regs") (auto simp: get_ready_def has_ready_def in_set_conv_nth)

lemma move_out_ok:
  assumes "get_ready (regs s) = Some r" "r < length (regs s)" "\<not> pi_empty (regs s ! r)" "pi_empty w"
  shows "\<exists>rs. move_out_to w (regs s) = Some (regs s ! r, rs) \<and> in_regs (regs(s := rs)) + {#regs s ! r#} = in_regs regs"
proof -
  let ?rs = "(regs s)[r := clear w]"
  have l: "live (regs s) = live ?rs + {#regs s ! r#}"
    using live_upd [OF assms(2), of "clear w"] assms(3) by (simp add: clear_def)
  have "(in_regs (regs(s := ?rs)) + {#regs s ! r#}) + live ?rs = in_regs regs + live ?rs"
    using in_regs_upd [of regs s ?rs] unfolding l by (simp only: ac_simps)
  then have "in_regs (regs(s := ?rs)) + {#regs s ! r#} = in_regs regs" by (simp only: add_right_cancel)
  then show ?thesis using assms by (simp add: move_out_to_def move_warp_def)
qed

definition operand_of :: "opndcoll \<Rightarrow> nat \<Rightarrow> oc_inst \<Rightarrow> collector_unit \<Rightarrow> nat \<Rightarrow> op_t" where
  "operand_of rf c p cu i =
     (if 0 \<le> arch_src p i then read_op c cu i (nat (arch_src p i)) (rf_num_banks rf) (rf_bank_warp_shift rf) else no_op)"

lemma take_operands:
  assumes "k \<le> length (cu_src_op cu)"
  shows "foldl (take_operand rf c p) cu [0..<k]
    = cu\<lparr>cu_src_op := map (operand_of rf c p cu) [0..<k] @ drop k (cu_src_op cu),
         cu_not_ready := cu_not_ready cu \<union> {i. i < k \<and> 0 \<le> arch_src p i}\<rparr>"
  using assms
proof (induction k)
  case 0
  then show ?case by simp
next
  case (Suc k)
  let ?cu = "cu\<lparr>cu_src_op := map (operand_of rf c p cu) [0..<k] @ drop k (cu_src_op cu),
         cu_not_ready := cu_not_ready cu \<union> {i. i < k \<and> 0 \<le> arch_src p i}\<rparr>"
  have upd: "(map (operand_of rf c p cu) [0..<k] @ drop k (cu_src_op cu))[k := x]
      = map (operand_of rf c p cu) [0..<k] @ [x] @ drop (Suc k) (cu_src_op cu)" for x
    using Suc.prems by (simp add: list_update_append Cons_nth_drop_Suc [symmetric])
  have nr: "{i. i < Suc k \<and> 0 \<le> arch_src p i} = (if 0 \<le> arch_src p k then {k} else {}) \<union> {i. i < k \<and> 0 \<le> arch_src p i}"
    by (auto simp: less_Suc_eq)
  have "take_operand rf c p ?cu k = cu\<lparr>cu_src_op := map (operand_of rf c p cu) [0..<Suc k] @ drop (Suc k) (cu_src_op cu),
         cu_not_ready := cu_not_ready cu \<union> {i. i < Suc k \<and> 0 \<le> arch_src p i}\<rparr>"
    by (simp add: take_operand_def Let_def upd nr operand_of_def read_op_def)
  with Suc show ?case by simp
qed

lemma cu_allocate_ok:
  assumes "unit_ok c cu" "cu_free cu" "has_ready (regs inp)"
  shows "\<exists>p cu' regs'. cu_allocate rf c inp out cu regs = Some (True, cu', regs')
    \<and> unit_ok c cu' \<and> \<not> cu_free cu' \<and> cu_warp cu' = p \<and> cu_warp_id cu' = inst_warp_id p
    \<and> cu_not_ready cu' = {i. i < MAX_REG_OPERANDS \<and> 0 \<le> arch_src p i}
    \<and> filter op_valid (cu_src_op cu') = map (operand_of rf c p cu') (filter (\<lambda>i. 0 \<le> arch_src p i) [0..<MAX_REG_OPERANDS])
    \<and> in_regs regs' + {#p#} = in_regs regs"
proof -
  from get_ready_has [OF assms(3)] obtain r where r: "r < length (regs inp)" "get_ready (regs inp) = Some r"
    "\<not> pi_empty (regs inp ! r)" by blast
  let ?p = "regs inp ! r"
  have u: "length (cu_src_op cu) = MAX_REG_OPERANDS * 2" "cu_not_ready cu = {}" "pi_empty (cu_warp cu)"
    "\<forall>op \<in> set (cu_src_op cu). \<not> op_valid op" "cu_cuid cu = c" using assms(1,2) by (simp_all add: unit_ok_def)
  from move_out_ok [of regs inp, OF r(2,1,3) u(3)] obtain rs where
    mv: "move_out_to (cu_warp cu) (regs inp) = Some (?p, rs)" "in_regs (regs(inp := rs)) + {#?p#} = in_regs regs" by blast
  let ?cu1 = "cu\<lparr>cu_free := False, cu_output := Some out, cu_warp_id := inst_warp_id ?p\<rparr>"
  let ?src = "map (operand_of rf c ?p ?cu1) [0..<MAX_REG_OPERANDS] @ drop MAX_REG_OPERANDS (cu_src_op cu)"
  let ?cu2 = "?cu1\<lparr>cu_src_op := ?src, cu_not_ready := {i. i < MAX_REG_OPERANDS \<and> 0 \<le> arch_src ?p i}, cu_warp := ?p\<rparr>"
  have take: "foldl (take_operand rf c ?p) ?cu1 [0..<MAX_REG_OPERANDS] = ?cu1\<lparr>cu_src_op := ?src,
      cu_not_ready := {i. i < MAX_REG_OPERANDS \<and> 0 \<le> arch_src ?p i}\<rparr>"
    using take_operands [of MAX_REG_OPERANDS ?cu1 rf c ?p] u by simp
  have "cu_allocate rf c inp out cu regs = Some (True, ?cu2, regs(inp := rs))"
    using assms(2) u r mv take by (simp add: cu_allocate_def Let_def)
  moreover have "unit_ok c ?cu2" using u r(3) by (auto simp: unit_ok_def)
  moreover have "filter op_valid ?src = map (operand_of rf c ?p ?cu2) (filter (\<lambda>i. 0 \<le> arch_src ?p i) [0..<MAX_REG_OPERANDS])"
  proof -
    have "filter op_valid (drop MAX_REG_OPERANDS (cu_src_op cu)) = []" using u(4) by (auto simp: filter_empty_conv dest: in_set_dropD)
    moreover have "filter op_valid (map (operand_of rf c ?p ?cu1) is)
      = map (operand_of rf c ?p ?cu2) (filter (\<lambda>i. 0 \<le> arch_src ?p i) is)" for "is"
      by (induction "is") (simp_all add: operand_of_def read_op_def no_op_def)
    ultimately show ?thesis by simp
  qed
  ultimately show ?thesis using mv(2) by (intro exI [of _ ?p] exI [of _ ?cu2] exI [of _ "regs(inp := rs)"]) simp
qed

lemma concat_upd: "i < length qs \<Longrightarrow> mset (concat (qs[i := q])) + mset (qs ! i) = mset (concat qs) + mset q"
proof (induction qs arbitrary: i)
  case Nil
  then show ?case by simp
next
  case (Cons x xs)
  then show ?case by (cases i) (simp_all add: ac_simps)
qed

text \<open>The requests join the queues of their banks in the order of the operands.\<close>

lemma add_read_requests_ok:
  assumes "\<forall>op \<in> set ops. op_valid op \<longrightarrow> op_bank op < length (ar_queue a)"
  shows "\<exists>qs. foldM add_read_request a ops = Some (a\<lparr>ar_queue := qs\<rparr>) \<and> length qs = length (ar_queue a)
    \<and> mset (map op_key (concat qs)) = pending a + mset (map op_key (filter op_valid ops))
    \<and> (\<forall>b < length qs. qs ! b = ar_queue a ! b @ filter (\<lambda>op. op_valid op \<and> op_bank op = b) ops)"
  using assms
proof (induction ops arbitrary: a)
  case Nil
  have "a = a\<lparr>ar_queue := ar_queue a\<rparr>" by simp
  then show ?case by (simp add: pending_def exI [of _ "ar_queue a"])
next
  case (Cons op ops)
  show ?case
  proof (cases "op_valid op")
    case False
    then show ?thesis using Cons.IH [of a] Cons.prems by (simp add: add_read_request_def)
  next
    case True
    let ?b = "op_bank op"
    let ?qs = "(ar_queue a)[?b := ar_queue a ! ?b @ [op]]"
    let ?a = "a\<lparr>ar_queue := ?qs\<rparr>"
    have b: "?b < length (ar_queue a)" using Cons.prems True by simp
    have "mset (concat ?qs) = add_mset op (mset (concat (ar_queue a)))"
      using concat_upd [OF b, of "ar_queue a ! ?b @ [op]"] by simp
    then have p: "pending ?a = add_mset (op_key op) (pending a)" by (simp add: pending_def)
    from Cons.IH [of ?a] Cons.prems obtain qs where
      qs: "foldM add_read_request ?a ops = Some (?a\<lparr>ar_queue := qs\<rparr>)" "length qs = length ?qs"
        "mset (map op_key (concat qs)) = pending ?a + mset (map op_key (filter op_valid ops))"
        "\<forall>b < length qs. qs ! b = ?qs ! b @ filter (\<lambda>op. op_valid op \<and> op_bank op = b) ops" by auto
    have "\<forall>b < length qs. qs ! b = ar_queue a ! b @ filter (\<lambda>op. op_valid op \<and> op_bank op = b) (op # ops)"
      using qs(2,4) True by (auto simp: nth_list_update)
    moreover have "add_read_request a op = Some ?a" using True b by (simp add: add_read_request_def)
    ultimately show ?thesis using qs(1-3) p True by (intro exI [of _ qs]) simp
  qed
qed

text \<open>Taking an instruction leaves the requests in the queues where they are.\<close>

definition appends :: "opndcoll \<Rightarrow> opndcoll \<Rightarrow> bool" where
  "appends rf rf' \<longleftrightarrow> same_shape rf rf' \<and> ar_last_cu (rf_arbiter rf') = ar_last_cu (rf_arbiter rf)
     \<and> missing (rf_cu rf) \<subseteq> missing (rf_cu rf')
     \<and> (\<forall>c < length (rf_cu rf). \<not> cu_free (rf_cu rf ! c) \<longrightarrow> rf_cu rf' ! c = rf_cu rf ! c)
     \<and> (\<forall>b < rf_num_banks rf. \<exists>xs. ar_queue (rf_arbiter rf') ! b = ar_queue (rf_arbiter rf) ! b @ xs)"

lemma appends_refl [simp]: "appends rf rf"
  by (simp add: appends_def)

lemma appends_trans: "appends a b \<Longrightarrow> appends b c \<Longrightarrow> appends a c"
  unfolding appends_def by (force simp: same_shape_def)

lemma read_op_bank: "op_bank (operand_of rf c p cu i) = register_bank (nat (arch_src p i)) (cu_warp_id cu) (rf_num_banks rf) (rf_bank_warp_shift rf)"
    "op_valid (operand_of rf c p cu i)" "op_warp (operand_of rf c p cu i) = None" "op_cu (operand_of rf c p cu i) = Some c"
    "op_operand (operand_of rf c p cu i) = i" "op_register (operand_of rf c p cu i) = nat (arch_src p i)"
  if "0 \<le> arch_src p i"
  using that by (simp_all add: operand_of_def read_op_def)

lemma register_bank_less: "0 < nb \<Longrightarrow> register_bank reg wid nb sh < nb"
  by (simp add: register_bank_def)

lemma take_inst_ok:
  assumes inv: "oc_inv {#} rf" and c: "c < length (rf_cu rf)" "cu_free (rf_cu rf ! c)" and ready: "has_ready (regs inp)"
  shows "\<exists>cu' regs' a'. cu_allocate rf c inp out (rf_cu rf ! c) regs = Some (True, cu', regs')
    \<and> add_read_requests cu' (rf_arbiter rf) = Some a'
    \<and> oc_inv {#} ((upd_cu c cu' rf)\<lparr>rf_arbiter := a'\<rparr>) \<and> appends rf ((upd_cu c cu' rf)\<lparr>rf_arbiter := a'\<rparr>)
    \<and> insts ((upd_cu c cu' rf)\<lparr>rf_arbiter := a'\<rparr>, regs') = insts (rf, regs)"
proof -
  let ?u = "rf_cu rf ! c" and ?a = "rf_arbiter rf" and ?nb = "rf_num_banks rf" and ?sh = "rf_bank_warp_shift rf"
  have shape: "0 < ?nb" "length (ar_queue ?a) = ?nb" using inv by (simp_all add: oc_inv_def shape_ok_def)
  have u: "unit_ok c ?u" using inv c(1) by (simp add: oc_inv_def)
  from cu_allocate_ok [of c ?u regs inp rf out, OF u c(2) ready] obtain p cu regs' where
    al: "cu_allocate rf c inp out ?u regs = Some (True, cu, regs')" "unit_ok c cu" "\<not> cu_free cu" "cu_warp cu = p"
      "cu_warp_id cu = inst_warp_id p" "cu_not_ready cu = {i. i < MAX_REG_OPERANDS \<and> 0 \<le> arch_src p i}"
      "filter op_valid (cu_src_op cu) = map (operand_of rf c p cu) (filter (\<lambda>i. 0 \<le> arch_src p i) [0..<MAX_REG_OPERANDS])"
      "in_regs regs' + {#p#} = in_regs regs" by blast
  let ?is = "filter (\<lambda>i. 0 \<le> arch_src p i) [0..<MAX_REG_OPERANDS]"
  have new: "op = operand_of rf c p cu (op_operand op) \<and> op_operand op \<in> set ?is" if "op \<in> set (cu_src_op cu)" "op_valid op" for op
  proof -
    from that have "op \<in> set (filter op_valid (cu_src_op cu))" by simp
    then obtain i where "i \<in> set ?is" "op = operand_of rf c p cu i" unfolding al(7) by auto
    then show ?thesis by (simp add: read_op_bank)
  qed
  have "\<forall>op \<in> set (cu_src_op cu). op_valid op \<longrightarrow> op_bank op < length (ar_queue ?a)"
  proof (intro ballI impI)
    fix op assume "op \<in> set (cu_src_op cu)" "op_valid op"
    from new [OF this] obtain i where "op = operand_of rf c p cu i" "0 \<le> arch_src p i" by auto
    then show "op_bank op < length (ar_queue ?a)" using shape by (simp add: read_op_bank register_bank_less)
  qed
  from add_read_requests_ok [OF this] obtain qs where
    qs: "add_read_requests cu ?a = Some (?a\<lparr>ar_queue := qs\<rparr>)" "length qs = ?nb"
      "mset (map op_key (concat qs)) = pending ?a + mset (map op_key (filter op_valid (cu_src_op cu)))"
      "\<forall>b < ?nb. qs ! b = ar_queue ?a ! b @ filter (\<lambda>op. op_valid op \<and> op_bank op = b) (cu_src_op cu)"
    unfolding add_read_requests_def shape(2) by auto
  let ?rf = "(upd_cu c cu rf)\<lparr>rf_arbiter := ?a\<lparr>ar_queue := qs\<rparr>\<rparr>"
  have cus: "rf_cu ?rf = (rf_cu rf)[c := cu]" by (simp add: upd_cu_def)
  have old: "op_cu e \<noteq> Some c" if "b < ?nb" "e \<in> set (ar_queue ?a ! b)" for b e
  proof
    assume eq: "op_cu e = Some c"
    have "e \<in> set (concat (ar_queue ?a))" using that shape(2) by (auto intro: bexI [of _ "ar_queue ?a ! b"])
    then have "op_key e \<in># pending ?a" by (auto simp: pending_def)
    then have "op_key e \<in># mset_set (missing (rf_cu rf))" using inv by (simp add: oc_inv_def)
    then have "op_key e \<in> missing (rf_cu rf)" by (metis finite_set_mset_mset_set mset_set.infinite set_mset_empty empty_iff)
    then show False using eq u c(2) by (auto simp: missing_def op_key_def unit_ok_def)
  qed
  have miss: "missing (rf_cu ?rf) = missing (rf_cu rf) \<union> Pair (Some c) ` cu_not_ready cu"
    unfolding cus missing_upd [OF c(1)] using u c(2) by (auto simp: missing_def unit_ok_def)
  have "oc_inv {#} ?rf"
    unfolding oc_inv_def
  proof (intro conjI allI impI ballI)
    show "shape_ok ?rf" using inv qs(2) by (simp add: oc_inv_def shape_ok_def upd_cu_def)
    show "unit_ok d (rf_cu ?rf ! d)" if "d < length (rf_cu ?rf)" for d
      using that inv al(2) unfolding cus by (cases "d = c") (simp_all add: oc_inv_def)
  next
    fix b e assume "b < rf_num_banks ?rf" "e \<in> set (ar_queue (rf_arbiter ?rf) ! b)"
    then have b: "b < ?nb" "e \<in> set (qs ! b)" by (simp_all add: upd_cu_def)
    show "request_ok ?rf b e"
    proof (cases "e \<in> set (ar_queue ?a ! b)")
      case True
      then have "request_ok rf b e" using inv b(1) by (simp add: oc_inv_def)
      moreover have "op_cu e \<noteq> Some c" by (rule old [OF b(1) True])
      ultimately show ?thesis unfolding request_ok_def cus by (auto simp: upd_cu_def)
    next
      case False
      then have e: "e \<in> set (cu_src_op cu)" "op_valid e" "op_bank e = b" using b qs(4) by auto
      note n = new [OF e(1,2)]
      define i where "i = op_operand e"
      have i: "e = operand_of rf c p cu i" "0 \<le> arch_src p i" using n by (simp_all add: i_def)
      show ?thesis
        unfolding request_ok_def cus using c(1) e(3) i by (simp add: read_op_bank upd_cu_def)
    qed
  next
    have "map op_key (filter op_valid (cu_src_op cu)) = map (Pair (Some c)) ?is"
      unfolding al(7) by (simp add: op_key_def read_op_bank)
    moreover have "mset (map (Pair (Some c)) ?is) = mset_set (Pair (Some c) ` cu_not_ready cu)"
    proof -
      have "distinct (map (Pair (Some c)) ?is)" by (simp add: distinct_map inj_on_def)
      moreover have "set (map (Pair (Some c)) ?is) = Pair (Some c) ` cu_not_ready cu" unfolding al(6) by auto
      ultimately show ?thesis by (metis mset_set_set)
    qed
    moreover have "missing (rf_cu rf) \<inter> Pair (Some c) ` cu_not_ready cu = {}"
      using u c(2) by (auto simp: missing_def unit_ok_def)
    moreover have "finite (missing (rf_cu rf))" using inv by (intro finite_missing) (simp add: oc_inv_def)
    moreover have "finite (Pair (Some c) ` cu_not_ready cu)" unfolding al(6) by simp
    ultimately show "pending (rf_arbiter ?rf) + {#} = mset_set (missing (rf_cu ?rf))"
      using qs(3) inv unfolding miss by (simp add: oc_inv_def pending_def [of "_\<lparr>ar_queue := qs\<rparr>"] mset_set_Union)
  qed
  moreover have "appends rf ?rf"
    unfolding appends_def
  proof (intro conjI allI impI)
    show "missing (rf_cu rf) \<subseteq> missing (rf_cu ?rf)" unfolding miss by simp
    show "rf_cu ?rf ! d = rf_cu rf ! d" if "\<not> cu_free (rf_cu rf ! d)" for d
      using that c unfolding cus by (cases "d = c") simp_all
    show "\<exists>xs. ar_queue (rf_arbiter ?rf) ! b = ar_queue ?a ! b @ xs" if "b < ?nb" for b using qs(4) that by simp
  qed (simp_all add: same_shape_def upd_cu_def)
  moreover have "insts (?rf, regs') = insts (rf, regs)"
    using held_upd [OF c(1), of cu] c(2) al(3,4,8) by (simp add: insts_def upd_cu_def)
  ultimately show ?thesis using al(1) qs(1) by blast
qed

lemma find_free_ok:
  assumes "set is \<subseteq> {..<length (rf_cu rf)}"
  shows "ok (\<lambda>found. \<forall>i. found = Some i \<longrightarrow> i \<in> set is \<and> cu_free (rf_cu rf ! i)) (find_free rf is)"
  using assms
proof (induction "is")
  case Nil
  then show ?case by simp
next
  case (Cons i "is")
  then show ?case by (auto elim!: ok_mono)
qed

lemma try_cu_sets_ok:
  assumes "oc_inv {#} rf" "has_ready (regs inp)"
  shows "ok (\<lambda>(rf', regs'). oc_inv {#} rf' \<and> appends rf rf' \<and> insts (rf', regs') = insts (rf, regs)) (try_cu_sets inp out ss rf regs)"
proof (induction ss)
  case Nil
  then show ?case using assms(1) by simp
next
  case (Cons k ss)
  have "set (rf_cus rf k) \<subseteq> {..<length (rf_cu rf)}" using assms(1) by (simp add: oc_inv_def shape_ok_def)
  from find_free_ok [OF this] obtain found where f: "find_free rf (rf_cus rf k) = Some found"
    "\<forall>i. found = Some i \<longrightarrow> i < length (rf_cu rf) \<and> cu_free (rf_cu rf ! i)"
    using \<open>set (rf_cus rf k) \<subseteq> _\<close> by (auto simp: ok_def)
  show ?case
  proof (cases found)
    case None
    then show ?thesis using f Cons by simp
  next
    case (Some i)
    with f(2) have i: "i < length (rf_cu rf)" "cu_free (rf_cu rf ! i)" by simp_all
    from take_inst_ok [of rf i regs inp out, OF assms(1) i assms(2)] show ?thesis using f(1) Some i(1) by (auto simp: Let_def)
  qed
qed

lemma allocate_inputs_ok:
  assumes "oc_inv {#} rf" "\<forall>i \<in> set is. i < length (ip_in port)" "length (ip_in port) = length (ip_out port)"
  shows "ok (\<lambda>(rf', regs'). oc_inv {#} rf' \<and> appends rf rf' \<and> insts (rf', regs') = insts (rf, regs)) (allocate_inputs port is rf regs)"
  using assms(2)
proof (induction "is")
  case Nil
  then show ?case using assms(1) by simp
next
  case (Cons i "is")
  show ?case
  proof (cases "has_ready (regs (ip_in port ! i))")
    case True
    from try_cu_sets_ok [of rf regs "ip_in port ! i", OF assms(1) True] show ?thesis using Cons.prems True assms(3) by simp
  next
    case False
    then show ?thesis using Cons by simp
  qed
qed

lemma allocate_cus_ok:
  assumes "oc_inv {#} rf"
  shows "ok (\<lambda>(rf', regs'). oc_inv {#} rf' \<and> appends rf rf' \<and> insts (rf', regs') = insts (rf, regs))
    (foldM allocate_cu (rf, regs) [0..<length (rf_in_ports rf)])"
proof (rule ok_foldM)
  fix s p assume p: "p \<in> set [0..<length (rf_in_ports rf)]"
    and I: "case s of (rf', regs') \<Rightarrow> oc_inv {#} rf' \<and> appends rf rf' \<and> insts (rf', regs') = insts (rf, regs)"
  obtain rf1 regs1 where s: "s = (rf1, regs1)" by fastforce
  have p1: "p < length (rf_in_ports rf1)" using p I s by (simp add: appends_def same_shape_def)
  let ?port = "rf_in_ports rf1 ! p"
  have inv: "oc_inv {#} rf1" using I s by simp
  then have len: "length (ip_in ?port) = length (ip_out ?port)" using p1 by (simp add: oc_inv_def shape_ok_def)
  have "ok (\<lambda>(rf', regs'). oc_inv {#} rf' \<and> appends rf1 rf' \<and> insts (rf', regs') = insts (rf1, regs1)) (allocate_cu s p)"
    using allocate_inputs_ok [OF inv _ len, of "[0..<length (ip_in ?port)]" regs1] p1 s by (simp add: allocate_cu_def)
  then show "ok (\<lambda>(rf', regs'). oc_inv {#} rf' \<and> appends rf rf' \<and> insts (rf', regs') = insts (rf, regs)) (allocate_cu s p)"
    by (rule ok_mono) (use I s in \<open>auto intro: appends_trans\<close>)
qed (use assms in simp)

section \<open>A step\<close>

text \<open>What a step does to the queues: the granted banks lose their first request, whose operand is then there; the requests
  of the instructions taken are added at the end.\<close>

definition step_effect :: "opndcoll \<Rightarrow> opndcoll \<Rightarrow> (nat \<Rightarrow> bool) \<Rightarrow> bool" where
  "step_effect rf rf' G \<longleftrightarrow> same_shape rf rf'
     \<and> ar_last_cu (rf_arbiter rf') = (ar_last_cu (rf_arbiter rf) + 1) mod length (rf_cu rf)
     \<and> (\<forall>op \<in> set (granted_ops rf G). op_key op \<notin> missing (rf_cu rf'))
     \<and> (\<forall>b < rf_num_banks rf. \<exists>xs. ar_queue (rf_arbiter rf') ! b
          = (if G b then tl (ar_queue (rf_arbiter rf) ! b) else ar_queue (rf_arbiter rf) ! b) @ xs)"

lemma reset_alloction_inv: "oc_inv R rf \<Longrightarrow> oc_ok (process_banks rf) \<longleftrightarrow> R = {#}"
  by (auto simp: oc_ok_def oc_inv_def no_reads_def process_banks_def reset_alloction_def shape_ok_def request_ok_def pending_def)

lemma step_ok:
  assumes "oc_ok rf"
  shows "ok (\<lambda>(rf', regs'). oc_ok rf' \<and> insts (rf', regs') = insts (rf, regs)
    \<and> (\<forall>x \<in> set (ar_allocated (rf_arbiter rf')). x = NO_ALLOC)
    \<and> (\<exists>rf1 G. same_shape rf rf1 \<and> rf_arbiter rf1 = rf_arbiter rf \<and> missing (rf_cu rf1) = missing (rf_cu rf)
        \<and> oc_ok rf1 \<and> grants_ok (rf_cu rf1) (rf_arbiter rf1) G \<and> step_effect rf1 rf' G)) (step rf regs)"
proof -
  have inv: "oc_inv {#} rf" "no_reads rf" using assms by (simp_all add: oc_ok_def)
  from dispatch_ready_cu_ok [OF inv(1), of regs] obtain rf1 regs1 where
    d: "dispatch_ready_cu rf regs = Some (rf1, regs1)" "oc_inv {#} rf1" "insts (rf1, regs1) = insts (rf, regs)"
      "rf_arbiter rf1 = rf_arbiter rf" "missing (rf_cu rf1) = missing (rf_cu rf)" "same_shape rf rf1"
    by (auto simp: ok_def)
  have nr: "no_reads rf1" using inv(2) d(4) by (simp add: no_reads_def)
  from allocate_reads_ok [OF d(2) nr] obtain G rf2 where
    G: "grants_ok (rf_cu rf1) (rf_arbiter rf1) G" and
    a: "allocate_reads rf1 = Some rf2" "oc_inv {#} rf2" "held (rf_cu rf2) = held (rf_cu rf1)" "same_shape rf1 rf2"
      "ar_queue (rf_arbiter rf2) = pop_banks G (ar_queue (rf_arbiter rf1))"
      "ar_last_cu (rf_arbiter rf2) = (ar_last_cu (rf_arbiter rf1) + 1) mod length (rf_cu rf1)"
      "map cu_free (rf_cu rf2) = map cu_free (rf_cu rf1)"
      "missing (rf_cu rf2) = missing (rf_cu rf1) - op_key ` set (granted_ops rf1 G)"
    by (auto simp: ok_def)
  from allocate_cus_ok [OF a(2), of regs1] obtain rf3 regs3 where
    c: "foldM allocate_cu (rf2, regs1) [0..<length (rf_in_ports rf2)] = Some (rf3, regs3)" "oc_inv {#} rf3" "appends rf2 rf3"
      "insts (rf3, regs3) = insts (rf2, regs1)"
    by (auto simp: ok_def)
  have q: "length (ar_queue (rf_arbiter rf1)) = rf_num_banks rf1" using d(2) by (simp add: oc_inv_def shape_ok_def)
  have gone: "op_key op \<notin> missing (rf_cu rf3)" if op: "op \<in> set (granted_ops rf1 G)" for op
  proof -
    from op obtain b where b: "b < rf_num_banks rf1" "G b" "op = hd (ar_queue (rf_arbiter rf1) ! b)" by (auto simp: granted_ops_def)
    note gr = granted_request [OF d(2) G b(1,2)]
    from gr(1) b(3) obtain e where e: "e < length (rf_cu rf1)" "op_cu op = Some e" by (auto simp: request_ok_def)
    have "op \<in> set (concat (ar_queue (rf_arbiter rf1)))"
      using gr(2) b q by (auto intro!: bexI [of _ "ar_queue (rf_arbiter rf1) ! b"])
    then have "op_key op \<in># pending (rf_arbiter rf1)" by (auto simp: pending_def)
    then have "op_key op \<in> missing (rf_cu rf1)"
      using d(2) finite_missing [of "rf_cu rf1"] by (auto simp: oc_inv_def)
    then have "\<not> cu_free (rf_cu rf1 ! e)" using d(2) e by (auto simp: missing_def op_key_def oc_inv_def unit_ok_def)
    moreover have "cu_free (rf_cu rf2 ! e) = cu_free (rf_cu rf1 ! e)"
      using arg_cong [OF a(7), of "\<lambda>xs. xs ! e"] e(1) a(4) by (simp add: same_shape_def)
    ultimately have "rf_cu rf3 ! e = rf_cu rf2 ! e" using c(3) e(1) a(4) by (simp add: appends_def same_shape_def)
    moreover have "op_key op \<notin> missing (rf_cu rf2)" using op a(8) by simp
    moreover have "length (rf_cu rf3) = length (rf_cu rf2)" using c(3) by (simp add: appends_def same_shape_def)
    ultimately show ?thesis using e(2) by (auto simp: missing_def op_key_def)
  qed
  have eff: "step_effect rf1 (process_banks rf3) G"
    using a(4-6) c(3) q gone
    by (auto simp: step_effect_def appends_def process_banks_def reset_alloction_def same_shape_def pop_banks_def)
  have "oc_ok (process_banks rf3)" using reset_alloction_inv [OF c(2)] by simp
  moreover have "insts (process_banks rf3, regs3) = insts (rf, regs)"
    using c(4) a(3) d(3) by (simp add: insts_def process_banks_def)
  moreover have "\<forall>x \<in> set (ar_allocated (rf_arbiter (process_banks rf3))). x = NO_ALLOC"
    by (simp add: process_banks_def reset_alloction_def)
  moreover have "oc_ok rf1" using d(2) nr by (simp add: oc_ok_def)
  moreover have "step rf regs = Some (process_banks rf3, regs3)" using d(1) a(1) c(1) by (simp add: step_def)
  ultimately show ?thesis using d(4-6) G eff by (auto intro!: exI [of _ rf1])
qed

section \<open>Writing results\<close>

lemma write_regs_ok:
  assumes "oc_ok rf"
  shows "ok (\<lambda>(b, rf'). oc_ok rf' \<and> same_shape rf rf' \<and> rf_cu rf' = rf_cu rf \<and> ar_queue (rf_arbiter rf') = ar_queue (rf_arbiter rf)
    \<and> ar_last_cu (rf_arbiter rf') = ar_last_cu (rf_arbiter rf)) (write_regs p rs rf)"
  using assms
proof (induction rs arbitrary: rf)
  case Nil
  then show ?case by simp
next
  case (Cons reg rs)
  let ?b = "register_bank reg (inst_warp_id p) (rf_num_banks rf) (rf_bank_warp_shift rf)"
  let ?a = "rf_arbiter rf"
  have shape: "0 < rf_num_banks rf" "ar_num_banks ?a = rf_num_banks rf" "length (ar_allocated ?a) = rf_num_banks rf"
    using Cons.prems by (simp_all add: oc_ok_def oc_inv_def shape_ok_def)
  then have b: "?b < rf_num_banks rf" by (simp add: register_bank_less)
  show ?case
  proof (cases "ar_allocated ?a ! ?b = NO_ALLOC")
    case False
    then show ?thesis using b shape Cons.prems by (simp add: bank_idle_def)
  next
    case True
    let ?op = "write_op p reg (rf_num_banks rf) (rf_bank_warp_shift rf)"
    let ?rf = "rf\<lparr>rf_arbiter := ?a\<lparr>ar_allocated := (ar_allocated ?a)[?b := WRITE_ALLOC ?op]\<rparr>\<rparr>"
    have "set ((ar_allocated ?a)[?b := WRITE_ALLOC ?op]) \<subseteq> insert (WRITE_ALLOC ?op) (set (ar_allocated ?a))"
      by (rule set_update_subset_insert)
    then have "no_reads ?rf" using Cons.prems by (fastforce simp: oc_ok_def no_reads_def)
    then have "oc_ok ?rf" using Cons.prems by (simp add: oc_ok_def oc_inv_def shape_ok_def request_ok_def pending_def)
    from Cons.IH [OF this] have "ok (\<lambda>(b, rf'). oc_ok rf' \<and> same_shape rf rf' \<and> rf_cu rf' = rf_cu rf \<and> ar_queue (rf_arbiter rf') = ar_queue ?a
        \<and> ar_last_cu (rf_arbiter rf') = ar_last_cu ?a) (write_regs p rs ?rf)"
      by (rule ok_mono) (auto simp: same_shape_def)
    then show ?thesis using True b shape by (simp add: bank_idle_def allocate_bank_for_write_def allocate_bank_def Let_def)
  qed
qed

end
