(* ===== verification/Oc_Run.thy ===== *)
theory Oc_Run
  imports Oc_Ok "HOL-Library.Code_Target_Nat"
begin

text \<open>
  The operand collectors from the configuration of the core on: in every run no operation fails, the arbiter grants a matching that
  cannot be extended, every request is granted in time, and no instruction is lost. Last, the places where the code
  deviates from its intention.
\<close>

section \<open>The initial state\<close>

definition all_kinds :: "cu_kind list" where
  "all_kinds = [SP_CUS, SFU_CUS, MEM_CUS, GEN_CUS]"

definition num_collectors :: "oc_config \<Rightarrow> nat" where
  "num_collectors cfg = num_units cfg SP_CUS + num_units cfg SFU_CUS + num_units cfg MEM_CUS + num_units cfg GEN_CUS"

definition built_ok :: "opndcoll \<Rightarrow> bool" where
  "built_ok rf \<longleftrightarrow> (\<forall>k. set (rf_cus rf k) \<subseteq> {..<length (rf_cu rf)})
     \<and> (\<forall>du \<in> set (rf_dispatch_units rf). du_num_collectors du = length (rf_cus rf (du_cus du)))
     \<and> (\<forall>p \<in> set (rf_in_ports rf). length (ip_in p) = length (ip_out p))
     \<and> (\<forall>cu \<in> set (rf_cu rf). cu = new_collector_unit)"

lemma sets_built:
  "built_ok (foldl (\<lambda>rf k. add_cu_set k (num_units cfg k) (num_out_ports cfg k) rf) new_opndcoll [SP_CUS, SFU_CUS, MEM_CUS, GEN_CUS])
   \<and> length (rf_cu (foldl (\<lambda>rf k. add_cu_set k (num_units cfg k) (num_out_ports cfg k) rf) new_opndcoll [SP_CUS, SFU_CUS, MEM_CUS, GEN_CUS]))
       = num_collectors cfg"
proof -
  have "set ((\<lambda>k. case k of SP_CUS \<Rightarrow> [0..<a] | SFU_CUS \<Rightarrow> [a..<a + b] | MEM_CUS \<Rightarrow> [a + b..<a + b + c] | GEN_CUS \<Rightarrow> [a + b + c..<a + b + c + d]) k)
    \<subseteq> {..<a + b + c + d}" for a b c d :: nat and k
    by (cases k) auto
  then show ?thesis
    by (auto simp: built_ok_def add_cu_set_def new_opndcoll_def num_collectors_def Let_def)
qed

lemma add_port_ok:
  assumes "built_ok rf" "length input = length output" "cu_sets \<noteq> []"
  shows "ok (\<lambda>rf'. built_ok rf' \<and> rf_cu rf' = rf_cu rf) (add_port input output cu_sets rf)"
  using assms by (simp add: add_port_def built_ok_def)

lemma add_ports_ok:
  assumes "built_ok rf"
  shows "ok (\<lambda>rf'. built_ok rf' \<and> rf_cu rf' = rf_cu rf) (add_ports cfg rf k)"
  unfolding add_ports_def
proof (rule ok_foldM)
  fix s x assume I: "built_ok s \<and> rf_cu s = rf_cu rf"
  show "ok (\<lambda>rf'. built_ok rf' \<and> rf_cu rf' = rf_cu rf) (case port_of k of (input, output, cu_sets) \<Rightarrow> add_port input output cu_sets s)"
    by (cases k) (use I add_port_ok [of s] in simp_all)
qed (use assms in simp)

lemma core_operand_collector_ok:
  assumes "0 < num_reg_banks cfg" "num_reg_banks cfg \<le> num_collectors cfg" "0 < oc_warp_size cfg"
  shows "ok (\<lambda>rf. oc_ok rf \<and> length (rf_cu rf) = num_collectors cfg \<and> rf_num_banks rf = num_reg_banks cfg) (core_operand_collector cfg)"
proof -
  let ?rf = "foldl (\<lambda>rf k. add_cu_set k (num_units cfg k) (num_out_ports cfg k) rf) new_opndcoll [SP_CUS, SFU_CUS, MEM_CUS, GEN_CUS]"
  have "ok (\<lambda>rf'. built_ok rf' \<and> rf_cu rf' = rf_cu ?rf) (foldM (add_ports cfg) ?rf [SP_CUS, SFU_CUS, MEM_CUS, GEN_CUS])"
  proof (rule ok_foldM)
    fix s x assume I: "built_ok s \<and> rf_cu s = rf_cu ?rf"
    show "ok (\<lambda>rf'. built_ok rf' \<and> rf_cu rf' = rf_cu ?rf) (add_ports cfg s x)"
      by (rule ok_mono [OF add_ports_ok]) (use I in simp_all)
  qed (use sets_built in simp)
  then obtain rf where rf: "foldM (add_ports cfg) ?rf [SP_CUS, SFU_CUS, MEM_CUS, GEN_CUS] = Some rf" "built_ok rf"
    "length (rf_cu rf) = num_collectors cfg" using sets_built by (auto simp: ok_def)
  have new: "rf_cu rf ! j = new_collector_unit" if "j < length (rf_cu rf)" for j
    using rf(2) that by (simp add: built_ok_def)
  have shift: "ilog2 (oc_warp_size cfg) = 5 \<or> oc_warp_size cfg \<noteq> 32"
    by (cases "oc_warp_size cfg = 32") (simp_all add: ilog2.simps)
  have cus: "unit_ok j (cu_init j new_collector_unit)" for j
    by (simp add: unit_ok_def cu_init_def new_collector_unit_def MAX_REG_OPERANDS_def empty_inst_def no_op_def)
  have nr: "cu_not_ready (cu_init j new_collector_unit) = {}" for j by (simp add: cu_init_def new_collector_unit_def)
  obtain rf' where r: "opndcoll_init (num_reg_banks cfg) (oc_warp_size cfg) rf = Some rf'"
    and rf': "rf' = rf\<lparr>rf_arbiter := \<lparr>ar_num_banks = num_reg_banks cfg, ar_num_collectors = length (rf_cu rf),
        ar_allocated = replicate (num_reg_banks cfg) NO_ALLOC, ar_queue = replicate (num_reg_banks cfg) [], ar_last_cu = 0\<rparr>,
      rf_num_banks := num_reg_banks cfg, rf_bank_warp_shift := ilog2 (oc_warp_size cfg),
      rf_cu := map (\<lambda>j. cu_init j (rf_cu rf ! j)) [0..<length (rf_cu rf)]\<rparr>"
    using assms rf(3) shift by (simp add: opndcoll_init_def arbiter_init_def)
  have unit: "rf_cu rf' ! j = cu_init j new_collector_unit" if "j < length (rf_cu rf)" for j
    using that new by (simp add: rf')
  have "missing (rf_cu rf') = {}"
    using unit nr by (auto simp: missing_def rf')
  moreover have "shape_ok rf'"
    using assms rf(2,3) by (simp add: rf' shape_ok_def built_ok_def)
  moreover have "length (rf_cu rf') = length (rf_cu rf)" by (simp add: rf')
  moreover have "no_reads rf'" "pending (rf_arbiter rf') = {#}" "\<forall>b < rf_num_banks rf'. ar_queue (rf_arbiter rf') ! b = []"
    by (simp_all add: rf' no_reads_def pending_def)
  ultimately have "oc_ok rf'" using cus unit by (simp add: oc_ok_def oc_inv_def)
  moreover have "core_operand_collector cfg = Some rf'"
    unfolding core_operand_collector_def Let_def rf(1) bind.bind_lunit by (rule r)
  ultimately show ?thesis using rf(3) by (simp add: rf')
qed

section \<open>Runs\<close>

text \<open>The states a core can reach: any instructions may be in the pipeline registers when a step begins, and be written back.\<close>

inductive oc_reach :: "oc_config \<Rightarrow> opndcoll \<Rightarrow> bool" for cfg where
  start: "core_operand_collector cfg = Some rf \<Longrightarrow> oc_reach cfg rf"
| stepped: "oc_reach cfg rf \<Longrightarrow> step rf regs = Some (rf', regs') \<Longrightarrow> oc_reach cfg rf'"
| written: "oc_reach cfg rf \<Longrightarrow> writeback p rf = Some (b, rf') \<Longrightarrow> oc_reach cfg rf'"

definition oc_config_ok :: "oc_config \<Rightarrow> bool" where
  "oc_config_ok cfg \<longleftrightarrow> 0 < num_reg_banks cfg \<and> num_reg_banks cfg \<le> num_collectors cfg \<and> 0 < oc_warp_size cfg"

lemma writeback_ok:
  assumes "oc_ok rf" "\<not> pi_empty p"
  shows "ok (\<lambda>(b, rf'). oc_ok rf' \<and> same_shape rf rf' \<and> rf_cu rf' = rf_cu rf \<and> ar_queue (rf_arbiter rf') = ar_queue (rf_arbiter rf)
    \<and> ar_last_cu (rf_arbiter rf') = ar_last_cu (rf_arbiter rf)) (writeback p rf)"
  using write_regs_ok [OF assms(1)] assms(2) by (simp add: writeback_def)

lemma writeback_nonempty: "writeback p rf = Some r \<Longrightarrow> \<not> pi_empty p"
  by (simp add: writeback_def assert_c_bind_eq_Some)

lemma reach_ok:
  assumes "oc_reach cfg rf" "oc_config_ok cfg"
  shows "oc_ok rf \<and> length (rf_cu rf) = num_collectors cfg \<and> rf_num_banks rf = num_reg_banks cfg"
  using assms(1)
proof induction
  case (start rf)
  then show ?case using core_operand_collector_ok [of cfg] assms(2) by (simp add: oc_config_ok_def)
next
  case (stepped rf regs rf' regs')
  then have "oc_ok rf" by simp
  from step_ok [OF this, of regs] stepped show ?case by (auto simp: same_shape_def step_effect_def)
next
  case (written rf p b rf')
  then have "oc_ok rf" by simp
  from writeback_ok [OF this writeback_nonempty [OF written.hyps(2)]] written show ?case by (auto simp: same_shape_def)
qed

text \<open>A cycle of the core: results are written, then the collectors take a step.\<close>

definition write_result :: "opndcoll \<Rightarrow> oc_inst \<Rightarrow> opndcoll option" where
  "write_result rf p = map_option snd (writeback p rf)"

definition oc_cycle :: "opndcoll \<Rightarrow> oc_inst list \<times> pipeline_regs \<Rightarrow> opndcoll option" where
  "oc_cycle rf = (\<lambda>(ps, regs). do {
     rf \<leftarrow> foldM write_result rf ps;
     (rf, _) \<leftarrow> step rf regs;
     Some rf })"

definition writes_bank :: "opndcoll \<Rightarrow> nat \<Rightarrow> oc_inst \<Rightarrow> bool" where
  "writes_bank rf b p \<longleftrightarrow> (\<exists>reg \<in> set (get_regs_written p). register_bank reg (inst_warp_id p) (rf_num_banks rf) (rf_bank_warp_shift rf) = b)"

lemma write_regs_other_bank:
  assumes "\<forall>reg \<in> set rs. register_bank reg (inst_warp_id p) (rf_num_banks rf) (rf_bank_warp_shift rf) \<noteq> b"
    "write_regs p rs rf = Some (r, rf')"
  shows "ar_allocated (rf_arbiter rf') ! b = ar_allocated (rf_arbiter rf) ! b"
  using assms
proof (induction rs arbitrary: rf)
  case Nil
  then show ?case by simp
next
  case (Cons reg rs)
  let ?b = "register_bank reg (inst_warp_id p) (rf_num_banks rf) (rf_bank_warp_shift rf)"
  show ?case
  proof (cases "bank_idle ?b (rf_arbiter rf) = Some True")
    case False
    then show ?thesis using Cons.prems(2) by (auto simp: bind_eq_Some_conv Let_def split: if_splits)
  next
    case True
    with Cons.prems(2) obtain a where a:
      "allocate_bank_for_write ?b (write_op p reg (rf_num_banks rf) (rf_bank_warp_shift rf)) (rf_arbiter rf) = Some a"
      "write_regs p rs (rf\<lparr>rf_arbiter := a\<rparr>) = Some (r, rf')" by (auto simp: bind_eq_Some_conv Let_def)
    have "ar_allocated (rf_arbiter rf') ! b = ar_allocated a ! b"
      using Cons.IH [OF _ a(2)] Cons.prems(1) by simp
    moreover have "ar_allocated a ! b = ar_allocated (rf_arbiter rf) ! b"
      using a(1) Cons.prems(1) by (auto simp: allocate_bank_for_write_def allocate_bank_def bind_eq_Some_conv)
    ultimately show ?thesis by simp
  qed
qed

lemma write_results_ok:
  assumes "oc_ok rf" "\<forall>p \<in> set ps. \<not> pi_empty p \<and> \<not> writes_bank rf b p"
  shows "ok (\<lambda>rf'. oc_ok rf' \<and> same_shape rf rf' \<and> rf_cu rf' = rf_cu rf \<and> ar_queue (rf_arbiter rf') = ar_queue (rf_arbiter rf)
    \<and> ar_last_cu (rf_arbiter rf') = ar_last_cu (rf_arbiter rf)
    \<and> ar_allocated (rf_arbiter rf') ! b = ar_allocated (rf_arbiter rf) ! b) (foldM write_result rf ps)"
proof (rule ok_foldM)
  fix s p assume p: "p \<in> set ps" and I: "oc_ok s \<and> same_shape rf s \<and> rf_cu s = rf_cu rf \<and> ar_queue (rf_arbiter s) = ar_queue (rf_arbiter rf)
    \<and> ar_last_cu (rf_arbiter s) = ar_last_cu (rf_arbiter rf) \<and> ar_allocated (rf_arbiter s) ! b = ar_allocated (rf_arbiter rf) ! b"
  from I have "oc_ok s" by simp
  from writeback_ok [OF this, of p] p assms(2) obtain r s' where w: "writeback p s = Some (r, s')" "oc_ok s'" "same_shape s s'"
    "rf_cu s' = rf_cu s" "ar_queue (rf_arbiter s') = ar_queue (rf_arbiter s)" "ar_last_cu (rf_arbiter s') = ar_last_cu (rf_arbiter s)"
    by (auto simp: ok_def)
  have "\<forall>reg \<in> set (get_regs_written p). register_bank reg (inst_warp_id p) (rf_num_banks s) (rf_bank_warp_shift s) \<noteq> b"
    using assms(2) p I by (simp add: writes_bank_def same_shape_def)
  moreover have "write_regs p (get_regs_written p) s = Some (r, s')" using w(1) by (auto simp: writeback_def bind_eq_Some_conv)
  ultimately have "ar_allocated (rf_arbiter s') ! b = ar_allocated (rf_arbiter s) ! b" by (rule write_regs_other_bank)
  with w I show "ok (\<lambda>rf'. oc_ok rf' \<and> same_shape rf rf' \<and> rf_cu rf' = rf_cu rf \<and> ar_queue (rf_arbiter rf') = ar_queue (rf_arbiter rf)
    \<and> ar_last_cu (rf_arbiter rf') = ar_last_cu (rf_arbiter rf)
    \<and> ar_allocated (rf_arbiter rf') ! b = ar_allocated (rf_arbiter rf) ! b) (write_result s p)"
    by (auto simp: write_result_def intro: same_shape_trans)
qed (use assms(1) in simp)

text \<open>A state in which nothing is yet written to the bank.\<close>

definition idle_at :: "nat \<Rightarrow> opndcoll \<Rightarrow> bool" where
  "idle_at b rf \<longleftrightarrow> oc_ok rf \<and> b < rf_num_banks rf \<and> ar_allocated (rf_arbiter rf) ! b = NO_ALLOC"

definition unit_of :: "op_t \<Rightarrow> nat" where
  "unit_of op = the (op_cu op)"

lemma cycle_effect:
  assumes "idle_at b rf" "\<forall>p \<in> set ps. \<not> pi_empty p \<and> \<not> writes_bank rf b p" "ar_queue (rf_arbiter rf) ! b = e # es"
  shows "\<exists>rf' xs. oc_cycle rf (ps, regs) = Some rf' \<and> idle_at b rf' \<and> same_shape rf rf'
    \<and> ar_last_cu (rf_arbiter rf') = (ar_last_cu (rf_arbiter rf) + 1) mod length (rf_cu rf)
    \<and> (ar_queue (rf_arbiter rf') ! b = es @ xs \<and> op_key e \<notin> missing (rf_cu rf')
       \<or> ar_queue (rf_arbiter rf') ! b = e # es @ xs \<and> (ar_last_cu (rf_arbiter rf) + b) mod length (rf_cu rf) \<noteq> unit_of e)"
proof -
  have rf: "oc_ok rf" and b: "b < rf_num_banks rf" using assms(1) by (simp_all add: idle_at_def)
  from write_results_ok [OF rf assms(2)] obtain rf1 where
    w: "foldM write_result rf ps = Some rf1" "oc_ok rf1" "same_shape rf rf1" "ar_queue (rf_arbiter rf1) = ar_queue (rf_arbiter rf)"
      "ar_last_cu (rf_arbiter rf1) = ar_last_cu (rf_arbiter rf)" "ar_allocated (rf_arbiter rf1) ! b = ar_allocated (rf_arbiter rf) ! b"
    by (auto simp: ok_def)
  from step_ok [OF w(2), of regs] obtain rf' regs' rf2 G where
    s: "step rf1 regs = Some (rf', regs')" "oc_ok rf'" "\<forall>x \<in> set (ar_allocated (rf_arbiter rf')). x = NO_ALLOC"
      "same_shape rf1 rf2" "rf_arbiter rf2 = rf_arbiter rf1" "oc_ok rf2" "grants_ok (rf_cu rf2) (rf_arbiter rf2) G" "step_effect rf2 rf' G"
    by (auto simp: ok_def)
  have len: "length (rf_cu rf2) = length (rf_cu rf)" "rf_num_banks rf2 = rf_num_banks rf"
    using w(3) s(4) by (simp_all add: same_shape_def)
  have q: "ar_queue (rf_arbiter rf2) ! b = e # es" using assms(3)  w(4) s(5) by simp
  have inv: "oc_inv {#} rf2" using s(6) by (simp add: oc_ok_def)
  have nb: "ar_num_banks (rf_arbiter rf2) = rf_num_banks rf2" "length (ar_allocated (rf_arbiter rf2)) = rf_num_banks rf2"
    using inv by (simp_all add: oc_inv_def shape_ok_def)
  have nw: "\<not> is_write (ar_allocated (rf_arbiter rf2) ! b)" using assms(1) w(6) s(5) by (simp add: idle_at_def)
  have "request_ok rf2 b e" using inv q b len(2) by (simp add: oc_inv_def)
  then obtain c where c: "c < length (rf_cu rf2)" "op_cu e = Some c" by (auto simp: request_ok_def)
  then have row: "row_of (rf_cu rf2) (e # es) = Some (unit_of e)"
    using inv by (simp add: row_of_def get_oc_id_def unit_of_def oc_inv_def unit_ok_def)
  obtain xs where xs: "ar_queue (rf_arbiter rf') ! b = (if G b then es else e # es) @ xs"
  proof -
    have "\<exists>xs. ar_queue (rf_arbiter rf') ! b
        = (if G b then tl (ar_queue (rf_arbiter rf2) ! b) else ar_queue (rf_arbiter rf2) ! b) @ xs"
      using s(8) b unfolding step_effect_def len(2) by blast
    then show ?thesis using that unfolding q by auto
  qed
  have "op_key e \<notin> missing (rf_cu rf')" if "G b"
  proof -
    have "e \<in> set (granted_ops rf2 G)"
      using that q b len(2) by (auto simp: granted_ops_def image_iff intro!: exI [of _ b])
    then show ?thesis using s(8) by (simp add: step_effect_def)
  qed
  moreover have "G b" if "(ar_last_cu (rf_arbiter rf) + b) mod length (rf_cu rf) = unit_of e"
    using s(7) nw row q b len nb(1) that w(5) s(5) by (simp add: grants_ok_def)
  moreover have "oc_cycle rf (ps, regs) = Some rf'" using w(1) s(1) by (simp add: oc_cycle_def)
  moreover have "same_shape rf rf'" using w(3) s(4,8) by (auto simp: step_effect_def intro: same_shape_trans)
  moreover have "ar_last_cu (rf_arbiter rf') = (ar_last_cu (rf_arbiter rf) + 1) mod length (rf_cu rf)"
    using s(8) s(5) w(5) len by (simp add: step_effect_def)
  moreover have "idle_at b rf'"
  proof -
    have n: "rf_num_banks rf' = rf_num_banks rf" using s(8) len(2) by (simp add: step_effect_def same_shape_def)
    have "length (ar_allocated (rf_arbiter rf')) = rf_num_banks rf'" using s(2) by (simp add: oc_ok_def oc_inv_def shape_ok_def)
    then have "ar_allocated (rf_arbiter rf') ! b \<in> set (ar_allocated (rf_arbiter rf'))" using b n by (intro nth_mem) simp
    then show ?thesis using s(2,3) b n by (simp add: idle_at_def)
  qed
  ultimately show ?thesis using xs by (intro exI [of _ rf'] exI [of _ xs]) (cases "G b"; auto)
qed

lemma writes_bank_shape: "same_shape rf rf' \<Longrightarrow> writes_bank rf' = writes_bank rf"
  by (simp add: writes_bank_def same_shape_def fun_eq_iff)

text \<open>The first request of a bank is granted when its turn comes, after at most as many cycles as there are collector units.\<close>

lemma granted_by_turn:
  assumes "idle_at b rf" "ar_queue (rf_arbiter rf) ! b = e # es" "(ar_last_cu (rf_arbiter rf) + t + b) mod length (rf_cu rf) = unit_of e"
    "t < length ios" "\<forall>(ps, regs) \<in> set ios. \<forall>p \<in> set ps. \<not> pi_empty p \<and> \<not> writes_bank rf b p"
  shows "\<exists>n \<le> t. \<exists>rf' xs. foldM oc_cycle rf (take (Suc n) ios) = Some rf' \<and> idle_at b rf' \<and> same_shape rf rf'
    \<and> ar_queue (rf_arbiter rf') ! b = es @ xs \<and> op_key e \<notin> missing (rf_cu rf')"
  using assms
proof (induction t arbitrary: rf es ios)
  case 0
  then obtain ps regs ios' where ios: "ios = (ps, regs) # ios'" by (cases ios) auto
  with "0.prems"(5) have w: "\<forall>p \<in> set ps. \<not> pi_empty p \<and> \<not> writes_bank rf b p" by simp
  from cycle_effect [OF "0.prems"(1) w "0.prems"(2), of regs] "0.prems"(3) ios show ?case by auto
next
  case (Suc t)
  then obtain ps regs ios' where ios: "ios = (ps, regs) # ios'" by (cases ios) auto
  with Suc.prems(5) have w: "\<forall>p \<in> set ps. \<not> pi_empty p \<and> \<not> writes_bank rf b p" by simp
  from cycle_effect [OF Suc.prems(1) w Suc.prems(2), of regs] obtain rf1 xs where
    c: "oc_cycle rf (ps, regs) = Some rf1" "idle_at b rf1" "same_shape rf rf1"
      "ar_last_cu (rf_arbiter rf1) = (ar_last_cu (rf_arbiter rf) + 1) mod length (rf_cu rf)"
      "ar_queue (rf_arbiter rf1) ! b = es @ xs \<and> op_key e \<notin> missing (rf_cu rf1) \<or> ar_queue (rf_arbiter rf1) ! b = e # (es @ xs)"
    by auto
  from c(5) show ?case
  proof
    assume "ar_queue (rf_arbiter rf1) ! b = es @ xs \<and> op_key e \<notin> missing (rf_cu rf1)"
    with c ios show ?thesis by (intro exI [of _ 0]) auto
  next
    assume q: "ar_queue (rf_arbiter rf1) ! b = e # (es @ xs)"
    let ?N = "length (rf_cu rf)"
    have len: "length (rf_cu rf1) = ?N" using c(3) by (simp add: same_shape_def)
    have "((ar_last_cu (rf_arbiter rf) + 1) mod ?N + t + b) mod ?N = (ar_last_cu (rf_arbiter rf) + Suc t + b) mod ?N"
      by (simp only: add.assoc mod_add_left_eq) simp
    then have t: "(ar_last_cu (rf_arbiter rf1) + t + b) mod length (rf_cu rf1) = unit_of e"
      using Suc.prems(3) c(4) len by simp
    have w1: "\<forall>(ps, regs) \<in> set ios'. \<forall>p \<in> set ps. \<not> pi_empty p \<and> \<not> writes_bank rf1 b p"
      using Suc.prems(5) ios writes_bank_shape [OF c(3)] by simp
    have "t < length ios'" using Suc.prems(4) ios by simp
    from Suc.IH [OF c(2) q t this w1] obtain n rf' ys where
      n: "n \<le> t" "foldM oc_cycle rf1 (take (Suc n) ios') = Some rf'" "idle_at b rf'" "same_shape rf1 rf'"
        "ar_queue (rf_arbiter rf') ! b = (es @ xs) @ ys" "op_key e \<notin> missing (rf_cu rf')" by blast
    have "foldM oc_cycle rf (take (Suc (Suc n)) ios) = Some rf'" using n(2) ios c(1) by simp
    moreover have "same_shape rf rf'" using c(3) n(4) by (rule same_shape_trans)
    moreover have "\<exists>zs. ar_queue (rf_arbiter rf') ! b = es @ zs" using n(5) by simp
    ultimately show ?thesis using n(1,3,6) by (intro exI [of _ "Suc n"]) auto
  qed
qed

lemma granted_first:
  assumes "idle_at b rf" "ar_queue (rf_arbiter rf) ! b = e # es" "length (rf_cu rf) \<le> length ios"
    "\<forall>(ps, regs) \<in> set ios. \<forall>p \<in> set ps. \<not> pi_empty p \<and> \<not> writes_bank rf b p"
  shows "\<exists>n \<le> length (rf_cu rf). \<exists>rf' xs. foldM oc_cycle rf (take n ios) = Some rf' \<and> idle_at b rf' \<and> same_shape rf rf'
    \<and> ar_queue (rf_arbiter rf') ! b = es @ xs \<and> op_key e \<notin> missing (rf_cu rf')"
proof -
  let ?N = "length (rf_cu rf)"
  have inv: "oc_inv {#} rf" "b < rf_num_banks rf" using assms(1) by (simp_all add: idle_at_def oc_ok_def)
  then have "request_ok rf b e" using assms(2) by (simp add: oc_inv_def)
  then have u: "unit_of e < ?N" by (auto simp: request_ok_def unit_of_def)
  then have "0 < ?N" by linarith
  from diagonal_covers [OF this u, of "ar_last_cu (rf_arbiter rf)" b] obtain t where
    t: "t < ?N" "(ar_last_cu (rf_arbiter rf) + t + b) mod ?N = unit_of e" by blast
  have "t < length ios" using t(1) assms(3) by simp
  from granted_by_turn [OF assms(1,2) t(2) this assms(4)] obtain n rf' xs where
    "n \<le> t" "foldM oc_cycle rf (take (Suc n) ios) = Some rf'" "idle_at b rf'" "same_shape rf rf'"
    "ar_queue (rf_arbiter rf') ! b = es @ xs" "op_key e \<notin> missing (rf_cu rf')" by blast
  then show ?thesis using t(1) by (intro exI [of _ "Suc n"]) auto
qed

lemma granted_in_order:
  assumes "idle_at b rf" "k < length (ar_queue (rf_arbiter rf) ! b)" "Suc k * length (rf_cu rf) \<le> length ios"
    "\<forall>(ps, regs) \<in> set ios. \<forall>p \<in> set ps. \<not> pi_empty p \<and> \<not> writes_bank rf b p"
  shows "\<exists>n \<le> Suc k * length (rf_cu rf). \<exists>rf'. foldM oc_cycle rf (take n ios) = Some rf' \<and> length (rf_cu rf') = length (rf_cu rf)
    \<and> op_key (ar_queue (rf_arbiter rf) ! b ! k) \<notin> missing (rf_cu rf')"
  using assms
proof (induction k arbitrary: rf ios)
  case 0
  then obtain e es where q: "ar_queue (rf_arbiter rf) ! b = e # es" by (cases "ar_queue (rf_arbiter rf) ! b") auto
  have "length (rf_cu rf) \<le> length ios" using "0.prems"(3) by simp
  from granted_first [OF "0.prems"(1) q this "0.prems"(4)] q show ?case by (auto simp: same_shape_def)
next
  case (Suc k)
  let ?N = "length (rf_cu rf)"
  obtain e es where q: "ar_queue (rf_arbiter rf) ! b = e # es" using Suc.prems(2) by (cases "ar_queue (rf_arbiter rf) ! b") auto
  have "?N \<le> length ios" using Suc.prems(3) by simp
  from granted_first [OF Suc.prems(1) q this Suc.prems(4)] obtain n rf1 xs where
    n: "n \<le> ?N" "foldM oc_cycle rf (take n ios) = Some rf1" "idle_at b rf1" "same_shape rf rf1"
      "ar_queue (rf_arbiter rf1) ! b = es @ xs" by blast
  let ?ios = "drop n ios"
  have len: "length (rf_cu rf1) = ?N" using n(4) by (simp add: same_shape_def)
  have k: "k < length es" using Suc.prems(2) q by simp
  have w: "\<forall>(ps, regs) \<in> set ?ios. \<forall>p \<in> set ps. \<not> pi_empty p \<and> \<not> writes_bank rf1 b p"
    using Suc.prems(4) writes_bank_shape [OF n(4)] by (auto dest: in_set_dropD)
  have "Suc k * length (rf_cu rf1) \<le> length ?ios" using Suc.prems(3) n(1) len by simp
  from Suc.IH [OF n(3) _ this w] k n(5) obtain m rf' where
    m: "m \<le> Suc k * ?N" "foldM oc_cycle rf1 (take m ?ios) = Some rf'" "length (rf_cu rf') = ?N"
      "op_key (es ! k) \<notin> missing (rf_cu rf')" by (auto simp: nth_append len)
  have "foldM oc_cycle rf (take (n + m) ios) = Some rf'" using n(2) m(2) by (simp add: take_add foldM_append)
  moreover have "ar_queue (rf_arbiter rf) ! b ! Suc k = es ! k" using q by simp
  ultimately show ?case using n(1) m(1,3,4) by (intro exI [of _ "n + m"]) auto
qed

section \<open>Writing results, exactly\<close>

definition result_banks :: "opndcoll \<Rightarrow> oc_inst \<Rightarrow> nat list" where
  "result_banks rf p = map (\<lambda>reg. register_bank reg (inst_warp_id p) (rf_num_banks rf) (rf_bank_warp_shift rf)) (get_regs_written p)"

lemma write_regs_iff:
  assumes "oc_ok rf" "write_regs p rs rf = Some (r, rf')"
  defines "banks \<equiv> map (\<lambda>reg. register_bank reg (inst_warp_id p) (rf_num_banks rf) (rf_bank_warp_shift rf)) rs"
  shows "r \<longleftrightarrow> distinct banks \<and> (\<forall>b \<in> set banks. ar_allocated (rf_arbiter rf) ! b = NO_ALLOC)"
  using assms(1,2) unfolding banks_def
proof (induction rs arbitrary: rf)
  case Nil
  then show ?case by simp
next
  case (Cons reg rs)
  let ?bank = "\<lambda>reg. register_bank reg (inst_warp_id p) (rf_num_banks rf) (rf_bank_warp_shift rf)"
  let ?b = "?bank reg" and ?a = "rf_arbiter rf"
  have shape: "0 < rf_num_banks rf" "ar_num_banks ?a = rf_num_banks rf" "length (ar_allocated ?a) = rf_num_banks rf"
    using Cons.prems by (simp_all add: oc_ok_def oc_inv_def shape_ok_def)
  then have b: "?b < rf_num_banks rf" by (simp add: register_bank_less)
  define B where "B = map ?bank rs"
  show ?case
  proof (cases "ar_allocated ?a ! ?b = NO_ALLOC")
    case False
    then show ?thesis using b shape Cons.prems by (auto simp: bank_idle_def Let_def)
  next
    case True
    let ?op = "write_op p reg (rf_num_banks rf) (rf_bank_warp_shift rf)"
    let ?rf = "rf\<lparr>rf_arbiter := ?a\<lparr>ar_allocated := (ar_allocated ?a)[?b := WRITE_ALLOC ?op]\<rparr>\<rparr>"
    have "oc_ok ?rf"
    proof -
      have "set ((ar_allocated ?a)[?b := WRITE_ALLOC ?op]) \<subseteq> insert (WRITE_ALLOC ?op) (set (ar_allocated ?a))"
        by (rule set_update_subset_insert)
      then have "no_reads ?rf" using Cons.prems by (fastforce simp: oc_ok_def no_reads_def)
      then show ?thesis using Cons.prems by (simp add: oc_ok_def oc_inv_def shape_ok_def request_ok_def pending_def)
    qed
    moreover have "write_regs p rs ?rf = Some (r, rf')"
      using Cons.prems(2) True b shape by (simp add: bank_idle_def allocate_bank_for_write_def allocate_bank_def Let_def)
    ultimately have "r \<longleftrightarrow> distinct B \<and> (\<forall>d \<in> set B. (ar_allocated ?a)[?b := WRITE_ALLOC ?op] ! d = NO_ALLOC)"
      using Cons.IH [of ?rf] by (simp add: B_def)
    moreover have "(ar_allocated ?a)[?b := WRITE_ALLOC ?op] ! d = NO_ALLOC \<longleftrightarrow> d \<noteq> ?b \<and> ar_allocated ?a ! d = NO_ALLOC" for d
      using b shape by (cases "d = ?b") simp_all
    ultimately have "r \<longleftrightarrow> distinct (?b # B) \<and> (\<forall>d \<in> set (?b # B). ar_allocated ?a ! d = NO_ALLOC)" using True by auto
    then show ?thesis by (simp only: B_def list.map)
  qed
qed

section \<open>A core with three collector units\<close>

definition small_config :: oc_config where
  "small_config = \<lparr>num_units = (\<lambda>k. if k = SP_CUS then 2 else if k = MEM_CUS then 1 else 0),
     num_in_ports = (\<lambda>k. if k = SP_CUS \<or> k = MEM_CUS then 1 else 0),
     num_out_ports = (\<lambda>k. if k = SP_CUS \<or> k = MEM_CUS then 1 else 0), num_reg_banks = 2, oc_warp_size = 32\<rparr>"

text \<open>An addition of two registers of the same bank, and the state after it was taken.\<close>

definition add_inst :: oc_inst where
  "add_inst = empty_inst\<lparr>pi_op := ALU_OP, pi_empty := False, pi_uid := 1,
     arch_src := (\<lambda>i. if i = 0 then 1 else if i = 1 then 3 else - 1), arch_dst := (\<lambda>i. if i = 0 then 5 else - 1)\<rparr>"

definition no_insts :: pipeline_regs where
  "no_insts = (\<lambda>_. [empty_inst])"

definition small_start :: opndcoll where
  "small_start = the (core_operand_collector small_config)"

definition small_busy :: opndcoll where
  "small_busy = fst (the (step small_start (no_insts(ID_OC_SP := [add_inst]))))"

lemma small_config_ok: "oc_config_ok small_config"
  by (simp add: oc_config_ok_def small_config_def num_collectors_def)

lemma small_reach: "oc_reach small_config small_busy"
proof -
  have "core_operand_collector small_config \<noteq> None"
    using core_operand_collector_ok [of small_config] small_config_ok by (auto simp: oc_config_ok_def ok_def)
  then have s: "oc_reach small_config small_start" by (auto simp: small_start_def intro: oc_reach.start)
  from reach_ok [OF this small_config_ok] have "oc_ok small_start" by simp
  from step_ok [OF this, of "no_insts(ID_OC_SP := [add_inst])"] obtain rf' regs' where
    "step small_start (no_insts(ID_OC_SP := [add_inst])) = Some (rf', regs')" by (auto simp: ok_def)
  then show ?thesis using oc_reach.stepped [OF s] by (simp add: small_busy_def)
qed

lemma small_busy_queue: "length (ar_queue (rf_arbiter small_busy) ! 1) = 2 \<and> bank_idle 1 (rf_arbiter small_busy) = Some True"
  by code_simp

section \<open>Properties\<close>

text \<open>C20. In every run of the operand collectors of a core with no more banks than collector units, a step succeeds whatever
  the pipeline registers hold, and loses and doubles no instruction: those in the pipeline registers and in the
  collector units before it are those after it. Writing the results of an instruction succeeds. The queues of the arbiter
  hold exactly the operands the collector units wait for, each once and in the queue of its bank.\<close>

theorem collectors_invariant:
  assumes "oc_config_ok cfg" "oc_reach cfg rf"
  shows "(\<forall>regs. \<exists>rf' regs'. step rf regs = Some (rf', regs')
        \<and> in_regs regs' + held (rf_cu rf') = in_regs regs + held (rf_cu rf))
    \<and> (\<forall>p. \<not> pi_empty p \<longrightarrow> writeback p rf \<noteq> None)
    \<and> mset (map op_key (concat (ar_queue (rf_arbiter rf)))) = mset_set (missing (rf_cu rf))
    \<and> (\<forall>b < rf_num_banks rf. \<forall>op \<in> set (ar_queue (rf_arbiter rf) ! b). request_ok rf b op)"
proof -
  have ok: "oc_ok rf" using reach_ok assms by blast
  have "\<exists>rf' regs'. step rf regs = Some (rf', regs') \<and> in_regs regs' + held (rf_cu rf') = in_regs regs + held (rf_cu rf)" for regs
    using step_ok [OF ok, of regs] by (auto simp: ok_def insts_def)
  moreover have "writeback p rf \<noteq> None" if "\<not> pi_empty p" for p using writeback_ok [OF ok that] by (auto simp: ok_def)
  ultimately show ?thesis using ok by (simp add: oc_ok_def oc_inv_def pending_def)
qed

theorem collectors_invariant_witness:
  "step small_busy no_insts \<noteq> None \<and> writeback add_inst small_busy \<noteq> None
   \<and> mset (map op_key (concat (ar_queue (rf_arbiter small_busy)))) = mset_set (missing (rf_cu small_busy))"
proof -
  note c = collectors_invariant [OF small_config_ok small_reach]
  have "step small_busy no_insts \<noteq> None" using c by (metis option.distinct(1))
  then show ?thesis using c by (simp add: add_inst_def)
qed

text \<open>The arbiter grants a matching: from each bank that is not written at most its first request, from each collector
  unit at most one operand; and it leaves a request only when another one of the same collector unit is granted.\<close>

theorem arbiter_matching:
  assumes "oc_config_ok cfg" "oc_reach cfg rf"
  shows "\<exists>ops a. arbiter_allocate_reads (rf_cu rf) (rf_arbiter rf) = Some (ops, a)
    \<and> distinct (map op_bank ops) \<and> distinct (map op_cu ops)
    \<and> (\<forall>op \<in> set ops. \<not> is_write (ar_allocated (rf_arbiter rf) ! op_bank op)
         \<and> ar_queue (rf_arbiter rf) ! op_bank op = op # ar_queue a ! op_bank op)
    \<and> (\<forall>b < rf_num_banks rf. \<forall>op. \<not> is_write (ar_allocated (rf_arbiter rf) ! b) \<longrightarrow> op \<in> set (take 1 (ar_queue (rf_arbiter rf) ! b))
         \<longrightarrow> op \<in> set ops \<or> (\<exists>op' \<in> set ops. op_cu op' = op_cu op))"
proof -
  have inv: "oc_inv {#} rf" using reach_ok [OF assms(2,1)] by (simp add: oc_ok_def)
  let ?q = "ar_queue (rf_arbiter rf)" and ?al = "ar_allocated (rf_arbiter rf)"
  have shape: "ar_num_banks (rf_arbiter rf) = rf_num_banks rf" "rf_num_banks rf \<le> length (rf_cu rf)" "length ?q = rf_num_banks rf"
    using inv by (simp_all add: oc_inv_def shape_ok_def)
  have "ar_num_banks (rf_arbiter rf) \<le> length (rf_cu rf)" using shape by simp
  from arbiter_grants [OF arb_ok_inv [OF inv] this] obtain G a where G: "grants_ok (rf_cu rf) (rf_arbiter rf) G"
    and r: "arbiter_allocate_reads (rf_cu rf) (rf_arbiter rf) = Some (granted_ops rf G, a)" "ar_queue a = pop_banks G ?q"
    unfolding granted_ops_def shape(1) by auto
  note gr = granted_request [OF inv G]
  let ?gs = "filter G [0..<rf_num_banks rf]"
  have bank: "op_bank (hd (?q ! b)) = b" if "b \<in> set ?gs" for b using gr(1) [of b] that by (simp add: request_ok_def)
  have "map op_bank (granted_ops rf G) = ?gs" unfolding granted_ops_def map_map using bank by (auto intro: map_idI)
  then have d1: "distinct (map op_bank (granted_ops rf G))" by simp
  have row: "row_of (rf_cu rf) (?q ! b) = op_cu (hd (?q ! b))" if b: "b < rf_num_banks rf" "?q ! b \<noteq> []" for b
  proof -
    obtain op ops where q: "?q ! b = op # ops" using b(2) by (auto simp: neq_Nil_conv)
    then have "request_ok rf b op" using inv b(1) by (simp add: oc_inv_def)
    then show ?thesis using inv q by (auto simp: row_of_def get_oc_id_def request_ok_def oc_inv_def unit_ok_def)
  qed
  have "inj_on (\<lambda>b. op_cu (hd (?q ! b))) (set ?gs)"
  proof (rule inj_onI)
    fix b b' assume b: "b \<in> set ?gs" "b' \<in> set ?gs" "op_cu (hd (?q ! b)) = op_cu (hd (?q ! b'))"
    then have "row_of (rf_cu rf) (?q ! b) = row_of (rf_cu rf) (?q ! b')" using row gr(2) by simp
    then show "b = b'" using G b shape(1) by (simp add: grants_ok_def)
  qed
  then have d2: "distinct (map op_cu (granted_ops rf G))" by (simp add: granted_ops_def distinct_map comp_def)
  have each: "\<not> is_write (?al ! op_bank op) \<and> ?q ! op_bank op = op # ar_queue a ! op_bank op" if op: "op \<in> set (granted_ops rf G)" for op
  proof -
    from op obtain b where b: "b < rf_num_banks rf" "G b" "op = hd (?q ! b)" by (auto simp: granted_ops_def)
    with bank [of b] have "op_bank op = b" by simp
    then show ?thesis using gr(2,3) [OF b(1,2)] b shape(3) r(2) by (simp add: pop_banks_def)
  qed
  have maximal: "op \<in> set (granted_ops rf G) \<or> (\<exists>op' \<in> set (granted_ops rf G). op_cu op' = op_cu op)"
    if b: "b < rf_num_banks rf" "\<not> is_write (?al ! b)" "op \<in> set (take 1 (?q ! b))" for b op
  proof -
    have op: "op = hd (?q ! b)" "?q ! b \<noteq> []" using b(3) by (cases "?q ! b"; simp)+
    show ?thesis
    proof (cases "G b")
      case True
      then show ?thesis using b(1) op by (auto simp: granted_ops_def)
    next
      case False
      then obtain b' where b': "b' < rf_num_banks rf" "G b'" "row_of (rf_cu rf) (?q ! b') = row_of (rf_cu rf) (?q ! b)"
        using G b(1,2) op(2) shape(1) unfolding grants_ok_def by metis
      then have "op_cu (hd (?q ! b')) = op_cu op" using row b(1) op gr(2) by simp
      moreover have "hd (?q ! b') \<in> set (granted_ops rf G)" using b' by (auto simp: granted_ops_def)
      ultimately show ?thesis by blast
    qed
  qed
  show ?thesis using r(1) d1 d2 each maximal by blast
qed

text \<open>C15. No operand waits for ever: a request at position \<open>k\<close> of its bank is read within \<open>k + 1\<close> rounds of as many cycles as there
  are collector units, if in these cycles no result is written to the bank, whatever instructions are taken meanwhile.\<close>

theorem operand_read_in_time:
  assumes "oc_config_ok cfg" "oc_reach cfg rf" "bank_idle b (rf_arbiter rf) = Some True" "k < length (ar_queue (rf_arbiter rf) ! b)"
    "Suc k * num_collectors cfg \<le> length ios"
    "\<forall>(ps, regs) \<in> set ios. \<forall>p \<in> set ps. \<not> pi_empty p \<and> b \<notin> set (result_banks rf p)"
  shows "\<exists>n \<le> Suc k * num_collectors cfg. \<exists>rf'. foldM oc_cycle rf (take n ios) = Some rf'
    \<and> op_operand (ar_queue (rf_arbiter rf) ! b ! k) \<notin> cu_not_ready (rf_cu rf' ! the (op_cu (ar_queue (rf_arbiter rf) ! b ! k)))"
proof -
  have r: "oc_ok rf" "length (rf_cu rf) = num_collectors cfg" using reach_ok [OF assms(2,1)] by simp_all
  then have inv: "oc_inv {#} rf" "length (ar_allocated (rf_arbiter rf)) = rf_num_banks rf" by (simp_all add: oc_ok_def oc_inv_def shape_ok_def)
  have b: "b < rf_num_banks rf" "ar_allocated (rf_arbiter rf) ! b = NO_ALLOC"
    using assms(3) inv(2) by (auto simp: bank_idle_def bind_eq_Some_conv at_get_eq_Some)
  have w: "\<forall>(ps, regs) \<in> set ios. \<forall>p \<in> set ps. \<not> pi_empty p \<and> \<not> writes_bank rf b p"
  proof -
    have "writes_bank rf b p \<longleftrightarrow> b \<in> set (result_banks rf p)" for p by (auto simp: writes_bank_def result_banks_def)
    then show ?thesis using assms(6) by simp
  qed
  have "idle_at b rf" using r b by (simp add: idle_at_def)
  moreover have "Suc k * length (rf_cu rf) \<le> length ios" using assms(5) r(2) by simp
  ultimately obtain n rf' where n: "n \<le> Suc k * num_collectors cfg" "foldM oc_cycle rf (take n ios) = Some rf'"
    "length (rf_cu rf') = length (rf_cu rf)" "op_key (ar_queue (rf_arbiter rf) ! b ! k) \<notin> missing (rf_cu rf')"
    using granted_in_order [OF _ assms(4) _ w] r(2) by metis
  let ?e = "ar_queue (rf_arbiter rf) ! b ! k"
  have "request_ok rf b ?e" using inv(1) b(1) assms(4) by (simp add: oc_inv_def)
  then have "op_operand ?e \<notin> cu_not_ready (rf_cu rf' ! the (op_cu ?e))"
    using n(3,4) by (auto simp: request_ok_def missing_def op_key_def)
  with n(1,2) show ?thesis by blast
qed

theorem operand_read_in_time_witness:
  "\<exists>n \<le> 6. \<exists>rf'. foldM oc_cycle small_busy (take n (replicate 6 ([], no_insts))) = Some rf'
   \<and> op_operand (ar_queue (rf_arbiter small_busy) ! 1 ! 1) \<notin> cu_not_ready (rf_cu rf' ! the (op_cu (ar_queue (rf_arbiter small_busy) ! 1 ! 1)))"
proof -
  have n: "num_collectors small_config = 3" by (simp add: num_collectors_def small_config_def)
  have "Suc 1 * num_collectors small_config \<le> length (replicate 6 ([] :: oc_inst list, no_insts))" by (simp add: n)
  then show ?thesis
    using operand_read_in_time [OF small_config_ok small_reach, of 1 1 "replicate 6 ([], no_insts)"] small_busy_queue by (simp add: n)
qed

text \<open>Writing the results of an instruction succeeds exactly when they go to different banks none of which is taken.\<close>

theorem writeback_decides:
  assumes "oc_config_ok cfg" "oc_reach cfg rf" "writeback p rf = Some (done, rf')"
  shows "done \<longleftrightarrow> distinct (result_banks rf p) \<and> (\<forall>b \<in> set (result_banks rf p). ar_allocated (rf_arbiter rf) ! b = NO_ALLOC)"
proof -
  have "oc_ok rf" using reach_ok assms by blast
  moreover have "write_regs p (get_regs_written p) rf = Some (done, rf')"
    using assms(3) by (auto simp: writeback_def bind_eq_Some_conv)
  ultimately show ?thesis unfolding result_banks_def by (rule write_regs_iff)
qed

section \<open>Where the code deviates\<close>

text \<open>An instruction with two results in the same bank can never write them, in any cycle: the first result takes the bank of
  the second. The load store unit retries until the results are written.\<close>

theorem two_results_in_a_bank:
  assumes "oc_config_ok cfg" "oc_reach cfg rf" "\<not> distinct (result_banks rf p)" "\<not> pi_empty p"
  shows "\<exists>rf'. writeback p rf = Some (False, rf')"
proof -
  have ok: "oc_ok rf" using reach_ok assms by blast
  from writeback_ok [OF this assms(4)] obtain r rf' where w: "writeback p rf = Some (r, rf')" by (auto simp: ok_def)
  then have "write_regs p (get_regs_written p) rf = Some (r, rf')" by (auto simp: writeback_def bind_eq_Some_conv)
  from write_regs_iff [OF ok this] assms(3) have "\<not> r" by (simp add: result_banks_def)
  with w show ?thesis by simp
qed

text \<open>With more banks than collector units the arbiter fails an assertion in every step; the test that follows the assertion
  is the one that was meant to skip the missing outputs.\<close>

lemma foldM_dies: "x \<in> set xs \<Longrightarrow> (\<And>s. f s x = None) \<Longrightarrow> foldM f s xs = None"
  by (induction xs arbitrary: s) (auto split: bind_splits)

theorem more_banks_than_collectors:
  assumes "ar_num_collectors a < ar_num_banks a"
  shows "arbiter_allocate_reads cus a = None"
proof -
  let ?in = "ar_num_banks a" and ?out = "ar_num_collectors a"
  have s: "0 < ?in" using assms by simp
  from diagonal_covers [OF s assms, of "ar_last_cu a" 0] obtain p where p: "p < ?in" "(ar_last_cu a + p) mod ?in = ?out" by auto
  have "match_diagonal ?in ?out ?in rows (ar_last_cu a) m p = None" for rows m
    using p(2) s by (cases m) (simp add: match_diagonal_def match_entry_def upt_conv_Cons)
  then have "foldM (match_diagonal ?in ?out ?in rows (ar_last_cu a)) m [0..<?in] = None" for rows m
    using p(1) by (intro foldM_dies [of p]) simp_all
  then show ?thesis using assms by (simp add: arbiter_allocate_reads_def Let_def split: bind_splits)
qed

text \<open>The option that maps registers to banks without the number of the warp is never read: with two threads in a
  warp or more the number is always added.\<close>

theorem warp_id_always_used:
  assumes "core_operand_collector cfg = Some rf" "2 \<le> oc_warp_size cfg"
  shows "rf_bank_warp_shift rf \<noteq> 0"
    and "register_bank reg wid nb (rf_bank_warp_shift rf) = (reg + wid) mod nb"
proof -
  from assms(1) obtain rf0 where "opndcoll_init (num_reg_banks cfg) (oc_warp_size cfg) rf0 = Some rf"
    unfolding core_operand_collector_def Let_def by (meson bind_eq_Some_conv)
  then have "rf_bank_warp_shift rf = ilog2 (oc_warp_size cfg)" by (auto simp: opndcoll_init_def bind_eq_Some_conv Let_def)
  then show "rf_bank_warp_shift rf \<noteq> 0" using assms(2) by (simp add: ilog2.simps)
  then show "register_bank reg wid nb (rf_bank_warp_shift rf) = (reg + wid) mod nb" by (simp add: register_bank_def)
qed

end
