(* ===== verification/Spec2Isabelle.thy ===== *)
theory Spec2Isabelle
  imports Prelude Hardware_Model Aes_Field Aes_Op C_Pack Compression Scoreboard Tag_Array Mshr Data_Cache Coalescing Simt_Stack
    Ring_Buffer Tex_Cache Ptx_Memory Ptx_Regs Ptx_Alu Ptx_Arith Barrier Barrier_Sync Delay_Queue Dram_Sched Dram Dram_Timing Dram_Wf
    Dram_Config Addr_Dec Shd_Warp Register_Set Warp_Order Warp_Issue Issue_Ok Issue_Cycle
    Operand_Collector Oc_Arbiter Oc_Ok Oc_Run
begin

text \<open>
  Verification of the program of a side channel study: AES-128 on a graphics processor, run on a modified
  GPGPU-Sim (\<open>src/gpgpusim_secure\<close>) whose memory system can hide the addresses a warp accesses, and the byte
  operations with which the analysis walks between cipher key and round keys (\<open>src/AES_gpgpusim/aes-op.cpp\<close>).
  Paths below are under \<open>src/gpgpusim_secure/src\<close> unless they name \<open>AES_gpgpusim\<close>.


  The program.

  A kernel runs on cores of several warps of threads. The issue stage of a core picks a warp, checks the
  scoreboard and the pipelines, has the functional simulator (\<open>cuda-sim\<close>) execute the instruction for each
  thread of the top of the warp's reconvergence stack, and sends the instruction to a pipeline; barriers hold
  warps back. A memory instruction becomes memory accesses: the coalescing rules merge the addresses of the
  threads, unless the security switch turns that off. Accesses go to the data, constant and texture caches, with
  tags, miss registers and queues, and from there over the interconnect to the memory partition the address
  decoder names, through delay queues to a DRAM channel with its scheduler and its timing. Compressors measure
  how small a cache line would be.


  Theories, in the order of their imports, and what each proves.

  \<^item> \<open>Prelude\<close>: machine words, \<open>assert\<close> and \<open>vector::at\<close> as options, the loop \<open>foldM\<close> with its rules, the
    collections \<open>run_simps\<close>, \<open>ok_intros\<close> and \<open>len_simps\<close>. \<open>Hardware_Model\<close>: \<open>abstract_hardware_model.h\<close>,
    bitsets, ordered maps.
  \<^item> \<open>Aes_Field\<close> and \<open>Aes_Op\<close> (\<open>AES_gpgpusim/aes-op.cpp\<close>): the key schedule is that of FIPS-197, with the
    substitution box and the round constants computed in the field of 256 elements and not taken from the tables
    of the code, and its inverse recovers the cipher key from the last round key; the substitution boxes are
    inverse to each other (locale \<open>substitution_box\<close>).
  \<^item> \<open>C_Pack\<close> and \<open>Compression\<close> (\<open>gpgpu-sim/c-pack.c\<close>, \<open>compression.cpp\<close>): the base delta compressor returns the
    least size of its encodings on every line without the one difference whose absolute value is undefined, the
    dictionary compressor implements an abstract dictionary, the selector takes the best of its compressors
    (locales \<open>line_compressor\<close> and \<open>two_compressors\<close>).
  \<^item> \<open>Scoreboard\<close> (\<open>gpgpu-sim/scoreboard.cc\<close>): the table of a warp holds the registers not yet released of its
    instructions in flight, whether an instruction or a load releases them, and the check finds exactly the
    hazards, given by the registers an instruction reads and writes; what passes it cannot abort.
  \<^item> \<open>Simt_Stack\<close> (\<open>simt_stack\<close> of \<open>abstract_hardware_model.cc\<close>): every thread stays at its own program counter
    through divergence, reconvergence, call and return. \<open>Barrier\<close> and \<open>Barrier_Sync\<close> (\<open>barrier_set_t\<close> of
    \<open>gpgpu-sim/shader.cc\<close>): no warp passes a barrier at which all wait before every running warp of its block
    has come, and a block never gets stuck there, whatever its warps do at other barriers.
  \<^item> \<open>Shd_Warp\<close> (\<open>shd_warp_t\<close> of \<open>gpgpu-sim/shader.h\<close>): the counts of instructions and threads of a warp in every
    run. \<open>Warp_Order\<close> (\<open>order_lrr\<close>, \<open>order_by_priority\<close> and the classes derived from \<open>scheduler_unit\<close>): round
    robin starves no warp (locale \<open>fair_order\<close>), greedy then oldest and the two level order are what they say.
    \<open>std::sort\<close> is an argument with the contract \<open>cpp_sort\<close>, which insertion sort fulfils; the order of
    equivalent warps is left open.
  \<^item> \<open>Warp_Issue\<close>, \<open>Issue_Ok\<close>, \<open>Issue_Cycle\<close> (\<open>scheduler_unit::cycle\<close>, \<open>shader_core_ctx::issue_warp\<close>,
    \<open>core_t::execute_warp_inst_t\<close>, \<open>core_t::updateSIMTStack\<close>, \<open>register_set\<close>): the issue stage, which brings the
    four parts above together. A cycle is a run of an abstract machine that only issues what may be issued;
    issuing keeps the invariants of scoreboard, warp, barrier and stack; and a cycle, of one instruction or of
    several, never idles while a warp in its order can issue.
  \<^item> \<open>Register_Set\<close> (\<open>register_set\<close>), \<open>Operand_Collector\<close>, \<open>Oc_Arbiter\<close>, \<open>Oc_Ok\<close>, \<open>Oc_Run\<close> (\<open>opndcoll_rfu_t\<close> of
    \<open>gpgpu-sim/shader.h\<close> and \<open>shader.cc\<close>): between issue and execution an instruction waits in a collector unit
    for its operands. The arbiter grants a matching of banks and units that cannot be extended, the queues hold
    each missing operand once, no instruction is lost, and every operand is read within as many rounds of its
    bank as it has predecessors and one more.
  \<^item> \<open>Coalescing\<close> (\<open>warp_inst_t::generate_mem_accesses\<close> and the rules of compute capability 1.3): with coalescing
    off the number, type and size of the accesses do not depend on the addresses, which is the countermeasure of
    the study; with coalescing on there is one access for each segment; atomics are serialised; bank conflicts
    are counted.
  \<^item> \<open>Tag_Array\<close>, \<open>Mshr\<close>, \<open>Data_Cache\<close> (\<open>gpgpu-sim/gpu-cache.h\<close> and \<open>gpu-cache.cc\<close>): the probe, the tags'
    invariant, the requests waiting for a block in order (locale \<open>request_table\<close>), the policies of the data
    cache, and the invariant of every run of a cache.
  \<^item> \<open>Ring_Buffer\<close>, \<open>Tex_Cache\<close>: the texture cache returns its requests in order, loses none, and drains; its
    queues rely on the locale \<open>bounded_queue\<close>, which the ring buffer interprets.
  \<^item> \<open>Delay_Queue\<close> (\<open>gpgpu-sim/delayqueue.h\<close>): order and least latency (locale \<open>delay_pipe\<close>).
  \<^item> \<open>Addr_Dec\<close> (\<open>gpgpu-sim/addrdec.cc\<close>): sub partition and address inside it determine the address.
  \<^item> \<open>Dram_Sched\<close>, \<open>Dram\<close>, \<open>Dram_Wf\<close>, \<open>Dram_Timing\<close>, \<open>Dram_Config\<close> (\<open>gpgpu-sim/dram_sched.cc\<close>, \<open>dram.cc\<close>,
    \<open>gpu-sim.h\<close>): the scheduler refines an abstract first ready, first come order; no pointer of a channel
    dangles and no cycle fails; in every run the commands keep the timing of the configuration; the
    configuration has a group for every bank.
  \<^item> \<open>Ptx_Memory\<close>, \<open>Ptx_Regs\<close>, \<open>Ptx_Alu\<close>, \<open>Ptx_Arith\<close> (\<open>cuda-sim/memory.cc\<close>, \<open>ptx_sim.h\<close>, \<open>ptx_ir.h\<close>,
    \<open>instructions.cc\<close>): the paged memory is a map of bytes, registers read back what was written, and the
    arithmetic, flags and conversions are exact modulo their width.

  Within a theory the definitions come in the order of the code, then the lemmas about each operation, then the
  properties, and last the places where the code deviates from its intention.


  Conventions.

  A failing \<open>assert\<close>, \<open>abort\<close>, an index out of range, a dangling pointer and an undefined operation are \<open>None\<close>,
  so a property that says an operation is \<open>Some\<close> says that none of these happens. Two exceptions, where the
  code's compilers leave no doubt: the shift of \<open>set_operand_value\<close> by 63 is taken modulo 32, and the tables of
  \<open>Addr_Dec\<close> hold their \<open>int\<close> numbers as words of 32 bits. Words have the width of the code where wrap-around
  can be seen, otherwise counters are natural numbers. A \<open>std::bitset\<close> is a set, a pointer is a number with a
  heap or a position in a table, an iterator is a position in its list. Loops are folds over their indices or
  recursive functions with a measure; a loop that may not end is a partial function with the value \<open>None\<close>. Where
  a run is cut into rounds the number of rounds is a length of the state (the requests waiting to be scheduled
  in \<open>Dram\<close>, the instructions a warp may issue in \<open>Warp_Issue\<close>), which the code's loop cannot exceed.

  Interfaces are locales, each interpreted on the model's own functions: \<open>sbx\<close> in \<open>Aes_Op\<close>, \<open>bdi\<close>, \<open>fpc\<close> and
  their combination in \<open>Compression\<close>, \<open>mshrs\<close> in \<open>Mshr\<close>, \<open>rb\<close> in \<open>Ring_Buffer\<close>, \<open>fq\<close> in \<open>Delay_Queue\<close>, \<open>lrr\<close> and
  \<open>ins\<close> in \<open>Warp_Order\<close>. Parameters stand for what is not modelled: the floating point unit of \<open>Ptx_Alu\<close>, the
  next level of memory of the caches, and in \<open>Warp_Issue\<close> the functional simulator, of which \<open>exec_ok\<close> asks that
  executing a running thread at its program counter succeeds and changes no other thread.


  Not modelled.

  \<^item> The CUDA kernels, the host program and the server of \<open>AES_gpgpusim\<close>: device code and input and output.
  \<^item> The parser, the loader and the symbol tables of PTX, and with them branches, calls, memory and texture
    instructions of \<open>cuda-sim\<close>: a generated grammar with actions that build global tables.
  \<^item> Of \<open>gpgpu-sim/shader.cc\<close>: fetching, launching and retiring blocks, the execution pipelines, the load store
    unit and the clusters. Of \<open>gpgpu-sim\<close>: the queues of \<open>l2cache.cc\<close> around the modelled cache, channel and
    decoder, the bookkeeping of \<open>mem_fetch.cc\<close>, the top level of \<open>gpu-sim.cc\<close> with its clocks in floating point.
  \<^item> The interconnect simulator \<open>intersim2\<close> and the power model \<open>gpuwattch\<close>, which are copies of BookSim 2, McPAT
    and CACTI.
  \<^item> Statistics, tracing, visualisation, option parsing, the replacements of the CUDA and OpenCL run time, and
    the tools \<open>cuobjdump_to_ptxplus\<close> and \<open>aerialvision\<close>.
\<close>

end
